(* ===== verification/Prelude.thy ===== *)
theory Prelude
  imports Main "HOL-Library.Word" "HOL-Library.Monad_Syntax"
begin

text \<open>
  Shared vocabulary of the development: the C integer types of the ARM32 port as machine
  words, NULL-able object pointers, packed cell arrays (the bitmaps of the page allocator
  and of the kernel stack pool) and the word and counting lemmas every component uses.
\<close>

unbundle bit_operations_syntax

section \<open>Types and collections\<close>

type_synonym u8 = "8 word"
type_synonym u32 = "32 word"
type_synonym u64 = "64 word"

named_theorems addr_simps \<open>address arithmetic on 32-bit words, read as natural numbers\<close>

section \<open>NULL-able object pointers\<close>

text \<open>
  An entry point of the C code takes a pointer to the object it works on and returns an
  error code when that pointer is NULL.  The object itself is a value of the model; the
  entry point is the operation on the value behind the NULL guard.
\<close>

definition nonnull :: "'e \<Rightarrow> ('s \<Rightarrow> 'e \<times> 's) \<Rightarrow> 's option \<Rightarrow> 'e \<times> 's option" where
  "nonnull err f P =
     (case P of
        None \<Rightarrow> (err, None)
      | Some p \<Rightarrow> (case f p of (e, p') \<Rightarrow> (e, Some p')))"

lemma nonnull_None [simp]: "nonnull err f None = (err, None)"
  by (simp add: nonnull_def)

lemma nonnull_Some [simp]: "nonnull err f (Some p) = (fst (f p), Some (snd (f p)))"
  by (simp add: nonnull_def split: prod.splits)

lemma nonnull_pred:
  assumes "\<And>p. I p \<Longrightarrow> I (snd (f p))" and "pred_option I P"
  shows "pred_option I (snd (nonnull err f P))"
  using assms by (cases P) auto

section \<open>Words read as natural numbers\<close>

lemma unat_add_small [addr_simps]:
  fixes x y :: "'a::len word"
  assumes "unat x + unat y < 2 ^ LENGTH('a)"
  shows "unat (x + y) = unat x + unat y"
  using assms by (simp add: unat_word_ariths)

lemma unat_sub_le [addr_simps]:
  fixes x y :: "'a::len word"
  assumes "unat y \<le> unat x"
  shows "unat (x - y) = unat x - unat y"
  using assms by (simp add: unat_sub word_le_nat_alt)

lemma unat_of_nat_small [addr_simps]:
  assumes "n < 2 ^ LENGTH('a::len)"
  shows "unat (of_nat n :: 'a word) = n"
  using assms by (simp add: unat_of_nat take_bit_nat_eq_self)

lemma unat_lt32 [simp]: "unat (x :: u32) < 4294967296"
  using unsigned_less [of x] by simp

lemma unat_ucast64 [simp]: "unat (ucast (x :: u32) :: u64) = unat x"
proof -
  have "unat x < 2 ^ 64" by (rule order_less_le_trans [OF unat_lt32]) simp
  then have "take_bit 64 (unat x) = unat x" by (rule take_bit_nat_eq_self)
  then show ?thesis by (simp add: unsigned_ucast_eq)
qed

lemma unat_and_mask:
  fixes x :: "'a::len word"
  shows "unat (x AND mask n) = unat x mod 2 ^ n"
proof -
  have "unat (x AND mask n) = unat (take_bit n x)" by (simp only: take_bit_eq_mask)
  also have "\<dots> = take_bit n (unat x)" by (rule unsigned_take_bit_eq)
  finally show ?thesis by (simp only: take_bit_eq_mod)
qed

lemma and_mask_0_iff:
  fixes x :: "'a::len word"
  shows "x AND mask n = 0 \<longleftrightarrow> unat x mod 2 ^ n = 0"
  using unat_and_mask [of x n] by (metis unat_eq_zero)

lemma nat_and_mask: "(n::nat) AND mask k = n mod 2 ^ k"
  by (simp add: take_bit_eq_mask [symmetric] take_bit_eq_mod)

lemma unat_push_bit_small [addr_simps]:
  fixes x :: "'a::len word"
  assumes "unat x * 2 ^ k < 2 ^ LENGTH('a)"
  shows "unat (push_bit k x) = unat x * 2 ^ k"
proof -
  have "unat (push_bit k x) = take_bit LENGTH('a) (push_bit k (unat x))"
    by (rule unsigned_push_bit_eq)
  then show ?thesis using assms by (simp add: push_bit_eq_mult take_bit_nat_eq_self)
qed

lemma unat_drop_bit [addr_simps]:
  fixes x :: "'a::len word"
  shows "unat (drop_bit k x) = unat x div 2 ^ k"
proof -
  have "unat (drop_bit k x) = drop_bit k (take_bit LENGTH('a) (unat x))"
    by (rule unsigned_drop_bit_eq)
  also have "take_bit LENGTH('a) (unat x) = unat x"
    by (rule take_bit_nat_eq_self) (rule unsigned_less)
  finally show ?thesis by (simp only: drop_bit_eq_div)
qed

lemma and_not_mask_eq:
  fixes x :: "'a::len word"
  shows "x AND NOT (mask k) = push_bit k (drop_bit k x)"
  by (rule bit_word_eqI) (auto simp: bit_and_iff bit_not_iff bit_mask_iff bit_push_bit_iff bit_drop_bit_eq)

lemma unat_and_not_mask [addr_simps]:
  fixes x :: "'a::len word"
  shows "unat (x AND NOT (mask k)) = unat x - unat x mod 2 ^ k"
proof -
  have "unat (drop_bit k x) * 2 ^ k \<le> unat x" by (simp only: unat_drop_bit) (rule div_times_less_eq_dividend)
  moreover have "unat x < 2 ^ LENGTH('a)" by (rule unsigned_less)
  ultimately have "unat (push_bit k (drop_bit k x)) = unat (drop_bit k x) * 2 ^ k"
    by (intro unat_push_bit_small) linarith
  then show ?thesis by (simp only: and_not_mask_eq unat_drop_bit) (simp add: minus_mod_eq_div_mult)
qed

lemma mask12: "(4095 :: u32) = mask 12"
  by (simp add: mask_eq_exp_minus_1)

lemma word_le_unat: "(x :: 'a::len word) \<le> y \<longleftrightarrow> unat x \<le> unat y"
  by (rule word_le_nat_alt)

lemma word_lt_unat: "(x :: 'a::len word) < y \<longleftrightarrow> unat x < unat y"
  by (rule word_less_nat_alt)

lemma word_eq_unat: "(x :: 'a::len word) = y \<longleftrightarrow> unat x = unat y"
  by (auto intro: word_unat_eq_iff [THEN iffD2])

lemma page_ceil_less: "i < (m + 4095) div 4096 \<longleftrightarrow> i * 4096 < (m :: nat)"
proof -
  have "i < (m + 4095) div 4096 \<longleftrightarrow> Suc i * 4096 \<le> m + 4095"
    using less_eq_div_iff_mult_less_eq [of 4096 "Suc i" "m + 4095"] by (simp only: Suc_le_eq)
  then show ?thesis by auto
qed

lemma page_floor_le: "m div 4096 \<le> i \<longleftrightarrow> (m :: nat) < (i + 1) * 4096"
proof -
  have "m div 4096 < i + 1 \<longleftrightarrow> m < (i + 1) * 4096"
    by (rule div_less_iff_less_mult) simp
  then show ?thesis by auto
qed

section \<open>Packed cell arrays\<close>

text \<open>How many of the first \<open>n\<close> cells hold the value \<open>v\<close>.\<close>

definition cell_count :: "(nat \<Rightarrow> 'v) \<Rightarrow> nat \<Rightarrow> 'v \<Rightarrow> nat" where
  "cell_count f n v = card {i. i < n \<and> f i = v}"

lemma cell_count_le: "cell_count f n v \<le> n"
proof -
  have "card {i. i < n \<and> f i = v} \<le> card {..<n}"
    by (rule card_mono) auto
  then show ?thesis by (simp add: cell_count_def)
qed

lemma cell_count_pos: "i < n \<Longrightarrow> f i = v \<Longrightarrow> 0 < cell_count f n v"
  by (auto simp: cell_count_def card_gt_0_iff)

lemma cell_count_0_iff: "cell_count f n v = 0 \<longleftrightarrow> (\<forall>i<n. f i \<noteq> v)"
  by (auto simp: cell_count_def)

lemma cell_count_cong: "(\<And>i. i < n \<Longrightarrow> f i = g i) \<Longrightarrow> cell_count f n v = cell_count g n v"
  unfolding cell_count_def by (rule arg_cong [where f = card]) auto

lemma cell_count_upd_new:
  assumes "i < n" and "f i \<noteq> v"
  shows "cell_count (f(i := v)) n v = Suc (cell_count f n v)"
proof -
  have "{j. j < n \<and> (f(i := v)) j = v} = insert i {j. j < n \<and> f j = v}"
    using assms by auto
  then show ?thesis using assms by (simp add: cell_count_def)
qed

lemma cell_count_upd_old:
  assumes "i < n" and "f i = w" and "v \<noteq> w"
  shows "cell_count (f(i := v)) n w = cell_count f n w - 1"
proof -
  have "{j. j < n \<and> (f(i := v)) j = w} = {j. j < n \<and> f j = w} - {i}"
    using assms by auto
  then show ?thesis using assms by (simp add: cell_count_def)
qed

lemma cell_count_upd_other:
  assumes "f i \<noteq> w" and "v \<noteq> w"
  shows "cell_count (f(i := v)) n w = cell_count f n w"
  unfolding cell_count_def using assms by (intro arg_cong [where f = card]) auto

lemma cell_count_partition3:
  assumes "\<And>i. i < n \<Longrightarrow> f i \<in> {a, b, c}" and "a \<noteq> b" "a \<noteq> c" "b \<noteq> c"
  shows "cell_count f n a + cell_count f n b + cell_count f n c = n"
proof -
  let ?S = "\<lambda>v. {i. i < n \<and> f i = v}"
  have "{..<n} = (?S a \<union> ?S b) \<union> ?S c" using assms(1) by auto
  then have "n = card ((?S a \<union> ?S b) \<union> ?S c)" by (metis card_lessThan)
  also have "\<dots> = card (?S a \<union> ?S b) + card (?S c)"
    using assms(2-) by (intro card_Un_disjoint) auto
  also have "card (?S a \<union> ?S b) = card (?S a) + card (?S b)"
    using assms(2-) by (intro card_Un_disjoint) auto
  finally show ?thesis by (simp add: cell_count_def)
qed

text \<open>
  A packed array stores cell values inside machine words: reading a cell after a write
  sees the written value in that cell and the old value in every other one.  Clients of a
  bitmap use nothing else.
\<close>

locale packed_cells =
  fixes get :: "'m \<Rightarrow> nat \<Rightarrow> 'v" and put :: "'m \<Rightarrow> nat \<Rightarrow> 'v \<Rightarrow> 'm" and fits :: "'v \<Rightarrow> bool"
  assumes get_put_same: "fits v \<Longrightarrow> get (put m i v) i = v"
    and get_put_other: "i \<noteq> j \<Longrightarrow> get (put m i v) j = get m j"
begin

lemma get_put: "fits v \<Longrightarrow> get (put m i v) = (get m)(i := v)"
  by (rule ext) (simp add: get_put_same get_put_other)

lemma put_count_new:
  "fits v \<Longrightarrow> i < n \<Longrightarrow> get m i \<noteq> v \<Longrightarrow>
   cell_count (get (put m i v)) n v = Suc (cell_count (get m) n v)"
  by (simp add: get_put cell_count_upd_new)

lemma put_count_old:
  "fits v \<Longrightarrow> i < n \<Longrightarrow> get m i = w \<Longrightarrow> v \<noteq> w \<Longrightarrow>
   cell_count (get (put m i v)) n w = cell_count (get m) n w - 1"
  by (simp add: get_put cell_count_upd_old)

lemma put_count_other:
  "fits v \<Longrightarrow> get m i \<noteq> w \<Longrightarrow> v \<noteq> w \<Longrightarrow>
   cell_count (get (put m i v)) n w = cell_count (get m) n w"
  by (simp add: get_put cell_count_upd_other)

lemma put_fold:
  "fits v \<Longrightarrow> get (fold (\<lambda>k m. put m k v) [a..<b] m) j = (if a \<le> j \<and> j < b then v else get m j)"
proof (induction b)
  case 0
  then show ?case by simp
next
  case (Suc b)
  then show ?case by (auto simp: get_put)
qed

end

section \<open>Signed readings\<close>

lemma sint_small:
  assumes "unat (w :: u32) < 2 ^ 31"
  shows "sint w = int (unat w)"
proof -
  have "signed_take_bit 31 (int (unat w)) = int (unat w)"
  proof (rule signed_take_bit_int_eq_self)
    show "- (2 ^ 31) \<le> int (unat w)" by (rule order_trans [of _ 0]) simp_all
    show "int (unat w) < 2 ^ 31" using assms by (metis of_nat_less_iff of_nat_numeral of_nat_power)
  qed
  then show ?thesis by (simp add: sint_uint)
qed

lemma sint_large:
  assumes "2 ^ 31 \<le> unat (w :: u32)"
  shows "sint w = int (unat w) - 2 ^ 32"
proof -
  define n where "n = unat w"
  have n: "2 ^ 31 \<le> n" "n < 4294967296" using assms unat_lt32 [of w] by (simp_all only: n_def)
  then have "n div 2 ^ 31 = 1" by (intro div_nat_eqI) simp_all
  then have "odd (int n div 2 ^ 31)" by (metis of_nat_1 of_nat_div of_nat_numeral of_nat_power odd_one)
  moreover have "take_bit 32 (int n) = int n" using n(2) by (intro take_bit_int_eq_self) simp_all
  ultimately have stb: "signed_take_bit 31 (int n) = int n - 2 ^ 32"
    by (simp add: signed_take_bit_eq_take_bit_minus bit_iff_odd)
  have "uint w = int n" by (simp add: n_def)
  then have "signed_take_bit 31 (uint w) = int n - 2 ^ 32" using stb by (simp only:)
  moreover have "sint w = signed_take_bit 31 (uint w)" by (simp add: sint_uint)
  ultimately show ?thesis by (simp only: n_def)
qed

text \<open>A \<open>memcpy\<close> into a buffer held as a list.\<close>

definition overwrite :: "nat \<Rightarrow> 'b list \<Rightarrow> 'b list \<Rightarrow> 'b list" where
  "overwrite i ys xs = take i xs @ ys @ drop (i + length ys) xs"

lemma length_overwrite [simp]: "i + length ys \<le> length xs \<Longrightarrow> length (overwrite i ys xs) = length xs"
  by (simp add: overwrite_def)

end
