(* ===== verification/Palloc.thy ===== *)
theory Palloc
  imports Prelude
begin

text \<open>
  The physical page allocator, \<open>arch/arm32/src/palloc.c\<close>: a two-bit-per-page bitmap over a
  contiguous pool, with first-fit runs, reservation and checked release.  A page index is a
  natural number (the C loops keep it below \<open>page_count\<close>, a \<open>u32\<close>); every counter
  and address stays a 32-bit word.
\<close>

section \<open>Data\<close>

datatype palloc_err =
    PALLOC_OK | PALLOC_ERR_NOT_INIT | PALLOC_ERR_ALIGN | PALLOC_ERR_RANGE
  | PALLOC_ERR_DOUBLE_FREE | PALLOC_ERR_RESERVED | PALLOC_ERR_ALREADY_USED
  | PALLOC_ERR_OOM | PALLOC_ERR_TOO_MANY | PALLOC_ERR_BAD_ARGS

abbreviation (input) PALLOC_PAGE_SHIFT :: nat where "PALLOC_PAGE_SHIFT \<equiv> 12"
abbreviation (input) PALLOC_PAGE_SIZE :: u32 where "PALLOC_PAGE_SIZE \<equiv> 4096"
abbreviation (input) PALLOC_BITS_PER_PAGE :: nat where "PALLOC_BITS_PER_PAGE \<equiv> 2"
abbreviation (input) PALLOC_MAX_PAGES :: u32 where "PALLOC_MAX_PAGES \<equiv> 262144"
abbreviation (input) PALLOC_BITMAP_WORDS :: u32 where "PALLOC_BITMAP_WORDS \<equiv> 16384"

abbreviation (input) PALLOC_STATE_FREE :: u32 where "PALLOC_STATE_FREE \<equiv> 0"
abbreviation (input) PALLOC_STATE_USED :: u32 where "PALLOC_STATE_USED \<equiv> 1"
abbreviation (input) PALLOC_STATE_RSVD :: u32 where "PALLOC_STATE_RSVD \<equiv> 2"
abbreviation (input) PALLOC_STATE_BAD :: u32 where "PALLOC_STATE_BAD \<equiv> 255"

record palloc_t =
  p_base :: u32
  p_page_count :: u32
  p_free_pages :: u32
  p_used_pages :: u32
  p_reserved_pages :: u32
  p_peak_used :: u32
  p_bitmap :: "nat \<Rightarrow> u32"
  p_bitmap_words :: u32
  p_inited :: bool

section \<open>The bitmap\<close>

definition state_shift :: "nat \<Rightarrow> nat" where
  "state_shift index = (index AND 15) * PALLOC_BITS_PER_PAGE"

definition state_mask :: u32 where
  "state_mask = push_bit PALLOC_BITS_PER_PAGE 1 - 1"

definition bitmap_get :: "palloc_t \<Rightarrow> nat \<Rightarrow> u32" where
  "bitmap_get p index =
     (let word = p_bitmap p (index div 16); shift = state_shift index
      in drop_bit shift word AND state_mask)"

definition bitmap_set :: "palloc_t \<Rightarrow> nat \<Rightarrow> u32 \<Rightarrow> palloc_t" where
  "bitmap_set p index state =
     (let word = index div 16; shift = state_shift index; mask = push_bit shift state_mask
      in p\<lparr>p_bitmap := (p_bitmap p)(word :=
            (p_bitmap p word AND NOT mask) OR push_bit shift (state AND state_mask))\<rparr>)"

definition page_addr :: "palloc_t \<Rightarrow> nat \<Rightarrow> u32" where
  "page_addr p index = p_base p + push_bit PALLOC_PAGE_SHIFT (of_nat index)"

definition addr_to_index :: "palloc_t \<Rightarrow> u32 \<Rightarrow> palloc_err + nat" where
  "addr_to_index p addr =
     (if \<not> p_inited p then Inl PALLOC_ERR_NOT_INIT
      else if addr AND (PALLOC_PAGE_SIZE - 1) \<noteq> 0 then Inl PALLOC_ERR_ALIGN
      else if addr < p_base p then Inl PALLOC_ERR_RANGE
      else let offset = addr - p_base p
           in if push_bit PALLOC_PAGE_SHIFT (p_page_count p) \<le> offset then Inl PALLOC_ERR_RANGE
              else Inr (unat (drop_bit PALLOC_PAGE_SHIFT offset)))"

section \<open>Operations\<close>

definition palloc_init ::
  "u32 \<Rightarrow> u32 \<Rightarrow> (nat \<Rightarrow> u32) option \<Rightarrow> u32 \<Rightarrow> palloc_t \<Rightarrow> palloc_err \<times> palloc_t" where
  "palloc_init base sz bitmap bitmap_words p =
     (case bitmap of
        None \<Rightarrow> (PALLOC_ERR_BAD_ARGS, p)
      | Some bm \<Rightarrow>
          if base AND (PALLOC_PAGE_SIZE - 1) \<noteq> 0 then (PALLOC_ERR_ALIGN, p)
          else if sz = 0 \<or> sz AND (PALLOC_PAGE_SIZE - 1) \<noteq> 0 then (PALLOC_ERR_ALIGN, p)
          else if PALLOC_MAX_PAGES < drop_bit PALLOC_PAGE_SHIFT sz then (PALLOC_ERR_TOO_MANY, p)
          else if bitmap_words < PALLOC_BITMAP_WORDS then (PALLOC_ERR_BAD_ARGS, p)
          else (PALLOC_OK,
                p\<lparr>p_base := base,
                  p_page_count := drop_bit PALLOC_PAGE_SHIFT sz,
                  p_free_pages := drop_bit PALLOC_PAGE_SHIFT sz,
                  p_used_pages := 0,
                  p_reserved_pages := 0,
                  p_peak_used := 0,
                  p_bitmap := fold (\<lambda>i b. b(i := 0)) [0..<unat bitmap_words] bm,
                  p_bitmap_words := bitmap_words,
                  p_inited := True\<rparr>))"

function reserve_loop :: "nat \<Rightarrow> nat \<Rightarrow> palloc_t \<Rightarrow> palloc_err \<times> palloc_t" where
  "reserve_loop i lst p =
     (if i < lst then
        (let state = bitmap_get p i
         in if state = PALLOC_STATE_RSVD then reserve_loop (Suc i) lst p
            else if state = PALLOC_STATE_USED then (PALLOC_ERR_ALREADY_USED, p)
            else reserve_loop (Suc i) lst
                   ((bitmap_set p i PALLOC_STATE_RSVD)
                      \<lparr>p_free_pages := p_free_pages p - 1,
                       p_reserved_pages := p_reserved_pages p + 1\<rparr>))
      else (PALLOC_OK, p))"
  by pat_completeness auto
termination
  by (relation "measure (\<lambda>(i, lst, p). lst - i)") auto

declare reserve_loop.simps [simp del]

definition palloc_reserve :: "u32 \<Rightarrow> u32 \<Rightarrow> palloc_t \<Rightarrow> palloc_err \<times> palloc_t" where
  "palloc_reserve addr sz p =
     (if \<not> p_inited p then (PALLOC_ERR_NOT_INIT, p)
      else if sz = 0 then (PALLOC_ERR_BAD_ARGS, p)
      else
        let start = addr AND NOT (PALLOC_PAGE_SIZE - 1);
            end = (addr + sz + PALLOC_PAGE_SIZE - 1) AND NOT (PALLOC_PAGE_SIZE - 1);
            start = (if start < p_base p then p_base p else start);
            limit = p_base p + push_bit PALLOC_PAGE_SHIFT (p_page_count p)
        in if end \<le> start then (PALLOC_ERR_BAD_ARGS, p)
           else if limit \<le> start then (PALLOC_OK, p)
           else
             let end = (if limit < end then limit else end);
                 first = unat (drop_bit PALLOC_PAGE_SHIFT (start - p_base p));
                 lst = unat (drop_bit PALLOC_PAGE_SHIFT (end - p_base p))
             in reserve_loop first lst p)"

function alloc_scan :: "palloc_t \<Rightarrow> nat \<Rightarrow> nat \<Rightarrow> nat \<Rightarrow> nat \<Rightarrow> nat option" where
  "alloc_scan p n i run start =
     (if i < unat (p_page_count p) then
        (if bitmap_get p i = PALLOC_STATE_FREE then
           (let start = (if run = 0 then i else start); run = Suc run
            in if run = n then Some start else alloc_scan p n (Suc i) run start)
         else alloc_scan p n (Suc i) 0 start)
      else None)"
  by pat_completeness auto
termination
  by (relation "measure (\<lambda>(p, n, i, run, start). unat (p_page_count p) - i)") auto

declare alloc_scan.simps [simp del]

definition palloc_alloc_pages ::
  "u32 \<Rightarrow> bool \<Rightarrow> palloc_t \<Rightarrow> (palloc_err + u32) \<times> palloc_t" where
  "palloc_alloc_pages n out_null p =
     (if \<not> p_inited p then (Inl PALLOC_ERR_NOT_INIT, p)
      else if out_null \<or> n = 0 then (Inl PALLOC_ERR_BAD_ARGS, p)
      else if p_free_pages p < n then (Inl PALLOC_ERR_OOM, p)
      else
        (case alloc_scan p (unat n) 0 0 0 of
           None \<Rightarrow> (Inl PALLOC_ERR_OOM, p)
         | Some start \<Rightarrow>
             (let q = fold (\<lambda>k q. bitmap_set q k PALLOC_STATE_USED) [start..<start + unat n] p;
                  free = p_free_pages q - n;
                  used = p_used_pages q + n;
                  peak = (if p_peak_used q < used then used else p_peak_used q)
              in (Inr (page_addr q start),
                  q\<lparr>p_free_pages := free, p_used_pages := used, p_peak_used := peak\<rparr>))))"

definition palloc_alloc :: "bool \<Rightarrow> palloc_t \<Rightarrow> (palloc_err + u32) \<times> palloc_t" where
  "palloc_alloc out_null p = palloc_alloc_pages 1 out_null p"

definition palloc_free :: "u32 \<Rightarrow> palloc_t \<Rightarrow> palloc_err \<times> palloc_t" where
  "palloc_free addr p =
     (case addr_to_index p addr of
        Inl err \<Rightarrow> (err, p)
      | Inr index \<Rightarrow>
          let state = bitmap_get p index
          in if state = PALLOC_STATE_FREE then (PALLOC_ERR_DOUBLE_FREE, p)
             else if state = PALLOC_STATE_RSVD then (PALLOC_ERR_RESERVED, p)
             else (PALLOC_OK,
                   (bitmap_set p index PALLOC_STATE_FREE)
                     \<lparr>p_used_pages := p_used_pages p - 1,
                      p_free_pages := p_free_pages p + 1\<rparr>))"

definition palloc_state :: "palloc_t \<Rightarrow> u32 \<Rightarrow> u32" where
  "palloc_state p addr =
     (case addr_to_index p addr of
        Inl err \<Rightarrow> PALLOC_STATE_BAD
      | Inr index \<Rightarrow> bitmap_get p index)"

text \<open>The exported entry points: the same operations behind the NULL guard on the pool.\<close>

definition palloc_init_entry ::
  "palloc_t option \<Rightarrow> u32 \<Rightarrow> u32 \<Rightarrow> (nat \<Rightarrow> u32) option \<Rightarrow> u32 \<Rightarrow> palloc_err \<times> palloc_t option" where
  "palloc_init_entry P base sz bitmap bitmap_words =
     nonnull PALLOC_ERR_BAD_ARGS (palloc_init base sz bitmap bitmap_words) P"

definition palloc_reserve_entry :: "palloc_t option \<Rightarrow> u32 \<Rightarrow> u32 \<Rightarrow> palloc_err \<times> palloc_t option" where
  "palloc_reserve_entry P addr sz = nonnull PALLOC_ERR_NOT_INIT (palloc_reserve addr sz) P"

definition palloc_alloc_pages_entry ::
  "palloc_t option \<Rightarrow> u32 \<Rightarrow> bool \<Rightarrow> (palloc_err + u32) \<times> palloc_t option" where
  "palloc_alloc_pages_entry P n out_null =
     nonnull (Inl PALLOC_ERR_NOT_INIT) (palloc_alloc_pages n out_null) P"

definition palloc_free_entry :: "palloc_t option \<Rightarrow> u32 \<Rightarrow> palloc_err \<times> palloc_t option" where
  "palloc_free_entry P addr = nonnull PALLOC_ERR_NOT_INIT (palloc_free addr) P"

section \<open>The bitmap is a packed cell array\<close>

lemma state_shift_lt: "state_shift i < 31"
  using mod_less_divisor [of 16 i] nat_and_mask [of i 4]
  by (simp add: state_shift_def mask_eq_exp_minus_1)

lemma state_shift_mod: "state_shift i = (i mod 16) * 2"
  using nat_and_mask [of i 4] by (simp add: state_shift_def mask_eq_exp_minus_1)

lemma state_mask_eq: "state_mask = mask 2"
  by (simp add: state_mask_def mask_eq_exp_minus_1)

lemma bit_bitmap_get:
  "bit (bitmap_get p i) n \<longleftrightarrow> n < 2 \<and> bit (p_bitmap p (i div 16)) (state_shift i + n)"
  by (auto simp: bitmap_get_def Let_def state_mask_eq bit_simps)

lemma bitmap_get_set_same: "bitmap_get (bitmap_set p i v) i = v AND state_mask"
proof (rule bit_word_eqI)
  fix n assume "n < LENGTH(32)"
  then show "bit (bitmap_get (bitmap_set p i v) i) n = bit (v AND state_mask) n"
    using state_shift_lt [of i]
    by (auto simp: bit_bitmap_get bitmap_set_def Let_def state_mask_eq bit_simps)
qed

lemma bitmap_get_set_other:
  assumes "i \<noteq> j"
  shows "bitmap_get (bitmap_set p i v) j = bitmap_get p j"
proof (rule bit_word_eqI)
  fix n assume "n < LENGTH(32)"
  show "bit (bitmap_get (bitmap_set p i v) j) n = bit (bitmap_get p j) n"
  proof (cases "j div 16 = i div 16")
    case True
    then have "i mod 16 \<noteq> j mod 16" using assms by (metis div_mult_mod_eq)
    then show ?thesis using True
      by (auto simp: bit_bitmap_get bitmap_set_def Let_def state_mask_eq bit_simps state_shift_mod)
  next
    case False
    then show ?thesis by (simp add: bit_bitmap_get bitmap_set_def Let_def)
  qed
qed


interpretation pcells: packed_cells bitmap_get bitmap_set "\<lambda>v. v AND state_mask = v"
  by unfold_locales (simp_all add: bitmap_get_set_same bitmap_get_set_other)

lemma state_fits [simp]:
  "PALLOC_STATE_FREE AND state_mask = PALLOC_STATE_FREE"
  "PALLOC_STATE_USED AND state_mask = PALLOC_STATE_USED"
  "PALLOC_STATE_RSVD AND state_mask = PALLOC_STATE_RSVD"
  by (simp_all add: state_mask_def)

lemma bitmap_set_frame [simp]:
  "p_base (bitmap_set p i v) = p_base p"
  "p_page_count (bitmap_set p i v) = p_page_count p"
  "p_free_pages (bitmap_set p i v) = p_free_pages p"
  "p_used_pages (bitmap_set p i v) = p_used_pages p"
  "p_reserved_pages (bitmap_set p i v) = p_reserved_pages p"
  "p_peak_used (bitmap_set p i v) = p_peak_used p"
  "p_bitmap_words (bitmap_set p i v) = p_bitmap_words p"
  "p_inited (bitmap_set p i v) = p_inited p"
  by (simp_all add: bitmap_set_def Let_def)

lemma bitmap_get_frame [simp]:
  "bitmap_get (p\<lparr>p_free_pages := a\<rparr>) = bitmap_get p"
  "bitmap_get (p\<lparr>p_used_pages := a\<rparr>) = bitmap_get p"
  "bitmap_get (p\<lparr>p_reserved_pages := a\<rparr>) = bitmap_get p"
  "bitmap_get (p\<lparr>p_peak_used := a\<rparr>) = bitmap_get p"
  by (simp_all add: bitmap_get_def fun_eq_iff)

section \<open>Invariant and abstraction\<close>

text \<open>
  \<open>pages p\<close> is the number of pages and \<open>page_state p i\<close> the state of page \<open>i\<close>: together
  with the base address they are what the allocator promises to keep.
\<close>

abbreviation pages :: "palloc_t \<Rightarrow> nat" where "pages p \<equiv> unat (p_page_count p)"

definition count_of :: "palloc_t \<Rightarrow> u32 \<Rightarrow> nat" where
  "count_of p v = cell_count (bitmap_get p) (pages p) v"

definition palloc_inv :: "palloc_t \<Rightarrow> bool" where
  "palloc_inv p \<longleftrightarrow>
     p_inited p \<and>
     unat (p_base p) mod 4096 = 0 \<and>
     0 < pages p \<and> pages p \<le> 262144 \<and>
     unat (p_base p) + pages p * 4096 < 2 ^ 32 \<and>
     16384 \<le> unat (p_bitmap_words p) \<and>
     (\<forall>i<pages p. bitmap_get p i \<in> {PALLOC_STATE_FREE, PALLOC_STATE_USED, PALLOC_STATE_RSVD}) \<and>
     unat (p_free_pages p) = count_of p PALLOC_STATE_FREE \<and>
     unat (p_used_pages p) = count_of p PALLOC_STATE_USED \<and>
     unat (p_reserved_pages p) = count_of p PALLOC_STATE_RSVD \<and>
     unat (p_used_pages p) \<le> unat (p_peak_used p) \<and>
     unat (p_peak_used p) \<le> pages p"

lemma palloc_invD:
  assumes "palloc_inv p"
  shows "p_inited p" "unat (p_base p) mod 4096 = 0" "0 < pages p" "pages p \<le> 262144"
    "unat (p_base p) + pages p * 4096 < 4294967296"
    "16384 \<le> unat (p_bitmap_words p)"
    "i < pages p \<Longrightarrow> bitmap_get p i \<in> {PALLOC_STATE_FREE, PALLOC_STATE_USED, PALLOC_STATE_RSVD}"
    "unat (p_free_pages p) = count_of p PALLOC_STATE_FREE"
    "unat (p_used_pages p) = count_of p PALLOC_STATE_USED"
    "unat (p_reserved_pages p) = count_of p PALLOC_STATE_RSVD"
    "unat (p_used_pages p) \<le> unat (p_peak_used p)"
    "unat (p_peak_used p) \<le> pages p"
  using assms by (auto simp: palloc_inv_def)

lemma counts_total:
  assumes "palloc_inv p"
  shows "unat (p_free_pages p) + unat (p_used_pages p) + unat (p_reserved_pages p) = pages p"
proof -
  have "count_of p PALLOC_STATE_FREE + count_of p PALLOC_STATE_USED + count_of p PALLOC_STATE_RSVD
        = pages p"
    unfolding count_of_def using palloc_invD(7) [OF assms] by (rule cell_count_partition3) simp_all
  then show ?thesis using palloc_invD(8-10) [OF assms] by simp
qed

lemma unat_page_addr:
  assumes "palloc_inv p" and "i \<le> pages p"
  shows "unat (page_addr p i) = unat (p_base p) + i * 4096"
proof -
  have "i \<le> 262144" using assms palloc_invD(4) by fastforce
  then have i: "unat (push_bit 12 (of_nat i :: u32)) = i * 4096"
    by (simp add: unat_push_bit_small unat_of_nat_small)
  moreover have "unat (p_base p) + i * 4096 < 2 ^ 32"
    using palloc_invD(5) [OF assms(1)] assms(2) by simp
  ultimately show ?thesis by (simp add: page_addr_def unat_add_small del: push_bit_of_nat)
qed

lemma addr_to_index_spec:
  assumes inv: "palloc_inv p"
  shows "addr_to_index p addr =
    (if unat addr mod 4096 \<noteq> 0 then Inl PALLOC_ERR_ALIGN
     else if unat addr < unat (p_base p) \<or> unat (p_base p) + pages p * 4096 \<le> unat addr
       then Inl PALLOC_ERR_RANGE
     else Inr ((unat addr - unat (p_base p)) div 4096))"
proof -
  have pc: "unat (push_bit 12 (p_page_count p)) = pages p * 4096"
    using palloc_invD(4) [OF inv] by (simp add: unat_push_bit_small)
  have al: "addr AND 4095 = 0 \<longleftrightarrow> unat addr mod 4096 = 0"
    using and_mask_0_iff [of addr 12] by (simp add: mask12)
  show ?thesis
  proof (cases "addr < p_base p")
    case True
    then show ?thesis
      by (simp add: addr_to_index_def palloc_invD(1) [OF inv] al word_lt_unat)
  next
    case False
    then have "unat (addr - p_base p) = unat addr - unat (p_base p)"
      by (simp add: unat_sub_le word_lt_unat)
    with False show ?thesis
      by (auto simp: addr_to_index_def palloc_invD(1) [OF inv] al word_lt_unat word_le_unat pc
          Let_def unat_drop_bit)
  qed
qed

lemma addr_to_index_page_addr:
  assumes "palloc_inv p" and "i < pages p"
  shows "addr_to_index p (page_addr p i) = Inr i"
  using palloc_invD(2) [OF assms(1)] assms unat_page_addr [of p i]
  by (simp add: addr_to_index_spec mod_add_left_eq [symmetric])

lemma addr_to_index_Inr:
  assumes "palloc_inv p" and "addr_to_index p addr = Inr i"
  shows "i < pages p" and "addr = page_addr p i"
proof -
  from assms have *: "unat addr mod 4096 = 0" "unat (p_base p) \<le> unat addr"
    "unat addr < unat (p_base p) + pages p * 4096" "i = (unat addr - unat (p_base p)) div 4096"
    by (auto simp: addr_to_index_spec split: if_splits)
  then show i: "i < pages p" by (simp add: less_mult_imp_div_less)
  have "4096 dvd unat addr - unat (p_base p)"
    using * palloc_invD(2) [OF assms(1)] by (intro dvd_diff_nat) (auto simp: dvd_eq_mod_eq_0)
  then have "i * 4096 = unat addr - unat (p_base p)" using * by simp
  then show "addr = page_addr p i"
    using * i unat_page_addr [OF assms(1), of i] by (simp add: word_eq_unat)
qed

section \<open>First fit\<close>

definition free_run :: "palloc_t \<Rightarrow> nat \<Rightarrow> nat \<Rightarrow> bool" where
  "free_run p start n \<longleftrightarrow>
     start + n \<le> pages p \<and> (\<forall>k. start \<le> k \<and> k < start + n \<longrightarrow> bitmap_get p k = PALLOC_STATE_FREE)"

text \<open>
  The scan carries a window of \<open>run\<close> free pages that ends before \<open>i\<close> and knows that no run of
  \<open>n\<close> free pages begins before that window.
\<close>

definition scan_inv :: "palloc_t \<Rightarrow> nat \<Rightarrow> nat \<Rightarrow> nat \<Rightarrow> nat \<Rightarrow> bool" where
  "scan_inv p n i run start \<longleftrightarrow>
     run < n \<and> run \<le> i \<and> i \<le> pages p \<and> (0 < run \<longrightarrow> start = i - run) \<and>
     (\<forall>k. i - run \<le> k \<and> k < i \<longrightarrow> bitmap_get p k = PALLOC_STATE_FREE) \<and>
     (\<forall>s < i - run. \<not> free_run p s n)"

lemma scan_inv_free:
  assumes "scan_inv p n i run start" and "i < pages p" and "bitmap_get p i = PALLOC_STATE_FREE"
    and "start' = (if run = 0 then i else start)"
  shows "if Suc run = n then free_run p start' n \<and> (\<forall>s < start'. \<not> free_run p s n)
         else scan_inv p n (Suc i) (Suc run) start'"
  using assms by (auto simp: scan_inv_def free_run_def less_Suc_eq)

lemma scan_inv_busy:
  assumes "scan_inv p n i run start" and "i < pages p" and "bitmap_get p i \<noteq> PALLOC_STATE_FREE"
  shows "scan_inv p n (Suc i) 0 start"
proof -
  have "\<not> free_run p s n" if "s < Suc i" for s
  proof (cases "s < i - run")
    case True
    with assms(1) show ?thesis by (simp add: scan_inv_def)
  next
    case False
    with that assms show ?thesis unfolding free_run_def scan_inv_def
      by (intro notI) (elim conjE allE [of _ i], auto)
  qed
  with assms show ?thesis by (auto simp: scan_inv_def)
qed

lemma alloc_scan_correct:
  "scan_inv p n i run start \<Longrightarrow>
   (case alloc_scan p n i run start of
      None \<Rightarrow> \<forall>s. \<not> free_run p s n
    | Some s \<Rightarrow> free_run p s n \<and> (\<forall>s' < s. \<not> free_run p s' n))"
proof (induction p n i run start rule: alloc_scan.induct)
  case (1 p n i run start)
  consider (free) "i < pages p" "bitmap_get p i = PALLOC_STATE_FREE"
    | (busy) "i < pages p" "bitmap_get p i \<noteq> PALLOC_STATE_FREE"
    | (stop) "\<not> i < pages p" by blast
  then show ?case
  proof cases
    case free
    define start' where "start' = (if run = 0 then i else start)"
    note step = scan_inv_free [OF "1.prems" free start'_def]
    have eq: "alloc_scan p n i run start =
        (if Suc run = n then Some start' else alloc_scan p n (Suc i) (Suc run) start')"
      using free by (simp add: alloc_scan.simps [of p n i] start'_def Let_def)
    show ?thesis
    proof (cases "Suc run = n")
      case True
      then show ?thesis using step eq by simp
    next
      case False
      then show ?thesis using step eq "1.IH"(1) [OF free start'_def refl False] by simp
    qed
  next
    case busy
    then show ?thesis
      using "1.IH"(2) [OF busy scan_inv_busy [OF "1.prems" busy]]
      by (simp add: alloc_scan.simps [of p n i])
  next
    case stop
    have "\<not> free_run p s n" for s
      using "1.prems" stop unfolding scan_inv_def free_run_def
      by (cases "s < i - run") (auto simp: free_run_def)
    then show ?thesis using stop by (simp add: alloc_scan.simps [of p n i])
  qed
qed

lemma alloc_scan_start:
  assumes "0 < n"
  shows "(case alloc_scan p n 0 0 0 of
            None \<Rightarrow> \<forall>s. \<not> free_run p s n
          | Some s \<Rightarrow> free_run p s n \<and> (\<forall>s' < s. \<not> free_run p s' n))"
  by (rule alloc_scan_correct) (use assms in \<open>simp add: scan_inv_def\<close>)

section \<open>Counting under writes\<close>

lemma fold_set_frame [simp]:
  "p_base (fold (\<lambda>k q. bitmap_set q k v) ks p) = p_base p"
  "p_page_count (fold (\<lambda>k q. bitmap_set q k v) ks p) = p_page_count p"
  "p_free_pages (fold (\<lambda>k q. bitmap_set q k v) ks p) = p_free_pages p"
  "p_used_pages (fold (\<lambda>k q. bitmap_set q k v) ks p) = p_used_pages p"
  "p_reserved_pages (fold (\<lambda>k q. bitmap_set q k v) ks p) = p_reserved_pages p"
  "p_peak_used (fold (\<lambda>k q. bitmap_set q k v) ks p) = p_peak_used p"
  "p_bitmap_words (fold (\<lambda>k q. bitmap_set q k v) ks p) = p_bitmap_words p"
  "p_inited (fold (\<lambda>k q. bitmap_set q k v) ks p) = p_inited p"
  by (induction ks arbitrary: p) simp_all

lemma count_of_set_new:
  "v AND state_mask = v \<Longrightarrow> i < pages p \<Longrightarrow> bitmap_get p i \<noteq> v \<Longrightarrow>
   count_of (bitmap_set p i v) v = Suc (count_of p v)"
  by (simp add: count_of_def pcells.put_count_new)

lemma count_of_set_old:
  "v AND state_mask = v \<Longrightarrow> i < pages p \<Longrightarrow> bitmap_get p i = w \<Longrightarrow> v \<noteq> w \<Longrightarrow>
   count_of (bitmap_set p i v) w = count_of p w - 1"
  by (simp add: count_of_def pcells.put_count_old)

lemma count_of_set_other:
  "v AND state_mask = v \<Longrightarrow> bitmap_get p i \<noteq> w \<Longrightarrow> v \<noteq> w \<Longrightarrow>
   count_of (bitmap_set p i v) w = count_of p w"
  by (simp add: count_of_def pcells.put_count_other)

lemma count_of_pos: "i < pages p \<Longrightarrow> bitmap_get p i = v \<Longrightarrow> 0 < count_of p v"
  unfolding count_of_def by (rule cell_count_pos)

lemma count_of_frame [simp]:
  "count_of (p\<lparr>p_free_pages := a\<rparr>) v = count_of p v"
  "count_of (p\<lparr>p_used_pages := a\<rparr>) v = count_of p v"
  "count_of (p\<lparr>p_reserved_pages := a\<rparr>) v = count_of p v"
  "count_of (p\<lparr>p_peak_used := a\<rparr>) v = count_of p v"
  by (simp_all add: count_of_def)

lemma count_of_le: "count_of p v \<le> pages p"
  unfolding count_of_def by (rule cell_count_le)

lemma count_of_fill:
  assumes "free_run p start n"
  shows "count_of (fold (\<lambda>k q. bitmap_set q k PALLOC_STATE_USED) [start..<start + n] p) PALLOC_STATE_USED
           = count_of p PALLOC_STATE_USED + n"
    and "count_of (fold (\<lambda>k q. bitmap_set q k PALLOC_STATE_USED) [start..<start + n] p) PALLOC_STATE_FREE + n
           = count_of p PALLOC_STATE_FREE"
    and "count_of (fold (\<lambda>k q. bitmap_set q k PALLOC_STATE_USED) [start..<start + n] p) PALLOC_STATE_RSVD
           = count_of p PALLOC_STATE_RSVD"
proof -
  let ?f = "\<lambda>m. fold (\<lambda>k q. bitmap_set q k PALLOC_STATE_USED) [start..<start + m] p"
  have "count_of (?f m) PALLOC_STATE_USED = count_of p PALLOC_STATE_USED + m \<and>
        count_of (?f m) PALLOC_STATE_FREE + m = count_of p PALLOC_STATE_FREE \<and>
        count_of (?f m) PALLOC_STATE_RSVD = count_of p PALLOC_STATE_RSVD" if "m \<le> n" for m
    using that
  proof (induction m)
    case 0
    then show ?case by simp
  next
    case (Suc m)
    have in_range: "start + m < pages (?f m)"
      using assms Suc.prems by (simp add: free_run_def)
    have free: "bitmap_get (?f m) (start + m) = PALLOC_STATE_FREE"
      using assms Suc.prems by (simp add: pcells.put_fold free_run_def)
    have step: "?f (Suc m) = bitmap_set (?f m) (start + m) PALLOC_STATE_USED"
      by simp
    have "0 < count_of (?f m) PALLOC_STATE_FREE"
      using in_range free by (rule count_of_pos)
    moreover have "count_of (?f (Suc m)) PALLOC_STATE_USED = Suc (count_of (?f m) PALLOC_STATE_USED)"
      unfolding step using in_range free by (intro count_of_set_new) simp_all
    moreover have "count_of (?f (Suc m)) PALLOC_STATE_FREE = count_of (?f m) PALLOC_STATE_FREE - 1"
      unfolding step using in_range free by (intro count_of_set_old) simp_all
    moreover have "count_of (?f (Suc m)) PALLOC_STATE_RSVD = count_of (?f m) PALLOC_STATE_RSVD"
      unfolding step using free by (intro count_of_set_other) simp_all
    ultimately show ?case using Suc by simp
  qed
  from this [of n] show
    "count_of (?f n) PALLOC_STATE_USED = count_of p PALLOC_STATE_USED + n"
    "count_of (?f n) PALLOC_STATE_FREE + n = count_of p PALLOC_STATE_FREE"
    "count_of (?f n) PALLOC_STATE_RSVD = count_of p PALLOC_STATE_RSVD"
    by simp_all
qed
section \<open>Each operation keeps the invariant and does what it promises\<close>

lemma unat_u32_plus1: "unat (x :: u32) + 1 < 2 ^ 32 \<Longrightarrow> unat (x + 1) = unat x + 1"
  by (simp add: unat_add_small)

lemma unat_u32_minus1: "0 < unat (x :: u32) \<Longrightarrow> unat (x - 1) = unat x - 1"
  by (simp add: unat_sub_le)

subsection \<open>Initialisation\<close>

lemma fold_clear: "fold (\<lambda>i b. b(i := 0)) [0..<n] bm = (\<lambda>i. if i < n then 0 else bm i)"
  by (induction n) (auto simp: fun_eq_iff)

lemma palloc_init_ok:
  assumes "palloc_init base sz (Some bm) words p = (PALLOC_OK, q)"
    and "unat base + unat sz < 2 ^ 32"
  shows "palloc_inv q" and "\<And>i. i < pages q \<Longrightarrow> bitmap_get q i = PALLOC_STATE_FREE"
    and "p_base q = base" and "pages q * 4096 = unat sz"
proof -
  from assms(1) have c: "base AND 4095 = 0" "sz \<noteq> 0" "sz AND 4095 = 0"
      "\<not> PALLOC_MAX_PAGES < drop_bit 12 sz" "\<not> words < PALLOC_BITMAP_WORDS"
    and q: "q = p\<lparr>p_base := base, p_page_count := drop_bit 12 sz, p_free_pages := drop_bit 12 sz,
               p_used_pages := 0, p_reserved_pages := 0, p_peak_used := 0,
               p_bitmap := (\<lambda>i. if i < unat words then 0 else bm i),
               p_bitmap_words := words, p_inited := True\<rparr>"
    by (auto simp: palloc_init_def fold_clear split: if_splits)
  have al: "unat base mod 4096 = 0" "unat sz mod 4096 = 0"
    using c(1,3) and_mask_0_iff [of base 12] and_mask_0_iff [of sz 12] by (simp_all add: mask12)
  have pc: "pages q = unat sz div 4096" using unat_drop_bit [of 12 sz] by (simp add: q)
  have sz0: "0 < unat sz" using c(2) by (simp add: unat_gt_0)
  show sz: "pages q * 4096 = unat sz" using al(2) pc by (metis mod_0_imp_dvd dvd_div_mult_self)
  show base: "p_base q = base" by (simp add: q)
  have bound: "pages q \<le> 262144" "16384 \<le> unat words"
    using c(4,5) unfolding word_lt_unat by (simp_all add: q)
  show free: "bitmap_get q i = PALLOC_STATE_FREE" if "i < pages q" for i
  proof -
    have "i div 16 < unat words" using that bound by simp
    then show ?thesis by (simp add: bitmap_get_def q)
  qed
  have counts: "count_of q PALLOC_STATE_FREE = pages q" "count_of q PALLOC_STATE_USED = 0"
      "count_of q PALLOC_STATE_RSVD = 0"
  proof -
    have "{i. i < pages q \<and> bitmap_get q i = PALLOC_STATE_FREE} = {..<pages q}" using free by auto
    then show "count_of q PALLOC_STATE_FREE = pages q" by (simp add: count_of_def cell_count_def)
  qed (simp_all add: count_of_def cell_count_0_iff free)
  have "0 < pages q" using sz sz0 by (cases "pages q") simp_all
  then show "palloc_inv q"
    using al bound assms(2) sz free counts by (simp add: palloc_inv_def base) (simp add: q)
qed

subsection \<open>Reservation\<close>

lemma reserve_step:
  assumes inv: "palloc_inv p" and i: "i < pages p" and free: "bitmap_get p i = PALLOC_STATE_FREE"
  shows "palloc_inv ((bitmap_set p i PALLOC_STATE_RSVD)
           \<lparr>p_free_pages := p_free_pages p - 1, p_reserved_pages := p_reserved_pages p + 1\<rparr>)"
    (is "palloc_inv ?q")
proof -
  have pos: "0 < unat (p_free_pages p)"
    using count_of_pos [OF i free] palloc_invD(8) [OF inv] by simp
  have le: "unat (p_reserved_pages p) + 1 \<le> pages p"
    using counts_total [OF inv] pos by simp
  have "count_of ?q PALLOC_STATE_RSVD = Suc (count_of p PALLOC_STATE_RSVD)"
    using i free by (simp add: count_of_set_new)
  moreover have "count_of ?q PALLOC_STATE_FREE = count_of p PALLOC_STATE_FREE - 1"
    using i free by (simp add: count_of_set_old)
  moreover have "count_of ?q PALLOC_STATE_USED = count_of p PALLOC_STATE_USED"
    using free by (simp add: count_of_set_other)
  moreover have "unat (p_reserved_pages p + 1) = unat (p_reserved_pages p) + 1"
    using le palloc_invD(4) [OF inv] by (intro unat_u32_plus1) simp
  moreover have "unat (p_free_pages p - 1) = unat (p_free_pages p) - 1"
    using pos by (rule unat_u32_minus1)
  moreover have "bitmap_get ?q k \<in> {PALLOC_STATE_FREE, PALLOC_STATE_USED, PALLOC_STATE_RSVD}"
    if "k < pages p" for k
    using palloc_invD(7) [OF inv that] by (simp add: pcells.get_put)
  ultimately show ?thesis
    using palloc_invD [OF inv] unfolding palloc_inv_def by simp
qed

definition reserve_result ::
  "nat \<Rightarrow> nat \<Rightarrow> palloc_t \<Rightarrow> palloc_err \<Rightarrow> palloc_t \<Rightarrow> bool" where
  "reserve_result i lst p e q \<longleftrightarrow>
     (\<exists>u. i \<le> u \<and>
        (\<forall>k. i \<le> k \<and> k < u \<longrightarrow> bitmap_get p k \<noteq> PALLOC_STATE_USED) \<and>
        (\<forall>k. bitmap_get q k = (if i \<le> k \<and> k < u then PALLOC_STATE_RSVD else bitmap_get p k)) \<and>
        (e = PALLOC_OK \<and> u = max i lst \<or>
         e = PALLOC_ERR_ALREADY_USED \<and> u < lst \<and> bitmap_get p u = PALLOC_STATE_USED))"

lemma reserve_result_Suc:
  assumes r: "reserve_result (Suc i) lst p' e q" and i: "i < lst"
    and p': "bitmap_get p' = (bitmap_get p)(i := PALLOC_STATE_RSVD)"
    and ok: "bitmap_get p i \<noteq> PALLOC_STATE_USED"
  shows "reserve_result i lst p e q"
proof -
  from r obtain u where u: "Suc i \<le> u"
    and used: "\<And>k. Suc i \<le> k \<Longrightarrow> k < u \<Longrightarrow> bitmap_get p' k \<noteq> PALLOC_STATE_USED"
    and q: "\<And>k. bitmap_get q k =
          (if Suc i \<le> k \<and> k < u then PALLOC_STATE_RSVD else bitmap_get p' k)"
    and e: "e = PALLOC_OK \<and> u = max (Suc i) lst \<or>
        e = PALLOC_ERR_ALREADY_USED \<and> u < lst \<and> bitmap_get p' u = PALLOC_STATE_USED"
    unfolding reserve_result_def by blast
  have "bitmap_get p k \<noteq> PALLOC_STATE_USED" if "i \<le> k" "k < u" for k
    using used [of k] that ok p' by (cases "k = i") auto
  moreover have "bitmap_get q k = (if i \<le> k \<and> k < u then PALLOC_STATE_RSVD else bitmap_get p k)" for k
    using q [of k] u p' by (cases "k = i") auto
  moreover have "e = PALLOC_OK \<and> u = max i lst \<or>
        e = PALLOC_ERR_ALREADY_USED \<and> u < lst \<and> bitmap_get p u = PALLOC_STATE_USED"
    using e u i p' by auto
  ultimately show ?thesis unfolding reserve_result_def using u by (intro exI [of _ u]) simp
qed

lemma reserve_loop_correct:
  "palloc_inv p \<Longrightarrow> lst \<le> pages p \<Longrightarrow> reserve_loop i lst p = (e, q) \<Longrightarrow>
   palloc_inv q \<and> p_base q = p_base p \<and> p_page_count q = p_page_count p \<and> p_used_pages q = p_used_pages p
   \<and> reserve_result i lst p e q"
proof (induction i lst p arbitrary: e q rule: reserve_loop.induct)
  case (1 i lst p)
  show ?case
  proof (cases "i < lst")
    case False
    with "1.prems" have "e = PALLOC_OK" "q = p" by (simp_all add: reserve_loop.simps)
    with False "1.prems"(1) show ?thesis
      by (auto simp: reserve_result_def intro!: exI [of _ i])
  next
    case True
    then have i: "i < pages p" using "1.prems"(2) by simp
    consider (rsvd) "bitmap_get p i = PALLOC_STATE_RSVD" | (used) "bitmap_get p i = PALLOC_STATE_USED"
      | (free) "bitmap_get p i = PALLOC_STATE_FREE"
      using palloc_invD(7) [OF "1.prems"(1) i] by auto
    then show ?thesis
    proof cases
      case rsvd
      with True "1.prems"(3) have "reserve_loop (Suc i) lst p = (e, q)"
        by (simp add: reserve_loop.simps [of i])
      from "1.IH"(1) [OF True refl rsvd "1.prems"(1,2) this]
      have *: "palloc_inv q \<and> p_base q = p_base p \<and> p_page_count q = p_page_count p
          \<and> p_used_pages q = p_used_pages p" and r: "reserve_result (Suc i) lst p e q" by simp_all
      from r True have "reserve_result i lst p e q"
        by (rule reserve_result_Suc) (simp_all add: rsvd fun_upd_idem)
      with * show ?thesis by simp
    next
      case used
      with True "1.prems"(3) have "e = PALLOC_ERR_ALREADY_USED" "q = p"
        by (simp_all add: reserve_loop.simps [of i])
      with used True "1.prems"(1) show ?thesis
        by (auto simp: reserve_result_def intro!: exI [of _ i])
    next
      case free
      let ?p' = "(bitmap_set p i PALLOC_STATE_RSVD)
           \<lparr>p_free_pages := p_free_pages p - 1, p_reserved_pages := p_reserved_pages p + 1\<rparr>"
      have inv': "palloc_inv ?p'" by (rule reserve_step [OF "1.prems"(1) i free])
      have loop: "reserve_loop (Suc i) lst ?p' = (e, q)"
        using free True "1.prems"(3) by (simp add: reserve_loop.simps [of i])
      have get': "bitmap_get ?p' = (bitmap_get p)(i := PALLOC_STATE_RSVD)"
        by (simp add: pcells.get_put)
      have "lst \<le> pages ?p'" using "1.prems"(2) by simp
      from "1.IH"(2) [OF True refl _ _ inv' this loop] free
      have *: "palloc_inv q \<and> p_base q = p_base p \<and> p_page_count q = p_page_count p
          \<and> p_used_pages q = p_used_pages p" and r: "reserve_result (Suc i) lst ?p' e q" by simp_all
      from r True get' have "reserve_result i lst p e q"
        by (rule reserve_result_Suc) (simp add: free)
      with * show ?thesis by simp
    qed
  qed
qed
subsection \<open>Allocation\<close>

lemma alloc_pages_cases:
  assumes inv: "palloc_inv p" and n: "0 < unat n"
  shows "(\<exists>s. palloc_alloc_pages n False p = (Inr (page_addr p s),
            (fold (\<lambda>k q. bitmap_set q k PALLOC_STATE_USED) [s..<s + unat n] p)
              \<lparr>p_free_pages := p_free_pages p - n,
               p_used_pages := p_used_pages p + n,
               p_peak_used := (if p_peak_used p < p_used_pages p + n then p_used_pages p + n
                               else p_peak_used p)\<rparr>)
          \<and> free_run p s (unat n) \<and> (\<forall>s' < s. \<not> free_run p s' (unat n)) \<and> n \<le> p_free_pages p)
       \<or> (palloc_alloc_pages n False p = (Inl PALLOC_ERR_OOM, p) \<and> (\<forall>s. \<not> free_run p s (unat n)))"
proof (cases "p_free_pages p < n")
  case True
  have "\<not> free_run p s (unat n)" for s
  proof
    assume "free_run p s (unat n)"
    then have "unat n \<le> count_of p PALLOC_STATE_FREE"
      using count_of_fill(2) by (metis le_add2)
    then show False using True palloc_invD(8) [OF inv] by (simp add: word_lt_unat)
  qed
  with True n show ?thesis using palloc_invD(1) [OF inv] by (auto simp: palloc_alloc_pages_def)
next
  case False
  have n0: "n \<noteq> 0" using n by auto
  show ?thesis
    using alloc_scan_start [OF n, of p] palloc_invD(1) [OF inv] False n0
    by (cases "alloc_scan p (unat n) 0 0 0")
       (auto simp: palloc_alloc_pages_def Let_def page_addr_def)
qed

lemma alloc_fill_inv:
  assumes inv: "palloc_inv p" and run: "free_run p s (unat n)" and le: "n \<le> p_free_pages p"
  shows "palloc_inv ((fold (\<lambda>k q. bitmap_set q k PALLOC_STATE_USED) [s..<s + unat n] p)
              \<lparr>p_free_pages := p_free_pages p - n,
               p_used_pages := p_used_pages p + n,
               p_peak_used := (if p_peak_used p < p_used_pages p + n then p_used_pages p + n
                               else p_peak_used p)\<rparr>)" (is "palloc_inv ?q")
proof -
  note c = count_of_fill [OF run]
  have total: "unat (p_used_pages p) + unat n \<le> pages p"
    using counts_total [OF inv] le by (simp add: word_le_unat)
  have used: "unat (p_used_pages p + n) = unat (p_used_pages p) + unat n"
    using total palloc_invD(4) [OF inv] by (intro unat_add_small) simp
  have free: "unat (p_free_pages p - n) = unat (p_free_pages p) - unat n"
    using le by (intro unat_sub_le) (simp add: word_le_unat)
  have states: "bitmap_get ?q k \<in> {PALLOC_STATE_FREE, PALLOC_STATE_USED, PALLOC_STATE_RSVD}"
    if "k < pages p" for k
    using palloc_invD(7) [OF inv that] by (simp add: pcells.put_fold)
  show ?thesis
    using palloc_invD [OF inv] states c total
    unfolding palloc_inv_def by (auto simp: used free word_lt_unat)
qed

lemma palloc_alloc_pages_inv:
  assumes "palloc_inv p"
  shows "palloc_inv (snd (palloc_alloc_pages n out_null p))"
proof (cases "out_null \<or> n = 0")
  case True
  with assms show ?thesis by (auto simp: palloc_alloc_pages_def)
next
  case False
  then have "0 < unat n" by (simp add: unat_gt_0)
  from alloc_pages_cases [OF assms this] False alloc_fill_inv [OF assms, of _ n] assms
  show ?thesis by auto
qed

subsection \<open>Release\<close>

lemma palloc_free_eq:
  assumes inv: "palloc_inv p"
  shows "palloc_free addr p =
    (case addr_to_index p addr of
       Inl err \<Rightarrow> (err, p)
     | Inr i \<Rightarrow>
         if bitmap_get p i = PALLOC_STATE_USED
         then (PALLOC_OK, (bitmap_set p i PALLOC_STATE_FREE)
                 \<lparr>p_used_pages := p_used_pages p - 1, p_free_pages := p_free_pages p + 1\<rparr>)
         else (if bitmap_get p i = PALLOC_STATE_FREE then PALLOC_ERR_DOUBLE_FREE
               else PALLOC_ERR_RESERVED, p))"
proof (cases "addr_to_index p addr")
  case (Inl e)
  then show ?thesis by (simp add: palloc_free_def)
next
  case (Inr i)
  then have "i < pages p" using addr_to_index_Inr [OF inv] by blast
  from palloc_invD(7) [OF inv this] Inr show ?thesis by (auto simp: palloc_free_def)
qed

lemma free_page_inv:
  assumes inv: "palloc_inv p" and i: "i < pages p" and used: "bitmap_get p i = PALLOC_STATE_USED"
  shows "palloc_inv ((bitmap_set p i PALLOC_STATE_FREE)
                 \<lparr>p_used_pages := p_used_pages p - 1, p_free_pages := p_free_pages p + 1\<rparr>)"
    (is "palloc_inv ?q")
proof -
  have pos: "0 < unat (p_used_pages p)"
    using count_of_pos [OF i used] palloc_invD(9) [OF inv] by simp
  have le: "unat (p_free_pages p) + 1 \<le> pages p" using counts_total [OF inv] pos by simp
  have "count_of ?q PALLOC_STATE_FREE = Suc (count_of p PALLOC_STATE_FREE)"
    using i used by (simp add: count_of_set_new)
  moreover have "count_of ?q PALLOC_STATE_USED = count_of p PALLOC_STATE_USED - 1"
    using i used by (simp add: count_of_set_old)
  moreover have "count_of ?q PALLOC_STATE_RSVD = count_of p PALLOC_STATE_RSVD"
    using used by (simp add: count_of_set_other)
  moreover have "unat (p_free_pages p + 1) = unat (p_free_pages p) + 1"
    using le palloc_invD(4) [OF inv] by (intro unat_u32_plus1) simp
  moreover have "unat (p_used_pages p - 1) = unat (p_used_pages p) - 1"
    using pos by (rule unat_u32_minus1)
  moreover have "bitmap_get ?q k \<in> {PALLOC_STATE_FREE, PALLOC_STATE_USED, PALLOC_STATE_RSVD}"
    if "k < pages p" for k
    using palloc_invD(7) [OF inv that] by (simp add: pcells.get_put)
  ultimately show ?thesis
    using palloc_invD [OF inv] unfolding palloc_inv_def by simp
qed

lemma palloc_free_inv: "palloc_inv p \<Longrightarrow> palloc_inv (snd (palloc_free addr p))"
  using free_page_inv [of p] addr_to_index_Inr [of p addr]
  by (auto simp: palloc_free_eq split: sum.splits)

lemma palloc_reserve_cases:
  assumes inv: "palloc_inv p"
  shows "(\<exists>e. palloc_reserve addr sz p = (e, p)) \<or>
         (\<exists>a b. b \<le> pages p \<and> palloc_reserve addr sz p = reserve_loop a b p)"
proof -
  let ?limit = "p_base p + push_bit PALLOC_PAGE_SHIFT (p_page_count p)"
  have lim: "unat ?limit = unat (p_base p) + pages p * 4096"
    using palloc_invD(4,5) [OF inv] by (simp add: unat_push_bit_small unat_add_small)
  have bound: "unat (drop_bit PALLOC_PAGE_SHIFT (e - p_base p)) \<le> pages p"
    if "p_base p \<le> e" "e \<le> ?limit" for e
  proof -
    have "unat (e - p_base p) \<le> pages p * 4096"
      using that lim by (simp add: word_le_unat unat_sub_le)
    then show ?thesis unfolding unat_drop_bit by simp
  qed
  define start where "start = (if (addr AND NOT (PALLOC_PAGE_SIZE - 1)) < p_base p then p_base p
                               else addr AND NOT (PALLOC_PAGE_SIZE - 1))"
  define fin where "fin = (addr + sz + PALLOC_PAGE_SIZE - 1) AND NOT (PALLOC_PAGE_SIZE - 1)"
  define fin' where "fin' = (if ?limit < fin then ?limit else fin)"
  have eq: "palloc_reserve addr sz p =
     (if \<not> p_inited p then (PALLOC_ERR_NOT_INIT, p)
      else if sz = 0 then (PALLOC_ERR_BAD_ARGS, p)
      else if fin \<le> start then (PALLOC_ERR_BAD_ARGS, p)
      else if ?limit \<le> start then (PALLOC_OK, p)
      else reserve_loop (unat (drop_bit PALLOC_PAGE_SHIFT (start - p_base p)))
             (unat (drop_bit PALLOC_PAGE_SHIFT (fin' - p_base p))) p)"
    unfolding palloc_reserve_def Let_def start_def fin_def fin'_def by (rule refl)
  show ?thesis
  proof (cases "fin \<le> start \<or> ?limit \<le> start")
    case True
    then show ?thesis unfolding eq by auto
  next
    case False
    then have "p_base p \<le> start" "start < fin" "start < ?limit"
      by (auto simp: start_def not_le split: if_splits)
    then have "p_base p \<le> fin'" "fin' \<le> ?limit"
      unfolding fin'_def by auto
    from bound [OF this] show ?thesis unfolding eq by auto
  qed
qed

lemma palloc_reserve_inv:
  assumes inv: "palloc_inv p"
  shows "palloc_inv (snd (palloc_reserve addr sz p))"
  using palloc_reserve_cases [OF inv, of addr sz]
proof (elim disjE exE conjE)
  fix e assume "palloc_reserve addr sz p = (e, p)"
  with inv show ?thesis by simp
next
  fix a b assume "b \<le> pages p" and eq: "palloc_reserve addr sz p = reserve_loop a b p"
  from reserve_loop_correct [OF inv this(1), of a] show ?thesis
    unfolding eq by (cases "reserve_loop a b p") auto
qed

section \<open>Reachable allocators\<close>

text \<open>
  One step of a client: any call with any arguments, successful or refused.  An allocator is
  reachable when it comes from a successful initialisation whose pool ends below 4 GiB.
\<close>

inductive palloc_step :: "palloc_t \<Rightarrow> palloc_t \<Rightarrow> bool" where
  reserve: "palloc_step p (snd (palloc_reserve addr sz p))"
| alloc: "palloc_step p (snd (palloc_alloc_pages n out_null p))"
| free: "palloc_step p (snd (palloc_free addr p))"

inductive palloc_reachable :: "palloc_t \<Rightarrow> bool" where
  init: "palloc_init base sz (Some bm) words p = (PALLOC_OK, q) \<Longrightarrow>
         unat base + unat sz < 2 ^ 32 \<Longrightarrow> palloc_reachable q"
| step: "palloc_reachable p \<Longrightarrow> palloc_step p q \<Longrightarrow> palloc_reachable q"

lemma palloc_step_inv: "palloc_step p q \<Longrightarrow> palloc_inv p \<Longrightarrow> palloc_inv q"
  by (induction rule: palloc_step.induct)
     (simp_all add: palloc_reserve_inv palloc_alloc_pages_inv palloc_free_inv)

lemma palloc_reachable_inv: "palloc_reachable p \<Longrightarrow> palloc_inv p"
  by (induction rule: palloc_reachable.induct) (auto intro: palloc_init_ok palloc_step_inv)

section \<open>Properties\<close>

text \<open>
  C1. In every allocator reachable by any sequence of calls, each page is free, used or reserved
  and the three counters are exactly the numbers of pages in those states.
\<close>

theorem palloc_counters_exact:
  assumes "palloc_reachable p"
  shows "(\<forall>i<unat (p_page_count p). bitmap_get p i \<in> {PALLOC_STATE_FREE, PALLOC_STATE_USED, PALLOC_STATE_RSVD})
    \<and> unat (p_free_pages p) = card {i. i < unat (p_page_count p) \<and> bitmap_get p i = PALLOC_STATE_FREE}
    \<and> unat (p_used_pages p) = card {i. i < unat (p_page_count p) \<and> bitmap_get p i = PALLOC_STATE_USED}
    \<and> unat (p_reserved_pages p) = card {i. i < unat (p_page_count p) \<and> bitmap_get p i = PALLOC_STATE_RSVD}
    \<and> p_free_pages p + p_used_pages p + p_reserved_pages p = p_page_count p
    \<and> p_used_pages p \<le> p_peak_used p"
proof -
  note inv = palloc_reachable_inv [OF assms]
  note total = counts_total [OF inv]
  have "p_free_pages p + p_used_pages p + p_reserved_pages p = p_page_count p"
    unfolding word_eq_unat using total palloc_invD(4) [OF inv] by (simp add: unat_add_small)
  with palloc_invD(7-11) [OF inv] show ?thesis
    by (simp add: count_of_def cell_count_def word_le_unat)
qed

text \<open>
  Allocating \<open>n\<close> pages succeeds exactly when \<open>n\<close> consecutive free pages exist; it then returns
  the address of the lowest such run, marks exactly those pages used and moves \<open>n\<close> from the free
  to the used counter.  When it fails the allocator is unchanged.
\<close>

theorem palloc_alloc_pages_first_fit:
  assumes "palloc_reachable p" and "n \<noteq> 0" and "palloc_alloc_pages n False p = (r, q)"
  shows "case r of
      Inl e \<Rightarrow> e = PALLOC_ERR_OOM \<and> q = p \<and> (\<forall>s. \<not> free_run p s (unat n))
    | Inr a \<Rightarrow> \<exists>s. free_run p s (unat n) \<and> (\<forall>s' < s. \<not> free_run p s' (unat n))
        \<and> unat a = unat (p_base p) + s * 4096
        \<and> (\<forall>i. bitmap_get q i =
             (if s \<le> i \<and> i < s + unat n then PALLOC_STATE_USED else bitmap_get p i))
        \<and> p_base q = p_base p \<and> p_page_count q = p_page_count p
        \<and> p_free_pages q = p_free_pages p - n \<and> p_used_pages q = p_used_pages p + n
        \<and> p_reserved_pages q = p_reserved_pages p"
proof -
  note inv = palloc_reachable_inv [OF assms(1)]
  have n: "0 < unat n" using assms(2) by (simp add: unat_gt_0)
  from alloc_pages_cases [OF inv n] show ?thesis
  proof (elim disjE exE conjE)
    fix s
    assume eq: "palloc_alloc_pages n False p = (Inr (page_addr p s),
            (fold (\<lambda>k q. bitmap_set q k PALLOC_STATE_USED) [s..<s + unat n] p)
              \<lparr>p_free_pages := p_free_pages p - n, p_used_pages := p_used_pages p + n,
               p_peak_used := (if p_peak_used p < p_used_pages p + n then p_used_pages p + n
                               else p_peak_used p)\<rparr>)"
      and run: "free_run p s (unat n)" "\<forall>s' < s. \<not> free_run p s' (unat n)"
    have "s \<le> pages p" using run(1) by (simp add: free_run_def)
    from unat_page_addr [OF inv this] run eq assms(3) show ?thesis
      by (auto simp: pcells.put_fold intro!: exI [of _ s])
  qed (use assms(3) in auto)
qed

text \<open>
  C2. Releasing an address: misaligned, outside the pool, already free and reserved pages are
  refused with the error for that case and nothing changes; a used page becomes free and one
  page moves from the used to the free counter.
\<close>

theorem palloc_free_classifies:
  assumes "palloc_reachable p" and "palloc_free addr p = (e, q)"
  shows "let i = (unat addr - unat (p_base p)) div 4096 in
    if unat addr mod 4096 \<noteq> 0 then e = PALLOC_ERR_ALIGN \<and> q = p
    else if unat addr < unat (p_base p) \<or> unat (p_base p) + unat (p_page_count p) * 4096 \<le> unat addr
      then e = PALLOC_ERR_RANGE \<and> q = p
    else if bitmap_get p i = PALLOC_STATE_FREE then e = PALLOC_ERR_DOUBLE_FREE \<and> q = p
    else if bitmap_get p i = PALLOC_STATE_RSVD then e = PALLOC_ERR_RESERVED \<and> q = p
    else e = PALLOC_OK
      \<and> (\<forall>j. bitmap_get q j = (if j = i then PALLOC_STATE_FREE else bitmap_get p j))
      \<and> p_free_pages q = p_free_pages p + 1 \<and> p_used_pages q = p_used_pages p - 1
      \<and> p_reserved_pages q = p_reserved_pages p"
proof -
  note inv = palloc_reachable_inv [OF assms(1)]
  define i where "i = (unat addr - unat (p_base p)) div 4096"
  have "i < pages p" if "unat addr mod 4096 = 0"
    "\<not> (unat addr < unat (p_base p) \<or> unat (p_base p) + pages p * 4096 \<le> unat addr)"
    using that by (auto simp: i_def less_mult_imp_div_less)
  then show ?thesis
    using assms(2) palloc_invD(7) [OF inv, of i]
    by (auto simp: palloc_free_eq [OF inv] addr_to_index_spec [OF inv] i_def [symmetric] Let_def
        pcells.get_put split: if_splits)
qed

text \<open>
  Allocating one page and releasing it at once succeeds and gives back the same page states
  and counters (only the high-water mark may have moved), and the next allocation returns the
  same address again.
\<close>

theorem palloc_alloc_free_roundtrip:
  assumes "palloc_reachable p" and "palloc_alloc False p = (Inr a, q)" and "palloc_free a q = (e, r)"
  shows "e = PALLOC_OK \<and> (\<forall>i. bitmap_get r i = bitmap_get p i)
    \<and> p_free_pages r = p_free_pages p \<and> p_used_pages r = p_used_pages p
    \<and> p_reserved_pages r = p_reserved_pages p \<and> p_base r = p_base p
    \<and> p_page_count r = p_page_count p \<and> fst (palloc_alloc False r) = Inr a"
proof -
  note inv = palloc_reachable_inv [OF assms(1)]
  have alloc: "palloc_alloc_pages 1 False p = (Inr a, q)" using assms(2) by (simp add: palloc_alloc_def)
  from alloc_pages_cases [OF inv, of 1] alloc obtain s where
    q: "q = (bitmap_set p s PALLOC_STATE_USED)
              \<lparr>p_free_pages := p_free_pages p - 1, p_used_pages := p_used_pages p + 1,
               p_peak_used := (if p_peak_used p < p_used_pages p + 1 then p_used_pages p + 1
                               else p_peak_used p)\<rparr>"
    and a: "a = page_addr p s" and run: "free_run p s 1" "\<forall>s' < s. \<not> free_run p s' 1"
    by auto
  have invq: "palloc_inv q" using palloc_alloc_pages_inv [OF inv, of 1 False] alloc by simp
  have s: "s < pages p" "bitmap_get p s = PALLOC_STATE_FREE" using run(1) by (simp_all add: free_run_def)
  have "page_addr p s = page_addr q s" by (simp add: page_addr_def q)
  then have idx: "addr_to_index q a = Inr s"
    using addr_to_index_page_addr [OF invq, of s] s a q by simp
  have "bitmap_get q s = PALLOC_STATE_USED" by (simp add: q pcells.get_put)
  then have r: "e = PALLOC_OK" "r = (bitmap_set q s PALLOC_STATE_FREE)
       \<lparr>p_used_pages := p_used_pages q - 1, p_free_pages := p_free_pages q + 1\<rparr>"
    using assms(3) idx by (simp_all add: palloc_free_eq [OF invq])
  have get: "bitmap_get r = bitmap_get p"
    using s(2) by (simp add: r q pcells.get_put fun_upd_idem)
  have invr: "palloc_inv r" using palloc_free_inv [OF invq, of a] assms(3) by simp
  have runs: "free_run r k m = free_run p k m" for k m by (simp add: free_run_def get) (simp add: r q)
  have base: "page_addr r k = page_addr p k" for k by (simp add: page_addr_def r q)
  have one: "0 < unat (1 :: u32)" by simp
  have "fst (palloc_alloc_pages 1 False r) = Inr a"
    using alloc_pages_cases [OF invr one]
  proof (elim disjE exE conjE)
    fix t
    assume eq: "palloc_alloc_pages 1 False r = (Inr (page_addr r t),
            (fold (\<lambda>k q. bitmap_set q k PALLOC_STATE_USED) [t..<t + unat (1::u32)] r)
              \<lparr>p_free_pages := p_free_pages r - 1, p_used_pages := p_used_pages r + 1,
               p_peak_used := (if p_peak_used r < p_used_pages r + 1 then p_used_pages r + 1
                               else p_peak_used r)\<rparr>)"
      and t: "free_run r t (unat (1::u32))" "\<forall>s' < t. \<not> free_run r s' (unat (1::u32))"
    have "t = s" using t run by (simp add: runs) (metis linorder_neqE_nat)
    with eq a base show ?thesis by simp
  next
    assume "\<forall>s. \<not> free_run r s (unat (1::u32))"
    with run runs show ?thesis by simp
  qed
  with r get show ?thesis by (simp add: palloc_alloc_def) (simp add: q)
qed


lemma palloc_reserve_eq:
  assumes inv: "palloc_inv p" and sz: "sz \<noteq> 0" and fits: "unat addr + unat sz + 4095 < 2 ^ 32"
  defines "b \<equiv> unat (p_base p) div 4096"
  defines "f \<equiv> max (unat addr div 4096) b" and "l \<equiv> (unat addr + unat sz + 4095) div 4096"
  shows "palloc_reserve addr sz p =
     (if l \<le> f then (PALLOC_ERR_BAD_ARGS, p)
      else if b + pages p \<le> f then (PALLOC_OK, p)
      else reserve_loop (f - b) (min l (b + pages p) - b) p)"
proof -
  have base: "unat (p_base p) = b * 4096"
    using palloc_invD(2) [OF inv] by (simp add: b_def mod_0_imp_dvd)
  let ?limit = "p_base p + push_bit PALLOC_PAGE_SHIFT (p_page_count p)"
  have lim: "unat ?limit = (b + pages p) * 4096"
  proof -
    have "unat (push_bit PALLOC_PAGE_SHIFT (p_page_count p)) = pages p * 4096"
      using palloc_invD(4) [OF inv] by (simp add: unat_push_bit_small)
    moreover from this have "unat ?limit = unat (p_base p) + unat (push_bit PALLOC_PAGE_SHIFT (p_page_count p))"
      using palloc_invD(5) [OF inv] by (intro unat_add_small) simp
    ultimately show ?thesis by (simp only: base add_mult_distrib)
  qed
  define start where "start = (if (addr AND NOT (PALLOC_PAGE_SIZE - 1)) < p_base p then p_base p
                               else addr AND NOT (PALLOC_PAGE_SIZE - 1))"
  define fin where "fin = (addr + sz + PALLOC_PAGE_SIZE - 1) AND NOT (PALLOC_PAGE_SIZE - 1)"
  define fin' where "fin' = (if ?limit < fin then ?limit else fin)"
  have "unat (addr AND NOT (PALLOC_PAGE_SIZE - 1)) = unat addr div 4096 * 4096"
    using unat_and_not_mask [of addr 12] by (simp add: mask12 minus_mod_eq_div_mult)
  then have start: "unat start = f * 4096"
    by (auto simp: start_def f_def word_lt_unat base max_def)
  have "unat (addr + sz) = unat addr + unat sz" using fits by (intro unat_add_small) simp
  then have "unat (addr + sz + 4095) = unat addr + unat sz + 4095"
    using fits by (subst unat_add_small) simp_all
  moreover have "addr + sz + PALLOC_PAGE_SIZE - 1 = addr + sz + 4095" by simp
  ultimately have fin: "unat fin = l * 4096"
    using unat_and_not_mask [of "addr + sz + 4095" 12]
    by (simp add: fin_def mask12 minus_mod_eq_div_mult l_def ac_simps)
  have fin': "unat fin' = min l (b + pages p) * 4096"
    by (auto simp: fin'_def word_lt_unat lim fin min_def)
  have index: "unat (drop_bit PALLOC_PAGE_SHIFT (x - p_base p)) = k - b"
    if "unat x = k * 4096" and "b \<le> k" for x k
  proof -
    have "unat (x - p_base p) = unat x - unat (p_base p)"
      using that base by (intro unat_sub_le) simp
    then show ?thesis
      using that base unat_drop_bit [of 12 "x - p_base p"] by (simp flip: diff_mult_distrib)
  qed
  have eq: "palloc_reserve addr sz p =
     (if fin \<le> start then (PALLOC_ERR_BAD_ARGS, p)
      else if ?limit \<le> start then (PALLOC_OK, p)
      else reserve_loop (unat (drop_bit PALLOC_PAGE_SHIFT (start - p_base p)))
             (unat (drop_bit PALLOC_PAGE_SHIFT (fin' - p_base p))) p)"
    using palloc_invD(1) [OF inv] sz
    unfolding palloc_reserve_def Let_def start_def fin_def fin'_def by simp
  have "fin \<le> start \<longleftrightarrow> l \<le> f" "?limit \<le> start \<longleftrightarrow> b + pages p \<le> f"
    by (simp_all only: word_le_unat start fin lim mult_le_cancel2) simp_all
  moreover have "unat (drop_bit PALLOC_PAGE_SHIFT (start - p_base p)) = f - b"
    using start by (rule index) (simp add: f_def)
  moreover have "unat (drop_bit PALLOC_PAGE_SHIFT (fin' - p_base p)) = min l (b + pages p) - b"
    if "\<not> l \<le> f" using fin' that by (intro index) (auto simp: f_def)
  ultimately show ?thesis unfolding eq by simp
qed

text \<open>The pages of the pool that share a byte with the interval \<open>[addr, addr + size)\<close>.\<close>

definition overlaps :: "palloc_t \<Rightarrow> u32 \<Rightarrow> u32 \<Rightarrow> nat \<Rightarrow> bool" where
  "overlaps p addr sz i \<longleftrightarrow>
     i < unat (p_page_count p)
     \<and> unat (p_base p) + i * 4096 < unat addr + unat sz
     \<and> unat addr < unat (p_base p) + (i + 1) * 4096"

lemma overlaps_index:
  assumes inv: "palloc_inv p" and sz: "sz \<noteq> 0"
  defines "b \<equiv> unat (p_base p) div 4096"
  shows "overlaps p addr sz i \<longleftrightarrow>
     max (unat addr div 4096) b - b \<le> i \<and>
     i < min ((unat addr + unat sz + 4095) div 4096) (b + pages p) - b"
proof -
  have base: "unat (p_base p) = b * 4096"
    using palloc_invD(2) [OF inv] by (simp add: b_def mod_0_imp_dvd)
  have "b * 4096 + i * 4096 < unat addr + unat sz \<longleftrightarrow>
        b + i < (unat addr + unat sz + 4095) div 4096"
    by (simp only: page_ceil_less add_mult_distrib)
  moreover have "unat addr < b * 4096 + (i + 1) * 4096 \<longleftrightarrow> unat addr div 4096 \<le> b + i"
    by (simp add: page_floor_le algebra_simps)
  ultimately show ?thesis unfolding overlaps_def base by (auto simp: max_def min_def)
qed

text \<open>
  Reserving a byte interval that does not wrap reserves every page of the pool that shares a
  byte with it and changes no other page.  It stops with an error at the first used page, with
  the pages before it already reserved; an interval that lies entirely below the pool is
  refused as a bad argument.
\<close>

theorem palloc_reserve_outward:
  assumes "palloc_reachable p" and "sz \<noteq> 0" and "unat addr + unat sz + 4095 < 2 ^ 32"
    and "palloc_reserve addr sz p = (e, q)"
  shows "(e = PALLOC_ERR_BAD_ARGS \<longleftrightarrow> unat addr + unat sz \<le> unat (p_base p))
    \<and> (e = PALLOC_ERR_ALREADY_USED \<longleftrightarrow>
         (\<exists>i. overlaps p addr sz i \<and> bitmap_get p i = PALLOC_STATE_USED))
    \<and> e \<in> {PALLOC_OK, PALLOC_ERR_BAD_ARGS, PALLOC_ERR_ALREADY_USED}
    \<and> (\<forall>i. bitmap_get q i =
         (if overlaps p addr sz i \<and> (\<forall>j\<le>i. overlaps p addr sz j \<longrightarrow> bitmap_get p j \<noteq> PALLOC_STATE_USED)
          then PALLOC_STATE_RSVD else bitmap_get p i))
    \<and> p_used_pages q = p_used_pages p"
proof -
  note inv = palloc_reachable_inv [OF assms(1)]
  define b where "b = unat (p_base p) div 4096"
  define f where "f = max (unat addr div 4096) b"
  define l where "l = (unat addr + unat sz + 4095) div 4096"
  note eq = palloc_reserve_eq [OF inv assms(2,3), folded b_def, folded f_def l_def]
  note ov = overlaps_index [OF inv assms(2), where addr = addr, folded b_def, folded f_def l_def]
  have base: "unat (p_base p) = b * 4096"
    using palloc_invD(2) [OF inv] by (simp add: b_def mod_0_imp_dvd)
  have sz: "0 < unat sz" using assms(2) by (simp add: unat_gt_0)
  then have "unat addr div 4096 < l"
    unfolding l_def page_ceil_less using div_times_less_eq_dividend [of "unat addr" 4096] by linarith
  then have "l \<le> f \<longleftrightarrow> l \<le> b" by (auto simp: f_def max_def)
  also have "\<dots> \<longleftrightarrow> unat addr + unat sz \<le> unat (p_base p)" 
    using page_ceil_less [of b "unat addr + unat sz"] by (simp add: base l_def not_less [symmetric])
  finally have below: "l \<le> f \<longleftrightarrow> unat addr + unat sz \<le> unat (p_base p)" .
  have "b \<le> f" by (simp add: f_def)
  show ?thesis
  proof (cases "l \<le> f \<or> b + pages p \<le> f")
    case True
    have "\<not> overlaps p addr sz i" for i
      using True \<open>b \<le> f\<close> unfolding ov by auto
    with True below eq assms(4) show ?thesis by (auto split: if_splits)
  next
    case False
    then have loop: "reserve_loop (f - b) (min l (b + pages p) - b) p = (e, q)"
      using eq assms(4) by simp
    have "min l (b + pages p) - b \<le> pages p" by simp
    from reserve_loop_correct [OF inv this loop]
    have res: "reserve_result (f - b) (min l (b + pages p) - b) p e q"
      and used: "p_used_pages q = p_used_pages p" by simp_all
    from res obtain u where u: "f - b \<le> u"
      "\<And>k. f - b \<le> k \<Longrightarrow> k < u \<Longrightarrow> bitmap_get p k \<noteq> PALLOC_STATE_USED"
      "\<And>k. bitmap_get q k = (if f - b \<le> k \<and> k < u then PALLOC_STATE_RSVD else bitmap_get p k)"
      and e: "e = PALLOC_OK \<and> u = max (f - b) (min l (b + pages p) - b) \<or>
         e = PALLOC_ERR_ALREADY_USED \<and> u < min l (b + pages p) - b
         \<and> bitmap_get p u = PALLOC_STATE_USED"
      unfolding reserve_result_def by blast
    have nonempty: "f - b \<le> min l (b + pages p) - b" using False by auto
    from e show ?thesis
    proof (elim disjE conjE)
      assume ok: "e = PALLOC_OK" and "u = max (f - b) (min l (b + pages p) - b)"
      then have "u = min l (b + pages p) - b" using nonempty by simp
      then have ov_u: "overlaps p addr sz i \<longleftrightarrow> f - b \<le> i \<and> i < u" for i using ov by simp
      show ?thesis using ok u False below used by (auto simp: ov_u)
    next
      assume err: "e = PALLOC_ERR_ALREADY_USED" and lt: "u < min l (b + pages p) - b"
        and at_u: "bitmap_get p u = PALLOC_STATE_USED"
      have ov_u: "overlaps p addr sz u" using ov u(1) lt by simp
      have prefix: "(overlaps p addr sz i \<and> (\<forall>j\<le>i. overlaps p addr sz j \<longrightarrow> bitmap_get p j \<noteq> PALLOC_STATE_USED))
            \<longleftrightarrow> f - b \<le> i \<and> i < u" for i
      proof
        assume *: "overlaps p addr sz i \<and> (\<forall>j\<le>i. overlaps p addr sz j \<longrightarrow> bitmap_get p j \<noteq> PALLOC_STATE_USED)"
        then have "\<not> u \<le> i" using ov_u at_u by blast
        with * ov show "f - b \<le> i \<and> i < u" by simp
      next
        assume "f - b \<le> i \<and> i < u"
        with u(2) lt ov show "overlaps p addr sz i \<and> (\<forall>j\<le>i. overlaps p addr sz j \<longrightarrow> bitmap_get p j \<noteq> PALLOC_STATE_USED)"
          by auto
      qed
      show ?thesis using err ov_u at_u False below used u(3) by (auto simp: prefix)
    qed
  qed
qed

section \<open>A concrete pool\<close>

text \<open>Four pages at 1 MiB, freshly initialised over a bitmap of garbage; page 1 is then reserved.\<close>

definition blank_pool :: palloc_t where
  "blank_pool = \<lparr>p_base = 0, p_page_count = 0, p_free_pages = 0, p_used_pages = 0,
     p_reserved_pages = 0, p_peak_used = 0, p_bitmap = (\<lambda>_. 0), p_bitmap_words = 0, p_inited = False\<rparr>"

definition pool4 :: palloc_t where
  "pool4 = snd (palloc_init 0x100000 0x4000 (Some (\<lambda>i. 0xFFFFFFFF)) 16384 blank_pool)"

lemma pool4_init: "palloc_init 0x100000 0x4000 (Some (\<lambda>i. 0xFFFFFFFF)) 16384 blank_pool = (PALLOC_OK, pool4)"
  by (simp add: pool4_def palloc_init_def)

lemma pool4_reachable: "palloc_reachable pool4"
  by (rule palloc_reachable.init [OF pool4_init]) simp

lemma pool4_fields:
  "p_base pool4 = 0x100000" "p_page_count pool4 = 4" "p_free_pages pool4 = 4"
  "p_used_pages pool4 = 0" "p_reserved_pages pool4 = 0" "p_peak_used pool4 = 0" "p_inited pool4"
  by (simp_all add: pool4_def palloc_init_def)

lemma pool4_get: "i < 16384 \<Longrightarrow> bitmap_get pool4 i = 0"
  by (simp add: pool4_def palloc_init_def fold_clear bitmap_get_def blank_pool_def)

lemma pool4_free_run: "free_run pool4 s n \<longleftrightarrow> s + n \<le> 4"
  by (auto simp: free_run_def pool4_fields pool4_get)

theorem palloc_counters_exact_witness:
  "card {i. i < unat (p_page_count pool4) \<and> bitmap_get pool4 i = PALLOC_STATE_FREE} = 4"
  using palloc_counters_exact [OF pool4_reachable] by (simp add: pool4_fields)

theorem palloc_alloc_pages_first_fit_witness:
  "\<exists>a q. palloc_alloc_pages 2 False pool4 = (Inr a, q) \<and> unat a = 0x100000
     \<and> bitmap_get q 1 = PALLOC_STATE_USED \<and> bitmap_get q 2 = PALLOC_STATE_FREE \<and> p_free_pages q = 2"
proof -
  obtain r q where eq: "palloc_alloc_pages 2 False pool4 = (r, q)" by fastforce
  note spec = palloc_alloc_pages_first_fit [OF pool4_reachable _ eq]
  show ?thesis
  proof (cases r)
    case (Inl e)
    then have "\<not> free_run pool4 0 2" using spec by auto
    then show ?thesis by (simp add: pool4_free_run)
  next
    case (Inr a)
    then obtain s where s: "\<forall>s' < s. \<not> free_run pool4 s' 2" "unat a = 0x100000 + s * 4096"
      "\<forall>i. bitmap_get q i = (if s \<le> i \<and> i < s + 2 then PALLOC_STATE_USED else bitmap_get pool4 i)"
      "p_free_pages q = 2"
      using spec by (auto simp: pool4_fields)
    have "s = 0" using s(1) by (auto simp: pool4_free_run)
    with s eq Inr show ?thesis by (simp add: pool4_get)
  qed
qed

theorem palloc_free_classifies_witness:
  "fst (palloc_free 0x101000 pool4) = PALLOC_ERR_DOUBLE_FREE \<and>
   fst (palloc_free 0x101001 pool4) = PALLOC_ERR_ALIGN \<and>
   fst (palloc_free 0x104000 pool4) = PALLOC_ERR_RANGE"
  using palloc_free_classifies [OF pool4_reachable surjective_pairing, of "0x101000"]
    palloc_free_classifies [OF pool4_reachable surjective_pairing, of "0x101001"]
    palloc_free_classifies [OF pool4_reachable surjective_pairing, of "0x104000"]
  by (simp add: pool4_fields pool4_get)

theorem palloc_alloc_free_roundtrip_witness:
  "\<exists>a q. palloc_alloc False pool4 = (Inr a, q) \<and> fst (palloc_free a q) = PALLOC_OK
     \<and> p_free_pages (snd (palloc_free a q)) = 4"
proof -
  have "0 < unat (1 :: u32)" by simp
  from alloc_pages_cases [OF palloc_reachable_inv [OF pool4_reachable] this]
  obtain a q where eq: "palloc_alloc False pool4 = (Inr a, q)"
    by (auto simp: palloc_alloc_def pool4_free_run)
  from palloc_alloc_free_roundtrip [OF pool4_reachable eq, of "fst (palloc_free a q)" "snd (palloc_free a q)"] eq
  show ?thesis by (simp add: pool4_fields)
qed

theorem palloc_reserve_outward_witness:
  "fst (palloc_reserve 0x101010 0x1010 pool4) = PALLOC_OK \<and>
   bitmap_get (snd (palloc_reserve 0x101010 0x1010 pool4)) 1 = PALLOC_STATE_RSVD \<and>
   bitmap_get (snd (palloc_reserve 0x101010 0x1010 pool4)) 2 = PALLOC_STATE_RSVD \<and>
   bitmap_get (snd (palloc_reserve 0x101010 0x1010 pool4)) 3 = PALLOC_STATE_FREE \<and>
   fst (palloc_reserve 0x1000 0x1000 pool4) = PALLOC_ERR_BAD_ARGS"
proof -
  let ?r = "palloc_reserve 0x101010 0x1010 pool4" and ?s = "palloc_reserve 0x1000 0x1000 pool4"
  have ov: "overlaps pool4 0x101010 0x1010 i \<longleftrightarrow> i = 1 \<or> i = 2" for i
    by (auto simp: overlaps_def pool4_fields)
  have "bitmap_get pool4 i \<noteq> PALLOC_STATE_USED" if "i = 1 \<or> i = 2" for i
    using that by (auto simp: pool4_get)
  note hyps = palloc_reserve_outward [OF pool4_reachable]
  have r: "palloc_reserve 0x101010 0x1010 pool4 = (fst ?r, snd ?r)" by simp
  have s: "palloc_reserve 0x1000 0x1000 pool4 = (fst ?s, snd ?s)" by simp
  have "fst ?s = PALLOC_ERR_BAD_ARGS"
    using hyps [OF _ _ s] by (simp add: pool4_fields)
  moreover have "fst ?r = PALLOC_OK \<and> (\<forall>i. bitmap_get (snd ?r) i =
      (if i = 1 \<or> i = 2 then PALLOC_STATE_RSVD else bitmap_get pool4 i))"
    using hyps [OF _ _ r] by (auto simp: ov pool4_fields pool4_get)
  ultimately show ?thesis by (simp add: pool4_get)
qed

end
