(* ===== verification/ArmWalk.thy ===== *)
theory ArmWalk
  imports Prelude
begin

text \<open>
  The table walk of the processor: how an ARMv7-A MMU reads short-format descriptors (architecture manual, VMSAv7
  short-descriptor format, TTBR0, no large physical addresses, no PXN).  It is stated from the positions of the
  bits alone and uses nothing of the program, so that what the program writes into the tables can be judged by it.
  First-level words are indexed, second-level words are read from physical memory.
\<close>

section \<open>What a translation gives\<close>

record hw_access =
  hw_ap :: "bool \<times> bool \<times> bool"
  hw_tex :: "bool \<times> bool \<times> bool"
  hw_c :: bool
  hw_b :: bool
  hw_s :: bool
  hw_ng :: bool
  hw_xn :: bool

record hw_page =
  hw_pa :: u32
  hw_domain :: "bool \<times> bool \<times> bool \<times> bool"
  hw_ns :: bool
  hw_acc :: hw_access

section \<open>The fields of the descriptors\<close>

definition hw_section_access :: "u32 \<Rightarrow> hw_access" where
  "hw_section_access d = \<lparr>hw_ap = (bit d 15, bit d 11, bit d 10), hw_tex = (bit d 14, bit d 13, bit d 12), hw_c = bit d 3,
     hw_b = bit d 2, hw_s = bit d 16, hw_ng = bit d 17, hw_xn = bit d 4\<rparr>"

definition hw_small_access :: "u32 \<Rightarrow> hw_access" where
  "hw_small_access e = \<lparr>hw_ap = (bit e 9, bit e 5, bit e 4), hw_tex = (bit e 8, bit e 7, bit e 6), hw_c = bit e 3,
     hw_b = bit e 2, hw_s = bit e 10, hw_ng = bit e 11, hw_xn = bit e 0\<rparr>"

definition hw_large_access :: "u32 \<Rightarrow> hw_access" where
  "hw_large_access e = \<lparr>hw_ap = (bit e 9, bit e 5, bit e 4), hw_tex = (bit e 14, bit e 13, bit e 12), hw_c = bit e 3,
     hw_b = bit e 2, hw_s = bit e 10, hw_ng = bit e 11, hw_xn = bit e 15\<rparr>"

definition hw_l1_domain :: "u32 \<Rightarrow> bool \<times> bool \<times> bool \<times> bool" where
  "hw_l1_domain d = (bit d 8, bit d 7, bit d 6, bit d 5)"

text \<open>The address: the upper bits of the descriptor, the lower \<open>n\<close> bits of the virtual address.\<close>

definition hw_join :: "nat \<Rightarrow> u32 \<Rightarrow> u32 \<Rightarrow> u32" where
  "hw_join n d va = (d AND NOT (mask n)) OR (va AND mask n)"

definition hw_l2_address :: "u32 \<Rightarrow> u32 \<Rightarrow> u32" where
  "hw_l2_address d va = (d AND NOT (mask 10)) + of_nat (4 * (unat va div 4096 mod 256))"

section \<open>The walk\<close>

definition hw_walk_l2 :: "u32 \<Rightarrow> u32 \<Rightarrow> u32 \<Rightarrow> hw_page option" where
  "hw_walk_l2 d e va =
     (if bit e 1 then Some \<lparr>hw_pa = hw_join 12 e va, hw_domain = hw_l1_domain d, hw_ns = bit d 3, hw_acc = hw_small_access e\<rparr>
      else if bit e 0 then
        Some \<lparr>hw_pa = hw_join 16 e va, hw_domain = hw_l1_domain d, hw_ns = bit d 3, hw_acc = hw_large_access e\<rparr>
      else None)"

definition hw_walk :: "(nat \<Rightarrow> u32) \<Rightarrow> (u32 \<Rightarrow> u32) \<Rightarrow> u32 \<Rightarrow> hw_page option" where
  "hw_walk l1 mem va =
     (let d = l1 (unat va div 1048576) in
      if \<not> bit d 1 \<and> bit d 0 then hw_walk_l2 d (mem (hw_l2_address d va)) va
      else if bit d 1 \<and> \<not> bit d 0 then
        (if bit d 18
         then Some \<lparr>hw_pa = hw_join 24 d va, hw_domain = (False, False, False, False), hw_ns = bit d 19, hw_acc = hw_section_access d\<rparr>
         else Some \<lparr>hw_pa = hw_join 20 d va, hw_domain = hw_l1_domain d, hw_ns = bit d 19, hw_acc = hw_section_access d\<rparr>)
      else None)"

section \<open>Descriptor types as words\<close>

lemma and3_bits: "bit (d AND 3 :: u32) n \<longleftrightarrow> n < 2 \<and> bit d n"
proof -
  have "(3 :: u32) = mask 2" by (simp add: mask_eq_exp_minus_1)
  then show ?thesis by (simp only: bit_and_iff bit_mask_iff) (auto dest: bit_imp_le_length)
qed

lemma type_table: "d AND 3 = (1 :: u32) \<longleftrightarrow> \<not> bit d 1 \<and> bit d 0"
proof
  assume a: "d AND 3 = 1"
  show "\<not> bit d 1 \<and> bit d 0" using and3_bits [of d 0] and3_bits [of d 1] by (simp add: a bit_1_iff)
next
  assume "\<not> bit d 1 \<and> bit d 0"
  then show "d AND 3 = 1" by (intro bit_word_eqI) (auto simp: and3_bits bit_1_iff less_2_cases_iff)
qed

lemma type_section: "d AND 3 = (2 :: u32) \<longleftrightarrow> bit d 1 \<and> \<not> bit d 0"
proof
  assume a: "d AND 3 = 2"
  show "bit d 1 \<and> \<not> bit d 0" using and3_bits [of d 0] and3_bits [of d 1] by (simp add: a)
next
  assume "bit d 1 \<and> \<not> bit d 0"
  then have "bit (d AND 3) n = bit (2 :: u32) n" for n
    using and3_bits [of d n] by (cases n) (auto simp: less_2_cases_iff bit_simps)
  then show "d AND 3 = 2" by (intro bit_word_eqI) simp
qed

lemma hw_section:
  assumes "l1 (unat va div 1048576) AND 3 = (2 :: u32)" and "\<not> bit (l1 (unat va div 1048576)) 18"
  shows "hw_walk l1 mem va = Some \<lparr>hw_pa = hw_join 20 (l1 (unat va div 1048576)) va,
    hw_domain = hw_l1_domain (l1 (unat va div 1048576)), hw_ns = bit (l1 (unat va div 1048576)) 19,
    hw_acc = hw_section_access (l1 (unat va div 1048576))\<rparr>"
  using assms unfolding type_section by (simp add: hw_walk_def Let_def)

lemma hw_table:
  assumes "l1 (unat va div 1048576) AND 3 = (1 :: u32)"
  shows "hw_walk l1 mem va = hw_walk_l2 (l1 (unat va div 1048576)) (mem (hw_l2_address (l1 (unat va div 1048576)) va)) va"
  using assms unfolding type_table by (simp add: hw_walk_def Let_def)

lemma hw_fault: "l1 (unat va div 1048576) = 0 \<Longrightarrow> hw_walk l1 mem va = None"
  by (simp add: hw_walk_def)

text \<open>A section descriptor made of a base and attribute bits below it.\<close>

lemma bit_low_attr:
  fixes x a :: u32
  assumes "n < 20"
  shows "bit ((x AND NOT (mask 20)) OR a) n = bit a n"
  using assms by (simp add: bit_or_iff bit_and_iff bit_not_iff bit_mask_iff)

lemma section_of_attr:
  fixes x a :: u32
  assumes "a AND NOT (mask 20) = 0"
  shows "hw_section_access ((x AND NOT (mask 20)) OR a) = hw_section_access a"
    and "hw_l1_domain ((x AND NOT (mask 20)) OR a) = hw_l1_domain a"
    and "hw_join 20 ((x AND NOT (mask 20)) OR a) x = x"
proof -
  show "hw_section_access ((x AND NOT (mask 20)) OR a) = hw_section_access a"
    "hw_l1_domain ((x AND NOT (mask 20)) OR a) = hw_l1_domain a"
    by (simp_all add: hw_section_access_def hw_l1_domain_def bit_low_attr)
  have "\<not> (bit a n \<and> 20 \<le> n \<and> n < 32)" for n
    using arg_cong [where f = "\<lambda>w. bit w n", OF assms] by (auto simp: bit_and_iff bit_not_iff bit_mask_iff)
  then show "hw_join 20 ((x AND NOT (mask 20)) OR a) x = x"
    by (intro bit_word_eqI) (auto simp: hw_join_def bit_or_iff bit_and_iff bit_not_iff bit_mask_iff)
qed

end
