(* ===== verification/Mmu.thy ===== *)
theory Mmu
  imports ArmWalk
begin

text \<open>
  ARMv7-A short descriptors and the address-space layout, \<open>arch/arm32/src/mmu.c\<close> and the
  inline helpers of \<open>include/arch/mmu.h\<close>: attribute encodings, descriptor decoding, the
  region table with its boot-time check, and the first-level table built from it, which
  the walk of \<open>ArmWalk\<close> reads as the processor does.
\<close>

section \<open>Constants\<close>

abbreviation (input) MMU_SECTION_SHIFT :: nat where "MMU_SECTION_SHIFT \<equiv> 20"
abbreviation (input) MMU_SECTION_SIZE :: u32 where "MMU_SECTION_SIZE \<equiv> 0x100000"
abbreviation (input) MMU_SECTION_MASK :: u32 where "MMU_SECTION_MASK \<equiv> 0xFFF00000"
abbreviation (input) MMU_L1_ENTRY_COUNT :: nat where "MMU_L1_ENTRY_COUNT \<equiv> 4096"
abbreviation (input) MMU_L1_TABLE_ALIGN :: u32 where "MMU_L1_TABLE_ALIGN \<equiv> 0x4000"
abbreviation (input) MMU_PAGE_MASK :: u32 where "MMU_PAGE_MASK \<equiv> 0xFFFFF000"
abbreviation (input) MMU_L2_TABLE_MASK :: u32 where "MMU_L2_TABLE_MASK \<equiv> 0xFFFFFC00"
abbreviation (input) MMU_DESC_TYPE_MASK :: u32 where "MMU_DESC_TYPE_MASK \<equiv> 3"
abbreviation (input) MMU_L1_TYPE_FAULT :: u32 where "MMU_L1_TYPE_FAULT \<equiv> 0"
abbreviation (input) MMU_L1_TYPE_PAGE_TABLE :: u32 where "MMU_L1_TYPE_PAGE_TABLE \<equiv> 1"
abbreviation (input) MMU_L1_TYPE_SECTION :: u32 where "MMU_L1_TYPE_SECTION \<equiv> 2"
abbreviation (input) MMU_AP_SHIFT_L1 :: nat where "MMU_AP_SHIFT_L1 \<equiv> 10"
abbreviation (input) MMU_AP_SHIFT_L2 :: nat where "MMU_AP_SHIFT_L2 \<equiv> 4"
abbreviation (input) MMU_AP_LOW_MASK :: u32 where "MMU_AP_LOW_MASK \<equiv> 3"
abbreviation (input) MMU_AP_NONE :: u32 where "MMU_AP_NONE \<equiv> 0"
abbreviation (input) MMU_L1_AP2_BIT :: u32 where "MMU_L1_AP2_BIT \<equiv> push_bit 15 1"
abbreviation (input) MMU_L2_AP2_BIT :: u32 where "MMU_L2_AP2_BIT \<equiv> push_bit 9 1"
abbreviation (input) MMU_L1_DOMAIN_SHIFT :: nat where "MMU_L1_DOMAIN_SHIFT \<equiv> 5"
abbreviation (input) MMU_L1_DOMAIN_MASK :: u32 where "MMU_L1_DOMAIN_MASK \<equiv> 0xF"
abbreviation (input) MMU_ATTR_S_BIT :: u32 where "MMU_ATTR_S_BIT \<equiv> push_bit 16 1"
abbreviation (input) MMU_ATTR_NORMAL_WB :: u32 where "MMU_ATTR_NORMAL_WB \<equiv> 0x15DE6"
abbreviation (input) MMU_ATTR_NORMAL_NC :: u32 where "MMU_ATTR_NORMAL_NC \<equiv> 0x11DE2"
abbreviation (input) MMU_ATTR_STRONG_ORDERED :: u32 where "MMU_ATTR_STRONG_ORDERED \<equiv> 0x00C02"
abbreviation (input) MMU_ATTR_DEVICE_XN :: u32 where "MMU_ATTR_DEVICE_XN \<equiv> 0x00C06 OR push_bit 4 1"
abbreviation (input) MMU_ATTR_RESERVED :: u32 where "MMU_ATTR_RESERVED \<equiv> 0"
abbreviation (input) MMU_REGION_LIMIT :: nat where "MMU_REGION_LIMIT \<equiv> 32"

section \<open>Indices\<close>

definition mmu_l1_index :: "u32 \<Rightarrow> u32" where
  "mmu_l1_index va = drop_bit MMU_SECTION_SHIFT va AND 0xFFF"

definition mmu_l2_index :: "u32 \<Rightarrow> u32" where
  "mmu_l2_index va = drop_bit 12 va AND 0xFF"

definition mmu_section_offset :: "u32 \<Rightarrow> u32" where
  "mmu_section_offset va = va AND (MMU_SECTION_SIZE - 1)"

definition mmu_page_offset :: "u32 \<Rightarrow> u32" where
  "mmu_page_offset va = va AND (4096 - 1)"

definition mmu_section_base :: "u32 \<Rightarrow> u32" where
  "mmu_section_base addr = addr AND MMU_SECTION_MASK"

definition mmu_l1_index_end :: "u32 \<Rightarrow> u32" where
  "mmu_l1_index_end index = push_bit MMU_SECTION_SHIFT index OR (MMU_SECTION_SIZE - 1)"

section \<open>Attributes and descriptors\<close>

definition mmu_l1_section_attr ::
  "u32 \<Rightarrow> u32 \<Rightarrow> u32 \<Rightarrow> u32 \<Rightarrow> u32 \<Rightarrow> bool \<Rightarrow> bool \<Rightarrow> u32" where
  "mmu_l1_section_attr ap3 tex c b domain shareable xn =
     (let attr = MMU_L1_TYPE_SECTION;
          attr = attr OR push_bit MMU_AP_SHIFT_L1 (ap3 AND MMU_AP_LOW_MASK);
          attr = (if ap3 AND 4 \<noteq> 0 then attr OR MMU_L1_AP2_BIT else attr);
          attr = attr OR push_bit 12 (tex AND 7);
          attr = (if c \<noteq> 0 then attr OR push_bit 3 1 else attr);
          attr = (if b \<noteq> 0 then attr OR push_bit 2 1 else attr);
          attr = attr OR push_bit MMU_L1_DOMAIN_SHIFT (domain AND MMU_L1_DOMAIN_MASK);
          attr = (if shareable then attr OR MMU_ATTR_S_BIT else attr)
      in (if xn then attr OR push_bit 4 1 else attr))"

definition mmu_l2_small_page_attr ::
  "u32 \<Rightarrow> u32 \<Rightarrow> u32 \<Rightarrow> u32 \<Rightarrow> bool \<Rightarrow> bool \<Rightarrow> u32" where
  "mmu_l2_small_page_attr ap3 tex c b shareable xn =
     (let attr = 2;
          attr = (if xn then attr OR 1 else attr);
          attr = (if b \<noteq> 0 then attr OR push_bit 2 1 else attr);
          attr = (if c \<noteq> 0 then attr OR push_bit 3 1 else attr);
          attr = attr OR push_bit MMU_AP_SHIFT_L2 (ap3 AND MMU_AP_LOW_MASK);
          attr = (if ap3 AND 4 \<noteq> 0 then attr OR MMU_L2_AP2_BIT else attr);
          attr = attr OR push_bit 6 (tex AND 7)
      in (if shareable then attr OR push_bit 10 1 else attr))"

definition mmu_section_descriptor :: "u32 \<Rightarrow> u32 \<Rightarrow> u32" where
  "mmu_section_descriptor pa attr = (pa AND MMU_SECTION_MASK) OR attr"

definition mmu_page_table_descriptor :: "u32 \<Rightarrow> u32 \<Rightarrow> u32" where
  "mmu_page_table_descriptor l2_table_pa domain =
     (l2_table_pa AND MMU_L2_TABLE_MASK)
     OR push_bit MMU_L1_DOMAIN_SHIFT (domain AND MMU_L1_DOMAIN_MASK)
     OR MMU_L1_TYPE_PAGE_TABLE"

definition mmu_small_page_descriptor :: "u32 \<Rightarrow> u32 \<Rightarrow> u32" where
  "mmu_small_page_descriptor pa attr = (pa AND MMU_PAGE_MASK) OR attr"

definition MMU_IS_L1_PAGE_TABLE :: "u32 \<Rightarrow> bool" where
  "MMU_IS_L1_PAGE_TABLE desc \<longleftrightarrow> desc AND MMU_DESC_TYPE_MASK = MMU_L1_TYPE_PAGE_TABLE"

definition MMU_IS_L1_SECTION :: "u32 \<Rightarrow> bool" where
  "MMU_IS_L1_SECTION desc \<longleftrightarrow> desc AND MMU_DESC_TYPE_MASK = MMU_L1_TYPE_SECTION"

definition MMU_IS_L2_FAULT :: "u32 \<Rightarrow> bool" where
  "MMU_IS_L2_FAULT desc \<longleftrightarrow> desc AND MMU_DESC_TYPE_MASK = 0"

definition MMU_IS_L2_LARGE_PAGE :: "u32 \<Rightarrow> bool" where
  "MMU_IS_L2_LARGE_PAGE desc \<longleftrightarrow> desc AND MMU_DESC_TYPE_MASK = 1"

definition MMU_IS_L2_SMALL_PAGE :: "u32 \<Rightarrow> bool" where
  "MMU_IS_L2_SMALL_PAGE desc \<longleftrightarrow> desc AND 2 \<noteq> 0"

definition mmu_descriptor_pa :: "u32 \<Rightarrow> u32 \<Rightarrow> u32" where
  "mmu_descriptor_pa desc level =
     (if level = 1 then
        (if MMU_IS_L1_SECTION desc then desc AND MMU_SECTION_MASK
         else if MMU_IS_L1_PAGE_TABLE desc then desc AND MMU_L2_TABLE_MASK
         else 0)
      else if MMU_IS_L2_SMALL_PAGE desc then desc AND MMU_PAGE_MASK
      else if MMU_IS_L2_LARGE_PAGE desc then desc AND 0xFFFF0000
      else 0)"

definition mmu_descriptor_kind_text :: "u32 \<Rightarrow> u32 \<Rightarrow> string" where
  "mmu_descriptor_kind_text desc level =
     (if level = 1 then
        (if desc AND MMU_DESC_TYPE_MASK = MMU_L1_TYPE_FAULT then ''fault''
         else if desc AND MMU_DESC_TYPE_MASK = MMU_L1_TYPE_PAGE_TABLE then ''page table -> L2''
         else if desc AND MMU_DESC_TYPE_MASK = MMU_L1_TYPE_SECTION then ''section 1MB''
         else ''reserved'')
      else if MMU_IS_L2_FAULT desc then ''fault''
      else if MMU_IS_L2_LARGE_PAGE desc then ''large page 64KB''
      else if MMU_IS_L2_SMALL_PAGE desc
        then (if desc AND 1 \<noteq> 0 then ''small page 4KB (XN)'' else ''small page 4KB'')
      else ''reserved'')"

datatype mmu_l1_check = MMU_L1_CHECK_OK | MMU_L1_CHECK_NULL | MMU_L1_CHECK_MISALIGNED

definition mmu_l1_table_check :: "u32 option \<Rightarrow> mmu_l1_check" where
  "mmu_l1_table_check table =
     (case table of
        None \<Rightarrow> MMU_L1_CHECK_NULL
      | Some addr \<Rightarrow> if addr AND (MMU_L1_TABLE_ALIGN - 1) \<noteq> 0 then MMU_L1_CHECK_MISALIGNED
                     else MMU_L1_CHECK_OK)"

section \<open>The region table\<close>

record mmu_region_t =
  r_base :: u32
  r_size :: u32
  r_attr :: u32
  r_name :: string

datatype mmu_regions_check_t =
    MMU_REGIONS_OK | MMU_REGIONS_UNSORTED | MMU_REGIONS_OVERLAP | MMU_REGIONS_MISALIGNED
  | MMU_REGIONS_OUT_OF_RANGE | MMU_REGIONS_TOO_MANY

definition g_regions :: "mmu_region_t list" where
  "g_regions =
    [\<lparr>r_base = 0x00000000, r_size = 0x00100000, r_attr = MMU_ATTR_NORMAL_NC,
      r_name = ''OCM + heartbeat (JTAG-visible)''\<rparr>,
     \<lparr>r_base = 0x00100000, r_size = 0x3FF00000, r_attr = MMU_ATTR_NORMAL_WB, r_name = ''DDR''\<rparr>,
     \<lparr>r_base = 0x40000000, r_size = 0x80000000, r_attr = MMU_ATTR_STRONG_ORDERED,
      r_name = ''PL (AXI GP0/GP1)''\<rparr>,
     \<lparr>r_base = 0xE0000000, r_size = 0x00300000, r_attr = MMU_ATTR_DEVICE_XN,
      r_name = ''PS peripherals''\<rparr>,
     \<lparr>r_base = 0xF8000000, r_size = 0x01000000, r_attr = MMU_ATTR_DEVICE_XN,
      r_name = ''SLCR / SCU / GIC''\<rparr>,
     \<lparr>r_base = 0xFFF00000, r_size = 0x00100000, r_attr = MMU_ATTR_NORMAL_NC,
      r_name = ''OCM high alias / BootROM''\<rparr>]"

text \<open>
  The check walks the table once; \<open>prev\<close> is the entry before the current one.  Bounds are
  computed in 64 bits, as the code does, because the last region ends at 4 GiB.
\<close>

fun regions_check_loop :: "mmu_region_t option \<Rightarrow> mmu_region_t list \<Rightarrow> mmu_regions_check_t" where
  "regions_check_loop prev [] = MMU_REGIONS_OK"
| "regions_check_loop prev (r # rs) =
     (let base = (ucast (r_base r) :: u64); sz = (ucast (r_size r) :: u64)
      in if sz = 0 \<or> base mod 0x100000 \<noteq> 0 \<or> sz mod 0x100000 \<noteq> 0 then MMU_REGIONS_MISALIGNED
         else if 0x100000000 < base + sz then MMU_REGIONS_OUT_OF_RANGE
         else
           (case prev of
              None \<Rightarrow> regions_check_loop (Some r) rs
            | Some q \<Rightarrow>
                let prev_base = (ucast (r_base q) :: u64);
                    prev_end = prev_base + ucast (r_size q)
                in if base < prev_base then MMU_REGIONS_UNSORTED
                   else if base < prev_end then MMU_REGIONS_OVERLAP
                   else regions_check_loop (Some r) rs))"

definition regions_check :: "mmu_region_t list \<Rightarrow> mmu_regions_check_t" where
  "regions_check regions =
     (if length regions = 0 \<or> MMU_REGION_LIMIT < length regions then MMU_REGIONS_TOO_MANY
      else regions_check_loop None regions)"

definition mmu_regions_check :: mmu_regions_check_t where
  "mmu_regions_check = regions_check g_regions"

text \<open>The first-level table as 4096 words: cleared, then filled region by region.\<close>

definition map_region :: "mmu_region_t \<Rightarrow> (nat \<Rightarrow> u32) \<Rightarrow> (nat \<Rightarrow> u32)" where
  "map_region r table =
     (let first_index = unat (drop_bit MMU_SECTION_SHIFT (r_base r));
          sections = unat (drop_bit MMU_SECTION_SHIFT (r_size r))
      in fold (\<lambda>j t. let pa = r_base r + push_bit MMU_SECTION_SHIFT (of_nat j)
                      in t(first_index + j := mmu_section_descriptor pa (r_attr r)))
           [0..<sections] table)"

definition build_l1_table :: "mmu_region_t list \<Rightarrow> (nat \<Rightarrow> u32) \<Rightarrow> (nat \<Rightarrow> u32)" where
  "build_l1_table regions table =
     fold map_region regions (fold (\<lambda>i t. t(i := MMU_ATTR_RESERVED)) [0..<MMU_L1_ENTRY_COUNT] table)"

definition mmu_build_l1_table :: "(nat \<Rightarrow> u32) \<Rightarrow> (nat \<Rightarrow> u32)" where
  "mmu_build_l1_table table = build_l1_table g_regions table"

fun region_name_loop :: "mmu_region_t list \<Rightarrow> u32 \<Rightarrow> string" where
  "region_name_loop [] addr = ''unmapped''"
| "region_name_loop (r # rs) addr =
     (if (ucast (r_base r) :: u64) \<le> ucast addr
         \<and> (ucast addr :: u64) < ucast (r_base r) + ucast (r_size r)
      then r_name r
      else region_name_loop rs addr)"

definition mmu_region_name_for :: "u32 \<Rightarrow> string" where
  "mmu_region_name_for addr = region_name_loop g_regions addr"

lemma mmu_regions_check_ok: "mmu_regions_check = MMU_REGIONS_OK"
  by (simp add: mmu_regions_check_def regions_check_def g_regions_def)

section \<open>What the boot-time check establishes\<close>

lemma unat_ucast64_add [simp]: "unat ((ucast (x :: u32) :: u64) + ucast (y :: u32)) = unat x + unat y"
proof -
  have "unat x < 4294967296" "unat y < 4294967296" by (rule unat_lt32)+
  then have "unat x + unat y < 4294967296 + 4294967296" by (rule add_strict_mono)
  then have "unat x + unat y < 2 ^ 64" by (rule order_less_le_trans) simp
  then show ?thesis by (subst unat_add_small) simp_all
qed

lemma ucast64_mod: "(ucast (x :: u32) :: u64) mod 0x100000 = 0 \<longleftrightarrow> unat x mod 1048576 = 0"
  by (simp add: word_eq_unat unat_mod_distrib)

lemma ucast64_0: "(ucast (x :: u32) :: u64) = 0 \<longleftrightarrow> unat x = 0"
  by (simp add: word_eq_unat)

definition region_end :: "mmu_region_t \<Rightarrow> nat" where
  "region_end r = unat (r_base r) + unat (r_size r)"

definition region_ok :: "mmu_region_t \<Rightarrow> bool" where
  "region_ok r \<longleftrightarrow> 0 < unat (r_size r) \<and> unat (r_base r) mod 1048576 = 0
     \<and> unat (r_size r) mod 1048576 = 0 \<and> region_end r \<le> 4294967296"

lemma regions_check_step:
  assumes "regions_check_loop prev (r # rs) = MMU_REGIONS_OK"
  shows "region_ok r \<and> (\<forall>q. prev = Some q \<longrightarrow> region_end q \<le> unat (r_base r))
     \<and> regions_check_loop (Some r) rs = MMU_REGIONS_OK"
proof -
  have nz: "(ucast (r_size r) :: u64) \<noteq> 0" and m: "(ucast (r_base r) :: u64) mod 0x100000 = 0"
    "(ucast (r_size r) :: u64) mod 0x100000 = 0"
    and lim: "\<not> 0x100000000 < (ucast (r_base r) :: u64) + ucast (r_size r)"
    using assms by (auto simp: Let_def split: if_splits option.splits)
  have ok: "region_ok r"
    using nz m lim unfolding ucast64_mod ucast64_0
    by (auto simp: region_ok_def region_end_def word_lt_unat)
  show ?thesis
  proof (cases prev)
    case None
    then show ?thesis using assms nz m lim ok by simp
  next
    case (Some q)
    then show ?thesis using assms nz m lim ok
      by (auto simp: Let_def region_end_def word_lt_unat split: if_splits)
  qed
qed

lemma regions_check_loop_OK:
  "regions_check_loop prev rs = MMU_REGIONS_OK \<Longrightarrow>
   (\<forall>r\<in>set rs. region_ok r \<and> (\<forall>q. prev = Some q \<longrightarrow> region_end q \<le> unat (r_base r)))
   \<and> sorted_wrt (\<lambda>q r. region_end q \<le> unat (r_base r)) rs"
proof (induction rs arbitrary: prev)
  case Nil
  then show ?case by simp
next
  case (Cons r rs)
  note step = regions_check_step [OF Cons.prems]
  then have IH: "\<forall>s\<in>set rs. region_ok s \<and> region_end r \<le> unat (r_base s)"
    "sorted_wrt (\<lambda>q r. region_end q \<le> unat (r_base r)) rs"
    using Cons.IH [of "Some r"] by auto
  have "unat (r_base r) \<le> region_end r" by (simp add: region_end_def)
  with step IH show ?case by (fastforce intro: order_trans)
qed

section \<open>The first-level table\<close>

lemma fold_upd_range:
  "fold (\<lambda>j t. t(a + j := f j)) [0..<n] t i = (if a \<le> i \<and> i < a + n then f (i - a) else t i)"
  by (induction n arbitrary: i) auto

definition in_region :: "mmu_region_t \<Rightarrow> u32 \<Rightarrow> bool" where
  "in_region r va \<longleftrightarrow> unat (r_base r) \<le> unat va \<and> unat va < region_end r"

lemma unat_l1_index: "unat (mmu_l1_index va) = unat va div 1048576"
proof -
  have "unat (mmu_l1_index va) = unat (drop_bit 20 va) mod 4096"
    using unat_and_mask [of "drop_bit 20 va" 12] by (simp add: mmu_l1_index_def mask_eq_exp_minus_1)
  moreover have "unat va div 1048576 < 4096"
    using unat_lt32 [of va] by (simp add: less_mult_imp_div_less)
  ultimately show ?thesis by (simp only: unat_drop_bit) simp
qed

lemma section_mask_not: "MMU_SECTION_MASK = NOT (mask 20)"
  by (simp add: mask_eq_exp_minus_1)

lemma unat_section_base: "unat (mmu_section_base va) = unat va div 1048576 * 1048576"
  unfolding mmu_section_base_def section_mask_not unat_and_not_mask
  by (simp add: minus_mod_eq_div_mult)

lemma map_region_entry:
  assumes "region_ok r"
  shows "map_region r t i =
    (if unat (r_base r) div 1048576 \<le> i \<and> i < region_end r div 1048576
     then mmu_section_descriptor (push_bit 20 (of_nat i)) (r_attr r) else t i)"
proof -
  obtain b where b: "unat (r_base r) = b * 1048576"
    using assms by (auto simp: region_ok_def dvd_def mod_eq_0_iff_dvd mult.commute)
  obtain s where s: "unat (r_size r) = s * 1048576"
    using assms by (auto simp: region_ok_def dvd_def mod_eq_0_iff_dvd mult.commute)
  have e: "region_end r div 1048576 = b + s" by (simp only: region_end_def b s add_mult_distrib [symmetric]) simp
  have base: "r_base r = push_bit 20 (of_nat b)"
  proof -
    have "b * 1048576 < 4294967296" using b unat_lt32 [of "r_base r"] by simp
    then have "unat (push_bit 20 (of_nat b :: u32)) = b * 1048576"
      by (simp add: unat_push_bit_small unat_of_nat_small del: push_bit_of_nat)
    then show ?thesis by (simp add: word_eq_unat b del: push_bit_of_nat)
  qed
  have pa: "r_base r + push_bit 20 (of_nat i - of_nat b) = push_bit 20 (of_nat i)"
    by (simp add: base push_bit_eq_mult algebra_simps)
  show ?thesis
    by (simp add: map_region_def Let_def fold_upd_range unat_drop_bit b s e pa del: push_bit_of_nat)
qed

lemma regions_disjoint:
  assumes "sorted_wrt (\<lambda>q r. region_end q \<le> unat (r_base r)) rs"
    and "r \<in> set rs" "s \<in> set rs" "in_region r va" "in_region s va"
  shows "r = s"
  using assms by (induction rs) (auto simp: in_region_def)

lemma region_index:
  assumes "region_ok r"
  shows "in_region r va \<longleftrightarrow>
    unat (r_base r) div 1048576 \<le> unat va div 1048576 \<and> unat va div 1048576 < region_end r div 1048576"
proof -
  obtain b where b: "unat (r_base r) = b * 1048576"
    using assms by (auto simp: region_ok_def dvd_def mod_eq_0_iff_dvd mult.commute)
  obtain s where s: "unat (r_size r) = s * 1048576"
    using assms by (auto simp: region_ok_def dvd_def mod_eq_0_iff_dvd mult.commute)
  have e: "region_end r = (b + s) * 1048576" by (simp only: region_end_def b s add_mult_distrib)
  show ?thesis
    by (simp add: in_region_def b e less_eq_div_iff_mult_less_eq div_less_iff_less_mult)
qed

lemma section_descriptor_cong:
  "mmu_section_descriptor (push_bit 20 (of_nat (unat va div 1048576))) attr
   = mmu_section_descriptor va attr"
proof -
  have "unat (mmu_section_base (push_bit 20 (of_nat (unat va div 1048576)))) = unat (mmu_section_base va)"
  proof -
    have "unat va div 1048576 < 4096" using unat_lt32 [of va] by (simp add: less_mult_imp_div_less)
    then have "unat (push_bit 20 (of_nat (unat va div 1048576) :: u32)) = unat va div 1048576 * 1048576"
      by (simp add: unat_push_bit_small unat_of_nat_small del: push_bit_of_nat)
    then show ?thesis by (simp only: unat_section_base) simp
  qed
  then have "mmu_section_base (push_bit 20 (of_nat (unat va div 1048576))) = mmu_section_base va"
    by (simp only: word_eq_unat)
  then show ?thesis by (simp only: mmu_section_descriptor_def mmu_section_base_def)
qed

lemma fold_map_region:
  assumes "\<forall>r\<in>set rs. region_ok r" and "sorted_wrt (\<lambda>q r. region_end q \<le> unat (r_base r)) rs"
  shows "fold map_region rs t (unat (mmu_l1_index va)) =
    (case find (\<lambda>r. in_region r va) rs of
       None \<Rightarrow> t (unat (mmu_l1_index va))
     | Some r \<Rightarrow> mmu_section_descriptor va (r_attr r))"
  using assms
proof (induction rs arbitrary: t)
  case Nil
  then show ?case by simp
next
  case (Cons r rs)
  then have IH: "fold map_region rs (map_region r t) (unat (mmu_l1_index va)) =
      (case find (\<lambda>r. in_region r va) rs of
         None \<Rightarrow> map_region r t (unat (mmu_l1_index va))
       | Some r \<Rightarrow> mmu_section_descriptor va (r_attr r))" by simp
  have hd: "map_region r t (unat (mmu_l1_index va)) =
      (if in_region r va then mmu_section_descriptor va (r_attr r) else t (unat (mmu_l1_index va)))"
    using Cons.prems
    by (simp add: map_region_entry region_index unat_l1_index section_descriptor_cong del: push_bit_of_nat)
  have "find (\<lambda>r. in_region r va) rs = None" if "in_region r va"
    using that Cons.prems(2) by (auto simp: find_None_iff in_region_def)
  with IH hd show ?case by (simp split: option.split)
qed

lemma build_l1_table_clear:
  "i < 4096 \<Longrightarrow> fold (\<lambda>i t. t(i := MMU_ATTR_RESERVED)) [0..<MMU_L1_ENTRY_COUNT] t i = 0"
  using fold_upd_range [of 0 "\<lambda>_. 0" 4096 t i] by simp

lemma build_l1_table_lookup:
  assumes "regions_check rs = MMU_REGIONS_OK"
  shows "build_l1_table rs t (unat (mmu_l1_index va)) =
    (case find (\<lambda>r. in_region r va) rs of
       None \<Rightarrow> 0 | Some r \<Rightarrow> mmu_section_descriptor va (r_attr r))"
proof -
  have "regions_check_loop None rs = MMU_REGIONS_OK"
    using assms by (simp add: regions_check_def split: if_splits)
  note ok = regions_check_loop_OK [OF this]
  have "unat (mmu_l1_index va) < 4096"
    using unat_lt32 [of va] by (simp add: unat_l1_index less_mult_imp_div_less)
  with ok show ?thesis
    by (simp add: build_l1_table_def fold_map_region build_l1_table_clear [simplified] split: option.split)
qed


section \<open>The board's layout\<close>

lemma region_name_find:
  "region_name_loop rs va = (case find (\<lambda>r. in_region r va) rs of None \<Rightarrow> ''unmapped'' | Some r \<Rightarrow> r_name r)"
  by (induction rs) (auto simp: in_region_def region_end_def word_le_unat word_lt_unat)

lemma g_regions_attrs:
  "r \<in> set g_regions \<Longrightarrow> r_attr r AND MMU_SECTION_MASK = 0 \<and> r_attr r AND 3 = 2 \<and> r_name r \<noteq> ''unmapped''"
  by (auto simp: g_regions_def)

lemma masked_or_attr:
  fixes a x m :: u32
  assumes "a AND m = 0"
  shows "((x AND m) OR a) AND NOT m = a"
proof (rule bit_word_eqI)
  fix n assume "n < LENGTH(32)"
  moreover have "\<not> (bit a n \<and> bit m n)"
    using arg_cong [where f = "\<lambda>w. bit w n", OF assms] by (simp add: bit_and_iff)
  ultimately show "bit (((x AND m) OR a) AND NOT m) n = bit a n"
    by (auto simp: bit_and_iff bit_or_iff bit_not_iff)
qed

lemma section_descriptor_decode:
  assumes "attr AND MMU_SECTION_MASK = 0" and "attr AND 3 = 2"
  shows "mmu_descriptor_pa (mmu_section_descriptor va attr) 1 = mmu_section_base va"
    and "mmu_descriptor_kind_text (mmu_section_descriptor va attr) 1 = ''section 1MB''"
    and "mmu_section_descriptor va attr AND NOT MMU_SECTION_MASK = attr"
proof -
  have t: "mmu_section_descriptor va attr AND 3 = 2"
    using assms(2) by (simp add: mmu_section_descriptor_def bit.conj_disj_distrib2 and.assoc)
  have a: "mmu_section_descriptor va attr AND MMU_SECTION_MASK = mmu_section_base va"
    using assms(1) by (simp add: mmu_section_descriptor_def mmu_section_base_def bit.conj_disj_distrib2 and.assoc)
  show "mmu_descriptor_pa (mmu_section_descriptor va attr) 1 = mmu_section_base va"
    using t a by (simp add: mmu_descriptor_pa_def MMU_IS_L1_SECTION_def)
  show "mmu_descriptor_kind_text (mmu_section_descriptor va attr) 1 = ''section 1MB''"
    using t by (simp add: mmu_descriptor_kind_text_def)
  show "mmu_section_descriptor va attr AND NOT MMU_SECTION_MASK = attr"
    unfolding mmu_section_descriptor_def using assms(1) by (rule masked_or_attr)
qed

text \<open>
  The built table holds for every address the entry of the one region that contains it, and the
  fault descriptor outside all regions.
\<close>

lemma mmu_checked_table_entry:
  assumes "regions_check rs = MMU_REGIONS_OK"
  shows "(r \<in> set rs \<and> in_region r va \<longrightarrow>
            build_l1_table rs t (unat (mmu_l1_index va)) = mmu_section_descriptor va (r_attr r))
       \<and> ((\<forall>r\<in>set rs. \<not> in_region r va) \<longrightarrow> build_l1_table rs t (unat (mmu_l1_index va)) = 0)"
proof -
  have "regions_check_loop None rs = MMU_REGIONS_OK"
    using assms by (simp add: regions_check_def split: if_splits)
  note ok = regions_check_loop_OK [OF this]
  have "find (\<lambda>r. in_region r va) rs = Some r" if r: "r \<in> set rs" "in_region r va"
  proof (cases "find (\<lambda>r. in_region r va) rs")
    case None
    with r show ?thesis by (simp add: find_None_iff)
  next
    case (Some s)
    then have "s \<in> set rs" "in_region s va" by (auto simp: find_Some_iff in_set_conv_nth)
    with ok r Some show ?thesis by (metis regions_disjoint)
  qed
  moreover have "find (\<lambda>r. in_region r va) rs = None" if "\<forall>r\<in>set rs. \<not> in_region r va"
    using that by (simp add: find_None_iff)
  ultimately show ?thesis using build_l1_table_lookup [OF assms, of t va] by auto
qed

text \<open>
  The board's own table: an address the region names call unmapped faults, every other
  address decodes to a 1 MiB section whose physical base is the address itself.
\<close>

theorem mmu_build_l1_table_identity:
  "let d = mmu_build_l1_table t (unat (mmu_l1_index va))
   in if mmu_region_name_for va = ''unmapped'' then d = 0 \<and> mmu_descriptor_kind_text d 1 = ''fault''
      else mmu_descriptor_kind_text d 1 = ''section 1MB'' \<and> mmu_descriptor_pa d 1 = mmu_section_base va"
proof -
  have ok: "regions_check g_regions = MMU_REGIONS_OK"
    using mmu_regions_check_ok by (simp add: mmu_regions_check_def)
  show ?thesis
  proof (cases "find (\<lambda>r. in_region r va) g_regions")
    case None
    then show ?thesis
      by (simp add: mmu_build_l1_table_def build_l1_table_lookup [OF ok] mmu_region_name_for_def
          region_name_find mmu_descriptor_kind_text_def)
  next
    case (Some r)
    then have "r \<in> set g_regions" by (auto simp: find_Some_iff in_set_conv_nth)
    note a = g_regions_attrs [OF this]
    with Some show ?thesis
      by (simp add: mmu_build_l1_table_def build_l1_table_lookup [OF ok] mmu_region_name_for_def
          region_name_find section_descriptor_decode)
  qed
qed

section \<open>What the processor reads from it\<close>

text \<open>
  The attributes of a region make 1 MiB sections: type bits 10, nothing in the base address, not a supersection.
\<close>

definition section_attr :: "u32 \<Rightarrow> bool" where
  "section_attr a \<longleftrightarrow> a AND 0xFFF00000 = 0 \<and> bit a 1 \<and> \<not> bit a 0 \<and> \<not> bit a 18"

lemma section_entry_hw:
  assumes a: "section_attr a" and e: "l1 (unat va div 1048576) = mmu_section_descriptor va a"
  shows "hw_walk l1 mem va = Some \<lparr>hw_pa = va, hw_domain = hw_l1_domain a, hw_ns = bit a 19, hw_acc = hw_section_access a\<rparr>"
proof -
  have z: "a AND NOT (mask 20) = 0" using a unfolding section_attr_def section_mask_not by simp
  have d: "mmu_section_descriptor va a = (va AND NOT (mask 20)) OR a"
    unfolding mmu_section_descriptor_def section_mask_not by simp
  have t: "mmu_section_descriptor va a AND 3 = 2" "\<not> bit (mmu_section_descriptor va a) 18"
    and ns: "bit (mmu_section_descriptor va a) 19 = bit a 19"
    using a unfolding d type_section by (simp_all add: section_attr_def bit_low_attr)
  show ?thesis
    using hw_section [of l1 va mem] t ns section_of_attr [OF z, of va] unfolding e d by simp
qed

text \<open>
  C3. For any region table that passes \<open>regions_check\<close> and whose attributes are section attributes, an address of a
  region is translated by the processor to itself, with the access rights, memory type, domain and security bit that
  the region's attribute word spells out, and an address outside every region faults.  The check's rejections are what
  the proof needs: sorted, disjoint, 1 MiB multiples below 4 GiB.
\<close>

theorem mmu_checked_table_walk:
  assumes "regions_check rs = MMU_REGIONS_OK" and "\<forall>r\<in>set rs. section_attr (r_attr r)"
  shows "(r \<in> set rs \<and> in_region r va \<longrightarrow>
            hw_walk (build_l1_table rs t) mem va =
              Some \<lparr>hw_pa = va, hw_domain = hw_l1_domain (r_attr r), hw_ns = bit (r_attr r) 19,
                    hw_acc = hw_section_access (r_attr r)\<rparr>)
       \<and> ((\<forall>r\<in>set rs. \<not> in_region r va) \<longrightarrow> hw_walk (build_l1_table rs t) mem va = None)"
  using mmu_checked_table_entry [OF assms(1), of r va t] assms(2)
  by (auto simp: unat_l1_index intro: section_entry_hw hw_fault)

lemma g_regions_section_attr: "\<forall>r\<in>set g_regions. section_attr (r_attr r)"
  by (simp add: g_regions_def section_attr_def)

lemma mmu_checked_table_walk_witness:
  "hw_walk (mmu_build_l1_table (\<lambda>_. 7)) (\<lambda>_. 0) 0xE0001000 =
     Some \<lparr>hw_pa = 0xE0001000, hw_domain = (False, False, False, False), hw_ns = False,
           hw_acc = \<lparr>hw_ap = (False, True, True), hw_tex = (False, False, False), hw_c = False, hw_b = True,
                     hw_s = False, hw_ng = False, hw_xn = True\<rparr>\<rparr>
   \<and> hw_walk (mmu_build_l1_table (\<lambda>_. 7)) (\<lambda>_. 0) 0xD0001000 = None"
proof -
  have ok: "regions_check g_regions = MMU_REGIONS_OK"
    using mmu_regions_check_ok by (simp add: mmu_regions_check_def)
  note * = mmu_checked_table_walk [OF ok g_regions_section_attr, of "g_regions ! 3" _ "\<lambda>_. 7" "\<lambda>_. 0", folded mmu_build_l1_table_def]
  have 1: "g_regions ! 3 \<in> set g_regions \<and> in_region (g_regions ! 3) 0xE0001000"
    "\<forall>r\<in>set g_regions. \<not> in_region r 0xD0001000"
    by (simp_all add: g_regions_def in_region_def region_end_def)
  then show ?thesis using * [of "0xE0001000"] * [of "0xD0001000"]
    by (simp add: g_regions_def hw_section_access_def hw_l1_domain_def)
qed

end
