(* ===== verification/PageMapper.thy ===== *)
theory PageMapper
  imports Prelude
begin

text \<open>
  The contract between the page-granular mapping layer (\<open>vmap.c\<close>) and its clients (the kernel
  stack pool, \<open>kstack.c\<close>): what split, unmap, map and attribute changes promise about the
  translation of addresses.  Covered addresses are the ones the layer can map; fine addresses are
  governed by small pages already, so that mapping and unmapping them cannot run out of tables.  The clients' reasoning is done here once, over the contract.
\<close>

locale page_mapper =
  fixes inv :: "'s \<Rightarrow> bool"
    and tr :: "'s \<Rightarrow> 'v \<Rightarrow> ('v \<times> 'd) option"
    and covered :: "'s \<Rightarrow> 'v \<Rightarrow> bool"
    and fine :: "'s \<Rightarrow> 'v \<Rightarrow> bool"
    and same :: "'v \<Rightarrow> 'v \<Rightarrow> bool"
    and enc :: "'a \<Rightarrow> 'd"
    and split :: "'v \<Rightarrow> 's \<Rightarrow> 'e \<times> 's"
    and unmap :: "'v \<Rightarrow> 's \<Rightarrow> 'e \<times> 's"
    and map_page :: "'v \<Rightarrow> 'v \<Rightarrow> 'a \<Rightarrow> 's \<Rightarrow> 'e \<times> 's"
    and set_attr :: "'v \<Rightarrow> 'a \<Rightarrow> 's \<Rightarrow> 'e \<times> 's"
    and ok :: 'e
  assumes split_any: "inv s \<Longrightarrow> covered s va \<Longrightarrow> split va s = (e, s') \<Longrightarrow>
      inv s' \<and> tr s' = tr s \<and> (\<forall>x. (covered s x \<longrightarrow> covered s' x) \<and> (fine s x \<longrightarrow> fine s' x))"
    and split_fine: "inv s \<Longrightarrow> split va s = (ok, s') \<Longrightarrow> fine s' va \<or> \<not> covered s va"
    and unmap_ok: "inv s \<Longrightarrow> covered s va \<Longrightarrow> unmap va s = (ok, s') \<Longrightarrow>
      inv s' \<and> tr s' = (\<lambda>x. if same x va then None else tr s x) \<and> (\<forall>x. (covered s x \<longrightarrow> covered s' x) \<and> (fine s x \<longrightarrow> fine s' x))"
    and unmap_err: "inv s \<Longrightarrow> unmap va s = (e, s') \<Longrightarrow> e \<noteq> ok \<Longrightarrow> s' = s"
    and map_ok: "inv s \<Longrightarrow> covered s va \<Longrightarrow> map_page va pa a s = (ok, s') \<Longrightarrow>
      inv s' \<and> tr s' = (\<lambda>x. if same x va then Some (pa, enc a) else tr s x) \<and> (\<forall>x. (covered s x \<longrightarrow> covered s' x) \<and> (fine s x \<longrightarrow> fine s' x))"
    and map_err: "inv s \<Longrightarrow> map_page va pa a s = (e, s') \<Longrightarrow> e \<noteq> ok \<Longrightarrow> s' = s"
    and set_attr_ok: "inv s \<Longrightarrow> covered s va \<Longrightarrow> set_attr va a s = (ok, s') \<Longrightarrow>
      \<exists>pa d. tr s va = Some (pa, d) \<and> inv s'
        \<and> tr s' = (\<lambda>x. if same x va then Some (pa, enc a) else tr s x) \<and> (\<forall>x. (covered s x \<longrightarrow> covered s' x) \<and> (fine s x \<longrightarrow> fine s' x))"
    and set_attr_err: "inv s \<Longrightarrow> set_attr va a s = (e, s') \<Longrightarrow> e \<noteq> ok \<Longrightarrow> s' = s"
begin

text \<open>Claiming a page: split, drop what is there, map anew.\<close>

lemma claim:
  assumes "inv s" "covered s va" and "split va s = (e1, s1)"
    and "unmap va s1 = (e2, s2)" and "e2 \<noteq> ok \<Longrightarrow> s2 = s1" and "map_page va pa a s2 = (ok, s3)"
  shows "inv s3 \<and> tr s3 = (\<lambda>x. if same x va then Some (pa, enc a) else tr s x)
    \<and> (\<forall>x. (covered s x \<longrightarrow> covered s3 x) \<and> (fine s x \<longrightarrow> fine s3 x))"
proof -
  note sp = split_any [OF assms(1-3)]
  have un: "inv s2 \<and> (\<forall>x. \<not> same x va \<longrightarrow> tr s2 x = tr s x) \<and> (\<forall>x. (covered s x \<longrightarrow> covered s2 x) \<and> (fine s x \<longrightarrow> fine s2 x))"
  proof (cases "e2 = ok")
    case True
    then show ?thesis using sp assms(2,4) unmap_ok [of s1 va s2] by auto
  next
    case False
    then show ?thesis using sp assms(5) by auto
  qed
  then show ?thesis using map_ok [OF _ _ assms(6)] assms(2) by fastforce
qed

text \<open>Whatever happens, an operation touches at most the page it is given.\<close>

definition touches_only :: "'v \<Rightarrow> 's \<Rightarrow> 's \<Rightarrow> bool" where
  "touches_only va s s' \<longleftrightarrow> inv s' \<and> (\<forall>x. \<not> same x va \<longrightarrow> tr s' x = tr s x)
     \<and> (\<forall>x. (covered s x \<longrightarrow> covered s' x) \<and> (fine s x \<longrightarrow> fine s' x))"

lemma touches_refl: "inv s \<Longrightarrow> touches_only va s s"
  by (simp add: touches_only_def)

lemma touches_trans: "touches_only va s t \<Longrightarrow> touches_only va t u \<Longrightarrow> touches_only va s u"
  by (simp add: touches_only_def)

lemma touches_split: "inv s \<Longrightarrow> covered s va \<Longrightarrow> touches_only va s (snd (split va s))"
  using split_any [of s va, OF _ _ surjective_pairing] by (simp add: touches_only_def)

lemma touches_unmap: "inv s \<Longrightarrow> covered s va \<Longrightarrow> touches_only va s (snd (unmap va s))"
  using unmap_ok [of s va "snd (unmap va s)"] unmap_err [of s va, OF _ surjective_pairing]
  by (cases "fst (unmap va s) = ok") (auto simp: touches_only_def prod_eq_iff)

lemma touches_map: "inv s \<Longrightarrow> covered s va \<Longrightarrow> touches_only va s (snd (map_page va pa a s))"
  using map_ok [of s va pa a "snd (map_page va pa a s)"] map_err [of s va pa a, OF _ surjective_pairing]
  by (cases "fst (map_page va pa a s) = ok") (auto simp: touches_only_def prod_eq_iff)

lemma touches_set_attr: "inv s \<Longrightarrow> covered s va \<Longrightarrow> touches_only va s (snd (set_attr va a s))"
  using set_attr_ok [of s va a "snd (set_attr va a s)"] set_attr_err [of s va a, OF _ surjective_pairing]
  by (cases "fst (set_attr va a s) = ok") (auto simp: touches_only_def prod_eq_iff)

lemmas touches = touches_split touches_unmap touches_map touches_set_attr

end

end
