(* ===== verification/Vmap.thy ===== *)
theory Vmap
  imports Mmu PageMapper
begin

text \<open>
  Second-level page tables over a first-level table of sections, \<open>arch/arm32/src/vmap.c\<close>:
  splitting a 1 MiB section into 256 small pages, mapping, unmapping and re-attributing single
  pages.  The L1 table and the pool of L2 tables are arrays of words; a pointer into the pool
  (\<open>u32 *\<close> in the code) is the word index behind it.
\<close>

section \<open>Data\<close>

abbreviation (input) VMAP_PAGE_SHIFT :: nat where "VMAP_PAGE_SHIFT \<equiv> 12"
abbreviation (input) VMAP_PAGE_SIZE :: u32 where "VMAP_PAGE_SIZE \<equiv> 4096"
abbreviation (input) VMAP_L2_ENTRIES :: nat where "VMAP_L2_ENTRIES \<equiv> 256"
abbreviation (input) VMAP_L2_ALIGN :: u32 where "VMAP_L2_ALIGN \<equiv> 1024"
abbreviation (input) VMAP_RESULT_SECTION :: u32 where "VMAP_RESULT_SECTION \<equiv> 1"

record vmap_attr_t =
  a_ap3 :: u32
  a_tex :: u32
  a_c :: u32
  a_b :: u32
  a_domain :: u32
  a_shareable :: bool
  a_xn :: bool

datatype vmap_err =
    VMAP_OK | VMAP_ERR_NOT_INIT | VMAP_ERR_BAD_ARGS | VMAP_ERR_ALIGN | VMAP_ERR_OUT_OF_RANGE
  | VMAP_ERR_ALREADY | VMAP_ERR_NOT_MAPPED | VMAP_ERR_NO_L2 | VMAP_ERR_IS_SECTION

record vmap_t =
  v_l1 :: "nat \<Rightarrow> u32"
  v_l2_pool :: "nat \<Rightarrow> u32"
  v_l2_pool_pa :: u32
  v_l2_capacity :: u32
  v_l2_used :: u32
  v_va_begin :: u32
  v_va_end :: u32
  v_stat_split :: u32
  v_stat_map :: u32
  v_stat_unmap :: u32
  v_inited :: bool

section \<open>Helpers\<close>

definition vmap_l1_index :: "u32 \<Rightarrow> nat" where
  "vmap_l1_index va = unat (drop_bit MMU_SECTION_SHIFT va)"

definition vmap_l2_index :: "u32 \<Rightarrow> nat" where
  "vmap_l2_index va = unat (drop_bit VMAP_PAGE_SHIFT va AND 255)"

definition vmap_attr_normal :: vmap_attr_t where
  "vmap_attr_normal = \<lparr>a_ap3 = 3, a_tex = 1, a_c = 1, a_b = 1, a_domain = 0,
     a_shareable = True, a_xn = False\<rparr>"

definition vmap_attr_ro_xn :: vmap_attr_t where
  "vmap_attr_ro_xn = vmap_attr_normal\<lparr>a_ap3 := 2, a_xn := True\<rparr>"

definition l1_type :: "u32 \<Rightarrow> u32" where
  "l1_type desc = desc AND 3"

definition l2_from_pa :: "vmap_t \<Rightarrow> u32 \<Rightarrow> nat option" where
  "l2_from_pa v pa =
     (let span = v_l2_capacity v * 256 * 4
      in if pa < v_l2_pool_pa v \<or> span \<le> pa - v_l2_pool_pa v then None
         else Some (unat (pa - v_l2_pool_pa v) div 4))"

definition in_range :: "vmap_t \<Rightarrow> u32 \<Rightarrow> bool" where
  "in_range v va \<longleftrightarrow> v_va_begin v \<le> va \<and> va < v_va_end v"

definition decode_section_attr :: "u32 \<Rightarrow> vmap_attr_t" where
  "decode_section_attr desc =
     (let ap3 = drop_bit MMU_AP_SHIFT_L1 desc AND MMU_AP_LOW_MASK
      in \<lparr>a_ap3 = (if desc AND MMU_L1_AP2_BIT \<noteq> 0 then ap3 OR 4 else ap3),
          a_tex = drop_bit 12 desc AND 7,
          a_c = drop_bit 3 desc AND 1,
          a_b = drop_bit 2 desc AND 1,
          a_domain = drop_bit MMU_L1_DOMAIN_SHIFT desc AND MMU_L1_DOMAIN_MASK,
          a_shareable = (desc AND MMU_ATTR_S_BIT \<noteq> 0),
          a_xn = (desc AND push_bit 4 1 \<noteq> 0)\<rparr>)"

definition section_attr_of :: "vmap_attr_t \<Rightarrow> u32" where
  "section_attr_of a =
     mmu_l1_section_attr (a_ap3 a) (a_tex a) (a_c a) (a_b a) (a_domain a) (a_shareable a) (a_xn a)"

definition page_attr_of :: "vmap_attr_t \<Rightarrow> u32" where
  "page_attr_of a =
     mmu_l2_small_page_attr (a_ap3 a) (a_tex a) (a_c a) (a_b a) (a_shareable a) (a_xn a)"

section \<open>Operations\<close>

text \<open>
  \<open>vmap_init\<close> takes the L1 table, the pool (\<open>None\<close> for NULL) and the virtual address of the
  pool, whose alignment it checks.
\<close>

definition vmap_init ::
  "(nat \<Rightarrow> u32) option \<Rightarrow> (nat \<Rightarrow> u32) option \<Rightarrow> u32 \<Rightarrow> u32 \<Rightarrow> u32 \<Rightarrow> u32 \<Rightarrow> u32 \<Rightarrow> vmap_t
   \<Rightarrow> vmap_err \<times> vmap_t" where
  "vmap_init l1 l2_pool l2_pool_va l2_pool_pa l2_capacity va_begin va_end v =
     (case (l1, l2_pool) of
        (Some t1, Some pool) \<Rightarrow>
          if l2_capacity = 0 \<or> va_end \<le> va_begin then (VMAP_ERR_BAD_ARGS, v)
          else if l2_pool_va AND (VMAP_L2_ALIGN - 1) \<noteq> 0 then (VMAP_ERR_ALIGN, v)
          else if va_begin AND (VMAP_PAGE_SIZE - 1) \<noteq> 0 \<or> va_end AND (VMAP_PAGE_SIZE - 1) \<noteq> 0
            then (VMAP_ERR_ALIGN, v)
          else (VMAP_OK,
                \<lparr>v_l1 = t1, v_l2_pool = pool, v_l2_pool_pa = l2_pool_pa,
                 v_l2_capacity = l2_capacity, v_l2_used = 0,
                 v_va_begin = va_begin, v_va_end = va_end,
                 v_stat_split = 0, v_stat_map = 0, v_stat_unmap = 0, v_inited = True\<rparr>)
      | _ \<Rightarrow> (VMAP_ERR_BAD_ARGS, v))"

definition vmap_l2_of :: "vmap_t \<Rightarrow> u32 \<Rightarrow> nat option" where
  "vmap_l2_of v va =
     (if \<not> v_inited v \<or> \<not> in_range v va then None
      else let desc = v_l1 v (vmap_l1_index va)
           in if l1_type desc \<noteq> MMU_L1_TYPE_PAGE_TABLE then None
              else l2_from_pa v (desc AND NOT 0x3FF))"

definition vmap_lookup :: "vmap_t \<Rightarrow> u32 \<Rightarrow> u32" where
  "vmap_lookup v va =
     (if \<not> v_inited v \<or> \<not> in_range v va then 0
      else let desc = v_l1 v (vmap_l1_index va)
           in if l1_type desc = MMU_L1_TYPE_FAULT then 0
              else if l1_type desc = MMU_L1_TYPE_SECTION then VMAP_RESULT_SECTION
              else if l1_type desc \<noteq> MMU_L1_TYPE_PAGE_TABLE then 0
              else (case l2_from_pa v (desc AND NOT 0x3FF) of
                      None \<Rightarrow> 0
                    | Some l2 \<Rightarrow> v_l2_pool v (l2 + vmap_l2_index va)))"

definition l2_ensure :: "u32 \<Rightarrow> vmap_t \<Rightarrow> nat option \<times> vmap_t" where
  "l2_ensure va v =
     (let desc = v_l1 v (vmap_l1_index va)
      in if l1_type desc = MMU_L1_TYPE_PAGE_TABLE then (l2_from_pa v (desc AND NOT 0x3FF), v)
         else if v_l2_capacity v \<le> v_l2_used v then (None, v)
         else let l2 = unat (v_l2_used v) * VMAP_L2_ENTRIES
              in (Some l2,
                  v\<lparr>v_l2_used := v_l2_used v + 1,
                    v_l2_pool := fold (\<lambda>i p. p(l2 + i := 0)) [0..<VMAP_L2_ENTRIES] (v_l2_pool v)\<rparr>))"

definition split_fill :: "nat \<Rightarrow> u32 \<Rightarrow> u32 \<Rightarrow> (nat \<Rightarrow> u32) \<Rightarrow> (nat \<Rightarrow> u32)" where
  "split_fill l2 section_base page_attr pool =
     fold (\<lambda>i p. let pa = section_base + push_bit VMAP_PAGE_SHIFT (of_nat i)
                 in p(l2 + i := mmu_small_page_descriptor pa page_attr)) [0..<VMAP_L2_ENTRIES] pool"

definition vmap_split_section :: "u32 \<Rightarrow> vmap_t \<Rightarrow> vmap_err \<times> vmap_t" where
  "vmap_split_section va v =
     (if \<not> v_inited v then (VMAP_ERR_NOT_INIT, v)
      else if \<not> in_range v va then (VMAP_ERR_OUT_OF_RANGE, v)
      else if va AND (VMAP_PAGE_SIZE - 1) \<noteq> 0 then (VMAP_ERR_ALIGN, v)
      else
        let idx = vmap_l1_index va; desc = v_l1 v idx
        in if l1_type desc = MMU_L1_TYPE_PAGE_TABLE then (VMAP_OK, v)
           else if l1_type desc \<noteq> MMU_L1_TYPE_SECTION then (VMAP_ERR_IS_SECTION, v)
           else
             (case l2_ensure va v of
                (None, v) \<Rightarrow> (VMAP_ERR_NO_L2, v)
              | (Some l2, v) \<Rightarrow>
                  let attr = decode_section_attr desc;
                      section_base = va AND NOT (MMU_SECTION_SIZE - 1);
                      v = v\<lparr>v_l2_pool := split_fill l2 section_base (page_attr_of attr) (v_l2_pool v)\<rparr>;
                      l1_entry = v_l2_pool_pa v + of_nat l2 * 4
                  in if l1_entry AND (VMAP_L2_ALIGN - 1) \<noteq> 0 then (VMAP_ERR_ALIGN, v)
                     else (VMAP_OK,
                           v\<lparr>v_l1 := (v_l1 v)(idx := mmu_page_table_descriptor l1_entry (a_domain attr)),
                             v_stat_split := v_stat_split v + 1\<rparr>)))"

definition vmap_set_entry :: "nat \<Rightarrow> u32 \<Rightarrow> vmap_t \<Rightarrow> vmap_t" where
  "vmap_set_entry l2 entry v = v\<lparr>v_l2_pool := (v_l2_pool v)(l2 := entry)\<rparr>"

definition map_install :: "u32 \<Rightarrow> u32 \<Rightarrow> vmap_attr_t \<Rightarrow> vmap_t \<Rightarrow> vmap_err \<times> vmap_t" where
  "map_install va pa attr v =
     (case l2_ensure va v of
        (None, v) \<Rightarrow> (VMAP_ERR_NO_L2, v)
      | (Some l2, v) \<Rightarrow>
          (VMAP_OK,
           (vmap_set_entry (l2 + vmap_l2_index va)
              (mmu_small_page_descriptor pa (page_attr_of attr)) v)
             \<lparr>v_stat_map := v_stat_map v + 1\<rparr>))"

definition vmap_map :: "u32 \<Rightarrow> u32 \<Rightarrow> vmap_attr_t option \<Rightarrow> vmap_t \<Rightarrow> vmap_err \<times> vmap_t" where
  "vmap_map va pa attr v =
     (case attr of
        None \<Rightarrow> (VMAP_ERR_BAD_ARGS, v)
      | Some a \<Rightarrow>
          if \<not> v_inited v then (VMAP_ERR_BAD_ARGS, v)
          else if \<not> in_range v va then (VMAP_ERR_OUT_OF_RANGE, v)
          else if va AND (VMAP_PAGE_SIZE - 1) \<noteq> 0 \<or> pa AND (VMAP_PAGE_SIZE - 1) \<noteq> 0
            then (VMAP_ERR_ALIGN, v)
          else
            let cur = vmap_lookup v va
            in if cur \<noteq> 0 \<and> cur \<noteq> VMAP_RESULT_SECTION then (VMAP_ERR_ALREADY, v)
               else if cur = VMAP_RESULT_SECTION then
                 (case vmap_split_section va v of
                    (e, v) \<Rightarrow>
                      if e \<noteq> VMAP_OK then (e, v)
                      else (case vmap_l2_of v va of
                              None \<Rightarrow> (VMAP_ERR_NO_L2, v)
                            | Some l2 \<Rightarrow>
                                map_install va pa a (vmap_set_entry (l2 + vmap_l2_index va) 0 v)))
               else map_install va pa a v)"

definition vmap_unmap :: "u32 \<Rightarrow> vmap_t \<Rightarrow> vmap_err \<times> vmap_t" where
  "vmap_unmap va v =
     (if \<not> v_inited v then (VMAP_ERR_NOT_INIT, v)
      else if \<not> in_range v va then (VMAP_ERR_OUT_OF_RANGE, v)
      else if va AND (VMAP_PAGE_SIZE - 1) \<noteq> 0 then (VMAP_ERR_ALIGN, v)
      else
        let cur = vmap_lookup v va
        in if cur = 0 then (VMAP_ERR_NOT_MAPPED, v)
           else if cur = VMAP_RESULT_SECTION then (VMAP_ERR_IS_SECTION, v)
           else (case vmap_l2_of v va of
                   None \<Rightarrow> (VMAP_ERR_NOT_MAPPED, v)
                 | Some l2 \<Rightarrow>
                     (VMAP_OK,
                      (vmap_set_entry (l2 + vmap_l2_index va) 0 v)
                        \<lparr>v_stat_unmap := v_stat_unmap v + 1\<rparr>)))"

definition vmap_set_attr :: "u32 \<Rightarrow> vmap_attr_t option \<Rightarrow> vmap_t \<Rightarrow> vmap_err \<times> vmap_t" where
  "vmap_set_attr va attr v =
     (case attr of
        None \<Rightarrow> (VMAP_ERR_BAD_ARGS, v)
      | Some a \<Rightarrow>
          if \<not> v_inited v then (VMAP_ERR_BAD_ARGS, v)
          else
            let cur = vmap_lookup v va
            in if cur = 0 then (VMAP_ERR_NOT_MAPPED, v)
               else if cur = VMAP_RESULT_SECTION then (VMAP_ERR_IS_SECTION, v)
               else (case vmap_l2_of v va of
                       None \<Rightarrow> (VMAP_ERR_NOT_MAPPED, v)
                     | Some l2 \<Rightarrow>
                         (VMAP_OK,
                          vmap_set_entry (l2 + vmap_l2_index va)
                            (mmu_small_page_descriptor (cur AND NOT 0xFFF) (page_attr_of a)) v)))"

text \<open>The exported entry points, behind the NULL guard on the address space.\<close>

definition vmap_split_section_entry :: "vmap_t option \<Rightarrow> u32 \<Rightarrow> vmap_err \<times> vmap_t option" where
  "vmap_split_section_entry V va = nonnull VMAP_ERR_NOT_INIT (vmap_split_section va) V"

definition vmap_map_entry ::
  "vmap_t option \<Rightarrow> u32 \<Rightarrow> u32 \<Rightarrow> vmap_attr_t option \<Rightarrow> vmap_err \<times> vmap_t option" where
  "vmap_map_entry V va pa attr = nonnull VMAP_ERR_BAD_ARGS (vmap_map va pa attr) V"

definition vmap_unmap_entry :: "vmap_t option \<Rightarrow> u32 \<Rightarrow> vmap_err \<times> vmap_t option" where
  "vmap_unmap_entry V va = nonnull VMAP_ERR_NOT_INIT (vmap_unmap va) V"

definition vmap_set_attr_entry ::
  "vmap_t option \<Rightarrow> u32 \<Rightarrow> vmap_attr_t option \<Rightarrow> vmap_err \<times> vmap_t option" where
  "vmap_set_attr_entry V va attr = nonnull VMAP_ERR_BAD_ARGS (vmap_set_attr va attr) V"

section \<open>Descriptors and indices\<close>

lemma not_mask10: "NOT (0x3FF :: u32) = NOT (mask 10)" by (simp add: mask_eq_exp_minus_1)
lemma not_mask12: "NOT (0xFFF :: u32) = NOT (mask 12)" by (simp add: mask_eq_exp_minus_1)
lemma page_mask_not: "(MMU_PAGE_MASK :: u32) = NOT (mask 12)" by (simp add: mask_eq_exp_minus_1)
lemma l2_mask_not: "(MMU_L2_TABLE_MASK :: u32) = NOT (mask 10)" by (simp add: mask_eq_exp_minus_1)

lemma vmap_l1_index_nat: "vmap_l1_index va = unat va div 1048576"
  by (simp add: vmap_l1_index_def unat_drop_bit)

lemma vmap_l1_index_lt [simp]: "vmap_l1_index va < 4096"
  using unat_lt32 [of va] by (simp add: vmap_l1_index_nat less_mult_imp_div_less)

lemma vmap_l2_index_nat: "vmap_l2_index va = unat va div 4096 mod 256"
proof -
  have "vmap_l2_index va = unat (drop_bit 12 va) mod 2 ^ 8"
    unfolding vmap_l2_index_def using unat_and_mask [of "drop_bit 12 va" 8]
    by (simp add: mask_eq_exp_minus_1)
  then show ?thesis by (simp only: unat_drop_bit) simp
qed

lemma vmap_l2_index_lt [simp]: "vmap_l2_index va < 256"
  by (simp add: vmap_l2_index_nat)

definition same_page :: "u32 \<Rightarrow> u32 \<Rightarrow> bool" where
  "same_page va' va \<longleftrightarrow> va' AND NOT 0xFFF = va AND NOT 0xFFF"

lemma same_page_iff:
  "same_page va' va \<longleftrightarrow> vmap_l1_index va' = vmap_l1_index va \<and> vmap_l2_index va' = vmap_l2_index va"
proof -
  have "same_page va' va \<longleftrightarrow> unat va' div 4096 * 4096 = unat va div 4096 * 4096"
    unfolding same_page_def word_eq_unat not_mask12 unat_and_not_mask by (simp add: minus_mod_eq_div_mult)
  also have "\<dots> \<longleftrightarrow> unat va' div 4096 = unat va div 4096" by simp
  also have "\<dots> \<longleftrightarrow> unat va' div 4096 div 256 = unat va div 4096 div 256
      \<and> unat va' div 4096 mod 256 = unat va div 4096 mod 256"
    by (metis div_mult_mod_eq)
  finally show ?thesis by (simp add: vmap_l1_index_nat vmap_l2_index_nat div_mult2_eq [symmetric])
qed

lemma same_page_refl [simp]: "same_page va va"
  by (simp add: same_page_def)

lemma aligned_page: "va AND 0xFFF = 0 \<longleftrightarrow> va AND NOT 0xFFF = (va :: u32)"
proof -
  have "va AND 0xFFF = 0 \<longleftrightarrow> unat va mod 4096 = 0"
    using and_mask_0_iff [of va 12] by (simp add: mask12)
  also have "\<dots> \<longleftrightarrow> unat va - unat va mod 4096 = unat va"
    using mod_less_eq_dividend [of "unat va" 4096] by linarith
  also have "\<dots> \<longleftrightarrow> va AND NOT 0xFFF = va"
    unfolding word_eq_unat not_mask12 unat_and_not_mask by simp
  finally show ?thesis .
qed

lemma field_high:
  fixes x :: u32
  assumes "k + m \<le> n"
  shows "push_bit k (x AND mask m) AND NOT (mask n) = 0"
  by (rule bit_word_eqI) (use assms in \<open>auto simp: bit_and_iff bit_not_iff bit_mask_iff bit_push_bit_iff\<close>)

lemma field_low:
  fixes x :: u32
  assumes "n \<le> k"
  shows "push_bit k (x AND mask m) AND mask n = 0"
  by (rule bit_word_eqI) (use assms in \<open>auto simp: bit_and_iff bit_not_iff bit_mask_iff bit_push_bit_iff\<close>)

lemma small_masks: "(1 :: u32) = mask 1" "(3 :: u32) = mask 2" "(7 :: u32) = mask 3" "(15 :: u32) = mask 4"
  by (simp_all add: mask_eq_exp_minus_1)

lemma pt_descriptor:
  assumes "pa AND 0x3FF = 0"
  shows "mmu_page_table_descriptor pa d AND NOT 0x3FF = pa"
    and "l1_type (mmu_page_table_descriptor pa d) = MMU_L1_TYPE_PAGE_TABLE"
proof -
  let ?D = "push_bit 5 (d AND 15) :: u32"
  have hi: "?D AND NOT (mask 10) = 0" unfolding small_masks(4) by (rule field_high) simp
  have lo: "?D AND mask 2 = 0" unfolding small_masks(4) by (rule field_low) simp
  have pa: "pa AND NOT (mask 10) = pa"
  proof -
    have "pa = (pa AND mask 10) OR (pa AND NOT (mask 10))"
      by (simp only: bit.conj_disj_distrib [symmetric] bit.disj_cancel_right) simp
    moreover have "pa AND mask 10 = 0" using assms by (simp add: mask_eq_exp_minus_1)
    ultimately show ?thesis by simp
  qed
  have "(1 :: u32) AND NOT (mask 10) = 0" by (simp add: mask_eq_exp_minus_1)
  then have "((pa AND NOT (mask 10)) OR ?D OR 1) AND NOT (mask 10) = pa"
    by (simp only: bit.conj_disj_distrib2 hi pa) simp
  then show "mmu_page_table_descriptor pa d AND NOT 0x3FF = pa"
    by (simp only: mmu_page_table_descriptor_def l2_mask_not not_mask10)
  have "NOT (mask 10) AND mask 2 = (0 :: u32)" "(1 :: u32) AND mask 2 = 1"
    by (simp_all add: mask_eq_exp_minus_1)
  then have "((pa AND NOT (mask 10)) OR ?D OR 1) AND mask 2 = 1"
    by (simp only: bit.conj_disj_distrib2 lo and.assoc) simp
  then show "l1_type (mmu_page_table_descriptor pa d) = MMU_L1_TYPE_PAGE_TABLE"
    by (simp only: mmu_page_table_descriptor_def l2_mask_not l1_type_def small_masks(2))
qed

lemma page_attr_low: "page_attr_of a AND NOT (mask 12) = 0"
proof -
  have f: "push_bit 4 (x AND 3) AND NOT (mask 12) = (0::u32)" "push_bit 6 (x AND 7) AND NOT (mask 12) = (0::u32)" for x
    unfolding small_masks(2,3) by (rule field_high; simp)+
  have c: "(1::u32) AND NOT (mask 12) = 0" "(2::u32) AND NOT (mask 12) = 0"
    "push_bit 2 1 AND NOT (mask 12) = (0::u32)"
    "push_bit 3 1 AND NOT (mask 12) = (0::u32)" "push_bit 9 1 AND NOT (mask 12) = (0::u32)"
    "push_bit 10 1 AND NOT (mask 12) = (0::u32)"
    by (simp_all add: mask_eq_exp_minus_1)
  show ?thesis
    by (simp only: page_attr_of_def mmu_l2_small_page_attr_def Let_def bit.conj_disj_distrib2 f c
        if_distrib [where f = "\<lambda>x. x AND NOT (mask 12)"] or.left_neutral if_cancel or.right_neutral)
qed

lemma page_attr_bit1: "bit (page_attr_of a) 1"
  by (simp add: page_attr_of_def mmu_l2_small_page_attr_def Let_def bit_or_iff)

lemma page_entry:
  assumes "pa AND 0xFFF = 0"
  shows "mmu_small_page_descriptor pa (page_attr_of a) AND MMU_PAGE_MASK = pa"
    and "mmu_small_page_descriptor pa (page_attr_of a) AND 0xFFF = page_attr_of a"
    and "bit (mmu_small_page_descriptor pa (page_attr_of a)) 1"
proof -
  have pa: "pa AND NOT (mask 12) = pa" using assms unfolding aligned_page not_mask12 .
  show "mmu_small_page_descriptor pa (page_attr_of a) AND MMU_PAGE_MASK = pa"
    unfolding mmu_small_page_descriptor_def page_mask_not
    by (simp only: bit.conj_disj_distrib2 page_attr_low pa) simp
  have "page_attr_of a AND NOT (NOT (mask 12)) = page_attr_of a"
    using masked_or_attr [OF page_attr_low, of 0 a] by simp
  then have "page_attr_of a AND mask 12 = page_attr_of a" by simp
  moreover have "pa AND NOT (mask 12) AND mask 12 = (0 :: u32)" by (simp add: mask_eq_exp_minus_1 and.assoc)
  ultimately show "mmu_small_page_descriptor pa (page_attr_of a) AND 0xFFF = page_attr_of a"
    unfolding mmu_small_page_descriptor_def page_mask_not mask12
    by (simp only: bit.conj_disj_distrib2 and.assoc) simp
  show "bit (mmu_small_page_descriptor pa (page_attr_of a)) 1"
    using page_attr_bit1 by (simp add: mmu_small_page_descriptor_def bit_or_iff)
qed

section \<open>The tables in the code's own terms\<close>

text \<open>
  \<open>table_of v i\<close> is the pool index of the L2 table that L1 entry \<open>i\<close> points to; \<open>walk v va\<close>
  is the page an address translates to, with its attributes as the code would write them in a small page.
  This is the form clients of \<open>vmap.c\<close> see; what the processor itself reads is the subject of \<open>VmapWalk\<close>.
\<close>

definition table_of :: "vmap_t \<Rightarrow> nat \<Rightarrow> nat option" where
  "table_of v i =
     (if l1_type (v_l1 v i) = MMU_L1_TYPE_PAGE_TABLE then l2_from_pa v (v_l1 v i AND NOT 0x3FF) else None)"

definition walk :: "vmap_t \<Rightarrow> u32 \<Rightarrow> (u32 \<times> u32) option" where
  "walk v va =
     (let desc = v_l1 v (vmap_l1_index va)
      in if l1_type desc = MMU_L1_TYPE_SECTION
         then Some ((desc AND MMU_SECTION_MASK) OR (va AND 0xFF000), page_attr_of (decode_section_attr desc))
         else (case table_of v (vmap_l1_index va) of
                 None \<Rightarrow> None
               | Some l2 \<Rightarrow>
                   let e = v_l2_pool v (l2 + vmap_l2_index va)
                   in if bit e 1 then Some (e AND MMU_PAGE_MASK, e AND 0xFFF) else None))"

definition vmap_inv :: "vmap_t \<Rightarrow> bool" where
  "vmap_inv v \<longleftrightarrow>
     v_inited v \<and>
     unat (v_l2_pool_pa v) mod 1024 = 0 \<and>
     unat (v_l2_pool_pa v) + unat (v_l2_capacity v) * 1024 < 4294967296 \<and>
     unat (v_l2_used v) \<le> unat (v_l2_capacity v) \<and>
     (\<forall>i<4096. \<forall>l. table_of v i = Some l \<longrightarrow> l mod 256 = 0 \<and> l < unat (v_l2_used v) * 256) \<and>
     (\<forall>i<4096. \<forall>j<4096. \<forall>l. table_of v i = Some l \<longrightarrow> table_of v j = Some l \<longrightarrow> i = j) \<and>
     (\<forall>w < unat (v_l2_used v) * 256. v_l2_pool v w = 0 \<or> bit (v_l2_pool v w) 1)"

lemma vmap_invD:
  assumes "vmap_inv v"
  shows "v_inited v" "unat (v_l2_pool_pa v) mod 1024 = 0"
    "unat (v_l2_pool_pa v) + unat (v_l2_capacity v) * 1024 < 4294967296"
    "unat (v_l2_used v) \<le> unat (v_l2_capacity v)"
    "i < 4096 \<Longrightarrow> table_of v i = Some l \<Longrightarrow> l mod 256 = 0 \<and> l < unat (v_l2_used v) * 256"
    "i < 4096 \<Longrightarrow> j < 4096 \<Longrightarrow> table_of v i = Some l \<Longrightarrow> table_of v j = Some l \<Longrightarrow> i = j"
    "w < unat (v_l2_used v) * 256 \<Longrightarrow> v_l2_pool v w = 0 \<or> bit (v_l2_pool v w) 1"
  using assms by (auto simp: vmap_inv_def)

lemma l2_from_pa_spec:
  assumes "vmap_inv v"
  shows "l2_from_pa v pa =
    (if unat (v_l2_pool_pa v) \<le> unat pa \<and> unat pa < unat (v_l2_pool_pa v) + unat (v_l2_capacity v) * 1024
     then Some ((unat pa - unat (v_l2_pool_pa v)) div 4) else None)"
proof -
  have "unat (v_l2_capacity v * 1024) = unat (v_l2_capacity v) * 1024"
    using vmap_invD(3) [OF assms] by (simp add: unat_word_ariths)
  then have span: "unat (v_l2_capacity v * 256 * 4) = unat (v_l2_capacity v) * 1024"
    by (simp add: mult.assoc)
  show ?thesis
  proof (cases "unat (v_l2_pool_pa v) \<le> unat pa")
    case True
    then show ?thesis unfolding l2_from_pa_def Let_def word_lt_unat word_le_unat span
      by (simp add: unat_sub_le) linarith
  next
    case False
    then show ?thesis by (simp add: l2_from_pa_def Let_def word_lt_unat)
  qed
qed

lemma table_of_frame [simp]:
  "table_of (v\<lparr>v_l2_pool := p\<rparr>) = table_of v"
  "table_of (v\<lparr>v_l2_used := u\<rparr>) = table_of v"
  "table_of (v\<lparr>v_stat_map := m\<rparr>) = table_of v"
  "table_of (v\<lparr>v_stat_unmap := m\<rparr>) = table_of v"
  "table_of (v\<lparr>v_stat_split := m\<rparr>) = table_of v"
  by (simp_all add: table_of_def l2_from_pa_def fun_eq_iff)

lemma walk_frame [simp]:
  "walk (v\<lparr>v_stat_map := m\<rparr>) = walk v"
  "walk (v\<lparr>v_stat_unmap := m\<rparr>) = walk v"
  "walk (v\<lparr>v_stat_split := m\<rparr>) = walk v"
  "walk (v\<lparr>v_l2_used := u\<rparr>) = walk v"
  by (simp_all add: walk_def Let_def fun_eq_iff split: option.split)

lemma vmap_l2_of_table:
  "v_inited v \<Longrightarrow> in_range v va \<Longrightarrow> vmap_l2_of v va = table_of v (vmap_l1_index va)"
  by (simp add: vmap_l2_of_def table_of_def Let_def)

lemma vmap_lookup_cases:
  assumes "v_inited v" "in_range v va"
  shows "vmap_lookup v va =
    (if l1_type (v_l1 v (vmap_l1_index va)) = MMU_L1_TYPE_SECTION then VMAP_RESULT_SECTION
     else (case table_of v (vmap_l1_index va) of None \<Rightarrow> 0 | Some l2 \<Rightarrow> v_l2_pool v (l2 + vmap_l2_index va)))"
  using assms by (auto simp: vmap_lookup_def table_of_def Let_def)

lemma table_entry_lt:
  assumes "vmap_inv v" and "table_of v (vmap_l1_index va) = Some l"
  shows "l + vmap_l2_index va < unat (v_l2_used v) * 256"
proof -
  from vmap_invD(5) [OF assms(1) vmap_l1_index_lt assms(2)]
  obtain k where k: "l = k * 256" "k < unat (v_l2_used v)" by auto
  then have "Suc k * 256 \<le> unat (v_l2_used v) * 256" by (intro mult_le_mono1) simp
  then show ?thesis unfolding k(1) using vmap_l2_index_lt [of va] unfolding mult_Suc by linarith
qed

lemma lookup_section_iff:
  assumes "vmap_inv v" "in_range v va"
  shows "vmap_lookup v va = VMAP_RESULT_SECTION \<longleftrightarrow>
    l1_type (v_l1 v (vmap_l1_index va)) = MMU_L1_TYPE_SECTION"
proof -
  have "v_l2_pool v (l + vmap_l2_index va) \<noteq> 1" if "table_of v (vmap_l1_index va) = Some l" for l
    using vmap_invD(7) [OF assms(1) table_entry_lt [OF assms(1) that]] by (auto simp: bit_1_iff)
  then show ?thesis using vmap_invD(1) [OF assms(1)] assms(2)
    by (auto simp: vmap_lookup_cases split: option.splits)
qed

lemma lookup_walk:
  assumes "vmap_inv v" "in_range v va"
  shows "vmap_lookup v va = 0 \<longleftrightarrow> walk v va = None"
    and "vmap_lookup v va \<noteq> 0 \<Longrightarrow> vmap_lookup v va \<noteq> VMAP_RESULT_SECTION \<Longrightarrow>
      walk v va = Some (vmap_lookup v va AND MMU_PAGE_MASK, vmap_lookup v va AND 0xFFF)"
proof -
  have "v_l2_pool v (l + vmap_l2_index va) = 0 \<or> bit (v_l2_pool v (l + vmap_l2_index va)) 1"
    if "table_of v (vmap_l1_index va) = Some l" for l
    using vmap_invD(7) [OF assms(1) table_entry_lt [OF assms(1) that]] .
  moreover have "\<not> bit (0 :: u32) 1" by simp
  ultimately show "vmap_lookup v va = 0 \<longleftrightarrow> walk v va = None"
    "vmap_lookup v va \<noteq> 0 \<Longrightarrow> vmap_lookup v va \<noteq> VMAP_RESULT_SECTION \<Longrightarrow>
      walk v va = Some (vmap_lookup v va AND MMU_PAGE_MASK, vmap_lookup v va AND 0xFFF)"
    using vmap_invD(1) [OF assms(1)] assms(2)
    by (auto simp: vmap_lookup_cases walk_def Let_def split: option.splits if_splits)
qed

section \<open>Writing one entry\<close>

lemma block_base: "(l :: nat) mod 256 = 0 \<Longrightarrow> x < 256 \<Longrightarrow> (l + x) div 256 * 256 = l"
  by (auto simp: mod_eq_0_iff_dvd elim: dvdE)

lemma set_entry_inv:
  assumes "vmap_inv v" and "e = 0 \<or> bit e 1"
  shows "vmap_inv (vmap_set_entry w e v)"
  using assms by (auto simp: vmap_inv_def vmap_set_entry_def)

lemma set_entry_walk:
  assumes inv: "vmap_inv v" and t: "table_of v (vmap_l1_index va) = Some l"
    and pt: "l1_type (v_l1 v (vmap_l1_index va)) \<noteq> MMU_L1_TYPE_SECTION"
  shows "walk (vmap_set_entry (l + vmap_l2_index va) e v) va' =
    (if same_page va' va
     then (if bit e 1 then Some (e AND MMU_PAGE_MASK, e AND 0xFFF) else None) else walk v va')"
proof (cases "vmap_l1_index va' = vmap_l1_index va")
  case True
  then show ?thesis using t pt
    by (auto simp: walk_def vmap_set_entry_def Let_def same_page_iff)
next
  case False
  have "l' + vmap_l2_index va' \<noteq> l + vmap_l2_index va" if t': "table_of v (vmap_l1_index va') = Some l'" for l'
  proof
    assume eq: "l' + vmap_l2_index va' = l + vmap_l2_index va"
    have "l' mod 256 = 0" "l mod 256 = 0"
      using vmap_invD(5) [OF inv vmap_l1_index_lt t'] vmap_invD(5) [OF inv vmap_l1_index_lt t] by auto
    then have "l' = l"
      using eq block_base [of l' "vmap_l2_index va'"] block_base [of l "vmap_l2_index va"] by simp
    with t t' False show False using vmap_invD(6) [OF inv] by simp
  qed
  with False show ?thesis
    by (auto simp: walk_def vmap_set_entry_def Let_def same_page_iff split: option.splits)
qed

section \<open>Splitting a section\<close>

lemma section_page:
  "(va AND NOT 0xFFFFF) + push_bit 12 (of_nat (vmap_l2_index va')) =
   (va AND MMU_SECTION_MASK) OR (va' AND 0xFF000 :: u32)"
proof -
  have i: "of_nat (vmap_l2_index va') = drop_bit 12 va' AND 255" by (simp add: vmap_l2_index_def)
  have p: "push_bit 12 (drop_bit 12 va' AND mask 8) = va' AND push_bit 12 (mask 8)"
    by (rule bit_word_eqI) (auto simp: bit_and_iff bit_push_bit_iff bit_drop_bit_eq)
  have m: "(0xFF000 :: u32) = push_bit 12 (mask 8)" "(255 :: u32) = mask 8" "(0xFFFFF :: u32) = mask 20"
    by (simp_all add: mask_eq_exp_minus_1)
  have "(va AND NOT (mask 20)) AND (va' AND push_bit 12 (mask 8)) = 0"
    by (rule bit_word_eqI) (auto simp: bit_and_iff bit_push_bit_iff bit_not_iff bit_mask_iff)
  then show ?thesis
    unfolding i m(2) p m(1) m(3) section_mask_not by (rule disjunctive_add_eq_or)
qed

lemma section_page_aligned: "((va AND MMU_SECTION_MASK) OR (va' AND 0xFF000 :: u32)) AND 0xFFF = 0"
  by (simp add: bit.conj_disj_distrib2 and.assoc)

definition identity_section :: "vmap_t \<Rightarrow> u32 \<Rightarrow> bool" where
  "identity_section v va \<longleftrightarrow> v_l1 v (vmap_l1_index va) AND MMU_SECTION_MASK = va AND MMU_SECTION_MASK"

lemma fresh_table:
  assumes inv: "vmap_inv v" and room: "unat (v_l2_used v) < unat (v_l2_capacity v)"
  shows "unat (v_l2_pool_pa v + of_nat (unat (v_l2_used v) * 256) * 4)
           = unat (v_l2_pool_pa v) + unat (v_l2_used v) * 1024"
    and "(v_l2_pool_pa v + of_nat (unat (v_l2_used v) * 256) * 4) AND 0x3FF = 0"
    and "l2_from_pa v (v_l2_pool_pa v + of_nat (unat (v_l2_used v) * 256) * 4) = Some (unat (v_l2_used v) * 256)"
proof -
  have lt: "unat (v_l2_pool_pa v) + unat (v_l2_used v) * 1024 < 4294967296"
    using vmap_invD(3) [OF inv] room by linarith
  have "of_nat (unat (v_l2_used v) * 256) * 4 = (of_nat (unat (v_l2_used v) * 1024) :: u32)" by simp
  moreover have "unat (of_nat (unat (v_l2_used v) * 1024) :: u32) = unat (v_l2_used v) * 1024"
    using lt by (intro unat_of_nat_small) simp
  ultimately have o: "unat (of_nat (unat (v_l2_used v) * 256) * 4 :: u32) = unat (v_l2_used v) * 1024" by metis
  then have "unat (v_l2_pool_pa v) + unat (of_nat (unat (v_l2_used v) * 256) * 4 :: u32) < 2 ^ LENGTH(32)"
    using lt by simp
  from unat_add_small [OF this] o show u: "unat (v_l2_pool_pa v + of_nat (unat (v_l2_used v) * 256) * 4)
           = unat (v_l2_pool_pa v) + unat (v_l2_used v) * 1024" by (simp only:)
  have "unat (v_l2_pool_pa v + of_nat (unat (v_l2_used v) * 256) * 4) mod 2 ^ 10 = 0"
    unfolding u using vmap_invD(2) [OF inv] by (simp add: mod_eq_0_iff_dvd)
  then show "(v_l2_pool_pa v + of_nat (unat (v_l2_used v) * 256) * 4) AND 0x3FF = 0"
    using and_mask_0_iff [of "v_l2_pool_pa v + of_nat (unat (v_l2_used v) * 256) * 4" 10]
    by (simp add: mask_eq_exp_minus_1)
  show "l2_from_pa v (v_l2_pool_pa v + of_nat (unat (v_l2_used v) * 256) * 4) = Some (unat (v_l2_used v) * 256)"
    unfolding l2_from_pa_spec [OF inv] u using room by simp
qed

lemma unat_used_Suc:
  assumes "unat (v_l2_used v) < unat (v_l2_capacity v)"
  shows "unat (v_l2_used v + 1) = Suc (unat (v_l2_used v))"
proof -
  have "unat (v_l2_capacity v) < 4294967296" by (rule unat_lt32)
  with assms have "unat (v_l2_used v) + 1 < 4294967296" by linarith
  then show ?thesis by (simp add: unat_add_small)
qed

lemma used_block: "w < n * 256 \<Longrightarrow> \<not> (n * 256 \<le> w \<and> w < n * 256 + (256 :: nat))"
  by simp

lemma split_fill_entry:
  "split_fill l sb pattr p w =
    (if l \<le> w \<and> w < l + 256 then mmu_small_page_descriptor (sb + push_bit 12 (of_nat (w - l))) pattr else p w)"
  by (simp only: split_fill_def Let_def fold_upd_range)

lemma split_fill_at:
  "i < 256 \<Longrightarrow> split_fill l sb pattr p (l + i) = mmu_small_page_descriptor (sb + push_bit 12 (of_nat i)) pattr"
  unfolding split_fill_entry by simp

text \<open>The state a successful split leaves.\<close>

definition split_state :: "u32 \<Rightarrow> vmap_t \<Rightarrow> vmap_t" where
  "split_state va v =
     (let idx = vmap_l1_index va; attr = decode_section_attr (v_l1 v idx); l2 = unat (v_l2_used v) * 256
      in v\<lparr>v_l2_used := v_l2_used v + 1,
           v_l2_pool := split_fill l2 (va AND NOT 0xFFFFF) (page_attr_of attr) (v_l2_pool v),
           v_l1 := (v_l1 v)(idx := mmu_page_table_descriptor (v_l2_pool_pa v + of_nat l2 * 4) (a_domain attr)),
           v_stat_split := v_stat_split v + 1\<rparr>)"

lemma split_section_spec:
  assumes inv: "vmap_inv v" and r: "in_range v va" and al: "va AND 0xFFF = 0"
  shows "vmap_split_section va v =
    (if l1_type (v_l1 v (vmap_l1_index va)) = MMU_L1_TYPE_PAGE_TABLE then (VMAP_OK, v)
     else if l1_type (v_l1 v (vmap_l1_index va)) \<noteq> MMU_L1_TYPE_SECTION then (VMAP_ERR_IS_SECTION, v)
     else if v_l2_used v = v_l2_capacity v then (VMAP_ERR_NO_L2, v)
     else (VMAP_OK, split_state va v))"
proof (cases "l1_type (v_l1 v (vmap_l1_index va)) = MMU_L1_TYPE_SECTION \<and> v_l2_used v \<noteq> v_l2_capacity v")
  case True
  then have "unat (v_l2_used v) \<noteq> unat (v_l2_capacity v)" by (simp add: word_eq_unat)
  then have room: "unat (v_l2_used v) < unat (v_l2_capacity v)" using vmap_invD(4) [OF inv] by simp
  have fill: "split_fill l sb a (fold (\<lambda>i p. p(l + i := 0)) [0..<256] p) = split_fill l sb a p" for l sb a p
    by (rule ext) (simp add: split_fill_entry fold_upd_range)
  show ?thesis using True room vmap_invD(1) [OF inv] r al fresh_table(2) [OF inv room] fill
    by (simp add: vmap_split_section_def l2_ensure_def split_state_def Let_def word_le_unat)
next
  case False
  then show ?thesis using vmap_invD(1,4) [OF inv] r al
    by (auto simp: vmap_split_section_def l2_ensure_def Let_def word_le_unat)
qed


lemma split_state_tables:
  assumes inv: "vmap_inv v" and room: "v_l2_used v \<noteq> v_l2_capacity v"
  shows "table_of (split_state va v) i =
    (if i = vmap_l1_index va then Some (unat (v_l2_used v) * 256) else table_of v i)"
proof -
  have "unat (v_l2_used v) \<noteq> unat (v_l2_capacity v)" using room by (simp add: word_eq_unat)
  then have lt: "unat (v_l2_used v) < unat (v_l2_capacity v)" using vmap_invD(4) [OF inv] by simp
  have l2: "l2_from_pa (split_state va v) = l2_from_pa v"
    by (simp add: l2_from_pa_def split_state_def Let_def fun_eq_iff)
  show ?thesis
  proof (cases "i = vmap_l1_index va")
    case True
    then show ?thesis
      using fresh_table(3) [OF inv lt] pt_descriptor [OF fresh_table(2) [OF inv lt]]
      unfolding table_of_def l2 by (simp add: split_state_def Let_def)
  next
    case False
    then show ?thesis unfolding table_of_def l2 by (simp add: split_state_def Let_def)
  qed
qed

lemma page_attr_nonfault: "bit (mmu_small_page_descriptor pa (page_attr_of a)) 1"
  using page_attr_bit1 by (simp add: mmu_small_page_descriptor_def bit_or_iff)

lemma split_state_inv:
  assumes inv: "vmap_inv v" and room: "v_l2_used v \<noteq> v_l2_capacity v"
  shows "vmap_inv (split_state va v)"
proof -
  have "unat (v_l2_used v) \<noteq> unat (v_l2_capacity v)" using room by (simp add: word_eq_unat)
  then have lt: "unat (v_l2_used v) < unat (v_l2_capacity v)" using vmap_invD(4) [OF inv] by simp
  have u: "unat (v_l2_used (split_state va v)) = Suc (unat (v_l2_used v))"
    using unat_used_Suc [OF lt] by (simp add: split_state_def Let_def)
  have frame: "v_inited (split_state va v) = v_inited v" "v_l2_pool_pa (split_state va v) = v_l2_pool_pa v"
    "v_l2_capacity (split_state va v) = v_l2_capacity v"
    by (simp_all add: split_state_def Let_def)
  have old: "l mod 256 = 0 \<and> l < unat (v_l2_used v) * 256" if "table_of v i = Some l" "i < 4096" for i l
    using vmap_invD(5) [OF inv that(2,1)] .
  have t: "l mod 256 = 0 \<and> l < Suc (unat (v_l2_used v)) * 256"
    if "i < 4096" "table_of (split_state va v) i = Some l" for i l
    using that old [of i l] by (auto simp: split_state_tables [OF inv room] split: if_splits)
  have inj: "i = j" if "i < 4096" "j < 4096" "table_of (split_state va v) i = Some l"
    "table_of (split_state va v) j = Some l" for i j l
    using that old [of i l] old [of j l] vmap_invD(6) [OF inv, of i j l]
    by (auto simp: split_state_tables [OF inv room] split: if_splits)
  have pool: "v_l2_pool (split_state va v) w = 0 \<or> bit (v_l2_pool (split_state va v) w) 1"
    if "w < Suc (unat (v_l2_used v)) * 256" for w
  proof (cases "w < unat (v_l2_used v) * 256")
    case True
    then show ?thesis using vmap_invD(7) [OF inv True] by (simp add: split_state_def Let_def split_fill_entry)
  next
    case False
    then show ?thesis using that page_attr_nonfault by (simp add: split_state_def Let_def split_fill_entry)
  qed
  show ?thesis unfolding vmap_inv_def frame u
    using vmap_invD(1-3) [OF inv] lt t inj pool by (metis Suc_leI)
qed

lemma split_state_walk:
  assumes inv: "vmap_inv v" and room: "v_l2_used v \<noteq> v_l2_capacity v"
    and sec: "l1_type (v_l1 v (vmap_l1_index va)) = MMU_L1_TYPE_SECTION" and id: "identity_section v va"
  shows "walk (split_state va v) va' = walk v va'"
proof (cases "vmap_l1_index va' = vmap_l1_index va")
  case True
  have "unat (v_l2_used v) \<noteq> unat (v_l2_capacity v)" using room by (simp add: word_eq_unat)
  then have lt: "unat (v_l2_used v) < unat (v_l2_capacity v)" using vmap_invD(4) [OF inv] by simp
  let ?a = "decode_section_attr (v_l1 v (vmap_l1_index va))"
  let ?l = "unat (v_l2_used v) * 256"
  have ty: "l1_type (v_l1 (split_state va v) (vmap_l1_index va')) = MMU_L1_TYPE_PAGE_TABLE"
    using pt_descriptor(2) [OF fresh_table(2) [OF inv lt]] True by (simp add: split_state_def Let_def)
  have e: "v_l2_pool (split_state va v) (?l + vmap_l2_index va') =
      mmu_small_page_descriptor ((va AND MMU_SECTION_MASK) OR (va' AND 0xFF000)) (page_attr_of ?a)"
  proof -
    have "v_l2_pool (split_state va v) = split_fill ?l (va AND NOT 0xFFFFF) (page_attr_of ?a) (v_l2_pool v)"
      by (simp add: split_state_def Let_def)
    then show ?thesis by (simp only: split_fill_at [OF vmap_l2_index_lt] section_page)
  qed
  have "walk (split_state va v) va' = Some ((va AND MMU_SECTION_MASK) OR (va' AND 0xFF000), page_attr_of ?a)"
    unfolding walk_def Let_def ty split_state_tables [OF inv room]
    using True page_entry [OF section_page_aligned] e by simp
  moreover have "walk v va' = Some ((va AND MMU_SECTION_MASK) OR (va' AND 0xFF000), page_attr_of ?a)"
    using sec id True by (simp add: walk_def Let_def identity_section_def)
  ultimately show ?thesis by simp
next
  case False
  have "v_l1 (split_state va v) (vmap_l1_index va') = v_l1 v (vmap_l1_index va')"
    using False by (simp add: split_state_def Let_def)
  moreover have "v_l2_pool (split_state va v) (l + vmap_l2_index va') = v_l2_pool v (l + vmap_l2_index va')"
    if "table_of v (vmap_l1_index va') = Some l" for l
    using table_entry_lt [OF inv that] by (simp add: split_state_def Let_def split_fill_entry)
  ultimately show ?thesis using False
    by (simp add: walk_def Let_def split_state_tables [OF inv room] split: option.split)
qed

section \<open>Mapping, unmapping, attributes\<close>

lemma l2_ensure_present:
  "table_of v (vmap_l1_index va) = Some l \<Longrightarrow> l2_ensure va v = (Some l, v)"
  by (auto simp: l2_ensure_def table_of_def Let_def split: if_splits)

lemma table_of_type: "table_of v i = Some l \<Longrightarrow> l1_type (v_l1 v i) = MMU_L1_TYPE_PAGE_TABLE"
  by (simp add: table_of_def split: if_splits)

definition mapped_state :: "u32 \<Rightarrow> u32 \<Rightarrow> vmap_attr_t \<Rightarrow> nat \<Rightarrow> vmap_t \<Rightarrow> vmap_t" where
  "mapped_state va pa a l v =
     (vmap_set_entry (l + vmap_l2_index va) (mmu_small_page_descriptor pa (page_attr_of a)) v)
       \<lparr>v_stat_map := v_stat_map v + 1\<rparr>"

lemma vmap_inv_stat [simp]:
  "vmap_inv (v\<lparr>v_stat_map := m\<rparr>) = vmap_inv v" "vmap_inv (v\<lparr>v_stat_unmap := m\<rparr>) = vmap_inv v"
  by (simp_all add: vmap_inv_def)

lemma mapped_state_inv: "vmap_inv v \<Longrightarrow> vmap_inv (mapped_state va pa a l v)"
  unfolding mapped_state_def vmap_inv_stat by (rule set_entry_inv) (simp, rule disjI2, rule page_attr_nonfault)

lemma mapped_state_walk:
  assumes "vmap_inv v" "table_of v (vmap_l1_index va) = Some l" "pa AND 0xFFF = 0"
  shows "walk (mapped_state va pa a l v) va' =
    (if same_page va' va then Some (pa, page_attr_of a) else walk v va')"
  using assms table_of_type [OF assms(2)] page_entry [OF assms(3), of a]
  by (simp add: mapped_state_def set_entry_walk page_attr_nonfault)

lemma map_install_present:
  "table_of v (vmap_l1_index va) = Some l \<Longrightarrow> map_install va pa a v = (VMAP_OK, mapped_state va pa a l v)"
  by (simp add: map_install_def l2_ensure_present mapped_state_def vmap_set_entry_def)

lemma set_entry_twice:
  "vmap_set_entry w e (vmap_set_entry w e' v) = vmap_set_entry w e v"
  by (simp add: vmap_set_entry_def)

lemma set_entry_frame [simp]:
  "table_of (vmap_set_entry w e v) = table_of v" "v_inited (vmap_set_entry w e v) = v_inited v"
  "in_range (vmap_set_entry w e v) = in_range v" "v_stat_map (vmap_set_entry w e v) = v_stat_map v"
  by (simp_all add: vmap_set_entry_def in_range_def fun_eq_iff)

lemma mapped_state_cleared:
  "mapped_state va pa a l (vmap_set_entry (l + vmap_l2_index va) 0 v) = mapped_state va pa a l v"
  by (simp add: mapped_state_def set_entry_twice)

lemma split_state_frame [simp]:
  "v_inited (split_state va v) = v_inited v" "in_range (split_state va v) = in_range v"
  by (simp_all add: split_state_def Let_def in_range_def fun_eq_iff)

text \<open>The outcome of \<open>vmap_map\<close>, by the type of the L1 entry.\<close>

lemma vmap_map_section:
  assumes inv: "vmap_inv v" and r: "in_range v va" and al: "va AND 0xFFF = 0" "pa AND 0xFFF = 0"
    and sec: "l1_type (v_l1 v (vmap_l1_index va)) = MMU_L1_TYPE_SECTION"
  shows "vmap_map va pa (Some a) v =
    (if v_l2_used v = v_l2_capacity v then (VMAP_ERR_NO_L2, v)
     else (VMAP_OK, mapped_state va pa a (unat (v_l2_used v) * 256) (split_state va v)))"
proof (cases "v_l2_used v = v_l2_capacity v")
  case True
  then show ?thesis using assms lookup_section_iff [OF inv r] vmap_invD(1) [OF inv]
    by (simp add: vmap_map_def Let_def split_section_spec)
next
  case False
  have t: "table_of (split_state va v) (vmap_l1_index va) = Some (unat (v_l2_used v) * 256)"
    using split_state_tables [OF inv False] by simp
  have l2: "vmap_l2_of (split_state va v) va = Some (unat (v_l2_used v) * 256)"
    using t vmap_invD(1) [OF inv] r by (simp add: vmap_l2_of_table)
  show ?thesis using assms lookup_section_iff [OF inv r] vmap_invD(1) [OF inv] False l2 t
    by (simp add: vmap_map_def Let_def split_section_spec map_install_present mapped_state_cleared)
qed

lemma vmap_map_table:
  assumes inv: "vmap_inv v" and r: "in_range v va" and al: "va AND 0xFFF = 0" "pa AND 0xFFF = 0"
    and t: "table_of v (vmap_l1_index va) = Some l"
  shows "vmap_map va pa (Some a) v =
    (if walk v va = None then (VMAP_OK, mapped_state va pa a l v) else (VMAP_ERR_ALREADY, v))"
  using assms lookup_section_iff [OF inv r] lookup_walk(1) [OF inv r] vmap_invD(1) [OF inv] table_of_type [OF t]
  by (simp add: vmap_map_def Let_def map_install_present)

text \<open>
  No table: the L1 entry faults (or is reserved) and the code takes a fresh L2 table from the
  pool without ever hanging it into L1; or the entry points outside the pool.
\<close>

lemma vmap_map_no_table:
  assumes inv: "vmap_inv v" and r: "in_range v va" and al: "va AND 0xFFF = 0" "pa AND 0xFFF = 0"
    and sec: "l1_type (v_l1 v (vmap_l1_index va)) \<noteq> MMU_L1_TYPE_SECTION"
    and t: "table_of v (vmap_l1_index va) = None"
  shows "vmap_map va pa (Some a) v = map_install va pa a v"
proof -
  have "vmap_lookup v va = 0" using sec t vmap_invD(1) [OF inv] r by (simp add: vmap_lookup_cases)
  then show ?thesis using vmap_invD(1) [OF inv] r al by (simp add: vmap_map_def Let_def)
qed

lemma map_install_fault:
  assumes inv: "vmap_inv v" and f: "l1_type (v_l1 v (vmap_l1_index va)) \<noteq> MMU_L1_TYPE_PAGE_TABLE"
    and room: "v_l2_used v \<noteq> v_l2_capacity v"
    and res: "map_install va pa a v = (e, v')"
  shows "e = VMAP_OK \<and> vmap_inv v' \<and> walk v' = walk v \<and> unat (v_l2_used v') = Suc (unat (v_l2_used v))
    \<and> v_l1 v' = v_l1 v"
proof -
  have "unat (v_l2_used v) \<noteq> unat (v_l2_capacity v)" using room by (simp add: word_eq_unat)
  then have lt: "unat (v_l2_used v) < unat (v_l2_capacity v)" using vmap_invD(4) [OF inv] by simp
  let ?l = "unat (v_l2_used v) * 256"
  let ?p = "(fold (\<lambda>i p. p(?l + i := 0)) [0..<256] (v_l2_pool v))
      (?l + vmap_l2_index va := mmu_small_page_descriptor pa (page_attr_of a))"
  have res': "e = VMAP_OK" "v' = v\<lparr>v_l2_used := v_l2_used v + 1, v_l2_pool := ?p, v_stat_map := v_stat_map v + 1\<rparr>"
    using res f lt by (auto simp: map_install_def l2_ensure_def vmap_set_entry_def Let_def word_le_unat)
  have p: "?p w = v_l2_pool v w" if "w < ?l" for w
    using that by (simp add: fold_upd_range)
  have new: "?p w = 0 \<or> bit (?p w) 1" if "w < Suc (unat (v_l2_used v)) * 256" for w
    using that vmap_invD(7) [OF inv, of w] page_attr_nonfault by (auto simp: fold_upd_range)
  have tab: "table_of v' = table_of v" by (simp add: res')
  have u: "unat (v_l2_used v') = Suc (unat (v_l2_used v))" using unat_used_Suc [OF lt] by (simp add: res')
  have t: "l mod 256 = 0 \<and> l < Suc (unat (v_l2_used v)) * 256" if "i < 4096" "table_of v i = Some l" for i l
    using vmap_invD(5) [OF inv that] by simp
  have frame: "v_inited v' = v_inited v" "v_l2_pool_pa v' = v_l2_pool_pa v"
    "v_l2_capacity v' = v_l2_capacity v" "v_l2_pool v' = ?p"
    by (simp_all add: res')
  have "vmap_inv v'"
    unfolding vmap_inv_def tab u frame
    using vmap_invD(1-3) [OF inv] lt t new vmap_invD(6) [OF inv] by (metis Suc_leI)
  moreover have "walk v' va' = walk v va'" for va'
  proof -
    have "v_l2_pool v' (l + vmap_l2_index va') = v_l2_pool v (l + vmap_l2_index va')"
      if "table_of v (vmap_l1_index va') = Some l" for l
      using p [OF table_entry_lt [OF inv that]] by (simp add: res')
    then show ?thesis unfolding walk_def Let_def tab
      by (simp add: res' split: option.split)
  qed
  ultimately show ?thesis using u res' by (simp add: fun_eq_iff)
qed

lemma vmap_unmap_spec:
  assumes inv: "vmap_inv v" and r: "in_range v va" and al: "va AND 0xFFF = 0"
  shows "vmap_unmap va v =
    (if l1_type (v_l1 v (vmap_l1_index va)) = MMU_L1_TYPE_SECTION then (VMAP_ERR_IS_SECTION, v)
     else if walk v va = None then (VMAP_ERR_NOT_MAPPED, v)
     else (VMAP_OK, (vmap_set_entry (the (table_of v (vmap_l1_index va)) + vmap_l2_index va) 0 v)
                      \<lparr>v_stat_unmap := v_stat_unmap v + 1\<rparr>))"
  using lookup_section_iff [OF inv r] lookup_walk(1) [OF inv r] vmap_invD(1) [OF inv] r al
  by (auto simp: vmap_unmap_def Let_def vmap_l2_of_table walk_def vmap_set_entry_def split: option.splits)

lemma walk_table:
  assumes "walk v va \<noteq> None" and "l1_type (v_l1 v (vmap_l1_index va)) \<noteq> MMU_L1_TYPE_SECTION"
  obtains l where "table_of v (vmap_l1_index va) = Some l"
  using assms by (cases "table_of v (vmap_l1_index va)") (auto simp: walk_def)

lemma unmap_effect:
  assumes inv: "vmap_inv v" and r: "in_range v va" and al: "va AND 0xFFF = 0"
    and ok: "vmap_unmap va v = (VMAP_OK, v')"
  shows "vmap_inv v' \<and> (\<forall>va'. walk v' va' = (if same_page va' va then None else walk v va'))"
proof -
  have sec: "l1_type (v_l1 v (vmap_l1_index va)) \<noteq> MMU_L1_TYPE_SECTION" and w: "walk v va \<noteq> None"
    and v': "v' = (vmap_set_entry (the (table_of v (vmap_l1_index va)) + vmap_l2_index va) 0 v)
                      \<lparr>v_stat_unmap := v_stat_unmap v + 1\<rparr>"
    using ok by (auto simp: vmap_unmap_spec [OF inv r al] split: if_splits)
  obtain l where l: "table_of v (vmap_l1_index va) = Some l" using walk_table [OF w sec] .
  show ?thesis using set_entry_inv [OF inv, of 0] set_entry_walk [OF inv l sec, of 0]
    by (simp add: v' l)
qed

lemma set_attr_effect:
  assumes inv: "vmap_inv v" and r: "in_range v va"
    and ok: "vmap_set_attr va (Some a) v = (VMAP_OK, v')"
  shows "vmap_inv v' \<and> (\<exists>pa attr. walk v va = Some (pa, attr) \<and>
    (\<forall>va'. walk v' va' = (if same_page va' va then Some (pa, page_attr_of a) else walk v va')))"
proof -
  let ?c = "vmap_lookup v va"
  have nz: "?c \<noteq> 0" "?c \<noteq> VMAP_RESULT_SECTION"
    using ok by (auto simp: vmap_set_attr_def Let_def split: if_splits)
  have sec: "l1_type (v_l1 v (vmap_l1_index va)) \<noteq> MMU_L1_TYPE_SECTION"
    using nz lookup_section_iff [OF inv r] by blast
  have w: "walk v va = Some (?c AND MMU_PAGE_MASK, ?c AND 0xFFF)" using lookup_walk(2) [OF inv r nz] .
  obtain l where l: "table_of v (vmap_l1_index va) = Some l" using walk_table [OF _ sec] w by auto
  let ?e = "mmu_small_page_descriptor (?c AND NOT (mask 12)) (page_attr_of a)"
  have al: "(?c AND NOT (mask 12)) AND 0xFFF = 0" by (simp add: mask_eq_exp_minus_1 and.assoc)
  have v': "v' = vmap_set_entry (l + vmap_l2_index va) ?e v"
    using ok nz vmap_invD(1) [OF inv] r l
    by (simp add: vmap_set_attr_def Let_def vmap_l2_of_table mask_eq_exp_minus_1)
  have "vmap_inv v'" unfolding v' using inv by (rule set_entry_inv) (rule disjI2, rule page_attr_nonfault)
  moreover have "walk v' va' = (if same_page va' va then Some (?c AND MMU_PAGE_MASK, page_attr_of a) else walk v va')" for va'
    unfolding v' set_entry_walk [OF inv l sec] using page_entry [OF al, of a]
    by (simp add: page_mask_not)
  ultimately show ?thesis using w by blast
qed

section \<open>Properties\<close>

text \<open>
  Splitting a section leaves that form alone: when it succeeds every address of the
  whole address space still walks to the same page with the same attributes, the tables stay
  well formed, and the address now has an L2 table; when it fails nothing has changed.
\<close>

theorem vmap_split_transparent:
  assumes "vmap_inv v" and "identity_section v va" and "vmap_split_section va v = (e, v')"
  shows "if e = VMAP_OK
    then vmap_inv v' \<and> (\<forall>va'. walk v' va' = walk v va') \<and>
         l1_type (v_l1 v' (vmap_l1_index va)) = MMU_L1_TYPE_PAGE_TABLE
    else v' = v"
proof (cases "in_range v va \<and> va AND 0xFFF = 0")
  case True
  note spec = split_section_spec [OF assms(1) conjunct1 [OF True] conjunct2 [OF True]]
  consider "e = VMAP_OK" "v' = v" "l1_type (v_l1 v (vmap_l1_index va)) = MMU_L1_TYPE_PAGE_TABLE"
    | "e \<noteq> VMAP_OK" "v' = v"
    | "e = VMAP_OK" "v' = split_state va v" "v_l2_used v \<noteq> v_l2_capacity v"
      "l1_type (v_l1 v (vmap_l1_index va)) = MMU_L1_TYPE_SECTION"
    using assms(3) unfolding spec by (auto split: if_splits)
  then show ?thesis
  proof cases
    case 3
    have "table_of v' (vmap_l1_index va) \<noteq> None" using split_state_tables [OF assms(1) 3(3)] 3 by simp
    then have "l1_type (v_l1 v' (vmap_l1_index va)) = MMU_L1_TYPE_PAGE_TABLE"
      using table_of_type by (cases "table_of v' (vmap_l1_index va)") auto
    then show ?thesis using 3 split_state_inv [OF assms(1) 3(3)] split_state_walk [OF assms(1) 3(3,4) assms(2)]
      by simp
  qed (use assms(1) in auto)
next
  case False
  then have "e \<noteq> VMAP_OK \<and> v' = v" using assms(3)
    by (auto simp: vmap_split_section_def split: if_splits)
  then show ?thesis by simp
qed

lemma map_covered_effect:
  assumes "vmap_inv v" and "vmap_map va pa (Some a) v = (VMAP_OK, v')"
    and "l1_type (v_l1 v (vmap_l1_index va)) = MMU_L1_TYPE_SECTION \<and> identity_section v va
         \<or> table_of v (vmap_l1_index va) \<noteq> None"
  shows "vmap_inv v' \<and>
    (\<forall>va'. walk v' va' = (if same_page va' va then Some (pa, page_attr_of a) else walk v va'))"
proof -
  have g: "in_range v va" "va AND 0xFFF = 0" "pa AND 0xFFF = 0"
    using assms(2) by (auto simp: vmap_map_def split: if_splits)
  show ?thesis
  proof (cases "l1_type (v_l1 v (vmap_l1_index va)) = MMU_L1_TYPE_SECTION")
    case True
    then have id: "identity_section v va" using assms(3) table_of_type by fastforce
    from assms(2) have room: "v_l2_used v \<noteq> v_l2_capacity v"
      and v': "v' = mapped_state va pa a (unat (v_l2_used v) * 256) (split_state va v)"
      by (auto simp: vmap_map_section [OF assms(1) g True] split: if_splits)
    note inv = split_state_inv [OF assms(1) room]
    have t: "table_of (split_state va v) (vmap_l1_index va) = Some (unat (v_l2_used v) * 256)"
      using split_state_tables [OF assms(1) room] by simp
    show ?thesis using mapped_state_inv [OF inv] mapped_state_walk [OF inv t g(3)]
        split_state_walk [OF assms(1) room True id] by (simp add: v')
  next
    case False
    then obtain l where l: "table_of v (vmap_l1_index va) = Some l" using assms(3) by auto
    then have "v' = mapped_state va pa a l v"
      using assms(2) by (simp add: vmap_map_table [OF assms(1) g l] split: if_splits)
    then show ?thesis using mapped_state_inv [OF assms(1)] mapped_state_walk [OF assms(1) l g(3)] by simp
  qed
qed

text \<open>
  When the L1 entry of the address faults, \<open>vmap_map\<close> still answers success and counts a
  mapping, but takes an L2 table from the pool that it never installs: no address translates
  differently afterwards, and the table is lost.
\<close>

theorem vmap_map_fault_lost:
  assumes "vmap_inv v" and "in_range v va" and "va AND 0xFFF = 0" and "pa AND 0xFFF = 0"
    and "l1_type (v_l1 v (vmap_l1_index va)) = MMU_L1_TYPE_FAULT" and "v_l2_used v \<noteq> v_l2_capacity v"
    and "vmap_map va pa (Some a) v = (e, v')"
  shows "e = VMAP_OK \<and> walk v' = walk v \<and> walk v' va = None \<and>
    unat (v_l2_used v') = Suc (unat (v_l2_used v)) \<and> v_l1 v' = v_l1 v"
proof -
  have t: "table_of v (vmap_l1_index va) = None" using assms(5) by (simp add: table_of_def)
  have "map_install va pa a v = (e, v')"
    using vmap_map_no_table [OF assms(1-4) _ t] assms(5,7) by simp
  note * = map_install_fault [OF assms(1) _ assms(6) this]
  have "walk v va = None" using t assms(5) by (simp add: walk_def Let_def)
  then show ?thesis using * assms(5) by simp
qed

text \<open>
  A page mapped below an existing L2 table can always be unmapped again, and the pair
  leaves every address of the space translating as before it.
\<close>

theorem vmap_map_unmap_roundtrip:
  assumes "vmap_inv v" and "vmap_map va pa (Some a) v = (VMAP_OK, v')"
    and "table_of v (vmap_l1_index va) \<noteq> None"
  shows "\<exists>v''. vmap_unmap va v' = (VMAP_OK, v'') \<and> vmap_inv v'' \<and> (\<forall>va'. walk v'' va' = walk v va')"
proof -
  have g: "in_range v va" "va AND 0xFFF = 0" "pa AND 0xFFF = 0"
    using assms(2) by (auto simp: vmap_map_def split: if_splits)
  obtain l where l: "table_of v (vmap_l1_index va) = Some l" using assms(3) by auto
  have v': "v' = mapped_state va pa a l v" and none: "walk v va = None"
    using assms(2) by (auto simp: vmap_map_table [OF assms(1) g l] split: if_splits)
  have r': "in_range v' va" using g(1) by (simp add: v' mapped_state_def vmap_set_entry_def in_range_def)
  have inv': "vmap_inv v'" and w': "\<And>va'. walk v' va' = (if same_page va' va then Some (pa, page_attr_of a) else walk v va')"
    using mapped_state_inv [OF assms(1)] mapped_state_walk [OF assms(1) l g(3)] by (simp_all add: v')
  have "l1_type (v_l1 v' (vmap_l1_index va)) \<noteq> MMU_L1_TYPE_SECTION"
    using table_of_type [OF l] by (simp add: v' mapped_state_def vmap_set_entry_def)
  then obtain v'' where un: "vmap_unmap va v' = (VMAP_OK, v'')"
    using vmap_unmap_spec [OF inv' r' g(2)] w' [of va] by simp
  have "walk v va' = None" if "same_page va' va" for va'
    using that none l table_of_type [OF l]
    by (simp add: walk_def same_page_iff Let_def split: if_splits)
  then show ?thesis using unmap_effect [OF inv' r' g(2) un] un w' by auto
qed


text \<open>
  Changing attributes succeeds only on a mapped small page; the page keeps its frame and
  gets exactly the new attributes, and no other page changes.
\<close>

theorem vmap_set_attr_effect:
  assumes "vmap_inv v" and "vmap_set_attr va (Some a) v = (VMAP_OK, v')"
  shows "vmap_inv v' \<and> (\<exists>pa attr. walk v va = Some (pa, attr) \<and>
    (\<forall>va'. walk v' va' = (if same_page va' va then Some (pa, page_attr_of a) else walk v va')))"
proof -
  have "in_range v va" using assms(2) vmap_invD(1) [OF assms(1)]
    by (auto simp: vmap_set_attr_def vmap_lookup_def Let_def split: if_splits)
  then show ?thesis using set_attr_effect [OF assms(1) _ assms(2)] by simp
qed

section \<open>Reachable address spaces\<close>

datatype vmap_op = OpSplit u32 | OpMap u32 u32 "vmap_attr_t option" | OpUnmap u32 | OpSetAttr u32 "vmap_attr_t option"

fun vmap_step :: "vmap_op \<Rightarrow> vmap_t \<Rightarrow> vmap_err \<times> vmap_t" where
  "vmap_step (OpSplit va) v = vmap_split_section va v"
| "vmap_step (OpMap va pa a) v = vmap_map va pa a v"
| "vmap_step (OpUnmap va) v = vmap_unmap va v"
| "vmap_step (OpSetAttr va a) v = vmap_set_attr va a v"

inductive vmap_reachable :: "vmap_t \<Rightarrow> bool" where
  init: "\<lbrakk>vmap_init (Some l1) (Some pool) pool_va pool_pa capacity va_begin va_end v0 = (VMAP_OK, v);
          unat pool_pa mod 1024 = 0; unat pool_pa + unat capacity * 1024 < 4294967296;
          \<forall>i<4096. l1_type (l1 i) \<noteq> MMU_L1_TYPE_PAGE_TABLE\<rbrakk> \<Longrightarrow> vmap_reachable v"
| step: "vmap_reachable v \<Longrightarrow> vmap_reachable (snd (vmap_step oper v))"

lemma vmap_split_inv: "vmap_inv v \<Longrightarrow> vmap_inv (snd (vmap_split_section va v))"
  using split_section_spec [of v va] split_state_inv [of v va]
  by (cases "in_range v va \<and> va AND 0xFFF = 0") (auto simp: vmap_split_section_def)

lemma map_install_inv:
  assumes "vmap_inv v"
  shows "vmap_inv (snd (map_install va pa a v))"
proof (cases "l1_type (v_l1 v (vmap_l1_index va)) = MMU_L1_TYPE_PAGE_TABLE")
  case True
  show ?thesis
  proof (cases "table_of v (vmap_l1_index va)")
    case None
    then show ?thesis using True assms by (simp add: map_install_def l2_ensure_def table_of_def Let_def)
  next
    case (Some l)
    then show ?thesis using mapped_state_inv [OF assms] by (simp add: map_install_present)
  qed
next
  case False
  show ?thesis
  proof (cases "v_l2_used v = v_l2_capacity v")
    case True
    then show ?thesis using False assms by (simp add: map_install_def l2_ensure_def Let_def)
  next
    case room: False
    show ?thesis using map_install_fault [OF assms False room surjective_pairing] by blast
  qed
qed

lemma vmap_map_inv:
  assumes "vmap_inv v"
  shows "vmap_inv (snd (vmap_map va pa a v))"
proof (cases "\<exists>b. a = Some b \<and> in_range v va \<and> va AND 0xFFF = 0 \<and> pa AND 0xFFF = 0")
  case True
  then obtain b where b: "a = Some b" and g: "in_range v va" "va AND 0xFFF = 0" "pa AND 0xFFF = 0" by auto
  show ?thesis
  proof (cases "l1_type (v_l1 v (vmap_l1_index va)) = MMU_L1_TYPE_SECTION")
    case True
    show ?thesis using split_state_inv [OF assms] mapped_state_inv assms
      by (simp add: b vmap_map_section [OF assms g True])
  next
    case False
    show ?thesis
    proof (cases "table_of v (vmap_l1_index va)")
      case None
      show ?thesis using map_install_inv [OF assms] by (simp add: b vmap_map_no_table [OF assms g False None])
    next
      case (Some l)
      show ?thesis using mapped_state_inv [OF assms] assms by (simp add: b vmap_map_table [OF assms g Some])
    qed
  qed
next
  case False
  then show ?thesis using assms by (cases a) (auto simp: vmap_map_def)
qed

lemma vmap_unmap_inv:
  assumes "vmap_inv v"
  shows "vmap_inv (snd (vmap_unmap va v))"
proof (cases "in_range v va \<and> va AND 0xFFF = 0")
  case True
  then show ?thesis using vmap_unmap_spec [OF assms, of va] set_entry_inv [OF assms, of 0] assms by auto
next
  case False
  then show ?thesis using assms by (auto simp: vmap_unmap_def)
qed

lemma vmap_set_attr_inv:
  assumes "vmap_inv v"
  shows "vmap_inv (snd (vmap_set_attr va a v))"
  using assms page_attr_nonfault
  by (cases a) (auto simp: vmap_set_attr_def Let_def intro!: set_entry_inv split: option.split)

lemma vmap_reachable_inv: "vmap_reachable v \<Longrightarrow> vmap_inv v"
proof (induction rule: vmap_reachable.induct)
  case (init l1 pool pool_va pool_pa capacity va_begin va_end v0 v)
  then show ?case by (auto simp: vmap_init_def vmap_inv_def table_of_def split: if_splits)
next
  case (step v oper)
  then show ?case
    by (cases oper) (auto intro: vmap_split_inv vmap_map_inv vmap_unmap_inv vmap_set_attr_inv)
qed

lemma split_error:
  "vmap_inv v \<Longrightarrow> fst (vmap_split_section va v) \<noteq> VMAP_OK \<Longrightarrow> snd (vmap_split_section va v) = v"
  using split_section_spec [of v va]
  by (cases "in_range v va \<and> va AND 0xFFF = 0") (auto simp: vmap_split_section_def split: if_splits)

lemma map_install_error:
  "fst (map_install va pa a v) \<noteq> VMAP_OK \<Longrightarrow> snd (map_install va pa a v) = v"
  by (auto simp: map_install_def l2_ensure_def Let_def split: option.splits prod.splits if_splits)

lemma map_error:
  assumes "vmap_inv v" and "fst (vmap_map va pa a v) \<noteq> VMAP_OK"
  shows "snd (vmap_map va pa a v) = v"
proof (cases "\<exists>b. a = Some b \<and> in_range v va \<and> va AND 0xFFF = 0 \<and> pa AND 0xFFF = 0")
  case True
  then obtain b where b: "a = Some b" and g: "in_range v va" "va AND 0xFFF = 0" "pa AND 0xFFF = 0" by auto
  show ?thesis
  proof (cases "l1_type (v_l1 v (vmap_l1_index va)) = MMU_L1_TYPE_SECTION")
    case True
    then show ?thesis using assms(2) by (simp add: b vmap_map_section [OF assms(1) g] split: if_splits)
  next
    case False
    then show ?thesis using assms(2) map_install_error [of va pa b v]
      by (cases "table_of v (vmap_l1_index va)")
        (auto simp: b vmap_map_no_table [OF assms(1) g] vmap_map_table [OF assms(1) g] split: if_splits)
  qed
next
  case False
  then show ?thesis by (cases a) (auto simp: vmap_map_def)
qed

lemma vmap_step_error:
  assumes "fst (vmap_step oper v) \<noteq> VMAP_OK" and "vmap_inv v"
  shows "snd (vmap_step oper v) = v"
proof (cases oper)
  case (OpSplit va)
  then show ?thesis using assms split_error by simp
next
  case (OpMap va pa a)
  then show ?thesis using assms map_error by simp
next
  case (OpUnmap va)
  then show ?thesis using assms(1) by (auto simp: vmap_unmap_def Let_def split: option.splits if_splits)
next
  case (OpSetAttr va a)
  then show ?thesis using assms(1) by (auto simp: vmap_set_attr_def Let_def split: option.splits if_splits)
qed

text \<open>
  C6. In every address space reached from \<open>vmap_init\<close> the pool is never over-used, every L2
  table reached from L1 lies inside the used part of the pool, no two L1 entries share one, and
  a failing operation leaves the state exactly as it was.
\<close>

theorem vmap_reachable_safe:
  assumes "vmap_reachable v"
  shows "unat (v_l2_used v) \<le> unat (v_l2_capacity v) \<and>
    (\<forall>i<4096. \<forall>l. table_of v i = Some l \<longrightarrow> l + 256 \<le> unat (v_l2_used v) * 256) \<and>
    (\<forall>i<4096. \<forall>j<4096. table_of v i \<noteq> None \<longrightarrow> table_of v i = table_of v j \<longrightarrow> i = j) \<and>
    (fst (vmap_step oper v) \<noteq> VMAP_OK \<longrightarrow> snd (vmap_step oper v) = v)"
proof -
  note inv = vmap_reachable_inv [OF assms]
  have a: "l + 256 \<le> unat (v_l2_used v) * 256" if t: "i < 4096" "table_of v i = Some l" for i l
  proof -
    obtain k where k: "l = k * 256" "k < unat (v_l2_used v)" using vmap_invD(5) [OF inv t] by auto
    then have "Suc k * 256 \<le> unat (v_l2_used v) * 256" by (intro mult_le_mono1) simp
    then show ?thesis using k by simp
  qed
  have c: "snd (vmap_step oper v) = v" if "fst (vmap_step oper v) \<noteq> VMAP_OK"
    using that inv by (rule vmap_step_error)
  show ?thesis using vmap_invD(4,6) [OF inv] a c by auto
qed


section \<open>The properties at work\<close>

text \<open>
  A small address space: sections at \<open>0x40000000\<close> and \<open>0x40100000\<close>, nothing above, two L2 tables.
\<close>

definition vm0 :: vmap_t where
  "vm0 = snd (vmap_init (Some (\<lambda>i. if i = 0x400 then 0x40015DE6 else if i = 0x401 then 0x40115DE6 else 0))
     (Some (\<lambda>_. 0xFFFFFFFF)) 0x1000 0x20000000 2 0x40000000 0x40400000 undefined)"

definition vm1 :: vmap_t where "vm1 = snd (vmap_split_section 0x40000000 vm0)"

definition vm2 :: vmap_t where "vm2 = snd (vmap_unmap 0x40000000 vm1)"

lemma vm0_eq:
  "vm0 = \<lparr>v_l1 = (\<lambda>i. if i = 0x400 then 0x40015DE6 else if i = 0x401 then 0x40115DE6 else 0),
     v_l2_pool = (\<lambda>_. 0xFFFFFFFF), v_l2_pool_pa = 0x20000000, v_l2_capacity = 2, v_l2_used = 0,
     v_va_begin = 0x40000000, v_va_end = 0x40400000,
     v_stat_split = 0, v_stat_map = 0, v_stat_unmap = 0, v_inited = True\<rparr>"
  by (simp add: vm0_def vmap_init_def)

lemma vm0_reachable: "vmap_reachable vm0"
proof (rule vmap_reachable.init)
  show "vmap_init (Some (\<lambda>i. if i = 0x400 then 0x40015DE6 else if i = 0x401 then 0x40115DE6 else 0))
     (Some (\<lambda>_. 0xFFFFFFFF)) 0x1000 0x20000000 2 0x40000000 0x40400000 undefined = (VMAP_OK, vm0)"
    by (simp add: vm0_def vmap_init_def)
qed (simp_all add: l1_type_def)

lemma vm1_reachable: "vmap_reachable vm1"
  using vmap_reachable.step [OF vm0_reachable, of "OpSplit 0x40000000"] by (simp add: vm1_def)

lemma vm2_reachable: "vmap_reachable vm2"
  using vmap_reachable.step [OF vm1_reachable, of "OpUnmap 0x40000000"] by (simp add: vm2_def)

lemmas vm_inv = vm0_reachable [THEN vmap_reachable_inv] vm1_reachable [THEN vmap_reachable_inv]
  vm2_reachable [THEN vmap_reachable_inv]

lemma vm_idx [simp]: "vmap_l1_index 0x40000000 = 0x400" "vmap_l2_index 0x40000000 = 0"
  "vmap_l1_index 0x40008000 = 0x400" "vmap_l1_index 0x40100000 = 0x401" "vmap_l1_index 0x40200000 = 0x402"
  by (simp_all add: vmap_l1_index_nat vmap_l2_index_nat)

lemma vm0_facts [simp]: "in_range vm0 0x40000000" "in_range vm0 0x40008000" "in_range vm0 0x40200000"
  "l1_type (v_l1 vm0 0x400) = 2" "l1_type (v_l1 vm0 0x402) = 0" "v_l2_used vm0 = 0" "v_l2_capacity vm0 = 2"
  "identity_section vm0 0x40000000" "identity_section vm0 0x40008000"
  by (simp_all add: vm0_eq in_range_def l1_type_def identity_section_def)

lemma vm1_eq: "vmap_split_section 0x40000000 vm0 = (VMAP_OK, split_state 0x40000000 vm0)"
  by (simp add: split_section_spec [OF vm_inv(1)])

lemma vm1_facts [simp]: "table_of vm1 0x400 = Some 0" "in_range vm1 0x40000000" "walk vm1 0x40000000 \<noteq> None"
  "l1_type (v_l1 vm1 0x400) \<noteq> 2"
proof -
  show t: "table_of vm1 0x400 = Some 0"
    using split_state_tables [OF vm_inv(1), of "0x40000000" "0x400"] by (simp add: vm1_def vm1_eq)
  show "in_range vm1 0x40000000" by (simp add: vm1_def vm1_eq)
  have "walk vm0 0x40000000 \<noteq> None" by (simp add: walk_def Let_def)
  then show "walk vm1 0x40000000 \<noteq> None"
    using split_state_walk [OF vm_inv(1), of "0x40000000" "0x40000000"] by (simp add: vm1_def vm1_eq)
  show "l1_type (v_l1 vm1 0x400) \<noteq> 2" using table_of_type [OF t] by simp
qed

lemma vm2_eq: "vmap_unmap 0x40000000 vm1 = (VMAP_OK, vm2)"
  using vmap_unmap_spec [OF vm_inv(2), of "0x40000000"] by (simp add: vm2_def)

lemma vm2_map: "fst (vmap_map 0x40000000 0x80000000 (Some vmap_attr_normal) vm2) = VMAP_OK"
  and vm2_table: "table_of vm2 0x400 = Some 0"
proof -
  have w: "walk vm2 0x40000000 = None" using unmap_effect [OF vm_inv(2) _ _ vm2_eq] by simp
  have s: "vm2 = (vmap_set_entry 0 0 vm1)\<lparr>v_stat_unmap := v_stat_unmap vm1 + 1\<rparr>"
    using vmap_unmap_spec [OF vm_inv(2), of "0x40000000"] vm2_eq by simp
  show t: "table_of vm2 0x400 = Some 0" by (simp add: s)
  have "in_range vm2 0x40000000" using vm1_facts(2) by (simp add: s in_range_def vmap_set_entry_def)
  then show "fst (vmap_map 0x40000000 0x80000000 (Some vmap_attr_normal) vm2) = VMAP_OK"
    using vmap_map_table [OF vm_inv(3), of "0x40000000" "0x80000000" 0] t w by simp
qed

lemma vmap_split_transparent_witness:
  "walk (snd (vmap_split_section 0x40000000 vm0)) 0x4000F123 = walk vm0 0x4000F123"
  using vmap_split_transparent [OF vm_inv(1) vm0_facts(8) vm1_eq] by (simp add: vm1_eq)

lemma vmap_map_fault_lost_witness:
  "fst (vmap_map 0x40200000 0x80000000 (Some vmap_attr_normal) vm0) = VMAP_OK
   \<and> walk (snd (vmap_map 0x40200000 0x80000000 (Some vmap_attr_normal) vm0)) 0x40200000 = None"
  using vmap_map_fault_lost [OF vm_inv(1), of "0x40200000" "0x80000000" vmap_attr_normal,
      OF _ _ _ _ _ surjective_pairing] by auto

lemma vmap_map_unmap_roundtrip_witness:
  "\<exists>v''. vmap_unmap 0x40000000 (snd (vmap_map 0x40000000 0x80000000 (Some vmap_attr_normal) vm2)) = (VMAP_OK, v'')"
proof -
  have "vmap_map 0x40000000 0x80000000 (Some vmap_attr_normal) vm2 =
    (VMAP_OK, snd (vmap_map 0x40000000 0x80000000 (Some vmap_attr_normal) vm2))"
    using vm2_map by (simp add: prod_eq_iff)
  from vmap_map_unmap_roundtrip [OF vm_inv(3) this] show ?thesis by (auto simp: vm2_table)
qed

lemma vmap_set_attr_effect_witness:
  "\<exists>pa. walk (snd (vmap_set_attr 0x40000000 (Some vmap_attr_ro_xn) vm1)) 0x40000000
     = Some (pa, page_attr_of vmap_attr_ro_xn)"
proof -
  have "fst (vmap_set_attr 0x40000000 (Some vmap_attr_ro_xn) vm1) = VMAP_OK"
    using lookup_walk(1) [OF vm_inv(2) vm1_facts(2)] lookup_section_iff [OF vm_inv(2) vm1_facts(2)]
      vmap_invD(1) [OF vm_inv(2)]
    by (simp add: vmap_set_attr_def Let_def vmap_l2_of_table)
  then have "vmap_set_attr 0x40000000 (Some vmap_attr_ro_xn) vm1 =
    (VMAP_OK, snd (vmap_set_attr 0x40000000 (Some vmap_attr_ro_xn) vm1))"
    by (simp add: prod_eq_iff)
  from vmap_set_attr_effect [OF vm_inv(2) this] show ?thesis by auto
qed

lemma vmap_reachable_safe_witness: "unat (v_l2_used vm1) \<le> unat (v_l2_capacity vm1)"
  using vmap_reachable_safe [OF vm1_reachable] by simp

section \<open>The contract with clients\<close>

text \<open>
  An address is covered when it is managed and its L1 entry is a section at the identity
  address or an L2 table of the pool: the situation the kernel sets up before it hands pages out.
\<close>

definition covered :: "vmap_t \<Rightarrow> u32 \<Rightarrow> bool" where
  "covered v va \<longleftrightarrow> in_range v va \<and>
     (l1_type (v_l1 v (vmap_l1_index va)) = MMU_L1_TYPE_SECTION \<and> identity_section v va
      \<or> table_of v (vmap_l1_index va) \<noteq> None)"

definition fine :: "vmap_t \<Rightarrow> u32 \<Rightarrow> bool" where
  "fine v va \<longleftrightarrow> table_of v (vmap_l1_index va) \<noteq> None"

lemma fine_split:
  assumes "vmap_inv v" "fine v x"
  shows "fine (snd (vmap_split_section va v)) x"
  using split_section_spec [OF assms(1), of va] split_state_tables [OF assms(1), of va] assms(2)
  by (cases "in_range v va \<and> va AND 0xFFF = 0") (auto simp: vmap_split_section_def fine_def)

lemma split_gives_fine:
  assumes "vmap_inv v" "vmap_split_section va v = (VMAP_OK, v')" "covered v va"
  shows "fine v' va"
proof -
  have g: "in_range v va" "va AND 0xFFF = 0" using assms(2) by (auto simp: vmap_split_section_def split: if_splits)
  show ?thesis using assms(2,3) split_state_tables [OF assms(1), of va]
    unfolding split_section_spec [OF assms(1) g] by (auto simp: fine_def covered_def split: if_splits)
qed

lemma fine_pool:
  "fine (v\<lparr>v_l2_pool := p\<rparr>) = fine v" "fine (v\<lparr>v_stat_map := m\<rparr>) = fine v"
  "fine (v\<lparr>v_stat_unmap := m\<rparr>) = fine v" "fine (vmap_set_entry w e v) = fine v"
  by (simp_all add: fine_def fun_eq_iff)

lemma fine_mapped: "fine (mapped_state va pa a l v) = fine v"
  by (simp add: mapped_state_def fine_pool)

lemma fine_unmap: "fine (snd (vmap_unmap va v)) = fine v"
  by (simp add: vmap_unmap_def Let_def fine_pool split: option.split)

lemma fine_set_attr: "fine (snd (vmap_set_attr va a v)) = fine v"
  by (simp add: vmap_set_attr_def Let_def fine_pool split: option.split)

lemma fine_map:
  assumes inv: "vmap_inv v" and c: "covered v va" and x: "fine v x"
  shows "fine (snd (vmap_map va pa (Some a) v)) x"
proof (cases "in_range v va \<and> va AND 0xFFF = 0 \<and> pa AND 0xFFF = 0")
  case True
  then have g: "in_range v va" "va AND 0xFFF = 0" "pa AND 0xFFF = 0" by auto
  show ?thesis
  proof (cases "table_of v (vmap_l1_index va)")
    case None
    then have s: "l1_type (v_l1 v (vmap_l1_index va)) = MMU_L1_TYPE_SECTION" using c by (simp add: covered_def)
    show ?thesis using split_state_tables [OF inv, of va] x
      by (simp add: vmap_map_section [OF inv g s] fine_mapped) (simp add: fine_def)
  next
    case (Some l)
    show ?thesis using x by (simp add: vmap_map_table [OF inv g Some] fine_mapped)
  qed
next
  case False
  then show ?thesis using x by (auto simp: vmap_map_def)
qed

lemma covered_split_state:
  assumes "vmap_inv v" "v_l2_used v \<noteq> v_l2_capacity v" "covered v x"
  shows "covered (split_state va v) x"
proof -
  have "v_l1 (split_state va v) i = v_l1 v i" if "i \<noteq> vmap_l1_index va" for i
    using that by (simp add: split_state_def Let_def)
  then show ?thesis using assms(3) split_state_tables [OF assms(1,2), of va "vmap_l1_index x"]
    by (cases "vmap_l1_index x = vmap_l1_index va") (auto simp: covered_def identity_section_def)
qed

lemma covered_split:
  assumes "vmap_inv v" "covered v x"
  shows "covered (snd (vmap_split_section va v)) x"
  using split_section_spec [OF assms(1), of va] covered_split_state [OF assms(1) _ assms(2)] assms(2)
  by (cases "in_range v va \<and> va AND 0xFFF = 0") (auto simp: vmap_split_section_def)

lemma covered_pool:
  "covered (v\<lparr>v_l2_pool := p\<rparr>) = covered v" "covered (v\<lparr>v_stat_map := m\<rparr>) = covered v"
  "covered (v\<lparr>v_stat_unmap := m\<rparr>) = covered v" "covered (vmap_set_entry w e v) = covered v"
  by (simp_all add: covered_def in_range_def identity_section_def vmap_set_entry_def fun_eq_iff)

lemma covered_mapped: "covered (mapped_state va pa a l v) = covered v"
  by (simp add: mapped_state_def covered_pool)

lemma covered_unmap: "covered (snd (vmap_unmap va v)) = covered v"
  by (simp add: vmap_unmap_def Let_def covered_pool split: option.split)

lemma covered_set_attr: "covered (snd (vmap_set_attr va a v)) = covered v"
  by (simp add: vmap_set_attr_def Let_def covered_pool split: option.split)

lemma covered_map:
  assumes inv: "vmap_inv v" and c: "covered v va" and x: "covered v x"
  shows "covered (snd (vmap_map va pa (Some a) v)) x"
proof (cases "in_range v va \<and> va AND 0xFFF = 0 \<and> pa AND 0xFFF = 0")
  case True
  then have g: "in_range v va" "va AND 0xFFF = 0" "pa AND 0xFFF = 0" by auto
  show ?thesis
  proof (cases "table_of v (vmap_l1_index va)")
    case None
    then have s: "l1_type (v_l1 v (vmap_l1_index va)) = MMU_L1_TYPE_SECTION" using c by (simp add: covered_def)
    show ?thesis using covered_split_state [OF inv _ x] x
      by (simp add: vmap_map_section [OF inv g s] covered_mapped)
  next
    case (Some l)
    show ?thesis using x by (simp add: vmap_map_table [OF inv g Some] covered_mapped)
  qed
next
  case False
  then show ?thesis using x by (auto simp: vmap_map_def)
qed

lemma vmap_ok_args:
  "vmap_unmap va v = (VMAP_OK, v') \<Longrightarrow> in_range v va \<and> va AND 0xFFF = 0"
  by (auto simp: vmap_unmap_def split: if_splits)

lemma set_attr_exact:
  assumes "vmap_inv v" "in_range v va" "vmap_set_attr va (Some a) v = (VMAP_OK, v')"
  shows "\<exists>pa d. walk v va = Some (pa, d) \<and> vmap_inv v'
    \<and> walk v' = (\<lambda>x. if same_page x va then Some (pa, page_attr_of a) else walk v x)"
  using set_attr_effect [OF assms] by (auto simp: fun_eq_iff)

lemma split_transparent_cases:
  assumes "vmap_inv v" "covered v va"
  shows "vmap_inv (snd (vmap_split_section va v)) \<and> walk (snd (vmap_split_section va v)) = walk v"
proof (cases "va AND 0xFFF = 0")
  case True
  have r: "in_range v va" using assms(2) by (simp add: covered_def)
  have "identity_section v va" if "l1_type (v_l1 v (vmap_l1_index va)) = MMU_L1_TYPE_SECTION"
    using assms(2) that table_of_type by (fastforce simp: covered_def)
  then show ?thesis
    using split_section_spec [OF assms(1) r True] split_state_inv [OF assms(1)] split_state_walk [OF assms(1)] assms(1)
    by (auto simp: fun_eq_iff)
next
  case False
  then show ?thesis using assms(1) by (auto simp: vmap_split_section_def)
qed

interpretation pm: page_mapper vmap_inv walk covered fine same_page page_attr_of vmap_split_section
  vmap_unmap "\<lambda>va pa a. vmap_map va pa (Some a)" "\<lambda>va a. vmap_set_attr va (Some a)" VMAP_OK
proof (unfold_locales, goal_cases)
  case (1 s va e s')
  then show ?case using split_transparent_cases [OF 1(1,2)] covered_split [OF 1(1), of _ va] fine_split [OF 1(1), of _ va] by simp
next
  case (2 s va s')
  then show ?case using split_gives_fine by blast
next
  case (3 s va s')
  then show ?case
    using unmap_effect [OF 3(1) _ _ 3(3)] vmap_ok_args [OF 3(3)] covered_unmap [of va s] fine_unmap [of va s] by (auto simp: fun_eq_iff)
next
  case (4 s va e s')
  then show ?case using vmap_step_error [of "OpUnmap va" s] by simp
next
  case (5 s va pa a s')
  then have "l1_type (v_l1 s (vmap_l1_index va)) = MMU_L1_TYPE_SECTION \<and> identity_section s va
      \<or> table_of s (vmap_l1_index va) \<noteq> None" by (simp add: covered_def)
  then show ?case using map_covered_effect [OF 5(1,3)] covered_map [OF 5(1,2), of _ pa a] fine_map [OF 5(1,2), of _ pa a] 5(3) by (auto simp: fun_eq_iff)
next
  case (6 s va pa a e s')
  then show ?case using vmap_step_error [of "OpMap va pa (Some a)" s] by simp
next
  case (7 s va a s')
  then show ?case using set_attr_exact [OF 7(1) _ 7(3)] covered_set_attr [of va "Some a" s] fine_set_attr [of va "Some a" s] by (simp add: covered_def)
next
  case (8 s va a e s')
  then show ?case using vmap_step_error [of "OpSetAttr va (Some a)" s] by simp
qed

end
