(* ===== verification/VmapWalk.thy ===== *)
theory VmapWalk
  imports Vmap ArmWalk
begin

text \<open>
  What the processor makes of the tables that \<open>vmap.c\<close> keeps: the walk of \<open>ArmWalk\<close>, which knows nothing of the
  code's own encoders and decoders, on the L1 table, with the second level read from physical memory.  Inside the
  pool that is the pool's words, outside it arbitrary memory \<open>mem\<close>.  The two properties at the end say what a split
  and a map do to this view.
\<close>

section \<open>The view\<close>

definition pool_mem :: "vmap_t \<Rightarrow> (u32 \<Rightarrow> u32) \<Rightarrow> u32 \<Rightarrow> u32" where
  "pool_mem v mem pa =
     (if unat (v_l2_pool_pa v) \<le> unat pa \<and> unat pa < unat (v_l2_pool_pa v) + unat (v_l2_capacity v) * 1024
      then v_l2_pool v ((unat pa - unat (v_l2_pool_pa v)) div 4) else mem pa)"

definition hw_vmap :: "vmap_t \<Rightarrow> (u32 \<Rightarrow> u32) \<Rightarrow> u32 \<Rightarrow> hw_page option" where
  "hw_vmap v mem = hw_walk (v_l1 v) (pool_mem v mem)"

text \<open>The access rights and memory type that a caller's \<open>vmap_attr_t\<close> asks for, field by field; pages are global.\<close>

definition requested :: "vmap_attr_t \<Rightarrow> hw_access" where
  "requested a = \<lparr>hw_ap = (bit (a_ap3 a) 2, bit (a_ap3 a) 1, bit (a_ap3 a) 0),
     hw_tex = (bit (a_tex a) 2, bit (a_tex a) 1, bit (a_tex a) 0), hw_c = (a_c a \<noteq> 0), hw_b = (a_b a \<noteq> 0),
     hw_s = a_shareable a, hw_ng = False, hw_xn = a_xn a\<rparr>"

text \<open>
  The sections the port makes: 1 MiB ones, global and secure.  (\<open>vmap_attr_t\<close> has no room for the nG and NS bits.)
\<close>

definition plain_section :: "u32 \<Rightarrow> bool" where
  "plain_section d \<longleftrightarrow> \<not> bit d 17 \<and> \<not> bit d 18 \<and> \<not> bit d 19"

section \<open>Attribute bits\<close>

lemma and_four: "x AND 4 = (0 :: u32) \<longleftrightarrow> \<not> bit x 2"
  using bit_iff_and_push_bit_not_eq_0 [of x 2] by simp

lemma bit_one_only: "(x :: u32) AND 1 = 0 \<longleftrightarrow> \<not> bit x 0"
  by (simp add: and_one_eq even_iff_mod_2_eq_zero bit_0)

lemma page_entry_access:
  assumes "pa AND 0xFFF = 0"
  shows "hw_small_access (mmu_small_page_descriptor pa (page_attr_of a)) = requested a"
    and "hw_join 12 (mmu_small_page_descriptor pa (page_attr_of a)) va = pa OR (va AND 0xFFF)"
    and "bit (mmu_small_page_descriptor pa (page_attr_of a)) 1"
proof -
  have lo: "bit (mmu_small_page_descriptor pa (page_attr_of a)) n = bit (page_attr_of a) n" if "n < 12" for n
    using that unfolding mmu_small_page_descriptor_def page_mask_not by (simp add: bit_simps)
  show "hw_small_access (mmu_small_page_descriptor pa (page_attr_of a)) = requested a"
    by (simp add: hw_small_access_def lo requested_def)
      (simp add: page_attr_of_def mmu_l2_small_page_attr_def Let_def bit_simps and_four)
  show "hw_join 12 (mmu_small_page_descriptor pa (page_attr_of a)) va = pa OR (va AND 0xFFF)"
    using page_entry(1) [OF assms, of a] by (simp only: hw_join_def page_mask_not mask12)
qed (rule page_attr_nonfault)

lemma decoded_access: "\<not> bit d 17 \<Longrightarrow> requested (decode_section_attr d) = hw_section_access d"
  by (simp add: requested_def decode_section_attr_def Let_def hw_section_access_def bit_simps bit_one_only and_four)
    (use bit_iff_and_push_bit_not_eq_0 [of d 15] bit_iff_and_push_bit_not_eq_0 [of d 16] bit_iff_and_push_bit_not_eq_0 [of d 4] in \<open>auto simp: bit_simps\<close>)

lemma table_domain:
  assumes "pa AND 0x3FF = 0"
  shows "hw_l1_domain (mmu_page_table_descriptor pa (a_domain (decode_section_attr d))) = hw_l1_domain d"
    and "\<not> bit (mmu_page_table_descriptor pa (a_domain (decode_section_attr d))) 3"
  by (simp_all add: hw_l1_domain_def mmu_page_table_descriptor_def decode_section_attr_def Let_def bit_simps)

section \<open>The view through L1 and through the pool\<close>

lemma hw_vmap_section:
  assumes "l1_type (v_l1 v (vmap_l1_index va)) = MMU_L1_TYPE_SECTION" and "plain_section (v_l1 v (vmap_l1_index va))"
  shows "hw_vmap v mem va = Some \<lparr>hw_pa = hw_join 20 (v_l1 v (vmap_l1_index va)) va,
    hw_domain = hw_l1_domain (v_l1 v (vmap_l1_index va)), hw_ns = False,
    hw_acc = hw_section_access (v_l1 v (vmap_l1_index va))\<rparr>"
  using assms hw_section [of "v_l1 v" va "pool_mem v mem"]
  by (simp add: hw_vmap_def l1_type_def plain_section_def vmap_l1_index_nat)

lemma table_base:
  obtains x where "unat (d AND NOT (0x3FF :: u32)) = 1024 * x"
proof -
  have "unat (d AND NOT (mask 10)) mod 1024 = 0" by (simp only: unat_and_not_mask minus_mod_eq_div_mult) simp
  then have "unat (d AND NOT 0x3FF) mod 1024 = 0" by (simp only: not_mask10)
  then show thesis using that by (auto simp only: mod_eq_0_iff_dvd elim!: dvdE)
qed

lemma l2_address:
  "unat (hw_l2_address d va) = unat (d AND NOT 0x3FF) + 4 * vmap_l2_index va"
proof -
  obtain x where x: "unat (d AND NOT (mask 10)) = 1024 * x" by (rule table_base [of d, unfolded not_mask10])
  have "1024 * x < 4294967296" using unat_lt32 [of "d AND NOT (mask 10)"] by (simp only: x)
  then have "1024 * x + 1024 \<le> 4294967296" by simp
  then have lt: "unat (d AND NOT (mask 10)) + 4 * vmap_l2_index va < 4294967296"
    unfolding x using vmap_l2_index_lt [of va] by linarith
  have "4 * j < 2 ^ LENGTH(32)" if "j < 256" for j :: nat using that by simp
  from unat_of_nat_small [OF this [OF vmap_l2_index_lt]]
  have i: "unat (of_nat (4 * vmap_l2_index va) :: u32) = 4 * vmap_l2_index va" .
  have sm: "unat (d AND NOT (mask 10)) + unat (of_nat (4 * vmap_l2_index va) :: u32) < 2 ^ LENGTH(32)"
    unfolding i using lt by simp
  show ?thesis
    using unat_add_small [OF sm] unfolding i
    by (simp only: hw_l2_address_def vmap_l2_index_nat not_mask10)
qed

lemma hw_vmap_table:
  assumes inv: "vmap_inv v" and t: "table_of v (vmap_l1_index va) = Some l"
  shows "hw_vmap v mem va = hw_walk_l2 (v_l1 v (vmap_l1_index va)) (v_l2_pool v (l + vmap_l2_index va)) va"
proof -
  let ?d = "v_l1 v (vmap_l1_index va)"
  have ty: "?d AND 3 = 1" using table_of_type [OF t] by (simp add: l1_type_def)
  have "l2_from_pa v (?d AND NOT 0x3FF) = Some l" using t by (simp add: table_of_def split: if_splits)
  then have r: "unat (v_l2_pool_pa v) \<le> unat (?d AND NOT 0x3FF)"
      "unat (?d AND NOT 0x3FF) < unat (v_l2_pool_pa v) + unat (v_l2_capacity v) * 1024"
      "l = (unat (?d AND NOT 0x3FF) - unat (v_l2_pool_pa v)) div 4"
    by (simp_all only: l2_from_pa_spec [OF inv] option.inject split: if_splits) auto
  obtain x where x: "unat (?d AND NOT 0x3FF) = 1024 * x" by (rule table_base)
  obtain y where y: "unat (v_l2_pool_pa v) = 1024 * y" using vmap_invD(2) [OF inv] by (auto simp: mod_eq_0_iff_dvd elim!: dvdE)
  have b: "x < y + unat (v_l2_capacity v)" "y \<le> x" using r(1,2) unfolding x y by simp_all
  have "1024 * x + 4 * vmap_l2_index va < 1024 * y + unat (v_l2_capacity v) * 1024"
    using b vmap_l2_index_lt [of va] by linarith
  moreover have "(1024 * x + 4 * vmap_l2_index va - 1024 * y) div 4 = l + vmap_l2_index va"
    using b r(3) unfolding x y by (simp add: diff_mult_distrib2 [symmetric])
  ultimately have "pool_mem v mem (hw_l2_address ?d va) = v_l2_pool v (l + vmap_l2_index va)"
    using b by (simp only: pool_mem_def l2_address x y) simp
  then show ?thesis using hw_table [of "v_l1 v" va "pool_mem v mem"] ty
    by (simp add: hw_vmap_def vmap_l1_index_nat)
qed

lemma hw_vmap_outside:
  assumes inv: "vmap_inv v" and t: "table_of v (vmap_l1_index va) = None"
  shows "hw_vmap v mem va = hw_walk (v_l1 v) mem va"
proof (cases "v_l1 v (vmap_l1_index va) AND 3 = 1")
  case True
  let ?d = "v_l1 v (vmap_l1_index va)"
  have "l2_from_pa v (?d AND NOT 0x3FF) = None" using t True by (simp add: table_of_def l1_type_def)
  then have r: "\<not> (unat (v_l2_pool_pa v) \<le> unat (?d AND NOT 0x3FF) \<and>
      unat (?d AND NOT 0x3FF) < unat (v_l2_pool_pa v) + unat (v_l2_capacity v) * 1024)"
    by (simp only: l2_from_pa_spec [OF inv] split: if_splits) auto
  obtain x where x: "unat (?d AND NOT 0x3FF) = 1024 * x" by (rule table_base)
  obtain y where y: "unat (v_l2_pool_pa v) = 1024 * y" using vmap_invD(2) [OF inv] by (auto simp: mod_eq_0_iff_dvd elim!: dvdE)
  have "x < y \<or> y + unat (v_l2_capacity v) \<le> x" using r unfolding x y by auto
  then have "\<not> (1024 * y \<le> 1024 * x + 4 * vmap_l2_index va \<and>
      1024 * x + 4 * vmap_l2_index va < 1024 * y + unat (v_l2_capacity v) * 1024)"
    using vmap_l2_index_lt [of va] by (elim disjE) linarith+
  then have "pool_mem v mem (hw_l2_address ?d va) = mem (hw_l2_address ?d va)"
    by (simp only: pool_mem_def l2_address x y if_False)
  then show ?thesis using True by (simp add: hw_vmap_def hw_table vmap_l1_index_nat)
next
  case False
  then show ?thesis unfolding type_table by (auto simp: hw_vmap_def hw_walk_def Let_def vmap_l1_index_nat)
qed

text \<open>Two states with the same table entry for an address show the same there.\<close>

lemma hw_walk_cong: "l1 (unat va div 1048576) = l1' (unat va div 1048576) \<Longrightarrow> hw_walk l1 mem va = hw_walk l1' mem va"
  by (simp add: hw_walk_def)

lemma hw_vmap_frame:
  assumes inv: "vmap_inv v" "vmap_inv v'"
    and d: "v_l1 v' (vmap_l1_index va) = v_l1 v (vmap_l1_index va)"
    and t: "table_of v' (vmap_l1_index va) = table_of v (vmap_l1_index va)"
    and p: "\<And>l. table_of v (vmap_l1_index va) = Some l \<Longrightarrow> v_l2_pool v' (l + vmap_l2_index va) = v_l2_pool v (l + vmap_l2_index va)"
  shows "hw_vmap v' mem va = hw_vmap v mem va"
proof (cases "table_of v (vmap_l1_index va)")
  case None
  then show ?thesis using inv t d hw_walk_cong [of "v_l1 v'" va "v_l1 v"]
    by (simp add: hw_vmap_outside vmap_l1_index_nat)
next
  case (Some l)
  then show ?thesis using inv t d p by (simp add: hw_vmap_table)
qed


section \<open>A split\<close>

lemma section_page_join:
  "((d AND MMU_SECTION_MASK) OR (va AND 0xFF000)) OR (va AND 0xFFF) = hw_join 20 d va"
proof -
  have m: "(0xFF000 :: u32) OR 0xFFF = 0xFFFFF" by simp
  have "(va AND 0xFF000) OR (va AND 0xFFF) = va AND 0xFFFFF" unfolding m [symmetric] by (rule bit.conj_disj_distrib [symmetric])
  then show ?thesis unfolding hw_join_def section_mask_not by (simp add: or.assoc mask_eq_exp_minus_1)
qed

lemma split_domain:
  assumes inv: "vmap_inv v" and room: "v_l2_used v \<noteq> v_l2_capacity v"
  shows "hw_l1_domain (v_l1 (split_state va v) (vmap_l1_index va)) = hw_l1_domain (v_l1 v (vmap_l1_index va))"
    and "\<not> bit (v_l1 (split_state va v) (vmap_l1_index va)) 3"
proof -
  have "unat (v_l2_used v) \<noteq> unat (v_l2_capacity v)" using room by (simp add: word_eq_unat)
  then have lt: "unat (v_l2_used v) < unat (v_l2_capacity v)" using vmap_invD(4) [OF inv] by simp
  show "hw_l1_domain (v_l1 (split_state va v) (vmap_l1_index va)) = hw_l1_domain (v_l1 v (vmap_l1_index va))"
    "\<not> bit (v_l1 (split_state va v) (vmap_l1_index va)) 3"
    using table_domain [OF fresh_table(2) [OF inv lt], of "v_l1 v (vmap_l1_index va)"]
    by (simp_all add: split_state_def Let_def)
qed

lemma split_view_section:
  assumes inv: "vmap_inv v" and room: "v_l2_used v \<noteq> v_l2_capacity v"
    and sec: "l1_type (v_l1 v (vmap_l1_index va)) = MMU_L1_TYPE_SECTION" and id: "identity_section v va"
    and plain: "plain_section (v_l1 v (vmap_l1_index va))" and same: "vmap_l1_index va' = vmap_l1_index va"
  shows "hw_vmap (split_state va v) mem va' = hw_vmap v mem va'"
proof -
  let ?d = "v_l1 v (vmap_l1_index va)"
  let ?a = "decode_section_attr ?d"
  let ?l = "unat (v_l2_used v) * 256"
  have dom: "hw_l1_domain (v_l1 (split_state va v) (vmap_l1_index va')) = hw_l1_domain ?d"
    "\<not> bit (v_l1 (split_state va v) (vmap_l1_index va')) 3"
    unfolding same by (rule split_domain [OF inv room])+
  have t: "table_of (split_state va v) (vmap_l1_index va') = Some ?l"
    using split_state_tables [OF inv room] same by simp
  have e: "v_l2_pool (split_state va v) (?l + vmap_l2_index va') =
      mmu_small_page_descriptor ((va AND MMU_SECTION_MASK) OR (va' AND 0xFF000)) (page_attr_of ?a)"
  proof -
    have "v_l2_pool (split_state va v) = split_fill ?l (va AND NOT 0xFFFFF) (page_attr_of ?a) (v_l2_pool v)"
      by (simp add: split_state_def Let_def)
    then show ?thesis by (simp only: split_fill_at [OF vmap_l2_index_lt] section_page)
  qed
  have acc: "requested ?a = hw_section_access ?d" using plain by (intro decoded_access) (simp add: plain_section_def)
  have sm: "?d AND MMU_SECTION_MASK = va AND MMU_SECTION_MASK" using id by (simp add: identity_section_def)
  show ?thesis
    using page_entry_access [OF section_page_aligned, of va va' ?a] sec plain same dom
    unfolding hw_vmap_table [OF split_state_inv [OF inv room] t] e
    by (simp add: hw_walk_l2_def hw_vmap_section acc section_page_join [of ?d, unfolded sm])
qed

lemma split_view:
  assumes inv: "vmap_inv v" and room: "v_l2_used v \<noteq> v_l2_capacity v"
    and sec: "l1_type (v_l1 v (vmap_l1_index va)) = MMU_L1_TYPE_SECTION" and id: "identity_section v va"
    and plain: "plain_section (v_l1 v (vmap_l1_index va))"
  shows "hw_vmap (split_state va v) mem va' = hw_vmap v mem va'"
proof (cases "vmap_l1_index va' = vmap_l1_index va")
  case True
  show ?thesis by (rule split_view_section [OF assms True])
next
  case False
  have "v_l1 (split_state va v) (vmap_l1_index va') = v_l1 v (vmap_l1_index va')"
    using False by (simp add: split_state_def Let_def)
  moreover have "v_l2_pool (split_state va v) (l + vmap_l2_index va') = v_l2_pool v (l + vmap_l2_index va')"
    if "table_of v (vmap_l1_index va') = Some l" for l
    using table_entry_lt [OF inv that] by (simp add: split_state_def Let_def split_fill_entry)
  ultimately show ?thesis using False
    by (intro hw_vmap_frame) (simp_all add: inv split_state_inv [OF inv room] split_state_tables [OF inv room])
qed

section \<open>A map\<close>

lemma mapped_view:
  assumes inv: "vmap_inv v" and t: "table_of v (vmap_l1_index va) = Some l" and pa: "pa AND 0xFFF = 0"
  shows "hw_vmap (mapped_state va pa a l v) mem va' =
    (if same_page va' va
     then Some \<lparr>hw_pa = pa OR (va' AND 0xFFF), hw_domain = hw_l1_domain (v_l1 v (vmap_l1_index va)),
                hw_ns = bit (v_l1 v (vmap_l1_index va)) 3, hw_acc = requested a\<rparr>
     else hw_vmap v mem va')"
proof -
  have l1: "v_l1 (mapped_state va pa a l v) = v_l1 v"
    and tab: "table_of (mapped_state va pa a l v) = table_of v"
    and pool: "v_l2_pool (mapped_state va pa a l v) =
      (v_l2_pool v)(l + vmap_l2_index va := mmu_small_page_descriptor pa (page_attr_of a))"
    by (simp_all add: mapped_state_def vmap_set_entry_def fun_eq_iff)
  show ?thesis
  proof (cases "same_page va' va")
    case True
    then have i: "vmap_l1_index va' = vmap_l1_index va" "vmap_l2_index va' = vmap_l2_index va" by (simp_all add: same_page_iff)
    have t': "table_of (mapped_state va pa a l v) (vmap_l1_index va') = Some l" using t by (simp add: tab i)
    show ?thesis using True page_entry_access [OF pa, of a]
      unfolding hw_vmap_table [OF mapped_state_inv [OF inv] t'] by (simp add: l1 pool i hw_walk_l2_def)
  next
    case False
    have "l' + vmap_l2_index va' \<noteq> l + vmap_l2_index va" if t': "table_of v (vmap_l1_index va') = Some l'" for l'
    proof
      assume eq: "l' + vmap_l2_index va' = l + vmap_l2_index va"
      have "l' mod 256 = 0" "l mod 256 = 0"
        using vmap_invD(5) [OF inv vmap_l1_index_lt t'] vmap_invD(5) [OF inv vmap_l1_index_lt t] by auto
      then have "l' = l" using eq block_base [of l' "vmap_l2_index va'"] block_base [of l "vmap_l2_index va"] by simp
      with t t' eq False show False using vmap_invD(6) [OF inv, of "vmap_l1_index va'" "vmap_l1_index va"]
        by (simp add: same_page_iff)
    qed
    then have "hw_vmap (mapped_state va pa a l v) mem va' = hw_vmap v mem va'"
      by (intro hw_vmap_frame) (simp_all add: inv mapped_state_inv [OF inv] l1 tab pool)
    then show ?thesis using False by simp
  qed
qed


section \<open>Properties\<close>

text \<open>A section that the port installs: at the identity address, 1 MiB, global and secure.\<close>

definition port_section :: "vmap_t \<Rightarrow> u32 \<Rightarrow> bool" where
  "port_section v va \<longleftrightarrow> l1_type (v_l1 v (vmap_l1_index va)) = MMU_L1_TYPE_SECTION
     \<and> identity_section v va \<and> plain_section (v_l1 v (vmap_l1_index va))"

text \<open>
  C4. Splitting a section is invisible to the processor.  When the address lies in a section at the identity address
  (1 MiB, global, secure) and the split succeeds, the hardware walk gives for every address of the whole address space
  the same physical address, domain, security bit, access rights and memory type as before; the tables stay well
  formed and the address now has an L2 table.  When it fails, because the address is not managed or not aligned or the
  pool has no table left, nothing has changed.
\<close>

theorem vmap_split_invisible:
  assumes "vmap_inv v" and "port_section v va" and "vmap_split_section va v = (e, v')"
  shows "if e = VMAP_OK
    then vmap_inv v' \<and> (\<forall>va'. hw_vmap v' mem va' = hw_vmap v mem va') \<and>
         l1_type (v_l1 v' (vmap_l1_index va)) = MMU_L1_TYPE_PAGE_TABLE
    else v' = v \<and> (\<not> in_range v va \<or> va AND 0xFFF \<noteq> 0 \<or> v_l2_used v = v_l2_capacity v)"
proof (cases "in_range v va \<and> va AND 0xFFF = 0")
  case True
  have sec: "l1_type (v_l1 v (vmap_l1_index va)) = MMU_L1_TYPE_SECTION" "identity_section v va"
    "plain_section (v_l1 v (vmap_l1_index va))" using assms(2) by (simp_all add: port_section_def)
  show ?thesis
  proof (cases "v_l2_used v = v_l2_capacity v")
    case full: False
    have "table_of (split_state va v) (vmap_l1_index va) \<noteq> None" using split_state_tables [OF assms(1) full] by simp
    then have "l1_type (v_l1 (split_state va v) (vmap_l1_index va)) = MMU_L1_TYPE_PAGE_TABLE"
      using table_of_type by (cases "table_of (split_state va v) (vmap_l1_index va)") auto
    then show ?thesis using assms(3) True sec full split_state_inv [OF assms(1) full] split_view [OF assms(1) full sec]
      by (auto simp: split_section_spec [OF assms(1)])
  qed (use assms(3) True sec in \<open>auto simp: split_section_spec [OF assms(1)]\<close>)
next
  case False
  then show ?thesis using assms(3) by (auto simp: vmap_split_section_def split: if_splits)
qed

text \<open>
  C5. A successful map of a page whose address lies in a section at the identity address (1 MiB, global, secure;
  it is split first) or below an L2 table of the pool makes exactly that page translate to the requested frame, with
  the requested access rights and memory type, in the domain and security state of the L1 entry (the domain in
  the request is not used); the hardware walk of every other address is as before.
\<close>

theorem vmap_map_walk:
  assumes "vmap_inv v" and "vmap_map va pa (Some a) v = (VMAP_OK, v')"
    and "port_section v va \<or> table_of v (vmap_l1_index va) \<noteq> None"
  shows "vmap_inv v' \<and>
    (\<forall>va'. hw_vmap v' mem va' =
       (if same_page va' va
        then Some \<lparr>hw_pa = pa OR (va' AND 0xFFF), hw_domain = hw_l1_domain (v_l1 v (vmap_l1_index va)),
                   hw_ns = (bit (v_l1 v (vmap_l1_index va)) 3 \<and> \<not> port_section v va), hw_acc = requested a\<rparr>
        else hw_vmap v mem va'))"
proof -
  have g: "in_range v va" "va AND 0xFFF = 0" "pa AND 0xFFF = 0"
    using assms(2) by (auto simp: vmap_map_def split: if_splits)
  show ?thesis
  proof (cases "port_section v va")
    case True
    then have sec: "l1_type (v_l1 v (vmap_l1_index va)) = MMU_L1_TYPE_SECTION" "identity_section v va"
      "plain_section (v_l1 v (vmap_l1_index va))" by (simp_all add: port_section_def)
    from assms(2) have room: "v_l2_used v \<noteq> v_l2_capacity v"
      and v': "v' = mapped_state va pa a (unat (v_l2_used v) * 256) (split_state va v)"
      by (auto simp: vmap_map_section [OF assms(1) g sec(1)] split: if_splits)
    note inv = split_state_inv [OF assms(1) room]
    have t: "table_of (split_state va v) (vmap_l1_index va) = Some (unat (v_l2_used v) * 256)"
      using split_state_tables [OF assms(1) room] by simp
    have d: "hw_l1_domain (v_l1 (split_state va v) (vmap_l1_index va)) = hw_l1_domain (v_l1 v (vmap_l1_index va))"
      "\<not> bit (v_l1 (split_state va v) (vmap_l1_index va)) 3"
      by (rule split_domain [OF assms(1) room])+
    show ?thesis using mapped_state_inv [OF inv] mapped_view [OF inv t g(3)]
        split_view [OF assms(1) room sec] True d by (simp add: v')
  next
    case False
    then obtain l where l: "table_of v (vmap_l1_index va) = Some l" using assms(3) by auto
    then have "v' = mapped_state va pa a l v"
      using assms(2) by (simp add: vmap_map_table [OF assms(1) g l] split: if_splits)
    then show ?thesis using mapped_state_inv [OF assms(1)] mapped_view [OF assms(1) l g(3)] False by simp
  qed
qed

section \<open>The properties at work\<close>

lemma vm0_port: "port_section vm0 0x40000000"
  by (simp add: port_section_def) (simp add: plain_section_def vm0_eq)

lemma vmap_split_invisible_witness:
  "hw_vmap (snd (vmap_split_section 0x40000000 vm0)) (\<lambda>_. 0) 0x4000F123 =
     Some \<lparr>hw_pa = 0x4000F123, hw_domain = (True, True, True, True), hw_ns = False,
           hw_acc = \<lparr>hw_ap = (False, True, True), hw_tex = (True, False, True), hw_c = False, hw_b = True,
                     hw_s = True, hw_ng = False, hw_xn = False\<rparr>\<rparr>"
proof -
  have "hw_vmap vm0 (\<lambda>_. 0) 0x4000F123 =
     Some \<lparr>hw_pa = 0x4000F123, hw_domain = (True, True, True, True), hw_ns = False,
           hw_acc = \<lparr>hw_ap = (False, True, True), hw_tex = (True, False, True), hw_c = False, hw_b = True,
                     hw_s = True, hw_ng = False, hw_xn = False\<rparr>\<rparr>"
    by (simp add: hw_vmap_def hw_walk_def vm0_eq hw_section_access_def hw_l1_domain_def hw_join_def mask_eq_exp_minus_1)
  then show ?thesis
    using vmap_split_invisible [OF vm_inv(1) vm0_port vm1_eq, of "\<lambda>_. 0"] by (simp add: vm1_eq)
qed

lemma vmap_map_walk_witness:
  "hw_vmap (snd (vmap_map 0x40000000 0x80000000 (Some vmap_attr_ro_xn) vm0)) (\<lambda>_. 0) 0x40000123 =
     Some \<lparr>hw_pa = 0x80000123, hw_domain = (True, True, True, True), hw_ns = False,
           hw_acc = \<lparr>hw_ap = (False, True, False), hw_tex = (False, False, True), hw_c = True, hw_b = True,
                     hw_s = True, hw_ng = False, hw_xn = True\<rparr>\<rparr>
   \<and> hw_vmap (snd (vmap_map 0x40000000 0x80000000 (Some vmap_attr_ro_xn) vm0)) (\<lambda>_. 0) 0x40001123
     = hw_vmap vm0 (\<lambda>_. 0) 0x40001123"
proof -
  have "fst (vmap_map 0x40000000 0x80000000 (Some vmap_attr_ro_xn) vm0) = VMAP_OK"
    using vmap_map_section [OF vm_inv(1), of "0x40000000" "0x80000000"] by simp
  then have ok: "vmap_map 0x40000000 0x80000000 (Some vmap_attr_ro_xn) vm0 =
    (VMAP_OK, snd (vmap_map 0x40000000 0x80000000 (Some vmap_attr_ro_xn) vm0))"
    by (simp add: prod_eq_iff)
  have a: "requested vmap_attr_ro_xn = \<lparr>hw_ap = (False, True, False), hw_tex = (False, False, True), hw_c = True, hw_b = True,
                     hw_s = True, hw_ng = False, hw_xn = True\<rparr>"
    by (simp add: requested_def vmap_attr_ro_xn_def vmap_attr_normal_def)
  have d: "hw_l1_domain (v_l1 vm0 0x400) = (True, True, True, True)" by (simp add: vm0_eq hw_l1_domain_def)
  show ?thesis using vmap_map_walk [OF vm_inv(1) ok disjI1 [OF vm0_port], of "\<lambda>_. 0"] vm0_port
    by (simp add: same_page_def a d)
qed

end
