(* ===== verification/Percpu.thy ===== *)
theory Percpu
  imports Prelude
begin

text \<open>
  The per-CPU table, \<open>arch/arm32/src/percpu.c\<close> and the part of \<open>percpu_hw.c\<close> that is not a
  coprocessor instruction.  A pointer into the table is the index of its entry; the
  calling CPU's thread register (TPIDRPRW) holds such a pointer or 0 and appears as an optional index.
\<close>

section \<open>The table\<close>

abbreviation (input) PERCPU_MAX_CPUS :: nat where "PERCPU_MAX_CPUS \<equiv> 2"

record percpu_t =
  p_cpu_id :: u32
  p_online :: u32
  p_mpidr :: u32
  p_loops :: u32
  p_ticks :: u32
  p_ipi_count :: u32
  p_irq_count :: u32
  p_last_intid :: u32
  p_spin_retry :: u32
  p_stack_top :: u32
  p_current_task :: u32
  p_scheduler_ticks :: u64
  p_cur_vfp_d :: u32
  p_cur_vfp_f :: u32
  p_switched :: u32
  p_preempted :: u32
  p_invalid_ctx :: u32

type_synonym percpu_table = "nat \<Rightarrow> percpu_t"

definition percpu_id_valid :: "u32 \<Rightarrow> bool" where
  "percpu_id_valid cpu_id \<longleftrightarrow> unat cpu_id < PERCPU_MAX_CPUS"

definition percpu_for :: "u32 \<Rightarrow> nat option" where
  "percpu_for cpu_id = (if \<not> percpu_id_valid cpu_id then None else Some (unat cpu_id))"

definition percpu_table_reset :: "percpu_table \<Rightarrow> percpu_table" where
  "percpu_table_reset T =
     fold (\<lambda>i T. T(i := (T i)\<lparr>p_cpu_id := of_nat i, p_online := 0, p_mpidr := 0, p_loops := 0,
                               p_irq_count := 0, p_last_intid := 0xFFFFFFFF, p_spin_retry := 0,
                               p_stack_top := 0\<rparr>))
       [0..<PERCPU_MAX_CPUS] T"

definition percpu_online_count :: "percpu_table \<Rightarrow> u32" where
  "percpu_online_count T =
     fold (\<lambda>i count. if p_online (T i) \<noteq> 0 then count + 1 else count) [0..<PERCPU_MAX_CPUS] 0"

text \<open>The result is the new content of the thread register, unless it is \<open>None\<close>.\<close>

definition percpu_init_self :: "u32 \<Rightarrow> u32 \<Rightarrow> percpu_table \<Rightarrow> nat option \<times> percpu_table" where
  "percpu_init_self mpidr stack_top T =
     (case percpu_for (mpidr AND 3) of
        None \<Rightarrow> (None, T)
      | Some i \<Rightarrow> (Some i, if stack_top \<noteq> 0 then T(i := (T i)\<lparr>p_stack_top := stack_top\<rparr>) else T))"

definition percpu_publish_self :: "nat option \<Rightarrow> u32 \<Rightarrow> u32 \<Rightarrow> percpu_table \<Rightarrow> percpu_table" where
  "percpu_publish_self self cpu_id mpidr T =
     (case self of
        None \<Rightarrow> T
      | Some i \<Rightarrow> T(i := (T i)\<lparr>p_cpu_id := cpu_id, p_mpidr := mpidr, p_online := 1\<rparr>))"

end
