(* ===== verification/Tcb.thy ===== *)
theory Tcb
  imports Prelude
begin

text \<open>
  Task control blocks, \<open>include/arch/tcb.h\<close>, with the saved context and the exception frame of
  \<open>include/arch/taskctx.h\<close>.  A task is a pointer (\<open>tcb_t\<close>, 0 for NULL) into a store of control
  blocks; the record has the fields that the modelled code reads or writes.
\<close>

type_synonym tcb_t = u32

abbreviation (input) NULL_TASK :: tcb_t where "NULL_TASK \<equiv> 0"

abbreviation (input) TASK_KERNEL_LEVEL :: u32 where "TASK_KERNEL_LEVEL \<equiv> 0"
abbreviation (input) TASK_IDLE_LEVEL :: u32 where "TASK_IDLE_LEVEL \<equiv> 1"
abbreviation (input) TASK_APPLICATION_LEVEL :: u32 where "TASK_APPLICATION_LEVEL \<equiv> 2"

datatype TaskStatus = CREATE | RUNNING | WAIT | DEATH | START | FUTEX | OUT | ZOMBIE

record arm_exc_frame =
  f_r :: "nat \<Rightarrow> u32"
  f_svc_lr :: u32
  f_ret :: u32
  f_spsr :: u32

record arm_task_ctx =
  c_r :: "nat \<Rightarrow> u32"
  c_sp :: u32
  c_lr :: u32
  c_pc :: u32
  c_cpsr :: u32

abbreviation (input) ARM_EXC_FRAME_BYTES :: u32 where "ARM_EXC_FRAME_BYTES \<equiv> 64"
abbreviation (input) ARM_CPSR_MODE_MASK :: u32 where "ARM_CPSR_MODE_MASK \<equiv> 0x1F"
abbreviation (input) ARM_MODE_SVC :: u32 where "ARM_MODE_SVC \<equiv> 0x13"
abbreviation (input) ARM_CPSR_F_BIT :: u32 where "ARM_CPSR_F_BIT \<equiv> 0x40"
abbreviation (input) ARM_CPSR_A_BIT :: u32 where "ARM_CPSR_A_BIT \<equiv> 0x100"
abbreviation (input) ARM_CPSR_KERNEL :: u32 where
  "ARM_CPSR_KERNEL \<equiv> ARM_MODE_SVC OR ARM_CPSR_A_BIT OR ARM_CPSR_F_BIT"
abbreviation (input) ARM_CPSR_MUST_MATCH :: u32 where
  "ARM_CPSR_MUST_MATCH \<equiv> ARM_CPSR_A_BIT OR ARM_CPSR_MODE_MASK"

definition arm_cpsr_must :: "u32 \<Rightarrow> u32" where
  "arm_cpsr_must cpsr = cpsr AND ARM_CPSR_MUST_MATCH"

definition arm_svc_immediate :: "u32 \<Rightarrow> u32" where
  "arm_svc_immediate insn = insn AND 0x00FFFFFF"

definition arm_exc_pc :: "arm_exc_frame \<Rightarrow> u32 \<Rightarrow> u32" where
  "arm_exc_pc f pc_fix = f_ret f - pc_fix"

definition arm_mode_text :: "u32 \<Rightarrow> string" where
  "arm_mode_text cpsr =
     (let m = cpsr AND ARM_CPSR_MODE_MASK
      in if m = 0x10 then ''User'' else if m = 0x11 then ''FIQ'' else if m = 0x12 then ''IRQ''
         else if m = 0x13 then ''Supervisor'' else if m = 0x17 then ''Abort''
         else if m = 0x1B then ''Undefined'' else if m = 0x1F then ''System'' else ''unknown'')"

record tcb =
  t_task_level :: u32
  t_tid :: u32
  t_name :: string
  t_status :: TaskStatus
  t_wakeup_time :: u64
  t_cpu_id :: u32
  t_ctx :: arm_task_ctx
  t_kernel_stack :: u32
  t_kstack_base :: u32
  t_kstack_guard :: u32
  t_kstack_slot :: u32
  t_owns_kstack :: bool
  t_sched_next :: tcb_t
  t_vruntime :: u64
  t_deadline :: u64
  t_slice :: u64
  t_last_start :: u64
  t_runtime_ticks :: u64

type_synonym tstore = "tcb_t \<Rightarrow> tcb"

definition upd :: "tcb_t \<Rightarrow> (tcb \<Rightarrow> tcb) \<Rightarrow> tstore \<Rightarrow> tstore" where
  "upd t f s = s(t := f (s t))"

lemma upd_same [simp]: "upd t f s t = f (s t)"
  by (simp add: upd_def)

lemma upd_other [simp]: "t \<noteq> u \<Longrightarrow> upd t f s u = s u"
  by (simp add: upd_def)

lemma upd_apply: "upd t f s u = (if u = t then f (s t) else s u)"
  by (simp add: upd_def)

end
