(* ===== verification/RunQueue.thy ===== *)
theory RunQueue
  imports Prelude
begin

text \<open>
  The contract of a run queue as its users see it: a state represents a finite sequence without
  duplicates that grows at the end and loses one element at a time.  The operations may
  diverge on a corrupt queue (result \<open>None\<close>); on one that represents a sequence they return.
\<close>

locale run_queue =
  fixes rep :: "'s \<Rightarrow> 'a list \<Rightarrow> bool"
    and ok :: "'a \<Rightarrow> bool"
    and append_op :: "'a \<Rightarrow> 's \<Rightarrow> (bool \<times> 's) option"
    and remove_op :: "'a \<Rightarrow> 's \<Rightarrow> 's option"
  assumes rep_distinct: "rep s xs \<Longrightarrow> distinct xs"
    and append_new: "rep s xs \<Longrightarrow> ok x \<Longrightarrow> x \<notin> set xs \<Longrightarrow>
      \<exists>s'. append_op x s = Some (True, s') \<and> rep s' (xs @ [x])"
    and append_old: "rep s xs \<Longrightarrow> ok x \<Longrightarrow> x \<in> set xs \<Longrightarrow> append_op x s = Some (False, s)"
    and remove_any: "rep s xs \<Longrightarrow> ok x \<Longrightarrow> \<exists>s'. remove_op x s = Some s' \<and> rep s' (remove1 x xs)"
begin

lemma append_returns:
  "rep s xs \<Longrightarrow> ok x \<Longrightarrow> \<exists>s'. append_op x s = Some (x \<notin> set xs, s')
     \<and> rep s' (if x \<in> set xs then xs else xs @ [x])"
  using append_new [of s xs x] append_old [of s xs x] by (cases "x \<in> set xs") auto

lemma append_remove:
  assumes "rep s xs" "ok x" "x \<notin> set xs"
  shows "\<exists>s1 s2. append_op x s = Some (True, s1) \<and> remove_op x s1 = Some s2 \<and> rep s2 xs"
proof -
  obtain s1 where s1: "append_op x s = Some (True, s1)" "rep s1 (xs @ [x])"
    using append_new [OF assms] by blast
  obtain s2 where "remove_op x s1 = Some s2" "rep s2 (remove1 x (xs @ [x]))"
    using remove_any [OF s1(2) assms(2)] by blast
  then show ?thesis using s1 assms(3) by (auto simp: remove1_append)
qed

text \<open>A history of queue operations always returns, and its effect is the one on sequences.\<close>

fun run :: "('a \<times> bool) list \<Rightarrow> 's \<Rightarrow> 's option" where
  "run [] s = Some s"
| "run ((x, add) # ops) s =
     (if add then (case append_op x s of None \<Rightarrow> None | Some (_, s') \<Rightarrow> run ops s')
      else (case remove_op x s of None \<Rightarrow> None | Some s' \<Rightarrow> run ops s'))"

fun on_list :: "('a \<times> bool) list \<Rightarrow> 'a list \<Rightarrow> 'a list" where
  "on_list [] xs = xs"
| "on_list ((x, add) # ops) xs =
     on_list ops (if add then (if x \<in> set xs then xs else xs @ [x]) else remove1 x xs)"

lemma run_on_list:
  "rep s xs \<Longrightarrow> \<forall>(x, _)\<in>set ops. ok x \<Longrightarrow> \<exists>s'. run ops s = Some s' \<and> rep s' (on_list ops xs)"
proof (induction ops arbitrary: s xs)
  case Nil
  then show ?case by simp
next
  case (Cons p ops)
  obtain x add where p: "p = (x, add)" by (cases p)
  have x: "ok x" and rest: "\<forall>(x, _)\<in>set ops. ok x" using Cons.prems(2) by (auto simp: p)
  show ?case
  proof (cases add)
    case True
    obtain s' where s': "append_op x s = Some (x \<notin> set xs, s')" "rep s' (if x \<in> set xs then xs else xs @ [x])"
      using append_returns [OF Cons.prems(1) x] by blast
    then show ?thesis using Cons.IH [OF s'(2) rest] True by (simp add: p)
  next
    case False
    obtain s' where s': "remove_op x s = Some s'" "rep s' (remove1 x xs)"
      using remove_any [OF Cons.prems(1) x] by blast
    then show ?thesis using Cons.IH [OF s'(2) rest] False by (simp add: p)
  qed
qed

end

end
