(* ===== verification/Sched.thy ===== *)
theory Sched
  imports Tcb RunQueue
begin

text \<open>
  The scheduling policy, \<open>arch/arm32/src/sched.c\<close>: EEVDF accounting on one task, the intrusive
  run queue threaded through \<open>sched_next\<close>, the selection of the next task, context and frame
  copies, and the choice of a CPU.  Times are 64-bit nanoseconds and wrap as in the code.
\<close>

section \<open>Constants\<close>

abbreviation (input) SCHED_TICK_NS :: u64 where "SCHED_TICK_NS \<equiv> 1000000"
abbreviation (input) SCHED_TIME_SLICE :: u64 where "SCHED_TIME_SLICE \<equiv> 4"
abbreviation (input) SCHED_BASE_SLICE_NS :: u64 where "SCHED_BASE_SLICE_NS \<equiv> 4000000"
abbreviation (input) SCHED_MIN_SLICE_NS :: u64 where "SCHED_MIN_SLICE_NS \<equiv> 1000000"
abbreviation (input) SCHED_WAKEUP_CREDIT :: u64 where "SCHED_WAKEUP_CREDIT \<equiv> 4000000"
abbreviation (input) SCHED_SLEEPER_CREDIT :: u64 where "SCHED_SLEEPER_CREDIT \<equiv> 8000000"
abbreviation (input) SCHED_DEFAULT_WEIGHT :: u64 where "SCHED_DEFAULT_WEIGHT \<equiv> 1024"

section \<open>One task\<close>

definition sched_slice :: "tstore \<Rightarrow> tcb_t \<Rightarrow> u64" where
  "sched_slice s t =
     (if t = NULL_TASK \<or> t_slice (s t) < SCHED_MIN_SLICE_NS then SCHED_BASE_SLICE_NS else t_slice (s t))"

definition sched_vruntime_delta :: "u64 \<Rightarrow> u64" where
  "sched_vruntime_delta runtime_ns = (runtime_ns * SCHED_DEFAULT_WEIGHT) div SCHED_DEFAULT_WEIGHT"

definition sched_deadline_before :: "tstore \<Rightarrow> tcb_t \<Rightarrow> tcb_t \<Rightarrow> bool" where
  "sched_deadline_before s left right =
     (if right = NULL_TASK then True
      else if left = NULL_TASK then False
      else if t_deadline (s left) \<noteq> t_deadline (s right) then t_deadline (s left) < t_deadline (s right)
      else t_vruntime (s left) < t_vruntime (s right))"

definition sched_account_run :: "tcb_t \<Rightarrow> u64 \<Rightarrow> tstore \<Rightarrow> tstore" where
  "sched_account_run t runtime_ns s =
     (if t = NULL_TASK \<or> t_task_level (s t) = TASK_IDLE_LEVEL then s
      else if t_status (s t) \<noteq> RUNNING then s
      else if runtime_ns = 0 then s
      else
        let s = upd t (\<lambda>x. x\<lparr>t_vruntime := t_vruntime x + sched_vruntime_delta runtime_ns\<rparr>) s
        in upd t (\<lambda>x. x\<lparr>t_deadline := t_vruntime x + sched_slice s t\<rparr>) s)"

definition sched_apply_wakeup_credit :: "tcb_t \<Rightarrow> u64 \<Rightarrow> tstore \<Rightarrow> tstore" where
  "sched_apply_wakeup_credit t base_vruntime s =
     (if t = NULL_TASK \<or> t_task_level (s t) = TASK_IDLE_LEVEL then s
      else
        let credit = sched_slice s t;
            credit = (if credit < SCHED_WAKEUP_CREDIT then SCHED_WAKEUP_CREDIT else credit);
            credit = (if SCHED_SLEEPER_CREDIT < credit then SCHED_SLEEPER_CREDIT else credit);
            placed = (if credit < base_vruntime then base_vruntime - credit else 0);
            s = (if placed < t_vruntime (s t) then upd t (\<lambda>x. x\<lparr>t_vruntime := placed\<rparr>) s else s)
        in upd t (\<lambda>x. x\<lparr>t_deadline := t_vruntime x + sched_slice s t\<rparr>) s)"

definition sched_wake_if_due :: "tcb_t \<Rightarrow> u64 \<Rightarrow> u64 \<Rightarrow> tstore \<Rightarrow> bool \<times> tstore" where
  "sched_wake_if_due t now base_vruntime s =
     (if t = NULL_TASK then (False, s)
      else if t_status (s t) = WAIT \<and> t_wakeup_time (s t) \<noteq> 0 \<and> t_wakeup_time (s t) \<le> now then
        (True, sched_apply_wakeup_credit t base_vruntime
                 (upd t (\<lambda>x. x\<lparr>t_wakeup_time := 0, t_status := START\<rparr>) s))
      else (False, s))"

definition sched_entity_init :: "tcb_t \<Rightarrow> u64 \<Rightarrow> u64 \<Rightarrow> tstore \<Rightarrow> tstore" where
  "sched_entity_init t base_vruntime now s =
     (if t = NULL_TASK then s
      else
        let slice = sched_slice s t;
            vr = (if SCHED_WAKEUP_CREDIT < base_vruntime then base_vruntime - SCHED_WAKEUP_CREDIT else 0)
        in upd t (\<lambda>x. x\<lparr>t_slice := slice, t_vruntime := vr, t_deadline := vr + slice,
                        t_last_start := now, t_runtime_ticks := 0, t_sched_next := NULL_TASK\<rparr>) s)"

definition sched_status_runnable :: "TaskStatus \<Rightarrow> bool" where
  "sched_status_runnable st \<longleftrightarrow> st = RUNNING \<or> st = START \<or> st = CREATE"

definition sched_task_schedulable :: "tstore \<Rightarrow> tcb_t \<Rightarrow> tcb_t \<Rightarrow> bool" where
  "sched_task_schedulable s t current =
     (if t = NULL_TASK then False
      else if t = current then False
      else if \<not> sched_status_runnable (t_status (s t)) then False
      else if t_task_level (s t) = TASK_IDLE_LEVEL then False
      else True)"

definition sched_current_runnable :: "tstore \<Rightarrow> tcb_t \<Rightarrow> bool" where
  "sched_current_runnable s t = (if t = NULL_TASK then False else sched_status_runnable (t_status (s t)))"

definition sched_mark_dispatched :: "tcb_t \<Rightarrow> u64 \<Rightarrow> tstore \<Rightarrow> tstore" where
  "sched_mark_dispatched t now s =
     (if t = NULL_TASK then s
      else
        let s = (if t_slice (s t) < SCHED_MIN_SLICE_NS
                 then upd t (\<lambda>x. x\<lparr>t_slice := SCHED_BASE_SLICE_NS\<rparr>) s else s);
            s = (if t_deadline (s t) = 0
                 then upd t (\<lambda>x. x\<lparr>t_deadline := t_vruntime x + sched_slice s t\<rparr>) s else s)
        in upd t (\<lambda>x. x\<lparr>t_last_start := now\<rparr>) s)"

section \<open>The run queue\<close>

record sched_queue_t =
  q_head :: tcb_t
  q_count :: u32

definition sched_queue_init :: sched_queue_t where
  "sched_queue_init = \<lparr>q_head = NULL_TASK, q_count = 0\<rparr>"

text \<open>
  A walk along the links: \<open>prev\<close> is the task whose link is looked at (0 for the head of the
  queue) and \<open>p\<close> what the link holds.  On a cyclic queue the walk does not return.
\<close>

partial_function (option) queue_find :: "tstore \<Rightarrow> tcb_t \<Rightarrow> tcb_t \<Rightarrow> tcb_t \<Rightarrow> (tcb_t \<times> tcb_t) option" where
  "queue_find s t prev p =
     (if p = NULL_TASK then Some (prev, NULL_TASK)
      else if p = t then Some (prev, p)
      else queue_find s t p (t_sched_next (s p)))"

text \<open>Storing through a link.\<close>

definition set_link :: "tcb_t \<Rightarrow> tcb_t \<Rightarrow> tstore \<times> sched_queue_t \<Rightarrow> tstore \<times> sched_queue_t" where
  "set_link prev v sq =
     (if prev = NULL_TASK then (fst sq, (snd sq)\<lparr>q_head := v\<rparr>)
      else (upd prev (\<lambda>x. x\<lparr>t_sched_next := v\<rparr>) (fst sq), snd sq))"

definition sched_queue_append ::
  "tcb_t \<Rightarrow> tstore \<times> sched_queue_t \<Rightarrow> (bool \<times> tstore \<times> sched_queue_t) option" where
  "sched_queue_append t sq =
     (if t = NULL_TASK then Some (False, sq)
      else
        (case queue_find (fst sq) t NULL_TASK (q_head (snd sq)) of
           None \<Rightarrow> None
         | Some (prev, p) \<Rightarrow>
             if p = t then Some (False, sq)
             else (case set_link prev t sq of
                     (s, q) \<Rightarrow> Some (True, upd t (\<lambda>x. x\<lparr>t_sched_next := NULL_TASK\<rparr>) s,
                                     q\<lparr>q_count := q_count q + 1\<rparr>))))"

definition sched_queue_remove :: "tcb_t \<Rightarrow> tstore \<times> sched_queue_t \<Rightarrow> (tstore \<times> sched_queue_t) option" where
  "sched_queue_remove t sq =
     (if t = NULL_TASK then Some sq
      else
        (case queue_find (fst sq) t NULL_TASK (q_head (snd sq)) of
           None \<Rightarrow> None
         | Some (prev, p) \<Rightarrow>
             if p = NULL_TASK then Some sq
             else (case set_link prev (t_sched_next (fst sq t)) sq of
                     (s, q) \<Rightarrow> Some (upd t (\<lambda>x. x\<lparr>t_sched_next := NULL_TASK\<rparr>) s,
                                     if 0 < q_count q then q\<lparr>q_count := q_count q - 1\<rparr> else q))))"

partial_function (option) avg_walk :: "tstore \<Rightarrow> tcb_t \<Rightarrow> tcb_t \<Rightarrow> u64 \<Rightarrow> u64 \<Rightarrow> (u64 \<times> u64) option" where
  "avg_walk s ignore p acc n =
     (if p = NULL_TASK then Some (acc, n)
      else if p = ignore then avg_walk s ignore (t_sched_next (s p)) acc n
      else avg_walk s ignore (t_sched_next (s p)) (acc + t_vruntime (s p)) (n + 1))"

definition sched_queue_avg_vruntime :: "tstore \<Rightarrow> sched_queue_t option \<Rightarrow> tcb_t \<Rightarrow> u64 \<Rightarrow> u64 option" where
  "sched_queue_avg_vruntime s Q ignore fallback =
     (case Q of
        None \<Rightarrow> Some fallback
      | Some q \<Rightarrow>
          (case avg_walk s ignore (q_head q) 0 0 of
             None \<Rightarrow> None
           | Some (acc, n) \<Rightarrow> Some (if n = 0 then fallback else acc div n)))"

section \<open>Selection\<close>

text \<open>
  The scan of one queue element: wake it when it is due, remember an idle task, count the
  runnable ones and keep the earliest deadline.  \<open>wake_skip\<close> is the diagnostic switch
  \<open>g_wake_skip\<close>.
\<close>

record scan_acc =
  a_sum :: u64
  a_count :: u64
  a_fallback :: tcb_t
  a_idle :: tcb_t

definition scan_one :: "u32 \<Rightarrow> tcb_t \<Rightarrow> u64 \<Rightarrow> tcb_t \<Rightarrow> tstore \<times> scan_acc \<Rightarrow> tstore \<times> scan_acc" where
  "scan_one wake_skip current now candidate sa =
     (let s = fst sa; a = snd sa;
          wake_base = (if current \<noteq> NULL_TASK then t_vruntime (s current) else t_vruntime (s candidate));
          s = (if wake_skip = 0 then snd (sched_wake_if_due candidate now wake_base s) else s);
          a = (if candidate \<noteq> current \<and> t_task_level (s candidate) = TASK_IDLE_LEVEL
               then a\<lparr>a_idle := candidate\<rparr> else a)
      in if candidate = current then
           (s, if sched_current_runnable s candidate
               then a\<lparr>a_sum := a_sum a + t_vruntime (s candidate), a_count := a_count a + 1\<rparr> else a)
         else if sched_task_schedulable s candidate current then
           let a = a\<lparr>a_sum := a_sum a + t_vruntime (s candidate), a_count := a_count a + 1\<rparr>
           in (s, if sched_deadline_before s candidate (a_fallback a) then a\<lparr>a_fallback := candidate\<rparr> else a)
         else (s, a))"

partial_function (option) scan_walk ::
  "u32 \<Rightarrow> tcb_t \<Rightarrow> u64 \<Rightarrow> tcb_t \<Rightarrow> tstore \<times> scan_acc \<Rightarrow> (tstore \<times> scan_acc) option" where
  "scan_walk wake_skip current now p sa =
     (if p = NULL_TASK then Some sa
      else (case scan_one wake_skip current now p sa of
              (s, a) \<Rightarrow> scan_walk wake_skip current now (t_sched_next (s p)) (s, a)))"

text \<open>The result: average virtual runtime, fallback, idle task, and the store with the wake-ups.\<close>

definition sched_queue_scan ::
  "u32 \<Rightarrow> sched_queue_t option \<Rightarrow> tcb_t \<Rightarrow> u64 \<Rightarrow> tstore \<Rightarrow> ((u64 \<times> tcb_t \<times> tcb_t) \<times> tstore) option" where
  "sched_queue_scan wake_skip Q current now s =
     (case Q of
        None \<Rightarrow> Some ((0, NULL_TASK, NULL_TASK), s)
      | Some q \<Rightarrow>
          (case scan_walk wake_skip current now (q_head q)
                  (s, \<lparr>a_sum = 0, a_count = 0, a_fallback = NULL_TASK, a_idle = NULL_TASK\<rparr>) of
             None \<Rightarrow> None
           | Some (s, a) \<Rightarrow>
               Some ((if a_count a = 0 then 0 else a_sum a div a_count a, a_fallback a, a_idle a), s)))"

partial_function (option) best_walk :: "tstore \<Rightarrow> tcb_t \<Rightarrow> u64 \<Rightarrow> tcb_t \<Rightarrow> tcb_t \<Rightarrow> tcb_t option" where
  "best_walk s current avg p best =
     (if p = NULL_TASK then Some best
      else best_walk s current avg (t_sched_next (s p))
             (if sched_task_schedulable s p current \<and> t_vruntime (s p) \<le> avg \<and> sched_deadline_before s p best
              then p else best))"

text \<open>
  \<open>sched_select_next\<close> with the diagnostic switches as arguments: the new value of
  \<open>g_pick_sticky\<close> is returned beside the task and the store.
\<close>

definition sched_select_next ::
  "u32 \<Rightarrow> u32 \<Rightarrow> sched_queue_t option \<Rightarrow> tcb_t \<Rightarrow> u64 \<Rightarrow> tstore \<Rightarrow> (tcb_t \<times> u32 \<times> tstore) option" where
  "sched_select_next wake_skip sticky Q current now s =
     (case Q of
        None \<Rightarrow> Some (if current \<noteq> NULL_TASK \<and> (t_status (s current) = RUNNING \<or> t_status (s current) = START)
                      then current else NULL_TASK, sticky, s)
      | Some q \<Rightarrow>
          if q_head q = NULL_TASK then
            Some (if current \<noteq> NULL_TASK \<and> (t_status (s current) = RUNNING \<or> t_status (s current) = START)
                  then current else NULL_TASK, sticky, s)
          else
            let s = snd (sched_wake_if_due current now (if current \<noteq> NULL_TASK then t_vruntime (s current) else 0) s)
            in (case sched_queue_scan wake_skip Q current now s of
                  None \<Rightarrow> None
                | Some ((avg, fallback, idle), s) \<Rightarrow>
                    if sticky \<noteq> 0 \<and> current \<noteq> NULL_TASK \<and> t_task_level (s current) \<noteq> TASK_IDLE_LEVEL
                       \<and> sched_current_runnable s current
                    then Some (current, sticky - 1, sched_mark_dispatched current now s)
                    else
                      (case (if fallback \<noteq> NULL_TASK \<and> t_vruntime (s fallback) \<le> avg then Some fallback
                             else if fallback \<noteq> NULL_TASK
                             then best_walk s current avg (q_head q) NULL_TASK
                             else Some NULL_TASK) of
                         None \<Rightarrow> None
                       | Some best \<Rightarrow>
                           let best = (if best = NULL_TASK then fallback else best);
                               result = (if best \<noteq> NULL_TASK then best
                                         else if sched_current_runnable s current then current else idle)
                           in Some (result, sticky, sched_mark_dispatched result now s))))"

section \<open>Contexts and frames\<close>

definition sched_cpsr_matches_kernel :: "u32 \<Rightarrow> bool" where
  "sched_cpsr_matches_kernel cpsr \<longleftrightarrow> arm_cpsr_must cpsr = arm_cpsr_must ARM_CPSR_KERNEL"

definition sched_ctx_switchable :: "tstore \<Rightarrow> tcb_t \<Rightarrow> bool" where
  "sched_ctx_switchable s t =
     (if t = NULL_TASK then False
      else if c_pc (t_ctx (s t)) = 0 then False
      else if arm_cpsr_must (c_cpsr (t_ctx (s t))) \<noteq> arm_cpsr_must ARM_CPSR_KERNEL then False
      else
        let sp = c_sp (t_ctx (s t))
        in if sp = 0 \<or> sp AND 3 \<noteq> 0 then False
           else if \<not> t_owns_kstack (s t) then True
           else if sp \<le> t_kstack_base (s t) \<or> t_kernel_stack (s t) < sp then False
           else if sp - ARM_EXC_FRAME_BYTES < t_kstack_base (s t) then False
           else True)"

text \<open>A frame pointer is an address; the frame behind it is a value.\<close>

definition sched_ctx_from_frame :: "tcb_t \<Rightarrow> (u32 \<times> arm_exc_frame) option \<Rightarrow> tstore \<Rightarrow> tstore" where
  "sched_ctx_from_frame t F s =
     (case F of
        None \<Rightarrow> s
      | Some (addr, f) \<Rightarrow>
          if t = NULL_TASK then s
          else upd t (\<lambda>x. x\<lparr>t_ctx :=
                  \<lparr>c_r = fold (\<lambda>i r. r(i := f_r f i)) [0..<13] (c_r (t_ctx x)),
                   c_sp = addr + ARM_EXC_FRAME_BYTES, c_lr = f_svc_lr f, c_pc = f_ret f,
                   c_cpsr = f_spsr f\<rparr>\<rparr>) s)"

definition sched_frame_for :: "tstore \<Rightarrow> tcb_t \<Rightarrow> u32 option" where
  "sched_frame_for s t =
     (if \<not> sched_ctx_switchable s t then None else Some (c_sp (t_ctx (s t)) - ARM_EXC_FRAME_BYTES))"

definition sched_frame_from_ctx :: "tstore \<Rightarrow> tcb_t \<Rightarrow> arm_exc_frame option \<Rightarrow> arm_exc_frame option" where
  "sched_frame_from_ctx s t dst =
     (case dst of
        None \<Rightarrow> None
      | Some d \<Rightarrow>
          if t = NULL_TASK then None
          else Some \<lparr>f_r = fold (\<lambda>i r. r(i := c_r (t_ctx (s t)) i)) [0..<13] (f_r d),
                     f_svc_lr = c_lr (t_ctx (s t)), f_ret = c_pc (t_ctx (s t)),
                     f_spsr = c_cpsr (t_ctx (s t))\<rparr>)"

section \<open>Choosing a CPU\<close>

definition sched_pick_cpu ::
  "u32 \<Rightarrow> (nat \<Rightarrow> u32) option \<Rightarrow> (nat \<Rightarrow> u32) option \<Rightarrow> u32 \<Rightarrow> nat" where
  "sched_pick_cpu task_level queue_len ready cpu_num =
     (case (queue_len, ready) of
        (Some len, Some rdy) \<Rightarrow>
          if cpu_num = 0 then 0
          else if rdy 0 = 0 then 0
          else if task_level = TASK_APPLICATION_LEVEL then 0
          else fold (\<lambda>i best. if rdy i = 0 then best else if len i < len best then i else best)
                 [1..<unat cpu_num] 0
      | _ \<Rightarrow> 0)"

section \<open>Queues as sequences\<close>

fun chain :: "tstore \<Rightarrow> tcb_t \<Rightarrow> tcb_t list \<Rightarrow> bool" where
  "chain s p [] \<longleftrightarrow> p = NULL_TASK"
| "chain s p (x # xs) \<longleftrightarrow> p = x \<and> x \<noteq> NULL_TASK \<and> chain s (t_sched_next (s x)) xs"

definition queue_rep :: "tstore \<times> sched_queue_t \<Rightarrow> tcb_t list \<Rightarrow> bool" where
  "queue_rep sq xs \<longleftrightarrow> chain (fst sq) (q_head (snd sq)) xs \<and> distinct xs \<and> unat (q_count (snd sq)) = length xs"

lemma chain_nonnull: "chain s p xs \<Longrightarrow> NULL_TASK \<notin> set xs"
  by (induction xs arbitrary: p) auto

lemma chain_cong: "(\<And>x. x \<in> set xs \<Longrightarrow> t_sched_next (s' x) = t_sched_next (s x)) \<Longrightarrow> chain s' p xs = chain s p xs"
  by (induction xs arbitrary: p) auto

text \<open>Where the walk stops: at the task, with its predecessor, or at the end.\<close>

definition before :: "tcb_t list \<Rightarrow> tcb_t \<Rightarrow> tcb_t \<Rightarrow> tcb_t" where
  "before xs prev t = last (prev # takeWhile (\<lambda>x. x \<noteq> t) xs)"

lemma queue_find_chain:
  assumes "chain s p xs" "t \<noteq> NULL_TASK"
  shows "queue_find s t prev p = Some (before xs prev t, if t \<in> set xs then t else NULL_TASK)"
  using assms
proof (induction xs arbitrary: p prev)
  case Nil
  then show ?case by (subst queue_find.simps) (simp add: before_def)
next
  case (Cons x xs)
  then show ?case by (subst queue_find.simps) (auto simp: before_def)
qed

lemma nonnull_length:
  assumes "distinct xs" "NULL_TASK \<notin> set xs"
  shows "length xs < 2 ^ 32"
proof -
  have "set xs \<subset> (UNIV :: tcb_t set)" using assms(2) by auto
  then have "card (set xs) < card (UNIV :: tcb_t set)" by (intro psubset_card_mono) simp
  then show ?thesis using distinct_card [OF assms(1)] by (simp add: card_word)
qed

lemma chain_append:
  assumes "chain s p xs" "distinct xs" "t \<notin> set xs" "t \<noteq> NULL_TASK" "xs \<noteq> []"
  shows "chain (upd t (\<lambda>x. x\<lparr>t_sched_next := NULL_TASK\<rparr>) (upd (last xs) (\<lambda>x. x\<lparr>t_sched_next := t\<rparr>) s)) p (xs @ [t])"
  using assms
proof (induction xs arbitrary: p)
  case Nil
  then show ?case by simp
next
  case (Cons x xs)
  show ?case
  proof (cases "xs = []")
    case True
    then show ?thesis using Cons.prems by (auto simp: upd_apply)
  next
    case False
    then have "x \<noteq> last xs" using Cons.prems(2) last_in_set by fastforce
    then show ?thesis using Cons False by (auto simp: upd_apply)
  qed
qed

lemma before_absent: "t \<notin> set xs \<Longrightarrow> before xs prev t = last (prev # xs)"
proof -
  assume "t \<notin> set xs"
  then have "takeWhile (\<lambda>x. x \<noteq> t) xs = xs" by (subst takeWhile_eq_all_conv) auto
  then show ?thesis by (simp only: before_def)
qed

lemma chain_remove:
  assumes "chain s p xs" "distinct xs" "t \<in> set xs" "p \<noteq> t"
  shows "chain (upd t (\<lambda>x. x\<lparr>t_sched_next := NULL_TASK\<rparr>)
      (upd (before xs prev t) (\<lambda>x. x\<lparr>t_sched_next := t_sched_next (s t)\<rparr>) s)) p (remove1 t xs)"
  using assms
proof (induction xs arbitrary: p prev)
  case Nil
  then show ?case by simp
next
  case (Cons x xs)
  have x: "p = x" "x \<noteq> NULL_TASK" "x \<noteq> t" and t: "t \<in> set xs" using Cons.prems by auto
  have b: "before (x # xs) prev t = before xs x t" using x by (simp add: before_def)
  show ?case
  proof (cases "t_sched_next (s x) = t")
    case True
    then obtain ys where ys: "xs = t # ys" using Cons.prems(1) t by (cases xs) auto
    then have bx: "before xs x t = x" by (simp add: before_def)
    let ?s = "upd t (\<lambda>x. x\<lparr>t_sched_next := NULL_TASK\<rparr>) (upd x (\<lambda>x. x\<lparr>t_sched_next := t_sched_next (s t)\<rparr>) s)"
    have "t \<notin> set ys" "x \<notin> set ys" using Cons.prems(2) ys by auto
    then have "chain ?s (t_sched_next (s t)) ys = chain s (t_sched_next (s t)) ys"
      by (intro chain_cong) (auto simp: upd_apply)
    moreover have "chain s (t_sched_next (s t)) ys" using Cons.prems(1) ys by simp
    ultimately show ?thesis unfolding b bx using x ys by simp
  next
    case False
    have "x \<noteq> before xs x t"
    proof -
      obtain y ys where y: "xs = y # ys" using t by (cases xs) auto
      then have "y \<noteq> t" using False Cons.prems(1) by auto
      then have "before xs x t \<in> set xs" using y
        by (auto simp: before_def dest: set_takeWhileD last_in_set)
      then show ?thesis using Cons.prems(2) by auto
    qed
    moreover have "chain (upd t (\<lambda>x. x\<lparr>t_sched_next := NULL_TASK\<rparr>)
        (upd (before xs x t) (\<lambda>x. x\<lparr>t_sched_next := t_sched_next (s t)\<rparr>) s)) (t_sched_next (s x)) (remove1 t xs)"
      using Cons False t by simp
    ultimately show ?thesis unfolding b using x by simp
  qed
qed


text \<open>What the queue operations may change of a task: its link.\<close>

definition same_but_link :: "tstore \<Rightarrow> tstore \<Rightarrow> bool" where
  "same_but_link s s' \<longleftrightarrow> (\<forall>x. (s' x)\<lparr>t_sched_next := NULL_TASK\<rparr> = (s x)\<lparr>t_sched_next := NULL_TASK\<rparr>)"

lemma append_new_rep:
  assumes "queue_rep sq xs" "t \<noteq> NULL_TASK" "t \<notin> set xs"
  shows "\<exists>sq'. sched_queue_append t sq = Some (True, sq') \<and> queue_rep sq' (xs @ [t])
    \<and> same_but_link (fst sq) (fst sq')"
proof -
  obtain s q where sq: "sq = (s, q)" by (cases sq)
  have c: "chain s (q_head q) xs" and d: "distinct xs" and n: "unat (q_count q) = length xs"
    using assms(1) by (simp_all add: queue_rep_def sq)
  have f: "queue_find s t NULL_TASK (q_head q) = Some (last (NULL_TASK # xs), NULL_TASK)"
    using queue_find_chain [OF c assms(2)] assms(3) by (simp add: before_absent)
  have "length (xs @ [t]) < 2 ^ 32" using d assms(2,3) chain_nonnull [OF c] by (intro nonnull_length) auto
  then have n': "unat (q_count q + 1) = Suc (length xs)" using n by (simp add: unat_add_small)
  show ?thesis
  proof (cases "xs = []")
    case True
    then show ?thesis using f n' assms(2) c
      by (auto simp: sched_queue_append_def sq set_link_def queue_rep_def same_but_link_def upd_apply)
  next
    case False
    then have "last xs \<noteq> NULL_TASK" using chain_nonnull [OF c] last_in_set by metis
    then show ?thesis using f n' assms(2,3) d False chain_append [OF c d assms(3,2) False]
      by (auto simp: sched_queue_append_def sq set_link_def queue_rep_def same_but_link_def upd_apply
          [unfolded fun_eq_iff] upd_def)
  qed
qed

lemma append_old_rep:
  assumes "queue_rep sq xs" "t \<noteq> NULL_TASK" "t \<in> set xs"
  shows "sched_queue_append t sq = Some (False, sq)"
  using queue_find_chain [of "fst sq" "q_head (snd sq)" xs t NULL_TASK] assms
  by (simp add: sched_queue_append_def queue_rep_def)

lemma remove_rep:
  assumes "queue_rep sq xs" "t \<noteq> NULL_TASK"
  shows "\<exists>sq'. sched_queue_remove t sq = Some sq' \<and> queue_rep sq' (remove1 t xs) \<and> same_but_link (fst sq) (fst sq')"
proof -
  obtain s q where sq: "sq = (s, q)" by (cases sq)
  have c: "chain s (q_head q) xs" and d: "distinct xs" and n: "unat (q_count q) = length xs"
    using assms(1) by (simp_all add: queue_rep_def sq)
  note f = queue_find_chain [OF c assms(2), of NULL_TASK]
  show ?thesis
  proof (cases "t \<in> set xs")
    case False
    then show ?thesis using assms(1) f by (simp add: sched_queue_remove_def sq remove1_idem same_but_link_def)
  next
    case True
    then have "0 < length xs" by (cases xs) auto
    then have pos: "0 < q_count q" using n by (simp add: word_lt_unat)
    have n': "unat (q_count q - 1) = length xs - 1"
      using unat_sub_le [of 1 "q_count q"] n \<open>0 < length xs\<close> by simp
    let ?q = "q\<lparr>q_count := q_count q - 1\<rparr>"
    show ?thesis
    proof (cases "q_head q = t")
      case hd: True
      then obtain ys where ys: "xs = t # ys" using c True by (cases xs) auto
      have "chain (upd t (\<lambda>x. x\<lparr>t_sched_next := NULL_TASK\<rparr>) s) (t_sched_next (s t)) ys
          = chain s (t_sched_next (s t)) ys"
        by (rule chain_cong) (use d ys in \<open>auto simp: upd_apply\<close>)
      then have "chain (upd t (\<lambda>x. x\<lparr>t_sched_next := NULL_TASK\<rparr>) s) (t_sched_next (s t)) ys"
        using c ys by simp
      then show ?thesis using f n' pos d assms(2) ys
        by (auto simp: sched_queue_remove_def sq set_link_def queue_rep_def same_but_link_def upd_apply before_def)
    next
      case nhd: False
      have "before xs NULL_TASK t \<noteq> NULL_TASK"
      proof -
        obtain y ys where y: "xs = y # ys" using True by (cases xs) auto
        then have "y \<noteq> t" using nhd c by auto
        then have "before xs NULL_TASK t \<in> set xs" using y
          by (auto simp: before_def dest: set_takeWhileD last_in_set)
        then show ?thesis using chain_nonnull [OF c] by metis
      qed
      moreover have "length (remove1 t xs) = length xs - 1" using True by (simp add: length_remove1)
      ultimately show ?thesis using f n' pos d assms(2) True chain_remove [OF c d True nhd, of NULL_TASK]
        by (auto simp: sched_queue_remove_def sq set_link_def queue_rep_def same_but_link_def upd_apply upd_def)
    qed
  qed
qed

interpretation rq: run_queue queue_rep "\<lambda>t. t \<noteq> NULL_TASK" sched_queue_append sched_queue_remove
proof
  show "distinct xs" if "queue_rep s xs" for s xs using that by (simp add: queue_rep_def)
  show "\<exists>s'. sched_queue_append x s = Some (True, s') \<and> queue_rep s' (xs @ [x])"
    if "queue_rep s xs" "x \<noteq> NULL_TASK" "x \<notin> set xs" for s xs x
    using append_new_rep [OF that] by blast
  show "sched_queue_append x s = Some (False, s)"
    if "queue_rep s xs" "x \<noteq> NULL_TASK" "x \<in> set xs" for s xs x
    using append_old_rep [OF that] .
  show "\<exists>s'. sched_queue_remove x s = Some s' \<and> queue_rep s' (remove1 x xs)"
    if "queue_rep s xs" "x \<noteq> NULL_TASK" for s xs x
    using remove_rep [OF that] by blast
qed

lemma queue_init_rep: "queue_rep (s, sched_queue_init) []"
  by (simp add: queue_rep_def sched_queue_init_def)

section \<open>The scan on sequences\<close>

lemma credit_other: "x \<noteq> t \<Longrightarrow> sched_apply_wakeup_credit t b s x = s x"
  by (simp add: sched_apply_wakeup_credit_def Let_def upd_apply)

lemma credit_link: "t_sched_next (sched_apply_wakeup_credit t b s x) = t_sched_next (s x)"
  and credit_level: "t_task_level (sched_apply_wakeup_credit t b s x) = t_task_level (s x)"
  and credit_status: "t_status (sched_apply_wakeup_credit t b s x) = t_status (s x)"
  by (simp_all add: sched_apply_wakeup_credit_def Let_def upd_apply)

lemma wake_other: "x \<noteq> t \<Longrightarrow> snd (sched_wake_if_due t now b s) x = s x"
  by (simp add: sched_wake_if_due_def credit_other upd_apply)

lemma wake_link: "t_sched_next (snd (sched_wake_if_due t now b s) x) = t_sched_next (s x)"
  and wake_level: "t_task_level (snd (sched_wake_if_due t now b s) x) = t_task_level (s x)"
  by (simp_all add: sched_wake_if_due_def credit_link credit_level upd_apply)

lemma scan_one_other: "x \<noteq> c \<Longrightarrow> fst (scan_one ws cur now c sa) x = fst sa x"
  by (simp add: scan_one_def Let_def wake_other)

lemma scan_one_link: "t_sched_next (fst (scan_one ws cur now c sa) x) = t_sched_next (fst sa x)"
  and scan_one_level: "t_task_level (fst (scan_one ws cur now c sa) x) = t_task_level (fst sa x)"
  by (simp_all add: scan_one_def Let_def wake_link wake_level)

lemma fold_scan_link: "t_sched_next (fst (fold (scan_one ws cur now) xs sa) x) = t_sched_next (fst sa x)"
  and fold_scan_level: "t_task_level (fst (fold (scan_one ws cur now) xs sa) x) = t_task_level (fst sa x)"
  by (induction xs arbitrary: sa) (simp_all add: scan_one_link scan_one_level)

lemma scan_walk_chain:
  "chain (fst sa) p xs \<Longrightarrow> scan_walk ws cur now p sa = Some (fold (scan_one ws cur now) xs sa)"
proof (induction xs arbitrary: p sa)
  case Nil
  then show ?case by (subst scan_walk.simps) simp
next
  case (Cons x xs)
  obtain s' a' where 1: "scan_one ws cur now x sa = (s', a')" by fastforce
  have l: "t_sched_next (s' y) = t_sched_next (fst sa y)" for y
    using scan_one_link [of ws cur now x sa y] 1 by simp
  have "chain s' (t_sched_next (s' x)) xs"
    using Cons.prems chain_cong [of xs s' "fst sa"] l by simp
  then show ?case using Cons.IH [of "(s', a')"] Cons.prems 1 by (subst scan_walk.simps) simp
qed

lemma best_walk_chain:
  "chain s p xs \<Longrightarrow> best_walk s cur avg p b =
    Some (fold (\<lambda>c b. if sched_task_schedulable s c cur \<and> t_vruntime (s c) \<le> avg \<and> sched_deadline_before s c b
                      then c else b) xs b)"
proof (induction xs arbitrary: p b)
  case Nil
  then show ?case by (subst best_walk.simps) simp
next
  case (Cons x xs)
  then show ?case by (subst best_walk.simps) simp
qed

section \<open>Earliest deadline\<close>

text \<open>\<open>earliest s P b\<close>: \<open>b\<close> is 0 when nothing satisfies \<open>P\<close>, else one that no other one precedes.\<close>

definition earliest :: "tstore \<Rightarrow> tcb_t set \<Rightarrow> tcb_t \<Rightarrow> bool" where
  "earliest s C b \<longleftrightarrow> (if b = NULL_TASK then C = {} else b \<in> C \<and> (\<forall>x\<in>C. \<not> sched_deadline_before s x b))"

lemma before_trans:
  assumes "sched_deadline_before s c b" "\<not> sched_deadline_before s x b" "b \<noteq> NULL_TASK" "c \<noteq> NULL_TASK"
  shows "\<not> sched_deadline_before s x c"
  using assms by (cases "x = NULL_TASK") (auto simp: sched_deadline_before_def split: if_splits)

lemma before_irrefl: "c \<noteq> NULL_TASK \<Longrightarrow> \<not> sched_deadline_before s c c"
  by (simp add: sched_deadline_before_def)

lemma earliest_insert:
  assumes "earliest s C b" "c \<noteq> NULL_TASK"
  shows "earliest s (insert c C) (if sched_deadline_before s c b then c else b)"
proof (cases "b = NULL_TASK")
  case True
  then show ?thesis using assms before_irrefl [OF assms(2)] by (simp add: earliest_def sched_deadline_before_def)
next
  case False
  then show ?thesis using assms before_irrefl [OF assms(2)] before_trans [OF _ _ False assms(2)]
    by (auto simp: earliest_def)
qed

lemma earliest_cong:
  assumes "earliest s C b" "\<And>x. x \<in> C \<Longrightarrow> t_deadline (s' x) = t_deadline (s x) \<and> t_vruntime (s' x) = t_vruntime (s x)"
  shows "earliest s' C b"
  using assms by (auto simp: earliest_def sched_deadline_before_def split: if_splits)

lemma schedulable_nonnull: "sched_task_schedulable s x cur \<Longrightarrow> x \<noteq> NULL_TASK \<and> x \<noteq> cur"
  by (simp add: sched_task_schedulable_def split: if_splits)

definition candidates :: "tstore \<Rightarrow> tcb_t \<Rightarrow> tcb_t list \<Rightarrow> tcb_t set" where
  "candidates s cur xs = {x \<in> set xs. sched_task_schedulable s x cur}"

text \<open>What the scan has found after a prefix of the queue.\<close>

lemma scan_prefix:
  assumes "distinct xs" "NULL_TASK \<notin> set xs" "a_fallback a = NULL_TASK" "a_idle a = NULL_TASK"
  shows "case fold (scan_one ws cur now) xs (s, a) of (s', a') \<Rightarrow>
    earliest s' (candidates s' cur xs) (a_fallback a') \<and>
    (a_idle a' \<noteq> NULL_TASK \<longrightarrow> a_idle a' \<in> set xs \<and> a_idle a' \<noteq> cur \<and> t_task_level (s (a_idle a')) = TASK_IDLE_LEVEL) \<and>
    ((\<exists>x\<in>set xs. x \<noteq> cur \<and> t_task_level (s x) = TASK_IDLE_LEVEL) \<longrightarrow> a_idle a' \<noteq> NULL_TASK) \<and>
    (\<forall>x. x \<notin> set xs \<longrightarrow> s' x = s x)"
  using assms
proof (induction xs rule: rev_induct)
  case Nil
  then show ?case by (simp add: earliest_def candidates_def)
next
  case (snoc c xs)
  obtain s1 a1 where 1: "fold (scan_one ws cur now) xs (s, a) = (s1, a1)" by fastforce
  have IH: "earliest s1 (candidates s1 cur xs) (a_fallback a1)"
    "a_idle a1 \<noteq> NULL_TASK \<longrightarrow> a_idle a1 \<in> set xs \<and> a_idle a1 \<noteq> cur \<and> t_task_level (s (a_idle a1)) = TASK_IDLE_LEVEL"
    "(\<exists>x\<in>set xs. x \<noteq> cur \<and> t_task_level (s x) = TASK_IDLE_LEVEL) \<longrightarrow> a_idle a1 \<noteq> NULL_TASK"
    "\<forall>x. x \<notin> set xs \<longrightarrow> s1 x = s x"
    using snoc by (auto simp: 1)
  have c: "c \<noteq> NULL_TASK" "c \<notin> set xs" using snoc.prems by auto
  obtain s2 a2 where 2: "scan_one ws cur now c (s1, a1) = (s2, a2)" by fastforce
  have o: "s2 x = s1 x" if "x \<noteq> c" for x using scan_one_other [OF that, of ws cur now "(s1, a1)"] 2 by simp
  have lv: "t_task_level (s2 c) = t_task_level (s c)"
    using scan_one_level [of ws cur now c "(s1, a1)" c] 2 IH(4) c(2) by simp
  have cand: "candidates s2 cur xs = candidates s1 cur xs"
  proof -
    have "s2 x = s1 x" if "x \<in> set xs" for x using that o c(2) by metis
    then show ?thesis unfolding candidates_def by (auto simp: sched_task_schedulable_def)
  qed
  have E: "earliest s2 (candidates s2 cur xs) (a_fallback a1)"
    unfolding cand
  proof (rule earliest_cong [OF IH(1)])
    fix x assume "x \<in> candidates s1 cur xs"
    then have "x \<noteq> c" using c(2) by (auto simp: candidates_def)
    then show "t_deadline (s2 x) = t_deadline (s1 x) \<and> t_vruntime (s2 x) = t_vruntime (s1 x)"
      using o by simp
  qed
  have s2: "s2 = (if ws = 0 then snd (sched_wake_if_due c now (if cur \<noteq> NULL_TASK then t_vruntime (s1 cur) else t_vruntime (s1 c)) s1) else s1)"
    using 2 by (auto simp: scan_one_def Let_def split: if_splits)
  have fb: "a_fallback a2 = (if c \<noteq> cur \<and> sched_task_schedulable s2 c cur \<and> sched_deadline_before s2 c (a_fallback a1)
      then c else a_fallback a1)"
    and idle: "a_idle a2 = (if c \<noteq> cur \<and> t_task_level (s2 c) = TASK_IDLE_LEVEL then c else a_idle a1)"
    using 2 unfolding s2 by (auto simp: scan_one_def Let_def split: if_splits)
  have ins: "candidates s2 cur (xs @ [c]) =
      (if sched_task_schedulable s2 c cur then insert c (candidates s2 cur xs) else candidates s2 cur xs)"
    by (auto simp: candidates_def)
  have "earliest s2 (candidates s2 cur (xs @ [c])) (a_fallback a2)"
    unfolding ins fb using earliest_insert [OF E c(1)] E schedulable_nonnull [of s2 c cur] by auto
  then show ?case using IH(2-4) o c lv idle by (auto simp: 1 2)
qed

lemma fold_best:
  assumes "\<And>c. c \<in> set xs \<Longrightarrow> P c \<Longrightarrow> c \<noteq> NULL_TASK" and "earliest s C b"
  shows "earliest s ({c \<in> set xs. P c} \<union> C) (fold (\<lambda>c b. if P c \<and> sched_deadline_before s c b then c else b) xs b)"
  using assms
proof (induction xs arbitrary: C b)
  case Nil
  then show ?case by simp
next
  case (Cons x xs)
  show ?case
  proof (cases "P x")
    case True
    have "{c \<in> set (x # xs). P c} \<union> C = {c \<in> set xs. P c} \<union> insert x C" using True by auto
    then show ?thesis using Cons.IH [of "insert x C" "if sched_deadline_before s x b then x else b"]
        earliest_insert [OF Cons.prems(2), of x] Cons.prems(1) True by simp
  next
    case False
    have "{c \<in> set (x # xs). P c} \<union> C = {c \<in> set xs. P c} \<union> C" using False by auto
    then show ?thesis using Cons False by simp
  qed
qed


section \<open>Properties\<close>

text \<open>
  C8. The intrusive queue implements a sequence: from any well-formed queue every history of
  appends and removals of non-NULL tasks returns, and the queue then represents the sequence
  that the same history gives on lists, without duplicates and with an exact count.
\<close>

theorem sched_queue_refines_list:
  assumes "queue_rep sq xs" and "\<forall>(t, _)\<in>set ops. t \<noteq> NULL_TASK"
  shows "\<exists>sq'. rq.run ops sq = Some sq' \<and> queue_rep sq' (rq.on_list ops xs) \<and>
    distinct (rq.on_list ops xs) \<and> unat (q_count (snd sq')) = length (rq.on_list ops xs)"
  using rq.run_on_list [OF assms] by (auto simp: queue_rep_def)

lemma sched_queue_refines_list_witness:
  "\<forall>s. \<exists>sq'. rq.run [(8, True), (16, True), (8, True), (8, False)] (s, sched_queue_init) = Some sq'
     \<and> queue_rep sq' [16]"
proof
  fix s
  have "rq.on_list [(8, True), (16, True), (8, True), (8, False)] [] = [16]" by simp
  then show "\<exists>sq'. rq.run [(8, True), (16, True), (8, True), (8, False)] (s, sched_queue_init) = Some sq'
     \<and> queue_rep sq' [16]"
    using sched_queue_refines_list [OF queue_init_rep, of "[(8, True), (16, True), (8, True), (8, False)]" s]
    by (auto simp del: rq.run.simps rq.on_list.simps)
qed

text \<open>
  Appending a task that is not queued succeeds and puts it last, appending a queued one
  is refused, removal takes exactly that task out; no operation changes anything of any task
  but its link.
\<close>

theorem sched_queue_ops_effect:
  assumes "queue_rep sq xs" and "t \<noteq> NULL_TASK"
  shows "(t \<notin> set xs \<longrightarrow> (\<exists>sq'. sched_queue_append t sq = Some (True, sq') \<and> queue_rep sq' (xs @ [t])
            \<and> same_but_link (fst sq) (fst sq'))) \<and>
    (t \<in> set xs \<longrightarrow> sched_queue_append t sq = Some (False, sq)) \<and>
    (\<exists>sq'. sched_queue_remove t sq = Some sq' \<and> queue_rep sq' (remove1 t xs) \<and> same_but_link (fst sq) (fst sq'))"
  using append_new_rep [OF assms] append_old_rep [OF assms] remove_rep [OF assms] by blast

lemma sched_queue_ops_effect_witness:
  "\<forall>s. \<exists>sq'. sched_queue_append 8 (s, sched_queue_init) = Some (True, sq') \<and> queue_rep sq' [8]"
proof
  fix s
  show "\<exists>sq'. sched_queue_append 8 (s, sched_queue_init) = Some (True, sq') \<and> queue_rep sq' [8]"
    using sched_queue_ops_effect [OF queue_init_rep, of 8 s] by auto
qed

lemma scan_rep:
  assumes "chain s (q_head q) xs" "distinct xs"
  shows "\<exists>avg fb idle s'. sched_queue_scan ws (Some q) cur now s = Some ((avg, fb, idle), s') \<and>
    chain s' (q_head q) xs \<and> earliest s' (candidates s' cur xs) fb \<and>
    (idle \<noteq> NULL_TASK \<longrightarrow> idle \<in> set xs \<and> idle \<noteq> cur \<and> t_task_level (s idle) = TASK_IDLE_LEVEL) \<and>
    ((\<exists>x\<in>set xs. x \<noteq> cur \<and> t_task_level (s x) = TASK_IDLE_LEVEL) \<longrightarrow> idle \<noteq> NULL_TASK)"
proof -
  let ?a = "\<lparr>a_sum = 0, a_count = 0, a_fallback = NULL_TASK, a_idle = NULL_TASK\<rparr>"
  obtain s' a' where f: "fold (scan_one ws cur now) xs (s, ?a) = (s', a')" by fastforce
  have "chain s' (q_head q) xs"
    using chain_cong [of xs s' s] fold_scan_link [of ws cur now xs "(s, ?a)"] f assms(1) by simp
  moreover have "sched_queue_scan ws (Some q) cur now s =
      Some ((if a_count a' = 0 then 0 else a_sum a' div a_count a', a_fallback a', a_idle a'), s')"
    using scan_walk_chain [of "(s, ?a)" "q_head q" xs] assms(1) f by (simp add: sched_queue_scan_def)
  ultimately show ?thesis
    using scan_prefix [OF assms(2) chain_nonnull [OF assms(1)], where a = ?a and ws = ws and cur = cur and now = now and s = s] f by auto
qed

lemma wake_chain: "chain (snd (sched_wake_if_due t now b s)) p xs = chain s p xs"
  by (rule chain_cong) (simp add: wake_link)

text \<open>What selection does on a queue that represents a sequence.\<close>

lemma select_next_spec:
  assumes "queue_rep (s, q) xs" and "xs \<noteq> []"
  shows "\<exists>avg fb idle s1 r. sched_queue_scan ws (Some q) cur now
        (snd (sched_wake_if_due cur now (if cur \<noteq> NULL_TASK then t_vruntime (s cur) else 0) s))
          = Some ((avg, fb, idle), s1) \<and>
    sched_select_next ws 0 (Some q) cur now s = Some (r, 0, sched_mark_dispatched r now s1) \<and>
    (if candidates s1 cur xs = {} then r = (if sched_current_runnable s1 cur then cur else idle)
     else if \<exists>x\<in>candidates s1 cur xs. t_vruntime (s1 x) \<le> avg
       then r \<in> candidates s1 cur xs \<and> t_vruntime (s1 r) \<le> avg \<and>
            (\<forall>x\<in>candidates s1 cur xs. t_vruntime (s1 x) \<le> avg \<longrightarrow> \<not> sched_deadline_before s1 x r)
     else r \<in> candidates s1 cur xs \<and> (\<forall>x\<in>candidates s1 cur xs. \<not> sched_deadline_before s1 x r)) \<and>
    (idle \<noteq> NULL_TASK \<longrightarrow> idle \<in> set xs \<and> idle \<noteq> cur \<and> t_task_level (s idle) = TASK_IDLE_LEVEL) \<and>
    ((\<exists>x\<in>set xs. x \<noteq> cur \<and> t_task_level (s x) = TASK_IDLE_LEVEL) \<longrightarrow> idle \<noteq> NULL_TASK)"
proof -
  let ?s = "snd (sched_wake_if_due cur now (if cur \<noteq> NULL_TASK then t_vruntime (s cur) else 0) s)"
  have c: "chain ?s (q_head q) xs" and d: "distinct xs"
    using assms(1) by (simp_all add: queue_rep_def wake_chain)
  have hd: "q_head q \<noteq> NULL_TASK" using c assms(2) by (cases xs) auto
  obtain avg fb idle s1 where scan: "sched_queue_scan ws (Some q) cur now ?s = Some ((avg, fb, idle), s1)"
    and c1: "chain s1 (q_head q) xs" and E: "earliest s1 (candidates s1 cur xs) fb"
    and I: "idle \<noteq> NULL_TASK \<longrightarrow> idle \<in> set xs \<and> idle \<noteq> cur \<and> t_task_level (?s idle) = TASK_IDLE_LEVEL"
      "(\<exists>x\<in>set xs. x \<noteq> cur \<and> t_task_level (?s x) = TASK_IDLE_LEVEL) \<longrightarrow> idle \<noteq> NULL_TASK"
    using scan_rep [OF c d, of ws cur now] by blast
  let ?P = "\<lambda>c. sched_task_schedulable s1 c cur \<and> t_vruntime (s1 c) \<le> avg"
  let ?b = "fold (\<lambda>c b. if ?P c \<and> sched_deadline_before s1 c b then c else b) xs NULL_TASK"
  have walk: "best_walk s1 cur avg (q_head q) NULL_TASK = Some ?b"
    using best_walk_chain [OF c1] by (simp add: conj_assoc)
  have B: "earliest s1 {c \<in> set xs. ?P c} ?b"
  proof -
    have "earliest s1 ({c \<in> set xs. ?P c} \<union> {}) ?b"
      by (rule fold_best) (auto dest: schedulable_nonnull simp: earliest_def)
    then show ?thesis by simp
  qed
  let ?best = "if fb \<noteq> NULL_TASK \<and> t_vruntime (s1 fb) \<le> avg then fb
               else if fb \<noteq> NULL_TASK then (if ?b = NULL_TASK then fb else ?b) else NULL_TASK"
  let ?r = "if ?best \<noteq> NULL_TASK then ?best else if sched_current_runnable s1 cur then cur else idle"
  have sel: "sched_select_next ws 0 (Some q) cur now s = Some (?r, 0, sched_mark_dispatched ?r now s1)"
    using hd scan walk by (simp add: sched_select_next_def Let_def)
  have cand: "{c \<in> set xs. ?P c} = {c \<in> candidates s1 cur xs. t_vruntime (s1 c) \<le> avg}"
    by (auto simp: candidates_def)
  have "if candidates s1 cur xs = {} then ?r = (if sched_current_runnable s1 cur then cur else idle)
     else if \<exists>x\<in>candidates s1 cur xs. t_vruntime (s1 x) \<le> avg
       then ?r \<in> candidates s1 cur xs \<and> t_vruntime (s1 ?r) \<le> avg \<and>
            (\<forall>x\<in>candidates s1 cur xs. t_vruntime (s1 x) \<le> avg \<longrightarrow> \<not> sched_deadline_before s1 x ?r)
     else ?r \<in> candidates s1 cur xs \<and> (\<forall>x\<in>candidates s1 cur xs. \<not> sched_deadline_before s1 x ?r)"
  proof (cases "fb = NULL_TASK")
    case True
    then show ?thesis using E by (simp add: earliest_def)
  next
    case fb: False
    then have F: "fb \<in> candidates s1 cur xs" "\<forall>x\<in>candidates s1 cur xs. \<not> sched_deadline_before s1 x fb"
      using E by (simp_all add: earliest_def)
    show ?thesis
    proof (cases "t_vruntime (s1 fb) \<le> avg")
      case True
      then show ?thesis using fb F by auto
    next
      case nle: False
      show ?thesis
      proof (cases "?b = NULL_TASK")
        case True
        then show ?thesis using B fb F nle unfolding cand by (auto simp: earliest_def)
      next
        case False
        then have "?b \<in> {c \<in> candidates s1 cur xs. t_vruntime (s1 c) \<le> avg}"
          "\<forall>x\<in>{c \<in> candidates s1 cur xs. t_vruntime (s1 c) \<le> avg}. \<not> sched_deadline_before s1 x ?b"
          using B unfolding cand by (simp_all add: earliest_def)
        then show ?thesis using fb nle False by auto
      qed
    qed
  qed
  moreover have "(idle \<noteq> NULL_TASK \<longrightarrow> idle \<in> set xs \<and> idle \<noteq> cur \<and> t_task_level (s idle) = TASK_IDLE_LEVEL) \<and>
      ((\<exists>x\<in>set xs. x \<noteq> cur \<and> t_task_level (s x) = TASK_IDLE_LEVEL) \<longrightarrow> idle \<noteq> NULL_TASK)"
    using I by (simp add: wake_level)
  ultimately show ?thesis using scan sel by blast
qed

lemma scan_store:
  assumes "sched_queue_scan ws (Some q) cur now s = Some (r, s1)" "chain s (q_head q) xs"
  shows "\<exists>a. s1 = fst (fold (scan_one ws cur now) xs (s, a))"
  using assms(1) scan_walk_chain [of "(s, a)" "q_head q" xs ws cur now for a] assms(2)
  by (auto simp: sched_queue_scan_def split: option.splits prod.splits) (metis fst_conv)

text \<open>
  Selection on a well-formed queue returns, and takes the right task: with candidates
  (runnable, not idle, not the current task, after due sleepers were woken) the result is one
  of them; among those whose virtual runtime is not above the average, if any, it has the
  earliest deadline; otherwise it has the earliest deadline of all.  Without candidates the
  current task keeps running when it can, else the idle task runs.
\<close>

theorem sched_select_next_best:
  assumes "queue_rep (s, q) xs" and "xs \<noteq> []"
  shows "\<exists>avg fb idle s1 r. sched_queue_scan ws (Some q) cur now
        (snd (sched_wake_if_due cur now (if cur \<noteq> NULL_TASK then t_vruntime (s cur) else 0) s))
          = Some ((avg, fb, idle), s1) \<and>
    sched_select_next ws 0 (Some q) cur now s = Some (r, 0, sched_mark_dispatched r now s1) \<and>
    (if candidates s1 cur xs = {} then r = (if sched_current_runnable s1 cur then cur else idle)
     else if \<exists>x\<in>candidates s1 cur xs. t_vruntime (s1 x) \<le> avg
       then r \<in> candidates s1 cur xs \<and> t_vruntime (s1 r) \<le> avg \<and>
            (\<forall>x\<in>candidates s1 cur xs. t_vruntime (s1 x) \<le> avg \<longrightarrow> \<not> sched_deadline_before s1 x r)
     else r \<in> candidates s1 cur xs \<and> (\<forall>x\<in>candidates s1 cur xs. \<not> sched_deadline_before s1 x r)) \<and>
    (idle \<noteq> NULL_TASK \<longrightarrow> idle \<in> set xs \<and> t_task_level (s idle) = TASK_IDLE_LEVEL)"
  using select_next_spec [OF assms, of ws cur now] by blast

definition tcb0 :: tcb where
  "tcb0 = \<lparr>t_task_level = 0, t_tid = 0, t_name = [], t_status = START, t_wakeup_time = 0, t_cpu_id = 0,
     t_ctx = \<lparr>c_r = (\<lambda>_. 0), c_sp = 0, c_lr = 0, c_pc = 0, c_cpsr = 0\<rparr>, t_kernel_stack = 0,
     t_kstack_base = 0, t_kstack_guard = 0, t_kstack_slot = 0, t_owns_kstack = False,
     t_sched_next = 0, t_vruntime = 0, t_deadline = 0, t_slice = 0, t_last_start = 0, t_runtime_ticks = 0\<rparr>"

text \<open>Two runnable tasks at 8 and 16; the second has the earlier deadline.\<close>

definition st2 :: tstore where
  "st2 = (\<lambda>p. if p = 8 then tcb0\<lparr>t_sched_next := 16, t_vruntime := 5, t_deadline := 9\<rparr>
              else if p = 16 then tcb0\<lparr>t_vruntime := 5, t_deadline := 7\<rparr> else tcb0)"

definition q2 :: sched_queue_t where "q2 = \<lparr>q_head = 8, q_count = 2\<rparr>"

lemma q2_rep: "queue_rep (st2, q2) [8, 16]"
  by (simp add: queue_rep_def q2_def st2_def tcb0_def)

lemma sched_select_next_best_witness:
  "\<exists>r s'. sched_select_next 0 0 (Some q2) 0 100 st2 = Some (r, 0, s')"
  using sched_select_next_best [OF q2_rep, of 0 0 100] by auto

section \<open>Accounting\<close>

lemma unat_vruntime_delta:
  assumes "unat r < 2 ^ 54"
  shows "sched_vruntime_delta r = r"
proof -
  have "unat (r * 1024) = unat r * 1024"
    using assms by (subst unat_word_ariths(2)) simp
  then show ?thesis by (simp add: sched_vruntime_delta_def word_eq_unat unat_div)
qed

lemma slice_min: "SCHED_MIN_SLICE_NS \<le> sched_slice s t"
  by (auto simp: sched_slice_def not_less)

text \<open>
  Charging a run advances the virtual runtime of a running, non-idle task by exactly the
  time it ran and moves its deadline to one slice (at least 1 ms) after it; every other task,
  and an idle or a not running task, is untouched.
\<close>

theorem sched_account_run_exact:
  assumes "unat runtime < 2 ^ 54" and "t \<noteq> NULL_TASK"
  shows "let s' = sched_account_run t runtime s
     in (\<forall>x. x \<noteq> t \<longrightarrow> s' x = s x) \<and>
        (if t_task_level (s t) = TASK_IDLE_LEVEL \<or> t_status (s t) \<noteq> RUNNING \<or> runtime = 0 then s' = s
         else t_vruntime (s' t) = t_vruntime (s t) + runtime \<and>
              t_deadline (s' t) = t_vruntime (s' t) + sched_slice s t \<and>
              SCHED_MIN_SLICE_NS \<le> sched_slice s t)"
  using assms slice_min [of s t]
  by (auto simp: sched_account_run_def Let_def upd_apply unat_vruntime_delta sched_slice_def)

lemma sched_account_run_exact_witness:
  "t_vruntime (sched_account_run 8 1000000 (upd 8 (\<lambda>x. x\<lparr>t_status := RUNNING\<rparr>) st2) 8) = 1000005"
  using sched_account_run_exact [of 1000000 8 "upd 8 (\<lambda>x. x\<lparr>t_status := RUNNING\<rparr>) st2"]
  by (simp add: Let_def st2_def tcb0_def)

lemma credit_vruntime:
  assumes "t \<noteq> NULL_TASK" "t_task_level (s t) \<noteq> TASK_IDLE_LEVEL"
  shows "t_vruntime (sched_apply_wakeup_credit t b s t) \<le> t_vruntime (s t) \<and>
    (t_vruntime (sched_apply_wakeup_credit t b s t) = t_vruntime (s t) \<or>
     (unat b \<le> unat (t_vruntime (sched_apply_wakeup_credit t b s t)) + 8000000 \<and>
      t_vruntime (sched_apply_wakeup_credit t b s t) \<le> b))"
proof -
  define credit where "credit = (let c = sched_slice s t; c = (if c < 4000000 then 4000000 else c)
      in if 8000000 < c then 8000000 else c :: u64)"
  define placed where "placed = (if credit < b then b - credit else 0)"
  have c8: "unat credit \<le> 8000000" by (auto simp: credit_def Let_def word_less_nat_alt)
  have vr: "t_vruntime (sched_apply_wakeup_credit t b s t) = (if placed < t_vruntime (s t) then placed else t_vruntime (s t))"
    using assms by (simp add: sched_apply_wakeup_credit_def Let_def credit_def placed_def)
  have "placed \<le> b" by (auto simp: placed_def word_le_unat word_lt_unat unat_sub_le)
  moreover have "unat b \<le> unat placed + 8000000"
    using c8 by (auto simp: placed_def word_lt_unat unat_sub_le)
  ultimately show ?thesis unfolding vr by auto
qed

text \<open>
  A sleeper is woken exactly when it waits for a time that has come; waking makes it
  startable and clears the timer, never moves its virtual runtime forward, and puts it at most
  8 ms (the sleeper credit) behind the base it is placed against; no other task changes.
\<close>

theorem sched_wake_bounded_credit:
  assumes "t \<noteq> NULL_TASK" and "sched_wake_if_due t now base s = (woken, s')"
  shows "(woken \<longleftrightarrow> t_status (s t) = WAIT \<and> t_wakeup_time (s t) \<noteq> 0 \<and> t_wakeup_time (s t) \<le> now) \<and>
    (\<forall>x. x \<noteq> t \<longrightarrow> s' x = s x) \<and> (\<not> woken \<longrightarrow> s' = s) \<and>
    (woken \<longrightarrow> t_status (s' t) = START \<and> t_wakeup_time (s' t) = 0 \<and>
       t_vruntime (s' t) \<le> t_vruntime (s t) \<and>
       (t_vruntime (s' t) = t_vruntime (s t) \<or>
        unat base \<le> unat (t_vruntime (s' t)) + 8000000 \<and> t_vruntime (s' t) \<le> base))"
proof (cases "t_status (s t) = WAIT \<and> t_wakeup_time (s t) \<noteq> 0 \<and> t_wakeup_time (s t) \<le> now")
  case False
  then show ?thesis using assms by (auto simp: sched_wake_if_due_def)
next
  case True
  let ?u = "upd t (\<lambda>x. x\<lparr>t_wakeup_time := 0, t_status := START\<rparr>) s"
  have r: "woken" "s' = sched_apply_wakeup_credit t base ?u"
    using assms True by (auto simp: sched_wake_if_due_def)
  have w: "t_wakeup_time (sched_apply_wakeup_credit t base ?u t) = 0"
    by (simp add: sched_apply_wakeup_credit_def Let_def)
  show ?thesis
  proof (cases "t_task_level (s t) = TASK_IDLE_LEVEL")
    case True
    then have "s' = ?u" using r(2) by (simp add: sched_apply_wakeup_credit_def)
    then show ?thesis using r(1) \<open>_ \<and> _ \<and> _\<close> by (auto simp: upd_apply)
  next
    case False
    then show ?thesis using credit_vruntime [OF assms(1), of ?u base] r True w
      by (auto simp: credit_status credit_other upd_apply)
  qed
qed

lemma sched_wake_bounded_credit_witness:
  "fst (sched_wake_if_due 8 50 0 (upd 8 (\<lambda>x. x\<lparr>t_status := WAIT, t_wakeup_time := 40\<rparr>) st2))"
  using sched_wake_bounded_credit [OF _ surjective_pairing, of 8 50 0 "upd 8 (\<lambda>x. x\<lparr>t_status := WAIT, t_wakeup_time := 40\<rparr>) st2"]
  by simp

section \<open>Frames\<close>

lemma fold_copy: "fold (\<lambda>i r. r(i := f i)) [0..<n] g j = (if j < n then f j else g j)"
  by (induction n) auto

text \<open>
  Saving a frame into a task and rebuilding a frame from the task gives back every saved
  register, the return address and the status word, and the frame address found for the task is
  the one it was saved from; a frame handed out for a task that owns its stack lies inside it.
\<close>

theorem sched_frame_roundtrip:
  assumes "t \<noteq> NULL_TASK"
  shows "(\<exists>g. sched_frame_from_ctx (sched_ctx_from_frame t (Some (addr, f)) s) t (Some d) = Some g \<and>
        (\<forall>i<13. f_r g i = f_r f i) \<and> f_svc_lr g = f_svc_lr f \<and> f_ret g = f_ret f \<and> f_spsr g = f_spsr f) \<and>
    (\<forall>a. sched_frame_for (sched_ctx_from_frame t (Some (addr, f)) s) t = Some a \<longrightarrow> a = addr) \<and>
    (\<forall>a. sched_frame_for s t = Some a \<and> t_owns_kstack (s t) \<and> 64 \<le> unat (t_kstack_base (s t)) \<longrightarrow>
        unat (t_kstack_base (s t)) \<le> unat a \<and> unat a + 64 \<le> unat (t_kernel_stack (s t)))"
proof -
  have in_stack: "unat (t_kstack_base (s t)) \<le> unat a \<and> unat a + 64 \<le> unat (t_kernel_stack (s t))"
    if "sched_frame_for s t = Some a" "t_owns_kstack (s t)" "64 \<le> unat (t_kstack_base (s t))" for a
  proof -
    let ?sp = "c_sp (t_ctx (s t))"
    have c: "sched_ctx_switchable s t" and a: "a = ?sp - 64"
      using that(1) by (auto simp: sched_frame_for_def split: if_splits)
    have sp: "t_kstack_base (s t) < ?sp" "?sp \<le> t_kernel_stack (s t)" "t_kstack_base (s t) \<le> a"
      using c that(2) unfolding a by (auto simp: sched_ctx_switchable_def Let_def split: if_splits)
    have "unat ?sp = unat a + 64"
      using sp(1) that(3) unfolding a word_lt_unat by (simp add: unat_sub_le)
    then show ?thesis using sp by (simp add: word_le_unat)
  qed
  then show ?thesis using assms
    by (auto simp: sched_frame_from_ctx_def sched_ctx_from_frame_def fold_copy sched_frame_for_def split: if_splits)
qed

lemma sched_frame_roundtrip_witness:
  "\<exists>g. sched_frame_from_ctx (sched_ctx_from_frame 8 (Some (0x1000, \<lparr>f_r = of_nat, f_svc_lr = 1, f_ret = 2, f_spsr = 3\<rparr>)) st2) 8
      (Some \<lparr>f_r = (\<lambda>_. 0), f_svc_lr = 0, f_ret = 0, f_spsr = 0\<rparr>) = Some g \<and> f_r g 7 = 7 \<and> f_ret g = 2"
  using sched_frame_roundtrip [of 8 "0x1000" "\<lparr>f_r = of_nat, f_svc_lr = 1, f_ret = 2, f_spsr = 3\<rparr>" st2
      "\<lparr>f_r = (\<lambda>_. 0), f_svc_lr = 0, f_ret = 0, f_spsr = 0\<rparr>"] by auto

section \<open>CPU choice\<close>

lemma pick_fold:
  assumes "rdy (0 :: nat) \<noteq> (0 :: u32)"
  shows "let b = fold (\<lambda>i best. if rdy i = 0 then best else if len i < (len best :: u32) then i else best) [1..<n] 0
     in rdy b \<noteq> 0 \<and> b < max 1 n \<and> (\<forall>i<n. rdy i \<noteq> 0 \<longrightarrow> len b \<le> len i) \<and> (\<forall>i<b. rdy i \<noteq> 0 \<longrightarrow> len b < len i)"
proof (induction n)
  case 0
  then show ?case using assms by simp
next
  case (Suc n)
  show ?case
  proof (cases "n = 0")
    case True
    then show ?thesis using assms by simp
  next
    case False
    let ?b = "fold (\<lambda>i best. if rdy i = 0 then best else if len i < len best then i else best) [1..<n] 0"
    have IH: "rdy ?b \<noteq> 0" "?b < n" "\<forall>i<n. rdy i \<noteq> 0 \<longrightarrow> len ?b \<le> len i" "\<forall>i<?b. rdy i \<noteq> 0 \<longrightarrow> len ?b < len i"
      using Suc.IH False by (auto simp: Let_def)
    have step: "fold (\<lambda>i best. if rdy i = 0 then best else if len i < len best then i else best) [1..<Suc n] 0 =
        (if rdy n = 0 then ?b else if len n < len ?b then n else ?b)" using False by simp
    show ?thesis unfolding step Let_def
      using IH by (auto simp: less_Suc_eq intro: order_less_le_trans order.strict_implies_order)
  qed
qed

text \<open>
  The chosen CPU is online and has the shortest run queue of all online CPUs (the lowest
  number among equals); application tasks and an unpublished boot CPU fall back to CPU 0.
\<close>

theorem sched_pick_cpu_shortest:
  assumes "0 < cpu_num"
  shows "let c = sched_pick_cpu level (Some len) (Some rdy) cpu_num
     in c < unat cpu_num \<and>
        (level = TASK_APPLICATION_LEVEL \<or> rdy 0 = 0 \<longrightarrow> c = 0) \<and>
        (level \<noteq> TASK_APPLICATION_LEVEL \<and> rdy 0 \<noteq> 0 \<longrightarrow>
           rdy c \<noteq> 0 \<and> (\<forall>i<unat cpu_num. rdy i \<noteq> 0 \<longrightarrow> len c \<le> len i) \<and>
           (\<forall>i<c. rdy i \<noteq> 0 \<longrightarrow> len c < len i))"
proof -
  have n: "0 < unat cpu_num" using assms by (simp add: word_lt_unat)
  then have "max 1 (unat cpu_num) = unat cpu_num" by simp
  then show ?thesis using pick_fold [of rdy len "unat cpu_num"] assms n
    by (auto simp: sched_pick_cpu_def Let_def)
qed

lemma sched_pick_cpu_shortest_witness:
  "sched_pick_cpu TASK_KERNEL_LEVEL (Some (\<lambda>i. if i = 0 then 3 else 1)) (Some (\<lambda>_. 1)) 2 < 2"
  using sched_pick_cpu_shortest [of 2 TASK_KERNEL_LEVEL "\<lambda>i. if i = 0 then 3 else 1" "\<lambda>_. 1"]
  by (simp add: Let_def)

end
