(* ===== verification/Kstack.thy ===== *)
theory Kstack
  imports Vmap
begin

text \<open>
  The kernel stack pool, \<open>arch/arm32/src/kstack.c\<close>: fixed slots of one guard page and
  \<open>stack_pages\<close> stack pages, a one-bit-per-slot bitmap, handles that are checked on release,
  and guard pages that are unmapped or mapped without access.  The pool owns the address space
  it maps in (the \<open>vm\<close> pointer of the code); the TLB flush callback is a log of its calls.
\<close>

section \<open>Data\<close>

abbreviation (input) KSTACK_PAGE_SIZE :: u32 where "KSTACK_PAGE_SIZE \<equiv> 4096"
abbreviation (input) KSTACK_MAX_SLOTS :: u32 where "KSTACK_MAX_SLOTS \<equiv> 64"

datatype kstack_err =
    KSTACK_OK | KSTACK_ERR_NOT_INIT | KSTACK_ERR_BAD_ARGS | KSTACK_ERR_ALIGN
  | KSTACK_ERR_BAD_HANDLE | KSTACK_ERR_DOUBLE_FREE | KSTACK_ERR_NO_SLOT | KSTACK_ERR_MAP

datatype kstack_guard = KSTACK_GUARD_UNMAPPED | KSTACK_GUARD_AP_NONE

record kstack_t =
  k_slot :: u32
  k_base :: u32
  k_top :: u32
  k_guard :: u32
  k_pages :: u32
  k_in_use :: bool

record kstack_pool_t =
  kp_vm :: vmap_t
  kp_pool_base :: u32
  kp_slot_count :: u32
  kp_stack_pages :: u32
  kp_slot_pages :: u32
  kp_bitmap :: "nat \<Rightarrow> u32"
  kp_bitmap_words :: u32
  kp_flushed :: "(u32 \<times> u32) list"
  kp_guard_kind :: kstack_guard
  kp_used_slots :: u32
  kp_peak_used :: u32
  kp_stat_alloc :: u32
  kp_stat_free :: u32
  kp_stat_flush :: u32
  kp_stat_guard_split :: u32
  kp_last_vmap_err :: vmap_err
  kp_inited :: bool

section \<open>Slots\<close>

definition slot_base_of :: "kstack_pool_t \<Rightarrow> u32 \<Rightarrow> u32" where
  "slot_base_of p index = kp_pool_base p + index * kp_slot_pages p * KSTACK_PAGE_SIZE"

definition slot_guard_of :: "kstack_pool_t \<Rightarrow> u32 \<Rightarrow> u32" where
  "slot_guard_of p index = slot_base_of p index"

definition slot_stack_base_of :: "kstack_pool_t \<Rightarrow> u32 \<Rightarrow> u32" where
  "slot_stack_base_of p index = slot_base_of p index + KSTACK_PAGE_SIZE"

definition slot_top_of :: "kstack_pool_t \<Rightarrow> u32 \<Rightarrow> u32" where
  "slot_top_of p index = slot_base_of p index + kp_slot_pages p * KSTACK_PAGE_SIZE"

definition slot_bit :: "(nat \<Rightarrow> u32) \<Rightarrow> nat \<Rightarrow> bool" where
  "slot_bit bm i \<longleftrightarrow> bm (i div 32) AND push_bit (i AND 31) 1 \<noteq> 0"

definition slot_bit_put :: "(nat \<Rightarrow> u32) \<Rightarrow> nat \<Rightarrow> bool \<Rightarrow> (nat \<Rightarrow> u32)" where
  "slot_bit_put bm i used =
     (let mask = push_bit (i AND 31) 1
      in bm(i div 32 := (if used then bm (i div 32) OR mask else bm (i div 32) AND NOT mask)))"

definition kstack_slot_base :: "kstack_pool_t option \<Rightarrow> u32 \<Rightarrow> u32" where
  "kstack_slot_base P index =
     (case P of None \<Rightarrow> 0
      | Some p \<Rightarrow> if \<not> kp_inited p \<or> kp_slot_count p \<le> index then 0 else slot_base_of p index)"

definition kstack_slot_in_use :: "kstack_pool_t option \<Rightarrow> u32 \<Rightarrow> bool" where
  "kstack_slot_in_use P index =
     (case P of None \<Rightarrow> True
      | Some p \<Rightarrow> \<not> kp_inited p \<or> kp_slot_count p \<le> index \<or> slot_bit (kp_bitmap p) (unat index))"

definition slot_mark :: "u32 \<Rightarrow> bool \<Rightarrow> kstack_pool_t \<Rightarrow> kstack_pool_t" where
  "slot_mark index used p =
     (let p = p\<lparr>kp_bitmap := slot_bit_put (kp_bitmap p) (unat index) used\<rparr>
      in if used then
           let used_slots = kp_used_slots p + 1
           in p\<lparr>kp_used_slots := used_slots,
                kp_peak_used := (if kp_peak_used p < used_slots then used_slots else kp_peak_used p)\<rparr>
         else if 0 < kp_used_slots p then p\<lparr>kp_used_slots := kp_used_slots p - 1\<rparr> else p)"

definition slot_find_free :: "kstack_pool_t \<Rightarrow> u32" where
  "slot_find_free p =
     (case find (\<lambda>i. \<not> slot_bit (kp_bitmap p) i) [0..<unat (kp_slot_count p)] of
        None \<Rightarrow> kp_slot_count p | Some i \<Rightarrow> of_nat i)"

section \<open>Mapping steps\<close>

definition vmap_result :: "vmap_err \<Rightarrow> kstack_pool_t \<Rightarrow> kstack_err \<times> kstack_pool_t" where
  "vmap_result e p =
     (if e = VMAP_OK then (KSTACK_OK, p) else (KSTACK_ERR_MAP, p\<lparr>kp_last_vmap_err := e\<rparr>))"

text \<open>A call into \<open>vmap.c\<close> on the pool's address space.\<close>

definition with_vm :: "(vmap_t \<Rightarrow> vmap_err \<times> vmap_t) \<Rightarrow> kstack_pool_t \<Rightarrow> vmap_err \<times> kstack_pool_t" where
  "with_vm f p = (case f (kp_vm p) of (e, vm) \<Rightarrow> (e, p\<lparr>kp_vm := vm\<rparr>))"

definition flush_range :: "u32 \<Rightarrow> u32 \<Rightarrow> kstack_pool_t \<Rightarrow> kstack_pool_t" where
  "flush_range va_begin va_end p =
     (if va_begin < va_end
      then p\<lparr>kp_flushed := kp_flushed p @ [(va_begin, va_end)], kp_stat_flush := kp_stat_flush p + 1\<rparr>
      else p)"

definition guard_unmap :: "u32 \<Rightarrow> kstack_pool_t \<Rightarrow> kstack_err \<times> kstack_pool_t" where
  "guard_unmap guard p =
     (case with_vm (vmap_unmap guard) p of
        (e, p) \<Rightarrow>
          if e = VMAP_ERR_NOT_MAPPED then (KSTACK_OK, p)
          else if e = VMAP_ERR_IS_SECTION then
            (case with_vm (vmap_split_section guard)
                    (p\<lparr>kp_stat_guard_split := kp_stat_guard_split p + 1\<rparr>) of
               (e, p) \<Rightarrow>
                 (case (if e = VMAP_OK then with_vm (vmap_unmap guard) p else (e, p)) of
                    (e, p) \<Rightarrow> if e = VMAP_ERR_NOT_MAPPED then (KSTACK_OK, p) else vmap_result e p))
          else vmap_result e p)"

definition attr_none :: vmap_attr_t where
  "attr_none = vmap_attr_normal\<lparr>a_ap3 := MMU_AP_NONE\<rparr>"

definition guard_apply :: "u32 \<Rightarrow> kstack_pool_t \<Rightarrow> kstack_err \<times> kstack_pool_t" where
  "guard_apply guard p =
     (if kp_guard_kind p = KSTACK_GUARD_AP_NONE then
        (let e = vmap_lookup (kp_vm p) guard
         in case (if e = VMAP_RESULT_SECTION
                  then (case with_vm (vmap_split_section guard) p of
                          (s, p) \<Rightarrow> if s \<noteq> VMAP_OK then (Some s, e, p)
                                   else (None, vmap_lookup (kp_vm p) guard, p))
                  else (None, e, p)) of
              (Some s, _, p) \<Rightarrow> vmap_result s p
            | (None, e, p) \<Rightarrow>
                if e = 0 then (case with_vm (vmap_map guard guard (Some attr_none)) p of (r, p) \<Rightarrow> vmap_result r p)
                else (case with_vm (vmap_set_attr guard (Some attr_none)) p of (r, p) \<Rightarrow> vmap_result r p))
      else guard_unmap guard p)"

definition page_claim :: "u32 \<Rightarrow> u32 \<Rightarrow> vmap_attr_t \<Rightarrow> kstack_pool_t \<Rightarrow> kstack_err \<times> kstack_pool_t" where
  "page_claim va pa attr p =
     (case with_vm (vmap_split_section va) p of
        (e, p) \<Rightarrow>
          if e \<noteq> VMAP_OK \<and> e \<noteq> VMAP_ERR_IS_SECTION then vmap_result e p
          else (case with_vm (vmap_unmap va) p of
                  (e, p) \<Rightarrow>
                    if e \<noteq> VMAP_OK \<and> e \<noteq> VMAP_ERR_NOT_MAPPED then vmap_result e p
                    else (case with_vm (vmap_map va pa (Some attr)) p of (r, p) \<Rightarrow> vmap_result r p)))"

definition handle_check :: "kstack_pool_t \<Rightarrow> kstack_t \<Rightarrow> kstack_err" where
  "handle_check p k =
     (if \<not> kp_inited p then KSTACK_ERR_NOT_INIT
      else if kp_slot_count p \<le> k_slot k then KSTACK_ERR_BAD_HANDLE
      else let sb = slot_base_of p (k_slot k)
           in if k_guard k \<noteq> sb \<or> k_base k \<noteq> sb + KSTACK_PAGE_SIZE
                 \<or> k_top k \<noteq> sb + kp_slot_pages p * KSTACK_PAGE_SIZE \<or> k_pages k \<noteq> kp_stack_pages p
              then KSTACK_ERR_BAD_HANDLE
              else if \<not> k_in_use k \<or> \<not> slot_bit (kp_bitmap p) (unat (k_slot k))
                then KSTACK_ERR_DOUBLE_FREE
              else KSTACK_OK)"

section \<open>Operations\<close>

definition kstack_pool_init ::
  "vmap_t option \<Rightarrow> u32 \<Rightarrow> u32 \<Rightarrow> u32 \<Rightarrow> kstack_guard \<Rightarrow> (nat \<Rightarrow> u32) option \<Rightarrow> u32 \<Rightarrow> bool
   \<Rightarrow> kstack_pool_t \<Rightarrow> kstack_err \<times> kstack_pool_t" where
  "kstack_pool_init vm pool_base pool_size stack_pages guard_kind bitmap bitmap_words flush p =
     (case (vm, bitmap) of
        (Some v, Some bm) \<Rightarrow>
          if \<not> flush then (KSTACK_ERR_BAD_ARGS, p)
          else if stack_pages = 0 \<or> bitmap_words = 0 then (KSTACK_ERR_BAD_ARGS, p)
          else if pool_base AND (KSTACK_PAGE_SIZE - 1) \<noteq> 0 then (KSTACK_ERR_ALIGN, p)
          else
            let slot_bytes = (stack_pages + 1) * KSTACK_PAGE_SIZE
            in if pool_size < slot_bytes then (KSTACK_ERR_BAD_ARGS, p)
               else
                 let slots = pool_size div slot_bytes;
                     slots = (if KSTACK_MAX_SLOTS < slots then KSTACK_MAX_SLOTS else slots)
                 in if slots = 0 then (KSTACK_ERR_BAD_ARGS, p)
                    else if bitmap_words < (slots + 31) div 32 then (KSTACK_ERR_BAD_ARGS, p)
                    else (KSTACK_OK,
                          p\<lparr>kp_vm := v, kp_pool_base := pool_base, kp_slot_count := slots,
                            kp_stack_pages := stack_pages, kp_slot_pages := stack_pages + 1,
                            kp_bitmap := fold (\<lambda>i b. b(i := 0)) [0..<unat bitmap_words] bm,
                            kp_bitmap_words := bitmap_words, kp_flushed := [],
                            kp_guard_kind := guard_kind, kp_used_slots := 0, kp_peak_used := 0,
                            kp_stat_alloc := 0, kp_stat_free := 0, kp_stat_flush := 0,
                            kp_stat_guard_split := 0, kp_last_vmap_err := VMAP_OK, kp_inited := True\<rparr>)
      | _ \<Rightarrow> (KSTACK_ERR_BAD_ARGS, p))"

fun release_pages :: "nat list \<Rightarrow> u32 \<Rightarrow> kstack_err \<Rightarrow> kstack_pool_t \<Rightarrow> kstack_err \<times> kstack_pool_t" where
  "release_pages [] slot first p = (first, p)"
| "release_pages (i # is) slot first p =
     (case with_vm (vmap_unmap (slot_stack_base_of p slot + of_nat i * KSTACK_PAGE_SIZE)) p of
        (ve, p) \<Rightarrow>
          if ve = VMAP_OK \<or> ve = VMAP_ERR_NOT_MAPPED \<or> ve = VMAP_ERR_IS_SECTION
          then release_pages is slot first p
          else if first = KSTACK_OK then (case vmap_result ve p of (e, p) \<Rightarrow> release_pages is slot e p)
          else release_pages is slot first p)"

definition slot_release :: "u32 \<Rightarrow> kstack_pool_t \<Rightarrow> kstack_err \<times> kstack_pool_t" where
  "slot_release slot p =
     (case guard_unmap (slot_guard_of p slot) p of
        (first, p) \<Rightarrow>
          (case release_pages [0..<unat (kp_stack_pages p)] slot first p of
             (first, p) \<Rightarrow> (first, flush_range (slot_guard_of p slot) (slot_top_of p slot) p)))"

fun claim_pages :: "nat list \<Rightarrow> u32 \<Rightarrow> kstack_pool_t \<Rightarrow> kstack_err \<times> kstack_pool_t" where
  "claim_pages [] base p = (KSTACK_OK, p)"
| "claim_pages (i # is) base p =
     (let va = base + of_nat i * KSTACK_PAGE_SIZE
      in case page_claim va va vmap_attr_normal p of
           (e, p) \<Rightarrow> if e \<noteq> KSTACK_OK then (e, p) else claim_pages is base p)"

definition slot_setup :: "u32 \<Rightarrow> kstack_pool_t \<Rightarrow> kstack_err \<times> kstack_pool_t" where
  "slot_setup slot p =
     (case guard_apply (slot_guard_of p slot) p of
        (e, p) \<Rightarrow> if e \<noteq> KSTACK_OK then (e, p)
                 else claim_pages [0..<unat (kp_stack_pages p)] (slot_stack_base_of p slot) p)"

definition slot_handle :: "kstack_pool_t \<Rightarrow> u32 \<Rightarrow> kstack_t" where
  "slot_handle p slot =
     \<lparr>k_slot = slot, k_base = slot_stack_base_of p slot, k_top = slot_top_of p slot,
      k_guard = slot_guard_of p slot, k_pages = kp_stack_pages p, k_in_use = True\<rparr>"

definition kstack_alloc :: "bool \<Rightarrow> kstack_pool_t \<Rightarrow> (kstack_err + kstack_t) \<times> kstack_pool_t" where
  "kstack_alloc out_null p =
     (if out_null then (Inl KSTACK_ERR_BAD_ARGS, p)
      else if \<not> kp_inited p then (Inl KSTACK_ERR_NOT_INIT, p)
      else
        let slot = slot_find_free p
        in if kp_slot_count p \<le> slot then (Inl KSTACK_ERR_NO_SLOT, p)
           else
             (case slot_setup slot (slot_mark slot True p) of
                (e, p) \<Rightarrow>
                  if e = KSTACK_OK then
                    let p = flush_range (slot_guard_of p slot) (slot_top_of p slot) p;
                        p = p\<lparr>kp_stat_alloc := kp_stat_alloc p + 1\<rparr>
                    in (Inr (slot_handle p slot), p)
                  else
                    (case slot_release slot p of
                       (r, p) \<Rightarrow> (Inl e, if r = KSTACK_OK then slot_mark slot False p else p))))"

definition kstack_free :: "kstack_t \<Rightarrow> kstack_pool_t \<Rightarrow> kstack_err \<times> kstack_t \<times> kstack_pool_t" where
  "kstack_free k p =
     (let e = handle_check p k
      in if e \<noteq> KSTACK_OK then (e, k, p)
         else (case slot_release (k_slot k) p of
                 (e, p) \<Rightarrow>
                   if e \<noteq> KSTACK_OK then (e, k, p)
                   else let p = slot_mark (k_slot k) False p
                        in (KSTACK_OK, k\<lparr>k_in_use := False\<rparr>, p\<lparr>kp_stat_free := kp_stat_free p + 1\<rparr>)))"

definition kstack_guard_disable :: "kstack_t \<Rightarrow> kstack_pool_t \<Rightarrow> kstack_err \<times> kstack_pool_t" where
  "kstack_guard_disable k p =
     (let r = handle_check p k
      in if r \<noteq> KSTACK_OK then (r, p)
         else
           let cur = vmap_lookup (kp_vm p) (k_guard k)
           in case with_vm (if cur = VMAP_RESULT_SECTION then vmap_split_section (k_guard k)
                            else if cur = 0 then vmap_map (k_guard k) (k_guard k) (Some vmap_attr_normal)
                            else vmap_set_attr (k_guard k) (Some vmap_attr_normal)) p of
                (e, p) \<Rightarrow>
                  if e \<noteq> VMAP_OK then vmap_result e p
                  else (KSTACK_OK, flush_range (k_guard k) (k_guard k + KSTACK_PAGE_SIZE) p))"

definition kstack_guard_enable :: "kstack_t \<Rightarrow> kstack_pool_t \<Rightarrow> kstack_err \<times> kstack_pool_t" where
  "kstack_guard_enable k p =
     (let e = handle_check p k
      in if e \<noteq> KSTACK_OK then (e, p)
         else (case guard_apply (k_guard k) p of
                 (e, p) \<Rightarrow>
                   if e \<noteq> KSTACK_OK then (e, p)
                   else (KSTACK_OK, flush_range (k_guard k) (k_guard k + KSTACK_PAGE_SIZE) p)))"

section \<open>The bitmap\<close>

lemma slot_bit_eq: "slot_bit bm i \<longleftrightarrow> bit (bm (i div 32)) (i mod 32)"
proof -
  have "i AND 31 = i mod 32" using nat_and_mask [of i 5] by (simp add: mask_eq_exp_minus_1)
  then show ?thesis by (simp only: slot_bit_def bit_iff_and_push_bit_not_eq_0)
qed

lemma slot_bit_put_bits:
  "bit (slot_bit_put bm i used w) n =
    (if w = i div 32 \<and> n = i mod 32 then used else bit (bm w) n)"
proof -
  have "i AND 31 = i mod 32" using nat_and_mask [of i 5] by (simp add: mask_eq_exp_minus_1)
  then show ?thesis
    by (auto simp: slot_bit_put_def Let_def bit_simps dest: bit_imp_le_length)
qed

interpretation kcells: packed_cells slot_bit slot_bit_put "\<lambda>_. True"
proof
  show "slot_bit (slot_bit_put m i v) i = v" for m i v
    by (simp add: slot_bit_eq slot_bit_put_bits)
  show "slot_bit (slot_bit_put m i v) j = slot_bit m j" if "i \<noteq> j" for m i v j
  proof -
    have "\<not> (j div 32 = i div 32 \<and> j mod 32 = i mod 32)" using that by (metis div_mult_mod_eq)
    then show ?thesis by (simp only: slot_bit_eq slot_bit_put_bits if_False)
  qed
qed

section \<open>Geometry\<close>

abbreviation slots :: "kstack_pool_t \<Rightarrow> nat" where "slots p \<equiv> unat (kp_slot_count p)"

abbreviation slot_len :: "kstack_pool_t \<Rightarrow> nat" where
  "slot_len p \<equiv> Suc (unat (kp_stack_pages p)) * 4096"

definition kstack_geom :: "kstack_pool_t \<Rightarrow> bool" where
  "kstack_geom p \<longleftrightarrow>
     kp_inited p \<and> unat (kp_pool_base p) mod 4096 = 0 \<and> 0 < slots p \<and> slots p \<le> 64 \<and>
     unat (kp_slot_pages p) = Suc (unat (kp_stack_pages p)) \<and>
     unat (kp_pool_base p) + slots p * slot_len p < 4294967296"

definition slot_start :: "kstack_pool_t \<Rightarrow> u32 \<Rightarrow> nat" where
  "slot_start p slot = unat (kp_pool_base p) + unat slot * slot_len p"

lemma slot_start_bound:
  assumes "kstack_geom p" "unat slot < slots p"
  shows "slot_start p slot + slot_len p < 4294967296"
proof -
  have "Suc (unat slot) * slot_len p \<le> slots p * slot_len p" using assms(2) by (intro mult_le_mono1) simp
  then show ?thesis using assms(1) unfolding kstack_geom_def slot_start_def mult_Suc by linarith
qed

lemma unat_slot_base:
  assumes "kstack_geom p" "unat slot < slots p"
  shows "unat (slot_base_of p slot) = slot_start p slot"
proof -
  note b = slot_start_bound [OF assms]
  have sp: "unat (kp_slot_pages p) = Suc (unat (kp_stack_pages p))" using assms(1) by (simp add: kstack_geom_def)
  have "unat slot * unat (kp_slot_pages p) * 4096 = unat slot * slot_len p" by (simp only: sp mult.assoc)
  then have lt: "unat slot * unat (kp_slot_pages p) * 4096 < 4294967296"
    using b by (simp only: slot_start_def)
  then have lt2: "unat slot * unat (kp_slot_pages p) < 4294967296" by linarith
  have "unat (slot * kp_slot_pages p) = unat slot * unat (kp_slot_pages p)"
    using lt2 by (simp add: unat_word_ariths)
  then have "unat (slot * kp_slot_pages p * 4096) = unat slot * unat (kp_slot_pages p) * 4096"
    using lt by (subst unat_word_ariths(2)) simp
  then have o: "unat (slot * kp_slot_pages p * 4096) = unat slot * slot_len p" by (simp only: sp mult.assoc)
  have "unat (kp_pool_base p) + unat (slot * kp_slot_pages p * 4096) < 2 ^ LENGTH(32)"
    using b unfolding o slot_start_def by simp
  from unat_add_small [OF this] show ?thesis by (simp only: slot_base_of_def slot_start_def o)
qed

definition slot_page :: "kstack_pool_t \<Rightarrow> u32 \<Rightarrow> nat \<Rightarrow> u32" where
  "slot_page p slot k = slot_base_of p slot + of_nat k * 4096"

lemma unat_slot_page:
  assumes "kstack_geom p" "unat slot < slots p" "k \<le> Suc (unat (kp_stack_pages p))"
  shows "unat (slot_page p slot k) = slot_start p slot + k * 4096"
proof -
  note b = slot_start_bound [OF assms(1,2)]
  have "k * 4096 \<le> slot_len p" using assms(3) by (rule mult_le_mono1)
  then have lt: "slot_start p slot + k * 4096 < 4294967296" using b by linarith
  then have "unat (of_nat k :: u32) = k" by (intro unat_of_nat_small) simp
  then have "unat (of_nat k * 4096 :: u32) = k * 4096"
    using lt by (subst unat_word_ariths(2)) simp
  then show ?thesis unfolding slot_page_def
    using lt unat_slot_base [OF assms(1,2)] by (subst unat_add_small) simp_all
qed

lemma slot_start_mod: "kstack_geom p \<Longrightarrow> slot_start p slot mod 4096 = 0"
  by (simp add: slot_start_def kstack_geom_def mod_eq_0_iff_dvd)

lemma same_page_nat: "same_page x y \<longleftrightarrow> unat x div 4096 = unat y div 4096"
proof -
  have "same_page x y \<longleftrightarrow> unat x div 4096 * 4096 = unat y div 4096 * 4096"
    unfolding same_page_def word_eq_unat not_mask12 unat_and_not_mask by (simp add: minus_mod_eq_div_mult)
  then show ?thesis by simp
qed

lemma same_slot_page:
  assumes "kstack_geom p" "unat slot < slots p" "k \<le> unat (kp_stack_pages p)"
  shows "same_page x (slot_page p slot k) \<longleftrightarrow>
    slot_start p slot + k * 4096 \<le> unat x \<and> unat x < slot_start p slot + Suc k * 4096"
proof -
  obtain s where s: "slot_start p slot = s * 4096"
    using slot_start_mod [OF assms(1), of slot] by (auto simp: mod_eq_0_iff_dvd elim: dvdE)
  have u: "unat (slot_page p slot k) = (s + k) * 4096"
    using unat_slot_page [OF assms(1,2)] assms(3) by (simp add: s)
  have "same_page x (slot_page p slot k) \<longleftrightarrow> unat x div 4096 = s + k"
    unfolding same_page_nat u by simp
  also have "\<dots> \<longleftrightarrow> (s + k) * 4096 \<le> unat x \<and> unat x < (s + Suc k) * 4096"
    by (metis add_Suc_right div_less_iff_less_mult less_Suc_eq_le less_eq_div_iff_mult_less_eq le_antisym zero_less_numeral order_refl)
  finally show ?thesis by (simp only: s add_mult_distrib [symmetric])
qed

lemma slot_names:
  "slot_guard_of p slot = slot_page p slot 0"
  "slot_stack_base_of p slot + of_nat i * 4096 = slot_page p slot (Suc i)"
  by (simp_all add: slot_guard_of_def slot_stack_base_of_def slot_page_def algebra_simps)

section \<open>What the mapping steps may change\<close>

text \<open>
  \<open>vm_frame R p p'\<close>: going from \<open>p\<close> to \<open>p'\<close> only the translation of addresses in \<open>R\<close> may
  have changed, the address space is still well formed and covers what it covered, and the
  pool's geometry, bitmap and counters are the same.
\<close>

definition kp_fixed where
  "kp_fixed p = (kp_pool_base p, kp_slot_count p, kp_stack_pages p, kp_slot_pages p, kp_bitmap p,
     kp_bitmap_words p, kp_guard_kind p, kp_used_slots p, kp_peak_used p, kp_stat_alloc p,
     kp_stat_free p, kp_inited p)"

lemma kp_fixedD:
  assumes "kp_fixed p' = kp_fixed p"
  shows "kp_pool_base p' = kp_pool_base p" "kp_slot_count p' = kp_slot_count p"
    "kp_stack_pages p' = kp_stack_pages p" "kp_slot_pages p' = kp_slot_pages p"
    "kp_bitmap p' = kp_bitmap p" "kp_bitmap_words p' = kp_bitmap_words p"
    "kp_guard_kind p' = kp_guard_kind p" "kp_used_slots p' = kp_used_slots p"
    "kp_peak_used p' = kp_peak_used p" "kp_inited p' = kp_inited p"
    "kp_stat_alloc p' = kp_stat_alloc p" "kp_stat_free p' = kp_stat_free p"
  using assms by (simp_all add: kp_fixed_def)

definition vm_frame :: "u32 set \<Rightarrow> kstack_pool_t \<Rightarrow> kstack_pool_t \<Rightarrow> bool" where
  "vm_frame R p p' \<longleftrightarrow> kp_fixed p' = kp_fixed p \<and> vmap_inv (kp_vm p') \<and>
     (\<forall>x. x \<notin> R \<longrightarrow> walk (kp_vm p') x = walk (kp_vm p) x) \<and>
     (\<forall>x. (covered (kp_vm p) x \<longrightarrow> covered (kp_vm p') x) \<and> (fine (kp_vm p) x \<longrightarrow> fine (kp_vm p') x))"

lemma vm_frameD:
  assumes "vm_frame R p p'"
  shows "kp_fixed p' = kp_fixed p" "vmap_inv (kp_vm p')"
    "x \<notin> R \<Longrightarrow> walk (kp_vm p') x = walk (kp_vm p) x"
    "covered (kp_vm p) x \<Longrightarrow> covered (kp_vm p') x"
    "fine (kp_vm p) x \<Longrightarrow> fine (kp_vm p') x"
  using assms by (auto simp: vm_frame_def)

lemma vm_frame_refl: "vmap_inv (kp_vm p) \<Longrightarrow> vm_frame R p p"
  by (simp add: vm_frame_def)

lemma vm_frame_trans: "vm_frame R p q \<Longrightarrow> vm_frame R q r \<Longrightarrow> vm_frame R p r"
  by (auto simp: vm_frame_def)

lemma vm_frame_mono: "vm_frame R p q \<Longrightarrow> R \<subseteq> S \<Longrightarrow> vm_frame S p q"
  by (auto simp: vm_frame_def)

lemma vm_frame_upd [simp]:
  "vm_frame R p (q\<lparr>kp_last_vmap_err := e\<rparr>) = vm_frame R p q"
  "vm_frame R p (q\<lparr>kp_stat_guard_split := n\<rparr>) = vm_frame R p q"
  "vm_frame R p (q\<lparr>kp_flushed := f\<rparr>) = vm_frame R p q"
  "vm_frame R p (q\<lparr>kp_stat_flush := n\<rparr>) = vm_frame R p q"
  "vm_frame R (p\<lparr>kp_stat_guard_split := n\<rparr>) q = vm_frame R p q"
  by (simp_all add: vm_frame_def kp_fixed_def)

definition page_set :: "u32 \<Rightarrow> u32 set" where "page_set va = {x. same_page x va}"

lemma with_vm_frame:
  assumes "pm.touches_only va (kp_vm p) (snd (f (kp_vm p)))" and "with_vm f p = (e, p')"
  shows "vm_frame (page_set va) p p'"
  using assms by (auto simp: with_vm_def vm_frame_def pm.touches_only_def page_set_def kp_fixed_def split: prod.splits)

lemma vm_frame_steps:
  assumes "vmap_inv (kp_vm p)" "covered (kp_vm p) va"
  shows "with_vm (vmap_split_section va) p = (e, p') \<Longrightarrow> vm_frame (page_set va) p p'"
    and "with_vm (vmap_unmap va) p = (e, p') \<Longrightarrow> vm_frame (page_set va) p p'"
    and "with_vm (vmap_map va pa (Some a)) p = (e, p') \<Longrightarrow> vm_frame (page_set va) p p'"
    and "with_vm (vmap_set_attr va (Some a)) p = (e, p') \<Longrightarrow> vm_frame (page_set va) p p'"
  by (erule with_vm_frame [rotated], rule pm.touches [OF assms])+

lemma vmap_result_frame: "vmap_result e p = (r, p') \<Longrightarrow> vm_frame R q p \<Longrightarrow> vm_frame R q p'"
  by (auto simp: vmap_result_def split: if_splits)

lemma vmap_result_OK: "vmap_result e p = (KSTACK_OK, p') \<longleftrightarrow> e = VMAP_OK \<and> p' = p"
  by (auto simp: vmap_result_def)

lemma with_vm_vm: "with_vm f p = (e, p') \<Longrightarrow> f (kp_vm p) = (e, kp_vm p')"
  by (auto simp: with_vm_def split: prod.splits)

lemma walk_same_page: "same_page x y \<Longrightarrow> walk v y = None \<Longrightarrow> walk v x = None"
  by (auto simp: walk_def same_page_iff Let_def split: option.splits if_splits)

lemma unmap_absent:
  assumes "vmap_inv v" "vmap_unmap va v = (VMAP_ERR_NOT_MAPPED, v')"
  shows "v' = v \<and> walk v va = None"
proof -
  have g: "in_range v va" "va AND 0xFFF = 0" using assms(2) by (auto simp: vmap_unmap_def split: if_splits)
  show ?thesis using assms(2) unfolding vmap_unmap_spec [OF assms(1) g] by (auto split: if_splits)
qed

section \<open>Guards\<close>

definition hole :: "(u32 \<Rightarrow> 'b option) \<Rightarrow> u32 \<Rightarrow> u32 \<Rightarrow> 'b option" where
  "hole w va = (\<lambda>x. if same_page x va then None else w x)"

lemma unmap_hole:
  assumes "vmap_inv (kp_vm p)" "covered (kp_vm p) va" "with_vm (vmap_unmap va) p = (e, p')"
    and "e = VMAP_OK \<or> e = VMAP_ERR_NOT_MAPPED"
  shows "walk (kp_vm p') = hole (walk (kp_vm p)) va"
proof (cases "e = VMAP_OK")
  case True
  then show ?thesis using pm.unmap_ok [OF assms(1,2)] with_vm_vm [OF assms(3)] by (simp add: hole_def)
next
  case False
  then have "vmap_unmap va (kp_vm p) = (VMAP_ERR_NOT_MAPPED, kp_vm p')" using assms(4) with_vm_vm [OF assms(3)] by simp
  note * = unmap_absent [OF assms(1) this]
  then show ?thesis using walk_same_page [of _ va] by (auto simp: hole_def fun_eq_iff)
qed

lemma guard_unmap_frame:
  assumes "vmap_inv (kp_vm p)" "covered (kp_vm p) g" "guard_unmap g p = (r, p')"
  shows "vm_frame (page_set g) p p'"
proof -
  obtain e1 p1 where 1: "with_vm (vmap_unmap g) p = (e1, p1)" by fastforce
  note f1 = vm_frame_steps(2) [OF assms(1,2) 1]
  let ?p1 = "p1\<lparr>kp_stat_guard_split := kp_stat_guard_split p1 + 1\<rparr>"
  obtain e2 p2 where 2: "with_vm (vmap_split_section g) ?p1 = (e2, p2)" by fastforce
  have i1: "vmap_inv (kp_vm ?p1)" "covered (kp_vm ?p1) g" using vm_frameD(2,4) [OF f1] assms(2) by auto
  have f2: "vm_frame (page_set g) p p2"
    using vm_frame_trans [OF f1] vm_frame_steps(1) [OF i1 2] by simp
  obtain e3 p3 where 3: "(if e2 = VMAP_OK then with_vm (vmap_unmap g) p2 else (e2, p2)) = (e3, p3)" by fastforce
  have i2: "vmap_inv (kp_vm p2)" "covered (kp_vm p2) g" using vm_frameD(2,4) [OF f2] assms(2) by auto
  have f3: "vm_frame (page_set g) p p3"
    using vm_frame_trans [OF f2] vm_frame_steps(2) [OF i2, of e3 p3] f2 3 by (auto split: if_splits)
  show ?thesis using assms(3) 1 2 3 f1 f3
    by (auto simp: guard_unmap_def intro: vmap_result_frame split: if_splits)
qed

lemma guard_unmap_OK:
  assumes "vmap_inv (kp_vm p)" "covered (kp_vm p) g" "guard_unmap g p = (KSTACK_OK, p')"
  shows "walk (kp_vm p') = hole (walk (kp_vm p)) g"
proof -
  obtain e1 p1 where 1: "with_vm (vmap_unmap g) p = (e1, p1)" by fastforce
  note f1 = vm_frame_steps(2) [OF assms(1,2) 1]
  let ?p1 = "p1\<lparr>kp_stat_guard_split := kp_stat_guard_split p1 + 1\<rparr>"
  obtain e2 p2 where 2: "with_vm (vmap_split_section g) ?p1 = (e2, p2)" by fastforce
  have i1: "vmap_inv (kp_vm ?p1)" "covered (kp_vm ?p1) g" using vm_frameD(2,4) [OF f1] assms(2) by auto
  have f2: "vm_frame (page_set g) ?p1 p2" by (rule vm_frame_steps(1) [OF i1 2])
  have i2: "vmap_inv (kp_vm p2)" "covered (kp_vm p2) g" using vm_frameD(2,4) [OF f2] i1(2) by auto
  have w2: "walk (kp_vm p2) = walk (kp_vm p1)"
    using pm.split_any [OF i1 with_vm_vm [OF 2]] by simp
  show ?thesis
  proof (cases "e1 = VMAP_ERR_IS_SECTION")
    case True
    have w1: "walk (kp_vm p1) = walk (kp_vm p)"
      using pm.unmap_err [OF assms(1) with_vm_vm [OF 1]] True by simp
    obtain e3 p3 where 3: "(if e2 = VMAP_OK then with_vm (vmap_unmap g) p2 else (e2, p2)) = (e3, p3)" by fastforce
    have "kp_vm p' = kp_vm p3" "e3 = VMAP_ERR_NOT_MAPPED \<or> e3 = VMAP_OK" "e2 = VMAP_OK \<or> e2 = VMAP_ERR_NOT_MAPPED"
      using assms(3) 1 2 3 True by (auto simp: guard_unmap_def vmap_result_OK split: if_splits)
    moreover have "e2 \<noteq> VMAP_ERR_NOT_MAPPED"
      using with_vm_vm [OF 2] by (auto simp: vmap_split_section_def Let_def split: if_splits option.splits prod.splits)
    ultimately show ?thesis using unmap_hole [OF i2, of e3 p3] 3 w1 w2 by (auto simp: split: if_splits)
  next
    case False
    then have "kp_vm p' = kp_vm p1" "e1 = VMAP_ERR_NOT_MAPPED \<or> e1 = VMAP_OK"
      using assms(3) 1 by (auto simp: guard_unmap_def vmap_result_OK split: if_splits)
    then show ?thesis using unmap_hole [OF assms(1,2) 1] by auto
  qed
qed

definition paged :: "(u32 \<Rightarrow> (u32 \<times> u32) option) \<Rightarrow> u32 \<Rightarrow> u32 \<Rightarrow> vmap_attr_t \<Rightarrow> (u32 \<Rightarrow> (u32 \<times> u32) option)" where
  "paged w va pa a = (\<lambda>x. if same_page x va then Some (pa, page_attr_of a) else w x)"

definition guarded ::
  "kstack_guard \<Rightarrow> (u32 \<Rightarrow> (u32 \<times> u32) option) \<Rightarrow> u32 \<Rightarrow> (u32 \<Rightarrow> (u32 \<times> u32) option) \<Rightarrow> bool" where
  "guarded kind w g w' =
     (if kind = KSTACK_GUARD_AP_NONE then \<exists>pa. w' = paged w g pa attr_none else w' = hole w g)"

lemma guard_apply_cases:
  assumes "guard_apply g p = (r, p')"
  obtains (unmapped) "kp_guard_kind p \<noteq> KSTACK_GUARD_AP_NONE" "guard_unmap g p = (r, p')"
  | (split_fail) s p1 where "kp_guard_kind p = KSTACK_GUARD_AP_NONE"
      "with_vm (vmap_split_section g) p = (s, p1)" "s \<noteq> VMAP_OK" "vmap_result s p1 = (r, p')"
  | (mapped) p1 e f q where "kp_guard_kind p = KSTACK_GUARD_AP_NONE"
      "p1 = p \<or> with_vm (vmap_split_section g) p = (VMAP_OK, p1)"
      "f = vmap_map g g (Some attr_none) \<or> f = vmap_set_attr g (Some attr_none)"
      "with_vm f p1 = (e, q)" "vmap_result e q = (r, p')"
proof (cases "kp_guard_kind p = KSTACK_GUARD_AP_NONE")
  case False
  then show thesis using assms unmapped by (simp add: guard_apply_def)
next
  case kind: True
  show thesis
  proof (cases "vmap_lookup (kp_vm p) g = VMAP_RESULT_SECTION")
    case True
    obtain s p1 where 1: "with_vm (vmap_split_section g) p = (s, p1)" by fastforce
    show thesis
    proof (cases "s = VMAP_OK")
      case False
      then show thesis using assms kind True 1 split_fail by (simp add: guard_apply_def)
    next
      case ok: True
      then show thesis using assms kind True 1
        by (cases "vmap_lookup (kp_vm p1) g = 0")
          (auto simp: guard_apply_def intro: mapped split: prod.splits)
    qed
  next
    case False
    then show thesis using assms kind
      by (cases "vmap_lookup (kp_vm p) g = 0")
        (auto simp: guard_apply_def intro: mapped split: prod.splits)
  qed
qed

lemma guard_apply_frame:
  assumes "vmap_inv (kp_vm p)" "covered (kp_vm p) g" "guard_apply g p = (r, p')"
  shows "vm_frame (page_set g) p p'"
  using assms(3)
proof (cases rule: guard_apply_cases)
  case unmapped
  then show ?thesis using guard_unmap_frame [OF assms(1,2)] by blast
next
  case (split_fail s p1)
  then show ?thesis using vm_frame_steps(1) [OF assms(1,2)] vmap_result_frame by blast
next
  case (mapped p1 e f q)
  have f1: "vm_frame (page_set g) p p1"
    using mapped(2) vm_frame_steps(1) [OF assms(1,2)] vm_frame_refl [OF assms(1)] by blast
  have i1: "vmap_inv (kp_vm p1)" "covered (kp_vm p1) g" using vm_frameD(2,4) [OF f1] assms(2) by auto
  have "vm_frame (page_set g) p1 q" using mapped(3,4) vm_frame_steps(3,4) [OF i1] by blast
  then show ?thesis using vm_frame_trans [OF f1] vmap_result_frame [OF mapped(5)] by blast
qed

lemma guard_apply_OK:
  assumes "vmap_inv (kp_vm p)" "covered (kp_vm p) g" "guard_apply g p = (KSTACK_OK, p')"
  shows "guarded (kp_guard_kind p) (walk (kp_vm p)) g (walk (kp_vm p'))"
  using assms(3)
proof (cases rule: guard_apply_cases)
  case unmapped
  then show ?thesis using guard_unmap_OK [OF assms(1,2)] by (simp add: guarded_def)
next
  case (split_fail s p1)
  then show ?thesis by (simp add: vmap_result_OK)
next
  case (mapped p1 e f q)
  have f1: "vm_frame (page_set g) p p1"
    using mapped(2) vm_frame_steps(1) [OF assms(1,2)] vm_frame_refl [OF assms(1)] by blast
  have i1: "vmap_inv (kp_vm p1)" "covered (kp_vm p1) g" using vm_frameD(2,4) [OF f1] assms(2) by auto
  have w1: "walk (kp_vm p1) = walk (kp_vm p)"
    using mapped(2) pm.split_any [OF assms(1,2)] with_vm_vm [where f = "vmap_split_section g"] by blast
  have ok: "e = VMAP_OK" "p' = q" using mapped(5) by (simp_all add: vmap_result_OK)
  have "\<exists>pa. walk (kp_vm q) = paged (walk (kp_vm p1)) g pa attr_none"
    using mapped(3,4) with_vm_vm [OF mapped(4)] pm.map_ok [OF i1] pm.set_attr_ok [OF i1]
    unfolding ok(1) paged_def by blast
  then show ?thesis using mapped(1) w1 ok by (simp add: guarded_def)
qed

section \<open>Stack pages\<close>

lemma page_claim_frame:
  assumes "vmap_inv (kp_vm p)" "covered (kp_vm p) va" "page_claim va pa a p = (r, p')"
  shows "vm_frame (page_set va) p p'"
proof -
  obtain e1 p1 where 1: "with_vm (vmap_split_section va) p = (e1, p1)" by fastforce
  obtain e2 p2 where 2: "with_vm (vmap_unmap va) p1 = (e2, p2)" by fastforce
  obtain e3 p3 where 3: "with_vm (vmap_map va pa (Some a)) p2 = (e3, p3)" by fastforce
  note f1 = vm_frame_steps(1) [OF assms(1,2) 1]
  note f2 = vm_frame_trans [OF f1 vm_frame_steps(2) [OF vm_frameD(2) [OF f1] vm_frameD(4) [OF f1 assms(2)] 2]]
  note f3 = vm_frame_trans [OF f2 vm_frame_steps(3) [OF vm_frameD(2) [OF f2] vm_frameD(4) [OF f2 assms(2)] 3]]
  show ?thesis using assms(3) 1 2 3 f1 f2 f3
    by (auto simp: page_claim_def intro: vmap_result_frame split: if_splits)
qed

lemma page_claim_OK:
  assumes "vmap_inv (kp_vm p)" "covered (kp_vm p) va" "page_claim va pa a p = (KSTACK_OK, p')"
  shows "walk (kp_vm p') = paged (walk (kp_vm p)) va pa a \<and> va AND 0xFFF = 0"
proof -
  obtain e1 p1 where 1: "with_vm (vmap_split_section va) p = (e1, p1)" by fastforce
  obtain e2 p2 where 2: "with_vm (vmap_unmap va) p1 = (e2, p2)" by fastforce
  obtain e3 p3 where 3: "with_vm (vmap_map va pa (Some a)) p2 = (e3, p3)" by fastforce
  have ok: "e3 = VMAP_OK" "p' = p3"
    using assms(3) 1 2 3 by (auto simp: page_claim_def vmap_result_OK split: if_splits)
  have i1: "vmap_inv (kp_vm p1)" using pm.split_any [OF assms(1,2) with_vm_vm [OF 1]] by simp
  have "e2 \<noteq> VMAP_OK \<Longrightarrow> kp_vm p2 = kp_vm p1" using pm.unmap_err [OF i1 with_vm_vm [OF 2]] .
  then have "walk (kp_vm p') = paged (walk (kp_vm p)) va pa a"
    using pm.claim [OF assms(1,2) with_vm_vm [OF 1] with_vm_vm [OF 2], of pa a "kp_vm p3"] with_vm_vm [OF 3] ok
    by (simp add: paged_def)
  moreover have "va AND 0xFFF = 0" using with_vm_vm [OF 3] ok(1) by (auto simp: vmap_map_def split: if_splits)
  ultimately show ?thesis by simp
qed

text \<open>The pages of a list of indices, mapped at their own addresses.\<close>

lemma claim_pages_frame:
  assumes "vmap_inv (kp_vm p)" "\<forall>i\<in>set is. covered (kp_vm p) (base + of_nat i * 4096)"
    and "claim_pages is base p = (r, p')"
  shows "vm_frame (\<Union>i\<in>set is. page_set (base + of_nat i * 4096)) p p'"
  using assms
proof (induction "is" arbitrary: p)
  case Nil
  then show ?case by (simp add: vm_frame_refl)
next
  case (Cons i "is")
  let ?va = "base + of_nat i * 4096"
  let ?R = "\<Union>i\<in>set (i # is). page_set (base + of_nat i * 4096)"
  obtain e p1 where 1: "page_claim ?va ?va vmap_attr_normal p = (e, p1)" by fastforce
  have f1: "vm_frame ?R p p1"
    by (rule vm_frame_mono [OF page_claim_frame [OF Cons.prems(1) _ 1]]) (use Cons.prems(2) in auto)
  show ?case
  proof (cases "e = KSTACK_OK")
    case True
    then have c: "claim_pages is base p1 = (r, p')" using Cons.prems(3) 1 by (simp add: Let_def)
    have "vm_frame (\<Union>i\<in>set is. page_set (base + of_nat i * 4096)) p1 p'"
      by (rule Cons.IH [OF _ _ c]) (use vm_frameD(2,4) [OF f1] Cons.prems(2) in auto)
    then have "vm_frame ?R p1 p'" by (rule vm_frame_mono) auto
    then show ?thesis by (rule vm_frame_trans [OF f1])
  next
    case False
    then show ?thesis using Cons.prems(3) 1 f1 by (simp add: Let_def)
  qed
qed

lemma claim_pages_OK:
  assumes "vmap_inv (kp_vm p)" "\<forall>i\<in>set is. covered (kp_vm p) (base + of_nat i * 4096)"
    and "claim_pages is base p = (KSTACK_OK, p')"
  shows "walk (kp_vm p') x =
    (if \<exists>i\<in>set is. same_page x (base + of_nat i * 4096)
     then Some (x AND NOT 0xFFF, page_attr_of vmap_attr_normal) else walk (kp_vm p) x)"
  using assms
proof (induction "is" arbitrary: p)
  case Nil
  then show ?case by simp
next
  case (Cons i "is")
  let ?va = "base + of_nat i * 4096"
  obtain e p1 where 1: "page_claim ?va ?va vmap_attr_normal p = (e, p1)" by fastforce
  have cov: "covered (kp_vm p) ?va" using Cons.prems(2) by simp
  note f1 = page_claim_frame [OF Cons.prems(1) cov 1]
  have e: "e = KSTACK_OK" and c: "claim_pages is base p1 = (KSTACK_OK, p')"
    using Cons.prems(3) 1 by (auto simp: Let_def split: if_splits)
  have w: "walk (kp_vm p1) = paged (walk (kp_vm p)) ?va ?va vmap_attr_normal" and al: "?va AND 0xFFF = 0"
    using page_claim_OK [OF Cons.prems(1) cov] 1 e by auto
  have va: "x AND NOT 0xFFF = ?va" if "same_page x ?va"
    using that al unfolding aligned_page same_page_def by simp
  have "walk (kp_vm p') x =
    (if \<exists>i\<in>set is. same_page x (base + of_nat i * 4096)
     then Some (x AND NOT 0xFFF, page_attr_of vmap_attr_normal) else walk (kp_vm p1) x)"
    by (rule Cons.IH [OF _ _ c]) (use vm_frameD(2,4) [OF f1] Cons.prems(2) in auto)
  then show ?case using va unfolding w paged_def by auto
qed

section \<open>Releasing a slot\<close>

definition pages_set :: "kstack_pool_t \<Rightarrow> u32 \<Rightarrow> nat set \<Rightarrow> u32 set" where
  "pages_set p slot K = (\<Union>k\<in>K. page_set (slot_page p slot k))"

definition slot_set :: "kstack_pool_t \<Rightarrow> u32 \<Rightarrow> u32 set" where
  "slot_set p slot = pages_set p slot {..unat (kp_stack_pages p)}"

lemma pages_set_mono: "K \<subseteq> L \<Longrightarrow> pages_set p slot K \<subseteq> pages_set p slot L"
  by (auto simp: pages_set_def)

lemma slot_page_fixed:
  assumes "kp_fixed q = kp_fixed p"
  shows "slot_page q = slot_page p"
  by (simp add: slot_page_def slot_base_of_def fun_eq_iff kp_fixedD [OF assms])

lemma slot_of_fixed:
  assumes "kp_fixed q = kp_fixed p"
  shows "slot_base_of q = slot_base_of p" "slot_guard_of q = slot_guard_of p"
    "slot_stack_base_of q = slot_stack_base_of p" "slot_top_of q = slot_top_of p"
  by (simp_all add: slot_base_of_def slot_guard_of_def slot_stack_base_of_def slot_top_of_def fun_eq_iff
      kp_fixedD [OF assms])

lemma unmap_fine:
  assumes "vmap_inv (kp_vm p)" "covered (kp_vm p) va" "fine (kp_vm p) va" "va AND 0xFFF = 0"
    and "with_vm (vmap_unmap va) p = (e, p')"
  shows "e = VMAP_OK \<or> e = VMAP_ERR_NOT_MAPPED"
proof -
  have r: "in_range (kp_vm p) va" using assms(2) by (simp add: covered_def)
  have "l1_type (v_l1 (kp_vm p) (vmap_l1_index va)) \<noteq> MMU_L1_TYPE_SECTION"
    using assms(3) table_of_type by (fastforce simp: fine_def)
  then show ?thesis using with_vm_vm [OF assms(5)] unfolding vmap_unmap_spec [OF assms(1) r assms(4)]
    by (auto split: if_splits)
qed

lemma release_pages_frame:
  assumes "vmap_inv (kp_vm p)" "\<forall>i\<in>set is. covered (kp_vm p) (slot_page p slot (Suc i))"
    and "release_pages is slot first p = (r, p')"
  shows "vm_frame (pages_set p slot (Suc ` set is)) p p'"
  using assms
proof (induction "is" arbitrary: p first)
  case Nil
  then show ?case by (simp add: vm_frame_refl)
next
  case (Cons i "is")
  let ?va = "slot_page p slot (Suc i)"
  let ?R = "pages_set p slot (Suc ` set (i # is))"
  obtain e p1 where 1: "with_vm (vmap_unmap ?va) p = (e, p1)" by fastforce
  have f1: "vm_frame ?R p p1"
    by (rule vm_frame_mono [OF vm_frame_steps(2) [OF Cons.prems(1) _ 1]])
      (use Cons.prems(2) in \<open>auto simp: pages_set_def\<close>)
  note fix1 = slot_page_fixed [OF vm_frameD(1) [OF f1]]
  have rest: "vm_frame ?R p1 p'" if "release_pages is slot first' p1 = (r, p')" for first'
  proof -
    have "vm_frame (pages_set p1 slot (Suc ` set is)) p1 p'"
      by (rule Cons.IH [OF _ _ that]) (use vm_frameD(2,4) [OF f1] Cons.prems(2) fix1 in auto)
    then show ?thesis by (rule vm_frame_mono) (auto simp: pages_set_def fix1)
  qed
  obtain e2 p2 where 2: "vmap_result e p1 = (e2, p2)" by fastforce
  have rest2: "vm_frame ?R p2 p'" if "release_pages is slot first' p2 = (r, p')" for first'
  proof -
    have f2: "vm_frame ?R p p2" by (rule vmap_result_frame [OF 2 f1])
    note fix2 = slot_page_fixed [OF vm_frameD(1) [OF f2]]
    have "vm_frame (pages_set p2 slot (Suc ` set is)) p2 p'"
      by (rule Cons.IH [OF _ _ that]) (use vm_frameD(2,4) [OF f2] Cons.prems(2) fix2 in auto)
    then show ?thesis by (rule vm_frame_mono) (auto simp: pages_set_def fix2)
  qed
  show ?case using Cons.prems(3) 1 2 vm_frame_trans [OF f1] vmap_result_frame [OF 2 f1] rest rest2
    by (auto simp: slot_names intro: vm_frame_trans split: if_splits)
qed

lemma release_pages_fine:
  assumes "vmap_inv (kp_vm p)"
    and "\<forall>i\<in>set is. covered (kp_vm p) (slot_page p slot (Suc i)) \<and> fine (kp_vm p) (slot_page p slot (Suc i))
           \<and> slot_page p slot (Suc i) AND 0xFFF = 0"
    and "release_pages is slot first p = (r, p')"
  shows "r = first \<and> (\<forall>x. walk (kp_vm p') x =
    (if x \<in> pages_set p slot (Suc ` set is) then None else walk (kp_vm p) x))"
  using assms
proof (induction "is" arbitrary: p)
  case Nil
  then show ?case by (simp add: pages_set_def)
next
  case (Cons i "is")
  let ?va = "slot_page p slot (Suc i)"
  obtain e p1 where 1: "with_vm (vmap_unmap ?va) p = (e, p1)" by fastforce
  have va: "covered (kp_vm p) ?va" "fine (kp_vm p) ?va" "?va AND 0xFFF = 0" using Cons.prems(2) by auto
  note f1 = vm_frame_steps(2) [OF Cons.prems(1) va(1) 1]
  note fix1 = slot_page_fixed [OF vm_frameD(1) [OF f1]]
  note e = unmap_fine [OF Cons.prems(1) va 1]
  have c: "release_pages is slot first p1 = (r, p')" using Cons.prems(3) 1 e by (auto simp: slot_names)
  have "r = first \<and> (\<forall>x. walk (kp_vm p') x =
    (if x \<in> pages_set p1 slot (Suc ` set is) then None else walk (kp_vm p1) x))"
    by (rule Cons.IH [OF _ _ c]) (use vm_frameD(2,4,5) [OF f1] Cons.prems(2) fix1 in auto)
  then show ?case using unmap_hole [OF Cons.prems(1) va(1) 1 e]
    by (auto simp: hole_def pages_set_def page_set_def fix1)
qed

lemma flush_range_frame: "vm_frame R q p \<Longrightarrow> vm_frame R q (flush_range a b p)"
  by (simp add: flush_range_def)

lemma flush_range_vm [simp]: "kp_vm (flush_range a b p) = kp_vm p"
  by (simp add: flush_range_def)

definition slot_covered :: "kstack_pool_t \<Rightarrow> u32 \<Rightarrow> bool" where
  "slot_covered p slot \<longleftrightarrow> (\<forall>k \<le> unat (kp_stack_pages p). covered (kp_vm p) (slot_page p slot k))"

definition slot_fine :: "kstack_pool_t \<Rightarrow> u32 \<Rightarrow> bool" where
  "slot_fine p slot \<longleftrightarrow> (\<forall>k \<le> unat (kp_stack_pages p). fine (kp_vm p) (slot_page p slot k))"

lemma slot_covered_frame:
  assumes "vm_frame R p q" "slot_covered p slot"
  shows "slot_covered q slot"
  using assms(2) vm_frameD(4) [OF assms(1)] slot_page_fixed [OF vm_frameD(1) [OF assms(1)]]
    kp_fixedD(3) [OF vm_frameD(1) [OF assms(1)]]
  by (simp add: slot_covered_def)

lemma slot_fine_frame:
  assumes "vm_frame R p q" "slot_fine p slot"
  shows "slot_fine q slot"
  using assms(2) vm_frameD(5) [OF assms(1)] slot_page_fixed [OF vm_frameD(1) [OF assms(1)]]
    kp_fixedD(3) [OF vm_frameD(1) [OF assms(1)]]
  by (simp add: slot_fine_def)

lemma slot_release_frame:
  assumes "vmap_inv (kp_vm p)" "slot_covered p slot" "slot_release slot p = (r, p')"
  shows "vm_frame (slot_set p slot) p p'"
proof -
  obtain e1 p1 where 1: "guard_unmap (slot_guard_of p slot) p = (e1, p1)" by fastforce
  have f1: "vm_frame (slot_set p slot) p p1"
    by (rule vm_frame_mono [OF guard_unmap_frame [OF assms(1) _ 1]])
      (use assms(2) in \<open>auto simp: slot_set_def pages_set_def slot_covered_def slot_names\<close>)
  note fix1 = slot_page_fixed [OF vm_frameD(1) [OF f1]]
  obtain e2 p2 where 2: "release_pages [0..<unat (kp_stack_pages p1)] slot e1 p1 = (e2, p2)" by fastforce
  have "vm_frame (pages_set p1 slot (Suc ` set [0..<unat (kp_stack_pages p1)])) p1 p2"
    by (rule release_pages_frame [OF vm_frameD(2) [OF f1] _ 2])
      (use slot_covered_frame [OF f1 assms(2)] in \<open>auto simp: slot_covered_def\<close>)
  then have "vm_frame (slot_set p slot) p1 p2"
    by (rule vm_frame_mono)
      (auto simp: slot_set_def pages_set_def fix1 kp_fixedD(3) [OF vm_frameD(1) [OF f1]] less_Suc_eq_le)
  from vm_frame_trans [OF f1 this] show ?thesis
    using assms(3) 1 2 by (auto simp: slot_release_def intro: flush_range_frame)
qed

lemma guard_unmap_fine:
  assumes "vmap_inv (kp_vm p)" "covered (kp_vm p) g" "fine (kp_vm p) g" "g AND 0xFFF = 0"
    and "guard_unmap g p = (r, p')"
  shows "r = KSTACK_OK"
proof -
  obtain e1 p1 where 1: "with_vm (vmap_unmap g) p = (e1, p1)" by fastforce
  show ?thesis using unmap_fine [OF assms(1-4) 1] assms(5) 1
    by (auto simp: guard_unmap_def vmap_result_def)
qed

lemma atLeast_pages: "Suc ` set [0..<n] \<union> {0} = {..n}"
  by (auto simp: image_iff less_Suc_eq_0_disj) (metis atLeastLessThan_iff bot_nat_0.extremum gr0_implies_Suc Suc_le_eq not0_implies_Suc)

lemma slot_release_fine:
  assumes "vmap_inv (kp_vm p)" "slot_covered p slot" "slot_fine p slot"
    and al: "\<forall>k \<le> unat (kp_stack_pages p). slot_page p slot k AND 0xFFF = 0"
    and "slot_release slot p = (r, p')"
  shows "r = KSTACK_OK \<and> (\<forall>x. walk (kp_vm p') x = (if x \<in> slot_set p slot then None else walk (kp_vm p) x))"
proof -
  obtain e1 p1 where 1: "guard_unmap (slot_page p slot 0) p = (e1, p1)" by fastforce
  have g: "covered (kp_vm p) (slot_page p slot 0)" "fine (kp_vm p) (slot_page p slot 0)"
    "slot_page p slot 0 AND 0xFFF = 0"
    using assms(2,3) al by (auto simp: slot_covered_def slot_fine_def)
  note f1 = guard_unmap_frame [OF assms(1) g(1) 1]
  have e1: "e1 = KSTACK_OK" using guard_unmap_fine [OF assms(1) g 1] .
  have w1: "walk (kp_vm p1) = hole (walk (kp_vm p)) (slot_page p slot 0)"
    using guard_unmap_OK [OF assms(1) g(1)] 1 e1 by simp
  note fix1 = slot_page_fixed [OF vm_frameD(1) [OF f1]] kp_fixedD(3) [OF vm_frameD(1) [OF f1]]
  obtain e2 p2 where 2: "release_pages [0..<unat (kp_stack_pages p1)] slot e1 p1 = (e2, p2)" by fastforce
  have r2: "e2 = e1 \<and> (\<forall>x. walk (kp_vm p2) x =
    (if x \<in> pages_set p1 slot (Suc ` set [0..<unat (kp_stack_pages p1)]) then None else walk (kp_vm p1) x))"
    by (rule release_pages_fine [OF vm_frameD(2) [OF f1] _ 2])
      (use slot_covered_frame [OF f1 assms(2)] slot_fine_frame [OF f1 assms(3)] al fix1 in
        \<open>auto simp: slot_covered_def slot_fine_def\<close>)
  have p': "r = e2" "kp_vm p' = kp_vm p2"
    using assms(5) 1 2 by (auto simp: slot_release_def slot_names)
  have "x \<in> slot_set p slot \<longleftrightarrow> x \<in> pages_set p1 slot (Suc ` set [0..<unat (kp_stack_pages p1)]) \<or>
      same_page x (slot_page p slot 0)" for x
    unfolding slot_set_def pages_set_def fix1 page_set_def
    using atLeast_pages [of "unat (kp_stack_pages p)"] by blast
  then show ?thesis using r2 e1 w1 p' by (auto simp: hole_def)
qed

section \<open>Setting a slot up\<close>

lemma slot_setup_frame:
  assumes "vmap_inv (kp_vm p)" "slot_covered p slot" "slot_setup slot p = (r, p')"
  shows "vm_frame (slot_set p slot) p p'"
proof -
  obtain e1 p1 where 1: "guard_apply (slot_page p slot 0) p = (e1, p1)" by fastforce
  have f1: "vm_frame (slot_set p slot) p p1"
    by (rule vm_frame_mono [OF guard_apply_frame [OF assms(1) _ 1]])
      (use assms(2) in \<open>auto simp: slot_set_def pages_set_def slot_covered_def\<close>)
  note fix1 = slot_page_fixed [OF vm_frameD(1) [OF f1]] kp_fixedD(3) [OF vm_frameD(1) [OF f1]]
  note fx = slot_of_fixed [OF vm_frameD(1) [OF f1]]
  show ?thesis
  proof (cases "e1 = KSTACK_OK")
    case True
    then have c: "claim_pages [0..<unat (kp_stack_pages p)] (slot_stack_base_of p slot) p1 = (r, p')"
      using assms(3) 1 fix1 fx by (simp add: slot_setup_def slot_names)
    have "vm_frame (\<Union>i\<in>set [0..<unat (kp_stack_pages p)]. page_set (slot_stack_base_of p slot + of_nat i * 4096)) p1 p'"
      by (rule claim_pages_frame [OF vm_frameD(2) [OF f1] _ c])
        (use slot_covered_frame [OF f1 assms(2)] fix1 in \<open>auto simp: slot_names slot_covered_def\<close>)
    then have "vm_frame (slot_set p slot) p1 p'"
      by (rule vm_frame_mono) (use Suc_leI in \<open>fastforce simp: slot_set_def pages_set_def slot_names\<close>)
    then show ?thesis by (rule vm_frame_trans [OF f1])
  next
    case False
    then show ?thesis using assms(3) 1 f1 by (simp add: slot_setup_def slot_names)
  qed
qed

lemma page_claim_fine:
  assumes "vmap_inv (kp_vm p)" "covered (kp_vm p) va" "page_claim va pa a p = (KSTACK_OK, p')"
  shows "fine (kp_vm p') va"
proof -
  obtain e1 p1 where 1: "with_vm (vmap_split_section va) p = (e1, p1)" by fastforce
  obtain e2 p2 where 2: "with_vm (vmap_unmap va) p1 = (e2, p2)" by fastforce
  obtain e3 p3 where 3: "with_vm (vmap_map va pa (Some a)) p2 = (e3, p3)" by fastforce
  have ok: "e3 = VMAP_OK" "p' = p3" "e1 = VMAP_OK \<or> e1 = VMAP_ERR_IS_SECTION"
    using assms(3) 1 2 3 by (auto simp: page_claim_def vmap_result_OK split: if_splits)
  have g: "in_range (kp_vm p) va" "va AND 0xFFF = 0"
    using assms(2) page_claim_OK [OF assms] by (auto simp: covered_def)
  have "e1 \<noteq> VMAP_ERR_IS_SECTION"
    using with_vm_vm [OF 1] assms(2) table_of_type
    unfolding split_section_spec [OF assms(1) g] by (fastforce simp: covered_def split: if_splits)
  then have "fine (kp_vm p1) va" using pm.split_fine [OF assms(1)] with_vm_vm [OF 1] ok(3) assms(2) by blast
  moreover note f1 = vm_frame_steps(1) [OF assms(1,2) 1]
  moreover note f2 = vm_frame_steps(2) [OF vm_frameD(2) [OF f1] vm_frameD(4) [OF f1 assms(2)] 2]
  moreover note f3 = vm_frame_steps(3) [OF vm_frameD(2) [OF f2] vm_frameD(4) [OF f2 vm_frameD(4) [OF f1 assms(2)]] 3]
  ultimately show ?thesis using vm_frameD(5) ok(2) by blast
qed

lemma claim_pages_fine:
  assumes "vmap_inv (kp_vm p)" "\<forall>i\<in>set is. covered (kp_vm p) (base + of_nat i * 4096)"
    and "claim_pages is base p = (KSTACK_OK, p')" and "i \<in> set is"
  shows "fine (kp_vm p') (base + of_nat i * 4096)"
  using assms
proof (induction "is" arbitrary: p)
  case Nil
  then show ?case by simp
next
  case (Cons j "is")
  let ?va = "base + of_nat j * 4096"
  obtain e p1 where 1: "page_claim ?va ?va vmap_attr_normal p = (e, p1)" by fastforce
  have cov: "covered (kp_vm p) ?va" using Cons.prems(2) by simp
  note f1 = page_claim_frame [OF Cons.prems(1) cov 1]
  have e: "e = KSTACK_OK" and c: "claim_pages is base p1 = (KSTACK_OK, p')"
    using Cons.prems(3) 1 by (auto simp: Let_def split: if_splits)
  have cov1: "\<forall>i\<in>set is. covered (kp_vm p1) (base + of_nat i * 4096)"
    using vm_frameD(4) [OF f1] Cons.prems(2) by auto
  have "fine (kp_vm p1) ?va" using page_claim_fine [OF Cons.prems(1) cov] 1 e by simp
  then have "fine (kp_vm p') ?va"
    using vm_frameD(5) [OF claim_pages_frame [OF vm_frameD(2) [OF f1] cov1 c]] by blast
  then show ?case using Cons.IH [OF vm_frameD(2) [OF f1] cov1 c] Cons.prems(4) by auto
qed


lemma fine_iff: "covered v va \<Longrightarrow> fine v va \<longleftrightarrow> l1_type (v_l1 v (vmap_l1_index va)) \<noteq> MMU_L1_TYPE_SECTION"
  using table_of_type by (fastforce simp: covered_def fine_def)

lemma unmap_not_section:
  assumes "vmap_inv v" "covered v va" "vmap_unmap va v = (e, v')" "e = VMAP_OK \<or> e = VMAP_ERR_NOT_MAPPED"
  shows "fine v va"
proof -
  have g: "in_range v va" "va AND 0xFFF = 0" using assms(3,4) by (auto simp: vmap_unmap_def split: if_splits)
  show ?thesis using assms(3,4) fine_iff [OF assms(2)]
    unfolding vmap_unmap_spec [OF assms(1) g] by (auto split: if_splits)
qed

lemma guard_unmap_gives_fine:
  assumes "vmap_inv (kp_vm p)" "covered (kp_vm p) g" "guard_unmap g p = (KSTACK_OK, p')"
  shows "fine (kp_vm p') g"
proof -
  obtain e1 p1 where 1: "with_vm (vmap_unmap g) p = (e1, p1)" by fastforce
  note f1 = vm_frame_steps(2) [OF assms(1,2) 1]
  let ?p1 = "p1\<lparr>kp_stat_guard_split := kp_stat_guard_split p1 + 1\<rparr>"
  obtain e2 p2 where 2: "with_vm (vmap_split_section g) ?p1 = (e2, p2)" by fastforce
  have i1: "vmap_inv (kp_vm ?p1)" "covered (kp_vm ?p1) g" using vm_frameD(2,4) [OF f1] assms(2) by auto
  have f2: "vm_frame (page_set g) ?p1 p2" by (rule vm_frame_steps(1) [OF i1 2])
  have i2: "vmap_inv (kp_vm p2)" "covered (kp_vm p2) g" using vm_frameD(2,4) [OF f2] i1(2) by auto
  show ?thesis
  proof (cases "e1 = VMAP_ERR_IS_SECTION")
    case True
    obtain e3 p3 where 3: "(if e2 = VMAP_OK then with_vm (vmap_unmap g) p2 else (e2, p2)) = (e3, p3)" by fastforce
    have k: "kp_vm p' = kp_vm p3" "e2 = VMAP_OK \<or> e2 = VMAP_ERR_NOT_MAPPED"
      using assms(3) 1 2 3 True by (auto simp: guard_unmap_def vmap_result_OK split: if_splits)
    moreover have "e2 \<noteq> VMAP_ERR_NOT_MAPPED"
      using with_vm_vm [OF 2] by (auto simp: vmap_split_section_def Let_def split: if_splits option.splits prod.splits)
    ultimately have "fine (kp_vm p2) g" using pm.split_fine [OF i1(1)] with_vm_vm [OF 2] i1(2) by blast
    moreover have "vm_frame (page_set g) p2 p3"
      using 3 vm_frame_steps(2) [OF i2] vm_frame_refl [OF i2(1)] by (auto split: if_splits)
    ultimately show ?thesis using vm_frameD(5) k(1) by metis
  next
    case False
    then have "kp_vm p' = kp_vm p1" "e1 = VMAP_ERR_NOT_MAPPED \<or> e1 = VMAP_OK"
      using assms(3) 1 by (auto simp: guard_unmap_def vmap_result_OK split: if_splits)
    then show ?thesis using unmap_not_section [OF assms(1,2) with_vm_vm [OF 1]] vm_frameD(5) [OF f1] by auto
  qed
qed

lemma guard_apply_gives_fine:
  assumes "vmap_inv (kp_vm p)" "covered (kp_vm p) g" "guard_apply g p = (KSTACK_OK, p')" "g AND 0xFFF = 0"
  shows "fine (kp_vm p') g"
proof (cases "kp_guard_kind p = KSTACK_GUARD_AP_NONE")
  case False
  then show ?thesis using guard_unmap_gives_fine [OF assms(1,2)] assms(3) by (simp add: guard_apply_def)
next
  case kind: True
  have r: "in_range (kp_vm p) g" using assms(2) by (simp add: covered_def)
  note frame = guard_apply_frame [OF assms(1-3)]
  show ?thesis
  proof (cases "vmap_lookup (kp_vm p) g = VMAP_RESULT_SECTION")
    case True
    obtain s p1 where 1: "with_vm (vmap_split_section g) p = (s, p1)" by fastforce
    have s: "s = VMAP_OK" using assms(3) kind True 1
      by (auto simp: guard_apply_def vmap_result_OK split: if_splits)
    have f: "fine (kp_vm p1) g" using pm.split_fine [OF assms(1)] with_vm_vm [OF 1] s assms(2) by blast
    note f1 = vm_frame_steps(1) [OF assms(1,2) 1]
    have i1: "vmap_inv (kp_vm p1)" "covered (kp_vm p1) g" using vm_frameD(2,4) [OF f1] assms(2) by auto
    obtain f e q where q: "f = vmap_map g g (Some attr_none) \<or> f = vmap_set_attr g (Some attr_none)"
        "with_vm f p1 = (e, q)" "vmap_result e q = (KSTACK_OK, p')"
      using assms(3) kind True 1 s by (auto simp: guard_apply_def split: if_splits prod.splits)
    have "vm_frame (page_set g) p1 q" using q(1,2) vm_frame_steps(3,4) [OF i1] by blast
    then show ?thesis using f vm_frameD(5) q(3) by (metis vmap_result_OK)
  next
    case False
    then have "fine (kp_vm p) g" using fine_iff [OF assms(2)] lookup_section_iff [OF assms(1) r] by simp
    then show ?thesis using vm_frameD(5) [OF frame] by simp
  qed
qed

lemma slot_page_aligned:
  assumes "kstack_geom p" "unat slot < slots p" "k \<le> Suc (unat (kp_stack_pages p))"
  shows "slot_page p slot k AND 0xFFF = 0"
proof -
  have "unat (slot_page p slot k) mod 2 ^ 12 = 0"
    using slot_start_mod [OF assms(1), of slot] by (simp add: unat_slot_page [OF assms] mod_eq_0_iff_dvd)
  then show ?thesis using and_mask_0_iff [of "slot_page p slot k" 12] by (simp add: mask12)
qed

lemma slot_set_range:
  assumes "kstack_geom p" "unat slot < slots p"
  shows "x \<in> slot_set p slot \<longleftrightarrow> slot_start p slot \<le> unat x \<and> unat x < slot_start p slot + slot_len p"
proof -
  have "x \<in> slot_set p slot \<longleftrightarrow> (\<exists>k \<le> unat (kp_stack_pages p). slot_start p slot + k * 4096 \<le> unat x
      \<and> unat x < slot_start p slot + Suc k * 4096)"
    unfolding slot_set_def pages_set_def page_set_def using same_slot_page [OF assms] by auto
  also have "\<dots> \<longleftrightarrow> slot_start p slot \<le> unat x \<and> unat x < slot_start p slot + slot_len p"
  proof
    assume "\<exists>k \<le> unat (kp_stack_pages p). slot_start p slot + k * 4096 \<le> unat x
      \<and> unat x < slot_start p slot + Suc k * 4096"
    then obtain k where k: "k \<le> unat (kp_stack_pages p)" "slot_start p slot + k * 4096 \<le> unat x"
      "unat x < slot_start p slot + Suc k * 4096" by blast
    have "Suc k * 4096 \<le> slot_len p" using k(1) by (intro mult_le_mono1) simp
    then show "slot_start p slot \<le> unat x \<and> unat x < slot_start p slot + slot_len p" using k by linarith
  next
    assume a: "slot_start p slot \<le> unat x \<and> unat x < slot_start p slot + slot_len p"
    let ?k = "(unat x - slot_start p slot) div 4096"
    have "unat x - slot_start p slot < slot_len p" using a by linarith
    then have "?k < Suc (unat (kp_stack_pages p))" by (rule less_mult_imp_div_less)
    moreover have "?k * 4096 \<le> unat x - slot_start p slot" by simp
    moreover have "unat x - slot_start p slot < Suc ?k * 4096"
      by (metis div_less_iff_less_mult lessI zero_less_numeral)
    ultimately show "\<exists>k \<le> unat (kp_stack_pages p). slot_start p slot + k * 4096 \<le> unat x
      \<and> unat x < slot_start p slot + Suc k * 4096" using a by (intro exI [of _ ?k]) linarith
  qed
  finally show ?thesis .
qed

lemma stack_pages_range:
  assumes "kstack_geom p" "unat slot < slots p"
  shows "(\<exists>i\<in>set [0..<unat (kp_stack_pages p)]. same_page x (slot_page p slot (Suc i))) \<longleftrightarrow>
    slot_start p slot + 4096 \<le> unat x \<and> unat x < slot_start p slot + slot_len p"
proof -
  have g: "same_page x (slot_page p slot 0) \<longleftrightarrow> slot_start p slot \<le> unat x \<and> unat x < slot_start p slot + 4096"
    using same_slot_page [OF assms, of 0 x] by simp
  have d: "\<not> same_page x (slot_page p slot 0)" if "i < unat (kp_stack_pages p)" "same_page x (slot_page p slot (Suc i))" for i
    using that same_slot_page [OF assms, of "Suc i" x] g by simp
  have "x \<in> slot_set p slot \<longleftrightarrow> same_page x (slot_page p slot 0) \<or>
      (\<exists>i\<in>set [0..<unat (kp_stack_pages p)]. same_page x (slot_page p slot (Suc i)))"
  proof -
    have "x \<in> slot_set p slot \<longleftrightarrow>
        (\<exists>k \<in> Suc ` set [0..<unat (kp_stack_pages p)] \<union> {0}. same_page x (slot_page p slot k))"
      unfolding atLeast_pages by (simp add: slot_set_def pages_set_def page_set_def)
    then show ?thesis by blast
  qed
  then have eq: "slot_start p slot \<le> unat x \<and> unat x < slot_start p slot + slot_len p \<longleftrightarrow>
      (slot_start p slot \<le> unat x \<and> unat x < slot_start p slot + 4096) \<or>
      (\<exists>i\<in>set [0..<unat (kp_stack_pages p)]. same_page x (slot_page p slot (Suc i)))"
    unfolding slot_set_range [OF assms] g .
  have "\<not> (slot_start p slot \<le> unat x \<and> unat x < slot_start p slot + 4096)"
    if "\<exists>i\<in>set [0..<unat (kp_stack_pages p)]. same_page x (slot_page p slot (Suc i))"
    using that d unfolding g by auto
  with eq show ?thesis by linarith
qed

lemma slot_setup_OK:
  assumes "vmap_inv (kp_vm p)" "slot_covered p slot" "slot_setup slot p = (KSTACK_OK, p')"
    and geo: "kstack_geom p" "unat slot < slots p"
  shows "slot_fine p' slot \<and>
    (\<exists>w. guarded (kp_guard_kind p) (walk (kp_vm p)) (slot_page p slot 0) w \<and>
      (\<forall>x. walk (kp_vm p') x =
        (if slot_start p slot + 4096 \<le> unat x \<and> unat x < slot_start p slot + slot_len p
         then Some (x AND NOT 0xFFF, page_attr_of vmap_attr_normal) else w x)))"
proof -
  obtain e1 p1 where 1: "guard_apply (slot_page p slot 0) p = (e1, p1)" by fastforce
  have g: "covered (kp_vm p) (slot_page p slot 0)" using assms(2) by (simp add: slot_covered_def)
  note f1 = guard_apply_frame [OF assms(1) g 1]
  note fix1 = slot_page_fixed [OF vm_frameD(1) [OF f1]] kp_fixedD(3) [OF vm_frameD(1) [OF f1]]
  note fx = slot_of_fixed [OF vm_frameD(1) [OF f1]]
  have e1: "e1 = KSTACK_OK" using assms(3) 1 by (auto simp: slot_setup_def slot_names split: if_splits)
  then have c: "claim_pages [0..<unat (kp_stack_pages p)] (slot_stack_base_of p slot) p1 = (KSTACK_OK, p')"
    using assms(3) 1 fix1 fx by (simp add: slot_setup_def slot_names)
  have cov: "\<forall>i\<in>set [0..<unat (kp_stack_pages p)]. covered (kp_vm p1) (slot_stack_base_of p slot + of_nat i * 4096)"
    using slot_covered_frame [OF f1 assms(2)] fix1 by (auto simp: slot_names slot_covered_def)
  note w = claim_pages_OK [OF vm_frameD(2) [OF f1] cov c, unfolded slot_names stack_pages_range [OF geo]]
  have "fine (kp_vm p1) (slot_page p slot 0)"
    using guard_apply_gives_fine [OF assms(1) g] 1 e1 slot_page_aligned [OF geo] by simp
  then have f0: "fine (kp_vm p') (slot_page p slot 0)"
    using vm_frameD(5) [OF claim_pages_frame [OF vm_frameD(2) [OF f1] cov c]] by blast
  have fS: "fine (kp_vm p') (slot_page p slot (Suc i))" if "i < unat (kp_stack_pages p)" for i
    using claim_pages_fine [OF vm_frameD(2) [OF f1] cov c, of i] that by (simp add: slot_names)
  have fixp: "slot_page p' = slot_page p" "kp_stack_pages p' = kp_stack_pages p"
    using slot_setup_frame [OF assms(1-3)] slot_page_fixed kp_fixedD(3) vm_frameD(1) by blast+
  have "slot_fine p' slot" unfolding slot_fine_def fixp
    using f0 fS by (metis Suc_le_lessD not0_implies_Suc)
  then show ?thesis using guard_apply_OK [OF assms(1) g] 1 e1 w by blast
qed

section \<open>The pool invariant\<close>

definition kstack_inv :: "kstack_pool_t \<Rightarrow> bool" where
  "kstack_inv p \<longleftrightarrow>
     kstack_geom p \<and> vmap_inv (kp_vm p) \<and>
     (\<forall>slot. unat slot < slots p \<longrightarrow> slot_covered p slot) \<and>
     unat (kp_used_slots p) = cell_count (slot_bit (kp_bitmap p)) (slots p) True \<and>
     unat (kp_used_slots p) \<le> unat (kp_peak_used p) \<and> unat (kp_peak_used p) \<le> slots p"

lemma kstack_invD:
  assumes "kstack_inv p"
  shows "kstack_geom p" "vmap_inv (kp_vm p)" "unat slot < slots p \<Longrightarrow> slot_covered p slot"
    "unat (kp_used_slots p) = cell_count (slot_bit (kp_bitmap p)) (slots p) True"
    "unat (kp_used_slots p) \<le> unat (kp_peak_used p)" "unat (kp_peak_used p) \<le> slots p"
    "slots p \<le> 64" "kp_inited p"
  using assms by (auto simp: kstack_inv_def kstack_geom_def)

lemma kstack_geom_fixed: "kp_fixed q = kp_fixed p \<Longrightarrow> kstack_geom q = kstack_geom p"
  by (simp add: kstack_geom_def kp_fixed_def)

lemma kstack_inv_frame:
  assumes "kstack_inv p" "vm_frame R p q"
  shows "kstack_inv q"
  using assms(1) vm_frameD(2) [OF assms(2)] slot_covered_frame [OF assms(2)]
    kstack_geom_fixed [OF vm_frameD(1) [OF assms(2)]]
  unfolding kstack_inv_def kp_fixedD [OF vm_frameD(1) [OF assms(2)]] by blast

lemma slot_mark_vm [simp]: "kp_vm (slot_mark i u p) = kp_vm p"
  "kp_pool_base (slot_mark i u p) = kp_pool_base p" "kp_slot_count (slot_mark i u p) = kp_slot_count p"
  "kp_stack_pages (slot_mark i u p) = kp_stack_pages p" "kp_slot_pages (slot_mark i u p) = kp_slot_pages p"
  "kp_guard_kind (slot_mark i u p) = kp_guard_kind p" "kp_inited (slot_mark i u p) = kp_inited p"
  "kp_flushed (slot_mark i u p) = kp_flushed p"
  "kp_bitmap (slot_mark i u p) = slot_bit_put (kp_bitmap p) (unat i) u"
  by (simp_all add: slot_mark_def Let_def)

lemma slot_mark_geom [simp]:
  "kstack_geom (slot_mark i u p) = kstack_geom p" "slot_page (slot_mark i u p) = slot_page p"
  "slot_covered (slot_mark i u p) = slot_covered p" "slot_fine (slot_mark i u p) = slot_fine p"
  "slot_start (slot_mark i u p) = slot_start p" "slot_set (slot_mark i u p) = slot_set p"
  by (simp_all add: kstack_geom_def slot_page_def slot_base_of_def slot_covered_def slot_fine_def
      slot_start_def slot_set_def pages_set_def fun_eq_iff)

lemma slot_mark_inv:
  assumes "kstack_inv p" "unat i < slots p" "slot_bit (kp_bitmap p) (unat i) \<noteq> u"
  shows "kstack_inv (slot_mark i u p)"
proof (cases u)
  case True
  have c: "cell_count (slot_bit (kp_bitmap (slot_mark i u p))) (slots p) True
      = Suc (cell_count (slot_bit (kp_bitmap p)) (slots p) True)"
    using kcells.put_count_new [OF _ assms(2), where v = True and m = "kp_bitmap p"] assms(3) True by simp
  have "Suc (cell_count (slot_bit (kp_bitmap p)) (slots p) True) \<le> slots p"
    using c cell_count_le [of "slot_bit (kp_bitmap (slot_mark i u p))" "slots p" True] by simp
  then have u: "unat (kp_used_slots p + 1) = Suc (unat (kp_used_slots p))"
    and le: "Suc (unat (kp_used_slots p)) \<le> slots p"
    using kstack_invD(4,7) [OF assms(1)] by (simp_all add: unat_add_small)
  show ?thesis using assms(1) c u le True unfolding kstack_inv_def slot_mark_geom slot_mark_vm
    by (auto simp: slot_mark_def Let_def word_lt_unat)
next
  case False
  have pos: "0 < cell_count (slot_bit (kp_bitmap p)) (slots p) True"
    using cell_count_pos [OF assms(2), where f = "slot_bit (kp_bitmap p)" and v = True] assms(3) False by simp
  have c: "cell_count (slot_bit (kp_bitmap (slot_mark i u p))) (slots p) True
      = cell_count (slot_bit (kp_bitmap p)) (slots p) True - 1"
    using kcells.put_count_old [OF _ assms(2), where v = False and m = "kp_bitmap p" and w = True] assms(3) False by simp
  have "unat (kp_used_slots p - 1) = unat (kp_used_slots p) - 1" "0 < kp_used_slots p"
    using pos kstack_invD(4) [OF assms(1)] by (simp_all add: unat_sub_le word_lt_unat)
  then show ?thesis using assms(1) c False unfolding kstack_inv_def slot_mark_geom slot_mark_vm
    by (auto simp: slot_mark_def Let_def)
qed

section \<open>Allocation\<close>

lemma slot_find_free_spec:
  assumes "kstack_inv p"
  shows "if unat (slot_find_free p) < slots p
    then \<not> slot_bit (kp_bitmap p) (unat (slot_find_free p)) \<and> (\<forall>j < unat (slot_find_free p). slot_bit (kp_bitmap p) j)
    else slot_find_free p = kp_slot_count p \<and> (\<forall>j < slots p. slot_bit (kp_bitmap p) j)"
proof (cases "find (\<lambda>i. \<not> slot_bit (kp_bitmap p) i) [0..<slots p]")
  case None
  then have "\<forall>j < slots p. slot_bit (kp_bitmap p) j" by (simp add: find_None_iff)
  moreover have "slot_find_free p = kp_slot_count p" using None by (simp add: slot_find_free_def)
  ultimately show ?thesis by simp
next
  case (Some i)
  then have i: "i < slots p" "\<not> slot_bit (kp_bitmap p) i" "\<forall>j<i. slot_bit (kp_bitmap p) j"
    by (auto simp: find_Some_iff)
  have "unat (of_nat i :: u32) = i"
    using i(1) kstack_invD(7) [OF assms] by (intro unat_of_nat_small) simp
  then show ?thesis using i Some by (simp add: slot_find_free_def)
qed

lemma flush_range_fixed [simp]: "kp_fixed (flush_range a b p) = kp_fixed p"
  by (simp add: flush_range_def kp_fixed_def)

lemma kstack_alloc_split:
  assumes inv: "kstack_inv p" and res: "kstack_alloc False p = (r, p')"
  obtains (full) "r = Inl KSTACK_ERR_NO_SLOT" "p' = p" "\<forall>j < slots p. slot_bit (kp_bitmap p) j"
  | (ok) s q where "s = slot_find_free p" "unat s < slots p" "\<not> slot_bit (kp_bitmap p) (unat s)"
      "\<forall>j < unat s. slot_bit (kp_bitmap p) j" "slot_setup s (slot_mark s True p) = (KSTACK_OK, q)"
      "r = Inr (slot_handle q s)"
      "p' = (flush_range (slot_guard_of q s) (slot_top_of q s) q)
              \<lparr>kp_stat_alloc := kp_stat_alloc (flush_range (slot_guard_of q s) (slot_top_of q s) q) + 1\<rparr>"
  | (failed) s e q e2 q2 where "unat s < slots p" "\<not> slot_bit (kp_bitmap p) (unat s)"
      "slot_setup s (slot_mark s True p) = (e, q)" "e \<noteq> KSTACK_OK" "slot_release s q = (e2, q2)"
      "r = Inl e" "p' = (if e2 = KSTACK_OK then slot_mark s False q2 else q2)"
proof (cases "unat (slot_find_free p) < slots p")
  case False
  then have "slot_find_free p = kp_slot_count p" using slot_find_free_spec [OF inv] by simp
  then show thesis using full res slot_find_free_spec [OF inv] kstack_invD(8) [OF inv]
    by (simp add: kstack_alloc_def Let_def)
next
  case True
  let ?s = "slot_find_free p"
  obtain e q where 1: "slot_setup ?s (slot_mark ?s True p) = (e, q)" by fastforce
  show thesis
  proof (cases "e = KSTACK_OK")
    case ok': True
    show thesis by (rule ok [of ?s q])
        (use True slot_find_free_spec [OF inv] res 1 ok' kstack_invD(8) [OF inv] in
          \<open>auto simp: kstack_alloc_def Let_def word_le_unat slot_handle_def slot_guard_of_def slot_base_of_def
             slot_top_of_def slot_stack_base_of_def flush_range_def\<close>)
  next
    case False
    obtain e2 q2 where 2: "slot_release ?s q = (e2, q2)" by fastforce
    show thesis by (rule failed [of ?s e q e2 q2])
        (use True slot_find_free_spec [OF inv] res 1 2 False kstack_invD(8) [OF inv] in
          \<open>auto simp: kstack_alloc_def Let_def word_le_unat\<close>)
  qed
qed

text \<open>The state of a pool whose slot \<open>s\<close> was marked before the mapping steps.\<close>

lemma marked:
  assumes inv: "kstack_inv p" and s: "unat s < slots p" "\<not> slot_bit (kp_bitmap p) (unat s)"
    and f: "vm_frame (slot_set p s) (slot_mark s True p) q"
  shows "kstack_inv q" "slot_bit (kp_bitmap q) = (slot_bit (kp_bitmap p))(unat s := True)"
    "kp_slot_count q = kp_slot_count p" "slot_page q = slot_page p" "slot_set q = slot_set p"
    "kp_guard_kind q = kp_guard_kind p" "kp_stack_pages q = kp_stack_pages p"
proof -
  note fixq = kp_fixedD [OF vm_frameD(1) [OF f]]
  have m: "kstack_inv (slot_mark s True p)" using slot_mark_inv [OF inv s(1)] s(2) by simp
  show "kstack_inv q" by (rule kstack_inv_frame [OF m f])
  show "slot_bit (kp_bitmap q) = (slot_bit (kp_bitmap p))(unat s := True)"
    by (simp add: fixq kcells.get_put)
  show "slot_page q = slot_page p" using slot_page_fixed [OF vm_frameD(1) [OF f]] by simp
  then show "slot_set q = slot_set p" by (simp add: slot_set_def pages_set_def fun_eq_iff fixq)
qed (simp_all add: kp_fixedD [OF vm_frameD(1) [OF f]])

lemma kstack_alloc_inv:
  assumes inv: "kstack_inv p"
  shows "kstack_inv (snd (kstack_alloc False p))"
proof -
  obtain r p' where res: "kstack_alloc False p = (r, p')" by fastforce
  from inv res show ?thesis
  proof (cases rule: kstack_alloc_split)
    case full
    then show ?thesis using inv res by simp
  next
    case (ok s q)
    have f: "vm_frame (slot_set p s) (slot_mark s True p) q"
      using slot_setup_frame [OF _ _ ok(5)] kstack_invD(2,3) [OF inv] ok(2) by simp
    have "kstack_inv q" by (rule marked(1) [OF inv ok(2,3) f])
    then show ?thesis unfolding res ok(7)
      by (simp add: kstack_inv_def kstack_geom_def slot_covered_def slot_page_def slot_base_of_def flush_range_def)
  next
    case (failed s e q e2 q2)
    have f: "vm_frame (slot_set p s) (slot_mark s True p) q"
      using slot_setup_frame [OF _ _ failed(3)] kstack_invD(2,3) [OF inv] failed(1) by simp
    note q = marked [OF inv failed(1,2) f]
    have f2: "vm_frame (slot_set q s) q q2"
      by (rule slot_release_frame [OF kstack_invD(2) [OF q(1)] kstack_invD(3) [OF q(1)] failed(5)])
        (use failed(1) q(3) in simp)
    note i2 = kstack_inv_frame [OF q(1) f2] kp_fixedD [OF vm_frameD(1) [OF f2]]
    have "kstack_inv (slot_mark s False q2)"
      by (rule slot_mark_inv [OF i2(1)]) (use failed(1) q(2,3) i2 in simp_all)
    then show ?thesis using i2(1) by (simp add: res failed(7))
  qed
qed

lemma handle_check_own:
  assumes "kp_inited q" "unat s < slots q" "slot_bit (kp_bitmap q) (unat s)"
  shows "handle_check q (slot_handle q s) = KSTACK_OK"
  using assms by (simp add: handle_check_def slot_handle_def Let_def slot_guard_of_def slot_stack_base_of_def
      slot_top_of_def word_le_unat)

lemma alloc_handle:
  assumes "kstack_inv p" and "kstack_alloc False p = (Inr h, p')"
  shows "unat (k_slot h) < slots p \<and> \<not> slot_bit (kp_bitmap p) (unat (k_slot h)) \<and>
    (\<forall>j < unat (k_slot h). slot_bit (kp_bitmap p) j) \<and>
    slot_bit (kp_bitmap p') = (slot_bit (kp_bitmap p))(unat (k_slot h) := True) \<and>
    handle_check p' h = KSTACK_OK \<and> kstack_inv p' \<and>
    unat (k_guard h) = slot_start p (k_slot h) \<and> unat (k_base h) = slot_start p (k_slot h) + 4096 \<and>
    unat (k_top h) = slot_start p (k_slot h) + slot_len p"
  using assms
proof (cases rule: kstack_alloc_split)
  case (ok s q)
  have f: "vm_frame (slot_set p s) (slot_mark s True p) q"
    using slot_setup_frame [OF _ _ ok(5)] kstack_invD(2,3) [OF assms(1)] ok(2) by simp
  note q = marked [OF assms(1) ok(2,3) f]
  have h: "h = slot_handle q s" using ok(6) by simp
  have p': "kp_fixed p' = kp_fixed (q\<lparr>kp_stat_alloc := kp_stat_alloc p'\<rparr>)"
    by (simp add: ok(7) kp_fixed_def flush_range_def)
  note fixq = kp_fixedD [OF vm_frameD(1) [OF f]] and fixp = kp_fixedD(1-10) [OF p']
  note geo = kstack_invD(1) [OF assms(1)]
  have sb: "slot_base_of q s = slot_page p s 0" using q(4) by (simp add: slot_page_def fun_eq_iff)
  have top: "slot_top_of q s = slot_page p s (Suc (unat (kp_stack_pages p)))"
  proof -
    have "kp_slot_pages p = of_nat (unat (kp_slot_pages p))" by simp
    then have "kp_slot_pages p = of_nat (Suc (unat (kp_stack_pages p)))"
      using geo by (simp only: kstack_geom_def)
    then show ?thesis by (simp only: slot_page_def slot_top_of_def slot_base_of_def fixq slot_mark_vm)
  qed
  have base: "slot_stack_base_of q s = slot_page p s (Suc 0)"
    using slot_names(2) [of q s 0] q(4) by simp
  have "kp_inited q" "unat s < slots q" "slot_bit (kp_bitmap q) (unat s)"
    using kstack_invD(8) [OF q(1)] q(2,3) ok(2) by simp_all
  then have "handle_check q h = KSTACK_OK" unfolding h by (rule handle_check_own)
  moreover have "handle_check p' h = handle_check q h"
    by (auto simp: handle_check_def slot_base_of_def fixp Let_def)
  ultimately have "handle_check p' h = KSTACK_OK" by simp
  moreover have "kstack_inv p'" using kstack_alloc_inv [OF assms(1)] assms(2) by simp
  moreover have "k_slot h = s" "k_guard h = slot_page p s 0" "k_base h = slot_page p s (Suc 0)"
    "k_top h = slot_page p s (Suc (unat (kp_stack_pages p)))"
    by (simp_all only: h slot_handle_def slot_guard_of_def sb top base kstack_t.select_convs)
  moreover have "slot_bit (kp_bitmap p') = (slot_bit (kp_bitmap p))(unat s := True)"
    using q(2) fixp(5) by simp
  moreover have "unat (slot_page p s 0) = slot_start p s"
    "unat (slot_page p s (Suc 0)) = slot_start p s + 4096"
    "unat (slot_page p s (Suc (unat (kp_stack_pages p)))) = slot_start p s + slot_len p"
    using unat_slot_page [OF geo ok(2), of 0] unat_slot_page [OF geo ok(2), of "Suc 0"]
      unat_slot_page [OF geo ok(2), of "Suc (unat (kp_stack_pages p))"] by simp_all
  ultimately show ?thesis using ok(2-4) by (simp only: simp_thms)
qed simp_all

lemma alloc_geometry:
  assumes "kstack_inv p" and "kstack_alloc False p = (Inr h, p')"
  shows "unat (k_guard h) = slot_start p (k_slot h)" "unat (k_base h) = slot_start p (k_slot h) + 4096"
    "unat (k_top h) = slot_start p (k_slot h) + slot_len p"
  using alloc_handle [OF assms] by blast+

text \<open>
  A successful allocation hands out the lowest free slot, marks exactly that slot, and
  leaves the pool well formed; the handle describes the slot's geometry.
\<close>

theorem kstack_alloc_lowest_slot:
  assumes "kstack_inv p" and "kstack_alloc False p = (Inr h, p')"
  shows "unat (k_slot h) < slots p \<and> \<not> slot_bit (kp_bitmap p) (unat (k_slot h)) \<and>
    (\<forall>j < unat (k_slot h). slot_bit (kp_bitmap p) j) \<and>
    slot_bit (kp_bitmap p') = (slot_bit (kp_bitmap p))(unat (k_slot h) := True) \<and>
    handle_check p' h = KSTACK_OK \<and> kstack_inv p' \<and>
    unat (k_guard h) = slot_start p (k_slot h) \<and> unat (k_base h) = slot_start p (k_slot h) + 4096 \<and>
    unat (k_top h) = slot_start p (k_slot h) + slot_len p"
  using assms by (rule alloc_handle)


text \<open>
  What a successful allocation does to the address space: every byte of the stack
  translates to itself with normal attributes, the guard page faults (or is mapped without
  access, when the pool was configured so), every other address is as before, and the TLB was
  flushed over exactly the guard and the stack.
\<close>

theorem kstack_alloc_mapping:
  assumes "kstack_inv p" and "kstack_alloc False p = (Inr h, p')"
  shows "(\<forall>x. unat (k_base h) \<le> unat x \<and> unat x < unat (k_top h) \<longrightarrow>
            walk (kp_vm p') x = Some (x AND NOT 0xFFF, page_attr_of vmap_attr_normal)) \<and>
    (\<forall>x. unat (k_guard h) \<le> unat x \<and> unat x < unat (k_base h) \<longrightarrow>
            (if kp_guard_kind p = KSTACK_GUARD_AP_NONE
             then \<exists>pa. walk (kp_vm p') x = Some (pa, page_attr_of attr_none)
             else walk (kp_vm p') x = None)) \<and>
    (\<forall>x. unat x < unat (k_guard h) \<or> unat (k_top h) \<le> unat x \<longrightarrow>
            walk (kp_vm p') x = walk (kp_vm p) x) \<and>
    last (kp_flushed p') = (k_guard h, k_top h)"
  using assms
proof (cases rule: kstack_alloc_split)
  case (ok s q)
  have m: "vmap_inv (kp_vm (slot_mark s True p))" "slot_covered (slot_mark s True p) s"
    using kstack_invD(2,3) [OF assms(1)] ok(2) by simp_all
  have f: "vm_frame (slot_set p s) (slot_mark s True p) q"
    using slot_setup_frame [OF m ok(5)] by simp
  note q = marked [OF assms(1) ok(2,3) f]
  note geo = kstack_invD(1) [OF assms(1)]
  have h: "k_slot h = s" "k_guard h = slot_guard_of q s" "k_top h = slot_top_of q s"
    using ok(6) by (simp_all add: slot_handle_def)
  note hs = alloc_geometry [OF assms]
  obtain w where w: "guarded (kp_guard_kind p) (walk (kp_vm p)) (slot_page p s 0) w"
    "\<And>x. walk (kp_vm q) x =
        (if slot_start p s + 4096 \<le> unat x \<and> unat x < slot_start p s + slot_len p
         then Some (x AND NOT 0xFFF, page_attr_of vmap_attr_normal) else w x)"
    using slot_setup_OK [OF m ok(5)] geo ok(2) by auto
  have vm: "kp_vm p' = kp_vm q" by (simp add: ok(7))
  have g: "same_page x (slot_page p s 0) \<longleftrightarrow> slot_start p s \<le> unat x \<and> unat x < slot_start p s + 4096" for x
    using same_slot_page [OF geo ok(2), of 0 x] by simp
  have fl: "slot_guard_of q s < slot_top_of q s"
    using hs by (simp add: h word_lt_unat)
  have "last (kp_flushed p') = (k_guard h, k_top h)"
    using fl by (simp add: ok(7) flush_range_def h)
  then show ?thesis using w g unfolding vm hs h(1) guarded_def paged_def hole_def
    by (auto split: if_splits)
qed simp_all

text \<open>
  A failing allocation never gives out a slot: either every slot was taken and nothing
  changed, or a mapping step failed and only addresses of the chosen slot may translate
  differently; the slot is free again or, when even the roll-back failed, stays marked.
\<close>

theorem kstack_alloc_failure:
  assumes "kstack_inv p" and "kstack_alloc False p = (Inl e, p')"
  shows "e = KSTACK_ERR_NO_SLOT \<and> p' = p \<and> (\<forall>j < slots p. slot_bit (kp_bitmap p) j) \<or>
    (\<exists>s. unat s < slots p \<and> \<not> slot_bit (kp_bitmap p) (unat s) \<and> kstack_inv p' \<and>
      (\<forall>x. unat x < slot_start p s \<or> slot_start p s + slot_len p \<le> unat x \<longrightarrow>
          walk (kp_vm p') x = walk (kp_vm p) x) \<and>
      (slot_bit (kp_bitmap p') = slot_bit (kp_bitmap p) \<or>
       slot_bit (kp_bitmap p') = (slot_bit (kp_bitmap p))(unat s := True)))"
  using assms
proof (cases rule: kstack_alloc_split)
  case (failed s e' q e2 q2)
  have f: "vm_frame (slot_set p s) (slot_mark s True p) q"
    using slot_setup_frame [OF _ _ failed(3)] kstack_invD(2,3) [OF assms(1)] failed(1) by simp
  note q = marked [OF assms(1) failed(1,2) f]
  have f2: "vm_frame (slot_set q s) q q2"
    by (rule slot_release_frame [OF kstack_invD(2) [OF q(1)] kstack_invD(3) [OF q(1)] failed(5)])
      (use failed(1) q(3) in simp)
  have w: "walk (kp_vm q2) x = walk (kp_vm p) x" if "x \<notin> slot_set p s" for x
    using vm_frameD(3) [OF f that] vm_frameD(3) [OF f2] that q(5) by simp
  have bm: "slot_bit (kp_bitmap q2) = (slot_bit (kp_bitmap p))(unat s := True)"
    using q(2) kp_fixedD(5) [OF vm_frameD(1) [OF f2]] by simp
  have un: "((slot_bit (kp_bitmap p))(unat s := True))(unat s := False) = slot_bit (kp_bitmap p)"
    using failed(2) by (auto simp: fun_eq_iff)
  have "slot_bit (kp_bitmap p') = slot_bit (kp_bitmap p) \<or>
       slot_bit (kp_bitmap p') = (slot_bit (kp_bitmap p))(unat s := True)"
    using bm un by (simp add: failed(7) kcells.get_put)
  moreover have "kstack_inv p'" using kstack_alloc_inv [OF assms(1)] assms(2) by simp
  moreover have "walk (kp_vm p') x = walk (kp_vm p) x"
    if "unat x < slot_start p s \<or> slot_start p s + slot_len p \<le> unat x" for x
    using w [of x] that slot_set_range [OF kstack_invD(1) [OF assms(1)] failed(1)] by (auto simp: failed(7))
  ultimately show ?thesis using failed(1,2) by blast
qed simp_all

section \<open>Release\<close>

lemma handle_check_OK:
  assumes "handle_check p k = KSTACK_OK"
  shows "unat (k_slot k) < slots p" "slot_bit (kp_bitmap p) (unat (k_slot k))" "k_in_use k"
    "k_guard k = slot_base_of p (k_slot k)" "k_base k = slot_base_of p (k_slot k) + 4096"
    "k_top k = slot_base_of p (k_slot k) + kp_slot_pages p * 4096"
  using assms by (auto simp: handle_check_def Let_def word_le_unat split: if_splits)

lemma kstack_free_split:
  assumes "kstack_inv p" and "kstack_free k p = (e, k', p')"
  obtains (refused) "e = handle_check p k" "e \<noteq> KSTACK_OK" "k' = k" "p' = p"
  | (stuck) "handle_check p k = KSTACK_OK" "e \<noteq> KSTACK_OK" "k' = k" "vm_frame (slot_set p (k_slot k)) p p'"
  | (freed) q where "handle_check p k = KSTACK_OK" "e = KSTACK_OK" "slot_release (k_slot k) p = (KSTACK_OK, q)"
      "vm_frame (slot_set p (k_slot k)) p q" "k' = k\<lparr>k_in_use := False\<rparr>"
      "p' = (slot_mark (k_slot k) False q)\<lparr>kp_stat_free := kp_stat_free (slot_mark (k_slot k) False q) + 1\<rparr>"
proof (cases "handle_check p k = KSTACK_OK")
  case False
  have "e = handle_check p k" "k' = k" "p' = p"
    using assms(2) False by (auto simp: kstack_free_def Let_def)
  then show thesis using refused False by blast
next
  case True
  obtain r q where q: "slot_release (k_slot k) p = (r, q)" by fastforce
  have f: "vm_frame (slot_set p (k_slot k)) p q"
    by (rule slot_release_frame [OF kstack_invD(2,3) [OF assms(1)] q]) (rule handle_check_OK(1) [OF True])
  show thesis
  proof (cases "r = KSTACK_OK")
    case ok: True
    have "e = KSTACK_OK" "k' = k\<lparr>k_in_use := False\<rparr>"
      "p' = (slot_mark (k_slot k) False q)\<lparr>kp_stat_free := kp_stat_free (slot_mark (k_slot k) False q) + 1\<rparr>"
      using assms(2) True q ok by (simp_all add: kstack_free_def Let_def)
    then show thesis using freed [OF True _ _ f] q ok by blast
  next
    case False
    have "e = r" "k' = k" "p' = q" using assms(2) True q False by (simp_all add: kstack_free_def Let_def)
    then show thesis using stuck [OF True] False f by blast
  qed
qed

lemma kstack_inv_stat [simp]:
  "kstack_inv (p\<lparr>kp_stat_free := n\<rparr>) = kstack_inv p" "kstack_inv (p\<lparr>kp_stat_alloc := n\<rparr>) = kstack_inv p"
  by (simp_all add: kstack_inv_def kstack_geom_def slot_covered_def slot_page_def slot_base_of_def)

lemma freed_inv:
  assumes inv: "kstack_inv p" and hc: "handle_check p k = KSTACK_OK" and f: "vm_frame (slot_set p (k_slot k)) p q"
  shows "kstack_inv (slot_mark (k_slot k) False q)"
    and "slot_bit (kp_bitmap (slot_mark (k_slot k) False q)) = (slot_bit (kp_bitmap p))(unat (k_slot k) := False)"
proof -
  note fixq = kp_fixedD(1-10) [OF vm_frameD(1) [OF f]]
  show "kstack_inv (slot_mark (k_slot k) False q)"
    by (rule slot_mark_inv [OF kstack_inv_frame [OF inv f]]) (use handle_check_OK [OF hc] fixq in simp_all)
  show "slot_bit (kp_bitmap (slot_mark (k_slot k) False q)) = (slot_bit (kp_bitmap p))(unat (k_slot k) := False)"
    by (simp add: kcells.get_put fixq)
qed

lemma kstack_free_inv:
  assumes "kstack_inv p"
  shows "kstack_inv (snd (snd (kstack_free k p)))"
proof -
  obtain e k' p' where res: "kstack_free k p = (e, k', p')" by (metis prod_cases3)
  from assms res show ?thesis
  proof (cases rule: kstack_free_split)
    case refused
    then show ?thesis using assms res by simp
  next
    case stuck
    then show ?thesis using kstack_inv_frame [OF assms] res by simp
  next
    case (freed q)
    then show ?thesis using freed_inv(1) [OF assms freed(1,4)] res by simp
  qed
qed

lemma handle_check_double:
  assumes "kstack_inv q" "handle_check p k = KSTACK_OK" "\<not> slot_bit (kp_bitmap q) (unat (k_slot k))"
    and "kp_pool_base q = kp_pool_base p" "kp_slot_count q = kp_slot_count p"
      "kp_stack_pages q = kp_stack_pages p" "kp_slot_pages q = kp_slot_pages p"
  shows "handle_check q (k\<lparr>k_in_use := b\<rparr>) = KSTACK_ERR_DOUBLE_FREE"
  using assms kstack_invD(8) [OF assms(1)]
  by (auto simp: handle_check_def slot_base_of_def Let_def split: if_splits)

text \<open>
  Release is checked: a handle that does not describe an allocated slot of this pool is
  refused with the error of \<open>handle_check\<close> and nothing changes; a successful release clears
  exactly the slot's bit, may change only the translation of the slot's addresses, and every
  further release of the handle, or of any stale copy of it, is refused as a double free.
\<close>

theorem kstack_free_checked:
  assumes "kstack_inv p" and "kstack_free k p = (e, k', p')"
  shows "(handle_check p k \<noteq> KSTACK_OK \<longrightarrow> e = handle_check p k \<and> k' = k \<and> p' = p) \<and>
    (e = KSTACK_OK \<longrightarrow>
       slot_bit (kp_bitmap p) (unat (k_slot k)) \<and>
       slot_bit (kp_bitmap p') = (slot_bit (kp_bitmap p))(unat (k_slot k) := False) \<and>
       (\<forall>x. unat x < slot_start p (k_slot k) \<or> slot_start p (k_slot k) + slot_len p \<le> unat x \<longrightarrow>
            walk (kp_vm p') x = walk (kp_vm p) x) \<and>
       kstack_inv p' \<and>
       kstack_free k' p' = (KSTACK_ERR_DOUBLE_FREE, k', p') \<and>
       kstack_free k p' = (KSTACK_ERR_DOUBLE_FREE, k, p'))"
  using assms
proof (cases rule: kstack_free_split)
  case (freed q)
  note fixq = kp_fixedD(1-10) [OF vm_frameD(1) [OF freed(4)]]
  note h = handle_check_OK [OF freed(1)] and geo = kstack_invD(1) [OF assms(1)]
  have inv': "kstack_inv p'" and bm: "slot_bit (kp_bitmap p') = (slot_bit (kp_bitmap p))(unat (k_slot k) := False)"
    using freed_inv [OF assms(1) freed(1,4)] by (simp_all add: freed(6))
  have dbl: "handle_check p' (k\<lparr>k_in_use := b\<rparr>) = KSTACK_ERR_DOUBLE_FREE" for b
    by (rule handle_check_double [OF inv' freed(1)]) (use bm in \<open>simp_all add: freed(6) fixq\<close>)
  have "handle_check p' k = KSTACK_ERR_DOUBLE_FREE" using dbl [of "k_in_use k"] by simp
  moreover have "handle_check p' k' = KSTACK_ERR_DOUBLE_FREE" using dbl [of False] by (simp add: freed(5))
  moreover have "walk (kp_vm p') x = walk (kp_vm p) x"
    if "unat x < slot_start p (k_slot k) \<or> slot_start p (k_slot k) + slot_len p \<le> unat x" for x
    using vm_frameD(3) [OF freed(4), of x] that slot_set_range [OF geo h(1), of x] by (auto simp: freed(6))
  ultimately show ?thesis using inv' bm h(2) freed(1) by (simp add: kstack_free_def Let_def)
qed auto

text \<open>
  Allocating a stack and releasing it is a round trip: the release succeeds, none of the
  slot's addresses (guard included) translates any more, every other address translates as
  before the allocation, and the bitmap is what it was.
\<close>

theorem kstack_alloc_free_roundtrip:
  assumes "kstack_inv p" and "kstack_alloc False p = (Inr h, p')"
  shows "\<exists>h'' p''. kstack_free h p' = (KSTACK_OK, h'', p'') \<and>
    slot_bit (kp_bitmap p'') = slot_bit (kp_bitmap p) \<and>
    (\<forall>x. walk (kp_vm p'') x =
       (if unat (k_guard h) \<le> unat x \<and> unat x < unat (k_top h) then None else walk (kp_vm p) x))"
  using assms
proof (cases rule: kstack_alloc_split)
  case (ok s q)
  have m: "vmap_inv (kp_vm (slot_mark s True p))" "slot_covered (slot_mark s True p) s"
    using kstack_invD(2,3) [OF assms(1)] ok(2) by simp_all
  have f: "vm_frame (slot_set p s) (slot_mark s True p) q"
    using slot_setup_frame [OF m ok(5)] by simp
  note q = marked [OF assms(1) ok(2,3) f]
  note geo = kstack_invD(1) [OF assms(1)] and hs = alloc_geometry [OF assms]
  have hd: "handle_check p' h = KSTACK_OK" "kstack_inv p'"
    and bm: "slot_bit (kp_bitmap p') = (slot_bit (kp_bitmap p))(unat (k_slot h) := True)"
    using alloc_handle [OF assms] by auto
  have h: "k_slot h = s" using ok(6) by (simp add: slot_handle_def)
  have vm: "kp_vm p' = kp_vm q" by (simp add: ok(7))
  have pq: "slot_page p' = slot_page p" "kp_stack_pages p' = kp_stack_pages p" "kp_slot_count p' = kp_slot_count p"
    using q(3,4,7) by (simp_all add: ok(7) flush_range_def slot_page_def slot_base_of_def fun_eq_iff)
  have ss: "slot_set p' s = slot_set p s" by (simp add: slot_set_def pages_set_def pq)
  have "slot_fine q s" using slot_setup_OK [OF m ok(5)] geo ok(2) by simp
  then have fine: "slot_fine p' s" using q(4,7) by (simp add: slot_fine_def vm pq)
  have al: "\<forall>k \<le> unat (kp_stack_pages p'). slot_page p' s k AND 0xFFF = 0"
    using slot_page_aligned [OF geo ok(2)] by (simp add: pq)
  have cov: "slot_covered p' s" using kstack_invD(3) [OF hd(2)] ok(2) pq by simp
  obtain r p2 where rel: "slot_release s p' = (r, p2)" by fastforce
  note r = slot_release_fine [OF kstack_invD(2) [OF hd(2)] cov fine al rel]
  then have fr: "kstack_free h p' = (KSTACK_OK, h\<lparr>k_in_use := False\<rparr>,
      (slot_mark s False p2)\<lparr>kp_stat_free := kp_stat_free (slot_mark s False p2) + 1\<rparr>)"
    using hd(1) rel by (simp add: kstack_free_def Let_def h)
  have f2: "vm_frame (slot_set p' s) p' p2" by (rule slot_release_frame [OF kstack_invD(2) [OF hd(2)] cov rel])
  have "((slot_bit (kp_bitmap p))(unat s := True))(unat s := False) = slot_bit (kp_bitmap p)"
    using ok(3) by (auto simp: fun_eq_iff)
  then have b2: "slot_bit (kp_bitmap (slot_mark s False p2)) = slot_bit (kp_bitmap p)"
    using freed_inv(2) [OF hd(2,1), unfolded h, OF f2] bm h by simp
  have w: "walk (kp_vm p2) x = (if x \<in> slot_set p s then None else walk (kp_vm p) x)" for x
    using r vm_frameD(3) [OF f, of x] by (simp add: ss vm)
  have rng: "x \<in> slot_set p s \<longleftrightarrow> unat (k_guard h) \<le> unat x \<and> unat x < unat (k_top h)" for x
    unfolding slot_set_range [OF geo ok(2)] hs h ..
  show ?thesis using fr b2 w rng by (intro exI conjI) (assumption | simp)+
qed simp_all

section \<open>Allocation cannot fail once tables exist\<close>

lemma fine_map_ok:
  assumes "vmap_inv v" "covered v va" "fine v va" "va AND 0xFFF = 0" "pa AND 0xFFF = 0" "walk v va = None"
  shows "fst (vmap_map va pa (Some a) v) = VMAP_OK"
proof -
  have r: "in_range v va" using assms(2) by (simp add: covered_def)
  obtain l where l: "table_of v (vmap_l1_index va) = Some l" using assms(3) by (auto simp: fine_def)
  show ?thesis using vmap_map_table [OF assms(1) r assms(4,5) l] assms(6) by simp
qed

lemma fine_not_section:
  assumes "vmap_inv v" "covered v va" "fine v va"
  shows "vmap_lookup v va \<noteq> VMAP_RESULT_SECTION"
proof -
  have r: "in_range v va" using assms(2) by (simp add: covered_def)
  show ?thesis using lookup_section_iff [OF assms(1) r] fine_iff [OF assms(2)] assms(3) by simp
qed

lemma guard_apply_fine_ok:
  assumes inv: "vmap_inv (kp_vm p)" and c: "covered (kp_vm p) g" and f: "fine (kp_vm p) g" and al: "g AND 0xFFF = 0"
  shows "fst (guard_apply g p) = KSTACK_OK"
proof (cases "kp_guard_kind p = KSTACK_GUARD_AP_NONE")
  case False
  then show ?thesis using guard_unmap_fine [OF inv c f al surjective_pairing] by (simp add: guard_apply_def)
next
  case True
  have r: "in_range (kp_vm p) g" using c by (simp add: covered_def)
  note ns = fine_not_section [OF inv c f]
  have m: "fst (vmap_map g g (Some attr_none) (kp_vm p)) = VMAP_OK" if "vmap_lookup (kp_vm p) g = 0"
    using fine_map_ok [OF inv c f al al] lookup_walk(1) [OF inv r] that by simp
  have s: "fst (vmap_set_attr g (Some attr_none) (kp_vm p)) = VMAP_OK" if "vmap_lookup (kp_vm p) g \<noteq> 0"
    using that ns f vmap_invD(1) [OF inv] r
    by (auto simp: vmap_set_attr_def Let_def vmap_l2_of_table fine_def)
  show ?thesis using True ns m s
    by (cases "vmap_lookup (kp_vm p) g = 0")
      (auto simp: guard_apply_def with_vm_def vmap_result_def split: prod.splits)
qed

lemma page_claim_fine_ok:
  assumes inv: "vmap_inv (kp_vm p)" and c: "covered (kp_vm p) va" and f: "fine (kp_vm p) va" and al: "va AND 0xFFF = 0"
  shows "fst (page_claim va va a p) = KSTACK_OK"
proof -
  obtain e1 p1 where 1: "with_vm (vmap_split_section va) p = (e1, p1)" by fastforce
  obtain e2 p2 where 2: "with_vm (vmap_unmap va) p1 = (e2, p2)" by fastforce
  obtain e3 p3 where 3: "with_vm (vmap_map va va (Some a)) p2 = (e3, p3)" by fastforce
  have r: "in_range (kp_vm p) va" using c by (simp add: covered_def)
  have e1: "e1 = VMAP_OK" using with_vm_vm [OF 1] f table_of_type
    unfolding split_section_spec [OF inv r al] by (fastforce simp: fine_def split: if_splits)
  note f1 = vm_frame_steps(1) [OF inv c 1]
  have i1: "vmap_inv (kp_vm p1)" "covered (kp_vm p1) va" "fine (kp_vm p1) va"
    using vm_frameD(2,4,5) [OF f1] c f by auto
  note e2 = unmap_fine [OF i1 al 2] and f2 = vm_frame_steps(2) [OF i1(1,2) 2]
  have i2: "vmap_inv (kp_vm p2)" "covered (kp_vm p2) va" "fine (kp_vm p2) va"
    using vm_frameD(2,4,5) [OF f2] i1 by auto
  have "walk (kp_vm p2) va = None" using unmap_hole [OF i1(1,2) 2 e2] by (simp add: hole_def)
  then have "e3 = VMAP_OK" using fine_map_ok [OF i2 al al] with_vm_vm [OF 3] by (metis fst_conv)
  then show ?thesis using 1 2 3 e1 e2 by (auto simp: page_claim_def vmap_result_def)
qed

lemma claim_pages_fine_ok:
  assumes "vmap_inv (kp_vm p)" "\<forall>i\<in>set is. covered (kp_vm p) (base + of_nat i * 4096) \<and>
      fine (kp_vm p) (base + of_nat i * 4096) \<and> (base + of_nat i * 4096) AND 0xFFF = 0"
  shows "fst (claim_pages is base p) = KSTACK_OK"
  using assms
proof (induction "is" arbitrary: p)
  case Nil
  then show ?case by simp
next
  case (Cons i "is")
  let ?va = "base + of_nat i * 4096"
  obtain e p1 where 1: "page_claim ?va ?va vmap_attr_normal p = (e, p1)" by fastforce
  have va: "covered (kp_vm p) ?va" "fine (kp_vm p) ?va" "?va AND 0xFFF = 0" using Cons.prems(2) by auto
  note f1 = page_claim_frame [OF Cons.prems(1) va(1) 1]
  have "e = KSTACK_OK" using page_claim_fine_ok [OF Cons.prems(1) va, of vmap_attr_normal] 1 by simp
  moreover have "fst (claim_pages is base p1) = KSTACK_OK"
    by (rule Cons.IH) (use vm_frameD(2,4,5) [OF f1] Cons.prems(2) in auto)
  ultimately show ?case using 1 by (simp add: Let_def)
qed

lemma slot_setup_fine_ok:
  assumes "vmap_inv (kp_vm p)" "slot_covered p slot" "slot_fine p slot"
    and geo: "kstack_geom p" "unat slot < slots p"
  shows "fst (slot_setup slot p) = KSTACK_OK"
proof -
  let ?g = "slot_page p slot 0"
  have g: "covered (kp_vm p) ?g" "fine (kp_vm p) ?g" "?g AND 0xFFF = 0"
    using assms(2,3) slot_page_aligned [OF geo] by (auto simp: slot_covered_def slot_fine_def)
  obtain e p1 where 1: "guard_apply ?g p = (e, p1)" by fastforce
  have e: "e = KSTACK_OK" using guard_apply_fine_ok [OF assms(1) g] 1 by simp
  note f1 = guard_apply_frame [OF assms(1) g(1) 1]
  note fix1 = slot_page_fixed [OF vm_frameD(1) [OF f1]] kp_fixedD(3) [OF vm_frameD(1) [OF f1]]
  have "slot_page p slot (Suc i) AND 0xFFF = 0" if "i < unat (kp_stack_pages p)" for i
    using slot_page_aligned [OF geo, of "Suc i"] that by simp
  then have "fst (claim_pages [0..<unat (kp_stack_pages p)] (slot_stack_base_of p slot) p1) = KSTACK_OK"
    by (intro claim_pages_fine_ok [OF vm_frameD(2) [OF f1]])
      (use slot_covered_frame [OF f1 assms(2)] slot_fine_frame [OF f1 assms(3)] fix1 in
        \<open>auto simp: slot_names slot_covered_def slot_fine_def\<close>)
  then show ?thesis using 1 e fix1 slot_of_fixed [OF vm_frameD(1) [OF f1]]
    by (simp add: slot_setup_def slot_names)
qed

lemma alloc_fine:
  assumes inv: "kstack_inv p" and s: "s < slots p" "\<not> slot_bit (kp_bitmap p) s"
    and f: "\<forall>slot. unat slot < slots p \<longrightarrow> slot_fine p slot"
  shows "\<exists>h p'. kstack_alloc False p = (Inr h, p')"
proof -
  obtain r p' where res: "kstack_alloc False p = (r, p')" by fastforce
  from inv res show ?thesis
  proof (cases rule: kstack_alloc_split)
    case full
    then show ?thesis using s by blast
  next
    case (ok s q)
    then show ?thesis using res by blast
  next
    case (failed t e q e2 q2)
    have "fst (slot_setup t (slot_mark t True p)) = KSTACK_OK"
      using slot_setup_fine_ok [of "slot_mark t True p" t] kstack_invD(1-3) [OF inv] f failed(1) by simp
    then show ?thesis using failed(3,4) by simp
  qed
qed

text \<open>
  Allocation makes progress: while some slot is free and the pool's pages are governed by
  small-page tables (as they are after any earlier use of their sections), it succeeds.
\<close>

theorem kstack_alloc_succeeds:
  assumes "kstack_inv p" and "s < slots p" and "\<not> slot_bit (kp_bitmap p) s"
    and "\<forall>slot. unat slot < slots p \<longrightarrow> slot_fine p slot"
  shows "\<exists>h p'. kstack_alloc False p = (Inr h, p')"
  using assms by (rule alloc_fine)

section \<open>Guard toggling\<close>

lemma guard_disable_frame:
  assumes "kstack_inv p" "kstack_guard_disable k p = (e, p')"
  shows "vm_frame (page_set (k_guard k)) p p'"
proof (cases "handle_check p k = KSTACK_OK")
  case False
  then show ?thesis using assms vm_frame_refl kstack_invD(2) by (auto simp: kstack_guard_disable_def Let_def)
next
  case True
  note h = handle_check_OK [OF True]
  have c: "covered (kp_vm p) (k_guard k)"
    using kstack_invD(3) [OF assms(1) h(1)] by (simp add: slot_covered_def h(4) slot_page_def) (metis add.right_neutral bot_nat_0.extremum mult_zero_left of_nat_0)
  let ?f = "if vmap_lookup (kp_vm p) (k_guard k) = VMAP_RESULT_SECTION then vmap_split_section (k_guard k)
                            else if vmap_lookup (kp_vm p) (k_guard k) = 0 then vmap_map (k_guard k) (k_guard k) (Some vmap_attr_normal)
                            else vmap_set_attr (k_guard k) (Some vmap_attr_normal)"
  obtain e1 q where q: "with_vm ?f p = (e1, q)" by fastforce
  have f: "vm_frame (page_set (k_guard k)) p q"
    using q vm_frame_steps [OF kstack_invD(2) [OF assms(1)] c] by (auto split: if_splits)
  show ?thesis
  proof (cases "e1 = VMAP_OK")
    case ok: True
    then have "p' = flush_range (k_guard k) (k_guard k + 4096) q"
      using assms(2) True q by (simp add: kstack_guard_disable_def Let_def)
    then show ?thesis using f by (simp add: flush_range_frame)
  next
    case False
    then have "vmap_result e1 q = (e, p')" using assms(2) True q by (simp add: kstack_guard_disable_def Let_def)
    then show ?thesis using f by (rule vmap_result_frame)
  qed
qed

lemma guard_enable_cases:
  assumes "kstack_inv p" "kstack_guard_enable k p = (e, p')"
  shows "vm_frame (page_set (k_guard k)) p p' \<and>
    (e = KSTACK_OK \<longrightarrow> guarded (kp_guard_kind p) (walk (kp_vm p)) (k_guard k) (walk (kp_vm p')))"
proof (cases "handle_check p k = KSTACK_OK")
  case False
  then show ?thesis using assms vm_frame_refl kstack_invD(2) by (auto simp: kstack_guard_enable_def Let_def)
next
  case True
  note h = handle_check_OK [OF True]
  have c: "covered (kp_vm p) (k_guard k)"
    using kstack_invD(3) [OF assms(1) h(1)] by (simp add: slot_covered_def h(4) slot_page_def) (metis add.right_neutral bot_nat_0.extremum mult_zero_left of_nat_0)
  obtain e1 q where q: "guard_apply (k_guard k) p = (e1, q)" by fastforce
  note f = guard_apply_frame [OF kstack_invD(2) [OF assms(1)] c q]
  have res: "e = e1" "p' = (if e1 = KSTACK_OK then flush_range (k_guard k) (k_guard k + 4096) q else q)"
    using assms(2) True q by (auto simp: kstack_guard_enable_def Let_def split: if_splits)
  show ?thesis using f guard_apply_OK [OF kstack_invD(2) [OF assms(1)] c, of q] q res
    by (auto intro: flush_range_frame)
qed

text \<open>
  Switching the guard of a live stack off and on again touches the guard page only, and a
  successful enable always leaves the guard armed, whatever was done to it before.
\<close>

theorem kstack_guard_toggle:
  assumes "kstack_inv p" and "kstack_guard_disable k p = (e1, p1)" and "kstack_guard_enable k p1 = (e2, p2)"
  shows "kstack_inv p2 \<and> kp_bitmap p2 = kp_bitmap p \<and>
    (\<forall>x. \<not> same_page x (k_guard k) \<longrightarrow> walk (kp_vm p2) x = walk (kp_vm p) x) \<and>
    (e2 = KSTACK_OK \<and> kp_guard_kind p = KSTACK_GUARD_UNMAPPED \<longrightarrow> walk (kp_vm p2) (k_guard k) = None)"
proof -
  note f1 = guard_disable_frame [OF assms(1,2)]
  have i1: "kstack_inv p1" by (rule kstack_inv_frame [OF assms(1) f1])
  note g = guard_enable_cases [OF i1 assms(3)]
  have f: "vm_frame (page_set (k_guard k)) p p2" using vm_frame_trans [OF f1] g by blast
  show ?thesis using kstack_inv_frame [OF assms(1) f] kp_fixedD(5) [OF vm_frameD(1) [OF f]] vm_frameD(3) [OF f] g
      kp_fixedD(7) [OF vm_frameD(1) [OF f1]]
    by (auto simp: page_set_def guarded_def hole_def)
qed


section \<open>Reachable pools\<close>

definition init_pool where
  "init_pool v base sz pages kind bm words p =
     p\<lparr>kp_vm := v, kp_pool_base := base,
       kp_slot_count := (let slots = sz div ((pages + 1) * 4096) in if 64 < slots then 64 else slots),
       kp_stack_pages := pages, kp_slot_pages := pages + 1,
       kp_bitmap := fold (\<lambda>i b. b(i := 0)) [0..<unat words] bm,
       kp_bitmap_words := words, kp_flushed := [],
       kp_guard_kind := kind, kp_used_slots := 0, kp_peak_used := 0,
       kp_stat_alloc := 0, kp_stat_free := 0, kp_stat_flush := 0,
       kp_stat_guard_split := 0, kp_last_vmap_err := VMAP_OK, kp_inited := True\<rparr>"

lemma init_pool_sel:
  "kp_vm (init_pool v base sz pages kind bm words p) = v"
  "kp_pool_base (init_pool v base sz pages kind bm words p) = base"
  "kp_slot_count (init_pool v base sz pages kind bm words p) =
    (if 64 < sz div ((pages + 1) * 4096) then 64 else sz div ((pages + 1) * 4096))"
  "kp_stack_pages (init_pool v base sz pages kind bm words p) = pages"
  "kp_slot_pages (init_pool v base sz pages kind bm words p) = pages + 1"
  "kp_used_slots (init_pool v base sz pages kind bm words p) = 0"
  "kp_peak_used (init_pool v base sz pages kind bm words p) = 0"
  "kp_inited (init_pool v base sz pages kind bm words p)"
  "kp_bitmap (init_pool v base sz pages kind bm words p) = fold (\<lambda>i b. b(i := 0)) [0..<unat words] bm"
  by (simp_all add: init_pool_def Let_def)

lemma kstack_pool_init_OK:
  assumes "kstack_pool_init (Some v) base sz pages kind (Some bm) words True p0 = (KSTACK_OK, p)"
  shows "p = init_pool v base sz pages kind bm words p0"
    and "(if (64 :: u32) < sz div ((pages + 1) * 4096) then 64 else sz div ((pages + 1) * 4096)) \<noteq> 0"
    and "\<not> words < ((if (64 :: u32) < sz div ((pages + 1) * 4096) then 64 else sz div ((pages + 1) * 4096)) + 31) div 32"
    and "base AND 4095 = 0"
  using assms unfolding kstack_pool_init_def Let_def init_pool_def
  by (simp_all split: if_split_asm)

lemma kstack_pool_init_inv:
  assumes res: "kstack_pool_init (Some v) base sz pages kind (Some bm) words True p0 = (KSTACK_OK, p)"
    and v: "vmap_inv v" and pages: "unat pages + 1 < 2 ^ 20" and top: "unat base + unat sz < 2 ^ 32"
    and cov: "\<forall>x. unat base \<le> unat x \<and> unat x < unat base + unat sz \<longrightarrow> covered v x"
  shows "kstack_inv p"
proof -
  let ?b = "(pages + 1) * 4096"
  have p1: "unat (pages + 1) = unat pages + 1" using pages by (simp add: unat_add_small)
  have b: "unat ?b = Suc (unat pages) * 4096"
    using pages p1 by (subst unat_word_ariths(2)) simp
  let ?n = "if (64 :: u32) < sz div ?b then 64 else sz div ?b"
  note sh = kstack_pool_init_OK [OF res]
  have p: "kp_vm p = v" "kp_pool_base p = base" "kp_slot_count p = ?n" "kp_stack_pages p = pages"
    "kp_slot_pages p = pages + 1" "kp_used_slots p = 0" "kp_peak_used p = 0" "kp_inited p"
    "kp_bitmap p = fold (\<lambda>i b. b(i := 0)) [0..<unat words] bm"
    "?n \<noteq> 0" "\<not> words < (?n + 31) div 32" "base AND 4095 = 0"
    unfolding sh(1) init_pool_sel by (rule refl init_pool_sel(8) sh(2-4))+
  have n64: "unat ?n \<le> 64" by (auto simp: word_lt_unat not_less)
  have nd: "unat ?n \<le> unat sz div (Suc (unat pages) * 4096)"
    using b by (auto simp: unat_div word_lt_unat)
  have "unat ?n * (Suc (unat pages) * 4096) \<le> unat sz"
    by (rule order_trans [OF mult_le_mono1 [OF nd] div_times_less_eq_dividend])
  then have fits: "unat base + unat ?n * (Suc (unat pages) * 4096) \<le> unat base + unat sz" by simp
  have "unat base mod 2 ^ 12 = 0" using and_mask_0_iff [of base 12] p(12) by (simp add: mask12)
  then have geo: "kstack_geom p"
    using fits top p(8,10) p1 n64 unfolding kstack_geom_def p(1-5) by (auto simp: word_eq_unat)
  have "slot_covered p slot" if s: "unat slot < slots p" for slot
  proof -
    have "covered v (slot_page p slot k)" if "k \<le> unat (kp_stack_pages p)" for k
    proof -
      have u: "unat (slot_page p slot k) = slot_start p slot + k * 4096"
        using unat_slot_page [OF geo s] that by simp
      have "slot_page p slot k \<in> slot_set p slot"
        using that
        by (auto simp: slot_set_def pages_set_def page_set_def intro!: bexI [of _ k])
      then have r: "slot_start p slot \<le> unat (slot_page p slot k)"
        "unat (slot_page p slot k) < slot_start p slot + slot_len p"
        using slot_set_range [OF geo s] by auto
      have "Suc (unat slot) * slot_len p \<le> slots p * slot_len p" using s by (intro mult_le_mono1) simp
      then have "slot_start p slot + slot_len p \<le> unat base + unat sz"
        using fits unfolding slot_start_def p(2-4) mult_Suc by linarith
      moreover have "unat base \<le> slot_start p slot" by (simp add: slot_start_def p(2))
      ultimately show ?thesis using cov r by (meson le_trans less_le_trans)
    qed
    then show ?thesis by (simp add: slot_covered_def p(1))
  qed
  moreover have "cell_count (slot_bit (kp_bitmap p)) (slots p) True = 0"
  proof -
    have "slot_bit (kp_bitmap p) i = False" if "i < slots p" for i
    proof -
      have "unat ((?n + 31) div 32) \<le> unat words" using p(11) by (simp add: word_lt_unat not_less)
      moreover have "unat ((?n + 31) div 32) = (unat ?n + 31) div 32"
      proof -
        have "unat (?n + 31) = unat ?n + 31" using n64 by (subst unat_add_small) simp_all
        then show ?thesis by (subst unat_div) simp
      qed
      moreover have "i div 32 < (unat ?n + 31) div 32" using that p(3) by (simp add: div_less_iff_less_mult)
      ultimately have "i div 32 < unat words" by linarith
      moreover have "fold (\<lambda>i b. b(i := 0)) [0..<n] f j = (if j < n then 0 else f j)" for n j and f :: "nat \<Rightarrow> u32"
        by (induction n) auto
      ultimately show ?thesis by (simp add: slot_bit_eq p(9))
    qed
    then show ?thesis by (simp add: cell_count_0_iff)
  qed
  ultimately show ?thesis using geo v p(1,6,7) by (simp add: kstack_inv_def)
qed


inductive kstack_reachable :: "kstack_pool_t \<Rightarrow> bool" where
  init: "\<lbrakk>kstack_pool_init (Some v) base sz pages kind (Some bm) words True p0 = (KSTACK_OK, p);
          vmap_inv v; unat pages + 1 < 2 ^ 20; unat base + unat sz < 2 ^ 32;
          \<forall>x. unat base \<le> unat x \<and> unat x < unat base + unat sz \<longrightarrow> covered v x\<rbrakk>
         \<Longrightarrow> kstack_reachable p"
| alloc: "kstack_reachable p \<Longrightarrow> kstack_reachable (snd (kstack_alloc False p))"
| free: "kstack_reachable p \<Longrightarrow> kstack_reachable (snd (snd (kstack_free k p)))"
| guard_off: "kstack_reachable p \<Longrightarrow> kstack_reachable (snd (kstack_guard_disable k p))"
| guard_on: "kstack_reachable p \<Longrightarrow> kstack_reachable (snd (kstack_guard_enable k p))"

lemma kstack_reachable_inv: "kstack_reachable p \<Longrightarrow> kstack_inv p"
proof (induction rule: kstack_reachable.induct)
  case (init v base sz pages kind bm words p0 p)
  then show ?case by (rule kstack_pool_init_inv)
next
  case (alloc p)
  then show ?case by (simp add: kstack_alloc_inv)
next
  case (free p k)
  then show ?case by (simp add: kstack_free_inv)
next
  case (guard_off p k)
  show ?case by (rule kstack_inv_frame [OF guard_off.IH guard_disable_frame [OF guard_off.IH surjective_pairing]])
next
  case (guard_on p k)
  show ?case using guard_enable_cases [OF guard_on.IH surjective_pairing] kstack_inv_frame [OF guard_on.IH] by blast
qed

section \<open>The properties at work\<close>

text \<open>Two one-page stacks on the address space \<open>vm1\<close>, whose first section is split already.\<close>

definition kp0 :: kstack_pool_t where
  "kp0 = snd (kstack_pool_init (Some vm1) 0x40000000 0x4000 1 KSTACK_GUARD_UNMAPPED (Some (\<lambda>_. 7)) 2 True undefined)"

definition kp1 :: kstack_pool_t where "kp1 = snd (kstack_alloc False kp0)"

lemma kp0_init:
  "kstack_pool_init (Some vm1) 0x40000000 0x4000 1 KSTACK_GUARD_UNMAPPED (Some (\<lambda>_. 7)) 2 True undefined = (KSTACK_OK, kp0)"
  by (simp add: kp0_def kstack_pool_init_def Let_def)

lemma kp0_geom: "kp_stack_pages kp0 = 1" "slots kp0 = 2" "kp_pool_base kp0 = 0x40000000" "kp_vm kp0 = vm1"
  "kp_bitmap kp0 = fold (\<lambda>i b. b(i := 0)) [0..<2] (\<lambda>_. 7)"
  by (simp_all add: kp0_def kstack_pool_init_def Let_def)

lemma vm1_fine:
  assumes "0x40000000 \<le> unat x" "unat x < 0x40004000"
  shows "covered vm1 x \<and> fine vm1 x"
proof -
  have "unat x div 1048576 = 0x400"
    using assms by (intro div_nat_eqI) simp_all
  then have i: "vmap_l1_index x = 0x400" by (simp add: vmap_l1_index_nat)
  have "in_range vm0 x" using assms by (simp add: in_range_def vm0_eq word_le_unat word_lt_unat)
  then have "in_range vm1 x" by (simp add: vm1_def vm1_eq)
  then show ?thesis using vm1_facts(1) by (simp add: covered_def fine_def i)
qed

lemma kp0_reachable: "kstack_reachable kp0"
  by (rule kstack_reachable.init [OF kp0_init vm_inv(2)]) (use vm1_fine in auto)

lemmas kp0_inv = kp0_reachable [THEN kstack_reachable_inv]

lemma kp0_fine: "\<forall>slot. unat slot < slots kp0 \<longrightarrow> slot_fine kp0 slot"
proof (intro allI impI)
  fix slot :: u32 assume s: "unat slot < slots kp0"
  note geo = kstack_invD(1) [OF kp0_inv]
  have "fine vm1 (slot_page kp0 slot k)" if "k \<le> 1" for k
  proof -
    have "unat (slot_page kp0 slot k) = 0x40000000 + unat slot * 8192 + k * 4096"
      using unat_slot_page [OF geo s] that by (simp add: kp0_geom slot_start_def)
    then show ?thesis using vm1_fine [of "slot_page kp0 slot k"] s that by (simp add: kp0_geom)
  qed
  then show "slot_fine kp0 slot" by (simp add: slot_fine_def kp0_geom)
qed

lemma kp0_free: "\<not> slot_bit (kp_bitmap kp0) 0"
  by (simp add: slot_bit_eq kp0_geom upt_conv_Cons numeral_2_eq_2)

lemma kp0_alloc: obtains h where "kstack_alloc False kp0 = (Inr h, kp1)"
  using alloc_fine [OF kp0_inv _ kp0_free kp0_fine] by (auto simp: kp0_geom kp1_def)

lemma kstack_alloc_succeeds_witness: "\<exists>h p'. kstack_alloc False kp0 = (Inr h, p')"
  using kstack_alloc_succeeds [OF kp0_inv _ kp0_free kp0_fine] by (simp add: kp0_geom)

lemma kstack_alloc_lowest_slot_witness:
  "\<exists>h p'. kstack_alloc False kp0 = (Inr h, p') \<and> handle_check p' h = KSTACK_OK \<and> k_slot h = 0"
proof -
  obtain h where h: "kstack_alloc False kp0 = (Inr h, kp1)" by (rule kp0_alloc)
  note t = kstack_alloc_lowest_slot [OF kp0_inv h]
  then have "unat (k_slot h) = 0" using kp0_free by (metis gr0I)
  then show ?thesis using t h by (auto simp: word_eq_unat)
qed

lemma kstack_alloc_mapping_witness:
  "\<exists>h p'. kstack_alloc False kp0 = (Inr h, p') \<and> walk (kp_vm p') (k_guard h) = None"
proof -
  obtain h where h: "kstack_alloc False kp0 = (Inr h, kp1)" by (rule kp0_alloc)
  have "kp_guard_kind kp0 = KSTACK_GUARD_UNMAPPED" by (simp add: kp0_def kstack_pool_init_def Let_def)
  then have "walk (kp_vm kp1) (k_guard h) = None"
    using kstack_alloc_mapping [OF kp0_inv h] alloc_geometry [OF kp0_inv h] by simp
  then show ?thesis using h by blast
qed

lemma kstack_free_checked_witness:
  "\<exists>h e k'. kstack_alloc False kp0 = (Inr h, kp1) \<and> kstack_free (h\<lparr>k_in_use := False\<rparr>) kp1 = (e, k', kp1)
     \<and> e = KSTACK_ERR_DOUBLE_FREE"
proof -
  obtain h where h: "kstack_alloc False kp0 = (Inr h, kp1)" by (rule kp0_alloc)
  have hc: "handle_check kp1 h = KSTACK_OK" and inv: "kstack_inv kp1" using alloc_handle [OF kp0_inv h] by auto
  have d: "handle_check kp1 (h\<lparr>k_in_use := False\<rparr>) = KSTACK_ERR_DOUBLE_FREE"
    using hc by (auto simp: handle_check_def Let_def split: if_splits)
  obtain e k' p' where r: "kstack_free (h\<lparr>k_in_use := False\<rparr>) kp1 = (e, k', p')" by (metis prod_cases3)
  show ?thesis using kstack_free_checked [OF inv r] d h r by auto
qed

lemma kstack_alloc_free_roundtrip_witness:
  "\<exists>h h'' p''. kstack_alloc False kp0 = (Inr h, kp1) \<and> kstack_free h kp1 = (KSTACK_OK, h'', p'')"
proof -
  obtain h where h: "kstack_alloc False kp0 = (Inr h, kp1)" by (rule kp0_alloc)
  show ?thesis using kstack_alloc_free_roundtrip [OF kp0_inv h] h by blast
qed

lemma kstack_guard_toggle_witness:
  "kp_bitmap (snd (kstack_guard_enable undefined (snd (kstack_guard_disable undefined kp0)))) = kp_bitmap kp0"
  using kstack_guard_toggle [OF kp0_inv surjective_pairing surjective_pairing] by blast

text \<open>The same pool with both slots taken.\<close>

definition kp_full :: kstack_pool_t where
  "kp_full = kp0\<lparr>kp_bitmap := (\<lambda>_. 0xFFFFFFFF), kp_used_slots := 2, kp_peak_used := 2\<rparr>"

lemma kp_full_bits: "slot_bit (kp_bitmap kp_full) i"
proof -
  have "(0xFFFFFFFF :: u32) = mask 32" by (simp add: mask_eq_exp_minus_1)
  moreover have "bit (mask 32 :: u32) (i mod 32)" by (simp only: bit_mask_iff) simp
  ultimately show ?thesis by (simp add: slot_bit_eq kp_full_def)
qed

lemma kp_full_inv: "kstack_inv kp_full"
proof -
  have c: "cell_count (slot_bit (kp_bitmap kp_full)) 2 True = 2"
    by (simp add: cell_count_def kp_full_bits)
  show ?thesis using kp0_inv c kp0_geom
    by (simp add: kp_full_def kstack_inv_def kstack_geom_def slot_covered_def slot_page_def slot_base_of_def)
qed

lemma kstack_alloc_failure_witness: "fst (kstack_alloc False kp_full) = Inl KSTACK_ERR_NO_SLOT"
proof -
  obtain r p' where res: "kstack_alloc False kp_full = (r, p')" by fastforce
  have "r = Inl KSTACK_ERR_NO_SLOT"
  proof (cases r)
    case (Inl e)
    then show ?thesis using kstack_alloc_failure [OF kp_full_inv res [unfolded Inl]] kp_full_bits by auto
  next
    case (Inr h)
    then show ?thesis using alloc_handle [OF kp_full_inv res [unfolded Inr]] kp_full_bits by auto
  qed
  then show ?thesis by (simp add: res)
qed

section \<open>The counters along a history\<close>

text \<open>
  A history of a pool with what happened in it: \<open>A\<close> handles given out, \<open>F\<close> frees accepted, and \<open>M\<close> the greatest
  number of slots that were marked at once.  An allocation that finds a free slot marks it before it maps anything, so
  it counts for \<open>M\<close> even when the mapping fails.
\<close>

definition taken :: "kstack_pool_t \<Rightarrow> nat" where
  "taken p = card {i. i < slots p \<and> slot_bit (kp_bitmap p) i}"

inductive kstack_run :: "nat \<Rightarrow> nat \<Rightarrow> nat \<Rightarrow> kstack_pool_t \<Rightarrow> bool" where
  init: "\<lbrakk>kstack_pool_init (Some v) base sz pages kind (Some bm) words True p0 = (KSTACK_OK, p);
          vmap_inv v; unat pages + 1 < 2 ^ 20; unat base + unat sz < 2 ^ 32;
          \<forall>x. unat base \<le> unat x \<and> unat x < unat base + unat sz \<longrightarrow> covered v x\<rbrakk>
         \<Longrightarrow> kstack_run 0 0 0 p"
| alloc: "\<lbrakk>kstack_run A F M p; kstack_alloc False p = (r, p')\<rbrakk>
    \<Longrightarrow> kstack_run (case r of Inr h \<Rightarrow> Suc A | Inl e \<Rightarrow> A) F (if taken p < slots p then max M (Suc (taken p)) else M) p'"
| free: "\<lbrakk>kstack_run A F M p; kstack_free k p = (e, k', p')\<rbrakk>
    \<Longrightarrow> kstack_run A (if e = KSTACK_OK then Suc F else F) M p'"
| guard_off: "kstack_run A F M p \<Longrightarrow> kstack_run A F M (snd (kstack_guard_disable k p))"
| guard_on: "kstack_run A F M p \<Longrightarrow> kstack_run A F M (snd (kstack_guard_enable k p))"

lemma kstack_run_reachable: "kstack_run A F M p \<Longrightarrow> kstack_reachable p"
proof (induction rule: kstack_run.induct)
  case (init v base sz pages kind bm words p0 p)
  then show ?case by (rule kstack_reachable.init)
next
  case (alloc A F M p r p')
  then show ?case using kstack_reachable.alloc [OF alloc.IH] by simp
next
  case (free A F M p k e k' p')
  then show ?case using kstack_reachable.free [OF free.IH, of k] by simp
qed (auto intro: kstack_reachable.intros)

lemma taken_count: "taken p = cell_count (slot_bit (kp_bitmap p)) (slots p) True"
  by (simp add: taken_def cell_count_def)

lemma used_taken: "kstack_inv p \<Longrightarrow> unat (kp_used_slots p) = taken p"
  using kstack_invD(4) by (simp add: taken_count)

lemma taken_less:
  assumes "s < slots p" "\<not> slot_bit (kp_bitmap p) s"
  shows "taken p < slots p"
proof -
  have "{i. i < slots p \<and> slot_bit (kp_bitmap p) i} \<subset> {..<slots p}" using assms by auto
  then have "card {i. i < slots p \<and> slot_bit (kp_bitmap p) i} < card {..<slots p}" by (rule psubset_card_mono [rotated]) simp
  then show ?thesis by (simp add: taken_def)
qed

lemma taken_all: "\<forall>j < slots p. slot_bit (kp_bitmap p) j \<Longrightarrow> taken p = slots p"
proof -
  assume "\<forall>j < slots p. slot_bit (kp_bitmap p) j"
  then have "{i. i < slots p \<and> slot_bit (kp_bitmap p) i} = {..<slots p}" by auto
  then show ?thesis by (simp add: taken_def)
qed

lemma slot_mark_counts:
  "kp_stat_alloc (slot_mark i u p) = kp_stat_alloc p" "kp_stat_free (slot_mark i u p) = kp_stat_free p"
  "kp_peak_used (slot_mark i False p) = kp_peak_used p"
  by (simp_all add: slot_mark_def Let_def)

lemma slot_mark_peak:
  assumes "kstack_inv p" "unat s < slots p" "\<not> slot_bit (kp_bitmap p) (unat s)"
  shows "unat (kp_peak_used (slot_mark s True p)) = max (unat (kp_peak_used p)) (Suc (taken p))"
proof -
  have "taken p < 64" using taken_less [OF assms(2,3)] kstack_invD(7) [OF assms(1)] by simp
  then have "unat (kp_used_slots p + 1) = Suc (taken p)"
    using used_taken [OF assms(1)] by (simp add: unat_add_small)
  then show ?thesis by (simp add: slot_mark_def Let_def word_lt_unat)
qed

lemma alloc_counts:
  assumes inv: "kstack_inv p" and res: "kstack_alloc False p = (r, p')"
  shows "unat (kp_peak_used p') = (if taken p < slots p then max (unat (kp_peak_used p)) (Suc (taken p)) else unat (kp_peak_used p))
    \<and> kp_stat_alloc p' = (case r of Inr h \<Rightarrow> kp_stat_alloc p + 1 | Inl e \<Rightarrow> kp_stat_alloc p)
    \<and> kp_stat_free p' = kp_stat_free p"
  using inv res
proof (cases rule: kstack_alloc_split)
  case full
  then show ?thesis using taken_all by simp
next
  case (ok s q)
  have f: "vm_frame (slot_set p s) (slot_mark s True p) q"
    using slot_setup_frame [OF _ _ ok(5)] kstack_invD(2,3) [OF inv] ok(2) by simp
  note fixq = kp_fixedD [OF vm_frameD(1) [OF f]]
  have "kp_fixed p' = kp_fixed (q\<lparr>kp_stat_alloc := kp_stat_alloc q + 1\<rparr>)"
    by (simp add: ok(7) kp_fixed_def flush_range_def)
  note p' = kp_fixedD [OF this]
  show ?thesis using p' fixq slot_mark_peak [OF inv ok(2,3)] taken_less [OF ok(2,3)] ok(6)
    by (simp add: slot_mark_counts)
next
  case (failed s e q e2 q2)
  have f: "vm_frame (slot_set p s) (slot_mark s True p) q"
    using slot_setup_frame [OF _ _ failed(3)] kstack_invD(2,3) [OF inv] failed(1) by simp
  note q = marked [OF inv failed(1,2) f]
  have f2: "vm_frame (slot_set q s) q q2"
    by (rule slot_release_frame [OF kstack_invD(2) [OF q(1)] kstack_invD(3) [OF q(1)] failed(5)])
      (use failed(1) q(3) in simp)
  show ?thesis using kp_fixedD [OF vm_frameD(1) [OF f]] kp_fixedD [OF vm_frameD(1) [OF f2]]
      slot_mark_peak [OF inv failed(1,2)] taken_less [OF failed(1,2)] failed(6,7)
    by (simp add: slot_mark_counts)
qed

lemma free_counts:
  assumes inv: "kstack_inv p" and res: "kstack_free k p = (e, k', p')"
  shows "kp_peak_used p' = kp_peak_used p \<and> kp_stat_alloc p' = kp_stat_alloc p
    \<and> kp_stat_free p' = (if e = KSTACK_OK then kp_stat_free p + 1 else kp_stat_free p)"
  using inv res
proof (cases rule: kstack_free_split)
  case stuck
  then show ?thesis using kp_fixedD [OF vm_frameD(1) [OF stuck(4)]] by simp
next
  case (freed q)
  then show ?thesis using kp_fixedD [OF vm_frameD(1) [OF freed(4)]] by (simp add: slot_mark_counts)
qed simp

lemma kstack_run_counts:
  "kstack_run A F M p \<Longrightarrow> unat (kp_peak_used p) = M \<and> kp_stat_alloc p = of_nat A \<and> kp_stat_free p = of_nat F"
proof (induction rule: kstack_run.induct)
  case (init v base sz pages kind bm words p0 p)
  then show ?case using kstack_pool_init_OK(1) [OF init(1)] by (simp add: init_pool_def Let_def)
next
  case (alloc A F M p r p')
  note inv = kstack_reachable_inv [OF kstack_run_reachable [OF alloc.hyps(1)]]
  show ?case using alloc_counts [OF inv alloc.hyps(2)] alloc.IH by (auto split: sum.splits)
next
  case (free A F M p k e k' p')
  note inv = kstack_reachable_inv [OF kstack_run_reachable [OF free.hyps(1)]]
  show ?case using free_counts [OF inv free.hyps(2)] free.IH by auto
next
  case (guard_off A F M p k)
  note inv = kstack_reachable_inv [OF kstack_run_reachable [OF guard_off.hyps]]
  show ?case using kp_fixedD [OF vm_frameD(1) [OF guard_disable_frame [OF inv surjective_pairing]]] guard_off.IH by simp
next
  case (guard_on A F M p k)
  note inv = kstack_reachable_inv [OF kstack_run_reachable [OF guard_on.hyps]]
  show ?case using kp_fixedD [OF vm_frameD(1) [OF conjunct1 [OF guard_enable_cases [OF inv surjective_pairing]]]] guard_on.IH by simp
qed


lemma handles_apart:
  assumes inv: "kstack_inv p"
    and ok: "handle_check p k = KSTACK_OK" "handle_check p j = KSTACK_OK" "k_slot k \<noteq> k_slot j"
  shows "unat (k_top k) \<le> unat (k_guard j) \<or> unat (k_top j) \<le> unat (k_guard k)"
proof -
  note geo = kstack_invD(1) [OF inv]
  have g: "unat (k_guard h) = slot_start p (k_slot h)" "unat (k_top h) = slot_start p (k_slot h) + slot_len p"
    if hc: "handle_check p h = KSTACK_OK" for h
  proof -
    note hh = handle_check_OK [OF hc]
    show "unat (k_guard h) = slot_start p (k_slot h)" using unat_slot_base [OF geo hh(1)] hh(4) by simp
    have "kp_slot_pages p = of_nat (unat (kp_slot_pages p))" by simp
    then have "kp_slot_pages p = of_nat (Suc (unat (kp_stack_pages p)))"
      using geo by (simp only: kstack_geom_def)
    then have "k_top h = slot_page p (k_slot h) (Suc (unat (kp_stack_pages p)))"
      by (simp only: hh(6) slot_page_def)
    then show "unat (k_top h) = slot_start p (k_slot h) + slot_len p"
      using unat_slot_page [OF geo hh(1), of "Suc (unat (kp_stack_pages p))"] by simp
  qed
  have ord: "slot_start p s + slot_len p \<le> slot_start p t" if "unat s < unat t" for s t
  proof -
    have "Suc (unat s) * slot_len p \<le> unat t * slot_len p" using that by (intro mult_le_mono1) simp
    then show ?thesis unfolding slot_start_def mult_Suc by linarith
  qed
  show ?thesis
    using g [OF ok(1)] g [OF ok(2)] ord [of "k_slot k" "k_slot j"] ord [of "k_slot j" "k_slot k"] ok(3)
    by (metis linorder_neqE_nat word_eq_unat)
qed

text \<open>
  C7. Along every history of a pool its four counters are exact: the used-slot counter is the number of marked slots,
  the peak is the greatest number of slots that were ever marked at once (an allocation marks its slot before it maps
  it, so a failed attempt counts), and the two statistics are the number of handles given out and of frees accepted,
  modulo 2^32.  The address space stays well formed, and two handles that the pool accepts for different slots own
  disjoint address ranges, guards included.
\<close>

theorem kstack_reachable_safe:
  assumes "kstack_run A F M p"
  shows "unat (kp_used_slots p) = card {i. i < slots p \<and> slot_bit (kp_bitmap p) i} \<and>
    unat (kp_peak_used p) = M \<and> unat (kp_used_slots p) \<le> M \<and> M \<le> slots p \<and>
    kp_stat_alloc p = of_nat A \<and> kp_stat_free p = of_nat F \<and> vmap_inv (kp_vm p) \<and>
    (handle_check p k = KSTACK_OK \<and> handle_check p j = KSTACK_OK \<and> k_slot k \<noteq> k_slot j \<longrightarrow>
       unat (k_top k) \<le> unat (k_guard j) \<or> unat (k_top j) \<le> unat (k_guard k))"
proof -
  note inv = kstack_reachable_inv [OF kstack_run_reachable [OF assms]]
  show ?thesis
    using kstack_run_counts [OF assms] used_taken [OF inv] kstack_invD(2,5,6) [OF inv] handles_apart [OF inv, of k j]
    unfolding taken_def by blast
qed

section \<open>Two stacks\<close>

lemma alloc_keeps:
  assumes inv: "kstack_inv p" and res: "kstack_alloc False p = (Inr h, p')"
  shows "(slot_fine p slot \<longrightarrow> slot_fine p' slot) \<and> kp_slot_count p' = kp_slot_count p \<and>
    kp_pool_base p' = kp_pool_base p \<and> kp_slot_pages p' = kp_slot_pages p \<and> kp_stack_pages p' = kp_stack_pages p \<and>
    kp_inited p' = kp_inited p"
  using inv res
proof (cases rule: kstack_alloc_split)
  case (ok s q)
  have fr: "vm_frame (slot_set p s) (slot_mark s True p) q"
    using slot_setup_frame [OF _ _ ok(5)] kstack_invD(2,3) [OF inv] ok(2) by simp
  have "slot_fine p slot \<longrightarrow> slot_fine q slot" using slot_fine_frame [OF fr] by simp
  then show ?thesis using kp_fixedD [OF vm_frameD(1) [OF fr]] unfolding ok(7)
    by (simp add: slot_fine_def slot_page_def slot_base_of_def flush_range_def)
qed auto

lemma alloc_keeps_handle:
  assumes "kstack_inv p" "kstack_alloc False p = (Inr h, p')" "handle_check p k = KSTACK_OK"
  shows "handle_check p' k = KSTACK_OK"
  using alloc_keeps [OF assms(1,2)] alloc_handle [OF assms(1,2)] assms(3)
  by (auto simp: handle_check_def Let_def slot_base_of_def split: if_splits)

text \<open>A pool of two slots after two allocations.\<close>

lemma kstack_reachable_safe_witness:
  "\<exists>h1 h2 p. kstack_alloc False kp0 = (Inr h1, kp1) \<and> kstack_alloc False kp1 = (Inr h2, p) \<and>
    handle_check p h1 = KSTACK_OK \<and> handle_check p h2 = KSTACK_OK \<and>
    (unat (k_top h1) \<le> unat (k_guard h2) \<or> unat (k_top h2) \<le> unat (k_guard h1)) \<and>
    unat (kp_peak_used p) = 2 \<and> kp_stat_alloc p = 2 \<and> kp_stat_free p = 0"
proof -
  obtain h1 where h1: "kstack_alloc False kp0 = (Inr h1, kp1)" by (rule kp0_alloc)
  note a1 = alloc_handle [OF kp0_inv h1]
  have s1: "unat (k_slot h1) = 0" using a1 kp0_free by (metis gr0I)
  have inv1: "kstack_inv kp1" and b1: "slot_bit (kp_bitmap kp1) = (slot_bit (kp_bitmap kp0))(0 := True)"
    using a1 s1 by auto
  have sl: "slots kp1 = 2" using alloc_keeps [OF kp0_inv h1] by (simp add: kp0_geom)
  have free0: "\<not> slot_bit (kp_bitmap kp0) 1"
    by (simp add: slot_bit_eq kp0_geom upt_conv_Cons numeral_2_eq_2)
  then have free1: "\<not> slot_bit (kp_bitmap kp1) 1" by (simp add: b1)
  have "\<forall>slot. unat slot < slots kp1 \<longrightarrow> slot_fine kp1 slot"
    using alloc_keeps [OF kp0_inv h1] kp0_fine by (simp add: sl kp0_geom)
  then obtain h2 p where h2: "kstack_alloc False kp1 = (Inr h2, p)"
    using alloc_fine [OF inv1 _ free1] by (auto simp: sl)
  note a2 = alloc_handle [OF inv1 h2]
  have "{i. i < 2 \<and> slot_bit (kp_bitmap kp0) i} = {}" using kp0_free free0 by (auto dest!: less_2_cases)
  then have t0: "taken kp0 = 0" by (simp add: taken_def kp0_geom(2))
  have "{i. i < 2 \<and> slot_bit (kp_bitmap kp1) i} = {0}" using free1 by (auto simp: b1 dest!: less_2_cases)
  then have t1: "taken kp1 = 1" by (simp add: taken_def sl)
  have "kstack_run 0 0 0 kp0" by (rule kstack_run.init [OF kp0_init vm_inv(2)]) (use vm1_fine in auto)
  from kstack_run.alloc [OF this h1] have "kstack_run 1 0 1 kp1" by (simp add: t0 kp0_geom)
  from kstack_run.alloc [OF this h2] have run: "kstack_run 2 0 2 p" by (simp add: t1 sl numeral_2_eq_2)
  have hc: "handle_check p h1 = KSTACK_OK" "handle_check p h2 = KSTACK_OK"
    using alloc_keeps_handle [OF inv1 h2] a1 a2 by auto
  moreover have "k_slot h1 \<noteq> k_slot h2" using a2 b1 s1 by auto
  ultimately show ?thesis using kstack_reachable_safe [OF run, of h1 h2] h1 h2 by auto
qed

end
