(* ===== verification/Memory.thy ===== *)
theory Memory
  imports Prelude
begin

text \<open>
  Byte-addressed memory of the 32-bit machine and the little-endian word access the C structs
  in it use.  The interface \<open>word_memory\<close> is what a client that keeps whole words in memory
  needs: a word reads back as written, and distinct aligned words do not overlap.
\<close>

type_synonym bytes = "u32 \<Rightarrow> u8"

definition ld32 :: "bytes \<Rightarrow> u32 \<Rightarrow> u32" where
  "ld32 m a = ucast (m a) OR push_bit 8 (ucast (m (a + 1))) OR push_bit 16 (ucast (m (a + 2)))
     OR push_bit 24 (ucast (m (a + 3)))"

definition st32 :: "bytes \<Rightarrow> u32 \<Rightarrow> u32 \<Rightarrow> bytes" where
  "st32 m a v = m(a := ucast v, a + 1 := ucast (drop_bit 8 v), a + 2 := ucast (drop_bit 16 v),
     a + 3 := ucast (drop_bit 24 v))"

locale word_memory =
  fixes ld :: "'m \<Rightarrow> u32 \<Rightarrow> u32" and st :: "'m \<Rightarrow> u32 \<Rightarrow> u32 \<Rightarrow> 'm"
  assumes ld_st_same: "ld (st m a v) a = v"
    and ld_st_other: "4 dvd unat a \<Longrightarrow> 4 dvd unat b \<Longrightarrow> a \<noteq> b \<Longrightarrow> ld (st m a v) b = ld m b"
begin

lemma ld_st_nat:
  assumes "4 dvd a" "4 dvd b" "a < 4294967296" "b < 4294967296"
  shows "ld (st m (of_nat a) v) (of_nat b) = (if a = b then v else ld m (of_nat b))"
proof (cases "a = b")
  case False
  have "unat (of_nat a :: u32) = a" "unat (of_nat b :: u32) = b"
    using assms by (simp_all add: unat_of_nat_small)
  then show ?thesis using False assms ld_st_other [of "of_nat a" "of_nat b"] by (metis)
qed (simp add: ld_st_same)

text \<open>Two records of six words that do not overlap, seen from their word-aligned base addresses.\<close>

lemma ld_st_apart:
  assumes "4 dvd a" "4 dvd b" "a + 24 \<le> b \<or> b + 24 \<le> a" "a + 24 < 4294967296" "b + 24 < 4294967296"
    and "4 dvd j" "4 dvd k" "j < 24" "k < 24"
  shows "ld (st m (of_nat (a + j)) v) (of_nat (b + k)) = ld m (of_nat (b + k))"
proof -
  have "a + j \<noteq> b + k" using assms(3,8,9) by linarith
  then show ?thesis using assms by (subst ld_st_nat) auto
qed

lemma ld_st_field:
  assumes "4 dvd a" "a + 24 < 4294967296" "4 dvd j" "4 dvd k" "j < 24" "k < 24"
  shows "ld (st m (of_nat (a + j)) v) (of_nat (a + k)) = (if j = k then v else ld m (of_nat (a + k)))"
  using assms by (subst ld_st_nat) auto

end

lemma word_bytes:
  "(ucast (ucast v :: u8) OR push_bit 8 (ucast (ucast (drop_bit 8 v) :: u8)) OR
    push_bit 16 (ucast (ucast (drop_bit 16 v) :: u8)) OR push_bit 24 (ucast (ucast (drop_bit 24 v) :: u8))) = (v :: u32)"
proof (rule bit_word_eqI)
  fix n assume "n < LENGTH(32)"
  then have "n < 32" by simp
  then consider "n < 8" | "8 \<le> n" "n < 16" | "16 \<le> n" "n < 24" | "24 \<le> n" "n < 32" by linarith
  then show "bit (ucast (ucast v :: u8) OR push_bit 8 (ucast (ucast (drop_bit 8 v) :: u8)) OR
    push_bit 16 (ucast (ucast (drop_bit 16 v) :: u8)) OR push_bit 24 (ucast (ucast (drop_bit 24 v) :: u8)) :: u32) n = bit v n"
    by cases (auto simp: bit_simps)
qed

lemma offset_word:
  assumes "4 dvd unat (a :: u32)" "k < 4"
  shows "unat (a + of_nat k) = unat a + k"
proof -
  obtain q where q: "unat a = 4 * q" using assms(1) by (auto elim: dvdE)
  have "unat a < 4294967296" by (rule unat_lt32)
  then have "unat a + k < 4294967296" using q assms(2) by presburger
  moreover have "unat (of_nat k :: u32) = k" using assms(2) by (simp add: unat_of_nat_small)
  ultimately show ?thesis by (simp add: unat_add_small)
qed

lemma word_bytes_apart:
  assumes "4 dvd unat (a :: u32)" "4 dvd unat b" "a \<noteq> b" "j < 4" "k < 4"
  shows "a + of_nat j \<noteq> b + of_nat k"
proof
  assume "a + of_nat j = b + of_nat k"
  then have "unat a + j = unat b + k" using offset_word assms by metis
  moreover obtain p q where "unat a = 4 * p" "unat b = 4 * q" using assms(1,2) by (auto elim!: dvdE)
  ultimately have "unat a = unat b" using assms(4,5) by presburger
  then show False using assms(3) by (simp add: word_eq_unat)
qed

interpretation wm: word_memory ld32 st32
proof
  fix m a v
  show "ld32 (st32 m a v) a = v" by (simp add: ld32_def st32_def word_bytes)
next
  fix a b :: u32 and m v
  assume ab: "4 dvd unat a" "4 dvd unat b" "a \<noteq> b"
  note ap = word_bytes_apart [OF ab]
  have ne: "b + of_nat k \<noteq> a + of_nat j" if "j < 4" "k < 4" for j k using ap that by metis
  show "ld32 (st32 m a v) b = ld32 m b"
    using ne [of 0 0] ne [of 0 1] ne [of 0 2] ne [of 0 3] ne [of 1 0] ne [of 1 1] ne [of 1 2] ne [of 1 3]
      ne [of 2 0] ne [of 2 1] ne [of 2 2] ne [of 2 3] ne [of 3 0] ne [of 3 1] ne [of 3 2] ne [of 3 3]
    by (simp add: ld32_def st32_def)
qed

text \<open>A write outside the four bytes of a word leaves it alone.\<close>

lemma ld32_cong:
  "m a = m' a \<Longrightarrow> m (a + 1) = m' (a + 1) \<Longrightarrow> m (a + 2) = m' (a + 2) \<Longrightarrow> m (a + 3) = m' (a + 3) \<Longrightarrow>
   ld32 m a = ld32 m' a"
  by (simp add: ld32_def)

lemma st32_other:
  "b \<noteq> a \<Longrightarrow> b \<noteq> a + 1 \<Longrightarrow> b \<noteq> a + 2 \<Longrightarrow> b \<noteq> a + 3 \<Longrightarrow> st32 m a v b = m b"
  by (simp add: st32_def)

end
