(* ===== verification/Krlibc.thy ===== *)
theory Krlibc
  imports Memory
begin

text \<open>
  The kernel's C library, \<open>arch/arm32/src/krlibc.c\<close>, over byte-addressed memory.  A function
  that writes memory returns its result and the new memory.  Loops with a bound run over the
  indices; loops that only end at a NUL byte are \<open>partial_function\<close>s, so that running on forever
  is the value \<open>None\<close>.  Plain \<open>char\<close> is unsigned, as on this target.
\<close>

section \<open>Memory blocks\<close>

definition copy_up :: "u32 \<Rightarrow> u32 \<Rightarrow> nat \<Rightarrow> bytes \<Rightarrow> bytes" where
  "copy_up d s n m = fold (\<lambda>i m. m(d + of_nat i := m (s + of_nat i))) [0..<n] m"

definition copy_down :: "u32 \<Rightarrow> u32 \<Rightarrow> nat \<Rightarrow> bytes \<Rightarrow> bytes" where
  "copy_down d s n m = fold (\<lambda>i m. m(d + of_nat i := m (s + of_nat i))) (rev [0..<n]) m"

definition memcpy :: "u32 \<Rightarrow> u32 \<Rightarrow> u32 \<Rightarrow> bytes \<Rightarrow> u32 \<times> bytes" where
  "memcpy dest src n m = (dest, copy_up dest src (unat n) m)"

definition memmove :: "u32 \<Rightarrow> u32 \<Rightarrow> u32 \<Rightarrow> bytes \<Rightarrow> u32 \<times> bytes" where
  "memmove d s n m =
     (if d = s \<or> n = 0 then (d, m)
      else if d < s \<or> s + n \<le> d then (d, copy_up d s (unat n) m)
      else (d, copy_down d s (unat n) m))"

definition fill :: "u32 \<Rightarrow> u8 \<Rightarrow> nat \<Rightarrow> bytes \<Rightarrow> bytes" where
  "fill d v n m = fold (\<lambda>i m. m(d + of_nat i := v)) [0..<n] m"

definition memset :: "u32 \<Rightarrow> u32 \<Rightarrow> u32 \<Rightarrow> bytes \<Rightarrow> u32 \<times> bytes" where
  "memset dst val n m = (dst, fill dst (ucast val) (unat n) m)"

fun memcmp_from :: "bytes \<Rightarrow> u32 \<Rightarrow> u32 \<Rightarrow> nat list \<Rightarrow> int" where
  "memcmp_from m a b [] = 0"
| "memcmp_from m a b (i # is) =
     (if m (a + of_nat i) \<noteq> m (b + of_nat i) then uint (m (a + of_nat i)) - uint (m (b + of_nat i))
      else memcmp_from m a b is)"

definition memcmp :: "bytes \<Rightarrow> u32 \<Rightarrow> u32 \<Rightarrow> u32 \<Rightarrow> int" where
  "memcmp m a b n = memcmp_from m a b [0..<unat n]"

subsection \<open>What the loops do\<close>

lemma offset_below:
  fixes x d :: u32
  assumes "k < 4294967296"
  shows "unat (x - d) < Suc k \<longleftrightarrow> unat (x - d) < k \<or> x = d + of_nat k"
proof -
  have "unat (of_nat k :: u32) = k" using assms by (simp add: unat_of_nat_small)
  then have "x = d + of_nat k \<longleftrightarrow> unat (x - d) = k"
    by (metis add.commute diff_add_cancel add_diff_cancel_left' word_eq_unat)
  then show ?thesis by auto
qed

lemma copy_up_Suc: "copy_up d s (Suc k) m = (copy_up d s k m)(d + of_nat k := copy_up d s k m (s + of_nat k))"
  by (simp add: copy_up_def)

lemma copy_down_Suc: "copy_down d s (Suc k) m = copy_down d s k (m(d + of_nat k := m (s + of_nat k)))"
  by (simp add: copy_down_def)

lemma copy_up_exact:
  assumes "n \<le> 4294967296" and "\<And>j. j < n \<Longrightarrow> j \<le> unat (s + of_nat j - d)"
  shows "copy_up d s n m = (\<lambda>x. if unat (x - d) < n then m (s + (x - d)) else m x)"
  using assms
proof (induction n)
  case 0
  then show ?case by (simp add: copy_up_def)
next
  case (Suc k)
  have IH: "copy_up d s k m = (\<lambda>x. if unat (x - d) < k then m (s + (x - d)) else m x)"
    using Suc by simp
  have rd: "copy_up d s k m (s + of_nat k) = m (s + of_nat k)"
    unfolding IH using Suc.prems(2) [of k] by simp
  show ?case
  proof
    fix x
    show "copy_up d s (Suc k) m x = (if unat (x - d) < Suc k then m (s + (x - d)) else m x)"
      using offset_below [of k x d] Suc.prems(1) by (simp add: copy_up_Suc rd) (simp add: IH)
  qed
qed

lemma copy_down_exact:
  assumes "n \<le> 4294967296" and "\<And>i j. i < j \<Longrightarrow> j < n \<Longrightarrow> s + of_nat i \<noteq> d + of_nat j"
  shows "copy_down d s n m = (\<lambda>x. if unat (x - d) < n then m (s + (x - d)) else m x)"
  using assms
proof (induction n arbitrary: m)
  case 0
  then show ?case by (simp add: copy_down_def)
next
  case (Suc k)
  show ?case
  proof
    fix x
    have IH: "copy_down d s (Suc k) m x =
      (if unat (x - d) < k then (m(d + of_nat k := m (s + of_nat k))) (s + (x - d))
       else (m(d + of_nat k := m (s + of_nat k))) x)"
      unfolding copy_down_Suc using Suc by simp
    have "s + (x - d) \<noteq> d + of_nat k" if "unat (x - d) < k"
      using Suc.prems(2) [OF that] by simp
    then show "copy_down d s (Suc k) m x = (if unat (x - d) < Suc k then m (s + (x - d)) else m x)"
      using offset_below [of k x d] Suc.prems(1) by (auto simp: IH)
  qed
qed

lemma fill_exact:
  "n \<le> 4294967296 \<Longrightarrow> fill d v n m = (\<lambda>x. if unat (x - d) < n then v else m x)"
proof (induction n)
  case 0
  then show ?case by (simp add: fill_def)
next
  case (Suc k)
  then have IH: "fill d v k m = (\<lambda>x. if unat (x - d) < k then v else m x)" by simp
  have "fill d v (Suc k) m = (fill d v k m)(d + of_nat k := v)" by (simp add: fill_def)
  then show ?case unfolding IH using offset_below [of k _ d] Suc.prems by (auto simp: fun_eq_iff)
qed

lemma memset_eq: "memset d v n m = (d, \<lambda>x. if unat (x - d) < unat n then ucast v else m x)"
  unfolding memset_def by (subst fill_exact) (rule less_imp_le, rule unat_lt32, rule refl)

lemma copy_up_ok:
  fixes s d :: u32
  assumes "d < s \<or> unat s + n \<le> unat d" "unat s + n < 4294967296" "j < n"
  shows "j \<le> unat (s + of_nat j - d)"
proof -
  have j: "unat (s + of_nat j) = unat s + j" using assms(2,3) by (simp add: unat_add_small unat_of_nat_small)
  show ?thesis
  proof (cases "d < s")
    case True
    then show ?thesis using j by (simp add: unat_sub_le word_lt_unat)
  next
    case False
    then have "unat (s + of_nat j - d) = 4294967296 + (unat s + j) - unat d"
      using assms j unat_lt32 [of d] by (simp add: unat_sub_if')
    then show ?thesis using unat_lt32 [of d] by linarith
  qed
qed

lemma memmove_eq:
  assumes "unat s + unat n < 4294967296" and "unat d + unat n \<le> 4294967296"
  shows "memmove d s n m = (d, \<lambda>x. if unat (x - d) < unat n then m (s + (x - d)) else m x)"
proof -
  have n: "unat n \<le> 4294967296" by (rule less_imp_le) (rule unat_lt32)
  have sn: "unat (s + n) = unat s + unat n" using assms(1) by (simp add: unat_add_small)
  consider "d = s \<or> n = 0" | "\<not> (d = s \<or> n = 0)" "d < s \<or> s + n \<le> d" | "\<not> (d = s \<or> n = 0)" "\<not> (d < s \<or> s + n \<le> d)"
    by blast
  then show ?thesis
  proof cases
    case 1
    then show ?thesis by (auto simp: memmove_def)
  next
    case 2
    then have "d < s \<or> unat s + unat n \<le> unat d" by (simp add: word_le_unat sn)
    then have "copy_up d s (unat n) m = (\<lambda>x. if unat (x - d) < unat n then m (s + (x - d)) else m x)"
      using copy_up_ok assms by (intro copy_up_exact [OF n]) blast
    then show ?thesis using 2 by (simp add: memmove_def)
  next
    case 3
    then have "unat s < unat d" by (metis linorder_neqE_nat word_eq_unat word_lt_unat)
    have "s + of_nat i \<noteq> d + of_nat j" if "i < j" "j < unat n" for i j
    proof
      assume "s + of_nat i = d + of_nat j"
      then have "unat (s + of_nat i :: u32) = unat (d + of_nat j)" by simp
      moreover have "unat (s + of_nat i :: u32) = unat s + i" "unat (d + of_nat j :: u32) = unat d + j"
        using assms that by (simp_all add: unat_add_small unat_of_nat_small)
      ultimately show False using that \<open>unat s < unat d\<close> by linarith
    qed
    then have "copy_down d s (unat n) m = (\<lambda>x. if unat (x - d) < unat n then m (s + (x - d)) else m x)"
      by (intro copy_down_exact [OF n])
    then show ?thesis using 3 by (simp add: memmove_def)
  qed
qed

lemma memcpy_eq:
  assumes "unat s + unat n < 4294967296" "d < s \<or> unat s + unat n \<le> unat d"
  shows "memcpy d s n m = (d, \<lambda>x. if unat (x - d) < unat n then m (s + (x - d)) else m x)"
proof -
  have n: "unat n \<le> 4294967296" by (rule less_imp_le) (rule unat_lt32)
  show ?thesis unfolding memcpy_def using copy_up_ok assms by (subst copy_up_exact [OF n]) blast+
qed

text \<open>
  C12. memmove is a simultaneous copy for every overlap of source and destination: each
  destination byte gets the source byte of the memory before the call, every other byte is kept,
  and the result is the destination pointer, for blocks that do not reach the end of the address space.
\<close>

theorem memmove_simultaneous:
  assumes "unat s + unat n < 2 ^ 32" and "unat d + unat n \<le> 2 ^ 32"
  shows "fst (memmove d s n m) = d \<and>
    (\<forall>i<unat n. snd (memmove d s n m) (d + of_nat i) = m (s + of_nat i)) \<and>
    (\<forall>x. (\<forall>i<unat n. x \<noteq> d + of_nat i) \<longrightarrow> snd (memmove d s n m) x = m x)"
proof -
  have e: "memmove d s n m = (d, \<lambda>x. if unat (x - d) < unat n then m (s + (x - d)) else m x)"
    using assms by (intro memmove_eq) simp_all
  have i: "unat (of_nat i :: u32) = i" if "i < unat n" for i
  proof -
    have "i < 4294967296" using that unat_lt32 [of n] by (rule less_trans)
    then show ?thesis by (simp add: unat_of_nat_small)
  qed
  have "x = d + of_nat (unat (x - d))" for x :: u32 by simp
  then show ?thesis using e i by (auto; metis)
qed

lemma memmove_simultaneous_witness:
  "snd (memmove 102 100 4 (\<lambda>a. ucast a)) (102 + of_nat 3) = ucast (100 + of_nat 3 :: u32)"
  using memmove_simultaneous [of 100 4 102 "\<lambda>a. ucast a", THEN conjunct2, THEN conjunct1, rule_format, of 3]
  by simp

end
