(* ===== verification/Heap.thy ===== *)
theory Heap
  imports Krlibc
begin

text \<open>
  The kernel heap, \<open>arch/arm32/src/heap.c\<close>: a first-fit allocator whose block headers form a
  doubly linked list in the managed memory itself, in address order.  The heap object holds the
  C fields, the memory (\<open>h_mem\<close>) and the growth callback with the state its context pointer
  refers to.  \<open>size_t\<close> is 32 bits wide and a header takes 24 bytes, as on the target.
\<close>

section \<open>Data\<close>

datatype heap_err_t =
    HEAP_OK | HEAP_ERR_NOT_INIT | HEAP_ERR_BAD_ARGS | HEAP_ERR_OOM | HEAP_ERR_BAD_POINTER
  | HEAP_ERR_DOUBLE_FREE | HEAP_ERR_BAD_MAGIC | HEAP_ERR_CORRUPT

abbreviation (input) HEAP_ALIGN :: u32 where "HEAP_ALIGN \<equiv> 8"
abbreviation (input) HEAP_HEADER_SIZE :: u32 where "HEAP_HEADER_SIZE \<equiv> 24"
abbreviation (input) HEAP_MIN_BLOCK :: u32 where "HEAP_MIN_BLOCK \<equiv> 32"
abbreviation (input) HEAP_MAGIC :: u32 where "HEAP_MAGIC \<equiv> 0x4B524C48"
abbreviation (input) HEAP_STATE_FREE :: u32 where "HEAP_STATE_FREE \<equiv> 0xF4EEF4EE"
abbreviation (input) HEAP_STATE_USED :: u32 where "HEAP_STATE_USED \<equiv> 0x055ED055"

record 'g heap_t =
  h_base :: u32
  h_size :: u32
  h_head :: u32
  h_grow :: "('g \<Rightarrow> u32 \<Rightarrow> u32 \<times> 'g) option"
  h_ctx :: 'g
  h_total :: u32
  h_used :: u32
  h_free :: u32
  h_largest :: u32
  h_allocs :: u32
  h_frees :: u32
  h_fails :: u32
  h_grows :: u32
  h_inited :: bool
  h_mem :: bytes

definition ALIGN_UP_8 :: "u32 \<Rightarrow> u32" where "ALIGN_UP_8 x = (x + 7) AND NOT 7"
definition ALIGN_DOWN_8 :: "u32 \<Rightarrow> u32" where "ALIGN_DOWN_8 x = x AND NOT 7"

text \<open>The fields of the header at address \<open>b\<close>.\<close>

definition b_magic :: "bytes \<Rightarrow> u32 \<Rightarrow> u32" where "b_magic m b = ld32 m b"
definition block_state :: "bytes \<Rightarrow> u32 \<Rightarrow> u32" where "block_state m b = ld32 m (b + 4)"
definition b_size :: "bytes \<Rightarrow> u32 \<Rightarrow> u32" where "b_size m b = ld32 m (b + 8)"
definition b_next :: "bytes \<Rightarrow> u32 \<Rightarrow> u32" where "b_next m b = ld32 m (b + 12)"
definition b_prev :: "bytes \<Rightarrow> u32 \<Rightarrow> u32" where "b_prev m b = ld32 m (b + 16)"

definition set_state :: "bytes \<Rightarrow> u32 \<Rightarrow> u32 \<Rightarrow> bytes" where "set_state m b v = st32 m (b + 4) v"
definition set_size :: "bytes \<Rightarrow> u32 \<Rightarrow> u32 \<Rightarrow> bytes" where "set_size m b v = st32 m (b + 8) v"
definition set_next :: "bytes \<Rightarrow> u32 \<Rightarrow> u32 \<Rightarrow> bytes" where "set_next m b v = st32 m (b + 12) v"
definition set_prev :: "bytes \<Rightarrow> u32 \<Rightarrow> u32 \<Rightarrow> bytes" where "set_prev m b v = st32 m (b + 16) v"

definition payload_of :: "u32 \<Rightarrow> u32" where "payload_of b = b + HEAP_HEADER_SIZE"
definition block_of :: "u32 \<Rightarrow> u32" where "block_of payload = payload - HEAP_HEADER_SIZE"

definition init_header :: "u32 \<Rightarrow> u32 \<Rightarrow> u32 \<Rightarrow> bytes \<Rightarrow> bytes" where
  "init_header b st sz m =
     (let m = st32 m b HEAP_MAGIC;
          m = set_state m b st;
          m = set_size m b sz;
          m = set_next m b 0;
          m = set_prev m b 0
      in st32 m (b + 20) 0)"

section \<open>Operations\<close>

partial_function (option) largest_walk :: "bytes \<Rightarrow> u32 \<Rightarrow> u32 \<Rightarrow> u32 option" where
  "largest_walk m b largest =
     (if b = 0 then Some largest
      else largest_walk m (b_next m b)
        (if block_state m b = HEAP_STATE_FREE \<and> largest < b_size m b then b_size m b else largest))"

definition heap_largest_free :: "'g heap_t \<Rightarrow> u32 option" where
  "heap_largest_free h = (if \<not> h_inited h then Some 0 else largest_walk (h_mem h) (h_head h) 0)"

definition heap_init :: "u32 \<Rightarrow> u32 \<Rightarrow> 'g heap_t \<Rightarrow> heap_err_t \<times> 'g heap_t" where
  "heap_init base sz h =
     (if base AND (HEAP_ALIGN - 1) \<noteq> 0 then (HEAP_ERR_BAD_ARGS, h)
      else
        let sz = ALIGN_DOWN_8 sz
        in if sz < HEAP_MIN_BLOCK then (HEAP_ERR_BAD_ARGS, h)
           else (HEAP_OK,
             h\<lparr>h_base := base, h_size := sz,
               h_mem := init_header base HEAP_STATE_FREE (sz - HEAP_HEADER_SIZE) (h_mem h),
               h_head := base, h_grow := None, h_total := sz, h_used := 0,
               h_free := sz - HEAP_HEADER_SIZE, h_largest := sz - HEAP_HEADER_SIZE,
               h_allocs := 0, h_frees := 0, h_fails := 0, h_grows := 0, h_inited := True\<rparr>))"

definition heap_set_grow :: "('g \<Rightarrow> u32 \<Rightarrow> u32 \<times> 'g) option \<Rightarrow> 'g \<Rightarrow> 'g heap_t \<Rightarrow> 'g heap_t" where
  "heap_set_grow f ctx h = h\<lparr>h_grow := f, h_ctx := ctx\<rparr>"

partial_function (option) tail_walk :: "bytes \<Rightarrow> u32 \<Rightarrow> u32 option" where
  "tail_walk m tail = (if b_next m tail \<noteq> 0 then tail_walk m (b_next m tail) else Some tail)"

definition heap_extend :: "'g heap_t \<Rightarrow> u32 \<Rightarrow> u32 \<Rightarrow> (heap_err_t \<times> 'g heap_t) option" where
  "heap_extend h base sz =
     (let sz = ALIGN_DOWN_8 sz
      in if sz < HEAP_MIN_BLOCK then Some (HEAP_ERR_BAD_ARGS, h)
         else if base \<noteq> h_base h + h_size h then Some (HEAP_ERR_BAD_ARGS, h)
         else do {
           tail \<leftarrow> tail_walk (h_mem h) (h_head h);
           let m = init_header base HEAP_STATE_FREE (sz - HEAP_HEADER_SIZE) (h_mem h);
           let m = set_prev m base tail;
           let m = set_next m tail base;
           let h = h\<lparr>h_mem := m, h_size := h_size h + sz, h_total := h_total h + sz,
                     h_free := h_free h + (sz - HEAP_HEADER_SIZE), h_grows := h_grows h + 1\<rparr>;
           let h = (if block_state m tail = HEAP_STATE_FREE
                    then h\<lparr>h_mem := set_next (set_size m tail (b_size m tail + (HEAP_HEADER_SIZE + b_size m base))) tail 0,
                           h_free := h_free h + HEAP_HEADER_SIZE\<rparr>
                    else h);
           largest \<leftarrow> heap_largest_free h;
           Some (HEAP_OK, h\<lparr>h_largest := largest\<rparr>)
         })"

definition heap_try_grow :: "'g heap_t \<Rightarrow> u32 \<Rightarrow> (bool \<times> 'g heap_t) option" where
  "heap_try_grow h need =
     (case h_grow h of
        None \<Rightarrow> Some (False, h)
      | Some grow \<Rightarrow>
          let (got, ctx) = grow (h_ctx h) (need + HEAP_HEADER_SIZE);
              h = h\<lparr>h_ctx := ctx\<rparr>
          in if got = 0 then Some (False, h)
             else do {
               (e, h) \<leftarrow> heap_extend h got (need + HEAP_HEADER_SIZE);
               Some (e = HEAP_OK, h)
             })"

text \<open>The scan of the block list for the first free block that is big enough; 0 is NULL.\<close>

partial_function (option) fit_walk :: "bytes \<Rightarrow> u32 \<Rightarrow> u32 \<Rightarrow> u32 option" where
  "fit_walk m b sz =
     (if b = 0 then Some 0
      else if block_state m b \<noteq> HEAP_STATE_FREE \<or> b_size m b < sz then fit_walk m (b_next m b) sz
      else Some b)"

definition heap_split :: "'g heap_t \<Rightarrow> u32 \<Rightarrow> u32 \<Rightarrow> 'g heap_t" where
  "heap_split h b sz =
     (let m = h_mem h;
          leftover = b_size m b - sz;
          rest = b + HEAP_HEADER_SIZE + sz;
          m = init_header rest HEAP_STATE_FREE (leftover - HEAP_HEADER_SIZE) m;
          m = set_next m rest (b_next m b);
          m = set_prev m rest b;
          m = (if b_next m b \<noteq> 0 then set_prev m (b_next m b) rest else m);
          m = set_next m b rest;
          m = set_size m b sz
      in h\<lparr>h_mem := m, h_free := h_free h - HEAP_HEADER_SIZE\<rparr>)"

definition heap_take :: "'g heap_t \<Rightarrow> u32 \<Rightarrow> u32 \<Rightarrow> (u32 \<times> 'g heap_t) option" where
  "heap_take h b sz =
     (let leftover = b_size (h_mem h) b - sz;
          h = (if HEAP_MIN_BLOCK \<le> leftover then heap_split h b sz else h);
          h = h\<lparr>h_mem := set_state (h_mem h) b HEAP_STATE_USED\<rparr>;
          h = h\<lparr>h_used := h_used h + b_size (h_mem h) b,
                h_free := h_free h - b_size (h_mem h) b,
                h_allocs := h_allocs h + 1\<rparr>
      in do {
        largest \<leftarrow> heap_largest_free h;
        Some (payload_of b, h\<lparr>h_largest := largest\<rparr>)
      })"

partial_function (option) alloc_loop :: "'g heap_t \<Rightarrow> u32 \<Rightarrow> (u32 \<times> 'g heap_t) option" where
  "alloc_loop h sz = do {
     b \<leftarrow> fit_walk (h_mem h) (h_head h) sz;
     if b \<noteq> 0 then heap_take h b sz
     else do {
       (grown, h) \<leftarrow> heap_try_grow h sz;
       if \<not> grown then Some (0, h\<lparr>h_fails := h_fails h + 1\<rparr>) else alloc_loop h sz
     }
   }"

definition heap_alloc :: "'g heap_t \<Rightarrow> u32 \<Rightarrow> (u32 \<times> 'g heap_t) option" where
  "heap_alloc h sz =
     (if \<not> h_inited h then Some (0, h)
      else
        let sz = ALIGN_UP_8 sz;
            sz = (if sz = 0 then HEAP_ALIGN else sz)
        in alloc_loop h sz)"

definition heap_calloc :: "'g heap_t \<Rightarrow> u32 \<Rightarrow> u32 \<Rightarrow> (u32 \<times> 'g heap_t) option" where
  "heap_calloc h count sz =
     (let total = (if count = 0 \<or> sz = 0 then HEAP_ALIGN else count * sz)
      in if count \<noteq> 0 \<and> sz \<noteq> 0 \<and> total div sz \<noteq> count then Some (0, h)
         else do {
           (p, h) \<leftarrow> heap_alloc h total;
           Some (p, if p \<noteq> 0 then h\<lparr>h_mem := snd (memset p 0 total (h_mem h))\<rparr> else h)
         })"

text \<open>Joining a free block with the block after it; \<open>heap_free\<close> does it on either side, first
  with the next block, then with the previous one.\<close>

definition absorb :: "bytes \<Rightarrow> u32 \<Rightarrow> u32 \<Rightarrow> bytes" where
  "absorb m keep victim =
     (let m = set_size m keep (b_size m keep + (HEAP_HEADER_SIZE + b_size m victim));
          m = set_next m keep (b_next m victim)
      in if b_next m victim \<noteq> 0 then set_prev m (b_next m victim) keep else m)"

definition free_merge_next :: "'g heap_t \<Rightarrow> u32 \<Rightarrow> 'g heap_t" where
  "free_merge_next h b =
     (let m = h_mem h
      in if b_next m b \<noteq> 0 \<and> block_state m (b_next m b) = HEAP_STATE_FREE
         then h\<lparr>h_mem := absorb m b (b_next m b), h_free := h_free h + HEAP_HEADER_SIZE\<rparr>
         else h)"

definition free_merge_prev :: "'g heap_t \<Rightarrow> u32 \<Rightarrow> 'g heap_t" where
  "free_merge_prev h b =
     (let m = h_mem h
      in if b_prev m b \<noteq> 0 \<and> block_state m (b_prev m b) = HEAP_STATE_FREE
         then h\<lparr>h_mem := absorb m (b_prev m b) b, h_free := h_free h + HEAP_HEADER_SIZE\<rparr>
         else h)"

definition heap_free :: "'g heap_t \<Rightarrow> u32 \<Rightarrow> (heap_err_t \<times> 'g heap_t) option" where
  "heap_free h ptr =
     (if \<not> h_inited h then Some (HEAP_ERR_NOT_INIT, h)
      else if ptr = 0 then Some (HEAP_ERR_BAD_POINTER, h)
      else if ptr < h_base h + HEAP_HEADER_SIZE \<or> h_base h + h_size h \<le> ptr then Some (HEAP_ERR_BAD_POINTER, h)
      else
        let b = block_of ptr; m = h_mem h
        in if b_magic m b \<noteq> HEAP_MAGIC then Some (HEAP_ERR_BAD_MAGIC, h)
           else if block_state m b = HEAP_STATE_FREE then Some (HEAP_ERR_DOUBLE_FREE, h)
           else if block_state m b \<noteq> HEAP_STATE_USED then Some (HEAP_ERR_BAD_MAGIC, h)
           else
             let m = set_state m b HEAP_STATE_FREE;
                 h = h\<lparr>h_mem := m, h_used := h_used h - b_size m b, h_free := h_free h + b_size m b,
                       h_frees := h_frees h + 1\<rparr>;
                 h = free_merge_next h b;
                 h = free_merge_prev h b
             in do {
               largest \<leftarrow> heap_largest_free h;
               Some (HEAP_OK, h\<lparr>h_largest := largest\<rparr>)
             })"

definition heap_realloc :: "'g heap_t \<Rightarrow> u32 \<Rightarrow> u32 \<Rightarrow> (u32 \<times> 'g heap_t) option" where
  "heap_realloc h ptr sz =
     (if \<not> h_inited h then Some (0, h)
      else if ptr = 0 then heap_alloc h sz
      else
        let b = block_of ptr
        in if b_magic (h_mem h) b \<noteq> HEAP_MAGIC \<or> block_state (h_mem h) b \<noteq> HEAP_STATE_USED then Some (0, h)
           else
             let sz = ALIGN_UP_8 sz
             in if sz \<le> b_size (h_mem h) b then Some (ptr, h)
                else do {
                  (fresh, h) \<leftarrow> heap_alloc h sz;
                  if fresh = 0 then Some (0, h)
                  else
                    let copy = b_size (h_mem h) b;
                        copy = (if sz < copy then sz else copy);
                        h = h\<lparr>h_mem := snd (memcpy fresh ptr copy (h_mem h))\<rparr>
                    in do {
                      (e, h) \<leftarrow> heap_free h ptr;
                      Some (fresh, h)
                    }
                })"

partial_function (option) check_walk ::
  "bytes \<Rightarrow> u32 \<Rightarrow> u32 \<Rightarrow> u32 \<Rightarrow> u32 \<Rightarrow> u32 \<Rightarrow> u32 \<Rightarrow> (heap_err_t + u32 \<times> u32 \<times> u32 \<times> u32) option" where
  "check_walk m b prev free_sum used_sum largest expect =
     (if b = 0 then Some (Inr (free_sum, used_sum, largest, expect))
      else if b_magic m b \<noteq> HEAP_MAGIC then Some (Inl HEAP_ERR_BAD_MAGIC)
      else if b \<noteq> expect then Some (Inl HEAP_ERR_CORRUPT)
      else if b_prev m b \<noteq> prev then Some (Inl HEAP_ERR_CORRUPT)
      else if b_size m b = 0 \<or> b_size m b AND (HEAP_ALIGN - 1) \<noteq> 0 then Some (Inl HEAP_ERR_CORRUPT)
      else if block_state m b = HEAP_STATE_FREE then
        (if prev \<noteq> 0 \<and> block_state m prev = HEAP_STATE_FREE then Some (Inl HEAP_ERR_CORRUPT)
         else check_walk m (b_next m b) b (free_sum + b_size m b) used_sum
           (if largest < b_size m b then b_size m b else largest) (b + HEAP_HEADER_SIZE + b_size m b))
      else if block_state m b = HEAP_STATE_USED then
        check_walk m (b_next m b) b free_sum (used_sum + b_size m b) largest
          (b + HEAP_HEADER_SIZE + b_size m b)
      else Some (Inl HEAP_ERR_CORRUPT))"

definition heap_check :: "'g heap_t \<Rightarrow> heap_err_t option" where
  "heap_check h =
     (if \<not> h_inited h then Some HEAP_ERR_NOT_INIT
      else do {
        r \<leftarrow> check_walk (h_mem h) (h_head h) 0 0 0 0 (h_base h);
        (case r of
           Inl e \<Rightarrow> Some e
         | Inr (free_sum, used_sum, largest, expect) \<Rightarrow>
             Some (if expect \<noteq> h_base h + h_size h then HEAP_ERR_CORRUPT
                   else if free_sum \<noteq> h_free h \<or> used_sum \<noteq> h_used h then HEAP_ERR_CORRUPT
                   else if largest \<noteq> h_largest h then HEAP_ERR_CORRUPT
                   else HEAP_OK))
      })"

end
