(* ===== verification/HeapLayout.thy ===== *)
theory HeapLayout
  imports Heap
begin

text \<open>
  The block list of the heap as the memory holds it: headers from the arena's base on, linked
  both ways.  The lemmas follow the walks of heap.c over such a memory and the three ways the code
  rewrites it: marking a block, cutting one in two, joining two.  Every rewriting also stays
  within the headers.
\<close>

section \<open>The block list behind the headers\<close>

text \<open>
  The abstract heap is the list of blocks in address order, each its payload size and whether it
  is used.  Addresses follow from the sizes; \<open>lay m pv a bs e\<close> says that the memory holds the
  headers of \<open>bs\<close> from address \<open>a\<close> on, linked in both directions, with the block before at
  \<open>pv\<close> and the block after the last one at \<open>e\<close> (0 for none).
\<close>

type_synonym block = "nat \<times> bool"

fun span :: "block list \<Rightarrow> nat" where
  "span [] = 0"
| "span ((s, u) # bs) = 24 + s + span bs"

fun addrs :: "nat \<Rightarrow> block list \<Rightarrow> nat list" where
  "addrs a [] = []"
| "addrs a ((s, u) # bs) = a # addrs (a + 24 + s) bs"

fun last_addr :: "nat \<Rightarrow> nat \<Rightarrow> block list \<Rightarrow> nat" where
  "last_addr pv a [] = pv"
| "last_addr pv a ((s, u) # bs) = last_addr a (a + 24 + s) bs"

definition hdr :: "bytes \<Rightarrow> nat \<Rightarrow> block \<Rightarrow> nat \<Rightarrow> nat \<Rightarrow> bool" where
  "hdr m a blk nx pv \<longleftrightarrow>
     b_magic m (of_nat a) = HEAP_MAGIC \<and>
     block_state m (of_nat a) = (if snd blk then HEAP_STATE_USED else HEAP_STATE_FREE) \<and>
     b_size m (of_nat a) = of_nat (fst blk) \<and> b_next m (of_nat a) = of_nat nx \<and>
     b_prev m (of_nat a) = of_nat pv"

fun lay :: "bytes \<Rightarrow> nat \<Rightarrow> nat \<Rightarrow> block list \<Rightarrow> nat \<Rightarrow> bool" where
  "lay m pv a [] e = True"
| "lay m pv a (b # bs) e =
     (hdr m a b (if bs = [] then e else a + 24 + fst b) pv \<and> lay m a (a + 24 + fst b) bs e)"

definition sized :: "block list \<Rightarrow> bool" where
  "sized bs \<longleftrightarrow> (\<forall>b\<in>set bs. 0 < fst b \<and> 8 dvd fst b)"

lemma span_append [simp]: "span (xs @ ys) = span xs + span ys"
  by (induction xs rule: span.induct) auto

lemma addrs_append: "addrs a (xs @ ys) = addrs a xs @ addrs (a + span xs) ys"
  by (induction a xs rule: addrs.induct) (auto simp: ac_simps)

lemma last_addr_append: "last_addr pv a (xs @ ys) = last_addr (last_addr pv a xs) (a + span xs) ys"
  by (induction pv a xs rule: last_addr.induct) (auto simp: ac_simps)

lemma lay_append:
  "lay m pv a (xs @ ys) e \<longleftrightarrow>
     lay m pv a xs (if ys = [] then e else a + span xs) \<and> lay m (last_addr pv a xs) (a + span xs) ys e"
proof (induction xs arbitrary: pv a)
  case (Cons x xs)
  obtain s u where x: "x = (s, u)" by fastforce
  show ?case by (auto simp: x Cons.IH ac_simps simp del: lay.simps(1))
qed simp

lemma addrs_bounds: "x \<in> set (addrs a bs) \<Longrightarrow> a \<le> x \<and> x + 24 \<le> a + span bs"
  by (induction a bs rule: addrs.induct) auto

lemma addrs_dvd: "x \<in> set (addrs a bs) \<Longrightarrow> 8 dvd a \<Longrightarrow> sized bs \<Longrightarrow> 8 dvd x"
  by (induction a bs rule: addrs.induct) (auto simp: sized_def)

lemma span_dvd: "sized bs \<Longrightarrow> 8 dvd span bs"
  by (induction bs rule: span.induct) (auto simp: sized_def)

lemma sized_simps [simp]:
  "sized []" "sized ((s, u) # bs) \<longleftrightarrow> 0 < s \<and> 8 dvd s \<and> sized bs"
  "sized (xs @ ys) \<longleftrightarrow> sized xs \<and> sized ys"
  by (auto simp: sized_def)

lemma span_pos [simp]: "span bs = 0 \<longleftrightarrow> bs = []"
  by (cases bs rule: span.cases) auto

lemma last_addr_in: "bs \<noteq> [] \<Longrightarrow> last_addr pv a bs \<in> set (addrs a bs)"
proof (induction pv a bs rule: last_addr.induct)
  case (2 pv a s u bs)
  then show ?case by (cases bs) auto
qed simp

lemma last_addr_snoc [simp]: "last_addr pv a (xs @ [b]) = a + span xs"
  by (cases b) (simp add: last_addr_append)

section \<open>Header stores\<close>

text \<open>Two header addresses that are the same or whose headers do not overlap.\<close>

definition apart :: "nat \<Rightarrow> nat \<Rightarrow> bool" where
  "apart a b \<longleftrightarrow> 8 dvd a \<and> 8 dvd b \<and> a + 24 < 4294967296 \<and> b + 24 < 4294967296 \<and>
     (a = b \<or> a + 24 \<le> b \<or> b + 24 \<le> a)"

lemmas field_defs = b_magic_def block_state_def b_size_def b_next_def b_prev_def
  set_state_def set_size_def set_next_def set_prev_def

lemma store_field:
  assumes "apart a b" "4 dvd j" "4 dvd k" "j < 24" "k < 24"
  shows "ld32 (st32 m (of_nat a + of_nat j) v) (of_nat b + of_nat k) =
    (if a = b \<and> j = k then v else ld32 m (of_nat b + of_nat k))"
proof -
  have d: "4 dvd a" "4 dvd b" using assms(1) by (auto simp: apart_def elim!: dvd_trans [rotated])
  have "ld32 (st32 m (of_nat (a + j)) v) (of_nat (b + k)) =
      (if a + j = b + k then v else ld32 m (of_nat (b + k)))"
    using assms d by (intro wm.ld_st_nat) (auto simp: apart_def)
  moreover have "a + j = b + k \<longleftrightarrow> a = b \<and> j = k" using assms by (auto simp: apart_def)
  ultimately show ?thesis by (metis of_nat_add)
qed

lemma store_field_0:
  assumes "apart a b" "4 dvd k" "k < 24"
  shows "ld32 (st32 m (of_nat a) v) (of_nat b + of_nat k) =
    (if a = b \<and> k = 0 then v else ld32 m (of_nat b + of_nat k))"
  using store_field [OF assms(1), of 0 k] assms by simp

lemmas store_fields =
  store_field [where j = 4 and k = 0, simplified] store_field [where j = 4 and k = 4, simplified]
  store_field [where j = 4 and k = 8, simplified] store_field [where j = 4 and k = 12, simplified]
  store_field [where j = 4 and k = 16, simplified]
  store_field [where j = 8 and k = 0, simplified] store_field [where j = 8 and k = 4, simplified]
  store_field [where j = 8 and k = 8, simplified] store_field [where j = 8 and k = 12, simplified]
  store_field [where j = 8 and k = 16, simplified]
  store_field [where j = 12 and k = 0, simplified] store_field [where j = 12 and k = 4, simplified]
  store_field [where j = 12 and k = 8, simplified] store_field [where j = 12 and k = 12, simplified]
  store_field [where j = 12 and k = 16, simplified]
  store_field [where j = 16 and k = 0, simplified] store_field [where j = 16 and k = 4, simplified]
  store_field [where j = 16 and k = 8, simplified] store_field [where j = 16 and k = 12, simplified]
  store_field [where j = 16 and k = 16, simplified]
  store_field [where j = 20 and k = 0, simplified] store_field [where j = 20 and k = 4, simplified]
  store_field [where j = 20 and k = 8, simplified] store_field [where j = 20 and k = 12, simplified]
  store_field [where j = 20 and k = 16, simplified]
  store_field_0 [where k = 0, simplified] store_field_0 [where k = 4, simplified]
  store_field_0 [where k = 8, simplified] store_field_0 [where k = 12, simplified]
  store_field_0 [where k = 16, simplified]

lemma set_fields:
  assumes "apart a b"
  shows "b_magic (set_state m (of_nat a) v) (of_nat b) = b_magic m (of_nat b)"
    "block_state (set_state m (of_nat a) v) (of_nat b) = (if a = b then v else block_state m (of_nat b))"
    "b_size (set_state m (of_nat a) v) (of_nat b) = b_size m (of_nat b)"
    "b_next (set_state m (of_nat a) v) (of_nat b) = b_next m (of_nat b)"
    "b_prev (set_state m (of_nat a) v) (of_nat b) = b_prev m (of_nat b)"
    "b_magic (set_size m (of_nat a) v) (of_nat b) = b_magic m (of_nat b)"
    "block_state (set_size m (of_nat a) v) (of_nat b) = block_state m (of_nat b)"
    "b_size (set_size m (of_nat a) v) (of_nat b) = (if a = b then v else b_size m (of_nat b))"
    "b_next (set_size m (of_nat a) v) (of_nat b) = b_next m (of_nat b)"
    "b_prev (set_size m (of_nat a) v) (of_nat b) = b_prev m (of_nat b)"
    "b_magic (set_next m (of_nat a) v) (of_nat b) = b_magic m (of_nat b)"
    "block_state (set_next m (of_nat a) v) (of_nat b) = block_state m (of_nat b)"
    "b_size (set_next m (of_nat a) v) (of_nat b) = b_size m (of_nat b)"
    "b_next (set_next m (of_nat a) v) (of_nat b) = (if a = b then v else b_next m (of_nat b))"
    "b_prev (set_next m (of_nat a) v) (of_nat b) = b_prev m (of_nat b)"
    "b_magic (set_prev m (of_nat a) v) (of_nat b) = b_magic m (of_nat b)"
    "block_state (set_prev m (of_nat a) v) (of_nat b) = block_state m (of_nat b)"
    "b_size (set_prev m (of_nat a) v) (of_nat b) = b_size m (of_nat b)"
    "b_next (set_prev m (of_nat a) v) (of_nat b) = b_next m (of_nat b)"
    "b_prev (set_prev m (of_nat a) v) (of_nat b) = (if a = b then v else b_prev m (of_nat b))"
  by (simp_all add: field_defs store_fields [OF assms])

lemma init_header_fields:
  assumes "apart a b"
  shows "b_magic (init_header (of_nat a) st sz m) (of_nat b) = (if a = b then HEAP_MAGIC else b_magic m (of_nat b))"
    "block_state (init_header (of_nat a) st sz m) (of_nat b) = (if a = b then st else block_state m (of_nat b))"
    "b_size (init_header (of_nat a) st sz m) (of_nat b) = (if a = b then sz else b_size m (of_nat b))"
    "b_next (init_header (of_nat a) st sz m) (of_nat b) = (if a = b then 0 else b_next m (of_nat b))"
    "b_prev (init_header (of_nat a) st sz m) (of_nat b) = (if a = b then 0 else b_prev m (of_nat b))"
  by (simp_all add: init_header_def field_defs store_fields [OF assms] Let_def)

text \<open>All fields of the header at \<open>x\<close> are the same in both memories.\<close>

definition hsame :: "bytes \<Rightarrow> bytes \<Rightarrow> nat \<Rightarrow> bool" where
  "hsame m m' x \<longleftrightarrow>
     b_magic m' (of_nat x) = b_magic m (of_nat x) \<and> block_state m' (of_nat x) = block_state m (of_nat x) \<and>
     b_size m' (of_nat x) = b_size m (of_nat x) \<and> b_next m' (of_nat x) = b_next m (of_nat x) \<and>
     b_prev m' (of_nat x) = b_prev m (of_nat x)"

lemma hsame_sets:
  assumes "apart a x" "a \<noteq> x"
  shows "hsame m (set_state m' (of_nat a) v) x = hsame m m' x"
    "hsame m (set_size m' (of_nat a) v) x = hsame m m' x"
    "hsame m (set_next m' (of_nat a) v) x = hsame m m' x"
    "hsame m (set_prev m' (of_nat a) v) x = hsame m m' x"
    "hsame m (init_header (of_nat a) st sz m') x = hsame m m' x"
  using assms by (simp_all add: hsame_def set_fields init_header_fields)

lemma hsame_refl [simp]: "hsame m m x"
  by (simp add: hsame_def)

lemma lay_hsame: "(\<And>x. x \<in> set (addrs a bs) \<Longrightarrow> hsame m m' x) \<Longrightarrow> lay m' pv a bs e = lay m pv a bs e"
proof (induction bs arbitrary: pv a)
  case (Cons b bs)
  obtain s u where b: "b = (s, u)" by fastforce
  have "hsame m m' a" using Cons.prems by (simp add: b)
  then show ?case using Cons by (simp add: b hdr_def hsame_def)
qed simp

text \<open>
  Replacing the middle of the list: the headers before it stay, of the headers after it only
  the first one's back link changes.
\<close>

lemma lay_replace:
  assumes "lay m pv a (pre @ mid @ post) e" and "mid \<noteq> []" "mid' \<noteq> []" and "span mid' = span mid"
    and "lay m' (last_addr pv a pre) (a + span pre) mid' (if post = [] then e else a + span pre + span mid)"
    and "\<And>x. x \<in> set (addrs a pre) \<Longrightarrow> hsame m m' x"
    and "lay m' (last_addr (last_addr pv a pre) (a + span pre) mid') (a + span pre + span mid) post e"
  shows "lay m' pv a (pre @ mid' @ post) e"
proof -
  have "lay m' pv a pre n = lay m pv a pre n" for n by (rule lay_hsame) (rule assms(6))
  then show ?thesis using assms(1-5,7) by (cases "post = []") (simp_all add: lay_append)
qed

section \<open>The walks\<close>

lemma of_nat_less32: "x < 4294967296 \<Longrightarrow> y < 4294967296 \<Longrightarrow> (of_nat x :: u32) < of_nat y \<longleftrightarrow> x < y"
  by (simp add: word_lt_unat unat_of_nat_small)

lemma of_nat_eq32: "x < 4294967296 \<Longrightarrow> y < 4294967296 \<Longrightarrow> (of_nat x :: u32) = of_nat y \<longleftrightarrow> x = y"
  by (simp add: word_eq_unat unat_of_nat_small)

lemma of_nat_nz32: "0 < x \<Longrightarrow> x < 4294967296 \<Longrightarrow> (of_nat x :: u32) \<noteq> 0"
  using of_nat_eq32 [of x 0] by simp

definition first :: "nat \<Rightarrow> block list \<Rightarrow> nat" where
  "first a bs = (if bs = [] then 0 else a)"

lemma first_simps [simp]: "first a [] = 0" "first a (b # bs) = a"
  by (simp_all add: first_def)

text \<open>A laid out list in memory: positive, aligned, inside the address space.\<close>

definition placed :: "nat \<Rightarrow> block list \<Rightarrow> bool" where
  "placed a bs \<longleftrightarrow> 0 < a \<and> 8 dvd a \<and> sized bs \<and> a + span bs < 4294967296"

lemma placed_Cons [simp]:
  "placed a ((s, u) # bs) \<longleftrightarrow> 0 < a \<and> 8 dvd a \<and> 0 < s \<and> 8 dvd s \<and> s < 4294967296 \<and> a < 4294967296 \<and> placed (a + 24 + s) bs"
  by (auto simp: placed_def)

lemma placed_append:
  "placed a (xs @ ys) \<Longrightarrow> placed a xs \<and> placed (a + span xs) ys"
  using span_dvd [of xs] by (auto simp: placed_def)

fun lmax :: "block list \<Rightarrow> nat \<Rightarrow> nat" where
  "lmax [] l = l"
| "lmax ((s, u) # bs) l = lmax bs (if \<not> u \<and> l < s then s else l)"

definition fsum :: "block list \<Rightarrow> nat" where
  "fsum bs = sum_list (map fst (filter (\<lambda>b. \<not> snd b) bs))"

definition usum :: "block list \<Rightarrow> nat" where
  "usum bs = sum_list (map fst (filter snd bs))"

lemma sums_simps [simp]:
  "fsum [] = 0" "fsum ((s, u) # bs) = (if u then 0 else s) + fsum bs" "fsum (xs @ ys) = fsum xs + fsum ys"
  "usum [] = 0" "usum ((s, u) # bs) = (if u then s else 0) + usum bs" "usum (xs @ ys) = usum xs + usum ys"
  by (simp_all add: fsum_def usum_def)

lemma sums_span: "fsum bs + usum bs + 24 * length bs = span bs"
  by (induction bs rule: span.induct) auto

lemma lmax_bound: "l \<le> k \<Longrightarrow> span bs \<le> k \<Longrightarrow> lmax bs l \<le> k"
  by (induction bs l rule: lmax.induct) auto

lemma lmax_max: "lmax bs l = Max (insert l {s. (s, False) \<in> set bs})"
proof (induction bs l rule: lmax.induct)
  case (2 s u bs l)
  have fin: "finite {s. (s, False) \<in> set bs}"
    by (rule finite_subset [of _ "fst ` set bs"]) (auto intro: rev_image_eqI)
  show ?case
  proof (cases u)
    case True
    then show ?thesis using 2 by simp
  next
    case False
    have e: "{t. (t, False) \<in> set ((s, u) # bs)} = insert s {s. (s, False) \<in> set bs}" using False by auto
    have "Max (insert (if l < s then s else l) {s. (s, False) \<in> set bs}) = Max (insert l (insert s {s. (s, False) \<in> set bs}))"
    proof (cases "{s. (s, False) \<in> set bs} = {}")
      case True
      then show ?thesis by simp
    next
      case False
      then show ?thesis using fin by (auto simp: max_def)
    qed
    then show ?thesis unfolding e using 2 False by simp
  qed
qed simp

lemma hdrD:
  assumes "hdr m a (s, u) nx pv"
  shows "b_magic m (of_nat a) = HEAP_MAGIC" "block_state m (of_nat a) = (if u then HEAP_STATE_USED else HEAP_STATE_FREE)"
    "b_size m (of_nat a) = of_nat s" "b_next m (of_nat a) = of_nat nx" "b_prev m (of_nat a) = of_nat pv"
  using assms by (simp_all add: hdr_def)

lemma lay_Cons0:
  "lay m pv a ((s, u) # bs) 0 \<longleftrightarrow> hdr m a (s, u) (first (a + 24 + s) bs) pv \<and> lay m a (a + 24 + s) bs 0"
  by (simp add: first_def)

lemma largest_walk_lay:
  "lay m pv a bs 0 \<Longrightarrow> placed a bs \<Longrightarrow> l < 4294967296 \<Longrightarrow>
   largest_walk m (of_nat (first a bs)) (of_nat l) = Some (of_nat (lmax bs l))"
proof (induction bs arbitrary: pv a l)
  case Nil
  then show ?case by (subst largest_walk.simps) simp
next
  case (Cons b bs)
  obtain s u where b: "b = (s, u)" by fastforce
  note L = Cons.prems(1) [unfolded b lay_Cons0]
  have P: "0 < a" "a < 4294967296" "s < 4294967296" "placed (a + 24 + s) bs"
    using Cons.prems(2) by (simp_all add: b)
  show ?case
    using hdrD [OF L [THEN conjunct1]] P Cons.prems(3) Cons.IH [OF L [THEN conjunct2] P(4)]
    by (subst largest_walk.simps) (simp add: b of_nat_nz32 of_nat_less32)
qed

definition fits :: "nat \<Rightarrow> block \<Rightarrow> bool" where
  "fits n b \<longleftrightarrow> \<not> snd b \<and> n \<le> fst b"

lemma fit_walk_lay:
  "lay m pv a bs 0 \<Longrightarrow> placed a bs \<Longrightarrow> n < 4294967296 \<Longrightarrow>
   fit_walk m (of_nat (first a bs)) (of_nat n) =
     Some (if \<exists>b\<in>set bs. fits n b then of_nat (a + span (takeWhile (\<lambda>b. \<not> fits n b) bs)) else 0)"
proof (induction bs arbitrary: pv a)
  case Nil
  then show ?case by (subst fit_walk.simps) simp
next
  case (Cons b bs)
  obtain s u where b: "b = (s, u)" by fastforce
  note L = Cons.prems(1) [unfolded b lay_Cons0]
  have P: "0 < a" "a < 4294967296" "s < 4294967296" "placed (a + 24 + s) bs"
    using Cons.prems(2) by (simp_all add: b)
  show ?case
    using hdrD [OF L [THEN conjunct1]] P Cons.prems(3) Cons.IH [OF L [THEN conjunct2] P(4)]
    by (subst fit_walk.simps) (auto simp: b of_nat_nz32 of_nat_less32 fits_def)
qed

lemma tail_walk_lay:
  "lay m pv a bs 0 \<Longrightarrow> placed a bs \<Longrightarrow> bs \<noteq> [] \<Longrightarrow> tail_walk m (of_nat a) = Some (of_nat (last_addr pv a bs))"
proof (induction bs arbitrary: pv a)
  case (Cons b bs)
  obtain s u where b: "b = (s, u)" by fastforce
  note L = Cons.prems(1) [unfolded b lay_Cons0]
  have P: "0 < a" "a < 4294967296" "s < 4294967296" "placed (a + 24 + s) bs"
    using Cons.prems(2) by (simp_all add: b)
  show ?case
  proof (cases bs)
    case Nil
    then show ?thesis using hdrD [OF L [THEN conjunct1]] by (subst tail_walk.simps) (simp add: b)
  next
    case (Cons c cs)
    have "(of_nat (a + 24 + s) :: u32) \<noteq> 0" using P(1,4) by (intro of_nat_nz32) (auto simp: placed_def)
    then show ?thesis using hdrD [OF L [THEN conjunct1]] Cons.IH [OF L [THEN conjunct2] P(4)] Cons
      by (subst tail_walk.simps) (simp add: b)
  qed
qed simp

fun spread :: "block list \<Rightarrow> bool" where
  "spread (b # c # bs) = ((snd b \<or> snd c) \<and> spread (c # bs))"
| "spread bs = True"

lemma of_nat_dvd8: "8 dvd x \<Longrightarrow> (of_nat x :: u32) AND 7 = 0"
proof -
  assume d: "8 dvd x"
  have m: "(7 :: u32) = mask 3" by (simp add: mask_eq_exp_minus_1)
  have "unat (of_nat x :: u32) mod 8 = 0" using d by (simp add: unat_of_nat mod_mod_cancel)
  then show ?thesis unfolding m and_mask_0_iff by simp
qed

lemma states_neq [simp]: "HEAP_STATE_USED \<noteq> HEAP_STATE_FREE" "HEAP_STATE_FREE \<noteq> HEAP_STATE_USED"
  by simp_all

lemma check_walk_lay:
  assumes "lay m pv a bs 0" "placed a bs" "l < 4294967296" "spread bs"
    and "pv = 0 \<and> q = True \<or> 0 < pv \<and> pv < 4294967296 \<and> block_state m (of_nat pv) = (if q then HEAP_STATE_USED else HEAP_STATE_FREE)"
    and "bs \<noteq> [] \<Longrightarrow> q \<or> snd (hd bs)"
  shows "check_walk m (of_nat (first a bs)) (of_nat pv) (of_nat f) (of_nat u) (of_nat l) (of_nat a) =
    Some (Inr (of_nat (f + fsum bs), of_nat (u + usum bs), of_nat (lmax bs l), of_nat (a + span bs)))"
  using assms
proof (induction bs arbitrary: pv a f u l q)
  case Nil
  then show ?case by (subst check_walk.simps) simp
next
  case (Cons b bs)
  obtain s w where b: "b = (s, w)" by fastforce
  note L = Cons.prems(1) [unfolded b lay_Cons0]
  have P: "0 < a" "a < 4294967296" "0 < s" "s < 4294967296" "8 dvd s" "placed (a + 24 + s) bs"
    using Cons.prems(2) by (simp_all add: b)
  note H = hdrD [OF L [THEN conjunct1]]
  have sp: "spread bs" "bs \<noteq> [] \<Longrightarrow> w \<or> snd (hd bs)"
    using Cons.prems(4) by (cases bs; simp add: b)+
  have IH: "check_walk m (of_nat (first (a + 24 + s) bs)) (of_nat a) (of_nat f') (of_nat u') (of_nat l') (of_nat (a + 24 + s)) =
      Some (Inr (of_nat (f' + fsum bs), of_nat (u' + usum bs), of_nat (lmax bs l'), of_nat (a + 24 + s + span bs)))"
    if "l' < 4294967296" for f' u' l'
    using Cons.IH [OF L [THEN conjunct2] P(6) that sp(1), of w] P H(2) sp(2) by simp
  have nz: "(of_nat a :: u32) \<noteq> 0" "(of_nat s :: u32) \<noteq> 0" "(of_nat s :: u32) AND 7 = 0"
    using P by (simp_all add: of_nat_nz32 of_nat_dvd8)
  show ?case
  proof (cases w)
    case True
    then show ?thesis using H nz IH [of l f "u + s"] Cons.prems(3)
      by (subst check_walk.simps) (simp add: b add.assoc)
  next
    case False
    then have "(of_nat pv :: u32) = 0 \<or> block_state m (of_nat pv) = HEAP_STATE_USED"
      using Cons.prems(5,6) by (auto simp: b)
    then show ?thesis using H nz IH [of "if l < s then s else l" "f + s" u] Cons.prems(3) P(4) False
      by (subst check_walk.simps) (auto simp: b add.assoc of_nat_less32)
  qed
qed

section \<open>Changing the list in memory\<close>

lemma placed_apart:
  assumes "placed a bs" "x \<in> set (addrs a bs)" "y \<in> set (addrs a bs)"
  shows "apart x y"
proof -
  have sep: "x = y \<or> x + 24 \<le> y \<or> y + 24 \<le> x"
    using assms
  proof (induction a bs rule: addrs.induct)
    case (2 a s u bs)
    have "x = a \<or> x \<in> set (addrs (a + 24 + s) bs)" "y = a \<or> y \<in> set (addrs (a + 24 + s) bs)"
      using "2.prems" by auto
    then show ?case
      using 2 addrs_bounds [of x "a + 24 + s" bs] addrs_bounds [of y "a + 24 + s" bs] by auto
  qed simp
  have "8 dvd x" "8 dvd y" "x + 24 < 4294967296" "y + 24 < 4294967296"
    using assms addrs_dvd [of x a bs] addrs_dvd [of y a bs] addrs_bounds [of x a bs] addrs_bounds [of y a bs]
    by (auto simp: placed_def)
  then show ?thesis using sep by (auto simp: apart_def)
qed

text \<open>
  Where the headers of a split list \<open>pre @ mid @ post\<close> are: those of \<open>pre\<close> and \<open>post\<close> stay
  clear of anything in the middle.
\<close>

lemma placed_parts:
  assumes "placed a (pre @ mid @ post)" and "sized mid'" "span mid' = span mid" "mid \<noteq> []"
    and "y \<in> set (addrs (a + span pre) mid')"
  shows "\<And>x. x \<in> set (addrs a pre) \<Longrightarrow> apart y x \<and> y \<noteq> x"
    "\<And>x. x \<in> set (addrs (a + span pre + span mid) post) \<Longrightarrow> apart y x \<and> y \<noteq> x"
    "\<And>z. z \<in> set (addrs (a + span pre) mid') \<Longrightarrow> apart y z"
proof -
  have P: "placed a (pre @ mid' @ post)" using assms(1-3) by (simp add: placed_def)
  have A: "addrs a (pre @ mid' @ post) = addrs a pre @ addrs (a + span pre) mid' @ addrs (a + span pre + span mid) post"
    using assms(3) by (simp add: addrs_append)
  have b: "a + span pre \<le> y" "y + 24 \<le> a + span pre + span mid"
    using addrs_bounds [OF assms(5)] assms(3) by auto
  fix x
  show "x \<in> set (addrs a pre) \<Longrightarrow> apart y x \<and> y \<noteq> x"
    using placed_apart [OF P, of y x] assms(5) A addrs_bounds [of x a pre] b by auto
  show "x \<in> set (addrs (a + span pre + span mid) post) \<Longrightarrow> apart y x \<and> y \<noteq> x"
    using placed_apart [OF P, of y x] assms(5) A addrs_bounds [of x "a + span pre + span mid" post] b by auto
  show "x \<in> set (addrs (a + span pre) mid') \<Longrightarrow> apart y x"
    using placed_apart [OF P, of y x] assms(5) A by auto
qed

text \<open>The list after a block, when that block's address as seen by it changes.\<close>

lemma lay_relink:
  assumes "lay m pv B post e" and "post \<noteq> [] \<Longrightarrow> hsame m (set_prev m' (of_nat B) (b_prev m (of_nat B))) B"
    and "post \<noteq> [] \<Longrightarrow> b_prev m' (of_nat B) = of_nat pv'"
    and "\<And>x. x \<in> set (addrs B post) \<Longrightarrow> x \<noteq> B \<Longrightarrow> hsame m m' x" and "placed B post"
  shows "lay m' pv' B post e"
proof (cases post)
  case (Cons q post')
  obtain s u where q: "q = (s, u)" by fastforce
  have ap: "apart B B" using placed_apart [OF assms(5), of B B] by (simp add: Cons q)
  have hs: "hsame m m' x" if "x \<in> set (addrs (B + 24 + s) post')" for x
    using assms(4) [of x] that addrs_bounds [OF that] by (simp add: Cons q)
  have "lay m' B (B + 24 + s) post' e = lay m B (B + 24 + s) post' e" by (rule lay_hsame) (rule hs)
  then show ?thesis using assms(1-3) set_fields [OF ap] by (simp add: Cons q hdr_def hsame_def)
qed simp

text \<open>The bytes outside the headers at the addresses \<open>H\<close> are the same in both memories.\<close>

definition quiet :: "bytes \<Rightarrow> bytes \<Rightarrow> nat set \<Rightarrow> bool" where
  "quiet m m' H \<longleftrightarrow>
     (\<forall>x<4294967296. (\<forall>y\<in>H. x < y \<or> y + 24 \<le> x) \<longrightarrow> m' (of_nat x) = m (of_nat x))"

lemma store_byte:
  assumes "a + 4 < 4294967296" "x < 4294967296" "x < a \<or> a + 4 \<le> x"
  shows "st32 m (of_nat a) v (of_nat x) = m (of_nat x)"
proof -
  have "(of_nat x :: u32) \<noteq> of_nat (a + k)" if "k < 4" for k
    using assms that by (subst of_nat_eq32) auto
  from this [of 0] this [of 1] this [of 2] this [of 3] show ?thesis
    by (intro st32_other) (simp_all add: add.commute)
qed

lemma quiet_refl [simp]: "quiet m m H"
  by (simp add: quiet_def)

lemma quiet_trans: "quiet m m1 H \<Longrightarrow> quiet m1 m2 H \<Longrightarrow> quiet m m2 H"
  by (simp add: quiet_def)

lemma quiet_sets:
  assumes "a \<in> H" "a + 24 < 4294967296"
  shows "quiet m (set_state m' (of_nat a) v) H = quiet m m' H"
    "quiet m (set_size m' (of_nat a) v) H = quiet m m' H"
    "quiet m (set_next m' (of_nat a) v) H = quiet m m' H"
    "quiet m (set_prev m' (of_nat a) v) H = quiet m m' H"
    "quiet m (init_header (of_nat a) st sz m') H = quiet m m' H"
proof -
  have st: "st32 m'' (of_nat (a + k)) v (of_nat x) = m'' (of_nat x)"
    if "x < 4294967296" "\<forall>y\<in>H. x < y \<or> y + 24 \<le> x" "k \<le> 20" for x k v m''
    using assms that by (intro store_byte) auto
  show "quiet m (set_state m' (of_nat a) v) H = quiet m m' H"
    using st [where k = 4] by (auto simp: quiet_def set_state_def)
  show "quiet m (set_size m' (of_nat a) v) H = quiet m m' H"
    using st [where k = 8] by (auto simp: quiet_def set_size_def)
  show "quiet m (set_next m' (of_nat a) v) H = quiet m m' H"
    using st [where k = 12] by (auto simp: quiet_def set_next_def)
  show "quiet m (set_prev m' (of_nat a) v) H = quiet m m' H"
    using st [where k = 16] by (auto simp: quiet_def set_prev_def)
  show "quiet m (init_header (of_nat a) st sz m') H = quiet m m' H"
    using st [where k = 0] st [where k = 4] st [where k = 8] st [where k = 12] st [where k = 16] st [where k = 20]
    by (auto simp: quiet_def init_header_def set_state_def set_size_def set_next_def set_prev_def Let_def)
qed

lemma lay_mark:
  assumes "lay m pv a (pre @ (s, u) # post) e" "placed a (pre @ (s, u) # post)" and A: "A = a + span pre"
  shows "lay (set_state m (of_nat A) (if v then HEAP_STATE_USED else HEAP_STATE_FREE)) pv a (pre @ (s, v) # post) e"
    (is "lay ?m' pv a _ e")
proof -
  have P: "placed a (pre @ [(s, u)] @ post)" and z: "sized [(s, v)]" using assms(2) by (simp_all add: placed_def)
  note pp = placed_parts [OF P z, of A, folded A, simplified]
  have h: "hdr m A (s, u) (if post = [] then e else A + 24 + s) (last_addr pv a pre)"
    "lay m A (A + 24 + s) post e" using assms(1) by (auto simp: lay_append A)
  have "lay ?m' pv a (pre @ [(s, v)] @ post) e"
  proof (rule lay_replace, unfold A [symmetric])
    show "lay m pv a (pre @ [(s, u)] @ post) e" using assms(1) by simp
    show "hsame m ?m' x" if "x \<in> set (addrs a pre)" for x
      using pp(1) [OF that] hsame_sets(1) [of A x m m] by simp
    have "lay ?m' A (A + 24 + s) post e = lay m A (A + 24 + s) post e"
    proof (rule lay_hsame)
      fix x assume "x \<in> set (addrs (A + 24 + s) post)"
      then show "hsame m ?m' x" using pp(2) [of x] hsame_sets(1) [of A x m m] by (simp add: add.assoc)
    qed
    then show "lay ?m' (last_addr (last_addr pv a pre) A [(s, v)]) (A + span [(s, u)]) post e"
      using h by (simp add: add.assoc)
    show "lay ?m' (last_addr pv a pre) A [(s, v)] (if post = [] then e else A + span [(s, u)])"
      using h(1) set_fields(1-5) [OF pp(3)] by (simp add: hdr_def add.assoc)
  qed simp_all
  then show ?thesis by simp
qed

text \<open>The last block of the middle is followed by \<open>post\<close>; a store to its back link completes the change.\<close>

lemma lay_absorb:
  assumes "lay m pv a (pre @ (s, u) # (t, v) # post) 0" "placed a (pre @ (s, u) # (t, v) # post)"
    and A: "A = a + span pre" and B: "B = A + 24 + s"
  shows "lay (absorb m (of_nat A) (of_nat B)) pv a (pre @ (s + 24 + t, u) # post) 0 \<and>
    quiet m (absorb m (of_nat A) (of_nat B)) (set (addrs a (pre @ (s + 24 + t, u) # post)))"
    (is "lay ?m' pv a ?bs 0 \<and> quiet m ?m' ?H")
proof -
  define C where C: "C = B + 24 + t"
  have sp: "a + span pre + span [(s, u), (t, v)] = C" "a + span pre + span [(s + 24 + t, u)] = C"
    by (simp_all add: A B C)
  have P: "placed a (pre @ [(s, u), (t, v)] @ post)" and z: "sized [(s + 24 + t, u)]"
    and z2: "sized [(s, u), (t, v)]" and e: "span [(s + 24 + t, u)] = span [(s, u), (t, v)]"
    using assms(2) by (auto simp: placed_def)
  note pp = placed_parts [OF P z e, of A, folded A, unfolded sp [folded A], simplified]
  note qq = placed_parts [OF P z2 refl, of B, folded A, unfolded sp [folded A], simplified, folded B]
  have h: "hdr m A (s, u) B (last_addr pv a pre)" "hdr m B (t, v) (first C post) A" "lay m B C post 0"
    using assms(1) by (auto simp: lay_append first_def A B C)
  have PC: "placed C post"
    using placed_append [of a "pre @ [(s, u), (t, v)]" post] P by (simp add: A B C add.assoc)
  have aC: "apart A C" "apart C A" "A \<noteq> C" "apart C C" if "post \<noteq> []"
  proof -
    obtain q w post' where post: "post = (q, w) # post'" using \<open>post \<noteq> []\<close> by (cases post) auto
    then have "C \<in> set (addrs C post)" by simp
    then have "apart A C" "A \<noteq> C" "apart C C" using pp(2) [of C] placed_apart [OF PC, of C C] by simp_all
    then show "apart A C" "apart C A" "A \<noteq> C" "apart C C" by (auto simp: apart_def)
  qed
  have AB: "apart A B" "apart A A" using qq(3) [of A] pp(3) by (auto simp: apart_def)
  have nz: "(of_nat C :: u32) \<noteq> 0" if "post \<noteq> []"
    using PC that by (intro of_nat_nz32) (auto simp: placed_def neq_Nil_conv)
  have spA: "A + span [(s, u), (t, v)] = C" by (simp add: B C)
  define m1 where m1: "m1 = set_next (set_size m (of_nat A) (of_nat (s + 24 + t))) (of_nat A) (of_nat (first C post))"
  have m': "?m' = (if post \<noteq> [] then set_prev m1 (of_nat C) (of_nat A) else m1)"
    using hdrD [OF h(1)] hdrD [OF h(2)] nz
    by (simp add: absorb_def Let_def set_fields [OF AB(1)] first_def m1 add.assoc)
  have Q: "quiet m ?m' ?H"
  proof -
    have "A \<in> ?H" by (simp add: addrs_append A)
    moreover have "post \<noteq> [] \<Longrightarrow> C \<in> ?H" by (cases post) (auto simp: addrs_append A B C add.assoc)
    moreover have "A + 24 < 4294967296" "post \<noteq> [] \<Longrightarrow> C + 24 < 4294967296"
      using AB(2) aC by (auto simp: apart_def)
    ultimately show ?thesis unfolding m' m1 by (auto simp: quiet_sets)
  qed
  have m1h: "hsame m m1 x" if "apart A x" "A \<noteq> x" for x
    unfolding m1 using that hsame_sets [of A x m] by simp
  have "lay ?m' pv a (pre @ [(s + 24 + t, u)] @ post) 0"
  proof (rule lay_replace, unfold A [symmetric])
    show "lay m pv a (pre @ [(s, u), (t, v)] @ post) 0" using assms(1) by simp
    show "hsame m ?m' x" if x: "x \<in> set (addrs a pre)" for x
    proof -
      have "apart C x \<and> C \<noteq> x" if "post \<noteq> []"
        using placed_apart [OF P, of C x] that x addrs_bounds [OF x]
        by (cases post) (auto simp: addrs_append A B C add.assoc)
      then show ?thesis unfolding m' using pp(1) [OF x] m1h [of x] hsame_sets(4) [of C x m m1] by simp
    qed
    show "lay ?m' (last_addr pv a pre) A [(s + 24 + t, u)] (if post = [] then 0 else A + span [(s, u), (t, v)])"
    proof (cases "post = []")
      case True
      then show ?thesis unfolding m' m1 using hdrD [OF h(1)] by (simp add: hdr_def set_fields [OF AB(2)])
    next
      case False
      then show ?thesis unfolding m' m1 spA using hdrD [OF h(1)] aC [OF False]
        by (simp add: hdr_def set_fields [OF AB(2)] set_fields [of C A] first_def)
    qed
    have "lay ?m' A C post 0"
    proof (rule lay_relink [OF h(3)])
      show "placed C post" by (rule PC)
      show "hsame m (set_prev ?m' (of_nat C) (b_prev m (of_nat C))) C" if "post \<noteq> []"
        unfolding m' m1 using that aC [OF that] by (simp add: hsame_def set_fields [of C C] set_fields [of A C])
      show "b_prev ?m' (of_nat C) = of_nat A" if "post \<noteq> []"
        unfolding m' using that aC [OF that] by (simp add: set_fields [of C C])
      show "hsame m ?m' x" if x: "x \<in> set (addrs C post)" "x \<noteq> C" for x
      proof -
        have "C \<in> set (addrs C post)" using x by (cases post) auto
        then have "apart C x" "apart A x \<and> A \<noteq> x" using pp(2) [of x] placed_apart [OF PC _ x(1)] x(1) by auto
        then show ?thesis unfolding m' using x(2) m1h [of x] hsame_sets(4) [of C x m m1] by simp
      qed
    qed
    then show "lay ?m' (last_addr (last_addr pv a pre) A [(s + 24 + t, u)]) (A + span [(s, u), (t, v)]) post 0"
      using sp(1) by (simp add: A)
  qed simp_all
  then show ?thesis using Q by simp
qed

text \<open>Cutting the block at \<open>A\<close> in two; the memory effect of \<open>heap_split\<close>.\<close>

lemma lay_split:
  assumes "lay (h_mem h) pv a (pre @ (t, u) # post) 0" "placed a (pre @ (t, u) # post)"
    and "0 < n" "8 dvd n" "n + 32 \<le> t" and A: "A = a + span pre"
  shows "lay (h_mem (heap_split h (of_nat A) (of_nat n))) pv a (pre @ (n, u) # (t - n - 24, False) # post) 0 \<and>
    quiet (h_mem h) (h_mem (heap_split h (of_nat A) (of_nat n))) (set (addrs a (pre @ (n, u) # (t - n - 24, False) # post)))"
    (is "lay ?m' pv a _ 0 \<and> quiet _ _ ?H")
proof -
  let ?m = "h_mem h" and ?mid = "[(n, u), (t - n - 24, False)]"
  define R where R: "R = A + 24 + n"
  define C where C: "C = A + 24 + t"
  have sp: "a + span pre + span [(t, u)] = C" "A + span [(t, u)] = C" by (simp_all add: A C)
  have P: "placed a (pre @ [(t, u)] @ post)" using assms(2) by simp
  have z2: "sized [(t, u)]" using assms(2) by (auto simp: placed_def)
  have z: "sized ?mid" and e: "span ?mid = span [(t, u)]"
    using assms(3-5) z2 by (auto intro: dvd_diff_nat)
  have tlt: "t < 4294967296" "n < 4294967296" using assms(2,5) by (auto simp: placed_def)
  have Rin: "R \<in> set (addrs (a + span pre) ?mid)" by (simp add: R A)
  note pp = placed_parts [OF P z e _ Rin, folded A, unfolded sp, simplified, folded R]
  note qq = placed_parts [OF P z e, of A, folded A, unfolded sp, simplified]
  have h: "hdr ?m A (t, u) (first C post) (last_addr pv a pre)" "lay ?m A C post 0"
    using assms(1) by (auto simp: lay_append first_def A C)
  have PC: "placed C post" using placed_append [of a "pre @ [(t, u)]" post] P by (simp add: A C add.assoc)
  have AR: "apart R A" "apart A R" "R \<noteq> A" "apart R R" "apart A A"
    using pp(3) [of A] pp(3) [of R] qq(3) [of A] by (auto simp: apart_def R)
  have aC: "apart A C" "apart C A" "A \<noteq> C" "apart C C" "apart R C" "apart C R" "R \<noteq> C" if "post \<noteq> []"
  proof -
    obtain q w post' where post: "post = (q, w) # post'" using \<open>post \<noteq> []\<close> by (cases post) auto
    then have "C \<in> set (addrs C post)" by simp
    then have "apart A C" "A \<noteq> C" "apart C C" "apart R C" "R \<noteq> C"
      using qq(2) [of C] pp(2) [of C] placed_apart [OF PC, of C C] by simp_all
    then show "apart A C" "apart C A" "A \<noteq> C" "apart C C" "apart R C" "apart C R" "R \<noteq> C" by (auto simp: apart_def)
  qed
  have nz: "(of_nat C :: u32) \<noteq> 0" if "post \<noteq> []"
    using PC that by (intro of_nat_nz32) (auto simp: placed_def neq_Nil_conv)
  have left: "of_nat t - of_nat n - 24 = (of_nat (t - n - 24) :: u32)" using assms(5) by (simp add: of_nat_diff)
  define m1 where m1: "m1 = set_prev (set_next (init_header (of_nat R) HEAP_STATE_FREE (of_nat (t - n - 24)) ?m)
      (of_nat R) (of_nat (first C post))) (of_nat R) (of_nat A)"
  define m2 where m2: "m2 = (if post \<noteq> [] then set_prev m1 (of_nat C) (of_nat R) else m1)"
  have Rw: "of_nat A + 24 + of_nat n = (of_nat R :: u32)" by (simp add: R)
  have m': "?m' = set_size (set_next m2 (of_nat A) (of_nat R)) (of_nat A) (of_nat n)"
    using hdrD [OF h(1)] nz
    by (simp add: heap_split_def Let_def Rw left set_fields [OF AR(1)] init_header_fields [OF AR(1)] AR(3) first_def m1 m2)
  have Q: "quiet ?m ?m' ?H"
  proof -
    have "A \<in> ?H" "R \<in> ?H" by (simp_all add: addrs_append A R)
    moreover have "A + 24 + n + 24 + (t - n - 24) = C" using assms(5) by (simp add: C)
    then have "post \<noteq> [] \<Longrightarrow> C \<in> ?H" by (cases post) (auto simp: addrs_append A add.assoc)
    moreover have "A + 24 < 4294967296" "R + 24 < 4294967296" "post \<noteq> [] \<Longrightarrow> C + 24 < 4294967296"
      using AR aC by (auto simp: apart_def)
    ultimately show ?thesis unfolding m' m1 m2 by (auto simp: quiet_sets)
  qed
  have hs: "hsame ?m ?m' x" if "apart A x" "A \<noteq> x" "apart R x" "R \<noteq> x" "post \<noteq> [] \<Longrightarrow> apart C x \<and> C \<noteq> x" for x
    unfolding m' m1 m2 using that hsame_sets [of A x] hsame_sets [of R x] hsame_sets(4) [of C x] by simp
  have "lay ?m' pv a (pre @ ?mid @ post) 0"
  proof (rule lay_replace, unfold A [symmetric])
    show "lay ?m pv a (pre @ [(t, u)] @ post) 0" using assms(1) by simp
    show "hsame ?m ?m' x" if x: "x \<in> set (addrs a pre)" for x
    proof (rule hs)
      show "apart C x \<and> C \<noteq> x" if "post \<noteq> []"
        using placed_apart [OF P, of C x] that x addrs_bounds [OF x]
        by (cases post) (auto simp: addrs_append A C add.assoc)
    qed (use pp(1) [OF x] qq(1) [OF x] in auto)
    show "lay ?m' (last_addr pv a pre) A ?mid (if post = [] then 0 else A + span [(t, u)])"
    proof -
      have RC: "R + 24 + (t - n - 24) = C" using assms(5) by (simp add: R C)
      have 1: "hdr ?m' A (n, u) R (last_addr pv a pre)"
        unfolding m' m1 m2 using hdrD [OF h(1)] aC AR
        by (auto simp: hdr_def set_fields [of A A] set_fields [of C A] set_fields [of R A] init_header_fields [of R A])
      have 2: "hdr ?m' R (t - n - 24, False) (first C post) A"
        unfolding m' m1 m2 using aC AR
        by (auto simp: hdr_def set_fields [of A R] set_fields [of C R] set_fields [of R R] init_header_fields [of R R])
      show ?thesis unfolding sp using 1 2 RC by (simp add: R first_def)
    qed
    have "lay ?m' R C post 0"
    proof (rule lay_relink [OF h(2)])
      show "placed C post" by (rule PC)
      show "hsame ?m (set_prev ?m' (of_nat C) (b_prev ?m (of_nat C))) C" if "post \<noteq> []"
        unfolding m' m1 m2 using that aC [OF that]
        by (simp add: hsame_def set_fields [of C C] set_fields [of A C] set_fields [of R C] init_header_fields [of R C])
      show "b_prev ?m' (of_nat C) = of_nat R" if "post \<noteq> []"
        unfolding m' m2 using that aC [OF that] by (simp add: set_fields [of C C] set_fields [of A C])
      show "hsame ?m ?m' x" if x: "x \<in> set (addrs C post)" "x \<noteq> C" for x
      proof -
        have "C \<in> set (addrs C post)" using x by (cases post) auto
        then have "apart C x" "apart A x \<and> A \<noteq> x" "apart R x \<and> R \<noteq> x"
          using qq(2) [of x] pp(2) [of x] placed_apart [OF PC _ x(1)] x(1) by auto
        then show ?thesis using x(2) by (intro hs) auto
      qed
    qed
    moreover have "last_addr (last_addr pv a pre) A ?mid = R" by (simp add: R)
    ultimately show "lay ?m' (last_addr (last_addr pv a pre) A ?mid) (A + span [(t, u)]) post 0"
      unfolding sp by simp
  qed (use e in simp_all)
  then show ?thesis using Q by simp
qed

end
