(* ===== verification/HeapSafe.thy ===== *)
theory HeapSafe
  imports HeapLayout
begin

text \<open>
  The invariant of the heap, what initialisation, taking, freeing, growing and allocating do to
  the abstract block list, and the properties of the heap operations.
\<close>

section \<open>The heap invariant\<close>

definition heap_core :: "'g heap_t \<Rightarrow> block list \<Rightarrow> bool" where
  "heap_core h bs \<longleftrightarrow>
     h_inited h \<and> bs \<noteq> [] \<and> placed (unat (h_base h)) bs \<and> h_head h = h_base h \<and>
     lay (h_mem h) 0 (unat (h_base h)) bs 0 \<and> h_size h = of_nat (span bs) \<and>
     h_used h = of_nat (usum bs) \<and> h_free h = of_nat (fsum bs)"

definition heap_inv :: "'g heap_t \<Rightarrow> block list \<Rightarrow> bool" where
  "heap_inv h bs \<longleftrightarrow> heap_core h bs \<and> spread bs \<and> h_largest h = of_nat (lmax bs 0)"

text \<open>What no operation changes, growth apart.\<close>

definition same_arena :: "'g heap_t \<Rightarrow> 'g heap_t \<Rightarrow> bool" where
  "same_arena h h' \<longleftrightarrow> h_base h' = h_base h \<and> h_grow h' = h_grow h"

lemma placed_first: "placed a bs \<Longrightarrow> bs \<noteq> [] \<Longrightarrow> first a bs = a"
  by (simp add: first_def)

lemma core_largest:
  assumes "heap_core h bs"
  shows "heap_largest_free h = Some (of_nat (lmax bs 0))"
  using assms largest_walk_lay [of "h_mem h" 0 "unat (h_base h)" bs 0]
  by (simp add: heap_core_def heap_largest_free_def first_def)

lemma core_finish:
  assumes "heap_core h bs" "spread bs"
  shows "heap_inv (h\<lparr>h_largest := of_nat (lmax bs 0)\<rparr>) bs"
  using assms by (simp add: heap_inv_def heap_core_def)

lemma core_bounds:
  assumes "heap_core h bs"
  shows "0 < unat (h_base h)" "8 dvd unat (h_base h)" "unat (h_base h) + span bs < 4294967296" "sized bs"
    "unat (h_size h) = span bs"
  using assms by (auto simp: heap_core_def placed_def unat_of_nat_small)

lemma heap_check_inv:
  assumes "heap_inv h bs"
  shows "heap_check h = Some HEAP_OK"
proof -
  have c: "heap_core h bs" "spread bs" "h_largest h = of_nat (lmax bs 0)" using assms by (simp_all add: heap_inv_def)
  have "check_walk (h_mem h) (of_nat (first (unat (h_base h)) bs)) (of_nat 0) (of_nat 0) (of_nat 0) (of_nat 0) (of_nat (unat (h_base h))) =
    Some (Inr (of_nat (0 + fsum bs), of_nat (0 + usum bs), of_nat (lmax bs 0), of_nat (unat (h_base h) + span bs)))"
    using c(1,2) by (intro check_walk_lay [where q = True]) (auto simp: heap_core_def)
  then show ?thesis using c by (simp add: heap_check_def heap_core_def first_def)
qed

lemma ALIGN_unat:
  "unat (ALIGN_DOWN_8 x) = unat x - unat x mod 8"
  "unat x + 7 < 4294967296 \<Longrightarrow> unat (ALIGN_UP_8 x) = (unat x + 7) div 8 * 8"
proof -
  have m: "(7 :: u32) = mask 3" by (simp add: mask_eq_exp_minus_1)
  show d: "unat (ALIGN_DOWN_8 x) = unat x - unat x mod 8" for x
    unfolding ALIGN_DOWN_8_def m unat_and_not_mask by simp
  show "unat x + 7 < 4294967296 \<Longrightarrow> unat (ALIGN_UP_8 x) = (unat x + 7) div 8 * 8"
    using d [of "x + 7"] by (simp add: ALIGN_UP_8_def ALIGN_DOWN_8_def unat_add_small minus_mod_eq_div_mult)
qed

lemma ALIGN_DOWN_fix: "8 dvd unat x \<Longrightarrow> ALIGN_DOWN_8 x = x"
  by (simp add: word_eq_unat ALIGN_unat)

lemma heap_init_inv:
  assumes "base \<noteq> 0" "8 dvd unat base" "32 \<le> unat sz" "unat base + unat sz < 4294967296"
  defines "n \<equiv> unat sz - unat sz mod 8"
  shows "fst (heap_init base sz h) = HEAP_OK \<and> heap_inv (snd (heap_init base sz h)) [(n - 24, False)]"
proof -
  have m: "(7 :: u32) = mask 3" by (simp add: mask_eq_exp_minus_1)
  have g: "base AND 7 = 0" using assms(2) unfolding m and_mask_0_iff by (simp add: dvd_eq_mod_eq_0)
  have n: "8 dvd n" unfolding n_def by (rule dvd_minus_mod)
  have n2: "n \<le> unat sz" by (simp add: n_def)
  have n3: "32 \<le> n" unfolding n_def using assms(3) by presburger
  have u: "unat (ALIGN_DOWN_8 sz) = n" by (simp add: ALIGN_unat n_def)
  have w: "ALIGN_DOWN_8 sz = of_nat n" unfolding u [symmetric] by simp
  have big: "\<not> ALIGN_DOWN_8 sz < 32" using u n3 by (simp add: word_lt_unat)
  have sz24: "of_nat n - 24 = (of_nat (n - 24) :: u32)" using n3 by (simp add: of_nat_diff)
  have P: "placed (unat base) [(n - 24, False)]"
  proof -
    have "0 < unat base" using assms(1) by (simp add: unat_gt_0)
    moreover have "8 dvd n - 24" using n by (rule dvd_diff_nat) simp
    moreover have "unat base + (24 + (n - 24)) < 4294967296" using n2 n3 assms(4) by linarith
    ultimately show ?thesis using assms(2) n3 by (simp add: placed_def)
  qed
  obtain k where k: "n = 24 + k" using n3 le_Suc_ex [of 24 n] by auto
  have ap: "apart (unat base) (unat base)"
    using placed_apart [OF P, of "unat base" "unat base"] by simp
  have L: "lay (init_header base HEAP_STATE_FREE (of_nat k) (h_mem h)) 0 (unat base) [(k, False)] 0"
    using init_header_fields [OF ap, of HEAP_STATE_FREE "of_nat k" "h_mem h"] by (simp add: hdr_def)
  have kk: "n - 24 = k" and sz: "of_nat n - 24 = (of_nat k :: u32)" "0 < k" using n3 by (simp_all add: k)
  have e: "heap_init base sz h = (HEAP_OK,
      h\<lparr>h_base := base, h_size := of_nat n, h_mem := init_header base HEAP_STATE_FREE (of_nat k) (h_mem h),
        h_head := base, h_grow := None, h_total := of_nat n, h_used := 0, h_free := of_nat k, h_largest := of_nat k,
        h_allocs := 0, h_frees := 0, h_fails := 0, h_grows := 0, h_inited := True\<rparr>)"
    unfolding heap_init_def Let_def using g big w sz by simp
  show ?thesis
    unfolding e heap_inv_def heap_core_def kk using P [unfolded kk] L sz(2) by (simp add: k)
qed

section \<open>Taking a block\<close>

definition carve :: "nat \<Rightarrow> nat \<Rightarrow> block list" where
  "carve n t = (if n + 32 \<le> t then [(n, True), (t - n - 24, False)] else [(t, True)])"

lemma span_carve [simp]: "n \<le> t \<Longrightarrow> span (carve n t) = 24 + t"
  by (auto simp: carve_def)

lemma spread_append:
  "spread (xs @ ys) \<longleftrightarrow> spread xs \<and> spread ys \<and> (xs = [] \<or> ys = [] \<or> snd (last xs) \<or> snd (hd ys))"
proof (induction xs)
  case (Cons x xs)
  then show ?case by (cases xs; cases ys) auto
qed simp

lemma spread_carve:
  assumes "spread (pre @ (t, False) # post)"
  shows "spread (pre @ carve n t @ post)"
proof -
  have "post = [] \<or> snd (hd post)" "spread pre" "spread post"
    using assms by (cases post; auto simp: spread_append)+
  then show ?thesis by (cases post) (auto simp: carve_def spread_append)
qed

lemma core_mark:
  assumes "heap_core h (pre @ (s, u) # post)" and A: "A = unat (h_base h) + span pre"
    and "h_used h' = of_nat (usum (pre @ (s, v) # post))" "h_free h' = of_nat (fsum (pre @ (s, v) # post))"
    and "h_mem h' = set_state (h_mem h) (of_nat A) (if v then HEAP_STATE_USED else HEAP_STATE_FREE)"
    and "h_inited h' = h_inited h" "h_base h' = h_base h" "h_head h' = h_head h" "h_size h' = h_size h"
  shows "heap_core h' (pre @ (s, v) # post)"
  using assms lay_mark [of "h_mem h" 0 "unat (h_base h)" pre s u post 0 A v]
  by (auto simp: heap_core_def placed_def)

lemma core_block:
  assumes "heap_core h (pre @ (s, u) # post)" and A: "A = unat (h_base h) + span pre"
  shows "b_magic (h_mem h) (of_nat A) = HEAP_MAGIC"
    "block_state (h_mem h) (of_nat A) = (if u then HEAP_STATE_USED else HEAP_STATE_FREE)"
    "b_size (h_mem h) (of_nat A) = of_nat s"
    "b_next (h_mem h) (of_nat A) = of_nat (first (A + 24 + s) post)"
    "b_prev (h_mem h) (of_nat A) = of_nat (last_addr 0 (unat (h_base h)) pre)"
proof -
  have "hdr (h_mem h) A (s, u) (first (A + 24 + s) post) (last_addr 0 (unat (h_base h)) pre)"
    using assms by (auto simp: heap_core_def lay_append first_def)
  note hdrD [OF this]
  then show "b_magic (h_mem h) (of_nat A) = HEAP_MAGIC"
    "block_state (h_mem h) (of_nat A) = (if u then HEAP_STATE_USED else HEAP_STATE_FREE)"
    "b_size (h_mem h) (of_nat A) = of_nat s"
    "b_next (h_mem h) (of_nat A) = of_nat (first (A + 24 + s) post)"
    "b_prev (h_mem h) (of_nat A) = of_nat (last_addr 0 (unat (h_base h)) pre)" by auto
qed

lemma core_split:
  assumes "heap_core h (pre @ (t, False) # post)" and A: "A = unat (h_base h) + span pre"
    and "0 < n" "8 dvd n" "n + 32 \<le> t"
  shows "heap_core (heap_split h (of_nat A) (of_nat n)) (pre @ (n, False) # (t - n - 24, False) # post)"
proof -
  note b = core_bounds [OF assms(1)]
  have L: "lay (h_mem h) 0 (unat (h_base h)) (pre @ (t, False) # post) 0"
    and P: "placed (unat (h_base h)) (pre @ (t, False) # post)" using assms(1) by (auto simp: heap_core_def)
  have P': "placed (unat (h_base h)) (pre @ (n, False) # (t - n - 24, False) # post)"
    using P assms(3-5) by (auto simp: placed_def intro: dvd_diff_nat)
  have f: "of_nat (fsum (pre @ (t, False) # post)) - 24 = (of_nat (fsum (pre @ (n, False) # (t - n - 24, False) # post)) :: u32)"
    using assms(5) by (simp add: of_nat_diff)
  have "h_inited (heap_split h b k) = h_inited h" "h_base (heap_split h b k) = h_base h"
    "h_head (heap_split h b k) = h_head h" "h_size (heap_split h b k) = h_size h"
    "h_used (heap_split h b k) = h_used h" "h_free (heap_split h b k) = h_free h - 24" for b k
    by (simp_all add: heap_split_def Let_def)
  then show ?thesis using assms(1,5) P' lay_split [OF L P assms(3-5) A] f
    by (simp add: heap_core_def)
qed

lemma heap_take_core:
  assumes "heap_inv h (pre @ (t, False) # post)" and A: "A = unat (h_base h) + span pre"
    and "0 < n" "8 dvd n" "n \<le> t"
  shows "\<exists>h'. heap_take h (of_nat A) (of_nat n) = Some (of_nat (A + 24), h') \<and>
    heap_inv h' (pre @ carve n t @ post) \<and> same_arena h h' \<and> h_ctx h' = h_ctx h \<and>
    h_allocs h' = h_allocs h + 1 \<and> h_fails h' = h_fails h \<and> h_frees h' = h_frees h \<and>
    h_mem h' = set_state (if n + 32 \<le> t then h_mem (heap_split h (of_nat A) (of_nat n)) else h_mem h)
      (of_nat A) HEAP_STATE_USED"
proof -
  have C: "heap_core h (pre @ (t, False) # post)" and S: "spread (pre @ (t, False) # post)"
    using assms(1) by (simp_all add: heap_inv_def)
  note b = core_bounds [OF C] and B = core_block [OF C A]
  have t: "t < 4294967296" using b(3) by simp
  have left: "32 \<le> b_size (h_mem h) (of_nat A) - of_nat n \<longleftrightarrow> n + 32 \<le> t"
  proof -
    have "unat (of_nat t - of_nat n :: u32) = t - n" using t assms(5) by (simp add: unat_sub_le unat_of_nat_small)
    then show ?thesis using B(3) assms(5) by (simp add: word_le_unat) linarith
  qed
  define h1 where h1: "h1 = (if n + 32 \<le> t then heap_split h (of_nat A) (of_nat n) else h)"
  define k where k: "k = (if n + 32 \<le> t then n else t)"
  define rest where rest: "rest = (if n + 32 \<le> t then (t - n - 24, False) # post else post)"
  have C1: "heap_core h1 (pre @ (k, False) # rest)"
    using core_split [OF C A assms(3,4)] C by (auto simp: h1 k rest)
  have bh: "h_base h1 = h_base h" "h_grow h1 = h_grow h" "h_ctx h1 = h_ctx h" "h_allocs h1 = h_allocs h"
    "h_fails h1 = h_fails h" "h_frees h1 = h_frees h" by (simp_all add: h1 heap_split_def Let_def)
  have A1: "A = unat (h_base h1) + span pre" using A bh by simp
  have ap: "apart A A"
    using placed_apart [of "unat (h_base h)" "pre @ (t, False) # post" A A] C A
    by (simp add: heap_core_def addrs_append)
  have sz1: "b_size (set_state (h_mem h1) (of_nat A) HEAP_STATE_USED) (of_nat A) = of_nat k"
    using core_block(3) [OF C1 A1] set_fields(3) [OF ap] by simp
  define h2 where h2: "h2 = h1\<lparr>h_mem := set_state (h_mem h1) (of_nat A) HEAP_STATE_USED,
     h_used := h_used h1 + of_nat k, h_free := h_free h1 - of_nat k, h_allocs := h_allocs h1 + 1\<rparr>"
  have C2: "heap_core h2 (pre @ (k, True) # rest)"
  proof (rule core_mark [OF C1 A1])
    show "h_used h2 = of_nat (usum (pre @ (k, True) # rest))" "h_free h2 = of_nat (fsum (pre @ (k, True) # rest))"
      using C1 by (simp_all add: h2 heap_core_def add.commute add.left_commute)
  qed (simp_all add: h2)
  have cv: "pre @ (k, True) # rest = pre @ carve n t @ post" by (simp add: k rest carve_def)
  have S2: "spread (pre @ carve n t @ post)" by (rule spread_carve [OF S])
  have take: "heap_take h (of_nat A) (of_nat n) = do { l \<leftarrow> heap_largest_free h2; Some (payload_of (of_nat A), h2\<lparr>h_largest := l\<rparr>) }"
    unfolding heap_take_def Let_def left h1 [symmetric] h2 by (simp add: sz1)
  show ?thesis
    unfolding take core_largest [OF C2]
    using core_finish [OF C2] S2 bh cv
    by (auto simp: payload_of_def same_arena_def h2 h1)
qed

section \<open>Releasing and growing\<close>

text \<open>The specification of releasing: adjacent free blocks become one.\<close>

fun coalesce :: "block list \<Rightarrow> block list" where
  "coalesce [] = []"
| "coalesce [b] = [b]"
| "coalesce (b # c # bs) =
     (if \<not> snd b \<and> \<not> snd c then coalesce ((fst b + 24 + fst c, False) # bs) else b # coalesce (c # bs))"

lemma span_coalesce [simp]: "span (coalesce bs) = span bs"
  by (induction bs rule: coalesce.induct) auto

lemma coalesce_spread: "spread bs \<Longrightarrow> coalesce bs = bs"
  by (induction bs rule: coalesce.induct) auto

lemma coalesce_skip: "spread (pre @ [c]) \<Longrightarrow> coalesce (pre @ c # rest) = pre @ coalesce (c # rest)"
proof (induction pre)
  case (Cons b pre)
  then show ?case by (cases pre) auto
qed simp

lemma spread_coalesce: "spread (coalesce bs)"
proof -
  have "spread (coalesce bs) \<and> (bs \<noteq> [] \<longrightarrow> coalesce bs \<noteq> [] \<and> snd (hd (coalesce bs)) = snd (hd bs))"
  proof (induction bs rule: coalesce.induct)
    case (3 b c bs)
    show ?case
    proof (cases "\<not> snd b \<and> \<not> snd c")
      case False
      then show ?thesis using 3 by (cases "coalesce (c # bs)") auto
    qed (use 3 in simp)
  qed auto
  then show ?thesis by simp
qed

lemma core_absorb:
  assumes "heap_core h (pre @ (s, u) # (t, False) # post)"
    and A: "A = unat (h_base h) + span pre" and B: "B = A + 24 + s" and u: "\<not> u"
    and h': "h' = h\<lparr>h_mem := absorb (h_mem h) (of_nat A) (of_nat B), h_free := h_free h + 24\<rparr>"
  shows "heap_core h' (pre @ (s + 24 + t, u) # post) \<and>
    quiet (h_mem h) (h_mem h') (set (addrs (unat (h_base h)) (pre @ (s + 24 + t, u) # post)))"
proof -
  have L: "lay (h_mem h) 0 (unat (h_base h)) (pre @ (s, u) # (t, False) # post) 0"
    and P: "placed (unat (h_base h)) (pre @ (s, u) # (t, False) # post)" using assms(1) by (auto simp: heap_core_def)
  have P': "placed (unat (h_base h)) (pre @ (s + 24 + t, u) # post)"
    using P by (auto simp: placed_def)
  show ?thesis using assms(1) u P' lay_absorb [OF L P A B]
    by (simp add: h' heap_core_def)
qed

text \<open>What the payloads of used blocks are, and that header stores never touch them.\<close>

fun payloads :: "nat \<Rightarrow> block list \<Rightarrow> (nat \<times> nat) list" where
  "payloads a [] = []"
| "payloads a ((s, u) # bs) = (if u then [(a + 24, s)] else []) @ payloads (a + 24 + s) bs"

lemma payloads_append [simp]: "payloads a (xs @ ys) = payloads a xs @ payloads (a + span xs) ys"
  by (induction a xs rule: payloads.induct) (auto simp: ac_simps)

lemma payloads_coalesce [simp]: "payloads a (coalesce bs) = payloads a bs"
proof (induction bs arbitrary: a rule: coalesce.induct)
  case (3 b c bs)
  then show ?case by (cases b; cases c) (auto simp: ac_simps)
qed simp_all

lemma payloads_bounds: "(q, s) \<in> set (payloads a bs) \<Longrightarrow> a + 24 \<le> q \<and> q + s \<le> a + span bs"
  by (induction a bs rule: payloads.induct) (auto split: if_splits)

lemma payloads_clear:
  "(q, s) \<in> set (payloads a bs) \<Longrightarrow> y \<in> set (addrs a bs) \<Longrightarrow> q \<le> x \<Longrightarrow> x < q + s \<Longrightarrow> x < y \<or> y + 24 \<le> x"
proof (induction a bs rule: payloads.induct)
  case (2 a s' u bs)
  then show ?case
    using addrs_bounds [of y "a + 24 + s'" bs] payloads_bounds [of q s "a + 24 + s'" bs]
    by (auto split: if_splits)
qed simp

lemma payloads_disjoint:
  "(q, s) \<in> set (payloads a bs) \<Longrightarrow> (r, t) \<in> set (payloads a bs) \<Longrightarrow>
   (q, s) = (r, t) \<or> q + s \<le> r \<or> r + t \<le> q"
proof (induction a bs rule: payloads.induct)
  case (2 a s' u bs)
  then show ?case
    using payloads_bounds [of q s "a + 24 + s'" bs] payloads_bounds [of r t "a + 24 + s'" bs]
    by (auto split: if_splits)
qed simp

text \<open>The contents of every block used before and after are kept.\<close>

definition keeps_data :: "'g heap_t \<Rightarrow> block list \<Rightarrow> 'g heap_t \<Rightarrow> block list \<Rightarrow> bool" where
  "keeps_data h bs h' bs' \<longleftrightarrow>
     (\<forall>(q, s) \<in> set (payloads (unat (h_base h)) bs) \<inter> set (payloads (unat (h_base h)) bs').
        \<forall>x. q \<le> x \<and> x < q + s \<longrightarrow> h_mem h' (of_nat x) = h_mem h (of_nat x))"

lemma quiet_keeps:
  assumes "quiet (h_mem h) (h_mem h') H"
    and "H \<subseteq> set (addrs (unat (h_base h)) bs) \<union> set (addrs (unat (h_base h)) bs')
      \<union> {y. unat (h_base h) + span bs \<le> y}"
    and "unat (h_base h) + span bs < 4294967296"
  shows "keeps_data h bs h' bs'"
  unfolding keeps_data_def
proof (intro ballI, clarify)
  fix q s x
  assume p: "(q, s) \<in> set (payloads (unat (h_base h)) bs)" "(q, s) \<in> set (payloads (unat (h_base h)) bs')"
    and x: "q \<le> x" "x < q + s"
  have "\<forall>y\<in>H. x < y \<or> y + 24 \<le> x"
    using payloads_clear [OF p(1) _ x] payloads_clear [OF p(2) _ x] payloads_bounds [OF p(1)] x assms(2)
    by fastforce
  moreover have "x < 4294967296" using payloads_bounds [OF p(1)] x assms(3) by linarith
  ultimately show "h_mem h' (of_nat x) = h_mem h (of_nat x)" using assms(1) by (simp add: quiet_def)
qed

lemma addrs_coalesce: "set (addrs a (coalesce bs)) \<subseteq> set (addrs a bs)"
proof (induction bs arbitrary: a rule: coalesce.induct)
  case (3 b c bs)
  show ?case
  proof (cases "\<not> snd b \<and> \<not> snd c")
    case True
    then show ?thesis using "3"(1) [OF True, of a] by (cases b; cases c) (auto simp: ac_simps)
  next
    case False
    then show ?thesis using "3"(2) [OF False, of "a + 24 + fst b"] by (cases b; cases c) auto
  qed
qed simp_all

text \<open>The next and the previous block, as \<open>heap_free\<close> finds them.\<close>

lemma next_block:
  assumes C: "heap_core h (pre @ (s, u) # post)" and A: "A = unat (h_base h) + span pre"
  shows "b_next (h_mem h) (of_nat A) \<noteq> 0 \<and> block_state (h_mem h) (b_next (h_mem h) (of_nat A)) = HEAP_STATE_FREE
      \<longleftrightarrow> post \<noteq> [] \<and> \<not> snd (hd post)"
proof (cases post)
  case Nil
  then show ?thesis using core_block(4) [OF C A] by simp
next
  case (Cons c cs)
  obtain t v where c: "c = (t, v)" by fastforce
  have C': "heap_core h ((pre @ [(s, u)]) @ (t, v) # cs)" using C by (simp add: Cons c)
  have B: "A + 24 + s = unat (h_base h) + span (pre @ [(s, u)])" by (simp add: A)
  have "(of_nat (A + 24 + s) :: u32) \<noteq> 0" using core_bounds(3) [OF C] A by (intro of_nat_nz32) (auto simp: Cons c)
  then show ?thesis using core_block(4) [OF C A] core_block(2) [OF C' B] by (simp add: Cons c)
qed

lemma prev_block:
  assumes C: "heap_core h (pre @ (s, u) # post)" and A: "A = unat (h_base h) + span pre"
  shows "b_prev (h_mem h) (of_nat A) \<noteq> 0 \<and> block_state (h_mem h) (b_prev (h_mem h) (of_nat A)) = HEAP_STATE_FREE
      \<longleftrightarrow> pre \<noteq> [] \<and> \<not> snd (last pre)"
proof (cases pre rule: rev_cases)
  case Nil
  then show ?thesis using core_block(5) [OF C A] by simp
next
  case (snoc xs c)
  obtain t v where c: "c = (t, v)" by fastforce
  have C': "heap_core h (xs @ (t, v) # (s, u) # post)" using C by (simp add: snoc c)
  define K where K: "K = unat (h_base h) + span xs"
  have "b_prev (h_mem h) (of_nat A) = of_nat K" using core_block(5) [OF C A] by (simp add: snoc c K)
  moreover have "(of_nat K :: u32) \<noteq> 0" using core_bounds(1,3) [OF C] by (intro of_nat_nz32) (auto simp: K snoc c)
  ultimately show ?thesis using core_block(2) [OF C' K] by (simp add: snoc c)
qed

definition join_next :: "nat \<Rightarrow> block list \<Rightarrow> nat \<times> block list" where
  "join_next s post = (if post \<noteq> [] \<and> \<not> snd (hd post) then (s + 24 + fst (hd post), tl post) else (s, post))"

definition join_prev :: "block list \<Rightarrow> nat \<Rightarrow> block list \<Rightarrow> block list" where
  "join_prev pre s post =
     (if pre \<noteq> [] \<and> \<not> snd (last pre) then butlast pre @ (fst (last pre) + 24 + s, False) # post
      else pre @ (s, False) # post)"

lemma join_coalesce:
  assumes S: "spread (pre @ (s, True) # post)"
  shows "coalesce (pre @ (s, False) # post) = join_prev pre (fst (join_next s post)) (snd (join_next s post))"
proof -
  have co: "coalesce ((n, False) # post) = (fst (join_next n post), False) # snd (join_next n post)" for n
  proof (cases "post \<noteq> [] \<and> \<not> snd (hd post)")
    case True
    then obtain t cs where post: "post = (t, False) # cs" by (cases post) auto
    have "spread ((n + 24 + t, False) # cs)" using S by (cases cs) (auto simp: post spread_append)
    then show ?thesis by (simp add: post coalesce_spread join_next_def)
  next
    case False
    have "spread post" using S by (cases post) (auto simp: spread_append)
    then have "spread ((n, False) # post)" using False by (cases post) auto
    then show ?thesis using False by (simp add: coalesce_spread join_next_def)
  qed
  show ?thesis
  proof (cases "pre \<noteq> [] \<and> \<not> snd (last pre)")
    case True
    then obtain xs t where pre: "pre = xs @ [(t, False)]" by (cases pre rule: rev_cases) auto
    have "coalesce (pre @ (s, False) # post) = xs @ coalesce ((t + 24 + s, False) # post)"
      using S coalesce_skip [of xs "(t, False)" "(s, False) # post"] by (simp add: pre spread_append)
    then show ?thesis using co [of "t + 24 + s"] by (simp add: pre join_prev_def join_next_def ac_simps)
  next
    case False
    have "spread (pre @ [(s, False)])" using S False by (auto simp: spread_append)
    then show ?thesis using coalesce_skip [of pre "(s, False)" post] co [of s] False by (simp add: join_prev_def)
  qed
qed

text \<open>Each of the two joins preserves the invariant and writes headers only.\<close>

lemma free_merge_next_core:
  assumes C: "heap_core h (pre @ (s, False) # post)" and A: "A = unat (h_base h) + span pre"
    and j: "join_next s post = (s2, post2)"
  shows "heap_core (free_merge_next h (of_nat A)) (pre @ (s2, False) # post2) \<and>
    quiet (h_mem h) (h_mem (free_merge_next h (of_nat A))) (set (addrs (unat (h_base h)) (pre @ (s, False) # post)))"
proof (cases "post \<noteq> [] \<and> \<not> snd (hd post)")
  case True
  then obtain t cs where post: "post = (t, False) # cs" by (cases post) auto
  have e: "free_merge_next h (of_nat A) =
      h\<lparr>h_mem := absorb (h_mem h) (of_nat A) (of_nat (A + 24 + s)), h_free := h_free h + 24\<rparr>"
    using next_block [OF C A] True core_block(4) [OF C A] by (simp add: free_merge_next_def Let_def first_def)
  have "set (addrs (unat (h_base h)) (pre @ (s + 24 + t, False) # cs)) \<subseteq> set (addrs (unat (h_base h)) (pre @ (s, False) # post))"
    by (auto simp: addrs_append post ac_simps)
  then show ?thesis using core_absorb [OF C [unfolded post] A refl _ e] j
    by (auto simp: join_next_def post quiet_def)
next
  case False
  have "free_merge_next h (of_nat A) = h"
    unfolding free_merge_next_def Let_def next_block [OF C A] using False by auto
  then show ?thesis using C j False by (simp add: join_next_def split: if_splits)
qed

lemma free_merge_prev_core:
  assumes C: "heap_core h (pre @ (s, False) # post)" and A: "A = unat (h_base h) + span pre"
  shows "heap_core (free_merge_prev h (of_nat A)) (join_prev pre s post) \<and>
    quiet (h_mem h) (h_mem (free_merge_prev h (of_nat A))) (set (addrs (unat (h_base h)) (pre @ (s, False) # post)))"
proof (cases "pre \<noteq> [] \<and> \<not> snd (last pre)")
  case True
  then obtain xs t where pre: "pre = xs @ [(t, False)]" by (cases pre rule: rev_cases) auto
  define K where K: "K = unat (h_base h) + span xs"
  have AK: "A = K + 24 + t" by (simp add: A K pre)
  have C': "heap_core h (xs @ (t, False) # (s, False) # post)" using C by (simp add: pre)
  have "b_prev (h_mem h) (of_nat A) = of_nat K" using core_block(5) [OF C A] by (simp add: pre K)
  then have e: "free_merge_prev h (of_nat A) =
      h\<lparr>h_mem := absorb (h_mem h) (of_nat K) (of_nat A), h_free := h_free h + 24\<rparr>"
    using prev_block [OF C A] True by (simp add: free_merge_prev_def Let_def)
  have "set (addrs (unat (h_base h)) (xs @ (t + 24 + s, False) # post)) \<subseteq> set (addrs (unat (h_base h)) (pre @ (s, False) # post))"
    by (auto simp: addrs_append pre ac_simps)
  then show ?thesis using core_absorb [OF C' K AK _ e] by (auto simp: join_prev_def pre quiet_def)
next
  case False
  have "free_merge_prev h (of_nat A) = h"
    unfolding free_merge_prev_def Let_def prev_block [OF C A] using False by auto
  then show ?thesis using C False by (auto simp: join_prev_def)
qed

lemma merge_fields [simp]:
  "h_base (free_merge_next h b) = h_base h" "h_base (free_merge_prev h b) = h_base h"
  "h_grow (free_merge_next h b) = h_grow h" "h_grow (free_merge_prev h b) = h_grow h"
  "h_ctx (free_merge_next h b) = h_ctx h" "h_ctx (free_merge_prev h b) = h_ctx h"
  "h_frees (free_merge_next h b) = h_frees h" "h_frees (free_merge_prev h b) = h_frees h"
  "h_allocs (free_merge_next h b) = h_allocs h" "h_allocs (free_merge_prev h b) = h_allocs h"
  "h_fails (free_merge_next h b) = h_fails h" "h_fails (free_merge_prev h b) = h_fails h"
  by (simp_all add: free_merge_next_def free_merge_prev_def Let_def)

text \<open>The guards of \<open>heap_free\<close> at a payload address.\<close>

lemma payload_guards:
  assumes C: "heap_core h (pre @ (s, u) # post)" and A: "A = unat (h_base h) + span pre"
  shows "unat (of_nat (A + 24) :: u32) = A + 24" "(of_nat (A + 24) :: u32) \<noteq> 0"
    "\<not> (of_nat (A + 24) :: u32) < h_base h + 24" "\<not> h_base h + h_size h \<le> of_nat (A + 24)"
    "block_of (of_nat (A + 24)) = of_nat A" "apart A A"
proof -
  note b = core_bounds [OF C]
  show ptr: "unat (of_nat (A + 24) :: u32) = A + 24" using b(3) A by (intro unat_of_nat_small) simp
  show "(of_nat (A + 24) :: u32) \<noteq> 0" using ptr by (metis add_is_0 unat_0 zero_neq_numeral)
  have "unat (h_base h + 24) = unat (h_base h) + 24" using b(3) by (simp add: unat_add_small)
  then show "\<not> (of_nat (A + 24) :: u32) < h_base h + 24" unfolding word_lt_unat ptr by (simp add: A)
  have "unat (h_base h + h_size h) = unat (h_base h) + span (pre @ (s, u) # post)"
    using b(3,5) by (simp add: unat_add_small)
  moreover have "0 < s" using b(4) by simp
  ultimately show "\<not> h_base h + h_size h \<le> of_nat (A + 24)" unfolding word_le_unat ptr by (simp add: A)
  show "block_of (of_nat (A + 24)) = of_nat A" by (simp add: block_of_def)
  show "apart A A"
    using placed_apart [of "unat (h_base h)" "pre @ (s, u) # post" A A] C A by (simp add: heap_core_def addrs_append)
qed

lemma heap_free_used:
  assumes inv: "heap_inv h (pre @ (s, True) # post)" and A: "A = unat (h_base h) + span pre"
  defines "bs \<equiv> coalesce (pre @ (s, False) # post)"
  shows "\<exists>h'. heap_free h (of_nat (A + 24)) = Some (HEAP_OK, h') \<and> heap_inv h' bs \<and>
    same_arena h h' \<and> h_ctx h' = h_ctx h \<and> h_frees h' = h_frees h + 1 \<and> h_allocs h' = h_allocs h \<and>
    h_fails h' = h_fails h \<and> keeps_data h (pre @ (s, True) # post) h' bs"
proof -
  have C: "heap_core h (pre @ (s, True) # post)" and S: "spread (pre @ (s, True) # post)"
    using inv by (simp_all add: heap_inv_def)
  note B = core_block [OF C A] and g = payload_guards [OF C A]
  let ?m = "h_mem h" and ?H = "set (addrs (unat (h_base h)) (pre @ (s, False) # post))"
  define h1 where h1: "h1 = h\<lparr>h_mem := set_state ?m (of_nat A) HEAP_STATE_FREE, h_used := h_used h - of_nat s,
     h_free := h_free h + of_nat s, h_frees := h_frees h + 1\<rparr>"
  obtain s2 post2 where j: "join_next s post = (s2, post2)" by fastforce
  define h2 where h2: "h2 = free_merge_next h1 (of_nat A)"
  define h3 where h3: "h3 = free_merge_prev h2 (of_nat A)"
  have C1: "heap_core h1 (pre @ (s, False) # post)"
    using C by (intro core_mark [OF C A]) (simp_all add: h1 heap_core_def)
  have A1: "A = unat (h_base h1) + span pre" and bs: "bs = join_prev pre s2 post2"
    using A join_coalesce [OF S] j by (simp_all add: h1 bs_def)
  have C2: "heap_core h2 (pre @ (s2, False) # post2)" "quiet (h_mem h1) (h_mem h2) ?H"
    using free_merge_next_core [OF C1 A1 j] by (simp_all add: h2 h1)
  have A2: "A = unat (h_base h2) + span pre" using A1 by (simp add: h2)
  have "set (addrs (unat (h_base h)) (pre @ (s2, False) # post2)) \<subseteq> ?H"
    using j by (cases post) (auto simp: join_next_def addrs_append ac_simps split: if_splits)
  then have C3: "heap_core h3 bs" "quiet (h_mem h2) (h_mem h3) ?H"
    using free_merge_prev_core [OF C2(1) A2] by (auto simp: h3 h2 h1 bs quiet_def)
  have sz: "b_size (set_state ?m (of_nat A) HEAP_STATE_FREE) (of_nat A) = of_nat s"
    using B(3) set_fields(3) [OF g(6)] by simp
  have i: "h_inited h" using C by (simp add: heap_core_def)
  have step: "heap_free h (of_nat (A + 24)) = do { l \<leftarrow> heap_largest_free h3; Some (HEAP_OK, h3\<lparr>h_largest := l\<rparr>) }"
    unfolding heap_free_def g(5) Let_def sz h1 [symmetric] h2 [symmetric] h3 [symmetric]
    using g(2-4) B(1,2) i by simp
  have "A \<in> ?H" by (simp add: addrs_append A)
  then have Q1: "quiet ?m (h_mem h1) ?H" using g(6) by (simp add: h1 quiet_sets apart_def)
  have Q: "quiet ?m (h_mem (h3\<lparr>h_largest := of_nat (lmax bs 0)\<rparr>)) ?H"
    using quiet_trans [OF quiet_trans [OF Q1 C2(2)] C3(2)] by simp
  have "?H \<subseteq> set (addrs (unat (h_base h)) (pre @ (s, True) # post))" by (simp add: addrs_append)
  then have KD: "keeps_data h (pre @ (s, True) # post) (h3\<lparr>h_largest := of_nat (lmax bs 0)\<rparr>) bs"
    using core_bounds(3) [OF C] by (intro quiet_keeps [OF Q]) auto
  have I: "heap_inv (h3\<lparr>h_largest := of_nat (lmax bs 0)\<rparr>) bs"
    using C3(1) spread_coalesce by (intro core_finish) (simp_all add: bs_def)
  show ?thesis
    unfolding step core_largest [OF C3(1)] using I KD by (auto simp: same_arena_def h3 h2 h1)
qed

section \<open>Growing\<close>

lemma quiet_mono: "quiet m m' H \<Longrightarrow> H \<subseteq> H' \<Longrightarrow> quiet m m' H'"
  by (auto simp: quiet_def)

lemma lay_extend:
  assumes L: "lay m 0 a (pre @ [(s, u)]) 0" and P: "placed a (pre @ [(s, u), (n, False)])"
    and A: "A = a + span pre" and E: "E = A + 24 + s"
    and m': "m' = set_next (set_prev (init_header (of_nat E) HEAP_STATE_FREE (of_nat n) m) (of_nat E) (of_nat A)) (of_nat A) (of_nat E)"
  shows "lay m' 0 a (pre @ [(s, u), (n, False)]) 0 \<and> quiet m m' (set (addrs a (pre @ [(s, u), (n, False)])))"
proof -
  let ?X = "set (addrs a (pre @ [(s, u), (n, False)]))"
  have AE: "A \<in> ?X" "E \<in> ?X" by (simp_all add: addrs_append A E)
  note ap = placed_apart [OF P]
  have ne: "A \<noteq> E" by (simp add: E)
  have h: "hdr m A (s, u) 0 (last_addr 0 a pre)" using L by (simp add: lay_append A)
  have pre: "lay m' 0 a pre nx = lay m 0 a pre nx" for nx
  proof (rule lay_hsame)
    fix x assume x: "x \<in> set (addrs a pre)"
    then have "x \<in> ?X" "x \<noteq> A" "x \<noteq> E" using addrs_bounds [OF x] by (auto simp: addrs_append A E)
    then show "hsame m m' x" using ap [OF AE(1)] ap [OF AE(2)] by (simp add: m' hsame_sets)
  qed
  have "hdr m' A (s, u) E (last_addr 0 a pre)" "hdr m' E (n, False) 0 A"
    using hdrD [OF h] ne ap [OF AE(1) AE(1)] ap [OF AE] ap [OF AE(2) AE(1)] ap [OF AE(2) AE(2)]
    by (simp_all add: m' hdr_def set_fields init_header_fields)
  then have "lay m' 0 a (pre @ [(s, u), (n, False)]) 0"
    using L by (simp add: lay_append pre A E)
  moreover have "quiet m m' ?X"
    using AE ap [OF AE(1) AE(1)] ap [OF AE(2) AE(2)] by (simp add: m' quiet_sets apart_def)
  ultimately show ?thesis by simp
qed

lemma heap_extend_inv:
  assumes inv: "heap_inv h bs" and n: "8 dvd n" "8 \<le> n" and fit: "unat (h_base h) + span bs + 24 + n < 4294967296"
  shows "\<exists>h'. heap_extend h (h_base h + h_size h) (of_nat (n + 24)) = Some (HEAP_OK, h') \<and>
    heap_inv h' (coalesce (bs @ [(n, False)])) \<and> same_arena h h' \<and> h_ctx h' = h_ctx h \<and>
    h_allocs h' = h_allocs h \<and> h_frees h' = h_frees h \<and> h_fails h' = h_fails h \<and>
    h_grows h' = h_grows h + 1 \<and> keeps_data h bs h' (coalesce (bs @ [(n, False)]))"
proof -
  have C: "heap_core h bs" and S: "spread bs" using inv by (simp_all add: heap_inv_def)
  then obtain pre s u where bs: "bs = pre @ [(s, u)]"
    by (cases bs rule: rev_cases) (auto simp: heap_core_def)
  note b = core_bounds [OF C]
  let ?a = "unat (h_base h)" and ?bs = "pre @ [(s, u), (n, False)]"
  define A where A: "A = ?a + span pre"
  define E where E: "E = A + 24 + s"
  have L: "lay (h_mem h) 0 ?a (pre @ [(s, u)]) 0" and P0: "placed ?a bs" and hd: "h_head h = h_base h"
    and i: "h_inited h" using C by (auto simp: heap_core_def bs)
  have P: "placed ?a ?bs" using P0 n fit by (auto simp: placed_def bs)
  have tail: "tail_walk (h_mem h) (h_head h) = Some (of_nat A)"
    using tail_walk_lay [OF L] P0 by (simp add: bs hd A)
  have n32: "n + 24 < 4294967296" using fit by simp
  have un: "unat (of_nat (n + 24) :: u32) = n + 24" using n32 by (intro unat_of_nat_small) simp
  have al: "ALIGN_DOWN_8 (of_nat (n + 24)) = of_nat (n + 24)" using n(1) by (intro ALIGN_DOWN_fix) (simp add: un del: of_nat_add)
  have big: "\<not> (of_nat (n + 24) :: u32) < 32" using n(2) by (simp add: word_lt_unat un del: of_nat_add)
  have end_: "h_base h + h_size h = of_nat E" using C by (simp add: heap_core_def bs A E)
  have sz: "of_nat (n + 24) - 24 = (of_nat n :: u32)" by simp
  define m where m: "m = set_next (set_prev (init_header (of_nat E) HEAP_STATE_FREE (of_nat n) (h_mem h)) (of_nat E) (of_nat A)) (of_nat A) (of_nat E)"
  define h1 where h1: "h1 = h\<lparr>h_mem := m, h_size := h_size h + of_nat (n + 24), h_total := h_total h + of_nat (n + 24),
     h_free := h_free h + of_nat n, h_grows := h_grows h + 1\<rparr>"
  have LE: "lay m 0 ?a ?bs 0" "quiet (h_mem h) m (set (addrs ?a ?bs))"
    using lay_extend [OF L P A E m] by simp_all
  have C1: "heap_core h1 ?bs" using C P LE(1) by (simp add: h1 heap_core_def bs add.assoc)
  have A1: "A = unat (h_base h1) + span pre" by (simp add: A h1)
  have apE: "apart A E" "apart E E" using placed_apart [OF P] by (simp_all add: addrs_append A E)
  note B = core_block [OF C1 A1]
  have C1': "heap_core h1 ((pre @ [(s, u)]) @ (n, False) # [])" using C1 by simp
  have E1: "E = unat (h_base h1) + span (pre @ [(s, u)])" by (simp add: A1 E)
  note BE = core_block [OF C1' E1]
  define h2 where h2: "h2 = (if u then h1 else h1\<lparr>h_mem := absorb m (of_nat A) (of_nat E), h_free := h_free h1 + 24\<rparr>)"
  have m1: "h_mem h1 = m" by (simp add: h1)
  have ab: "absorb m (of_nat A) (of_nat E) =
      set_next (set_size m (of_nat A) (b_size m (of_nat A) + (24 + b_size m (of_nat E)))) (of_nat A) 0"
    using BE(4) apE by (simp add: absorb_def Let_def set_fields [OF apE(1)] m1)
  have co: "coalesce (bs @ [(n, False)]) = (if u then ?bs else pre @ [(s + 24 + n, False)])"
    using coalesce_skip [of pre "(s, u)" "[(n, False)]"] S by (simp add: bs)
  have C2: "heap_core h2 (coalesce (bs @ [(n, False)])) \<and>
      quiet m (h_mem h2) (set (addrs ?a (coalesce (bs @ [(n, False)]))))"
  proof (cases u)
    case True
    then show ?thesis using C1 co by (simp add: h2 m1)
  next
    case False
    show ?thesis using core_absorb [of h1 pre s u n "[]", OF C1 A1 E False, of h2] False co
      by (simp add: h2 m1) (simp add: h1)
  qed
  have st: "block_state m (of_nat A) = HEAP_STATE_FREE \<longleftrightarrow> \<not> u" using B(2) by (simp add: m1)
  have ext: "heap_extend h (h_base h + h_size h) (of_nat (n + 24)) =
      do { l \<leftarrow> heap_largest_free h2; Some (HEAP_OK, h2\<lparr>h_largest := l\<rparr>) }"
  proof (cases u)
    case True
    then show ?thesis
      unfolding heap_extend_def Let_def al sz using big tail st
      by (simp add: end_ m [symmetric] h2 h1 del: of_nat_add)
  next
    case False
    then show ?thesis
      unfolding heap_extend_def Let_def al sz using big tail st
      by (simp add: end_ m [symmetric] h2 h1 ab del: of_nat_add)
  qed
  have Q: "quiet (h_mem h) (h_mem (h2\<lparr>h_largest := l\<rparr>)) (set (addrs ?a ?bs))" for l
    using quiet_trans [OF LE(2), of "h_mem h2"] quiet_mono [OF conjunct2 [OF C2]] addrs_coalesce [of ?a ?bs]
    by (simp add: bs)
  have "keeps_data h bs (h2\<lparr>h_largest := l\<rparr>) (coalesce (bs @ [(n, False)]))" for l
    using b(3) by (intro quiet_keeps [OF Q]) (auto simp: addrs_append bs)
  then show ?thesis
    unfolding ext core_largest [OF conjunct1 [OF C2]]
    using core_finish [OF conjunct1 [OF C2] spread_coalesce]
    by (auto simp: same_arena_def h2 h1)
qed

text \<open>
  The contract of the growth callback (heap.h): it returns 0, or the address of a region of at
  least the requested size, which therefore does not run past the end of the address space.
\<close>

definition grow_ok :: "'g heap_t \<Rightarrow> bool" where
  "grow_ok h \<longleftrightarrow>
     (case h_grow h of None \<Rightarrow> True
      | Some f \<Rightarrow> (\<forall>c n. fst (f c n) = 0 \<or> unat (fst (f c n)) + unat n < 4294967296))"

lemma heap_inv_ctx: "heap_inv (h\<lparr>h_ctx := c\<rparr>) bs = heap_inv h bs"
  by (simp add: heap_inv_def heap_core_def)

lemma heap_extend_refuses:
  "unat n < 32 \<or> base \<noteq> h_base h + h_size h \<Longrightarrow> heap_extend h base n = Some (HEAP_ERR_BAD_ARGS, h)"
  using ALIGN_unat(1) [of n] by (auto simp: heap_extend_def Let_def word_lt_unat)

lemma heap_try_grow_spec:
  assumes inv: "heap_inv h bs" and g: "grow_ok h" and n: "8 dvd n" "8 \<le> n" "n < 4294967296"
  shows "\<exists>grown h'. heap_try_grow h (of_nat n) = Some (grown, h') \<and> same_arena h h' \<and>
    h_allocs h' = h_allocs h \<and> h_frees h' = h_frees h \<and> h_fails h' = h_fails h \<and>
    (if grown then heap_inv h' (coalesce (bs @ [(n, False)])) \<and> keeps_data h bs h' (coalesce (bs @ [(n, False)]))
     else heap_inv h' bs \<and> h_mem h' = h_mem h)"
proof (cases "h_grow h")
  case None
  then show ?thesis using inv by (auto simp: heap_try_grow_def same_arena_def)
next
  case (Some f)
  obtain got c where f: "f (h_ctx h) (of_nat n + 24) = (got, c)" by fastforce
  let ?h = "h\<lparr>h_ctx := c\<rparr>"
  have C: "heap_core h bs" using inv by (simp add: heap_inv_def)
  have fail: ?thesis if "heap_try_grow h (of_nat n) = Some (False, ?h)"
    using that inv by (auto simp: same_arena_def heap_inv_ctx)
  show ?thesis
  proof (cases "got = 0 \<or> 4294967296 \<le> n + 24 \<or> got \<noteq> h_base h + h_size h")
    case True
    have "heap_try_grow h (of_nat n) = Some (False, ?h)"
    proof (cases "got = 0")
      case False
      have "heap_extend ?h got (of_nat n + 24) = Some (HEAP_ERR_BAD_ARGS, ?h)"
      proof (cases "4294967296 \<le> n + 24")
        case True
        have "unat (of_nat n + 24 :: u32) < 32"
        proof -
          have "unat (of_nat n :: u32) = n" using n(3) by (intro unat_of_nat_small) simp
          then have "unat (of_nat n + 24 :: u32) = (n + 24) mod 4294967296" by (simp add: unat_word_ariths)
          also have "\<dots> = n + 24 - 4294967296" using True n(3) by (subst le_mod_geq) simp_all
          finally show ?thesis using n(3) by simp
        qed
        then show ?thesis by (intro heap_extend_refuses) simp
      next
        case ok: False
        then show ?thesis using True False by (intro heap_extend_refuses) simp
      qed
      then show ?thesis using Some f False by (simp add: heap_try_grow_def Let_def)
    qed (simp add: heap_try_grow_def Some f)
    then show ?thesis by (rule fail)
  next
    case False
    have u: "unat (of_nat n + 24 :: u32) = n + 24"
    proof -
      have "unat (of_nat n :: u32) = n" using n(3) by (intro unat_of_nat_small) simp
      then show ?thesis using False by (simp add: unat_add_small)
    qed
    have end_: "unat (h_base h + h_size h) = unat (h_base h) + span bs"
      using core_bounds(3,5) [OF C] by (simp add: unat_add_small)
    have "unat got + (n + 24) < 4294967296"
    proof -
      have "fst (f (h_ctx h) (of_nat n + 24)) = 0 \<or>
          unat (fst (f (h_ctx h) (of_nat n + 24))) + unat (of_nat n + 24 :: u32) < 4294967296"
        using g unfolding grow_ok_def Some option.case by blast
      moreover have "got \<noteq> 0" using False by blast
      ultimately show ?thesis unfolding f u fst_conv by blast
    qed
    then have fit: "unat (h_base ?h) + span bs + 24 + n < 4294967296" using False end_ by simp
    have "heap_inv ?h bs" using inv by (simp add: heap_inv_ctx)
    then obtain h' where h': "heap_extend ?h (h_base ?h + h_size ?h) (of_nat (n + 24)) = Some (HEAP_OK, h')"
      "heap_inv h' (coalesce (bs @ [(n, False)]))" "same_arena ?h h'" "h_allocs h' = h_allocs h" "h_frees h' = h_frees h"
      "h_fails h' = h_fails h" "keeps_data ?h bs h' (coalesce (bs @ [(n, False)]))"
      using heap_extend_inv [OF _ n(1,2) fit] by auto
    have "h_base h + h_size h \<noteq> 0" using False by metis
    then have "heap_try_grow h (of_nat n) = Some (True, h')"
      using Some f False h'(1) by (simp add: heap_try_grow_def Let_def)
    then show ?thesis using h'(2-) by (auto simp: same_arena_def keeps_data_def)
  qed
qed

section \<open>Allocation\<close>

lemma first_fit_split:
  assumes "\<exists>b\<in>set bs. fits n b"
  obtains pre t post where "bs = pre @ (t, False) # post" "n \<le> t" "\<forall>b\<in>set pre. \<not> fits n b"
    "pre = takeWhile (\<lambda>b. \<not> fits n b) bs"
proof -
  let ?P = "\<lambda>b. \<not> fits n b"
  have ne: "dropWhile ?P bs \<noteq> []" using assms by (auto simp: dropWhile_eq_Nil_conv)
  then obtain b post where d: "dropWhile ?P bs = b # post" by (cases "dropWhile ?P bs") auto
  then have "fits n b" using hd_dropWhile [OF ne] by simp
  then obtain t where b: "b = (t, False)" "n \<le> t" by (cases b) (auto simp: fits_def)
  have "bs = takeWhile ?P bs @ (t, False) # post" using takeWhile_dropWhile_id [of ?P bs] d b by simp
  moreover have "\<forall>b\<in>set (takeWhile ?P bs). \<not> fits n b" by (auto dest: set_takeWhileD)
  ultimately show ?thesis using that b(2) by blast
qed

text \<open>What a successful allocation of \<open>n\<close> bytes does to the block list \<open>bs0\<close>.\<close>

definition allocated :: "'g heap_t \<Rightarrow> block list \<Rightarrow> block list \<Rightarrow> nat \<Rightarrow> u32 \<Rightarrow> 'g heap_t \<Rightarrow> bool" where
  "allocated h bs bs0 n p h' \<longleftrightarrow>
     (\<exists>pre t post. bs0 = pre @ (t, False) # post \<and> n \<le> t \<and> (\<forall>b\<in>set pre. \<not> fits n b) \<and>
        p = of_nat (unat (h_base h) + span pre + 24) \<and> p \<noteq> 0 \<and>
        heap_inv h' (pre @ carve n t @ post) \<and> same_arena h h' \<and>
        h_allocs h' = h_allocs h + 1 \<and> h_fails h' = h_fails h \<and> h_frees h' = h_frees h \<and>
        keeps_data h bs h' (pre @ carve n t @ post))"

lemma alloc_loop_fit:
  assumes inv: "heap_inv h bs" and n: "8 dvd n" "8 \<le> n" "n < 4294967296" and fit: "\<exists>b\<in>set bs. fits n b"
  shows "\<exists>p h'. alloc_loop h (of_nat n) = Some (p, h') \<and> allocated h bs bs n p h'"
proof -
  obtain pre t post where bs: "bs = pre @ (t, False) # post" and t: "n \<le> t"
    and pre: "\<forall>b\<in>set pre. \<not> fits n b" and tw: "pre = takeWhile (\<lambda>b. \<not> fits n b) bs"
    using first_fit_split [OF fit] .
  have C: "heap_core h bs" using inv by (simp add: heap_inv_def)
  define A where A: "A = unat (h_base h) + span pre"
  have "fit_walk (h_mem h) (of_nat (first (unat (h_base h)) bs)) (of_nat n) = Some (of_nat A)"
    using C fit_walk_lay [of "h_mem h" 0 "unat (h_base h)" bs n] n(3) fit unfolding A tw
    by (simp add: heap_core_def)
  then have w: "fit_walk (h_mem h) (h_head h) (of_nat n) = Some (of_nat A)"
    using C by (simp add: heap_core_def first_def)
  have "0 < A" "A < 4294967296" using core_bounds(1,3) [OF C] by (simp_all add: A bs)
  then have g: "(of_nat (A + 24) :: u32) \<noteq> 0" "(of_nat A :: u32) \<noteq> 0"
    using payload_guards(2) [OF C [unfolded bs] A] by (simp_all only: of_nat_nz32 not_False_eq_True)
  have n0: "0 < n" using n(2) by simp
  obtain h' where h': "heap_take h (of_nat A) (of_nat n) = Some (of_nat (A + 24), h')"
    "heap_inv h' (pre @ carve n t @ post)" "same_arena h h'" "h_allocs h' = h_allocs h + 1" "h_fails h' = h_fails h"
    "h_frees h' = h_frees h"
    "h_mem h' = set_state (if n + 32 \<le> t then h_mem (heap_split h (of_nat A) (of_nat n)) else h_mem h)
      (of_nat A) HEAP_STATE_USED"
    using heap_take_core [OF inv [unfolded bs] A n0 n(1) t] by blast
  have L: "lay (h_mem h) 0 (unat (h_base h)) (pre @ (t, False) # post) 0"
    and P: "placed (unat (h_base h)) (pre @ (t, False) # post)" using C by (auto simp: heap_core_def bs)
  let ?H = "set (addrs (unat (h_base h)) (pre @ carve n t @ post))"
  have "quiet (h_mem h) (if n + 32 \<le> t then h_mem (heap_split h (of_nat A) (of_nat n)) else h_mem h) ?H"
  proof (cases "n + 32 \<le> t")
    case True
    then have "?H = set (addrs (unat (h_base h)) (pre @ (n, False) # (t - n - 24, False) # post))"
      by (simp add: addrs_append carve_def)
    then show ?thesis using lay_split [OF L P n0 n(1) True A] True by simp
  qed simp
  moreover have "A \<in> ?H" by (simp add: addrs_append A carve_def)
  moreover have "A + 24 < 4294967296" using core_bounds(3) [OF C] by (auto simp: A bs)
  ultimately have "quiet (h_mem h) (h_mem h') ?H" by (simp add: h'(7) quiet_sets)
  then have K: "keeps_data h bs h' (pre @ carve n t @ post)"
    using core_bounds(3) [OF C] by (intro quiet_keeps) auto
  have "alloc_loop h (of_nat n) = Some (of_nat (A + 24), h')"
    using w g(2) h'(1) by (subst alloc_loop.simps) simp
  then show ?thesis using h'(2-6) bs t pre K g(1) unfolding allocated_def A by blast
qed

lemma keeps_data_grow:
  assumes "keeps_data h bs h1 (coalesce (bs @ [(n, False)]))" "h_base h1 = h_base h"
    and "keeps_data h1 (coalesce (bs @ [(n, False)])) h2 bs2"
  shows "keeps_data h bs h2 bs2"
  using assms by (fastforce simp: keeps_data_def)

lemma coalesce_fits: "\<exists>b\<in>set (coalesce (bs @ [(n, False)])). fits n b"
proof -
  have "\<exists>b\<in>set (coalesce bs). fits n b" if "\<exists>b\<in>set bs. fits n b" for bs
    using that
  proof (induction bs rule: coalesce.induct)
    case (3 b c bs)
    then show ?case by (cases "\<not> snd b \<and> \<not> snd c") (auto simp: fits_def)
  qed auto
  then show ?thesis by (auto simp: fits_def)
qed

lemma alloc_loop_spec:
  assumes inv: "heap_inv h bs" and g: "grow_ok h" and n: "8 dvd n" "8 \<le> n" "n < 4294967296"
  shows "\<exists>p h'. alloc_loop h (of_nat n) = Some (p, h') \<and>
    (if \<exists>b\<in>set bs. fits n b then allocated h bs bs n p h'
     else allocated h bs (coalesce (bs @ [(n, False)])) n p h' \<or>
       p = 0 \<and> heap_inv h' bs \<and> same_arena h h' \<and> h_mem h' = h_mem h \<and> h_fails h' = h_fails h + 1)"
proof (cases "\<exists>b\<in>set bs. fits n b")
  case True
  then show ?thesis using alloc_loop_fit [OF inv n True] by auto
next
  case False
  have C: "heap_core h bs" using inv by (simp add: heap_inv_def)
  have "fit_walk (h_mem h) (of_nat (first (unat (h_base h)) bs)) (of_nat n) = Some 0"
    using C fit_walk_lay [of "h_mem h" 0 "unat (h_base h)" bs n] n(3) False by (simp add: heap_core_def)
  then have w: "fit_walk (h_mem h) (h_head h) (of_nat n) = Some 0"
    using C by (simp add: heap_core_def first_def)
  obtain grown h1 where h1: "heap_try_grow h (of_nat n) = Some (grown, h1)" "same_arena h h1"
    "h_allocs h1 = h_allocs h" "h_frees h1 = h_frees h" "h_fails h1 = h_fails h"
    "if grown then heap_inv h1 (coalesce (bs @ [(n, False)])) \<and> keeps_data h bs h1 (coalesce (bs @ [(n, False)]))
     else heap_inv h1 bs \<and> h_mem h1 = h_mem h"
    using heap_try_grow_spec [OF inv g n] by blast
  show ?thesis
  proof (cases grown)
    case True
    then obtain p h' where p: "alloc_loop h1 (of_nat n) = Some (p, h')"
      "allocated h1 (coalesce (bs @ [(n, False)])) (coalesce (bs @ [(n, False)])) n p h'"
      using alloc_loop_fit [OF _ n coalesce_fits, of h1 bs] h1(6) by auto
    have "alloc_loop h (of_nat n) = Some (p, h')"
      using w h1(1) True p(1) by (subst alloc_loop.simps) simp
    moreover have "allocated h bs (coalesce (bs @ [(n, False)])) n p h'"
      using p(2) h1(2-6) True keeps_data_grow [of h bs h1 n h']
      unfolding allocated_def same_arena_def by fastforce
    ultimately show ?thesis using False by auto
  next
    case fail: False
    have "alloc_loop h (of_nat n) = Some (0, h1\<lparr>h_fails := h_fails h1 + 1\<rparr>)"
      using w h1(1) fail by (subst alloc_loop.simps) simp
    moreover have "heap_inv (h1\<lparr>h_fails := h_fails h1 + 1\<rparr>) bs"
      using h1(6) fail by (auto simp: heap_inv_def heap_core_def)
    ultimately show ?thesis using False h1 fail by (auto simp: same_arena_def)
  qed
qed

section \<open>Properties of the heap\<close>

text \<open>The size a request is rounded to; the code's own rounding wraps for the last seven sizes.\<close>

definition request :: "u32 \<Rightarrow> nat" where
  "request sz = max 8 ((unat sz + 7) div 8 * 8)"

lemma request_facts:
  assumes "unat sz + 7 < 4294967296"
  shows "8 dvd request sz" "8 \<le> request sz" "request sz < 4294967296" "unat sz \<le> request sz"
    "(if ALIGN_UP_8 sz = 0 then HEAP_ALIGN else ALIGN_UP_8 sz) = of_nat (request sz)"
proof -
  let ?r = "(unat sz + 7) div 8 * 8"
  show "8 dvd request sz" "8 \<le> request sz" by (simp_all add: request_def max_def)
  show "request sz < 4294967296" "unat sz \<le> request sz" using assms by (simp_all add: request_def)
  have u: "unat (ALIGN_UP_8 sz) = ?r" using assms by (rule ALIGN_unat(2))
  have w: "ALIGN_UP_8 sz = of_nat ?r" unfolding u [symmetric] by simp
  show "(if ALIGN_UP_8 sz = 0 then HEAP_ALIGN else ALIGN_UP_8 sz) = of_nat (request sz)"
  proof (cases "?r = 0")
    case True
    then show ?thesis using w by (simp add: request_def)
  next
    case False
    then have "8 \<le> ?r" by presburger
    moreover have "ALIGN_UP_8 sz \<noteq> 0" using u False by auto
    ultimately show ?thesis using w by (simp add: request_def max_def)
  qed
qed

lemma heap_alloc_eq:
  assumes "h_inited h" "unat sz + 7 < 4294967296"
  shows "heap_alloc h sz = alloc_loop h (of_nat (request sz))"
  using assms request_facts(5) [OF assms(2)] by (simp add: heap_alloc_def Let_def)

lemma heap_alloc_spec:
  assumes "heap_inv h bs" "grow_ok h" "unat sz + 7 < 4294967296"
  shows "\<exists>p h'. heap_alloc h sz = Some (p, h') \<and>
    (if \<exists>b\<in>set bs. fits (request sz) b then allocated h bs bs (request sz) p h'
     else allocated h bs (coalesce (bs @ [(request sz, False)])) (request sz) p h' \<or>
       p = 0 \<and> heap_inv h' bs \<and> same_arena h h' \<and> h_mem h' = h_mem h \<and> h_fails h' = h_fails h + 1)"
proof -
  have "h_inited h" using assms(1) by (simp add: heap_inv_def heap_core_def)
  then show ?thesis
    unfolding heap_alloc_eq [OF \<open>h_inited h\<close> assms(3)]
    by (intro alloc_loop_spec [OF assms(1,2) request_facts(1-3) [OF assms(3)]])
qed

text \<open>
  C16. Allocation always returns.  When a free block of the rounded size exists, the first one
  in address order is taken, split when at least 32 bytes remain, and its payload address is returned;
  otherwise the heap is extended by exactly the missing block if the growth callback delivers
  adjacent memory; otherwise NULL is returned, the failure is counted and the memory is
  untouched.  In every case the list invariant holds again and the contents of all used blocks are kept.
\<close>

theorem heap_alloc_first_fit:
  assumes "heap_inv h bs" "grow_ok h" "unat sz + 7 < 2 ^ 32"
  shows "\<exists>p h'. heap_alloc h sz = Some (p, h') \<and>
    (if \<exists>b\<in>set bs. fits (request sz) b then allocated h bs bs (request sz) p h'
     else allocated h bs (coalesce (bs @ [(request sz, False)])) (request sz) p h' \<or>
       p = 0 \<and> heap_inv h' bs \<and> same_arena h h' \<and> h_mem h' = h_mem h \<and> h_fails h' = h_fails h + 1)"
  using heap_alloc_spec [of h bs sz] assms by simp

definition blank_heap :: "unit heap_t" where
  "blank_heap = \<lparr>h_base = 0, h_size = 0, h_head = 0, h_grow = None, h_ctx = (), h_total = 0, h_used = 0,
     h_free = 0, h_largest = 0, h_allocs = 0, h_frees = 0, h_fails = 0, h_grows = 0, h_inited = False,
     h_mem = (\<lambda>_. 0)\<rparr>"

definition heap4k :: "unit heap_t" where
  "heap4k = snd (heap_init 0x1000 4096 blank_heap)"

lemma heap4k_inv: "heap_inv heap4k [(4072, False)]" and heap4k_init: "fst (heap_init 0x1000 4096 blank_heap) = HEAP_OK"
proof -
  have u: "unat (0x1000 :: u32) = 4096" "unat (4096 :: u32) = 4096" by simp_all
  have "fst (heap_init 0x1000 4096 blank_heap) = HEAP_OK \<and>
      heap_inv (snd (heap_init 0x1000 4096 blank_heap)) [(unat (4096 :: u32) - unat (4096 :: u32) mod 8 - 24, False)]"
    by (rule heap_init_inv) simp_all
  then show "heap_inv heap4k [(4072, False)]" "fst (heap_init 0x1000 4096 blank_heap) = HEAP_OK"
    by (simp_all add: heap4k_def)
qed

lemma heap4k_fields: "h_base heap4k = 0x1000" "h_grow heap4k = None" "h_size heap4k = 4096"
proof -
  have "h_base (snd (heap_init b z h)) = b \<and> h_grow (snd (heap_init b z h)) = None" if "fst (heap_init b z h) = HEAP_OK"
    for b z and h :: "unit heap_t"
    using that by (auto simp: heap_init_def Let_def split: if_splits)
  from this [OF heap4k_init] show "h_base heap4k = 0x1000" "h_grow heap4k = None" by (simp_all add: heap4k_def)
  show "h_size heap4k = 4096" using heap4k_inv by (simp add: heap_inv_def heap_core_def)
qed

lemma heap_alloc_first_fit_witness:
  "\<exists>h'. heap_alloc heap4k 100 = Some (0x1018, h') \<and> heap_inv h' [(104, True), (3944, False)]"
proof -
  have r: "request 100 = 104" by (simp add: request_def)
  have g: "grow_ok heap4k" by (simp add: grow_ok_def heap4k_fields)
  obtain p h' where "heap_alloc heap4k 100 = Some (p, h')" "allocated heap4k [(4072, False)] [(4072, False)] 104 p h'"
    using heap_alloc_first_fit [OF heap4k_inv g, of 100] by (auto simp: r fits_def)
  then show ?thesis by (auto simp: allocated_def Cons_eq_append_conv carve_def heap4k_fields)
qed

section \<open>Freeing\<close>

lemma heap_free_free_block:
  assumes inv: "heap_inv h (pre @ (s, False) # post)" and A: "A = unat (h_base h) + span pre"
  shows "heap_free h (of_nat (A + 24)) = Some (HEAP_ERR_DOUBLE_FREE, h)"
proof -
  have C: "heap_core h (pre @ (s, False) # post)" using inv by (simp add: heap_inv_def)
  have "h_inited h" using C by (simp add: heap_core_def)
  then show ?thesis using core_block(1,2) [OF C A] payload_guards(2-5) [OF C A]
    by (simp add: heap_free_def Let_def del: of_nat_add)
qed

lemma heap_free_error_keeps: "heap_free h p = Some (e, h') \<Longrightarrow> e \<noteq> HEAP_OK \<Longrightarrow> h' = h"
  by (auto simp: heap_free_def Let_def bind_eq_Some_conv split: if_splits)

text \<open>
  C17. Freeing classifies its argument exactly: the payload of a used block is released, its
  block joined with the free neighbours on both sides, and the contents of all other used blocks kept; the payload
  of a free block is a double free; NULL and addresses outside the arena are bad pointers.
  Every error leaves the whole state as it was, and the operation always returns on these
  arguments.
\<close>

theorem heap_free_classifies:
  assumes "heap_inv h bs"
  shows "(\<forall>pre s post. bs = pre @ (s, True) # post \<longrightarrow>
      (\<exists>h'. heap_free h (of_nat (unat (h_base h) + span pre + 24)) = Some (HEAP_OK, h') \<and>
        heap_inv h' (coalesce (pre @ (s, False) # post)) \<and> h_frees h' = h_frees h + 1 \<and>
        keeps_data h bs h' (coalesce (pre @ (s, False) # post)))) \<and>
    (\<forall>pre s post. bs = pre @ (s, False) # post \<longrightarrow>
      heap_free h (of_nat (unat (h_base h) + span pre + 24)) = Some (HEAP_ERR_DOUBLE_FREE, h)) \<and>
    (\<forall>p :: u32. p = 0 \<or> unat p < unat (h_base h) + 24 \<or> unat (h_base h) + span bs \<le> unat p \<longrightarrow>
      heap_free h p = Some (HEAP_ERR_BAD_POINTER, h)) \<and>
    (\<forall>p e h'. heap_free h p = Some (e, h') \<and> e \<noteq> HEAP_OK \<longrightarrow> h' = h)"
proof (intro conjI allI impI)
  fix pre s post assume bs: "bs = pre @ (s, True) # post"
  show "\<exists>h'. heap_free h (of_nat (unat (h_base h) + span pre + 24)) = Some (HEAP_OK, h') \<and>
        heap_inv h' (coalesce (pre @ (s, False) # post)) \<and> h_frees h' = h_frees h + 1 \<and>
        keeps_data h bs h' (coalesce (pre @ (s, False) # post))"
    using heap_free_used [OF assms [unfolded bs] refl] unfolding bs by blast
next
  fix pre s post assume bs: "bs = pre @ (s, False) # post"
  show "heap_free h (of_nat (unat (h_base h) + span pre + 24)) = Some (HEAP_ERR_DOUBLE_FREE, h)"
    using heap_free_free_block [OF assms [unfolded bs] refl] .
next
  fix p :: u32 assume p: "p = 0 \<or> unat p < unat (h_base h) + 24 \<or> unat (h_base h) + span bs \<le> unat p"
  have C: "heap_core h bs" using assms by (simp add: heap_inv_def)
  note b = core_bounds [OF C]
  have "bs \<noteq> []" "h_inited h" using C by (simp_all add: heap_core_def)
  then have "24 \<le> span bs" by (cases bs rule: span.cases) auto
  then have "unat (h_base h + 24) = unat (h_base h) + 24" "unat (h_base h + h_size h) = unat (h_base h) + span bs"
    using b(3,5) by (simp_all add: unat_add_small)
  then show "heap_free h p = Some (HEAP_ERR_BAD_POINTER, h)"
    using p \<open>h_inited h\<close> by (auto simp: heap_free_def word_lt_unat word_le_unat)
next
  fix p e h' assume "heap_free h p = Some (e, h') \<and> e \<noteq> HEAP_OK"
  then show "h' = h" using heap_free_error_keeps by blast
qed

lemma heap_free_classifies_witness:
  "heap_free heap4k 0x1018 = Some (HEAP_ERR_DOUBLE_FREE, heap4k)"
  using heap_free_classifies [OF heap4k_inv, THEN conjunct2, THEN conjunct1, rule_format, of "[]" 4072 "[]"]
  by (simp add: heap4k_fields)

text \<open>
  Allocate and free cancel: freeing what an allocation without growth just returned succeeds and
  restores the very same block list, so no fragmentation is left behind.
\<close>

theorem heap_alloc_free_roundtrip:
  assumes "heap_inv h bs" "grow_ok h" "unat sz + 7 < 2 ^ 32" "\<exists>b\<in>set bs. fits (request sz) b"
  shows "\<exists>p h1 h2. heap_alloc h sz = Some (p, h1) \<and> heap_free h1 p = Some (HEAP_OK, h2) \<and>
    heap_inv h2 bs \<and> h_used h2 = h_used h \<and> h_free h2 = h_free h \<and> h_largest h2 = h_largest h"
proof -
  have sz: "unat sz + 7 < 4294967296" using assms(3) by simp
  let ?n = "request sz"
  have S: "spread bs" using assms(1) by (simp add: heap_inv_def)
  obtain p h1 where a: "heap_alloc h sz = Some (p, h1)" "allocated h bs bs ?n p h1"
    using heap_alloc_spec [OF assms(1,2) sz] assms(4) by auto
  then obtain pre t post where bs: "bs = pre @ (t, False) # post" "?n \<le> t"
    and p: "p = of_nat (unat (h_base h) + span pre + 24)"
    and i: "heap_inv h1 (pre @ carve ?n t @ post)" "h_base h1 = h_base h"
    unfolding allocated_def same_arena_def by blast
  define k where "k = (if ?n + 32 \<le> t then ?n else t)"
  define rest where "rest = (if ?n + 32 \<le> t then (t - ?n - 24, False) # post else post)"
  have c: "pre @ carve ?n t @ post = pre @ (k, True) # rest" by (simp add: carve_def k_def rest_def)
  have "spread (pre @ [(k, False)])" using S by (auto simp: bs spread_append)
  then have "coalesce (pre @ (k, False) # rest) = pre @ coalesce ((k, False) # rest)" by (rule coalesce_skip)
  also have "\<dots> = bs"
  proof -
    have "spread ((t, False) # post)" using S by (simp add: bs spread_append)
    then show ?thesis using bs(2) by (auto simp: k_def rest_def bs coalesce_spread)
  qed
  finally have r: "coalesce (pre @ (k, False) # rest) = bs" .
  have pp: "p = of_nat ((unat (h_base h1) + span pre) + 24)" using p i(2) by simp
  obtain h2 where f: "heap_free h1 p = Some (HEAP_OK, h2)" "heap_inv h2 bs"
    using heap_free_used [OF i(1) [unfolded c] refl] unfolding r pp by blast
  then have "h_used h2 = h_used h \<and> h_free h2 = h_free h \<and> h_largest h2 = h_largest h"
    using assms(1) by (simp add: heap_inv_def heap_core_def)
  then show ?thesis using a(1) f by blast
qed

lemma heap_alloc_free_roundtrip_witness:
  "\<exists>p h1 h2. heap_alloc heap4k 100 = Some (p, h1) \<and> heap_free h1 p = Some (HEAP_OK, h2) \<and> h_free h2 = h_free heap4k"
proof -
  have f: "\<exists>b\<in>set [(4072, False)]. fits (request 100) b" by (simp add: request_def fits_def)
  have g: "grow_ok heap4k" by (simp add: grow_ok_def heap4k_fields)
  show ?thesis using heap_alloc_free_roundtrip [OF heap4k_inv g _ f] by auto
qed

text \<open>The rounding wraps for the seven largest sizes: such a request gets an 8-byte block.\<close>

lemma heap_alloc_wraps:
  assumes "4294967289 \<le> unat sz"
  shows "heap_alloc h sz = heap_alloc h 8"
proof -
  define x where x: "x = unat sz - 4294967289"
  have "unat sz < 4294967296" by (rule unat_lt32)
  then have s: "unat sz + 7 = 4294967296 + x" "x < 8" using assms unfolding x by linarith+
  have "unat (sz + 7) = (unat sz + 7) mod 4294967296" by (simp add: unat_word_ariths)
  also have "\<dots> = x" unfolding s(1) using s(2) by simp
  finally have "unat (sz + 7) < 8" using s(2) by simp
  then have "unat (ALIGN_DOWN_8 (sz + 7)) = 0" by (simp add: ALIGN_unat)
  then have "ALIGN_UP_8 sz = 0" by (simp add: ALIGN_UP_8_def ALIGN_DOWN_8_def unat_eq_zero)
  moreover have "ALIGN_UP_8 8 = 8" by (simp add: ALIGN_UP_8_def)
  ultimately show ?thesis by (simp add: heap_alloc_def)
qed

end
