(* ===== verification/HeapRuns.thy ===== *)
theory HeapRuns
  imports HeapSafe
begin

text \<open>
  Clearing allocation and reallocation, and the histories of the heap: any sequence of the entry points and of
  stores into allocated memory, with the values the program expects to read back.
\<close>

section \<open>Stores into payloads\<close>

definition region :: "u32 \<Rightarrow> nat \<Rightarrow> u32 set" where
  "region p n = {a. unat (a - p) < n}"

lemma region_self: "0 < n \<Longrightarrow> p \<in> region p n"
  by (simp add: region_def)

lemma region_iff:
  assumes "unat p + n \<le> 4294967296"
  shows "a \<in> region p n \<longleftrightarrow> unat p \<le> unat a \<and> unat a < unat p + n"
proof (cases "unat p \<le> unat a")
  case True
  then show ?thesis by (auto simp: region_def unat_sub_le)
next
  case False
  then have "unat (a - p) = 4294967296 + unat a - unat p" by (simp add: unat_sub_if')
  then show ?thesis using False assms by (auto simp: region_def)
qed

lemma hsame_bytes:
  assumes "\<And>k. k < 24 \<Longrightarrow> m' (of_nat (x + k)) = m (of_nat (x + k))"
  shows "hsame m m' x"
proof -
  have "ld32 m' (of_nat (x + j)) = ld32 m (of_nat (x + j))" if "j + 3 < 24" for j
    using assms [of j] assms [of "j + 1"] assms [of "j + 2"] assms [of "j + 3"] that
    by (intro ld32_cong) (simp_all add: add.assoc add.commute add.left_commute)
  from this [of 0] this [of 4] this [of 8] this [of 12] this [of 16] show ?thesis
    by (simp add: hsame_def field_defs)
qed

lemma payload_dvd: "(q, s) \<in> set (payloads a bs) \<Longrightarrow> 8 dvd a \<Longrightarrow> sized bs \<Longrightarrow> 8 dvd q"
  by (induction a bs rule: payloads.induct) (auto split: if_splits)

lemma heap_inv_payload:
  assumes inv: "heap_inv h bs" and p: "(q, s) \<in> set (payloads (unat (h_base h)) bs)"
    and m: "\<And>a. a \<notin> region (of_nat q) s \<Longrightarrow> m a = h_mem h a"
  shows "heap_inv (h\<lparr>h_mem := m\<rparr>) bs"
proof -
  have C: "heap_core h bs" using inv by (simp add: heap_inv_def)
  have b: "q + s \<le> unat (h_base h) + span bs" "unat (h_base h) + span bs < 4294967296"
    using payloads_bounds [OF p] core_bounds(3) [OF C] by simp_all
  then have q: "unat (of_nat q :: u32) = q" by (intro unat_of_nat_small) simp
  have "lay m 0 (unat (h_base h)) bs 0 = lay (h_mem h) 0 (unat (h_base h)) bs 0"
  proof (rule lay_hsame, rule hsame_bytes)
    fix x k assume x: "x \<in> set (addrs (unat (h_base h)) bs)" and k: "k < (24 :: nat)"
    have "x + k < 4294967296" using addrs_bounds [OF x] k b(2) by linarith
    then have u: "unat (of_nat (x + k) :: u32) = x + k" by (intro unat_of_nat_small) simp
    have "\<not> (q \<le> x + k \<and> x + k < q + s)" using payloads_clear [OF p x, of "x + k"] k by auto
    moreover have "unat (of_nat q :: u32) + s \<le> 4294967296" using b q by simp
    ultimately show "m (of_nat (x + k)) = h_mem h (of_nat (x + k))"
      by (intro m) (simp add: region_iff q u del: of_nat_add)
  qed
  then show ?thesis using inv by (simp add: heap_inv_def heap_core_def)
qed

text \<open>The bytes of a payload, by word address.\<close>

lemma payload_byte:
  assumes "heap_core h bs" "(unat p, s) \<in> set (payloads (unat (h_base h)) bs)" "a \<in> region p n" "n \<le> s"
  obtains x where "a = of_nat x" "unat p \<le> x" "x < unat p + s" "unat a = x"
proof -
  have "unat p + s < 4294967296"
    using payloads_bounds [OF assms(2)] core_bounds(3) [OF assms(1)] by linarith
  then have "unat p \<le> unat a \<and> unat a < unat p + n" using assms(3,4) region_iff [of p n a] by simp
  then show ?thesis using assms(4) by (intro that [of "unat a"]) auto
qed

lemma keeps_byte:
  assumes "keeps_data h bs h' bs'" "heap_core h bs" "(unat p, s) \<in> set (payloads (unat (h_base h)) bs)"
    and "(unat p, s) \<in> set (payloads (unat (h_base h)) bs')" "a \<in> region p n" "n \<le> s"
  shows "h_mem h' a = h_mem h a"
proof -
  obtain x where "a = of_nat x" "unat p \<le> x" "x < unat p + s" using payload_byte [OF assms(2,3,5,6)] .
  then show ?thesis using assms(1,3,4) by (fastforce simp: keeps_data_def)
qed

lemma payload_regions_disjoint:
  assumes "heap_core h bs" "(unat p, s) \<in> set (payloads (unat (h_base h)) bs)"
    "(unat q, t) \<in> set (payloads (unat (h_base h)) bs)" "p \<noteq> q" "n \<le> s" "k \<le> t"
  shows "region p n \<inter> region q k = {}"
proof -
  have "unat p \<noteq> unat q" using assms(4) by (simp add: word_eq_unat)
  then have d: "unat p + s \<le> unat q \<or> unat q + t \<le> unat p" using payloads_disjoint [OF assms(2,3)] by auto
  have "False" if a: "a \<in> region p n" "a \<in> region q k" for a
  proof -
    have "unat p \<le> unat a \<and> unat a < unat p + s" using payload_byte [OF assms(1,2) a(1) assms(5)] by metis
    moreover have "unat q \<le> unat a \<and> unat a < unat q + t" using payload_byte [OF assms(1,3) a(2) assms(6)] by metis
    ultimately show False using d by linarith
  qed
  then show ?thesis by blast
qed

section \<open>What the list of used blocks becomes\<close>

lemma payloads_carve:
  "n \<le> t \<Longrightarrow> payloads a (pre @ carve n t @ post) =
     payloads a pre @ (a + span pre + 24, if n + 32 \<le> t then n else t) # payloads (a + span pre + 24 + t) post"
  by (auto simp: carve_def ac_simps)

lemma payload_block:
  assumes "(q, s) \<in> set (payloads a bs)"
  obtains pre post where "bs = pre @ (s, True) # post" "q = a + span pre + 24"
proof -
  have "\<exists>pre post. bs = pre @ (s, True) # post \<and> q = a + span pre + 24"
    using assms
  proof (induction a bs rule: payloads.induct)
    case (2 a s' u bs)
    show ?case
    proof (cases "u \<and> (q, s) = (a + 24, s')")
      case True
      then show ?thesis by (intro exI [of _ "[]"] exI [of _ bs]) auto
    next
      case False
      then obtain pre post where "bs = pre @ (s, True) # post" "q = a + 24 + s' + span pre + 24"
        using 2 by (auto split: if_splits)
      then show ?thesis by (intro exI [of _ "(s', u) # pre"] exI [of _ post]) auto
    qed
  qed simp
  then show ?thesis using that by blast
qed

lemma payloads_distinct: "distinct (map fst (payloads a bs))"
proof (induction a bs rule: payloads.induct)
  case (2 a s u bs)
  have "q \<noteq> a + 24" if "(q, t) \<in> set (payloads (a + 24 + s) bs)" for q t
    using payloads_bounds [OF that] by simp
  then show ?case using 2 by force
qed simp

lemma allocated_payloads:
  assumes "allocated h bs bs0 n p h'" "payloads (unat (h_base h)) bs0 = payloads (unat (h_base h)) bs"
  shows "\<exists>bs' s. heap_inv h' bs' \<and> same_arena h h' \<and> keeps_data h bs h' bs' \<and> p \<noteq> 0 \<and> n \<le> s \<and>
    set (payloads (unat (h_base h)) bs') = insert (unat p, s) (set (payloads (unat (h_base h)) bs)) \<and>
    (\<forall>t. (unat p, t) \<notin> set (payloads (unat (h_base h)) bs))"
proof -
  let ?a = "unat (h_base h)"
  obtain pre t post where bs0: "bs0 = pre @ (t, False) # post" and t: "n \<le> t"
    and p: "p = of_nat (?a + span pre + 24)" "p \<noteq> 0"
    and i: "heap_inv h' (pre @ carve n t @ post)" "same_arena h h'" "keeps_data h bs h' (pre @ carve n t @ post)"
    using assms(1) unfolding allocated_def by blast
  let ?s = "if n + 32 \<le> t then n else t" and ?bs' = "pre @ carve n t @ post"
  have base: "h_base h' = h_base h" using i(2) by (simp add: same_arena_def)
  have "?a + span pre + 24 < 4294967296"
    using core_bounds(3) [of h' ?bs'] i(1) t by (auto simp: heap_inv_def base)
  then have u: "unat p = ?a + span pre + 24" unfolding p(1) by (intro unat_of_nat_small) simp
  have S: "set (payloads ?a ?bs') = insert (unat p, ?s) (set (payloads ?a bs))"
    unfolding assms(2) [symmetric] payloads_carve [OF t] u bs0 by (auto simp: ac_simps)
  have "(unat p, k) \<notin> set (payloads ?a bs)" for k
  proof
    assume "(unat p, k) \<in> set (payloads ?a bs)"
    then have "(unat p, k) \<in> set (payloads ?a pre) \<or> (unat p, k) \<in> set (payloads (?a + span pre + 24 + t) post)"
      unfolding assms(2) [symmetric] bs0 by (auto simp: ac_simps)
    then show False using payloads_bounds [of "unat p" k ?a pre] payloads_bounds [of "unat p" k "?a + span pre + 24 + t" post]
      unfolding u by auto
  qed
  then show ?thesis using i p(2) S t by (intro exI [of _ ?bs'] exI [of _ ?s]) auto
qed

lemma heap_alloc_payloads:
  assumes inv: "heap_inv h bs" and g: "grow_ok h" and sz: "unat sz + 7 < 4294967296"
  shows "\<exists>p h' bs'. heap_alloc h sz = Some (p, h') \<and> heap_inv h' bs' \<and> same_arena h h' \<and> keeps_data h bs h' bs' \<and>
    (p = 0 \<and> bs' = bs \<and> h_mem h' = h_mem h \<or>
     p \<noteq> 0 \<and> (\<exists>s\<ge>unat sz. set (payloads (unat (h_base h)) bs') = insert (unat p, s) (set (payloads (unat (h_base h)) bs)) \<and>
        (\<forall>t. (unat p, t) \<notin> set (payloads (unat (h_base h)) bs))))"
proof -
  let ?n = "request sz"
  obtain p h' where a: "heap_alloc h sz = Some (p, h')"
    "if \<exists>b\<in>set bs. fits ?n b then allocated h bs bs ?n p h'
     else allocated h bs (coalesce (bs @ [(?n, False)])) ?n p h' \<or>
       p = 0 \<and> heap_inv h' bs \<and> same_arena h h' \<and> h_mem h' = h_mem h \<and> h_fails h' = h_fails h + 1"
    using heap_alloc_spec [OF inv g sz] by blast
  show ?thesis
  proof (cases "p = 0 \<and> heap_inv h' bs \<and> same_arena h h' \<and> h_mem h' = h_mem h")
    case True
    then show ?thesis using a(1) by (auto simp: keeps_data_def)
  next
    case False
    then obtain bs0 where "allocated h bs bs0 ?n p h'" "payloads (unat (h_base h)) bs0 = payloads (unat (h_base h)) bs"
      using a(2) by (fastforce split: if_splits)
    from allocated_payloads [OF this] show ?thesis
      using a(1) request_facts(4) [OF sz] by (meson le_trans)
  qed
qed

text \<open>The same for freeing, at the payload address of a used block.\<close>

lemma heap_free_payloads:
  assumes inv: "heap_inv h bs" and p: "(unat p, s) \<in> set (payloads (unat (h_base h)) bs)"
  shows "\<exists>h' bs'. heap_free h p = Some (HEAP_OK, h') \<and> heap_inv h' bs' \<and> same_arena h h' \<and> keeps_data h bs h' bs' \<and>
    set (payloads (unat (h_base h)) bs') = set (payloads (unat (h_base h)) bs) - {(unat p, s)}"
proof -
  obtain pre post where bs: "bs = pre @ (s, True) # post" and u: "unat p = unat (h_base h) + span pre + 24"
    using payload_block [OF p] .
  have w: "p = of_nat (unat (h_base h) + span pre + 24)" unfolding u [symmetric] by simp
  let ?bs' = "coalesce (pre @ (s, False) # post)"
  have "set (payloads (unat (h_base h)) ?bs') = set (payloads (unat (h_base h)) bs) - {(unat p, s)}"
    using payloads_distinct [of "unat (h_base h)" bs]
    by (auto simp: bs u ac_simps distinct_map inj_on_def dest: payloads_bounds)
  then show ?thesis using heap_free_used [OF inv [unfolded bs] refl] unfolding w bs by blast
qed

lemma block_of_payload:
  assumes inv: "heap_inv h bs" and p: "(unat p, s) \<in> set (payloads (unat (h_base h)) bs)"
  shows "b_magic (h_mem h) (block_of p) = HEAP_MAGIC" "block_state (h_mem h) (block_of p) = HEAP_STATE_USED"
    "b_size (h_mem h) (block_of p) = of_nat s" "s < 4294967296" "p \<noteq> 0" "h_inited h"
proof -
  obtain pre post where bs: "bs = pre @ (s, True) # post" and u: "unat p = unat (h_base h) + span pre + 24"
    using payload_block [OF p] .
  have C: "heap_core h (pre @ (s, True) # post)" using inv by (simp add: heap_inv_def bs)
  have w: "p = of_nat (unat (h_base h) + span pre + 24)" unfolding u [symmetric] by simp
  have "block_of p = of_nat (unat (h_base h) + span pre)" unfolding w by (simp add: block_of_def)
  then show "b_magic (h_mem h) (block_of p) = HEAP_MAGIC" "block_state (h_mem h) (block_of p) = HEAP_STATE_USED"
    "b_size (h_mem h) (block_of p) = of_nat s" using core_block [OF C refl] by simp_all
  show "s < 4294967296" using core_bounds(3) [OF C] by simp
  show "p \<noteq> 0" using u by auto
  show "h_inited h" using C by (simp add: heap_core_def)
qed

section \<open>Reallocation\<close>

lemma heap_realloc_spec:
  assumes inv: "heap_inv h bs" and g: "grow_ok h" and p: "(unat p, s) \<in> set (payloads (unat (h_base h)) bs)"
    and sz: "unat sz + 7 < 4294967296"
  shows "\<exists>q h'. heap_realloc h p sz = Some (q, h') \<and>
    (q = p \<and> h' = h \<and> unat sz \<le> s \<or>
     q = 0 \<and> heap_inv h' bs \<and> same_arena h h' \<and> h_mem h' = h_mem h \<or>
     q \<noteq> 0 \<and> (\<exists>bs' t. heap_inv h' bs' \<and> same_arena h h' \<and> unat sz \<le> t \<and>
       set (payloads (unat (h_base h)) bs') = insert (unat q, t) (set (payloads (unat (h_base h)) bs) - {(unat p, s)}) \<and>
       (\<forall>k. (unat q, k) \<notin> set (payloads (unat (h_base h)) bs)) \<and>
       (\<forall>i < s. h_mem h' (q + of_nat i) = h_mem h (p + of_nat i)) \<and>
       (\<forall>r k a. (unat r, k) \<in> set (payloads (unat (h_base h)) bs) - {(unat p, s)} \<and> a \<in> region r k \<longrightarrow> h_mem h' a = h_mem h a)))"
proof -
  let ?P = "\<lambda>bs. set (payloads (unat (h_base h)) bs)"
  note bp = block_of_payload [OF inv p]
  define r where r: "r = ALIGN_UP_8 sz"
  have ur: "unat r = (unat sz + 7) div 8 * 8" using sz unfolding r by (rule ALIGN_unat(2))
  have rs: "unat sz \<le> unat r" "unat r + 7 < 4294967296" unfolding ur using sz by presburger+
  have us: "unat (of_nat s :: u32) = s" using bp(4) by (intro unat_of_nat_small) simp
  show ?thesis
  proof (cases "unat r \<le> s")
    case True
    then have "r \<le> of_nat s" by (simp add: word_le_unat us)
    then have "heap_realloc h p sz = Some (p, h)"
      using bp by (simp add: heap_realloc_def Let_def r)
    then show ?thesis using True rs(1) by auto
  next
    case False
    then have nle: "\<not> r \<le> of_nat s" by (simp add: word_le_unat us)
    obtain q h1 bs1 where a: "heap_alloc h r = Some (q, h1)" "heap_inv h1 bs1" "same_arena h h1" "keeps_data h bs h1 bs1"
      and c: "q = 0 \<and> bs1 = bs \<and> h_mem h1 = h_mem h \<or>
        q \<noteq> 0 \<and> (\<exists>t\<ge>unat r. ?P bs1 = insert (unat q, t) (?P bs) \<and> (\<forall>k. (unat q, k) \<notin> ?P bs))"
      using heap_alloc_payloads [OF inv g rs(2)] by blast
    have b1: "h_base h1 = h_base h" using a(3) by (simp add: same_arena_def)
    show ?thesis
    proof (cases "q = 0")
      case True
      then have "heap_realloc h p sz = Some (0, h1)"
        using bp nle a(1) by (simp add: heap_realloc_def Let_def r [symmetric])
      then show ?thesis using a c True by auto
    next
      case nz: False
      then obtain t where t: "unat r \<le> t" "?P bs1 = insert (unat q, t) (?P bs)" "\<forall>k. (unat q, k) \<notin> ?P bs" using c by blast
      have C1: "heap_core h1 bs1" using a(2) by (simp add: heap_inv_def)
      have p1: "(unat p, s) \<in> ?P bs1" "(unat q, t) \<in> ?P bs1" using t(2) p by auto
      have pq: "p \<noteq> q" using t(3) p by auto
      have st: "s \<le> t" using t(1) False by linarith
      have bnd: "unat p + s < 4294967296" "unat q + t < 4294967296"
        using payloads_bounds [OF p1(1)] payloads_bounds [OF p1(2)] core_bounds(3) [OF C1] by (simp_all add: b1)
      have disj: "unat p + s \<le> unat q \<or> unat q + t \<le> unat p"
        using payloads_disjoint [OF p1] pq by (auto simp: word_eq_unat)
      define m2 where m2: "m2 = snd (memcpy q p (of_nat s) (h_mem h1))"
      have "unat q + t \<le> unat p \<Longrightarrow> q < p" using pq by (auto simp: word_lt_unat word_eq_unat)
      then have m2x: "m2 = (\<lambda>x. if unat (x - q) < s then h_mem h1 (p + (x - q)) else h_mem h1 x)"
        unfolding m2 using bnd(1) disj by (subst memcpy_eq) (auto simp: us)
      let ?h2 = "h1\<lparr>h_mem := m2\<rparr>"
      have I2: "heap_inv ?h2 bs1"
      proof (rule heap_inv_payload [OF a(2)])
        show "(unat q, t) \<in> set (payloads (unat (h_base h1)) bs1)" using p1(2) by (simp add: b1)
        show "m2 x = h_mem h1 x" if "x \<notin> region (of_nat (unat q)) t" for x
          using that st by (simp add: m2x region_def)
      qed
      obtain h3 bs3 where f: "heap_free ?h2 p = Some (HEAP_OK, h3)" "heap_inv h3 bs3" "same_arena ?h2 h3"
        "keeps_data ?h2 bs1 h3 bs3" "?P bs3 = ?P bs1 - {(unat p, s)}"
        using heap_free_payloads [OF I2, of p s] p1(1) by (auto simp: b1)
      have sz1: "b_size (h_mem h1) (block_of p) = of_nat s"
        using block_of_payload(3) [OF a(2), of p s] p1(1) by (simp add: b1)
      have cp: "\<not> r < of_nat s" using nle by auto
      have R: "heap_realloc h p sz = Some (q, h3)"
        using bp nle a(1) nz f(1) unfolding heap_realloc_def Let_def r [symmetric]
        by (simp add: sz1 cp m2 [symmetric])
      have P3: "?P bs3 = insert (unat q, t) (?P bs - {(unat p, s)})" using f(5) t(2,3) p by auto
      have K: "h_mem h3 a = m2 a" if "(unat r', k) \<in> ?P bs3" "a \<in> region r' k" for r' k a
        using keeps_byte [OF f(4), of r' k a k] that f(5) I2 by (simp add: heap_inv_def b1)
      have copied: "h_mem h3 (q + of_nat i) = h_mem h (p + of_nat i)" if i: "i < s" for i
      proof -
        have ui: "unat (of_nat i :: u32) = i" using i bp(4) by (intro unat_of_nat_small) simp
        have "q + of_nat i \<in> region q t" "p + of_nat i \<in> region p s" using i st by (simp_all add: region_def ui)
        moreover have "m2 (q + of_nat i) = h_mem h1 (p + of_nat i)" using i by (simp add: m2x ui)
        moreover have "h_mem h1 a = h_mem h a" if "a \<in> region p s" for a
          using keeps_byte [OF a(4), of p s a s] inv p p1(1) that by (simp add: heap_inv_def)
        ultimately show ?thesis using K [of q t] P3 by simp
      qed
      have other: "h_mem h3 a = h_mem h a" if r': "(unat r', k) \<in> ?P bs - {(unat p, s)}" "a \<in> region r' k" for r' k a
      proof -
        have in1: "(unat r', k) \<in> ?P bs1" using r'(1) t(2) by auto
        have "r' \<noteq> q" using r'(1) t(3) by auto
        then have "a \<notin> region q t"
          using payload_regions_disjoint [OF C1, of r' k q t k t] in1 p1(2) r'(2) by (auto simp: b1)
        then have "m2 a = h_mem h1 a" using st by (auto simp: m2x region_def)
        moreover have "h_mem h1 a = h_mem h a"
          using keeps_byte [OF a(4), of r' k a k] inv r' in1 by (simp add: heap_inv_def)
        ultimately show ?thesis using K [of r' k a] P3 r' by simp
      qed
      have "same_arena h h3" using a(3) f(3) by (simp add: same_arena_def)
      moreover have "unat sz \<le> t" using t(1) rs(1) by linarith
      ultimately have "\<exists>bs' t. heap_inv h3 bs' \<and> same_arena h h3 \<and> unat sz \<le> t \<and>
         ?P bs' = insert (unat q, t) (?P bs - {(unat p, s)}) \<and> (\<forall>k. (unat q, k) \<notin> ?P bs) \<and>
         (\<forall>i < s. h_mem h3 (q + of_nat i) = h_mem h (p + of_nat i)) \<and>
         (\<forall>r k a. (unat r, k) \<in> ?P bs - {(unat p, s)} \<and> a \<in> region r k \<longrightarrow> h_mem h3 a = h_mem h a)"
        using f(2) P3 t(3) copied other by blast
      then show ?thesis using R nz by blast
    qed
  qed
qed

section \<open>Clearing allocation\<close>

lemma heap_calloc_spec:
  assumes inv: "heap_inv h bs" and g: "grow_ok h" and n: "n = (if count = 0 \<or> sz = 0 then 8 else unat count * unat sz)"
    and small: "n + 7 < 4294967296"
  shows "\<exists>p h' bs'. heap_calloc h count sz = Some (p, h') \<and> heap_inv h' bs' \<and> same_arena h h' \<and>
    (p = 0 \<and> bs' = bs \<and> h_mem h' = h_mem h \<or>
     p \<noteq> 0 \<and> (\<exists>s\<ge>n. set (payloads (unat (h_base h)) bs') = insert (unat p, s) (set (payloads (unat (h_base h)) bs)) \<and>
        (\<forall>t. (unat p, t) \<notin> set (payloads (unat (h_base h)) bs)) \<and> (\<forall>a\<in>region p n. h_mem h' a = 0) \<and>
        (\<forall>r k a. (unat r, k) \<in> set (payloads (unat (h_base h)) bs) \<and> a \<in> region r k \<longrightarrow> h_mem h' a = h_mem h a)))"
proof -
  let ?P = "\<lambda>bs. set (payloads (unat (h_base h)) bs)"
  define total where t: "total = (if count = 0 \<or> sz = 0 then 8 else count * sz)"
  have ut: "unat total = n"
  proof (cases "count = 0 \<or> sz = 0")
    case False
    then have "unat count * unat sz < 4294967296" using small by (simp add: n)
    then show ?thesis using False by (simp add: t n unat_word_ariths)
  qed (auto simp: t n)
  have ovf: "\<not> (count \<noteq> 0 \<and> sz \<noteq> 0 \<and> total div sz \<noteq> count)"
  proof -
    have "unat (total div sz) = unat count" if "count \<noteq> 0" "sz \<noteq> 0"
    proof -
      have "unat total = unat count * unat sz" using ut n that by simp
      moreover have "unat sz \<noteq> 0" using that(2) by (simp add: unat_eq_zero)
      ultimately show ?thesis by (simp add: unat_div)
    qed
    then show ?thesis by (auto simp: word_eq_unat)
  qed
  obtain p h1 bs1 where a: "heap_alloc h total = Some (p, h1)" "heap_inv h1 bs1" "same_arena h h1" "keeps_data h bs h1 bs1"
    and c: "p = 0 \<and> bs1 = bs \<and> h_mem h1 = h_mem h \<or>
      p \<noteq> 0 \<and> (\<exists>s\<ge>unat total. ?P bs1 = insert (unat p, s) (?P bs) \<and> (\<forall>k. (unat p, k) \<notin> ?P bs))"
    using heap_alloc_payloads [OF inv g, of total] small ut by auto
  have b1: "h_base h1 = h_base h" using a(3) by (simp add: same_arena_def)
  show ?thesis
  proof (cases "p = 0")
    case True
    then have "heap_calloc h count sz = Some (0, h1)"
      using a(1) ovf unfolding heap_calloc_def Let_def t [symmetric] by auto
    then show ?thesis using True a c by auto
  next
    case nz: False
    then obtain s where s: "n \<le> s" "?P bs1 = insert (unat p, s) (?P bs)" "\<forall>k. (unat p, k) \<notin> ?P bs"
      using c ut by auto
    have C1: "heap_core h1 bs1" using a(2) by (simp add: heap_inv_def)
    define m2 where m2: "m2 = snd (memset p 0 total (h_mem h1))"
    have m2x: "m2 = (\<lambda>x. if unat (x - p) < n then 0 else h_mem h1 x)" by (auto simp: m2 memset_eq ut fun_eq_iff)
    let ?h2 = "h1\<lparr>h_mem := m2\<rparr>"
    have I2: "heap_inv ?h2 bs1"
    proof (rule heap_inv_payload [OF a(2)])
      show "(unat p, s) \<in> set (payloads (unat (h_base h1)) bs1)" using s(2) by (simp add: b1)
      show "m2 x = h_mem h1 x" if "x \<notin> region (of_nat (unat p)) s" for x
        using that s(1) by (simp add: m2x region_def)
    qed
    have other: "m2 x = h_mem h x" if r: "(unat r, k) \<in> ?P bs" "x \<in> region r k" for r k x
    proof -
      have "p \<noteq> r" using r(1) s(3) by auto
      then have "x \<notin> region p s"
        using payload_regions_disjoint [OF C1, of p s r k s k] r s(2) by (auto simp: b1)
      then have "m2 x = h_mem h1 x" using s(1) by (auto simp: m2x region_def)
      moreover have "h_mem h1 x = h_mem h x"
        using keeps_byte [OF a(4), of r k x k] inv r s(2) by (simp add: heap_inv_def)
      ultimately show ?thesis by simp
    qed
    have R: "heap_calloc h count sz = Some (p, ?h2)"
      using a(1) ovf nz unfolding heap_calloc_def Let_def t [symmetric] by (auto simp: m2)
    have "same_arena h ?h2" using a(3) by (simp add: same_arena_def)
    moreover have "\<forall>x\<in>region p n. h_mem ?h2 x = 0" by (simp add: m2x region_def)
    ultimately show ?thesis using R nz I2 s other by (intro exI [of _ p] exI [of _ ?h2] exI [of _ bs1]) auto
  qed
qed

section \<open>Histories\<close>

text \<open>
  \<open>heap_run h L w\<close>: the heap \<open>h\<close> is the result of some sequence of calls and of stores into
  allocated memory, \<open>L\<close> lists the allocations the program holds with the sizes it asked
  for, and \<open>w\<close> maps the addresses of allocated bytes with a known content to that content.
\<close>

inductive heap_run :: "'g heap_t \<Rightarrow> (u32 \<times> nat) list \<Rightarrow> (u32 \<rightharpoonup> u8) \<Rightarrow> bool" where
  init: "\<lbrakk>base \<noteq> 0; unat base + unat sz < 2 ^ 32; heap_init base sz h0 = (HEAP_OK, h)\<rbrakk> \<Longrightarrow> heap_run h [] Map.empty"
| grow: "\<lbrakk>heap_run h L w; grow_ok (heap_set_grow f c h)\<rbrakk> \<Longrightarrow> heap_run (heap_set_grow f c h) L w"
| alloc: "\<lbrakk>heap_run h L w; unat sz + 7 < 2 ^ 32; heap_alloc h sz = Some (p, h')\<rbrakk>
    \<Longrightarrow> heap_run h' (if p = 0 then L else (p, unat sz) # L) w"
| calloc: "\<lbrakk>heap_run h L w; n = (if count = 0 \<or> sz = 0 then 8 else unat count * unat sz); n + 7 < 2 ^ 32;
      heap_calloc h count sz = Some (p, h')\<rbrakk>
    \<Longrightarrow> heap_run h' (if p = 0 then L else (p, n) # L)
          (if p = 0 then w else (\<lambda>a. if a \<in> region p n then Some 0 else w a))"
| store: "\<lbrakk>heap_run h L w; (p, n) \<in> set L; a \<in> region p n\<rbrakk>
    \<Longrightarrow> heap_run (h\<lparr>h_mem := (h_mem h)(a := v)\<rparr>) L (w(a \<mapsto> v))"
| free: "\<lbrakk>heap_run h L w; (p, n) \<in> set L; heap_free h p = Some (e, h')\<rbrakk>
    \<Longrightarrow> heap_run h' (filter (\<lambda>x. fst x \<noteq> p) L) (w |` (- region p n))"
| bad_free: "\<lbrakk>heap_run h L w; heap_free h p = Some (e, h'); e \<noteq> HEAP_OK\<rbrakk> \<Longrightarrow> heap_run h' L w"
| realloc: "\<lbrakk>heap_run h L w; (p, n) \<in> set L; unat sz + 7 < 2 ^ 32; heap_realloc h p sz = Some (q, h')\<rbrakk>
    \<Longrightarrow> heap_run h' (if q = 0 then L else (q, unat sz) # filter (\<lambda>x. fst x \<noteq> p) L)
          (if q = 0 then w
           else (\<lambda>a. if a \<in> region q (unat sz) then (if unat (a - q) < n then w (p + (a - q)) else None)
                     else if a \<in> region p n then None else w a))"

definition live :: "u32 \<Rightarrow> block list \<Rightarrow> (u32 \<times> nat) list \<Rightarrow> bool" where
  "live base bs L \<longleftrightarrow> distinct (map fst L) \<and>
     (\<forall>(p, n)\<in>set L. \<exists>s\<ge>n. (unat p, s) \<in> set (payloads (unat base) bs))"

definition known :: "'g heap_t \<Rightarrow> (u32 \<times> nat) list \<Rightarrow> (u32 \<rightharpoonup> u8) \<Rightarrow> bool" where
  "known h L w \<longleftrightarrow> (\<forall>a v. w a = Some v \<longrightarrow> h_mem h a = v \<and> (\<exists>(p, n)\<in>set L. a \<in> region p n))"

definition run_inv :: "'g heap_t \<Rightarrow> (u32 \<times> nat) list \<Rightarrow> (u32 \<rightharpoonup> u8) \<Rightarrow> bool" where
  "run_inv h L w \<longleftrightarrow> (\<exists>bs. heap_inv h bs \<and> grow_ok h \<and> live (h_base h) bs L \<and> known h L w)"

lemma liveD: "live base bs L \<Longrightarrow> (p, n) \<in> set L \<Longrightarrow> \<exists>s\<ge>n. (unat p, s) \<in> set (payloads (unat base) bs)"
  by (fastforce simp: live_def)

lemma live_unique: "live base bs L \<Longrightarrow> (p, n) \<in> set L \<Longrightarrow> (p, k) \<in> set L \<Longrightarrow> n = k"
  by (rule eq_key_imp_eq_value [of L p]) (simp_all add: live_def)

text \<open>Adding an allocation that was not there, and dropping one.\<close>

lemma live_add:
  assumes "live base bs L" "set (payloads (unat base) bs') = insert (unat p, s) (set (payloads (unat base) bs))"
    and "\<forall>k. (unat p, k) \<notin> set (payloads (unat base) bs)" "n \<le> s"
  shows "live base bs' ((p, n) # L)"
proof -
  have "p \<notin> fst ` set L" using assms(3) liveD [OF assms(1)] by fastforce
  then show ?thesis using assms by (fastforce simp: live_def)
qed

lemma live_drop:
  assumes "live base bs L" "(p, n) \<in> set L" "(unat p, s) \<in> set (payloads (unat base) bs)"
    and "set (payloads (unat base) bs) - {(unat p, s)} \<subseteq> set (payloads (unat base) bs')"
  shows "live base bs' (filter (\<lambda>x. fst x \<noteq> p) L)"
proof -
  have "distinct (map fst (filter (\<lambda>x. fst x \<noteq> p) L))"
    using assms(1) by (auto simp: live_def distinct_map intro: inj_on_subset)
  moreover have "\<exists>t\<ge>k. (unat q, t) \<in> set (payloads (unat base) bs')" if "(q, k) \<in> set L" "q \<noteq> p" for q k
    using liveD [OF assms(1) that(1)] that(2) assms(4) by (fastforce simp: word_eq_unat)
  ultimately show ?thesis by (auto simp: live_def)
qed

text \<open>Contents survive when every live region's bytes do.\<close>

lemma known_keep:
  assumes "known h L w" "\<And>p n a. (p, n) \<in> set L \<Longrightarrow> a \<in> region p n \<Longrightarrow> h_mem h' a = h_mem h a" "set L \<subseteq> set L'"
  shows "known h' L' w"
  using assms by (fastforce simp: known_def)

lemma same_arena_grow_ok: "same_arena h h' \<Longrightarrow> grow_ok h \<Longrightarrow> grow_ok h'"
  by (simp add: grow_ok_def same_arena_def)

lemma run_inv_init:
  assumes "base \<noteq> 0" "unat base + unat sz < 2 ^ 32" "heap_init base sz h0 = (HEAP_OK, h)"
  shows "run_inv h [] Map.empty"
proof -
  have m: "(7 :: u32) = mask 3" by (simp add: mask_eq_exp_minus_1)
  have ok: "base AND 7 = 0" "\<not> ALIGN_DOWN_8 sz < 32"
    using assms(3) by (auto simp: heap_init_def Let_def split: if_splits)
  have "8 dvd unat base" using ok(1) unfolding m and_mask_0_iff by (simp add: dvd_eq_mod_eq_0)
  moreover have "32 \<le> unat sz" using ok(2) ALIGN_unat(1) [of sz] by (simp add: word_lt_unat)
  ultimately have "heap_inv (snd (heap_init base sz h0)) [(unat sz - unat sz mod 8 - 24, False)]"
    using heap_init_inv [OF assms(1), of sz h0] assms(2) by simp
  moreover have "grow_ok (snd (heap_init base sz h0))"
    using assms(3) by (auto simp: heap_init_def Let_def grow_ok_def split: if_splits)
  ultimately show ?thesis using assms(3) by (auto simp: run_inv_def live_def known_def)
qed

lemma run_inv_new:
  assumes "heap_inv h bs" "grow_ok h" "live (h_base h) bs L" "known h L w"
    and "heap_inv h' bs'" "same_arena h h'" "n \<le> s"
    and "set (payloads (unat (h_base h)) bs') = insert (unat p, s) (set (payloads (unat (h_base h)) bs))"
    and "\<forall>k. (unat p, k) \<notin> set (payloads (unat (h_base h)) bs)"
    and "\<And>r k a. (unat r, k) \<in> set (payloads (unat (h_base h)) bs) \<Longrightarrow> a \<in> region r k \<Longrightarrow> h_mem h' a = h_mem h a"
  shows "run_inv h' ((p, n) # L) w"
proof -
  have "h_mem h' a = h_mem h a" if r: "(r, k) \<in> set L" "a \<in> region r k" for r k a
  proof -
    obtain t where t: "k \<le> t" "(unat r, t) \<in> set (payloads (unat (h_base h)) bs)" using liveD [OF assms(3) r(1)] by blast
    then show ?thesis using assms(10) [OF t(2)] r(2) by (auto simp: region_def)
  qed
  then have "known h' ((p, n) # L) w" by (intro known_keep [OF assms(4)]) auto
  moreover have "live (h_base h') bs' ((p, n) # L)"
    using live_add [OF assms(3,8,9,7)] assms(6) by (simp add: same_arena_def)
  ultimately show ?thesis using assms(2,5) same_arena_grow_ok [OF assms(6)] unfolding run_inv_def by blast
qed

lemma run_inv_same:
  assumes "run_inv h L w" "\<And>bs. heap_inv h bs \<Longrightarrow> heap_inv h' bs" "same_arena h h'" "h_mem h' = h_mem h"
  shows "run_inv h' L w"
  using assms same_arena_grow_ok [OF assms(3)] by (fastforce simp: run_inv_def same_arena_def known_def)

lemma run_inv_store:
  assumes "run_inv h L w" "(p, n) \<in> set L" "a \<in> region p n"
  shows "run_inv (h\<lparr>h_mem := (h_mem h)(a := v)\<rparr>) L (w(a \<mapsto> v))"
proof -
  obtain bs where bs: "heap_inv h bs" "grow_ok h" "live (h_base h) bs L" "known h L w"
    using assms(1) by (auto simp: run_inv_def)
  obtain s where s: "n \<le> s" "(unat p, s) \<in> set (payloads (unat (h_base h)) bs)" using liveD [OF bs(3) assms(2)] by blast
  have "heap_inv (h\<lparr>h_mem := (h_mem h)(a := v)\<rparr>) bs"
    using assms(3) s(1) by (intro heap_inv_payload [OF bs(1) s(2)]) (auto simp: region_def)
  moreover have "known (h\<lparr>h_mem := (h_mem h)(a := v)\<rparr>) L (w(a \<mapsto> v))"
    using bs(4) assms(2,3) by (auto simp: known_def)
  moreover have "grow_ok (h\<lparr>h_mem := (h_mem h)(a := v)\<rparr>)" using bs(2) by (simp add: grow_ok_def)
  ultimately show ?thesis using bs(3) unfolding run_inv_def by auto
qed

text \<open>Two live allocations at different addresses have disjoint regions.\<close>

lemma live_disjoint:
  assumes "heap_inv h bs" "live (h_base h) bs L" "(p, n) \<in> set L" "(q, k) \<in> set L" "p \<noteq> q"
  shows "region p n \<inter> region q k = {}"
proof -
  obtain s t where "n \<le> s" "(unat p, s) \<in> set (payloads (unat (h_base h)) bs)"
    "k \<le> t" "(unat q, t) \<in> set (payloads (unat (h_base h)) bs)"
    using liveD [OF assms(2,3)] liveD [OF assms(2,4)] by blast
  then show ?thesis using assms(1,5) payload_regions_disjoint [of h bs p s q t n k] by (simp add: heap_inv_def)
qed

lemma known_drop:
  assumes "known h L w" "\<And>q k a. (q, k) \<in> set L \<Longrightarrow> q \<noteq> p \<Longrightarrow> a \<in> region q k \<Longrightarrow> h_mem h' a = h_mem h a"
    and "\<And>k. (p, k) \<in> set L \<Longrightarrow> k = n"
  shows "known h' (filter (\<lambda>x. fst x \<noteq> p) L) (w |` (- region p n))"
  unfolding known_def
proof (intro allI impI)
  fix a v assume "(w |` (- region p n)) a = Some v"
  then have w: "w a = Some v" "a \<notin> region p n" by (auto simp: restrict_map_def split: if_splits)
  then obtain q k where q: "(q, k) \<in> set L" "a \<in> region q k" "h_mem h a = v" using assms(1) by (fastforce simp: known_def)
  then have "q \<noteq> p" using assms(3) w(2) by auto
  then show "h_mem h' a = v \<and> (\<exists>(q, k)\<in>set (filter (\<lambda>x. fst x \<noteq> p) L). a \<in> region q k)"
    using q assms(2) by force
qed

lemma run_inv_free:
  assumes "run_inv h L w" "(p, n) \<in> set L" "heap_free h p = Some (e, h')"
  shows "e = HEAP_OK \<and> run_inv h' (filter (\<lambda>x. fst x \<noteq> p) L) (w |` (- region p n))"
proof -
  obtain bs where bs: "heap_inv h bs" "grow_ok h" "live (h_base h) bs L" "known h L w"
    using assms(1) by (auto simp: run_inv_def)
  let ?P = "\<lambda>bs. set (payloads (unat (h_base h)) bs)"
  obtain s where s: "n \<le> s" "(unat p, s) \<in> ?P bs" using liveD [OF bs(3) assms(2)] by blast
  obtain bs' where f: "e = HEAP_OK" "heap_inv h' bs'" "same_arena h h'" "keeps_data h bs h' bs'" "?P bs' = ?P bs - {(unat p, s)}"
    using heap_free_payloads [OF bs(1) s(2)] assms(3) by auto
  have keep: "h_mem h' a = h_mem h a" if q: "(q, k) \<in> set L" "q \<noteq> p" "a \<in> region q k" for q k a
  proof -
    obtain t where t: "k \<le> t" "(unat q, t) \<in> ?P bs" using liveD [OF bs(3) q(1)] by blast
    moreover have "(unat q, t) \<in> ?P bs'" using t(2) f(5) q(2) by (auto simp: word_eq_unat)
    ultimately show ?thesis using keeps_byte [OF f(4), of q t a k] bs(1) q(3) by (simp add: heap_inv_def)
  qed
  have "known h' (filter (\<lambda>x. fst x \<noteq> p) L) (w |` (- region p n))"
    using keep live_unique [OF bs(3) assms(2)] by (intro known_drop [OF bs(4)]) auto
  moreover have "live (h_base h') bs' (filter (\<lambda>x. fst x \<noteq> p) L)"
    using live_drop [OF bs(3) assms(2) s(2)] f(3,5) by (simp add: same_arena_def)
  ultimately show ?thesis using f(1,2) same_arena_grow_ok [OF f(3) bs(2)] unfolding run_inv_def by blast
qed

lemma run_inv_alloc:
  assumes "run_inv h L w" "unat sz + 7 < 2 ^ 32" "heap_alloc h sz = Some (p, h')"
  shows "run_inv h' (if p = 0 then L else (p, unat sz) # L) w"
proof -
  obtain bs where bs: "heap_inv h bs" "grow_ok h" "live (h_base h) bs L" "known h L w"
    using assms(1) by (auto simp: run_inv_def)
  obtain bs' where a: "heap_inv h' bs'" "same_arena h h'" "keeps_data h bs h' bs'"
    and c: "p = 0 \<and> bs' = bs \<and> h_mem h' = h_mem h \<or>
      p \<noteq> 0 \<and> (\<exists>s\<ge>unat sz. set (payloads (unat (h_base h)) bs') = insert (unat p, s) (set (payloads (unat (h_base h)) bs)) \<and>
        (\<forall>t. (unat p, t) \<notin> set (payloads (unat (h_base h)) bs)))"
    using heap_alloc_payloads [OF bs(1,2), of sz] assms(2,3) by auto
  show ?thesis
  proof (cases "p = 0")
    case True
    then have "run_inv h' L w"
      using a c bs same_arena_grow_ok [OF a(2) bs(2)] by (auto simp: run_inv_def same_arena_def known_def)
    then show ?thesis using True by simp
  next
    case False
    then obtain s where s: "unat sz \<le> s" "set (payloads (unat (h_base h)) bs') = insert (unat p, s) (set (payloads (unat (h_base h)) bs))"
      "\<forall>t. (unat p, t) \<notin> set (payloads (unat (h_base h)) bs)" using c by blast
    have "run_inv h' ((p, unat sz) # L) w"
    proof (rule run_inv_new [OF bs a(1,2) s])
      show "h_mem h' a' = h_mem h a'" if "(unat r, k) \<in> set (payloads (unat (h_base h)) bs)" "a' \<in> region r k" for r k a'
        using keeps_byte [OF a(3), of r k a' k] bs(1) that s(2) by (simp add: heap_inv_def)
    qed
    then show ?thesis using False by simp
  qed
qed

lemma run_inv_calloc:
  assumes "run_inv h L w" and n: "n = (if count = 0 \<or> sz = 0 then 8 else unat count * unat sz)" "n + 7 < 2 ^ 32"
    and c: "heap_calloc h count sz = Some (p, h')"
  shows "run_inv h' (if p = 0 then L else (p, n) # L)
    (if p = 0 then w else (\<lambda>a. if a \<in> region p n then Some 0 else w a))"
proof -
  obtain bs where bs: "heap_inv h bs" "grow_ok h" "live (h_base h) bs L" "known h L w"
    using assms(1) by (auto simp: run_inv_def)
  have small: "n + 7 < 4294967296" using n(2) by simp
  obtain bs' where a: "heap_inv h' bs'" "same_arena h h'"
    and d: "p = 0 \<and> bs' = bs \<and> h_mem h' = h_mem h \<or>
      p \<noteq> 0 \<and> (\<exists>s\<ge>n. set (payloads (unat (h_base h)) bs') = insert (unat p, s) (set (payloads (unat (h_base h)) bs)) \<and>
        (\<forall>t. (unat p, t) \<notin> set (payloads (unat (h_base h)) bs)) \<and> (\<forall>a\<in>region p n. h_mem h' a = 0) \<and>
        (\<forall>r k a. (unat r, k) \<in> set (payloads (unat (h_base h)) bs) \<and> a \<in> region r k \<longrightarrow> h_mem h' a = h_mem h a))"
    using heap_calloc_spec [OF bs(1,2) n(1) small] c by auto
  show ?thesis
  proof (cases "p = 0")
    case True
    then have "run_inv h' L w"
      using a d bs same_arena_grow_ok [OF a(2) bs(2)] by (auto simp: run_inv_def same_arena_def known_def)
    then show ?thesis using True by simp
  next
    case False
    then obtain s where s: "n \<le> s" "set (payloads (unat (h_base h)) bs') = insert (unat p, s) (set (payloads (unat (h_base h)) bs))"
      "\<forall>t. (unat p, t) \<notin> set (payloads (unat (h_base h)) bs)" and z: "\<forall>a\<in>region p n. h_mem h' a = 0"
      and k: "\<And>r k a. (unat r, k) \<in> set (payloads (unat (h_base h)) bs) \<Longrightarrow> a \<in> region r k \<Longrightarrow> h_mem h' a = h_mem h a"
      using d by blast
    have "run_inv h' ((p, n) # L) w" by (rule run_inv_new [OF bs a s k])
    then have "run_inv h' ((p, n) # L) (\<lambda>a. if a \<in> region p n then Some 0 else w a)"
      using z by (fastforce simp: run_inv_def known_def)
    then show ?thesis using False by simp
  qed
qed

lemma run_inv_realloc:
  assumes "run_inv h L w" "(p, n) \<in> set L" "unat sz + 7 < 2 ^ 32" "heap_realloc h p sz = Some (q, h')"
  shows "run_inv h' (if q = 0 then L else (q, unat sz) # filter (\<lambda>x. fst x \<noteq> p) L)
    (if q = 0 then w
     else (\<lambda>a. if a \<in> region q (unat sz) then (if unat (a - q) < n then w (p + (a - q)) else None)
               else if a \<in> region p n then None else w a))"
    (is "run_inv h' ?L ?w")
proof -
  obtain bs where bs: "heap_inv h bs" "grow_ok h" "live (h_base h) bs L" "known h L w"
    using assms(1) by (auto simp: run_inv_def)
  let ?P = "\<lambda>bs. set (payloads (unat (h_base h)) bs)" and ?F = "filter (\<lambda>x. fst x \<noteq> p) L"
  have C: "heap_core h bs" using bs(1) by (simp add: heap_inv_def)
  obtain s where s: "n \<le> s" "(unat p, s) \<in> ?P bs" using liveD [OF bs(3) assms(2)] by blast
  note bp = block_of_payload [OF bs(1) s(2)]
  have old: "h_mem h (p + (a - q)) = v" if "w (p + (a - q)) = Some v" for a v
    using bs(4) that by (auto simp: known_def)
  have rest: "\<exists>(r, k)\<in>set ?F. a \<in> region r k" "\<And>v. w a = Some v \<Longrightarrow> h_mem h a = v"
    if wa: "w a = Some v" "a \<notin> region p n" for a v
  proof -
    obtain r k where r: "(r, k) \<in> set L" "a \<in> region r k" using bs(4) wa(1) by (fastforce simp: known_def)
    then have "r \<noteq> p" using wa(2) live_unique [OF bs(3) assms(2)] by auto
    then show "\<exists>(r, k)\<in>set ?F. a \<in> region r k" using r by force
    show "h_mem h a = v'" if "w a = Some v'" for v' using bs(4) that by (auto simp: known_def)
  qed
  have drop: "live (h_base h) bs' ?F" if "?P bs - {(unat p, s)} \<subseteq> ?P bs'" for bs'
    using live_drop [OF bs(3) assms(2) s(2) that] .
  consider (same) "q = p" "h' = h" "unat sz \<le> s"
    | (fail) "q = 0" "heap_inv h' bs" "same_arena h h'" "h_mem h' = h_mem h"
    | (moved) bs' t where "q \<noteq> 0" "heap_inv h' bs'" "same_arena h h'" "unat sz \<le> t"
       "?P bs' = insert (unat q, t) (?P bs - {(unat p, s)})" "\<forall>k. (unat q, k) \<notin> ?P bs"
       "\<forall>i < s. h_mem h' (q + of_nat i) = h_mem h (p + of_nat i)"
       "\<forall>r k a. (unat r, k) \<in> ?P bs - {(unat p, s)} \<and> a \<in> region r k \<longrightarrow> h_mem h' a = h_mem h a"
    using heap_realloc_spec [OF bs(1,2) s(2), of sz] assms(3,4) by auto
  then show ?thesis
  proof cases
    case same
    have "p \<notin> fst ` set ?F" by auto
    then have "live (h_base h) bs ((p, unat sz) # ?F)"
      using drop [of bs] same(3) s(2) by (auto simp: live_def)
    moreover have "known h ((p, unat sz) # ?F) ?w"
      unfolding known_def
    proof (intro allI impI)
      fix a v assume "?w a = Some v"
      then show "h_mem h a = v \<and> (\<exists>(r, k)\<in>set ((p, unat sz) # ?F). a \<in> region r k)"
        using old [of a v] rest [of a v] bp(5) same(1) by (auto split: if_splits)
    qed
    ultimately show ?thesis using same bp(5) bs(1,2) unfolding run_inv_def by auto
  next
    case fail
    then have "run_inv h' L w"
      using bs same_arena_grow_ok [OF fail(3) bs(2)] by (auto simp: run_inv_def same_arena_def known_def)
    then show ?thesis using fail(1) by simp
  next
    case moved
    have qF: "q \<notin> fst ` set ?F" using moved(6) liveD [OF bs(3)] by fastforce
    have "live (h_base h) bs' ((q, unat sz) # ?F)"
      using drop [of bs'] moved(4,5) qF by (auto simp: live_def)
    moreover have "known h' ((q, unat sz) # ?F) ?w"
      unfolding known_def
    proof (intro allI impI)
      fix a v assume wa: "?w a = Some v"
      show "h_mem h' a = v \<and> (\<exists>(r, k)\<in>set ((q, unat sz) # ?F). a \<in> region r k)"
      proof (cases "a \<in> region q (unat sz)")
        case True
        then have "unat (a - q) < n" "w (p + (a - q)) = Some v" using wa moved(1) by (auto split: if_splits)
        moreover have "h_mem h' (q + of_nat (unat (a - q))) = h_mem h (p + of_nat (unat (a - q)))"
          using moved(7) \<open>unat (a - q) < n\<close> s(1) by (metis less_le_trans)
        ultimately show ?thesis using True old [of a v] by auto
      next
        case False
        then have w: "a \<notin> region p n" "w a = Some v" using wa moved(1) by (auto split: if_splits)
        then obtain r k where r: "(r, k) \<in> set ?F" "a \<in> region r k" using rest(1) [of a v] by blast
        then have "(r, k) \<in> set L" "r \<noteq> p" by auto
        then obtain t' where t': "k \<le> t'" "(unat r, t') \<in> ?P bs - {(unat p, s)}"
          using liveD [OF bs(3)] by (fastforce simp: word_eq_unat)
        moreover have "a \<in> region r t'" using r(2) t'(1) by (auto simp: region_def)
        ultimately have "h_mem h' a = h_mem h a" using moved(8) by blast
        then show ?thesis using rest(2) [of a v] w r by auto
      qed
    qed
    ultimately show ?thesis using moved(1-3) same_arena_grow_ok [OF moved(3) bs(2)]
      unfolding run_inv_def by (auto simp: same_arena_def)
  qed
qed

lemma heap_run_inv: "heap_run h L w \<Longrightarrow> run_inv h L w"
proof (induction rule: heap_run.induct)
  case (init base sz h0 h)
  then show ?case by (rule run_inv_init)
next
  case (grow h L w f c)
  then show ?case by (auto simp: run_inv_def heap_set_grow_def heap_inv_def heap_core_def known_def)
next
  case (alloc h L w sz p h')
  then show ?case by (intro run_inv_alloc)
next
  case (calloc h L w n count sz p h')
  then show ?case by (intro run_inv_calloc)
next
  case (store h L w p n a v)
  then show ?case by (intro run_inv_store)
next
  case (free h L w p n e h')
  then show ?case using run_inv_free by blast
next
  case (bad_free h L w p e h')
  then show ?case using heap_free_error_keeps by blast
next
  case (realloc h L w p n sz q h')
  then show ?case by (intro run_inv_realloc)
qed

text \<open>
  C18. The heap is a memory: after any sequence of allocations (plain and clearing), stores into
  allocated bytes, frees, failed frees, reallocations and growth, \<open>heap_check\<close> accepts the heap; every live
  allocation is 8-byte aligned and lies inside the arena behind a header; no two of them
  overlap; and every byte reads back the value last stored, cleared or copied into it.
\<close>

theorem heap_run_safe:
  assumes "heap_run h L w"
  shows "heap_check h = Some HEAP_OK \<and>
    (\<forall>(p, n)\<in>set L. 8 dvd unat p \<and> unat (h_base h) + 24 \<le> unat p \<and> unat p + n \<le> unat (h_base h) + unat (h_size h)) \<and>
    distinct (map fst L) \<and>
    (\<forall>(p, n)\<in>set L. \<forall>(q, k)\<in>set L. p \<noteq> q \<longrightarrow> region p n \<inter> region q k = {}) \<and>
    (\<forall>a v. w a = Some v \<longrightarrow> h_mem h a = v)"
proof -
  obtain bs where bs: "heap_inv h bs" "live (h_base h) bs L" "known h L w"
    using heap_run_inv [OF assms] by (auto simp: run_inv_def)
  have C: "heap_core h bs" using bs(1) by (simp add: heap_inv_def)
  have "8 dvd unat p \<and> unat (h_base h) + 24 \<le> unat p \<and> unat p + n \<le> unat (h_base h) + unat (h_size h)"
    if pn: "(p, n) \<in> set L" for p n
  proof -
    obtain s where s: "n \<le> s" "(unat p, s) \<in> set (payloads (unat (h_base h)) bs)" using liveD [OF bs(2) pn] by blast
    then show ?thesis using payloads_bounds [OF s(2)] payload_dvd [OF s(2)] core_bounds [OF C] by simp
  qed
  moreover have "distinct (map fst L)" using bs(2) by (simp add: live_def)
  moreover have "region p n \<inter> region q k = {}" if "(p, n) \<in> set L" "(q, k) \<in> set L" "p \<noteq> q" for p n q k
    using live_disjoint [OF bs(1,2) that] .
  ultimately show ?thesis using heap_check_inv [OF bs(1)] bs(3) unfolding known_def by blast
qed

lemma heap4k_run: "heap_run heap4k [] Map.empty"
proof (rule heap_run.init)
  show "heap_init 0x1000 4096 blank_heap = (HEAP_OK, heap4k)"
    using heap4k_init by (simp add: heap4k_def prod_eq_iff)
qed simp_all

lemma heap_run_safe_witness:
  "\<exists>h. heap_alloc heap4k 100 = Some (0x1018, h) \<and> heap_check h = Some HEAP_OK \<and>
     heap_check (h\<lparr>h_mem := (h_mem h)(0x1018 := 7)\<rparr>) = Some HEAP_OK"
proof -
  have g: "grow_ok heap4k" by (simp add: grow_ok_def heap4k_fields)
  obtain p h where a: "heap_alloc heap4k 100 = Some (p, h)" "allocated heap4k [(4072, False)] [(4072, False)] 104 p h"
    using heap_alloc_spec [OF heap4k_inv g, of 100] by (auto simp: request_def fits_def)
  then have p: "p = 0x1018" by (auto simp: allocated_def Cons_eq_append_conv heap4k_fields)
  have r: "heap_run h [(0x1018, 100)] Map.empty"
    using heap_run.alloc [OF heap4k_run _ a(1)] p by simp
  have "heap_run (h\<lparr>h_mem := (h_mem h)(0x1018 := 7)\<rparr>) [(0x1018, 100)] (Map.empty(0x1018 \<mapsto> 7))"
    by (rule heap_run.store [OF r]) (auto intro: region_self)
  then show ?thesis using heap_run_safe [OF r] heap_run_safe a(1) p by blast
qed

end
