(* ===== verification/SchedKern.thy ===== *)
theory SchedKern
  imports Percpu Sched Kstack HeapRuns
begin

text \<open>
  The kernel side of the scheduler, \<open>arch/arm32/src/sched_kern.c\<close>: the run queues and idle tasks
  of the CPUs, the current task, the scheduling switch, thread creation and exit, sleeping, and the tick that
  moves a CPU from one task to another.

  The file's static variables, the task control blocks, the exception frames in memory and the
  per-CPU table form one record.  The thread register of the calling CPU is the argument \<open>self\<close>; a reading of the
  timer is the argument \<open>now\<close>.  A spin lock makes its section one step, so the lock itself has no state here.
  The heap gives the addresses of control blocks, whose contents are in the task store.
\<close>

section \<open>State\<close>

record 'g kern_t =
  kn_tcb :: tstore
  kn_frames :: "u32 \<Rightarrow> arm_exc_frame"
  kn_runq :: "nat \<Rightarrow> sched_queue_t"
  kn_percpu :: percpu_table
  kn_idle :: "nat \<Rightarrow> tcb_t"
  kn_ks :: "kstack_pool_t option"
  kn_heap :: "'g heap_t option"
  kn_enabled :: u32
  kn_off_depth :: u32
  kn_off_since :: u64
  kn_off_total :: u64
  kn_exit_count :: u32
  kn_exit_refused :: u32
  kn_exit_legacy :: u32
  kn_pick_cpu0 :: u32
  kn_reloc_skip :: u32
  kn_wake_skip :: u32
  kn_pick_sticky :: u32

definition on_percpu :: "nat \<Rightarrow> (percpu_t \<Rightarrow> percpu_t) \<Rightarrow> 'g kern_t \<Rightarrow> 'g kern_t" where
  "on_percpu i f k = k\<lparr>kn_percpu := (kn_percpu k)(i := f (kn_percpu k i))\<rparr>"

definition on_tcb :: "(tstore \<Rightarrow> tstore) \<Rightarrow> 'g kern_t \<Rightarrow> 'g kern_t" where
  "on_tcb f k = k\<lparr>kn_tcb := f (kn_tcb k)\<rparr>"

section \<open>Run queues and the current task\<close>

definition runq_of :: "u32 \<Rightarrow> nat option" where
  "runq_of cpu_id = (if unat cpu_id < PERCPU_MAX_CPUS then Some (unat cpu_id) else None)"

definition self_runq_kern :: "nat option \<Rightarrow> 'g kern_t \<Rightarrow> nat option" where
  "self_runq_kern self k =
     (case self of None \<Rightarrow> None | Some i \<Rightarrow> runq_of (p_cpu_id (kn_percpu k i)))"

definition pick_runq :: "u32 \<Rightarrow> 'g kern_t \<Rightarrow> nat" where
  "pick_runq task_level k =
     (if kn_pick_cpu0 k \<noteq> 0 then 0
      else
        let len = (\<lambda>i. q_count (kn_runq k i));
            rdy = (\<lambda>i. p_online (kn_percpu k i));
            rdy = rdy(0 := 1)
        in sched_pick_cpu task_level (Some len) (Some rdy) (of_nat PERCPU_MAX_CPUS))"

definition sched_cpu_runq_len :: "u32 \<Rightarrow> 'g kern_t \<Rightarrow> u32" where
  "sched_cpu_runq_len cpu_id k = (case runq_of cpu_id of None \<Rightarrow> 0 | Some c \<Rightarrow> q_count (kn_runq k c))"

definition sched_current :: "nat option \<Rightarrow> 'g kern_t \<Rightarrow> tcb_t" where
  "sched_current self k = (case self of None \<Rightarrow> NULL_TASK | Some i \<Rightarrow> p_current_task (kn_percpu k i))"

text \<open>The addresses of \<open>vfp\<close> and \<open>fpscr\<close> in a control block.\<close>

abbreviation (input) TCB_VFP :: u32 where "TCB_VFP \<equiv> 128"
abbreviation (input) TCB_FPSCR :: u32 where "TCB_FPSCR \<equiv> 384"

definition sched_set_current :: "nat option \<Rightarrow> tcb_t \<Rightarrow> 'g kern_t \<Rightarrow> 'g kern_t" where
  "sched_set_current self t k =
     (case self of
        None \<Rightarrow> k
      | Some i \<Rightarrow>
          let k = on_percpu i (\<lambda>p. p\<lparr>p_current_task := t\<rparr>) k
          in if t = NULL_TASK then on_percpu i (\<lambda>p. p\<lparr>p_cur_vfp_d := 0, p_cur_vfp_f := 0\<rparr>) k
             else on_percpu i (\<lambda>p. p\<lparr>p_cur_vfp_d := t + TCB_VFP, p_cur_vfp_f := t + TCB_FPSCR\<rparr>) k)"

definition sched_kern_bind :: "kstack_pool_t option \<Rightarrow> 'g heap_t option \<Rightarrow> 'g kern_t \<Rightarrow> 'g kern_t" where
  "sched_kern_bind ks heap k = k\<lparr>kn_ks := ks, kn_heap := heap\<rparr>"

definition sched_kern_init :: "nat option \<Rightarrow> 'g kern_t \<Rightarrow> 'g kern_t" where
  "sched_kern_init self k =
     (case self of
        None \<Rightarrow> k
      | Some i \<Rightarrow>
          (case self_runq_kern self k of
             None \<Rightarrow> k
           | Some c \<Rightarrow>
               on_percpu i (\<lambda>p. p\<lparr>p_switched := 0, p_preempted := 0, p_invalid_ctx := 0\<rparr>)
                 (k\<lparr>kn_runq := (kn_runq k)(c := sched_queue_init)\<rparr>)))"

section \<open>The scheduling switch\<close>

definition sched_disable :: "u64 \<Rightarrow> 'g kern_t \<Rightarrow> 'g kern_t" where
  "sched_disable now k =
     (let k = (if kn_off_depth k = 0 then k\<lparr>kn_off_since := now\<rparr> else k)
      in k\<lparr>kn_off_depth := kn_off_depth k + 1, kn_enabled := 0\<rparr>)"

definition sched_enable :: "u64 \<Rightarrow> 'g kern_t \<Rightarrow> 'g kern_t" where
  "sched_enable now k =
     (if kn_off_depth k = 0 then k\<lparr>kn_enabled := 1\<rparr>
      else
        let k = k\<lparr>kn_off_depth := kn_off_depth k - 1\<rparr>
        in if kn_off_depth k = 0
           then k\<lparr>kn_off_total := kn_off_total k + (now - kn_off_since k), kn_off_since := 0, kn_enabled := 1\<rparr>
           else k)"

definition sched_is_enabled :: "'g kern_t \<Rightarrow> bool" where
  "sched_is_enabled k \<longleftrightarrow> kn_enabled k \<noteq> 0"

definition sched_off_total_ns :: "u64 \<Rightarrow> 'g kern_t \<Rightarrow> u64" where
  "sched_off_total_ns now k =
     (if kn_off_depth k = 0 then kn_off_total k else kn_off_total k + (now - kn_off_since k))"

section \<open>Creating threads\<close>

text \<open>\<open>sizeof (struct arm_thread_control_block)\<close>.\<close>

abbreviation (input) TCB_BYTES :: u32 where "TCB_BYTES \<equiv> 512"

definition zero_ctx :: arm_task_ctx where
  "zero_ctx = \<lparr>c_r = (\<lambda>_. 0), c_sp = 0, c_lr = 0, c_pc = 0, c_cpsr = 0\<rparr>"

definition zero_tcb :: tcb where
  "zero_tcb = \<lparr>t_task_level = 0, t_tid = 0, t_name = [], t_status = CREATE, t_wakeup_time = 0, t_cpu_id = 0,
     t_ctx = zero_ctx, t_kernel_stack = 0, t_kstack_base = 0, t_kstack_guard = 0, t_kstack_slot = 0,
     t_owns_kstack = False, t_sched_next = NULL_TASK, t_vruntime = 0, t_deadline = 0, t_slice = 0,
     t_last_start = 0, t_runtime_ticks = 0\<rparr>"

text \<open>The name field has 32 characters with the terminator.\<close>

definition copy_name :: "string \<Rightarrow> string" where
  "copy_name name = take 31 (takeWhile (\<lambda>c. c \<noteq> CHR 0x00) name)"

definition thread_setup :: "u32 \<Rightarrow> u32 \<Rightarrow> string option \<Rightarrow> u32 \<Rightarrow> kstack_t \<Rightarrow> tcb \<Rightarrow> tcb" where
  "thread_setup entry arg name level stk x =
     (let x = x\<lparr>t_task_level := level, t_status := START, t_kernel_stack := k_top stk,
                t_kstack_base := k_base stk, t_kstack_guard := k_guard stk, t_kstack_slot := k_slot stk,
                t_owns_kstack := True\<rparr>;
          x = (case name of None \<Rightarrow> x | Some n \<Rightarrow> x\<lparr>t_name := copy_name n\<rparr>)
      in x\<lparr>t_ctx := \<lparr>c_r = (fold (\<lambda>i r. r(i := 0)) [0..<13] (c_r (t_ctx x)))(0 := arg), c_sp = k_top stk,
                      c_lr = 0, c_pc = entry, c_cpsr = ARM_CPSR_KERNEL\<rparr>\<rparr>)"

text \<open>Choosing the queue of a new thread, placing it there and appending it.\<close>

definition thread_enqueue :: "u64 \<Rightarrow> tcb_t \<Rightarrow> 'g kern_t \<Rightarrow> (bool \<times> 'g kern_t) option" where
  "thread_enqueue now t k =
     (let c = pick_runq (t_task_level (kn_tcb k t)) k;
          k = on_tcb (upd t (\<lambda>x. x\<lparr>t_cpu_id := of_nat c\<rparr>)) k
      in do {
        avg \<leftarrow> sched_queue_avg_vruntime (kn_tcb k) (Some (kn_runq k c)) NULL_TASK 0;
        let k = on_tcb (sched_entity_init t avg now) k;
        (ok, s, q) \<leftarrow> sched_queue_append t (kn_tcb k, kn_runq k c);
        Some (ok, k\<lparr>kn_tcb := s, kn_runq := (kn_runq k)(c := q)\<rparr>)
      })"

definition thread_abort :: "tcb_t \<Rightarrow> 'g heap_t \<Rightarrow> 'g kern_t \<Rightarrow> (tcb_t \<times> 'g kern_t) option" where
  "thread_abort t h k = do { (e, h) \<leftarrow> heap_free h t; Some (NULL_TASK, k\<lparr>kn_heap := Some h\<rparr>) }"

definition sched_kthread_create_level ::
  "nat option \<Rightarrow> u64 \<Rightarrow> u32 \<Rightarrow> u32 \<Rightarrow> string option \<Rightarrow> u32 \<Rightarrow> 'g kern_t \<Rightarrow> (tcb_t \<times> 'g kern_t) option" where
  "sched_kthread_create_level self now entry arg name level k =
     (if entry = 0 then Some (NULL_TASK, k)
      else (case (self_runq_kern self k, kn_ks k, kn_heap k) of
        (Some _, Some ks, Some h) \<Rightarrow> do {
          (t, h) \<leftarrow> heap_alloc h TCB_BYTES;
          let k = k\<lparr>kn_heap := Some h\<rparr>;
          if t = NULL_TASK then Some (NULL_TASK, k)
          else
            let k = on_tcb (upd t (\<lambda>_. zero_tcb)) k
            in (case kstack_alloc False ks of
                  (Inl e, ks) \<Rightarrow> thread_abort t h (k\<lparr>kn_ks := Some ks\<rparr>)
                | (Inr stk, ks) \<Rightarrow> do {
                    let k = on_tcb (upd t (thread_setup entry arg name level stk)) (k\<lparr>kn_ks := Some ks\<rparr>);
                    (ok, k) \<leftarrow> thread_enqueue now t k;
                    if \<not> ok then
                      (case kstack_free stk ks of (e, stk, ks) \<Rightarrow> thread_abort t h (k\<lparr>kn_ks := Some ks\<rparr>))
                    else Some (t, k)
                  })
        }
      | _ \<Rightarrow> Some (NULL_TASK, k)))"

definition sched_kthread_create ::
  "nat option \<Rightarrow> u64 \<Rightarrow> u32 \<Rightarrow> u32 \<Rightarrow> string option \<Rightarrow> 'g kern_t \<Rightarrow> (tcb_t \<times> 'g kern_t) option" where
  "sched_kthread_create self now entry arg name k =
     sched_kthread_create_level self now entry arg name TASK_KERNEL_LEVEL k"

section \<open>Yielding, exit, sleep and wake-up\<close>

text \<open>
  \<open>trap\<close> is the \<open>svc\<close> instruction as its caller sees it: everything that happens until the caller
  runs again.
\<close>

definition sched_yield :: "('g kern_t \<Rightarrow> 'g kern_t) \<Rightarrow> nat option \<Rightarrow> 'g kern_t \<Rightarrow> 'g kern_t" where
  "sched_yield trap self k =
     (case self of
        None \<Rightarrow> k
      | Some i \<Rightarrow> trap (on_percpu i (\<lambda>p. p\<lparr>p_scheduler_ticks := SCHED_TIME_SLICE\<rparr>) k))"

text \<open>The flag tells whether the call returns; otherwise the state is the one in which the thread halts.\<close>

definition sched_thread_exit :: "('g kern_t \<Rightarrow> 'g kern_t) \<Rightarrow> nat option \<Rightarrow> 'g kern_t \<Rightarrow> bool \<times> 'g kern_t" where
  "sched_thread_exit trap self k =
     (let cur = sched_current self k
      in if cur = NULL_TASK then (True, k)
         else if t_task_level (kn_tcb k cur) = TASK_IDLE_LEVEL
           then (True, k\<lparr>kn_exit_refused := kn_exit_refused k + 1\<rparr>)
         else if kn_exit_legacy k \<noteq> 0 then
           (False, sched_yield trap self (on_tcb (upd cur (\<lambda>x. x\<lparr>t_status := WAIT, t_wakeup_time := 0\<rparr>)) k))
         else
           let k = on_tcb (upd cur (\<lambda>x. x\<lparr>t_status := DEATH\<rparr>)) k;
               k = k\<lparr>kn_exit_count := kn_exit_count k + 1\<rparr>
           in (False, sched_yield trap self k))"

text \<open>The number of yields so far selects what happens during the next one.\<close>

partial_function (option) sleep_loop ::
  "(nat \<Rightarrow> 'g kern_t \<Rightarrow> 'g kern_t) \<Rightarrow> nat \<Rightarrow> nat option \<Rightarrow> tcb_t \<Rightarrow> 'g kern_t \<Rightarrow> 'g kern_t option" where
  "sleep_loop trap n self cur k =
     (let k = sched_yield (trap n) self k
      in if t_status (kn_tcb k cur) = WAIT then sleep_loop trap (n + 1) self cur k else Some k)"

definition sched_sleep_ns ::
  "(nat \<Rightarrow> 'g kern_t \<Rightarrow> 'g kern_t) \<Rightarrow> u64 \<Rightarrow> nat option \<Rightarrow> u64 \<Rightarrow> 'g kern_t \<Rightarrow> 'g kern_t option" where
  "sched_sleep_ns trap now self ns k =
     (if kn_enabled k = 0 \<or> ns = 0 then Some (sched_yield (trap 0) self k)
      else
        let cur = sched_current self k
        in if cur = NULL_TASK \<or> t_task_level (kn_tcb k cur) = TASK_IDLE_LEVEL
           then Some (sched_yield (trap 0) self k)
           else
             let wakeup = now + ns;
                 wakeup = (if wakeup < now then - 1 else wakeup)
             in do {
               k \<leftarrow> sleep_loop trap 0 self cur (on_tcb (upd cur (\<lambda>x. x\<lparr>t_wakeup_time := wakeup, t_status := WAIT\<rparr>)) k);
               Some (if t_status (kn_tcb k cur) = START
                     then on_tcb (upd cur (\<lambda>x. x\<lparr>t_status := RUNNING\<rparr>)) k else k)
             })"

definition sched_wake_task :: "nat option \<Rightarrow> tcb_t \<Rightarrow> 'g kern_t \<Rightarrow> 'g kern_t" where
  "sched_wake_task self t k =
     (if t = NULL_TASK \<or> t_status (kn_tcb k t) \<noteq> WAIT then k
      else
        let cur = sched_current self k;
            base = (if cur \<noteq> NULL_TASK \<and> t_task_level (kn_tcb k cur) \<noteq> TASK_IDLE_LEVEL
                    then t_vruntime (kn_tcb k cur) else 0);
            k = on_tcb (upd t (\<lambda>x. x\<lparr>t_wakeup_time := 0, t_status := START\<rparr>)) k
        in on_tcb (sched_apply_wakeup_credit t base) k)"

section \<open>Rosters and saved contexts\<close>

partial_function (option) count_walk :: "tstore \<Rightarrow> TaskStatus \<Rightarrow> tcb_t \<Rightarrow> u32 \<Rightarrow> u32 option" where
  "count_walk s st p n =
     (if p = NULL_TASK then Some n
      else count_walk s st (t_sched_next (s p)) (if t_status (s p) = st then n + 1 else n))"

definition sched_runq_count_status :: "u32 \<Rightarrow> TaskStatus \<Rightarrow> 'g kern_t \<Rightarrow> u32 option" where
  "sched_runq_count_status cpu_id st k =
     (case runq_of cpu_id of
        None \<Rightarrow> Some 0
      | Some c \<Rightarrow> count_walk (kn_tcb k) st (q_head (kn_runq k c)) 0)"

text \<open>At most \<open>max\<close> contexts, as the list of what the output array receives.\<close>

fun snapshot_walk :: "nat \<Rightarrow> tstore \<Rightarrow> tcb_t \<Rightarrow> arm_task_ctx list" where
  "snapshot_walk 0 s p = []"
| "snapshot_walk (Suc room) s p =
     (if p = NULL_TASK then [] else t_ctx (s p) # snapshot_walk room s (t_sched_next (s p)))"

definition sched_ctx_snapshot_all :: "nat option \<Rightarrow> u32 \<Rightarrow> 'g kern_t \<Rightarrow> arm_task_ctx list" where
  "sched_ctx_snapshot_all self mx k =
     (case self of
        None \<Rightarrow> []
      | Some i \<Rightarrow>
          (case runq_of (p_cpu_id (kn_percpu k i)) of
             None \<Rightarrow> []
           | Some c \<Rightarrow> snapshot_walk (unat mx) (kn_tcb k) (q_head (kn_runq k c))))"

fun restore_walk :: "arm_task_ctx list \<Rightarrow> tcb_t \<Rightarrow> tstore \<Rightarrow> tstore" where
  "restore_walk [] p s = s"
| "restore_walk (c # cs) p s =
     (if p = NULL_TASK then s else restore_walk cs (t_sched_next (s p)) (upd p (\<lambda>x. x\<lparr>t_ctx := c\<rparr>) s))"

definition sched_ctx_restore_all :: "nat option \<Rightarrow> arm_task_ctx list \<Rightarrow> 'g kern_t \<Rightarrow> 'g kern_t" where
  "sched_ctx_restore_all self cs k =
     (case self of
        None \<Rightarrow> k
      | Some i \<Rightarrow>
          (case runq_of (p_cpu_id (kn_percpu k i)) of
             None \<Rightarrow> k
           | Some c \<Rightarrow> on_tcb (restore_walk cs (q_head (kn_runq k c))) k))"

section \<open>Idle tasks\<close>

text \<open>\<open>sp\<close> is the stack pointer of the caller, \<open>idle_tcb\<close> the address of the CPU's static control block.\<close>

definition idle_setup :: "u32 \<Rightarrow> string \<Rightarrow> tcb" where
  "idle_setup sp name =
     zero_tcb\<lparr>t_task_level := TASK_IDLE_LEVEL, t_status := RUNNING, t_kernel_stack := sp,
       t_ctx := zero_ctx\<lparr>c_sp := sp, c_pc := 0, c_cpsr := ARM_CPSR_KERNEL\<rparr>, t_owns_kstack := False,
       t_name := name\<rparr>"

definition register_idle ::
  "nat option \<Rightarrow> nat \<Rightarrow> tcb_t \<Rightarrow> string \<Rightarrow> u32 \<Rightarrow> u64 \<Rightarrow> 'g kern_t \<Rightarrow> 'g kern_t option" where
  "register_idle self c idle_tcb name sp now k =
     (let k = on_tcb (upd idle_tcb (\<lambda>_. idle_setup sp name)) k;
          k = on_tcb (sched_entity_init idle_tcb 0 now) k;
          k = k\<lparr>kn_idle := (kn_idle k)(c := idle_tcb)\<rparr>;
          k = sched_set_current self idle_tcb k
      in do {
        (ok, s, q) \<leftarrow> sched_queue_append idle_tcb (kn_tcb k, kn_runq k c);
        let k = k\<lparr>kn_tcb := s, kn_runq := (kn_runq k)(c := q)\<rparr>;
        Some (if \<not> ok then sched_set_current self NULL_TASK (k\<lparr>kn_idle := (kn_idle k)(c := NULL_TASK)\<rparr>) else k)
      })"

definition sched_register_boot_idle ::
  "nat option \<Rightarrow> tcb_t \<Rightarrow> u32 \<Rightarrow> u64 \<Rightarrow> 'g kern_t \<Rightarrow> 'g kern_t option" where
  "sched_register_boot_idle self idle_tcb sp now k = register_idle self 0 idle_tcb ''idle'' sp now k"

definition sched_boot_idle :: "'g kern_t \<Rightarrow> tcb_t" where
  "sched_boot_idle k = kn_idle k 0"

definition sched_idle_of :: "u32 \<Rightarrow> 'g kern_t \<Rightarrow> tcb_t" where
  "sched_idle_of cpu_id k = (if unat cpu_id < PERCPU_MAX_CPUS then kn_idle k (unat cpu_id) else NULL_TASK)"

definition sched_register_ap_idle ::
  "nat option \<Rightarrow> (nat \<Rightarrow> tcb_t) \<Rightarrow> u32 \<Rightarrow> u64 \<Rightarrow> 'g kern_t \<Rightarrow> 'g kern_t option" where
  "sched_register_ap_idle self idle_tcb sp now k =
     (case self of
        None \<Rightarrow> Some k
      | Some i \<Rightarrow>
          if p_cpu_id (kn_percpu k i) = 0 then Some k
          else (case runq_of (p_cpu_id (kn_percpu k i)) of
                  None \<Rightarrow> Some k
                | Some c \<Rightarrow> register_idle self c (idle_tcb c) ''idle1'' sp now k))"

section \<open>The tick\<close>

text \<open>Charging the current task; the flag tells that its time slice has not run out.\<close>

definition tick_charge :: "nat \<Rightarrow> tcb_t \<Rightarrow> 'g kern_t \<Rightarrow> bool \<times> 'g kern_t" where
  "tick_charge i cur k =
     (if t_status (kn_tcb k cur) = RUNNING \<and> t_task_level (kn_tcb k cur) \<noteq> TASK_IDLE_LEVEL then
        let k = on_percpu i (\<lambda>p. p\<lparr>p_scheduler_ticks := p_scheduler_ticks p + 1\<rparr>) k;
            k = on_tcb (sched_account_run cur SCHED_TICK_NS) k;
            k = on_tcb (upd cur (\<lambda>x. x\<lparr>t_runtime_ticks := t_runtime_ticks x + 1\<rparr>)) k
        in (p_scheduler_ticks (kn_percpu k i) < SCHED_TIME_SLICE, k)
      else (False, on_percpu i (\<lambda>p. p\<lparr>p_scheduler_ticks := 0\<rparr>) k))"

text \<open>The switch itself: from \<open>cur\<close>, interrupted with its frame at \<open>fp\<close>, to \<open>next\<close> with its frame at \<open>nf\<close>.\<close>

definition tick_switch :: "nat \<Rightarrow> tcb_t \<Rightarrow> tcb_t \<Rightarrow> u32 \<Rightarrow> u32 \<Rightarrow> 'g kern_t \<Rightarrow> u32 \<times> 'g kern_t" where
  "tick_switch i cur nxt fp nf k =
     (let k = (if t_status (kn_tcb k cur) = RUNNING then on_tcb (upd cur (\<lambda>x. x\<lparr>t_status := START\<rparr>)) k else k);
          k = (if t_status (kn_tcb k nxt) = START \<or> t_status (kn_tcb k nxt) = CREATE
               then on_tcb (upd nxt (\<lambda>x. x\<lparr>t_status := RUNNING\<rparr>)) k else k);
          k = on_tcb (sched_ctx_from_frame cur (Some (fp, kn_frames k fp))) k;
          k = (case sched_frame_from_ctx (kn_tcb k) nxt (Some (kn_frames k nf)) of
                 None \<Rightarrow> k | Some f \<Rightarrow> k\<lparr>kn_frames := (kn_frames k)(nf := f)\<rparr>);
          k = sched_set_current (Some i) nxt k;
          k = on_percpu i (\<lambda>p. p\<lparr>p_scheduler_ticks := 0, p_switched := p_switched p + 1\<rparr>) k;
          k = (if t_task_level (kn_tcb k cur) \<noteq> TASK_IDLE_LEVEL
               then on_percpu i (\<lambda>p. p\<lparr>p_preempted := p_preempted p + 1\<rparr>) k else k)
      in if kn_reloc_skip k \<noteq> 0
         then (fp, on_percpu i (\<lambda>p. p\<lparr>p_cur_vfp_d := 0, p_cur_vfp_f := 0\<rparr>) k)
         else (nf, k))"

text \<open>The result is the address of the frame the exception returns through.\<close>

definition sched_tick :: "nat option \<Rightarrow> u64 \<Rightarrow> u32 \<Rightarrow> 'g kern_t \<Rightarrow> (u32 \<times> 'g kern_t) option" where
  "sched_tick self now fp k =
     (if fp = 0 then Some (fp, k)
      else if kn_enabled k = 0 then Some (fp, k)
      else (case self of
        None \<Rightarrow> Some (fp, k)
      | Some i \<Rightarrow>
          let cur = sched_current self k
          in (case runq_of (p_cpu_id (kn_percpu k i)) of
                None \<Rightarrow> Some (fp, k)
              | Some c \<Rightarrow>
                  if cur = NULL_TASK then Some (fp, k)
                  else
                    let (in_slice, k) = tick_charge i cur k;
                        stay = (\<lambda>k. (fp, on_percpu i (\<lambda>p. p\<lparr>p_scheduler_ticks := 0\<rparr>) k));
                        invalid = on_percpu i (\<lambda>p. p\<lparr>p_invalid_ctx := p_invalid_ctx p + 1\<rparr>)
                    in if in_slice then Some (fp, k)
                       else do {
                         (nxt, sticky, s) \<leftarrow> sched_select_next (kn_wake_skip k) (kn_pick_sticky k)
                                              (Some (kn_runq k c)) cur now (kn_tcb k);
                         let k = k\<lparr>kn_tcb := s, kn_pick_sticky := sticky\<rparr>;
                         if nxt = NULL_TASK \<or> nxt = cur then Some (stay k)
                         else if \<not> sched_ctx_switchable (kn_tcb k) nxt then Some (stay (invalid k))
                         else (case sched_frame_for (kn_tcb k) nxt of
                                 None \<Rightarrow> Some (stay (invalid k))
                               | Some nf \<Rightarrow> Some (tick_switch i cur nxt fp nf k))
                       })))"

end
