(* ===== verification/SchedTick.thy ===== *)
theory SchedTick
  imports SchedKern
begin

text \<open>
  The tick on a well-formed run queue: what it leaves alone, when it switches and to whom, and
  what a task finds when it is resumed.
\<close>

section \<open>What scheduling leaves alone\<close>

text \<open>A control block without the fields that accounting, waking and dispatching write.\<close>

definition settled :: "tcb \<Rightarrow> tcb" where
  "settled x = x\<lparr>t_status := CREATE, t_wakeup_time := 0, t_vruntime := 0, t_deadline := 0, t_slice := 0,
     t_last_start := 0, t_runtime_ticks := 0\<rparr>"

definition woken :: "TaskStatus \<Rightarrow> TaskStatus \<Rightarrow> bool" where
  "woken st st' \<longleftrightarrow> st' = st \<or> st = WAIT \<and> st' = START"

definition steady :: "tstore \<Rightarrow> tstore \<Rightarrow> bool" where
  "steady s s' \<longleftrightarrow> (\<forall>x. settled (s' x) = settled (s x) \<and> woken (t_status (s x)) (t_status (s' x)))"

lemma steady_refl [simp]: "steady s s"
  by (simp add: steady_def woken_def)

lemma steady_trans [trans]: "steady s s1 \<Longrightarrow> steady s1 s2 \<Longrightarrow> steady s s2"
  unfolding steady_def woken_def by metis

lemma steadyD:
  assumes "steady s s'"
  shows "t_ctx (s' x) = t_ctx (s x)" "t_task_level (s' x) = t_task_level (s x)"
    "t_sched_next (s' x) = t_sched_next (s x)" "t_owns_kstack (s' x) = t_owns_kstack (s x)"
    "t_kstack_base (s' x) = t_kstack_base (s x)" "t_kernel_stack (s' x) = t_kernel_stack (s x)"
    "woken (t_status (s x)) (t_status (s' x))"
proof -
  have e: "settled (s' x) = settled (s x)" using assms by (simp add: steady_def)
  show "t_ctx (s' x) = t_ctx (s x)" using arg_cong [OF e, of t_ctx] by (simp add: settled_def)
  show "t_task_level (s' x) = t_task_level (s x)" using arg_cong [OF e, of t_task_level] by (simp add: settled_def)
  show "t_sched_next (s' x) = t_sched_next (s x)" using arg_cong [OF e, of t_sched_next] by (simp add: settled_def)
  show "t_owns_kstack (s' x) = t_owns_kstack (s x)" using arg_cong [OF e, of t_owns_kstack] by (simp add: settled_def)
  show "t_kstack_base (s' x) = t_kstack_base (s x)" using arg_cong [OF e, of t_kstack_base] by (simp add: settled_def)
  show "t_kernel_stack (s' x) = t_kernel_stack (s x)" using arg_cong [OF e, of t_kernel_stack] by (simp add: settled_def)
  show "woken (t_status (s x)) (t_status (s' x))" using assms by (simp add: steady_def)
qed

lemma steady_upd:
  assumes "settled (f (s t)) = settled (s t)" "woken (t_status (s t)) (t_status (f (s t)))"
  shows "steady s (upd t f s)"
  using assms by (simp add: steady_def upd_apply woken_def)

lemma steady_credit: "steady s (sched_apply_wakeup_credit t b s)"
  by (auto simp: sched_apply_wakeup_credit_def Let_def steady_def upd_apply settled_def woken_def)

lemma steady_wake: "steady s (snd (sched_wake_if_due t now b s))"
proof (cases "fst (sched_wake_if_due t now b s)")
  case True
  then have w: "t_status (s t) = WAIT" "snd (sched_wake_if_due t now b s) =
      sched_apply_wakeup_credit t b (upd t (\<lambda>x. x\<lparr>t_wakeup_time := 0, t_status := START\<rparr>) s)"
    by (auto simp: sched_wake_if_due_def split: if_splits)
  then have "steady s (upd t (\<lambda>x. x\<lparr>t_wakeup_time := 0, t_status := START\<rparr>) s)"
    by (intro steady_upd) (simp_all add: settled_def woken_def)
  then show ?thesis unfolding w(2) using steady_credit steady_trans by blast
next
  case False
  then show ?thesis by (auto simp: sched_wake_if_due_def split: if_splits)
qed

lemma steady_scan_one: "steady (fst sa) (fst (scan_one ws cur now c sa))"
  by (simp add: scan_one_def Let_def steady_wake)

lemma steady_scan: "steady (fst sa) (fst (fold (scan_one ws cur now) xs sa))"
proof (induction xs arbitrary: sa)
  case (Cons x xs)
  show ?case using steady_trans [OF steady_scan_one Cons] by simp
qed simp

lemma steady_mark: "steady s (sched_mark_dispatched t now s)"
  by (auto simp: sched_mark_dispatched_def Let_def steady_def upd_apply settled_def woken_def)

lemma mark_status [simp]: "t_status (sched_mark_dispatched t now s x) = t_status (s x)"
  by (simp add: sched_mark_dispatched_def Let_def upd_apply)

lemma steady_account: "steady s (sched_account_run t r s)"
  by (auto simp: sched_account_run_def Let_def steady_def upd_apply settled_def woken_def)

lemma steady_chain: "steady s s' \<Longrightarrow> chain s' p xs = chain s p xs"
  by (rule chain_cong) (simp add: steadyD(3))

lemma steady_rep: "steady s s' \<Longrightarrow> queue_rep (s', q) xs = queue_rep (s, q) xs"
  by (simp add: queue_rep_def steady_chain)

lemma steady_switchable: "steady s s' \<Longrightarrow> sched_ctx_switchable s' t = sched_ctx_switchable s t"
  by (simp add: sched_ctx_switchable_def Let_def steadyD)

text \<open>Selection, as the tick sees it.\<close>

lemma select_next_tick:
  assumes "queue_rep (s, q) xs" "xs \<noteq> []"
  shows "\<exists>r s'. sched_select_next ws 0 (Some q) cur now s = Some (r, 0, s') \<and> steady s s' \<and>
    (r = NULL_TASK \<or> r = cur \<or> r \<in> set xs \<and> (sched_status_runnable (t_status (s' r)) \<or> t_task_level (s' r) = TASK_IDLE_LEVEL)) \<and>
    (\<not> sched_status_runnable (t_status (s' cur)) \<and> (\<exists>x\<in>set xs. x \<noteq> cur \<and> t_task_level (s x) = TASK_IDLE_LEVEL)
       \<longrightarrow> r \<noteq> NULL_TASK \<and> r \<noteq> cur) \<and>
    ((\<exists>x\<in>set xs. x \<noteq> cur \<and> sched_status_runnable (t_status (s x)) \<and> t_task_level (s x) \<noteq> TASK_IDLE_LEVEL)
       \<longrightarrow> r \<noteq> NULL_TASK \<and> r \<noteq> cur)"
proof -
  let ?s = "snd (sched_wake_if_due cur now (if cur \<noteq> NULL_TASK then t_vruntime (s cur) else 0) s)"
  from select_next_spec [OF assms, of ws cur now] obtain avg fb idle s1 r where
    scan: "sched_queue_scan ws (Some q) cur now ?s = Some ((avg, fb, idle), s1)"
    and sel: "sched_select_next ws 0 (Some q) cur now s = Some (r, 0, sched_mark_dispatched r now s1)"
    and ch: "if candidates s1 cur xs = {} then r = (if sched_current_runnable s1 cur then cur else idle)
       else if \<exists>x\<in>candidates s1 cur xs. t_vruntime (s1 x) \<le> avg
         then r \<in> candidates s1 cur xs \<and> t_vruntime (s1 r) \<le> avg \<and>
              (\<forall>x\<in>candidates s1 cur xs. t_vruntime (s1 x) \<le> avg \<longrightarrow> \<not> sched_deadline_before s1 x r)
       else r \<in> candidates s1 cur xs \<and> (\<forall>x\<in>candidates s1 cur xs. \<not> sched_deadline_before s1 x r)"
    and idle: "idle \<noteq> NULL_TASK \<longrightarrow> idle \<in> set xs \<and> idle \<noteq> cur \<and> t_task_level (s idle) = TASK_IDLE_LEVEL"
      "(\<exists>x\<in>set xs. x \<noteq> cur \<and> t_task_level (s x) = TASK_IDLE_LEVEL) \<longrightarrow> idle \<noteq> NULL_TASK"
    by blast
  have choice: "if candidates s1 cur xs = {} then r = (if sched_current_runnable s1 cur then cur else idle)
       else r \<in> candidates s1 cur xs"
    using ch by presburger
  have "chain ?s (q_head q) xs" using assms(1) by (simp add: queue_rep_def wake_chain)
  then obtain a where "s1 = fst (fold (scan_one ws cur now) xs (?s, a))" using scan_store [OF scan] by blast
  then have "steady ?s s1" using steady_scan [of "(?s, a)"] by simp
  then have st: "steady s (sched_mark_dispatched r now s1)"
    using steady_trans [OF steady_trans [OF steady_wake] steady_mark] by blast
  have C: "x \<in> set xs \<and> x \<noteq> cur \<and> sched_status_runnable (t_status (s1 x))" if "x \<in> candidates s1 cur xs" for x
    using that by (auto simp: candidates_def sched_task_schedulable_def split: if_splits)
  have N: "NULL_TASK \<notin> set xs" using assms(1) chain_nonnull by (fastforce simp: queue_rep_def)
  have L: "t_task_level (sched_mark_dispatched r now s1 x) = t_task_level (s x)" for x using steadyD(2) [OF st] .
  have "r = NULL_TASK \<or> r = cur \<or> r \<in> set xs \<and>
      (sched_status_runnable (t_status (s1 r)) \<or> t_task_level (s r) = TASK_IDLE_LEVEL)"
    using choice idle(1) C by (auto split: if_splits)
  moreover have "r \<noteq> NULL_TASK \<and> r \<noteq> cur" if "\<not> sched_status_runnable (t_status (s1 cur))"
    "\<exists>x\<in>set xs. x \<noteq> cur \<and> t_task_level (s x) = TASK_IDLE_LEVEL"
    using choice idle that C [of r] N by (auto simp: sched_current_runnable_def split: if_splits)
  moreover have "r \<noteq> NULL_TASK \<and> r \<noteq> cur" if x: "x \<in> set xs" "x \<noteq> cur"
    "sched_status_runnable (t_status (s x))" "t_task_level (s x) \<noteq> TASK_IDLE_LEVEL" for x
  proof -
    have "sched_status_runnable (t_status (s1 x))"
      using x(3) steadyD(7) [OF st, of x] by (auto simp: woken_def sched_status_runnable_def)
    then have "x \<in> candidates s1 cur xs"
      using x L [of x] N steadyD(2) [OF steady_mark, of r now s1 x]
      by (auto simp: candidates_def sched_task_schedulable_def)
    then show ?thesis using choice C [of r] N by (auto split: if_splits)
  qed
  ultimately show ?thesis using sel st L by auto
qed

section \<open>The outcome of a tick\<close>

text \<open>A state in which only the task store and two counters of one CPU differ from \<open>k\<close>.\<close>

definition kept :: "nat \<Rightarrow> tstore \<Rightarrow> u64 \<Rightarrow> u32 \<Rightarrow> 'g kern_t \<Rightarrow> 'g kern_t" where
  "kept i s n m k = k\<lparr>kn_tcb := s,
     kn_percpu := (kn_percpu k)(i := (kn_percpu k i)\<lparr>p_scheduler_ticks := n, p_invalid_ctx := m\<rparr>)\<rparr>"

lemma kept_sel [simp]:
  "kn_tcb (kept i s n m k) = s" "kn_frames (kept i s n m k) = kn_frames k" "kn_runq (kept i s n m k) = kn_runq k"
  "p_current_task (kn_percpu (kept i s n m k) j) = p_current_task (kn_percpu k j)"
  "p_cpu_id (kn_percpu (kept i s n m k) j) = p_cpu_id (kn_percpu k j)"
  "p_switched (kn_percpu (kept i s n m k) j) = p_switched (kn_percpu k j)"
  "kn_reloc_skip (kept i s n m k) = kn_reloc_skip k" "kn_wake_skip (kept i s n m k) = kn_wake_skip k"
  "kn_pick_sticky (kept i s n m k) = kn_pick_sticky k"
  by (simp_all add: kept_def)

lemma percpu_swap: "p\<lparr>p_invalid_ctx := m, p_scheduler_ticks := n\<rparr> = p\<lparr>p_scheduler_ticks := n, p_invalid_ctx := m\<rparr>"
  by simp

lemma kept_counters:
  "on_percpu i (\<lambda>p. p\<lparr>p_scheduler_ticks := 0\<rparr>) (kept i s n m k) = kept i s 0 m k"
  "on_percpu i (\<lambda>p. p\<lparr>p_invalid_ctx := p_invalid_ctx p + 1\<rparr>) (kept i s n m k) = kept i s n (m + 1) k"
  by (simp_all add: on_percpu_def kept_def percpu_swap)

lemma kept_kept: "kept i s' n' m' (kept i s n m k) = kept i s' n' m' k"
  by (simp add: kept_def)

lemma tick_charge_kept:
  "\<exists>s n. snd (tick_charge i cur k) = kept i s n (p_invalid_ctx (kn_percpu k i)) k \<and> steady (kn_tcb k) s"
proof (cases "t_status (kn_tcb k cur) = RUNNING \<and> t_task_level (kn_tcb k cur) \<noteq> TASK_IDLE_LEVEL")
  case True
  let ?s = "upd cur (\<lambda>x. x\<lparr>t_runtime_ticks := t_runtime_ticks x + 1\<rparr>) (sched_account_run cur SCHED_TICK_NS (kn_tcb k))"
  have "steady (kn_tcb k) ?s"
    by (rule steady_trans [OF steady_account steady_upd]) (simp_all add: settled_def woken_def)
  moreover have "snd (tick_charge i cur k) =
      kept i ?s (p_scheduler_ticks (kn_percpu k i) + 1) (p_invalid_ctx (kn_percpu k i)) k"
    using True by (simp add: tick_charge_def Let_def on_percpu_def on_tcb_def kept_def)
  ultimately show ?thesis by blast
next
  case False
  then have "snd (tick_charge i cur k) = kept i (kn_tcb k) 0 (p_invalid_ctx (kn_percpu k i)) k"
    by (auto simp: tick_charge_def on_percpu_def kept_def)
  then show ?thesis using steady_refl by blast
qed

text \<open>What the tick of a CPU with a current task and a well-formed, non-empty run queue needs.\<close>

definition ready_to_tick :: "nat \<Rightarrow> nat \<Rightarrow> tcb_t list \<Rightarrow> 'g kern_t \<Rightarrow> bool" where
  "ready_to_tick i c xs k \<longleftrightarrow> kn_enabled k \<noteq> 0 \<and> runq_of (p_cpu_id (kn_percpu k i)) = Some c \<and>
     p_current_task (kn_percpu k i) \<noteq> NULL_TASK \<and> queue_rep (kn_tcb k, kn_runq k c) xs \<and> xs \<noteq> [] \<and>
     kn_pick_sticky k = 0 \<and> kn_reloc_skip k = 0"

lemma tick_cases:
  assumes "ready_to_tick i c xs k" "fp \<noteq> 0" and cur: "cur = p_current_task (kn_percpu k i)"
  obtains (stay) s n m where "sched_tick (Some i) now fp k = Some (fp, kept i s n m k)" "steady (kn_tcb k) s"
      "fst (tick_charge i cur k) \<or> (\<exists>r s'.
         sched_select_next (kn_wake_skip k) 0 (Some (kn_runq k c)) cur now (kn_tcb (snd (tick_charge i cur k))) = Some (r, 0, s') \<and>
         (r = NULL_TASK \<or> r = cur \<or> \<not> sched_ctx_switchable (kn_tcb k) r))"
    | (switch) nxt s n m where
      "sched_tick (Some i) now fp k = Some (tick_switch i cur nxt fp (c_sp (t_ctx (kn_tcb k nxt)) - 64) (kept i s n m k))"
      "steady (kn_tcb k) s" "nxt \<noteq> NULL_TASK" "nxt \<noteq> cur" "nxt \<in> set xs" "sched_ctx_switchable (kn_tcb k) nxt"
      "sched_status_runnable (t_status (s nxt)) \<or> t_task_level (s nxt) = TASK_IDLE_LEVEL"
proof -
  obtain b k0 where c0: "tick_charge i cur k = (b, k0)" by fastforce
  obtain s0 n0 where k0: "k0 = kept i s0 n0 (p_invalid_ctx (kn_percpu k i)) k" and st0: "steady (kn_tcb k) s0"
    using tick_charge_kept [of i cur k] c0 by auto
  show ?thesis
  proof (cases b)
    case True
    then have "sched_tick (Some i) now fp k = Some (fp, k0)"
      using assms c0 by (simp add: sched_tick_def ready_to_tick_def sched_current_def)
    then show ?thesis using stay k0 st0 c0 True by simp
  next
    case False
    have "queue_rep (s0, kn_runq k c) xs" "xs \<noteq> []"
      using assms(1) steady_rep [OF st0] by (simp_all add: ready_to_tick_def)
    from select_next_tick [OF this, of "kn_wake_skip k" cur now] obtain r s where
      sel: "sched_select_next (kn_wake_skip k) 0 (Some (kn_runq k c)) cur now s0 = Some (r, 0, s)" "steady s0 s"
      "r = NULL_TASK \<or> r = cur \<or> r \<in> set xs \<and> (sched_status_runnable (t_status (s r)) \<or> t_task_level (s r) = TASK_IDLE_LEVEL)"
      by blast
    have st: "steady (kn_tcb k) s" using steady_trans [OF st0 sel(2)] .
    have e: "k0\<lparr>kn_tcb := s, kn_pick_sticky := 0\<rparr> = kept i s n0 (p_invalid_ctx (kn_percpu k i)) k"
      using assms(1) by (simp add: k0 kept_def ready_to_tick_def)
    show ?thesis
    proof (cases "r = NULL_TASK \<or> r = cur \<or> \<not> sched_ctx_switchable s r")
      case True
      then have "sched_tick (Some i) now fp k = Some (fp, kept i s 0
          (if r = NULL_TASK \<or> r = cur then p_invalid_ctx (kn_percpu k i) else p_invalid_ctx (kn_percpu k i) + 1) k)"
        using assms(1,2) c0 False sel(1) cur
        by (cases "r = NULL_TASK \<or> r = cur")
          (simp_all add: sched_tick_def ready_to_tick_def sched_current_def k0 e [unfolded k0] Let_def kept_counters)
      moreover have "r = NULL_TASK \<or> r = cur \<or> \<not> sched_ctx_switchable (kn_tcb k) r"
        using True steady_switchable [OF st] by simp
      ultimately show ?thesis using stay st sel(1) by (simp add: c0 k0)
    next
      case sw: False
      then have f: "sched_frame_for s r = Some (c_sp (t_ctx (kn_tcb k r)) - 64)"
        by (simp add: sched_frame_for_def steadyD(1) [OF st])
      have "sched_tick (Some i) now fp k =
          Some (tick_switch i cur r fp (c_sp (t_ctx (kn_tcb k r)) - 64) (kept i s n0 (p_invalid_ctx (kn_percpu k i)) k))"
        using assms(1,2) c0 False sel(1) sw f cur
        by (simp add: sched_tick_def ready_to_tick_def sched_current_def k0 e [unfolded k0] Let_def)
      moreover have "sched_ctx_switchable (kn_tcb k) r" using sw steady_switchable [OF st] by simp
      ultimately show ?thesis using switch st sel(3) sw by blast
    qed
  qed
qed

text \<open>A saved context and the frame it was taken from, or is put back into.\<close>

definition ctx_of_frame :: "arm_task_ctx \<Rightarrow> u32 \<Rightarrow> arm_exc_frame \<Rightarrow> bool" where
  "ctx_of_frame c fp f \<longleftrightarrow> (\<forall>j<13. c_r c j = f_r f j) \<and> c_sp c = fp + 64 \<and> c_lr c = f_svc_lr f \<and>
     c_pc c = f_ret f \<and> c_cpsr c = f_spsr f"

definition same_frame :: "arm_exc_frame \<Rightarrow> arm_exc_frame \<Rightarrow> bool" where
  "same_frame f g \<longleftrightarrow> (\<forall>j<13. f_r f j = f_r g j) \<and> f_svc_lr f = f_svc_lr g \<and> f_ret f = f_ret g \<and> f_spsr f = f_spsr g"

definition switch_status :: "tcb_t \<Rightarrow> tcb_t \<Rightarrow> tstore \<Rightarrow> tstore" where
  "switch_status cur nxt s =
     (let s = (if t_status (s cur) = RUNNING then upd cur (\<lambda>x. x\<lparr>t_status := START\<rparr>) s else s)
      in if t_status (s nxt) = START \<or> t_status (s nxt) = CREATE then upd nxt (\<lambda>x. x\<lparr>t_status := RUNNING\<rparr>) s else s)"

lemma switch_status_fields:
  "t_ctx (switch_status cur nxt s t) = t_ctx (s t)" "t_sched_next (switch_status cur nxt s t) = t_sched_next (s t)"
  "t_task_level (switch_status cur nxt s t) = t_task_level (s t)"
  by (simp_all add: switch_status_def Let_def upd_apply)

lemma switch_status_status:
  "cur \<noteq> nxt \<Longrightarrow> t_status (switch_status cur nxt s t) =
     (if t = cur then (if t_status (s t) = RUNNING then START else t_status (s t))
      else if t = nxt \<and> t_status (s t) \<in> {START, CREATE} then RUNNING else t_status (s t))"
  by (auto simp: switch_status_def Let_def upd_apply)

lemma from_frame_fields:
  "t_sched_next (sched_ctx_from_frame c F s t) = t_sched_next (s t)"
  "t_task_level (sched_ctx_from_frame c F s t) = t_task_level (s t)"
  "t_status (sched_ctx_from_frame c F s t) = t_status (s t)"
  "t \<noteq> c \<Longrightarrow> sched_ctx_from_frame c F s t = s t"
  by (auto simp: sched_ctx_from_frame_def upd_apply split: option.splits)

lemma on_tcb_if: "(if b then on_tcb f k else k) = k\<lparr>kn_tcb := if b then f (kn_tcb k) else kn_tcb k\<rparr>"
  by (simp add: on_tcb_def)

lemma on_percpu_if: "(if b then on_percpu i f k else k) = on_percpu i (\<lambda>p. if b then f p else p) k"
  by (simp add: on_percpu_def)

lemma tick_switch_eq:
  assumes "nxt \<noteq> NULL_TASK" "kn_reloc_skip k = 0"
  shows "tick_switch i cur nxt fp nf k =
    (let s = sched_ctx_from_frame cur (Some (fp, kn_frames k fp)) (switch_status cur nxt (kn_tcb k));
         p = (kn_percpu k i)\<lparr>p_current_task := nxt, p_cur_vfp_d := nxt + TCB_VFP, p_cur_vfp_f := nxt + TCB_FPSCR,
               p_scheduler_ticks := 0, p_switched := p_switched (kn_percpu k i) + 1\<rparr>;
         p = (if t_task_level (s cur) \<noteq> TASK_IDLE_LEVEL then p\<lparr>p_preempted := p_preempted p + 1\<rparr> else p)
     in (nf, k\<lparr>kn_tcb := s, kn_frames := (kn_frames k)(nf := the (sched_frame_from_ctx s nxt (Some (kn_frames k nf)))),
               kn_percpu := (kn_percpu k)(i := p)\<rparr>))"
proof -
  have f: "sched_frame_from_ctx s nxt (Some d) = Some (the (sched_frame_from_ctx s nxt (Some d)))" for s d
    using assms(1) by (simp add: sched_frame_from_ctx_def)
  define s where s: "s = sched_ctx_from_frame cur (Some (fp, kn_frames k fp)) (switch_status cur nxt (kn_tcb k))"
  define g where g: "g = the (sched_frame_from_ctx s nxt (Some (kn_frames k nf)))"
  have f': "sched_frame_from_ctx s nxt (Some (kn_frames k nf)) = Some g" unfolding g by (rule f)
  have k2: "(let k = (if t_status (kn_tcb k cur) = RUNNING then on_tcb (upd cur (\<lambda>x. x\<lparr>t_status := START\<rparr>)) k else k)
     in if t_status (kn_tcb k nxt) = START \<or> t_status (kn_tcb k nxt) = CREATE
        then on_tcb (upd nxt (\<lambda>x. x\<lparr>t_status := RUNNING\<rparr>)) k else k) = k\<lparr>kn_tcb := switch_status cur nxt (kn_tcb k)\<rparr>"
    by (simp add: switch_status_def Let_def on_tcb_def)
  have "tick_switch i cur nxt fp nf k =
    (let k = k\<lparr>kn_tcb := s, kn_frames := (kn_frames k)(nf := g)\<rparr>;
         k = sched_set_current (Some i) nxt k;
         k = on_percpu i (\<lambda>p. p\<lparr>p_scheduler_ticks := 0, p_switched := p_switched p + 1\<rparr>) k;
         k = (if t_task_level (kn_tcb k cur) \<noteq> TASK_IDLE_LEVEL
               then on_percpu i (\<lambda>p. p\<lparr>p_preempted := p_preempted p + 1\<rparr>) k else k)
      in if kn_reloc_skip k \<noteq> 0
         then (fp, on_percpu i (\<lambda>p. p\<lparr>p_cur_vfp_d := 0, p_cur_vfp_f := 0\<rparr>) k)
         else (nf, k))"
    using k2 f' by (simp add: tick_switch_def Let_def on_tcb_def s)
  also have "\<dots> = (nf, k\<lparr>kn_tcb := s, kn_frames := (kn_frames k)(nf := g),
      kn_percpu := (kn_percpu k)(i := (let p = (kn_percpu k i)\<lparr>p_current_task := nxt, p_cur_vfp_d := nxt + TCB_VFP, p_cur_vfp_f := nxt + TCB_FPSCR,
               p_scheduler_ticks := 0, p_switched := p_switched (kn_percpu k i) + 1\<rparr>
         in if t_task_level (s cur) \<noteq> TASK_IDLE_LEVEL then p\<lparr>p_preempted := p_preempted p + 1\<rparr> else p))\<rparr>)"
    using assms by (simp add: sched_set_current_def on_percpu_def Let_def)
  finally show ?thesis by (simp add: s g Let_def)
qed

lemma tick_switch_effect:
  assumes n: "cur \<noteq> nxt" "cur \<noteq> NULL_TASK" "nxt \<noteq> NULL_TASK" "kn_reloc_skip k = 0"
    and r: "tick_switch i cur nxt fp nf k = (fp', k')"
  shows "fp' = nf" "p_current_task (kn_percpu k' i) = nxt" "kn_runq k' = kn_runq k"
    "p_switched (kn_percpu k' i) = p_switched (kn_percpu k i) + 1" "p_scheduler_ticks (kn_percpu k' i) = 0"
    "ctx_of_frame (t_ctx (kn_tcb k' cur)) fp (kn_frames k fp)"
    "t \<noteq> cur \<Longrightarrow> t_ctx (kn_tcb k' t) = t_ctx (kn_tcb k t)"
    "t_sched_next (kn_tcb k' t) = t_sched_next (kn_tcb k t)"
    "t_task_level (kn_tcb k' t) = t_task_level (kn_tcb k t)"
    "t_status (kn_tcb k' t) =
       (if t = cur then (if t_status (kn_tcb k t) = RUNNING then START else t_status (kn_tcb k t))
        else if t = nxt \<and> t_status (kn_tcb k t) \<in> {START, CREATE} then RUNNING else t_status (kn_tcb k t))"
    "a \<noteq> nf \<Longrightarrow> kn_frames k' a = kn_frames k a"
    "ctx_of_frame (t_ctx (kn_tcb k nxt)) (c_sp (t_ctx (kn_tcb k nxt)) - 64) (kn_frames k' nf)"
proof -
  define s where s: "s = sched_ctx_from_frame cur (Some (fp, kn_frames k fp)) (switch_status cur nxt (kn_tcb k))"
  have tcb: "kn_tcb k' = s" and fr: "kn_frames k' = (kn_frames k)(nf := the (sched_frame_from_ctx s nxt (Some (kn_frames k nf))))"
    and out: "fp' = nf" "kn_runq k' = kn_runq k"
      "p_current_task (kn_percpu k' i) = nxt" "p_switched (kn_percpu k' i) = p_switched (kn_percpu k i) + 1"
      "p_scheduler_ticks (kn_percpu k' i) = 0"
    using r by (simp_all add: tick_switch_eq [OF n(3,4)] Let_def s [symmetric]) auto
  show "fp' = nf" "p_current_task (kn_percpu k' i) = nxt" "kn_runq k' = kn_runq k"
    "p_switched (kn_percpu k' i) = p_switched (kn_percpu k i) + 1" "p_scheduler_ticks (kn_percpu k' i) = 0" by (fact out)+
  show "ctx_of_frame (t_ctx (kn_tcb k' cur)) fp (kn_frames k fp)"
    using n(2) by (simp add: tcb s sched_ctx_from_frame_def ctx_of_frame_def fold_copy)
  show "t \<noteq> cur \<Longrightarrow> t_ctx (kn_tcb k' t) = t_ctx (kn_tcb k t)"
    by (simp add: tcb s from_frame_fields switch_status_fields)
  show "t_sched_next (kn_tcb k' t) = t_sched_next (kn_tcb k t)"
    "t_task_level (kn_tcb k' t) = t_task_level (kn_tcb k t)"
    by (simp_all add: tcb s from_frame_fields switch_status_fields)
  show "t_status (kn_tcb k' t) =
       (if t = cur then (if t_status (kn_tcb k t) = RUNNING then START else t_status (kn_tcb k t))
        else if t = nxt \<and> t_status (kn_tcb k t) \<in> {START, CREATE} then RUNNING else t_status (kn_tcb k t))"
    unfolding tcb s from_frame_fields by (rule switch_status_status [OF n(1)])
  show "a \<noteq> nf \<Longrightarrow> kn_frames k' a = kn_frames k a" by (simp add: fr)
  have "t_ctx (s nxt) = t_ctx (kn_tcb k nxt)" using n(1) by (simp add: s from_frame_fields switch_status_fields)
  then show "ctx_of_frame (t_ctx (kn_tcb k nxt)) (c_sp (t_ctx (kn_tcb k nxt)) - 64) (kn_frames k' nf)"
    using n(3) by (simp add: fr sched_frame_from_ctx_def ctx_of_frame_def fold_copy)
qed

lemma switch_ready:
  assumes "ready_to_tick i c xs k" "steady (kn_tcb k) s" "nxt \<noteq> NULL_TASK" "p_current_task (kn_percpu k i) \<noteq> nxt"
    and r: "tick_switch i (p_current_task (kn_percpu k i)) nxt fp nf (kept i s n m k) = (fp', k')"
  shows "queue_rep (kn_tcb k', kn_runq k' c) xs"
proof -
  note E = tick_switch_effect [OF _ _ assms(3) _ r]
  have c: "p_current_task (kn_percpu k i) \<noteq> NULL_TASK" "kn_reloc_skip (kept i s n m k) = 0"
    using assms(1) by (simp_all add: ready_to_tick_def)
  have "t_sched_next (kn_tcb k' t) = t_sched_next (kn_tcb k t)" for t
    using E(8) [OF assms(4) c] steadyD(3) [OF assms(2)] by simp
  then have "chain (kn_tcb k') p ys = chain (kn_tcb k) p ys" for p ys by (intro chain_cong) simp
  then show ?thesis using assms(1) E(3) [OF assms(4) c] by (simp add: ready_to_tick_def queue_rep_def)
qed

lemma tick_exact:
  assumes "ready_to_tick i c xs k" "fp \<noteq> 0" and cur: "cur = p_current_task (kn_percpu k i)"
  shows "\<exists>fp' k'. sched_tick (Some i) now fp k = Some (fp', k') \<and> queue_rep (kn_tcb k', kn_runq k' c) xs \<and>
    (let nxt = p_current_task (kn_percpu k' i)
     in if nxt = cur then
          fp' = fp \<and> kn_frames k' = kn_frames k \<and> p_switched (kn_percpu k' i) = p_switched (kn_percpu k i) \<and>
          (\<forall>t. t_ctx (kn_tcb k' t) = t_ctx (kn_tcb k t) \<and> woken (t_status (kn_tcb k t)) (t_status (kn_tcb k' t)))
        else
          (\<forall>t. t_status (kn_tcb k t) \<in> {DEATH, FUTEX, OUT, ZOMBIE} \<longrightarrow> t_status (kn_tcb k' t) = t_status (kn_tcb k t)) \<and>
          nxt \<in> set xs \<and> sched_ctx_switchable (kn_tcb k) nxt \<and>
          (t_status (kn_tcb k' nxt) = RUNNING \<or> t_task_level (kn_tcb k nxt) = TASK_IDLE_LEVEL) \<and>
          ctx_of_frame (t_ctx (kn_tcb k nxt)) fp' (kn_frames k' fp') \<and>
          ctx_of_frame (t_ctx (kn_tcb k' cur)) fp (kn_frames k fp) \<and>
          (\<forall>t. t \<noteq> cur \<longrightarrow> t_ctx (kn_tcb k' t) = t_ctx (kn_tcb k t)) \<and>
          (\<forall>a. a \<noteq> fp' \<longrightarrow> kn_frames k' a = kn_frames k a) \<and>
          t_status (kn_tcb k' cur) \<noteq> RUNNING \<and>
          p_switched (kn_percpu k' i) = p_switched (kn_percpu k i) + 1 \<and> p_scheduler_ticks (kn_percpu k' i) = 0)"
  using assms
proof (cases rule: tick_cases [where now = now])
  case (stay s n m)
  have "queue_rep (s, kn_runq k c) xs" using assms(1) steady_rep [OF stay(2)] by (simp add: ready_to_tick_def)
  then show ?thesis using stay cur steadyD(1,7) [OF stay(2)] by simp
next
  case (switch nxt s n m)
  obtain fp' k' where r: "tick_switch i cur nxt fp (c_sp (t_ctx (kn_tcb k nxt)) - 64) (kept i s n m k) = (fp', k')" by fastforce
  have c: "cur \<noteq> NULL_TASK" "kn_reloc_skip (kept i s n m k) = 0"
    using assms(1) by (simp_all add: ready_to_tick_def cur)
  have ne: "cur \<noteq> nxt" using switch(4) by simp
  note E = tick_switch_effect [OF ne c(1) switch(3) c(2) r]
  note S = steadyD [OF switch(2)]
  have q: "queue_rep (kn_tcb k', kn_runq k' c) xs"
    using switch_ready [OF assms(1) switch(2,3)] ne r by (simp add: cur)
  have st: "t_status (kn_tcb k' nxt) = RUNNING \<or> t_task_level (kn_tcb k nxt) = TASK_IDLE_LEVEL"
    using E(10) [of nxt] switch(4,7) S(2) by (auto simp: sched_status_runnable_def)
  have bl: "t_status (kn_tcb k' t) = t_status (kn_tcb k t)" if "t_status (kn_tcb k t) \<in> {DEATH, FUTEX, OUT, ZOMBIE}" for t
    using E(10) [of t] S(7) [of t] that by (auto simp: woken_def)
  have cx: "ctx_of_frame (t_ctx (kn_tcb k nxt)) fp' (kn_frames k' fp')" using E(1,12) S(1) by simp
  have nr: "t_status (kn_tcb k' cur) \<noteq> RUNNING" using E(10) [of cur] by simp
  show ?thesis
    using switch(1,4,5,6) r q st bl cx nr E(1,2,4,5) E(6) E(7) E(11) S(1) by (simp add: Let_def)
qed

text \<open>
  C9. A tick on a CPU whose run queue is well formed always returns, keeps the queue, and does one of
  two things.  Either the current task stays: the exception returns through the frame it came
  with, no frame and no saved context changes, and no status except that due sleepers wake.  Or the
  CPU goes to another task of the queue with a valid context (a runnable task or an idle one): the frame handed out lies
  directly below the stack pointer saved for it and restores exactly its saved context, the
  interrupted task's context becomes its frame, the contexts of all other tasks and all other frames
  are kept, the interrupted task is no longer running, no dead or
  blocked task changes its status, and the switch is counted once.
\<close>

theorem sched_tick_exact:
  assumes "ready_to_tick i c xs k" "fp \<noteq> 0" and cur: "cur = p_current_task (kn_percpu k i)"
  shows "\<exists>fp' k'. sched_tick (Some i) now fp k = Some (fp', k') \<and> queue_rep (kn_tcb k', kn_runq k' c) xs \<and>
    (let nxt = p_current_task (kn_percpu k' i)
     in if nxt = cur then
          fp' = fp \<and> kn_frames k' = kn_frames k \<and> p_switched (kn_percpu k' i) = p_switched (kn_percpu k i) \<and>
          (\<forall>t. t_ctx (kn_tcb k' t) = t_ctx (kn_tcb k t) \<and> woken (t_status (kn_tcb k t)) (t_status (kn_tcb k' t)))
        else
          (\<forall>t. t_status (kn_tcb k t) \<in> {DEATH, FUTEX, OUT, ZOMBIE} \<longrightarrow> t_status (kn_tcb k' t) = t_status (kn_tcb k t)) \<and>
          nxt \<in> set xs \<and> sched_ctx_switchable (kn_tcb k) nxt \<and>
          (t_status (kn_tcb k' nxt) = RUNNING \<or> t_task_level (kn_tcb k nxt) = TASK_IDLE_LEVEL) \<and>
          ctx_of_frame (t_ctx (kn_tcb k nxt)) fp' (kn_frames k' fp') \<and>
          ctx_of_frame (t_ctx (kn_tcb k' cur)) fp (kn_frames k fp) \<and>
          (\<forall>t. t \<noteq> cur \<longrightarrow> t_ctx (kn_tcb k' t) = t_ctx (kn_tcb k t)) \<and>
          (\<forall>a. a \<noteq> fp' \<longrightarrow> kn_frames k' a = kn_frames k a) \<and>
          t_status (kn_tcb k' cur) \<noteq> RUNNING \<and>
          p_switched (kn_percpu k' i) = p_switched (kn_percpu k i) + 1 \<and> p_scheduler_ticks (kn_percpu k' i) = 0)"
  by (rule tick_exact [OF assms])

text \<open>Two tasks; the first is current and at the end of its slice, the second has a valid context.\<close>

definition two_tcb :: tstore where
  "two_tcb = (\<lambda>p. if p = 8 then zero_tcb\<lparr>t_status := RUNNING, t_sched_next := 16, t_vruntime := 5, t_deadline := 9\<rparr>
     else if p = 16 then zero_tcb\<lparr>t_status := START, t_vruntime := 5, t_deadline := 7,
       t_ctx := zero_ctx\<lparr>c_sp := 0x8000, c_pc := 0x1000, c_cpsr := ARM_CPSR_KERNEL\<rparr>\<rparr>
     else zero_tcb)"

definition two_tasks :: "unit kern_t" where
  "two_tasks = \<lparr>kn_tcb = two_tcb, kn_frames = (\<lambda>_. \<lparr>f_r = (\<lambda>_. 7), f_svc_lr = 1, f_ret = 2, f_spsr = 3\<rparr>),
     kn_runq = (\<lambda>_. \<lparr>q_head = 8, q_count = 2\<rparr>),
     kn_percpu = (\<lambda>_. \<lparr>p_cpu_id = 0, p_online = 1, p_mpidr = 0, p_loops = 0, p_ticks = 0, p_ipi_count = 0,
       p_irq_count = 0, p_last_intid = 0, p_spin_retry = 0, p_stack_top = 0, p_current_task = 8,
       p_scheduler_ticks = 3, p_cur_vfp_d = 0, p_cur_vfp_f = 0, p_switched = 0, p_preempted = 0, p_invalid_ctx = 0\<rparr>),
     kn_idle = (\<lambda>_. 0), kn_ks = None, kn_heap = None, kn_enabled = 1, kn_off_depth = 0, kn_off_since = 0,
     kn_off_total = 0, kn_exit_count = 0, kn_exit_refused = 0, kn_exit_legacy = 0, kn_pick_cpu0 = 0,
     kn_reloc_skip = 0, kn_wake_skip = 0, kn_pick_sticky = 0\<rparr>"

lemma two_ready: "ready_to_tick 0 0 [8, 16] two_tasks"
  by (simp add: ready_to_tick_def two_tasks_def runq_of_def queue_rep_def two_tcb_def zero_tcb_def)

lemma sched_tick_exact_witness:
  "\<exists>fp' k'. sched_tick (Some 0) 100 0x4000 two_tasks = Some (fp', k') \<and> queue_rep (kn_tcb k', kn_runq k' 0) [8, 16]"
  using sched_tick_exact [OF two_ready _ refl, of "0x4000" 100] by fastforce

section \<open>Histories of one CPU\<close>

text \<open>
  \<open>sched_run i k saved\<close>: \<open>k\<close> is reached by ticks of CPU \<open>i\<close> between which the tasks run
  and anything may happen that keeps the current task and the contexts of the tasks recorded in \<open>saved\<close>; \<open>saved\<close> maps each
  task that was switched away from to the frame it was last interrupted with and the address of that frame.
\<close>

inductive sched_run :: "nat \<Rightarrow> 'g kern_t \<Rightarrow> (tcb_t \<rightharpoonup> u32 \<times> arm_exc_frame) \<Rightarrow> bool" for i where
  start: "sched_run i k Map.empty"
| tick: "\<lbrakk>sched_run i k saved; ready_to_tick i c xs k; fp \<noteq> 0; sched_tick (Some i) now fp k = Some (fp', k')\<rbrakk>
    \<Longrightarrow> sched_run i k' (if p_current_task (kn_percpu k' i) = p_current_task (kn_percpu k i) then saved
          else saved(p_current_task (kn_percpu k i) \<mapsto> (fp, kn_frames k fp)))"
| run: "\<lbrakk>sched_run i k saved; p_current_task (kn_percpu k' i) = p_current_task (kn_percpu k i);
      \<forall>t\<in>dom saved. t_ctx (kn_tcb k' t) = t_ctx (kn_tcb k t)\<rbrakk> \<Longrightarrow> sched_run i k' saved"

inductive_cases sched_runE: "sched_run i k saved"

text \<open>The outcome of a tick in the form the histories need.\<close>

lemma tick_outcome:
  assumes "ready_to_tick i c xs k" "fp \<noteq> 0" "sched_tick (Some i) now fp k = Some (fp', k')"
  shows "p_current_task (kn_percpu k' i) = p_current_task (kn_percpu k i) \<and> fp' = fp \<and>
      (\<forall>t. t_ctx (kn_tcb k' t) = t_ctx (kn_tcb k t)) \<or>
    p_current_task (kn_percpu k' i) \<noteq> p_current_task (kn_percpu k i) \<and>
      ctx_of_frame (t_ctx (kn_tcb k (p_current_task (kn_percpu k' i)))) fp' (kn_frames k' fp') \<and>
      ctx_of_frame (t_ctx (kn_tcb k' (p_current_task (kn_percpu k i)))) fp (kn_frames k fp) \<and>
      (\<forall>t. t \<noteq> p_current_task (kn_percpu k i) \<longrightarrow> t_ctx (kn_tcb k' t) = t_ctx (kn_tcb k t))"
  using tick_exact [OF assms(1,2) refl, of now] assms(3)
  by (cases "p_current_task (kn_percpu k' i) = p_current_task (kn_percpu k i)") (simp_all add: Let_def)

lemma sched_run_saved:
  "sched_run i k saved \<Longrightarrow> saved t = Some (a, f) \<Longrightarrow> t \<noteq> p_current_task (kn_percpu k i) \<Longrightarrow> ctx_of_frame (t_ctx (kn_tcb k t)) a f"
proof (induction arbitrary: t a f rule: sched_run.induct)
  case (tick k saved c xs fp now fp' k')
  from tick_outcome [OF tick.hyps(2-4)] show ?case
  proof (elim disjE conjE)
    assume h: "p_current_task (kn_percpu k' i) = p_current_task (kn_percpu k i)"
      "\<forall>t. t_ctx (kn_tcb k' t) = t_ctx (kn_tcb k t)"
    then show ?case using tick.IH tick.prems by simp
  next
    assume h: "p_current_task (kn_percpu k' i) \<noteq> p_current_task (kn_percpu k i)"
      "ctx_of_frame (t_ctx (kn_tcb k' (p_current_task (kn_percpu k i)))) fp (kn_frames k fp)"
      "\<forall>t. t \<noteq> p_current_task (kn_percpu k i) \<longrightarrow> t_ctx (kn_tcb k' t) = t_ctx (kn_tcb k t)"
    then show ?case using tick.IH tick.prems by (cases "t = p_current_task (kn_percpu k i)") auto
  qed
next
  case (run k saved k')
  then show ?case by (metis domI)
qed simp

lemma ctx_of_frame_same: "ctx_of_frame c a f \<Longrightarrow> ctx_of_frame c b g \<Longrightarrow> a = b \<and> same_frame g f"
  by (simp add: ctx_of_frame_def same_frame_def)

text \<open>
  C10. A task resumes exactly where it was interrupted: after any history of ticks, running code, sleeping, waking and
  creating threads, a tick that goes to a task that was switched away from before returns through
  the same frame address, and the frame restores the same thirteen registers, link
  register, return address and status word it was interrupted with.
\<close>

theorem sched_resume_exact:
  assumes "sched_run i k saved" "ready_to_tick i c xs k" "fp \<noteq> 0"
    and "sched_tick (Some i) now fp k = Some (fp', k')"
    and "p_current_task (kn_percpu k' i) \<noteq> p_current_task (kn_percpu k i)"
    and "saved (p_current_task (kn_percpu k' i)) = Some (a, f)"
  shows "fp' = a \<and> same_frame (kn_frames k' fp') f"
proof -
  have "ctx_of_frame (t_ctx (kn_tcb k (p_current_task (kn_percpu k' i)))) fp' (kn_frames k' fp')"
    using tick_outcome [OF assms(2-4)] assms(5) by blast
  then show ?thesis using ctx_of_frame_same sched_run_saved [OF assms(1,6,5)] by blast
qed

text \<open>When the tick must go to another task.\<close>

lemma tick_progress:
  assumes "ready_to_tick i c xs k" "fp \<noteq> 0" and cur: "cur = p_current_task (kn_percpu k i)"
    and over: "t_status (kn_tcb k cur) \<noteq> RUNNING \<or> t_task_level (kn_tcb k cur) = TASK_IDLE_LEVEL \<or>
      \<not> p_scheduler_ticks (kn_percpu k i) + 1 < SCHED_TIME_SLICE"
    and sw: "\<forall>x\<in>set xs. x \<noteq> cur \<longrightarrow> sched_ctx_switchable (kn_tcb k) x"
    and other: "(\<exists>x\<in>set xs. x \<noteq> cur \<and> sched_status_runnable (t_status (kn_tcb k x)) \<and> t_task_level (kn_tcb k x) \<noteq> TASK_IDLE_LEVEL) \<or>
      t_status (kn_tcb k cur) \<noteq> WAIT \<and> \<not> sched_status_runnable (t_status (kn_tcb k cur)) \<and>
        (\<exists>x\<in>set xs. x \<noteq> cur \<and> t_task_level (kn_tcb k x) = TASK_IDLE_LEVEL)"
  shows "\<exists>fp' k'. sched_tick (Some i) now fp k = Some (fp', k') \<and> p_current_task (kn_percpu k' i) \<noteq> cur"
  using assms(1-3)
proof (cases rule: tick_cases [where now = now])
  case (stay s n m)
  have "\<not> fst (tick_charge i cur k)" using over by (auto simp: tick_charge_def Let_def on_percpu_def on_tcb_def)
  then obtain r s' where sel: "sched_select_next (kn_wake_skip k) 0 (Some (kn_runq k c)) cur now
      (kn_tcb (snd (tick_charge i cur k))) = Some (r, 0, s')"
    and r: "r = NULL_TASK \<or> r = cur \<or> \<not> sched_ctx_switchable (kn_tcb k) r" using stay(3) by blast
  obtain s0 n0 where k0: "kn_tcb (snd (tick_charge i cur k)) = s0" and st0: "steady (kn_tcb k) s0"
    using tick_charge_kept [of i cur k] by (metis kept_sel(1))
  have q: "queue_rep (s0, kn_runq k c) xs" "xs \<noteq> []"
    using assms(1) steady_rep [OF st0] by (simp_all add: ready_to_tick_def)
  note T = select_next_tick [OF q, of "kn_wake_skip k" cur now]
  have T: "steady s0 s'" "r = NULL_TASK \<or> r = cur \<or> r \<in> set xs"
    "\<not> sched_status_runnable (t_status (s' cur)) \<and> (\<exists>x\<in>set xs. x \<noteq> cur \<and> t_task_level (s0 x) = TASK_IDLE_LEVEL)
       \<longrightarrow> r \<noteq> NULL_TASK \<and> r \<noteq> cur"
    "(\<exists>x\<in>set xs. x \<noteq> cur \<and> sched_status_runnable (t_status (s0 x)) \<and> t_task_level (s0 x) \<noteq> TASK_IDLE_LEVEL)
       \<longrightarrow> r \<noteq> NULL_TASK \<and> r \<noteq> cur"
    using T sel unfolding k0 by auto
  have st: "steady (kn_tcb k) s'" using steady_trans [OF st0 T(1)] .
  have keep: "t_status (s0 x) = t_status (kn_tcb k x)" if "t_status (kn_tcb k x) \<noteq> WAIT" for x
    using steadyD(7) [OF st0, of x] that by (auto simp: woken_def)
  have keep': "t_status (s' cur) = t_status (kn_tcb k cur)" if "t_status (kn_tcb k cur) \<noteq> WAIT"
    using steadyD(7) [OF st, of cur] that by (auto simp: woken_def)
  have run: "sched_status_runnable (t_status (s0 x))" if "sched_status_runnable (t_status (kn_tcb k x))" for x
    using keep [of x] that by (auto simp: sched_status_runnable_def)
  have "r \<noteq> NULL_TASK \<and> r \<noteq> cur"
    using other T(3,4) keep' run steadyD(2) [OF st0] by auto
  then show ?thesis using r T(2) sw by blast
next
  case (switch nxt s n m)
  obtain fp' k' where r: "tick_switch i cur nxt fp (c_sp (t_ctx (kn_tcb k nxt)) - 64) (kept i s n m k) = (fp', k')" by fastforce
  have c: "cur \<noteq> nxt" "cur \<noteq> NULL_TASK" "kn_reloc_skip (kept i s n m k) = 0"
    using assms(1) switch(4) by (simp_all add: ready_to_tick_def cur)
  show ?thesis using switch(1) r tick_switch_effect(2) [OF c(1,2) switch(3) c(3) r] c(1) by simp
qed

text \<open>An idle task that is interrupted by another one and later resumed.\<close>

definition f0 :: arm_exc_frame where
  "f0 = \<lparr>f_r = (\<lambda>_. 7), f_svc_lr = 1, f_ret = 2, f_spsr = ARM_CPSR_KERNEL\<rparr>"

definition pair_state :: "TaskStatus \<Rightarrow> arm_task_ctx \<Rightarrow> tcb_t \<Rightarrow> unit kern_t" where
  "pair_state st c cur = two_tasks\<lparr>
     kn_tcb := (\<lambda>p. if p = 8 then zero_tcb\<lparr>t_status := START, t_task_level := TASK_IDLE_LEVEL, t_sched_next := 16, t_ctx := c\<rparr>
       else (two_tcb p)\<lparr>t_status := st\<rparr>),
     kn_percpu := (\<lambda>i. (kn_percpu two_tasks i)\<lparr>p_current_task := cur\<rparr>), kn_frames := (\<lambda>_. f0)\<rparr>"

lemma pair_ready: "cur \<noteq> 0 \<Longrightarrow> ready_to_tick 0 0 [8, 16] (pair_state st c cur)"
  by (simp add: ready_to_tick_def pair_state_def two_tasks_def runq_of_def queue_rep_def two_tcb_def zero_tcb_def)

lemma sched_resume_exact_witness:
  "\<exists>(k :: unit kern_t) saved fp' k'. sched_run 0 k saved \<and> sched_tick (Some 0) 0 0x9000 k = Some (fp', k') \<and>
     fp' = 0x4000 \<and> same_frame (kn_frames k' fp') f0"
proof -
  let ?k0 = "pair_state START zero_ctx 8"
  have sw: "sched_ctx_switchable (kn_tcb ?k0) 16"
    by (simp add: pair_state_def two_tcb_def zero_tcb_def zero_ctx_def sched_ctx_switchable_def Let_def)
  obtain fp1 k1 where t1: "sched_tick (Some 0) 0 0x4000 ?k0 = Some (fp1, k1)" "p_current_task (kn_percpu k1 0) \<noteq> 8"
    using tick_progress [OF pair_ready, of 8 "0x4000" 8 START zero_ctx 0] sw
    by (auto simp: pair_state_def two_tasks_def two_tcb_def zero_tcb_def sched_status_runnable_def)
  have c1: "p_current_task (kn_percpu k1 0) = 16" "ctx_of_frame (t_ctx (kn_tcb k1 8)) 0x4000 f0"
    using tick_exact [OF pair_ready _ refl, of 8 "0x4000" 0 START zero_ctx] t1
    by (auto simp: Let_def) (auto simp: pair_state_def two_tasks_def)
  let ?k2 = "pair_state FUTEX (t_ctx (kn_tcb k1 8)) 16"
  have "sched_run 0 k1 (if p_current_task (kn_percpu k1 0) = p_current_task (kn_percpu ?k0 0) then Map.empty
      else Map.empty(p_current_task (kn_percpu ?k0 0) \<mapsto> (0x4000, kn_frames ?k0 0x4000)))"
    by (rule sched_run.tick [OF sched_run.start pair_ready _ t1(1)]) simp_all
  then have "sched_run 0 k1 [8 \<mapsto> (0x4000, f0)]" using c1(1) by (simp add: pair_state_def)
  then have r2: "sched_run 0 ?k2 [8 \<mapsto> (0x4000, f0)]"
    by (rule sched_run.run) (simp_all add: c1(1) pair_state_def zero_tcb_def)
  have sw2: "sched_ctx_switchable (kn_tcb ?k2) 8"
    using c1(2) by (simp add: pair_state_def zero_tcb_def ctx_of_frame_def f0_def sched_ctx_switchable_def Let_def)
  obtain fp2 k3 where t2: "sched_tick (Some 0) 0 0x9000 ?k2 = Some (fp2, k3)" "p_current_task (kn_percpu k3 0) \<noteq> 16"
    using tick_progress [OF pair_ready, of 16 "0x9000" 16 FUTEX "t_ctx (kn_tcb k1 8)" 0] sw2
    by (auto simp: pair_state_def two_tasks_def two_tcb_def zero_tcb_def sched_status_runnable_def)
  have c3: "p_current_task (kn_percpu k3 0) = 8"
    using tick_exact [OF pair_ready _ refl, of 16 "0x9000" 0 FUTEX "t_ctx (kn_tcb k1 8)"] t2
    by (auto simp: Let_def) (auto simp: pair_state_def two_tasks_def)
  have "fp2 = 0x4000 \<and> same_frame (kn_frames k3 fp2) f0"
    by (rule sched_resume_exact [OF r2 pair_ready _ t2(1)]) (simp_all add: c3 pair_state_def)
  then show ?thesis using r2 t2(1) by blast
qed

section \<open>The scheduling switch\<close>

text \<open>A timed history of \<open>sched_disable\<close> (True) and \<open>sched_enable\<close> (False) calls, its nesting depth, and
  the time it spends disabled, counted from \<open>t\<close> on with \<open>n\<close> calls open.\<close>

fun switch_calls :: "(bool \<times> u64) list \<Rightarrow> 'g kern_t \<Rightarrow> 'g kern_t" where
  "switch_calls [] k = k"
| "switch_calls ((d, t) # cs) k = switch_calls cs (if d then sched_disable t k else sched_enable t k)"

fun nesting :: "nat \<Rightarrow> (bool \<times> u64) list \<Rightarrow> nat" where
  "nesting n [] = n"
| "nesting n ((d, t) # cs) = nesting (if d then n + 1 else n - 1) cs"

fun off_time :: "nat \<Rightarrow> u64 \<Rightarrow> (bool \<times> u64) list \<Rightarrow> u64 \<Rightarrow> u64" where
  "off_time n t [] now = (if n = 0 then 0 else now - t)"
| "off_time n t ((d, t') # cs) now =
     (if n = 0 then 0 else t' - t) + off_time (if d then n + 1 else n - 1) t' cs now"

fun_cases switch_calls_ConsE: "switch_calls (c # cs) k = k'"

definition switch_inv :: "nat \<Rightarrow> 'g kern_t \<Rightarrow> bool" where
  "switch_inv n k \<longleftrightarrow> unat (kn_off_depth k) = n \<and> (sched_is_enabled k \<longleftrightarrow> n = 0)"

lemma switch_step:
  assumes "switch_inv n k" "n + 1 < 2 ^ 32"
  shows "switch_inv (if d then n + 1 else n - 1) (if d then sched_disable t' k else sched_enable t' k)"
    "sched_off_total_ns t' (if d then sched_disable t' k else sched_enable t' k) =
       sched_off_total_ns t k + (if n = 0 then 0 else t' - t)"
proof -
  have u: "unat (kn_off_depth k) = n" "kn_enabled k \<noteq> 0 \<longleftrightarrow> n = 0"
    using assms(1) by (simp_all add: switch_inv_def sched_is_enabled_def)
  have z: "kn_off_depth k = 0 \<longleftrightarrow> n = 0" using u(1) by (auto simp: unat_eq_zero)
  have up: "unat (kn_off_depth k + 1) = n + 1" using u(1) assms(2) by (subst unat_add_small) simp_all
  have down: "unat (kn_off_depth k - 1) = n - 1" if "n \<noteq> 0"
    using u(1) that z by (subst unat_minus_one) auto
  then have z1: "kn_off_depth k - 1 = 0 \<longleftrightarrow> n = 1" if "n \<noteq> 0"
    using that by (metis One_nat_def Suc_diff_1 diff_self_eq_0 neq0_conv unat_0 unsigned_0 word_eq_unat)
  show "switch_inv (if d then n + 1 else n - 1) (if d then sched_disable t' k else sched_enable t' k)"
    using u z up down z1
    by (auto simp: switch_inv_def sched_is_enabled_def sched_disable_def sched_enable_def Let_def)
  show "sched_off_total_ns t' (if d then sched_disable t' k else sched_enable t' k) =
       sched_off_total_ns t k + (if n = 0 then 0 else t' - t)"
    using u z up z1
    by (auto simp: sched_off_total_ns_def sched_disable_def sched_enable_def Let_def)
qed

lemma switch_calls_inv:
  "switch_inv n k \<Longrightarrow> n + length cs < 2 ^ 32 \<Longrightarrow>
   switch_inv (nesting n cs) (switch_calls cs k) \<and>
   sched_off_total_ns now (switch_calls cs k) = sched_off_total_ns t k + off_time n t cs now"
proof (induction cs arbitrary: n t k)
  case Nil
  then have "kn_off_depth k = 0 \<longleftrightarrow> n = 0" by (auto simp: switch_inv_def unat_eq_zero)
  then show ?case using Nil by (auto simp: sched_off_total_ns_def)
next
  case (Cons c cs)
  obtain d t' where c: "c = (d, t')" by fastforce
  let ?k = "if d then sched_disable t' k else sched_enable t' k" and ?n = "if d then n + 1 else n - 1"
  have b: "n + 1 < 2 ^ 32" "?n + length cs < 2 ^ 32" using Cons.prems(2) by auto
  note st = switch_step(1) [OF Cons.prems(1) b(1), where d = d and t' = t']
    switch_step(2) [OF Cons.prems(1) b(1), where d = d and t' = t' and t = t]
  show ?case using Cons.IH [OF st(1) b(2), of t'] st(2) by (simp add: c add.assoc)
qed

text \<open>
  The scheduling switch nests: after any sequence of timed \<open>sched_disable\<close> and \<open>sched_enable\<close> calls,
  matched or not, scheduling is on exactly when no disabling call is left open, a surplus enabling call
  having no effect; the total reported by \<open>sched_off_total_ns\<close> grows by exactly the time spent
  disabled, the running section included; and while it is off a tick changes nothing at all.
\<close>

theorem sched_switch_nests:
  assumes "kn_off_depth k = 0" "sched_is_enabled k" "length cs < 2 ^ 32"
  shows "(sched_is_enabled (switch_calls cs k) \<longleftrightarrow> nesting 0 cs = 0) \<and>
    sched_off_total_ns now (switch_calls cs k) = kn_off_total k + off_time 0 t cs now \<and>
    (nesting 0 cs \<noteq> 0 \<longrightarrow> sched_tick self now fp (switch_calls cs k) = Some (fp, switch_calls cs k))"
proof -
  have i: "switch_inv 0 k" using assms(1,2) by (simp add: switch_inv_def)
  have r: "switch_inv (nesting 0 cs) (switch_calls cs k)"
    "sched_off_total_ns now (switch_calls cs k) = sched_off_total_ns t k + off_time 0 t cs now"
    using switch_calls_inv [OF i, of cs now t] assms(3) by simp_all
  then show ?thesis
    using assms(1) by (auto simp: switch_inv_def sched_off_total_ns_def sched_tick_def sched_is_enabled_def)
qed

lemma sched_switch_nests_witness:
  "\<not> sched_is_enabled (switch_calls [(False, 1), (True, 10), (True, 20), (False, 30)] two_tasks) \<and>
   sched_off_total_ns 50 (switch_calls [(False, 1), (True, 10), (True, 20), (False, 30)] two_tasks) = 40"
  using sched_switch_nests [of two_tasks "[(False, 1), (True, 10), (True, 20), (False, 30)]" 50 0]
  by (simp add: two_tasks_def sched_is_enabled_def)

section \<open>Thread exit\<close>

lemma switchable_cong: "s' x = (s :: tstore) x \<Longrightarrow> sched_ctx_switchable s' x = sched_ctx_switchable s x"
  by (simp add: sched_ctx_switchable_def)

lemma yield_ready:
  "ready_to_tick i c xs (on_percpu i (\<lambda>p. p\<lparr>p_scheduler_ticks := n\<rparr>) k) = ready_to_tick i c xs k"
  by (simp add: ready_to_tick_def on_percpu_def)

text \<open>
  Exit is final.  When a thread exits while an idle task waits in the queue and the other tasks of the queue have valid
  contexts, it is marked dead and counted, and the tick of its last trap goes to another task; and a dead task that
  is not the current one is not made current by any tick of any CPU, and stays dead.
\<close>

theorem sched_exit_final:
  assumes "ready_to_tick i c xs k" and cur: "cur = p_current_task (kn_percpu k i)"
    and "t_task_level (kn_tcb k cur) \<noteq> TASK_IDLE_LEVEL" "kn_exit_legacy k = 0"
    and "\<forall>x\<in>set xs. x \<noteq> cur \<longrightarrow> sched_ctx_switchable (kn_tcb k) x"
    and "\<exists>x\<in>set xs. x \<noteq> cur \<and> t_task_level (kn_tcb k x) = TASK_IDLE_LEVEL"
  shows "(\<exists>k1. (\<forall>trap. sched_thread_exit trap (Some i) k = (False, trap k1)) \<and>
      t_status (kn_tcb k1 cur) = DEATH \<and> kn_exit_count k1 = kn_exit_count k + 1 \<and>
      (\<forall>fp now. fp \<noteq> 0 \<longrightarrow> (\<exists>fp' k2. sched_tick (Some i) now fp k1 = Some (fp', k2) \<and>
         p_current_task (kn_percpu k2 i) \<noteq> cur \<and> t_status (kn_tcb k2 cur) = DEATH))) \<and>
    (\<forall>j c' ys (k3 :: 'g kern_t) fp now fp' k4. ready_to_tick j c' ys k3 \<and> fp \<noteq> 0 \<and>
       t_status (kn_tcb k3 cur) = DEATH \<and> t_task_level (kn_tcb k3 cur) \<noteq> TASK_IDLE_LEVEL \<and>
       p_current_task (kn_percpu k3 j) \<noteq> cur \<and> sched_tick (Some j) now fp k3 = Some (fp', k4) \<longrightarrow>
       p_current_task (kn_percpu k4 j) \<noteq> cur \<and> t_status (kn_tcb k4 cur) = DEATH)"
proof (intro conjI allI impI)
  let ?s = "upd cur (\<lambda>x. x\<lparr>t_status := DEATH\<rparr>) (kn_tcb k)"
  let ?k0 = "k\<lparr>kn_tcb := ?s, kn_exit_count := kn_exit_count k + 1\<rparr>"
  let ?k1 = "on_percpu i (\<lambda>p. p\<lparr>p_scheduler_ticks := SCHED_TIME_SLICE\<rparr>) ?k0"
  have c0: "cur \<noteq> NULL_TASK" using assms(1) by (simp add: ready_to_tick_def cur)
  have cc: "sched_current (Some i) k = cur" by (simp add: sched_current_def cur)
  have x: "sched_thread_exit trap (Some i) k = (False, trap ?k1)" for trap
    using assms(3,4) c0 by (simp add: sched_thread_exit_def cc sched_yield_def on_tcb_def Let_def)
  have "chain ?s p ys = chain (kn_tcb k) p ys" for p ys by (intro chain_cong) (simp add: upd_apply)
  then have R: "ready_to_tick i c xs ?k1" using assms(1) by (simp add: yield_ready) (simp add: ready_to_tick_def queue_rep_def)
  have dead: "t_status (kn_tcb ?k1 cur) = DEATH" by (simp add: on_percpu_def)
  have sw: "\<forall>x\<in>set xs. x \<noteq> cur \<longrightarrow> sched_ctx_switchable (kn_tcb ?k1) x"
  proof (intro ballI impI)
    fix x assume x: "x \<in> set xs" "x \<noteq> cur"
    then have e: "kn_tcb ?k1 x = kn_tcb k x" by (simp add: on_percpu_def)
    show "sched_ctx_switchable (kn_tcb ?k1) x" unfolding switchable_cong [where s = "kn_tcb k" and s' = "kn_tcb ?k1" and x = x, OF e] using assms(5) x by blast
  qed
  have idle: "\<exists>x\<in>set xs. x \<noteq> cur \<and> t_task_level (kn_tcb ?k1 x) = TASK_IDLE_LEVEL"
    using assms(6) by (simp add: on_percpu_def upd_apply) blast
  have cur1: "cur = p_current_task (kn_percpu ?k1 i)" by (simp add: on_percpu_def cur)
  have "\<exists>fp' k2. sched_tick (Some i) now fp ?k1 = Some (fp', k2) \<and>
         p_current_task (kn_percpu k2 i) \<noteq> cur \<and> t_status (kn_tcb k2 cur) = DEATH" if fp: "fp \<noteq> 0" for fp now
  proof -
    obtain fp' k2 where t: "sched_tick (Some i) now fp ?k1 = Some (fp', k2)" "p_current_task (kn_percpu k2 i) \<noteq> cur"
      using tick_progress [OF R fp cur1 _ sw, of now] dead idle by (auto simp: sched_status_runnable_def)
    have "t_status (kn_tcb k2 cur) = DEATH"
      using tick_exact [OF R fp cur1, of now] t dead by (simp add: Let_def)
    then show ?thesis using t by blast
  qed
  then show "\<exists>k1. (\<forall>trap. sched_thread_exit trap (Some i) k = (False, trap k1)) \<and>
      t_status (kn_tcb k1 cur) = DEATH \<and> kn_exit_count k1 = kn_exit_count k + 1 \<and>
      (\<forall>fp now. fp \<noteq> 0 \<longrightarrow> (\<exists>fp' k2. sched_tick (Some i) now fp k1 = Some (fp', k2) \<and>
         p_current_task (kn_percpu k2 i) \<noteq> cur \<and> t_status (kn_tcb k2 cur) = DEATH))"
    using x dead by (intro exI [of _ ?k1]) (simp add: on_percpu_def)
next
  fix j c' ys and k3 k4 :: "'g kern_t" and fp now fp'
  assume h: "ready_to_tick j c' ys k3 \<and> fp \<noteq> 0 \<and>
       t_status (kn_tcb k3 cur) = DEATH \<and> t_task_level (kn_tcb k3 cur) \<noteq> TASK_IDLE_LEVEL \<and>
       p_current_task (kn_percpu k3 j) \<noteq> cur \<and> sched_tick (Some j) now fp k3 = Some (fp', k4)"
  then have R: "ready_to_tick j c' ys k3" and fp: "fp \<noteq> 0" by simp_all
  note T = tick_exact [OF R fp refl, of now]
  have dead: "t_status (kn_tcb k4 cur) = DEATH"
  proof (cases "p_current_task (kn_percpu k4 j) = p_current_task (kn_percpu k3 j)")
    case True
    then have "\<forall>t. woken (t_status (kn_tcb k3 t)) (t_status (kn_tcb k4 t))" using T h by (simp add: Let_def)
    moreover have "t_status (kn_tcb k3 cur) = DEATH" using h by blast
    ultimately show ?thesis by (metis TaskStatus.simps(28) woken_def)
  next
    case False
    then show ?thesis using T h by (simp add: Let_def)
  qed
  show "t_status (kn_tcb k4 cur) = DEATH" by (rule dead)
  show "p_current_task (kn_percpu k4 j) \<noteq> cur"
  proof
    assume "p_current_task (kn_percpu k4 j) = cur"
    then show False using T h dead by (auto simp: Let_def)
  qed
qed

lemma sched_exit_final_witness:
  "\<exists>k1. (\<forall>trap. sched_thread_exit trap (Some 0) (pair_state RUNNING (zero_ctx\<lparr>c_sp := 0x4040, c_pc := 2, c_cpsr := ARM_CPSR_KERNEL\<rparr>) 16) = (False, trap k1)) \<and>
     t_status (kn_tcb k1 16) = DEATH"
proof -
  let ?c = "zero_ctx\<lparr>c_sp := 0x4040, c_pc := 2, c_cpsr := ARM_CPSR_KERNEL\<rparr>"
  have sw: "sched_ctx_switchable (kn_tcb (pair_state RUNNING ?c 16)) 8"
    by (simp add: pair_state_def zero_tcb_def zero_ctx_def sched_ctx_switchable_def Let_def)
  have f: "p_current_task (kn_percpu (pair_state RUNNING ?c 16) 0) = 16" "kn_exit_legacy (pair_state RUNNING ?c 16) = 0"
    "t_task_level (kn_tcb (pair_state RUNNING ?c 16) 16) = 0" "t_task_level (kn_tcb (pair_state RUNNING ?c 16) 8) = 1"
    by (simp_all add: pair_state_def two_tasks_def two_tcb_def zero_tcb_def)
  show ?thesis
    using sched_exit_final [OF pair_ready f(1) [symmetric]] sw f by auto
qed

end
