(* ===== verification/KrStrings.thy ===== *)
theory KrStrings
  imports Krlibc
begin

text \<open>
  The string half of krlibc.c: NUL-terminated strings in byte memory.  A walk that only ends at a NUL
  byte is a \<open>partial_function\<close>; \<open>cstr m p s\<close> says that the string \<open>s\<close> (without its
  terminator) is stored at \<open>p\<close>.
\<close>

section \<open>Definitions\<close>

partial_function (option) strlen_from :: "bytes \<Rightarrow> u32 \<Rightarrow> u32 \<Rightarrow> u32 option" where
  "strlen_from m str n = (if m (str + n) \<noteq> 0 then strlen_from m str (n + 1) else Some n)"

definition strlen :: "bytes \<Rightarrow> u32 \<Rightarrow> u32 option" where
  "strlen m str = strlen_from m str 0"

partial_function (option) strcmp :: "bytes \<Rightarrow> u32 \<Rightarrow> u32 \<Rightarrow> int option" where
  "strcmp m s1 s2 =
     (if m s1 \<noteq> 0 \<and> m s1 = m s2 then strcmp m (s1 + 1) (s2 + 1)
      else Some (uint (m s1) - uint (m s2)))"

fun strncmp_from :: "bytes \<Rightarrow> u32 \<Rightarrow> u32 \<Rightarrow> nat list \<Rightarrow> int" where
  "strncmp_from m s1 s2 [] = 0"
| "strncmp_from m s1 s2 (i # is) =
     (if m (s1 + of_nat i) \<noteq> m (s2 + of_nat i) then uint (m (s1 + of_nat i)) - uint (m (s2 + of_nat i))
      else if m (s1 + of_nat i) = 0 then 0
      else strncmp_from m s1 s2 is)"

definition strncmp :: "bytes \<Rightarrow> u32 \<Rightarrow> u32 \<Rightarrow> u32 \<Rightarrow> int" where
  "strncmp m s1 s2 n = strncmp_from m s1 s2 [0..<unat n]"

partial_function (option) copy_string :: "bytes \<Rightarrow> u32 \<Rightarrow> u32 \<Rightarrow> bytes option" where
  "copy_string m p src =
     (let c = m src; m = m(p := c)
      in if c \<noteq> 0 then copy_string m (p + 1) (src + 1) else Some m)"

definition strcpy :: "bytes \<Rightarrow> u32 \<Rightarrow> u32 \<Rightarrow> (u32 \<times> bytes) option" where
  "strcpy m dest src = do { m \<leftarrow> copy_string m dest src; Some (dest, m) }"

function strncpy_copy :: "u32 \<Rightarrow> u32 \<Rightarrow> u32 \<Rightarrow> u32 \<Rightarrow> bytes \<Rightarrow> u32 \<times> bytes" where
  "strncpy_copy dest src n i m =
     (if i < n \<and> m (src + i) \<noteq> 0 then strncpy_copy dest src n (i + 1) (m(dest + i := m (src + i)))
      else (i, m))"
  by auto
termination
proof (relation "measure (\<lambda>(dest, src, n, i, m). unat n - unat i)")
  fix dest src n i :: u32 and m :: bytes assume "i < n \<and> m (src + i) \<noteq> 0"
  then have "unat i < unat n" by (simp add: word_lt_unat)
  moreover have "unat n < 4294967296" by (rule unat_lt32)
  ultimately have "unat i + 1 < 4294967296" by linarith
  then have "unat (i + 1) = unat i + 1" by (subst unat_add_small) simp_all
  then show "((dest, src, n, i + 1, m(dest + i := m (src + i))), dest, src, n, i, m)
      \<in> measure (\<lambda>(dest, src, n, i, m). unat n - unat i)"
    using \<open>unat i < unat n\<close> by simp
qed simp

definition strncpy :: "bytes \<Rightarrow> u32 \<Rightarrow> u32 \<Rightarrow> u32 \<Rightarrow> u32 \<times> bytes" where
  "strncpy m dest src n =
     (let (i, m) = strncpy_copy dest src n 0 m
      in (dest, fold (\<lambda>i m. m(dest + of_nat i := 0)) [unat i..<unat n] m))"

partial_function (option) string_end :: "bytes \<Rightarrow> u32 \<Rightarrow> u32 option" where
  "string_end m p = (if m p \<noteq> 0 then string_end m (p + 1) else Some p)"

definition strcat :: "bytes \<Rightarrow> u32 \<Rightarrow> u32 \<Rightarrow> (u32 \<times> bytes) option" where
  "strcat m dest src = do { p \<leftarrow> string_end m dest; m \<leftarrow> copy_string m p src; Some (dest, m) }"

partial_function (option) find_char :: "bytes \<Rightarrow> u32 \<Rightarrow> u8 \<Rightarrow> u32 option" where
  "find_char m s ch = (if m s = ch then Some s else if m s = 0 then Some 0 else find_char m (s + 1) ch)"

definition strchr :: "bytes \<Rightarrow> u32 \<Rightarrow> u32 \<Rightarrow> u32 option" where
  "strchr m s c = find_char m s (ucast c)"

partial_function (option) find_last :: "bytes \<Rightarrow> u32 \<Rightarrow> u8 \<Rightarrow> u32 \<Rightarrow> u32 option" where
  "find_last m s ch lst =
     (let lst = (if m s = ch then s else lst)
      in if m s = 0 then Some lst else find_last m (s + 1) ch lst)"

definition strrchr :: "bytes \<Rightarrow> u32 \<Rightarrow> u32 \<Rightarrow> u32 option" where
  "strrchr m s c = find_last m s (ucast c) 0"

text \<open>The two walks of strtok: over delimiters, and over bytes that are none.\<close>

partial_function (option) skip_delims :: "bytes \<Rightarrow> u32 \<Rightarrow> u32 \<Rightarrow> u32 option" where
  "skip_delims m delim p =
     (if m p \<noteq> 0 then do {
        c \<leftarrow> strchr m delim (ucast (m p));
        if c \<noteq> 0 then skip_delims m delim (p + 1) else Some p
      } else Some p)"

partial_function (option) token_end :: "bytes \<Rightarrow> u32 \<Rightarrow> u32 \<Rightarrow> u32 option" where
  "token_end m delim p =
     (if m p \<noteq> 0 then do {
        c \<leftarrow> strchr m delim (ucast (m p));
        if c = 0 then token_end m delim (p + 1) else Some p
      } else Some p)"

text \<open>\<open>nxt\<close> is the function's static variable; 0 is NULL.\<close>

definition strtok :: "bytes \<Rightarrow> u32 \<Rightarrow> u32 \<Rightarrow> u32 \<Rightarrow> (u32 \<times> bytes \<times> u32) option" where
  "strtok m str delim nxt =
     (let nxt = (if str \<noteq> 0 then str else nxt)
      in if nxt = 0 then Some (0, m, nxt)
         else do {
           nxt \<leftarrow> skip_delims m delim nxt;
           if m nxt = 0 then Some (0, m, 0)
           else do {
             let start = nxt;
             nxt \<leftarrow> token_end m delim nxt;
             if m nxt \<noteq> 0 then Some (start, m(nxt := 0), nxt + 1) else Some (start, m, 0)
           }
         })"

definition isdigit :: "int \<Rightarrow> int" where
  "isdigit c = (if 48 \<le> c \<and> c \<le> 57 then 1 else 0)"

partial_function (option) skip_blanks :: "bytes \<Rightarrow> u32 \<Rightarrow> u32 option" where
  "skip_blanks m p = (if m p = 32 \<or> m p = 9 \<or> m p = 10 \<or> m p = 13 then skip_blanks m (p + 1) else Some p)"

text \<open>The value of atoi is an unbounded integer here; in C it must stay within \<open>int\<close>.\<close>

partial_function (option) digits_value :: "bytes \<Rightarrow> u32 \<Rightarrow> int \<Rightarrow> int option" where
  "digits_value m p v =
     (if isdigit (uint (m p)) \<noteq> 0 then digits_value m (p + 1) (v * 10 + (uint (m p) - 48)) else Some v)"

definition atoi :: "bytes \<Rightarrow> u32 \<Rightarrow> int option" where
  "atoi m pstr = do {
     p \<leftarrow> skip_blanks m pstr;
     let (sign, p) = (if m p = 45 then (-1, p + 1) else if m p = 43 then (1, p + 1) else (1, p));
     v \<leftarrow> digits_value m p 0;
     Some (sign * v)
   }"

section \<open>Strings in memory\<close>

fun cstr :: "bytes \<Rightarrow> u32 \<Rightarrow> u8 list \<Rightarrow> bool" where
  "cstr m p [] \<longleftrightarrow> m p = 0"
| "cstr m p (c # cs) \<longleftrightarrow> c \<noteq> 0 \<and> m p = c \<and> cstr m (p + 1) cs"

lemma cstr_append: "cstr m p (xs @ ys) \<longleftrightarrow> (\<forall>c\<in>set xs. c \<noteq> 0) \<and> (\<forall>i<length xs. m (p + of_nat i) = xs ! i) \<and> cstr m (p + of_nat (length xs)) ys"
proof (induction xs arbitrary: p)
  case (Cons x xs)
  have "(\<forall>i<Suc (length xs). m (p + of_nat i) = (x # xs) ! i) \<longleftrightarrow>
      m p = x \<and> (\<forall>i<length xs. m (p + 1 + of_nat i) = xs ! i)"
    by (auto simp: less_Suc_eq_0_disj add.assoc)
  then show ?case using Cons [of "p + 1"] by (auto simp: add.assoc)
qed simp

lemma cstr_nonzero: "cstr m p s \<Longrightarrow> c \<in> set s \<Longrightarrow> c \<noteq> 0"
  by (induction s arbitrary: p) auto

lemma strlen_from_cstr:
  "cstr m (str + n) s \<Longrightarrow> strlen_from m str n = Some (n + of_nat (length s))"
proof (induction s arbitrary: n)
  case Nil
  then show ?case by (subst strlen_from.simps) simp
next
  case (Cons c s)
  then show ?case by (subst strlen_from.simps) (simp add: add.assoc)
qed

lemma string_end_cstr: "cstr m p s \<Longrightarrow> string_end m p = Some (p + of_nat (length s))"
proof (induction s arbitrary: p)
  case Nil
  then show ?case by (subst string_end.simps) simp
next
  case (Cons c s)
  then show ?case by (subst string_end.simps) (simp add: add.assoc)
qed

text \<open>The reference comparison of strings: by the first differing byte, the end counting as 0.\<close>

fun compare_bytes :: "u8 list \<Rightarrow> u8 list \<Rightarrow> int" where
  "compare_bytes (a # as) (b # bs) = (if a = b then compare_bytes as bs else uint a - uint b)"
| "compare_bytes [] (b # bs) = - uint b"
| "compare_bytes (a # as) [] = uint a"
| "compare_bytes [] [] = 0"

lemma strcmp_cstr: "cstr m p s \<Longrightarrow> cstr m q t \<Longrightarrow> strcmp m p q = Some (compare_bytes s t)"
proof (induction s t arbitrary: p q rule: compare_bytes.induct)
  case (1 a as b bs)
  then show ?case by (subst strcmp.simps) auto
qed (subst strcmp.simps, auto)+

lemma compare_bytes_0: "(\<forall>c\<in>set s \<union> set t. c \<noteq> 0) \<Longrightarrow> compare_bytes s t = 0 \<longleftrightarrow> s = t"
proof (induction s t rule: compare_bytes.induct)
  case (1 a as b bs)
  then show ?case by (auto simp: word_uint_eq_iff)
qed (auto simp: word_uint_eq_iff)

lemma find_char_cstr:
  "cstr m p s \<Longrightarrow> find_char m p ch =
     Some (if ch \<in> set s then p + of_nat (length (takeWhile (\<lambda>c. c \<noteq> ch) s))
           else if ch = 0 then p + of_nat (length s) else 0)"
proof (induction s arbitrary: p)
  case Nil
  then show ?case by (subst find_char.simps) auto
next
  case (Cons c s)
  then show ?case by (subst find_char.simps) (auto simp: add.assoc)
qed

lemma find_last_cstr:
  "cstr m p s \<Longrightarrow> ch \<noteq> 0 \<Longrightarrow> find_last m p ch lst =
     Some (if ch \<in> set s then p + of_nat (length s - 1 - length (takeWhile (\<lambda>c. c \<noteq> ch) (rev s))) else lst)"
proof (induction s arbitrary: p lst)
  case Nil
  then show ?case by (subst find_last.simps) auto
next
  case (Cons c s)
  show ?case
  proof (cases "ch \<in> set s")
    case True
    have "length (takeWhile P xs) < length xs" if "\<exists>x\<in>set xs. \<not> P x" for P and xs :: "u8 list"
      using that by (induction xs) auto
    from this [of "rev s" "\<lambda>c. c \<noteq> ch"] have "length (takeWhile (\<lambda>c. c \<noteq> ch) (rev s)) < length s"
      using True by auto
    then show ?thesis using Cons True
      by (subst find_last.simps) (auto simp: Let_def takeWhile_append of_nat_diff Suc_diff_le add.assoc)
  next
    case False
    have "takeWhile (\<lambda>c. c \<noteq> ch) (rev s) = rev s" using False by (auto simp: takeWhile_eq_all_conv)
    then show ?thesis using Cons False by (subst find_last.simps) (auto simp: Let_def takeWhile_append)
  qed
qed

text \<open>Copying a string to a place that does not overlap it.\<close>

lemma cstr_cong: "(\<And>i. i \<le> length s \<Longrightarrow> m' (p + of_nat i) = m (p + of_nat i)) \<Longrightarrow> cstr m' p s = cstr m p s"
proof (induction s arbitrary: p)
  case (Cons c s)
  have "cstr m' (p + 1) s = cstr m (p + 1) s"
    using Cons.prems [of "Suc i" for i] by (intro Cons.IH) (simp add: add.assoc)
  then show ?case using Cons.prems [of 0] by simp
next
  case Nil
  then show ?case using Nil [of 0] by simp
qed

definition clear_of :: "u32 \<Rightarrow> nat \<Rightarrow> u32 \<Rightarrow> nat \<Rightarrow> bool" where
  "clear_of p n q k \<longleftrightarrow> (\<forall>i<n. \<forall>j<k. p + of_nat i \<noteq> q + of_nat j)"

lemma clear_of_Suc:
  assumes "clear_of p (Suc n) q (Suc k)"
  shows "clear_of (p + 1) n (q + 1) k" "j < Suc k \<Longrightarrow> p \<noteq> q + of_nat j"
proof -
  have c: "p + of_nat i \<noteq> q + of_nat j" if "i < Suc n" "j < Suc k" for i j
    using assms that by (simp add: clear_of_def)
  show "clear_of (p + 1) n (q + 1) k"
    unfolding clear_of_def
  proof (intro allI impI)
    fix i j assume "i < n" "j < k"
    then show "p + 1 + of_nat i \<noteq> q + 1 + of_nat j" using c [of "Suc i" "Suc j"] by (simp add: add.assoc)
  qed
  show "j < Suc k \<Longrightarrow> p \<noteq> q + of_nat j" using c [of 0 j] by simp
qed

lemma copy_string_cstr:
  assumes "cstr m src s" "clear_of dest (Suc (length s)) src (Suc (length s))" "length s < 4294967295"
  shows "\<exists>m'. copy_string m dest src = Some m' \<and> cstr m' dest s \<and>
    (\<forall>x. (\<forall>i\<le>length s. x \<noteq> dest + of_nat i) \<longrightarrow> m' x = m x)"
  using assms
proof (induction s arbitrary: m src dest)
  case Nil
  then show ?case by (subst copy_string.simps) (auto simp: Let_def)
next
  case (Cons c s)
  let ?m = "m(dest := c)"
  have c: "m src = c" "c \<noteq> 0" and s: "cstr m (src + 1) s" using Cons.prems(1) by auto
  note cl = clear_of_Suc [OF Cons.prems(2) [simplified]]
  have "?m (src + 1 + of_nat i) = m (src + 1 + of_nat i)" if "i \<le> length s" for i
    using cl(2) [of "Suc i"] that by (auto simp: add.assoc)
  then have s': "cstr ?m (src + 1) s" using s cstr_cong [of s ?m "src + 1" m] by blast
  have len: "length s < 4294967295" using Cons.prems(3) by simp
  obtain m' where m': "copy_string ?m (dest + 1) (src + 1) = Some m'" "cstr m' (dest + 1) s"
    "\<forall>x. (\<forall>i\<le>length s. x \<noteq> dest + 1 + of_nat i) \<longrightarrow> m' x = ?m x"
    using Cons.IH [OF s' cl(1) len] by blast
  have "dest \<noteq> dest + 1 + of_nat i" if "i \<le> length s" for i
  proof
    assume "dest = dest + 1 + of_nat i"
    then have "of_nat (Suc i) = (0 :: u32)" by (simp add: add.assoc)
    then have "unat (of_nat (Suc i) :: u32) = 0" by simp
    moreover have "unat (of_nat (Suc i) :: u32) = Suc i" using that Cons.prems(3) by (intro unat_of_nat_small) simp
    ultimately show False by simp
  qed
  then have "m' dest = c" using m'(3) by simp
  moreover have "copy_string m dest src = Some m'"
    using m'(1) c by (subst copy_string.simps) (simp add: Let_def)
  moreover have "m' x = m x" if x: "\<forall>i\<le>Suc (length s). x \<noteq> dest + of_nat i" for x
  proof -
    have "x \<noteq> dest" using x [rule_format, of 0] by simp
    moreover have "x \<noteq> dest + 1 + of_nat i" if "i \<le> length s" for i
      using x [rule_format, of "Suc i"] that by (simp add: add.assoc)
    ultimately show ?thesis using m'(3) by simp
  qed
  ultimately show ?case using m'(2) c by auto
qed

text \<open>
  On stored strings the string functions compute what their names promise, and return: the length,
  the byte-wise comparison (zero exactly for equal strings), the first and the last occurrence of a
  byte (NULL when there is none, the terminator when NUL itself is searched), and a copy that leaves the rest of
  memory alone, when the destination does not overlap the source.
\<close>

theorem string_functions_exact:
  assumes "cstr m p s" "cstr m q t" "length s < 4294967295"
  shows "strlen m p = Some (of_nat (length s)) \<and>
    (\<exists>r. strcmp m p q = Some r \<and> r = compare_bytes s t \<and> (r = 0 \<longleftrightarrow> s = t)) \<and>
    strchr m p c = Some (if ucast c \<in> set s then p + of_nat (length (takeWhile (\<lambda>x. x \<noteq> ucast c) s))
        else if (ucast c :: u8) = 0 then p + of_nat (length s) else 0) \<and>
    ((ucast c :: u8) \<noteq> 0 \<longrightarrow> strrchr m p c =
       Some (if ucast c \<in> set s then p + of_nat (length s - 1 - length (takeWhile (\<lambda>x. x \<noteq> ucast c) (rev s))) else 0)) \<and>
    (clear_of d (Suc (length s)) p (Suc (length s)) \<longrightarrow>
      (\<exists>m'. strcpy m d p = Some (d, m') \<and> cstr m' d s \<and>
         (\<forall>x. (\<forall>i\<le>length s. x \<noteq> d + of_nat i) \<longrightarrow> m' x = m x)))"
proof (intro conjI impI)
  show "strlen m p = Some (of_nat (length s))"
    using strlen_from_cstr [of m p 0 s] assms(1) by (simp add: strlen_def)
  have "\<forall>c\<in>set s \<union> set t. c \<noteq> 0" using cstr_nonzero [OF assms(1)] cstr_nonzero [OF assms(2)] by auto
  then show "\<exists>r. strcmp m p q = Some r \<and> r = compare_bytes s t \<and> (r = 0 \<longleftrightarrow> s = t)"
    using strcmp_cstr [OF assms(1,2)] compare_bytes_0 by simp
  show "strchr m p c = Some (if ucast c \<in> set s then p + of_nat (length (takeWhile (\<lambda>x. x \<noteq> ucast c) s))
        else if (ucast c :: u8) = 0 then p + of_nat (length s) else 0)"
    unfolding strchr_def by (rule find_char_cstr [OF assms(1)])
  show "strrchr m p c =
       Some (if ucast c \<in> set s then p + of_nat (length s - 1 - length (takeWhile (\<lambda>x. x \<noteq> ucast c) (rev s))) else 0)"
    if "(ucast c :: u8) \<noteq> 0"
    unfolding strrchr_def by (rule find_last_cstr [OF assms(1) that])
  show "\<exists>m'. strcpy m d p = Some (d, m') \<and> cstr m' d s \<and> (\<forall>x. (\<forall>i\<le>length s. x \<noteq> d + of_nat i) \<longrightarrow> m' x = m x)"
    if "clear_of d (Suc (length s)) p (Suc (length s))"
    using copy_string_cstr [OF assms(1) that assms(3)] by (auto simp: strcpy_def)
qed

text \<open>The bytes ''ab,c'' at 100, followed by a NUL, and '','' as delimiters at 200.\<close>

definition demo_mem :: bytes where
  "demo_mem = (\<lambda>_. 0)(100 := 97, 101 := 98, 102 := 44, 103 := 99, 200 := 44)"

lemma demo_strings: "cstr demo_mem 100 [97, 98, 44, 99]" "cstr demo_mem 200 [44]"
  by (simp_all add: demo_mem_def)

lemma string_functions_exact_witness:
  "strlen demo_mem 100 = Some 4 \<and> strcmp demo_mem 100 200 = Some 53 \<and> strchr demo_mem 100 44 = Some 102"
  using string_functions_exact [OF demo_strings, where c = 44]
  by simp

section \<open>Tokens\<close>

lemma ucast_byte: "(ucast (ucast (x :: u8) :: u32) :: u8) = x"
  by (rule bit_word_eqI) (auto simp: bit_simps)

lemma strchr_byte:
  assumes "cstr m delim ds" "c \<noteq> 0" "delim \<noteq> 0" "\<forall>i\<le>length ds. delim + of_nat i \<noteq> 0"
  shows "\<exists>r. strchr m delim (ucast (c :: u8)) = Some r \<and> (r = 0 \<longleftrightarrow> c \<notin> set ds)"
proof -
  have "length (takeWhile P ds) \<le> length ds" for P by (rule length_takeWhile_le)
  then show ?thesis using assms find_char_cstr [OF assms(1), of c]
    by (auto simp: strchr_def ucast_byte)
qed

lemma skip_delims_cstr:
  assumes "cstr m delim ds" "\<forall>i\<le>length ds. delim + of_nat i \<noteq> 0"
  shows "cstr m p s \<Longrightarrow> skip_delims m delim p = Some (p + of_nat (length (takeWhile (\<lambda>c. c \<in> set ds) s)))"
proof (induction s arbitrary: p)
  case Nil
  then show ?case by (subst skip_delims.simps) simp
next
  case (Cons c s)
  have "delim \<noteq> 0" using assms(2) by (auto dest: spec [of _ 0])
  then obtain r where "strchr m delim (ucast c) = Some r" "r = 0 \<longleftrightarrow> c \<notin> set ds"
    using strchr_byte [OF assms(1) _ _ assms(2), of c] Cons.prems by auto
  then show ?case using Cons by (subst skip_delims.simps) (auto simp: add.assoc)
qed

lemma token_end_cstr:
  assumes "cstr m delim ds" "\<forall>i\<le>length ds. delim + of_nat i \<noteq> 0"
  shows "cstr m p s \<Longrightarrow> token_end m delim p = Some (p + of_nat (length (takeWhile (\<lambda>c. c \<notin> set ds) s)))"
proof (induction s arbitrary: p)
  case Nil
  then show ?case by (subst token_end.simps) simp
next
  case (Cons c s)
  have "delim \<noteq> 0" using assms(2) by (auto dest: spec [of _ 0])
  then obtain r where "strchr m delim (ucast c) = Some r" "r = 0 \<longleftrightarrow> c \<notin> set ds"
    using strchr_byte [OF assms(1) _ _ assms(2), of c] Cons.prems by auto
  then show ?case using Cons by (subst token_end.simps) (auto simp: add.assoc)
qed

text \<open>One call, by what it finds from its position on.\<close>

lemma strtok_none:
  assumes "cstr m delim ds" "\<forall>i\<le>length ds. delim + of_nat i \<noteq> 0" "cstr m p s"
    and "(if str \<noteq> 0 then str else nxt) = p" "p \<noteq> 0" "dropWhile (\<lambda>c. c \<in> set ds) s = []"
  shows "strtok m str delim nxt = Some (0, m, 0)"
proof -
  have t: "takeWhile (\<lambda>c. c \<in> set ds) s = s" using assms(6) by (metis append_Nil2 takeWhile_dropWhile_id)
  have "skip_delims m delim p = Some (p + of_nat (length s))" using skip_delims_cstr [OF assms(1-3)] unfolding t .
  moreover have "m (p + of_nat (length s)) = 0" using assms(3) cstr_append [of m p s "[]"] by simp
  ultimately show ?thesis using assms(4,5) by (auto simp: strtok_def Let_def)
qed

lemma strtok_token:
  assumes "cstr m delim ds" "\<forall>i\<le>length ds. delim + of_nat i \<noteq> 0" "cstr m p s"
    and p: "(if str \<noteq> 0 then str else nxt) = p" "p \<noteq> 0"
    and pre: "pre = takeWhile (\<lambda>c. c \<in> set ds) s" and r: "dropWhile (\<lambda>c. c \<in> set ds) s = r" "r \<noteq> []"
    and tok: "tok = takeWhile (\<lambda>c. c \<notin> set ds) r" and aft: "aft = dropWhile (\<lambda>c. c \<notin> set ds) r"
    and start: "start = p + of_nat (length pre)" and stop: "stop = start + of_nat (length tok)"
  shows "s = pre @ tok @ aft \<and> tok \<noteq> [] \<and> cstr m start (tok @ aft) \<and>
    strtok m str delim nxt = Some (if aft = [] then (start, m, 0) else (start, m(stop := 0), stop + 1))"
proof -
  have s: "s = pre @ tok @ aft" by (simp add: pre tok aft r(1) [symmetric])
  have ta: "r = tok @ aft" by (simp add: tok aft)
  have tne: "tok \<noteq> []"
    using r hd_dropWhile [of "\<lambda>c. c \<in> set ds" s] by (cases r) (auto simp: tok)
  have 1: "skip_delims m delim p = Some start"
    using skip_delims_cstr [OF assms(1-3)] by (simp add: start pre)
  have st: "cstr m start (tok @ aft)" using assms(3) cstr_append [of m p pre] by (simp add: start s)
  have 2: "token_end m delim start = Some stop"
    using token_end_cstr [OF assms(1,2) st] unfolding ta [symmetric] tok [symmetric] by (simp add: stop)
  have nz: "m start \<noteq> 0" using st tne by (cases tok) auto
  have "cstr m stop aft" using st cstr_append [of m start tok] by (simp add: stop)
  then have "m stop = 0 \<longleftrightarrow> aft = []" by (cases aft) auto
  then show ?thesis using 1 2 nz p s tne st by (auto simp: strtok_def Let_def)
qed

text \<open>The usual loop over tokens: the first call gets the string, the others NULL.\<close>

fun tokenise :: "nat \<Rightarrow> bytes \<Rightarrow> u32 \<Rightarrow> u32 \<Rightarrow> u32 \<Rightarrow> (u32 list \<times> bytes) option" where
  "tokenise 0 m str delim nxt = None"
| "tokenise (Suc k) m str delim nxt = do {
     (t, m, nxt) \<leftarrow> strtok m str delim nxt;
     if t = 0 then Some ([], m)
     else do {
       (ts, m) \<leftarrow> if nxt = 0 then Some ([], m) else tokenise k m 0 delim nxt;
       Some (t # ts, m)
     }
   }"

text \<open>The reference: the maximal runs of bytes that are no delimiters.\<close>

function fields :: "u8 set \<Rightarrow> u8 list \<Rightarrow> u8 list list" where
  "fields D s =
     (let r = dropWhile (\<lambda>c. c \<in> D) s
      in if r = [] then [] else takeWhile (\<lambda>c. c \<notin> D) r # fields D (drop 1 (dropWhile (\<lambda>c. c \<notin> D) r)))"
  by auto
termination
proof (relation "measure (\<lambda>(D, s). length s)")
  fix D and s r :: "u8 list"
  assume r: "r = dropWhile (\<lambda>c. c \<in> D) s" "r \<noteq> []"
  have "length (drop 1 (dropWhile (\<lambda>c. c \<notin> D) r)) < length r"
    using length_dropWhile_le [of "\<lambda>c. c \<notin> D" r] r(2) by (cases r) auto
  also have "\<dots> \<le> length s" unfolding r(1) by (rule length_dropWhile_le)
  finally show "((D, drop 1 (dropWhile (\<lambda>c. c \<notin> D) r)), D, s) \<in> measure (\<lambda>(D, s). length s)" by simp
qed simp

declare fields.simps [simp del]

definition inside :: "u32 \<Rightarrow> nat \<Rightarrow> bool" where
  "inside p n \<longleftrightarrow> 0 < unat p \<and> unat p + n < 4294967296"

lemma inside_facts:
  assumes "inside p n" "i \<le> n"
  shows "p + of_nat i \<noteq> 0" "unat (p + of_nat i) = unat p + i"
proof -
  show u: "unat (p + of_nat i) = unat p + i" using assms by (simp add: inside_def unat_add_small unat_of_nat_small)
  then show "p + of_nat i \<noteq> 0" using assms by (metis add_is_0 inside_def less_numeral_extra(3) unat_0)
qed

lemma clear_of_sub:
  assumes "clear_of p n q k" "i + n' \<le> n"
  shows "clear_of (p + of_nat i) n' q k"
  unfolding clear_of_def
proof (intro allI impI)
  fix j l assume "j < n'" "l < k"
  then show "p + of_nat i + of_nat j \<noteq> q + of_nat l"
    using assms(1) [unfolded clear_of_def, rule_format, of "i + j" l] assms(2) by (simp add: add.assoc)
qed

text \<open>A NUL stored over the delimiter at offset \<open>k\<close> cuts the string in two.\<close>

lemma cut_string:
  assumes "cstr m p (xs @ d # ys)" "inside p (length (xs @ d # ys))" "k = length xs"
  shows "cstr (m(p + of_nat k := 0)) p xs" "cstr (m(p + of_nat k := 0)) (p + of_nat (k + 1)) ys"
    "inside (p + of_nat (k + 1)) (length ys)"
proof -
  let ?m = "m(p + of_nat k := 0)"
  have off: "p + of_nat k \<noteq> p + of_nat j" if "j \<le> length (xs @ d # ys)" "j \<noteq> k" for j
    using inside_facts(2) [OF assms(2), of j] inside_facts(2) [OF assms(2), of k] that assms(3) by auto
  have "(\<forall>c\<in>set xs. c \<noteq> 0) \<and> (\<forall>i<length xs. m (p + of_nat i) = xs ! i)"
    and ys: "cstr m (p + of_nat (k + 1)) ys"
    using assms(1,3) by (auto simp: cstr_append ac_simps)
  moreover have "?m (p + of_nat i) = m (p + of_nat i)" if "i < length xs" for i
    using off [of i] that assms(3) by auto
  ultimately show "cstr ?m p xs" using cstr_append [of ?m p xs "[]"] assms(3) by simp
  have "?m (p + of_nat (k + 1) + of_nat i) = m (p + of_nat (k + 1) + of_nat i)" if "i \<le> length ys" for i
    using off [of "k + 1 + i"] that assms(3) by (auto simp: add.assoc)
  then show "cstr ?m (p + of_nat (k + 1)) ys" using ys cstr_cong [of ys ?m "p + of_nat (k + 1)" m] by blast
  show "inside (p + of_nat (k + 1)) (length ys)"
    using inside_facts(2) [OF assms(2), of "k + 1"] assms(2,3) by (simp add: inside_def del: of_nat_add)
qed

lemma tokenise_cstr:
  assumes "\<forall>i\<le>length ds. delim + of_nat i \<noteq> 0"
  shows "\<lbrakk>cstr m delim ds; cstr m p s; inside p (length s); clear_of p (Suc (length s)) delim (Suc (length ds));
      (if str \<noteq> 0 then str else nxt) = p; length s < k\<rbrakk>
    \<Longrightarrow> \<exists>ts m'. tokenise k m str delim nxt = Some (ts, m') \<and> list_all2 (cstr m') ts (fields (set ds) s) \<and>
          (\<forall>x. (\<forall>i\<le>length s. x \<noteq> p + of_nat i) \<longrightarrow> m' x = m x)"
proof (induction s arbitrary: m p str nxt k rule: length_induct)
  case (1 s)
  note D = "1.prems"(1) and S = "1.prems"(2) and ins = "1.prems"(3) and cl = "1.prems"(4)
  obtain k' where k: "k = Suc k'" "length s \<le> k'" using "1.prems"(6) by (cases k) auto
  have p0: "p \<noteq> 0" using inside_facts(1) [OF ins, of 0] by simp
  obtain r where r: "dropWhile (\<lambda>c. c \<in> set ds) s = r" by simp
  show ?case
  proof (cases "r = []")
    case True
    then have "strtok m str delim nxt = Some (0, m, 0)" using strtok_none [OF D assms S "1.prems"(5) p0] r by simp
    then show ?thesis using True r by (simp add: k fields.simps [of _ s])
  next
    case False
    define pre where pre: "pre = takeWhile (\<lambda>c. c \<in> set ds) s"
    define tok where tok: "tok = takeWhile (\<lambda>c. c \<notin> set ds) r"
    define aft where aft: "aft = dropWhile (\<lambda>c. c \<notin> set ds) r"
    define i where i: "i = length pre" define j where j: "j = length tok"
    define start where start: "start = p + of_nat i"
    note call = strtok_token [OF D assms S "1.prems"(5) p0 pre r False tok aft start [unfolded i] refl, folded j]
    have s: "s = pre @ tok @ aft" using call by blast
    have F: "fields (set ds) s = tok # fields (set ds) (drop 1 aft)"
      using False by (simp add: fields.simps [of _ s] r Let_def tok [symmetric] aft [symmetric])
    have st0: "start \<noteq> 0" using inside_facts(1) [OF ins, of i] by (simp add: start s i)
    show ?thesis
    proof (cases aft)
      case Nil
      then have "cstr m start tok" using call by simp
      moreover have "fields (set ds) [] = []" by (simp add: fields.simps)
      ultimately show ?thesis using call Nil F st0 by (simp add: k)
    next
      case (Cons d ys)
      let ?m = "m(start + of_nat j := 0)" and ?n = "start + of_nat j + 1"
      have ins2: "inside start (length (tok @ d # ys))"
        using inside_facts(2) [OF ins, of i] ins by (simp add: inside_def start s i Cons)
      have "cstr m start (tok @ d # ys)" using call Cons by simp
      note cut = cut_string [OF this ins2 j]
      have n: "?n = start + of_nat (j + 1)" "?n = p + of_nat (i + j + 1)" by (simp_all add: start add.assoc)
      have "start + of_nat j \<noteq> delim + of_nat l" if "l \<le> length ds" for l
        using cl [unfolded clear_of_def, rule_format, of "i + j" l] that by (simp add: start s i j Cons add.assoc)
      then have "?m (delim + of_nat l) = m (delim + of_nat l)" if "l \<le> length ds" for l
        using that by (metis fun_upd_other)
      then have D': "cstr ?m delim ds" using D cstr_cong [of ds ?m delim m] by blast
      have cl': "clear_of ?n (Suc (length ys)) delim (Suc (length ds))"
        unfolding n(2) by (rule clear_of_sub [OF cl]) (simp add: s i j Cons)
      have n0: "?n \<noteq> 0" using inside_facts(1) [OF cut(3), of 0] by (simp add: n(1))
      have len: "length ys < length s" "length ys < k'" using k(2) by (simp_all add: s Cons)
      obtain ts m' where T: "tokenise k' ?m 0 delim ?n = Some (ts, m')" "list_all2 (cstr m') ts (fields (set ds) ys)"
        "\<forall>x. (\<forall>i\<le>length ys. x \<noteq> ?n + of_nat i) \<longrightarrow> m' x = ?m x"
        using "1.IH" [rule_format, OF len(1) D' _ _ cl' _ len(2), of 0 ?n] cut(2,3) unfolding n(1) [symmetric] by auto
      have R: "tokenise k m str delim nxt = Some (start # ts, m')"
        using call Cons T(1) st0 n0 by (simp add: k)
      have apart: "start + of_nat a \<noteq> ?n + of_nat b" if "a \<le> j" "b \<le> length ys" for a b
      proof
        assume e: "start + of_nat a = ?n + of_nat b"
        have "?n + of_nat b = start + of_nat (j + 1 + b)" by (simp add: add.assoc)
        then have "unat (start + of_nat a) = unat (start + of_nat (j + 1 + b))" using e by metis
        moreover have "unat (start + of_nat a) = unat start + a" "unat (start + of_nat (j + 1 + b)) = unat start + (j + 1 + b)"
          using that by (intro inside_facts(2) [OF ins2]; simp add: j)+
        ultimately show False using that by linarith
      qed
      then have "cstr m' start tok" using cut(1) T(3) cstr_cong [of tok m' start ?m] by (simp add: j)
      moreover have "m' x = m x" if x: "\<forall>l\<le>length s. x \<noteq> p + of_nat l" for x
      proof -
        have "x \<noteq> ?n + of_nat b" if "b \<le> length ys" for b
        proof -
          have "?n + of_nat b = p + of_nat (i + j + 1 + b)" unfolding n(2) by (simp only: of_nat_add add.assoc)
          moreover have "i + j + 1 + b \<le> length s" using that by (simp add: s i j Cons)
          ultimately show ?thesis using x by metis
        qed
        moreover have "x \<noteq> start + of_nat j"
        proof -
          have "start + of_nat j = p + of_nat (i + j)" by (simp add: start add.assoc)
          moreover have "i + j \<le> length s" by (simp add: s i j Cons)
          ultimately show ?thesis using x by metis
        qed
        ultimately show ?thesis using T(3) by simp
      qed
      ultimately show ?thesis using R F Cons T(2) by simp
    qed
  qed
qed

text \<open>
  The token loop returns, and its result is the list of the maximal runs of non-delimiters of
  the string, in order, each left as a NUL-terminated string in the final memory; consecutive,
  leading and trailing delimiters give no empty tokens, and no byte outside the string is written.
\<close>

theorem strtok_splits:
  assumes "cstr m p s" "cstr m delim ds" "inside p (length s)" "inside delim (length ds)"
    and "clear_of p (Suc (length s)) delim (Suc (length ds))"
  shows "\<exists>ts m'. tokenise (Suc (length s)) m p delim nxt = Some (ts, m') \<and>
    list_all2 (cstr m') ts (fields (set ds) s) \<and> (\<forall>x. (\<forall>i\<le>length s. x \<noteq> p + of_nat i) \<longrightarrow> m' x = m x)"
proof -
  have "p \<noteq> 0" using inside_facts(1) [OF assms(3), of 0] by simp
  then show ?thesis
    using tokenise_cstr [OF _ assms(2,1,3,5), of p nxt "Suc (length s)"] inside_facts(1) [OF assms(4)] by simp
qed

lemma strtok_splits_witness:
  "\<exists>t u m'. tokenise 5 demo_mem 100 200 0 = Some ([t, u], m') \<and> cstr m' t [97, 98] \<and> cstr m' u [99]"
proof -
  have f: "fields {44} [97, 98, 44, 99] = [[97, 98], [99]]"
    by (simp add: fields.simps [of _ "[97, 98, 44, 99]"] fields.simps [of _ "[99]"] fields.simps [of _ "[]"] Let_def)
  have c: "clear_of 100 (Suc (length [97, 98, 44, 99 :: u8])) 200 (Suc (length [44 :: u8]))"
    unfolding clear_of_def by (auto simp: less_Suc_eq)
  have i: "inside 100 (length [97, 98, 44, 99 :: u8])" "inside 200 (length [44 :: u8])" by (simp_all add: inside_def)
  have e: "Suc (length [97, 98, 44, 99 :: u8]) = 5" "set [44 :: u8] = {44}" by simp_all
  obtain ts m' where "tokenise 5 demo_mem 100 200 0 = Some (ts, m')" "list_all2 (cstr m') ts [[97, 98], [99]]"
    using strtok_splits [OF demo_strings i c, of 0] unfolding e f by blast
  then show ?thesis by (auto simp: list_all2_Cons2 simp del: tokenise.simps cstr.simps)
qed

end
