(* ===== verification/Kmalloc.thy ===== *)
theory Kmalloc
  imports HeapRuns KrStrings
begin

text \<open>
  The libc face of the heap, \<open>arch/arm32/src/kmalloc.c\<close>, and \<open>strdup\<close> of krlibc.c, which
  allocates through it.  The file's two static variables are the record; while no heap is bound the
  memory is a field of its own, afterwards it is the memory of the bound heap.
\<close>

section \<open>State and operations\<close>

record 'g kmalloc_t =
  g_heap :: "'g heap_t option"
  g_bad_free :: u32
  g_mem :: bytes

definition mem_of :: "'g kmalloc_t \<Rightarrow> bytes" where
  "mem_of k = (case g_heap k of None \<Rightarrow> g_mem k | Some h \<Rightarrow> h_mem h)"

definition set_mem :: "bytes \<Rightarrow> 'g kmalloc_t \<Rightarrow> 'g kmalloc_t" where
  "set_mem m k = (case g_heap k of None \<Rightarrow> k\<lparr>g_mem := m\<rparr> | Some h \<Rightarrow> k\<lparr>g_heap := Some (h\<lparr>h_mem := m\<rparr>)\<rparr>)"

definition kmalloc_set_heap :: "'g heap_t option \<Rightarrow> 'g kmalloc_t \<Rightarrow> 'g kmalloc_t" where
  "kmalloc_set_heap h k = k\<lparr>g_heap := h\<rparr>"

definition kmalloc_bad_free_count :: "'g kmalloc_t \<Rightarrow> u32" where
  "kmalloc_bad_free_count k = g_bad_free k"

definition malloc :: "'g kmalloc_t \<Rightarrow> u32 \<Rightarrow> (u32 \<times> 'g kmalloc_t) option" where
  "malloc k sz =
     (case g_heap k of
        None \<Rightarrow> Some (0, k)
      | Some h \<Rightarrow> do { (p, h) \<leftarrow> heap_alloc h sz; Some (p, k\<lparr>g_heap := Some h\<rparr>) })"

definition calloc :: "'g kmalloc_t \<Rightarrow> u32 \<Rightarrow> u32 \<Rightarrow> (u32 \<times> 'g kmalloc_t) option" where
  "calloc k nmemb sz =
     (case g_heap k of
        None \<Rightarrow> Some (0, k)
      | Some h \<Rightarrow> do { (p, h) \<leftarrow> heap_calloc h nmemb sz; Some (p, k\<lparr>g_heap := Some h\<rparr>) })"

definition realloc :: "'g kmalloc_t \<Rightarrow> u32 \<Rightarrow> u32 \<Rightarrow> (u32 \<times> 'g kmalloc_t) option" where
  "realloc k ptr sz =
     (case g_heap k of
        None \<Rightarrow> Some (0, k)
      | Some h \<Rightarrow> do { (p, h) \<leftarrow> heap_realloc h ptr sz; Some (p, k\<lparr>g_heap := Some h\<rparr>) })"

definition free :: "'g kmalloc_t \<Rightarrow> u32 \<Rightarrow> 'g kmalloc_t option" where
  "free k ptr =
     (if ptr = 0 then Some k
      else case g_heap k of
        None \<Rightarrow> Some (k\<lparr>g_bad_free := g_bad_free k + 1\<rparr>)
      | Some h \<Rightarrow> do {
          (e, h) \<leftarrow> heap_free h ptr;
          let k = k\<lparr>g_heap := Some h\<rparr>;
          Some (if e \<noteq> HEAP_OK then k\<lparr>g_bad_free := g_bad_free k + 1\<rparr> else k)
        })"

definition strdup :: "'g kmalloc_t \<Rightarrow> u32 \<Rightarrow> (u32 \<times> 'g kmalloc_t) option" where
  "strdup k s =
     (if s = 0 then Some (0, k)
      else do {
        n \<leftarrow> strlen (mem_of k) s;
        let len = n + 1;
        (copy, k) \<leftarrow> malloc k len;
        if copy = 0 then Some (0, k)
        else Some (copy, set_mem (snd (memcpy copy s len (mem_of k))) k)
      })"

section \<open>Freeing twice\<close>

text \<open>A header that a join swallows keeps its magic number and its state.\<close>

lemma absorb_marks:
  assumes C: "heap_core h (pre @ (s, u) # (t, v) # post)"
    and A: "A = unat (h_base h) + span pre" and B: "B = A + 24 + s"
    and x: "x \<in> set (addrs (unat (h_base h)) (pre @ (s, u) # (t, v) # post))"
  shows "b_magic (absorb (h_mem h) (of_nat A) (of_nat B)) (of_nat x) = b_magic (h_mem h) (of_nat x) \<and>
    block_state (absorb (h_mem h) (of_nat A) (of_nat B)) (of_nat x) = block_state (h_mem h) (of_nat x)"
proof -
  let ?bs = "pre @ (s, u) # (t, v) # post" and ?D = "first (B + 24 + t) post"
  have P: "placed (unat (h_base h)) ?bs" using C by (simp add: heap_core_def)
  have AB: "A \<in> set (addrs (unat (h_base h)) ?bs)" "B \<in> set (addrs (unat (h_base h)) ?bs)"
    by (simp_all add: addrs_append A B)
  have C': "heap_core h ((pre @ [(s, u)]) @ (t, v) # post)" using C by simp
  have n: "b_next (h_mem h) (of_nat B) = of_nat ?D"
    using core_block(4) [OF C', of B] by (simp add: A B ac_simps)
  have D: "post = [] \<or> ?D \<in> set (addrs (unat (h_base h)) ?bs)"
    by (cases post) (auto simp: addrs_append A B ac_simps)
  have ne: "A \<noteq> B" by (simp add: B)
  note ap = placed_apart [OF P AB(1) x] placed_apart [OF P AB(1) AB(2)]
  show ?thesis
  proof (cases "post = []")
    case True
    then have z: "b_next (h_mem h) (of_nat B) = 0" using n by simp
    then show ?thesis using ap ne by (simp add: absorb_def Let_def set_fields)
  next
    case False
    then have "apart ?D x" using D placed_apart [OF P _ x] by blast
    then show ?thesis using ap n ne by (simp add: absorb_def Let_def set_fields)
  qed
qed

lemma merge_next_marks:
  assumes C: "heap_core h (pre @ (s, False) # post)" and A: "A = unat (h_base h) + span pre"
  shows "b_magic (h_mem (free_merge_next h (of_nat A))) (of_nat A) = b_magic (h_mem h) (of_nat A) \<and>
    block_state (h_mem (free_merge_next h (of_nat A))) (of_nat A) = block_state (h_mem h) (of_nat A)"
proof (cases post)
  case Nil
  then show ?thesis using next_block [OF C A] by (auto simp: free_merge_next_def Let_def)
next
  case (Cons c cs)
  obtain t v where c: "c = (t, v)" by fastforce
  have "A \<in> set (addrs (unat (h_base h)) (pre @ (s, False) # (t, v) # cs))" by (simp add: addrs_append A)
  then show ?thesis using absorb_marks [OF C [unfolded Cons c] A refl] core_block(4) [OF C A]
    by (simp add: free_merge_next_def Let_def Cons)
qed

lemma merge_prev_marks:
  assumes C: "heap_core h (pre @ (s, False) # post)" and A: "A = unat (h_base h) + span pre"
  shows "b_magic (h_mem (free_merge_prev h (of_nat A))) (of_nat A) = b_magic (h_mem h) (of_nat A) \<and>
    block_state (h_mem (free_merge_prev h (of_nat A))) (of_nat A) = block_state (h_mem h) (of_nat A)"
proof (cases pre rule: rev_cases)
  case Nil
  then show ?thesis using prev_block [OF C A] by (auto simp: free_merge_prev_def Let_def)
next
  case (snoc xs c)
  obtain t v where c: "c = (t, v)" by fastforce
  define K where K: "K = unat (h_base h) + span xs"
  have AK: "A = K + 24 + t" by (simp add: A K snoc c)
  have C': "heap_core h (xs @ (t, v) # (s, False) # post)" using C by (simp add: snoc c)
  have "A \<in> set (addrs (unat (h_base h)) (xs @ (t, v) # (s, False) # post))" by (simp add: addrs_append AK K)
  then show ?thesis using absorb_marks [OF C' K AK] core_block(5) [OF C A]
    by (simp add: free_merge_prev_def Let_def snoc K)
qed

lemma heap_free_again:
  assumes inv: "heap_inv h (pre @ (s, True) # post)" and A: "A = unat (h_base h) + span pre"
    and f: "heap_free h (of_nat (A + 24)) = Some (HEAP_OK, h')"
  shows "heap_free h' (of_nat (A + 24)) = Some (HEAP_ERR_DOUBLE_FREE, h')"
proof -
  have C: "heap_core h (pre @ (s, True) # post)" using inv by (simp add: heap_inv_def)
  note B = core_block [OF C A] and g = payload_guards [OF C A]
  let ?m = "h_mem h"
  have i: "h_inited h" using C by (simp add: heap_core_def)
  define h1 where h1: "h1 = h\<lparr>h_mem := set_state ?m (of_nat A) HEAP_STATE_FREE, h_used := h_used h - of_nat s,
     h_free := h_free h + of_nat s, h_frees := h_frees h + 1\<rparr>"
  define h2 where h2: "h2 = free_merge_next h1 (of_nat A)"
  define h3 where h3: "h3 = free_merge_prev h2 (of_nat A)"
  obtain s2 post2 where j: "join_next s post = (s2, post2)" by fastforce
  have C1: "heap_core h1 (pre @ (s, False) # post)"
    using C by (intro core_mark [OF C A]) (simp_all add: h1 heap_core_def)
  have A1: "A = unat (h_base h1) + span pre" using A by (simp add: h1)
  have C2: "heap_core h2 (pre @ (s2, False) # post2)" using free_merge_next_core [OF C1 A1 j] by (simp add: h2)
  have A2: "A = unat (h_base h2) + span pre" using A1 by (simp add: h2)
  have sz: "b_size (set_state ?m (of_nat A) HEAP_STATE_FREE) (of_nat A) = of_nat s"
    using B(3) set_fields(3) [OF g(6)] by simp
  have "heap_free h (of_nat (A + 24)) = do { l \<leftarrow> heap_largest_free h3; Some (HEAP_OK, h3\<lparr>h_largest := l\<rparr>) }"
    unfolding heap_free_def g(5) Let_def sz h1 [symmetric] h2 [symmetric] h3 [symmetric]
    using g(2-4) B(1,2) i by simp
  then obtain l where h': "h' = h3\<lparr>h_largest := l\<rparr>" using f by (auto simp: bind_eq_Some_conv)
  have "b_magic (h_mem h') (of_nat A) = HEAP_MAGIC" "block_state (h_mem h') (of_nat A) = HEAP_STATE_FREE"
    using merge_prev_marks [OF C2 A2] merge_next_marks [OF C1 A1] B(1) set_fields(1,2) [OF g(6)]
    by (simp_all add: h' h3 h2 h1)
  moreover have "h_base h' = h_base h" "h_size h' = h_size h" "h_inited h'"
    using i by (simp_all add: h' h3 h2 h1 free_merge_next_def free_merge_prev_def Let_def)
  ultimately show ?thesis using g(2-5) by (simp add: heap_free_def Let_def del: of_nat_add)
qed

text \<open>The last two words with the program's view of the heap.\<close>

lemma heap_run_free_twice:
  assumes "heap_run h L w" "(p, n) \<in> set L"
  shows "\<exists>h'. heap_free h p = Some (HEAP_OK, h') \<and> heap_free h' p = Some (HEAP_ERR_DOUBLE_FREE, h') \<and>
    heap_run h' (filter (\<lambda>x. fst x \<noteq> p) L) (w |` (- region p n)) \<and> p \<noteq> 0"
proof -
  obtain bs where bs: "heap_inv h bs" "live (h_base h) bs L"
    using heap_run_inv [OF assms(1)] by (auto simp: run_inv_def)
  obtain s where s: "(unat p, s) \<in> set (payloads (unat (h_base h)) bs)" using liveD [OF bs(2) assms(2)] by blast
  obtain h' where h': "heap_free h p = Some (HEAP_OK, h')" using heap_free_payloads [OF bs(1) s] by blast
  obtain pre post where b: "bs = pre @ (s, True) # post" and u: "unat p = unat (h_base h) + span pre + 24"
    using payload_block [OF s] .
  have w: "p = of_nat (unat (h_base h) + span pre + 24)" unfolding u [symmetric] by simp
  have "heap_free h' p = Some (HEAP_ERR_DOUBLE_FREE, h')"
    using heap_free_again [OF bs(1) [unfolded b] refl] h' unfolding w by blast
  then show ?thesis using h' heap_run.free [OF assms h'] block_of_payload(5) [OF bs(1) s] by blast
qed

text \<open>
  \<open>free\<close> reports through its counter, and only there.  NULL is ignored in every state; without
  a heap every other pointer counts; a live allocation is released without counting, and releasing it a second
  time at once counts exactly one bad free and changes nothing else; a pointer outside the arena
  counts and changes nothing else.
\<close>

theorem free_accounting:
  assumes "heap_run h L w" "g_heap k = Some h"
  shows "free k 0 = Some k \<and>
    (\<forall>p k0. p \<noteq> 0 \<and> g_heap k0 = None \<longrightarrow> free k0 p = Some ((k0 :: 'g kmalloc_t)\<lparr>g_bad_free := g_bad_free k0 + 1\<rparr>)) \<and>
    (\<forall>(p, n)\<in>set L. \<exists>h'. heap_run h' (filter (\<lambda>x. fst x \<noteq> p) L) (w |` (- region p n)) \<and>
       free k p = Some (k\<lparr>g_heap := Some h'\<rparr>) \<and>
       free (k\<lparr>g_heap := Some h'\<rparr>) p = Some (k\<lparr>g_heap := Some h', g_bad_free := g_bad_free k + 1\<rparr>)) \<and>
    (\<forall>p. p \<noteq> 0 \<and> (p < h_base h + 24 \<or> h_base h + h_size h \<le> p) \<longrightarrow>
       free k p = Some (k\<lparr>g_bad_free := g_bad_free k + 1\<rparr>))"
proof (intro conjI allI impI ballI)
  show "free k 0 = Some k" by (simp add: free_def)
  show "free k0 p = Some (k0\<lparr>g_bad_free := g_bad_free k0 + 1\<rparr>)" if "p \<noteq> 0 \<and> g_heap k0 = None"
    for p and k0 :: "'g kmalloc_t"
    using that by (simp add: free_def)
next
  fix x assume m: "x \<in> set L"
  obtain p n where x: "x = (p, n)" by fastforce
  obtain h' where h': "heap_free h p = Some (HEAP_OK, h')" "heap_free h' p = Some (HEAP_ERR_DOUBLE_FREE, h')"
    "heap_run h' (filter (\<lambda>x. fst x \<noteq> p) L) (w |` (- region p n))" "p \<noteq> 0"
    using heap_run_free_twice [OF assms(1) m [unfolded x]] by blast
  show "case x of (p, n) \<Rightarrow> \<exists>h'. heap_run h' (filter (\<lambda>x. fst x \<noteq> p) L) (w |` (- region p n)) \<and>
       free k p = Some (k\<lparr>g_heap := Some h'\<rparr>) \<and>
       free (k\<lparr>g_heap := Some h'\<rparr>) p = Some (k\<lparr>g_heap := Some h', g_bad_free := g_bad_free k + 1\<rparr>)"
    using h' assms(2) by (auto simp: x free_def intro!: exI [of _ h'])
next
  fix p :: u32 assume p: "p \<noteq> 0 \<and> (p < h_base h + 24 \<or> h_base h + h_size h \<le> p)"
  have "\<exists>bs. heap_inv h bs" using heap_run_inv [OF assms(1)] by (auto simp: run_inv_def)
  then have "h_inited h" by (auto simp: heap_inv_def heap_core_def)
  then have "heap_free h p = Some (HEAP_ERR_BAD_POINTER, h)" using p by (auto simp: heap_free_def)
  moreover have "k\<lparr>g_heap := Some h, g_bad_free := g_bad_free k + 1\<rparr> = k\<lparr>g_bad_free := g_bad_free k + 1\<rparr>"
    using assms(2) by (cases k) simp
  ultimately show "free k p = Some (k\<lparr>g_bad_free := g_bad_free k + 1\<rparr>)" using p assms(2) by (simp add: free_def)
qed

definition km4k :: "unit kmalloc_t" where
  "km4k = \<lparr>g_heap = Some heap4k, g_bad_free = 0, g_mem = (\<lambda>_. 0)\<rparr>"

lemma free_accounting_witness:
  "free km4k 0x20 = Some (km4k\<lparr>g_bad_free := 1\<rparr>)"
proof -
  have g: "g_heap km4k = Some heap4k" by (simp add: km4k_def)
  have "\<forall>p. p \<noteq> 0 \<and> (p < 0x1018 \<or> 0x2000 \<le> p) \<longrightarrow> free km4k p = Some (km4k\<lparr>g_bad_free := g_bad_free km4k + 1\<rparr>)"
    using free_accounting [OF heap4k_run g] by (simp add: heap4k_fields) blast
  then have "free km4k 0x20 = Some (km4k\<lparr>g_bad_free := g_bad_free km4k + 1\<rparr>)" by simp
  then show ?thesis by (simp add: km4k_def)
qed

section \<open>Duplicating a string\<close>

definition string_bytes :: "u8 list \<Rightarrow> nat \<Rightarrow> u8" where
  "string_bytes s i = (s @ [0]) ! i"

lemma cstr_string_bytes: "cstr m p s \<longleftrightarrow> 0 \<notin> set s \<and> (\<forall>i\<le>length s. m (p + of_nat i) = string_bytes s i)"
proof -
  have "cstr m p s \<longleftrightarrow> (\<forall>c\<in>set s. c \<noteq> 0) \<and> (\<forall>i<length s. m (p + of_nat i) = s ! i) \<and> m (p + of_nat (length s)) = 0"
    using cstr_append [of m p s "[]"] by simp
  then show ?thesis by (auto simp: string_bytes_def nth_append order_le_less)
qed

text \<open>Copying known bytes into a fresh allocation is a sequence of stores.\<close>

lemma heap_run_copy:
  assumes r: "heap_run h ((q, n) # L) w" and n: "n < 4294967296"
    and src: "\<And>i. i < n \<Longrightarrow> w (p + of_nat i) = Some (f i) \<and> p + of_nat i \<notin> region q n"
  shows "j \<le> n \<Longrightarrow> heap_run (h\<lparr>h_mem := copy_up q p j (h_mem h)\<rparr>) ((q, n) # L)
    (\<lambda>a. if a \<in> region q j then Some (f (unat (a - q))) else w a)"
proof (induction j)
  case 0
  then show ?case using r by (simp add: copy_up_def region_def)
next
  case (Suc j)
  let ?m = "copy_up q p j (h_mem h)" and ?w = "\<lambda>j a. if a \<in> region q j then Some (f (unat (a - q))) else w a"
  have j: "j < n" "j < 4294967296" using Suc.prems n by simp_all
  have u: "unat (of_nat j :: u32) = j" using j(2) by (simp add: unat_of_nat_small)
  have R: "heap_run (h\<lparr>h_mem := ?m\<rparr>) ((q, n) # L) (?w j)" using Suc by simp
  have "p + of_nat j \<notin> region q j" using src [OF j(1)] j(1) by (auto simp: region_def)
  then have "?w j (p + of_nat j) = Some (f j)" using src [OF j(1)] by simp
  then have v: "?m (p + of_nat j) = f j" using heap_run_inv [OF R] by (fastforce simp: run_inv_def known_def)
  have "q + of_nat j \<in> region q n" using j u by (simp add: region_def)
  from heap_run.store [OF R _ this, of "f j"]
  have S: "heap_run (h\<lparr>h_mem := ?m(q + of_nat j := f j)\<rparr>) ((q, n) # L) ((?w j)(q + of_nat j \<mapsto> f j))" by simp
  have "(?w j)(q + of_nat j \<mapsto> f j) = ?w (Suc j)"
    using offset_below [OF j(2), of _ q] u by (auto simp: fun_eq_iff region_def)
  then show ?case using S v by (simp add: copy_up_Suc del: fun_upd_apply)
qed

text \<open>
  \<open>strdup\<close> of a string the program holds in the heap returns on every state the program can
  reach: NULL, with every allocation as it was, or the address of a new allocation of one byte more than the
  length, distinct from all live ones, that holds the same string; the original and every other
  known byte are kept, and the whole call is a history of allocation and stores like any other.
\<close>

theorem strdup_copies:
  assumes "heap_run h L w" "g_heap k = Some h" "p \<noteq> 0" "0 \<notin> set s" "length s + 8 < 2 ^ 32"
    and "\<forall>i\<le>length s. w (p + of_nat i) = Some (string_bytes s i)"
  shows "\<exists>q h'. strdup k p = Some (q, k\<lparr>g_heap := Some h'\<rparr>) \<and>
    (if q = 0 then heap_run h' L w
     else heap_run h' ((q, length s + 1) # L)
         (\<lambda>a. if a \<in> region q (length s + 1) then Some (string_bytes s (unat (a - q))) else w a) \<and>
       q \<notin> fst ` set L \<and> cstr (h_mem h') q s \<and> cstr (h_mem h') p s)"
proof -
  let ?n = "Suc (length s)"
  have n: "?n + 7 < 4294967296" using assms(5) by simp
  obtain bs where bs: "heap_inv h bs" "grow_ok h" "live (h_base h) bs L" "known h L w"
    using heap_run_inv [OF assms(1)] by (auto simp: run_inv_def)
  have u: "unat (of_nat ?n :: u32) = ?n" using n by (intro unat_of_nat_small) simp
  have c: "cstr (h_mem h) p s"
    using bs(4) assms(4,6) by (auto simp: cstr_string_bytes known_def)
  then have sl: "strlen (h_mem h) p = Some (of_nat (length s))"
    using strlen_from_cstr [of "h_mem h" p 0 s] by (simp add: strlen_def)
  obtain q h1 where a: "heap_alloc h (of_nat ?n) = Some (q, h1)"
    using heap_alloc_payloads [OF bs(1,2), of "of_nat ?n"] u n by auto
  have r1: "heap_run h1 (if q = 0 then L else (q, ?n) # L) w"
    using heap_run.alloc [OF assms(1) _ a] n unfolding u by simp
  have st: "strdup k p = Some (if q = 0 then (0, k\<lparr>g_heap := Some h1\<rparr>)
      else (q, k\<lparr>g_heap := Some (h1\<lparr>h_mem := copy_up q p ?n (h_mem h1)\<rparr>)\<rparr>))"
    using sl a u assms(2,3)
    by (simp add: strdup_def malloc_def mem_of_def set_mem_def memcpy_def Let_def add.commute)
  show ?thesis
  proof (cases "q = 0")
    case True
    then show ?thesis using st r1 by auto
  next
    case False
    then have r: "heap_run h1 ((q, ?n) # L) w" using r1 by simp
    obtain bs1 where b1: "heap_inv h1 bs1" "live (h_base h1) bs1 ((q, ?n) # L)"
      using heap_run_inv [OF r] by (auto simp: run_inv_def)
    then have fresh: "q \<notin> fst ` set L" by (auto simp: live_def)
    have "p + of_nat i \<notin> region q ?n" if i: "i < ?n" for i
    proof -
      have "w (p + of_nat i) = Some (string_bytes s i)" using assms(6) i by simp
      then obtain r k where rk: "(r, k) \<in> set L" "p + of_nat i \<in> region r k"
        using bs(4) by (fastforce simp: known_def)
      then have "r \<noteq> q" using fresh by force
      then show ?thesis using live_disjoint [OF b1, of r k q ?n] rk by auto
    qed
    then have R: "heap_run (h1\<lparr>h_mem := copy_up q p ?n (h_mem h1)\<rparr>) ((q, ?n) # L)
        (\<lambda>a. if a \<in> region q ?n then Some (string_bytes s (unat (a - q))) else w a)"
      using n assms(6) by (intro heap_run_copy [OF r]) auto
    let ?h2 = "h1\<lparr>h_mem := copy_up q p ?n (h_mem h1)\<rparr>"
    have K: "\<And>a v. (if a \<in> region q ?n then Some (string_bytes s (unat (a - q))) else w a) = Some v \<Longrightarrow> h_mem ?h2 a = v"
      using heap_run_inv [OF R] unfolding run_inv_def known_def by blast
    have "h_mem ?h2 (q + of_nat i) = string_bytes s i" if "i \<le> length s" for i
    proof -
      have "unat (of_nat i :: u32) = i" using that n by (intro unat_of_nat_small) simp
      then show ?thesis using that by (intro K) (simp add: region_def)
    qed
    moreover have "h_mem ?h2 (p + of_nat i) = string_bytes s i" if "i \<le> length s" for i
      using that assms(6) \<open>\<And>i. i < ?n \<Longrightarrow> p + of_nat i \<notin> region q ?n\<close> by (intro K) simp
    ultimately have "cstr (h_mem ?h2) q s" "cstr (h_mem ?h2) p s" using assms(4) by (simp_all add: cstr_string_bytes)
    then show ?thesis using st False R fresh by (intro exI [of _ q] exI [of _ ?h2]) simp
  qed
qed

lemma strdup_copies_witness:
  "\<exists>h. heap_run h [(0x1018, 100)] (Map.empty(0x1018 \<mapsto> 65, 0x1019 \<mapsto> 0)) \<and>
     (\<exists>q h'. strdup (km4k\<lparr>g_heap := Some h\<rparr>) 0x1018 = Some (q, km4k\<lparr>g_heap := Some h'\<rparr>) \<and>
        (q = 0 \<or> q \<noteq> 0x1018 \<and> cstr (h_mem h') q [65]))"
proof -
  have g: "grow_ok heap4k" by (simp add: grow_ok_def heap4k_fields)
  obtain p h where a: "heap_alloc heap4k 100 = Some (p, h)" "allocated heap4k [(4072, False)] [(4072, False)] 104 p h"
    using heap_alloc_spec [OF heap4k_inv g, of 100] by (auto simp: request_def fits_def)
  then have p: "p = 0x1018" by (auto simp: allocated_def Cons_eq_append_conv heap4k_fields)
  have r: "heap_run h [(0x1018, 100)] Map.empty" using heap_run.alloc [OF heap4k_run _ a(1)] p by simp
  let ?h1 = "h\<lparr>h_mem := (h_mem h)(0x1018 := 65)\<rparr>"
  let ?h = "?h1\<lparr>h_mem := (h_mem ?h1)(0x1019 := 0)\<rparr>" and ?w = "Map.empty(0x1018 \<mapsto> 65, 0x1019 \<mapsto> 0) :: u32 \<rightharpoonup> u8"
  have "heap_run ?h1 [(0x1018, 100)] (Map.empty(0x1018 \<mapsto> 65))"
    by (rule heap_run.store [OF r]) (auto intro: region_self)
  then have R: "heap_run ?h [(0x1018, 100)] ?w"
    by (rule heap_run.store) (auto simp: region_def)
  have w: "\<forall>i\<le>length [65 :: u8]. ?w (0x1018 + of_nat i) = Some (string_bytes [65] i)"
    by (auto simp: string_bytes_def le_Suc_eq)
  have "\<exists>q h'. strdup (km4k\<lparr>g_heap := Some ?h\<rparr>) 0x1018 = Some (q, km4k\<lparr>g_heap := Some ?h\<rparr>\<lparr>g_heap := Some h'\<rparr>) \<and>
    (if q = 0 then heap_run h' [(0x1018, 100)] ?w
     else heap_run h' ((q, length [65 :: u8] + 1) # [(0x1018, 100)])
         (\<lambda>a. if a \<in> region q (length [65 :: u8] + 1) then Some (string_bytes [65] (unat (a - q))) else ?w a) \<and>
       q \<notin> fst ` set [(0x1018, 100 :: nat)] \<and> cstr (h_mem h') q [65] \<and> cstr (h_mem h') 0x1018 [65])"
    by (rule strdup_copies [OF R _ _ _ _ w]) simp_all
  then show ?thesis using R by (intro exI [of _ ?h]) (auto split: if_splits)
qed

end
