(* ===== verification/SchedCreate.thy ===== *)
theory SchedCreate
  imports SchedTick Kmalloc
begin

text \<open>
  Thread creation over the real heap, stack pool and run queues: either a thread that can be
  switched to at once, or nothing.
\<close>

section \<open>A fresh block and its return\<close>

lemma heap_run_fresh:
  assumes "heap_run h L w" "unat sz + 7 < 2 ^ 32"
  shows "\<exists>t h1. heap_alloc h sz = Some (t, h1) \<and>
    (if t = 0 then heap_run h1 L w
     else heap_run h1 ((t, unat sz) # L) w \<and> t \<notin> fst ` set L \<and> unat (h_base h) \<le> unat t \<and>
       (\<exists>h2. heap_free h1 t = Some (HEAP_OK, h2) \<and> heap_run h2 L w))"
proof -
  obtain bs where bs: "heap_inv h bs" "grow_ok h" "live (h_base h) bs L" "known h L w"
    using heap_run_inv [OF assms(1)] by (auto simp: run_inv_def)
  obtain t h1 where a: "heap_alloc h sz = Some (t, h1)" "same_arena h h1"
    using heap_alloc_payloads [OF bs(1,2), of sz] assms(2) by auto
  have r: "heap_run h1 (if t = 0 then L else (t, unat sz) # L) w" by (rule heap_run.alloc [OF assms a(1)])
  show ?thesis
  proof (cases "t = 0")
    case True
    then show ?thesis using a r by auto
  next
    case False
    then have r1: "heap_run h1 ((t, unat sz) # L) w" using r by simp
    obtain bs1 where b1: "heap_inv h1 bs1" "live (h_base h1) bs1 ((t, unat sz) # L)"
      using heap_run_inv [OF r1] by (auto simp: run_inv_def)
    have fresh: "t \<notin> fst ` set L" using b1(2) by (auto simp: live_def)
    have tm: "(t, unat sz) \<in> set ((t, unat sz) # L)" by simp
    obtain s where "(unat t, s) \<in> set (payloads (unat (h_base h1)) bs1)" using liveD [OF b1(2) tm] by blast
    then have ge: "unat (h_base h) \<le> unat t" using payloads_bounds a(2) by (fastforce simp: same_arena_def)
    obtain h2 where f: "heap_free h1 t = Some (HEAP_OK, h2)"
      "heap_run h2 (filter (\<lambda>x. fst x \<noteq> t) ((t, unat sz) # L)) (w |` (- region t (unat sz)))"
      using heap_run_free_twice [OF r1 tm] by blast
    have L: "filter (\<lambda>x. fst x \<noteq> t) ((t, unat sz) # L) = L"
      using fresh by (auto simp: filter_id_conv)
    have "w a = None" if "a \<in> region t (unat sz)" for a
    proof (rule ccontr)
      assume "w a \<noteq> None"
      then obtain p n where p: "(p, n) \<in> set L" "a \<in> region p n" using bs(4) by (fastforce simp: known_def)
      then have "p \<noteq> t" using fresh by force
      then show False using live_disjoint [OF b1, of p n t "unat sz"] p that by auto
    qed
    then have "w |` (- region t (unat sz)) = w" by (auto simp: restrict_map_def fun_eq_iff)
    then show ?thesis using a(1) r1 fresh ge f L False by auto
  qed
qed

section \<open>Queueing\<close>

lemma avg_returns:
  assumes "chain s p xs"
  shows "\<exists>r. avg_walk s ignore p acc n = Some r"
  using assms
proof (induction xs arbitrary: p acc n)
  case Nil
  then show ?case by (subst avg_walk.simps) simp
next
  case (Cons x xs)
  then show ?case by (subst avg_walk.simps) auto
qed

lemma append_local:
  assumes "chain s (q_head q) xs" "sched_queue_append t (s, q) = Some (b, s', q')" "x \<noteq> t" "x \<notin> set xs" "t \<noteq> NULL_TASK"
  shows "s' x = s x"
proof -
  have "before xs NULL_TASK t = NULL_TASK \<or> before xs NULL_TASK t \<in> set xs"
    unfolding before_def by (metis last.simps last_in_set set_takeWhileD)
  then show ?thesis
    using assms queue_find_chain [OF assms(1,5), of NULL_TASK]
    by (auto simp: sched_queue_append_def set_link_def upd_apply split: if_splits)
qed

lemma pick_runq_bound: "pick_runq level k < PERCPU_MAX_CPUS"
proof -
  have "sched_pick_cpu level (Some f) (Some g) 2 < 2" for f g
    using sched_pick_cpu_shortest [of 2 level f g] by (simp add: Let_def)
  then show ?thesis by (simp add: pick_runq_def Let_def)
qed

lemma rep_other:
  assumes "queue_rep (s, q) xs" "\<And>x. x \<in> set xs \<Longrightarrow> t_sched_next (s' x) = t_sched_next (s x)"
  shows "queue_rep (s', q) xs"
  using assms chain_cong [of xs s' s] by (simp add: queue_rep_def)

lemma same_but_linkD:
  assumes "same_but_link s s'"
  shows "t_ctx (s' x) = t_ctx (s x)" "t_task_level (s' x) = t_task_level (s x)" "t_status (s' x) = t_status (s x)"
    "t_cpu_id (s' x) = t_cpu_id (s x)" "t_owns_kstack (s' x) = t_owns_kstack (s x)"
    "t_kstack_base (s' x) = t_kstack_base (s x)" "t_kernel_stack (s' x) = t_kernel_stack (s x)"
    "t_kstack_slot (s' x) = t_kstack_slot (s x)"
proof -
  have e: "(s' x)\<lparr>t_sched_next := NULL_TASK\<rparr> = (s x)\<lparr>t_sched_next := NULL_TASK\<rparr>"
    using assms by (simp add: same_but_link_def)
  show "t_ctx (s' x) = t_ctx (s x)" using arg_cong [OF e, of t_ctx] by simp
  show "t_task_level (s' x) = t_task_level (s x)" using arg_cong [OF e, of t_task_level] by simp
  show "t_status (s' x) = t_status (s x)" using arg_cong [OF e, of t_status] by simp
  show "t_cpu_id (s' x) = t_cpu_id (s x)" using arg_cong [OF e, of t_cpu_id] by simp
  show "t_owns_kstack (s' x) = t_owns_kstack (s x)" using arg_cong [OF e, of t_owns_kstack] by simp
  show "t_kstack_base (s' x) = t_kstack_base (s x)" using arg_cong [OF e, of t_kstack_base] by simp
  show "t_kernel_stack (s' x) = t_kernel_stack (s x)" using arg_cong [OF e, of t_kernel_stack] by simp
  show "t_kstack_slot (s' x) = t_kstack_slot (s x)" using arg_cong [OF e, of t_kstack_slot] by simp
qed

definition rosters :: "(nat \<Rightarrow> tcb_t list) \<Rightarrow> 'g kern_t \<Rightarrow> bool" where
  "rosters xs k \<longleftrightarrow> (\<forall>c<2. queue_rep (kn_tcb k, kn_runq k c) (xs c)) \<and> set (xs 0) \<inter> set (xs 1) = {}"

lemma enqueue_spec:
  assumes R: "rosters xs k" and t: "t \<noteq> NULL_TASK" "\<forall>c<2. t \<notin> set (xs c)"
    and c: "c = pick_runq (t_task_level (kn_tcb k t)) k"
  shows "\<exists>k'. thread_enqueue now t k = Some (True, k') \<and> rosters (xs(c := xs c @ [t])) k' \<and>
    kn_heap k' = kn_heap k \<and> kn_ks k' = kn_ks k \<and> t_cpu_id (kn_tcb k' t) = of_nat c \<and>
    (\<forall>x. x \<noteq> t \<longrightarrow> (kn_tcb k' x)\<lparr>t_sched_next := NULL_TASK\<rparr> = (kn_tcb k x)\<lparr>t_sched_next := NULL_TASK\<rparr>) \<and>
    t_ctx (kn_tcb k' t) = t_ctx (kn_tcb k t) \<and> t_task_level (kn_tcb k' t) = t_task_level (kn_tcb k t) \<and>
    t_status (kn_tcb k' t) = t_status (kn_tcb k t) \<and> t_owns_kstack (kn_tcb k' t) = t_owns_kstack (kn_tcb k t) \<and>
    t_kstack_base (kn_tcb k' t) = t_kstack_base (kn_tcb k t) \<and> t_kernel_stack (kn_tcb k' t) = t_kernel_stack (kn_tcb k t) \<and>
    t_kstack_slot (kn_tcb k' t) = t_kstack_slot (kn_tcb k t)"
proof -
  have c2: "c < 2" unfolding c by (rule pick_runq_bound)
  let ?s1 = "upd t (\<lambda>x. x\<lparr>t_cpu_id := of_nat c\<rparr>) (kn_tcb k)" and ?q = "kn_runq k c"
  have reps: "queue_rep (kn_tcb k, kn_runq k d) (xs d)" if "d < 2" for d using R that by (simp add: rosters_def)
  have "queue_rep (?s1, ?q) (xs c)" by (rule rep_other [OF reps [OF c2]]) (simp add: upd_apply)
  then obtain acc n where "avg_walk ?s1 NULL_TASK (q_head ?q) 0 0 = Some (acc, n)"
    using avg_returns [of ?s1 "q_head ?q" "xs c" NULL_TASK 0 0] by (auto simp: queue_rep_def)
  then obtain avg where avg: "sched_queue_avg_vruntime ?s1 (Some ?q) NULL_TASK 0 = Some avg"
    by (simp add: sched_queue_avg_vruntime_def)
  let ?s2 = "sched_entity_init t avg now ?s1"
  have o2: "?s2 x = kn_tcb k x" if "x \<noteq> t" for x using that by (simp add: sched_entity_init_def Let_def)
  have t2: "t_ctx (?s2 t) = t_ctx (kn_tcb k t)" "t_task_level (?s2 t) = t_task_level (kn_tcb k t)"
    "t_status (?s2 t) = t_status (kn_tcb k t)" "t_owns_kstack (?s2 t) = t_owns_kstack (kn_tcb k t)"
    "t_kstack_base (?s2 t) = t_kstack_base (kn_tcb k t)" "t_kernel_stack (?s2 t) = t_kernel_stack (kn_tcb k t)"
    "t_kstack_slot (?s2 t) = t_kstack_slot (kn_tcb k t)" "t_cpu_id (?s2 t) = of_nat c"
    by (simp_all add: sched_entity_init_def Let_def)
  have r2: "queue_rep (?s2, kn_runq k d) (xs d)" if "d < 2" for d
  proof (rule rep_other [OF reps [OF that]])
    fix x assume "x \<in> set (xs d)"
    then have "x \<noteq> t" using t(2) that by blast
    then show "t_sched_next (?s2 x) = t_sched_next (kn_tcb k x)" using o2 [of x] by simp
  qed
  obtain s3 q3 where ap: "sched_queue_append t (?s2, ?q) = Some (True, s3, q3)" "queue_rep (s3, q3) (xs c @ [t])"
    "same_but_link ?s2 s3"
    using append_new_rep [OF r2 [OF c2] t(1)] t(2) c2 by fastforce
  let ?k' = "k\<lparr>kn_tcb := s3, kn_runq := (kn_runq k)(c := q3)\<rparr>"
  have run: "thread_enqueue now t k = Some (True, ?k')"
    using avg ap(1) by (simp add: thread_enqueue_def Let_def on_tcb_def c [symmetric])
  have ch: "chain ?s2 (q_head ?q) (xs c)" using r2 [OF c2] by (simp add: queue_rep_def)
  have "queue_rep (s3, kn_runq k d) (xs d)" if d: "d < 2" "d \<noteq> c" for d
  proof (rule rep_other [OF r2 [OF d(1)]])
    fix x assume x: "x \<in> set (xs d)"
    have "d = 0 \<and> c = 1 \<or> d = 1 \<and> c = 0" using d c2 by auto
    then have "x \<notin> set (xs c)" using R x by (auto simp: rosters_def)
    moreover have "x \<noteq> t" using t(2) x d by blast
    ultimately show "t_sched_next (s3 x) = t_sched_next (?s2 x)" using append_local [OF ch ap(1)] t(1) by simp
  qed
  moreover have "set ((xs(c := xs c @ [t])) 0) \<inter> set ((xs(c := xs c @ [t])) 1) = {}"
    using R t(2) by (auto simp: rosters_def)
  ultimately have "rosters (xs(c := xs c @ [t])) ?k'" using ap(2) by (simp add: rosters_def)
  moreover have "(s3 x)\<lparr>t_sched_next := NULL_TASK\<rparr> = (kn_tcb k x)\<lparr>t_sched_next := NULL_TASK\<rparr>" if "x \<noteq> t" for x
    using ap(3) o2 [OF that] by (simp add: same_but_link_def)
  ultimately show ?thesis using run same_but_linkD [OF ap(3), of t] t2
    by (intro exI [of _ ?k'] conjI allI impI) simp_all
qed

section \<open>Creation\<close>

lemma stack_top_facts:
  assumes "kstack_inv ks" "0 < unat (kp_stack_pages ks)" "kstack_alloc False ks = (Inr stk, ks')"
  shows "k_base stk < k_top stk" "k_top stk AND 3 = 0" "k_top stk \<noteq> 0" "k_base stk \<le> k_top stk - 64"
proof -
  note h = alloc_handle [OF assms(1,3)] and geo = kstack_invD(1) [OF assms(1)]
  have b: "unat (k_base stk) = slot_start ks (k_slot stk) + 4096"
    "unat (k_top stk) = slot_start ks (k_slot stk) + slot_len ks" using h by simp_all
  have len: "8192 \<le> slot_len ks" using assms(2) by simp
  show lt: "k_base stk < k_top stk" using b len unfolding word_lt_unat by linarith
  then show "k_top stk \<noteq> 0" by auto
  have "4096 dvd unat (kp_pool_base ks)" using geo by (simp add: kstack_geom_def dvd_eq_mod_eq_0)
  then have "4096 dvd slot_start ks (k_slot stk)" unfolding slot_start_def by (intro dvd_add dvd_mult) simp_all
  then have "4096 dvd unat (k_top stk)" unfolding b(2) by (intro dvd_add) simp_all
  then have "2 ^ 2 dvd unat (k_top stk)" by (auto elim!: dvd_trans [rotated])
  moreover have "(3 :: u32) = mask 2" by (simp add: mask_eq_exp_minus_1)
  ultimately show "k_top stk AND 3 = 0" by (simp only: and_mask_0_iff dvd_eq_mod_eq_0)
  have "unat (k_top stk - 64) = unat (k_top stk) - 64" using b len unat_sub_le [of 64 "k_top stk"] by (simp add: word_le_unat)
  then show "k_base stk \<le> k_top stk - 64" using b len unfolding word_le_unat by linarith
qed

text \<open>The state in which creation finds the kernel.\<close>

definition ready_to_create :: "(nat \<Rightarrow> tcb_t list) \<Rightarrow> 'g heap_t \<Rightarrow> (u32 \<times> nat) list \<Rightarrow> (u32 \<rightharpoonup> u8) \<Rightarrow> kstack_pool_t
    \<Rightarrow> nat option \<Rightarrow> 'g kern_t \<Rightarrow> bool" where
  "ready_to_create xs h L w ks self k \<longleftrightarrow> self_runq_kern self k \<noteq> None \<and>
     kn_heap k = Some h \<and> heap_run h L w \<and> kn_ks k = Some ks \<and> kstack_inv ks \<and> 0 < unat (kp_stack_pages ks) \<and>
     rosters xs k \<and> (\<forall>c<2. \<forall>x\<in>set (xs c). x \<in> fst ` set L \<or> unat x < unat (h_base h))"

lemma setup_fields:
  "t_ctx (thread_setup entry arg name level stk x) =
     \<lparr>c_r = (fold (\<lambda>i r. r(i := 0)) [0..<13] (c_r (t_ctx x)))(0 := arg), c_sp = k_top stk, c_lr = 0, c_pc = entry,
      c_cpsr = ARM_CPSR_KERNEL\<rparr>"
  "t_task_level (thread_setup entry arg name level stk x) = level"
  "t_status (thread_setup entry arg name level stk x) = START"
  "t_owns_kstack (thread_setup entry arg name level stk x)"
  "t_kstack_base (thread_setup entry arg name level stk x) = k_base stk"
  "t_kernel_stack (thread_setup entry arg name level stk x) = k_top stk"
  "t_kstack_slot (thread_setup entry arg name level stk x) = k_slot stk"
  by (simp_all add: thread_setup_def Let_def split: option.splits)

text \<open>
  C11. Creating a thread is all or nothing.  The call always returns.  When it returns NULL, the heap is one in which exactly the old
  allocations live with their contents, the queues are as before and no other control block has changed.  When it
  returns a thread, that is a new allocation; the thread is appended to the queue of the chosen CPU,
  the other queue and every other control block (links apart) are as before; its stack is a slot that was free before
  and that the pool now accepts; and it can be switched to at once: it will start at the entry point with the argument
  in r0, on the top of its own stack.
\<close>

theorem kthread_create_all_or_nothing:
  assumes "ready_to_create xs h L w ks self k" "entry \<noteq> 0"
  shows "\<exists>t k' h' ks'. sched_kthread_create_level self now entry arg name level k = Some (t, k') \<and>
    kn_heap k' = Some h' \<and> kn_ks k' = Some ks' \<and> kstack_inv ks' \<and>
    (if t = NULL_TASK then heap_run h' L w \<and> rosters xs k' \<and> kn_runq k' = kn_runq k \<and>
       (\<forall>c<2. \<forall>x\<in>set (xs c). kn_tcb k' x = kn_tcb k x)
     else
       t \<notin> fst ` set L \<and> heap_run h' ((t, 512) # L) w \<and>
       (\<exists>c<2. rosters (xs(c := xs c @ [t])) k' \<and> t_cpu_id (kn_tcb k' t) = of_nat c) \<and>
       (\<forall>x. x \<noteq> t \<longrightarrow> (kn_tcb k' x)\<lparr>t_sched_next := NULL_TASK\<rparr> = (kn_tcb k x)\<lparr>t_sched_next := NULL_TASK\<rparr>) \<and>
       (\<exists>stk. handle_check ks' stk = KSTACK_OK \<and> \<not> slot_bit (kp_bitmap ks) (unat (k_slot stk)) \<and>
          k_top stk = t_kernel_stack (kn_tcb k' t) \<and> k_base stk = t_kstack_base (kn_tcb k' t) \<and>
          k_slot stk = t_kstack_slot (kn_tcb k' t)) \<and>
       t_status (kn_tcb k' t) = START \<and> t_task_level (kn_tcb k' t) = level \<and>
       c_pc (t_ctx (kn_tcb k' t)) = entry \<and> c_r (t_ctx (kn_tcb k' t)) 0 = arg \<and>
       c_sp (t_ctx (kn_tcb k' t)) = t_kernel_stack (kn_tcb k' t) \<and> sched_ctx_switchable (kn_tcb k') t)"
proof -
  have r: "self_runq_kern self k \<noteq> None" "kn_heap k = Some h" "heap_run h L w" "kn_ks k = Some ks" "kstack_inv ks"
    "0 < unat (kp_stack_pages ks)" "rosters xs k"
    and out: "\<forall>c<2. \<forall>x\<in>set (xs c). x \<in> fst ` set L \<or> unat x < unat (h_base h)"
    using assms(1) by (simp_all add: ready_to_create_def)
  obtain c0 where c0: "self_runq_kern self k = Some c0" using r(1) by blast
  obtain t h1 where a: "heap_alloc h TCB_BYTES = Some (t, h1)"
    "if t = 0 then heap_run h1 L w
     else heap_run h1 ((t, unat TCB_BYTES) # L) w \<and> t \<notin> fst ` set L \<and> unat (h_base h) \<le> unat t \<and>
       (\<exists>h2. heap_free h1 t = Some (HEAP_OK, h2) \<and> heap_run h2 L w)"
    using heap_run_fresh [OF r(3), of TCB_BYTES] by auto
  show ?thesis
  proof (cases "t = NULL_TASK")
    case True
    have "rosters xs (k\<lparr>kn_heap := Some h1\<rparr>)" using r(7) by (simp add: rosters_def)
    then show ?thesis using a True r(2,4,5) c0 assms(2)
      by (intro exI [of _ NULL_TASK] exI [of _ "k\<lparr>kn_heap := Some h1\<rparr>"]) (simp add: sched_kthread_create_level_def)
  next
    case False
    then have b: "heap_run h1 ((t, 512) # L) w" "t \<notin> fst ` set L" "unat (h_base h) \<le> unat t"
      and fr: "\<exists>h2. heap_free h1 t = Some (HEAP_OK, h2) \<and> heap_run h2 L w" using a(2) by simp_all
    have nt: "\<forall>c<2. t \<notin> set (xs c)" using out b(2,3) by fastforce
    obtain res ks1 where ka: "kstack_alloc False ks = (res, ks1)" by fastforce
    have ki: "kstack_inv ks1" using kstack_alloc_inv [OF r(5)] ka by simp
    show ?thesis
    proof (cases res)
      case (Inl e)
      obtain h2 where h2: "heap_free h1 t = Some (HEAP_OK, h2)" "heap_run h2 L w" using fr by blast
      let ?k' = "k\<lparr>kn_tcb := upd t (\<lambda>_. zero_tcb) (kn_tcb k), kn_ks := Some ks1, kn_heap := Some h2\<rparr>"
      have tx: "kn_tcb ?k' x = kn_tcb k x" if "x \<in> set (xs c)" "c < 2" for x c
        using nt that by (auto simp: upd_apply)
      have "rosters xs ?k'"
        using r(7) rep_other [of "kn_tcb k" "kn_runq k c" "xs c" "kn_tcb ?k'" for c] tx by (auto simp: rosters_def)
      moreover have "sched_kthread_create_level self now entry arg name level k = Some (NULL_TASK, ?k')"
        using c0 r(2,4) a(1) False assms(2) ka Inl h2(1)
        by (simp add: sched_kthread_create_level_def Let_def thread_abort_def on_tcb_def)
      ultimately show ?thesis using h2(2) ki tx
        by (intro exI [of _ NULL_TASK] exI [of _ ?k'] exI [of _ h2] exI [of _ ks1]) simp
    next
      case (Inr stk)
      note hs = alloc_handle [OF r(5)] stack_top_facts [OF r(5,6)]
      let ?s = "upd t (thread_setup entry arg name level stk) (upd t (\<lambda>_. zero_tcb) (kn_tcb k))"
      let ?k1 = "k\<lparr>kn_heap := Some h1, kn_ks := Some ks1, kn_tcb := ?s\<rparr>"
      have tx: "?s x = kn_tcb k x" if "x \<in> set (xs c)" "c < 2" for x c
        using nt that by (auto simp: upd_apply)
      have R1: "rosters xs ?k1"
        using r(7) rep_other [of "kn_tcb k" "kn_runq k c" "xs c" ?s for c] tx by (auto simp: rosters_def)
      from enqueue_spec [OF R1 False nt refl, of now] obtain k' where
        e: "thread_enqueue now t ?k1 = Some (True, k')"
        and e2: "rosters (xs(pick_runq (t_task_level (kn_tcb ?k1 t)) ?k1 := xs (pick_runq (t_task_level (kn_tcb ?k1 t)) ?k1) @ [t])) k'"
          "kn_heap k' = Some h1" "kn_ks k' = Some ks1" "t_cpu_id (kn_tcb k' t) = of_nat (pick_runq (t_task_level (kn_tcb ?k1 t)) ?k1)"
          "\<forall>x. x \<noteq> t \<longrightarrow> (kn_tcb k' x)\<lparr>t_sched_next := NULL_TASK\<rparr> = (?s x)\<lparr>t_sched_next := NULL_TASK\<rparr>"
          "t_ctx (kn_tcb k' t) = t_ctx (?s t)" "t_task_level (kn_tcb k' t) = t_task_level (?s t)"
          "t_status (kn_tcb k' t) = t_status (?s t)" "t_owns_kstack (kn_tcb k' t) = t_owns_kstack (?s t)"
          "t_kstack_base (kn_tcb k' t) = t_kstack_base (?s t)" "t_kernel_stack (kn_tcb k' t) = t_kernel_stack (?s t)"
          "t_kstack_slot (kn_tcb k' t) = t_kstack_slot (?s t)"
        by auto
      have run: "sched_kthread_create_level self now entry arg name level k = Some (t, k')"
        using c0 r(2,4) a(1) False assms(2) ka Inr e
        by (simp add: sched_kthread_create_level_def Let_def on_tcb_def)
      have st: "?s t = thread_setup entry arg name level stk zero_tcb" by simp
      have ka': "kstack_alloc False ks = (Inr stk, ks1)" using ka Inr by simp
      note hs = alloc_handle [OF r(5) ka'] stack_top_facts [OF r(5,6) ka']
      have nl: "\<not> k_top stk \<le> k_base stk" "\<not> k_top stk - 64 < k_base stk" using hs(2,5) by (simp_all add: not_le not_less)
      have sw: "sched_ctx_switchable (kn_tcb k') t"
        using False assms(2) hs(3,4) nl
        unfolding sched_ctx_switchable_def Let_def e2 st setup_fields by simp
      have hc: "\<exists>stk. handle_check ks1 stk = KSTACK_OK \<and> \<not> slot_bit (kp_bitmap ks) (unat (k_slot stk)) \<and>
          k_top stk = t_kernel_stack (kn_tcb k' t) \<and> k_base stk = t_kstack_base (kn_tcb k' t) \<and>
          k_slot stk = t_kstack_slot (kn_tcb k' t)"
        using hs(1) unfolding e2 st setup_fields by (intro exI [of _ stk]) simp
      have cc: "\<exists>c<2. rosters (xs(c := xs c @ [t])) k' \<and> t_cpu_id (kn_tcb k' t) = of_nat c"
        using e2(1,4) pick_runq_bound by blast
      have ox: "(kn_tcb k' x)\<lparr>t_sched_next := NULL_TASK\<rparr> = (kn_tcb k x)\<lparr>t_sched_next := NULL_TASK\<rparr>" if "x \<noteq> t" for x
        using e2(5) that by (simp add: upd_apply)
      have fl: "t_status (kn_tcb k' t) = START" "t_task_level (kn_tcb k' t) = level" "c_pc (t_ctx (kn_tcb k' t)) = entry"
        "c_r (t_ctx (kn_tcb k' t)) 0 = arg" "c_sp (t_ctx (kn_tcb k' t)) = t_kernel_stack (kn_tcb k' t)"
        unfolding e2 st setup_fields by simp_all
      show ?thesis
        using run e2(2,3) ki b(1,2) False cc ox hc fl sw
        by (intro exI [of _ t] exI [of _ k'] exI [of _ h1] exI [of _ ks1]) simp
    qed
  qed
qed

definition boot_kern :: "unit kern_t" where
  "boot_kern = two_tasks\<lparr>kn_heap := Some heap4k, kn_ks := Some kp0,
     kn_runq := (\<lambda>c. if c = 0 then \<lparr>q_head = 8, q_count = 2\<rparr> else sched_queue_init)\<rparr>"

lemma boot_ready: "ready_to_create (\<lambda>c. if c = 0 then [8, 16] else []) heap4k [] Map.empty kp0 (Some 0) boot_kern"
  using heap4k_run kp0_inv kp0_geom(1)
  by (auto simp: ready_to_create_def boot_kern_def two_tasks_def self_runq_kern_def runq_of_def rosters_def less_2_cases_iff
      queue_rep_def sched_queue_init_def two_tcb_def zero_tcb_def heap4k_fields)

lemma kthread_create_all_or_nothing_witness:
  "\<exists>t k'. sched_kthread_create_level (Some 0) 5 0x100 7 (Some ''worker'') TASK_KERNEL_LEVEL boot_kern = Some (t, k') \<and>
     (t = NULL_TASK \<or> c_pc (t_ctx (kn_tcb k' t)) = 0x100 \<and> sched_ctx_switchable (kn_tcb k') t)"
proof -
  obtain t k' where "sched_kthread_create_level (Some 0) 5 0x100 7 (Some ''worker'') TASK_KERNEL_LEVEL boot_kern = Some (t, k')"
    "if t = NULL_TASK then True else c_pc (t_ctx (kn_tcb k' t)) = 0x100 \<and> sched_ctx_switchable (kn_tcb k') t"
    using kthread_create_all_or_nothing [OF boot_ready, of "0x100" 5 7 "Some ''worker''" TASK_KERNEL_LEVEL]
    by (auto split: if_splits)
  then show ?thesis by (auto split: if_splits)
qed

end
