(* ===== verification/Mutex.thy ===== *)
theory Mutex
  imports Tcb
begin

text \<open>
  The sleeping mutex, \<open>arch/arm32/src/mutex.c\<close>: owner, recursion count, error codes, and the
  wait loop.  The operations table is a set of optional hooks; a hook that is present and
  returns the current task is the value \<open>cur\<close> of the calls.  The state section the hooks guard
  is a counter of entries minus leaves.
\<close>

section \<open>Data\<close>

abbreviation (input) EPERM :: int where "EPERM \<equiv> 1"
abbreviation (input) EBUSY :: int where "EBUSY \<equiv> 16"
abbreviation (input) EINVAL :: int where "EINVAL \<equiv> 22"
abbreviation (input) EDEADLK :: int where "EDEADLK \<equiv> 35"

datatype mutex_state_t = MUTEX_UNLOCKED | MUTEX_LOCKED | MUTEX_DESTROYED

record mutex_t =
  m_state :: mutex_state_t
  m_owner :: tcb_t
  m_rcc :: u32
  m_rec :: bool

record mutex_ops_t =
  o_current :: bool
  o_yield :: bool
  o_enter :: bool
  o_leave :: bool

record mworld =
  w_m :: mutex_t
  w_section :: int

section \<open>Hooks\<close>

definition current_task :: "mutex_ops_t option \<Rightarrow> tcb_t \<Rightarrow> tcb_t" where
  "current_task ops cur =
     (case ops of None \<Rightarrow> NULL_TASK | Some h \<Rightarrow> if o_current h then cur else NULL_TASK)"

definition state_enter :: "mutex_ops_t option \<Rightarrow> mworld \<Rightarrow> mworld" where
  "state_enter ops w =
     (case ops of None \<Rightarrow> w
      | Some h \<Rightarrow> if o_enter h then w\<lparr>w_section := w_section w + 1\<rparr> else w)"

definition state_leave :: "mutex_ops_t option \<Rightarrow> mworld \<Rightarrow> mworld" where
  "state_leave ops w =
     (case ops of None \<Rightarrow> w
      | Some h \<Rightarrow> if o_leave h then w\<lparr>w_section := w_section w - 1\<rparr> else w)"

section \<open>Operations\<close>

definition mutex_create :: "bool \<Rightarrow> mworld \<Rightarrow> mworld" where
  "mutex_create recursive w =
     w\<lparr>w_m := \<lparr>m_state = MUTEX_UNLOCKED, m_owner = NULL_TASK, m_rcc = 0, m_rec = recursive\<rparr>\<rparr>"

text \<open>One round of the lock loop: \<open>None\<close> when the mutex is taken and the caller has to yield.\<close>

definition lock_round :: "mutex_ops_t option \<Rightarrow> tcb_t \<Rightarrow> mworld \<Rightarrow> int option \<times> mworld" where
  "lock_round ops current w =
     (let w = state_enter ops w; m = w_m w
      in if m_state m = MUTEX_DESTROYED then (Some (- EINVAL), state_leave ops w)
         else if m_owner m = current then
           (if m_rec m then (Some 0, state_leave ops (w\<lparr>w_m := m\<lparr>m_rcc := m_rcc m + 1\<rparr>\<rparr>))
            else (Some (- EDEADLK), state_leave ops w))
         else if m_state m = MUTEX_UNLOCKED then
           (Some 0, state_leave ops (w\<lparr>w_m := m\<lparr>m_state := MUTEX_LOCKED, m_owner := current, m_rcc := 1\<rparr>\<rparr>))
         else (None, state_leave ops w))"

text \<open>
  The whole lock: \<open>env n\<close> is what the rest of the system does to the world while the caller
  yields for the n-th time.  The loop has no bound of its own.
\<close>

partial_function (option) lock_loop ::
  "mutex_ops_t option \<Rightarrow> tcb_t \<Rightarrow> (nat \<Rightarrow> mworld \<Rightarrow> mworld) \<Rightarrow> nat \<Rightarrow> mworld \<Rightarrow> (int \<times> mworld) option" where
  "lock_loop ops current env n w =
     (case lock_round ops current w of
        (Some r, w') \<Rightarrow> Some (r, w')
      | (None, w') \<Rightarrow> lock_loop ops current env (Suc n) (env n w'))"

definition mutex_lock ::
  "mutex_ops_t option \<Rightarrow> tcb_t \<Rightarrow> (nat \<Rightarrow> mworld \<Rightarrow> mworld) \<Rightarrow> mworld \<Rightarrow> (int \<times> mworld) option" where
  "mutex_lock ops cur env w = lock_loop ops (current_task ops cur) env 0 w"

definition mutex_trylock :: "mutex_ops_t option \<Rightarrow> tcb_t \<Rightarrow> mworld \<Rightarrow> int \<times> mworld" where
  "mutex_trylock ops cur w =
     (let current = current_task ops cur; w = state_enter ops w; m = w_m w
      in if m_state m = MUTEX_DESTROYED then (- EINVAL, state_leave ops w)
         else if m_owner m = current then
           (if m_rec m then (0, state_leave ops (w\<lparr>w_m := m\<lparr>m_rcc := m_rcc m + 1\<rparr>\<rparr>))
            else (- EDEADLK, state_leave ops w))
         else if m_state m = MUTEX_UNLOCKED then
           (0, state_leave ops (w\<lparr>w_m := m\<lparr>m_state := MUTEX_LOCKED, m_owner := current, m_rcc := 1\<rparr>\<rparr>))
         else (- EBUSY, state_leave ops w))"

definition mutex_unlock :: "mutex_ops_t option \<Rightarrow> tcb_t \<Rightarrow> mworld \<Rightarrow> int \<times> mworld" where
  "mutex_unlock ops cur w =
     (let current = current_task ops cur; w = state_enter ops w; m = w_m w
      in if m_state m = MUTEX_DESTROYED then (- EINVAL, state_leave ops w)
         else if m_owner m \<noteq> current \<or> m_state m \<noteq> MUTEX_LOCKED \<or> m_rcc m = 0
           then (- EPERM, state_leave ops w)
         else
           let m = m\<lparr>m_rcc := m_rcc m - 1\<rparr>;
               m = (if m_rcc m = 0
                    then (let m = m\<lparr>m_owner := NULL_TASK\<rparr>
                          in if m_state m \<noteq> MUTEX_DESTROYED then m\<lparr>m_state := MUTEX_UNLOCKED\<rparr> else m)
                    else m)
           in (0, state_leave ops (w\<lparr>w_m := m\<rparr>)))"

definition mutex_destroy :: "mutex_ops_t option \<Rightarrow> mworld \<Rightarrow> int \<times> mworld" where
  "mutex_destroy ops w =
     (let w = state_enter ops w; m = w_m w
      in if m_state m = MUTEX_LOCKED then (- EBUSY, state_leave ops w)
         else (0, state_leave ops (w\<lparr>w_m := m\<lparr>m_state := MUTEX_DESTROYED, m_owner := NULL_TASK, m_rcc := 0\<rparr>\<rparr>)))"

definition mutex_is_locked :: "mutex_ops_t option \<Rightarrow> mworld \<Rightarrow> bool \<times> mworld" where
  "mutex_is_locked ops w =
     (let w = state_enter ops w; locked = (m_state (w_m w) = MUTEX_LOCKED)
      in (locked, state_leave ops w))"

definition mutex_get_owner :: "mutex_ops_t option \<Rightarrow> mworld \<Rightarrow> tcb_t \<times> mworld" where
  "mutex_get_owner ops w =
     (let w = state_enter ops w; owner = m_owner (w_m w)
      in (owner, state_leave ops w))"

text \<open>The exported entry points: a NULL mutex is refused with \<open>-EINVAL\<close>.\<close>

definition mutex_trylock_entry :: "mutex_ops_t option \<Rightarrow> tcb_t \<Rightarrow> mworld option \<Rightarrow> int \<times> mworld option" where
  "mutex_trylock_entry ops cur W = nonnull (- EINVAL) (mutex_trylock ops cur) W"

definition mutex_unlock_entry :: "mutex_ops_t option \<Rightarrow> tcb_t \<Rightarrow> mworld option \<Rightarrow> int \<times> mworld option" where
  "mutex_unlock_entry ops cur W = nonnull (- EINVAL) (mutex_unlock ops cur) W"

definition mutex_destroy_entry :: "mutex_ops_t option \<Rightarrow> mworld option \<Rightarrow> int \<times> mworld option" where
  "mutex_destroy_entry ops W = nonnull (- EINVAL) (mutex_destroy ops) W"

definition arm_mutex_unlock :: "mutex_ops_t option \<Rightarrow> tcb_t \<Rightarrow> mworld option \<Rightarrow> int \<times> mworld option" where
  "arm_mutex_unlock ops cur W = mutex_unlock_entry ops cur W"

section \<open>Histories\<close>

datatype mutex_op = MLock | MTry | MUnlock | MDestroy

fun mutex_do :: "mutex_ops_t option \<Rightarrow> tcb_t \<Rightarrow> mutex_op \<Rightarrow> mworld \<Rightarrow> int option \<times> mworld" where
  "mutex_do ops t MLock w = lock_round ops (current_task ops t) w"
| "mutex_do ops t MTry w = (case mutex_trylock ops t w of (r, w) \<Rightarrow> (Some r, w))"
| "mutex_do ops t MUnlock w = (case mutex_unlock ops t w of (r, w) \<Rightarrow> (Some r, w))"
| "mutex_do ops t MDestroy w = (case mutex_destroy ops w of (r, w) \<Rightarrow> (Some r, w))"

text \<open>
  A history lists, newest first, which task did what with which result (\<open>None\<close>: it has to
  wait).  Operations of different tasks interleave in any order, one state section at a time.
\<close>

type_synonym mutex_event = "tcb_t \<times> mutex_op \<times> int option"

inductive mutex_run :: "mutex_ops_t option \<Rightarrow> bool \<Rightarrow> mutex_event list \<Rightarrow> mworld \<Rightarrow> bool" for ops rcv where
  start: "mutex_run ops rcv [] (mutex_create rcv w)"
| step: "\<lbrakk>mutex_run ops rcv h w; t \<noteq> NULL_TASK; mutex_do ops t oper w = (r, w')\<rbrakk>
         \<Longrightarrow> mutex_run ops rcv ((t, oper, r) # h) w'"

inductive_cases mutex_runE: "mutex_run ops rcv h w"

text \<open>How often a task holds the mutex according to a history.\<close>

fun held :: "mutex_event list \<Rightarrow> tcb_t \<Rightarrow> nat" where
  "held [] t = 0"
| "held ((u, oper, r) # h) t =
     (if u = t \<and> r = Some 0 \<and> (oper = MLock \<or> oper = MTry) then Suc (held h t)
      else if u = t \<and> r = Some 0 \<and> oper = MUnlock then held h t - 1
      else held h t)"

definition full_ops :: mutex_ops_t where
  "full_ops = \<lparr>o_current = True, o_yield = True, o_enter = True, o_leave = True\<rparr>"

definition mutex_inv :: "mutex_event list \<Rightarrow> bool \<Rightarrow> mutex_t \<Rightarrow> bool" where
  "mutex_inv h rcv m \<longleftrightarrow>
     m_rec m = rcv \<and>
     (if m_state m = MUTEX_LOCKED
      then m_owner m \<noteq> NULL_TASK \<and> unat (m_rcc m) = held h (m_owner m) \<and> 0 < held h (m_owner m) \<and>
           (\<forall>t. t \<noteq> m_owner m \<longrightarrow> held h t = 0) \<and> (\<not> rcv \<longrightarrow> held h (m_owner m) = 1)
      else m_owner m = NULL_TASK \<and> m_rcc m = 0 \<and> (\<forall>t. held h t = 0))"

lemma held_le: "held h t \<le> length h"
  by (induction h t rule: held.induct) auto

lemma w_m_section [simp]:
  "w_m (state_enter ops w) = w_m w" "w_m (state_leave ops w) = w_m w"
  by (simp_all add: state_enter_def state_leave_def split: option.split)

lemma current_full [simp]: "current_task (Some full_ops) t = t"
  by (simp add: current_task_def full_ops_def)

lemma section_full [simp]:
  "w_section (state_leave (Some full_ops) (w\<lparr>w_m := m\<rparr>)) = w_section (state_leave (Some full_ops) w)"
  "w_section (state_leave (Some full_ops) (state_enter (Some full_ops) w)) = w_section w"
  by (simp_all add: state_enter_def state_leave_def full_ops_def)

text \<open>Taking the mutex, as the lock round and trylock do it.\<close>

lemma mutex_inv_take:
  assumes "mutex_inv h rcv m" "m_state m = MUTEX_UNLOCKED" "t \<noteq> NULL_TASK" "oper = MLock \<or> oper = MTry"
  shows "mutex_inv ((t, oper, Some 0) # h) rcv (m\<lparr>m_state := MUTEX_LOCKED, m_owner := t, m_rcc := 1\<rparr>)"
  using assms by (auto simp: mutex_inv_def)

lemma mutex_inv_again:
  assumes "mutex_inv h rcv m" "m_owner m = t" "t \<noteq> NULL_TASK" "m_rec m" "oper = MLock \<or> oper = MTry"
    and "length h + 1 < 2 ^ 32"
  shows "mutex_inv ((t, oper, Some 0) # h) rcv (m\<lparr>m_rcc := m_rcc m + 1\<rparr>)"
proof -
  have l: "m_state m = MUTEX_LOCKED" using assms(1-3) by (auto simp: mutex_inv_def split: if_splits)
  have "unat (m_rcc m) = held h t" using assms(1,2) l by (simp add: mutex_inv_def)
  moreover have "held h t < 2 ^ 32 - 1" using held_le [of h t] assms(6) by simp
  ultimately have "unat (m_rcc m + 1) = Suc (held h t)" by (simp add: unat_add_small)
  then show ?thesis using assms l by (auto simp: mutex_inv_def)
qed

lemma mutex_inv_release:
  assumes "mutex_inv h rcv m" "m_owner m = t" "m_state m = MUTEX_LOCKED" "m_rcc m \<noteq> 0"
  shows "mutex_inv ((t, MUnlock, Some 0) # h) rcv
    (if m_rcc m - 1 = 0 then m\<lparr>m_rcc := m_rcc m - 1, m_owner := NULL_TASK, m_state := MUTEX_UNLOCKED\<rparr>
     else m\<lparr>m_rcc := m_rcc m - 1\<rparr>)"
proof -
  have n: "unat (m_rcc m) = held h t" "0 < held h t" using assms(1-3) by (auto simp: mutex_inv_def)
  have u: "unat (m_rcc m - 1) = held h t - 1" using n by (simp add: unat_sub_le)
  have z: "m_rcc m - 1 = 0 \<longleftrightarrow> held h t = 1"
    using u n(2) by (auto simp: word_eq_unat)
  show ?thesis
  proof (cases "held h t = 1")
    case True
    then show ?thesis using assms z u by (auto simp: mutex_inv_def)
  next
    case False
    then have "m_rcc m - 1 \<noteq> 0" "0 < held h t - 1" using z n(2) by auto
    then show ?thesis using assms u n False by (auto simp: mutex_inv_def)
  qed
qed

lemma mutex_inv_same: "r \<noteq> Some 0 \<Longrightarrow> mutex_inv ((t, oper, r) # h) rcv m = mutex_inv h rcv m"
  by (simp add: mutex_inv_def)

lemma mutex_inv_destroy:
  "mutex_inv h rcv m \<Longrightarrow> m_state m \<noteq> MUTEX_LOCKED \<Longrightarrow>
   mutex_inv ((t, MDestroy, Some 0) # h) rcv (m\<lparr>m_state := MUTEX_DESTROYED, m_owner := NULL_TASK, m_rcc := 0\<rparr>)"
  by (auto simp: mutex_inv_def)

lemma mutex_run_inv:
  "mutex_run (Some full_ops) rcv h w \<Longrightarrow> length h < 2 ^ 32 \<Longrightarrow> mutex_inv h rcv (w_m w)"
proof (induction rule: mutex_run.induct)
  case (start w)
  then show ?case by (simp add: mutex_inv_def mutex_create_def)
next
  case (step h w t oper r w')
  have IH: "mutex_inv h rcv (w_m w)" and len: "length h + 1 < 2 ^ 32" using step by auto
  show ?case
  proof (cases oper)
    case MLock
    then show ?thesis using step.hyps(2,3) IH mutex_inv_take [OF IH _ step.hyps(2)]
        mutex_inv_again [OF IH _ step.hyps(2) _ _ len] mutex_inv_same [of _ t MLock h rcv]
      by (auto simp: lock_round_def Let_def split: if_splits)
  next
    case MTry
    then show ?thesis using step.hyps(2,3) IH mutex_inv_take [OF IH _ step.hyps(2)]
        mutex_inv_again [OF IH _ step.hyps(2) _ _ len] mutex_inv_same [of _ t MTry h rcv]
      by (auto simp: mutex_trylock_def Let_def split: if_splits)
  next
    case MUnlock
    then show ?thesis using step.hyps(2,3) IH mutex_inv_release [OF IH, of t] mutex_inv_same [of _ t MUnlock h rcv]
      by (auto simp: mutex_unlock_def Let_def split: if_splits)
  next
    case MDestroy
    then show ?thesis using step.hyps(2,3) IH mutex_inv_destroy [OF IH, of t] mutex_inv_same [of _ t MDestroy h rcv]
      by (auto simp: mutex_destroy_def Let_def split: if_splits)
  qed
qed

section \<open>Properties\<close>

lemma mutex_inv_exclusive:
  assumes "mutex_inv h rcv m"
  shows "(\<forall>t u. 0 < held h t \<longrightarrow> 0 < held h u \<longrightarrow> t = u) \<and>
    (\<forall>t. 0 < held h t \<longrightarrow> m_state m = MUTEX_LOCKED \<and> m_owner m = t
         \<and> unat (m_rcc m) = held h t) \<and>
    (m_state m = MUTEX_LOCKED \<longrightarrow> 0 < held h (m_owner m)) \<and>
    (\<not> rcv \<longrightarrow> (\<forall>t. held h t \<le> 1))"
proof (cases "m_state m = MUTEX_LOCKED")
  case True
  then have o: "held h t = 0 \<or> t = m_owner m" for t using assms by (auto simp: mutex_inv_def)
  have m: "unat (m_rcc m) = held h (m_owner m)" "0 < held h (m_owner m)"
    "\<not> rcv \<Longrightarrow> held h (m_owner m) = 1" using assms True by (simp_all add: mutex_inv_def)
  have "held h t \<le> 1" if "\<not> rcv" for t using o [of t] m(3) [OF that] by auto
  moreover have "t = m_owner m" if "0 < held h t" for t using o [of t] that by simp
  ultimately show ?thesis using m(1,2) True by blast
next
  case False
  then show ?thesis using assms by (simp add: mutex_inv_def)
qed

text \<open>
  C13. Mutual exclusion: however the operations of any tasks interleave on a created mutex,
  at most one task holds it at any time; the owner field and the recursion count say who and how
  often, an unlocked or destroyed mutex is held by nobody, and a non-recursive one is never held
  twice.
\<close>

theorem mutex_mutual_exclusion:
  assumes "mutex_run (Some full_ops) rcv h w" and "length h < 2 ^ 32"
  shows "(\<forall>t u. 0 < held h t \<longrightarrow> 0 < held h u \<longrightarrow> t = u) \<and>
    (\<forall>t. 0 < held h t \<longrightarrow> m_state (w_m w) = MUTEX_LOCKED \<and> m_owner (w_m w) = t
         \<and> unat (m_rcc (w_m w)) = held h t) \<and>
    (m_state (w_m w) = MUTEX_LOCKED \<longrightarrow> 0 < held h (m_owner (w_m w))) \<and>
    (\<not> rcv \<longrightarrow> (\<forall>t. held h t \<le> 1))"
  by (rule mutex_inv_exclusive) (rule mutex_run_inv [OF assms])

definition mw0 :: mworld where
  "mw0 = mutex_create True \<lparr>w_m = \<lparr>m_state = MUTEX_DESTROYED, m_owner = 0, m_rcc = 0, m_rec = False\<rparr>, w_section = 0\<rparr>"

definition mw1 :: mworld where "mw1 = snd (mutex_do (Some full_ops) 8 MLock mw0)"

lemma mw1_lock: "mutex_do (Some full_ops) 8 MLock mw0 = (Some 0, mw1)"
  by (simp add: mw1_def mw0_def mutex_create_def lock_round_def Let_def)

lemma mw1_run: "mutex_run (Some full_ops) True [(8, MLock, Some 0)] mw1"
  by (rule mutex_run.step [OF _ _ mw1_lock]) (simp_all add: mw0_def mutex_run.start)

lemma mutex_mutual_exclusion_witness: "m_owner (w_m mw1) = 8 \<and> m_state (w_m mw1) = MUTEX_LOCKED"
proof -
  have "0 < held [(8, MLock, Some 0)] 8" by simp
  moreover have "length [(8 :: tcb_t, MLock, Some (0::int))] < 2 ^ 32" by simp
  ultimately show ?thesis
    using mutex_mutual_exclusion [OF mw1_run, THEN conjunct2, THEN conjunct1] by blast
qed

text \<open>What the caller finds in round \<open>n\<close>, when the rounds before it had to wait.\<close>

fun seen :: "mutex_ops_t option \<Rightarrow> tcb_t \<Rightarrow> (nat \<Rightarrow> mworld \<Rightarrow> mworld) \<Rightarrow> nat \<Rightarrow> mworld \<Rightarrow> nat \<Rightarrow> mworld" where
  "seen ops t env k w 0 = w"
| "seen ops t env k w (Suc n) = seen ops t env (Suc k) (env k (snd (lock_round ops t w))) n"

lemma lock_loop_returns:
  "fst (lock_round ops t (seen ops t env k w n)) \<noteq> None \<Longrightarrow> \<exists>r. lock_loop ops t env k w = Some r"
proof (induction n arbitrary: k w)
  case 0
  then show ?case by (subst lock_loop.simps) (auto split: prod.splits option.splits)
next
  case (Suc n)
  obtain r w' where 1: "lock_round ops t w = (r, w')" by fastforce
  show ?case
  proof (cases r)
    case None
    then show ?thesis using Suc 1 by (subst lock_loop.simps) simp
  next
    case (Some a)
    then show ?thesis using 1 by (subst lock_loop.simps) simp
  qed
qed

lemma lock_loop_stops:
  assumes "lock_loop ops t env k w = Some y"
  shows "\<exists>n. lock_round ops t (seen ops t env k w n) = (Some (fst y), snd y) \<and>
     (\<forall>i<n. fst (lock_round ops t (seen ops t env k w i)) = None)"
proof (rule lock_loop.raw_induct [OF _ assms])
  fix f ops t env k w y
  assume IH: "\<And>ops t env k w y. f ops t env k w = Some y \<Longrightarrow>
      \<exists>n. lock_round ops t (seen ops t env k w n) = (Some (fst y), snd y) \<and>
        (\<forall>i<n. fst (lock_round ops t (seen ops t env k w i)) = None)"
    and y: "(case lock_round ops t w of (None, w') \<Rightarrow> f ops t env (Suc k) (env k w') | (Some r, w') \<Rightarrow> Some (r, w')) = Some y"
  obtain r w' where 1: "lock_round ops t w = (r, w')" by fastforce
  show "\<exists>n. lock_round ops t (seen ops t env k w n) = (Some (fst y), snd y) \<and>
        (\<forall>i<n. fst (lock_round ops t (seen ops t env k w i)) = None)"
  proof (cases r)
    case (Some a)
    then show ?thesis using 1 y by (intro exI [of _ 0]) auto
  next
    case None
    then obtain n where n: "lock_round ops t (seen ops t env (Suc k) (env k w') n) = (Some (fst y), snd y)"
      "\<forall>i<n. fst (lock_round ops t (seen ops t env (Suc k) (env k w') i)) = None"
      using IH 1 y by fastforce
    have "\<forall>i<Suc n. fst (lock_round ops t (seen ops t env k w i)) = None"
      using n(2) 1 None by (auto simp: less_Suc_eq_0_disj)
    then show ?thesis using n(1) 1 by (intro exI [of _ "Suc n"]) simp
  qed
qed

lemma lock_round_waits:
  "fst (lock_round ops t w) = None \<longleftrightarrow> m_state (w_m w) = MUTEX_LOCKED \<and> m_owner (w_m w) \<noteq> t"
  by (cases "m_state (w_m w)") (auto simp: lock_round_def Let_def)

lemma lock_round_outcome:
  assumes "lock_round ops t w = (Some r, w')" and "m = w_m w" and "m_owner m = t \<Longrightarrow> m_state m = MUTEX_LOCKED"
  shows "if r = 0
    then m_state (w_m w') = MUTEX_LOCKED \<and> m_owner (w_m w') = t \<and> m_rec (w_m w') = m_rec m \<and>
         (if m_owner m = t then m_rec m \<and> m_rcc (w_m w') = m_rcc m + 1
          else m_state m = MUTEX_UNLOCKED \<and> m_rcc (w_m w') = 1)
    else w_m w' = m \<and> (r = - EINVAL \<and> m_state m = MUTEX_DESTROYED \<or> r = - EDEADLK \<and> m_owner m = t \<and> \<not> m_rec m)"
  using assms by (auto simp: lock_round_def Let_def split: if_splits)

text \<open>
  C14. The blocking lock of a task (the caller is not NULL, and in every round the mutex, if it names the caller as
  owner, is locked) returns exactly when in some round the caller no longer finds the mutex held by another task: it
  waits in all rounds before and returns in the first such round.  With result 0 the mutex is then locked and owned
  by the caller: taken with count 1 when it was unlocked, counted once more when the caller held it already and it is
  recursive.  Any other result leaves the mutex as it was found and names the reason, a destroyed mutex or a
  non-recursive one the caller holds.  When another task holds it in every round, the lock does not return at all;
  there is no bound and no timeout in the loop.
\<close>

theorem mutex_lock_returns:
  assumes "t = current_task ops cur" and "t \<noteq> NULL_TASK"
    and "\<forall>n. m_owner (w_m (seen ops t env 0 w n)) = t \<longrightarrow> m_state (w_m (seen ops t env 0 w n)) = MUTEX_LOCKED"
  shows "((\<exists>y. mutex_lock ops cur env w = Some y) \<longleftrightarrow>
     (\<exists>n. let m = w_m (seen ops t env 0 w n) in m_state m \<noteq> MUTEX_LOCKED \<or> m_owner m = t)) \<and>
   (\<forall>r w'. mutex_lock ops cur env w = Some (r, w') \<longrightarrow>
     (\<exists>n. (\<forall>i<n. m_state (w_m (seen ops t env 0 w i)) = MUTEX_LOCKED \<and> m_owner (w_m (seen ops t env 0 w i)) \<noteq> t) \<and>
        (let m = w_m (seen ops t env 0 w n) in
         if r = 0
         then m_state (w_m w') = MUTEX_LOCKED \<and> m_owner (w_m w') = t \<and> m_rec (w_m w') = m_rec m \<and>
              (if m_owner m = t then m_rec m \<and> m_rcc (w_m w') = m_rcc m + 1
               else m_state m = MUTEX_UNLOCKED \<and> m_rcc (w_m w') = 1)
         else w_m w' = m \<and>
              (r = - EINVAL \<and> m_state m = MUTEX_DESTROYED \<or> r = - EDEADLK \<and> m_owner m = t \<and> \<not> m_rec m))))"
proof -
  have stop: "\<exists>n. lock_round ops t (seen ops t env 0 w n) = (Some r, w') \<and>
      (\<forall>i<n. m_state (w_m (seen ops t env 0 w i)) = MUTEX_LOCKED \<and> m_owner (w_m (seen ops t env 0 w i)) \<noteq> t)"
    if "mutex_lock ops cur env w = Some (r, w')" for r w'
    using lock_loop_stops [OF that [unfolded mutex_lock_def, folded assms(1)]] by (simp add: lock_round_waits)
  have go: "\<exists>y. mutex_lock ops cur env w = Some y"
    if "m_state (w_m (seen ops t env 0 w n)) \<noteq> MUTEX_LOCKED \<or> m_owner (w_m (seen ops t env 0 w n)) = t" for n
    using lock_loop_returns [of ops t env 0 w n] that lock_round_waits [of ops t "seen ops t env 0 w n"]
    by (auto simp: mutex_lock_def simp flip: assms(1))
  have ret: "\<exists>n. m_state (w_m (seen ops t env 0 w n)) \<noteq> MUTEX_LOCKED \<or> m_owner (w_m (seen ops t env 0 w n)) = t"
    if y: "mutex_lock ops cur env w = Some y" for y
  proof -
    obtain n where "lock_round ops t (seen ops t env 0 w n) = (Some (fst y), snd y)"
      using stop [of "fst y" "snd y"] y by auto
    then show ?thesis using lock_round_waits [of ops t "seen ops t env 0 w n"] by auto
  qed
  show ?thesis
  proof (intro conjI allI impI)
    show "(\<exists>y. mutex_lock ops cur env w = Some y) \<longleftrightarrow>
        (\<exists>n. let m = w_m (seen ops t env 0 w n) in m_state m \<noteq> MUTEX_LOCKED \<or> m_owner m = t)"
      using go ret unfolding Let_def by blast
  next
    fix r w' assume "mutex_lock ops cur env w = Some (r, w')"
    from stop [OF this] obtain n where n: "lock_round ops t (seen ops t env 0 w n) = (Some r, w')"
      "\<forall>i<n. m_state (w_m (seen ops t env 0 w i)) = MUTEX_LOCKED \<and> m_owner (w_m (seen ops t env 0 w i)) \<noteq> t" by blast
    with lock_round_outcome [OF n(1) refl] assms(3)
    show "\<exists>n. (\<forall>i<n. m_state (w_m (seen ops t env 0 w i)) = MUTEX_LOCKED \<and> m_owner (w_m (seen ops t env 0 w i)) \<noteq> t) \<and>
        (let m = w_m (seen ops t env 0 w n) in
         if r = 0
         then m_state (w_m w') = MUTEX_LOCKED \<and> m_owner (w_m w') = t \<and> m_rec (w_m w') = m_rec m \<and>
              (if m_owner m = t then m_rec m \<and> m_rcc (w_m w') = m_rcc m + 1
               else m_state m = MUTEX_UNLOCKED \<and> m_rcc (w_m w') = 1)
         else w_m w' = m \<and>
              (r = - EINVAL \<and> m_state m = MUTEX_DESTROYED \<or> r = - EDEADLK \<and> m_owner m = t \<and> \<not> m_rec m))"
      unfolding Let_def by blast
  qed
qed

lemma seen_keeps:
  assumes "P w" and "\<And>w k. P w \<Longrightarrow> P (env k (snd (lock_round ops t w)))"
  shows "P (seen ops t env k w n)"
  using assms by (induction n arbitrary: k w) simp_all

lemma mutex_lock_returns_witness:
  "(\<exists>w'. mutex_lock (Some full_ops) 9 (\<lambda>n w. snd (mutex_unlock (Some full_ops) 8 w)) mw1 = Some (0, w') \<and>
      m_state (w_m w') = MUTEX_LOCKED \<and> m_owner (w_m w') = 9 \<and> m_rcc (w_m w') = 1) \<and>
   mutex_lock (Some full_ops) 9 (\<lambda>n w. w) mw1 = None"
proof -
  let ?u = "\<lambda>n w. snd (mutex_unlock (Some full_ops) 8 w)"
  have m1: "w_m mw1 = \<lparr>m_state = MUTEX_LOCKED, m_owner = 8, m_rcc = 1, m_rec = True\<rparr>"
    by (simp add: mw1_def mw0_def mutex_create_def lock_round_def Let_def)
  have s: "w_m (seen (Some full_ops) 9 (\<lambda>n w. w) k mw1 n) = w_m mw1" for k n
    by (rule seen_keeps) (simp_all add: lock_round_def Let_def m1)
  have "\<not> (\<exists>y. mutex_lock (Some full_ops) 9 (\<lambda>n w. w) mw1 = Some y)"
    using mutex_lock_returns [of 9 "Some full_ops" 9 "\<lambda>n w. w" mw1] by (simp add: s m1)
  then have never: "mutex_lock (Some full_ops) 9 (\<lambda>n w. w) mw1 = None" by (cases "mutex_lock (Some full_ops) 9 (\<lambda>n w. w) mw1") auto
  have p: "m_owner (w_m (seen (Some full_ops) 9 ?u 0 mw1 n)) = 9 \<longrightarrow>
      m_state (w_m (seen (Some full_ops) 9 ?u 0 mw1 n)) = MUTEX_LOCKED" for n
    by (rule seen_keeps) (auto simp: m1 lock_round_def mutex_unlock_def Let_def)
  have one: "w_m (seen (Some full_ops) 9 ?u 0 mw1 1) = \<lparr>m_state = MUTEX_UNLOCKED, m_owner = 0, m_rcc = 0, m_rec = True\<rparr>"
    by (simp add: lock_round_def mutex_unlock_def Let_def m1)
  have "9 = current_task (Some full_ops) 9" "9 \<noteq> NULL_TASK" by simp_all
  note R = mutex_lock_returns [OF this, of ?u mw1, OF allI, OF p]
  have "\<exists>y. mutex_lock (Some full_ops) 9 ?u mw1 = Some y"
    unfolding R [THEN conjunct1] by (rule exI [of _ 1]) (simp only: one Let_def, simp)
  then obtain r w' where y: "mutex_lock (Some full_ops) 9 ?u mw1 = Some (r, w')" by auto
  then obtain n where n: "\<forall>i<n. m_state (w_m (seen (Some full_ops) 9 ?u 0 mw1 i)) = MUTEX_LOCKED"
    and res: "let m = w_m (seen (Some full_ops) 9 ?u 0 mw1 n) in
         if r = 0
         then m_state (w_m w') = MUTEX_LOCKED \<and> m_owner (w_m w') = 9 \<and> m_rec (w_m w') = m_rec m \<and>
              (if m_owner m = 9 then m_rec m \<and> m_rcc (w_m w') = m_rcc m + 1
               else m_state m = MUTEX_UNLOCKED \<and> m_rcc (w_m w') = 1)
         else w_m w' = m \<and>
              (r = - EINVAL \<and> m_state m = MUTEX_DESTROYED \<or> r = - EDEADLK \<and> m_owner m = 9 \<and> \<not> m_rec m)"
    using R [THEN conjunct2] by blast
  note res = res [unfolded Let_def]
  have "n \<noteq> 0"
  proof
    assume "n = 0"
    with res show False by (simp add: m1 split: if_splits)
  qed
  moreover have "\<not> 1 < n" using n one by auto
  ultimately have "n = 1" by simp
  with res have "r = 0 \<and> m_state (w_m w') = MUTEX_LOCKED \<and> m_owner (w_m w') = 9 \<and> m_rcc (w_m w') = 1"
    by (simp only: one) (simp split: if_splits)
  with y never show ?thesis by auto
qed

section \<open>Error codes\<close>

definition balanced :: "mutex_ops_t option \<Rightarrow> bool" where
  "balanced ops \<longleftrightarrow> (case ops of None \<Rightarrow> True | Some h \<Rightarrow> o_enter h = o_leave h)"

lemma section_balanced:
  "balanced ops \<Longrightarrow> state_leave ops ((state_enter ops w)\<lparr>w_m := m\<rparr>) = w\<lparr>w_m := m\<rparr>"
  "balanced ops \<Longrightarrow> state_leave ops (state_enter ops w) = w"
  by (auto simp: balanced_def state_enter_def state_leave_def split: option.splits)

text \<open>
  C15. The exact results: with enter and leave hooks that are both present or both absent,
  trylock, unlock and destroy return precisely the documented code of the mutex's state, the
  caller and the kind of mutex, change nothing when they fail, and leave the state section as
  they found it; NULL is refused with \<open>-EINVAL\<close>.
\<close>

theorem mutex_errors_exact:
  assumes "balanced ops" and "t = current_task ops cur" and "m = w_m w"
  shows "mutex_trylock ops cur w =
      (if m_state m = MUTEX_DESTROYED then (- EINVAL, w)
       else if m_owner m = t \<and> \<not> m_rec m then (- EDEADLK, w)
       else if m_owner m = t then (0, w\<lparr>w_m := m\<lparr>m_rcc := m_rcc m + 1\<rparr>\<rparr>)
       else if m_state m = MUTEX_LOCKED then (- EBUSY, w)
       else (0, w\<lparr>w_m := m\<lparr>m_state := MUTEX_LOCKED, m_owner := t, m_rcc := 1\<rparr>\<rparr>))
    \<and> mutex_unlock ops cur w =
      (if m_state m = MUTEX_DESTROYED then (- EINVAL, w)
       else if m_state m = MUTEX_UNLOCKED \<or> m_owner m \<noteq> t \<or> m_rcc m = 0 then (- EPERM, w)
       else if m_rcc m = 1 then (0, w\<lparr>w_m := m\<lparr>m_state := MUTEX_UNLOCKED, m_owner := NULL_TASK, m_rcc := 0\<rparr>\<rparr>)
       else (0, w\<lparr>w_m := m\<lparr>m_rcc := m_rcc m - 1\<rparr>\<rparr>))
    \<and> mutex_destroy ops w =
      (if m_state m = MUTEX_LOCKED then (- EBUSY, w)
       else (0, w\<lparr>w_m := m\<lparr>m_state := MUTEX_DESTROYED, m_owner := NULL_TASK, m_rcc := 0\<rparr>\<rparr>))
    \<and> mutex_trylock_entry ops cur None = (- EINVAL, None) \<and> arm_mutex_unlock ops cur None = (- EINVAL, None)
    \<and> mutex_destroy_entry ops None = (- EINVAL, None)"
proof (intro conjI)
  show "mutex_trylock ops cur w =
      (if m_state m = MUTEX_DESTROYED then (- EINVAL, w)
       else if m_owner m = t \<and> \<not> m_rec m then (- EDEADLK, w)
       else if m_owner m = t then (0, w\<lparr>w_m := m\<lparr>m_rcc := m_rcc m + 1\<rparr>\<rparr>)
       else if m_state m = MUTEX_LOCKED then (- EBUSY, w)
       else (0, w\<lparr>w_m := m\<lparr>m_state := MUTEX_LOCKED, m_owner := t, m_rcc := 1\<rparr>\<rparr>))"
    using assms by (cases "m_state m") (simp_all add: mutex_trylock_def Let_def section_balanced)
  have "m_rcc m - 1 = 0 \<longleftrightarrow> m_rcc m = 1" by simp
  then show "mutex_unlock ops cur w =
      (if m_state m = MUTEX_DESTROYED then (- EINVAL, w)
       else if m_state m = MUTEX_UNLOCKED \<or> m_owner m \<noteq> t \<or> m_rcc m = 0 then (- EPERM, w)
       else if m_rcc m = 1 then (0, w\<lparr>w_m := m\<lparr>m_state := MUTEX_UNLOCKED, m_owner := NULL_TASK, m_rcc := 0\<rparr>\<rparr>)
       else (0, w\<lparr>w_m := m\<lparr>m_rcc := m_rcc m - 1\<rparr>\<rparr>))"
    using assms by (cases "m_state m") (simp_all add: mutex_unlock_def Let_def section_balanced)
  show "mutex_destroy ops w =
      (if m_state m = MUTEX_LOCKED then (- EBUSY, w)
       else (0, w\<lparr>w_m := m\<lparr>m_state := MUTEX_DESTROYED, m_owner := NULL_TASK, m_rcc := 0\<rparr>\<rparr>))"
    using assms by (simp add: mutex_destroy_def Let_def section_balanced)
qed (simp_all add: mutex_trylock_entry_def arm_mutex_unlock_def mutex_unlock_entry_def mutex_destroy_entry_def)

lemma mutex_errors_exact_witness:
  "fst (mutex_trylock (Some full_ops) 9 mw1) = - EBUSY \<and> fst (mutex_unlock (Some full_ops) 9 mw1) = - EPERM"
proof -
  have "balanced (Some full_ops)" by (simp add: balanced_def full_ops_def)
  note e = mutex_errors_exact [OF this refl refl, where cur = 9 and w = mw1]
  have "w_m mw1 = \<lparr>m_state = MUTEX_LOCKED, m_owner = 8, m_rcc = 1, m_rec = True\<rparr>"
    by (simp add: mw1_def mw0_def mutex_create_def lock_round_def Let_def)
  then show ?thesis using e by simp
qed

text \<open>
  The boundary case mutex.h documents: without a current task the caller is the NULL task and
  so is the owner of every free mutex, and the owner test comes before the state test.  Locking a
  free non-recursive mutex then reports a deadlock instead of taking it; locking a free recursive one
  reports success and bumps the count but leaves the mutex unlocked, and the matching unlock
  fails with \<open>-EPERM\<close>.
\<close>

lemma mutex_lock_without_task:
  assumes "balanced ops" and "current_task ops cur = NULL_TASK"
  shows "mutex_lock ops cur env (mutex_create False w) = Some (- EDEADLK, mutex_create False w) \<and>
    (\<exists>w'. mutex_lock ops cur env (mutex_create True w) = Some (0, w') \<and>
       m_state (w_m w') = MUTEX_UNLOCKED \<and> m_rcc (w_m w') = 1 \<and> mutex_unlock ops cur w' = (- EPERM, w'))"
proof -
  have "mutex_lock ops cur env (mutex_create rcv w) =
     (if rcv then Some (0, (mutex_create True w)\<lparr>w_m := (w_m (mutex_create True w))\<lparr>m_rcc := 1\<rparr>\<rparr>)
      else Some (- EDEADLK, mutex_create False w))" for rcv
    unfolding mutex_lock_def
    by (subst lock_loop.simps) (simp add: assms lock_round_def Let_def section_balanced, simp add: mutex_create_def)
  then show ?thesis
    using assms by (simp add: mutex_unlock_def Let_def section_balanced, simp add: mutex_create_def)
qed

end
