(* ===== verification/Timer.thy ===== *)
theory Timer
  imports Sched Percpu
begin

text \<open>
  The clocks, \<open>arch/arm32/src/timer.c\<close>: the free-running 64-bit global timer read
  through two 32-bit registers, its conversion to nanoseconds and microseconds, the busy waits and
  the periodic tick of the private timer.  The counter is a function from the number of bus
  accesses made so far to its value at that moment; a register write is a pair of address and value.
\<close>

section \<open>Reading the global timer\<close>

abbreviation (input) GT_COUNTER_LOW :: u32 where "GT_COUNTER_LOW \<equiv> 0x00"
abbreviation (input) GT_COUNTER_HIGH :: u32 where "GT_COUNTER_HIGH \<equiv> 0x04"
abbreviation (input) GT_CONTROL :: u32 where "GT_CONTROL \<equiv> 0x08"
abbreviation (input) GT_COMPARE_LOW :: u32 where "GT_COMPARE_LOW \<equiv> 0x10"
abbreviation (input) GT_COMPARE_HIGH :: u32 where "GT_COMPARE_HIGH \<equiv> 0x14"
abbreviation (input) GT_ENABLE :: u32 where "GT_ENABLE \<equiv> 1"
abbreviation (input) GT_AUTO_INCR :: u32 where "GT_AUTO_INCR \<equiv> 2"

abbreviation (input) PLAT_GLOBAL_TIMER_BASE :: u32 where "PLAT_GLOBAL_TIMER_BASE \<equiv> 0xF8F00200"
abbreviation (input) PLAT_PRIVATE_TIMER_BASE :: u32 where "PLAT_PRIVATE_TIMER_BASE \<equiv> 0xF8F00600"

definition PLAT_CPU_FREQ_HZ :: u32 where
  "PLAT_CPU_FREQ_HZ = 666666687"

definition PLAT_GLOBAL_TIMER_FREQ_HZ :: u32 where
  "PLAT_GLOBAL_TIMER_FREQ_HZ = PLAT_CPU_FREQ_HZ div 2"

type_synonym counter = "nat \<Rightarrow> u64"

definition gt_read :: "counter \<Rightarrow> u32 \<Rightarrow> nat \<Rightarrow> u32" where
  "gt_read cnt offset i =
     (if offset = GT_COUNTER_LOW then ucast (cnt i)
      else if offset = GT_COUNTER_HIGH then ucast (drop_bit 32 (cnt i))
      else 0)"

definition timer_init :: "(u32 \<times> u32) list" where
  "timer_init =
     [(PLAT_GLOBAL_TIMER_BASE + GT_CONTROL, 0),
      (PLAT_GLOBAL_TIMER_BASE + GT_COUNTER_LOW, 0),
      (PLAT_GLOBAL_TIMER_BASE + GT_COUNTER_HIGH, 0),
      (PLAT_GLOBAL_TIMER_BASE + GT_COMPARE_LOW, 0xFFFFFFFF),
      (PLAT_GLOBAL_TIMER_BASE + GT_COMPARE_HIGH, 0xFFFFFFFF),
      (PLAT_GLOBAL_TIMER_BASE + GT_CONTROL, GT_ENABLE OR GT_AUTO_INCR)]"

definition timer_read_ticks_low :: "counter \<Rightarrow> nat \<Rightarrow> u32 \<times> nat" where
  "timer_read_ticks_low cnt i = (gt_read cnt GT_COUNTER_LOW i, i + 1)"

partial_function (option) timer_read_ticks :: "counter \<Rightarrow> nat \<Rightarrow> (u64 \<times> nat) option" where
  "timer_read_ticks cnt i =
     (let high_first = gt_read cnt GT_COUNTER_HIGH i;
          low = gt_read cnt GT_COUNTER_LOW (i + 1);
          high_second = gt_read cnt GT_COUNTER_HIGH (i + 2)
      in if high_first \<noteq> high_second then timer_read_ticks cnt (i + 3)
         else Some (push_bit 32 (ucast high_second) OR ucast low, i + 3))"

definition ticks_to_ns :: "u64 \<Rightarrow> u64" where
  "ticks_to_ns ticks = (ticks * 1000000000) div ucast PLAT_GLOBAL_TIMER_FREQ_HZ"

definition timer_read_ns :: "counter \<Rightarrow> nat \<Rightarrow> (u64 \<times> nat) option" where
  "timer_read_ns cnt i = do { (ticks, i) \<leftarrow> timer_read_ticks cnt i; Some (ticks_to_ns ticks, i) }"

definition timer_read_us :: "counter \<Rightarrow> nat \<Rightarrow> (u64 \<times> nat) option" where
  "timer_read_us cnt i =
     do { (ticks, i) \<leftarrow> timer_read_ticks cnt i;
          Some ((ticks * 1000000) div ucast PLAT_GLOBAL_TIMER_FREQ_HZ, i) }"

section \<open>Busy waits\<close>

partial_function (option) delay_loop :: "counter \<Rightarrow> u64 \<Rightarrow> u64 \<Rightarrow> nat \<Rightarrow> nat option" where
  "delay_loop cnt start delta i =
     do { (now, i) \<leftarrow> timer_read_ticks cnt i;
          if now - start < delta then delay_loop cnt start delta i else Some i }"

definition timer_delay_us :: "counter \<Rightarrow> u32 \<Rightarrow> nat \<Rightarrow> nat option" where
  "timer_delay_us cnt us i =
     do { (start, i) \<leftarrow> timer_read_ticks cnt i;
          let delta = (ucast us * ucast PLAT_GLOBAL_TIMER_FREQ_HZ) div 1000000 in
          delay_loop cnt start delta i }"

fun delay_ms_loop :: "counter \<Rightarrow> nat \<Rightarrow> nat \<Rightarrow> nat option" where
  "delay_ms_loop cnt 0 i = Some i"
| "delay_ms_loop cnt (Suc ms) i = do { i \<leftarrow> timer_delay_us cnt 1000 i; delay_ms_loop cnt ms i }"

definition timer_delay_ms :: "counter \<Rightarrow> u32 \<Rightarrow> nat \<Rightarrow> nat option" where
  "timer_delay_ms cnt ms i = delay_ms_loop cnt (unat ms) i"

section \<open>The periodic tick\<close>

abbreviation (input) PT_LOAD :: u32 where "PT_LOAD \<equiv> 0x00"
abbreviation (input) PT_CONTROL :: u32 where "PT_CONTROL \<equiv> 0x08"
abbreviation (input) PT_ISR :: u32 where "PT_ISR \<equiv> 0x0C"
abbreviation (input) PT_CTRL_ENABLE :: u32 where "PT_CTRL_ENABLE \<equiv> 1"
abbreviation (input) PT_CTRL_AUTO_RELOAD :: u32 where "PT_CTRL_AUTO_RELOAD \<equiv> 2"
abbreviation (input) PT_CTRL_IRQ_ENABLE :: u32 where "PT_CTRL_IRQ_ENABLE \<equiv> 4"

definition a9_timer_start_tick :: "u32 \<Rightarrow> (u32 \<times> u32) list" where
  "a9_timer_start_tick hz =
     (let hz = (if hz = 0 then 1000 else hz);
          interval = PLAT_GLOBAL_TIMER_FREQ_HZ div hz;
          interval = (if interval = 0 then 1 else interval)
      in [(PLAT_PRIVATE_TIMER_BASE + PT_CONTROL, 0),
          (PLAT_PRIVATE_TIMER_BASE + PT_LOAD, interval - 1),
          (PLAT_PRIVATE_TIMER_BASE + PT_ISR, 1),
          (PLAT_PRIVATE_TIMER_BASE + PT_CONTROL,
           PT_CTRL_ENABLE OR PT_CTRL_AUTO_RELOAD OR PT_CTRL_IRQ_ENABLE)])"

definition a9_timer_stop_tick :: "(u32 \<times> u32) list" where
  "a9_timer_stop_tick = [(PLAT_PRIVATE_TIMER_BASE + PT_CONTROL, 0)]"

record tick_state =
  g_tick_count :: u64
  tk_percpu :: percpu_table

definition a9_timer_clear_irq :: "nat option \<Rightarrow> tick_state \<Rightarrow> (u32 \<times> u32) list \<times> tick_state" where
  "a9_timer_clear_irq self st =
     ([(PLAT_PRIVATE_TIMER_BASE + PT_ISR, 1)],
      case self of
        Some i \<Rightarrow>
          let st = st\<lparr>tk_percpu := (tk_percpu st)(i := (tk_percpu st i)\<lparr>p_ticks := p_ticks (tk_percpu st i) + 1\<rparr>)\<rparr>
          in if p_cpu_id (tk_percpu st i) = 0 then st\<lparr>g_tick_count := g_tick_count st + 1\<rparr> else st
      | None \<Rightarrow> st\<lparr>g_tick_count := g_tick_count st + 1\<rparr>)"

definition a9_timer_get_ticks :: "tick_state \<Rightarrow> u64" where
  "a9_timer_get_ticks st = g_tick_count st"

section \<open>A running counter\<close>

text \<open>
  What the port relies on of the hardware: the counter advances between two bus accesses, and six
  consecutive accesses take less than the 12.9 seconds in which its low half wraps.
\<close>

definition timer_runs :: "(nat \<Rightarrow> nat) \<Rightarrow> bool" where
  "timer_runs c \<longleftrightarrow> (\<forall>i. c i < c (i + 1)) \<and> (\<forall>i. c (i + 5) < c i + 2 ^ 32)"

abbreviation (input) clock_of :: "(nat \<Rightarrow> nat) \<Rightarrow> counter" where
  "clock_of c \<equiv> \<lambda>i. of_nat (c i)"

lemma runs_mono: "timer_runs c \<Longrightarrow> i \<le> j \<Longrightarrow> c i \<le> c j"
  unfolding timer_runs_def by (metis Suc_eq_plus1 lift_Suc_mono_le less_imp_le)

lemma runs_gap: "timer_runs c \<Longrightarrow> i < j \<Longrightarrow> c i + (j - i) \<le> c j"
proof (induction j)
  case (Suc j)
  then have "c j < c (Suc j)" by (simp add: timer_runs_def)
  with Suc show ?case by (cases "i = j") auto
qed simp

lemma join_halves:
  fixes x y :: u64
  assumes "drop_bit 32 x = drop_bit 32 y"
  shows "push_bit 32 (ucast (ucast (drop_bit 32 x) :: u32)) OR ucast (ucast y :: u32) = y"
  by (rule bit_word_eqI)
    (use assms in \<open>auto simp: bit_simps dest: arg_cong [where f = "\<lambda>w. bit w _"]\<close>)

lemma bit_high: "bit (n div 2 ^ 32 :: nat) k = bit n (32 + k)"
  by (simp only: drop_bit_eq_div [symmetric] bit_drop_bit_eq comp_def)

lemma bit_number: "bit (of_nat n :: 'a::len word) k \<longleftrightarrow> k < LENGTH('a) \<and> bit n k"
  by transfer (simp add: bit_take_bit_iff bit_of_nat_iff_bit)

lemma high_half: "(ucast (drop_bit 32 (of_nat n :: u64)) :: u32) = of_nat (n div 2 ^ 32)"
proof (rule bit_word_eqI)
  fix k
  assume "k < LENGTH(32)"
  then show "bit (ucast (drop_bit 32 (of_nat n :: u64)) :: u32) k = bit (of_nat (n div 2 ^ 32) :: u32) k"
    unfolding bit_simps bit_number bit_high by (simp add: add.commute)
qed

lemma gt_read_low: "gt_read cnt GT_COUNTER_LOW i = ucast (cnt i)"
  by (simp add: gt_read_def)

lemma gt_read_high: "gt_read cnt GT_COUNTER_HIGH i = ucast (drop_bit 32 (cnt i))"
  by (simp add: gt_read_def)

lemma halves_steady:
  fixes a b m :: nat
  assumes "a \<le> m" and "m \<le> b" and "b < a + 2 ^ 32"
    and "(of_nat (a div 2 ^ 32) :: u32) = of_nat (b div 2 ^ 32)"
  shows "a div 2 ^ 32 = m div 2 ^ 32" and "m div 2 ^ 32 = b div 2 ^ 32"
proof -
  have "b div 2 ^ 32 \<le> (a + 2 ^ 32) div 2 ^ 32"
    using assms(3) by (intro div_le_mono) simp
  then have near: "b div 2 ^ 32 \<le> a div 2 ^ 32 + 1" by simp
  have order: "a div 2 ^ 32 \<le> m div 2 ^ 32" "m div 2 ^ 32 \<le> b div 2 ^ 32"
    using assms(1,2) by (auto intro: div_le_mono)
  have "b div 2 ^ 32 \<noteq> a div 2 ^ 32 + 1"
    using assms(4) by auto
  with near order show "a div 2 ^ 32 = m div 2 ^ 32" "m div 2 ^ 32 = b div 2 ^ 32" by auto
qed

lemma read_round:
  assumes "timer_runs c"
    and "gt_read (clock_of c) GT_COUNTER_HIGH i = gt_read (clock_of c) GT_COUNTER_HIGH (i + 2)"
  shows "push_bit 32 (ucast (gt_read (clock_of c) GT_COUNTER_HIGH (i + 2)) :: u64) OR
         ucast (gt_read (clock_of c) GT_COUNTER_LOW (i + 1)) = of_nat (c (i + 1))"
proof -
  have "c (i + 2) < c i + 2 ^ 32"
    using assms(1) runs_mono [OF assms(1), of "i + 2" "i + 5"] by (auto simp: timer_runs_def intro: le_less_trans)
  moreover have "c i \<le> c (i + 1)" "c (i + 1) \<le> c (i + 2)"
    using runs_mono [OF assms(1)] by auto
  moreover have "(of_nat (c i div 2 ^ 32) :: u32) = of_nat (c (i + 2) div 2 ^ 32)"
    using assms(2) by (simp add: gt_read_high high_half)
  ultimately have "c (i + 1) div 2 ^ 32 = c (i + 2) div 2 ^ 32"
    by (intro halves_steady(2) [where a = "c i"]) auto
  then have "drop_bit 32 (of_nat (c (i + 2)) :: u64) = drop_bit 32 (of_nat (c (i + 1)) :: u64)"
    by (intro bit_word_eqI) (metis bit_drop_bit_eq bit_high bit_number comp_apply)
  then show ?thesis
    by (simp add: gt_read_low gt_read_high join_halves)
qed

lemma second_round:
  assumes "timer_runs c"
    and "gt_read (clock_of c) GT_COUNTER_HIGH i \<noteq> gt_read (clock_of c) GT_COUNTER_HIGH (i + 2)"
  shows "gt_read (clock_of c) GT_COUNTER_HIGH (i + 3) = gt_read (clock_of c) GT_COUNTER_HIGH (i + 5)"
proof -
  have "c i div 2 ^ 32 \<noteq> c (i + 2) div 2 ^ 32"
    using assms(2) by (auto simp: gt_read_high high_half)
  moreover have "c i div 2 ^ 32 \<le> c (i + 2) div 2 ^ 32" "c (i + 2) div 2 ^ 32 \<le> c (i + 3) div 2 ^ 32"
    "c (i + 3) div 2 ^ 32 \<le> c (i + 5) div 2 ^ 32"
    using runs_mono [OF assms(1)] by (auto intro!: div_le_mono)
  moreover have "c (i + 5) div 2 ^ 32 \<le> (c i + 2 ^ 32) div 2 ^ 32"
    using assms(1) by (intro div_le_mono) (simp add: timer_runs_def less_imp_le)
  then have "c (i + 5) div 2 ^ 32 \<le> c i div 2 ^ 32 + 1" by simp
  ultimately have "c (i + 3) div 2 ^ 32 = c (i + 5) div 2 ^ 32" by linarith
  then show ?thesis by (simp add: gt_read_high high_half)
qed

lemma read_ticks_spec:
  assumes "timer_runs c"
  shows "\<exists>j. (j = i + 3 \<or> j = i + 6) \<and>
             timer_read_ticks (clock_of c) i = Some (of_nat (c (j - 2)), j)"
proof (cases "gt_read (clock_of c) GT_COUNTER_HIGH i = gt_read (clock_of c) GT_COUNTER_HIGH (i + 2)")
  case True
  have "timer_read_ticks (clock_of c) i = Some (of_nat (c (i + 1)), i + 3)"
    by (subst timer_read_ticks.simps) (use True read_round [OF assms True] in \<open>simp add: Let_def\<close>)
  then show ?thesis by (intro exI [of _ "i + 3"]) simp
next
  case False
  have again: "gt_read (clock_of c) GT_COUNTER_HIGH (i + 3) = gt_read (clock_of c) GT_COUNTER_HIGH (i + 3 + 2)"
    using second_round [OF assms False] by (simp only: add.assoc numeral_plus_numeral semiring_norm)
  have "timer_read_ticks (clock_of c) i = timer_read_ticks (clock_of c) (i + 3)"
    by (subst timer_read_ticks.simps) (simp only: Let_def False not_False_eq_True if_True)
  also have "\<dots> = Some (of_nat (c (i + 3 + 1)), i + 3 + 3)"
    by (subst timer_read_ticks.simps) (use again read_round [OF assms again] in \<open>simp only: Let_def simp_thms if_False\<close>)
  finally show ?thesis by (intro exI [of _ "i + 6"]) (simp add: numeral_eq_Suc)
qed

lemma runs_near: "timer_runs c \<Longrightarrow> j \<le> i + 5 \<Longrightarrow> c j < c i + 2 ^ 32"
  using runs_mono [of c j "i + 5"] by (auto simp: timer_runs_def intro: le_less_trans)

lemma elapsed_word:
  assumes "a \<le> b" and "b < a + 2 ^ 64"
  shows "(of_nat b - of_nat a :: u64) = of_nat (b - a)" and "unat (of_nat (b - a) :: u64) = b - a"
proof -
  show "(of_nat b - of_nat a :: u64) = of_nat (b - a)"
    using assms(1) by (simp add: of_nat_diff)
  show "unat (of_nat (b - a) :: u64) = b - a"
    by (rule unat_of_nat_small) (use assms in simp)
qed

lemma delay_loop_spec:
  assumes runs: "timer_runs c" and delta: "unat delta < 2 ^ 63"
    and "p \<le> i" and "c i < c p + unat delta + 2 ^ 33"
  shows "\<exists>j>i. delay_loop (clock_of c) (of_nat (c p)) delta i = Some j \<and>
             c p + unat delta \<le> c j \<and> c j < c p + unat delta + 2 ^ 34"
  using assms(3,4)
proof (induction "c p + unat delta - c i" arbitrary: i rule: less_induct)
  case less
  obtain j where read: "timer_read_ticks (clock_of c) i = Some (of_nat (c (j - 2)), j)"
    and j: "j = i + 3 \<or> j = i + 6"
    using read_ticks_spec [OF runs] by blast
  have step: "c i < c (j - 2)" "c (j - 2) \<le> c j" "c j < c (j - 2) + 2 ^ 32" "c j < c i + 2 ^ 33"
    using j runs_gap [OF runs, of i "j - 2"] runs_mono [OF runs, of "j - 2" j]
      runs_near [OF runs, of j "j - 2"] runs_near [OF runs, of j "i + 1"] runs_near [OF runs, of "i + 1" i] by auto
  have past: "c p \<le> c (j - 2)"
    using runs_mono [OF runs less.prems(1)] step(1) by simp
  have "c (j - 2) < c p + 2 ^ 64" using step(2,4) less.prems(2) delta by simp
  note now = elapsed_word [OF past this]
  have unfold: "delay_loop (clock_of c) (of_nat (c p)) delta i =
      (if of_nat (c (j - 2) - c p) < delta then delay_loop (clock_of c) (of_nat (c p)) delta j else Some j)"
    by (subst delay_loop.simps) (simp add: read now(1))
  show ?case
  proof (cases "c (j - 2) - c p < unat delta")
    case True
    then have "of_nat (c (j - 2) - c p) < delta"
      by (simp add: word_less_nat_alt now(2))
    moreover have "\<exists>k>j. delay_loop (clock_of c) (of_nat (c p)) delta j = Some k \<and>
             c p + unat delta \<le> c k \<and> c k < c p + unat delta + 2 ^ 34"
      using True past step j less.prems by (intro less.hyps) auto
    ultimately show ?thesis using unfold j by (metis (no_types, lifting) trans_less_add1 less_trans zero_less_numeral less_add_same_cancel1)
  next
    case False
    then have "\<not> of_nat (c (j - 2) - c p) < delta"
      by (simp add: word_less_nat_alt now(2))
    moreover have "c j < c p + unat delta + 2 ^ 34" using step(4) less.prems(2) by simp
    ultimately show ?thesis using unfold j False past step(2) by (intro exI [of _ j]) auto
  qed
qed

section \<open>The nanosecond clock\<close>

lemma timer_freq: "PLAT_GLOBAL_TIMER_FREQ_HZ = 333333343"
  by (simp add: PLAT_GLOBAL_TIMER_FREQ_HZ_def PLAT_CPU_FREQ_HZ_def)

lemma unat_ticks_to_ns: "unat (ticks_to_ns ticks) = unat ticks * 1000000000 mod 2 ^ 64 div 333333343"
  by (simp add: ticks_to_ns_def timer_freq unat_div unat_word_ariths)

lemma delay_ticks:
  "unat ((ucast us * ucast PLAT_GLOBAL_TIMER_FREQ_HZ) div 1000000 :: u64) = unat (us :: u32) * 333333343 div 1000000"
proof -
  have "unat us * 333333343 < 18446744073709551616"
    using unat_lt32 [of us] by linarith
  then show ?thesis
    by (simp add: timer_freq unat_div unat_word_ariths)
qed

text \<open>
  \<open>timer_delay_us\<close> returns on a running counter, also when the 64-bit counter wraps while
  it waits; the counter has then advanced by the requested time, never less, and by at most the
  time of a few reads more.
\<close>

theorem timer_delay_waits:
  assumes "timer_runs c"
  shows "\<exists>j>i. timer_delay_us (clock_of c) us i = Some j \<and>
             c i + unat us * 333333343 div 1000000 \<le> c j \<and>
             c j < c i + unat us * 333333343 div 1000000 + 2 ^ 35"
proof -
  define delta :: u64 where "delta = (ucast us * ucast PLAT_GLOBAL_TIMER_FREQ_HZ) div 1000000"
  have delta: "unat delta = unat us * 333333343 div 1000000"
    unfolding delta_def by (rule delay_ticks)
  obtain k where k: "timer_read_ticks (clock_of c) i = Some (of_nat (c (k - 2)), k)" "k = i + 3 \<or> k = i + 6"
    using read_ticks_spec [OF assms] by blast
  have "unat delta \<le> unat us * 333333343" unfolding delta by (rule div_le_dividend)
  then have "unat delta < 9223372036854775808" using unat_lt32 [of us] by linarith
  moreover have "c k < c (k - 2) + unat delta + 2 ^ 33"
    using runs_near [OF assms, of k "k - 2"] k(2) by auto
  ultimately obtain j where "j > k" "delay_loop (clock_of c) (of_nat (c (k - 2))) delta k = Some j"
    "c (k - 2) + unat delta \<le> c j" "c j < c (k - 2) + unat delta + 2 ^ 34"
    using delay_loop_spec [OF assms, where delta = delta and p = "k - 2" and i = k] k(2) by auto
  moreover have "c i \<le> c (k - 2)" "c (k - 2) < c i + 2 ^ 32"
    using runs_mono [OF assms] runs_near [OF assms, of "k - 2" i] k(2) by auto
  ultimately show ?thesis
    using k by (intro exI [of _ j]) (auto simp: timer_delay_us_def delta_def [symmetric] delta)
qed

text \<open>
  C19. \<open>timer_read_ticks\<close> returns after at most two rounds, with exactly the value the 64-bit
  counter had at the moment of the low-half read it kept, even when a carry runs from the low into
  the high half between two accesses.
\<close>

theorem timer_read_ticks_exact:
  assumes "timer_runs c"
  shows "\<exists>j. (j = i + 3 \<or> j = i + 6) \<and>
             timer_read_ticks (clock_of c) i = Some (of_nat (c (j - 2)), j)"
  using read_ticks_spec [OF assms] .

text \<open>A counter at a carry: the low half overflows between the first two accesses.\<close>

definition carry_count :: "nat \<Rightarrow> nat" where
  "carry_count i = 2 ^ 32 - 50 + 100 * i"

lemma carry_runs: "timer_runs carry_count"
  by (simp add: timer_runs_def carry_count_def)

lemma timer_read_ticks_exact_witness:
  "\<exists>j. (j = 3 \<or> j = 6) \<and>
       timer_read_ticks (\<lambda>i. of_nat (carry_count i)) 0 = Some (of_nat (carry_count (j - 2)), j)"
  using timer_read_ticks_exact [OF carry_runs, of 0] by simp

lemma timer_delay_waits_witness:
  "\<exists>j>0. timer_delay_us (\<lambda>i. of_nat (carry_count i)) 1000 0 = Some j \<and>
         carry_count 0 + 333333 \<le> carry_count j \<and> carry_count j < carry_count 0 + 333333 + 2 ^ 35"
  using timer_delay_waits [OF carry_runs, of 0 1000] by simp

text \<open>
  C20. The nanosecond clock wraps: the product of the tick count with 10^9 leaves 64 bits after
  \<open>18446744073\<close> ticks, which is 55.3 seconds.  Up to there the clock is exact; it never shows
  more than 55340230616 ns; the next tick shows 0; and a task that sleeps until a later moment
  is not woken by any pass of the scheduler, whatever the counter.
\<close>

theorem timer_ns_wraps:
  "(unat ticks \<le> 18446744073 \<longrightarrow> unat (ticks_to_ns ticks) = unat ticks * 1000000000 div 333333343) \<and>
   ticks_to_ns 18446744074 = 0 \<and>
   unat (ticks_to_ns ticks) \<le> 55340230616 \<and>
   (55340230616 < unat (t_wakeup_time (s t)) \<longrightarrow> sched_wake_if_due t (ticks_to_ns ticks) base s = (False, s))"
proof -
  have exact: "unat ticks \<le> 18446744073 \<longrightarrow> unat (ticks_to_ns ticks) = unat ticks * 1000000000 div 333333343"
    by (simp add: unat_ticks_to_ns)
  have "unat ticks * 1000000000 mod 2 ^ 64 div 333333343 \<le> (2 ^ 64 - 1) div 333333343"
    by (intro div_le_mono) (simp add: less_Suc_eq_le [symmetric])
  then have bound: "unat (ticks_to_ns ticks) \<le> 55340230616"
    by (simp add: unat_ticks_to_ns)
  have "ticks_to_ns 18446744074 = 0"
    by (simp add: ticks_to_ns_def timer_freq)
  moreover have "sched_wake_if_due t (ticks_to_ns ticks) base s = (False, s)"
    if "55340230616 < unat (t_wakeup_time (s t))"
    using that bound by (auto simp: sched_wake_if_due_def word_le_nat_alt)
  ultimately show ?thesis using exact bound by simp
qed

lemma timer_ns_wraps_witness:
  "unat (ticks_to_ns 18446744073) = 18446744073 * 1000000000 div 333333343 \<and>
   fst (sched_wake_if_due 8 (ticks_to_ns 18446744073) 0
          (upd 8 (\<lambda>x. x\<lparr>t_status := WAIT, t_wakeup_time := 60000000000\<rparr>) st2)) = False"
  using timer_ns_wraps [of 18446744073 "upd 8 (\<lambda>x. x\<lparr>t_status := WAIT, t_wakeup_time := 60000000000\<rparr>) st2" 8 0]
  by simp

end
