(* ===== verification/UartBaud.thy ===== *)
theory UartBaud
  imports Prelude
begin

text \<open>
  The baud-rate search of \<open>arch/arm32/src/uart_baud.c\<close>.  The 32-bit product of the baud rate
  with a divisor can wrap to 0, and the division by it then has no defined value: the search is an option.
\<close>

section \<open>The search\<close>

abbreviation (input) UART_MAX_BAUD_ERROR_PERCENT :: u64 where "UART_MAX_BAUD_ERROR_PERCENT \<equiv> 5"
abbreviation (input) UART_BAUDDIV_MIN :: nat where "UART_BAUDDIV_MIN \<equiv> 4"
abbreviation (input) UART_BAUDDIV_MAX :: nat where "UART_BAUDDIV_MAX \<equiv> 254"

record uart_baud_result_t =
  ub_requested :: u32
  ub_actual :: u32
  ub_baudgen :: u32
  ub_bauddiv :: u32
  ub_error_ppm :: u32
  ub_valid :: bool

record baud_best =
  best_error :: u32
  best_baudgen :: u32
  best_bauddiv :: u32

definition baud_step :: "u32 \<Rightarrow> u32 \<Rightarrow> u32 \<Rightarrow> baud_best \<Rightarrow> baud_best option" where
  "baud_step input_clk baud iter_bauddiv b =
     (if baud * (iter_bauddiv + 1) = 0 then None
      else
        let baudgen = input_clk div (baud * (iter_bauddiv + 1))
        in if baudgen = 0 then Some b
           else if baudgen * (iter_bauddiv + 1) = 0 then None
           else
             let actual = input_clk div (baudgen * (iter_bauddiv + 1));
                 error = (if actual < baud then baud - actual else actual - baud)
             in Some (if error < best_error b
                      then b\<lparr>best_error := error, best_baudgen := baudgen, best_bauddiv := iter_bauddiv\<rparr>
                      else b))"

fun baud_loop :: "u32 \<Rightarrow> u32 \<Rightarrow> nat list \<Rightarrow> baud_best \<Rightarrow> baud_best option" where
  "baud_loop input_clk baud [] b = Some b"
| "baud_loop input_clk baud (d # ds) b =
     do { b \<leftarrow> baud_step input_clk baud (of_nat d) b; baud_loop input_clk baud ds b }"

definition uart_baud_search :: "u32 \<Rightarrow> u32 \<Rightarrow> uart_baud_result_t \<Rightarrow> uart_baud_result_t option" where
  "uart_baud_search input_clk baud r =
     (let r = r\<lparr>ub_requested := baud, ub_baudgen := 0, ub_bauddiv := 0, ub_actual := 0,
               ub_error_ppm := 0, ub_valid := False\<rparr>
      in if input_clk = 0 \<or> baud = 0 then Some r
         else do {
           b \<leftarrow> baud_loop input_clk baud [UART_BAUDDIV_MIN..<UART_BAUDDIV_MAX + 1]
                 \<lparr>best_error = 0xFFFFFFFF, best_baudgen = 0, best_bauddiv = 0\<rparr>;
           Some (if best_baudgen b = 0 then r
                 else r\<lparr>ub_baudgen := best_baudgen b, ub_bauddiv := best_bauddiv b,
                        ub_actual := input_clk div (best_baudgen b * (best_bauddiv b + 1)),
                        ub_error_ppm := (best_error b * 1000000) div baud,
                        ub_valid := ucast (best_error b) * 100
                                      \<le> (ucast baud :: u64) * UART_MAX_BAUD_ERROR_PERCENT\<rparr>)
         })"

section \<open>The reference: the least choice\<close>

text \<open>
  A usable divisor with the generator value and the error it leads to, in exact arithmetic.  Choices are
  ordered by their error, and among equal errors by the divisor.
\<close>

datatype baud_choice = Choice (ch_error: nat) (ch_bauddiv: nat) (ch_baudgen: nat)

instantiation baud_choice :: linorder
begin

definition less_eq_baud_choice :: "baud_choice \<Rightarrow> baud_choice \<Rightarrow> bool" where
  "less_eq_baud_choice a b \<longleftrightarrow>
     ch_error a < ch_error b \<or>
     ch_error a = ch_error b \<and> (ch_bauddiv a < ch_bauddiv b \<or>
       ch_bauddiv a = ch_bauddiv b \<and> ch_baudgen a \<le> ch_baudgen b)"

definition less_baud_choice :: "baud_choice \<Rightarrow> baud_choice \<Rightarrow> bool" where
  "less_baud_choice a b \<longleftrightarrow> a \<le> b \<and> \<not> b \<le> (a :: baud_choice)"

instance
  by standard (auto simp: less_eq_baud_choice_def less_baud_choice_def intro: baud_choice.expand)

end

definition baud_choice :: "nat \<Rightarrow> nat \<Rightarrow> nat \<Rightarrow> baud_choice" where
  "baud_choice clk baud d =
     (let gen = clk div (baud * (d + 1)); actual = clk div (gen * (d + 1))
      in Choice (if actual < baud then baud - actual else actual - baud) d gen)"

definition baud_choices :: "nat \<Rightarrow> nat \<Rightarrow> nat \<Rightarrow> baud_choice set" where
  "baud_choices clk baud n = {baud_choice clk baud d | d. 4 \<le> d \<and> d < n \<and> clk div (baud * (d + 1)) \<noteq> 0}"

definition matches :: "baud_best \<Rightarrow> baud_choice \<Rightarrow> bool" where
  "matches b c \<longleftrightarrow> unat (best_error b) = ch_error c \<and> unat (best_bauddiv b) = ch_bauddiv c \<and>
     unat (best_baudgen b) = ch_baudgen c"

definition best_of :: "nat \<Rightarrow> nat \<Rightarrow> nat \<Rightarrow> baud_best \<Rightarrow> bool" where
  "best_of clk baud n b \<longleftrightarrow>
     (if baud_choices clk baud n = {} then b = \<lparr>best_error = 0xFFFFFFFF, best_baudgen = 0, best_bauddiv = 0\<rparr>
      else matches b (Min (baud_choices clk baud n)))"

lemma choice_sel [simp]: "ch_bauddiv (baud_choice clk baud d) = d"
  "ch_baudgen (baud_choice clk baud d) = clk div (baud * (d + 1))"
  by (simp_all add: baud_choice_def Let_def)

lemma choices_Suc:
  "baud_choices clk baud (Suc n) =
     (if 4 \<le> n \<and> clk div (baud * (n + 1)) \<noteq> 0 then insert (baud_choice clk baud n) else id)
       (baud_choices clk baud n)"
  by (auto simp: baud_choices_def less_Suc_eq)

lemma choices_4 [simp]: "baud_choices clk baud 4 = {}"
  by (auto simp: baud_choices_def)

lemma choices_finite [simp]: "finite (baud_choices clk baud n)"
  by (rule finite_subset [of _ "baud_choice clk baud ` {..<n}"]) (auto simp: baud_choices_def)

lemma choices_before: "c \<in> baud_choices clk baud n \<Longrightarrow> 4 \<le> ch_bauddiv c \<and> ch_bauddiv c < n \<and> ch_baudgen c \<noteq> 0"
  by (auto simp: baud_choices_def)

lemma choice_fits:
  fixes baud :: nat
  assumes "0 < baud"
  shows "clk div (baud * (d + 1)) * (d + 1) \<le> clk"
proof -
  have "clk div (baud * (d + 1)) * (d + 1) \<le> clk div (baud * (d + 1)) * (baud * (d + 1))"
    using assms by (intro mult_le_mono2) (cases baud, simp_all)
  also have "\<dots> \<le> clk" by (rule div_times_less_eq_dividend)
  finally show ?thesis .
qed

lemma later_choice:
  "ch_bauddiv a < ch_bauddiv b \<Longrightarrow> min b a = (if ch_error b < ch_error a then b else a)"
  by (auto simp: min_def less_eq_baud_choice_def)

lemma unat_product:
  fixes x y :: u32
  assumes "unat x * unat y < 2 ^ 32"
  shows "unat (x * y) = unat x * unat y"
  using assms by (simp add: unat_word_ariths)

lemma baud_step_best:
  assumes "best_of (unat clk) (unat baud) d b" and "4 \<le> d" and "d < 255"
    and "baud \<noteq> 0" and "unat baud * 255 < 2 ^ 32"
  shows "\<exists>b'. baud_step clk baud (of_nat d) b = Some b' \<and> best_of (unat clk) (unat baud) (Suc d) b'"
proof -
  let ?c = "baud_choice (unat clk) (unat baud) d"
  let ?S = "baud_choices (unat clk) (unat baud) d"
  have d1: "unat (of_nat d + 1 :: u32) = d + 1" and d0: "unat (of_nat d :: u32) = d"
    using assms(3) by (simp_all add: unat_word_ariths unat_of_nat_small)
  have "unat baud * (d + 1) \<le> unat baud * 255" using assms(3) by (intro mult_le_mono2) simp
  then have "unat baud * unat (of_nat d + 1 :: u32) < 2 ^ 32" using assms(5) unfolding d1 by linarith
  from unat_product [OF this] have prod: "unat (baud * (of_nat d + 1)) = unat baud * (d + 1)"
    by (simp only: d1)
  then have nz: "baud * (of_nat d + 1) \<noteq> 0"
    using assms(4) by (metis unat_0 mult_eq_0_iff unat_eq_zero add_is_0 zero_neq_one)
  define gen where "gen = clk div (baud * (of_nat d + 1))"
  have gen: "unat gen = ch_baudgen ?c"
    by (simp add: gen_def unat_div prod)
  show ?thesis
  proof (cases "gen = 0")
    case True
    then have "unat clk div (unat baud * (d + 1)) = 0" using gen by simp
    then have "baud_choices (unat clk) (unat baud) (Suc d) = ?S"
      by (simp only: choices_Suc) simp
    then show ?thesis
      using True assms(1) nz by (simp add: baud_step_def gen_def [symmetric] best_of_def)
  next
    case False
    then have pos: "ch_baudgen ?c \<noteq> 0" using gen by (metis unat_0_iff)
    have fit: "ch_baudgen ?c * (d + 1) \<le> unat clk"
      using choice_fits [of "unat baud"] assms(4) by (simp add: unat_gt_0)
    then have "ch_baudgen ?c * (d + 1) < 2 ^ 32" using unat_lt32 [of clk] by (simp del: unat_lt32)
    then have prod2: "unat (gen * (of_nat d + 1)) = ch_baudgen ?c * (d + 1)"
      using gen d1 by (subst unat_product) simp_all
    then have nz2: "gen * (of_nat d + 1) \<noteq> 0" using pos by (metis add_is_0 mult_is_0 unat_0 zero_neq_one)
    define actual where "actual = clk div (gen * (of_nat d + 1))"
    define err where "err = (if actual < baud then baud - actual else actual - baud)"
    have actual: "unat actual = unat clk div (ch_baudgen ?c * (d + 1))"
      by (simp only: actual_def unat_div prod2)
    have err: "unat err = ch_error ?c"
      using actual by (auto simp: err_def baud_choice_def Let_def word_less_nat_alt unat_sub_if')
    have "unat actual \<noteq> 0" using fit pos unfolding actual by (auto simp: div_eq_0_iff not_less)
    moreover have "unat baud \<noteq> 0" using assms(4) by (simp add: unat_eq_zero)
    ultimately have low: "ch_error ?c < 4294967295"
      using unat_lt32 [of baud] unat_lt32 [of actual] unfolding err [symmetric] err_def
      by (auto simp: word_less_nat_alt unat_sub_if' simp del: unat_lt32)
    have step: "baud_step clk baud (of_nat d) b = Some (if err < best_error b
        then b\<lparr>best_error := err, best_baudgen := gen, best_bauddiv := of_nat d\<rparr> else b)"
      unfolding baud_step_def Let_def gen_def [symmetric] actual_def [symmetric] err_def [symmetric]
      using nz nz2 False by simp
    have S: "baud_choices (unat clk) (unat baud) (Suc d) = insert ?c ?S"
      using pos assms(2) by (simp add: choices_Suc)
    have hit: "matches (b\<lparr>best_error := err, best_baudgen := gen, best_bauddiv := of_nat d\<rparr>) ?c"
      using gen err d0 by (simp add: matches_def)
    show ?thesis
    proof (cases "?S = {}")
      case True
      then show ?thesis
        using assms(1) hit low step S by (simp add: best_of_def word_less_nat_alt err)
    next
      case ne: False
      then have "ch_bauddiv (Min ?S) < ch_bauddiv ?c"
        using choices_before [OF Min_in] by simp
      then have "Min (insert ?c ?S) = (if ch_error ?c < ch_error (Min ?S) then ?c else Min ?S)"
        using ne by (simp add: later_choice)
      moreover have "matches b (Min ?S)" using assms(1) ne by (simp add: best_of_def)
      then have "err < best_error b \<longleftrightarrow> ch_error ?c < ch_error (Min ?S)"
        by (simp add: matches_def word_less_nat_alt err)
      ultimately show ?thesis
        using step S hit \<open>matches b (Min ?S)\<close> by (simp add: best_of_def)
    qed
  qed
qed

lemma baud_loop_best:
  assumes "best_of (unat clk) (unat baud) d b" and "4 \<le> d" and "d \<le> 255"
    and "baud \<noteq> 0" and "unat baud * 255 < 2 ^ 32"
  shows "\<exists>b'. baud_loop clk baud [d..<255] b = Some b' \<and> best_of (unat clk) (unat baud) 255 b'"
  using assms(1-3)
proof (induction "255 - d" arbitrary: d b)
  case 0
  then show ?case by simp
next
  case (Suc k)
  then have "d < 255" by simp
  then obtain b' where "baud_step clk baud (of_nat d) b = Some b'" "best_of (unat clk) (unat baud) (Suc d) b'"
    using baud_step_best [OF Suc.prems(1,2) _ assms(4,5)] by blast
  then show ?case
    using Suc.hyps(1) [of "Suc d" b'] Suc.hyps(2) Suc.prems \<open>d < 255\<close> by (simp add: upt_conv_Cons)
qed

text \<open>
  For a baud rate below 2^32 / 255 the search never divides by zero and returns the best choice
  exactly: nothing, when no divisor from 4 to 254 is usable; otherwise the smallest of the divisors
  with the least error over the whole range, its generator value and its real rate, accepted
  exactly when the error is at most 5 percent.  The reported error in ppm is right as long as the error is below 4295 Hz.
\<close>

theorem uart_baud_search_optimal:
  assumes "input_clk \<noteq> 0" and "baud \<noteq> 0" and "unat baud * 255 < 2 ^ 32"
  shows "\<exists>r'. uart_baud_search input_clk baud r = Some r' \<and> ub_requested r' = baud \<and>
     (let choices = baud_choices (unat input_clk) (unat baud) 255; best = Min choices in
      if choices = {} then ub_baudgen r' = 0 \<and> \<not> ub_valid r'
      else unat (ub_baudgen r') = ch_baudgen best \<and> unat (ub_bauddiv r') = ch_bauddiv best \<and>
           unat (ub_actual r') = unat input_clk div (ch_baudgen best * (ch_bauddiv best + 1)) \<and>
           (ub_valid r' \<longleftrightarrow> ch_error best * 100 \<le> unat baud * 5) \<and>
           (ch_error best < 4295 \<longrightarrow> unat (ub_error_ppm r') = ch_error best * 1000000 div unat baud))"
proof -
  let ?S = "baud_choices (unat input_clk) (unat baud) 255"
  obtain b where b: "baud_loop input_clk baud [4..<255] \<lparr>best_error = 0xFFFFFFFF, best_baudgen = 0, best_bauddiv = 0\<rparr> = Some b"
    "best_of (unat input_clk) (unat baud) 255 b"
    using baud_loop_best [OF _ _ _ assms(2,3), of input_clk 4] by (auto simp: best_of_def)
  show ?thesis
  proof (cases "?S = {}")
    case True
    then show ?thesis
      using b assms(1,2) by (simp add: uart_baud_search_def best_of_def upt_conv_Cons del: upt_rec_numeral)
  next
    case False
    define m where "m = Min ?S"
    have m: "unat (best_error b) = ch_error m" "unat (best_bauddiv b) = ch_bauddiv m"
      "unat (best_baudgen b) = ch_baudgen m"
      using b(2) False by (simp_all add: best_of_def m_def matches_def)
    have "m \<in> ?S" using False by (simp add: m_def)
    then have small: "ch_bauddiv m < 255" "ch_baudgen m \<noteq> 0" "ch_baudgen m * (ch_bauddiv m + 1) \<le> unat input_clk"
      using choice_fits [of "unat baud" "unat input_clk"] assms(2)
      by (auto simp: baud_choices_def unat_gt_0 simp del: mult_Suc_right)
    have d1: "unat (best_bauddiv b + 1) = ch_bauddiv m + 1"
      using small(1) m(2) by (subst unat_add_small) simp_all
    have "unat (best_baudgen b * (best_bauddiv b + 1)) = ch_baudgen m * (ch_bauddiv m + 1)"
      using small(3) unat_lt32 [of input_clk] m(3) d1
      by (subst unat_product) (simp_all del: unat_lt32 mult_Suc_right)
    then have actual: "unat (input_clk div (best_baudgen b * (best_bauddiv b + 1)))
        = unat input_clk div (ch_baudgen m * (ch_bauddiv m + 1))"
      by (simp only: unat_div)
    have "best_baudgen b \<noteq> 0" using small(2) m(3) by (metis unat_0)
    then have "uart_baud_search input_clk baud r = Some
        (r\<lparr>ub_requested := baud, ub_baudgen := best_baudgen b, ub_bauddiv := best_bauddiv b,
           ub_actual := input_clk div (best_baudgen b * (best_bauddiv b + 1)),
           ub_error_ppm := (best_error b * 1000000) div baud,
           ub_valid := ucast (best_error b) * 100 \<le> (ucast baud :: u64) * UART_MAX_BAUD_ERROR_PERCENT\<rparr>)"
      using b(1) assms(1,2) by (simp add: uart_baud_search_def del: upt_rec_numeral)
    moreover have "ucast (best_error b) * 100 \<le> (ucast baud :: u64) * 5 \<longleftrightarrow> ch_error m * 100 \<le> unat baud * 5"
      using unat_lt32 [of baud] unat_lt32 [of "best_error b"]
      by (simp add: word_le_nat_alt unat_word_ariths m(1) del: unat_lt32)
    moreover have "unat ((best_error b * 1000000) div baud) = ch_error m * 1000000 div unat baud" if "ch_error m < 4295"
      using that m(1) by (simp add: unat_div unat_word_ariths)
    ultimately show ?thesis
      using False m actual by (simp add: m_def [symmetric] Let_def)
  qed
qed

text \<open>
  At 50 MHz and 921600 baud the best choice is off by 4325 Hz, 4692 ppm; the 32-bit product of the
  reported error wraps and the result claims 32 ppm.
\<close>

definition result0 :: uart_baud_result_t where
  "result0 = \<lparr>ub_requested = 0, ub_actual = 0, ub_baudgen = 0, ub_bauddiv = 0, ub_error_ppm = 0, ub_valid = False\<rparr>"

lemma uart_ppm_wraps:
  "uart_baud_search 50000000 921600 result0 =
     Some \<lparr>ub_requested = 921600, ub_actual = 925925, ub_baudgen = 9, ub_bauddiv = 5,
           ub_error_ppm = 32, ub_valid = True\<rparr>"
  by code_simp

lemma uart_baud_search_optimal_witness:
  "\<exists>r'. uart_baud_search 50000000 115200 result0 = Some r' \<and> ub_requested r' = 115200"
  using uart_baud_search_optimal [of 50000000 115200 result0] by auto

end
