(* ===== verification/PlatDevice.thy ===== *)
theory PlatDevice
  imports Prelude
begin

text \<open>
  The device description layer, \<open>arch/arm32/src/plat_device.c\<close>: a static table of
  device nodes, a static table of drivers, and the boot-time pass that lets each active device be
  claimed by the first driver whose probe accepts it.  A \<open>const char *\<close> is an optional string
  and a probe function is a function on the device and the caller's context.
\<close>

section \<open>The tables\<close>

datatype plat_bus_t = PLAT_BUS_NONE | PLAT_BUS_APB | PLAT_BUS_AXI

record plat_prop_t =
  pp_name :: "string option"
  pp_value :: u32

record plat_device_t =
  dev_name :: "string option"
  dev_compatible :: "string option"
  dev_reg_base :: u32
  dev_reg_size :: u32
  dev_irq :: u32
  dev_irq_flags :: u32
  dev_clocks :: "string option"
  dev_props :: "plat_prop_t list option"
  dev_parent :: "string option"
  dev_bus :: plat_bus_t
  dev_enabled :: bool

abbreviation (input) PLAT_PROBE_OK :: u32 where "PLAT_PROBE_OK \<equiv> 0"

type_synonym 'c probe = "plat_device_t \<Rightarrow> 'c \<Rightarrow> u32 \<times> 'c"

record 'c plat_driver_t =
  drv_compatible :: "string option"
  drv_probe :: "'c probe option"
  drv_remove :: "(plat_device_t \<Rightarrow> 'c \<Rightarrow> 'c) option"

record plat_probe_stats_t =
  ps_total :: u32
  ps_disabled :: u32
  ps_probed :: u32
  ps_unclaimed :: u32
  ps_failed :: u32

section \<open>Matching and properties\<close>

fun str_walk :: "string \<Rightarrow> string \<Rightarrow> bool" where
  "str_walk (a # as) (b # bs) = (if a \<noteq> b then False else str_walk as bs)"
| "str_walk as bs = (as = [] \<and> bs = [])"

definition plat_str_eq :: "string option \<Rightarrow> string option \<Rightarrow> bool" where
  "plat_str_eq a b = (case (a, b) of (Some a, Some b) \<Rightarrow> str_walk a b | _ \<Rightarrow> False)"

definition plat_compatible_match :: "string option \<Rightarrow> string option \<Rightarrow> bool" where
  "plat_compatible_match driver_compatible device_compatible =
     (if driver_compatible = None \<or> device_compatible = None then False
      else plat_str_eq driver_compatible device_compatible)"

definition plat_device_is_active :: "plat_device_t option \<Rightarrow> bool" where
  "plat_device_is_active dev =
     (case dev of
        None \<Rightarrow> False
      | Some d \<Rightarrow> if dev_compatible d = None \<or> dev_compatible d = Some [] then False else dev_enabled d)"

fun prop_find :: "plat_prop_t list \<Rightarrow> string option \<Rightarrow> u32 option" where
  "prop_find [] name = None"
| "prop_find (p # ps) name = (if plat_str_eq (pp_name p) name then Some (pp_value p) else prop_find ps name)"

text \<open>The result is the new content of \<open>*out\<close>, and whether the property was found.\<close>

definition plat_prop_get :: "plat_device_t option \<Rightarrow> string option \<Rightarrow> u32 \<Rightarrow> bool \<times> u32" where
  "plat_prop_get dev name out =
     (case dev of
        None \<Rightarrow> (False, out)
      | Some d \<Rightarrow>
          if name = None \<or> dev_props d = None then (False, out)
          else (case prop_find (the (dev_props d)) name of
                  Some v \<Rightarrow> (True, v)
                | None \<Rightarrow> (False, out)))"

definition plat_prop_get_or :: "plat_device_t option \<Rightarrow> string option \<Rightarrow> u32 \<Rightarrow> u32" where
  "plat_prop_get_or dev name default_value = snd (plat_prop_get dev name default_value)"

section \<open>The probe pass\<close>

text \<open>The inner loop returns the flags \<open>claimed\<close> and \<open>any_matched\<close>; a driver slot may be NULL.\<close>

fun driver_loop ::
  "'c plat_driver_t option list \<Rightarrow> plat_device_t \<Rightarrow> bool \<Rightarrow> 'c \<Rightarrow> (bool \<times> bool) \<times> 'c" where
  "driver_loop [] dev any_matched ctx = ((False, any_matched), ctx)"
| "driver_loop (None # ds) dev any_matched ctx = driver_loop ds dev any_matched ctx"
| "driver_loop (Some drv # ds) dev any_matched ctx =
     (if \<not> plat_compatible_match (drv_compatible drv) (dev_compatible dev)
      then driver_loop ds dev any_matched ctx
      else (case drv_probe drv of
              None \<Rightarrow> driver_loop ds dev True ctx
            | Some probe \<Rightarrow>
                let (r, ctx) = probe dev ctx
                in if r = PLAT_PROBE_OK then ((True, True), ctx) else driver_loop ds dev True ctx))"

fun device_loop ::
  "'c plat_driver_t option list \<Rightarrow> plat_device_t list \<Rightarrow> plat_probe_stats_t \<Rightarrow> 'c \<Rightarrow> plat_probe_stats_t \<times> 'c" where
  "device_loop drivers [] l ctx = (l, ctx)"
| "device_loop drivers (dev # devs) l ctx =
     (let l = l\<lparr>ps_total := ps_total l + 1\<rparr>
      in if \<not> plat_device_is_active (Some dev)
         then device_loop drivers devs (l\<lparr>ps_disabled := ps_disabled l + 1\<rparr>) ctx
         else
           let ((claimed, any_matched), ctx) = driver_loop drivers dev False ctx;
               l = (if claimed then l\<lparr>ps_probed := ps_probed l + 1\<rparr>
                    else if any_matched then l\<lparr>ps_failed := ps_failed l + 1\<rparr>
                    else l\<lparr>ps_unclaimed := ps_unclaimed l + 1\<rparr>)
           in device_loop drivers devs l ctx)"

text \<open>The first component is the value stored through \<open>stats\<close> when that pointer is not NULL.\<close>

definition plat_probe_all ::
  "plat_device_t list option \<Rightarrow> 'c plat_driver_t option list option \<Rightarrow> 'c \<Rightarrow> plat_probe_stats_t \<times> 'c" where
  "plat_probe_all devices drivers ctx =
     (let l = \<lparr>ps_total = 0, ps_disabled = 0, ps_probed = 0, ps_unclaimed = 0, ps_failed = 0\<rparr>
      in case (devices, drivers) of
           (Some devs, Some drvs) \<Rightarrow> device_loop drvs devs l ctx
         | _ \<Rightarrow> (l, ctx))"

section \<open>Matching is string equality\<close>

lemma str_walk_eq [simp]: "str_walk a b \<longleftrightarrow> a = b"
  by (induction a b rule: str_walk.induct) auto

lemma plat_str_eq_iff: "plat_str_eq a b \<longleftrightarrow> a \<noteq> None \<and> a = b"
  by (auto simp: plat_str_eq_def split: option.splits)

lemma compatible_match_iff: "plat_compatible_match a b \<longleftrightarrow> a \<noteq> None \<and> a = b"
  by (auto simp: plat_compatible_match_def plat_str_eq_iff)

lemma prop_find_first:
  "prop_find ps (Some name) = map_option pp_value (List.find (\<lambda>p. pp_name p = Some name) ps)"
  by (induction ps) (auto simp: plat_str_eq_iff)

section \<open>The reference: one probe list per device\<close>

text \<open>
  The drivers a device is offered to are the matching ones that have a probe, in table order; it is
  offered to them one after the other until one accepts.
\<close>

datatype probe_outcome = Disabled | Probed | Unclaimed | Failed

definition matching :: "'c plat_driver_t option list \<Rightarrow> plat_device_t \<Rightarrow> 'c plat_driver_t list" where
  "matching drivers dev = [d. Some d \<leftarrow> drivers, drv_compatible d \<noteq> None \<and> drv_compatible d = dev_compatible dev]"

fun offer :: "'c probe list \<Rightarrow> plat_device_t \<Rightarrow> 'c \<Rightarrow> bool \<times> 'c" where
  "offer [] dev ctx = (False, ctx)"
| "offer (p # ps) dev ctx = (let (r, ctx) = p dev ctx in if r = 0 then (True, ctx) else offer ps dev ctx)"

definition outcome :: "'c plat_driver_t option list \<Rightarrow> plat_device_t \<Rightarrow> 'c \<Rightarrow> probe_outcome \<times> 'c" where
  "outcome drivers dev ctx =
     (if \<not> (dev_enabled dev \<and> dev_compatible dev \<noteq> None \<and> dev_compatible dev \<noteq> Some []) then (Disabled, ctx)
      else
        let (ok, ctx) = offer (List.map_filter drv_probe (matching drivers dev)) dev ctx
        in (if ok then Probed else if matching drivers dev = [] then Unclaimed else Failed, ctx))"

fun outcomes :: "'c plat_driver_t option list \<Rightarrow> plat_device_t list \<Rightarrow> 'c \<Rightarrow> probe_outcome list \<times> 'c" where
  "outcomes drivers [] ctx = ([], ctx)"
| "outcomes drivers (d # ds) ctx =
     (let (x, ctx) = outcome drivers d ctx; (xs, ctx) = outcomes drivers ds ctx in (x # xs, ctx))"

lemma matching_simps [simp]:
  "matching [] dev = []"
  "matching (None # ds) dev = matching ds dev"
  "matching (Some d # ds) dev =
     (if plat_compatible_match (drv_compatible d) (dev_compatible dev) then d # matching ds dev else matching ds dev)"
  by (auto simp: matching_def compatible_match_iff)

lemma driver_loop_offer:
  "driver_loop drivers dev any ctx =
     (case offer (List.map_filter drv_probe (matching drivers dev)) dev ctx of
        (ok, ctx) \<Rightarrow> ((ok, ok \<or> any \<or> matching drivers dev \<noteq> []), ctx))"
  by (induction drivers dev any ctx rule: driver_loop.induct)
    (auto simp: List.map_filter_simps Let_def split: option.splits prod.splits)

definition tally :: "probe_outcome list \<Rightarrow> plat_probe_stats_t \<Rightarrow> plat_probe_stats_t" where
  "tally xs l =
     \<lparr>ps_total = ps_total l + of_nat (length xs), ps_disabled = ps_disabled l + of_nat (count_list xs Disabled),
      ps_probed = ps_probed l + of_nat (count_list xs Probed),
      ps_unclaimed = ps_unclaimed l + of_nat (count_list xs Unclaimed),
      ps_failed = ps_failed l + of_nat (count_list xs Failed)\<rparr>"

lemma device_loop_outcomes:
  "device_loop drivers devs l ctx = (case outcomes drivers devs ctx of (xs, ctx) \<Rightarrow> (tally xs l, ctx))"
  by (induction devs arbitrary: l ctx)
    (auto simp: tally_def outcome_def driver_loop_offer plat_device_is_active_def Let_def split: prod.splits if_splits)

lemma outcomes_length: "length (fst (outcomes drivers devs ctx)) = length devs"
proof (induction devs arbitrary: ctx)
  case (Cons d ds)
  show ?case
    by (cases "outcome drivers d ctx", cases "outcomes drivers ds (snd (outcome drivers d ctx))")
      (use Cons.IH [of "snd (outcome drivers d ctx)"] in simp)
qed simp

lemma outcome_counts:
  "count_list xs Disabled + count_list xs Probed + count_list xs Unclaimed + count_list xs Failed = length xs"
proof (induction xs)
  case (Cons x xs)
  then show ?case by (cases x) auto
qed simp

text \<open>
  The boot-time pass gives every device exactly the fate of the reference: inactive nodes
  are never offered; an active node is offered to the matching drivers in table order, with the context
  threaded through, until one accepts; it counts as unclaimed only when no driver matches and as failed
  when all that match decline.  The four counters are the exact numbers of these fates and add up to the number of nodes.
\<close>

theorem plat_probe_exact:
  assumes "length devs < 2 ^ 32"
  shows "case (plat_probe_all (Some devs) (Some drivers) ctx, outcomes drivers devs ctx) of
           ((st, ctx'), (xs, ctx'')) \<Rightarrow>
             ctx' = ctx'' \<and> length xs = length devs \<and>
             unat (ps_total st) = length devs \<and> unat (ps_disabled st) = count_list xs Disabled \<and>
             unat (ps_probed st) = count_list xs Probed \<and> unat (ps_unclaimed st) = count_list xs Unclaimed \<and>
             unat (ps_failed st) = count_list xs Failed \<and>
             unat (ps_disabled st) + unat (ps_probed st) + unat (ps_unclaimed st) + unat (ps_failed st)
               = unat (ps_total st)"
proof -
  obtain xs c where o: "outcomes drivers devs ctx = (xs, c)" by fastforce
  have len: "length xs = length devs"
    using outcomes_length [of drivers devs ctx] o by simp
  have small: "unat (of_nat n :: u32) = n" if "n \<le> length xs" for n
    using that assms len by (intro unat_of_nat_small) simp
  note counts = outcome_counts [of xs]
  have "count_list xs Disabled \<le> length xs" "count_list xs Probed \<le> length xs"
    "count_list xs Unclaimed \<le> length xs" "count_list xs Failed \<le> length xs"
    by (rule count_le_length)+
  then show ?thesis
    using counts len by (simp add: plat_probe_all_def device_loop_outcomes o tally_def small)
qed

text \<open>
  A property lookup returns the value of the first entry of that name and leaves the output
  untouched, hence the default in place, when there is none or a pointer is NULL.
\<close>

theorem plat_prop_lookup:
  "plat_prop_get_or (Some dev) (Some name) default_value =
     (case dev_props dev of
        None \<Rightarrow> default_value
      | Some ps \<Rightarrow>
          (case List.find (\<lambda>p. pp_name p = Some name) ps of
             None \<Rightarrow> default_value
           | Some p \<Rightarrow> pp_value p))"
  by (auto simp: plat_prop_get_or_def plat_prop_get_def prop_find_first split: option.splits)

text \<open>Three nodes and two drivers: the first driver declines the GPIO, the second takes it.\<close>

definition node :: "string \<Rightarrow> bool \<Rightarrow> plat_device_t" where
  "node name on =
     \<lparr>dev_name = None, dev_compatible = Some name, dev_reg_base = 0, dev_reg_size = 0, dev_irq = - 1,
      dev_irq_flags = 0, dev_clocks = None, dev_props = None, dev_parent = None, dev_bus = PLAT_BUS_AXI,
      dev_enabled = on\<rparr>"

definition demo_nodes :: "plat_device_t list" where
  "demo_nodes = [node ''gpio'' True, node ''uart'' True, node ''gpio'' False]"

definition demo_drivers :: "nat plat_driver_t option list" where
  "demo_drivers =
     [Some \<lparr>drv_compatible = Some ''gpio'', drv_probe = Some (\<lambda>d n. (1, n + 1)), drv_remove = None\<rparr>, None,
      Some \<lparr>drv_compatible = Some ''gpio'', drv_probe = Some (\<lambda>d n. (0, n + 10)), drv_remove = None\<rparr>]"

lemma plat_probe_exact_witness:
  "case plat_probe_all (Some demo_nodes) (Some demo_drivers) 0 of
     (st, n) \<Rightarrow> n = 11 \<and> unat (ps_total st) = 3 \<and> unat (ps_disabled st) = 1 \<and> unat (ps_probed st) = 1 \<and>
       unat (ps_unclaimed st) = 1 \<and> unat (ps_failed st) = 0"
proof -
  have "outcomes demo_drivers demo_nodes 0 = ([Probed, Unclaimed, Disabled], 11)"
    by (simp add: demo_drivers_def demo_nodes_def node_def outcome_def plat_compatible_match_def plat_str_eq_def
        List.map_filter_simps)
  with plat_probe_exact [of demo_nodes demo_drivers 0] show ?thesis
    by (auto simp: demo_nodes_def split: prod.splits)
qed

end
