(* ===== verification/IdAlloc.thy ===== *)
theory IdAlloc
  imports Prelude
begin

text \<open>
  The identifier allocator, \<open>kernel/id_alloc.cpp\<close>, which the ARM32 device manager links: a
  bitmap of identifiers, the number of free ones and the place where the next search starts.  The bitmap is a
  function from word indices; the outcome of the two heap allocations of \<open>id_allocator_create\<close> is
  an argument.  A search that never comes back to its start is \<open>None\<close>.
\<close>

section \<open>Operations\<close>

record id_allocator_t =
  ia_bitmap :: "nat \<Rightarrow> u32"
  ia_max_ids :: u32
  ia_free_count :: u32
  ia_next_id :: u32

definition id_allocator_create :: "bool \<Rightarrow> bool \<Rightarrow> u32 \<Rightarrow> id_allocator_t option" where
  "id_allocator_create malloc_ok calloc_ok max_ids =
     (if \<not> malloc_ok then None
      else if \<not> calloc_ok then None
      else Some \<lparr>ia_bitmap = (\<lambda>_. 0), ia_max_ids = max_ids, ia_free_count = max_ids, ia_next_id = 0\<rparr>)"

definition id_mask :: "u32 \<Rightarrow> u32" where
  "id_mask idn = push_bit (unat (idn mod 32)) 1"

partial_function (option) id_scan :: "id_allocator_t \<Rightarrow> u32 \<Rightarrow> u32 \<Rightarrow> (int \<times> id_allocator_t) option" where
  "id_scan a start idn =
     (let word_index = unat (idn div 32); mask = id_mask idn
      in if ia_bitmap a word_index AND mask = 0
         then Some (sint idn, a\<lparr>ia_bitmap := (ia_bitmap a)(word_index := ia_bitmap a word_index OR mask),
                               ia_free_count := ia_free_count a - 1,
                               ia_next_id := (idn + 1) mod ia_max_ids a\<rparr>)
         else
           let idn = (idn + 1) mod ia_max_ids a
           in if idn \<noteq> start then id_scan a start idn else Some (- 1, a))"

definition id_alloc :: "id_allocator_t option \<Rightarrow> (int \<times> id_allocator_t option) option" where
  "id_alloc allocator =
     (case allocator of
        None \<Rightarrow> Some (- 1, None)
      | Some a \<Rightarrow>
          if ia_free_count a = 0 then Some (- 1, Some a)
          else do { (r, a) \<leftarrow> id_scan a (ia_next_id a) (ia_next_id a); Some (r, Some a) })"

definition id_free :: "id_allocator_t option \<Rightarrow> u32 \<Rightarrow> bool \<times> id_allocator_t option" where
  "id_free allocator idn =
     (case allocator of
        None \<Rightarrow> (False, None)
      | Some a \<Rightarrow>
          if ia_max_ids a \<le> idn then (False, Some a)
          else
            let word_index = unat (idn div 32); mask = id_mask idn
            in if ia_bitmap a word_index AND mask \<noteq> 0
               then (True, Some (a\<lparr>ia_bitmap := (ia_bitmap a)(word_index := ia_bitmap a word_index AND NOT mask),
                                   ia_free_count := ia_free_count a + 1\<rparr>))
               else (False, Some a))"

section \<open>The set of identifiers in use\<close>

definition id_used :: "id_allocator_t \<Rightarrow> nat \<Rightarrow> bool" where
  "id_used a i \<longleftrightarrow> bit (ia_bitmap a (i div 32)) (i mod 32)"

definition used_ids :: "id_allocator_t \<Rightarrow> nat set" where
  "used_ids a = {i. i < unat (ia_max_ids a) \<and> id_used a i}"

definition id_inv :: "id_allocator_t \<Rightarrow> bool" where
  "id_inv a \<longleftrightarrow> unat (ia_max_ids a) < 2 ^ 31 \<and> ia_next_id a < ia_max_ids a \<and>
     unat (ia_free_count a) + card (used_ids a) = unat (ia_max_ids a)"

lemma used_finite [simp]: "finite (used_ids a)"
  by (rule finite_subset [of _ "{..<unat (ia_max_ids a)}"]) (auto simp: used_ids_def)

lemma bit_id_mask: "bit (id_mask idn) k \<longleftrightarrow> k = unat idn mod 32"
proof -
  have "unat idn mod 32 < 32" by simp
  then show ?thesis by (auto simp: id_mask_def bit_simps unat_mod)
qed

lemma mask_test: "w AND id_mask idn = 0 \<longleftrightarrow> \<not> bit w (unat idn mod 32)"
  by (simp add: id_mask_def bit_iff_and_push_bit_not_eq_0 unat_mod)

lemma set_used:
  "id_used (a\<lparr>ia_bitmap := (ia_bitmap a)(unat (idn div 32) := ia_bitmap a (unat (idn div 32)) OR id_mask idn),
              ia_free_count := f, ia_next_id := n\<rparr>) i \<longleftrightarrow> i = unat idn \<or> id_used a i"
  by (auto simp: id_used_def bit_simps bit_id_mask unat_div) (metis mod_div_decomp div_mult_mod_eq)

lemma clear_used:
  "id_used (a\<lparr>ia_bitmap := (ia_bitmap a)(unat (idn div 32) := ia_bitmap a (unat (idn div 32)) AND NOT (id_mask idn)),
              ia_free_count := f\<rparr>) i \<longleftrightarrow> i \<noteq> unat idn \<and> id_used a i"
  by (auto simp: id_used_def bit_simps bit_id_mask unat_div) (metis mod_div_decomp div_mult_mod_eq)

definition id_take :: "id_allocator_t \<Rightarrow> u32 \<Rightarrow> id_allocator_t" where
  "id_take a idn = a\<lparr>ia_bitmap := (ia_bitmap a)(unat (idn div 32) := ia_bitmap a (unat (idn div 32)) OR id_mask idn),
                     ia_free_count := ia_free_count a - 1,
                     ia_next_id := (idn + 1) mod ia_max_ids a\<rparr>"

lemma next_word:
  fixes x m :: u32
  assumes "unat x < unat m" and "unat m < 2 ^ 31"
  shows "unat ((x + 1) mod m) = (unat x + 1) mod unat m"
proof -
  have "unat (x + 1) = unat x + 1" using assms by (subst unat_add_small) simp_all
  then show ?thesis by (simp add: unat_mod)
qed

lemma id_scan_finds:
  fixes a M start p
  defines "M \<equiv> unat (ia_max_ids a)"
  assumes "M < 2 ^ 31" and "unat start < M" and "p < M" and "unat idn = (unat start + p) mod M"
    and "\<forall>q<p. id_used a ((unat start + q) mod M)"
  shows "(\<exists>i q. q < M \<and> unat i = (unat start + q) mod M \<and> \<not> id_used a (unat i) \<and>
            (\<forall>q'<q. id_used a ((unat start + q') mod M)) \<and> id_scan a start idn = Some (sint i, id_take a i)) \<or>
         (\<forall>q<M. id_used a ((unat start + q) mod M)) \<and> id_scan a start idn = Some (- 1, a)"
  using assms(4-6)
proof (induction "M - p" arbitrary: p idn rule: less_induct)
  case less
  note unfold = id_scan.simps [of a start idn]
  show ?case
  proof (cases "id_used a (unat idn)")
    case False
    then have "id_scan a start idn = Some (sint idn, id_take a idn)"
      by (subst unfold) (simp add: mask_test id_used_def unat_div id_take_def Let_def)
    then show ?thesis using False less.prems by blast
  next
    case True
    define nxt where "nxt = (idn + 1) mod ia_max_ids a"
    have step: "id_scan a start idn = (if nxt \<noteq> start then id_scan a start nxt else Some (- 1, a))"
      using True by (subst unfold) (simp add: mask_test id_used_def unat_div nxt_def Let_def)
    have idM: "unat idn < M" using less.prems(1,2) by simp
    have nxt: "unat nxt = (unat start + Suc p) mod M"
      using idM assms(2) less.prems(2) unfolding nxt_def M_def
      by (subst next_word) (simp_all add: mod_Suc_eq)
    have all: "\<forall>q<Suc p. id_used a ((unat start + q) mod M)"
      using less.prems(2,3) True by (auto simp: less_Suc_eq)
    show ?thesis
    proof (cases "Suc p = M")
      case True
      then have "nxt = start" using nxt assms(3) by (simp add: word_eq_unat)
      then show ?thesis using step all True by auto
    next
      case False
      then have "Suc p < M" using less.prems(1) by simp
      moreover have "nxt \<noteq> start"
      proof
        assume "nxt = start"
        then have "(unat start + Suc p) mod M = unat start mod M" using nxt assms(3) by simp
        then have "M dvd Suc p" by (metis mod_eq_dvd_iff_nat add_diff_cancel_left' le_add1)
        then show False using \<open>Suc p < M\<close> by (simp add: nat_dvd_not_less)
      qed
      ultimately show ?thesis using less.hyps [of "Suc p" nxt] step nxt all by simp
    qed
  qed
qed

lemma take_used: "id_used (id_take a idn) i \<longleftrightarrow> i = unat idn \<or> id_used a i"
  by (simp add: id_take_def set_used)

lemma take_max [simp]: "ia_max_ids (id_take a idn) = ia_max_ids a"
  by (simp add: id_take_def)

lemma used_take:
  assumes "unat idn < unat (ia_max_ids a)"
  shows "used_ids (id_take a idn) = insert (unat idn) (used_ids a)"
  using assms by (auto simp: used_ids_def take_used)

lemma all_used:
  assumes "start < M" and "\<forall>q<M. id_used a ((start + q) mod M)" and "M = unat (ia_max_ids a)"
  shows "used_ids a = {..<M}"
proof -
  have "id_used a i" if "i < M" for i
  proof -
    have "(start + (i + (M - start)) mod M) mod M = i"
      using assms(1) that by (simp add: mod_add_right_eq)
    then show ?thesis using assms(2) that by (metis mod_less_divisor less_nat_zero_code not_gr_zero)
  qed
  then show ?thesis using assms(3) by (auto simp: used_ids_def)
qed

lemma unat_dec: "(w :: u32) \<noteq> 0 \<Longrightarrow> unat (w - 1) = unat w - 1"
  by (subst unat_sub_le) (auto simp: unat_gt_0 Suc_le_eq)

lemma used_le: "card (used_ids a) \<le> unat (ia_max_ids a)"
  using card_mono [of "{..<unat (ia_max_ids a)}" "used_ids a"] by (auto simp: used_ids_def)

lemma id_take_inv:
  assumes "id_inv a" and "ia_free_count a \<noteq> 0" and "unat i < unat (ia_max_ids a)" and "\<not> id_used a (unat i)"
  shows "id_inv (id_take a i)"
proof -
  have "unat (ia_free_count a) \<noteq> 0" using assms(2) by (simp add: unat_eq_zero)
  moreover have "card (insert (unat i) (used_ids a)) = Suc (card (used_ids a))"
    using assms(4) by (simp add: used_ids_def)
  moreover have "(i + 1) mod ia_max_ids a < ia_max_ids a"
    using assms(3) by (simp add: word_less_nat_alt unat_mod)
  ultimately show ?thesis
    using assms(1) unat_dec [OF assms(2)] used_take [OF assms(3)]
    by (simp add: id_inv_def id_take_def)
qed

lemma id_alloc_spec:
  assumes "id_inv a"
  shows "if used_ids a = {..<unat (ia_max_ids a)} then id_alloc (Some a) = Some (- 1, Some a)
         else \<exists>i. id_alloc (Some a) = Some (int i, Some (id_take a (of_nat i))) \<and>
                  i < unat (ia_max_ids a) \<and> i \<notin> used_ids a \<and> id_inv (id_take a (of_nat i)) \<and>
                  used_ids (id_take a (of_nat i)) = insert i (used_ids a)"
proof (cases "ia_free_count a = 0")
  case True
  then have "card (used_ids a) = unat (ia_max_ids a)" using assms by (simp add: id_inv_def)
  then have "used_ids a = {..<unat (ia_max_ids a)}"
    by (intro card_subset_eq) (auto simp: used_ids_def)
  then show ?thesis using True by (simp add: id_alloc_def)
next
  case False
  define M where "M = unat (ia_max_ids a)"
  have inv: "M < 2 ^ 31" "unat (ia_next_id a) < M" "unat (ia_free_count a) + card (used_ids a) = M"
    using assms by (simp_all add: id_inv_def M_def word_less_nat_alt)
  then have "card (used_ids a) < M" using False by (auto simp: unat_gt_0)
  then have notall: "used_ids a \<noteq> {..<M}" using less_irrefl by fastforce
  have scan: "(\<exists>i q. q < M \<and> unat i = (unat (ia_next_id a) + q) mod M \<and> \<not> id_used a (unat i) \<and>
            (\<forall>q'<q. id_used a ((unat (ia_next_id a) + q') mod M)) \<and>
            id_scan a (ia_next_id a) (ia_next_id a) = Some (sint i, id_take a i)) \<or>
         (\<forall>q<M. id_used a ((unat (ia_next_id a) + q) mod M)) \<and> id_scan a (ia_next_id a) (ia_next_id a) = Some (- 1, a)"
    using id_scan_finds [of a "ia_next_id a" 0 "ia_next_id a"] inv(1,2) unfolding M_def by simp
  have "\<not> (\<forall>q<M. id_used a ((unat (ia_next_id a) + q) mod M))"
    using all_used [OF inv(2) _ M_def] notall by blast
  with scan obtain i q where i: "unat i = (unat (ia_next_id a) + q) mod M" "\<not> id_used a (unat i)"
    "id_scan a (ia_next_id a) (ia_next_id a) = Some (sint i, id_take a i)"
    by blast
  have iM: "unat i < M" using i(1) inv(2) by simp
  have "sint i = int (unat i)"
    by (rule sint_small) (use iM inv(1) in simp)
  then have "id_alloc (Some a) = Some (int (unat i), Some (id_take a (of_nat (unat i))))"
    using i(3) False by (simp add: id_alloc_def)
  moreover have "unat i \<notin> used_ids a" using i(2) by (simp add: used_ids_def)
  moreover have "id_inv (id_take a (of_nat (unat i)))"
    using id_take_inv [OF assms False _ i(2)] iM by (simp add: M_def)
  moreover have "used_ids (id_take a (of_nat (unat i))) = insert (unat i) (used_ids a)"
    using used_take [of i a] iM by (simp add: M_def)
  ultimately have "\<exists>j. id_alloc (Some a) = Some (int j, Some (id_take a (of_nat j))) \<and>
                  j < M \<and> j \<notin> used_ids a \<and> id_inv (id_take a (of_nat j)) \<and>
                  used_ids (id_take a (of_nat j)) = insert j (used_ids a)"
    using iM by (intro exI [of _ "unat i"] conjI)
  then show ?thesis using notall by (simp only: M_def if_False)
qed

definition id_drop :: "id_allocator_t \<Rightarrow> u32 \<Rightarrow> id_allocator_t" where
  "id_drop a idn = a\<lparr>ia_bitmap := (ia_bitmap a)(unat (idn div 32) := ia_bitmap a (unat (idn div 32)) AND NOT (id_mask idn)),
                     ia_free_count := ia_free_count a + 1\<rparr>"

lemma drop_sel [simp]: "ia_max_ids (id_drop a idn) = ia_max_ids a" "ia_next_id (id_drop a idn) = ia_next_id a"
  by (simp_all add: id_drop_def)

lemma used_drop: "used_ids (id_drop a idn) = used_ids a - {unat idn}"
proof -
  have "id_used (id_drop a idn) i \<longleftrightarrow> i \<noteq> unat idn \<and> id_used a i" for i
    unfolding id_drop_def by (rule clear_used)
  then show ?thesis by (auto simp: used_ids_def)
qed

lemma id_drop_inv:
  assumes "id_inv a" and "unat idn \<in> used_ids a"
  shows "id_inv (id_drop a idn)"
proof -
  have "0 < card (used_ids a)" using assms(2) by (auto simp: card_gt_0_iff)
  moreover have "card (used_ids a - {unat idn}) = card (used_ids a) - 1"
    using assms(2) by (simp add: card_Diff_singleton)
  moreover have "unat (ia_free_count (id_drop a idn)) = unat (ia_free_count a) + 1"
    using assms(1) calculation(1) by (simp add: id_drop_def id_inv_def unat_word_ariths)
  ultimately show ?thesis using assms(1) by (simp add: id_inv_def used_drop)
qed

lemma id_free_spec:
  "id_free (Some a) idn = (if unat idn \<in> used_ids a then (True, Some (id_drop a idn)) else (False, Some a))"
  by (auto simp: id_free_def used_ids_def id_used_def mask_test unat_div id_drop_def Let_def not_le word_less_nat_alt
      word_le_nat_alt)

inductive id_reach :: "u32 \<Rightarrow> id_allocator_t \<Rightarrow> bool" for n where
  created: "id_allocator_create True True n = Some a \<Longrightarrow> id_reach n a"
| alloc: "id_reach n a \<Longrightarrow> id_alloc (Some a) = Some (r, Some a') \<Longrightarrow> id_reach n a'"
| freed: "id_reach n a \<Longrightarrow> id_free (Some a) i = (r, Some a') \<Longrightarrow> id_reach n a'"

inductive_simps id_reach_simps: "id_reach n a"

lemma id_create_inv: "0 < n \<Longrightarrow> unat n < 2 ^ 31 \<Longrightarrow> id_allocator_create True True n = Some a \<Longrightarrow> id_inv a"
  by (auto simp: id_allocator_create_def id_inv_def used_ids_def id_used_def)

lemma id_alloc_cases:
  assumes "id_inv a" and "id_alloc (Some a) = Some (r, Some a')"
  shows "id_inv a' \<and> ia_max_ids a' = ia_max_ids a"
  using id_alloc_spec [OF assms(1)] assms by (auto split: if_splits)

lemma id_free_cases:
  assumes "id_inv a" and "id_free (Some a) i = (r, Some a')"
  shows "id_inv a' \<and> ia_max_ids a' = ia_max_ids a"
  using assms id_drop_inv [OF assms(1)] by (auto simp: id_free_spec split: if_splits)

lemma id_reach_inv:
  assumes "id_reach n a" and "0 < n" and "unat n < 2 ^ 31"
  shows "id_inv a \<and> ia_max_ids a = n"
  using assms(1)
proof (induction rule: id_reach.induct)
  case (created a)
  then show ?case using id_create_inv [OF assms(2,3)] by (auto simp: id_allocator_create_def)
qed (use id_alloc_cases id_free_cases in blast)+

text \<open>
  C21. In every allocator reachable from its creation the free count is exact.  \<open>id_alloc\<close>
  always returns: an identifier below the maximum that was not in use and now is, or -1 with the
  allocator unchanged, and -1 only when every identifier is in use.  \<open>id_free\<close> succeeds on exactly the
  identifiers in use, takes the one out and no other, and changes nothing when it fails.
\<close>

theorem id_allocator_exact:
  assumes "id_reach n a" and "0 < n" and "unat n < 2 ^ 31"
  shows "unat (ia_free_count a) + card (used_ids a) = unat n \<and>
    (\<exists>r a'. id_alloc (Some a) = Some (r, Some a') \<and>
       (if used_ids a = {..<unat n} then r = - 1 \<and> a' = a
        else 0 \<le> r \<and> nat r < unat n \<and> nat r \<notin> used_ids a \<and> used_ids a' = insert (nat r) (used_ids a))) \<and>
    (case id_free (Some a) i of
       (ok, a') \<Rightarrow> (ok \<longleftrightarrow> unat i \<in> used_ids a) \<and>
         (if ok then map_option used_ids a' = Some (used_ids a - {unat i}) else a' = Some a))"
proof -
  note inv = id_reach_inv [OF assms]
  have "\<exists>r a'. id_alloc (Some a) = Some (r, Some a') \<and>
       (if used_ids a = {..<unat n} then r = - 1 \<and> a' = a
        else 0 \<le> r \<and> nat r < unat n \<and> nat r \<notin> used_ids a \<and> used_ids a' = insert (nat r) (used_ids a))"
  proof (cases "used_ids a = {..<unat n}")
    case True
    then show ?thesis using id_alloc_spec [of a] inv by simp
  next
    case False
    then obtain j where "id_alloc (Some a) = Some (int j, Some (id_take a (of_nat j)))" "j < unat n" "j \<notin> used_ids a"
      "used_ids (id_take a (of_nat j)) = insert j (used_ids a)"
      using id_alloc_spec [of a] inv by auto
    then show ?thesis using False by (intro exI [of _ "int j"] exI [of _ "id_take a (of_nat j)"]) simp
  qed
  then show ?thesis using inv by (simp add: id_free_spec used_drop id_inv_def)
qed

lemma id_allocator_exact_witness:
  "\<exists>a. id_allocator_create True True 256 = Some a \<and> unat (ia_free_count a) + card (used_ids a) = 256"
proof -
  obtain a where a: "id_allocator_create True True 256 = Some a" by (simp add: id_allocator_create_def)
  show ?thesis
    using id_allocator_exact [OF id_reach.created [OF a], of 0] a by simp
qed

end
