(* ===== verification/BlockDev.thy ===== *)
theory BlockDev
  imports Krlibc Mmu
begin

text \<open>
  The byte-addressed block layer of \<open>arch/arm32/src/device.c\<close>: reads and writes at any byte offset
  over a driver that only moves whole sectors.  The driver's callbacks are functions on memory and
  the driver's own state; memory holds the caller's buffer and the static scratch sector, whose address
  is an argument.  \<open>None\<close> in an intermediate result is the early \<open>return (size_t)-1\<close>.
\<close>

section \<open>The device\<close>

abbreviation (input) DEVICE_TABLE_SIZE :: u32 where "DEVICE_TABLE_SIZE \<equiv> 256"
abbreviation (input) SECTORS_ONCE :: u64 where "SECTORS_ONCE \<equiv> 8"
abbreviation (input) BLK_SCRATCH_BYTES :: u32 where "BLK_SCRATCH_BYTES \<equiv> 4096"

datatype device_flag_t = DEVICE_BLOCK | DEVICE_STREAM | DEVICE_FB

text \<open>
  Arguments of a callback: drive, buffer, number, lba, then memory and driver state.  The callbacks of
  \<open>device_t\<close> that no function of the file calls (vectored transfer, ioctl, poll, map) are left out.
\<close>

type_synonym 'd devf = "u32 \<Rightarrow> u32 \<Rightarrow> u32 \<Rightarrow> u32 \<Rightarrow> bytes \<times> 'd \<Rightarrow> u32 \<times> bytes \<times> 'd"

record 'd device_t =
  d_read :: "'d devf option"
  d_write :: "'d devf option"
  d_flag :: int
  d_size :: u32
  d_sector_size :: u32
  d_type :: device_flag_t
  d_drive_name :: string
  d_vdiskid :: u32
  d_path :: u32
  d_max_size :: u64

record blk_prog =
  b_ptr :: u32
  b_remaining :: u64
  b_total :: u64
  b_sector :: u64

section \<open>Reading\<close>

definition read_head ::
  "'d devf \<Rightarrow> u32 \<Rightarrow> u32 \<Rightarrow> u64 \<Rightarrow> u64 \<Rightarrow> blk_prog \<Rightarrow> bytes \<times> 'd \<Rightarrow> blk_prog option \<times> bytes \<times> 'd" where
  "read_head rd vdiskid scratch sector_size offset_in_block p w =
     (if offset_in_block \<noteq> 0 then
        let h = sector_size - offset_in_block;
            h = (if b_remaining p < h then b_remaining p else h);
            (r, m, d) = rd vdiskid scratch 1 (ucast (b_sector p)) w
        in if r \<noteq> 1 then (None, m, d)
           else
             (Some \<lparr>b_ptr = b_ptr p + ucast h, b_remaining = b_remaining p - h, b_total = b_total p + h,
                    b_sector = b_sector p + 1\<rparr>,
              snd (memcpy (b_ptr p) (scratch + ucast offset_in_block) (ucast h) m), d)
      else (Some p, w))"

definition chunk :: "u64 \<Rightarrow> u64 \<Rightarrow> u64" where
  "chunk sector_size remaining =
     (let secs = remaining div sector_size in if SECTORS_ONCE < secs then SECTORS_ONCE else secs)"

text \<open>The loops over whole sectors of reading and writing differ in the callback only.\<close>

partial_function (option) whole_sectors ::
  "'d devf \<Rightarrow> u32 \<Rightarrow> u64 \<Rightarrow> blk_prog \<Rightarrow> bytes \<times> 'd \<Rightarrow> (blk_prog option \<times> bytes \<times> 'd) option" where
  "whole_sectors f vdiskid sector_size p w =
     (if sector_size \<le> b_remaining p then
        let secs = chunk sector_size (b_remaining p);
            (r, m, d) = f vdiskid (b_ptr p) (ucast secs) (ucast (b_sector p)) w
        in if r \<noteq> ucast secs then Some (None, m, d)
           else whole_sectors f vdiskid sector_size
                  \<lparr>b_ptr = b_ptr p + ucast (secs * sector_size), b_remaining = b_remaining p - secs * sector_size,
                   b_total = b_total p + secs * sector_size, b_sector = b_sector p + secs\<rparr> (m, d)
      else Some (Some p, w))"

definition read_tail ::
  "'d devf \<Rightarrow> u32 \<Rightarrow> u32 \<Rightarrow> blk_prog \<Rightarrow> bytes \<times> 'd \<Rightarrow> u32 \<times> bytes \<times> 'd" where
  "read_tail rd vdiskid scratch p w =
     (if 0 < b_remaining p then
        let (r, m, d) = rd vdiskid scratch 1 (ucast (b_sector p)) w
        in if r \<noteq> 1 then (- 1, m, d)
           else (ucast (b_total p + b_remaining p),
                 snd (memcpy (b_ptr p) scratch (ucast (b_remaining p)) m), d)
      else (ucast (b_total p), w))"

definition read_sectors ::
  "'d devf \<Rightarrow> u32 \<Rightarrow> u32 \<Rightarrow> u32 \<Rightarrow> u32 \<Rightarrow> u32 \<Rightarrow> u32 \<Rightarrow> bytes \<times> 'd \<Rightarrow> (u32 \<times> bytes \<times> 'd) option" where
  "read_sectors rd vdiskid scratch ss buffer offset len w =
     (let sector_size = ucast ss;
          p = \<lparr>b_ptr = buffer, b_remaining = ucast len, b_total = 0, b_sector = ucast offset div sector_size\<rparr>;
          (p, w) = read_head rd vdiskid scratch sector_size (ucast offset mod sector_size) p w
      in case p of
           None \<Rightarrow> Some (- 1, w)
         | Some p \<Rightarrow> do {
             (p, w) \<leftarrow> whole_sectors rd vdiskid sector_size p w;
             Some (case p of None \<Rightarrow> (- 1, w) | Some p \<Rightarrow> read_tail rd vdiskid scratch p w)
           })"

type_synonym 'd dev_table = "nat \<Rightarrow> 'd device_t"

definition have_vdisk :: "int \<Rightarrow> 'd dev_table \<Rightarrow> bool" where
  "have_vdisk drive T =
     (if drive < 0 \<or> unat DEVICE_TABLE_SIZE \<le> nat drive then False else 0 < d_flag (T (nat drive)))"

definition blk_device_read ::
  "u32 \<Rightarrow> int \<Rightarrow> u32 \<Rightarrow> u32 \<Rightarrow> u32 \<Rightarrow> 'd dev_table \<Rightarrow> bytes \<times> 'd \<Rightarrow> (u32 \<times> bytes \<times> 'd) option" where
  "blk_device_read scratch drive buffer offset len T w =
     (if \<not> have_vdisk drive T \<or> len = 0 then Some (0, w)
      else if buffer = 0 then Some (- 1, w)
      else
        let device = T (nat drive)
        in if d_type device = DEVICE_STREAM then
             (case d_read device of
                None \<Rightarrow> Some (- 1, w)
              | Some rd \<Rightarrow> Some (rd (word_of_int drive) buffer len offset w))
           else if d_sector_size device = 0 \<or> BLK_SCRATCH_BYTES < d_sector_size device then Some (- 1, w)
           else
             (case d_read device of
                None \<Rightarrow> Some (- 1, w)
              | Some rd \<Rightarrow>
                  read_sectors rd (d_vdiskid device) scratch (d_sector_size device) buffer offset len w))"

section \<open>Writing\<close>

definition write_head ::
  "'d devf option \<Rightarrow> 'd devf \<Rightarrow> u32 \<Rightarrow> u32 \<Rightarrow> u64 \<Rightarrow> u64 \<Rightarrow> blk_prog \<Rightarrow> bytes \<times> 'd
   \<Rightarrow> blk_prog option \<times> bytes \<times> 'd" where
  "write_head rd wr vdiskid scratch sector_size offset_in_block p w =
     (if offset_in_block \<noteq> 0 then
        let h = sector_size - offset_in_block;
            h = (if b_remaining p < h then b_remaining p else h)
        in (case rd of
              None \<Rightarrow> (None, w)
            | Some rd \<Rightarrow>
                let (r, m, d) = rd vdiskid scratch 1 (ucast (b_sector p)) w
                in if r \<noteq> 1 then (None, m, d)
                   else
                     let m = snd (memcpy (scratch + ucast offset_in_block) (b_ptr p) (ucast h) m);
                         (r, m, d) = wr vdiskid scratch 1 (ucast (b_sector p)) (m, d)
                     in if r \<noteq> 1 then (None, m, d)
                        else (Some \<lparr>b_ptr = b_ptr p + ucast h, b_remaining = b_remaining p - h,
                                    b_total = b_total p + h, b_sector = b_sector p + 1\<rparr>, m, d))
      else (Some p, w))"

definition write_tail ::
  "'d devf option \<Rightarrow> 'd devf \<Rightarrow> u32 \<Rightarrow> u32 \<Rightarrow> blk_prog \<Rightarrow> bytes \<times> 'd \<Rightarrow> u32 \<times> bytes \<times> 'd" where
  "write_tail rd wr vdiskid scratch p w =
     (if 0 < b_remaining p then
        (case rd of
           None \<Rightarrow> (- 1, w)
         | Some rd \<Rightarrow>
             let (r, m, d) = rd vdiskid scratch 1 (ucast (b_sector p)) w
             in if r \<noteq> 1 then (- 1, m, d)
                else
                  let m = snd (memcpy scratch (b_ptr p) (ucast (b_remaining p)) m);
                      (r, m, d) = wr vdiskid scratch 1 (ucast (b_sector p)) (m, d)
                  in if r \<noteq> 1 then (- 1, m, d) else (ucast (b_total p + b_remaining p), m, d))
      else (ucast (b_total p), w))"

definition write_sectors ::
  "'d devf option \<Rightarrow> 'd devf \<Rightarrow> u32 \<Rightarrow> u32 \<Rightarrow> u32 \<Rightarrow> u32 \<Rightarrow> u32 \<Rightarrow> u32 \<Rightarrow> bytes \<times> 'd
   \<Rightarrow> (u32 \<times> bytes \<times> 'd) option" where
  "write_sectors rd wr vdiskid scratch ss buffer offset len w =
     (let sector_size = ucast ss;
          p = \<lparr>b_ptr = buffer, b_remaining = ucast len, b_total = 0, b_sector = ucast offset div sector_size\<rparr>;
          (p, w) = write_head rd wr vdiskid scratch sector_size (ucast offset mod sector_size) p w
      in case p of
           None \<Rightarrow> Some (- 1, w)
         | Some p \<Rightarrow> do {
             (p, w) \<leftarrow> whole_sectors wr vdiskid sector_size p w;
             Some (case p of None \<Rightarrow> (- 1, w) | Some p \<Rightarrow> write_tail rd wr vdiskid scratch p w)
           })"

text \<open>The count of \<open>blk_device_calls\<close> is returned beside the result.\<close>

definition blk_device_write ::
  "u32 \<Rightarrow> 'd device_t \<Rightarrow> u32 \<Rightarrow> u32 \<Rightarrow> u32 \<Rightarrow> u32 \<Rightarrow> bytes \<times> 'd \<Rightarrow> (u32 \<times> u32 \<times> bytes \<times> 'd) option" where
  "blk_device_write scratch device buffer offset len calls w =
     map_option (\<lambda>rw. (calls + 1, rw))
       (if len = 0 then Some (0, w)
        else if buffer = 0 \<or> DEVICE_TABLE_SIZE \<le> d_vdiskid device then Some (- 1, w)
        else if d_type device = DEVICE_STREAM then
          (case d_write device of
             None \<Rightarrow> Some (- 1, w)
           | Some wr \<Rightarrow> Some (wr (d_vdiskid device) buffer len offset w))
        else if d_sector_size device = 0 \<or> BLK_SCRATCH_BYTES < d_sector_size device then Some (- 1, w)
        else
          (case d_write device of
             None \<Rightarrow> Some (- 1, w)
           | Some wr \<Rightarrow>
               write_sectors (d_read device) wr (d_vdiskid device) scratch (d_sector_size device) buffer offset len w))"

definition disk_size :: "int \<Rightarrow> 'd dev_table \<Rightarrow> u32" where
  "disk_size drive T = (if \<not> have_vdisk drive T then 0 else d_size (T (nat drive)))"

definition get_device :: "u32 \<Rightarrow> 'd dev_table \<Rightarrow> nat option" where
  "get_device i T =
     (if DEVICE_TABLE_SIZE \<le> i then None
      else if d_flag (T (unat i)) = 0 then None
      else Some (unat i))"

section \<open>Spans of memory and progress of a transfer\<close>

definition in_span :: "u32 \<Rightarrow> nat \<Rightarrow> u32 \<Rightarrow> bool" where
  "in_span b n x \<longleftrightarrow> unat (x - b) < n"

lemma in_span_iff:
  assumes "unat b + n \<le> 4294967296"
  shows "in_span b n x \<longleftrightarrow> unat b \<le> unat x \<and> unat x < unat b + n"
proof (cases "unat b \<le> unat x")
  case True
  then show ?thesis by (simp add: in_span_def unat_sub_le) linarith
next
  case False
  then have "unat (x - b) = unat x + 4294967296 - unat b"
    by (simp add: unat_sub_if' )
  then show ?thesis using assms False unat_lt32 [of b] by (simp add: in_span_def)
qed

lemma unat_offset: "unat (b :: u32) + i < 4294967296 \<Longrightarrow> unat (b + of_nat i) = unat b + i"
  by (subst unat_add_small) (simp_all add: unat_of_nat_small)

lemma ucast_64_32: "(ucast (x :: u64) :: u32) = of_nat (unat x)"
  by simp

definition blk_geom :: "u32 \<Rightarrow> u32 \<Rightarrow> nat \<Rightarrow> nat \<Rightarrow> nat \<Rightarrow> bool" where
  "blk_geom buf scratch S ofs L \<longleftrightarrow>
     0 < S \<and> S \<le> 4096 \<and> unat buf + L < 4294967296 \<and> unat scratch + 4096 < 4294967296 \<and>
     (unat buf + L \<le> unat scratch \<or> unat scratch + 4096 \<le> unat buf) \<and> ofs + L \<le> 4294967296"

definition blk_at :: "u32 \<Rightarrow> nat \<Rightarrow> nat \<Rightarrow> nat \<Rightarrow> nat \<Rightarrow> blk_prog \<Rightarrow> bool" where
  "blk_at buf S ofs L T p \<longleftrightarrow>
     T \<le> L \<and> b_ptr p = buf + of_nat T \<and> unat (b_remaining p) = L - T \<and> unat (b_total p) = T \<and>
     (T < L \<longrightarrow> unat (b_sector p) * S = ofs + T)"

lemma chunk_bounds:
  assumes "unat ss = S" and "0 < S" and "ss \<le> rem"
  shows "1 \<le> unat (chunk ss rem)" and "unat (chunk ss rem) \<le> 8" and "unat (chunk ss rem) * S \<le> unat rem"
proof -
  have secs: "unat (rem div ss) = unat rem div S" using assms(1) by (simp add: unat_div)
  have "1 \<le> unat rem div S"
    using assms by (simp add: word_le_nat_alt Suc_le_eq div_greater_zero_iff)
  then show "1 \<le> unat (chunk ss rem)" "unat (chunk ss rem) \<le> 8"
    by (auto simp: chunk_def secs Let_def word_less_nat_alt not_less)
  have "unat (chunk ss rem) \<le> unat rem div S"
    by (auto simp: chunk_def secs Let_def word_less_nat_alt)
  then have "unat (chunk ss rem) * S \<le> unat rem div S * S" by (rule mult_le_mono1)
  also have "\<dots> \<le> unat rem" by (rule div_times_less_eq_dividend)
  finally show "unat (chunk ss rem) * S \<le> unat rem" .
qed

lemma blk_step:
  assumes "blk_at buf S ofs L T p" and "L < 4294967296" and "T < L" and "unat (n * ss) = k * S"
    and "unat n = k" and "T + k * S \<le> L" and "ofs + L \<le> 4294967296" and S: "0 < S"
  shows "blk_at buf S ofs L (T + k * S)
           \<lparr>b_ptr = b_ptr p + ucast (n * ss), b_remaining = b_remaining p - n * ss,
            b_total = b_total p + n * ss, b_sector = b_sector p + n\<rparr>"
proof -
  have "unat (b_remaining p - n * ss) = L - (T + k * S)"
    using assms(1,4,6) by (subst unat_sub_le) (simp_all add: blk_at_def)
  moreover have "unat (b_total p + n * ss) = T + k * S"
    using assms(1,2,4,6) by (subst unat_add_small) (simp_all add: blk_at_def)
  moreover have "unat (b_sector p + n) * S = ofs + (T + k * S)" if "T + k * S < L"
  proof -
    have s: "unat (b_sector p) * S = ofs + T" using assms(1,3) by (simp add: blk_at_def)
    have "unat (b_sector p) + k \<le> (unat (b_sector p) + k) * S" using S by simp
    also have "\<dots> = ofs + T + k * S" using s by (simp add: distrib_right)
    also have "\<dots> \<le> 4294967296" using assms(6,7) by simp
    finally have "unat (b_sector p + n) = unat (b_sector p) + k"
      using assms(5) by (subst unat_add_small) simp_all
    then show ?thesis using s by (simp add: distrib_right)
  qed
  moreover have "b_ptr p + ucast (n * ss) = buf + of_nat (T + k * S)"
    using assms(1,4) by (simp add: blk_at_def ucast_64_32 del: of_nat_mult)
  ultimately show ?thesis using assms(6) by (simp add: blk_at_def)
qed

text \<open>
  The loop over whole sectors: \<open>I T m d\<close> holds when \<open>T\<close> bytes are done, \<open>E\<close> after a failed
  callback.  The loop always ends, and leaves less than a sector.
\<close>

lemma whole_sectors_inv:
  assumes geom: "blk_geom buf scratch S ofs L" and S: "unat ss = S"
    and step: "\<And>T k m d. I T m d \<Longrightarrow> T < L \<Longrightarrow> 1 \<le> k \<Longrightarrow> k \<le> 8 \<Longrightarrow> T + k * S \<le> L \<Longrightarrow> S dvd ofs + T \<Longrightarrow>
       (case f vid (buf + of_nat T) (of_nat k) (of_nat ((ofs + T) div S)) (m, d) of
          (r, m', d') \<Rightarrow> if r = of_nat k then I (T + k * S) m' d' else E m' d')"
  shows "blk_at buf S ofs L T p \<Longrightarrow> I T m d \<Longrightarrow>
     (\<exists>po m' d'. whole_sectors f vid ss p (m, d) = Some (po, m', d') \<and>
        (case po of None \<Rightarrow> E m' d'
         | Some p' \<Rightarrow> \<exists>T'. blk_at buf S ofs L T' p' \<and> I T' m' d' \<and> L - T' < S))"
proof (induction "L - T" arbitrary: T p m d rule: less_induct)
  case less
  note unfold = whole_sectors.simps [of f vid ss p "(m, d)"]
  have g: "0 < S" "S \<le> 4096" "L < 4294967296" "ofs + L \<le> 4294967296"
    using geom by (auto simp: blk_geom_def)
  have rem: "unat (b_remaining p) = L - T" "T \<le> L" using less.prems(1) by (auto simp: blk_at_def)
  show ?case
  proof (cases "ss \<le> b_remaining p")
    case False
    then have "whole_sectors f vid ss p (m, d) = Some (Some p, m, d)"
      by (subst unfold) simp
    moreover have "L - T < S" using False rem(1) S by (simp add: word_le_nat_alt)
    ultimately show ?thesis using less.prems by auto
  next
    case True
    define n where "n = chunk ss (b_remaining p)"
    define k where "k = unat n"
    have k: "1 \<le> k" "k \<le> 8" "k * S \<le> L - T"
      using chunk_bounds [OF S g(1) True] rem(1) by (simp_all add: k_def n_def)
    have "1 * 1 \<le> k * S" using k(1) g(1) by (intro mult_le_mono) auto
    then have kL: "T < L" "T + k * S \<le> L" using k(3) rem(2) by linarith+
    have sec: "unat (b_sector p) * S = ofs + T" "b_ptr p = buf + of_nat T"
      using less.prems(1) kL(1) by (auto simp: blk_at_def)
    then have div: "S dvd ofs + T" "unat (b_sector p) = (ofs + T) div S"
      using dvd_triv_right [of S "unat (b_sector p)"] nonzero_mult_div_cancel_right [of S "unat (b_sector p)"] g(1)
      by simp_all
    have args: "ucast n = (of_nat k :: u32)" "ucast (b_sector p) = (of_nat ((ofs + T) div S) :: u32)"
      by (simp_all only: ucast_64_32 k_def div(2))
    have prod: "unat (n * ss) = k * S"
      using k g S by (simp add: unat_word_ariths k_def)
    obtain r m' d' where f: "f vid (buf + of_nat T) (of_nat k) (of_nat ((ofs + T) div S)) (m, d) = (r, m', d')"
      by (metis prod_cases3)
    note S' = step [OF less.prems(2) kL(1) k(1,2) kL(2) div(1), unfolded f prod.case]
    show ?thesis
    proof (cases "r = of_nat k")
      case False
      then have "whole_sectors f vid ss p (m, d) = Some (None, m', d')"
        using True f by (subst unfold) (simp add: n_def [symmetric] args sec(2) Let_def)
      then show ?thesis using S' False by simp
    next
      case same: True
      define p' where "p' = \<lparr>b_ptr = b_ptr p + ucast (n * ss), b_remaining = b_remaining p - n * ss,
            b_total = b_total p + n * ss, b_sector = b_sector p + n\<rparr>"
      have "whole_sectors f vid ss p (m, d) = whole_sectors f vid ss p' (m', d')"
        using True f same by (subst unfold) (simp add: n_def [symmetric] args sec(2) Let_def p'_def)
      moreover have "blk_at buf S ofs L (T + k * S) p'"
        unfolding p'_def by (rule blk_step [OF less.prems(1) g(3) kL(1) prod k_def [symmetric] kL(2) g(4,1)])
      moreover have "L - (T + k * S) < L - T" using \<open>1 * 1 \<le> k * S\<close> kL by linarith
      ultimately show ?thesis
        using less.hyps [of "T + k * S" p' m' d'] S' same by simp
    qed
  qed
qed

section \<open>What is required of a driver\<close>

text \<open>
  A transfer that reports the requested number of sectors has moved all of them; in any case a read touches
  nothing but the given buffer, and a write nothing but the given sectors.
\<close>

definition reads_ok :: "'d devf \<Rightarrow> u32 \<Rightarrow> nat \<Rightarrow> ('d \<Rightarrow> nat \<Rightarrow> u8) \<Rightarrow> bool" where
  "reads_ok rd vid S disk \<longleftrightarrow>
     (\<forall>b n lba m d. case rd vid b n lba (m, d) of (r, m', d') \<Rightarrow>
        disk d' = disk d \<and> (\<forall>x. \<not> in_span b (unat n * S) x \<longrightarrow> m' x = m x) \<and>
        (r = n \<longrightarrow> (\<forall>i<unat n * S. m' (b + of_nat i) = disk d (unat lba * S + i))))"

definition writes_ok :: "'d devf \<Rightarrow> u32 \<Rightarrow> nat \<Rightarrow> ('d \<Rightarrow> nat \<Rightarrow> u8) \<Rightarrow> bool" where
  "writes_ok wr vid S disk \<longleftrightarrow>
     (\<forall>b n lba m d. case wr vid b n lba (m, d) of (r, m', d') \<Rightarrow>
        m' = m \<and> (\<forall>j. \<not> (unat lba * S \<le> j \<and> j < unat lba * S + unat n * S) \<longrightarrow> disk d' j = disk d j) \<and>
        (r = n \<longrightarrow> (\<forall>i<unat n * S. disk d' (unat lba * S + i) = m (b + of_nat i))))"

definition reliable :: "'d devf \<Rightarrow> u32 \<Rightarrow> bool" where
  "reliable f vid \<longleftrightarrow> (\<forall>b n lba m d. unat n \<le> 8 \<longrightarrow> fst (f vid b n lba (m, d)) = n)"

lemma not_reliable: "f vid b n lba (m, d) = (r, w) \<Longrightarrow> r \<noteq> n \<Longrightarrow> unat n \<le> 8 \<Longrightarrow> \<not> reliable f vid"
  unfolding reliable_def by (metis fst_conv)

lemma reads_okD:
  assumes "reads_ok rd vid S disk" and "rd vid b n lba (m, d) = (r, m', d')"
  shows "disk d' = disk d" and "\<not> in_span b (unat n * S) x \<Longrightarrow> m' x = m x"
    and "r = n \<Longrightarrow> i < unat n * S \<Longrightarrow> m' (b + of_nat i) = disk d (unat lba * S + i)"
proof -
  have "case rd vid b n lba (m, d) of (r, m', d') \<Rightarrow>
        disk d' = disk d \<and> (\<forall>x. \<not> in_span b (unat n * S) x \<longrightarrow> m' x = m x) \<and>
        (r = n \<longrightarrow> (\<forall>i<unat n * S. m' (b + of_nat i) = disk d (unat lba * S + i)))"
    using assms(1) [unfolded reads_ok_def, THEN spec [of _ b], THEN spec [of _ n], THEN spec [of _ lba],
      THEN spec [of _ m], THEN spec [of _ d]] .
  then show "disk d' = disk d" "\<not> in_span b (unat n * S) x \<Longrightarrow> m' x = m x"
    "r = n \<Longrightarrow> i < unat n * S \<Longrightarrow> m' (b + of_nat i) = disk d (unat lba * S + i)"
    using assms(2) by auto
qed

lemma writes_okD:
  assumes "writes_ok wr vid S disk" and "wr vid b n lba (m, d) = (r, m', d')"
  shows "m' = m" and "\<not> (unat lba * S \<le> j \<and> j < unat lba * S + unat n * S) \<Longrightarrow> disk d' j = disk d j"
    and "r = n \<Longrightarrow> i < unat n * S \<Longrightarrow> disk d' (unat lba * S + i) = m (b + of_nat i)"
proof -
  have "case wr vid b n lba (m, d) of (r, m', d') \<Rightarrow>
        m' = m \<and> (\<forall>j. \<not> (unat lba * S \<le> j \<and> j < unat lba * S + unat n * S) \<longrightarrow> disk d' j = disk d j) \<and>
        (r = n \<longrightarrow> (\<forall>i<unat n * S. disk d' (unat lba * S + i) = m (b + of_nat i)))"
    using assms(1) [unfolded writes_ok_def, THEN spec [of _ b], THEN spec [of _ n], THEN spec [of _ lba],
      THEN spec [of _ m], THEN spec [of _ d]] .
  then show "m' = m" "\<not> (unat lba * S \<le> j \<and> j < unat lba * S + unat n * S) \<Longrightarrow> disk d' j = disk d j"
    "r = n \<Longrightarrow> i < unat n * S \<Longrightarrow> disk d' (unat lba * S + i) = m (b + of_nat i)"
    using assms(2) by auto
qed

section \<open>Reading delivers the bytes of the disk\<close>

definition rd_err :: "u32 \<Rightarrow> u32 \<Rightarrow> nat \<Rightarrow> bytes \<Rightarrow> (nat \<Rightarrow> u8) \<Rightarrow> ('d \<Rightarrow> nat \<Rightarrow> u8) \<Rightarrow> bytes \<Rightarrow> 'd \<Rightarrow> bool" where
  "rd_err buf scratch L m0 D disk m d \<longleftrightarrow>
     disk d = D \<and> (\<forall>x. \<not> in_span buf L x \<longrightarrow> \<not> in_span scratch 4096 x \<longrightarrow> m x = m0 x)"

definition rd_inv ::
  "u32 \<Rightarrow> u32 \<Rightarrow> nat \<Rightarrow> nat \<Rightarrow> bytes \<Rightarrow> (nat \<Rightarrow> u8) \<Rightarrow> ('d \<Rightarrow> nat \<Rightarrow> u8) \<Rightarrow> nat \<Rightarrow> bytes \<Rightarrow> 'd \<Rightarrow> bool" where
  "rd_inv buf scratch ofs L m0 D disk T m d \<longleftrightarrow>
     rd_err buf scratch L m0 D disk m d \<and> (\<forall>i<T. m (buf + of_nat i) = D (ofs + i))"

lemma sub_span: "unat b + L < 4294967296 \<Longrightarrow> T + k \<le> L \<Longrightarrow> in_span (b + of_nat T) k x \<Longrightarrow> in_span b L x"
  by (subst (asm) in_span_iff) (auto simp: in_span_iff unat_offset)

lemma rd_err_extend:
  assumes "blk_geom buf scratch S ofs L" and "T + k \<le> L" and "rd_err buf scratch L m0 D disk m d"
    and "disk d' = D"
    and "\<And>x. \<not> in_span (buf + of_nat T) k x \<Longrightarrow> \<not> in_span scratch 4096 x \<Longrightarrow> m' x = m x"
  shows "rd_err buf scratch L m0 D disk m' d'"
proof -
  have "unat buf + L < 4294967296" using assms(1) by (simp add: blk_geom_def)
  note sub = sub_span [OF this assms(2)]
  show ?thesis using assms(3-5) sub unfolding rd_err_def by metis
qed

lemma rd_extend:
  assumes geom: "blk_geom buf scratch S ofs L" and "T + k \<le> L" and "rd_inv buf scratch ofs L m0 D disk T m d"
    and "disk d' = D" and new: "\<And>i. i < k \<Longrightarrow> m' (buf + of_nat (T + i)) = D (ofs + (T + i))"
    and frame: "\<And>x. \<not> in_span (buf + of_nat T) k x \<Longrightarrow> \<not> in_span scratch 4096 x \<Longrightarrow> m' x = m x"
  shows "rd_inv buf scratch ofs L m0 D disk (T + k) m' d'"
proof -
  have g: "unat buf + L < 4294967296" "unat scratch + 4096 < 4294967296"
    "unat buf + L \<le> unat scratch \<or> unat scratch + 4096 \<le> unat buf"
    using geom by (auto simp: blk_geom_def)
  have "m' (buf + of_nat i) = D (ofs + i)" if "i < T + k" for i
  proof (cases "i < T")
    case True
    have u: "unat (buf + of_nat i) = unat buf + i" "unat (buf + of_nat T) = unat buf + T"
      using g(1) assms(2) True by (auto intro!: unat_offset)
    then have "\<not> in_span (buf + of_nat T) k (buf + of_nat i)" "\<not> in_span scratch 4096 (buf + of_nat i)"
      using g assms(2) True by (auto simp: in_span_iff)
    then show ?thesis using frame assms(3) True by (simp add: rd_inv_def)
  next
    case False
    then show ?thesis using new [of "i - T"] that by simp
  qed
  moreover have "rd_err buf scratch L m0 D disk m' d'"
    using rd_err_extend [OF geom assms(2), of m0 D disk m d d' m'] assms(3,4) frame by (simp add: rd_inv_def)
  ultimately show ?thesis by (simp add: rd_inv_def)
qed

text \<open>One sector fetched into the scratch buffer and \<open>k\<close> of its bytes copied out.\<close>

lemma bounce_read:
  assumes geom: "blk_geom buf scratch S ofs L" and rd: "reads_ok rd vid S disk"
    and inv: "rd_inv buf scratch ofs L m0 D disk T m d" and k: "0 < k" "T + k \<le> L" "off + k \<le> S"
    and sec: "sec * S + off = ofs + T" and call: "rd vid scratch 1 (of_nat sec) (m, d) = (r, m1, d1)"
  shows "rd_err buf scratch L m0 D disk m1 d1"
    and "r = 1 \<Longrightarrow> rd_inv buf scratch ofs L m0 D disk (T + k)
           (snd (memcpy (buf + of_nat T) (scratch + of_nat off) (of_nat k) m1)) d1"
proof -
  have g: "0 < S" "S \<le> 4096" "unat buf + L < 4294967296" "unat scratch + 4096 < 4294967296" "ofs + L \<le> 4294967296"
    "unat buf + L \<le> unat scratch \<or> unat scratch + 4096 \<le> unat buf"
    using geom by (auto simp: blk_geom_def)
  note R = reads_okD [OF rd call]
  have D: "disk d = D" "disk d1 = D" using inv R(1) by (simp_all add: rd_inv_def rd_err_def)
  have frame1: "m1 x = m x" if "\<not> in_span scratch 4096 x" for x
    using R(2) that g(2) by (auto simp: in_span_def)
  show "rd_err buf scratch L m0 D disk m1 d1"
    using rd_err_extend [OF geom k(2), of m0 D disk m d d1 m1] inv D frame1 by (simp add: rd_inv_def)
  assume "r = 1"
  have "sec \<le> sec * S" using g(1) by simp
  then have "sec < 4294967296" using sec k(1,2) g(5) by linarith
  then have usec: "unat (of_nat sec :: u32) = sec" by (intro unat_of_nat_small) simp
  have uT: "unat (buf + of_nat T) = unat buf + T" "unat (scratch + of_nat off) = unat scratch + off"
    "unat (of_nat k :: u32) = k"
    using g k by (auto intro!: unat_offset unat_of_nat_small)
  have cp: "memcpy (buf + of_nat T) (scratch + of_nat off) (of_nat k) m1 =
      (buf + of_nat T, \<lambda>x. if unat (x - (buf + of_nat T)) < k then m1 (scratch + of_nat off + (x - (buf + of_nat T))) else m1 x)"
    by (subst memcpy_eq) (use uT g k in \<open>auto simp: word_less_nat_alt\<close>)
  show "rd_inv buf scratch ofs L m0 D disk (T + k)
      (snd (memcpy (buf + of_nat T) (scratch + of_nat off) (of_nat k) m1)) d1"
  proof (rule rd_extend [OF geom k(2) inv])
    show "disk d1 = D" by (rule D(2))
  next
    fix i assume i: "i < k"
    have a: "buf + of_nat (T + i) - (buf + of_nat T) = (of_nat i :: u32)" by simp
    have "unat (of_nat i :: u32) = i" using i k g by (intro unat_of_nat_small) simp
    then have "snd (memcpy (buf + of_nat T) (scratch + of_nat off) (of_nat k) m1) (buf + of_nat (T + i))
        = m1 (scratch + of_nat off + of_nat i)"
      using i by (simp only: cp snd_conv a if_True)
    also have "\<dots> = m1 (scratch + of_nat (off + i))" by (simp add: add.assoc)
    also have "\<dots> = disk d (unat (of_nat sec :: u32) * S + (off + i))"
      using i k(3) \<open>r = 1\<close> by (intro R(3)) simp_all
    also have "\<dots> = D (ofs + (T + i))" using sec usec D(1) by (simp add: add.assoc [symmetric])
    finally show "snd (memcpy (buf + of_nat T) (scratch + of_nat off) (of_nat k) m1) (buf + of_nat (T + i))
        = D (ofs + (T + i))" .
  next
    fix x assume "\<not> in_span (buf + of_nat T) k x" "\<not> in_span scratch 4096 x"
    then show "snd (memcpy (buf + of_nat T) (scratch + of_nat off) (of_nat k) m1) x = m x"
      using frame1 by (simp add: cp in_span_def)
  qed
qed

lemma bounce_sector:
  assumes "blk_geom buf scratch S ofs L" and "blk_at buf S ofs L T p" and "T < L"
  shows "ucast (b_sector p) = (of_nat ((ofs + T) div S) :: u32)" and "(ofs + T) div S * S = ofs + T"
    and "b_ptr p = buf + of_nat T"
proof -
  have "unat (b_sector p) * S = ofs + T" "0 < S" "b_ptr p = buf + of_nat T"
    using assms by (auto simp: blk_at_def blk_geom_def)
  moreover from this have "(ofs + T) div S = unat (b_sector p)" by (metis nonzero_mult_div_cancel_right less_not_refl)
  ultimately show "ucast (b_sector p) = (of_nat ((ofs + T) div S) :: u32)" "(ofs + T) div S * S = ofs + T"
    "b_ptr p = buf + of_nat T"
    by (simp_all add: ucast_64_32 del: of_nat_unat)
qed

lemma rd_whole_step:
  assumes geom: "blk_geom buf scratch S ofs L" and rd: "reads_ok rd vid S disk"
    and inv: "rd_inv buf scratch ofs L m0 D disk T m d" and k: "T < L" "1 \<le> k" "k \<le> 8" "T + k * S \<le> L" "S dvd ofs + T"
  shows "case rd vid (buf + of_nat T) (of_nat k) (of_nat ((ofs + T) div S)) (m, d) of
          (r, m', d') \<Rightarrow> if r = of_nat k then rd_inv buf scratch ofs L m0 D disk (T + k * S) m' d'
                          else rd_err buf scratch L m0 D disk m' d' \<and> \<not> reliable rd vid"
proof -
  obtain r m' d' where call: "rd vid (buf + of_nat T) (of_nat k) (of_nat ((ofs + T) div S)) (m, d) = (r, m', d')"
    by (metis prod_cases3)
  have g: "0 < S" "ofs + L \<le> 4294967296" using geom by (auto simp: blk_geom_def)
  have "(ofs + T) div S \<le> ofs + T" by simp
  then have "(ofs + T) div S < 4294967296" using g k(1) by linarith
  then have lba: "unat (of_nat ((ofs + T) div S) :: u32) * S = ofs + T"
    using k(5) by (simp add: unat_of_nat_small)
  have uk: "unat (of_nat k :: u32) = k" using k(3) by (intro unat_of_nat_small) simp
  note R = reads_okD [OF rd call, unfolded uk lba]
  have D: "disk d = D" "disk d' = D" using inv R(1) by (simp_all add: rd_inv_def rd_err_def)
  have "rd_err buf scratch L m0 D disk m' d'"
    using rd_err_extend [OF geom k(4), of m0 D disk m d d' m'] inv D R(2) by (simp add: rd_inv_def)
  moreover have "rd_inv buf scratch ofs L m0 D disk (T + k * S) m' d'" if "r = of_nat k"
  proof (rule rd_extend [OF geom k(4) inv])
    fix i assume "i < k * S"
    then show "m' (buf + of_nat (T + i)) = D (ofs + (T + i))"
      using R(3) [OF that] D(1) by (simp add: add.assoc)
  qed (use D(2) R(2) in auto)
  ultimately show ?thesis using call not_reliable [where f = rd, OF call] uk k(3) by simp
qed

lemma fresh_at:
  assumes "unat ss = S" and "blk_geom buf scratch S ofs L" and "unat offset = ofs" and "unat len = L"
    and "offset mod ss = 0"
  shows "blk_at buf S ofs L 0 \<lparr>b_ptr = buf, b_remaining = len, b_total = 0, b_sector = offset div ss\<rparr>"
  using assms by (auto simp: blk_at_def unat_div unat_mod mod_eq_0_iff_dvd word_eq_unat)

lemma head_length:
  assumes "unat ss = S" and "unat off = ofs mod S" and "unat len = L" and "0 < L" and "0 < S"
  defines "h \<equiv> if len < ss - off then len else ss - off"
  shows "unat h = min L (S - ofs mod S)" and "0 < unat h" and "unat h \<le> L" and "ofs mod S + unat h \<le> S"
proof -
  have m: "ofs mod S < S" using assms(5) by simp
  then have "unat (ss - off) = S - ofs mod S" using assms(1,2) by (subst unat_sub_le) simp_all
  then show h: "unat h = min L (S - ofs mod S)" using assms(3) by (auto simp: h_def word_less_nat_alt)
  then show "0 < unat h" "unat h \<le> L" "ofs mod S + unat h \<le> S" using m assms(4) by auto
qed

lemma head_at:
  assumes geom: "blk_geom buf scratch S ofs L" and h: "unat h = min L (S - ofs mod S)"
    and len: "unat len = L" and sec: "unat sec = ofs div S" and "0 < L"
  shows "blk_at buf S ofs L (unat h)
           \<lparr>b_ptr = buf + ucast h, b_remaining = len - h, b_total = h, b_sector = sec + (1 :: u64)\<rparr>"
proof -
  have g: "0 < S" "ofs + L \<le> 4294967296" using geom by (auto simp: blk_geom_def)
  have "unat (len - h) = L - unat h" using h len by (subst unat_sub_le) simp_all
  moreover have "unat (sec + 1) * S = ofs + unat h" if "unat h < L"
  proof -
    have "ofs div S \<le> ofs" by simp
    then have "ofs div S < 18446744073709551615" using g(2) by linarith
    then have "unat (sec + 1) = ofs div S + 1" using sec by (subst unat_add_small) simp_all
    moreover have "unat h = S - ofs mod S" using that h by simp
    moreover have "ofs div S * S = ofs - ofs mod S" by (simp add: minus_mod_eq_div_mult)
    moreover have "ofs mod S < S" "ofs mod S \<le> ofs" using g(1) by simp_all
    ultimately show ?thesis by (simp add: distrib_right)
  qed
  moreover have "unat h \<le> L" using h by simp
  ultimately show ?thesis by (simp add: blk_at_def ucast_64_32 del: of_nat_unat)
qed

lemma read_head_spec:
  assumes geom: "blk_geom buf scratch S ofs L" and rd: "reads_ok rd vid S disk"
    and inv: "rd_inv buf scratch ofs L m0 D disk 0 m d" and "unat ss = S" and "unat offset = ofs" and "unat len = L" and "0 < L"
  shows "case read_head rd vid scratch ss (offset mod ss)
               \<lparr>b_ptr = buf, b_remaining = len, b_total = 0, b_sector = offset div ss\<rparr> (m, d) of
           (None, m', d') \<Rightarrow> rd_err buf scratch L m0 D disk m' d' \<and> \<not> reliable rd vid
         | (Some p', m', d') \<Rightarrow> \<exists>T. blk_at buf S ofs L T p' \<and> rd_inv buf scratch ofs L m0 D disk T m' d'"
proof (cases "offset mod ss = 0")
  case True
  then show ?thesis
    using fresh_at [OF assms(4) geom assms(5,6) True] inv by (auto simp: read_head_def)
next
  case False
  have g: "0 < S" "ofs + L \<le> 4294967296" using geom by (auto simp: blk_geom_def)
  define h where "h = (if len < ss - offset mod ss then len else ss - offset mod ss)"
  have off: "unat (offset mod ss) = ofs mod S" using assms(4,5) by (simp add: unat_mod)
  note H = head_length [OF assms(4) off assms(6,7) g(1), folded h_def]
  have sec: "unat (offset div ss) = ofs div S" using assms(4,5) by (simp add: unat_div)
  have args: "ucast (offset div ss) = (of_nat (ofs div S) :: u32)" "ucast (offset mod ss) = (of_nat (ofs mod S) :: u32)"
    by (simp_all only: ucast_64_32 sec off)
  obtain r m1 d1 where call: "rd vid scratch 1 (of_nat (ofs div S)) (m, d) = (r, m1, d1)" by (metis prod_cases3)
  have base: "ofs div S * S + ofs mod S = ofs + 0" by simp
  note B = bounce_read [OF geom rd inv H(2) _ H(4) base call]
  show ?thesis
  proof (cases "r = 1")
    case False
    then show ?thesis
      using B(1) H(3) call not_reliable [where f = rd, OF call] \<open>offset mod ss \<noteq> 0\<close>
      by (simp add: read_head_def args h_def [symmetric])
  next
    case True
    have "rd_inv buf scratch ofs L m0 D disk (unat h)
        (snd (memcpy buf (scratch + of_nat (ofs mod S)) (of_nat (unat h)) m1)) d1"
      using B(2) True H(3) by simp
    moreover have "blk_at buf S ofs L (unat h)
        \<lparr>b_ptr = buf + ucast h, b_remaining = len - h, b_total = h, b_sector = offset div ss + 1\<rparr>"
      by (rule head_at [OF geom H(1) assms(6) sec assms(7)])
    moreover have "read_head rd vid scratch ss (offset mod ss)
        \<lparr>b_ptr = buf, b_remaining = len, b_total = 0, b_sector = offset div ss\<rparr> (m, d) =
        (Some \<lparr>b_ptr = buf + ucast h, b_remaining = len - h, b_total = h, b_sector = offset div ss + 1\<rparr>,
         snd (memcpy buf (scratch + of_nat (ofs mod S)) (of_nat (unat h)) m1), d1)"
      using call True \<open>offset mod ss \<noteq> 0\<close> by (simp add: read_head_def Let_def args h_def)
    ultimately show ?thesis by auto
  qed
qed

lemma read_tail_spec:
  assumes geom: "blk_geom buf scratch S ofs L" and rd: "reads_ok rd vid S disk"
    and inv: "rd_inv buf scratch ofs L m0 D disk T m d" and at: "blk_at buf S ofs L T p" and "L - T < S"
  shows "case read_tail rd vid scratch p (m, d) of
           (r, m', d') \<Rightarrow> (r = - 1 \<and> rd_err buf scratch L m0 D disk m' d' \<and> \<not> reliable rd vid) \<or>
                          (r = of_nat L \<and> rd_inv buf scratch ofs L m0 D disk L m' d')"
proof -
  have a: "unat (b_remaining p) = L - T" "unat (b_total p) = T" "T \<le> L" using at by (auto simp: blk_at_def)
  have L: "L < 4294967296" using geom by (auto simp: blk_geom_def)
  show ?thesis
  proof (cases "T = L")
    case True
    then have "b_remaining p = 0" "ucast (b_total p) = (of_nat L :: u32)"
      using a by (simp_all add: unat_eq_zero ucast_64_32 del: of_nat_unat)
    then show ?thesis using inv True by (simp add: read_tail_def)
  next
    case False
    then have TL: "T < L" using a(3) by simp
    note sec = bounce_sector [OF geom at TL]
    have pos: "0 < b_remaining p" using a(1) TL by (simp add: word_less_nat_alt)
    have "unat (b_total p + b_remaining p) = L"
      using a L by (subst unat_add_small) simp_all
    then have args: "ucast (b_total p + b_remaining p) = (of_nat L :: u32)" "ucast (b_remaining p) = (of_nat (L - T) :: u32)"
      using a(1) by (simp_all only: ucast_64_32)
    obtain r m1 d1 where call: "rd vid scratch 1 (of_nat ((ofs + T) div S)) (m, d) = (r, m1, d1)" by (metis prod_cases3)
    have "0 < L - T" "T + (L - T) \<le> L" "0 + (L - T) \<le> S" "(ofs + T) div S * S + 0 = ofs + T"
      using TL assms(5) sec(2) by simp_all
    note B = bounce_read [OF geom rd inv this call]
    show ?thesis
      using B pos call not_reliable [where f = rd, OF call] TL by (auto simp: read_tail_def sec(1,3) args)
  qed
qed

lemma read_sectors_spec:
  assumes geom: "blk_geom buffer scratch (unat ss) (unat offset) (unat len)" and rd: "reads_ok rd vid (unat ss) disk"
    and "len \<noteq> 0"
  shows "\<exists>r m' d'. read_sectors rd vid scratch ss buffer offset len (m, d) = Some (r, m', d') \<and>
           ((r = - 1 \<and> rd_err buffer scratch (unat len) m (disk d) disk m' d' \<and> \<not> reliable rd vid) \<or>
            (r = len \<and> rd_inv buffer scratch (unat offset) (unat len) m (disk d) disk (unat len) m' d'))"
proof -
  let ?L = "unat len" and ?S = "unat ss" and ?O = "unat offset"
  let ?p = "\<lparr>b_ptr = buffer, b_remaining = ucast len, b_total = 0, b_sector = ucast offset div ucast ss\<rparr>"
  have inv0: "rd_inv buffer scratch ?O ?L m (disk d) disk 0 m d" by (simp add: rd_inv_def rd_err_def)
  have pos: "0 < ?L" using assms(3) by (simp add: unat_gt_0)
  obtain po m1 d1 where h: "read_head rd vid scratch (ucast ss) (ucast offset mod ucast ss) ?p (m, d) = (po, m1, d1)"
    by (metis prod_cases3)
  note head = read_head_spec [OF geom rd inv0 _ _ _ pos, where ss = "ucast ss" and offset = "ucast offset" and len = "ucast len",
      unfolded unat_ucast64 h, OF refl refl refl]
  show ?thesis
  proof (cases po)
    case None
    then show ?thesis using head h by (simp add: read_sectors_def Let_def)
  next
    case (Some p1)
    then obtain T where T: "blk_at buffer ?S ?O ?L T p1" "rd_inv buffer scratch ?O ?L m (disk d) disk T m1 d1"
      using head by auto
    obtain po2 m2 d2 where w: "whole_sectors rd vid (ucast ss) p1 (m1, d1) = Some (po2, m2, d2)"
      "case po2 of None \<Rightarrow> rd_err buffer scratch ?L m (disk d) disk m2 d2 \<and> \<not> reliable rd vid
         | Some p' \<Rightarrow> \<exists>T'. blk_at buffer ?S ?O ?L T' p' \<and> rd_inv buffer scratch ?O ?L m (disk d) disk T' m2 d2 \<and> ?L - T' < ?S"
      using whole_sectors_inv [OF geom unat_ucast64, where f = rd and vid = vid and
          I = "rd_inv buffer scratch ?O ?L m (disk d) disk" and E = "\<lambda>m' d'. rd_err buffer scratch ?L m (disk d) disk m' d' \<and> \<not> reliable rd vid",
          OF rd_whole_step [OF geom rd] T] by blast
    have unf: "read_sectors rd vid scratch ss buffer offset len (m, d) =
        Some (case po2 of None \<Rightarrow> (- 1, m2, d2) | Some p \<Rightarrow> read_tail rd vid scratch p (m2, d2))"
      using h w(1) Some by (simp add: read_sectors_def Let_def)
    show ?thesis
    proof (cases po2)
      case None
      then show ?thesis using unf w(2) by simp
    next
      case (Some p2)
      then obtain T' where "blk_at buffer ?S ?O ?L T' p2" "rd_inv buffer scratch ?O ?L m (disk d) disk T' m2 d2" "?L - T' < ?S"
        using w(2) by auto
      then show ?thesis
        using read_tail_spec [OF geom rd, of m "disk d" T' m2 d2 p2] unf Some by (auto split: prod.splits)
    qed
  qed
qed

section \<open>Writing changes the requested bytes and no others\<close>

definition patch :: "(nat \<Rightarrow> u8) \<Rightarrow> nat \<Rightarrow> nat \<Rightarrow> (nat \<Rightarrow> u8) \<Rightarrow> nat \<Rightarrow> u8" where
  "patch D ofs T f = (\<lambda>j. if ofs \<le> j \<and> j < ofs + T then f (j - ofs) else D j)"

definition touched :: "nat \<Rightarrow> nat \<Rightarrow> nat \<Rightarrow> nat \<Rightarrow> bool" where
  "touched S ofs L j \<longleftrightarrow> ofs div S \<le> j div S \<and> j div S \<le> (ofs + L - 1) div S"

definition wr_err ::
  "u32 \<Rightarrow> nat \<Rightarrow> nat \<Rightarrow> nat \<Rightarrow> bytes \<Rightarrow> (nat \<Rightarrow> u8) \<Rightarrow> ('d \<Rightarrow> nat \<Rightarrow> u8) \<Rightarrow> bytes \<Rightarrow> 'd \<Rightarrow> bool" where
  "wr_err scratch S ofs L m0 D disk m d \<longleftrightarrow>
     (\<forall>x. \<not> in_span scratch 4096 x \<longrightarrow> m x = m0 x) \<and> (\<forall>j. \<not> touched S ofs L j \<longrightarrow> disk d j = D j)"

definition wr_inv ::
  "u32 \<Rightarrow> u32 \<Rightarrow> nat \<Rightarrow> bytes \<Rightarrow> (nat \<Rightarrow> u8) \<Rightarrow> ('d \<Rightarrow> nat \<Rightarrow> u8) \<Rightarrow> nat \<Rightarrow> bytes \<Rightarrow> 'd \<Rightarrow> bool" where
  "wr_inv buf scratch ofs m0 D disk T m d \<longleftrightarrow>
     (\<forall>x. \<not> in_span scratch 4096 x \<longrightarrow> m x = m0 x) \<and> disk d = patch D ofs T (\<lambda>i. m0 (buf + of_nat i))"

lemma touched_range: "ofs \<le> j \<Longrightarrow> j < ofs + L \<Longrightarrow> touched S ofs L j"
  unfolding touched_def by (auto intro!: div_le_mono)

lemma wr_err_mono:
  assumes "wr_inv buf scratch ofs m0 D disk T m d" and "T \<le> L"
    and "\<And>x. \<not> in_span scratch 4096 x \<Longrightarrow> m' x = m x"
    and "\<And>j. \<not> touched S ofs L j \<Longrightarrow> disk d' j = disk d j"
  shows "wr_err scratch S ofs L m0 D disk m' d'"
proof -
  have "disk d j = D j" if "\<not> touched S ofs L j" for j
    using assms(1,2) touched_range [of ofs j L S] that by (auto simp: wr_inv_def patch_def)
  then show ?thesis using assms by (simp add: wr_err_def wr_inv_def)
qed

lemma buffer_byte:
  assumes "blk_geom buf scratch S ofs L" and "i < L"
  shows "unat (buf + of_nat i) = unat buf + i" and "\<not> in_span scratch 4096 (buf + of_nat i)"
proof -
  have g: "unat buf + L < 4294967296" "unat scratch + 4096 < 4294967296"
    "unat buf + L \<le> unat scratch \<or> unat scratch + 4096 \<le> unat buf"
    using assms(1) by (auto simp: blk_geom_def)
  show u: "unat (buf + of_nat i) = unat buf + i" using g(1) assms(2) by (intro unat_offset) simp
  show "\<not> in_span scratch 4096 (buf + of_nat i)" using g u assms(2) by (auto simp: in_span_iff)
qed

definition wr_fails :: "'d devf option \<Rightarrow> 'd devf \<Rightarrow> u32 \<Rightarrow> bool" where
  "wr_fails rdo wr vid \<longleftrightarrow> \<not> (reliable wr vid \<and> (\<exists>rd. rdo = Some rd \<and> reliable rd vid))"

lemma wr_whole_step:
  assumes geom: "blk_geom buf scratch S ofs L" and wr: "writes_ok wr vid S disk"
    and inv: "wr_inv buf scratch ofs m0 D disk T m d" and k: "T < L" "1 \<le> k" "k \<le> 8" "T + k * S \<le> L" "S dvd ofs + T"
  shows "case wr vid (buf + of_nat T) (of_nat k) (of_nat ((ofs + T) div S)) (m, d) of
          (r, m', d') \<Rightarrow> if r = of_nat k then wr_inv buf scratch ofs m0 D disk (T + k * S) m' d'
                          else wr_err scratch S ofs L m0 D disk m' d' \<and> wr_fails rdo wr vid"
proof -
  obtain r m' d' where call: "wr vid (buf + of_nat T) (of_nat k) (of_nat ((ofs + T) div S)) (m, d) = (r, m', d')"
    by (metis prod_cases3)
  have g: "0 < S" "ofs + L \<le> 4294967296" using geom by (auto simp: blk_geom_def)
  have "(ofs + T) div S \<le> ofs + T" by simp
  then have "(ofs + T) div S < 4294967296" using g k(1) by linarith
  then have lba: "unat (of_nat ((ofs + T) div S) :: u32) * S = ofs + T"
    using k(5) by (simp add: unat_of_nat_small)
  have uk: "unat (of_nat k :: u32) = k" using k(3) by (intro unat_of_nat_small) simp
  note W = writes_okD [OF wr call, unfolded uk lba]
  have mem: "m x = m0 x" if "\<not> in_span scratch 4096 x" for x
    using inv that by (simp add: wr_inv_def)
  have out: "disk d' j = disk d j" if "\<not> touched S ofs L j" for j
  proof (rule W(2))
    show "\<not> (ofs + T \<le> j \<and> j < ofs + T + k * S)" using touched_range [of ofs j L S] that k(4) by linarith
  qed
  have "wr_err scratch S ofs L m0 D disk m' d'"
    by (rule wr_err_mono [OF inv less_imp_le [OF k(1)]]) (use W(1) out in auto)
  moreover have "disk d' = patch D ofs (T + k * S) (\<lambda>i. m0 (buf + of_nat i))" if "r = of_nat k"
  proof
    fix j
    show "disk d' j = patch D ofs (T + k * S) (\<lambda>i. m0 (buf + of_nat i)) j"
    proof (cases "ofs + T \<le> j \<and> j < ofs + T + k * S")
      case True
      then have i: "j - (ofs + T) < k * S" "T + (j - (ofs + T)) < L" "j - ofs = T + (j - (ofs + T))"
        using k(4) by linarith+
      have "disk d' j = m (buf + of_nat (T + (j - (ofs + T))))"
        using W(3) [OF that i(1)] True by (simp add: add.assoc)
      also have "\<dots> = m0 (buf + of_nat (j - ofs))"
        using mem [OF buffer_byte(2) [OF geom i(2)]] by (simp only: i(3))
      finally show ?thesis using True by (simp add: patch_def)
    next
      case False
      then show ?thesis using W(2) [of j] inv by (auto simp: wr_inv_def patch_def)
    qed
  qed
  ultimately show ?thesis using call not_reliable [where f = wr, OF call] uk k(3) W(1) inv by (simp add: wr_inv_def wr_fails_def)
qed

text \<open>One sector fetched into the scratch buffer, \<open>k\<close> of its bytes replaced, and written back.\<close>

lemma bounce_write:
  assumes geom: "blk_geom buf scratch S ofs L" and rd: "reads_ok rd vid S disk" and wr: "writes_ok wr vid S disk"
    and inv: "wr_inv buf scratch ofs m0 D disk T m d" and k: "0 < k" "T + k \<le> L" "off + k \<le> S"
    and sec: "sec * S + off = ofs + T" and call: "rd vid scratch 1 (of_nat sec) (m, d) = (r, m1, d1)"
  shows "wr_err scratch S ofs L m0 D disk m1 d1"
    and "r = 1 \<Longrightarrow> m2 = snd (memcpy (scratch + of_nat off) (buf + of_nat T) (of_nat k) m1) \<Longrightarrow>
         wr vid scratch 1 (of_nat sec) (m2, d1) = (r', m3, d3) \<Longrightarrow>
         wr_err scratch S ofs L m0 D disk m3 d3 \<and> (r' = 1 \<longrightarrow> wr_inv buf scratch ofs m0 D disk (T + k) m3 d3)"
proof -
  have g: "0 < S" "S \<le> 4096" "unat buf + L < 4294967296" "unat scratch + 4096 < 4294967296" "ofs + L \<le> 4294967296"
    "unat buf + L \<le> unat scratch \<or> unat scratch + 4096 \<le> unat buf"
    using geom by (auto simp: blk_geom_def)
  note R = reads_okD [OF rd call]
  have TL: "T \<le> L" using k(2) by simp
  have frame1: "m1 x = m x" if "\<not> in_span scratch 4096 x" for x
    using R(2) that g(2) by (auto simp: in_span_def)
  show "wr_err scratch S ofs L m0 D disk m1 d1"
    by (rule wr_err_mono [OF inv TL]) (use frame1 R(1) in auto)
  assume r: "r = 1" and m2: "m2 = snd (memcpy (scratch + of_nat off) (buf + of_nat T) (of_nat k) m1)"
    and call2: "wr vid scratch 1 (of_nat sec) (m2, d1) = (r', m3, d3)"
  note W = writes_okD [OF wr call2]
  have "sec \<le> sec * S" using g(1) by simp
  then have "sec < 4294967296" using sec k(1,2) g(5) by linarith
  then have usec: "unat (of_nat sec :: u32) = sec" by (intro unat_of_nat_small) simp
  have uT: "unat (buf + of_nat T) = unat buf + T" "unat (scratch + of_nat off) = unat scratch + off"
    "unat (of_nat k :: u32) = k"
    using g k by (auto intro!: unat_offset unat_of_nat_small)
  have cp: "m2 = (\<lambda>x. if unat (x - (scratch + of_nat off)) < k then m1 (buf + of_nat T + (x - (scratch + of_nat off))) else m1 x)"
    unfolding m2 by (subst memcpy_eq) (use uT g k in \<open>auto simp: word_less_nat_alt\<close>)
  have frame2: "m2 x = m x" if "\<not> in_span scratch 4096 x" for x
  proof -
    have "\<not> in_span (scratch + of_nat off) k x"
      using that sub_span [OF g(4), of off k x] k(3) g(2) by auto
    then show ?thesis using frame1 [OF that] by (simp add: cp in_span_def)
  qed
  have m2: "m2 (scratch + of_nat i) = (if off \<le> i \<and> i < off + k then m0 (buf + of_nat (T + (i - off)))
      else disk d (sec * S + i))" if i: "i < S" for i
  proof -
    have ui: "unat (scratch + of_nat i) = unat scratch + i" using i g by (intro unat_offset) simp
    have span: "unat (scratch + of_nat i - (scratch + of_nat off)) < k \<longleftrightarrow> off \<le> i \<and> i < off + k"
      using in_span_iff [of "scratch + of_nat off" k "scratch + of_nat i"] uT(2) ui g k(3) by (auto simp: in_span_def)
    show ?thesis
    proof (cases "off \<le> i \<and> i < off + k")
      case True
      then have "T + (i - off) < L" using k(2) by linarith
      note b = buffer_byte(2) [OF geom this]
      have "scratch + of_nat i - (scratch + of_nat off) = (of_nat (i - off) :: u32)" using True by (simp add: of_nat_diff)
      then have "m2 (scratch + of_nat i) = m1 (buf + of_nat T + of_nat (i - off))"
        using True span by (simp only: cp simp_thms if_True)
      also have "\<dots> = m1 (buf + of_nat (T + (i - off)))" by (simp add: add.assoc)
      also have "\<dots> = m0 (buf + of_nat (T + (i - off)))"
        using frame1 [OF b] inv b by (simp add: wr_inv_def)
      finally show ?thesis using True by simp
    next
      case False
      then have "m2 (scratch + of_nat i) = m1 (scratch + of_nat i)"
        using span unfolding cp by (simp only: if_False)
      also have "\<dots> = disk d (sec * S + i)" using R(3) [OF r, of i] i usec by simp
      finally show ?thesis using False by (simp only: if_False)
    qed
  qed
  have new: "disk d3 j = patch D ofs (T + k) (\<lambda>i. m0 (buf + of_nat i)) j" if "r' = 1" for j
  proof (cases "sec * S \<le> j \<and> j < sec * S + S")
    case True
    define i where "i = j - sec * S"
    have i: "i < S" "j = sec * S + i" using True by (auto simp: i_def)
    have "disk d3 j = m2 (scratch + of_nat i)" using W(3) [OF that, of i] i usec by simp
    also have "\<dots> = (if off \<le> i \<and> i < off + k then m0 (buf + of_nat (T + (i - off))) else disk d j)"
      using m2 [OF i(1)] i(2) by simp
    also have "\<dots> = patch D ofs (T + k) (\<lambda>i. m0 (buf + of_nat i)) j"
    proof (cases "off \<le> i \<and> i < off + k")
      case True
      then have "ofs \<le> j" "j < ofs + (T + k)" "j - ofs = T + (i - off)" using i(2) sec by simp_all
      then show ?thesis using True by (simp add: patch_def)
    next
      case False
      then have "ofs \<le> j \<and> j < ofs + (T + k) \<longleftrightarrow> ofs \<le> j \<and> j < ofs + T" using i(2) sec by auto
      then show ?thesis using False inv by (auto simp: wr_inv_def patch_def)
    qed
    finally show ?thesis .
  next
    case False
    then have "disk d3 j = disk d j" using W(2) [of j] R(1) usec by auto
    moreover have "ofs \<le> j \<and> j < ofs + (T + k) \<longleftrightarrow> ofs \<le> j \<and> j < ofs + T" using False sec k(3) by auto
    ultimately show ?thesis using inv by (auto simp: wr_inv_def patch_def)
  qed
  have "off < S" using k(1,3) by simp
  then have "(sec * S + off) div S = sec" by simp
  then have secT: "sec = (ofs + T) div S" by (simp only: sec)
  have out: "disk d3 j = disk d j" if "\<not> touched S ofs L j" for j
  proof -
    have "j div S \<noteq> sec"
    proof
      assume "j div S = sec"
      moreover have "ofs div S \<le> sec" "sec \<le> (ofs + L - 1) div S"
        unfolding secT using k(1,2) by (auto intro!: div_le_mono)
      ultimately show False using that by (simp add: touched_def)
    qed
    then have "\<not> (sec * S \<le> j \<and> j < sec * S + S)"
      using div_nat_eqI [of S sec j] by (auto simp: mult.commute)
    then show ?thesis using W(2) [of j] R(1) usec by auto
  qed
  have "wr_err scratch S ofs L m0 D disk m3 d3"
    by (rule wr_err_mono [OF inv TL]) (use frame2 W(1) out in auto)
  moreover have "wr_inv buf scratch ofs m0 D disk (T + k) m3 d3" if "r' = 1"
    using new [OF that] frame2 W(1) inv by (auto simp: wr_inv_def)
  ultimately show "wr_err scratch S ofs L m0 D disk m3 d3 \<and>
      (r' = 1 \<longrightarrow> wr_inv buf scratch ofs m0 D disk (T + k) m3 d3)" by blast
qed

lemma wr_inv_err: "wr_inv buf scratch ofs m0 D disk T m d \<Longrightarrow> T \<le> L \<Longrightarrow> wr_err scratch S ofs L m0 D disk m d"
  by (rule wr_err_mono) auto

lemma write_head_spec:
  assumes geom: "blk_geom buf scratch S ofs L" and rd: "pred_option (\<lambda>rd. reads_ok rd vid S disk) rdo"
    and wr: "writes_ok wr vid S disk"
    and inv: "wr_inv buf scratch ofs m0 D disk 0 m d" and "unat ss = S" and "unat offset = ofs" and "unat len = L" and "0 < L"
  shows "case write_head rdo wr vid scratch ss (offset mod ss)
               \<lparr>b_ptr = buf, b_remaining = len, b_total = 0, b_sector = offset div ss\<rparr> (m, d) of
           (None, m', d') \<Rightarrow> wr_err scratch S ofs L m0 D disk m' d' \<and> wr_fails rdo wr vid
         | (Some p', m', d') \<Rightarrow> \<exists>T. blk_at buf S ofs L T p' \<and> wr_inv buf scratch ofs m0 D disk T m' d'"
proof (cases "offset mod ss = 0")
  case True
  then show ?thesis
    using fresh_at [OF assms(5) geom assms(6,7) True] inv by (auto simp: write_head_def)
next
  case False
  have g: "0 < S" using geom by (auto simp: blk_geom_def)
  define h where "h = (if len < ss - offset mod ss then len else ss - offset mod ss)"
  have off: "unat (offset mod ss) = ofs mod S" using assms(5,6) by (simp add: unat_mod)
  note H = head_length [OF assms(5) off assms(7,8) g(1), folded h_def]
  have sec: "unat (offset div ss) = ofs div S" using assms(5,6) by (simp add: unat_div)
  have args: "ucast (offset div ss) = (of_nat (ofs div S) :: u32)" "ucast (offset mod ss) = (of_nat (ofs mod S) :: u32)"
    "ucast h = (of_nat (unat h) :: u32)"
    by (simp_all only: ucast_64_32 sec off)
  show ?thesis
  proof (cases rdo)
    case None
    then show ?thesis
      using False wr_inv_err [OF inv] by (simp add: write_head_def Let_def wr_fails_def)
  next
    case (Some rd')
    with rd have rd': "reads_ok rd' vid S disk" by simp
    obtain r m1 d1 where call: "rd' vid scratch 1 (of_nat (ofs div S)) (m, d) = (r, m1, d1)" by (metis prod_cases3)
    have base: "ofs div S * S + ofs mod S = ofs + 0" by simp
    note B = bounce_write [OF geom rd' wr inv H(2) _ H(4) base call]
    show ?thesis
    proof (cases "r = 1")
      case False
      then show ?thesis
        using B(1) H(3) call not_reliable [where f = rd', OF call] \<open>offset mod ss \<noteq> 0\<close> Some
        by (simp add: write_head_def Let_def args wr_fails_def)
    next
      case True
      define m2 where "m2 = snd (memcpy (scratch + of_nat (ofs mod S)) buf (of_nat (unat h)) m1)"
      obtain r' m3 d3 where call2: "wr vid scratch 1 (of_nat (ofs div S)) (m2, d1) = (r', m3, d3)" by (metis prod_cases3)
      have B2: "wr_err scratch S ofs L m0 D disk m3 d3" "r' = 1 \<Longrightarrow> wr_inv buf scratch ofs m0 D disk (unat h) m3 d3"
        using B(2) [OF _ True _ call2] H(3) by (simp_all add: m2_def)
      have "write_head rdo wr vid scratch ss (offset mod ss)
          \<lparr>b_ptr = buf, b_remaining = len, b_total = 0, b_sector = offset div ss\<rparr> (m, d) =
          (if r' \<noteq> 1 then (None, m3, d3)
           else (Some \<lparr>b_ptr = buf + ucast h, b_remaining = len - h, b_total = h, b_sector = offset div ss + 1\<rparr>, m3, d3))"
        using call True \<open>offset mod ss \<noteq> 0\<close> Some call2
        by (cases "len < ss - offset mod ss") (simp_all add: write_head_def Let_def args(1,2) h_def m2_def)
      moreover have "blk_at buf S ofs L (unat h)
          \<lparr>b_ptr = buf + ucast h, b_remaining = len - h, b_total = h, b_sector = offset div ss + 1\<rparr>"
        by (rule head_at [OF geom H(1) assms(7) sec assms(8)])
      ultimately show ?thesis using B2 not_reliable [where f = wr, OF call2] by (auto simp: wr_fails_def)
    qed
  qed
qed

lemma write_tail_spec:
  assumes geom: "blk_geom buf scratch S ofs L" and rd: "pred_option (\<lambda>rd. reads_ok rd vid S disk) rdo"
    and wr: "writes_ok wr vid S disk"
    and inv: "wr_inv buf scratch ofs m0 D disk T m d" and at: "blk_at buf S ofs L T p" and "L - T < S"
  shows "case write_tail rdo wr vid scratch p (m, d) of
           (r, m', d') \<Rightarrow> (r = - 1 \<and> wr_err scratch S ofs L m0 D disk m' d' \<and> wr_fails rdo wr vid) \<or>
                          (r = of_nat L \<and> wr_inv buf scratch ofs m0 D disk L m' d')"
proof -
  have a: "unat (b_remaining p) = L - T" "unat (b_total p) = T" "T \<le> L" using at by (auto simp: blk_at_def)
  have L: "L < 4294967296" using geom by (auto simp: blk_geom_def)
  show ?thesis
  proof (cases "T = L")
    case True
    then have "b_remaining p = 0" "ucast (b_total p) = (of_nat L :: u32)"
      using a by (simp_all add: unat_eq_zero ucast_64_32 del: of_nat_unat)
    then show ?thesis using inv True by (simp add: write_tail_def)
  next
    case False
    then have TL: "T < L" using a(3) by simp
    note sec = bounce_sector [OF geom at TL]
    have pos: "0 < b_remaining p" using a(1) TL by (simp add: word_less_nat_alt)
    have "unat (b_total p + b_remaining p) = L"
      using a L by (subst unat_add_small) simp_all
    then have args: "ucast (b_total p + b_remaining p) = (of_nat L :: u32)" "ucast (b_remaining p) = (of_nat (L - T) :: u32)"
      using a(1) by (simp_all only: ucast_64_32)
    show ?thesis
    proof (cases rdo)
      case None
      then show ?thesis using pos wr_inv_err [OF inv a(3)] by (simp add: write_tail_def wr_fails_def)
    next
      case (Some rd')
      with rd have rd': "reads_ok rd' vid S disk" by simp
      obtain r m1 d1 where call: "rd' vid scratch 1 (of_nat ((ofs + T) div S)) (m, d) = (r, m1, d1)" by (metis prod_cases3)
      have "0 < L - T" "T + (L - T) \<le> L" "0 + (L - T) \<le> S" "(ofs + T) div S * S + 0 = ofs + T"
        using TL assms(6) sec(2) by simp_all
      note B = bounce_write [OF geom rd' wr inv this call]
      define m2 where "m2 = snd (memcpy scratch (buf + of_nat T) (of_nat (L - T)) m1)"
      obtain r' m3 d3 where call2: "wr vid scratch 1 (of_nat ((ofs + T) div S)) (m2, d1) = (r', m3, d3)" by (metis prod_cases3)
      show ?thesis
      proof (cases "r = 1")
        case False
        then show ?thesis
          using B(1) pos call not_reliable [where f = rd', OF call] Some by (simp add: write_tail_def sec(1,3) args Let_def wr_fails_def)
      next
        case True
        have "wr_err scratch S ofs L m0 D disk m3 d3" "r' = 1 \<Longrightarrow> wr_inv buf scratch ofs m0 D disk L m3 d3"
          using B(2) [OF True _ call2] TL by (simp_all add: m2_def)
        then show ?thesis
          using pos call Some True call2 not_reliable [where f = wr, OF call2]
          by (simp add: write_tail_def sec(1,3) args Let_def m2_def wr_fails_def)
      qed
    qed
  qed
qed

lemma write_sectors_spec:
  assumes geom: "blk_geom buffer scratch (unat ss) (unat offset) (unat len)"
    and rd: "pred_option (\<lambda>rd. reads_ok rd vid (unat ss) disk) rdo" and wr: "writes_ok wr vid (unat ss) disk"
    and "len \<noteq> 0"
  shows "\<exists>r m' d'. write_sectors rdo wr vid scratch ss buffer offset len (m, d) = Some (r, m', d') \<and>
           ((r = - 1 \<and> wr_err scratch (unat ss) (unat offset) (unat len) m (disk d) disk m' d' \<and> wr_fails rdo wr vid) \<or>
            (r = len \<and> wr_inv buffer scratch (unat offset) m (disk d) disk (unat len) m' d'))"
proof -
  let ?L = "unat len" and ?S = "unat ss" and ?O = "unat offset"
  let ?p = "\<lparr>b_ptr = buffer, b_remaining = ucast len, b_total = 0, b_sector = ucast offset div ucast ss\<rparr>"
  have inv0: "wr_inv buffer scratch ?O m (disk d) disk 0 m d" by (auto simp: wr_inv_def patch_def fun_eq_iff)
  have pos: "0 < ?L" using assms(4) by (simp add: unat_gt_0)
  obtain po m1 d1 where h: "write_head rdo wr vid scratch (ucast ss) (ucast offset mod ucast ss) ?p (m, d) = (po, m1, d1)"
    by (metis prod_cases3)
  note head = write_head_spec [OF geom rd wr inv0 _ _ _ pos, where ss = "ucast ss" and offset = "ucast offset" and len = "ucast len",
      unfolded unat_ucast64 h, OF refl refl refl]
  show ?thesis
  proof (cases po)
    case None
    then show ?thesis using head h by (simp add: write_sectors_def Let_def)
  next
    case (Some p1)
    then obtain T where T: "blk_at buffer ?S ?O ?L T p1" "wr_inv buffer scratch ?O m (disk d) disk T m1 d1"
      using head by auto
    obtain po2 m2 d2 where w: "whole_sectors wr vid (ucast ss) p1 (m1, d1) = Some (po2, m2, d2)"
      "case po2 of None \<Rightarrow> wr_err scratch ?S ?O ?L m (disk d) disk m2 d2 \<and> wr_fails rdo wr vid
         | Some p' \<Rightarrow> \<exists>T'. blk_at buffer ?S ?O ?L T' p' \<and> wr_inv buffer scratch ?O m (disk d) disk T' m2 d2 \<and> ?L - T' < ?S"
      using whole_sectors_inv [OF geom unat_ucast64, where f = wr and vid = vid and
          I = "wr_inv buffer scratch ?O m (disk d) disk" and E = "\<lambda>m' d'. wr_err scratch ?S ?O ?L m (disk d) disk m' d' \<and> wr_fails rdo wr vid",
          OF wr_whole_step [OF geom wr] T] by blast
    have unf: "write_sectors rdo wr vid scratch ss buffer offset len (m, d) =
        Some (case po2 of None \<Rightarrow> (- 1, m2, d2) | Some p \<Rightarrow> write_tail rdo wr vid scratch p (m2, d2))"
      using h w(1) Some by (simp add: write_sectors_def Let_def)
    show ?thesis
    proof (cases po2)
      case None
      then show ?thesis using unf w(2) by simp
    next
      case (Some p2)
      then obtain T' where "blk_at buffer ?S ?O ?L T' p2" "wr_inv buffer scratch ?O m (disk d) disk T' m2 d2" "?L - T' < ?S"
        using w(2) by auto
      then show ?thesis
        using write_tail_spec [OF geom rd wr, of m "disk d" T' m2 d2 p2] unf Some by (auto split: prod.splits)
    qed
  qed
qed

section \<open>The block layer against the disk\<close>

definition blk_ok :: "('d \<Rightarrow> nat \<Rightarrow> u8) \<Rightarrow> 'd device_t \<Rightarrow> bool" where
  "blk_ok disk dev \<longleftrightarrow> d_type dev \<noteq> DEVICE_STREAM \<and> d_sector_size dev \<noteq> 0 \<and> d_sector_size dev \<le> BLK_SCRATCH_BYTES \<and>
     pred_option (\<lambda>rd. reads_ok rd (d_vdiskid dev) (unat (d_sector_size dev)) disk) (d_read dev) \<and>
     pred_option (\<lambda>wr. writes_ok wr (d_vdiskid dev) (unat (d_sector_size dev)) disk) (d_write dev)"

lemma blk_read_spec:
  assumes "have_vdisk drive T" and ok: "blk_ok disk (T (nat drive))" and rd: "d_read (T (nat drive)) = Some rd"
    and "buffer \<noteq> 0" and "len \<noteq> 0"
    and geom: "blk_geom buffer scratch (unat (d_sector_size (T (nat drive)))) (unat offset) (unat len)"
  shows "\<exists>r m' d'. blk_device_read scratch drive buffer offset len T (m, d) = Some (r, m', d') \<and> disk d' = disk d \<and>
     (\<forall>x. \<not> in_span buffer (unat len) x \<longrightarrow> \<not> in_span scratch 4096 x \<longrightarrow> m' x = m x) \<and>
     (r = len \<and> (\<forall>i<unat len. m' (buffer + of_nat i) = disk d (unat offset + i)) \<or>
      r = - 1 \<and> \<not> reliable rd (d_vdiskid (T (nat drive))))"
proof -
  have rok: "reads_ok rd (d_vdiskid (T (nat drive))) (unat (d_sector_size (T (nat drive)))) disk"
    using ok rd by (simp add: blk_ok_def)
  have unf: "blk_device_read scratch drive buffer offset len T (m, d) =
      read_sectors rd (d_vdiskid (T (nat drive))) scratch (d_sector_size (T (nat drive))) buffer offset len (m, d)"
    using assms(1,4,5) ok rd by (simp add: blk_device_read_def blk_ok_def Let_def not_less [symmetric])
  show ?thesis
    using read_sectors_spec [OF geom rok assms(5), of m d] unfolding unf rd_inv_def rd_err_def by blast
qed

lemma blk_write_spec:
  assumes ok: "blk_ok disk dev" and wr: "d_write dev = Some wr" and "d_vdiskid dev < DEVICE_TABLE_SIZE"
    and "buffer \<noteq> 0" and "len \<noteq> 0"
    and geom: "blk_geom buffer scratch (unat (d_sector_size dev)) (unat offset) (unat len)"
  shows "\<exists>r m' d'. blk_device_write scratch dev buffer offset len calls (m, d) = Some (calls + 1, r, m', d') \<and>
     (\<forall>x. \<not> in_span scratch 4096 x \<longrightarrow> m' x = m x) \<and>
     (r = len \<and> disk d' = patch (disk d) (unat offset) (unat len) (\<lambda>i. m (buffer + of_nat i)) \<or>
      r = - 1 \<and> wr_fails (d_read dev) wr (d_vdiskid dev) \<and>
      (\<forall>j. \<not> touched (unat (d_sector_size dev)) (unat offset) (unat len) j \<longrightarrow> disk d' j = disk d j))"
proof -
  have w: "writes_ok wr (d_vdiskid dev) (unat (d_sector_size dev)) disk"
    "pred_option (\<lambda>rd. reads_ok rd (d_vdiskid dev) (unat (d_sector_size dev)) disk) (d_read dev)"
    using ok wr by (simp_all add: blk_ok_def)
  have unf: "blk_device_write scratch dev buffer offset len calls (m, d) = map_option (\<lambda>rw. (calls + 1, rw))
      (write_sectors (d_read dev) wr (d_vdiskid dev) scratch (d_sector_size dev) buffer offset len (m, d))"
    using assms(3-5) ok wr by (simp add: blk_device_write_def blk_ok_def not_le [symmetric])
  obtain r m' d' where "write_sectors (d_read dev) wr (d_vdiskid dev) scratch (d_sector_size dev) buffer offset len (m, d)
      = Some (r, m', d')"
    "(r = - 1 \<and> wr_err scratch (unat (d_sector_size dev)) (unat offset) (unat len) m (disk d) disk m' d' \<and>
        wr_fails (d_read dev) wr (d_vdiskid dev)) \<or>
     (r = len \<and> wr_inv buffer scratch (unat offset) m (disk d) disk (unat len) m' d')"
    using write_sectors_spec [OF geom w(2,1) assms(5), of m d] by blast
  then show ?thesis unfolding unf by (auto simp: wr_err_def wr_inv_def)
qed

text \<open>
  A read of the block layer at any byte offset and length over a driver that moves whole
  sectors returns, delivers exactly the bytes of the disk at that offset when it succeeds, leaves the
  disk as it was and touches no memory but the buffer and the scratch sector; it reports failure only when a driver call failed.
\<close>

theorem blk_read_exact:
  assumes "have_vdisk drive T" and "blk_ok disk (T (nat drive))" and "d_read (T (nat drive)) = Some rd"
    and "buffer \<noteq> 0" and "len \<noteq> 0"
    and "blk_geom buffer scratch (unat (d_sector_size (T (nat drive)))) (unat offset) (unat len)"
  shows "\<exists>r m' d'. blk_device_read scratch drive buffer offset len T (m, d) = Some (r, m', d') \<and> disk d' = disk d \<and>
     (\<forall>x. \<not> in_span buffer (unat len) x \<longrightarrow> \<not> in_span scratch 4096 x \<longrightarrow> m' x = m x) \<and>
     (r = len \<and> (\<forall>i<unat len. m' (buffer + of_nat i) = disk d (unat offset + i)) \<or>
      r = - 1 \<and> \<not> reliable rd (d_vdiskid (T (nat drive))))"
  using blk_read_spec [OF assms] .

text \<open>
  C22. A write of any length at any byte offset, sector-aligned or not, changes exactly the requested
  bytes of the disk: the neighbours in the first and the last sector keep their values.  The caller's memory is
  untouched; a failure is reported only when a driver call failed, and then no sector outside the request has changed.
\<close>

theorem blk_write_exact:
  assumes "blk_ok disk dev" and "d_write dev = Some wr" and "d_vdiskid dev < DEVICE_TABLE_SIZE"
    and "buffer \<noteq> 0" and "len \<noteq> 0"
    and "blk_geom buffer scratch (unat (d_sector_size dev)) (unat offset) (unat len)"
  shows "\<exists>r m' d'. blk_device_write scratch dev buffer offset len calls (m, d) = Some (calls + 1, r, m', d') \<and>
     (\<forall>x. \<not> in_span scratch 4096 x \<longrightarrow> m' x = m x) \<and>
     (r = len \<and> disk d' = patch (disk d) (unat offset) (unat len) (\<lambda>i. m (buffer + of_nat i)) \<or>
      r = - 1 \<and> wr_fails (d_read dev) wr (d_vdiskid dev) \<and>
      (\<forall>j. \<not> touched (unat (d_sector_size dev)) (unat offset) (unat len) j \<longrightarrow> disk d' j = disk d j))"
  using blk_write_spec [OF assms] .

text \<open>
  C23. Data written to a registered disk reads back: on drivers that do not fail, a write followed by a
  read of the same range into another buffer reproduces the bytes, for every offset and length.
\<close>

theorem blk_write_read_roundtrip:
  assumes "have_vdisk drive T" and ok: "blk_ok disk (T (nat drive))" and "d_read (T (nat drive)) = Some rd"
    and "d_write (T (nat drive)) = Some wr" and "d_vdiskid (T (nat drive)) < DEVICE_TABLE_SIZE"
    and "reliable rd (d_vdiskid (T (nat drive)))" and "reliable wr (d_vdiskid (T (nat drive)))"
    and "src \<noteq> 0" and "dest \<noteq> 0" and "len \<noteq> 0"
    and "blk_geom src scratch (unat (d_sector_size (T (nat drive)))) (unat offset) (unat len)"
    and "blk_geom dest scratch (unat (d_sector_size (T (nat drive)))) (unat offset) (unat len)"
  shows "\<exists>m1 d1 m2 d2. blk_device_write scratch (T (nat drive)) src offset len calls (m, d) = Some (calls + 1, len, m1, d1) \<and>
     blk_device_read scratch drive dest offset len T (m1, d1) = Some (len, m2, d2) \<and>
     (\<forall>i<unat len. m2 (dest + of_nat i) = m (src + of_nat i))"
proof -
  have nf: "\<not> wr_fails (d_read (T (nat drive))) wr (d_vdiskid (T (nat drive)))"
    using assms(3,6,7) by (simp add: wr_fails_def)
  obtain m1 d1 where w: "blk_device_write scratch (T (nat drive)) src offset len calls (m, d) = Some (calls + 1, len, m1, d1)"
    "disk d1 = patch (disk d) (unat offset) (unat len) (\<lambda>i. m (src + of_nat i))"
    using blk_write_spec [OF ok assms(4,5,8,10,11), of calls m d] nf by blast
  obtain m2 d2 where r: "blk_device_read scratch drive dest offset len T (m1, d1) = Some (len, m2, d2)"
    "\<forall>i<unat len. m2 (dest + of_nat i) = disk d1 (unat offset + i)"
    using blk_read_spec [OF assms(1) ok assms(3,9,10,12), of m1 d1] assms(6) by blast
  show ?thesis using w r by (auto simp: patch_def)
qed

section \<open>A disk in memory\<close>

definition ram_read :: "(nat \<Rightarrow> u8) devf" where
  "ram_read drive b n lba = (\<lambda>(m, d).
     if unat n \<le> 8 then (n, \<lambda>x. if in_span b (unat n * 512) x then d (unat lba * 512 + unat (x - b)) else m x, d)
     else (0, m, d))"

definition ram_write :: "(nat \<Rightarrow> u8) devf" where
  "ram_write drive b n lba = (\<lambda>(m, d).
     if unat n \<le> 8 then (n, m, \<lambda>j. if unat lba * 512 \<le> j \<and> j < unat lba * 512 + unat n * 512
                                    then m (b + of_nat (j - unat lba * 512)) else d j)
     else (0, m, d))"

definition ram_dev :: "(nat \<Rightarrow> u8) device_t" where
  "ram_dev = \<lparr>d_read = Some ram_read, d_write = Some ram_write, d_flag = 1, d_size = 65536, d_sector_size = 512,
     d_type = DEVICE_BLOCK, d_drive_name = ''ram'', d_vdiskid = 0, d_path = 0, d_max_size = 65536\<rparr>"

lemma ram_reads: "reads_ok ram_read vid 512 (\<lambda>d. d)"
proof -
  have "unat (of_nat i :: u32) = i" if "i < unat n * 512" "unat n \<le> 8" for i and n :: u32
    using that by (intro unat_of_nat_small) simp
  then show ?thesis by (auto simp: reads_ok_def ram_read_def in_span_def)
qed

lemma ram_writes: "writes_ok ram_write vid 512 (\<lambda>d. d)"
  by (auto simp: writes_ok_def ram_write_def)

lemma ram_reliable: "reliable ram_read vid" "reliable ram_write vid"
  by (auto simp: reliable_def ram_read_def ram_write_def)

lemma ram_ok: "blk_ok (\<lambda>d. d) ram_dev"
  by (simp add: blk_ok_def ram_dev_def ram_reads ram_writes)

lemma ram_fields: "d_read ram_dev = Some ram_read" "d_write ram_dev = Some ram_write" "d_vdiskid ram_dev = 0"
  "d_sector_size ram_dev = 512" "have_vdisk 0 (\<lambda>_. ram_dev)"
  by (simp_all add: ram_dev_def have_vdisk_def)

lemma ram_geom: "blk_geom 0x10000 0x20000 512 1000 2000" "blk_geom 0x30000 0x20000 512 1000 2000"
  by (simp_all add: blk_geom_def)

lemma blk_read_exact_witness:
  "\<exists>m' d'. blk_device_read 0x20000 0 0x10000 1000 2000 (\<lambda>_. ram_dev) (\<lambda>_. 0, \<lambda>j. of_nat j) = Some (2000, m', d') \<and>
     m' 0x10000 = 232"
proof -
  obtain r m' d' where "blk_device_read 0x20000 0 0x10000 1000 2000 (\<lambda>_. ram_dev) (\<lambda>_. 0, \<lambda>j. of_nat j) = Some (r, m', d')"
    "r = 2000 \<and> (\<forall>i<unat (2000 :: u32). m' (0x10000 + of_nat i) = of_nat (unat (1000 :: u32) + i)) \<or>
     r = - 1 \<and> \<not> reliable ram_read 0"
    using blk_read_exact [of 0 "\<lambda>_. ram_dev" "\<lambda>d. d" ram_read "0x10000" 2000 "0x20000" 1000 "\<lambda>_. 0" "\<lambda>j. of_nat j"]
    by (simp add: ram_ok ram_fields ram_geom) blast
  then show ?thesis using ram_reliable(1) by (auto dest: spec [of _ 0])
qed

lemma blk_write_exact_witness:
  "\<exists>r m' d'. blk_device_write 0x20000 ram_dev 0x10000 1000 2000 7 (\<lambda>_. 3, \<lambda>_. 0) = Some (8, r, m', d')"
  using blk_write_exact [of "\<lambda>d. d" ram_dev ram_write "0x10000" 2000 "0x20000" 1000 7 "\<lambda>_. 3" "\<lambda>_. 0"]
  by (auto simp: ram_ok ram_fields ram_geom)

lemma blk_write_read_roundtrip_witness:
  "\<exists>m1 d1 m2 d2. blk_device_write 0x20000 ram_dev 0x10000 1000 2000 7 (\<lambda>x. ucast x, \<lambda>_. 0) = Some (8, 2000, m1, d1) \<and>
     blk_device_read 0x20000 0 0x30000 1000 2000 (\<lambda>_. ram_dev) (m1, d1) = Some (2000, m2, d2)"
  using blk_write_read_roundtrip [of 0 "\<lambda>_. ram_dev" "\<lambda>d. d" ram_read ram_write "0x10000" "0x30000" 2000 "0x20000" 1000 7 "\<lambda>x. ucast x" "\<lambda>_. 0"]
  by (auto simp: ram_ok ram_fields ram_reliable ram_geom)

end
