(* ===== verification/Device.thy ===== *)
theory Device
  imports Kmalloc IdAlloc BlockDev
begin

text \<open>
  The device registry of \<open>arch/arm32/src/device.c\<close>: the table of 256 slots, the identifier allocator
  that hands the slots out, and the name each registered device gets in devfs.  The two devfs entry
  points belong to the VFS and are arguments; they may set the \<open>path\<close> of a slot and use the heap.
\<close>

section \<open>Operations\<close>

record ('d, 'g) dev_mgr =
  device_ctl :: "'d dev_table"
  g_dev_allocator :: "id_allocator_t option"
  dm_heap :: "'g kmalloc_t"

text \<open>\<open>devfs_register path id\<close> and \<open>devfs_delete name\<close>, with the error code they return.\<close>

type_synonym ('d, 'g) devfs_reg = "string option \<Rightarrow> nat \<Rightarrow> ('d, 'g) dev_mgr \<Rightarrow> int \<times> ('d, 'g) dev_mgr"
type_synonym ('d, 'g) devfs_del = "string \<Rightarrow> ('d, 'g) dev_mgr \<Rightarrow> ('d, 'g) dev_mgr"

definition device_manager_init :: "bool \<Rightarrow> bool \<Rightarrow> ('d, 'g) dev_mgr \<Rightarrow> int \<times> ('d, 'g) dev_mgr" where
  "device_manager_init malloc_ok calloc_ok st =
     (let st = st\<lparr>device_ctl := fold (\<lambda>i T. T(i := (T i)\<lparr>d_flag := 0, d_path := 0\<rparr>))
                                 [0..<unat DEVICE_TABLE_SIZE] (device_ctl st)\<rparr>;
          st = st\<lparr>g_dev_allocator := id_allocator_create malloc_ok calloc_ok DEVICE_TABLE_SIZE\<rparr>
      in (if g_dev_allocator st = None then - 1 else 0, st))"

definition regist_device ::
  "('d, 'g) devfs_reg \<Rightarrow> string option \<Rightarrow> 'd device_t \<Rightarrow> ('d, 'g) dev_mgr \<Rightarrow> (int \<times> ('d, 'g) dev_mgr) option" where
  "regist_device devfs_register path vd st =
     (if g_dev_allocator st = None then Some (- 1, st)
      else do {
        (i, al) \<leftarrow> id_alloc (g_dev_allocator st);
        let st = st\<lparr>g_dev_allocator := al\<rparr>;
        Some (if i = - 1 then (- 1, st)
              else
                let st = st\<lparr>device_ctl := (device_ctl st)(nat i := vd\<lparr>d_vdiskid := of_int i\<rparr>)\<rparr>;
                    (ret, st) = devfs_register path (nat i) st
                in (i, st))
      })"

definition delete_device :: "('d, 'g) devfs_del \<Rightarrow> int \<Rightarrow> ('d, 'g) dev_mgr \<Rightarrow> ('d, 'g) dev_mgr option" where
  "delete_device devfs_delete vdiskid st =
     (if vdiskid < 0 \<or> unat DEVICE_TABLE_SIZE \<le> nat vdiskid then Some st
      else
        let n = nat vdiskid; dev = device_ctl st n;
            st = (if d_drive_name dev \<noteq> [] then devfs_delete (d_drive_name dev) st else st)
        in do {
          st \<leftarrow> (if d_path (device_ctl st n) \<noteq> 0 then do {
                    km \<leftarrow> Kmalloc.free (dm_heap st) (d_path (device_ctl st n));
                    Some (st\<lparr>dm_heap := km, device_ctl := (device_ctl st)(n := (device_ctl st n)\<lparr>d_path := 0\<rparr>)\<rparr>)
                  } else Some st);
          let st = st\<lparr>device_ctl := (device_ctl st)(n := (device_ctl st n)\<lparr>d_flag := 0, d_vdiskid := 0\<rparr>)\<rparr>;
          Some (if g_dev_allocator st \<noteq> None
                then st\<lparr>g_dev_allocator := snd (id_free (g_dev_allocator st) (of_int vdiskid))\<rparr> else st)
        })"

section \<open>The life of a slot\<close>

text \<open>What is used of devfs: it sets at most the \<open>path\<close> of the slot it registers.\<close>

definition reg_ok :: "('d, 'g) devfs_reg \<Rightarrow> bool" where
  "reg_ok reg \<longleftrightarrow> (\<forall>p i st. g_dev_allocator (snd (reg p i st)) = g_dev_allocator st \<and>
     (\<exists>q. device_ctl (snd (reg p i st)) = (device_ctl st)(i := (device_ctl st i)\<lparr>d_path := q\<rparr>)))"

definition del_ok :: "('d, 'g) devfs_del \<Rightarrow> bool" where
  "del_ok del \<longleftrightarrow> (\<forall>n st. g_dev_allocator (del n st) = g_dev_allocator st \<and> device_ctl (del n st) = device_ctl st)"

definition slots_inv :: "('d, 'g) dev_mgr \<Rightarrow> bool" where
  "slots_inv st \<longleftrightarrow> (\<exists>a. g_dev_allocator st = Some a \<and> id_inv a \<and> ia_max_ids a = 256 \<and>
     (\<forall>i<256. d_flag (device_ctl st i) \<noteq> 0 \<longrightarrow> i \<in> used_ids a \<and> d_vdiskid (device_ctl st i) = of_nat i))"

definition same_slot :: "'d device_t \<Rightarrow> 'd device_t \<Rightarrow> bool" where
  "same_slot x y \<longleftrightarrow> (\<exists>q. x = y\<lparr>d_path := q\<rparr>)"

lemma same_slot_refl [simp]: "same_slot x x"
  unfolding same_slot_def by (rule exI [of _ "d_path x"]) simp

lemma same_slot_fields: "same_slot x y \<Longrightarrow> d_flag x = d_flag y \<and> d_vdiskid x = d_vdiskid y"
  by (auto simp: same_slot_def)

text \<open>A history of the registry; \<open>U\<close> is the set of numbers that have been handed out and not deleted since.\<close>

inductive mgr_hist :: "nat set \<Rightarrow> ('d, 'g) dev_mgr \<Rightarrow> bool" where
  start: "device_manager_init True True st0 = (r, st) \<Longrightarrow> mgr_hist {} st"
| reg: "mgr_hist U st \<Longrightarrow> reg_ok reg \<Longrightarrow> regist_device reg p vd st = Some (r, st') \<Longrightarrow>
    mgr_hist (if r = - 1 then U else insert (nat r) U) st'"
| del: "mgr_hist U st \<Longrightarrow> del_ok del \<Longrightarrow> delete_device del i st = Some st' \<Longrightarrow>
    mgr_hist (if 0 \<le> i then U - {nat i} else U) st'"

lemma regist_spec:
  assumes inv: "slots_inv st" and reg: "reg_ok reg"
  shows "\<exists>r st'. regist_device reg p vd st = Some (r, st') \<and> slots_inv st' \<and>
     (r = - 1 \<and> st' = st \<and> used_ids (the (g_dev_allocator st)) = {..<256} \<or>
      (\<exists>i<256. r = int i \<and> i \<notin> used_ids (the (g_dev_allocator st)) \<and>
         used_ids (the (g_dev_allocator st')) = insert i (used_ids (the (g_dev_allocator st))) \<and>
         same_slot (device_ctl st' i) (vd\<lparr>d_vdiskid := of_nat i\<rparr>) \<and>
         (\<forall>j. j \<noteq> i \<longrightarrow> device_ctl st' j = device_ctl st j)))"
proof -
  obtain a where a: "g_dev_allocator st = Some a" "id_inv a" "ia_max_ids a = 256"
    "\<And>i. i < 256 \<Longrightarrow> d_flag (device_ctl st i) \<noteq> 0 \<Longrightarrow> i \<in> used_ids a \<and> d_vdiskid (device_ctl st i) = of_nat i"
    using inv by (auto simp: slots_inv_def)
  note S = id_alloc_spec [OF a(2)]
  show ?thesis
  proof (cases "used_ids a = {..<256}")
    case True
    then have "regist_device reg p vd st = Some (- 1, st)"
      using S a(1,3) by (simp add: regist_device_def)
    then show ?thesis using inv True a(1) by simp
  next
    case False
    then obtain i where i: "id_alloc (Some a) = Some (int i, Some (id_take a (of_nat i)))" "i < 256" "i \<notin> used_ids a"
      "id_inv (id_take a (of_nat i))" "used_ids (id_take a (of_nat i)) = insert i (used_ids a)"
      using S a(3) by auto
    define st1 where "st1 = st\<lparr>g_dev_allocator := Some (id_take a (of_nat i)),
        device_ctl := (device_ctl st)(i := vd\<lparr>d_vdiskid := of_nat i\<rparr>)\<rparr>"
    obtain e st2 where e: "reg p i st1 = (e, st2)" by (cases "reg p i st1")
    obtain q where q: "device_ctl st2 = (device_ctl st1)(i := (device_ctl st1 i)\<lparr>d_path := q\<rparr>)"
      "g_dev_allocator st2 = g_dev_allocator st1"
      using reg [unfolded reg_ok_def, THEN spec [of _ p], THEN spec [of _ i], THEN spec [of _ st1]] e by auto
    have run: "regist_device reg p vd st = Some (int i, st2)"
      using i(1) a(1) e by (simp add: regist_device_def st1_def)
    have ctl: "device_ctl st2 = (device_ctl st)(i := vd\<lparr>d_vdiskid := of_nat i, d_path := q\<rparr>)"
      "g_dev_allocator st2 = Some (id_take a (of_nat i))"
      using q by (simp_all add: st1_def)
    have "slots_inv st2"
      unfolding slots_inv_def using i a ctl by auto
    moreover have "same_slot (device_ctl st2 i) (vd\<lparr>d_vdiskid := of_nat i\<rparr>)"
      by (auto simp: same_slot_def ctl)
    ultimately show ?thesis using run i a(1) ctl by auto
  qed
qed

lemma delete_spec:
  assumes inv: "slots_inv st" and del: "del_ok del" and run: "delete_device del v st = Some st'"
  shows "slots_inv st'" and "0 \<le> v \<Longrightarrow> v < 256 \<Longrightarrow> d_flag (device_ctl st' (nat v)) = 0 \<and>
     nat v \<notin> used_ids (the (g_dev_allocator st')) \<and> (\<forall>j. j \<noteq> nat v \<longrightarrow> device_ctl st' j = device_ctl st j) \<and>
     used_ids (the (g_dev_allocator st')) = used_ids (the (g_dev_allocator st)) - {nat v}"
proof -
  obtain a where a: "g_dev_allocator st = Some a" "id_inv a" "ia_max_ids a = 256"
    "\<And>i. i < 256 \<Longrightarrow> d_flag (device_ctl st i) \<noteq> 0 \<Longrightarrow> i \<in> used_ids a \<and> d_vdiskid (device_ctl st i) = of_nat i"
    using inv by (auto simp: slots_inv_def)
  have "slots_inv st' \<and> (0 \<le> v \<longrightarrow> v < 256 \<longrightarrow> d_flag (device_ctl st' (nat v)) = 0 \<and>
     nat v \<notin> used_ids (the (g_dev_allocator st')) \<and> (\<forall>j. j \<noteq> nat v \<longrightarrow> device_ctl st' j = device_ctl st j) \<and>
     used_ids (the (g_dev_allocator st')) = used_ids (the (g_dev_allocator st)) - {nat v})"
  proof (cases "0 \<le> v \<and> v < 256")
    case False
    then have "v < 0 \<or> 256 \<le> nat v" by linarith
    then have "st' = st" using run by (auto simp: delete_device_def)
    then show ?thesis using inv False by simp
  next
    case True
    define n where "n = nat v"
    have n: "n < 256" "unat (of_int v :: u32) = n"
      using True by (simp_all add: n_def unat_eq_nat_uint uint_word_of_int nat_less_iff) 
    define st1 where "st1 = (if d_drive_name (device_ctl st n) \<noteq> [] then del (d_drive_name (device_ctl st n)) st else st)"
    have st1: "device_ctl st1 = device_ctl st" "g_dev_allocator st1 = Some a"
      using del a(1) by (auto simp: st1_def del_ok_def)
    have st': "g_dev_allocator st' = snd (id_free (Some a) (of_int v))" "d_flag (device_ctl st' n) = 0"
      "\<And>j. j \<noteq> n \<Longrightarrow> device_ctl st' j = device_ctl st j"
      using run True n(1) st1 unfolding delete_device_def n_def [symmetric] st1_def [symmetric] Let_def
      by (auto split: if_splits bind_splits)
    have f: "id_free (Some a) (of_int v) = (if n \<in> used_ids a then (True, Some (id_drop a (of_int v))) else (False, Some a))"
      using id_free_spec [of a "of_int v"] n by simp
    define b where "b = (if n \<in> used_ids a then id_drop a (of_int v) else a)"
    have b: "g_dev_allocator st' = Some b" "id_inv b" "ia_max_ids b = 256" "used_ids b = used_ids a - {n}"
      using st'(1) f a(2,3) id_drop_inv [OF a(2), of "of_int v"] used_drop [of a "of_int v"] n
      by (auto simp: b_def)
    have "slots_inv st'"
      unfolding slots_inv_def using b st'(2,3) a(4) by (metis DiffI singletonD)
    then show ?thesis using b st'(2,3) a(1) by (simp add: n_def [symmetric])
  qed
  then show "slots_inv st'" "0 \<le> v \<Longrightarrow> v < 256 \<Longrightarrow> d_flag (device_ctl st' (nat v)) = 0 \<and>
     nat v \<notin> used_ids (the (g_dev_allocator st')) \<and> (\<forall>j. j \<noteq> nat v \<longrightarrow> device_ctl st' j = device_ctl st j) \<and>
     used_ids (the (g_dev_allocator st')) = used_ids (the (g_dev_allocator st)) - {nat v}"
    by blast+
qed

lemma clear_slots:
  "fold (\<lambda>i T. T(i := (T i)\<lparr>d_flag := 0, d_path := 0\<rparr>)) [0..<n] T i =
     (if i < n then (T i)\<lparr>d_flag := 0, d_path := 0\<rparr> else T i)"
  by (induction n) (auto simp: less_Suc_eq)

lemma init_inv: "device_manager_init True True st0 = (r, st) \<Longrightarrow> slots_inv st"
  by (auto simp: device_manager_init_def slots_inv_def clear_slots id_create_inv id_allocator_create_def Let_def
      intro!: id_create_inv [of 256])

lemma init_used: "device_manager_init True True st0 = (r, st) \<Longrightarrow> used_ids (the (g_dev_allocator st)) = {}"
  by (auto simp: device_manager_init_def id_allocator_create_def Let_def used_ids_def id_used_def)

lemma used_256: "slots_inv st \<Longrightarrow> used_ids (the (g_dev_allocator st)) \<subseteq> {..<256}"
  by (auto simp: slots_inv_def used_ids_def)

lemma mgr_hist_inv: "mgr_hist U st \<Longrightarrow> slots_inv st \<and> used_ids (the (g_dev_allocator st)) = U"
proof (induction rule: mgr_hist.induct)
  case (start st0 r st)
  then show ?case using init_inv init_used by blast
next
  case (reg U st reg p vd r st')
  then show ?case using regist_spec [of st reg p vd] by auto
next
  case (del U st del i st')
  then have inv: "slots_inv st" and u: "used_ids (the (g_dev_allocator st)) = U" by auto
  note D = delete_spec [OF inv del.hyps(2,3)]
  show ?case
  proof (cases "0 \<le> i \<and> i < 256")
    case True
    then show ?thesis using D u by simp
  next
    case False
    then have "i < 0 \<or> 256 \<le> nat i" by linarith
    then have "st' = st" "0 \<le> i \<longrightarrow> U - {nat i} = U"
      using del.hyps(3) used_256 [OF inv] u by (auto simp: delete_device_def)
    then show ?thesis using inv u by simp
  qed
qed

text \<open>
  C24. Let \<open>U\<close> be the numbers that were handed out since the registry was initialised and not deleted again.  Registering
  a device always returns.  When \<open>U\<close> is all of the 256 numbers it answers -1 and changes nothing; otherwise, and only
  then, it answers a number outside \<open>U\<close> that no visible device held; the slot then holds the device with its own
  number in it, and no other slot changes.  Deleting a device makes its slot invisible to \<open>get_device\<close> and
  \<open>have_vdisk\<close>, returns its number and touches no other slot.
\<close>

theorem device_registry_exact:
  assumes "mgr_hist U st" and "reg_ok reg" and "del_ok del"
  shows "(\<exists>r st'. regist_device reg p vd st = Some (r, st') \<and>
            (if U = {..<256} then r = - 1 \<and> st' = st
             else \<exists>i<256. i \<notin> U \<and> r = int i \<and> get_device (of_nat i) (device_ctl st) = None \<and>
                (d_flag vd \<noteq> 0 \<longrightarrow> get_device (of_nat i) (device_ctl st') = Some i) \<and>
                d_vdiskid (device_ctl st' i) = of_nat i \<and>
                same_slot (device_ctl st' i) (vd\<lparr>d_vdiskid := of_nat i\<rparr>) \<and>
                (\<forall>j. j \<noteq> i \<longrightarrow> device_ctl st' j = device_ctl st j))) \<and>
         (0 \<le> v \<longrightarrow> v < 256 \<longrightarrow> delete_device del v st = Some st'' \<longrightarrow>
           get_device (of_int v) (device_ctl st'') = None \<and> \<not> have_vdisk v (device_ctl st'') \<and>
           used_ids (the (g_dev_allocator st'')) = U - {nat v} \<and>
           (\<forall>j. j \<noteq> nat v \<longrightarrow> device_ctl st'' j = device_ctl st j))" (is "?register \<and> ?deleted")
proof -
  have inv: "slots_inv st" and U: "used_ids (the (g_dev_allocator st)) = U" using mgr_hist_inv [OF assms(1)] by auto
  have small: "unat (of_nat i :: u32) = i" if "i < 256" for i using that by (intro unat_of_nat_small) simp
  have idx: "(256 :: u32) \<le> of_nat i \<longleftrightarrow> False" if "i < 256" for i using small [OF that] that by (simp add: word_le_nat_alt)
  have free: "d_flag (device_ctl st i) = 0" if "i < 256" "i \<notin> U" for i
    using inv that U by (auto simp: slots_inv_def)
  have slot: "get_device (of_nat i) T = (if d_flag (T i) = 0 then None else Some i)" if "i < 256" for i and T :: "'a dev_table"
    using small [OF that] idx [OF that] by (simp add: get_device_def)
  have ?register
  proof -
    obtain r st' where run: "regist_device reg p vd st = Some (r, st')" and
      r: "r = - 1 \<and> st' = st \<and> U = {..<256} \<or>
        (\<exists>i<256. r = int i \<and> i \<notin> U \<and> same_slot (device_ctl st' i) (vd\<lparr>d_vdiskid := of_nat i\<rparr>) \<and>
         (\<forall>j. j \<noteq> i \<longrightarrow> device_ctl st' j = device_ctl st j))"
      using regist_spec [OF inv assms(2), of p vd] unfolding U by blast
    from r show ?thesis
    proof
      assume "\<exists>i<256. r = int i \<and> i \<notin> U \<and> same_slot (device_ctl st' i) (vd\<lparr>d_vdiskid := of_nat i\<rparr>) \<and>
         (\<forall>j. j \<noteq> i \<longrightarrow> device_ctl st' j = device_ctl st j)"
      then obtain i where i: "i < 256" "r = int i" "i \<notin> U"
        "same_slot (device_ctl st' i) (vd\<lparr>d_vdiskid := of_nat i\<rparr>)" "\<forall>j. j \<noteq> i \<longrightarrow> device_ctl st' j = device_ctl st j"
        by blast
      have "U \<noteq> {..<256}" using i(1,3) by auto
      then show ?thesis using run i same_slot_fields [OF i(4)] free [OF i(1,3)] slot [OF i(1)]
        by (intro exI [of _ r] exI [of _ st']) (auto intro!: exI [of _ i])
    qed (use run in auto)
  qed
  moreover have ?deleted
  proof (intro impI)
    assume v: "0 \<le> v" "v < 256" and run: "delete_device del v st = Some st''"
    have v': "(of_int v :: u32) = of_nat (nat v)" "nat v < 256" using v by simp_all
    note D = delete_spec(2) [OF inv assms(3) run v]
    have "get_device (of_int v) (device_ctl st'') = None"
      unfolding v'(1) using D by (simp only: slot [OF v'(2)] simp_thms if_True)
    moreover have "\<not> have_vdisk v (device_ctl st'')"
      using D by (simp add: have_vdisk_def)
    ultimately show "get_device (of_int v) (device_ctl st'') = None \<and> \<not> have_vdisk v (device_ctl st'') \<and>
           used_ids (the (g_dev_allocator st'')) = U - {nat v} \<and>
           (\<forall>j. j \<noteq> nat v \<longrightarrow> device_ctl st'' j = device_ctl st j)"
      using D U by simp
  qed
  ultimately show ?thesis by blast
qed

text \<open>The registry at boot, with a devfs that keeps no paths.\<close>

definition mgr0 :: "(nat \<Rightarrow> u8, unit) dev_mgr" where
  "mgr0 = snd (device_manager_init True True
     \<lparr>device_ctl = \<lambda>_. ram_dev, g_dev_allocator = None, dm_heap = \<lparr>g_heap = None, g_bad_free = 0, g_mem = \<lambda>_. 0\<rparr>\<rparr>)"

lemma mgr0_hist: "mgr_hist {} mgr0"
  unfolding mgr0_def by (rule mgr_hist.start [OF surjective_pairing])

lemma device_registry_exact_witness:
  "\<exists>r st'. regist_device (\<lambda>p i st. (0, st)) None ram_dev mgr0 = Some (r, st') \<and> 0 \<le> r
     \<and> get_device (of_int r) (device_ctl mgr0) = None"
proof -
  have "\<exists>q. device_ctl st = (device_ctl st)(i := (device_ctl st i)\<lparr>d_path := q\<rparr>)"
    for i and st :: "(nat \<Rightarrow> u8, unit) dev_mgr"
    by (rule exI [of _ "d_path (device_ctl st i)"]) simp
  then have "reg_ok (\<lambda>p i (st :: (nat \<Rightarrow> u8, unit) dev_mgr). (0, st))"
    by (simp add: reg_ok_def)
  moreover have "del_ok (\<lambda>n (st :: (nat \<Rightarrow> u8, unit) dev_mgr). st)" by (simp add: del_ok_def)
  moreover have "({} :: nat set) \<noteq> {..<256}" by (metis lessThan_empty_iff zero_neq_numeral)
  ultimately have "\<exists>r st'. regist_device (\<lambda>p i st. (0, st)) None ram_dev mgr0 = Some (r, st') \<and>
      (\<exists>i<256. r = int i \<and> get_device (of_nat i) (device_ctl mgr0) = None)"
    using device_registry_exact [OF mgr0_hist, of "\<lambda>p i st. (0, st)" "\<lambda>n st. st" None ram_dev 0 mgr0, THEN conjunct1]
    by simp blast
  then show ?thesis by (metis of_int_of_nat_eq of_nat_0_le_iff)
qed

end
