(* ===== verification/Console.thy ===== *)
theory Console
  imports Memory "HOL-Library.Char_ord"
begin

text \<open>
  The formatter of \<open>arch/arm32/src/console.c\<close> behind \<open>console_printf\<close>, \<open>sprintf\<close> and
  \<open>snprintf\<close>: one format loop over a sink that takes one character at a time.  A sink is a function on
  its context.  C strings are lists of characters without the NUL.
  The variable arguments are a list of typed values; taking a value of another type or
  beyond the end, and an overflow of a \<open>int\<close> width or precision, are undefined in C and \<open>None\<close> here.
  The count of emitted characters is a mathematical integer.
\<close>

section \<open>Output\<close>

type_synonym 'c sink = "'c \<Rightarrow> char \<Rightarrow> 'c"

record 'c fmt_out_t =
  o_ctx :: 'c
  o_written :: int

definition out_char :: "'c sink \<Rightarrow> char \<Rightarrow> 'c fmt_out_t \<Rightarrow> 'c fmt_out_t" where
  "out_char sink c out = out\<lparr>o_ctx := sink (o_ctx out) c, o_written := o_written out + 1\<rparr>"

fun repeat_loop :: "'c sink \<Rightarrow> char \<Rightarrow> nat \<Rightarrow> 'c fmt_out_t \<Rightarrow> 'c fmt_out_t" where
  "repeat_loop sink c 0 out = out"
| "repeat_loop sink c (Suc n) out = repeat_loop sink c n (out_char sink c out)"

definition out_repeat :: "'c sink \<Rightarrow> char \<Rightarrow> int \<Rightarrow> 'c fmt_out_t \<Rightarrow> 'c fmt_out_t" where
  "out_repeat sink c count out = repeat_loop sink c (nat count) out"

definition out_chars :: "'c sink \<Rightarrow> string \<Rightarrow> 'c fmt_out_t \<Rightarrow> 'c fmt_out_t" where
  "out_chars sink s out = fold (out_char sink) s out"

fun text_len :: "string \<Rightarrow> int \<Rightarrow> int \<Rightarrow> int" where
  "text_len [] prec len = len"
| "text_len (c # cs) prec len = (if prec < 0 \<or> len < prec then text_len cs prec (len + 1) else len)"

definition out_text :: "'c sink \<Rightarrow> string \<Rightarrow> int \<Rightarrow> int \<Rightarrow> bool \<Rightarrow> 'c fmt_out_t \<Rightarrow> 'c fmt_out_t" where
  "out_text sink str width prec left_align out =
     (let len = text_len str prec 0;
          pad = (if len < width then width - len else 0);
          out = (if \<not> left_align then out_repeat sink CHR '' '' pad out else out);
          out = out_chars sink (take (nat len) str) out
      in if left_align then out_repeat sink CHR '' '' pad out else out)"

section \<open>Numbers\<close>

definition lower_digits :: string where "lower_digits = ''0123456789abcdef''"
definition upper_digits :: string where "upper_digits = ''0123456789ABCDEF''"

text \<open>The buffer \<open>reversed\<close> of 70 characters holds the least significant digit first.\<close>

function digit_loop :: "string \<Rightarrow> u64 \<Rightarrow> u64 \<Rightarrow> string \<Rightarrow> string" where
  "digit_loop digits radix value reversed =
     (if 0 < value \<and> length reversed < 70
      then digit_loop digits radix (value div radix) (reversed @ [digits ! unat (value mod radix)])
      else reversed)"
  by pat_completeness auto
termination by (relation "measure (\<lambda>(_, _, _, reversed). 70 - length reversed)") auto

function zero_loop :: "int \<Rightarrow> string \<Rightarrow> string" where
  "zero_loop prec reversed =
     (if int (length reversed) < prec \<and> length reversed < 70 then zero_loop prec (reversed @ ''0'') else reversed)"
  by pat_completeness auto
termination by (relation "measure (\<lambda>(_, reversed). 70 - length reversed)") auto

definition out_digits :: "'c sink \<Rightarrow> string \<Rightarrow> string \<Rightarrow> 'c fmt_out_t \<Rightarrow> 'c fmt_out_t" where
  "out_digits sink prefix reversed out = out_chars sink (rev reversed) (out_chars sink prefix out)"

definition number_reversed :: "u64 \<Rightarrow> u32 \<Rightarrow> bool \<Rightarrow> int \<Rightarrow> string" where
  "number_reversed value radix upper prec =
     (let digits = (if upper then upper_digits else lower_digits);
          reversed = (if value = 0 then (if prec \<noteq> 0 then ''0'' else [])
                      else digit_loop digits (ucast radix) value [])
      in zero_loop prec reversed)"

definition number_prefix :: "bool \<Rightarrow> u32 \<Rightarrow> bool \<Rightarrow> bool \<Rightarrow> string" where
  "number_prefix negative radix upper alt_prefix =
     (let prefix = (if negative then ''-'' else [])
      in if alt_prefix then
           (if radix = 16 then prefix @ [CHR ''0'', if upper then CHR ''X'' else CHR ''x'']
            else if radix = 8 then prefix @ ''0''
            else if radix = 2 then prefix @ [CHR ''0'', if upper then CHR ''B'' else CHR ''b'']
            else prefix)
         else prefix)"

definition out_number ::
  "'c sink \<Rightarrow> u64 \<Rightarrow> bool \<Rightarrow> u32 \<Rightarrow> bool \<Rightarrow> int \<Rightarrow> int \<Rightarrow> bool \<Rightarrow> bool \<Rightarrow> bool \<Rightarrow> 'c fmt_out_t \<Rightarrow> 'c fmt_out_t" where
  "out_number sink value negative radix upper width prec zero_pad left_align alt_prefix out =
     (let reversed = number_reversed value radix upper prec;
          prefix = number_prefix negative radix upper alt_prefix;
          used = int (length reversed) + int (length prefix);
          pad = (if used < width then width - used else 0);
          pad_zero = (zero_pad \<and> prec < 0)
      in if left_align then out_repeat sink CHR '' '' pad (out_digits sink prefix reversed out)
         else if pad_zero then
           out_chars sink (rev reversed) (out_repeat sink CHR ''0'' pad (out_chars sink prefix out))
         else out_digits sink prefix reversed (out_repeat sink CHR '' '' pad out))"

section \<open>Arguments\<close>

datatype fmt_len_t = FMT_LEN_DEFAULT | FMT_LEN_CHAR | FMT_LEN_SHORT | FMT_LEN_LONG | FMT_LEN_LONGLONG | FMT_LEN_SIZE

text \<open>\<open>int\<close>, \<open>long\<close> and \<open>size_t\<close> arguments are one 32-bit word on this machine.\<close>

datatype va_value = VInt u32 | VLong u64 | VStr "string option" | VPtr u32

type_synonym va_list = "va_value list"

fun va_int :: "va_list \<Rightarrow> (u32 \<times> va_list) option" where
  "va_int (VInt x # args) = Some (x, args)"
| "va_int args = None"

fun va_long :: "va_list \<Rightarrow> (u64 \<times> va_list) option" where
  "va_long (VLong x # args) = Some (x, args)"
| "va_long args = None"

fun va_str :: "va_list \<Rightarrow> (string option \<times> va_list) option" where
  "va_str (VStr x # args) = Some (x, args)"
| "va_str args = None"

fun va_ptr :: "va_list \<Rightarrow> (u32 \<times> va_list) option" where
  "va_ptr (VPtr x # args) = Some (x, args)"
| "va_ptr args = None"

definition take_unsigned :: "fmt_len_t \<Rightarrow> va_list \<Rightarrow> (u64 \<times> va_list) option" where
  "take_unsigned len args =
     (case len of
        FMT_LEN_CHAR \<Rightarrow> do { (x, args) \<leftarrow> va_int args; Some (ucast (ucast x :: 8 word), args) }
      | FMT_LEN_SHORT \<Rightarrow> do { (x, args) \<leftarrow> va_int args; Some (ucast (ucast x :: 16 word), args) }
      | FMT_LEN_LONGLONG \<Rightarrow> va_long args
      | _ \<Rightarrow> do { (x, args) \<leftarrow> va_int args; Some (ucast x, args) })"

definition take_signed :: "fmt_len_t \<Rightarrow> va_list \<Rightarrow> (bool \<times> u64 \<times> va_list) option" where
  "take_signed len args =
     do { (v, args) \<leftarrow> (case len of
             FMT_LEN_CHAR \<Rightarrow> do { (x, args) \<leftarrow> va_int args; Some (sint (ucast x :: 8 word), args) }
           | FMT_LEN_SHORT \<Rightarrow> do { (x, args) \<leftarrow> va_int args; Some (sint (ucast x :: 16 word), args) }
           | FMT_LEN_LONGLONG \<Rightarrow> do { (x, args) \<leftarrow> va_long args; Some (sint x, args) }
           | _ \<Rightarrow> do { (x, args) \<leftarrow> va_int args; Some (sint x, args) });
          Some (v < 0, if v < 0 then word_of_int (- (v + 1)) + 1 else word_of_int v, args) }"

section \<open>The format loop\<close>

record fmt_spec =
  fs_left :: bool
  fs_zero :: bool
  fs_alt :: bool
  fs_width :: int
  fs_prec :: int
  fs_len :: fmt_len_t

fun flag_loop :: "string \<Rightarrow> fmt_spec \<Rightarrow> fmt_spec \<times> string" where
  "flag_loop (c # fmt) sp =
     (if c = CHR ''-'' then flag_loop fmt (sp\<lparr>fs_left := True\<rparr>)
      else if c = CHR ''0'' then flag_loop fmt (sp\<lparr>fs_zero := True\<rparr>)
      else if c = CHR ''#'' then flag_loop fmt (sp\<lparr>fs_alt := True\<rparr>)
      else if c = CHR ''+'' \<or> c = CHR '' '' then flag_loop fmt sp
      else (sp, c # fmt))"
| "flag_loop [] sp = (sp, [])"

definition is_digit :: "char \<Rightarrow> bool" where
  "is_digit c \<longleftrightarrow> (of_char CHR ''0'' :: nat) \<le> of_char c \<and> (of_char c :: nat) \<le> of_char CHR ''9''"

fun number_loop :: "string \<Rightarrow> int \<Rightarrow> (int \<times> string) option" where
  "number_loop (c # fmt) n =
     (if is_digit c then
        let n' = n * 10 + (of_char c - of_char CHR ''0'')
        in if n' < 2 ^ 31 then number_loop fmt n' else None
      else Some (n, c # fmt))"
| "number_loop [] n = Some (n, [])"

definition parse_width :: "string \<Rightarrow> va_list \<Rightarrow> fmt_spec \<Rightarrow> (fmt_spec \<times> string \<times> va_list) option" where
  "parse_width fmt args sp =
     (if fmt \<noteq> [] \<and> hd fmt = CHR ''*'' then
        do { (x, args) \<leftarrow> va_int args;
             if sint x < 0
             then if sint x = - (2 ^ 31) then None
                  else Some (sp\<lparr>fs_left := True, fs_width := - sint x\<rparr>, tl fmt, args)
             else Some (sp\<lparr>fs_width := sint x\<rparr>, tl fmt, args) }
      else do { (n, fmt) \<leftarrow> number_loop fmt (fs_width sp); Some (sp\<lparr>fs_width := n\<rparr>, fmt, args) })"

definition parse_prec :: "string \<Rightarrow> va_list \<Rightarrow> fmt_spec \<Rightarrow> (fmt_spec \<times> string \<times> va_list) option" where
  "parse_prec fmt args sp =
     (if fmt \<noteq> [] \<and> hd fmt = CHR ''.'' then
        let fmt = tl fmt in
        if fmt \<noteq> [] \<and> hd fmt = CHR ''*'' then
          do { (x, args) \<leftarrow> va_int args;
               Some (sp\<lparr>fs_prec := (if sint x < 0 then - 1 else sint x)\<rparr>, tl fmt, args) }
        else do { (n, fmt) \<leftarrow> number_loop fmt 0; Some (sp\<lparr>fs_prec := n\<rparr>, fmt, args) }
      else Some (sp, fmt, args))"

fun parse_len :: "string \<Rightarrow> fmt_spec \<Rightarrow> fmt_spec \<times> string" where
  "parse_len (c # fmt) sp =
     (if c = CHR ''h'' then
        (case fmt of
           d # fmt' \<Rightarrow> if d = CHR ''h'' then (sp\<lparr>fs_len := FMT_LEN_CHAR\<rparr>, fmt') else (sp\<lparr>fs_len := FMT_LEN_SHORT\<rparr>, fmt)
         | [] \<Rightarrow> (sp\<lparr>fs_len := FMT_LEN_SHORT\<rparr>, fmt))
      else if c = CHR ''l'' then
        (case fmt of
           d # fmt' \<Rightarrow> if d = CHR ''l'' then (sp\<lparr>fs_len := FMT_LEN_LONGLONG\<rparr>, fmt') else (sp\<lparr>fs_len := FMT_LEN_LONG\<rparr>, fmt)
         | [] \<Rightarrow> (sp\<lparr>fs_len := FMT_LEN_LONG\<rparr>, fmt))
      else if c = CHR ''L'' then (sp\<lparr>fs_len := FMT_LEN_LONGLONG\<rparr>, fmt)
      else if c = CHR ''z'' \<or> c = CHR ''t'' \<or> c = CHR ''j'' then (sp\<lparr>fs_len := FMT_LEN_SIZE\<rparr>, fmt)
      else (sp, c # fmt))"
| "parse_len [] sp = (sp, [])"

definition parse_spec :: "string \<Rightarrow> va_list \<Rightarrow> (fmt_spec \<times> string \<times> va_list) option" where
  "parse_spec fmt args =
     (let sp = \<lparr>fs_left = False, fs_zero = False, fs_alt = False, fs_width = 0, fs_prec = - 1,
                fs_len = FMT_LEN_DEFAULT\<rparr>;
          (sp, fmt) = flag_loop fmt sp
      in do {
        (sp, fmt, args) \<leftarrow> parse_width fmt args sp;
        (sp, fmt, args) \<leftarrow> parse_prec fmt args sp;
        let (sp, fmt) = parse_len fmt sp in Some (sp, fmt, args)
      })"

definition out_unsigned ::
  "'c sink \<Rightarrow> u32 \<Rightarrow> bool \<Rightarrow> bool \<Rightarrow> fmt_spec \<Rightarrow> va_list \<Rightarrow> 'c fmt_out_t \<Rightarrow> (va_list \<times> 'c fmt_out_t) option" where
  "out_unsigned sink radix upper alt sp args out =
     do { (v, args) \<leftarrow> take_unsigned (fs_len sp) args;
          Some (args, out_number sink v False radix upper (fs_width sp) (fs_prec sp) (fs_zero sp) (fs_left sp) alt out) }"

definition out_signed ::
  "'c sink \<Rightarrow> fmt_spec \<Rightarrow> va_list \<Rightarrow> 'c fmt_out_t \<Rightarrow> (va_list \<times> 'c fmt_out_t) option" where
  "out_signed sink sp args out =
     do { (negative, magnitude, args) \<leftarrow> take_signed (fs_len sp) args;
          Some (args, out_number sink magnitude negative 10 False (fs_width sp) (fs_prec sp)
                        (fs_zero sp) (fs_left sp) False out) }"

definition out_character ::
  "'c sink \<Rightarrow> fmt_spec \<Rightarrow> va_list \<Rightarrow> 'c fmt_out_t \<Rightarrow> (va_list \<times> 'c fmt_out_t) option" where
  "out_character sink sp args out =
     do { (x, args) \<leftarrow> va_int args;
          let pad = fs_width sp - 1;
              out = (if 1 < fs_width sp \<and> \<not> fs_left sp then out_repeat sink CHR '' '' pad out else out);
              out = out_char sink (char_of (unat x)) out
          in Some (args, if 1 < fs_width sp \<and> fs_left sp then out_repeat sink CHR '' '' pad out else out) }"

definition out_string ::
  "'c sink \<Rightarrow> fmt_spec \<Rightarrow> va_list \<Rightarrow> 'c fmt_out_t \<Rightarrow> (va_list \<times> 'c fmt_out_t) option" where
  "out_string sink sp args out =
     do { (str, args) \<leftarrow> va_str args;
          Some (args, out_text sink (case str of Some s \<Rightarrow> s | None \<Rightarrow> ''(null)'')
                        (fs_width sp) (fs_prec sp) (fs_left sp) out) }"

definition out_pointer ::
  "'c sink \<Rightarrow> fmt_spec \<Rightarrow> va_list \<Rightarrow> 'c fmt_out_t \<Rightarrow> (va_list \<times> 'c fmt_out_t) option" where
  "out_pointer sink sp args out =
     do { (x, args) \<leftarrow> va_ptr args;
          Some (args, out_number sink (ucast x) False 16 False
                        (if 10 < fs_width sp then fs_width sp else 10) (- 1) True False True out) }"

definition convert ::
  "'c sink \<Rightarrow> char \<Rightarrow> fmt_spec \<Rightarrow> va_list \<Rightarrow> 'c fmt_out_t \<Rightarrow> (va_list \<times> 'c fmt_out_t) option" where
  "convert sink k sp args out =
     (if k = CHR ''c'' then out_character sink sp args out
      else if k = CHR ''s'' then out_string sink sp args out
      else if k = CHR ''d'' \<or> k = CHR ''i'' then out_signed sink sp args out
      else if k = CHR ''u'' then out_unsigned sink 10 False False sp args out
      else if k = CHR ''o'' then out_unsigned sink 8 False (fs_alt sp) sp args out
      else if k = CHR ''x'' then out_unsigned sink 16 False (fs_alt sp) sp args out
      else if k = CHR ''X'' then out_unsigned sink 16 True (fs_alt sp) sp args out
      else if k = CHR ''b'' then out_unsigned sink 2 False (fs_alt sp) sp args out
      else if k = CHR ''p'' then out_pointer sink sp args out
      else if k = CHR ''n'' then do { (x, args) \<leftarrow> va_ptr args; Some (args, out) }
      else if k = CHR ''%'' then Some (args, out_char sink CHR ''%'' out)
      else Some (args, out_char sink k (out_char sink CHR ''%'' out)))"

lemma flag_loop_length: "length (snd (flag_loop fmt sp)) \<le> length fmt"
  by (induction fmt sp rule: flag_loop.induct) auto

lemma number_loop_length: "number_loop fmt n = Some (n', fmt') \<Longrightarrow> length fmt' \<le> length fmt"
  by (induction fmt n rule: number_loop.induct) (auto simp: Let_def split: if_splits)

lemma parse_spec_length: "parse_spec fmt args = Some (sp, fmt', args') \<Longrightarrow> length fmt' \<le> length fmt"
proof -
  have width: "length f' \<le> length f" if "parse_width f a s = Some (s', f', a')" for f a s s' f' a'
    using that by (auto simp: parse_width_def split: if_splits bind_splits dest: number_loop_length)
  have prec: "length f' \<le> length f" if "parse_prec f a s = Some (s', f', a')" for f a s s' f' a'
    using that by (cases f) (auto simp: parse_prec_def split: if_splits bind_splits dest: number_loop_length)
  have len: "length (snd (parse_len f s)) \<le> length f" for f s
    by (cases "(f, s)" rule: parse_len.cases) (auto split: list.splits)
  assume "parse_spec fmt args = Some (sp, fmt', args')"
  then obtain s1 f1 s2 f2 a2 s3 f3 a3 s0 where
    "flag_loop fmt s0 = (s1, f1)" "parse_width f1 args s1 = Some (s2, f2, a2)"
    "parse_prec f2 a2 s2 = Some (s3, f3, a3)" "fmt' = snd (parse_len f3 s3)"
    by (auto simp: parse_spec_def Let_def split: prod.splits bind_splits)
  then show "length fmt' \<le> length fmt"
    using flag_loop_length [of fmt s0] width [of f1 args s1 s2 f2 a2] prec [of f2 a2 s2 s3 f3 a3] len [of f3 s3] by simp
qed

function format_core :: "'c sink \<Rightarrow> string \<Rightarrow> va_list \<Rightarrow> 'c fmt_out_t \<Rightarrow> 'c fmt_out_t option" where
  "format_core sink [] args out = Some out"
| "format_core sink (c # fmt) args out =
     (if c \<noteq> CHR ''%'' then format_core sink fmt args (out_char sink c out)
      else (case parse_spec fmt args of
              None \<Rightarrow> None
            | Some (sp, [], args) \<Rightarrow> Some out
            | Some (sp, k # fmt, args) \<Rightarrow>
                (case convert sink k sp args out of
                   None \<Rightarrow> None
                 | Some (args, out) \<Rightarrow> format_core sink fmt args out)))"
  by pat_completeness auto
termination
  by (relation "measure (\<lambda>(_, fmt, _, _). length fmt)") (auto dest: parse_spec_length)

section \<open>Entry points\<close>

text \<open>The context of the console sink is the sequence of characters given to \<open>console_putc\<close>.\<close>

definition sink_console :: "string sink" where
  "sink_console chars c = (if c = CHR 0x0A then chars @ [CHR 0x0D] else chars) @ [c]"

definition console_vprintf :: "string \<Rightarrow> va_list \<Rightarrow> string \<Rightarrow> (int \<times> string) option" where
  "console_vprintf fmt args chars =
     do { out \<leftarrow> format_core sink_console fmt args \<lparr>o_ctx = chars, o_written = 0\<rparr>;
          Some (o_written out, o_ctx out) }"

definition sink_buffer :: "u32 \<Rightarrow> (bytes \<times> int) sink" where
  "sink_buffer buf = (\<lambda>(m, len) c. (m(buf + word_of_int len := of_char c), len + 1))"

definition console_vsprintf :: "u32 \<Rightarrow> string \<Rightarrow> va_list \<Rightarrow> bytes \<Rightarrow> (int \<times> bytes) option" where
  "console_vsprintf buf fmt args m =
     do { out \<leftarrow> format_core (sink_buffer buf) fmt args \<lparr>o_ctx = (m, 0), o_written = 0\<rparr>;
          let (m, len) = o_ctx out in Some (len, m(buf + word_of_int len := 0)) }"

definition sink_buffer_bounded :: "u32 \<Rightarrow> int \<Rightarrow> (bytes \<times> int) sink" where
  "sink_buffer_bounded buf limit = (\<lambda>(m, len) c.
     (if len < limit then m(buf + word_of_int len := of_char c) else m, len + 1))"

definition console_vsnprintf :: "u32 \<Rightarrow> u32 \<Rightarrow> string \<Rightarrow> va_list \<Rightarrow> bytes \<Rightarrow> (int \<times> bytes) option" where
  "console_vsnprintf buf sz fmt args m =
     (if buf = 0 \<or> sz = 0 then Some (0, m)
      else if sint sz = - (2 ^ 31) then None
      else
        let limit = sint sz - 1; m = m(buf := 0) in do {
          out \<leftarrow> format_core (sink_buffer_bounded buf limit) fmt args \<lparr>o_ctx = (m, 0), o_written = 0\<rparr>;
          let (m, len) = o_ctx out; stored = (if len < limit then len else limit) in
          Some (len, m(buf + word_of_int stored := 0)) })"

fun hex_loop :: "u32 \<Rightarrow> nat list \<Rightarrow> string" where
  "hex_loop value [] = []"
| "hex_loop value (shift # shifts) = upper_digits ! unat (drop_bit shift value AND 0xF) # hex_loop value shifts"

definition console_put_hex32 :: "u32 \<Rightarrow> string" where
  "console_put_hex32 value = ''0x'' @ hex_loop value [28, 24, 20, 16, 12, 8, 4, 0]"

function dec_loop :: "u32 \<Rightarrow> string \<Rightarrow> string" where
  "dec_loop value buffer =
     (if 0 < value \<and> length buffer < 11
      then dec_loop (value div 10) (buffer @ [char_of (of_char CHR ''0'' + unat (value mod 10))])
      else buffer)"
  by pat_completeness auto
termination by (relation "measure (\<lambda>(_, buffer). 11 - length buffer)") auto

definition console_put_dec32 :: "u32 \<Rightarrow> string" where
  "console_put_dec32 value = (if value = 0 then ''0'' else rev (dec_loop value []))"

section \<open>The text does not depend on the sink\<close>

abbreviation (input) list_sink :: "string sink" where "list_sink \<equiv> (\<lambda>s c. s @ [c])"

definition format_text :: "string \<Rightarrow> va_list \<Rightarrow> string option" where
  "format_text fmt args = map_option o_ctx (format_core list_sink fmt args \<lparr>o_ctx = [], o_written = 0\<rparr>)"

text \<open>The run over a sink has received the text that the run over the list sink has collected.\<close>

definition follows :: "'c sink \<Rightarrow> 'c fmt_out_t \<Rightarrow> 'c fmt_out_t \<Rightarrow> string fmt_out_t \<Rightarrow> bool" where
  "follows sink base out l \<longleftrightarrow> out = out_chars sink (o_ctx l) base"

lemma follows_char: "follows sink base out l \<Longrightarrow> follows sink base (out_char sink c out) (out_char list_sink c l)"
  by (simp add: follows_def out_chars_def out_char_def)

lemma follows_repeat:
  "follows sink base out l \<Longrightarrow> follows sink base (out_repeat sink c n out) (out_repeat list_sink c n l)"
proof -
  have "follows sink base out l \<Longrightarrow> follows sink base (repeat_loop sink c k out) (repeat_loop list_sink c k l)" for k out l
    by (induction k arbitrary: out l) (auto intro: follows_char)
  then show "follows sink base out l \<Longrightarrow> follows sink base (out_repeat sink c n out) (out_repeat list_sink c n l)"
    by (simp add: out_repeat_def)
qed

lemma follows_chars:
  "follows sink base out l \<Longrightarrow> follows sink base (out_chars sink s out) (out_chars list_sink s l)"
  unfolding out_chars_def by (induction s arbitrary: out l) (auto intro: follows_char)

lemmas follows_ops = follows_char follows_repeat follows_chars

lemma follows_text:
  "follows sink base out l \<Longrightarrow> follows sink base (out_text sink s w p a out) (out_text list_sink s w p a l)"
  by (simp add: out_text_def Let_def follows_ops)

lemma follows_number:
  "follows sink base out l \<Longrightarrow>
     follows sink base (out_number sink v neg r up w p z a alt out) (out_number list_sink v neg r up w p z a alt l)"
  by (simp add: out_number_def Let_def out_digits_def follows_ops)

definition follows_opt ::
  "'c sink \<Rightarrow> 'c fmt_out_t \<Rightarrow> (va_list \<times> 'c fmt_out_t) option \<Rightarrow> (va_list \<times> string fmt_out_t) option \<Rightarrow> bool" where
  "follows_opt sink base x y \<longleftrightarrow>
     (case (x, y) of (None, None) \<Rightarrow> True
      | (Some (a, out), Some (a', l)) \<Rightarrow> a = a' \<and> follows sink base out l
      | _ \<Rightarrow> False)"

lemma follows_numeric:
  assumes "follows sink base out l"
  shows "follows_opt sink base (out_unsigned sink r up alt sp args out) (out_unsigned list_sink r up alt sp args l)"
    and "follows_opt sink base (out_signed sink sp args out) (out_signed list_sink sp args l)"
    and "follows_opt sink base (out_pointer sink sp args out) (out_pointer list_sink sp args l)"
proof -
  show "follows_opt sink base (out_unsigned sink r up alt sp args out) (out_unsigned list_sink r up alt sp args l)"
    by (cases "take_unsigned (fs_len sp) args") (auto simp: out_unsigned_def follows_opt_def follows_number assms)
  show "follows_opt sink base (out_signed sink sp args out) (out_signed list_sink sp args l)"
    by (cases "take_signed (fs_len sp) args")
      (auto simp: out_signed_def follows_opt_def follows_number assms split: prod.splits)
  show "follows_opt sink base (out_pointer sink sp args out) (out_pointer list_sink sp args l)"
    by (cases "va_ptr args") (auto simp: out_pointer_def follows_opt_def follows_number assms)
qed

lemma follows_textual:
  assumes "follows sink base out l"
  shows "follows_opt sink base (out_character sink sp args out) (out_character list_sink sp args l)"
    and "follows_opt sink base (out_string sink sp args out) (out_string list_sink sp args l)"
  by (cases "va_int args"; auto simp: out_character_def follows_opt_def Let_def follows_ops assms)
    (cases "va_str args"; auto simp: out_string_def follows_opt_def follows_text assms)

lemma follows_literal:
  assumes "follows sink base out l"
  shows "follows_opt sink base (do { (x, args) \<leftarrow> va_ptr args; Some (args, out) })
      (do { (x, args) \<leftarrow> va_ptr args; Some (args, l) })"
    and "follows_opt sink base (Some (args, out_char sink c out)) (Some (args, out_char list_sink c l))"
    and "follows_opt sink base (Some (args, out_char sink k (out_char sink c out)))
       (Some (args, out_char list_sink k (out_char list_sink c l)))"
  by (cases "va_ptr args"; auto simp: follows_opt_def assms) (simp_all add: follows_opt_def follows_ops assms)

lemma follows_if:
  "(P \<Longrightarrow> follows_opt sink base a b) \<Longrightarrow> (\<not> P \<Longrightarrow> follows_opt sink base c d) \<Longrightarrow>
     follows_opt sink base (if P then a else c) (if P then b else d)"
  by simp

lemma follows_convert:
  assumes "follows sink base out l"
  shows "follows_opt sink base (convert sink k sp args out) (convert list_sink k sp args l)"
  unfolding convert_def
  by (intro follows_if follows_numeric [OF assms] follows_textual [OF assms] follows_literal [OF assms])

lemma follows_core:
  "follows sink base out l \<Longrightarrow>
     (case (format_core sink fmt args out, format_core list_sink fmt args l) of
        (None, None) \<Rightarrow> True | (Some out, Some l) \<Rightarrow> follows sink base out l | _ \<Rightarrow> False)"
proof (induction fmt arbitrary: args out l rule: length_induct)
  case (1 fmt)
  show ?case
  proof (cases fmt)
    case Nil
    then show ?thesis using 1(2) by simp
  next
    case (Cons c cs)
    show ?thesis
    proof (cases "c = CHR ''%''")
      case False
      then show ?thesis using Cons 1(1) [rule_format, of cs] follows_char [OF 1(2)] by simp
    next
      case True
      show ?thesis
      proof (cases "parse_spec cs args")
        case None
        then show ?thesis using Cons True by simp
      next
        case (Some r)
        obtain sp rest args' where r: "r = (sp, rest, args')" by (cases r)
        show ?thesis
        proof (cases rest)
          case Nil
          then show ?thesis using Cons True Some r 1(2) by simp
        next
          case (Cons k ks)
          have len: "length ks < length fmt"
            using parse_spec_length [of cs args sp rest args'] Some r Cons \<open>fmt = c # cs\<close> by simp
          have C: "follows_opt sink base (convert sink k sp args' out) (convert list_sink k sp args' l)"
            by (rule follows_convert [OF 1(2)])
          show ?thesis
          proof (cases "convert sink k sp args' out")
            case None
            then have "convert list_sink k sp args' l = None" using C by (auto simp: follows_opt_def split: option.splits)
            then show ?thesis using None \<open>fmt = c # cs\<close> True Some r Cons by simp
          next
            case (Some q)
            obtain a1 out1 where q: "q = (a1, out1)" by (cases q)
            then obtain l1 where l1: "convert list_sink k sp args' l = Some (a1, l1)" "follows sink base out1 l1"
              using C Some by (auto simp: follows_opt_def split: option.splits)
            show ?thesis
              using 1(1) [rule_format, OF len l1(2), of a1] l1(1) Some q \<open>parse_spec cs args = Some r\<close> r Cons True \<open>fmt = c # cs\<close>
              by simp
          qed
        qed
      qed
    qed
  qed
qed

lemma format_core_text:
  "format_core sink fmt args base = map_option (\<lambda>t. out_chars sink t base) (format_text fmt args)"
proof -
  have "follows sink base base \<lparr>o_ctx = [], o_written = 0\<rparr>" by (simp add: follows_def out_chars_def)
  from follows_core [OF this, of fmt args] show ?thesis
    by (auto simp: format_text_def follows_def split: option.splits)
qed

lemma out_chars_eq:
  "out_chars sink t out = \<lparr>o_ctx = foldl sink (o_ctx out) t, o_written = o_written out + int (length t)\<rparr>"
  by (induction t arbitrary: out) (simp_all add: out_chars_def out_char_def)

section \<open>What reaches memory\<close>

definition mem_text :: "bytes \<Rightarrow> u32 \<Rightarrow> string \<Rightarrow> bytes" where
  "mem_text m buf t = (\<lambda>x. if unat (x - buf) < length t then of_char (t ! unat (x - buf)) else m x)"

lemma mem_text_Nil [simp]: "mem_text m buf [] = m"
  by (simp add: mem_text_def)

lemma mem_text_snoc:
  assumes "length t < 4294967296"
  shows "(mem_text m buf t)(buf + of_nat (length t) := of_char c) = mem_text m buf (t @ [c])"
proof
  fix x
  have "x = buf + of_nat (length t) \<longleftrightarrow> unat (x - buf) = length t"
  proof
    assume "x = buf + of_nat (length t)"
    then show "unat (x - buf) = length t" using assms by (simp add: unat_of_nat_small)
  next
    assume "unat (x - buf) = length t"
    then have "of_nat (length t) = x - buf" by (metis of_nat_unat ucast_id)
    then show "x = buf + of_nat (length t)" by simp
  qed
  then show "((mem_text m buf t)(buf + of_nat (length t) := of_char c)) x = mem_text m buf (t @ [c]) x"
    by (auto simp: mem_text_def nth_append less_Suc_eq)
qed

lemma mem_text_first: "s \<noteq> [] \<Longrightarrow> mem_text (m(buf := v)) buf s = mem_text m buf s"
  by (auto simp: mem_text_def fun_eq_iff)

lemma buffer_effect:
  "length t < 4294967296 \<Longrightarrow> foldl (sink_buffer buf) (m, 0) t = (mem_text m buf t, int (length t))"
  by (induction t rule: rev_induct) (simp_all add: sink_buffer_def mem_text_snoc)

lemma bounded_effect:
  assumes "0 \<le> limit"
  shows "length t < 4294967296 \<Longrightarrow>
    foldl (sink_buffer_bounded buf limit) (m, 0) t = (mem_text m buf (take (nat limit) t), int (length t))"
proof (induction t rule: rev_induct)
  case (snoc c t)
  show ?case
  proof (cases "int (length t) < limit")
    case True
    then have "take (nat limit) t = t" "take (nat limit) (t @ [c]) = t @ [c]" by simp_all
    then show ?thesis using snoc True by (simp add: sink_buffer_bounded_def mem_text_snoc)
  next
    case False
    then have "take (nat limit) (t @ [c]) = take (nat limit) t" using assms by simp
    then show ?thesis using snoc False by (simp add: sink_buffer_bounded_def)
  qed
qed simp

lemma wild_effect:
  assumes "limit < 0"
  shows "foldl (sink_buffer_bounded buf limit) (m, 0) t = (m, int (length t))"
  using assms by (induction t rule: rev_induct) (simp_all add: sink_buffer_bounded_def)

definition crlf :: "string \<Rightarrow> string" where
  "crlf t = concat (map (\<lambda>c. if c = CHR 0x0A then [CHR 0x0D, c] else [c]) t)"

lemma console_effect: "foldl sink_console chars t = chars @ crlf t"
  by (induction t arbitrary: chars) (simp_all add: sink_console_def crlf_def)

text \<open>
  The three printers format alike: they return the length of one and the same text; the console
  gets it with a carriage return before each newline, \<open>sprintf\<close> stores all of it and a NUL, and \<open>snprintf\<close>
  with a size from 1 to 2^31 - 1 stores the longest prefix that fits, always with a NUL, and writes no byte
  outside the buffer.
\<close>

theorem console_printers_agree:
  assumes "format_text fmt args = Some t" and "length t < 2 ^ 31"
  shows "console_vprintf fmt args chars = Some (int (length t), chars @ crlf t) \<and>
    console_vsprintf buf fmt args m = Some (int (length t), mem_text m buf (t @ [CHR 0x00])) \<and>
    (buf \<noteq> 0 \<longrightarrow> 0 < unat sz \<longrightarrow> unat sz < 2 ^ 31 \<longrightarrow>
       console_vsnprintf buf sz fmt args m =
         Some (int (length t), mem_text m buf (take (unat sz - 1) t @ [CHR 0x00])))"
proof (intro conjI impI)
  have len: "length t < 4294967296" using assms(2) by simp
  show "console_vprintf fmt args chars = Some (int (length t), chars @ crlf t)"
    by (simp add: console_vprintf_def format_core_text assms(1) out_chars_eq console_effect)
  show "console_vsprintf buf fmt args m = Some (int (length t), mem_text m buf (t @ [CHR 0x00]))"
    using mem_text_snoc [OF len, of m buf "CHR 0x00"]
    by (simp add: console_vsprintf_def format_core_text assms(1) out_chars_eq buffer_effect [OF len])
  assume sz: "buf \<noteq> 0" "0 < unat sz" "unat sz < 2 ^ 31"
  define n where "n = unat sz"
  have s: "sint sz = int n" unfolding n_def by (rule sint_small [OF sz(3)])
  let ?lim = "int n - 1" and ?s = "take (n - 1) t"
  have n: "0 < n" using sz(2) by (simp add: n_def)
  then have lim: "0 \<le> ?lim" "nat ?lim = n - 1" by simp_all
  have stored: "(if int (length t) < ?lim then int (length t) else ?lim) = int (length ?s)"
    using n by auto
  have "length ?s < 4294967296" using len by simp
  note snoc = mem_text_snoc [OF this, of "m(buf := 0)" buf "CHR 0x00"]
  have "sz \<noteq> 0" using sz(2) by auto
  then show "console_vsnprintf buf sz fmt args m = Some (int (length t), mem_text m buf (take (unat sz - 1) t @ [CHR 0x00]))"
    unfolding n_def [symmetric] using snoc sz(1)
    by (simp add: console_vsnprintf_def format_core_text assms(1) out_chars_eq s bounded_effect [OF lim(1) len] lim(2)
        stored mem_text_first Let_def)
qed

theorem console_printers_agree_witness:
  "console_vprintf ''n=%d%c'' [VInt 7, VInt 10] [] = Some (4, ''n=7'' @ [CHR 0x0D, CHR 0x0A]) \<and>
   console_vsnprintf 100 3 ''n=%d%c'' [VInt 7, VInt 10] (\<lambda>_. 0) =
     Some (4, mem_text (\<lambda>_. 0) 100 (''n='' @ [CHR 0x00]))"
proof -
  have t: "format_text ''n=%d%c'' [VInt 7, VInt 10] = Some (''n=7'' @ [CHR 0x0A])" by code_simp
  have "length (''n=7'' @ [CHR 0x0A]) < 2 ^ 31" by simp
  from console_printers_agree [OF t this, of "[]" 100 "\<lambda>_. 0" 3] show ?thesis by (simp add: crlf_def)
qed

text \<open>
  With a size above 2^31, whose conversion to \<open>int\<close> is negative, \<open>snprintf\<close> stores no text at
  all and writes its terminating NUL outside the buffer, \<open>2^32 - size + 1\<close> bytes below its start.
\<close>

theorem console_vsnprintf_wild:
  assumes "format_text fmt args = Some t" and "buf \<noteq> 0" and "2 ^ 31 < unat sz"
  shows "console_vsnprintf buf sz fmt args m = Some (int (length t), m(buf := 0, buf + (sz - 1) := 0)) \<and>
         unat (buf - (buf + (sz - 1))) = 2 ^ 32 - unat sz + 1"
proof -
  define n where "n = unat sz"
  have n: "2 ^ 31 < n" "n < 4294967296" using assms(3) unat_lt32 [of sz] by (simp_all only: n_def)
  have s: "sint sz = int n - 2 ^ 32" unfolding n_def by (rule sint_large) (use assms(3) in simp)
  then have neg: "sint sz - 1 < 0" "sint sz \<noteq> - (2 ^ 31)" "sz \<noteq> 0"
    using n by auto
  have "\<not> int (length t) < sint sz - 1" using neg(1) by simp
  moreover have "buf + word_of_int (sint sz - 1) = buf + (sz - 1)" by (simp add: wi_hom_sub [symmetric])
  ultimately have "console_vsnprintf buf sz fmt args m = Some (int (length t), m(buf := 0, buf + (sz - 1) := 0))"
    using assms(2) neg
    by (simp add: console_vsnprintf_def format_core_text assms(1) out_chars_eq wild_effect [OF neg(1)] Let_def)
  moreover have "4294967297 - n = Suc (4294967296 - n)" using n(2) by simp
  then have "unat (1 - sz) = 2 ^ 32 - unat sz + 1"
    using assms(3) by (simp add: unat_sub_if' n_def)
  ultimately show ?thesis by (simp add: algebra_simps)
qed

theorem console_vsnprintf_wild_witness:
  "console_vsnprintf 100 0xFFFFFFFF ''hi'' [] (\<lambda>_. 7) = Some (2, (\<lambda>_. 7)(100 := 0, 98 := 0))"
proof -
  have t: "format_text ''hi'' [] = Some ''hi''" by code_simp
  have wrap: "(4294967394 :: u32) = 98" by simp
  show ?thesis
    using console_vsnprintf_wild [OF t, of 100 "0xFFFFFFFF" "\<lambda>_. 7"] by (simp add: wrap)
qed

section \<open>Printed numbers read back\<close>







declare digit_loop.simps [simp del]
declare zero_loop.simps [simp del]
declare dec_loop.simps [simp del]





lemma foldl_list [simp]: "foldl list_sink s t = s @ t"
  by (induction t arbitrary: s) simp_all


lemma magnitude:
  fixes v :: int
  assumes "- (2 ^ 63) \<le> v" and "v < 2 ^ 63"
  shows "int (unat (if v < 0 then word_of_int (- (v + 1)) + 1 else word_of_int v :: u64)) = \<bar>v\<bar>"
proof -
  have "(if v < 0 then word_of_int (- (v + 1)) + 1 else word_of_int v :: u64) = word_of_int \<bar>v\<bar>"
    by (simp add: wi_hom_syms algebra_simps)
  moreover have "uint (word_of_int \<bar>v\<bar> :: u64) = \<bar>v\<bar>"
    using assms by (simp add: uint_word_of_int_eq take_bit_int_eq_self)
  ultimately show ?thesis by simp
qed


text \<open>A conversion of every kind, evaluated.\<close>

lemma format_text_sample: "format_text ''id=%5d|%-4s|%#x%c'' [VInt (- 42), VStr (Some ''ok''), VInt 255, VInt 10]
    = Some (''id=  -42|ok  |0xff'' @ [CHR 0x0A])"
  by code_simp

end
