(* ===== verification/Chain.thy ===== *)
theory Chain
  imports Prelude
begin

text \<open>
  Singly linked lists through a next function, with 0 for the null pointer, and the two walks the kernel's
  sources make over them: look for the first node with a property, and look for it together with the node
  before it.  A walk over a cyclic list does not return.
\<close>

fun linked :: "('p::zero \<Rightarrow> 'p) \<Rightarrow> 'p \<Rightarrow> 'p list \<Rightarrow> 'p \<Rightarrow> bool" where
  "linked nxt p [] q \<longleftrightarrow> p = q"
| "linked nxt p (x # xs) q \<longleftrightarrow> p = x \<and> x \<noteq> 0 \<and> linked nxt (nxt x) xs q"

partial_function (option) find_node :: "('p::zero \<Rightarrow> bool) \<Rightarrow> ('p \<Rightarrow> 'p) \<Rightarrow> 'p \<Rightarrow> 'p option" where
  "find_node P nxt p = (if p = 0 then Some 0 else if P p then Some p else find_node P nxt (nxt p))"

partial_function (option) find_link ::
  "('p::zero \<Rightarrow> bool) \<Rightarrow> ('p \<Rightarrow> 'p) \<Rightarrow> 'p \<Rightarrow> 'p \<Rightarrow> ('p \<times> 'p) option" where
  "find_link P nxt prev p =
     (if p = 0 \<or> P p then Some (prev, p) else find_link P nxt p (nxt p))"

definition or_null :: "'p::zero option \<Rightarrow> 'p" where
  "or_null r = (case r of None \<Rightarrow> 0 | Some p \<Rightarrow> p)"

lemma or_null_simps [simp]: "or_null None = 0" "or_null (Some p) = p"
  by (simp_all add: or_null_def)

lemma linked_append: "linked nxt p (xs @ ys) q \<longleftrightarrow> (\<exists>r. linked nxt p xs r \<and> linked nxt r ys q)"
  by (induction xs arbitrary: p) auto

lemma linked_nonnull: "linked nxt p xs q \<Longrightarrow> x \<in> set xs \<Longrightarrow> x \<noteq> 0"
  by (induction xs arbitrary: p) auto

lemma linked_cong: "\<forall>x\<in>set xs. nxt' x = nxt x \<Longrightarrow> linked nxt' p xs q = linked nxt p xs q"
  by (induction xs arbitrary: p) auto

lemma linked_upd [simp]: "u \<notin> set xs \<Longrightarrow> linked (nxt(u := v)) p xs q = linked nxt p xs q"
  by (rule linked_cong) auto

lemma linked_0 [simp]: "linked nxt 0 xs q \<longleftrightarrow> xs = [] \<and> q = 0"
  by (cases xs) auto

lemma linked_unique: "linked nxt p xs 0 \<Longrightarrow> linked nxt p ys 0 \<Longrightarrow> xs = ys"
proof (induction xs arbitrary: p ys)
  case Nil
  then show ?case by simp
next
  case (Cons x xs)
  then show ?case by (cases ys) auto
qed

lemma linked_distinct: "linked nxt p xs 0 \<Longrightarrow> distinct xs"
proof (induction xs arbitrary: p)
  case Nil
  then show ?case by simp
next
  case (Cons x xs)
  have "x \<notin> set xs"
  proof
    assume "x \<in> set xs"
    then obtain us vs where xs: "xs = us @ x # vs" by (auto dest: split_list)
    then have "linked nxt (nxt x) vs 0" using Cons.prems by (auto simp: linked_append)
    then have "vs = xs" using Cons.prems linked_unique by auto
    then show False using xs by auto
  qed
  then show ?case using Cons by auto
qed

text \<open>What the walks return on a list.\<close>

lemma find_node_linked: "linked nxt p xs 0 \<Longrightarrow> find_node P nxt p = Some (or_null (find P xs))"
proof (induction xs arbitrary: p)
  case Nil
  then show ?case by (simp add: find_node.simps)
next
  case (Cons x xs)
  then show ?case by (subst find_node.simps) auto
qed

lemma find_link_linked:
  "linked nxt p xs 0 \<Longrightarrow>
   find_link P nxt prev p =
     Some (last (prev # takeWhile (\<lambda>x. \<not> P x) xs), or_null (find P xs))"
proof (induction xs arbitrary: prev p)
  case Nil
  then show ?case by (simp add: find_link.simps)
next
  case (Cons x xs)
  then show ?case by (subst find_link.simps) (auto simp: find_dropWhile)
qed

lemma find_parts:
  "find P xs = Some x \<Longrightarrow>
   xs = takeWhile (\<lambda>x. \<not> P x) xs @ x # tl (dropWhile (\<lambda>x. \<not> P x) xs) \<and> P x \<and> x \<in> set xs"
  by (induction xs) (auto split: if_splits)

lemma find_split:
  assumes "find P xs = Some x"
  obtains us vs where "xs = us @ x # vs" "P x" "takeWhile (\<lambda>x. \<not> P x) xs = us"
    "\<forall>u\<in>set us. \<not> P u"
  using find_parts [OF assms] by (metis set_takeWhileD)

lemma or_null_find: "0 \<notin> set xs \<Longrightarrow> or_null (find P xs) = 0 \<longleftrightarrow> (\<forall>x\<in>set xs. \<not> P x)"
  by (induction xs) auto

lemma or_null_found: "or_null (find P xs) \<noteq> 0 \<Longrightarrow> or_null (find P xs) \<in> set xs \<and> P (or_null (find P xs))"
  by (induction xs) (auto split: if_splits)

text \<open>Inserting at the head and unlinking a node, at the head or behind its predecessor.\<close>

lemma linked_push: "linked nxt p xs q \<Longrightarrow> x \<noteq> 0 \<Longrightarrow> x \<notin> set xs \<Longrightarrow> linked (nxt(x := p)) x (x # xs) q"
  by simp

lemma linked_unlink:
  assumes "linked nxt p (us @ x # vs) 0"
  shows "if us = [] then p = x \<and> linked nxt (nxt x) vs 0
         else linked (nxt(last us := nxt x)) p (us @ vs) 0"
proof (cases us rule: rev_cases)
  case Nil
  then show ?thesis using assms by simp
next
  case (snoc ts u)
  have "distinct (us @ x # vs)" using assms by (rule linked_distinct)
  then have "u \<notin> set ts" "u \<notin> set vs" by (auto simp: snoc)
  then show ?thesis using assms by (auto simp: snoc linked_append)
qed

section \<open>Doubly linked lists\<close>

fun backlinked :: "('p::zero \<Rightarrow> 'p) \<Rightarrow> 'p \<Rightarrow> 'p list \<Rightarrow> bool" where
  "backlinked prv b [] \<longleftrightarrow> True"
| "backlinked prv b (x # xs) \<longleftrightarrow> prv x = b \<and> backlinked prv x xs"

definition dlinked :: "('p::zero \<Rightarrow> 'p) \<Rightarrow> ('p \<Rightarrow> 'p) \<Rightarrow> 'p \<Rightarrow> 'p \<Rightarrow> 'p list \<Rightarrow> bool" where
  "dlinked nxt prv h t ns \<longleftrightarrow> linked nxt h ns 0 \<and> backlinked prv 0 ns \<and> t = last (0 # ns)"

lemma backlinked_append: "backlinked prv b (xs @ ys) \<longleftrightarrow> backlinked prv b xs \<and> backlinked prv (last (b # xs)) ys"
  by (induction xs arbitrary: b) auto

lemma backlinked_cong: "\<forall>x\<in>set xs. prv' x = prv x \<Longrightarrow> backlinked prv' b xs = backlinked prv b xs"
  by (induction xs arbitrary: b) auto

lemma backlinked_upd [simp]: "u \<notin> set xs \<Longrightarrow> backlinked (prv(u := v)) b xs = backlinked prv b xs"
  by (rule backlinked_cong) auto

lemma dlinked_nonnull: "dlinked nxt prv h t ns \<Longrightarrow> 0 \<notin> set ns"
  using linked_nonnull unfolding dlinked_def by blast

lemma dlinked_distinct: "dlinked nxt prv h t ns \<Longrightarrow> distinct ns"
  using linked_distinct unfolding dlinked_def by blast

lemma dlinked_unique: "dlinked nxt prv h t xs \<Longrightarrow> dlinked nxt prv' h t' ys \<Longrightarrow> xs = ys"
  using linked_unique unfolding dlinked_def by blast

lemma dlinked_ends:
  assumes "dlinked nxt prv h t ns"
  shows "h = 0 \<longleftrightarrow> ns = []" and "t = 0 \<longleftrightarrow> ns = []" and "ns \<noteq> [] \<Longrightarrow> h = hd ns" and "ns \<noteq> [] \<Longrightarrow> t = last ns"
proof -
  have L: "linked nxt h ns 0" "t = last (0 # ns)" using assms by (simp_all add: dlinked_def)
  then show "h = 0 \<longleftrightarrow> ns = []" by (cases ns) auto
  show "ns \<noteq> [] \<Longrightarrow> h = hd ns" using L by (cases ns) auto
  show t: "ns \<noteq> [] \<Longrightarrow> t = last ns" using L by simp
  show "t = 0 \<longleftrightarrow> ns = []"
  proof (cases "ns = []")
    case False
    then have "last ns \<in> set ns" by simp
    then have "last ns \<noteq> 0" using dlinked_nonnull [OF assms] by metis
    then show ?thesis using t False by simp
  qed (use L in simp)
qed

text \<open>The neighbours of a node, and the effect of unlinking and of appending.\<close>

lemma dlinked_node:
  assumes "dlinked nxt prv h t (us @ x # vs)"
  shows "prv x = last (0 # us)" and "nxt x = hd (vs @ [0])"
    and "prv x = 0 \<longleftrightarrow> us = []" and "nxt x = 0 \<longleftrightarrow> vs = []"
proof -
  have L: "linked nxt h (us @ x # vs) 0" "backlinked prv 0 (us @ x # vs)" using assms by (simp_all add: dlinked_def)
  show p: "prv x = last (0 # us)" using L(2) by (simp add: backlinked_append)
  show n: "nxt x = hd (vs @ [0])" using L(1) by (cases vs) (auto simp: linked_append)
  have nz: "0 \<notin> set (us @ x # vs)" using assms by (rule dlinked_nonnull)
  show "prv x = 0 \<longleftrightarrow> us = []" using p nz by (cases us rule: rev_cases) auto
  show "nxt x = 0 \<longleftrightarrow> vs = []" using n nz by (cases vs) auto
qed

lemma dlinked_remove:
  assumes "dlinked nxt prv h t (us @ x # vs)"
  shows "dlinked (if us = [] then nxt else nxt(last us := nxt x)) (if vs = [] then prv else prv(hd vs := prv x))
           (if us = [] then nxt x else h) (if vs = [] then prv x else t) (us @ vs)"
proof -
  have L: "linked nxt h (us @ x # vs) 0" "backlinked prv 0 (us @ x # vs)" "t = last (0 # us @ x # vs)"
    using assms by (simp_all add: dlinked_def)
  have D: "distinct (us @ x # vs)" using assms by (rule dlinked_distinct)
  note N = dlinked_node [OF assms]
  have "linked (if us = [] then nxt else nxt(last us := nxt x)) (if us = [] then nxt x else h) (us @ vs) 0"
    using linked_unlink [OF L(1)] by (auto split: if_splits)
  moreover have "backlinked (if vs = [] then prv else prv(hd vs := prv x)) 0 (us @ vs)"
  proof (cases vs)
    case Nil
    then show ?thesis using L(2) by (simp add: backlinked_append)
  next
    case (Cons v ws)
    then have "v \<notin> set us" "v \<notin> set ws" using D by auto
    then show ?thesis using L(2) Cons N(1) by (simp add: backlinked_append)
  qed
  moreover have "(if vs = [] then prv x else t) = last (0 # us @ vs)" using L(3) N(1) by simp
  ultimately show ?thesis by (simp add: dlinked_def)
qed

lemma dlinked_snoc:
  assumes "dlinked nxt prv h t ns" and "x \<noteq> 0" and "x \<notin> set ns"
  shows "dlinked (if ns = [] then nxt(x := 0) else (nxt(x := 0))(t := x)) (prv(x := t))
           (if ns = [] then x else h) x (ns @ [x])"
proof (cases ns rule: rev_cases)
  case Nil
  then show ?thesis using assms by (simp add: dlinked_def)
next
  case (snoc ms m)
  have L: "linked nxt h (ms @ [m]) 0" "backlinked prv 0 (ms @ [m])" "t = m"
    using assms(1) by (simp_all add: dlinked_def snoc)
  have "distinct (ms @ [m])" using L(1) by (rule linked_distinct)
  moreover have "x \<noteq> m" "x \<notin> set ms" using assms(3) by (auto simp: snoc)
  moreover have "m \<noteq> 0" "linked nxt h ms m" using L(1) by (auto simp: linked_append)
  ultimately have "linked ((nxt(x := 0))(m := x)) h (ms @ [m, x]) 0"
    using assms(2) by (simp add: linked_append)
  moreover have "backlinked (prv(x := m)) 0 (ms @ [m, x])"
    using L(2) \<open>x \<noteq> m\<close> \<open>x \<notin> set ms\<close> by (simp add: backlinked_append)
  ultimately show ?thesis by (simp add: dlinked_def snoc L(3))
qed

lemma dlinked_insert:
  assumes "dlinked nxt prv h t (us @ vs)" and "x \<noteq> 0" and "x \<notin> set (us @ vs)"
  shows "dlinked (if us = [] then nxt(x := hd (vs @ [0])) else (nxt(x := hd (vs @ [0])))(last us := x))
           (if vs = [] then prv(x := last (0 # us)) else (prv(x := last (0 # us)))(hd vs := x))
           (if us = [] then x else h) (if vs = [] then x else t) (us @ x # vs)"
proof -
  have L: "linked nxt h (us @ vs) 0" "backlinked prv 0 (us @ vs)" "t = last (0 # us @ vs)"
    using assms(1) by (simp_all add: dlinked_def)
  have D: "distinct (us @ vs)" using assms(1) by (rule dlinked_distinct)
  obtain r where r: "linked nxt h us r" "linked nxt r vs 0" using L(1) by (auto simp: linked_append)
  have rv: "r = hd (vs @ [0])" using r(2) by (cases vs) auto
  have "linked (if us = [] then nxt(x := r) else (nxt(x := r))(last us := x)) (if us = [] then x else h) (us @ x # vs) 0"
  proof (cases us rule: rev_cases)
    case Nil
    then show ?thesis using assms(2,3) r by simp
  next
    case (snoc ts u)
    then have "u \<notin> set ts" "u \<notin> set vs" "u \<noteq> x" using D assms(3) by auto
    then show ?thesis using assms(2,3) r by (auto simp: snoc linked_append)
  qed
  moreover have "backlinked (if vs = [] then prv(x := last (0 # us)) else (prv(x := last (0 # us)))(hd vs := x)) 0 (us @ x # vs)"
  proof (cases vs)
    case Nil
    then show ?thesis using assms(3) L(2) by (simp add: backlinked_append)
  next
    case (Cons v ws)
    then have "v \<notin> set us" "v \<notin> set ws" "v \<noteq> x" using D assms(3) by auto
    then show ?thesis using assms(3) L(2) by (simp add: Cons backlinked_append)
  qed
  ultimately show ?thesis using L(3) by (auto simp: dlinked_def rv)
qed

end
