(* ===== verification/Tmpfs.thy ===== *)
theory Tmpfs
  imports Chain
begin

text \<open>
  The in-memory file system \<open>driver/fs/vfs/tmpfs.cpp\<close>, which the port compiles as it stands.  All entries
  are nodes of one linked list; an entry names its parent directory and owns a byte buffer.  Entries and
  VFS nodes are records in stores indexed by their address.  The results of \<open>calloc\<close>, \<open>strdup\<close> and \<open>realloc\<close>
  are arguments: the address of a fresh object (0 when out of memory) or whether the call succeeded.
  \<open>size_t\<close> is the 32-bit one of the port.
\<close>

section \<open>State\<close>

record vfs_node =
  vn_name :: "string option"
  vn_size :: u64
  vn_inode :: u64
  vn_blksz :: u64
  vn_type :: "16 word"
  vn_mode :: "16 word"
  vn_fsid :: "16 word"
  vn_handle :: u32
  vn_root :: u32
  vn_dev :: u64

record tmpfs_entry =
  te_node :: u32
  te_parent :: u32
  te_next :: u32
  te_name :: "string option"
  te_data :: "u8 list"
  te_size :: u32
  te_capacity :: u32
  te_is_dir :: bool
  te_inode :: u64

record tmpfs_t =
  tmpfs_id :: int
  tmpfs_next_ino :: u64
  tmpfs_entries :: u32
  te :: "u32 \<Rightarrow> tmpfs_entry"
  vn :: "u32 \<Rightarrow> vfs_node"

abbreviation (input) VFS_STATUS_FAILED :: int where "VFS_STATUS_FAILED \<equiv> - 1"
abbreviation (input) VFS_STATUS_SUCCESS :: int where "VFS_STATUS_SUCCESS \<equiv> 0"
abbreviation (input) TMPFS_REGISTER_ID :: u64 where "TMPFS_REGISTER_ID \<equiv> 2"
abbreviation (input) file_none :: "16 word" where "file_none \<equiv> 1"
abbreviation (input) file_dir :: "16 word" where "file_dir \<equiv> 2"
abbreviation (input) ENOENT :: int where "ENOENT \<equiv> 2"
abbreviation (input) EEXIST :: int where "EEXIST \<equiv> 17"
abbreviation (input) ENOTEMPTY :: int where "ENOTEMPTY \<equiv> 39"
abbreviation (input) PAGE_SIZE :: u64 where "PAGE_SIZE \<equiv> 4096"

definition te_link :: "tmpfs_t \<Rightarrow> u32 \<Rightarrow> u32" where
  "te_link st e = te_next (te st e)"

definition on_entry :: "u32 \<Rightarrow> (tmpfs_entry \<Rightarrow> tmpfs_entry) \<Rightarrow> tmpfs_t \<Rightarrow> tmpfs_t" where
  "on_entry e f st = st\<lparr>te := (te st)(e := f (te st e))\<rparr>"

definition on_node :: "u32 \<Rightarrow> (vfs_node \<Rightarrow> vfs_node) \<Rightarrow> tmpfs_t \<Rightarrow> tmpfs_t" where
  "on_node n f st = st\<lparr>vn := (vn st)(n := f (vn st n))\<rparr>"

section \<open>Operations\<close>

definition tmpfs_find_by_node :: "tmpfs_t \<Rightarrow> u32 \<Rightarrow> u32 option" where
  "tmpfs_find_by_node st node = find_node (\<lambda>e. te_node (te st e) = node) (te_link st) (tmpfs_entries st)"

definition tmpfs_find_child :: "tmpfs_t \<Rightarrow> u32 \<Rightarrow> string option \<Rightarrow> u32 option" where
  "tmpfs_find_child st parent name =
     (if parent = 0 \<or> name = None then Some 0
      else find_node (\<lambda>e. te_parent (te st e) = parent \<and> te_name (te st e) \<noteq> None \<and> te_name (te st e) = name)
             (te_link st) (tmpfs_entries st))"

definition tmpfs_alloc_entry ::
  "u32 \<Rightarrow> bool \<Rightarrow> u32 \<Rightarrow> u32 \<Rightarrow> string option \<Rightarrow> bool \<Rightarrow> tmpfs_t \<Rightarrow> u32 \<times> tmpfs_t" where
  "tmpfs_alloc_entry fresh dup_ok node parent name is_dir st =
     (if fresh = 0 then (0, st)
      else if \<not> dup_ok then (0, st)
      else (fresh,
        st\<lparr>te := (te st)(fresh := \<lparr>te_node = node, te_parent = parent, te_next = tmpfs_entries st,
             te_name = Some (case name of None \<Rightarrow> [] | Some s \<Rightarrow> s), te_data = [], te_size = 0, te_capacity = 0,
             te_is_dir = is_dir, te_inode = tmpfs_next_ino st\<rparr>),
           tmpfs_next_ino := tmpfs_next_ino st + 1,
           tmpfs_entries := fresh\<rparr>))"

definition tmpfs_unlink_entry :: "u32 \<Rightarrow> tmpfs_t \<Rightarrow> tmpfs_t option" where
  "tmpfs_unlink_entry target st =
     do { (prev, cur) \<leftarrow> find_link (\<lambda>e. e = target) (te_link st) 0 (tmpfs_entries st);
          Some (if cur = 0 then st
                else if prev = 0 then st\<lparr>tmpfs_entries := te_next (te st target)\<rparr>
                else on_entry prev (\<lambda>e. e\<lparr>te_next := te_next (te st target)\<rparr>) st) }"

definition tmpfs_has_child :: "tmpfs_t \<Rightarrow> u32 \<Rightarrow> bool option" where
  "tmpfs_has_child st parent =
     do { e \<leftarrow> find_node (\<lambda>e. te_parent (te st e) = parent) (te_link st) (tmpfs_entries st); Some (e \<noteq> 0) }"

definition tmpfs_basename_dup :: "bool \<Rightarrow> string \<Rightarrow> string option" where
  "tmpfs_basename_dup dup_ok path =
     (if dup_ok then Some (rev (takeWhile (\<lambda>c. c \<noteq> CHR ''/'') (rev path))) else None)"

definition tmpfs_apply_stat :: "u32 \<Rightarrow> u32 \<Rightarrow> tmpfs_t \<Rightarrow> tmpfs_t" where
  "tmpfs_apply_stat entry node st =
     (let e = te st entry in
      on_node node (\<lambda>n. n\<lparr>vn_fsid := of_int (tmpfs_id st),
        vn_type := (if te_is_dir e then file_dir else file_none),
        vn_size := (if te_is_dir e then 0 else ucast (te_size e)),
        vn_inode := te_inode e,
        vn_blksz := PAGE_SIZE,
        vn_dev := (if vn_root n \<noteq> 0 then vn_dev (vn st (vn_root n)) else 0),
        vn_mode := (if vn_mode n = 0 then (if te_is_dir e then 0x1FF else 0x1B6) else vn_mode n)\<rparr>) st)"

definition tmpfs_mount :: "u32 \<Rightarrow> bool \<Rightarrow> u64 \<Rightarrow> u32 \<Rightarrow> tmpfs_t \<Rightarrow> int \<times> tmpfs_t" where
  "tmpfs_mount fresh dup_ok src node st =
     (if src \<noteq> TMPFS_REGISTER_ID then (VFS_STATUS_FAILED, st)
      else
        let (entry, st) = tmpfs_alloc_entry fresh dup_ok node 0
              (Some (case vn_name (vn st node) of None \<Rightarrow> [] | Some s \<Rightarrow> s)) True st
        in if entry = 0 then (VFS_STATUS_FAILED, st)
           else (VFS_STATUS_SUCCESS,
                 on_node node (\<lambda>n. n\<lparr>vn_handle := entry, vn_fsid := of_int (tmpfs_id st), vn_type := file_dir,
                                     vn_inode := 1, vn_blksz := PAGE_SIZE\<rparr>) st))"

definition tmpfs_open :: "u32 \<Rightarrow> string option \<Rightarrow> u32 \<Rightarrow> tmpfs_t \<Rightarrow> tmpfs_t option" where
  "tmpfs_open parent name node st =
     do { entry \<leftarrow> tmpfs_find_by_node st node;
          (entry, st) \<leftarrow> (if entry = 0
             then do { c \<leftarrow> tmpfs_find_child st parent name;
                       Some (c, if c \<noteq> 0 then on_entry c (\<lambda>e. e\<lparr>te_node := node\<rparr>) st else st) }
             else Some (entry, st));
          Some (if entry \<noteq> 0
                then tmpfs_apply_stat entry node (on_node node (\<lambda>n. n\<lparr>vn_handle := entry\<rparr>) st)
                else st) }"

definition tmpfs_stat :: "u32 \<Rightarrow> u32 \<Rightarrow> tmpfs_t \<Rightarrow> int \<times> tmpfs_t" where
  "tmpfs_stat file node st =
     (if file = 0 \<or> node = 0 then (VFS_STATUS_FAILED, st) else (0, tmpfs_apply_stat file node st))"

text \<open>\<open>tmpfs_mkdir\<close> and \<open>tmpfs_mkfile\<close> differ in one flag.\<close>

definition tmpfs_make ::
  "bool \<Rightarrow> u32 \<Rightarrow> bool \<Rightarrow> u32 \<Rightarrow> string option \<Rightarrow> u32 \<Rightarrow> tmpfs_t \<Rightarrow> (int \<times> tmpfs_t) option" where
  "tmpfs_make is_dir fresh dup_ok parent name node st =
     (if parent = 0 \<or> \<not> te_is_dir (te st parent) then Some (VFS_STATUS_FAILED, st)
      else do {
        c \<leftarrow> tmpfs_find_child st parent name;
        Some (if c \<noteq> 0 then (VFS_STATUS_FAILED, st)
              else
                let (entry, st) = tmpfs_alloc_entry fresh dup_ok node parent name is_dir st
                in if entry = 0 then (VFS_STATUS_FAILED, st)
                   else (VFS_STATUS_SUCCESS,
                         tmpfs_apply_stat entry node (on_node node (\<lambda>n. n\<lparr>vn_handle := entry\<rparr>) st))) })"

definition tmpfs_mkdir ::
  "u32 \<Rightarrow> bool \<Rightarrow> u32 \<Rightarrow> string option \<Rightarrow> u32 \<Rightarrow> tmpfs_t \<Rightarrow> (int \<times> tmpfs_t) option" where
  "tmpfs_mkdir = tmpfs_make True"

definition tmpfs_mkfile ::
  "u32 \<Rightarrow> bool \<Rightarrow> u32 \<Rightarrow> string option \<Rightarrow> u32 \<Rightarrow> tmpfs_t \<Rightarrow> (int \<times> tmpfs_t) option" where
  "tmpfs_mkfile = tmpfs_make False"

text \<open>A read returns the count and the bytes copied to the caller; a null destination is the flag \<open>addr\<close> = 0.\<close>

definition tmpfs_read :: "u32 \<Rightarrow> u32 \<Rightarrow> u32 \<Rightarrow> u32 \<Rightarrow> tmpfs_t \<Rightarrow> u32 \<times> u8 list" where
  "tmpfs_read file addr offset n st =
     (if file = 0 \<or> addr = 0 then (of_int VFS_STATUS_FAILED, [])
      else
        let entry = te st file
        in if te_is_dir entry then (of_int VFS_STATUS_FAILED, [])
           else if te_size entry \<le> offset then (0, [])
           else
             let available = te_size entry - offset;
                 n = (if available < n then available else n)
             in (n, take (unat n) (drop (unat offset) (te_data entry))))"

partial_function (option) capacity_loop :: "u32 \<Rightarrow> u32 \<Rightarrow> u32 option option" where
  "capacity_loop new_capacity want =
     (if new_capacity < want
      then if (- 1) div 2 < new_capacity then Some None else capacity_loop (new_capacity * 2) want
      else Some (Some new_capacity))"

definition tmpfs_reserve :: "bool \<Rightarrow> u32 \<Rightarrow> u32 \<Rightarrow> tmpfs_t \<Rightarrow> (bool \<times> tmpfs_t) option" where
  "tmpfs_reserve grow_ok entry want st =
     (if want \<le> te_capacity (te st entry) then Some (True, st)
      else do {
        r \<leftarrow> capacity_loop (if te_capacity (te st entry) = 0 then 4096 else te_capacity (te st entry)) want;
        Some (case r of
           None \<Rightarrow> (False, st)
         | Some new_capacity \<Rightarrow>
             if \<not> grow_ok then (False, st)
             else (True, on_entry entry
                     (\<lambda>e. e\<lparr>te_data := te_data e @ replicate (unat (new_capacity - te_capacity e)) 0,
                            te_capacity := new_capacity\<rparr>) st)) })"

definition tmpfs_write ::
  "bool \<Rightarrow> u32 \<Rightarrow> u8 list option \<Rightarrow> u32 \<Rightarrow> u32 \<Rightarrow> tmpfs_t \<Rightarrow> (u32 \<times> tmpfs_t) option" where
  "tmpfs_write grow_ok file addr offset n st =
     (case addr of
        None \<Rightarrow> Some (of_int VFS_STATUS_FAILED, st)
      | Some src \<Rightarrow>
          if file = 0 then Some (of_int VFS_STATUS_FAILED, st)
          else if te_is_dir (te st file) \<or> - 1 - n < offset then Some (of_int VFS_STATUS_FAILED, st)
          else do {
            (ok, st) \<leftarrow> tmpfs_reserve grow_ok file (offset + n) st;
            Some (if \<not> ok then (of_int VFS_STATUS_FAILED, st)
                  else (n, on_entry file
                          (\<lambda>e. e\<lparr>te_data := overwrite (unat offset) (take (unat n) src) (te_data e),
                                 te_size := (if te_size e < offset + n then offset + n else te_size e)\<rparr>) st)) })"

definition tmpfs_resize :: "bool \<Rightarrow> u32 \<Rightarrow> u64 \<Rightarrow> tmpfs_t \<Rightarrow> tmpfs_t option" where
  "tmpfs_resize grow_ok file sz st =
     (if file = 0 \<or> te_is_dir (te st file) \<or> \<not> sz \<le> ucast (- 1 :: u32) then Some st
      else do {
        (ok, st) \<leftarrow> tmpfs_reserve grow_ok file (ucast sz) st;
        Some (if \<not> ok then st
              else on_entry file
                (\<lambda>e. e\<lparr>te_data := (if te_size e < ucast sz
                                   then overwrite (unat (te_size e)) (replicate (unat (ucast sz - te_size e)) 0) (te_data e)
                                   else te_data e),
                       te_size := ucast sz\<rparr>) st) })"

definition tmpfs_delete :: "u32 \<Rightarrow> tmpfs_t \<Rightarrow> (int \<times> tmpfs_t) option" where
  "tmpfs_delete node st =
     do { entry \<leftarrow> tmpfs_find_by_node st node;
          if entry = 0 then Some (- ENOENT, st)
          else do {
            has \<leftarrow> (if te_is_dir (te st entry) then tmpfs_has_child st entry else Some False);
            if has then Some (- ENOTEMPTY, st)
            else do {
              st \<leftarrow> tmpfs_unlink_entry entry st;
              Some (VFS_STATUS_SUCCESS, on_node node (\<lambda>n. n\<lparr>vn_handle := 0\<rparr>) st) } } }"

definition tmpfs_rename ::
  "bool \<Rightarrow> bool \<Rightarrow> u32 \<Rightarrow> string option \<Rightarrow> tmpfs_t \<Rightarrow> (int \<times> tmpfs_t) option" where
  "tmpfs_rename dup_ok node_dup_ok current nw st =
     (case nw of
        None \<Rightarrow> Some (VFS_STATUS_FAILED, st)
      | Some path \<Rightarrow>
          if current = 0 then Some (VFS_STATUS_FAILED, st)
          else
            (case tmpfs_basename_dup dup_ok path of
               None \<Rightarrow> Some (VFS_STATUS_FAILED, st)
             | Some new_name \<Rightarrow>
                 if new_name = [] then Some (VFS_STATUS_FAILED, st)
                 else do {
                   conflict \<leftarrow> tmpfs_find_child st (te_parent (te st current)) (Some new_name);
                   Some (if conflict \<noteq> 0 \<and> conflict \<noteq> current then (- EEXIST, st)
                         else
                           let st = on_entry current (\<lambda>e. e\<lparr>te_name := Some new_name\<rparr>) st
                           in (VFS_STATUS_SUCCESS,
                               if te_node (te st current) \<noteq> 0
                               then on_node (te_node (te st current))
                                      (\<lambda>n. n\<lparr>vn_name := (if node_dup_ok then Some new_name else None)\<rparr>) st
                               else st)) }))"

section \<open>Well-formed file systems\<close>

text \<open>The list of entries, newest first: a parent is a directory further down the list.\<close>

abbreviation entries :: "tmpfs_t \<Rightarrow> u32 list \<Rightarrow> bool" where
  "entries st es \<equiv> linked (te_link st) (tmpfs_entries st) es 0"

fun parents_ok :: "tmpfs_t \<Rightarrow> u32 list \<Rightarrow> bool" where
  "parents_ok st [] \<longleftrightarrow> True"
| "parents_ok st (e # es) \<longleftrightarrow>
     (te_parent (te st e) = 0 \<or> te_parent (te st e) \<in> set es \<and> te_is_dir (te st (te_parent (te st e)))) \<and>
     parents_ok st es"

definition names_ok :: "tmpfs_t \<Rightarrow> u32 list \<Rightarrow> bool" where
  "names_ok st es \<longleftrightarrow>
     (\<forall>e\<in>set es. te_name (te st e) \<noteq> None) \<and>
     (\<forall>e\<in>set es. \<forall>f\<in>set es. te_parent (te st e) \<noteq> 0 \<longrightarrow> te_parent (te st f) = te_parent (te st e) \<longrightarrow>
        te_name (te st f) = te_name (te st e) \<longrightarrow> f = e)"

definition data_ok :: "tmpfs_entry \<Rightarrow> bool" where
  "data_ok e \<longleftrightarrow> length (te_data e) = unat (te_capacity e) \<and> te_size e \<le> te_capacity e"

definition tmpfs_inv :: "tmpfs_t \<Rightarrow> u32 list \<Rightarrow> bool" where
  "tmpfs_inv st es \<longleftrightarrow> entries st es \<and> parents_ok st es \<and> names_ok st es \<and> (\<forall>e\<in>set es. data_ok (te st e))"

lemmas tmpfs_defs = on_entry_def on_node_def te_link_def

datatype tnode = Dir | File "u8 list"

definition kind_of :: "tmpfs_entry \<Rightarrow> tnode" where
  "kind_of e = (if te_is_dir e then Dir else File (take (unat (te_size e)) (te_data e)))"

definition view :: "tmpfs_t \<Rightarrow> u32 list \<Rightarrow> u32 \<rightharpoonup> u32 \<times> string \<times> tnode" where
  "view st es = (\<lambda>e. if e \<in> set es
     then Some (te_parent (te st e), the (te_name (te st e)), kind_of (te st e)) else None)"

lemma entry_sel [simp]:
  "tmpfs_entries (on_entry e f st) = tmpfs_entries st"
  "tmpfs_entries (on_node n g st) = tmpfs_entries st"
  "te (on_node n g st) = te st"
  "te (on_entry e f st) = (te st)(e := f (te st e))"
  "te_link (on_node n g st) = te_link st"
  "tmpfs_entries (tmpfs_apply_stat e n st) = tmpfs_entries st"
  "te (tmpfs_apply_stat e n st) = te st"
  "te_link (tmpfs_apply_stat e n st) = te_link st"
  by (simp_all add: on_entry_def on_node_def te_link_def fun_eq_iff tmpfs_apply_stat_def Let_def)

lemma entries_0: "entries st es \<Longrightarrow> 0 \<notin> set es"
  using linked_nonnull by blast

lemma view_cong:
  assumes "\<And>e. e \<in> set es \<Longrightarrow> te st' e = te st e"
  shows "view st' es = view st es"
  using assms by (auto simp: view_def fun_eq_iff)

lemma inv_cong:
  assumes "tmpfs_entries st' = tmpfs_entries st" "te st' = te st"
  shows "tmpfs_inv st' es = tmpfs_inv st es"
proof -
  have "parents_ok st' es = parents_ok st es" by (induction es) (simp_all add: assms)
  moreover have "te_link st' = te_link st" by (simp add: te_link_def fun_eq_iff assms)
  ultimately show ?thesis by (simp add: tmpfs_inv_def names_ok_def assms)
qed

lemma parents_cong:
  assumes "\<And>e. e \<in> set es \<Longrightarrow> te_parent (te st' e) = te_parent (te st e) \<and> te_is_dir (te st' e) = te_is_dir (te st e)"
  shows "parents_ok st' es = parents_ok st es"
  using assms by (induction es) (simp, fastforce)

lemma parents_live:
  "parents_ok st es \<Longrightarrow> e \<in> set es \<Longrightarrow>
   te_parent (te st e) = 0 \<or> te_parent (te st e) \<in> set es \<and> te_is_dir (te st (te_parent (te st e)))"
  by (induction es) auto

lemma inv_on_entry:
  assumes inv: "tmpfs_inv st es" and e: "e \<in> set es"
    and keep: "te_next (f (te st e)) = te_next (te st e)" "te_parent (f (te st e)) = te_parent (te st e)"
      "te_is_dir (f (te st e)) = te_is_dir (te st e)" "te_name (f (te st e)) = te_name (te st e)"
    and ok: "data_ok (f (te st e))"
  shows "tmpfs_inv (on_entry e f st) es"
proof -
  have "te_link (on_entry e f st) = te_link st" by (simp add: te_link_def fun_eq_iff keep)
  moreover have "parents_ok (on_entry e f st) es = parents_ok st es"
    by (rule parents_cong) (simp add: keep)
  moreover have "te_name (te (on_entry e f st) x) = te_name (te st x)" for x by (simp add: keep)
  moreover have "te_parent (te (on_entry e f st) x) = te_parent (te st x)" for x by (simp add: keep)
  ultimately show ?thesis using inv ok unfolding tmpfs_inv_def names_ok_def by auto
qed

lemma find_by_node:
  assumes "entries st es"
  shows "tmpfs_find_by_node st node = Some (or_null (find (\<lambda>e. te_node (te st e) = node) es))"
  unfolding tmpfs_find_by_node_def using assms by (rule find_node_linked)

definition children :: "tmpfs_t \<Rightarrow> u32 list \<Rightarrow> u32 \<Rightarrow> string \<Rightarrow> u32 set" where
  "children st es parent name = {e \<in> set es. te_parent (te st e) = parent \<and> te_name (te st e) = Some name}"

lemma find_child:
  assumes inv: "tmpfs_inv st es"
  shows "\<exists>c. tmpfs_find_child st parent name = Some c \<and>
    (c = 0 \<longleftrightarrow> parent = 0 \<or> name = None \<or> children st es parent (the name) = {}) \<and>
    (c \<noteq> 0 \<longrightarrow> children st es parent (the name) = {c})"
proof (cases "parent = 0 \<or> name = None")
  case True
  then show ?thesis by (auto simp: tmpfs_find_child_def)
next
  case False
  then obtain s where s: "name = Some s" by auto
  have L: "entries st es" using inv by (simp add: tmpfs_inv_def)
  let ?P = "\<lambda>e. te_parent (te st e) = parent \<and> te_name (te st e) \<noteq> None \<and> te_name (te st e) = name"
  let ?c = "or_null (find ?P es)"
  have run: "tmpfs_find_child st parent name = Some ?c"
    using find_node_linked [OF L, of ?P] False by (auto simp: tmpfs_find_child_def)
  have zero: "?c = 0 \<longleftrightarrow> (\<forall>x\<in>set es. \<not> ?P x)" by (rule or_null_find) (rule entries_0 [OF L])
  then have none: "?c = 0 \<longleftrightarrow> children st es parent s = {}" by (auto simp: children_def s)
  moreover have "children st es parent s = {?c}" if "?c \<noteq> 0"
  proof -
    have c: "?c \<in> set es" "?P ?c" using or_null_found [OF that] by blast+
    have "names_ok st es" using inv by (simp add: tmpfs_inv_def)
    then have "x = ?c" if "x \<in> children st es parent s" for x
      using c False that unfolding names_ok_def children_def s by (metis (mono_tags, lifting) mem_Collect_eq)
    moreover have "?c \<in> children st es parent s" using c unfolding children_def s by blast
    ultimately show ?thesis by blast
  qed
  ultimately show ?thesis using run False s by auto
qed

text \<open>Adding an entry at the head and taking one out of the list.\<close>

lemma alloc_entry_spec:
  assumes inv: "tmpfs_inv st es" and fresh: "fresh \<notin> set es"
    and parent: "parent = 0 \<or> parent \<in> set es \<and> te_is_dir (te st parent)"
    and new: "parent \<noteq> 0 \<Longrightarrow> children st es parent s = {}"
    and run: "tmpfs_alloc_entry fresh dup_ok node parent name d st = (e, st')"
    and s: "s = (case name of None \<Rightarrow> [] | Some s \<Rightarrow> s)"
  shows "if fresh \<noteq> 0 \<and> dup_ok
    then e = fresh \<and> tmpfs_inv st' (fresh # es) \<and> tmpfs_id st' = tmpfs_id st \<and> vn st' = vn st \<and>
         view st' (fresh # es) = (view st es)(fresh \<mapsto> (parent, s, if d then Dir else File [])) \<and>
         te_node (te st' fresh) = node \<and> (\<forall>x. x \<noteq> fresh \<longrightarrow> te st' x = te st x)
    else e = 0 \<and> st' = st"
proof (cases "fresh \<noteq> 0 \<and> dup_ok")
  case False
  then show ?thesis using run by (auto simp: tmpfs_alloc_entry_def split: if_splits)
next
  case True
  define new where "new = \<lparr>te_node = node, te_parent = parent, te_next = tmpfs_entries st, te_name = Some s,
     te_data = [], te_size = 0, te_capacity = 0, te_is_dir = d, te_inode = tmpfs_next_ino st\<rparr>"
  have st': "e = fresh" "tmpfs_entries st' = fresh" "te st' = (te st)(fresh := new)" "vn st' = vn st"
    "tmpfs_id st' = tmpfs_id st"
    using run True by (auto simp: tmpfs_alloc_entry_def new_def s)
  have link: "te_link st' = (te_link st)(fresh := tmpfs_entries st)"
    by (simp add: te_link_def fun_eq_iff st' new_def)
  have I: "entries st es" "parents_ok st es" "names_ok st es" "\<forall>e\<in>set es. data_ok (te st e)"
    using inv by (simp_all add: tmpfs_inv_def)
  have "entries st' (fresh # es)" using I(1) fresh True by (simp add: link st')
  moreover have "parents_ok st' es = parents_ok st es" using fresh by (intro parents_cong) (auto simp: st')
  then have "parents_ok st' (fresh # es)" using I(2) parent fresh by (auto simp: st' new_def)
  moreover have "names_ok st' (fresh # es)"
    using I(3) new fresh unfolding names_ok_def children_def by (auto simp: st' new_def)
  moreover have "\<forall>e\<in>set (fresh # es). data_ok (te st' e)" using I(4) by (auto simp: st' new_def data_ok_def)
  ultimately have "tmpfs_inv st' (fresh # es)" by (simp add: tmpfs_inv_def)
  moreover have "view st' (fresh # es) = (view st es)(fresh \<mapsto> (parent, s, if d then Dir else File []))"
    using fresh by (auto simp: view_def fun_eq_iff st' new_def kind_of_def)
  ultimately show ?thesis using True st' by (simp add: new_def)
qed

lemma remove1_split: "distinct (us @ x # vs) \<Longrightarrow> remove1 x (us @ x # vs) = us @ vs"
  by (simp add: remove1_append)

lemma parents_remove:
  assumes "parents_ok st (us @ x # vs)" and "\<forall>e\<in>set us. te_parent (te st e) \<noteq> x"
  shows "parents_ok st (us @ vs)"
  using assms by (induction us) auto

lemma unlink_spec:
  assumes inv: "tmpfs_inv st es" and x: "x \<in> set es" and free: "\<forall>e\<in>set es. te_parent (te st e) \<noteq> x"
  shows "\<exists>st'. tmpfs_unlink_entry x st = Some st' \<and> tmpfs_inv st' (remove1 x es) \<and>
    view st' (remove1 x es) = (view st es)(x := None) \<and> vn st' = vn st \<and> tmpfs_id st' = tmpfs_id st"
proof -
  have I: "entries st es" "parents_ok st es" "names_ok st es" "\<forall>e\<in>set es. data_ok (te st e)"
    using inv by (simp_all add: tmpfs_inv_def)
  have D: "distinct es" using I(1) by (rule linked_distinct)
  obtain y where y: "find (\<lambda>e. e = x) es = Some y"
    using x by (cases "find (\<lambda>e. e = x) es") (auto simp: find_None_iff)
  obtain us vs where p: "es = us @ y # vs" "y = x" "takeWhile (\<lambda>e. \<not> e = x) es = us"
    using find_split [OF y] by blast
  have es: "es = us @ x # vs" and us: "takeWhile (\<lambda>e. \<not> e = x) es = us"
    and fx: "find (\<lambda>e. e = x) es = Some x" using p y by simp_all
  have x0: "x \<noteq> 0" using I(1) x linked_nonnull by blast
  have rm: "remove1 x es = us @ vs" using D remove1_split by (simp add: es)
  have walk: "find_link (\<lambda>e. e = x) (te_link st) 0 (tmpfs_entries st) = Some (last (0 # us), x)"
    using find_link_linked [OF I(1), of "\<lambda>e. e = x" 0] us fx by simp
  define st' where "st' = (if us = [] then st\<lparr>tmpfs_entries := te_next (te st x)\<rparr>
      else on_entry (last us) (\<lambda>e. e\<lparr>te_next := te_next (te st x)\<rparr>) st)"
  have last0: "last us \<noteq> 0" if "us \<noteq> []"
    using that I(1) linked_nonnull [of "te_link st" _ es 0 "last us"] by (simp add: es)
  have run: "tmpfs_unlink_entry x st = Some st'"
    using walk x0 last0 by (auto simp: tmpfs_unlink_entry_def st'_def)
  have same: "te st' e = te st e \<or> te st' e = (te st e)\<lparr>te_next := te_next (te st x)\<rparr>" for e
    by (simp add: st'_def)
  have fields: "te_parent (te st' e) = te_parent (te st e)" "te_is_dir (te st' e) = te_is_dir (te st e)"
    "te_name (te st' e) = te_name (te st e)" "kind_of (te st' e) = kind_of (te st e)"
    "data_ok (te st' e) = data_ok (te st e)" for e
    using same [of e] by (auto simp: kind_of_def data_ok_def)
  have link: "te_link st' = (if us = [] then te_link st else (te_link st)(last us := te_link st x))"
    by (auto simp: te_link_def fun_eq_iff st'_def)
  have head: "tmpfs_entries st' = (if us = [] then te_link st x else tmpfs_entries st)"
    by (auto simp: te_link_def st'_def)
  have "entries st' (us @ vs)"
    using linked_unlink [of "te_link st" "tmpfs_entries st" us x vs] I(1) by (auto simp: es link head split: if_splits)
  moreover have "parents_ok st (us @ vs)"
    using parents_remove [of st us x vs] I(2) free by (simp add: es)
  then have "parents_ok st' (us @ vs)" using parents_cong [of "us @ vs" st' st] fields by simp
  moreover have "names_ok st' (us @ vs)" using I(3) unfolding names_ok_def fields by (auto simp: es)
  moreover have "\<forall>e\<in>set (us @ vs). data_ok (te st' e)" using I(4) by (auto simp: fields es)
  ultimately have "tmpfs_inv st' (us @ vs)" by (simp add: tmpfs_inv_def)
  moreover have "view st' (us @ vs) = (view st es)(x := None)"
    using D by (auto simp: view_def fun_eq_iff fields es)
  ultimately show ?thesis using run by (auto simp: rm st'_def on_entry_def)
qed

section \<open>The name space\<close>

lemma make_spec:
  assumes inv: "tmpfs_inv st es" and fresh: "fresh \<notin> set es" and parent: "parent = 0 \<or> parent \<in> set es"
  shows "\<exists>r st'. tmpfs_make d fresh dup_ok parent (Some s) node st = Some (r, st') \<and>
    (if parent \<noteq> 0 \<and> te_is_dir (te st parent) \<and> children st es parent s = {} \<and> fresh \<noteq> 0 \<and> dup_ok
     then r = 0 \<and> tmpfs_inv st' (fresh # es) \<and>
          view st' (fresh # es) = (view st es)(fresh \<mapsto> (parent, s, if d then Dir else File [])) \<and>
          te_node (te st' fresh) = node \<and> vn_handle (vn st' node) = fresh
     else r = - 1 \<and> st' = st)"
proof (cases "parent = 0 \<or> \<not> te_is_dir (te st parent)")
  case True
  then show ?thesis by (auto simp: tmpfs_make_def)
next
  case False
  obtain c where c: "tmpfs_find_child st parent (Some s) = Some c" "c = 0 \<longleftrightarrow> children st es parent s = {}"
    using find_child [OF inv, of parent "Some s"] False by auto
  show ?thesis
  proof (cases "c = 0")
    case False
    then show ?thesis using c \<open>\<not> (parent = 0 \<or> \<not> te_is_dir (te st parent))\<close> by (auto simp: tmpfs_make_def)
  next
    case True
    obtain e st1 where al: "tmpfs_alloc_entry fresh dup_ok node parent (Some s) d st = (e, st1)" by fastforce
    have A: "if fresh \<noteq> 0 \<and> dup_ok
      then e = fresh \<and> tmpfs_inv st1 (fresh # es) \<and> tmpfs_id st1 = tmpfs_id st \<and> vn st1 = vn st \<and>
           view st1 (fresh # es) = (view st es)(fresh \<mapsto> (parent, s, if d then Dir else File [])) \<and>
           te_node (te st1 fresh) = node \<and> (\<forall>x. x \<noteq> fresh \<longrightarrow> te st1 x = te st x)
      else e = 0 \<and> st1 = st"
      using alloc_entry_spec [OF inv fresh _ _ al, of s] parent False c True by auto
    define st2 where "st2 = tmpfs_apply_stat e node (on_node node (\<lambda>n. n\<lparr>vn_handle := e\<rparr>) st1)"
    have run: "tmpfs_make d fresh dup_ok parent (Some s) node st = Some (if e = 0 then (- 1, st1) else (0, st2))"
      using al c(1) True False by (simp add: tmpfs_make_def st2_def)
    have st2: "te st2 = te st1" "tmpfs_entries st2 = tmpfs_entries st1" "vn_handle (vn st2 node) = e"
      by (simp_all add: st2_def tmpfs_apply_stat_def on_node_def Let_def)
    show ?thesis
    proof (cases "fresh \<noteq> 0 \<and> dup_ok")
      case True
      then have "tmpfs_inv st2 (fresh # es)" "view st2 (fresh # es) = view st1 (fresh # es)"
        using A inv_cong [OF st2(2,1)] view_cong [of "fresh # es" st2 st1] st2(1) by auto
      then show ?thesis using A True run c(2) False \<open>c = 0\<close> st2 by auto
    next
      case False
      then show ?thesis using A run by auto
    qed
  qed
qed

lemma mount_spec:
  assumes inv: "tmpfs_inv st es" and fresh: "fresh \<notin> set es"
  shows "\<exists>r st'. tmpfs_mount fresh dup_ok src node st = (r, st') \<and>
    (if src = 2 \<and> fresh \<noteq> 0 \<and> dup_ok
     then r = 0 \<and> tmpfs_inv st' (fresh # es) \<and> vn_handle (vn st' node) = fresh \<and>
          view st' (fresh # es) = (view st es)(fresh \<mapsto> (0, case vn_name (vn st node) of None \<Rightarrow> [] | Some s \<Rightarrow> s, Dir))
     else r = - 1 \<and> st' = st)"
proof (cases "src = 2")
  case False
  then show ?thesis by (simp add: tmpfs_mount_def)
next
  case True
  let ?s = "case vn_name (vn st node) of None \<Rightarrow> [] | Some s \<Rightarrow> s"
  obtain e st1 where al: "tmpfs_alloc_entry fresh dup_ok node 0 (Some ?s) True st = (e, st1)" by fastforce
  have A: "if fresh \<noteq> 0 \<and> dup_ok
    then e = fresh \<and> tmpfs_inv st1 (fresh # es) \<and> tmpfs_id st1 = tmpfs_id st \<and> vn st1 = vn st \<and>
         view st1 (fresh # es) = (view st es)(fresh \<mapsto> (0, ?s, if True then Dir else File [])) \<and>
         te_node (te st1 fresh) = node \<and> (\<forall>x. x \<noteq> fresh \<longrightarrow> te st1 x = te st x)
    else e = 0 \<and> st1 = st"
    by (rule alloc_entry_spec [OF inv fresh _ _ al]) simp_all
  define st2 where "st2 = on_node node (\<lambda>n. n\<lparr>vn_handle := e, vn_fsid := of_int (tmpfs_id st1), vn_type := 2,
     vn_inode := 1, vn_blksz := 4096\<rparr>) st1"
  have run: "tmpfs_mount fresh dup_ok src node st = (if e = 0 then (- 1, st1) else (0, st2))"
    using al True by (simp add: tmpfs_mount_def st2_def)
  have st2: "te st2 = te st1" "tmpfs_entries st2 = tmpfs_entries st1" "vn_handle (vn st2 node) = e"
    by (simp_all add: st2_def on_node_def)
  show ?thesis
  proof (cases "fresh \<noteq> 0 \<and> dup_ok")
    case ok: True
    then have "tmpfs_inv st2 (fresh # es)" "view st2 (fresh # es) = view st1 (fresh # es)"
      using A inv_cong [OF st2(2,1)] view_cong [of "fresh # es" st2 st1] st2(1) by auto
    then show ?thesis using A ok run True st2 by auto
  next
    case False
    then show ?thesis using A run by auto
  qed
qed

lemma tmpfs_delete_spec:
  assumes inv: "tmpfs_inv st es"
  shows "\<exists>r st'. tmpfs_delete node st = Some (r, st') \<and>
    (if \<forall>e\<in>set es. te_node (te st e) \<noteq> node then r = - 2 \<and> st' = st
     else \<exists>e\<in>set es. te_node (te st e) = node \<and>
       (if \<exists>c\<in>set es. te_parent (te st c) = e then r = - 39 \<and> st' = st
        else r = 0 \<and> tmpfs_inv st' (remove1 e es) \<and> view st' (remove1 e es) = (view st es)(e := None)))"
proof -
  have L: "entries st es" and par: "parents_ok st es" using inv by (simp_all add: tmpfs_inv_def)
  note nz = entries_0 [OF L]
  let ?e = "or_null (find (\<lambda>e. te_node (te st e) = node) es)"
  have e0: "?e = 0 \<longleftrightarrow> (\<forall>e\<in>set es. te_node (te st e) \<noteq> node)" by (rule or_null_find [OF nz])
  show ?thesis
  proof (cases "?e = 0")
    case True
    then show ?thesis using e0 find_by_node [OF L, of node] by (simp add: tmpfs_delete_def)
  next
    case False
    define x where "x = ?e"
    have x: "x \<in> set es" "te_node (te st x) = node" using or_null_found [OF False] by (simp_all add: x_def)
    define has where "has \<longleftrightarrow> (\<exists>c\<in>set es. te_parent (te st c) = x)"
    have "tmpfs_has_child st x = Some has"
      using find_node_linked [OF L, of "\<lambda>e. te_parent (te st e) = x"]
        or_null_find [OF nz, of "\<lambda>e. te_parent (te st e) = x"] by (auto simp: tmpfs_has_child_def has_def)
    moreover have "\<not> has" if "\<not> te_is_dir (te st x)"
      using that parents_live [OF par] x(1) nz unfolding has_def by metis
    ultimately have guard: "(if te_is_dir (te st x) then tmpfs_has_child st x else Some False) = Some has" by auto
    have find: "tmpfs_find_by_node st node = Some x" "x \<noteq> 0"
      using find_by_node [OF L, of node] False by (simp_all add: x_def)
    have many: "\<not> (\<forall>e\<in>set es. te_node (te st e) \<noteq> node)" using x by blast
    show ?thesis
    proof (cases has)
      case True
      then show ?thesis using guard find many x by (auto simp: tmpfs_delete_def has_def)
    next
      case no: False
      then obtain st1 where st1: "tmpfs_unlink_entry x st = Some st1" "tmpfs_inv st1 (remove1 x es)"
          "view st1 (remove1 x es) = (view st es)(x := None)"
        using unlink_spec [OF inv x(1)] by (auto simp: has_def)
      define st2 where "st2 = on_node node (\<lambda>n. n\<lparr>vn_handle := 0\<rparr>) st1"
      have "tmpfs_delete node st = Some (0, st2)" using guard find no st1 by (simp add: tmpfs_delete_def st2_def)
      moreover have "tmpfs_inv st2 (remove1 x es)" using st1 inv_cong [of st2 st1] by (simp add: st2_def)
      moreover have "view st2 (remove1 x es) = (view st es)(x := None)"
        using st1 view_cong [of "remove1 x es" st2 st1] by (simp add: st2_def)
      ultimately show ?thesis using x many no by (auto simp: has_def)
    qed
  qed
qed

definition basename :: "string \<Rightarrow> string" where
  "basename path = rev (takeWhile (\<lambda>c. c \<noteq> CHR ''/'') (rev path))"

lemma inv_rename:
  assumes inv: "tmpfs_inv st es" and e: "e \<in> set es"
    and new: "te_parent (te st e) \<noteq> 0 \<Longrightarrow> children st es (te_parent (te st e)) s \<subseteq> {e}"
  shows "tmpfs_inv (on_entry e (\<lambda>e. e\<lparr>te_name := Some s\<rparr>) st) es"
proof -
  let ?st = "on_entry e (\<lambda>e. e\<lparr>te_name := Some s\<rparr>) st"
  have I: "entries st es" "parents_ok st es" "names_ok st es" "\<forall>e\<in>set es. data_ok (te st e)"
    using inv by (simp_all add: tmpfs_inv_def)
  have "te_link ?st = te_link st" by (simp add: te_link_def fun_eq_iff)
  then have "entries ?st es" using I(1) by simp
  moreover have "parents_ok ?st es" using parents_cong [of es ?st st] I(2) by simp
  moreover have "\<forall>e\<in>set es. data_ok (te ?st e)" using I(4) by (auto simp: data_ok_def)
  moreover have "names_ok ?st es"
    using I(3) new e unfolding names_ok_def children_def by (auto split: if_splits)
  ultimately show ?thesis by (simp add: tmpfs_inv_def)
qed

lemma rename_spec:
  assumes inv: "tmpfs_inv st es" and e: "e \<in> set es"
  shows "\<exists>r st'. tmpfs_rename dup_ok ndup_ok e (Some path) st = Some (r, st') \<and>
    (if \<not> dup_ok \<or> basename path = [] then r = - 1 \<and> st' = st
     else if te_parent (te st e) \<noteq> 0 \<and> \<not> children st es (te_parent (te st e)) (basename path) \<subseteq> {e}
       then r = - 17 \<and> st' = st
     else r = 0 \<and> tmpfs_inv st' es \<and>
       view st' es = (view st es)(e \<mapsto> (te_parent (te st e), basename path, kind_of (te st e))))"
proof -
  have e0: "e \<noteq> 0" using inv e entries_0 by (auto simp: tmpfs_inv_def)
  show ?thesis
  proof (cases "dup_ok \<and> basename path \<noteq> []")
    case False
    then show ?thesis using e0 by (auto simp: tmpfs_rename_def tmpfs_basename_dup_def basename_def)
  next
    case True
    let ?b = "basename path"
    let ?p = "te_parent (te st e)"
    obtain c where c: "tmpfs_find_child st ?p (Some ?b) = Some c"
      "c = 0 \<longleftrightarrow> ?p = 0 \<or> children st es ?p ?b = {}" "c \<noteq> 0 \<longrightarrow> children st es ?p ?b = {c}"
      using find_child [OF inv, of ?p "Some ?b"] by auto
    define st1 where "st1 = on_entry e (\<lambda>e. e\<lparr>te_name := Some ?b\<rparr>) st"
    define st2 where "st2 = (if te_node (te st1 e) \<noteq> 0
       then on_node (te_node (te st1 e)) (\<lambda>n. n\<lparr>vn_name := (if ndup_ok then Some ?b else None)\<rparr>) st1 else st1)"
    have bd: "tmpfs_basename_dup dup_ok path = Some ?b" using True by (simp add: tmpfs_basename_dup_def basename_def)
    have run: "tmpfs_rename dup_ok ndup_ok e (Some path) st = Some (if c \<noteq> 0 \<and> c \<noteq> e then (- 17, st) else (0, st2))"
      using True e0 c(1) bd by (simp add: tmpfs_rename_def st1_def st2_def Let_def)
    have st2: "te st2 = te st1" "tmpfs_entries st2 = tmpfs_entries st1" by (simp_all add: st2_def)
    have conf: "c \<noteq> 0 \<and> c \<noteq> e \<longleftrightarrow> ?p \<noteq> 0 \<and> \<not> children st es ?p ?b \<subseteq> {e}"
      using c by auto
    show ?thesis
    proof (cases "c \<noteq> 0 \<and> c \<noteq> e")
      case clash: True
      then show ?thesis using run True conf by auto
    next
      case False
      have "tmpfs_inv st1 es" unfolding st1_def using False conf by (intro inv_rename [OF inv e]) blast
      then have "tmpfs_inv st2 es" using inv_cong [OF st2(2,1)] by simp
      moreover have "view st2 es = (view st es)(e \<mapsto> (?p, ?b, kind_of (te st e)))"
        using e by (auto simp: view_def fun_eq_iff st2(1) st1_def kind_of_def)
      ultimately show ?thesis using run True conf False by auto
    qed
  qed
qed

lemma open_spec:
  assumes inv: "tmpfs_inv st es"
  shows "\<exists>st'. tmpfs_open parent name node st = Some st' \<and> tmpfs_inv st' es \<and> view st' es = view st es"
proof -
  have L: "entries st es" using inv by (simp add: tmpfs_inv_def)
  let ?e = "or_null (find (\<lambda>e. te_node (te st e) = node) es)"
  have find: "tmpfs_find_by_node st node = Some ?e" by (rule find_by_node [OF L])
  obtain c where c: "tmpfs_find_child st parent name = Some c" "c \<noteq> 0 \<longrightarrow> children st es parent (the name) = {c}"
    using find_child [OF inv, of parent name] by auto
  define st1 where "st1 = (if ?e = 0 \<and> c \<noteq> 0 then on_entry c (\<lambda>e. e\<lparr>te_node := node\<rparr>) st else st)"
  define x where "x = (if ?e = 0 then c else ?e)"
  have st1: "tmpfs_inv st1 es \<and> view st1 es = view st es"
  proof (cases "?e = 0 \<and> c \<noteq> 0")
    case True
    then have cm: "c \<in> set es" using c(2) by (auto simp: children_def)
    then have "tmpfs_inv (on_entry c (\<lambda>e. e\<lparr>te_node := node\<rparr>) st) es"
      using inv by (intro inv_on_entry) (auto simp: tmpfs_inv_def data_ok_def)
    moreover have "view (on_entry c (\<lambda>e. e\<lparr>te_node := node\<rparr>) st) es = view st es"
      by (auto simp: view_def fun_eq_iff kind_of_def)
    ultimately show ?thesis using True by (simp add: st1_def)
  next
    case False
    then show ?thesis using inv by (auto simp: st1_def)
  qed
  define st2 where "st2 = (if x \<noteq> 0 then tmpfs_apply_stat x node (on_node node (\<lambda>n. n\<lparr>vn_handle := x\<rparr>) st1) else st1)"
  have "tmpfs_open parent name node st = Some st2"
    using find c(1) by (simp add: tmpfs_open_def st2_def x_def st1_def)
  moreover have "tmpfs_inv st2 es \<and> view st2 es = view st es"
    using st1 inv_cong [of st2 st1] view_cong [of es st2 st1] by (simp add: st2_def)
  ultimately show ?thesis by blast
qed

lemma stat_spec:
  "tmpfs_stat file node st = (r, st') \<Longrightarrow> te st' = te st \<and> tmpfs_entries st' = tmpfs_entries st"
  by (auto simp: tmpfs_stat_def split: if_splits)

section \<open>File contents\<close>

lemma capacity_loop_returns:
  "0 < unat cap \<Longrightarrow>
   (\<exists>c. capacity_loop cap want = Some (Some c) \<and> want \<le> c \<and> cap \<le> c) \<or>
   capacity_loop cap want = Some None \<and> 2 ^ 31 < unat want"
proof (induction "unat want - unat cap" arbitrary: cap rule: less_induct)
  case less
  have half: "(- 1 :: u32) div 2 = 0x7FFFFFFF" by simp
  show ?case
  proof (cases "cap < want")
    case False
    then show ?thesis by (subst (1 2) capacity_loop.simps) auto
  next
    case lt: True
    show ?thesis
    proof (cases "0x7FFFFFFF < cap")
      case True
      then have "0x7FFFFFFF < unat cap" by (simp add: word_lt_unat)
      moreover have "unat cap < unat want" using lt by (simp add: word_lt_unat)
      ultimately show ?thesis using lt True by (subst (1 2) capacity_loop.simps) (simp add: half)
    next
      case False
      then have c: "unat cap \<le> 0x7FFFFFFF" by (simp add: word_lt_unat not_less)
      have u: "unat (cap * 2) = 2 * unat cap" using c by (simp add: unat_word_ariths)
      have step: "capacity_loop cap want = capacity_loop (cap * 2) want"
        using lt False by (subst capacity_loop.simps) (simp add: half)
      have "unat cap < unat want" using lt by (simp add: word_lt_unat)
      then have "unat want - unat (cap * 2) < unat want - unat cap" using u less.prems by linarith
      from less.hyps [OF this] u less.prems
      have "(\<exists>c. capacity_loop (cap * 2) want = Some (Some c) \<and> want \<le> c \<and> cap * 2 \<le> c) \<or>
            capacity_loop (cap * 2) want = Some None \<and> 2 ^ 31 < unat want" by simp
      moreover have "cap \<le> cap * 2" using u by (simp add: word_le_unat)
      ultimately show ?thesis unfolding step by (meson order_trans)
    qed
  qed
qed

lemma reserve_spec:
  assumes ok: "data_ok (te st e)"
  shows "\<exists>b st'. tmpfs_reserve grow_ok e want st = Some (b, st') \<and>
    (grow_ok \<longrightarrow> unat want \<le> 2 ^ 31 \<longrightarrow> b) \<and> (\<not> b \<longrightarrow> st' = st) \<and>
    (b \<longrightarrow> (\<exists>k c. st' = on_entry e (\<lambda>x. x\<lparr>te_data := te_data x @ replicate k 0, te_capacity := c\<rparr>) st \<and>
            want \<le> c \<and> te_capacity (te st e) \<le> c \<and> unat c = unat (te_capacity (te st e)) + k))"
proof (cases "want \<le> te_capacity (te st e)")
  case True
  have "\<exists>k c. st = on_entry e (\<lambda>x. x\<lparr>te_data := te_data x @ replicate k 0, te_capacity := c\<rparr>) st \<and>
      want \<le> c \<and> te_capacity (te st e) \<le> c \<and> unat c = unat (te_capacity (te st e)) + k"
    using True by (intro exI [of _ 0] exI [of _ "te_capacity (te st e)"]) (simp add: on_entry_def)
  moreover have "tmpfs_reserve grow_ok e want st = Some (True, st)" using True by (simp add: tmpfs_reserve_def)
  ultimately show ?thesis by blast
next
  case False
  let ?old = "te_capacity (te st e)"
  let ?cap = "if ?old = 0 then 4096 else ?old"
  have pos: "0 < unat ?cap" using unat_gt_0 [of ?old] by simp
  show ?thesis
  proof (cases "\<exists>c. capacity_loop ?cap want = Some (Some c) \<and> want \<le> c \<and> ?cap \<le> c")
    case True
    then obtain c where c: "capacity_loop ?cap want = Some (Some c)" "want \<le> c" "?cap \<le> c" by blast
    then have le: "?old \<le> c" by (simp split: if_splits)
    have u: "unat c = unat ?old + unat (c - ?old)" using le by (simp add: unat_sub_le word_le_unat)
    show ?thesis
    proof (cases grow_ok)
      case g: True
      have "tmpfs_reserve grow_ok e want st = Some (True, on_entry e
          (\<lambda>x. x\<lparr>te_data := te_data x @ replicate (unat (c - ?old)) 0, te_capacity := c\<rparr>) st)"
        using c(1) False g by (simp add: tmpfs_reserve_def on_entry_def)
      then show ?thesis using c(2) le u by blast
    next
      case g: False
      have "tmpfs_reserve grow_ok e want st = Some (False, st)" using c(1) False g by (simp add: tmpfs_reserve_def)
      then show ?thesis using g by blast
    qed
  next
    case none: False
    then have "capacity_loop ?cap want = Some None" "2 ^ 31 < unat want"
      using capacity_loop_returns [OF pos, of want] by blast+
    then have "tmpfs_reserve grow_ok e want st = Some (False, st)" "\<not> unat want \<le> 2 ^ 31"
      using False by (simp_all add: tmpfs_reserve_def)
    then show ?thesis by blast
  qed
qed

text \<open>The buffer behind the contents: what it holds beyond the end of the file, zeros where it must grow.\<close>

definition leftover :: "tmpfs_entry \<Rightarrow> nat \<Rightarrow> u8 list" where
  "leftover e n = take (n - unat (te_size e)) (drop (unat (te_size e)) (te_data e) @ replicate n 0)"

lemma take_gap:
  "s \<le> length xs \<Longrightarrow> s \<le> n \<Longrightarrow> n \<le> length xs + k \<Longrightarrow>
   take n (xs @ replicate k z) = take s xs @ take (n - s) (drop s xs @ replicate n z)"
  by (rule nth_equalityI) (auto simp: nth_append min_def)

lemma leftover_replicate:
  "unat (te_size e) \<le> length (te_data e) \<Longrightarrow> n \<le> length (te_data e) + k \<Longrightarrow> unat (te_size e) \<le> n \<Longrightarrow>
   take n (te_data e @ replicate k 0) = take (unat (te_size e)) (te_data e) @ leftover e n"
  unfolding leftover_def by (rule take_gap)

definition content :: "tmpfs_t \<Rightarrow> u32 \<Rightarrow> u8 list" where
  "content st e = take (unat (te_size (te st e))) (te_data (te st e))"

lemma view_file:
  "e \<in> set es \<Longrightarrow> \<not> te_is_dir (te st e) \<Longrightarrow>
   view st es e = Some (te_parent (te st e), the (te_name (te st e)), File (content st e))"
  by (simp add: view_def kind_of_def content_def)

lemma view_set_file:
  assumes "e \<in> set es" and "\<not> te_is_dir (te st e)"
    and "\<And>x. x \<noteq> e \<Longrightarrow> te st' x = te st x"
    and "te_parent (te st' e) = te_parent (te st e)" "te_name (te st' e) = te_name (te st e)"
      "te_is_dir (te st' e) = te_is_dir (te st e)"
  shows "view st' es = (view st es)(e \<mapsto> (te_parent (te st e), the (te_name (te st e)), File (content st' e)))"
  using assms by (auto simp: view_def fun_eq_iff kind_of_def content_def)

lemma take_over:
  "length us + length vs \<le> m \<Longrightarrow> take m (us @ vs @ ws) = us @ vs @ take (m - (length us + length vs)) ws"
  by simp

lemma overwrite_take:
  assumes "s \<le> length xs" and "i + length ys \<le> length xs + k"
  shows "take (max s (i + length ys)) (overwrite i ys (xs @ replicate k z)) =
    overwrite i ys (take s xs @ take (i - s) (drop s xs @ replicate i z))"
proof -
  let ?X = "xs @ replicate k z"
  have Y: "take s xs @ take (i - s) (drop s xs @ replicate i z) = take (max s i) ?X"
    using take_gap [of s xs i k z] assms by (cases "s \<le> i") (auto simp: max_def)
  have m: "max s (i + length ys) - (i + length ys) = s - (i + length ys)"
    "max s i - (i + length ys) = s - (i + length ys)" "min i (max s i) = i" by (simp_all add: max_def)
  have len: "length (take i ?X) = i" using assms by simp
  have "take (max s (i + length ys)) (take i ?X @ ys @ drop (i + length ys) ?X) =
      take i ?X @ ys @ take (max s (i + length ys) - (length (take i ?X) + length ys)) (drop (i + length ys) ?X)"
    by (rule take_over) (simp only: len max.cobounded2)
  then have "take (max s (i + length ys)) (overwrite i ys ?X) =
      take i ?X @ ys @ take (s - (i + length ys)) (drop (i + length ys) ?X)"
    unfolding overwrite_def len m(1) .
  moreover have "overwrite i ys (take (max s i) ?X) =
      take i ?X @ ys @ take (s - (i + length ys)) (drop (i + length ys) ?X)"
    unfolding overwrite_def drop_take take_take m ..
  ultimately show ?thesis by (simp only: Y)
qed

lemma unat_max_minus: "unat (- 1 - n :: u32) = 4294967295 - unat n"
proof -
  have m: "(- 1 :: u32) = 4294967295" by simp
  have "unat n < 4294967296" by (rule unat_lt32)
  then have "unat n \<le> 4294967295" by linarith
  then have "unat n \<le> unat (4294967295 :: u32)" by simp
  then show ?thesis unfolding m by (subst unat_sub_le) simp_all
qed

lemma write_spec:
  assumes inv: "tmpfs_inv st es" and e: "e \<in> set es" and reg: "\<not> te_is_dir (te st e)"
    and src: "length src = unat n"
  shows "\<exists>r st'. tmpfs_write grow_ok e (Some src) off n st = Some (r, st') \<and> tmpfs_inv st' es \<and>
    (r = n \<and> content st' e = overwrite (unat off) src (content st e @ leftover (te st e) (unat off)) \<and>
     view st' es = (view st es)(e \<mapsto> (te_parent (te st e), the (te_name (te st e)), File (content st' e))) \<or>
     r = - 1 \<and> st' = st \<and> \<not> (grow_ok \<and> unat off + unat n \<le> 2 ^ 31))"
proof -
  have e0: "e \<noteq> 0" using inv e entries_0 by (auto simp: tmpfs_inv_def)
  have ok: "data_ok (te st e)" using inv e by (simp add: tmpfs_inv_def)
  show ?thesis
  proof (cases "- 1 - n < off")
    case True
    have "unat (- 1 - n) = 4294967295 - unat n" by (rule unat_max_minus)
    then have "\<not> unat off + unat n \<le> 2 ^ 31" using True unat_lt32 [of n] by (simp add: word_lt_unat)
    moreover have "tmpfs_write grow_ok e (Some src) off n st = Some (- 1, st)"
      using True e0 reg by (simp add: tmpfs_write_def)
    ultimately show ?thesis using inv by auto
  next
    case False
    have "unat (- 1 - n) = 4294967295 - unat n" by (rule unat_max_minus)
    then have "unat off \<le> 4294967295 - unat n" using False by (simp add: word_lt_unat not_less)
    moreover have "unat n < 4294967296" by (rule unat_lt32)
    ultimately have room: "unat off + unat n < 4294967296" by linarith
    then have sum: "unat (off + n) = unat off + unat n" by (simp add: unat_add_small)
    obtain b st1 where st1: "tmpfs_reserve grow_ok e (off + n) st = Some (b, st1)"
      "grow_ok \<Longrightarrow> unat (off + n) \<le> 2 ^ 31 \<Longrightarrow> b" "\<not> b \<Longrightarrow> st1 = st"
      "b \<Longrightarrow> \<exists>k c. st1 = on_entry e (\<lambda>x. x\<lparr>te_data := te_data x @ replicate k 0, te_capacity := c\<rparr>) st \<and>
            off + n \<le> c \<and> te_capacity (te st e) \<le> c \<and> unat c = unat (te_capacity (te st e)) + k"
      using reserve_spec [where grow_ok = grow_ok and want = "off + n", OF ok] by blast
    show ?thesis
    proof (cases b)
      case nb: False
      then have "tmpfs_write grow_ok e (Some src) off n st = Some (- 1, st)"
        using st1 False e0 reg by (simp add: tmpfs_write_def)
      then show ?thesis using inv st1(2) nb sum by auto
    next
      case True
      then obtain k c where k: "st1 = on_entry e (\<lambda>x. x\<lparr>te_data := te_data x @ replicate k 0, te_capacity := c\<rparr>) st"
        "off + n \<le> c" "te_capacity (te st e) \<le> c" "unat c = unat (te_capacity (te st e)) + k"
        using st1(4) by blast
      let ?D = "te_data (te st e)" and ?s = "unat (te_size (te st e))"
      let ?f = "\<lambda>x. x\<lparr>te_data := overwrite (unat off) (take (unat n) src) (te_data x),
                     te_size := (if te_size x < off + n then off + n else te_size x)\<rparr>"
      define st2 where "st2 = on_entry e ?f st1"
      have run: "tmpfs_write grow_ok e (Some src) off n st = Some (n, st2)"
        using st1(1) True False e0 reg by (simp add: tmpfs_write_def st2_def)
      have D: "length ?D = unat (te_capacity (te st e))" "?s \<le> length ?D"
        using ok by (simp_all add: data_ok_def word_le_unat)
      have cap: "unat off + unat n \<le> length ?D + k" using k(2,4) D sum by (simp add: word_le_unat)
      have te2: "te st2 = (te st)(e := (te st e)\<lparr>te_data := overwrite (unat off) src (?D @ replicate k 0),
          te_capacity := c, te_size := (if te_size (te st e) < off + n then off + n else te_size (te st e))\<rparr>)"
        using src by (auto simp: st2_def k(1))
      have sz: "unat (te_size (te st2 e)) = max ?s (unat off + unat n)"
        by (simp add: te2 word_lt_unat sum max_def)
      have st2e: "st2 = on_entry e (\<lambda>_. te st2 e) st" by (simp add: st2_def k(1) on_entry_def)
      have okf: "data_ok (te st2 e)"
        unfolding data_ok_def word_le_unat sz
        using D cap k(3,4) src by (simp add: te2 overwrite_def)
      have "tmpfs_inv (on_entry e (\<lambda>_. te st2 e) st) es"
        by (rule inv_on_entry [OF inv e]) (simp_all add: okf, simp_all add: te2)
      then have "tmpfs_inv st2 es" by (simp only: st2e [symmetric])
      moreover have "content st2 e = overwrite (unat off) src (content st e @ leftover (te st e) (unat off))"
        unfolding content_def sz leftover_def
        using overwrite_take [OF D(2), of "unat off" src k 0] cap src by (simp add: te2)
      moreover have "view st2 es = (view st es)(e \<mapsto> (te_parent (te st e), the (te_name (te st e)), File (content st2 e)))"
        by (rule view_set_file [OF e reg]) (simp_all add: te2)
      ultimately show ?thesis using run by blast
    qed
  qed
qed

lemma resize_spec:
  assumes inv: "tmpfs_inv st es" and e: "e \<in> set es" and reg: "\<not> te_is_dir (te st e)"
  shows "\<exists>st'. tmpfs_resize grow_ok e sz st = Some st' \<and> tmpfs_inv st' es \<and>
    (content st' e = take (unat sz) (content st e) @ replicate (unat sz - length (content st e)) 0 \<and>
     te_data (te st' e) = (if unat sz \<le> unat (te_size (te st e)) then te_data (te st e) else te_data (te st' e)) \<and>
     unat (te_size (te st' e)) = unat sz \<and>
     view st' es = (view st es)(e \<mapsto> (te_parent (te st e), the (te_name (te st e)), File (content st' e))) \<or>
     st' = st \<and> \<not> (grow_ok \<and> unat sz \<le> 2 ^ 31 \<or> unat sz \<le> unat (te_capacity (te st e))))"
proof -
  have e0: "e \<noteq> 0" using inv e entries_0 by (auto simp: tmpfs_inv_def)
  have ok: "data_ok (te st e)" using inv e by (simp add: tmpfs_inv_def)
  let ?D = "te_data (te st e)" and ?s = "unat (te_size (te st e))"
  have D: "length ?D = unat (te_capacity (te st e))" "?s \<le> length ?D"
    using ok by (simp_all add: data_ok_def word_le_unat)
  have "(- 1 :: u32) = 4294967295" by simp
  then have big: "unat (ucast (- 1 :: u32) :: u64) = 4294967295" by (simp only:) simp
  show ?thesis
  proof (cases "sz \<le> ucast (- 1 :: u32)")
    case False
    then have "4294967295 < unat sz" unfolding word_le_unat big by simp
    moreover have "unat (te_capacity (te st e)) < 4294967296" by (rule unat_lt32)
    ultimately have "\<not> unat sz \<le> unat (te_capacity (te st e))" by linarith
    moreover have "\<not> unat sz \<le> 2 ^ 31" using \<open>4294967295 < unat sz\<close> by simp
    moreover have "tmpfs_resize grow_ok e sz st = Some st" using False by (simp add: tmpfs_resize_def)
    ultimately show ?thesis using inv by blast
  next
    case True
    define z where "z = (ucast sz :: u32)"
    have z: "unat z = unat sz" using True unfolding word_le_unat big z_def by (simp add: unsigned_ucast_eq take_bit_nat_eq_self)
    obtain b st1 where st1: "tmpfs_reserve grow_ok e z st = Some (b, st1)"
      "grow_ok \<Longrightarrow> unat z \<le> 2 ^ 31 \<Longrightarrow> b" "\<not> b \<Longrightarrow> st1 = st"
      "b \<Longrightarrow> \<exists>k c. st1 = on_entry e (\<lambda>x. x\<lparr>te_data := te_data x @ replicate k 0, te_capacity := c\<rparr>) st \<and>
            z \<le> c \<and> te_capacity (te st e) \<le> c \<and> unat c = unat (te_capacity (te st e)) + k"
      using reserve_spec [where grow_ok = grow_ok and want = z, OF ok] by blast
    have fits: "tmpfs_reserve grow_ok e z st = Some (True, st)" if "unat z \<le> unat (te_capacity (te st e))"
      using that by (simp add: tmpfs_reserve_def word_le_unat)
    show ?thesis
    proof (cases b)
      case nb: False
      then have "tmpfs_resize grow_ok e sz st = Some st"
        using st1 True e0 reg by (simp add: tmpfs_resize_def z_def)
      moreover have "\<not> (grow_ok \<and> unat sz \<le> 2 ^ 31 \<or> unat sz \<le> unat (te_capacity (te st e)))"
        using nb st1(1,2) fits z by auto
      ultimately show ?thesis using inv by blast
    next
      case b: True
      then obtain k c where k: "st1 = on_entry e (\<lambda>x. x\<lparr>te_data := te_data x @ replicate k 0, te_capacity := c\<rparr>) st"
        "z \<le> c" "te_capacity (te st e) \<le> c" "unat c = unat (te_capacity (te st e)) + k"
        using st1(4) by blast
      have cap: "unat z \<le> length ?D + k" using k(2,4) D by (simp add: word_le_unat)
      have k0: "k = 0" if "unat z \<le> ?s"
      proof -
        have "st1 = st" using fits that D st1(1) by simp
        then have "length (te_data (te st1 e)) = length ?D" by simp
        then show ?thesis by (simp add: k(1))
      qed
      define D2 where "D2 = (if te_size (te st e) < z
          then overwrite ?s (replicate (unat (z - te_size (te st e))) 0) (?D @ replicate k 0) else ?D @ replicate k 0)"
      define st2 where "st2 = on_entry e (\<lambda>_. (te st e)\<lparr>te_capacity := c, te_data := D2, te_size := z\<rparr>) st"
      have run: "tmpfs_resize grow_ok e sz st = Some st2"
        using st1(1) b True e0 reg
        by (simp add: tmpfs_resize_def z_def [symmetric] st2_def k(1) on_entry_def D2_def)
      have te2: "te st2 e = (te st e)\<lparr>te_capacity := c, te_data := D2, te_size := z\<rparr>" by (simp add: st2_def)
      have grow: "unat (z - te_size (te st e)) = unat z - ?s" if "te_size (te st e) < z"
        using that by (simp add: unat_sub_le word_lt_unat)
      have len: "length D2 = length ?D + k"
        using cap D grow by (auto simp: D2_def overwrite_def word_lt_unat)
      have "data_ok (te st2 e)" using k(2,4) D(1) len by (simp add: te2 data_ok_def)
      then have "tmpfs_inv st2 es" unfolding st2_def
        by (intro inv_on_entry [OF inv e]) (simp_all add: te2)
      moreover have "content st2 e = take (unat sz) (content st e) @ replicate (unat sz - length (content st e)) 0"
        using cap D grow z by (auto simp: content_def te2 D2_def overwrite_def word_lt_unat min_def)
      moreover have "view st2 es = (view st es)(e \<mapsto> (te_parent (te st e), the (te_name (te st e)), File (content st2 e)))"
        by (rule view_set_file [OF e reg]) (simp_all add: st2_def)
      moreover have "te_data (te st2 e) = (if unat sz \<le> ?s then ?D else te_data (te st2 e))"
        using k0 z by (simp add: te2 D2_def word_lt_unat)
      moreover have "unat (te_size (te st2 e)) = unat sz" by (simp add: te2 z)
      ultimately show ?thesis using run by blast
    qed
  qed
qed

lemma read_spec:
  assumes inv: "tmpfs_inv st es" and e: "e \<in> set es" and reg: "\<not> te_is_dir (te st e)" and addr: "addr \<noteq> 0"
  shows "tmpfs_read e addr off m st =
    (let out = take (unat m) (drop (unat off) (content st e)) in (of_nat (length out), out))"
proof -
  have e0: "e \<noteq> 0" using inv e entries_0 by (auto simp: tmpfs_inv_def)
  have D: "unat (te_size (te st e)) \<le> length (te_data (te st e))"
    using inv e by (auto simp: tmpfs_inv_def data_ok_def word_le_unat)
  let ?s = "te_size (te st e)"
  show ?thesis
  proof (cases "?s \<le> off")
    case True
    then show ?thesis using e0 addr reg by (simp add: tmpfs_read_def content_def word_le_unat)
  next
    case False
    then have lt: "unat off < unat ?s" by (simp add: word_le_unat)
    have sub: "unat (?s - off) = unat ?s - unat off" using lt by (simp add: unat_sub_le)
    define k where "k = (if ?s - off < m then ?s - off else m)"
    have k: "unat k = min (unat ?s - unat off) (unat m)" by (simp add: k_def word_lt_unat sub min_def)
    have out: "take (unat m) (drop (unat off) (content st e)) = take (unat k) (drop (unat off) (te_data (te st e)))"
      by (simp add: content_def k drop_take min.commute)
    have "length (take (unat k) (drop (unat off) (te_data (te st e)))) = unat k" using D k lt by simp
    then show ?thesis using False e0 addr reg
      by (simp add: tmpfs_read_def out Let_def k_def [symmetric] del: length_take length_drop)
  qed
qed

section \<open>Reachable file systems\<close>

definition live_entry :: "tmpfs_t \<Rightarrow> u32 \<Rightarrow> bool" where
  "live_entry st e \<longleftrightarrow> (\<exists>es. entries st es \<and> e \<in> set es)"

text \<open>
  The steps of the VFS layer: an allocator returns no object that is in use, and handles are 0 or point to
  an entry that exists.
\<close>

inductive tmpfs_reach :: "tmpfs_t \<Rightarrow> bool" where
  start: "tmpfs_entries st = 0 \<Longrightarrow> tmpfs_reach st"
| mount: "tmpfs_reach st \<Longrightarrow> \<not> live_entry st fresh \<Longrightarrow> tmpfs_mount fresh ok src node st = (r, st') \<Longrightarrow> tmpfs_reach st'"
| make: "tmpfs_reach st \<Longrightarrow> \<not> live_entry st fresh \<Longrightarrow> parent = 0 \<or> live_entry st parent \<Longrightarrow>
    tmpfs_make d fresh ok parent (Some s) node st = Some (r, st') \<Longrightarrow> tmpfs_reach st'"
| opened: "tmpfs_reach st \<Longrightarrow> tmpfs_open parent name node st = Some st' \<Longrightarrow> tmpfs_reach st'"
| stat: "tmpfs_reach st \<Longrightarrow> tmpfs_stat e node st = (r, st') \<Longrightarrow> tmpfs_reach st'"
| written: "tmpfs_reach st \<Longrightarrow> live_entry st e \<Longrightarrow> length src = unat n \<Longrightarrow>
    tmpfs_write ok e (Some src) off n st = Some (r, st') \<Longrightarrow> tmpfs_reach st'"
| resized: "tmpfs_reach st \<Longrightarrow> live_entry st e \<Longrightarrow> tmpfs_resize ok e sz st = Some st' \<Longrightarrow> tmpfs_reach st'"
| deleted: "tmpfs_reach st \<Longrightarrow> tmpfs_delete node st = Some (r, st') \<Longrightarrow> tmpfs_reach st'"
| renamed: "tmpfs_reach st \<Longrightarrow> live_entry st e \<Longrightarrow> tmpfs_rename ok ok' e (Some path) st = Some (r, st') \<Longrightarrow> tmpfs_reach st'"

inductive_cases tmpfs_reachE: "tmpfs_reach st"

lemma live_entry_iff: "entries st es \<Longrightarrow> live_entry st e \<longleftrightarrow> e \<in> set es"
  using linked_unique unfolding live_entry_def by blast

lemma write_dir: "te_is_dir (te st e) \<Longrightarrow> tmpfs_write ok e (Some src) off n st = Some (- 1, st)"
  by (simp add: tmpfs_write_def)

lemma resize_dir: "te_is_dir (te st e) \<Longrightarrow> tmpfs_resize ok e sz st = Some st"
  by (simp add: tmpfs_resize_def)

lemma reach_inv: "tmpfs_reach st \<Longrightarrow> \<exists>es. tmpfs_inv st es"
proof (induction rule: tmpfs_reach.induct)
  case (start st)
  then have "tmpfs_inv st []" by (simp add: tmpfs_inv_def names_ok_def)
  then show ?case by blast
next
  case (mount st fresh ok src node r st')
  then obtain es where es: "tmpfs_inv st es" by blast
  then have "fresh \<notin> set es" using mount.hyps(2) live_entry_iff by (auto simp: tmpfs_inv_def)
  from mount_spec [OF es this, of ok src node] show ?case using mount.hyps(3) es by (auto split: if_splits)
next
  case (make st fresh parent d ok s node r st')
  then obtain es where es: "tmpfs_inv st es" by blast
  then have "fresh \<notin> set es" "parent = 0 \<or> parent \<in> set es"
    using make.hyps(2,3) live_entry_iff by (auto simp: tmpfs_inv_def)
  from make_spec [OF es this, of d ok s node] show ?case using make.hyps(4) es by (auto split: if_splits)
next
  case (opened st parent name node st')
  then obtain es where es: "tmpfs_inv st es" by blast
  from open_spec [OF this, of parent name node] show ?case using opened.hyps(2) by auto
next
  case (stat st e node r st')
  then obtain es where es: "tmpfs_inv st es" by blast
  then show ?case using stat_spec [OF stat.hyps(2)] inv_cong [of st' st] by auto
next
  case (written st e src n ok off r st')
  then obtain es where es: "tmpfs_inv st es" by blast
  then have e: "e \<in> set es" using written.hyps(2) live_entry_iff by (auto simp: tmpfs_inv_def)
  show ?case
  proof (cases "te_is_dir (te st e)")
    case True
    then show ?thesis using written.hyps(4) es by (auto simp: write_dir)
  next
    case False
    from write_spec [OF es e this written.hyps(3), of ok off] show ?thesis using written.hyps(4) by auto
  qed
next
  case (resized st e ok sz st')
  then obtain es where es: "tmpfs_inv st es" by blast
  then have e: "e \<in> set es" using resized.hyps(2) live_entry_iff by (auto simp: tmpfs_inv_def)
  show ?case
  proof (cases "te_is_dir (te st e)")
    case True
    then show ?thesis using resized.hyps(3) es by (auto simp: resize_dir)
  next
    case False
    from resize_spec [OF es e this, of ok sz] show ?thesis using resized.hyps(3) by auto
  qed
next
  case (deleted st node r st')
  then obtain es where es: "tmpfs_inv st es" by blast
  from tmpfs_delete_spec [OF this, of node] show ?case using deleted.hyps(2) es by (auto split: if_splits)
next
  case (renamed st e ok ok' path r st')
  then obtain es where es: "tmpfs_inv st es" by blast
  then have e: "e \<in> set es" using renamed.hyps(2) live_entry_iff by (auto simp: tmpfs_inv_def)
  from rename_spec [OF es e, of ok ok' path] show ?case using renamed.hyps(3) es by (auto split: if_splits)
qed

lemma reach_entries: "tmpfs_reach st \<Longrightarrow> entries st es \<Longrightarrow> tmpfs_inv st es"
  using reach_inv linked_unique unfolding tmpfs_inv_def by blast

lemma view_dir:
  "tmpfs_inv st es \<Longrightarrow> (\<exists>p s. view st es e = Some (p, s, Dir)) \<longleftrightarrow> e \<noteq> 0 \<and> e \<in> set es \<and> te_is_dir (te st e)"
  using entries_0 by (auto simp: view_def kind_of_def tmpfs_inv_def)

lemma view_child:
  "tmpfs_inv st es \<Longrightarrow> (\<exists>k. view st es e = Some (p, s, k)) \<longleftrightarrow> e \<in> children st es p s"
  by (auto simp: view_def children_def tmpfs_inv_def names_ok_def)

lemma view_parent:
  "(\<exists>s k. view st es c = Some (p, s, k)) \<longleftrightarrow> c \<in> set es \<and> te_parent (te st c) = p"
  by (auto simp: view_def)

lemma view_SomeD:
  "view st es e = Some (p, s, k) \<Longrightarrow>
   e \<in> set es \<and> te_parent (te st e) = p \<and> the (te_name (te st e)) = s \<and> kind_of (te st e) = k"
  by (auto simp: view_def split: if_splits)

text \<open>
  C26. Every reachable file system is a tree in memory: the entry list ends and has no repetition, every
  parent is a directory created earlier, no directory holds two entries of one name, and every file's
  contents lie inside its buffer.
\<close>

theorem tmpfs_tree:
  assumes "tmpfs_reach st"
  shows "\<exists>es. entries st es \<and> distinct es \<and> parents_ok st es \<and> names_ok st es \<and>
    (\<forall>e\<in>set es. data_ok (te st e))"
proof -
  obtain es where "tmpfs_inv st es" using reach_inv [OF assms] by blast
  then show ?thesis using linked_distinct unfolding tmpfs_inv_def by blast
qed

text \<open>
  C27. The name space refines a map from entries to parent, name and kind.  Creation succeeds exactly in a
  directory without that name (given memory) and adds one empty entry; deletion refuses unknown nodes and
  non-empty directories and otherwise removes exactly the entry of the node; renaming refuses an empty
  name and a name that is taken and otherwise changes the name only.  All of them return.
\<close>

theorem tmpfs_namespace_refines:
  assumes "tmpfs_reach st" and "entries st es"
  shows "(fresh \<notin> set es \<longrightarrow> parent = 0 \<or> parent \<in> set es \<longrightarrow>
     (\<exists>r st'. tmpfs_make d fresh ok parent (Some s) node st = Some (r, st') \<and>
       (if (\<exists>p s'. view st es parent = Some (p, s', Dir)) \<and> (\<forall>c k. view st es c \<noteq> Some (parent, s, k)) \<and>
           fresh \<noteq> 0 \<and> ok
        then r = 0 \<and> tmpfs_inv st' (fresh # es) \<and>
             view st' (fresh # es) = (view st es)(fresh \<mapsto> (parent, s, if d then Dir else File []))
        else r = - 1 \<and> st' = st))) \<and>
   (\<exists>r st'. tmpfs_delete node st = Some (r, st') \<and>
     (if \<forall>e\<in>set es. te_node (te st e) \<noteq> node then r = - 2 \<and> st' = st
      else \<exists>e\<in>set es. te_node (te st e) = node \<and>
        (if \<exists>c s k. view st es c = Some (e, s, k) then r = - 39 \<and> st' = st
         else r = 0 \<and> tmpfs_inv st' (remove1 e es) \<and> view st' (remove1 e es) = (view st es)(e := None)))) \<and>
   (\<forall>e p s k. view st es e = Some (p, s, k) \<longrightarrow>
     (\<exists>r st'. tmpfs_rename ok ok' e (Some path) st = Some (r, st') \<and>
       (if \<not> ok \<or> basename path = [] then r = - 1 \<and> st' = st
        else if p \<noteq> 0 \<and> (\<exists>c\<noteq>e. \<exists>k. view st es c = Some (p, basename path, k)) then r = - 17 \<and> st' = st
        else r = 0 \<and> tmpfs_inv st' es \<and> view st' es = (view st es)(e \<mapsto> (p, basename path, k)))))"
proof (intro conjI impI allI)
  have inv: "tmpfs_inv st es" using reach_entries [OF assms] .
  note V = view_dir [OF inv] view_child [OF inv]
  {
    assume fresh: "fresh \<notin> set es" and parent: "parent = 0 \<or> parent \<in> set es"
    let ?G = "(\<exists>p s'. view st es parent = Some (p, s', Dir)) \<and> (\<forall>c k. view st es c \<noteq> Some (parent, s, k)) \<and>
        fresh \<noteq> 0 \<and> ok"
    have C1: "(\<exists>p s'. view st es parent = Some (p, s', Dir)) \<longleftrightarrow> parent \<noteq> 0 \<and> te_is_dir (te st parent)"
      using parent by (auto simp: V(1))
    have "(\<forall>c k. view st es c \<noteq> Some (parent, s, k)) \<longleftrightarrow> (\<forall>c. \<not> (\<exists>k. view st es c = Some (parent, s, k)))"
      by simp
    also have "\<dots> \<longleftrightarrow> children st es parent s = {}" unfolding V(2) by blast
    finally have C: "(\<forall>c k. view st es c \<noteq> Some (parent, s, k)) \<longleftrightarrow> children st es parent s = {}" .
    note C = C1 C
    have G: "?G \<longleftrightarrow> parent \<noteq> 0 \<and> te_is_dir (te st parent) \<and> children st es parent s = {} \<and> fresh \<noteq> 0 \<and> ok"
      unfolding C by (simp only: conj_assoc)
    obtain r st' where m: "tmpfs_make d fresh ok parent (Some s) node st = Some (r, st')"
      and i: "if parent \<noteq> 0 \<and> te_is_dir (te st parent) \<and> children st es parent s = {} \<and> fresh \<noteq> 0 \<and> ok
        then r = 0 \<and> tmpfs_inv st' (fresh # es) \<and>
          view st' (fresh # es) = (view st es)(fresh \<mapsto> (parent, s, if d then Dir else File [])) \<and>
          te_node (te st' fresh) = node \<and> vn_handle (vn st' node) = fresh
        else r = - 1 \<and> st' = st"
      using make_spec [OF inv fresh parent, of d ok s node] by blast
    have good: "r = 0 \<and> tmpfs_inv st' (fresh # es) \<and>
        view st' (fresh # es) = (view st es)(fresh \<mapsto> (parent, s, if d then Dir else File []))" if ?G
      using i that unfolding G by (simp only: if_True simp_thms)
    have bad: "r = - 1 \<and> st' = st" if "\<not> ?G"
      using i that unfolding G by (simp only: if_False simp_thms)
    show "\<exists>r st'. tmpfs_make d fresh ok parent (Some s) node st = Some (r, st') \<and>
       (if ?G then r = 0 \<and> tmpfs_inv st' (fresh # es) \<and>
             view st' (fresh # es) = (view st es)(fresh \<mapsto> (parent, s, if d then Dir else File []))
        else r = - 1 \<and> st' = st)"
    proof (intro exI conjI)
      show "tmpfs_make d fresh ok parent (Some s) node st = Some (r, st')" by (rule m)
      show "if ?G then r = 0 \<and> tmpfs_inv st' (fresh # es) \<and>
             view st' (fresh # es) = (view st es)(fresh \<mapsto> (parent, s, if d then Dir else File []))
        else r = - 1 \<and> st' = st"
      proof (cases ?G)
        case True
        show ?thesis by (subst if_P [OF True]) (rule good [OF True])
      next
        case False
        show ?thesis by (subst if_not_P [OF False]) (rule bad [OF False])
      qed
    qed
  }
  show "\<exists>r st'. tmpfs_delete node st = Some (r, st') \<and>
     (if \<forall>e\<in>set es. te_node (te st e) \<noteq> node then r = - 2 \<and> st' = st
      else \<exists>e\<in>set es. te_node (te st e) = node \<and>
        (if \<exists>c s k. view st es c = Some (e, s, k) then r = - 39 \<and> st' = st
         else r = 0 \<and> tmpfs_inv st' (remove1 e es) \<and> view st' (remove1 e es) = (view st es)(e := None)))"
    using tmpfs_delete_spec [OF inv, of node] by (simp only: view_parent Bex_def)
  fix e p s k
  assume v: "view st es e = Some (p, s, k)"
  then have e: "e \<in> set es" "te_parent (te st e) = p" "kind_of (te st e) = k" using view_SomeD by blast+
  have "(\<exists>c\<noteq>e. \<exists>k. view st es c = Some (p, basename path, k)) \<longleftrightarrow> \<not> children st es p (basename path) \<subseteq> {e}"
    using V(2) by blast
  then show "\<exists>r st'. tmpfs_rename ok ok' e (Some path) st = Some (r, st') \<and>
       (if \<not> ok \<or> basename path = [] then r = - 1 \<and> st' = st
        else if p \<noteq> 0 \<and> (\<exists>c\<noteq>e. \<exists>k. view st es c = Some (p, basename path, k)) then r = - 17 \<and> st' = st
        else r = 0 \<and> tmpfs_inv st' es \<and> view st' es = (view st es)(e \<mapsto> (p, basename path, k)))"
    using rename_spec [OF inv e(1), of ok ok' path] e(2,3) by (auto split: if_splits)
qed

text \<open>
  C28. A write of up to 2 GiB inside a file or at its end stores exactly its bytes, extends the file when it
  ends beyond it, and changes no other entry; a read then returns the requested part of the new contents.
\<close>

theorem tmpfs_write_read:
  assumes "tmpfs_reach st" and "entries st es" and "view st es e = Some (p, s, File old)"
    and "length src = unat n" and "unat off \<le> length old" and "unat off + unat n \<le> 2 ^ 31" and "addr \<noteq> 0"
  shows "\<exists>st'. tmpfs_write True e (Some src) off n st = Some (n, st') \<and>
    view st' es = (view st es)(e \<mapsto> (p, s, File (overwrite (unat off) src old))) \<and>
    (let out = take (unat m) (drop (unat off') (overwrite (unat off) src old))
     in tmpfs_read e addr off' m st' = (of_nat (length out), out))"
proof -
  have inv: "tmpfs_inv st es" using reach_entries [OF assms(1,2)] .
  have e: "e \<in> set es" "te_parent (te st e) = p" "the (te_name (te st e)) = s" "kind_of (te st e) = File old"
    using view_SomeD [OF assms(3)] by blast+
  have reg: "\<not> te_is_dir (te st e)" and old: "old = content st e"
    using e(4) by (auto simp: kind_of_def content_def split: if_splits)
  have "leftover (te st e) (unat off) = []"
    using assms(5) by (simp add: leftover_def old content_def)
  then obtain st' where st': "tmpfs_write True e (Some src) off n st = Some (n, st')" "tmpfs_inv st' es"
    "content st' e = overwrite (unat off) src old"
    "view st' es = (view st es)(e \<mapsto> (p, s, File (content st' e)))"
    using write_spec [OF inv e(1) reg assms(4), of True off] assms(6) by (auto simp: old e)
  have "\<not> te_is_dir (te st' e)"
    using arg_cong [OF st'(4), of "\<lambda>f. f e"] e(1) by (auto simp: view_def kind_of_def split: if_splits)
  then have "tmpfs_read e addr off' m st' = (let out = take (unat m) (drop (unat off') (content st' e)) in (of_nat (length out), out))"
    by (rule read_spec [OF st'(2) e(1) _ assms(7)])
  then show ?thesis using st' by (auto simp: Let_def)
qed

text \<open>
  A file that was cut short keeps its old bytes in its buffer, and a later write beyond the new end puts
  them back into the file: the gap is not filled with zeros.
\<close>

theorem tmpfs_gap_exposes_old_data:
  assumes "tmpfs_reach st" and "entries st es" and "view st es e = Some (p, s, File old)"
    and "unat sz \<le> unat off" and "unat off \<le> length old" and "length src = unat n"
    and "unat off + unat n \<le> 2 ^ 31"
  shows "\<exists>st1 st2. tmpfs_resize True e sz st = Some st1 \<and>
    view st1 es = (view st es)(e \<mapsto> (p, s, File (take (unat sz) old))) \<and>
    tmpfs_write True e (Some src) off n st1 = Some (n, st2) \<and>
    view st2 es = (view st es)(e \<mapsto> (p, s, File (take (unat off) old @ src)))"
proof -
  have inv: "tmpfs_inv st es" using reach_entries [OF assms(1,2)] .
  have e: "e \<in> set es" "te_parent (te st e) = p" "the (te_name (te st e)) = s" "kind_of (te st e) = File old"
    using view_SomeD [OF assms(3)] by blast+
  have reg: "\<not> te_is_dir (te st e)" and old: "old = content st e"
    using e(4) by (auto simp: kind_of_def content_def split: if_splits)
  have D: "unat (te_size (te st e)) \<le> length (te_data (te st e))"
    using inv e by (auto simp: tmpfs_inv_def data_ok_def word_le_unat)
  have lo: "length old = unat (te_size (te st e))" using D by (simp add: old content_def)
  have small: "unat sz \<le> 2 ^ 31" "unat sz \<le> unat (te_size (te st e))" using assms(4,5,7) lo by linarith+
  then obtain st1 where st1: "tmpfs_resize True e sz st = Some st1" "tmpfs_inv st1 es"
    "content st1 e = take (unat sz) old" "te_data (te st1 e) = te_data (te st e)"
    "unat (te_size (te st1 e)) = unat sz"
    "view st1 es = (view st es)(e \<mapsto> (p, s, File (content st1 e)))"
    using resize_spec [OF inv e(1) reg, of True sz] lo by (auto simp: e old)
  have f1: "view st1 es e = Some (p, s, File (content st1 e))" using st1(6) by simp
  note e1 = view_SomeD [OF f1]
  have reg1: "\<not> te_is_dir (te st1 e)" using e1 by (auto simp: kind_of_def split: if_splits)
  have left: "take (unat sz) old @ leftover (te st1 e) (unat off) = take (unat off) old"
  proof -
    have "leftover (te st1 e) (unat off) = take (unat off - unat sz) (drop (unat sz) old)"
      using assms(4,5) lo D by (simp add: leftover_def st1(4,5) old content_def drop_take)
    then show ?thesis using assms(4) by (simp add: take_add [symmetric])
  qed
  obtain st2 where st2: "tmpfs_write True e (Some src) off n st1 = Some (n, st2)"
    "content st2 e = overwrite (unat off) src (take (unat off) old)"
    "view st2 es = (view st1 es)(e \<mapsto> (p, s, File (content st2 e)))"
    using write_spec [OF st1(2) e(1) reg1 assms(6), of True off] assms(7) e1 by (auto simp: st1(3) left)
  have "overwrite (unat off) src (take (unat off) old) = take (unat off) old @ src"
    using assms(5) by (simp add: overwrite_def)
  then show ?thesis using st1 st2 by auto
qed

section \<open>A file system with one file\<close>

lemma demo_fs:
  "\<exists>st. tmpfs_reach st \<and> entries st [200, 100] \<and> te_node (te st 200) = 2 \<and>
    view st [200, 100] = [100 \<mapsto> (0, '''', Dir), 200 \<mapsto> (100, ''a'', File [1, 2, 3])]"
proof -
  define n0 where "n0 = \<lparr>vn_name = None, vn_size = 0, vn_inode = 0, vn_blksz = 0, vn_type = 2, vn_mode = 0,
     vn_fsid = 0, vn_handle = 0, vn_root = 0, vn_dev = 0\<rparr>"
  define st0 where "st0 = \<lparr>tmpfs_id = 1, tmpfs_next_ino = 2, tmpfs_entries = 0,
     te = (\<lambda>_. \<lparr>te_node = 0, te_parent = 0, te_next = 0, te_name = None, te_data = [], te_size = 0,
       te_capacity = 0, te_is_dir = False, te_inode = 0\<rparr>), vn = (\<lambda>_. n0)\<rparr>"
  have i0: "tmpfs_inv st0 []" and r0: "tmpfs_reach st0"
    by (simp_all add: st0_def tmpfs_inv_def names_ok_def tmpfs_reach.start)
  have v0: "view st0 [] = Map.empty" by (simp add: view_def)
  have nm: "vn_name (vn st0 1) = None" by (simp add: st0_def n0_def)
  obtain st1 where st1: "tmpfs_mount 100 True 2 1 st0 = (0, st1)" "tmpfs_inv st1 [100]"
    "view st1 [100] = [100 \<mapsto> (0, '''', Dir)]"
    using mount_spec [OF i0, of 100 True 2 1] nm by (auto simp: v0)
  have r1: "tmpfs_reach st1"
    using tmpfs_reach.mount [OF r0 _ st1(1)] live_entry_iff [of st0 "[]" 100] i0 by (simp add: tmpfs_inv_def)
  have l1: "live_entry st1 e \<longleftrightarrow> e = 100" for e using live_entry_iff [of st1 "[100]" e] st1(2) by (simp add: tmpfs_inv_def)
  have "te_is_dir (te st1 100)" "children st1 [100] 100 ''a'' = {}"
    using arg_cong [OF st1(3), of "\<lambda>f. f 100"]
    by (auto simp: view_def kind_of_def children_def split: if_splits)
  then obtain st2 where st2: "tmpfs_make False 200 True 100 (Some ''a'') 2 st1 = Some (0, st2)"
    "tmpfs_inv st2 [200, 100]" "te_node (te st2 200) = 2"
    "view st2 [200, 100] = [100 \<mapsto> (0, '''', Dir), 200 \<mapsto> (100, ''a'', File [])]"
    using make_spec [OF st1(2), of 200 100 False True "''a''" 2] by (auto simp: st1(3))
  have r2: "tmpfs_reach st2" using tmpfs_reach.make [OF r1 _ _ st2(1)] by (simp add: l1)
  have e2: "entries st2 [200, 100]" using st2(2) by (simp add: tmpfs_inv_def)
  have f2: "view st2 [200, 100] 200 = Some (100, ''a'', File [])" by (simp add: st2(4))
  obtain st3 where st3: "tmpfs_write True 200 (Some [1, 2, 3]) 0 3 st2 = Some (3, st3)" "tmpfs_inv st3 [200, 100]"
    "view st3 [200, 100] = (view st2 [200, 100])(200 \<mapsto> (100, ''a'', File (content st3 200)))" "content st3 200 = [1, 2, 3]"
    "te_node (te st3 200) = 2"
  proof -
    have reg: "\<not> te_is_dir (te st2 200)" and c: "content st2 200 = []" and pn: "te_parent (te st2 200) = 100"
      "the (te_name (te st2 200)) = ''a''"
      using view_SomeD [OF f2] by (auto simp: kind_of_def content_def split: if_splits)
    have "200 \<in> set [200 :: u32, 100]" by simp
    from write_spec [OF st2(2) this reg, of "[1, 2, 3]" 3 True 0]
    obtain r st3 where w: "tmpfs_write True 200 (Some [1, 2, 3]) 0 3 st2 = Some (r, st3)" "tmpfs_inv st3 [200, 100]"
      "r = 3" "content st3 200 = overwrite 0 [1, 2, 3] (content st2 200 @ leftover (te st2 200) 0)"
      "view st3 [200, 100] = (view st2 [200, 100])(200 \<mapsto> (100, ''a'', File (content st3 200)))"
      by (auto simp: pn)
    moreover have "te_node (te st3 200) = te_node (te st2 200)"
      using w(1) reg by (auto simp: tmpfs_write_def tmpfs_reserve_def split: if_splits option.splits bind_splits)
    ultimately show ?thesis using that st2(3) by (simp add: c leftover_def overwrite_def)
  qed
  have l2: "live_entry st2 200" using live_entry_iff [OF e2] by simp
  have "tmpfs_reach st3" by (rule tmpfs_reach.written [OF r2 l2 _ st3(1)]) simp
  then show ?thesis using st3 st2(4) by (intro exI [of _ st3]) (simp add: tmpfs_inv_def)
qed

theorem tmpfs_tree_witness:
  "\<exists>st es. 200 \<in> set es \<and> entries st es \<and> distinct es \<and> parents_ok st es"
proof -
  obtain st where st: "tmpfs_reach st" "entries st [200, 100]" using demo_fs by blast
  obtain es where es: "entries st es" "distinct es" "parents_ok st es" using tmpfs_tree [OF st(1)] by blast
  have "es = [200, 100]" using linked_unique [OF es(1) st(2)] .
  then show ?thesis using es by (intro exI [of _ st] exI [of _ es]) simp
qed

theorem tmpfs_namespace_refines_witness:
  "\<exists>st es st1 st2. tmpfs_make False 300 True 100 (Some ''b'') 3 st = Some (0, st1) \<and>
     view st1 (300 # es) 300 = Some (100, ''b'', File []) \<and>
     tmpfs_rename True True 200 (Some ''/tmp/c'') st = Some (0, st2) \<and> view st2 es 200 = Some (100, ''c'', File [1, 2, 3])"
proof -
  obtain st where st: "tmpfs_reach st" "entries st [200, 100]" "te_node (te st 200) = 2"
    "view st [200, 100] = [100 \<mapsto> (0, '''', Dir), 200 \<mapsto> (100, ''a'', File [1, 2, 3])]" using demo_fs by blast
  have b: "basename ''/tmp/c'' = ''c''" by code_simp
  note R = tmpfs_namespace_refines [OF st(1,2), of 300 100 False True "''b''" 3 True "''/tmp/c''"]
  obtain st1 where "tmpfs_make False 300 True 100 (Some ''b'') 3 st = Some (0, st1)"
    "view st1 [300, 200, 100] 300 = Some (100, ''b'', File [])"
    using R [THEN conjunct1] by (auto simp: st(4))
  moreover obtain st2 where "tmpfs_rename True True 200 (Some ''/tmp/c'') st = Some (0, st2)"
    "view st2 [200, 100] 200 = Some (100, ''c'', File [1, 2, 3])"
    using R [THEN conjunct2, THEN conjunct2, rule_format, of 200 100 "''a''" "File [1, 2, 3]"]
    by (auto simp: st(4) b split: if_splits)
  ultimately show ?thesis by blast
qed

theorem tmpfs_write_read_witness:
  "\<exists>st st'. tmpfs_write True 200 (Some [9, 9]) 2 2 st = Some (2, st') \<and>
     tmpfs_read 200 1 1 8 st' = (3, [2, 9, 9])"
proof -
  obtain st where st: "tmpfs_reach st" "entries st [200, 100]"
    "view st [200, 100] = [100 \<mapsto> (0, '''', Dir), 200 \<mapsto> (100, ''a'', File [1, 2, 3])]" using demo_fs by blast
  have "view st [200, 100] 200 = Some (100, ''a'', File [1, 2, 3])" by (simp add: st(3))
  from tmpfs_write_read [OF st(1,2) this, of "[9, 9]" 2 2 1 8 1] show ?thesis
    by (auto simp: overwrite_def)
qed

theorem tmpfs_gap_exposes_old_data_witness:
  "\<exists>st st1 st2. tmpfs_resize True 200 0 st = Some st1 \<and> tmpfs_write True 200 (Some [9]) 2 1 st1 = Some (1, st2) \<and>
     view st2 [200, 100] 200 = Some (100, ''a'', File [1, 2, 9])"
proof -
  obtain st where st: "tmpfs_reach st" "entries st [200, 100]"
    "view st [200, 100] = [100 \<mapsto> (0, '''', Dir), 200 \<mapsto> (100, ''a'', File [1, 2, 3])]" using demo_fs by blast
  have "view st [200, 100] 200 = Some (100, ''a'', File [1, 2, 3])" by (simp add: st(3))
  from tmpfs_gap_exposes_old_data [OF st(1,2) this, of 0 2 "[9]" 1]
  obtain st1 st2 where "tmpfs_resize True 200 0 st = Some st1" "tmpfs_write True 200 (Some [9]) 2 1 st1 = Some (1, st2)"
    "view st2 [200, 100] = (view st [200, 100])(200 \<mapsto> (100, ''a'', File [1, 2, 9]))" by auto
  then show ?thesis by (intro exI [of _ st] exI [of _ st1] exI [of _ st2]) simp
qed

end
