(* ===== verification/LockQueue.thy ===== *)
theory LockQueue
  imports Chain
begin

text \<open>
  The indexed queue \<open>kernel/lock_queue.cpp\<close>, compiled into the port for the VFS: a doubly linked list whose
  nodes carry a handle and a number, with a cursor for round-robin walks.  Nodes are records in a store
  indexed by their address; the address \<open>malloc\<close> returns (0 when out of memory) is an argument; a freed node
  stays in the store but belongs to no queue.  The spin lock brackets every operation and has no effect on
  the state.  The null queue, which every operation refuses, is the option \<open>None\<close> of the callers.
\<close>

section \<open>State\<close>

record lock_node =
  ln_data :: u32
  ln_next :: u32
  ln_prev :: u32
  ln_index :: u32

record lock_queue =
  lq_head :: u32
  lq_tail :: u32
  lq_rr_cursor :: u32
  lq_size :: u32
  lq_next_index :: u32

type_synonym lq_store = "u32 \<Rightarrow> lock_node"

definition on_ln :: "u32 \<Rightarrow> (lock_node \<Rightarrow> lock_node) \<Rightarrow> lq_store \<Rightarrow> lq_store" where
  "on_ln p f s = s(p := f (s p))"

section \<open>Operations\<close>

definition queue_append_node :: "u32 \<Rightarrow> lock_queue \<times> lq_store \<Rightarrow> lock_queue \<times> lq_store" where
  "queue_append_node new_node qs =
     (let (q, s) = qs;
          s = on_ln new_node (\<lambda>n. n\<lparr>ln_next := 0\<rparr>) s;
          (q, s) = (if lq_head q = 0
                    then (q\<lparr>lq_head := new_node, lq_tail := new_node\<rparr>, on_ln new_node (\<lambda>n. n\<lparr>ln_prev := 0\<rparr>) s)
                    else (q\<lparr>lq_tail := new_node\<rparr>,
                          on_ln (lq_tail q) (\<lambda>n. n\<lparr>ln_next := new_node\<rparr>)
                            (on_ln new_node (\<lambda>n. n\<lparr>ln_prev := lq_tail q\<rparr>) s)));
          q = (if lq_rr_cursor q = 0 then q\<lparr>lq_rr_cursor := lq_head q\<rparr> else q)
      in (q\<lparr>lq_size := lq_size q + 1\<rparr>, s))"

definition queue_remove_locked :: "u32 \<Rightarrow> lock_queue \<times> lq_store \<Rightarrow> u32 \<times> lock_queue \<times> lq_store" where
  "queue_remove_locked node qs =
     (let (q, s) = qs in
      if node = 0 then (0, q, s)
      else
        let nxt = ln_next (s node); prv = ln_prev (s node);
            next_cursor = (if nxt \<noteq> 0 then nxt else lq_head q);
            (q, s) = (if prv \<noteq> 0 then (q, on_ln prv (\<lambda>n. n\<lparr>ln_next := nxt\<rparr>) s) else (q\<lparr>lq_head := nxt\<rparr>, s));
            (q, s) = (if nxt \<noteq> 0 then (q, on_ln nxt (\<lambda>n. n\<lparr>ln_prev := prv\<rparr>) s) else (q\<lparr>lq_tail := prv\<rparr>, s));
            q = (if lq_rr_cursor q = node then q\<lparr>lq_rr_cursor := (if nxt \<noteq> 0 then nxt else lq_head q)\<rparr> else q);
            q = (if lq_head q = 0 then q\<lparr>lq_tail := 0, lq_rr_cursor := 0\<rparr>
                 else if lq_rr_cursor q = 0
                   then q\<lparr>lq_rr_cursor := (if next_cursor \<noteq> 0 then next_cursor else lq_head q)\<rparr>
                   else q)
        in (ln_data (s node), q\<lparr>lq_size := lq_size q - 1\<rparr>, s))"

definition queue_init :: lock_queue where
  "queue_init = \<lparr>lq_head = 0, lq_tail = 0, lq_rr_cursor = 0, lq_size = 0, lq_next_index = 0\<rparr>"

definition fresh_node :: "u32 \<Rightarrow> u32 \<Rightarrow> u32 \<Rightarrow> lq_store \<Rightarrow> lq_store" where
  "fresh_node p d i s = s(p := \<lparr>ln_data = d, ln_next = 0, ln_prev = 0, ln_index = i\<rparr>)"

text \<open>\<open>queue_enqueue\<close>, \<open>lock_queue_enqueue\<close> and \<open>queue_enqueue_ref\<close> have one body; the last also returns the node.\<close>

definition queue_enqueue :: "u32 \<Rightarrow> u32 \<Rightarrow> lock_queue \<times> lq_store \<Rightarrow> u32 \<times> lock_queue \<times> lq_store" where
  "queue_enqueue new_node d qs =
     (let (q, s) = qs in
      if new_node = 0 then (- 1, q, s)
      else if lq_next_index q = - 1 then (- 1, q, s)
      else
        let i = lq_next_index q;
            q = q\<lparr>lq_next_index := i + 1\<rparr>
        in (i, queue_append_node new_node (q, fresh_node new_node d i s)))"

definition lock_queue_enqueue :: "u32 \<Rightarrow> u32 \<Rightarrow> lock_queue \<times> lq_store \<Rightarrow> u32 \<times> lock_queue \<times> lq_store" where
  "lock_queue_enqueue = queue_enqueue"

definition queue_enqueue_ref ::
  "u32 \<Rightarrow> u32 \<Rightarrow> lock_queue \<times> lq_store \<Rightarrow> u32 \<times> u32 \<times> lock_queue \<times> lq_store" where
  "queue_enqueue_ref new_node d qs =
     (let (i, qs) = queue_enqueue new_node d qs in (if i = - 1 then 0 else new_node, i, qs))"

definition find_index :: "lq_store \<Rightarrow> u32 \<Rightarrow> u32 \<Rightarrow> u32 option" where
  "find_index s head i = find_node (\<lambda>p. ln_index (s p) = i) (\<lambda>p. ln_next (s p)) head"

partial_function (option) lowest_loop :: "lq_store \<Rightarrow> u32 \<Rightarrow> u32 \<Rightarrow> u32 option" where
  "lowest_loop s head i =
     do { p \<leftarrow> find_index s head i; if p = 0 then Some i else lowest_loop s head (i + 1) }"

definition bump_index :: "u32 \<Rightarrow> lock_queue \<Rightarrow> lock_queue" where
  "bump_index i q = (if lq_next_index q \<le> i \<and> i \<noteq> - 1 then q\<lparr>lq_next_index := i + 1\<rparr> else q)"

definition queue_enqueue_lowest ::
  "u32 \<Rightarrow> u32 \<Rightarrow> lock_queue \<times> lq_store \<Rightarrow> (u32 \<times> lock_queue \<times> lq_store) option" where
  "queue_enqueue_lowest new_node d qs =
     (let (q, s) = qs in
      if new_node = 0 then Some (- 1, q, s)
      else do {
        i \<leftarrow> lowest_loop s (lq_head q) 0;
        Some (if i = - 1 then (- 1, q, s)
              else let (q, s) = queue_append_node new_node (q, fresh_node new_node d i s)
                   in (i, bump_index i q, s)) })"

definition queue_enqueue_id ::
  "u32 \<Rightarrow> u32 \<Rightarrow> u32 \<Rightarrow> lock_queue \<times> lq_store \<Rightarrow> (u32 \<times> lock_queue \<times> lq_store) option" where
  "queue_enqueue_id new_node d i qs =
     (let (q, s) = qs in
      if i = - 1 then Some (- 1, q, s)
      else if new_node = 0 then Some (- 1, q, s)
      else do {
        p \<leftarrow> find_index s (lq_head q) i;
        Some (if p \<noteq> 0 then (- 1, q, s)
              else let (q, s) = queue_append_node new_node (q, fresh_node new_node d i s)
                   in (i, bump_index i q, s)) })"

definition queue_get :: "u32 \<Rightarrow> lock_queue \<times> lq_store \<Rightarrow> u32 option" where
  "queue_get i qs =
     (let (q, s) = qs in do { p \<leftarrow> find_index s (lq_head q) i; Some (if p \<noteq> 0 then ln_data (s p) else 0) })"

definition queue_remove_at ::
  "u32 \<Rightarrow> lock_queue \<times> lq_store \<Rightarrow> (u32 \<times> lock_queue \<times> lq_store) option" where
  "queue_remove_at i qs =
     (let (q, s) = qs in
      do { p \<leftarrow> find_index s (lq_head q) i;
           Some (if p \<noteq> 0 then queue_remove_locked p (q, s) else (0, q, s)) })"

definition queue_remove_data ::
  "u32 \<Rightarrow> lock_queue \<times> lq_store \<Rightarrow> (u32 \<times> lock_queue \<times> lq_store) option" where
  "queue_remove_data d qs =
     (let (q, s) = qs in
      if d = 0 then Some (0, q, s)
      else do { p \<leftarrow> find_node (\<lambda>p. ln_data (s p) = d) (\<lambda>p. ln_next (s p)) (lq_head q);
                Some (if p \<noteq> 0 then queue_remove_locked p (q, s) else (0, q, s)) })"

definition queue_remove_node :: "u32 \<Rightarrow> lock_queue \<times> lq_store \<Rightarrow> u32 \<times> lock_queue \<times> lq_store" where
  "queue_remove_node node qs = (if node = 0 then (0, qs) else queue_remove_locked node qs)"

definition queue_dequeue :: "lock_queue \<times> lq_store \<Rightarrow> u32 \<times> lock_queue \<times> lq_store" where
  "queue_dequeue qs =
     (let (q, s) = qs in
      if lq_head q = 0 then (0, q, s)
      else
        let temp = lq_head q;
            q = q\<lparr>lq_head := ln_next (s temp)\<rparr>;
            s = (if lq_head q \<noteq> 0 then on_ln (lq_head q) (\<lambda>n. n\<lparr>ln_prev := 0\<rparr>) s else s);
            q = (if lq_head q = 0 then q\<lparr>lq_tail := 0\<rparr> else q);
            q = (if lq_rr_cursor q = temp then q\<lparr>lq_rr_cursor := lq_head q\<rparr> else q)
        in (ln_data (s temp), q\<lparr>lq_size := lq_size q - 1\<rparr>, s))"

text \<open>\<open>queue_copy\<close>: the addresses of the new nodes are the list \<open>fresh\<close>; \<open>None\<close> is the null result.\<close>

partial_function (option) copy_loop ::
  "(u32 \<Rightarrow> u32) \<Rightarrow> u32 list \<Rightarrow> u32 \<Rightarrow> lock_queue \<times> lq_store \<Rightarrow> (lock_queue \<times> lq_store) option option" where
  "copy_loop data_copy fresh current qs =
     (if current = 0 then Some (Some qs)
      else if fresh = [] \<or> hd fresh = 0 then Some None
      else
        let (q, s) = qs; p = hd fresh;
            s = s(p := \<lparr>ln_data = data_copy (ln_data (s current)), ln_next = 0, ln_prev = lq_tail q,
                        ln_index = ln_index (s current)\<rparr>);
            (q, s) = (if lq_head q = 0
                      then (q\<lparr>lq_head := p, lq_tail := p\<rparr>, on_ln p (\<lambda>n. n\<lparr>ln_prev := 0\<rparr>) s)
                      else (q\<lparr>lq_tail := p\<rparr>, on_ln (lq_tail q) (\<lambda>n. n\<lparr>ln_next := p\<rparr>) s))
        in copy_loop data_copy (tl fresh) (ln_next (s current)) (q, s))"

definition queue_copy ::
  "(u32 \<Rightarrow> u32) \<Rightarrow> u32 list \<Rightarrow> lock_queue \<times> lq_store \<Rightarrow> (lock_queue \<times> lq_store) option option" where
  "queue_copy data_copy fresh qs =
     (let (src, s) = qs in
      do { r \<leftarrow> copy_loop data_copy fresh (lq_head src) (queue_init, s);
           Some (case r of
                   None \<Rightarrow> None
                 | Some (q, s) \<Rightarrow> Some (q\<lparr>lq_size := lq_size src, lq_next_index := lq_next_index src\<rparr>, s)) })"

text \<open>The handles a walk with \<open>queue_iterate\<close> passes to its callback, and the nodes \<open>queue_destroy\<close> frees.\<close>

partial_function (option) queue_nodes :: "lq_store \<Rightarrow> u32 \<Rightarrow> u32 list option" where
  "queue_nodes s current =
     (if current = 0 then Some [] else do { ps \<leftarrow> queue_nodes s (ln_next (s current)); Some (current # ps) })"

definition queue_iterate :: "lock_queue \<times> lq_store \<Rightarrow> u32 list option" where
  "queue_iterate qs = (let (q, s) = qs in do { ps \<leftarrow> queue_nodes s (lq_head q); Some (map (\<lambda>p. ln_data (s p)) ps) })"

definition queue_destroy :: "lock_queue \<times> lq_store \<Rightarrow> (u32 list \<times> lock_queue) option" where
  "queue_destroy qs =
     (let (q, s) = qs in
      do { ps \<leftarrow> queue_nodes s (lq_head q);
           Some (ps, q\<lparr>lq_head := 0, lq_tail := 0, lq_rr_cursor := 0\<rparr>) })"

section \<open>Well-formed queues and what they mean\<close>

definition links :: "lock_queue \<times> lq_store \<Rightarrow> u32 list \<Rightarrow> bool" where
  "links qs ns \<longleftrightarrow>
     dlinked (\<lambda>p. ln_next (snd qs p)) (\<lambda>p. ln_prev (snd qs p)) (lq_head (fst qs)) (lq_tail (fst qs)) ns \<and>
     lq_size (fst qs) = of_nat (length ns) \<and> (lq_rr_cursor (fst qs) = 0 \<or> lq_rr_cursor (fst qs) \<in> set ns)"

definition indices_ok :: "lock_queue \<times> lq_store \<Rightarrow> u32 list \<Rightarrow> bool" where
  "indices_ok qs ns \<longleftrightarrow> distinct (map (\<lambda>p. ln_index (snd qs p)) ns) \<and>
     (\<forall>p\<in>set ns. ln_index (snd qs p) < lq_next_index (fst qs))"

definition queue_of :: "lock_queue \<times> lq_store \<Rightarrow> u32 list \<Rightarrow> bool" where
  "queue_of qs ns \<longleftrightarrow> links qs ns \<and> indices_ok qs ns"

definition items :: "lq_store \<Rightarrow> u32 list \<Rightarrow> (u32 \<times> u32) list" where
  "items s ns = map (\<lambda>p. (ln_index (s p), ln_data (s p))) ns"

lemma on_ln_apply [simp]: "on_ln p f s x = (if x = p then f (s p) else s x)"
  by (simp add: on_ln_def)

lemma items_cong:
  "(\<And>p. p \<in> set ns \<Longrightarrow> ln_index (s' p) = ln_index (s p) \<and> ln_data (s' p) = ln_data (s p)) \<Longrightarrow> items s' ns = items s ns"
  by (simp add: items_def)

lemma items_append [simp]: "items s (xs @ ys) = items s xs @ items s ys"
  by (simp add: items_def)

lemma linksD:
  assumes "links (q, s) ns"
  shows "dlinked (\<lambda>p. ln_next (s p)) (\<lambda>p. ln_prev (s p)) (lq_head q) (lq_tail q) ns"
    and "linked (\<lambda>p. ln_next (s p)) (lq_head q) ns 0" and "lq_size q = of_nat (length ns)"
    and "lq_rr_cursor q = 0 \<or> lq_rr_cursor q \<in> set ns"
  using assms by (simp_all add: links_def dlinked_def)

lemma find_index_spec:
  "links (q, s) ns \<Longrightarrow> find_index s (lq_head q) i = Some (or_null (find (\<lambda>p. ln_index (s p) = i) ns))"
  unfolding find_index_def by (rule find_node_linked) (rule linksD(2))

lemma append_eq:
  assumes "lq_head q = 0 \<or> lq_tail q \<noteq> x"
  shows "queue_append_node x (q, fresh_node x d i s) =
    (q\<lparr>lq_head := (if lq_head q = 0 then x else lq_head q), lq_tail := x,
       lq_rr_cursor := (if lq_rr_cursor q = 0 then (if lq_head q = 0 then x else lq_head q) else lq_rr_cursor q),
       lq_size := lq_size q + 1\<rparr>,
     if lq_head q = 0 then s(x := \<lparr>ln_data = d, ln_next = 0, ln_prev = 0, ln_index = i\<rparr>)
     else (s(x := \<lparr>ln_data = d, ln_next = 0, ln_prev = lq_tail q, ln_index = i\<rparr>))
            (lq_tail q := (s (lq_tail q))\<lparr>ln_next := x\<rparr>))"
  using assms by (cases "lq_head q = 0"; cases "lq_rr_cursor q = 0")
    (simp_all add: queue_append_node_def fresh_node_def on_ln_def)

lemma append_spec:
  assumes L: "links (q, s) ns" and x: "x \<noteq> 0" "x \<notin> set ns"
  shows "\<exists>q' s'. queue_append_node x (q, fresh_node x d i s) = (q', s') \<and> links (q', s') (ns @ [x]) \<and>
    lq_next_index q' = lq_next_index q \<and> lq_rr_cursor q' = (if lq_rr_cursor q = 0 then hd (ns @ [x]) else lq_rr_cursor q) \<and>
    (\<forall>p. ln_index (s' p) = (if p = x then i else ln_index (s p)) \<and> ln_data (s' p) = (if p = x then d else ln_data (s p)))"
proof -
  note D = linksD [OF L]
  note E = dlinked_ends [OF D(1)]
  have tail: "lq_tail q \<noteq> x" if "ns \<noteq> []" using E(4) [OF that] x(2) that by auto
  then have ok: "lq_head q = 0 \<or> lq_tail q \<noteq> x" using E(1) by blast
  define q' where "q' = fst (queue_append_node x (q, fresh_node x d i s))"
  define s' where "s' = snd (queue_append_node x (q, fresh_node x d i s))"
  have run: "queue_append_node x (q, fresh_node x d i s) = (q', s')" by (simp add: q'_def s'_def)
  have q': "lq_head q' = (if ns = [] then x else lq_head q)" "lq_tail q' = x"
    "lq_next_index q' = lq_next_index q" "lq_size q' = lq_size q + 1"
    "lq_rr_cursor q' = (if lq_rr_cursor q = 0 then (if ns = [] then x else lq_head q) else lq_rr_cursor q)"
    by (simp_all add: q'_def append_eq [OF ok] E(1))
  have nxt: "(\<lambda>p. ln_next (s' p)) = (if ns = [] then (\<lambda>p. ln_next (s p))(x := 0)
              else ((\<lambda>p. ln_next (s p))(x := 0))(lq_tail q := x))"
    using tail by (simp add: s'_def append_eq [OF ok] E(1) fun_eq_iff)
  have prv: "(\<lambda>p. ln_prev (s' p)) = (\<lambda>p. ln_prev (s p))(x := lq_tail q)"
    using tail E(1,2) by (simp add: s'_def append_eq [OF ok] fun_eq_iff)
  have vals: "ln_index (s' p) = (if p = x then i else ln_index (s p)) \<and> ln_data (s' p) = (if p = x then d else ln_data (s p))" for p
    using tail E(1) by (simp add: s'_def append_eq [OF ok])
  have "dlinked (\<lambda>p. ln_next (s' p)) (\<lambda>p. ln_prev (s' p)) (lq_head q') (lq_tail q') (ns @ [x])"
    unfolding nxt prv q'(1,2) using dlinked_snoc [OF D(1) x] .
  moreover have cur: "lq_rr_cursor q' = (if lq_rr_cursor q = 0 then hd (ns @ [x]) else lq_rr_cursor q)"
    using q'(5) E(3) by auto
  moreover have "hd (ns @ [x]) \<in> set (ns @ [x])" by (cases ns) auto
  ultimately have "links (q', s') (ns @ [x])" using D(3,4) q'(4) by (auto simp: links_def)
  then show ?thesis using run q'(3) vals cur by blast
qed

lemma remove_eq:
  assumes "x \<noteq> 0" "h = (if ln_prev (s x) \<noteq> 0 then lq_head q else ln_next (s x))"
    "c = (if ln_next (s x) \<noteq> 0 then ln_next (s x) else h)"
    "ln_prev (s x) \<noteq> x" "ln_next (s x) \<noteq> x"
    "ln_prev (s x) \<noteq> 0 \<longrightarrow> lq_head q \<noteq> 0"
  shows "queue_remove_locked x (q, s) = (ln_data (s x),
    q\<lparr>lq_head := h, lq_tail := (if h = 0 then 0 else if ln_next (s x) \<noteq> 0 then lq_tail q else ln_prev (s x)),
      lq_rr_cursor := (if h = 0 then 0 else if lq_rr_cursor q = x then c
        else if lq_rr_cursor q = 0 then (if ln_next (s x) \<noteq> 0 then ln_next (s x) else lq_head q) else lq_rr_cursor q),
      lq_size := lq_size q - 1\<rparr>,
    (let s = (if ln_prev (s x) \<noteq> 0 then on_ln (ln_prev (s x)) (\<lambda>n. n\<lparr>ln_next := ln_next (s x)\<rparr>) s else s)
     in if ln_next (s x) \<noteq> 0 then on_ln (ln_next (s x)) (\<lambda>n. n\<lparr>ln_prev := ln_prev (s x)\<rparr>) s else s))"
  unfolding assms(2,3) using assms(1,4,5,6)
  by (cases "ln_prev (s x) = 0"; cases "ln_next (s x) = 0"; cases "lq_rr_cursor q = x"; cases "lq_rr_cursor q = 0")
    (simp_all add: queue_remove_locked_def Let_def)

lemma remove_spec:
  assumes L: "links (q, s) (us @ x # vs)"
  shows "\<exists>q' s'. queue_remove_locked x (q, s) = (ln_data (s x), q', s') \<and> links (q', s') (us @ vs) \<and>
    lq_next_index q' = lq_next_index q \<and>
    (lq_rr_cursor q \<noteq> 0 \<longrightarrow> lq_rr_cursor q' = (if lq_rr_cursor q = x then hd (vs @ us @ [0]) else lq_rr_cursor q)) \<and>
    (\<forall>p. ln_index (s' p) = ln_index (s p) \<and> ln_data (s' p) = ln_data (s p))"
proof -
  note D = linksD [OF L]
  note N = dlinked_node [OF D(1)]
  note R = dlinked_remove [OF D(1)]
  have nz: "0 \<notin> set (us @ x # vs)" by (rule dlinked_nonnull [OF D(1)])
  have dist: "distinct (us @ x # vs)" by (rule dlinked_distinct [OF D(1)])
  have xo: "x \<noteq> 0" "ln_prev (s x) \<noteq> x" "ln_next (s x) \<noteq> x"
    using N(1,2) nz dist by (cases us rule: rev_cases; cases vs; auto)+
  let ?h = "if ln_prev (s x) \<noteq> 0 then lq_head q else ln_next (s x)"
  let ?c = "if ln_next (s x) \<noteq> 0 then ln_next (s x) else ?h"
  have "ln_prev (s x) \<noteq> 0 \<longrightarrow> lq_head q \<noteq> 0" using dlinked_ends(1) [OF D(1)] by simp
  note eq = remove_eq [where x = x and s = s and q = q, OF xo(1) refl refl xo(2,3) this]
  define q' where "q' = fst (snd (queue_remove_locked x (q, s)))"
  define s' where "s' = snd (snd (queue_remove_locked x (q, s)))"
  have run: "queue_remove_locked x (q, s) = (ln_data (s x), q', s')" by (simp add: q'_def s'_def eq)
  have h: "?h = (if us = [] then ln_next (s x) else lq_head q)" using N(3) by simp
  have h0: "?h = 0 \<longleftrightarrow> us @ vs = []" using N(3,4) dlinked_ends(1) [OF D(1)] by auto
  have hh: "?h = hd (us @ vs @ [0])" using h N(2) dlinked_ends(3) [OF D(1)] by (cases us) auto
  have q': "lq_head q' = (if us = [] then ln_next (s x) else lq_head q)"
    "lq_tail q' = (if vs = [] then ln_prev (s x) else lq_tail q)"
    "lq_size q' = lq_size q - 1" "lq_next_index q' = lq_next_index q"
    "lq_rr_cursor q' = (if us @ vs = [] then 0 else if lq_rr_cursor q = x then ?c
        else if lq_rr_cursor q = 0 then (if ln_next (s x) \<noteq> 0 then ln_next (s x) else lq_head q) else lq_rr_cursor q)"
    using N(3,4) h0 by (auto simp: q'_def eq h)
  have nxt: "(\<lambda>p. ln_next (s' p)) = (if us = [] then \<lambda>p. ln_next (s p) else (\<lambda>p. ln_next (s p))(last us := ln_next (s x)))"
    using N(1,3,4) by (auto simp: s'_def eq fun_eq_iff Let_def)
  have prv: "(\<lambda>p. ln_prev (s' p)) = (if vs = [] then \<lambda>p. ln_prev (s p) else (\<lambda>p. ln_prev (s p))(hd vs := ln_prev (s x)))"
    using N(2,3,4) by (auto simp: s'_def eq fun_eq_iff Let_def)
  have vals: "ln_index (s' p) = ln_index (s p) \<and> ln_data (s' p) = ln_data (s p)" for p
    by (simp add: s'_def eq Let_def)
  have "dlinked (\<lambda>p. ln_next (s' p)) (\<lambda>p. ln_prev (s' p)) (lq_head q') (lq_tail q') (us @ vs)"
    unfolding nxt prv q'(1,2) using R .
  moreover have "lq_size q' = of_nat (length (us @ vs))" using D(3) q'(3) by simp
  moreover have c: "?c = hd (vs @ us @ [0])" using N(2,4) hh by (cases vs) auto
  have last: "(if ln_next (s x) \<noteq> 0 then ln_next (s x) else lq_head q) \<in> set (us @ vs)" if "us @ vs \<noteq> []"
    using that N(2,4) dlinked_ends(3) [OF D(1)] by (cases vs; cases us) auto
  have "hd (vs @ us @ [0]) \<in> set (us @ vs)" if "us @ vs \<noteq> []" using that by (cases vs; cases us) auto
  then have "lq_rr_cursor q' = 0 \<or> lq_rr_cursor q' \<in> set (us @ vs)"
    using D(4) last unfolding q'(5) c by auto
  ultimately have "links (q', s') (us @ vs)" by (simp add: links_def)
  moreover have "lq_rr_cursor q' = (if lq_rr_cursor q = x then hd (vs @ us @ [0]) else lq_rr_cursor q)"
    if "lq_rr_cursor q \<noteq> 0"
    using that D(4) unfolding q'(5) c by auto
  ultimately show ?thesis using run q'(4) vals by blast
qed

section \<open>Operations on queues are operations on lists\<close>

lemma fst_items: "fst ` set (items s ns) = (\<lambda>p. ln_index (s p)) ` set ns"
  by (simp add: items_def image_image)

lemma items_vals:
  "(\<And>p. ln_index (s' p) = ln_index (s p) \<and> ln_data (s' p) = ln_data (s p)) \<Longrightarrow> items s' ns = items s ns"
  by (rule items_cong) simp

lemma indices_append:
  assumes "indices_ok (q, s) ns" and x: "x \<notin> set ns"
    and vals: "\<And>p. ln_index (s' p) = (if p = x then i else ln_index (s p)) \<and> ln_data (s' p) = (if p = x then d else ln_data (s p))"
    and new: "i \<notin> fst ` set (items s ns)"
    and bound: "lq_next_index q \<le> lq_next_index q'" "i < lq_next_index q'"
  shows "indices_ok (q', s') (ns @ [x]) \<and> items s' (ns @ [x]) = items s ns @ [(i, d)]"
proof -
  have same: "ln_index (s' p) = ln_index (s p)" "ln_data (s' p) = ln_data (s p)" if "p \<in> set ns" for p
    using that x vals [of p] by auto
  have m: "map (\<lambda>p. ln_index (s' p)) ns = map (\<lambda>p. ln_index (s p)) ns" using same by simp
  have "ln_index (s' x) = i" "ln_data (s' x) = d" using vals [of x] by simp_all
  moreover have "items s' ns = items s ns" using same by (intro items_cong) simp
  moreover have "i \<notin> (\<lambda>p. ln_index (s p)) ` set ns" using new by (simp only: fst_items not_False_eq_True)
  ultimately show ?thesis
    using assms(1) bound same unfolding indices_ok_def
    by (auto simp: m items_def order_less_le_trans)
qed

lemma unat_numeral_top: "unat (4294967295 :: u32) = 4294967295"
  by simp

lemma word_le_top: "i \<le> (- 1 :: u32)"
  by simp

lemma unused_index: "indices_ok (q, s) ns \<Longrightarrow> lq_next_index q \<le> i \<Longrightarrow> i \<notin> fst ` set (items s ns)"
  by (auto simp: indices_ok_def fst_items)

lemma unused_top: "indices_ok (q, s) ns \<Longrightarrow> (- 1) \<notin> fst ` set (items s ns)"
proof
  assume I: "indices_ok (q, s) ns" and "(- 1) \<in> fst ` set (items s ns)"
  then obtain p where "p \<in> set ns" "ln_index (s p) = - 1" by (auto simp: fst_items)
  then have "- 1 < lq_next_index q" using I by (auto simp: indices_ok_def)
  then show False using leD [OF word_le_top [of "lq_next_index q"]] by blast
qed

lemma unat_Suc_word:
  assumes "i \<noteq> (- 1 :: u32)"
  shows "unat (i + 1) = unat i + 1"
proof -
  have "(- 1 :: u32) = 4294967295" by simp
  then have "unat i \<noteq> 4294967295" using assms by (metis word_eq_unat unat_numeral_top)
  moreover have "unat i < 4294967296" by (rule unat_lt32)
  ultimately have "unat i + 1 < 4294967296" by linarith
  then show ?thesis by (simp add: unat_add_small)
qed

lemma less_Suc_word: "i \<noteq> (- 1 :: u32) \<Longrightarrow> i < i + 1"
  by (simp add: word_lt_unat unat_Suc_word)

lemma queue_enqueue_spec:
  assumes Q: "queue_of (q, s) ns" and x: "x \<notin> set ns"
  shows "\<exists>r q' s'. queue_enqueue x d (q, s) = (r, q', s') \<and>
    (if x \<noteq> 0 \<and> lq_next_index q \<noteq> - 1
     then r = lq_next_index q \<and> queue_of (q', s') (ns @ [x]) \<and> items s' (ns @ [x]) = items s ns @ [(r, d)] \<and>
          lq_next_index q' = r + 1
     else r = - 1 \<and> q' = q \<and> s' = s)"
proof (cases "x \<noteq> 0 \<and> lq_next_index q \<noteq> - 1")
  case False
  then show ?thesis by (auto simp: queue_enqueue_def)
next
  case True
  let ?i = "lq_next_index q"
  let ?q = "q\<lparr>lq_next_index := ?i + 1\<rparr>"
  have L: "links (?q, s) ns" and I: "indices_ok (q, s) ns" using Q by (simp_all add: queue_of_def links_def)
  from append_spec [OF L _ x, of d ?i] True
  obtain q' s' where a: "queue_append_node x (?q, fresh_node x d ?i s) = (q', s')" "links (q', s') (ns @ [x])"
    "lq_next_index q' = ?i + 1"
    "\<And>p. ln_index (s' p) = (if p = x then ?i else ln_index (s p)) \<and> ln_data (s' p) = (if p = x then d else ln_data (s p))"
    by auto
  have lt: "?i < ?i + 1" using True by (intro less_Suc_word) simp
  have "indices_ok (q', s') (ns @ [x]) \<and> items s' (ns @ [x]) = items s ns @ [(?i, d)]"
    by (rule indices_append [OF I x a(4) unused_index [OF I order_refl]]) (use a(3) lt in auto)
  then show ?thesis using True a by (simp add: queue_enqueue_def queue_of_def)
qed

lemma bump_spec:
  assumes "i \<noteq> - 1"
  shows "lq_next_index q \<le> lq_next_index (bump_index i q)" and "i < lq_next_index (bump_index i q)"
    and "links (bump_index i q, s) ns = links (q, s) ns"
  using assms less_Suc_word [OF assms] by (auto simp: bump_index_def links_def)

lemma append_at:
  assumes Q: "queue_of (q, s) ns" and x: "x \<noteq> 0" "x \<notin> set ns" and i: "i \<noteq> - 1" "i \<notin> fst ` set (items s ns)"
  shows "\<exists>q' s'. queue_append_node x (q, fresh_node x d i s) = (q', s') \<and> queue_of (bump_index i q', s') (ns @ [x]) \<and>
    items s' (ns @ [x]) = items s ns @ [(i, d)]"
proof -
  have L: "links (q, s) ns" and I: "indices_ok (q, s) ns" using Q by (simp_all add: queue_of_def)
  from append_spec [OF L x, of d i]
  obtain q' s' where a: "queue_append_node x (q, fresh_node x d i s) = (q', s')" "links (q', s') (ns @ [x])"
    "lq_next_index q' = lq_next_index q"
    "\<And>p. ln_index (s' p) = (if p = x then i else ln_index (s p)) \<and> ln_data (s' p) = (if p = x then d else ln_data (s p))"
    by blast
  have "indices_ok (bump_index i q', s') (ns @ [x]) \<and> items s' (ns @ [x]) = items s ns @ [(i, d)]"
    by (rule indices_append [OF I x(2) a(4) i(2)]) (use bump_spec [OF i(1), of q'] a(3) in simp_all)
  then show ?thesis using a bump_spec(3) [OF i(1)] by (simp add: queue_of_def)
qed

lemma find_index_items:
  assumes "links (q, s) ns"
  shows "\<exists>p. find_index s (lq_head q) i = Some p \<and> (p = 0 \<longleftrightarrow> i \<notin> fst ` set (items s ns)) \<and>
    (p \<noteq> 0 \<longrightarrow> p \<in> set ns \<and> ln_index (s p) = i)"
proof -
  have nz: "0 \<notin> set ns" using linksD(1) [OF assms] by (rule dlinked_nonnull)
  show ?thesis
    using find_index_spec [OF assms, of i] or_null_find [OF nz, of "\<lambda>p. ln_index (s p) = i"]
      or_null_found [of "\<lambda>p. ln_index (s p) = i" ns] unfolding fst_items by auto
qed

lemma enqueue_id_spec:
  assumes Q: "queue_of (q, s) ns" and x: "x \<notin> set ns"
  shows "\<exists>r q' s'. queue_enqueue_id x d i (q, s) = Some (r, q', s') \<and>
    (if x \<noteq> 0 \<and> i \<noteq> - 1 \<and> i \<notin> fst ` set (items s ns)
     then r = i \<and> queue_of (q', s') (ns @ [x]) \<and> items s' (ns @ [x]) = items s ns @ [(i, d)]
     else r = - 1 \<and> q' = q \<and> s' = s)"
proof -
  have L: "links (q, s) ns" using Q by (simp add: queue_of_def)
  obtain p where p: "find_index s (lq_head q) i = Some p" "p = 0 \<longleftrightarrow> i \<notin> fst ` set (items s ns)"
    using find_index_items [OF L, of i] by blast
  show ?thesis
  proof (cases "x \<noteq> 0 \<and> i \<noteq> - 1 \<and> i \<notin> fst ` set (items s ns)")
    case True
    then show ?thesis using append_at [OF Q _ x, of i d] p by (auto simp: queue_enqueue_id_def)
  next
    case False
    then show ?thesis using p by (auto simp: queue_enqueue_id_def)
  qed
qed

lemma lowest_spec:
  assumes L: "links (q, s) ns" and top: "(- 1) \<notin> fst ` set (items s ns)"
  shows "(\<forall>j<i. j \<in> fst ` set (items s ns)) \<Longrightarrow>
    \<exists>k. lowest_loop s (lq_head q) i = Some k \<and> k \<notin> fst ` set (items s ns) \<and> (\<forall>j<k. j \<in> fst ` set (items s ns))"
proof (induction "2 ^ 32 - unat i" arbitrary: i rule: less_induct)
  case less
  obtain p where p: "find_index s (lq_head q) i = Some p" "p = 0 \<longleftrightarrow> i \<notin> fst ` set (items s ns)"
    using find_index_items [OF L, of i] by blast
  show ?case
  proof (cases "p = 0")
    case True
    then show ?thesis using p less.prems by (subst lowest_loop.simps) simp
  next
    case False
    then have ne: "i \<noteq> - 1" using p(2) top by blast
    then have lt: "i < i + 1" by (rule less_Suc_word)
    have "2 ^ 32 - unat (i + 1) < 2 ^ 32 - unat i"
      using lt unsigned_less [of i] by (intro diff_less_mono2) (simp_all add: word_lt_unat)
    moreover have "j \<in> fst ` set (items s ns)" if "j < i + 1" for j
    proof (cases "j = i")
      case True
      then show ?thesis using p(2) False by simp
    next
      case False
      have "j \<le> i" using that by (simp add: word_lt_unat word_le_unat unat_Suc_word [OF ne])
      then show ?thesis using False less.prems by simp
    qed
    ultimately have m: "2 ^ 32 - unat (i + 1) < 2 ^ 32 - unat i" "\<forall>j<i + 1. j \<in> fst ` set (items s ns)" by blast+
    have "\<exists>k. lowest_loop s (lq_head q) (i + 1) = Some k \<and> k \<notin> fst ` set (items s ns) \<and>
        (\<forall>j<k. j \<in> fst ` set (items s ns))" by (rule less.hyps [OF m])
    then show ?thesis using p False by (subst lowest_loop.simps) simp
  qed
qed

lemma enqueue_lowest_spec:
  assumes Q: "queue_of (q, s) ns" and x: "x \<notin> set ns"
  shows "\<exists>r q' s'. queue_enqueue_lowest x d (q, s) = Some (r, q', s') \<and>
    (if r = - 1 then q' = q \<and> s' = s \<and> (x = 0 \<or> (\<forall>j<(- 1). j \<in> fst ` set (items s ns)))
     else x \<noteq> 0 \<and> r \<notin> fst ` set (items s ns) \<and> (\<forall>j<r. j \<in> fst ` set (items s ns)) \<and>
          queue_of (q', s') (ns @ [x]) \<and> items s' (ns @ [x]) = items s ns @ [(r, d)])"
proof (cases "x = 0")
  case True
  then show ?thesis by (simp add: queue_enqueue_lowest_def)
next
  case False
  have L: "links (q, s) ns" and I: "indices_ok (q, s) ns" using Q by (simp_all add: queue_of_def)
  have "\<forall>j<(0 :: u32). j \<in> fst ` set (items s ns)" by simp
  from lowest_spec [OF L unused_top [OF I] this]
  obtain k where k: "lowest_loop s (lq_head q) 0 = Some k" "k \<notin> fst ` set (items s ns)"
    "\<forall>j<k. j \<in> fst ` set (items s ns)" by blast
  show ?thesis
  proof (cases "k = - 1")
    case True
    then show ?thesis using k False by (simp add: queue_enqueue_lowest_def)
  next
    case top: False
    obtain q' s' where "queue_append_node x (q, fresh_node x d k s) = (q', s')" "queue_of (bump_index k q', s') (ns @ [x])"
      "items s' (ns @ [x]) = items s ns @ [(k, d)]"
      using append_at [OF Q False x top k(2), of d] by blast
    then show ?thesis using k False top by (simp add: queue_enqueue_lowest_def)
  qed
qed

lemma map_of_items:
  assumes "distinct (map (\<lambda>p. ln_index (s p)) ns)" and "p \<in> set ns"
  shows "map_of (items s ns) (ln_index (s p)) = Some (ln_data (s p))"
proof -
  have "distinct (map fst (items s ns))" using assms(1) by (simp add: items_def comp_def)
  then show ?thesis using assms(2) by (intro map_of_is_SomeI) (auto simp: items_def)
qed

lemma map_of_unused: "i \<notin> fst ` set xs \<Longrightarrow> map_of xs i = None"
  by (simp add: map_of_eq_None_iff)

lemma get_spec:
  assumes Q: "queue_of (q, s) ns"
  shows "queue_get i (q, s) = Some (case map_of (items s ns) i of None \<Rightarrow> 0 | Some d \<Rightarrow> d)"
proof -
  have L: "links (q, s) ns" and I: "indices_ok (q, s) ns" using Q by (simp_all add: queue_of_def)
  obtain p where p: "find_index s (lq_head q) i = Some p" "p = 0 \<longleftrightarrow> i \<notin> fst ` set (items s ns)"
    "p \<noteq> 0 \<longrightarrow> p \<in> set ns \<and> ln_index (s p) = i" using find_index_items [OF L, of i] by blast
  show ?thesis
  proof (cases "p = 0")
    case True
    then have "map_of (items s ns) i = None" using p(2) True by (intro map_of_unused) simp
    then show ?thesis using p True by (simp add: queue_get_def)
  next
    case False
    then have "map_of (items s ns) i = Some (ln_data (s p))"
      using map_of_items [of s ns p] I p(3) by (auto simp: indices_ok_def)
    then show ?thesis using p False by (simp add: queue_get_def)
  qed
qed

lemma remove_queue:
  assumes Q: "queue_of (q, s) ns" and x: "x \<in> set ns"
  shows "\<exists>q' s'. queue_remove_locked x (q, s) = (ln_data (s x), q', s') \<and> queue_of (q', s') (remove1 x ns) \<and>
    items s' (remove1 x ns) = remove1 (ln_index (s x), ln_data (s x)) (items s ns)"
proof -
  have L: "links (q, s) ns" and I: "indices_ok (q, s) ns" using Q by (simp_all add: queue_of_def)
  obtain us vs where ns: "ns = us @ x # vs" using x by (auto dest: split_list)
  have "x \<notin> set us" using dlinked_distinct [OF linksD(1) [OF L]] by (simp add: ns)
  then have rm: "remove1 x ns = us @ vs" by (simp add: ns remove1_append)
  from remove_spec [OF L [unfolded ns]]
  obtain q' s' where r: "queue_remove_locked x (q, s) = (ln_data (s x), q', s')" "links (q', s') (us @ vs)"
    "lq_next_index q' = lq_next_index q" "\<And>p. ln_index (s' p) = ln_index (s p) \<and> ln_data (s' p) = ln_data (s p)"
    by blast
  have "(ln_index (s x), ln_data (s x)) \<notin> set (items s us)"
    using I by (auto simp: indices_ok_def ns items_def)
  moreover have "items s' (us @ vs) = items s (us @ vs)" by (rule items_vals) (rule r(4))
  ultimately have "items s' (us @ vs) = remove1 (ln_index (s x), ln_data (s x)) (items s ns)"
    by (simp add: ns remove1_append items_def)
  moreover have "indices_ok (q', s') (us @ vs)" using I r(3,4) by (auto simp: indices_ok_def ns)
  ultimately show ?thesis using r by (simp add: queue_of_def rm)
qed

lemma remove_at_spec:
  assumes Q: "queue_of (q, s) ns"
  shows "\<exists>r q' s' ns'. queue_remove_at i (q, s) = Some (r, q', s') \<and> queue_of (q', s') ns' \<and>
    (case map_of (items s ns) i of
       None \<Rightarrow> r = 0 \<and> q' = q \<and> s' = s \<and> ns' = ns
     | Some d \<Rightarrow> r = d \<and> items s' ns' = remove1 (i, d) (items s ns))"
proof -
  have L: "links (q, s) ns" and I: "indices_ok (q, s) ns" using Q by (simp_all add: queue_of_def)
  obtain p where p: "find_index s (lq_head q) i = Some p" "p = 0 \<longleftrightarrow> i \<notin> fst ` set (items s ns)"
    "p \<noteq> 0 \<longrightarrow> p \<in> set ns \<and> ln_index (s p) = i" using find_index_items [OF L, of i] by blast
  show ?thesis
  proof (cases "p = 0")
    case True
    then have "map_of (items s ns) i = None" using p(2) True by (intro map_of_unused) simp
    then show ?thesis using p True Q by (auto simp: queue_remove_at_def)
  next
    case False
    then have "map_of (items s ns) i = Some (ln_data (s p))"
      using map_of_items [of s ns p] I p(3) by (auto simp: indices_ok_def)
    then show ?thesis using p False remove_queue [OF Q, of p] by (auto simp: queue_remove_at_def)
  qed
qed

lemma find_items:
  "find (\<lambda>(_, e). e = d) (items s ns) = map_option (\<lambda>p. (ln_index (s p), ln_data (s p))) (find (\<lambda>p. ln_data (s p) = d) ns)"
  by (induction ns) (simp_all add: items_def)

lemma remove_data_spec:
  assumes Q: "queue_of (q, s) ns" and d: "d \<noteq> 0"
  shows "\<exists>r q' s' ns'. queue_remove_data d (q, s) = Some (r, q', s') \<and> queue_of (q', s') ns' \<and>
    (case find (\<lambda>(_, e). e = d) (items s ns) of
       None \<Rightarrow> r = 0 \<and> q' = q \<and> s' = s \<and> ns' = ns
     | Some it \<Rightarrow> r = d \<and> items s' ns' = remove1 it (items s ns))"
proof -
  have L: "links (q, s) ns" using Q by (simp add: queue_of_def)
  let ?P = "\<lambda>p. ln_data (s p) = d"
  have f: "find_node ?P (\<lambda>p. ln_next (s p)) (lq_head q) = Some (or_null (find ?P ns))"
    by (rule find_node_linked [OF linksD(2) [OF L]])
  show ?thesis
  proof (cases "find ?P ns")
    case None
    then show ?thesis using f d Q by (auto simp: queue_remove_data_def find_items)
  next
    case (Some p)
    then have p: "p \<in> set ns" "ln_data (s p) = d" using find_parts [OF Some] by simp_all
    then have "p \<noteq> 0" using dlinked_nonnull [OF linksD(1) [OF L]] by auto
    then show ?thesis using f Some d p remove_queue [OF Q p(1)] by (auto simp: queue_remove_data_def find_items)
  qed
qed

lemma dequeue_spec:
  assumes Q: "queue_of (q, s) ns"
  shows "\<exists>r q' s'. queue_dequeue (q, s) = (r, q', s') \<and> queue_of (q', s') (tl ns) \<and> items s' (tl ns) = tl (items s ns) \<and>
    r = (if ns = [] then 0 else snd (hd (items s ns)))"
proof (cases ns)
  case Nil
  then have "lq_head q = 0" using Q dlinked_ends(1) [OF linksD(1)] by (auto simp: queue_of_def)
  then show ?thesis using Q Nil by (simp add: queue_dequeue_def items_def)
next
  case (Cons x vs)
  have L: "links (q, s) ([] @ x # vs)" and I: "indices_ok (q, s) (x # vs)" using Q Cons by (simp_all add: queue_of_def)
  note D = linksD [OF L]
  note N = dlinked_node [OF D(1)] and R = dlinked_remove [OF D(1)]
  have nz: "x \<noteq> 0" using dlinked_nonnull [OF D(1)] by auto
  have h: "lq_head q = x" using dlinked_ends(3) [OF D(1)] by simp
  have p0: "ln_prev (s x) = 0" using N(1) by simp
  let ?n = "ln_next (s x)"
  define s' where "s' = (if ?n \<noteq> 0 then on_ln ?n (\<lambda>n. n\<lparr>ln_prev := 0\<rparr>) s else s)"
  define q' where "q' = q\<lparr>lq_head := ?n, lq_tail := (if ?n = 0 then 0 else lq_tail q),
     lq_rr_cursor := (if lq_rr_cursor q = x then ?n else lq_rr_cursor q), lq_size := lq_size q - 1\<rparr>"
  have run: "queue_dequeue (q, s) = (ln_data (s x), q', s')"
    using nz by (simp add: queue_dequeue_def h s'_def q'_def Let_def)
  have nxt: "(\<lambda>p. ln_next (s' p)) = (\<lambda>p. ln_next (s p))" by (simp add: s'_def fun_eq_iff)
  have prv: "(\<lambda>p. ln_prev (s' p)) = (if vs = [] then \<lambda>p. ln_prev (s p) else (\<lambda>p. ln_prev (s p))(hd vs := ln_prev (s x)))"
    using N(2,4) p0 by (auto simp: s'_def fun_eq_iff)
  have vals: "ln_index (s' p) = ln_index (s p) \<and> ln_data (s' p) = ln_data (s p)" for p by (simp add: s'_def)
  have "dlinked (\<lambda>p. ln_next (s' p)) (\<lambda>p. ln_prev (s' p)) (lq_head q') (lq_tail q') vs"
    unfolding nxt prv using R N(4) p0 by (cases "vs = []") (simp_all add: q'_def)
  moreover have "lq_rr_cursor q' = 0 \<or> lq_rr_cursor q' \<in> set vs"
    using D(4) N(2,4) by (cases vs) (auto simp: q'_def)
  ultimately have "links (q', s') vs" using D(3) by (simp add: links_def q'_def)
  moreover have "indices_ok (q', s') vs" using I vals by (simp add: indices_ok_def q'_def)
  moreover have "items s' vs = items s vs" by (rule items_vals) (rule vals)
  ultimately show ?thesis using run by (simp add: Cons queue_of_def items_def)
qed

lemma nodes_spec: "linked (\<lambda>p. ln_next (s p)) h ns 0 \<Longrightarrow> queue_nodes s h = Some ns"
proof (induction ns arbitrary: h)
  case Nil
  then show ?case by (simp add: queue_nodes.simps)
next
  case (Cons x ns)
  then show ?case by (subst queue_nodes.simps) auto
qed

lemma iterate_spec: "queue_of (q, s) ns \<Longrightarrow> queue_iterate (q, s) = Some (map snd (items s ns))"
  using nodes_spec [of s "lq_head q" ns] linksD(2) [of q s ns] by (simp add: queue_iterate_def queue_of_def items_def)

lemma destroy_spec: "queue_of (q, s) ns \<Longrightarrow> \<exists>q'. queue_destroy (q, s) = Some (ns, q') \<and> lq_head q' = 0"
  using nodes_spec [of s "lq_head q" ns] linksD(2) [of q s ns] by (simp add: queue_destroy_def queue_of_def)

lemma init_spec: "queue_of (queue_init, s) []"
  by (simp add: queue_of_def links_def indices_ok_def queue_init_def dlinked_def)

lemma copy_loop_spec:
  "linked (\<lambda>p. ln_next (s p)) cur vs 0 \<Longrightarrow>
   dlinked (\<lambda>p. ln_next (s p)) (\<lambda>p. ln_prev (s p)) (lq_head q) (lq_tail q) ms \<Longrightarrow>
   length fs = length vs \<Longrightarrow> distinct fs \<Longrightarrow> 0 \<notin> set fs \<Longrightarrow> set fs \<inter> (set ms \<union> set ns) = {} \<Longrightarrow>
   set vs \<subseteq> set ns \<Longrightarrow> set ms \<inter> set ns = {} \<Longrightarrow>
   \<exists>q' s'. copy_loop f fs cur (q, s) = Some (Some (q', s')) \<and>
     dlinked (\<lambda>p. ln_next (s' p)) (\<lambda>p. ln_prev (s' p)) (lq_head q') (lq_tail q') (ms @ fs) \<and>
     items s' (ms @ fs) = items s ms @ map (\<lambda>(i, d). (i, f d)) (items s vs) \<and>
     (\<forall>p\<in>set ns. s' p = s p) \<and> lq_rr_cursor q' = lq_rr_cursor q"
proof (induction vs arbitrary: cur q s ms fs)
  case Nil
  then show ?case by (subst copy_loop.simps) (simp add: items_def)
next
  case (Cons x vs)
  obtain p gs where fs: "fs = p # gs" using Cons.prems(3) by (cases fs) auto
  have cur: "cur = x" "x \<noteq> 0" "linked (\<lambda>p. ln_next (s p)) (ln_next (s x)) vs 0" using Cons.prems(1) by auto
  have p: "p \<noteq> 0" "p \<notin> set ms" "p \<notin> set ns" "p \<notin> set gs" using Cons.prems(4,5,6) by (auto simp: fs)
  have E: "lq_head q = 0 \<longleftrightarrow> ms = []" "ms = [] \<Longrightarrow> lq_tail q = 0" "ms \<noteq> [] \<Longrightarrow> lq_tail q \<in> set ms"
    using dlinked_ends [OF Cons.prems(2)] by auto
  let ?t = "lq_tail q"
  define s1 where "s1 = (let s = s(p := \<lparr>ln_data = f (ln_data (s x)), ln_next = 0, ln_prev = ?t, ln_index = ln_index (s x)\<rparr>)
     in if ms = [] then s else s(?t := (s ?t)\<lparr>ln_next := p\<rparr>))"
  define q1 where "q1 = q\<lparr>lq_head := (if ms = [] then p else lq_head q), lq_tail := p\<rparr>"
  have tp: "ms \<noteq> [] \<Longrightarrow> ?t \<noteq> p" using E(3) p by auto
  have xp: "x \<noteq> p" "ms \<noteq> [] \<Longrightarrow> x \<noteq> ?t" using Cons.prems(7,8) p E(3) by auto
  have step: "copy_loop f fs cur (q, s) = copy_loop f gs (ln_next (s x)) (q1, s1)"
    using cur p tp xp E(1,2)
    by (subst copy_loop.simps) (auto simp: fs s1_def q1_def on_ln_def Let_def)
  have nxt: "(\<lambda>p. ln_next (s1 p)) = (if ms = [] then (\<lambda>p. ln_next (s p))(p := 0)
      else ((\<lambda>p. ln_next (s p))(p := 0))(?t := p))"
    using tp by (auto simp: s1_def Let_def fun_eq_iff)
  have prv: "(\<lambda>p. ln_prev (s1 p)) = (\<lambda>p. ln_prev (s p))(p := ?t)"
    using tp by (auto simp: s1_def Let_def fun_eq_iff)
  have D1: "dlinked (\<lambda>p. ln_next (s1 p)) (\<lambda>p. ln_prev (s1 p)) (lq_head q1) (lq_tail q1) (ms @ [p])"
    unfolding nxt prv using dlinked_snoc [OF Cons.prems(2) p(1,2)] by (simp add: q1_def)
  have keep: "s1 y = s y" if "y \<in> set ns" for y
    using that p(3) E(3) Cons.prems(8) by (auto simp: s1_def Let_def)
  have "\<forall>y\<in>set vs. ln_next (s1 y) = ln_next (s y)" using keep Cons.prems(7) by auto
  then have "linked (\<lambda>p. ln_next (s1 p)) (ln_next (s x)) vs 0"
    using cur(3) linked_cong [of vs "\<lambda>p. ln_next (s1 p)" "\<lambda>p. ln_next (s p)" "ln_next (s x)" 0] by simp
  from Cons.IH [OF this D1, of gs] Cons.prems p
  obtain q' s' where ih: "copy_loop f gs (ln_next (s x)) (q1, s1) = Some (Some (q', s'))"
    "dlinked (\<lambda>p. ln_next (s' p)) (\<lambda>p. ln_prev (s' p)) (lq_head q') (lq_tail q') ((ms @ [p]) @ gs)"
    "items s' ((ms @ [p]) @ gs) = items s1 (ms @ [p]) @ map (\<lambda>(i, d). (i, f d)) (items s1 vs)"
    "\<forall>y\<in>set ns. s' y = s1 y" "lq_rr_cursor q' = lq_rr_cursor q1"
    by (auto simp: fs)
  have "items s1 vs = items s vs" using keep Cons.prems(7) by (intro items_cong) auto
  moreover have "items s1 ms = items s ms" using p(2) by (intro items_cong) (auto simp: s1_def Let_def)
  moreover have "items s1 [p] = [(ln_index (s x), f (ln_data (s x)))]" using tp by (auto simp: s1_def items_def Let_def)
  ultimately have "items s' (ms @ fs) = items s ms @ map (\<lambda>(i, d). (i, f d)) (items s (x # vs))"
    using ih(3) by (simp add: fs) (simp add: items_def)
  then show ?case using ih step keep by (simp add: fs q1_def)
qed

lemma copy_spec:
  assumes Q: "queue_of (q, s) ns" and f: "length fs = length ns" "distinct fs" "0 \<notin> set fs" "set fs \<inter> set ns = {}"
  shows "\<exists>q' s'. queue_copy g fs (q, s) = Some (Some (q', s')) \<and> queue_of (q', s') fs \<and>
    items s' fs = map (\<lambda>(i, d). (i, g d)) (items s ns) \<and> queue_of (q, s') ns \<and> items s' ns = items s ns \<and>
    lq_rr_cursor q' = 0"
proof -
  have L: "links (q, s) ns" and I: "indices_ok (q, s) ns" using Q by (simp_all add: queue_of_def)
  have "dlinked (\<lambda>p. ln_next (s p)) (\<lambda>p. ln_prev (s p)) (lq_head queue_init) (lq_tail queue_init) []"
    by (simp add: dlinked_def queue_init_def)
  from copy_loop_spec [OF linksD(2) [OF L] this f(1-3), of ns g] f(4)
  obtain q1 s' where c: "copy_loop g fs (lq_head q) (queue_init, s) = Some (Some (q1, s'))"
    "dlinked (\<lambda>p. ln_next (s' p)) (\<lambda>p. ln_prev (s' p)) (lq_head q1) (lq_tail q1) fs"
    "items s' fs = map (\<lambda>(i, d). (i, g d)) (items s ns)" "\<forall>p\<in>set ns. s' p = s p" "lq_rr_cursor q1 = 0"
    by (auto simp: queue_init_def items_def)
  define q' where "q' = q1\<lparr>lq_size := lq_size q, lq_next_index := lq_next_index q\<rparr>"
  have run: "queue_copy g fs (q, s) = Some (Some (q', s'))" using c(1) by (simp add: queue_copy_def q'_def)
  have ix: "map (\<lambda>p. ln_index (s' p)) fs = map (\<lambda>p. ln_index (s p)) ns"
    using arg_cong [OF c(3), of "map fst"] by (simp add: items_def comp_def case_prod_unfold)
  have "links (q', s') fs" using c(2,5) linksD(3) [OF L] f(1) by (simp add: links_def q'_def)
  moreover have "indices_ok (q', s') fs"
  proof -
    have "ln_index (s' p) \<in> (\<lambda>p. ln_index (s p)) ` set ns" if "p \<in> set fs" for p
      using that arg_cong [OF ix, of set] by (metis imageI list.set_map)
    then show ?thesis using I ix by (fastforce simp: indices_ok_def q'_def)
  qed
  moreover have "links (q, s') ns"
    using L c(4) linked_cong [of ns "\<lambda>p. ln_next (s' p)" "\<lambda>p. ln_next (s p)"]
      backlinked_cong [of ns "\<lambda>p. ln_prev (s' p)" "\<lambda>p. ln_prev (s p)"]
    by (simp add: links_def dlinked_def)
  moreover have "indices_ok (q, s') ns" using I c(4) by (auto simp: indices_ok_def cong: map_cong)
  moreover have "items s' ns = items s ns" using c(4) by (intro items_cong) simp
  ultimately show ?thesis using run c(3,5) by (simp add: queue_of_def q'_def)
qed

text \<open>
  C29. Adding to a queue: \<open>queue_enqueue\<close> takes the next number, which no item of the queue has, and moves
  the next number on by one; \<open>queue_enqueue_id\<close> takes exactly the free numbers and \<open>queue_enqueue_lowest\<close> the smallest of them; the item
  is appended at the end and nothing else changes.  A refused call changes nothing.
\<close>

theorem queue_add_refines:
  assumes "queue_of (q, s) ns" and "x \<notin> set ns"
  shows "(\<exists>r q' s'. queue_enqueue x d (q, s) = (r, q', s') \<and>
     (if x \<noteq> 0 \<and> lq_next_index q \<noteq> - 1
      then r = lq_next_index q \<and> lq_next_index q' = r + 1 \<and> r \<notin> fst ` set (items s ns) \<and>
           queue_of (q', s') (ns @ [x]) \<and> items s' (ns @ [x]) = items s ns @ [(r, d)]
      else r = - 1 \<and> q' = q \<and> s' = s)) \<and>
   (\<exists>r q' s'. queue_enqueue_id x d i (q, s) = Some (r, q', s') \<and>
     (if x \<noteq> 0 \<and> i \<noteq> - 1 \<and> i \<notin> fst ` set (items s ns)
      then r = i \<and> queue_of (q', s') (ns @ [x]) \<and> items s' (ns @ [x]) = items s ns @ [(i, d)]
      else r = - 1 \<and> q' = q \<and> s' = s)) \<and>
   (\<exists>r q' s'. queue_enqueue_lowest x d (q, s) = Some (r, q', s') \<and>
     (if r = - 1 then q' = q \<and> s' = s \<and> (x = 0 \<or> (\<forall>j<(- 1). j \<in> fst ` set (items s ns)))
      else r \<notin> fst ` set (items s ns) \<and> (\<forall>j<r. j \<in> fst ` set (items s ns)) \<and>
           queue_of (q', s') (ns @ [x]) \<and> items s' (ns @ [x]) = items s ns @ [(r, d)]))"
proof (intro conjI)
  have new: "lq_next_index q \<notin> fst ` set (items s ns)"
    using assms(1) unused_index [of q s ns] by (simp add: queue_of_def)
  show "\<exists>r q' s'. queue_enqueue x d (q, s) = (r, q', s') \<and>
     (if x \<noteq> 0 \<and> lq_next_index q \<noteq> - 1
      then r = lq_next_index q \<and> lq_next_index q' = r + 1 \<and> r \<notin> fst ` set (items s ns) \<and>
           queue_of (q', s') (ns @ [x]) \<and> items s' (ns @ [x]) = items s ns @ [(r, d)]
      else r = - 1 \<and> q' = q \<and> s' = s)"
    using queue_enqueue_spec [OF assms, of d] new by (auto split: if_splits)
  show "\<exists>r q' s'. queue_enqueue_id x d i (q, s) = Some (r, q', s') \<and>
     (if x \<noteq> 0 \<and> i \<noteq> - 1 \<and> i \<notin> fst ` set (items s ns)
      then r = i \<and> queue_of (q', s') (ns @ [x]) \<and> items s' (ns @ [x]) = items s ns @ [(i, d)]
      else r = - 1 \<and> q' = q \<and> s' = s)"
    by (rule enqueue_id_spec [OF assms])
  show "\<exists>r q' s'. queue_enqueue_lowest x d (q, s) = Some (r, q', s') \<and>
     (if r = - 1 then q' = q \<and> s' = s \<and> (x = 0 \<or> (\<forall>j<(- 1). j \<in> fst ` set (items s ns)))
      else r \<notin> fst ` set (items s ns) \<and> (\<forall>j<r. j \<in> fst ` set (items s ns)) \<and>
           queue_of (q', s') (ns @ [x]) \<and> items s' (ns @ [x]) = items s ns @ [(r, d)])"
    using enqueue_lowest_spec [OF assms, of d] by (auto split: if_splits)
qed

text \<open>
  Taking from a queue: lookup and removal by number see exactly the item with that number, removal by
  handle the first item with it, dequeuing the oldest; every one of them returns, removes one item and keeps
  the order of the others.  Destroying frees every node once.  A copy holds the same numbers with copied handles and leaves its source alone.
\<close>

theorem queue_take_refines:
  assumes "queue_of (q, s) ns"
  shows "queue_get i (q, s) = Some (case map_of (items s ns) i of None \<Rightarrow> 0 | Some d \<Rightarrow> d) \<and>
   (\<exists>r q' s' ns'. queue_remove_at i (q, s) = Some (r, q', s') \<and> queue_of (q', s') ns' \<and>
     (case map_of (items s ns) i of
        None \<Rightarrow> r = 0 \<and> q' = q \<and> s' = s \<and> ns' = ns
      | Some d \<Rightarrow> r = d \<and> items s' ns' = remove1 (i, d) (items s ns))) \<and>
   (d \<noteq> 0 \<longrightarrow> (\<exists>r q' s' ns'. queue_remove_data d (q, s) = Some (r, q', s') \<and> queue_of (q', s') ns' \<and>
     (case find (\<lambda>(_, e). e = d) (items s ns) of
        None \<Rightarrow> r = 0 \<and> q' = q \<and> s' = s \<and> ns' = ns
      | Some it \<Rightarrow> r = d \<and> items s' ns' = remove1 it (items s ns)))) \<and>
   (\<exists>r q' s'. queue_dequeue (q, s) = (r, q', s') \<and> queue_of (q', s') (tl ns) \<and> items s' (tl ns) = tl (items s ns) \<and>
     r = (if ns = [] then 0 else snd (hd (items s ns)))) \<and>
   queue_iterate (q, s) = Some (map snd (items s ns)) \<and>
   (\<exists>q'. queue_destroy (q, s) = Some (ns, q') \<and> lq_head q' = 0) \<and>
   (length fs = length ns \<longrightarrow> distinct fs \<longrightarrow> 0 \<notin> set fs \<longrightarrow> set fs \<inter> set ns = {} \<longrightarrow>
     (\<exists>q' s'. queue_copy g fs (q, s) = Some (Some (q', s')) \<and> queue_of (q', s') fs \<and>
        items s' fs = map (\<lambda>(i, d). (i, g d)) (items s ns) \<and> queue_of (q, s') ns \<and> items s' ns = items s ns))"
  using get_spec [OF assms, of i] remove_at_spec [OF assms, of i] remove_data_spec [OF assms, of d]
    dequeue_spec [OF assms] iterate_spec [OF assms] destroy_spec [OF assms] copy_spec [OF assms, of fs g]
  by blast

section \<open>A queue of two items\<close>

definition queue2 :: "lock_queue \<times> lq_store" where
  "queue2 = snd (queue_enqueue 20 7 (snd (queue_enqueue 10 5 (queue_init, \<lambda>_. \<lparr>ln_data = 0, ln_next = 0, ln_prev = 0, ln_index = 0\<rparr>))))"

lemma queue2_ok: "queue_of queue2 [10, 20]" and queue2_items: "items (snd queue2) [10, 20] = [(0, 5), (1, 7)]"
  by (simp_all add: queue2_def queue_enqueue_def queue_append_node_def queue_init_def fresh_node_def on_ln_def
      queue_of_def links_def indices_ok_def dlinked_def items_def)

theorem queue_add_refines_witness:
  "\<exists>q' s'. queue_enqueue_lowest 30 9 queue2 = Some (2, q', s') \<and> items s' [10, 20, 30] = [(0, 5), (1, 7), (2, 9)]"
proof -
  obtain q s where q: "queue2 = (q, s)" by fastforce
  have new: "30 \<notin> set [10 :: u32, 20]" by simp
  have it: "items s [10, 20] = [(0, 5), (1, 7)]" using queue2_items unfolding q by simp
  from queue_add_refines [OF queue2_ok [unfolded q] new, of 9 0]
  obtain r q' s' where r: "queue_enqueue_lowest 30 9 (q, s) = Some (r, q', s')"
    "if r = - 1 then q' = q \<and> s' = s \<and> (30 = (0 :: u32) \<or> (\<forall>j<(- 1). j \<in> fst ` set (items s [10, 20])))
      else r \<notin> fst ` set (items s [10, 20]) \<and> (\<forall>j<r. j \<in> fst ` set (items s [10, 20])) \<and>
           queue_of (q', s') ([10, 20] @ [30]) \<and> items s' ([10, 20] @ [30]) = items s [10, 20] @ [(r, 9)]"
    by blast
  have two: "2 \<notin> {0 :: u32, 1}" "(2 :: u32) < - 1" by simp_all
  have "r \<noteq> - 1"
  proof
    assume "r = - 1"
    then have "\<forall>j<(- 1). j \<in> fst ` set (items s [10, 20])" using r(2) by simp
    then have "2 \<in> fst ` set (items s [10, 20])" using two(2) by blast
    then show False by (simp add: it)
  qed
  then have i: "r \<notin> {0, 1}" "\<not> 2 < r" "items s' [10, 20, 30] = [(0, 5), (1, 7), (r, 9)]"
    using r(2) two by (auto simp: it)
  have "unat r \<noteq> unat (0 :: u32)" "unat r \<noteq> unat (1 :: u32)"
    using i(1) unfolding word_eq_unat [symmetric] by simp_all
  moreover have "unat r \<le> 2" using i(2) by (simp add: word_lt_unat)
  ultimately have "unat r = unat (2 :: u32)" by simp
  then have "r = 2" by (simp only: word_eq_unat)
  then show ?thesis using r(1) i q by auto
qed

theorem queue_take_refines_witness:
  "queue_get 1 queue2 = Some 7 \<and> (\<exists>q' s'. queue_dequeue queue2 = (5, q', s') \<and> items s' [20] = [(1, 7)])"
proof -
  obtain q s where q: "queue2 = (q, s)" by fastforce
  show ?thesis
    using queue_take_refines [OF queue2_ok [unfolded q], of 1 0 "[]" id] queue2_items by (auto simp: q)
qed

end
