(* ===== verification/Pipe.thy ===== *)
theory Pipe
  imports Sched
begin

text \<open>
  Pipes, \<open>driver/fs/vfs/pipefs.cpp\<close>: one 8 KiB buffer between readers and writers that sleep on its two
  waiter lists, and the life of the pipe and of its two end objects.  One round of a read or write loop is
  everything done under the pipe's lock, the entry to the waiter list included; between rounds the rest of
  the system runs, an argument \<open>env\<close> of the loops and arbitrary steps of the runs below.  A waiter list is the
  list of the tasks in its nodes.  A freed object is absent from the store, so that using it is \<open>None\<close>.

  The file is linked into two kernels with two different \<open>scheduler_wake_task\<close>: that of \<open>kernel/task/scheduler.cpp\<close>
  in the upstream (x86) build, and in the ARM32 build (\<open>tools/gen_ninja.py\<close>) the stub of
  \<open>arch/arm32/src/upstream_api.cpp\<close>, which wakes nobody.  The operations therefore take the function they are
  linked with as an argument \<open>wake\<close>; what holds of bytes and of the life of a pipe is proved for every such function, what is
  said of sleeping for each of the two.  Tasks are records of \<open>Tcb\<close>, whose fields status, level, wakeup time, slice, virtual
  runtime and deadline the two kernels' control blocks have in common; in the ARM32 build \<open>get_current_task\<close>
  gives the same control block to every thread.
\<close>

section \<open>State\<close>

abbreviation (input) PIPE_BUFF :: u32 where "PIPE_BUFF \<equiv> 8192"
abbreviation (input) EPIPE :: u32 where "EPIPE \<equiv> 32"
abbreviation (input) EPOLLIN :: u32 where "EPOLLIN \<equiv> 1"
abbreviation (input) EPOLLOUT :: u32 where "EPOLLOUT \<equiv> 4"
abbreviation (input) EPOLLERR :: u32 where "EPOLLERR \<equiv> 8"
abbreviation (input) EPOLLHUP :: u32 where "EPOLLHUP \<equiv> 16"

record pipe_info =
  pp_ptr :: u32
  pp_buf :: "u8 list"
  pp_write_fds :: int
  pp_read_fds :: int
  pp_blocking_read :: "tcb_t list"
  pp_blocking_write :: "tcb_t list"
  pp_read_spec :: u32
  pp_write_spec :: u32

record pipe_specific =
  sp_write :: bool
  sp_info :: u32

record pipe_world =
  pw_specs :: "u32 \<Rightarrow> pipe_specific option"
  pw_pipes :: "u32 \<Rightarrow> pipe_info option"
  pw_tasks :: tstore

section \<open>Waiter lists\<close>

definition apply_eevdf_wakeup_credit :: "tcb_t \<Rightarrow> u64 \<Rightarrow> tstore \<Rightarrow> tstore" where
  "apply_eevdf_wakeup_credit task base_vruntime s =
     (if task = NULL_TASK \<or> t_task_level (s task) = TASK_IDLE_LEVEL then s
      else
        let slice = (if t_slice (s task) < 1000000 then 4000000 else t_slice (s task));
            credit = (if slice < 4000000 then 4000000 else slice);
            credit = (if 8000000 < credit then 8000000 else credit);
            placed_vruntime = (if credit < base_vruntime then base_vruntime - credit else 0);
            s = (if placed_vruntime < t_vruntime (s task)
                 then upd task (\<lambda>x. x\<lparr>t_vruntime := placed_vruntime\<rparr>) s else s)
        in upd task (\<lambda>x. x\<lparr>t_deadline := t_vruntime x + slice\<rparr>) s)"

definition scheduler_wake_task :: "tcb_t \<Rightarrow> tcb_t \<Rightarrow> tstore \<Rightarrow> tstore" where
  "scheduler_wake_task current task s =
     (if task = NULL_TASK \<or> t_status (s task) \<noteq> WAIT then s
      else
        let base_vruntime = (if current \<noteq> NULL_TASK \<and> t_task_level (s current) \<noteq> TASK_IDLE_LEVEL
                             then t_vruntime (s current) else 0)
        in apply_eevdf_wakeup_credit task base_vruntime
             (upd task (\<lambda>x. x\<lparr>t_wakeup_time := 0, t_status := START\<rparr>) s))"


type_synonym waker = "tcb_t \<Rightarrow> tcb_t \<Rightarrow> tstore \<Rightarrow> tstore"

fun pipe_waiter_contains :: "tcb_t list \<Rightarrow> tcb_t \<Rightarrow> bool" where
  "pipe_waiter_contains [] task = False"
| "pipe_waiter_contains (n # ns) task = (if n = task then True else pipe_waiter_contains ns task)"

text \<open>\<open>mem\<close> tells whether \<open>malloc\<close> has a node.\<close>

definition pipe_add_waiter :: "bool \<Rightarrow> tcb_t \<Rightarrow> tcb_t list \<Rightarrow> bool \<times> tcb_t list" where
  "pipe_add_waiter mem task head =
     (if task = NULL_TASK then (False, head)
      else if pipe_waiter_contains head task then (True, head)
      else if \<not> mem then (False, head)
      else (True, task # head))"

definition pipe_wake_waiters :: "waker \<Rightarrow> tcb_t \<Rightarrow> tcb_t list \<Rightarrow> tstore \<Rightarrow> tcb_t list \<times> tstore" where
  "pipe_wake_waiters wake current head s = ([], fold (wake current) head s)"

text \<open>
  The start of the timed sleep of a task that is not the idle task: it waits, with a deadline, and is on no list.
\<close>

definition scheduler_sleep_ns :: "u64 \<Rightarrow> u64 \<Rightarrow> tcb_t \<Rightarrow> tstore \<Rightarrow> tstore" where
  "scheduler_sleep_ns now nano current s =
     (let wakeup_time = now + nano;
          wakeup_time = (if wakeup_time < now then - 1 else wakeup_time)
      in upd current (\<lambda>x. x\<lparr>t_wakeup_time := wakeup_time, t_status := WAIT\<rparr>) s)"

text \<open>The part of \<open>pipe_wait_on\<close> under the lock, and what the caller does after it: yield once, sleep for a
  millisecond, or wait until it is woken.\<close>

datatype pipe_wait = Yields | Sleeps | Blocked

definition pipe_wait_on :: "bool \<Rightarrow> tcb_t \<Rightarrow> tcb_t list \<Rightarrow> tstore \<Rightarrow> pipe_wait \<times> tcb_t list \<times> tstore" where
  "pipe_wait_on mem current head s =
     (if current = NULL_TASK \<or> t_task_level (s current) = TASK_IDLE_LEVEL then (Yields, head, s)
      else
        let (ok, head) = pipe_add_waiter mem current head in
        if \<not> ok then (Sleeps, head, s)
        else (Blocked, head, upd current (\<lambda>x. x\<lparr>t_wakeup_time := 0, t_status := WAIT\<rparr>) s))"

partial_function (option) pipe_sleep ::
  "(nat \<Rightarrow> pipe_info \<times> tstore \<Rightarrow> pipe_info \<times> tstore) \<Rightarrow> tcb_t \<Rightarrow> nat \<Rightarrow> pipe_info \<times> tstore \<Rightarrow>
     (nat \<times> pipe_info \<times> tstore) option" where
  "pipe_sleep env current n ps =
     (if t_status (snd ps current) = WAIT then pipe_sleep env current (Suc n) (env n ps)
      else Some (n, fst ps,
                 if t_status (snd ps current) = START then upd current (\<lambda>x. x\<lparr>t_status := RUNNING\<rparr>) (snd ps)
                 else snd ps))"

definition pipe_pause ::
  "(nat \<Rightarrow> pipe_info \<times> tstore \<Rightarrow> pipe_info \<times> tstore) \<Rightarrow> tcb_t \<Rightarrow> pipe_wait \<Rightarrow> nat \<Rightarrow> pipe_info \<times> tstore \<Rightarrow>
     (nat \<times> pipe_info \<times> tstore) option" where
  "pipe_pause env current w n ps =
     (case w of Blocked \<Rightarrow> pipe_sleep env current n ps | _ \<Rightarrow> Some (Suc n, env n ps))"

section \<open>Reading\<close>

definition pipe_read_round ::
  "waker \<Rightarrow> bool \<Rightarrow> tcb_t \<Rightarrow> u32 \<Rightarrow> pipe_info \<times> tstore \<Rightarrow> (u8 list + pipe_wait) \<times> pipe_info \<times> tstore" where
  "pipe_read_round wake mem current sz ps =
     (let (p, s) = ps in
      if pp_ptr p \<noteq> 0 then
        let to_read = min sz (pp_ptr p);
            out = take (unat to_read) (pp_buf p);
            rest = take (unat (pp_ptr p - to_read)) (drop (unat to_read) (pp_buf p));
            p = (if to_read < pp_ptr p then p\<lparr>pp_buf := overwrite 0 rest (pp_buf p)\<rparr> else p);
            p = p\<lparr>pp_ptr := pp_ptr p - to_read\<rparr>;
            (head, s) = pipe_wake_waiters wake current (pp_blocking_write p) s
        in (Inl out, p\<lparr>pp_blocking_write := head\<rparr>, s)
      else if pp_write_fds p = 0 then (Inl [], p, s)
      else
        let (w, head, s) = pipe_wait_on mem current (pp_blocking_read p) s
        in (Inr w, p\<lparr>pp_blocking_read := head\<rparr>, s))"

partial_function (option) pipe_read_loop ::
  "waker \<Rightarrow> (nat \<Rightarrow> bool) \<Rightarrow> (nat \<Rightarrow> pipe_info \<times> tstore \<Rightarrow> pipe_info \<times> tstore) \<Rightarrow> tcb_t \<Rightarrow> u32 \<Rightarrow> nat \<Rightarrow>
     pipe_info \<times> tstore \<Rightarrow> (u8 list \<times> nat \<times> pipe_info \<times> tstore) option" where
  "pipe_read_loop wake mem env current sz n ps =
     (case pipe_read_round wake (mem n) current sz ps of
        (Inl out, ps) \<Rightarrow> Some (out, n, ps)
      | (Inr w, ps) \<Rightarrow> do { (n, ps) \<leftarrow> pipe_pause env current w n ps;
                              pipe_read_loop wake mem env current sz n ps })"

text \<open>The bytes read, or the error.\<close>

definition pipefs_read ::
  "waker \<Rightarrow> (nat \<Rightarrow> bool) \<Rightarrow> (nat \<Rightarrow> pipe_info \<times> tstore \<Rightarrow> pipe_info \<times> tstore) \<Rightarrow> tcb_t \<Rightarrow> u32 \<Rightarrow> u32 \<Rightarrow>
     pipe_world \<Rightarrow> ((u8 list + u32) \<times> pipe_world) option" where
  "pipefs_read wake mem env current file sz w =
     (let sz = (if PIPE_BUFF < sz then PIPE_BUFF else sz) in
      if file = 0 then Some (Inr (- 22), w)
      else do {
        spec \<leftarrow> pw_specs w file;
        if sp_info spec = 0 then Some (Inr (- 22), w)
        else do {
          p \<leftarrow> pw_pipes w (sp_info spec);
          (out, n, p, s) \<leftarrow> pipe_read_loop wake mem env current sz 0 (p, pw_tasks w);
          Some (Inl out, w\<lparr>pw_pipes := (pw_pipes w)(sp_info spec \<mapsto> p), pw_tasks := s\<rparr>) } })"

section \<open>Writing\<close>

definition pipe_write_round ::
  "waker \<Rightarrow> bool \<Rightarrow> tcb_t \<Rightarrow> u8 list \<Rightarrow> pipe_info \<times> tstore \<Rightarrow> (u32 + pipe_wait) \<times> pipe_info \<times> tstore" where
  "pipe_write_round wake mem current addr ps =
     (let (p, s) = ps; sz = of_nat (length addr) in
      if pp_read_fds p = 0 then (Inl (- EPIPE), p, s)
      else if sz \<le> PIPE_BUFF - pp_ptr p then
        let p = p\<lparr>pp_buf := overwrite (unat (pp_ptr p)) addr (pp_buf p)\<rparr>;
            p = p\<lparr>pp_ptr := pp_ptr p + sz\<rparr>;
            (head, s) = pipe_wake_waiters wake current (pp_blocking_read p) s
        in (Inl sz, p\<lparr>pp_blocking_read := head\<rparr>, s)
      else
        let (w, head, s) = pipe_wait_on mem current (pp_blocking_write p) s
        in (Inr w, p\<lparr>pp_blocking_write := head\<rparr>, s))"

partial_function (option) pipe_write_inner ::
  "waker \<Rightarrow> (nat \<Rightarrow> bool) \<Rightarrow> (nat \<Rightarrow> pipe_info \<times> tstore \<Rightarrow> pipe_info \<times> tstore) \<Rightarrow> tcb_t \<Rightarrow> u8 list \<Rightarrow> nat \<Rightarrow>
     pipe_info \<times> tstore \<Rightarrow> (u32 \<times> nat \<times> pipe_info \<times> tstore) option" where
  "pipe_write_inner wake mem env current addr n ps =
     (case pipe_write_round wake (mem n) current addr ps of
        (Inl r, ps) \<Rightarrow> Some (r, n, ps)
      | (Inr w, ps) \<Rightarrow> do { (n, ps) \<leftarrow> pipe_pause env current w n ps;
                              pipe_write_inner wake mem env current addr n ps })"

text \<open>The loop over one chunk of \<open>addr\<close>: \<open>None\<close> in the first component when a write found no reader.\<close>

partial_function (option) pipe_write_cycle ::
  "waker \<Rightarrow> (nat \<Rightarrow> bool) \<Rightarrow> (nat \<Rightarrow> pipe_info \<times> tstore \<Rightarrow> pipe_info \<times> tstore) \<Rightarrow> tcb_t \<Rightarrow> u8 list \<Rightarrow> u32 \<Rightarrow> nat \<Rightarrow>
     pipe_info \<times> tstore \<Rightarrow> (u32 option \<times> nat \<times> pipe_info \<times> tstore) option" where
  "pipe_write_cycle wake mem env current chunk cycle n ps =
     (if cycle = of_nat (length chunk) then Some (Some cycle, n, ps)
      else do {
        (wrote, n, ps) \<leftarrow> pipe_write_inner wake mem env current (drop (unat cycle) chunk) n ps;
        if wrote = - EPIPE then Some (None, n, ps)
        else pipe_write_cycle wake mem env current chunk (cycle + wrote) n ps })"

fun pipe_write_chunks ::
  "waker \<Rightarrow> (nat \<Rightarrow> bool) \<Rightarrow> (nat \<Rightarrow> pipe_info \<times> tstore \<Rightarrow> pipe_info \<times> tstore) \<Rightarrow> tcb_t \<Rightarrow> u8 list list \<Rightarrow> u32 \<Rightarrow> nat \<Rightarrow>
     pipe_info \<times> tstore \<Rightarrow> (u32 \<times> nat \<times> pipe_info \<times> tstore) option" where
  "pipe_write_chunks wake mem env current [] ret n ps = Some (ret, n, ps)"
| "pipe_write_chunks wake mem env current (c # cs) ret n ps =
     do { (done, n, ps) \<leftarrow> pipe_write_cycle wake mem env current c 0 n ps;
          case done of
            None \<Rightarrow> Some (if ret \<noteq> 0 then ret else - EPIPE, n, ps)
          | Some cycle \<Rightarrow> pipe_write_chunks wake mem env current cs (ret + cycle) n ps }"

text \<open>The whole chunks of \<open>PIPE_BUFF\<close> bytes first, then the remainder if there is one.\<close>

definition pipe_chunks :: "u8 list \<Rightarrow> u8 list list" where
  "pipe_chunks addr =
     (let chunks = length addr div 8192; remainder = length addr mod 8192
      in List.map (\<lambda>i. take 8192 (drop (i * 8192) addr)) [0..<chunks] @
         (if remainder \<noteq> 0 then [take remainder (drop (chunks * 8192) addr)] else []))"

definition pipefs_write ::
  "waker \<Rightarrow> (nat \<Rightarrow> bool) \<Rightarrow> (nat \<Rightarrow> pipe_info \<times> tstore \<Rightarrow> pipe_info \<times> tstore) \<Rightarrow> tcb_t \<Rightarrow> u32 \<Rightarrow> u8 list \<Rightarrow>
     pipe_world \<Rightarrow> (u32 \<times> pipe_world) option" where
  "pipefs_write wake mem env current file addr w =
     (if addr = [] then Some (0, w)
      else do {
        spec \<leftarrow> pw_specs w file;
        p \<leftarrow> pw_pipes w (sp_info spec);
        (ret, n, p, s) \<leftarrow> pipe_write_chunks wake mem env current (pipe_chunks addr) 0 0 (p, pw_tasks w);
        Some (ret, w\<lparr>pw_pipes := (pw_pipes w)(sp_info spec \<mapsto> p), pw_tasks := s\<rparr>) })"

section \<open>The ends of a pipe\<close>

definition pipe_free_spec :: "u32 \<Rightarrow> pipe_world \<Rightarrow> pipe_world option" where
  "pipe_free_spec file w =
     (case pw_specs w file of None \<Rightarrow> None | Some _ \<Rightarrow> Some (w\<lparr>pw_specs := (pw_specs w)(file := None)\<rparr>))"

text \<open>The locked part of \<open>pipefs_close\<close>: whether this was the last descriptor of its end, and the other end.\<close>

definition pipe_drop_end ::
  "waker \<Rightarrow> tcb_t \<Rightarrow> bool \<Rightarrow> pipe_info \<times> tstore \<Rightarrow> bool \<times> u32 \<times> pipe_info \<times> tstore" where
  "pipe_drop_end wake current write ps =
     (let (p, s) = ps in
      if write then
        let p = (if 0 < pp_write_fds p then p\<lparr>pp_write_fds := pp_write_fds p - 1\<rparr> else p) in
        if pp_write_fds p = 0 then
          let (head, s) = pipe_wake_waiters wake current (pp_blocking_read p) s
          in (True, pp_read_spec p, p\<lparr>pp_blocking_read := head, pp_write_spec := 0\<rparr>, s)
        else (False, 0, p, s)
      else
        let p = (if 0 < pp_read_fds p then p\<lparr>pp_read_fds := pp_read_fds p - 1\<rparr> else p) in
        if pp_read_fds p = 0 then
          let (head, s) = pipe_wake_waiters wake current (pp_blocking_write p) s
          in (True, pp_write_spec p, p\<lparr>pp_blocking_write := head, pp_read_spec := 0\<rparr>, s)
        else (False, 0, p, s))"

definition pipefs_close :: "waker \<Rightarrow> tcb_t \<Rightarrow> u32 \<Rightarrow> pipe_world \<Rightarrow> pipe_world option" where
  "pipefs_close wake current file w =
     (if file = 0 then Some w
      else do {
        spec \<leftarrow> pw_specs w file;
        if sp_info spec = 0 then pipe_free_spec file w
        else do {
          p \<leftarrow> pw_pipes w (sp_info spec);
          let (free_spec, other_spec, p, s) = pipe_drop_end wake current (sp_write spec) (p, pw_tasks w);
              free_pipe = (pp_write_fds p = 0 \<and> pp_read_fds p = 0);
              w = w\<lparr>pw_pipes := (pw_pipes w)(sp_info spec \<mapsto> p), pw_tasks := s\<rparr>
          in do {
            w \<leftarrow> (if free_spec then pipe_free_spec file w else Some w);
            if free_pipe then do {
              w \<leftarrow> (if other_spec \<noteq> 0 then pipe_free_spec other_spec w else Some w);
              Some (w\<lparr>pw_pipes := (pw_pipes w)(sp_info spec := None)\<rparr>) }
            else Some w } } })"

definition pipefs_poll :: "u32 \<Rightarrow> u32 \<Rightarrow> pipe_world \<Rightarrow> u32 option" where
  "pipefs_poll file events w =
     (if file = 0 then Some EPOLLERR
      else do {
        spec \<leftarrow> pw_specs w file;
        if sp_info spec = 0 then Some EPOLLERR
        else do {
          p \<leftarrow> pw_pipes w (sp_info spec);
          let out = 0;
              out = (if sp_write spec then (if pp_read_fds p = 0 then out OR (EPOLLERR OR EPOLLHUP) else out)
                     else if pp_write_fds p = 0 then out OR EPOLLHUP else out);
              out = (if events AND EPOLLIN \<noteq> 0 \<and> 0 < pp_ptr p then out OR EPOLLIN else out);
              out = (if events AND EPOLLOUT \<noteq> 0 \<and> pp_ptr p < PIPE_BUFF then out OR EPOLLOUT else out)
          in Some out } })"

text \<open>The size \<open>pipefs_stat\<close> puts into the node; \<open>None\<close> inside when the node is left alone.\<close>

definition pipefs_stat :: "u32 \<Rightarrow> pipe_world \<Rightarrow> u32 option option" where
  "pipefs_stat file w =
     do { spec \<leftarrow> pw_specs w file;
          if sp_info spec = 0 then Some None
          else do { p \<leftarrow> pw_pipes w (sp_info spec); Some (Some (pp_ptr p)) } }"

text \<open>The pipe part of \<open>fd_dup\<close>, and the making of a pipe with one descriptor at either end.\<close>

definition fd_dup_pipe :: "u32 \<Rightarrow> pipe_world \<Rightarrow> pipe_world option" where
  "fd_dup_pipe handle w =
     (if handle = 0 then Some w
      else do {
        spec \<leftarrow> pw_specs w handle;
        if sp_info spec = 0 then Some w
        else do {
          p \<leftarrow> pw_pipes w (sp_info spec);
          Some (w\<lparr>pw_pipes := (pw_pipes w)(sp_info spec \<mapsto>
                  (if sp_write spec then p\<lparr>pp_write_fds := pp_write_fds p + 1\<rparr>
                   else p\<lparr>pp_read_fds := pp_read_fds p + 1\<rparr>))\<rparr>) } })"

definition new_pipe :: "u32 \<Rightarrow> u32 \<Rightarrow> pipe_info" where
  "new_pipe read_spec write_spec =
     \<lparr>pp_ptr = 0, pp_buf = replicate 8192 0, pp_write_fds = 1, pp_read_fds = 1, pp_blocking_read = [],
      pp_blocking_write = [], pp_read_spec = read_spec, pp_write_spec = write_spec\<rparr>"

definition arm_pipe_create ::
  "bool \<Rightarrow> bool \<Rightarrow> bool \<Rightarrow> u32 \<Rightarrow> bool \<Rightarrow> u32 \<Rightarrow> u32 \<Rightarrow> pipe_world \<Rightarrow> int \<times> pipe_world" where
  "arm_pipe_create mounted node_read node_write info buf read_spec write_spec w =
     (if \<not> mounted then (- 1, w)
      else if \<not> node_read then (- 2, w)
      else if \<not> node_write then (- 3, w)
      else if info = 0 then (- 4, w)
      else if \<not> buf then (- 5, w)
      else if read_spec = 0 \<or> write_spec = 0 then
        (- 6, w\<lparr>pw_pipes := (pw_pipes w)(info \<mapsto> new_pipe 0 0)\<rparr>)
      else
        (0, w\<lparr>pw_specs := (pw_specs w)(read_spec \<mapsto> \<lparr>sp_write = False, sp_info = info\<rparr>,
                                        write_spec \<mapsto> \<lparr>sp_write = True, sp_info = info\<rparr>),
              pw_pipes := (pw_pipes w)(info \<mapsto> new_pipe read_spec write_spec)\<rparr>))"

section \<open>Rounds of all tasks, interleaved\<close>

text \<open>
  \<open>pipe_run wake Z W R ps\<close>: the pipe with its tasks has come to \<open>ps\<close>, the writers have been told that the bytes \<open>W\<close>
  were written, in this order, and the readers were given the bytes \<open>R\<close>.  \<open>Z\<close> are the tasks that a round has put to
  sleep in the pipe (with the outcome \<open>Blocked\<close>) and whose status has been \<open>WAIT\<close> ever since.  A step is one round of
  a read or a write by any task, one descriptor more or less at an end, or anything at all that the rest of the system
  does to the tasks: it may wake sleepers at any time, and put tasks to sleep for other reasons.  A reader or writer that
  found no memory for its node sleeps for a millisecond off the lists (\<open>naps\<close>) and is not in \<open>Z\<close>: its deadline wakes it.
\<close>

definition asleep :: "tcb_t set \<Rightarrow> tstore \<Rightarrow> tcb_t set" where
  "asleep Z s = {t \<in> Z. t_status (s t) = WAIT}"

inductive pipe_run :: "waker \<Rightarrow> tcb_t set \<Rightarrow> u8 list \<Rightarrow> u8 list \<Rightarrow> pipe_info \<times> tstore \<Rightarrow> bool" for wake where
  start: "pipe_run wake {} [] [] (new_pipe rs ws, s)"
| reads: "pipe_run wake Z W R ps \<Longrightarrow> pipe_read_round wake mem cur sz ps = (r, ps') \<Longrightarrow>
    pipe_run wake (asleep (if r = Inr Blocked then insert cur Z else Z) (snd ps')) W
      (R @ (case r of Inl out \<Rightarrow> out | Inr _ \<Rightarrow> [])) ps'"
| writes: "pipe_run wake Z W R ps \<Longrightarrow> 0 < length addr \<Longrightarrow> length addr \<le> 8192 \<Longrightarrow>
    pipe_write_round wake mem cur addr ps = (r, ps') \<Longrightarrow>
    pipe_run wake (asleep (if r = Inr Blocked then insert cur Z else Z) (snd ps'))
      (W @ (if r = Inl (of_nat (length addr)) then addr else [])) R ps'"
| naps: "pipe_run wake Z W R (p, s) \<Longrightarrow>
    pipe_read_round wake mem cur sz (p, s) = (Inr Sleeps, p', s') \<or>
      pipe_write_round wake mem cur addr (p, s) = (Inr Sleeps, p', s') \<Longrightarrow>
    pipe_run wake Z W R (p', scheduler_sleep_ns now 1000000 cur s')"
| drops: "pipe_run wake Z W R ps \<Longrightarrow> pipe_drop_end wake cur write ps = (freed, other, ps') \<Longrightarrow>
    pipe_run wake (asleep Z (snd ps')) W R ps'"
| dup_write: "pipe_run wake Z W R (p, s) \<Longrightarrow> 0 < pp_write_fds p \<Longrightarrow>
    pipe_run wake Z W R (p\<lparr>pp_write_fds := pp_write_fds p + 1\<rparr>, s)"
| dup_read: "pipe_run wake Z W R (p, s) \<Longrightarrow> 0 < pp_read_fds p \<Longrightarrow>
    pipe_run wake Z W R (p\<lparr>pp_read_fds := pp_read_fds p + 1\<rparr>, s)"
| others: "pipe_run wake Z W R (p, s) \<Longrightarrow> pipe_run wake (asleep Z s') W R (p, s')"

section \<open>Waking and going to sleep\<close>

lemma apply_credit_is_port: "apply_eevdf_wakeup_credit t b s = sched_apply_wakeup_credit t b s"
  by (simp add: apply_eevdf_wakeup_credit_def sched_apply_wakeup_credit_def sched_slice_def Let_def)

lemma wake_status: "t_status (scheduler_wake_task cur t s u) =
    (if u = t \<and> t \<noteq> 0 \<and> t_status (s t) = WAIT then START else t_status (s u))"
  by (simp add: scheduler_wake_task_def apply_credit_is_port credit_status upd_apply Let_def)

lemma wake_all_status: "t_status (fold (scheduler_wake_task cur) ts s u) =
    (if u \<in> set ts \<and> u \<noteq> 0 \<and> t_status (s u) = WAIT then START else t_status (s u))"
  by (induction ts arbitrary: s) (auto simp: wake_status)

lemma waiter_contains_iff: "pipe_waiter_contains ts t \<longleftrightarrow> t \<in> set ts"
  by (induction ts) auto

lemma wait_on_spec:
  assumes "pipe_wait_on mem cur ts s = (w, ts', s')" and "0 \<notin> set ts"
  shows "0 \<notin> set ts'" and "set ts \<subseteq> set ts'" and "w = Blocked \<Longrightarrow> cur \<in> set ts'"
  using assms
  by (auto simp: pipe_wait_on_def pipe_add_waiter_def waiter_contains_iff upd_apply Let_def split: if_splits)

lemma nap_deadline:
  assumes "0 < nano"
  shows "t_status (scheduler_sleep_ns now nano cur s cur) = WAIT"
    and "t_wakeup_time (scheduler_sleep_ns now nano cur s cur) \<noteq> 0"
proof -
  have "now + nano \<noteq> 0 \<or> now + nano < now" using assms by (cases "now = 0") (auto simp: word_gt_0)
  then show "t_wakeup_time (scheduler_sleep_ns now nano cur s cur) \<noteq> 0"
    by (auto simp: scheduler_sleep_ns_def upd_apply Let_def)
qed (simp add: scheduler_sleep_ns_def upd_apply Let_def)

lemma round_sleeps:
  assumes "pipe_read_round wake mem cur sz (p, s) = (Inr Sleeps, p', s') \<or>
    pipe_write_round wake mem cur addr (p, s) = (Inr Sleeps, p', s')"
  shows "p' = p" and "s' = s"
  using assms
  by (auto simp: pipe_read_round_def pipe_write_round_def pipe_wait_on_def pipe_add_waiter_def Let_def
      split: if_splits prod.splits)

section \<open>The invariant of a pipe\<close>

definition pipe_inv :: "waker \<Rightarrow> tcb_t set \<Rightarrow> u8 list \<Rightarrow> u8 list \<Rightarrow> pipe_info \<Rightarrow> tstore \<Rightarrow> bool" where
  "pipe_inv wake Z W R p s \<longleftrightarrow>
     length (pp_buf p) = 8192 \<and> unat (pp_ptr p) \<le> 8192 \<and> W = R @ take (unat (pp_ptr p)) (pp_buf p) \<and>
     0 \<le> pp_write_fds p \<and> 0 \<le> pp_read_fds p \<and>
     0 \<notin> set (pp_blocking_read p) \<and> 0 \<notin> set (pp_blocking_write p) \<and>
     (\<forall>t\<in>Z. t_status (s t) = WAIT) \<and>
     (wake = scheduler_wake_task \<longrightarrow> Z \<subseteq> set (pp_blocking_read p) \<union> set (pp_blocking_write p)) \<and>
     (pp_blocking_read p \<noteq> [] \<longrightarrow> pp_ptr p = 0 \<and> 0 < pp_write_fds p) \<and>
     (pp_blocking_write p \<noteq> [] \<longrightarrow> pp_ptr p \<noteq> 0 \<and> 0 < pp_read_fds p)"

lemma asleep_woken:
  "Z \<subseteq> set ts \<union> B \<Longrightarrow> 0 \<notin> set ts \<Longrightarrow> asleep Z (fold (scheduler_wake_task cur) ts s) \<subseteq> B"
  by (auto simp: asleep_def wake_all_status split: if_splits)

lemma asleep_sub: "asleep Z s \<subseteq> Z" "t \<in> asleep Z s \<Longrightarrow> t_status (s t) = WAIT"
  by (auto simp: asleep_def)

lemma asleep_block:
  assumes "Z \<subseteq> set ts \<union> B" and "pipe_wait_on mem cur ts s = (w, ts', s')" and "0 \<notin> set ts"
  shows "asleep (if w = Blocked then insert cur Z else Z) s' \<subseteq> set ts' \<union> B"
  using assms(1) wait_on_spec(2,3) [OF assms(2,3)] asleep_sub(1) by (auto simp: asleep_def)

lemma pipe_read_inv:
  assumes I: "pipe_inv wake Z W R p s" and r: "pipe_read_round wake mem cur sz (p, s) = (r, p', s')"
  shows "pipe_inv wake (asleep (if r = Inr Blocked then insert cur Z else Z) s') W
    (R @ (case r of Inl out \<Rightarrow> out | Inr _ \<Rightarrow> [])) p' s'"
proof (cases "pp_ptr p = 0")
  case True
  show ?thesis
  proof (cases "pp_write_fds p = 0")
    case False
    obtain w ts s2 where w: "pipe_wait_on mem cur (pp_blocking_read p) s = (w, ts, s2)" by (metis prod_cases3)
    have z: "0 \<notin> set (pp_blocking_read p)" using I by (simp add: pipe_inv_def)
    have "asleep (if w = Blocked then insert cur Z else Z) s2 \<subseteq> set ts \<union> set (pp_blocking_write p)"
      if "wake = scheduler_wake_task"
      by (rule asleep_block [OF _ w z]) (use I that in \<open>simp add: pipe_inv_def\<close>)
    then show ?thesis using I r True False w wait_on_spec(1,2) [OF w z]
      by (auto simp: pipe_read_round_def pipe_inv_def asleep_sub(2))
  next
    case no: True
    then have "r = Inl []" "p' = p" "s' = s" using r True by (simp_all add: pipe_read_round_def)
    then show ?thesis using I asleep_sub [where Z = Z and s = s] by (auto simp: pipe_inv_def)
  qed
next
  case False
  define n where "n = unat (min sz (pp_ptr p))"
  define b where "b = (if min sz (pp_ptr p) < pp_ptr p
      then overwrite 0 (take (unat (pp_ptr p - min sz (pp_ptr p))) (drop n (pp_buf p))) (pp_buf p) else pp_buf p)"
  have le: "n \<le> unat (pp_ptr p)" by (simp add: n_def min_def word_le_nat_alt)
  have d: "unat (pp_ptr p - min sz (pp_ptr p)) = unat (pp_ptr p) - n"
    unfolding n_def by (rule unat_sub_le) (use le in \<open>simp add: n_def\<close>)
  have len: "length (pp_buf p) = 8192" "unat (pp_ptr p) \<le> 8192" and W: "W = R @ take (unat (pp_ptr p)) (pp_buf p)"
    using I by (simp_all add: pipe_inv_def)
  have b: "length b = 8192" "take (unat (pp_ptr p) - n) b = take (unat (pp_ptr p) - n) (drop n (pp_buf p))"
    using len le d by (auto simp: b_def overwrite_def word_less_nat_alt n_def)
  have W2: "W = R @ take n (pp_buf p) @ take (unat (pp_ptr p) - n) (drop n (pp_buf p))"
    using W le by (metis le_add_diff_inverse take_add)
  have R: "r = Inl (take n (pp_buf p))"
      "p' = p\<lparr>pp_buf := b, pp_ptr := pp_ptr p - min sz (pp_ptr p), pp_blocking_write := []\<rparr>"
      "s' = fold (wake cur) (pp_blocking_write p) s"
    using r False
    by (cases "min sz (pp_ptr p) < pp_ptr p";
        auto simp: pipe_read_round_def pipe_wake_waiters_def b_def n_def Let_def)+
  have none: "pp_blocking_read p = []" using I False by (simp add: pipe_inv_def)
  have "asleep Z s' \<subseteq> {}" if u: "wake = scheduler_wake_task"
    unfolding R(3) u by (rule asleep_woken) (use I none u in \<open>auto simp: pipe_inv_def\<close>)
  then show ?thesis using I b W2 d len none asleep_sub(2) [of _ Z s'] by (simp add: R(1,2) pipe_inv_def)
qed

lemma pipe_write_inv:
  assumes I: "pipe_inv wake Z W R p s" and a: "0 < length addr" "length addr \<le> 8192"
    and r: "pipe_write_round wake mem cur addr (p, s) = (r, p', s')"
  shows "pipe_inv wake (asleep (if r = Inr Blocked then insert cur Z else Z) s')
    (W @ (if r = Inl (of_nat (length addr)) then addr else [])) R p' s'"
proof -
  have len: "length (pp_buf p) = 8192" "unat (pp_ptr p) \<le> 8192" and W: "W = R @ take (unat (pp_ptr p)) (pp_buf p)"
    using I by (simp_all add: pipe_inv_def)
  have n: "unat (of_nat (length addr) :: u32) = length addr" using a by (simp add: unat_of_nat_small)
  have no: "- 32 \<noteq> (of_nat (length addr) :: u32)" 
  proof
    assume "- 32 = (of_nat (length addr) :: u32)"
    then have "unat (- 32 :: u32) = length addr" using n by metis
    then show False using a by simp
  qed
  have room: "of_nat (length addr) \<le> 8192 - pp_ptr p \<longleftrightarrow> unat (pp_ptr p) + length addr \<le> 8192"
    using n len(2) by (simp add: word_le_nat_alt unat_sub_le) arith
  have sub: "\<forall>t\<in>asleep Y s'. t_status (s' t) = WAIT" for Y using asleep_sub(2) by blast
  consider "pp_read_fds p = 0" | "pp_read_fds p \<noteq> 0" "unat (pp_ptr p) + length addr \<le> 8192"
    | "pp_read_fds p \<noteq> 0" "8192 < unat (pp_ptr p) + length addr" by linarith
  then show ?thesis
  proof cases
    case 1
    then have "r = Inl (- 32)" "p' = p" "s' = s" using r by (simp_all add: pipe_write_round_def)
    then show ?thesis using I no sub [of Z] asleep_sub(1) [of Z s] by (auto simp: pipe_inv_def)
  next
    case 2
    have u: "unat (pp_ptr p + of_nat (length addr)) = unat (pp_ptr p) + length addr"
      using n 2 by (simp add: unat_add_small)
    moreover have "pp_ptr p + of_nat (length addr) \<noteq> 0" using u a by (metis add_is_0 less_not_refl unat_0)
    moreover have "take (unat (pp_ptr p) + length addr) (overwrite (unat (pp_ptr p)) addr (pp_buf p)) =
        take (unat (pp_ptr p)) (pp_buf p) @ addr" using len 2 by (simp add: overwrite_def)
    moreover have R: "r = Inl (of_nat (length addr))" "s' = fold (wake cur) (pp_blocking_read p) s"
      "p' = p\<lparr>pp_buf := overwrite (unat (pp_ptr p)) addr (pp_buf p), pp_ptr := pp_ptr p + of_nat (length addr),
              pp_blocking_read := []\<rparr>"
      using r 2 room by (simp_all add: pipe_write_round_def pipe_wake_waiters_def Let_def)
    moreover have "asleep Z s' \<subseteq> set (pp_blocking_write p)" if u: "wake = scheduler_wake_task"
      unfolding R(2) u by (rule asleep_woken) (use I u in \<open>auto simp: pipe_inv_def\<close>)
    ultimately show ?thesis using I 2 len sub [of Z] by (auto simp: pipe_inv_def)
  next
    case 3
    obtain w ts s2 where w: "pipe_wait_on mem cur (pp_blocking_write p) s = (w, ts, s2)" by (metis prod_cases3)
    have z: "0 \<notin> set (pp_blocking_write p)" using I by (simp add: pipe_inv_def)
    have R: "r = Inr w" "s' = s2" "p' = p\<lparr>pp_blocking_write := ts\<rparr>" using r 3 room w by (simp_all add: pipe_write_round_def)
    have "asleep (if w = Blocked then insert cur Z else Z) s2 \<subseteq> set ts \<union> set (pp_blocking_read p)"
      if "wake = scheduler_wake_task"
      by (rule asleep_block [OF _ w z]) (use I that in \<open>auto simp: pipe_inv_def\<close>)
    moreover have "pp_ptr p \<noteq> 0" using 3 a by auto
    ultimately show ?thesis using I 3 wait_on_spec(1,2) [OF w z] sub [of "if w = Blocked then insert cur Z else Z"]
      by (auto simp: R pipe_inv_def)
  qed
qed

lemma pipe_drop_spec:
  "pipe_drop_end wake cur write (p, s) =
     (let p1 = (if write then if 0 < pp_write_fds p then p\<lparr>pp_write_fds := pp_write_fds p - 1\<rparr> else p
                else if 0 < pp_read_fds p then p\<lparr>pp_read_fds := pp_read_fds p - 1\<rparr> else p) in
      if write \<and> pp_write_fds p1 = 0
      then (True, pp_read_spec p1, p1\<lparr>pp_blocking_read := [], pp_write_spec := 0\<rparr>, fold (wake cur) (pp_blocking_read p) s)
      else if \<not> write \<and> pp_read_fds p1 = 0
      then (True, pp_write_spec p1, p1\<lparr>pp_blocking_write := [], pp_read_spec := 0\<rparr>, fold (wake cur) (pp_blocking_write p) s)
      else (False, 0, p1, s))"
  by (cases "write") (simp_all add: pipe_drop_end_def pipe_wake_waiters_def Let_def)

lemma pipe_drop_cases:
  assumes "pipe_drop_end wake cur write (p, s) = (freed, other, p', s')" and "0 \<le> pp_write_fds p" "0 \<le> pp_read_fds p"
  shows "pp_buf p' = pp_buf p \<and> pp_ptr p' = pp_ptr p \<and> 0 \<le> pp_write_fds p' \<and> 0 \<le> pp_read_fds p' \<and>
    (pp_blocking_read p' = [] \<and> pp_blocking_write p' = pp_blocking_write p \<and>
       s' = fold (wake cur) (pp_blocking_read p) s \<and> pp_read_fds p' = pp_read_fds p \<or>
     pp_blocking_write p' = [] \<and> pp_blocking_read p' = pp_blocking_read p \<and>
       s' = fold (wake cur) (pp_blocking_write p) s \<and> pp_write_fds p' = pp_write_fds p \<or>
     pp_blocking_write p' = pp_blocking_write p \<and> pp_blocking_read p' = pp_blocking_read p \<and> s' = s \<and>
       (0 < pp_write_fds p \<longrightarrow> 0 < pp_write_fds p') \<and> (0 < pp_read_fds p \<longrightarrow> 0 < pp_read_fds p'))"
  using assms unfolding pipe_drop_spec by (cases "write") (auto simp: Let_def split: if_splits)

lemma pipe_drop_inv:
  assumes I: "pipe_inv wake Z W R p s" and r: "pipe_drop_end wake cur write (p, s) = (freed, other, p', s')"
  shows "pipe_inv wake (asleep Z s') W R p' s'"
proof -
  have sub: "\<forall>t\<in>asleep Z s'. t_status (s' t) = WAIT" using asleep_sub(2) by blast
  have z: "0 \<notin> set (pp_blocking_read p)" "0 \<notin> set (pp_blocking_write p)"
    and pos: "0 \<le> pp_write_fds p" "0 \<le> pp_read_fds p" using I by (simp_all add: pipe_inv_def)
  have Z: "Z \<subseteq> set (pp_blocking_read p) \<union> set (pp_blocking_write p)"
      "Z \<subseteq> set (pp_blocking_write p) \<union> set (pp_blocking_read p)" if "wake = scheduler_wake_task"
    using I that by (auto simp: pipe_inv_def)
  note d = pipe_drop_cases [OF r pos]
  then consider (readers) "pp_blocking_read p' = []" "pp_blocking_write p' = pp_blocking_write p"
      "s' = fold (wake cur) (pp_blocking_read p) s" "pp_read_fds p' = pp_read_fds p"
    | (writers) "pp_blocking_write p' = []" "pp_blocking_read p' = pp_blocking_read p"
      "s' = fold (wake cur) (pp_blocking_write p) s" "pp_write_fds p' = pp_write_fds p"
    | (none) "pp_blocking_write p' = pp_blocking_write p" "pp_blocking_read p' = pp_blocking_read p" "s' = s"
      "0 < pp_write_fds p \<longrightarrow> 0 < pp_write_fds p'" "0 < pp_read_fds p \<longrightarrow> 0 < pp_read_fds p'"
    by blast
  then show ?thesis
  proof cases
    case readers
    have "asleep Z s' \<subseteq> set (pp_blocking_write p)" if u: "wake = scheduler_wake_task"
      unfolding readers(3) u by (rule asleep_woken [OF Z(1) [OF u] z(1)])
    then show ?thesis using readers d I sub by (simp add: pipe_inv_def)
  next
    case writers
    have "asleep Z s' \<subseteq> set (pp_blocking_read p)" if u: "wake = scheduler_wake_task"
      unfolding writers(3) u by (rule asleep_woken [OF Z(2) [OF u] z(2)])
    then show ?thesis using writers d I sub by (simp add: pipe_inv_def)
  next
    case none
    then show ?thesis using d I sub Z(1) asleep_sub(1) [of Z s] by (auto simp: pipe_inv_def)
  qed
qed

lemma pipe_run_inv: "pipe_run wake Z W R ps \<Longrightarrow> pipe_inv wake Z W R (fst ps) (snd ps)"
proof (induction rule: pipe_run.induct)
  case (start rs ws s)
  then show ?case by (simp add: pipe_inv_def new_pipe_def)
next
  case (reads Z W R ps mem cur sz r ps')
  then show ?case using pipe_read_inv by (metis prod.collapse)
next
  case (writes Z W R ps addr mem cur r ps')
  then show ?case using pipe_write_inv by (metis prod.collapse)
next
  case (drops Z W R ps cur wr freed other ps')
  then show ?case using pipe_drop_inv by (metis prod.collapse)
next
  case (naps Z W R p s mem cur sz p' s' addr now)
  then show ?case using round_sleeps [OF naps.hyps(2)]
    by (auto simp: pipe_inv_def scheduler_sleep_ns_def upd_apply Let_def)
next
  case (others Z W R p s s')
  then show ?case using asleep_sub [where Z = Z and s = s'] by (auto simp: pipe_inv_def)
qed (auto simp: pipe_inv_def)

lemma pipe_bytes_in_order_parts:
  assumes "pipe_run wake Z W R (p, s)"
  shows "W = R @ take (unat (pp_ptr p)) (pp_buf p)" and "unat (pp_ptr p) \<le> length (pp_buf p)"
    and "length W = length R + unat (pp_ptr p)"
  using pipe_run_inv [OF assms] by (simp_all add: pipe_inv_def)

text \<open>
  C30. Bytes leave the pipe in the order they entered it.  However the tasks' reads, writes, dups and closes are
  interleaved, the bytes that writers were told are written are the bytes handed to readers followed by the
  bytes in the buffer: none is lost, doubled, reordered or torn out of its chunk, and the fill never exceeds
  the buffer.  This holds in both kernels, whatever the wake-up function does.
\<close>

theorem pipe_bytes_in_order:
  assumes "pipe_run wake Z W R (p, s)"
  shows "W = R @ take (unat (pp_ptr p)) (pp_buf p) \<and> unat (pp_ptr p) \<le> length (pp_buf p) \<and>
    length W = length R + unat (pp_ptr p)"
  using pipe_bytes_in_order_parts [OF assms] by blast






text \<open>
  In the ARM32 build nothing in the pipe ends the wait: as long as the rest of the system leaves the status of a
  sleeper alone, the loop of \<open>pipe_wait_on\<close> does not return.
\<close>

lemma pipe_sleep_hangs:
  assumes "\<forall>n ps. t_status (snd ps cur) = WAIT \<longrightarrow> t_status (snd (env n ps) cur) = WAIT"
    and "t_status (snd ps cur) = WAIT"
  shows "pipe_sleep env cur n ps = None"
proof -
  have "\<not> (t_status (snd ps cur) = WAIT \<and>
      (\<forall>n ps. t_status (snd ps cur) = WAIT \<longrightarrow> t_status (snd (env n ps) cur) = WAIT))"
    if "pipe_sleep env cur n ps = Some y" for y
  proof (rule pipe_sleep.raw_induct [OF _ that])
    fix sleep :: "(nat \<Rightarrow> pipe_info \<times> tstore \<Rightarrow> pipe_info \<times> tstore) \<Rightarrow> tcb_t \<Rightarrow> nat \<Rightarrow> pipe_info \<times> tstore \<Rightarrow>
        (nat \<times> pipe_info \<times> tstore) option"
    fix env cur n ps y
    assume "\<And>env cur n ps y. sleep env cur n ps = Some y \<Longrightarrow> \<not> (t_status (snd ps cur) = WAIT \<and>
        (\<forall>n ps. t_status (snd ps cur) = WAIT \<longrightarrow> t_status (snd (env n ps) cur) = WAIT))"
      and "(if t_status (snd ps cur) = WAIT then sleep env cur (Suc n) (env n ps)
        else Some (n, fst ps, if t_status (snd ps cur) = START then upd cur (\<lambda>x. x\<lparr>t_status := RUNNING\<rparr>) (snd ps)
                              else snd ps)) = Some y"
    then show "\<not> (t_status (snd ps cur) = WAIT \<and>
        (\<forall>n ps. t_status (snd ps cur) = WAIT \<longrightarrow> t_status (snd (env n ps) cur) = WAIT))"
      by metis
  qed
  then show ?thesis using assms by (cases "pipe_sleep env cur n ps") blast+
qed

section \<open>The life of a pipe\<close>

text \<open>
  \<open>pipe_life a r wr nr nw w\<close>: the pipe at \<open>a\<close> was made with the ends \<open>r\<close> and \<open>wr\<close>, and there are now \<open>nr\<close> read
  and \<open>nw\<close> write descriptors.  Only open descriptors are duplicated and closed.  Rounds of reads and writes
  change neither counts nor ends.
\<close>

definition same_ends :: "pipe_info \<Rightarrow> pipe_info \<Rightarrow> bool" where
  "same_ends p p' \<longleftrightarrow> pp_write_fds p' = pp_write_fds p \<and> pp_read_fds p' = pp_read_fds p \<and>
     pp_write_spec p' = pp_write_spec p \<and> pp_read_spec p' = pp_read_spec p"

inductive pipe_life :: "u32 \<Rightarrow> u32 \<Rightarrow> u32 \<Rightarrow> nat \<Rightarrow> nat \<Rightarrow> pipe_world \<Rightarrow> bool" for a r wr where
  created: "arm_pipe_create True True True a True r wr w0 = (0, w) \<Longrightarrow> r \<noteq> wr \<Longrightarrow> pipe_life a r wr 1 1 w"
| dup_r: "pipe_life a r wr (Suc nr) nw w \<Longrightarrow> fd_dup_pipe r w = Some w' \<Longrightarrow> pipe_life a r wr (Suc (Suc nr)) nw w'"
| dup_w: "pipe_life a r wr nr (Suc nw) w \<Longrightarrow> fd_dup_pipe wr w = Some w' \<Longrightarrow> pipe_life a r wr nr (Suc (Suc nw)) w'"
| close_r: "pipe_life a r wr (Suc nr) nw w \<Longrightarrow> pipefs_close wake cur r w = Some w' \<Longrightarrow> pipe_life a r wr nr nw w'"
| close_w: "pipe_life a r wr nr (Suc nw) w \<Longrightarrow> pipefs_close wake cur wr w = Some w' \<Longrightarrow> pipe_life a r wr nr nw w'"
| used: "pipe_life a r wr nr nw w \<Longrightarrow> pw_pipes w a = Some p \<Longrightarrow> same_ends p p' \<Longrightarrow>
    pipe_life a r wr nr nw (w\<lparr>pw_pipes := (pw_pipes w)(a \<mapsto> p'), pw_tasks := s\<rparr>)"

definition ends_inv :: "u32 \<Rightarrow> u32 \<Rightarrow> u32 \<Rightarrow> nat \<Rightarrow> nat \<Rightarrow> pipe_world \<Rightarrow> bool" where
  "ends_inv a r wr nr nw w \<longleftrightarrow> a \<noteq> 0 \<and> r \<noteq> 0 \<and> wr \<noteq> 0 \<and> r \<noteq> wr \<and>
     pw_specs w r = (if 0 < nr then Some \<lparr>sp_write = False, sp_info = a\<rparr> else None) \<and>
     pw_specs w wr = (if 0 < nw then Some \<lparr>sp_write = True, sp_info = a\<rparr> else None) \<and>
     (if nr = 0 \<and> nw = 0 then pw_pipes w a = None
      else \<exists>p. pw_pipes w a = Some p \<and> pp_read_fds p = int nr \<and> pp_write_fds p = int nw \<and>
               pp_read_spec p = (if 0 < nr then r else 0) \<and> pp_write_spec p = (if 0 < nw then wr else 0))"

lemma rounds_keep_ends:
  "pipe_read_round wake mem cur n (p, s) = (x, p', s') \<Longrightarrow> same_ends p p'"
  "pipe_write_round wake mem cur addr (p, s) = (y, p', s') \<Longrightarrow> same_ends p p'"
  by (auto simp: pipe_read_round_def pipe_write_round_def pipe_wake_waiters_def same_ends_def Let_def
      split: if_splits prod.splits)

lemma close_read_end:
  assumes "ends_inv a r wr (Suc nr) nw w"
  shows "\<exists>w'. pipefs_close wake cur r w = Some w' \<and> ends_inv a r wr nr nw w'"
proof -
  obtain p where p: "pw_pipes w a = Some p" "pp_read_fds p = int (Suc nr)" "pp_write_fds p = int nw"
      "pp_read_spec p = r" "pp_write_spec p = (if 0 < nw then wr else 0)"
    using assms by (auto simp: ends_inv_def)
  show ?thesis
    by (cases "nr = 0"; cases "nw = 0")
      (use assms p in \<open>auto simp: ends_inv_def pipefs_close_def pipe_drop_end_def pipe_wake_waiters_def
        pipe_free_spec_def Let_def\<close>)
qed

lemma close_write_end:
  assumes "ends_inv a r wr nr (Suc nw) w"
  shows "\<exists>w'. pipefs_close wake cur wr w = Some w' \<and> ends_inv a r wr nr nw w'"
proof -
  obtain p where p: "pw_pipes w a = Some p" "pp_read_fds p = int nr" "pp_write_fds p = int (Suc nw)"
      "pp_read_spec p = (if 0 < nr then r else 0)" "pp_write_spec p = wr"
    using assms by (auto simp: ends_inv_def)
  show ?thesis
    by (cases "nr = 0"; cases "nw = 0")
      (use assms p in \<open>auto simp: ends_inv_def pipefs_close_def pipe_drop_end_def pipe_wake_waiters_def
        pipe_free_spec_def Let_def\<close>)
qed

lemma dup_end:
  "ends_inv a r wr (Suc nr) nw w \<Longrightarrow> \<exists>w'. fd_dup_pipe r w = Some w' \<and> ends_inv a r wr (Suc (Suc nr)) nw w'"
  "ends_inv a r wr nr (Suc nw) w \<Longrightarrow> \<exists>w'. fd_dup_pipe wr w = Some w' \<and> ends_inv a r wr nr (Suc (Suc nw)) w'"
  by (auto simp: ends_inv_def fd_dup_pipe_def split: if_splits)

lemma pipe_life_inv: "pipe_life a r wr nr nw w \<Longrightarrow> ends_inv a r wr nr nw w"
proof (induction rule: pipe_life.induct)
  case (created w0 w)
  then show ?case by (auto simp: arm_pipe_create_def ends_inv_def new_pipe_def split: if_splits)
next
  case (dup_r nr nw w w')
  then show ?case using dup_end(1) by (metis option.inject)
next
  case (dup_w nr nw w w')
  then show ?case using dup_end(2) by (metis option.inject)
next
  case (close_r nr nw w wake cur w')
  then show ?case using close_read_end by (metis option.inject)
next
  case (close_w nr nw w wake cur w')
  then show ?case using close_write_end by (metis option.inject)
next
  case (used nr nw w p p' s)
  then show ?case by (auto simp: ends_inv_def same_ends_def split: if_splits)
qed

lemma pipe_ends_freed_once_parts:
  assumes "pipe_life a r wr nr nw w"
  shows "pw_specs w r \<noteq> None \<longleftrightarrow> 0 < nr" and "pw_specs w wr \<noteq> None \<longleftrightarrow> 0 < nw"
    and "pw_pipes w a \<noteq> None \<longleftrightarrow> 0 < nr + nw"
    and "pw_pipes w a = Some p \<Longrightarrow> pp_read_fds p = int nr \<and> pp_write_fds p = int nw"
    and "0 < nr \<Longrightarrow> pipefs_close wake cur r w \<noteq> None" and "0 < nw \<Longrightarrow> pipefs_close wake cur wr w \<noteq> None"
proof -
  have I: "ends_inv a r wr nr nw w" using assms by (rule pipe_life_inv)
  then show "pw_specs w r \<noteq> None \<longleftrightarrow> 0 < nr" "pw_specs w wr \<noteq> None \<longleftrightarrow> 0 < nw"
      "pw_pipes w a \<noteq> None \<longleftrightarrow> 0 < nr + nw"
      "pw_pipes w a = Some p \<Longrightarrow> pp_read_fds p = int nr \<and> pp_write_fds p = int nw"
    by (auto simp: ends_inv_def split: if_splits)
  show "pipefs_close wake cur r w \<noteq> None" if "0 < nr"
    using I close_read_end [of a r wr "nr - 1" nw w wake cur] that by auto
  show "pipefs_close wake cur wr w \<noteq> None" if "0 < nw"
    using I close_write_end [of a r wr nr "nw - 1" w wake cur] that by auto
qed

text \<open>
  C32. The objects of a pipe are freed exactly when their last descriptor goes.  Whatever the order in which the
  descriptors of the two ends are duplicated and closed, closing an open descriptor never touches or frees a
  freed object; each end object lives as long as its end has a descriptor, the pipe as long as either has one,
  and the counts in the pipe are the numbers of open descriptors.
\<close>

theorem pipe_ends_freed_once:
  assumes "pipe_life a r wr nr nw w"
  shows "(pw_specs w r \<noteq> None \<longleftrightarrow> 0 < nr) \<and> (pw_specs w wr \<noteq> None \<longleftrightarrow> 0 < nw) \<and>
    (pw_pipes w a \<noteq> None \<longleftrightarrow> 0 < nr + nw) \<and>
    (pw_pipes w a = Some p \<longrightarrow> pp_read_fds p = int nr \<and> pp_write_fds p = int nw) \<and>
    (0 < nr \<longrightarrow> pipefs_close wake cur r w \<noteq> None) \<and> (0 < nw \<longrightarrow> pipefs_close wake cur wr w \<noteq> None)"
  using pipe_ends_freed_once_parts [OF assms] by (intro conjI impI) blast+

section \<open>What a write returns\<close>

lemma pipe_write_inner_returns:
  assumes "pipe_write_inner wake mem env cur addr n ps = Some y"
  shows "fst y = of_nat (length addr) \<or> fst y = - 32"
proof (rule pipe_write_inner.raw_induct [OF _ assms])
  fix inner :: "waker \<Rightarrow> (nat \<Rightarrow> bool) \<Rightarrow> (nat \<Rightarrow> pipe_info \<times> tstore \<Rightarrow> pipe_info \<times> tstore) \<Rightarrow> tcb_t \<Rightarrow> u8 list \<Rightarrow> nat \<Rightarrow>
      pipe_info \<times> tstore \<Rightarrow> (u32 \<times> nat \<times> pipe_info \<times> tstore) option"
  fix wake mem env cur n ps y and addr :: "u8 list"
  assume IH: "\<And>wake mem env cur addr n ps y. inner wake mem env cur addr n ps = Some y \<Longrightarrow>
      fst y = of_nat (length addr) \<or> fst y = - 32"
    and y: "(case pipe_write_round wake (mem n) cur addr ps of
        (Inl r, ps) \<Rightarrow> Some (r, n, ps)
      | (Inr w, ps) \<Rightarrow> do { (n, ps) \<leftarrow> pipe_pause env cur w n ps; inner wake mem env cur addr n ps }) = Some y"
  obtain x qs where x: "pipe_write_round wake (mem n) cur addr ps = (x, qs)" by (metis prod.exhaust)
  show "fst y = of_nat (length addr) \<or> fst y = - 32"
  proof (cases x)
    case (Inl m)
    then have "m = of_nat (length addr) \<or> m = - 32"
      using x by (auto simp: pipe_write_round_def Let_def split: prod.splits if_splits)
    then show ?thesis using y x Inl by auto
  next
    case (Inr w)
    then show ?thesis using y IH x by (auto split: bind_splits prod.splits)
  qed
qed

lemma pipe_write_cycle_returns:
  assumes c: "0 < length c" "length c \<le> 8192"
    and r: "pipe_write_cycle wake mem env cur c 0 n ps = Some (r, n', ps')"
  shows "r = None \<or> r = Some (of_nat (length c))"
proof -
  have nz: "(of_nat (length c) :: u32) \<noteq> 0" using c by (simp add: word_eq_unat unat_of_nat_small)
  have "(if (0::u32) = of_nat (length c) then Some (Some 0, n, ps)
    else do {
      (wrote, n, ps) \<leftarrow> pipe_write_inner wake mem env cur (drop (unat (0::u32)) c) n ps;
      if wrote = - 32 then Some (None, n, ps) else pipe_write_cycle wake mem env cur c (0 + wrote) n ps }) = Some (r, n', ps')"
    using r by (subst (asm) pipe_write_cycle.simps)
  then obtain wrote n2 ps2 where w: "pipe_write_inner wake mem env cur c n ps = Some (wrote, n2, ps2)"
      "(if wrote = - 32 then Some (None, n2, ps2) else pipe_write_cycle wake mem env cur c wrote n2 ps2) = Some (r, n', ps')"
    using nz unfolding add_0_left by (auto split: bind_splits)
  show ?thesis
  proof (cases "wrote = - 32")
    case False
    then have "wrote = of_nat (length c)" using pipe_write_inner_returns [OF w(1)] by simp
    then show ?thesis using w(2) False by (subst (asm) pipe_write_cycle.simps) simp
  qed (use w(2) in simp)
qed

lemma pipe_write_chunks_returns:
  assumes "\<forall>c\<in>set cs. 0 < length c \<and> length c \<le> 8192"
    and "pipe_write_chunks wake mem env cur cs ret n ps = Some (r, n', ps')"
  shows "r = ret + of_nat (length (concat cs)) \<or>
    (\<exists>k<length cs. let q = ret + of_nat (length (concat (take k cs))) in r = (if q \<noteq> 0 then q else - 32))"
  using assms
proof (induction cs arbitrary: ret n ps)
  case Nil
  then show ?case by simp
next
  case (Cons c cs)
  obtain d n2 ps2 where d: "pipe_write_cycle wake mem env cur c 0 n ps = Some (d, n2, ps2)"
    using Cons.prems(2) by (auto split: bind_splits)
  have c: "0 < length c" "length c \<le> 8192" using Cons.prems(1) by auto
  consider "d = None" | "d = Some (of_nat (length c))" using pipe_write_cycle_returns [OF c d] by blast
  then show ?case
  proof cases
    case 1
    then have "r = (if ret \<noteq> 0 then ret else - 32)" using Cons.prems(2) d by simp
    then show ?thesis by (intro disjI2 exI [of _ 0]) simp
  next
    case 2
    then have "pipe_write_chunks wake mem env cur cs (ret + of_nat (length c)) n2 ps2 = Some (r, n', ps')"
      using Cons.prems(2) d by simp
    then have "r = ret + of_nat (length c) + of_nat (length (concat cs)) \<or>
      (\<exists>k<length cs. let q = ret + of_nat (length c) + of_nat (length (concat (take k cs)))
                     in r = (if q \<noteq> 0 then q else - 32))"
      using Cons.IH [of "ret + of_nat (length c)"] Cons.prems(1) by simp
    then consider "r = ret + of_nat (length c) + of_nat (length (concat cs))"
      | k where "k < length cs" "let q = ret + of_nat (length c) + of_nat (length (concat (take k cs)))
                                 in r = (if q \<noteq> 0 then q else - 32)"
      by blast
    then show ?thesis
    proof cases
      case 2
      then show ?thesis by (intro disjI2 exI [of _ "Suc k"]) (simp add: Let_def add.assoc)
    qed (simp add: add.assoc)
  qed
qed

lemma pipe_chunks_full: "k \<le> length addr div 8192 \<Longrightarrow> take k (pipe_chunks addr) = List.map (\<lambda>i. take 8192 (drop (i * 8192) addr)) [0..<k]"
  by (simp add: pipe_chunks_def Let_def take_map)

lemma concat_chunks: "k * n \<le> length xs \<Longrightarrow> concat (List.map (\<lambda>i. take n (drop (i * n) xs)) [0..<k]) = take (k * n) xs"
proof (induction k)
  case 0
  then show ?case by simp
next
  case (Suc k)
  then show ?case by (simp add: take_add [symmetric] add.commute)
qed

lemma concat_pipe_chunks: "concat (pipe_chunks addr) = addr"
proof -
  have le: "length addr div 8192 * 8192 \<le> length addr" by simp
  have m: "length addr mod 8192 = length addr - length addr div 8192 * 8192" by (simp add: minus_div_mult_eq_mod)
  show ?thesis using concat_chunks [OF le] m by (simp add: pipe_chunks_def Let_def)
qed

lemma pipe_chunks_sizes: "c \<in> set (pipe_chunks addr) \<Longrightarrow> 0 < length c \<and> length c \<le> 8192"
proof -
  assume "c \<in> set (pipe_chunks addr)"
  then show ?thesis
    by (auto simp: pipe_chunks_def Let_def split: if_splits)
      (use div_mult_mod_eq [of "length addr" 8192] in linarith)
qed

lemma pipe_chunks_before:
  assumes "k < length (pipe_chunks addr)"
  shows "length (concat (take k (pipe_chunks addr))) = 8192 * k" and "8192 * k < length addr"
proof -
  have n: "length (pipe_chunks addr) = length addr div 8192 + (if length addr mod 8192 \<noteq> 0 then 1 else 0)"
    by (simp add: pipe_chunks_def Let_def)
  have L: "length addr div 8192 * 8192 + length addr mod 8192 = length addr" by (rule div_mult_mod_eq)
  have k: "k \<le> length addr div 8192" using assms n by (simp split: if_splits)
  show "8192 * k < length addr"
  proof (cases "length addr mod 8192 = 0")
    case True
    then have "k < length addr div 8192" using assms n by simp
    then show ?thesis using L by linarith
  next
    case False
    then show ?thesis using L k by linarith
  qed
  then have "k * 8192 \<le> length addr" by simp
  then show "length (concat (take k (pipe_chunks addr))) = 8192 * k"
    using k concat_chunks [of k 8192 addr] by (simp add: pipe_chunks_full)
qed

lemma pipe_chunks_one: "0 < length addr \<Longrightarrow> length addr \<le> 8192 \<Longrightarrow> pipe_chunks addr = [addr]"
  by (cases "length addr = 8192") (auto simp: pipe_chunks_def Let_def)

lemma pipe_write_now:
  assumes "pipe_write_round wake (mem n) cur addr ps = (Inl r, ps')" and "0 < length addr" "length addr \<le> 8192"
  shows "pipe_write_chunks wake mem env cur (pipe_chunks addr) 0 n ps =
    Some (if r = - 32 then - 32 else r, n, ps')"
proof -
  have nz: "(of_nat (length addr) :: u32) \<noteq> 0" using assms by (simp add: word_eq_unat unat_of_nat_small)
  have inner: "pipe_write_inner wake mem env cur addr n ps = Some (r, n, ps')"
    using assms(1) by (subst pipe_write_inner.simps) simp
  have r: "r = of_nat (length addr) \<or> r = - 32" using pipe_write_inner_returns [OF inner] by simp
  have "pipe_write_cycle wake mem env cur addr 0 n ps = Some (if r = - 32 then None else Some r, n, ps')"
  proof (cases "r = - 32")
    case True
    then show ?thesis using nz inner by (subst pipe_write_cycle.simps) simp
  next
    case False
    then have "pipe_write_cycle wake mem env cur addr r n ps' = Some (Some r, n, ps')"
      using r by (subst pipe_write_cycle.simps) simp
    then show ?thesis using False nz inner by (subst pipe_write_cycle.simps) simp
  qed
  then show ?thesis using assms by (simp add: pipe_chunks_one)
qed

text \<open>
  What a write to a pipe returns.  With no reader it returns \<open>-EPIPE\<close> and changes nothing; a write that fits
  appends its bytes at once, wakes the sleeping readers and returns its size; and whatever the other tasks do
  while it waits, a write that returns has either written everything, or found no reader for its first chunk,
  or reports the whole chunks it had written before the readers went away.
\<close>

theorem pipefs_write_exact:
  assumes "pw_specs w file = Some spec" "pw_pipes w (sp_info spec) = Some p"
    and "0 < length addr" "length addr < 2 ^ 31" and "unat (pp_ptr p) \<le> 8192"
  shows "pp_read_fds p = 0 \<Longrightarrow> length addr \<le> 8192 \<Longrightarrow> pipefs_write wake mem env cur file addr w = Some (- 32, w)"
    and "pp_read_fds p \<noteq> 0 \<Longrightarrow> unat (pp_ptr p) + length addr \<le> 8192 \<Longrightarrow>
      pipefs_write wake mem env cur file addr w =
        Some (of_nat (length addr),
              w\<lparr>pw_pipes := (pw_pipes w)(sp_info spec \<mapsto>
                    p\<lparr>pp_buf := overwrite (unat (pp_ptr p)) addr (pp_buf p),
                      pp_ptr := pp_ptr p + of_nat (length addr), pp_blocking_read := []\<rparr>),
                pw_tasks := fold (wake cur) (pp_blocking_read p) (pw_tasks w)\<rparr>)"
    and "pipefs_write wake mem env cur file addr w = Some (r, w') \<Longrightarrow>
      r = of_nat (length addr) \<or> r = - 32 \<or> (\<exists>k. 0 < k \<and> 8192 * k < length addr \<and> r = of_nat (8192 * k))"
proof -
  show "pipefs_write wake mem env cur file addr w = Some (- 32, w)" if "pp_read_fds p = 0" "length addr \<le> 8192"
  proof -
    have "pipe_write_round wake (mem 0) cur addr (p, pw_tasks w) = (Inl (- 32), p, pw_tasks w)"
      using that by (simp add: pipe_write_round_def)
    from pipe_write_now [where mem = mem and n = 0 and env = env, OF this assms(3) that(2)] show ?thesis
      using assms by (auto simp: pipefs_write_def fun_upd_idem)
  qed
  show "pipefs_write wake mem env cur file addr w =
        Some (of_nat (length addr),
              w\<lparr>pw_pipes := (pw_pipes w)(sp_info spec \<mapsto>
                    p\<lparr>pp_buf := overwrite (unat (pp_ptr p)) addr (pp_buf p),
                      pp_ptr := pp_ptr p + of_nat (length addr), pp_blocking_read := []\<rparr>),
                pw_tasks := fold (wake cur) (pp_blocking_read p) (pw_tasks w)\<rparr>)"
    if "pp_read_fds p \<noteq> 0" "unat (pp_ptr p) + length addr \<le> 8192"
  proof -
    have le: "length addr \<le> 8192" using that by simp
    have n: "unat (of_nat (length addr) :: u32) = length addr" using le by (simp add: unat_of_nat_small)
    have "of_nat (length addr) \<le> 8192 - pp_ptr p"
      using that(2) n assms(5) by (simp add: word_le_nat_alt unat_sub_le)
    then have "pipe_write_round wake (mem 0) cur addr (p, pw_tasks w) =
        (Inl (of_nat (length addr)), p\<lparr>pp_buf := overwrite (unat (pp_ptr p)) addr (pp_buf p),
           pp_ptr := pp_ptr p + of_nat (length addr), pp_blocking_read := []\<rparr>,
         fold (wake cur) (pp_blocking_read p) (pw_tasks w))"
      using that(1) by (simp add: pipe_write_round_def pipe_wake_waiters_def Let_def)
    from pipe_write_now [where mem = mem and n = 0 and env = env, OF this assms(3) le] show ?thesis
      using assms by (auto simp: pipefs_write_def)
  qed
  show "r = of_nat (length addr) \<or> r = - 32 \<or> (\<exists>k. 0 < k \<and> 8192 * k < length addr \<and> r = of_nat (8192 * k))"
    if ret: "pipefs_write wake mem env cur file addr w = Some (r, w')"
  proof -
    obtain n ps where c: "pipe_write_chunks wake mem env cur (pipe_chunks addr) 0 0 (p, pw_tasks w) = Some (r, n, ps)"
      using ret assms by (auto simp: pipefs_write_def split: bind_splits)
    have "\<forall>c\<in>set (pipe_chunks addr). 0 < length c \<and> length c \<le> 8192" using pipe_chunks_sizes by blast
    from pipe_write_chunks_returns [OF this c] consider "r = of_nat (length addr)"
      | k where "k < length (pipe_chunks addr)"
          "let q = of_nat (length (concat (take k (pipe_chunks addr)))) in r = (if q \<noteq> 0 then q else - 32)"
      by (auto simp: concat_pipe_chunks)
    then show ?thesis
    proof cases
      case 2
      then have k: "8192 * k < length addr" "r = (if of_nat (8192 * k) \<noteq> (0::u32) then of_nat (8192 * k) else - 32)"
        using pipe_chunks_before [OF 2(1)] by (simp_all add: Let_def)
      then show ?thesis by (cases "k = 0") auto
    qed simp
  qed
qed

section \<open>Instances\<close>

text \<open>A pipe whose reader, task 8, went to sleep on the empty buffer; task 12 is running.\<close>

definition pipe_demo :: "pipe_info \<times> tstore" where
  "pipe_demo = snd (pipe_read_round scheduler_wake_task True 8 100 (new_pipe 4 6, \<lambda>_. tcb0))"

lemma pipe_demo_eq: "pipe_demo = ((new_pipe 4 6)\<lparr>pp_blocking_read := [8]\<rparr>,
    upd 8 (\<lambda>x. x\<lparr>t_wakeup_time := 0, t_status := WAIT\<rparr>) (\<lambda>_. tcb0))"
  by (simp add: pipe_demo_def pipe_read_round_def new_pipe_def pipe_wait_on_def pipe_add_waiter_def tcb0_def)

lemma pipe_demo_run: "pipe_run scheduler_wake_task {8} [] [] pipe_demo"
proof -
  have "pipe_run scheduler_wake_task {} [] [] (new_pipe 4 6, \<lambda>_. tcb0)" by (rule pipe_run.start)
  moreover have "pipe_read_round scheduler_wake_task True 8 100 (new_pipe 4 6, \<lambda>_. tcb0) = (Inr Blocked, pipe_demo)"
    by (simp add: pipe_demo_def pipe_read_round_def new_pipe_def pipe_wait_on_def pipe_add_waiter_def tcb0_def)
  moreover have "asleep {8} (snd pipe_demo) = {8}" by (auto simp: asleep_def pipe_demo_eq)
  ultimately show ?thesis using pipe_run.reads by fastforce
qed

definition pipe_demo2 :: "pipe_info \<times> tstore" where
  "pipe_demo2 = snd (pipe_write_round scheduler_wake_task True 12 [1, 2, 3] pipe_demo)"

lemma pipe_demo2_run:
  "pipe_write_round scheduler_wake_task True 12 [1, 2, 3] pipe_demo = (Inl 3, pipe_demo2)" "pipe_run scheduler_wake_task {} [1, 2, 3] [] pipe_demo2"
proof -
  show w: "pipe_write_round scheduler_wake_task True 12 [1, 2, 3] pipe_demo = (Inl 3, pipe_demo2)"
    by (simp add: pipe_demo2_def pipe_demo_eq pipe_write_round_def new_pipe_def pipe_wake_waiters_def)
  have "asleep {8} (snd pipe_demo2) = {}"
    by (auto simp: asleep_def pipe_demo2_def pipe_demo_eq pipe_write_round_def new_pipe_def pipe_wake_waiters_def wake_status)
  then show "pipe_run scheduler_wake_task {} [1, 2, 3] [] pipe_demo2"
    using pipe_run.writes [OF pipe_demo_run _ _ w] by simp
qed

lemma pipe_bytes_in_order_witness:
  "[1, 2, 3] = [] @ take (unat (pp_ptr (fst pipe_demo2))) (pp_buf (fst pipe_demo2))"
  using pipe_bytes_in_order [of scheduler_wake_task "{}" "[1, 2, 3]" "[]" "fst pipe_demo2" "snd pipe_demo2"] pipe_demo2_run(2) by simp


definition pipe_demo_world :: pipe_world where
  "pipe_demo_world = snd (arm_pipe_create True True True 2 True 4 6
     \<lparr>pw_specs = Map.empty, pw_pipes = Map.empty, pw_tasks = \<lambda>_. tcb0\<rparr>)"

lemma pipe_demo_world_eq: "pipe_demo_world =
    \<lparr>pw_specs = [4 \<mapsto> \<lparr>sp_write = False, sp_info = 2\<rparr>, 6 \<mapsto> \<lparr>sp_write = True, sp_info = 2\<rparr>],
     pw_pipes = [2 \<mapsto> new_pipe 4 6], pw_tasks = \<lambda>_. tcb0\<rparr>"
  by (simp add: pipe_demo_world_def arm_pipe_create_def)

lemma pipe_ends_freed_once_witness:
  "pipefs_close scheduler_wake_task 8 4 pipe_demo_world \<noteq> None \<and> pipefs_close scheduler_wake_task 8 6 pipe_demo_world \<noteq> None"
proof -
  have "arm_pipe_create True True True 2 True 4 6 \<lparr>pw_specs = Map.empty, pw_pipes = Map.empty, pw_tasks = \<lambda>_. tcb0\<rparr>
      = (0, pipe_demo_world)"
    by (simp add: pipe_demo_world_def arm_pipe_create_def)
  then have "pipe_life 2 4 6 1 1 pipe_demo_world" by (rule pipe_life.created) simp
  from pipe_ends_freed_once [OF this] show ?thesis by simp
qed

lemma pipefs_write_exact_witness:
  "\<exists>w'. pipefs_write scheduler_wake_task (\<lambda>_. True) (\<lambda>_ ps. ps) 12 6 [1, 2, 3] pipe_demo_world = Some (3, w')"
  using pipefs_write_exact(2) [of pipe_demo_world 6 "\<lparr>sp_write = True, sp_info = 2\<rparr>" "new_pipe 4 6" "[1, 2, 3]"
      scheduler_wake_task "\<lambda>_. True" "\<lambda>_ ps. ps" 12]
  by (simp add: pipe_demo_world_eq new_pipe_def)

end
