(* ===== verification/Irq.thy ===== *)
theory Irq
  imports SchedTick
begin

text \<open>
  Interrupts, \<open>arch/arm32/src/gic.c\<close>: the set-up of the interrupt controller, the table of handlers, the C
  handlers of the IRQ and SVC exceptions with their checks of the saved frame, and the fault status texts.  A
  write to a device register is an entry of the log \<open>iw_bus\<close>, a register that is read is an argument.  A handler
  is the address of a C function; what calling it does is the argument \<open>call\<close>.
\<close>

section \<open>State\<close>

abbreviation (input) GIC_INTID_SPI_FIRST :: u32 where "GIC_INTID_SPI_FIRST \<equiv> 32"
abbreviation (input) GIC_INTID_MAX :: u32 where "GIC_INTID_MAX \<equiv> 95"
abbreviation (input) GIC_INTID_SPURIOUS :: u32 where "GIC_INTID_SPURIOUS \<equiv> 1023"
abbreviation (input) GIC_INTID_A9_PRIVATE_TIMER :: u32 where "GIC_INTID_A9_PRIVATE_TIMER \<equiv> 29"
abbreviation (input) IRQ_TABLE_SIZE :: u32 where "IRQ_TABLE_SIZE \<equiv> 96"

abbreviation (input) PLAT_GIC_DIST_BASE :: u32 where "PLAT_GIC_DIST_BASE \<equiv> 0xF8F01000"
abbreviation (input) PLAT_GIC_CPU_BASE :: u32 where "PLAT_GIC_CPU_BASE \<equiv> 0xF8F00100"
abbreviation (input) GICD_CTLR :: u32 where "GICD_CTLR \<equiv> 0"
abbreviation (input) GICD_ISENABLER :: u32 where "GICD_ISENABLER \<equiv> 0x100"
abbreviation (input) GICD_ICENABLER :: u32 where "GICD_ICENABLER \<equiv> 0x180"
abbreviation (input) GICD_ICPENDR :: u32 where "GICD_ICPENDR \<equiv> 0x280"
abbreviation (input) GICD_IPRIORITYR :: u32 where "GICD_IPRIORITYR \<equiv> 0x400"
abbreviation (input) GICD_ITARGETSR :: u32 where "GICD_ITARGETSR \<equiv> 0x800"
abbreviation (input) GICD_ICFGR :: u32 where "GICD_ICFGR \<equiv> 0xC00"
abbreviation (input) GICD_SGIR :: u32 where "GICD_SGIR \<equiv> 0xF00"
abbreviation (input) GICC_CTLR :: u32 where "GICC_CTLR \<equiv> 0"
abbreviation (input) GICC_PMR :: u32 where "GICC_PMR \<equiv> 4"
abbreviation (input) GICC_EOIR :: u32 where "GICC_EOIR \<equiv> 0x10"

abbreviation (input) ARM_SVC_FRAME_CHECK :: u32 where "ARM_SVC_FRAME_CHECK \<equiv> 0xA5A5"
abbreviation (input) ARM_SVC_YIELD :: u32 where "ARM_SVC_YIELD \<equiv> 0xA5A6"
abbreviation (input) ARM_FRAME_CHECK_PATTERN :: u32 where "ARM_FRAME_CHECK_PATTERN \<equiv> 0x5A5A0000"
abbreviation (input) ARM_EXC_PC_FIX_SVC :: u32 where "ARM_EXC_PC_FIX_SVC \<equiv> 4"
abbreviation (input) ARM_EXC_PC_FIX_IRQ :: u32 where "ARM_EXC_PC_FIX_IRQ \<equiv> 4"

datatype mmio = Write32 u32 u32 | Write8 u32 u8

record irq_entry_t =
  ie_handler :: u32
  ie_arg :: u32

record irq_stats_t =
  is_irq_count :: u32
  is_spurious_count :: u32
  is_unhandled_count :: u32
  is_last_intid :: u32

record 'g irq_world =
  iw_bus :: "mmio list"
  iw_masked :: bool
  iw_table :: "nat \<Rightarrow> irq_entry_t"
  iw_stats :: irq_stats_t
  iw_frame_violations :: u32
  iw_frame_unaligned8 :: u32
  iw_sp_bad :: u32
  iw_pc_fix :: u32
  iw_svc_frame :: u32
  iw_svc_check :: int
  iw_kern :: "'g kern_t"

definition mmio_write32 :: "u32 \<Rightarrow> u32 \<Rightarrow> 'g irq_world \<Rightarrow> 'g irq_world" where
  "mmio_write32 a v w = w\<lparr>iw_bus := iw_bus w @ [Write32 a v]\<rparr>"

definition mmio_write8 :: "u32 \<Rightarrow> u8 \<Rightarrow> 'g irq_world \<Rightarrow> 'g irq_world" where
  "mmio_write8 a v w = w\<lparr>iw_bus := iw_bus w @ [Write8 a v]\<rparr>"

section \<open>The controller\<close>

definition gicd_bit_reg :: "u32 \<Rightarrow> u32 \<Rightarrow> u32" where
  "gicd_bit_reg base_offset intid = PLAT_GIC_DIST_BASE + base_offset + (intid div 32) * 4"

definition gicd_bit_mask :: "u32 \<Rightarrow> u32" where
  "gicd_bit_mask intid = push_bit (unat (intid mod 32)) 1"

definition gicd_byte_reg :: "u32 \<Rightarrow> u32 \<Rightarrow> u32" where
  "gicd_byte_reg base_offset intid = PLAT_GIC_DIST_BASE + base_offset + intid"

definition gicd_cfg_reg :: "u32 \<Rightarrow> u32" where
  "gicd_cfg_reg intid = PLAT_GIC_DIST_BASE + GICD_ICFGR + (intid div 16) * 4"

definition gicd_cfg_shift :: "u32 \<Rightarrow> u32" where
  "gicd_cfg_shift intid = (intid mod 16) * 2 + 1"

text \<open>\<open>typer\<close> is the controller's type register.\<close>

definition gic_init :: "u32 \<Rightarrow> 'g irq_world \<Rightarrow> 'g irq_world" where
  "gic_init typer w =
     (let w = w\<lparr>iw_masked := True\<rparr>;
          w = mmio_write32 (PLAT_GIC_DIST_BASE + GICD_CTLR) 0 w;
          w = fold (\<lambda>i w. w\<lparr>iw_table := (iw_table w)(i := \<lparr>ie_handler = 0, ie_arg = 0\<rparr>)\<rparr>) [0..<unat IRQ_TABLE_SIZE] w;
          w = fold (\<lambda>i. mmio_write32 (PLAT_GIC_DIST_BASE + GICD_IPRIORITYR + of_nat i * 4) 0xA0A0A0A0) [0..<32] w;
          lines = ((typer AND 0x1F) + 1) * 32;
          lines = (if IRQ_TABLE_SIZE < lines then IRQ_TABLE_SIZE else lines);
          w = fold (\<lambda>i. mmio_write8 (gicd_byte_reg GICD_ITARGETSR (of_nat i)) 1)
                [unat GIC_INTID_SPI_FIRST..<unat lines] w;
          w = fold (\<lambda>i. mmio_write32 (PLAT_GIC_DIST_BASE + GICD_ICENABLER + of_nat i * 4) 0xFFFFFFFF) [0..<32] w;
          w = fold (\<lambda>i. mmio_write32 (PLAT_GIC_DIST_BASE + GICD_ICPENDR + of_nat i * 4) 0xFFFFFFFF) [0..<32] w;
          w = mmio_write32 (PLAT_GIC_DIST_BASE + GICD_CTLR) 1 w;
          w = mmio_write32 (PLAT_GIC_CPU_BASE + GICC_PMR) 0xF0 w
      in mmio_write32 (PLAT_GIC_CPU_BASE + GICC_CTLR) 1 w)"

definition irq_global_enable :: "'g irq_world \<Rightarrow> 'g irq_world" where
  "irq_global_enable w = w\<lparr>iw_masked := False\<rparr>"

definition irq_global_disable :: "'g irq_world \<Rightarrow> 'g irq_world" where
  "irq_global_disable w = w\<lparr>iw_masked := True\<rparr>"

definition irq_register :: "u32 \<Rightarrow> u32 \<Rightarrow> u32 \<Rightarrow> 'g irq_world \<Rightarrow> int \<times> 'g irq_world" where
  "irq_register intid handler arg w =
     (if GIC_INTID_MAX < intid \<or> handler = 0 then (- 1, w)
      else if ie_handler (iw_table w (unat intid)) \<noteq> 0 then (- 1, w)
      else (0, w\<lparr>iw_table := (iw_table w)(unat intid := \<lparr>ie_handler = handler, ie_arg = arg\<rparr>)\<rparr>))"

definition irq_unregister :: "u32 \<Rightarrow> 'g irq_world \<Rightarrow> int \<times> 'g irq_world" where
  "irq_unregister intid w =
     (if GIC_INTID_MAX < intid then (- 1, w)
      else (0, w\<lparr>iw_table := (iw_table w)(unat intid := \<lparr>ie_handler = 0, ie_arg = 0\<rparr>)\<rparr>))"

definition gic_enable_irq :: "u32 \<Rightarrow> 'g irq_world \<Rightarrow> 'g irq_world" where
  "gic_enable_irq intid w =
     (if GIC_INTID_MAX < intid then w
      else mmio_write32 (gicd_bit_reg GICD_ISENABLER intid) (gicd_bit_mask intid) w)"

definition gic_disable_irq :: "u32 \<Rightarrow> 'g irq_world \<Rightarrow> 'g irq_world" where
  "gic_disable_irq intid w =
     (if GIC_INTID_MAX < intid then w
      else mmio_write32 (gicd_bit_reg GICD_ICENABLER intid) (gicd_bit_mask intid) w)"

definition gic_set_priority :: "u32 \<Rightarrow> u8 \<Rightarrow> 'g irq_world \<Rightarrow> 'g irq_world" where
  "gic_set_priority intid priority w =
     (if GIC_INTID_MAX < intid then w else mmio_write8 (gicd_byte_reg GICD_IPRIORITYR intid) priority w)"

definition gic_set_target :: "u32 \<Rightarrow> u8 \<Rightarrow> 'g irq_world \<Rightarrow> 'g irq_world" where
  "gic_set_target intid cpu_mask w =
     (if intid < GIC_INTID_SPI_FIRST \<or> GIC_INTID_MAX < intid then w
      else mmio_write8 (gicd_byte_reg GICD_ITARGETSR intid) cpu_mask w)"

text \<open>\<open>cfg\<close> is the content of the configuration register the function reads.\<close>

definition gic_set_edge_triggered :: "u32 \<Rightarrow> bool \<Rightarrow> u32 \<Rightarrow> 'g irq_world \<Rightarrow> 'g irq_world" where
  "gic_set_edge_triggered intid edge cfg w =
     (if GIC_INTID_MAX < intid then w
      else
        let reg = gicd_cfg_reg intid; shift = gicd_cfg_shift intid;
            v = (if edge then cfg OR push_bit (unat shift) 1 else cfg AND NOT (push_bit (unat shift) 1))
        in mmio_write32 reg v w)"

definition gic_eoi :: "u32 \<Rightarrow> 'g irq_world \<Rightarrow> 'g irq_world" where
  "gic_eoi intid = mmio_write32 (PLAT_GIC_CPU_BASE + GICC_EOIR) intid"

definition gic_cpu_init :: "'g irq_world \<Rightarrow> 'g irq_world" where
  "gic_cpu_init w =
     mmio_write32 (PLAT_GIC_CPU_BASE + GICC_CTLR) 1 (mmio_write32 (PLAT_GIC_CPU_BASE + GICC_PMR) 0xF0 w)"

definition gic_send_sgi :: "u32 \<Rightarrow> u8 \<Rightarrow> 'g irq_world \<Rightarrow> 'g irq_world" where
  "gic_send_sgi intid cpu_mask =
     mmio_write32 (PLAT_GIC_DIST_BASE + GICD_SGIR)
       (push_bit 16 (ucast (cpu_mask AND 0xFF)) OR push_bit 24 1 OR (intid AND 0xF))"

section \<open>The exception handlers\<close>

definition irq_frame_bad :: "u32 \<times> u32 \<Rightarrow> u32 \<Rightarrow> arm_exc_frame \<Rightarrow> bool" where
  "irq_frame_bad text_bounds fp f =
     (let (lo, hi) = text_bounds in
      if fp = 0 then True
      else if f_ret f \<noteq> arm_exc_pc f ARM_EXC_PC_FIX_IRQ + 4 then True
      else if f_ret f < lo \<or> hi \<le> f_ret f then True
      else if f_spsr f AND ARM_CPSR_MODE_MASK \<noteq> ARM_MODE_SVC then True
      else fp AND 3 \<noteq> 0)"

definition irq_frame_check :: "u32 \<times> u32 \<Rightarrow> u32 \<Rightarrow> 'g irq_world \<Rightarrow> 'g irq_world" where
  "irq_frame_check text_bounds fp w =
     (if irq_frame_bad text_bounds fp (kn_frames (iw_kern w) fp)
      then w\<lparr>iw_frame_violations := iw_frame_violations w + 1\<rparr>
      else if fp AND 7 \<noteq> 0 then w\<lparr>iw_frame_unaligned8 := iw_frame_unaligned8 w + 1\<rparr>
      else w)"

definition c_handler_sp_check :: "u32 \<Rightarrow> 'g irq_world \<Rightarrow> 'g irq_world" where
  "c_handler_sp_check sp w = (if sp AND 7 \<noteq> 0 then w\<lparr>iw_sp_bad := iw_sp_bad w + 1\<rparr> else w)"

text \<open>The statistics of the whole system are those of CPU 0; a CPU without its table entry counts as CPU 0.\<close>

definition counts_global :: "nat option \<Rightarrow> 'g irq_world \<Rightarrow> bool" where
  "counts_global self w = (case self of None \<Rightarrow> True | Some i \<Rightarrow> p_cpu_id (kn_percpu (iw_kern w) i) = 0)"

definition on_stats :: "nat option \<Rightarrow> (irq_stats_t \<Rightarrow> irq_stats_t) \<Rightarrow> 'g irq_world \<Rightarrow> 'g irq_world" where
  "on_stats self f w = (if counts_global self w then w\<lparr>iw_stats := f (iw_stats w)\<rparr> else w)"

definition on_self :: "nat option \<Rightarrow> (percpu_t \<Rightarrow> percpu_t) \<Rightarrow> 'g irq_world \<Rightarrow> 'g irq_world" where
  "on_self self f w = (case self of None \<Rightarrow> w | Some i \<Rightarrow> w\<lparr>iw_kern := on_percpu i f (iw_kern w)\<rparr>)"

definition irq_tick :: "nat option \<Rightarrow> u64 \<Rightarrow> u32 \<Rightarrow> 'g irq_world \<Rightarrow> (u32 \<times> 'g irq_world) option" where
  "irq_tick self now fp w =
     do { (fp', k) \<leftarrow> sched_tick self now fp (iw_kern w); Some (fp', w\<lparr>iw_kern := k\<rparr>) }"

text \<open>
  \<open>iar\<close> is what the acknowledge register gives, \<open>sp\<close> the stack pointer at the check, \<open>now\<close> the time the
  scheduler reads.  The result is the frame to leave through.
\<close>

definition c_irq_handler ::
  "(u32 \<Rightarrow> u32 \<Rightarrow> u32 \<Rightarrow> 'g irq_world \<Rightarrow> 'g irq_world) \<Rightarrow> u32 \<times> u32 \<Rightarrow> u32 \<Rightarrow> nat option \<Rightarrow> u32 \<Rightarrow> u64 \<Rightarrow> u32 \<Rightarrow>
     'g irq_world \<Rightarrow> (u32 \<times> 'g irq_world) option" where
  "c_irq_handler call text_bounds sp self iar now fp w =
     (let w = irq_frame_check text_bounds fp w;
          w = c_handler_sp_check sp w;
          intid = iar;
          cpu_intid = intid AND 0x3FF;
          w = on_self self (\<lambda>p. p\<lparr>p_irq_count := p_irq_count p + 1\<rparr>) w;
          w = on_stats self (\<lambda>s. s\<lparr>is_irq_count := is_irq_count s + 1\<rparr>) w
      in if cpu_intid = GIC_INTID_SPURIOUS then
           Some (fp, on_stats self (\<lambda>s. s\<lparr>is_spurious_count := is_spurious_count s + 1\<rparr>) w)
         else
           let w = on_self self (\<lambda>p. p\<lparr>p_last_intid := cpu_intid\<rparr>) w;
               w = on_stats self (\<lambda>s. s\<lparr>is_last_intid := cpu_intid\<rparr>) w;
               e = iw_table w (unat cpu_intid);
               w = (if cpu_intid \<le> GIC_INTID_MAX \<and> ie_handler e \<noteq> 0
                    then call (ie_handler e) cpu_intid (ie_arg e) w
                    else on_stats self (\<lambda>s. s\<lparr>is_unhandled_count := is_unhandled_count s + 1\<rparr>) w);
               w = gic_eoi intid w
           in if cpu_intid = GIC_INTID_A9_PRIVATE_TIMER then irq_tick self now fp w
              else Some (fp, w))"

text \<open>\<open>insn\<close> reads the instruction at an address.\<close>

fun frame_regs_check :: "arm_exc_frame \<Rightarrow> nat list \<Rightarrow> int option" where
  "frame_regs_check f [] = None"
| "frame_regs_check f (i # is) =
     (if f_r f i \<noteq> (ARM_FRAME_CHECK_PATTERN XOR of_nat i) then Some (int i + 1) else frame_regs_check f is)"

definition svc_frame_check :: "(u32 \<Rightarrow> u32) \<Rightarrow> u32 \<Rightarrow> arm_exc_frame \<Rightarrow> int" where
  "svc_frame_check insn fp f =
     (if fp = 0 then - 1
      else if arm_svc_immediate (insn (arm_exc_pc f ARM_EXC_PC_FIX_SVC)) \<noteq> ARM_SVC_FRAME_CHECK then - 1
      else case frame_regs_check f [0..<13] of
             Some n \<Rightarrow> n
           | None \<Rightarrow>
               if f_spsr f AND ARM_CPSR_MODE_MASK \<noteq> ARM_MODE_SVC then 14
               else if f_ret f \<noteq> arm_exc_pc f ARM_EXC_PC_FIX_SVC + 4 then 15
               else 0)"

text \<open>The flag of the result tells whether the diagnostic is printed.\<close>

definition c_svc_handler ::
  "(u32 \<Rightarrow> u32) \<Rightarrow> u32 \<Rightarrow> nat option \<Rightarrow> u64 \<Rightarrow> u32 \<Rightarrow> 'g irq_world \<Rightarrow> (u32 \<times> bool \<times> 'g irq_world) option" where
  "c_svc_handler insn sp self now fp w =
     (let f = kn_frames (iw_kern w) fp;
          w = c_handler_sp_check sp w;
          w = w\<lparr>iw_pc_fix := ARM_EXC_PC_FIX_SVC\<rparr>;
          (imm, w) = (if fp \<noteq> 0
                      then (arm_svc_immediate (insn (arm_exc_pc f ARM_EXC_PC_FIX_SVC)), w\<lparr>iw_svc_frame := fp\<rparr>)
                      else (0, w))
      in if imm = ARM_SVC_YIELD
         then do { (fp', w) \<leftarrow> irq_tick self now fp w; Some (fp', False, w) }
         else
           let check = svc_frame_check insn fp f
           in if 0 \<le> check then Some (fp, False, w\<lparr>iw_svc_check := check\<rparr>)
              else Some (fp, True, w))"

section \<open>Fault status\<close>

definition fsr_status_of :: "u32 \<Rightarrow> u32" where
  "fsr_status_of fsr =
     (let fs = fsr AND 0xF in if fsr AND 0x400 \<noteq> 0 then fs OR 0x10 else fs)"

definition fsr_status_text :: "u32 \<Rightarrow> string" where
  "fsr_status_text fsr =
     (let s = fsr_status_of fsr in
      if s = 0x01 then ''alignment fault (PC alignment fault for IFSR)''
      else if s = 0x02 then ''debug event''
      else if s = 0x03 then ''access flag fault, level 1''
      else if s = 0x04 then ''fault on instruction cache maintenance (DFSR only)''
      else if s = 0x05 then ''translation fault, level 1''
      else if s = 0x06 then ''access flag fault, level 2''
      else if s = 0x07 then ''translation fault, level 2''
      else if s = 0x08 then ''synchronous external abort, not on translation table walk''
      else if s = 0x09 then ''domain fault, level 1''
      else if s = 0x0A then ''reserved''
      else if s = 0x0B then ''domain fault, level 2''
      else if s = 0x0C then ''synchronous external abort on translation table walk, level 1''
      else if s = 0x0D then ''permission fault, level 1''
      else if s = 0x0E then ''synchronous external abort on translation table walk, level 2''
      else if s = 0x0F then ''permission fault, level 2''
      else if s = 0x10 then ''TLB conflict abort''
      else if s = 0x14 then ''implementation defined fault (lockdown)''
      else if s = 0x15 then ''implementation defined fault (unsupported exclusive access)''
      else if s = 0x16 then ''asynchronous external abort (DFAR is MEANINGLESS for this one)''
      else if s = 0x18 then ''SError exception from parity or ECC error''
      else if s = 0x19 then ''synchronous parity or ECC error on memory access''
      else if s = 0x1C then ''synchronous parity or ECC error on translation table walk, level 1''
      else if s = 0x1E then ''synchronous parity or ECC error on translation table walk, level 2''
      else ''reserved / unknown'')"

section \<open>What the checks and the dispatch do\<close>

lemma bus_of [simp]:
  "iw_bus (on_self self f w) = iw_bus w" "iw_bus (on_stats self g w) = iw_bus w"
  "iw_bus (c_handler_sp_check sp w) = iw_bus w" "iw_bus (irq_frame_check tb fp w) = iw_bus w"
  "iw_table (on_self self f w) = iw_table w" "iw_table (on_stats self g w) = iw_table w"
  "iw_table (c_handler_sp_check sp w) = iw_table w" "iw_table (irq_frame_check tb fp w) = iw_table w"
  by (simp_all add: on_self_def on_stats_def c_handler_sp_check_def irq_frame_check_def split: option.splits)

lemma kern_of [simp]:
  "iw_kern (on_stats self g w) = iw_kern w"
  "iw_kern (c_handler_sp_check sp w) = iw_kern w" "iw_kern (irq_frame_check tb fp w) = iw_kern w"
  by (simp_all add: on_stats_def c_handler_sp_check_def irq_frame_check_def)

lemma irq_frame_bad_iff:
  "irq_frame_bad (lo, hi) fp f \<longleftrightarrow>
     fp = 0 \<or> f_ret f < lo \<or> hi \<le> f_ret f \<or> f_spsr f AND 0x1F \<noteq> 0x13 \<or> fp AND 3 \<noteq> 0"
  by (simp add: irq_frame_bad_def arm_exc_pc_def)

lemma entry_counts:
  fixes w :: "'g irq_world" and self sp tb fp
  defines "g \<equiv> case self of None \<Rightarrow> True | Some c \<Rightarrow> p_cpu_id (kn_percpu (iw_kern w) c) = 0"
    and "w0 \<equiv> on_self self (\<lambda>p. p\<lparr>p_irq_count := p_irq_count p + 1\<rparr>) (c_handler_sp_check sp (irq_frame_check tb fp w))"
  shows "counts_global self w0 = g" and "iw_stats w0 = iw_stats w"
    and "iw_kern w0 = (case self of None \<Rightarrow> iw_kern w | Some c \<Rightarrow>
       (iw_kern w)\<lparr>kn_percpu := (kn_percpu (iw_kern w))(c := (kn_percpu (iw_kern w) c)
          \<lparr>p_irq_count := p_irq_count (kn_percpu (iw_kern w) c) + 1\<rparr>)\<rparr>)"
  by (cases self; simp add: w0_def g_def counts_global_def on_self_def on_percpu_def c_handler_sp_check_def
      irq_frame_check_def)+

lemma counts_global_on:
  "counts_global self (on_stats self f w) = counts_global self w"
  "counts_global self (on_self self (\<lambda>p. p\<lparr>p_last_intid := n\<rparr>) w) = counts_global self w"
  by (cases self; simp add: counts_global_def on_stats_def on_self_def on_percpu_def)+

text \<open>
  C33. Dispatch of an interrupt.  Every interrupt is counted: on the CPU's own entry, and in the statistics of the
  system when it is CPU 0 or a CPU without an entry.  A spurious interrupt is counted as such, is neither handled nor
  ended and leaves through the frame it came in with.  Any other interrupt is recorded as the last one; its registered
  handler runs, or the count of unhandled ones goes up by one; it is then ended exactly once, with the value that was
  acknowledged; the scheduler runs after that and only for the private timer, every other interrupt returns to the
  interrupted task.  Up to the handler nothing of the scheduler's state but these two fields of the CPU changes.
\<close>

theorem irq_dispatch_exact:
  fixes w :: "'g irq_world" and call text_bounds sp self now fp
  defines "irq \<equiv> \<lambda>iar. c_irq_handler call text_bounds sp self iar now fp w"
    and "g \<equiv> case self of None \<Rightarrow> True | Some c \<Rightarrow> p_cpu_id (kn_percpu (iw_kern w) c) = 0"
  shows "if iar AND 0x3FF = 1023
    then \<exists>w'. irq iar = Some (fp, w') \<and> iw_bus w' = iw_bus w \<and> iw_table w' = iw_table w \<and>
           iw_stats w' = (if g then (iw_stats w)\<lparr>is_irq_count := is_irq_count (iw_stats w) + 1,
               is_spurious_count := is_spurious_count (iw_stats w) + 1\<rparr> else iw_stats w) \<and>
           iw_kern w' = (case self of None \<Rightarrow> iw_kern w | Some c \<Rightarrow>
             (iw_kern w)\<lparr>kn_percpu := (kn_percpu (iw_kern w))(c := (kn_percpu (iw_kern w) c)
                \<lparr>p_irq_count := p_irq_count (kn_percpu (iw_kern w) c) + 1\<rparr>)\<rparr>)
    else \<exists>w1 w2. iw_bus w1 = iw_bus w \<and> iw_table w1 = iw_table w \<and>
        iw_stats w1 = (if g then (iw_stats w)\<lparr>is_irq_count := is_irq_count (iw_stats w) + 1, is_last_intid := iar AND 0x3FF\<rparr>
            else iw_stats w) \<and>
        iw_kern w1 = (case self of None \<Rightarrow> iw_kern w | Some c \<Rightarrow>
          (iw_kern w)\<lparr>kn_percpu := (kn_percpu (iw_kern w))(c := (kn_percpu (iw_kern w) c)
             \<lparr>p_irq_count := p_irq_count (kn_percpu (iw_kern w) c) + 1, p_last_intid := iar AND 0x3FF\<rparr>)\<rparr>) \<and>
        (let e = iw_table w (unat (iar AND 0x3FF)) in
         if iar AND 0x3FF \<le> 95 \<and> ie_handler e \<noteq> 0 then w2 = call (ie_handler e) (iar AND 0x3FF) (ie_arg e) w1
         else w2 = (if g then w1\<lparr>iw_stats := (iw_stats w1)\<lparr>is_unhandled_count := is_unhandled_count (iw_stats w) + 1\<rparr>\<rparr>
                    else w1)) \<and>
        (let w3 = w2\<lparr>iw_bus := iw_bus w2 @ [Write32 0xF8F00110 iar]\<rparr> in
         if iar AND 0x3FF = 29
         then irq iar = (case sched_tick self now fp (iw_kern w2) of
                           None \<Rightarrow> None | Some (fp', k) \<Rightarrow> Some (fp', w3\<lparr>iw_kern := k\<rparr>))
         else irq iar = Some (fp, w3))"
proof -
  define w0 where "w0 = on_self self (\<lambda>p. p\<lparr>p_irq_count := p_irq_count p + 1\<rparr>) (c_handler_sp_check sp (irq_frame_check text_bounds fp w))"
  define v where "v = on_stats self (\<lambda>s. s\<lparr>is_irq_count := is_irq_count s + 1\<rparr>) w0"
  note w0 = entry_counts [where self = self and w = w and sp = sp and tb = text_bounds and fp = fp, folded w0_def g_def]
  have b0: "iw_bus v = iw_bus w" "iw_table v = iw_table w" by (simp_all add: v_def w0_def)
  have v: "counts_global self v = g" "iw_kern v = iw_kern w0"
    "iw_stats v = (if g then (iw_stats w)\<lparr>is_irq_count := is_irq_count (iw_stats w) + 1\<rparr> else iw_stats w)"
    by (simp_all add: v_def counts_global_on w0(1,2)) (simp add: on_stats_def w0(1,2))
  show ?thesis
  proof (cases "iar AND 0x3FF = 1023")
    case True
    let ?w' = "on_stats self (\<lambda>s. s\<lparr>is_spurious_count := is_spurious_count s + 1\<rparr>) v"
    have "irq iar = Some (fp, ?w')"
      using True by (simp add: irq_def c_irq_handler_def Let_def v_def w0_def)
    moreover have "iw_stats ?w' = (if g then (iw_stats w)\<lparr>is_irq_count := is_irq_count (iw_stats w) + 1,
               is_spurious_count := is_spurious_count (iw_stats w) + 1\<rparr> else iw_stats w)"
      using v(1,3) by (simp add: on_stats_def)
    ultimately show ?thesis unfolding if_P [OF True] using b0 v(2) w0(3)
      by (intro exI [of _ ?w']) simp
  next
    case False
    let ?id = "iar AND 0x3FF"
    define w1 where "w1 = on_stats self (\<lambda>s. s\<lparr>is_last_intid := ?id\<rparr>) (on_self self (\<lambda>p. p\<lparr>p_last_intid := ?id\<rparr>) v)"
    define e where "e = iw_table w (unat ?id)"
    define w2 where "w2 = (if ?id \<le> 95 \<and> ie_handler e \<noteq> 0 then call (ie_handler e) ?id (ie_arg e) w1
        else on_stats self (\<lambda>s. s\<lparr>is_unhandled_count := is_unhandled_count s + 1\<rparr>) w1)"
    have g1: "counts_global self w1 = g" by (simp add: w1_def counts_global_on v(1))
    have w1: "iw_bus w1 = iw_bus w" "iw_table w1 = iw_table w"
      "iw_stats w1 = (if g then (iw_stats w)\<lparr>is_irq_count := is_irq_count (iw_stats w) + 1, is_last_intid := ?id\<rparr> else iw_stats w)"
    proof -
      show "iw_bus w1 = iw_bus w" "iw_table w1 = iw_table w" by (simp_all add: w1_def b0)
      have "iw_stats (on_self self (\<lambda>p. p\<lparr>p_last_intid := ?id\<rparr>) v) = iw_stats v" by (simp add: on_self_def split: option.split)
      then show "iw_stats w1 = (if g then (iw_stats w)\<lparr>is_irq_count := is_irq_count (iw_stats w) + 1, is_last_intid := ?id\<rparr> else iw_stats w)"
        by (simp add: w1_def on_stats_def counts_global_on v(1,3))
    qed
    have k1: "iw_kern w1 = (case self of None \<Rightarrow> iw_kern w | Some c \<Rightarrow>
          (iw_kern w)\<lparr>kn_percpu := (kn_percpu (iw_kern w))(c := (kn_percpu (iw_kern w) c)
             \<lparr>p_irq_count := p_irq_count (kn_percpu (iw_kern w) c) + 1, p_last_intid := ?id\<rparr>)\<rparr>)"
      by (cases self) (simp_all add: w1_def v(2) w0(3) on_self_def on_percpu_def)
    have "irq iar = (if ?id = 29 then irq_tick self now fp (gic_eoi iar w2) else Some (fp, gic_eoi iar w2))"
      unfolding irq_def c_irq_handler_def Let_def w0_def [symmetric] v_def [symmetric] w1_def [symmetric]
      by (simp only: False if_False w1(2) e_def w2_def)
    moreover have "gic_eoi iar w2 = w2\<lparr>iw_bus := iw_bus w2 @ [Write32 0xF8F00110 iar]\<rparr>"
      by (simp add: gic_eoi_def mmio_write32_def)
    ultimately have r: "if ?id = 29
        then irq iar = (case sched_tick self now fp (iw_kern w2) of None \<Rightarrow> None
              | Some (fp', k) \<Rightarrow> Some (fp', w2\<lparr>iw_bus := iw_bus w2 @ [Write32 0xF8F00110 iar]\<rparr>\<lparr>iw_kern := k\<rparr>))
        else irq iar = Some (fp, w2\<lparr>iw_bus := iw_bus w2 @ [Write32 0xF8F00110 iar]\<rparr>)"
      by (cases "sched_tick self now fp (iw_kern w2)") (simp_all add: irq_tick_def split_beta)
    have "on_stats self (\<lambda>s. s\<lparr>is_unhandled_count := is_unhandled_count s + 1\<rparr>) w1 =
        (if g then w1\<lparr>iw_stats := (iw_stats w1)\<lparr>is_unhandled_count := is_unhandled_count (iw_stats w) + 1\<rparr>\<rparr> else w1)"
      by (simp add: on_stats_def g1 w1(3))
    then have c: "if ?id \<le> 95 \<and> ie_handler e \<noteq> 0 then w2 = call (ie_handler e) ?id (ie_arg e) w1
         else w2 = (if g then w1\<lparr>iw_stats := (iw_stats w1)\<lparr>is_unhandled_count := is_unhandled_count (iw_stats w) + 1\<rparr>\<rparr> else w1)"
      unfolding w2_def by simp
    show ?thesis unfolding if_not_P [OF False] Let_def e_def [symmetric]
      by (intro exI conjI) (rule w1 k1 c r)+
  qed
qed

text \<open>
  What the check of an interrupt frame catches.  It counts exactly the frames that are null, return outside
  the kernel's code, come from another mode or are not word aligned, and counts apart the accepted ones that are not doubleword
  aligned.  Its first test, \<open>ret = pc + 4\<close>, catches nothing, since \<open>pc\<close> is computed from \<open>ret\<close>: a frame whose
  return address lacks the correction and is one instruction too far passes.
\<close>

theorem irq_frame_check_exact:
  assumes "f = kn_frames (iw_kern w) fp"
    and "bad \<longleftrightarrow> fp = 0 \<or> f_ret f < lo \<or> hi \<le> f_ret f \<or> f_spsr f AND 0x1F \<noteq> 0x13 \<or> fp AND 3 \<noteq> 0"
  shows "irq_frame_check (lo, hi) fp w =
      w\<lparr>iw_frame_violations := iw_frame_violations w + (if bad then 1 else 0),
        iw_frame_unaligned8 := iw_frame_unaligned8 w + (if \<not> bad \<and> fp AND 7 \<noteq> 0 then 1 else 0)\<rparr>"
    and "\<not> bad \<Longrightarrow> lo \<le> f_ret f + 4 \<Longrightarrow> f_ret f + 4 < hi \<Longrightarrow> \<not> irq_frame_bad (lo, hi) fp (f\<lparr>f_ret := f_ret f + 4\<rparr>)"
  using assms by (auto simp: irq_frame_check_def irq_frame_bad_iff not_less)

lemma irq_register_exact:
  "irq_register i h a w =
     (if unat i < 96 \<and> h \<noteq> 0 \<and> ie_handler (iw_table w (unat i)) = 0
      then (0, w\<lparr>iw_table := (iw_table w)(unat i := \<lparr>ie_handler = h, ie_arg = a\<rparr>)\<rparr>) else (- 1, w))"
proof -
  have "95 < i \<longleftrightarrow> \<not> unat i < 96" by (simp add: word_lt_unat) arith
  then show ?thesis by (auto simp: irq_register_def)
qed

section \<open>What the controller is told\<close>

text \<open>
  The controller's registers as its manual documents them: a one written to a set- or clear-enable register enables or
  disables the line of that bit, zeros do nothing; priorities and targets are bytes.  The state of one line or one byte is
  followed through the log of writes.
\<close>

definition dist_off :: "u32 \<Rightarrow> nat" where
  "dist_off a = unat (a - PLAT_GIC_DIST_BASE)"

definition line_after :: "u32 \<Rightarrow> mmio \<Rightarrow> bool \<Rightarrow> bool" where
  "line_after i m e =
     (case m of
        Write32 a v \<Rightarrow>
          if bit v (unat i mod 32) \<and> dist_off a = 0x100 + 4 * (unat i div 32) then True
          else if bit v (unat i mod 32) \<and> dist_off a = 0x180 + 4 * (unat i div 32) then False
          else e
      | Write8 _ _ \<Rightarrow> e)"

definition byte_after :: "nat \<Rightarrow> mmio \<Rightarrow> u8 \<Rightarrow> u8" where
  "byte_after x m b =
     (case m of
        Write8 a v \<Rightarrow> if dist_off a = x then v else b
      | Write32 a v \<Rightarrow> if dist_off a \<le> x \<and> x < dist_off a + 4 then ucast (drop_bit (8 * (x - dist_off a)) v) else b)"

definition line_enabled :: "bool \<Rightarrow> 'g irq_world \<Rightarrow> u32 \<Rightarrow> bool" where
  "line_enabled e w i = fold (line_after i) (iw_bus w) e"

definition gic_byte :: "u8 \<Rightarrow> 'g irq_world \<Rightarrow> nat \<Rightarrow> u8" where
  "gic_byte b w x = fold (byte_after x) (iw_bus w) b"

datatype gic_op = Enable u32 | Disable u32 | Priority u32 u8 | Target u32 u8 | Edge u32 bool u32 | Sgi u32 u8

fun gic_do :: "gic_op \<Rightarrow> 'g irq_world \<Rightarrow> 'g irq_world" where
  "gic_do (Enable i) = gic_enable_irq i"
| "gic_do (Disable i) = gic_disable_irq i"
| "gic_do (Priority i p) = gic_set_priority i p"
| "gic_do (Target i m) = gic_set_target i m"
| "gic_do (Edge i e c) = gic_set_edge_triggered i e c"
| "gic_do (Sgi i m) = gic_send_sgi i m"

fun want_enabled :: "u32 \<Rightarrow> gic_op \<Rightarrow> bool \<Rightarrow> bool" where
  "want_enabled i (Enable j) e = (if j = i then True else e)"
| "want_enabled i (Disable j) e = (if j = i then False else e)"
| "want_enabled i _ e = e"

fun want_priority :: "u32 \<Rightarrow> gic_op \<Rightarrow> u8 \<Rightarrow> u8" where
  "want_priority i (Priority j p) b = (if j = i then p else b)"
| "want_priority i _ b = b"

fun want_target :: "u32 \<Rightarrow> gic_op \<Rightarrow> u8 \<Rightarrow> u8" where
  "want_target i (Target j p) b = (if j = i then p else b)"
| "want_target i _ b = b"

lemma dist_off_reg: "n < 4096 \<Longrightarrow> dist_off (0xF8F01000 + of_nat n) = n"
  by (simp add: dist_off_def unat_of_nat_small)

lemma unat_mod_div32 [simp]: "unat ((i :: u32) mod 32) = unat i mod 32" "unat ((i :: u32) div 32) = unat i div 32"
  "unat ((i :: u32) div 16) = unat i div 16"
  by (simp_all add: unat_mod unat_div)

lemma intid_iff: "\<not> (95 < (i :: u32)) \<longleftrightarrow> unat i < 96" "(i < 32) \<longleftrightarrow> unat i < 32"
  by (simp_all add: word_lt_unat) arith

lemma bit_reg_off:
  assumes "unat i < 96"
  shows "dist_off (gicd_bit_reg 0x100 i) = 0x100 + 4 * (unat i div 32)"
    and "dist_off (gicd_bit_reg 0x180 i) = 0x180 + 4 * (unat i div 32)"
proof -
  have e: "gicd_bit_reg off i = 0xF8F01000 + of_nat (unat off + 4 * (unat i div 32))" for off
    by (simp add: gicd_bit_reg_def word_eq_unat [symmetric] flip: unat_mod_div32)
  have "unat i div 32 < 3" using assms by (simp add: less_mult_imp_div_less)
  then show "dist_off (gicd_bit_reg 0x100 i) = 0x100 + 4 * (unat i div 32)"
      "dist_off (gicd_bit_reg 0x180 i) = 0x180 + 4 * (unat i div 32)"
    unfolding e by (subst dist_off_reg; simp)+
qed

lemma byte_reg_off:
  assumes "unat i < 96"
  shows "dist_off (gicd_byte_reg 0x400 i) = 0x400 + unat i" and "dist_off (gicd_byte_reg 0x800 i) = 0x800 + unat i"
proof -
  have e: "gicd_byte_reg off i = 0xF8F01000 + of_nat (unat off + unat i)" for off
    by (simp add: gicd_byte_reg_def)
  show "dist_off (gicd_byte_reg 0x400 i) = 0x400 + unat i" "dist_off (gicd_byte_reg 0x800 i) = 0x800 + unat i"
    using assms unfolding e by (subst dist_off_reg; simp)+
qed

lemma cfg_reg_off:
  assumes "unat i < 96"
  shows "dist_off (gicd_cfg_reg i) = 0xC00 + 4 * (unat i div 16)"
proof -
  have e: "gicd_cfg_reg i = 0xF8F01000 + of_nat (0xC00 + 4 * (unat i div 16))"
    by (simp add: gicd_cfg_reg_def flip: unat_mod_div32)
  have "unat i div 16 < 6" using assms by (simp add: less_mult_imp_div_less)
  then show ?thesis unfolding e by (subst dist_off_reg; simp)
qed

lemma bit_mask_bit: "bit (gicd_bit_mask j) n \<longleftrightarrow> n = unat j mod 32 \<and> n < 32"
  by (auto simp: gicd_bit_mask_def bit_simps)

lemma same_line: "unat i div 32 = unat j div 32 \<and> unat i mod 32 = unat j mod 32 \<longleftrightarrow> (i :: u32) = j"
  by (metis div_mult_mod_eq word_eq_unat)

lemma bus_write [simp]:
  "iw_bus (mmio_write32 a v w) = iw_bus w @ [Write32 a v]" "iw_bus (mmio_write8 a b w) = iw_bus w @ [Write8 a b]"
  by (simp_all add: mmio_write32_def mmio_write8_def)

lemma line_write:
  assumes "unat i < 96" "unat j < 96"
  shows "line_after i (Write32 (gicd_bit_reg 0x100 j) (gicd_bit_mask j)) e = (if j = i then True else e)"
    and "line_after i (Write32 (gicd_bit_reg 0x180 j) (gicd_bit_mask j)) e = (if j = i then False else e)"
proof -
  have d: "unat i div 32 < 3" "unat j div 32 < 3" using assms by (simp_all add: less_mult_imp_div_less)
  have s: "unat i mod 32 = unat j mod 32 \<and> unat j div 32 = unat i div 32 \<longleftrightarrow> j = i"
    using same_line [of i j] by auto
  show "line_after i (Write32 (gicd_bit_reg 0x100 j) (gicd_bit_mask j)) e = (if j = i then True else e)"
      "line_after i (Write32 (gicd_bit_reg 0x180 j) (gicd_bit_mask j)) e = (if j = i then False else e)"
    unfolding s [symmetric] using d assms
    by (simp_all add: line_after_def bit_mask_bit bit_reg_off)
qed

lemma line_do:
  assumes i: "unat i < 96"
  shows "line_enabled e (gic_do op w) i = want_enabled i op (line_enabled e w i)"
proof (cases op)
  case (Enable j)
  moreover have "95 < j \<Longrightarrow> j \<noteq> i" using intid_iff(1) [of j] i by blast
  ultimately show ?thesis using line_write(1) [OF i, of j] intid_iff(1) [of j]
    by (cases "95 < j") (simp_all add: gic_enable_irq_def line_enabled_def)
next
  case (Disable j)
  moreover have "95 < j \<Longrightarrow> j \<noteq> i" using intid_iff(1) [of j] i by blast
  ultimately show ?thesis using line_write(2) [OF i, of j] intid_iff(1) [of j]
    by (cases "95 < j") (simp_all add: gic_disable_irq_def line_enabled_def)
next
  case (Edge j c v)
  have "unat i div 32 < 3" using i by (simp add: less_mult_imp_div_less)
  then show ?thesis using Edge cfg_reg_off [of j] intid_iff(1) [of j]
    by (auto simp: gic_set_edge_triggered_def line_enabled_def line_after_def Let_def)
next
  case (Sgi j m)
  have "unat i div 32 < 3" using i by (simp add: less_mult_imp_div_less)
  then show ?thesis using Sgi
    by (auto simp: gic_send_sgi_def line_enabled_def line_after_def dist_off_def)
qed (auto simp: gic_set_priority_def gic_set_target_def line_enabled_def line_after_def)

lemma bytes_do:
  assumes i: "unat i < 96"
  shows "gic_byte b (gic_do op w) (0x400 + unat i) = want_priority i op (gic_byte b w (0x400 + unat i))"
    and "32 \<le> unat i \<Longrightarrow> gic_byte b (gic_do op w) (0x800 + unat i) = want_target i op (gic_byte b w (0x800 + unat i))"
proof -
  have d: "unat j div 32 < 3" "unat j div 16 < 6" if "unat j < 96" for j :: u32
    using that by (simp_all add: less_mult_imp_div_less)
  have A: "gic_byte b (gic_do op w) (0x400 + unat i) = want_priority i op (gic_byte b w (0x400 + unat i)) \<and>
      (32 \<le> unat i \<longrightarrow> gic_byte b (gic_do op w) (0x800 + unat i) = want_target i op (gic_byte b w (0x800 + unat i)))"
  proof (cases op)
    case (Enable j)
    then show ?thesis using i intid_iff(1) [of j] bit_reg_off [of j] d [of j]
      by (cases "95 < j") (simp_all add: gic_enable_irq_def gic_byte_def byte_after_def)
  next
    case (Disable j)
    then show ?thesis using i intid_iff(1) [of j] bit_reg_off [of j] d [of j]
      by (cases "95 < j") (simp_all add: gic_disable_irq_def gic_byte_def byte_after_def)
  next
    case (Priority j p)
    then show ?thesis using i intid_iff(1) [of j] byte_reg_off [of j]
      by (cases "95 < j") (auto simp: gic_set_priority_def gic_byte_def byte_after_def word_eq_unat)
  next
    case (Target j p)
    then show ?thesis using i intid_iff [of j] byte_reg_off [of j]
      by (cases "95 < j") (auto simp: gic_set_target_def gic_byte_def byte_after_def word_eq_unat)
  next
    case (Edge j c v)
    then show ?thesis using i intid_iff(1) [of j] cfg_reg_off [of j] d [of j]
      by (cases "95 < j") (simp_all add: gic_set_edge_triggered_def gic_byte_def byte_after_def Let_def)
  next
    case (Sgi j m)
    then show ?thesis using i by (auto simp: gic_send_sgi_def gic_byte_def byte_after_def dist_off_def)
  qed
  then show "gic_byte b (gic_do op w) (0x400 + unat i) = want_priority i op (gic_byte b w (0x400 + unat i))"
      "32 \<le> unat i \<Longrightarrow> gic_byte b (gic_do op w) (0x800 + unat i) = want_target i op (gic_byte b w (0x800 + unat i))"
    by simp_all
qed

lemma gic_ops_view:
  assumes "unat i < 96"
  shows "line_enabled e (fold gic_do ops w) i = fold (want_enabled i) ops (line_enabled e w i)"
    and "gic_byte b (fold gic_do ops w) (0x400 + unat i) = fold (want_priority i) ops (gic_byte b w (0x400 + unat i))"
    and "32 \<le> unat i \<Longrightarrow>
      gic_byte b (fold gic_do ops w) (0x800 + unat i) = fold (want_target i) ops (gic_byte b w (0x800 + unat i))"
  by (induction ops arbitrary: w) (simp_all add: line_do [OF assms] bytes_do [OF assms])

section \<open>The set-up\<close>

lemma bus_fold32: "iw_bus (fold (\<lambda>i. mmio_write32 (f i) (g i)) is w) = iw_bus w @ List.map (\<lambda>i. Write32 (f i) (g i)) is"
  and bus_fold8: "iw_bus (fold (\<lambda>i. mmio_write8 (f i) (h i)) is w) = iw_bus w @ List.map (\<lambda>i. Write8 (f i) (h i)) is"
  by (induction "is" arbitrary: w) simp_all

lemma bus_fold_table: "iw_bus (fold (\<lambda>i w. w\<lparr>iw_table := (iw_table w)(i := c)\<rparr>) is w) = iw_bus w"
  by (induction "is" arbitrary: w) simp_all

lemma fold_if: "fold (\<lambda>k x. if P k then c else x) ks x = (if \<exists>k\<in>set ks. P k then c else x)"
  by (induction ks arbitrary: x) auto

lemma fold_keep: "fold (\<lambda>k x. x) ks x = x"
  by (induction ks) simp_all

definition gic_lines :: "u32 \<Rightarrow> nat" where
  "gic_lines typer = min 96 (32 * (unat typer mod 32 + 1))"

lemma lines_eq: "unat (if 96 < ((typer AND 0x1F) + 1) * 32 then 96 else ((typer AND 0x1F) + 1) * (32 :: u32)) = gic_lines typer"
proof -
  have m: "unat (typer AND 0x1F) = unat typer mod 32"
    using unat_and_mask [of typer 5] by (simp add: mask_eq_exp_minus_1)
  have "unat typer mod 32 < 32" by simp
  then have "unat ((typer AND 0x1F) + 1) = unat typer mod 32 + 1" using m by (simp add: unat_add_small)
  moreover have mul: "unat x < 100 \<Longrightarrow> unat (x * 32) = unat x * 32" for x :: u32 by (simp add: unat_word_ariths)
  ultimately have "unat (((typer AND 0x1F) + 1) * 32) = (unat typer mod 32 + 1) * 32" by (subst mul) simp_all
  then show ?thesis by (simp add: gic_lines_def word_lt_unat min_def)
qed

lemma init_bus:
  "iw_bus (gic_init typer w) = iw_bus w @ [Write32 0xF8F01000 0] @
     List.map (\<lambda>k. Write32 (0xF8F01000 + of_nat (0x400 + 4 * k)) 0xA0A0A0A0) [0..<32] @
     List.map (\<lambda>k. Write8 (0xF8F01000 + of_nat (0x800 + k)) 1) [32..<gic_lines typer] @
     List.map (\<lambda>k. Write32 (0xF8F01000 + of_nat (0x180 + 4 * k)) 0xFFFFFFFF) [0..<32] @
     List.map (\<lambda>k. Write32 (0xF8F01000 + of_nat (0x280 + 4 * k)) 0xFFFFFFFF) [0..<32] @
     [Write32 0xF8F01000 1, Write32 0xF8F00104 0xF0, Write32 0xF8F00100 1]"
  unfolding gic_init_def Let_def lines_eq bus_write bus_fold32 bus_fold8 bus_fold_table gicd_byte_reg_def
  by (simp add: mult.commute add.assoc)

text \<open>One loop of writes, seen from one line or one byte.\<close>

lemma line_after_reg:
  "n < 4096 \<Longrightarrow> line_after i (Write32 (0xF8F01000 + of_nat n) v) e =
     (if bit v (unat i mod 32) \<and> n = 0x100 + 4 * (unat i div 32) then True
      else if bit v (unat i mod 32) \<and> n = 0x180 + 4 * (unat i div 32) then False else e)"
  by (simp only: line_after_def mmio.case dist_off_reg)

lemma byte_after_reg:
  "n < 4096 \<Longrightarrow> byte_after x (Write32 (0xF8F01000 + of_nat n) v) b =
     (if n \<le> x \<and> x < n + 4 then ucast (drop_bit (8 * (x - n)) v) else b)"
  "n < 4096 \<Longrightarrow> byte_after x (Write8 (0xF8F01000 + of_nat n) c) b = (if n = x then c else b)"
  by (simp_all add: byte_after_def dist_off_reg)

lemma line_loop:
  assumes "\<And>k. k \<in> set ks \<Longrightarrow> r + 4 * k < 4096"
  shows "fold (line_after i) (List.map (\<lambda>k. Write32 (0xF8F01000 + of_nat (r + 4 * k)) v) ks) e =
   fold (\<lambda>k e. if bit v (unat i mod 32) \<and> r + 4 * k = 0x100 + 4 * (unat i div 32) then True
               else if bit v (unat i mod 32) \<and> r + 4 * k = 0x180 + 4 * (unat i div 32) then False else e) ks e"
  unfolding fold_map by (rule fold_cong [OF refl refl]) (rule ext, simp only: o_def line_after_reg [OF assms])

lemma byte_loop32:
  assumes "\<And>k. k \<in> set ks \<Longrightarrow> r + 4 * k < 4096"
  shows "fold (byte_after x) (List.map (\<lambda>k. Write32 (0xF8F01000 + of_nat (r + 4 * k)) v) ks) b =
   fold (\<lambda>k b. if r + 4 * k \<le> x \<and> x < r + 4 * k + 4 then ucast (drop_bit (8 * (x - (r + 4 * k))) v) else b) ks b"
  unfolding fold_map by (rule fold_cong [OF refl refl]) (rule ext, simp only: o_def byte_after_reg [OF assms])

lemma byte_loop8:
  assumes "\<And>k. k \<in> set ks \<Longrightarrow> r + k < 4096"
  shows "fold (byte_after x) (List.map (\<lambda>k. Write8 (0xF8F01000 + of_nat (r + k)) v) ks) b =
   fold (\<lambda>k b. if r + k = x then v else b) ks b"
  unfolding fold_map by (rule fold_cong [OF refl refl]) (rule ext, simp only: o_def byte_after_reg [OF assms])

lemma line_loop8: "fold (line_after i) (List.map (\<lambda>k. Write8 (f k) v) ks) e = e"
  by (induction ks) (simp_all add: line_after_def)

lemma init_line:
  assumes i: "unat i < 96"
  shows "\<not> line_enabled e (gic_init typer w) i"
proof -
  have d: "unat i div 32 < 32" using i by (simp add: less_mult_imp_div_less)
  have b: "bit (0xFFFFFFFF :: u32) (unat i mod 32)"
  proof -
    have m: "(0xFFFFFFFF :: u32) = - 1" by simp
    show ?thesis unfolding m by (simp only: bit_minus_1_iff) simp
  qed
  have clear: "fold (line_after i) (List.map (\<lambda>k. Write32 (0xF8F01000 + of_nat (0x180 + 4 * k)) 0xFFFFFFFF) [0..<32]) x = False" for x
  proof -
    have "fold (line_after i) (List.map (\<lambda>k. Write32 (0xF8F01000 + of_nat (0x180 + 4 * k)) 0xFFFFFFFF) [0..<32]) x =
        fold (\<lambda>k e. if k = unat i div 32 then False else e) [0..<32] x"
      by (subst line_loop, simp, rule fold_cong) (use b i in \<open>auto simp: fun_eq_iff less_mult_imp_div_less\<close>)
    then show ?thesis using d by (simp add: fold_if)
  qed
  have pend: "fold (line_after i) (List.map (\<lambda>k. Write32 (0xF8F01000 + of_nat (0x280 + 4 * k)) 0xFFFFFFFF) [0..<32]) x = x" for x
  proof -
    have "fold (line_after i) (List.map (\<lambda>k. Write32 (0xF8F01000 + of_nat (0x280 + 4 * k)) 0xFFFFFFFF) [0..<32]) x =
        fold (\<lambda>k e. e) [0..<32::nat] x"
      by (subst line_loop, simp, rule fold_cong) (use d i in \<open>auto simp: fun_eq_iff\<close>)
    then show ?thesis unfolding fold_keep .
  qed
  show ?thesis
    unfolding line_enabled_def init_bus fold_append o_apply line_loop8 clear pend
    using d by (simp add: line_after_def dist_off_def)
qed

lemma byte_still:
  assumes "\<And>k. k \<in> set ks \<Longrightarrow> r + 4 * k < 4096 \<and> (x < r + 4 * k \<or> r + 4 * k + 4 \<le> x)"
  shows "fold (byte_after x) (List.map (\<lambda>k. Write32 (0xF8F01000 + of_nat (r + 4 * k)) v) ks) b = b"
proof -
  have "fold (byte_after x) (List.map (\<lambda>k. Write32 (0xF8F01000 + of_nat (r + 4 * k)) v) ks) b = fold (\<lambda>k e. e) ks b"
    by (subst byte_loop32; (rule fold_cong)?) (use assms in \<open>force simp: fun_eq_iff\<close>)+
  then show ?thesis unfolding fold_keep .
qed

lemma init_bytes:
  assumes i: "unat i < 96"
  shows "gic_byte b (gic_init typer w) (0x400 + unat i) = 0xA0"
    and "32 \<le> unat i \<Longrightarrow> unat i < gic_lines typer \<Longrightarrow> gic_byte b (gic_init typer w) (0x800 + unat i) = 1"
proof -
  have last3: "fold (byte_after x) [Write32 0xF8F01000 1, Write32 0xF8F00104 0xF0, Write32 0xF8F00100 1] c = c"
    if "0x400 \<le> x" "x < 0x1000" for x c using that by (simp add: byte_after_def dist_off_def)
  have first: "fold (byte_after x) [Write32 0xF8F01000 0] c = c" if "0x400 \<le> x" for x c
    using that by (simp add: byte_after_def dist_off_def)
  have t8: "fold (byte_after x) (List.map (\<lambda>k. Write8 (0xF8F01000 + of_nat (0x800 + k)) 1) [32..<gic_lines typer]) c =
      (if 0x820 \<le> x \<and> x < 0x800 + gic_lines typer then 1 else c)" for x c
  proof -
    have "(\<exists>k\<in>set [32..<gic_lines typer]. 0x800 + k = x) \<longleftrightarrow> 0x820 \<le> x \<and> x < 0x800 + gic_lines typer"
      by (auto intro!: bexI [of _ "x - 0x800"])
    moreover have "gic_lines typer \<le> 96" by (simp add: gic_lines_def)
    ultimately show ?thesis by (subst byte_loop8) (simp_all only: fold_if, simp)
  qed
  have prio: "fold (byte_after (0x400 + unat i))
      (List.map (\<lambda>k. Write32 (0xF8F01000 + of_nat (0x400 + 4 * k)) 0xA0A0A0A0) [0..<32]) c = 0xA0" for c
  proof -
    have byte: "ucast (drop_bit (8 * n) (0xA0A0A0A0 :: u32)) = (0xA0 :: u8)" if n: "n < 4" for n
    proof -
      consider "n = 0" | "n = 1" | "n = 2" | "n = 3" using n by linarith
      then show ?thesis by cases simp_all
    qed
    have "fold (byte_after (0x400 + unat i))
        (List.map (\<lambda>k. Write32 (0xF8F01000 + of_nat (0x400 + 4 * k)) 0xA0A0A0A0) [0..<32]) c =
      fold (\<lambda>k e. if k = unat i div 4 then 0xA0 else e) [0..<32] c"
    proof (subst byte_loop32, simp, rule fold_cong [OF refl refl], rule ext)
      fix k e assume "k \<in> set [0..<32::nat]"
      have "0x400 + 4 * k \<le> 0x400 + unat i \<and> 0x400 + unat i < 0x400 + 4 * k + 4 \<longleftrightarrow> k = unat i div 4" by auto
      then show "(if 0x400 + 4 * k \<le> 0x400 + unat i \<and> 0x400 + unat i < 0x400 + 4 * k + 4
          then ucast (drop_bit (8 * (0x400 + unat i - (0x400 + 4 * k))) (0xA0A0A0A0 :: u32)) else e) =
        (if k = unat i div 4 then 0xA0 else e :: u8)"
        using byte [of "unat i - 4 * k"] by auto
    qed
    then show ?thesis using i by (simp add: fold_if less_mult_imp_div_less)
  qed
  have en: "fold (byte_after x) (List.map (\<lambda>k. Write32 (0xF8F01000 + of_nat (r + 4 * k)) 0xFFFFFFFF) [0..<32]) c = c"
    if "0x400 \<le> x" "r \<le> 0x280" for x c r using that by (intro byte_still) auto
  show "gic_byte b (gic_init typer w) (0x400 + unat i) = 0xA0"
    unfolding gic_byte_def init_bus fold_append o_apply
    by (subst last3, simp, use i in simp, subst en, simp, simp, subst en, simp, simp, subst t8) (use i prio in simp)
  show "gic_byte b (gic_init typer w) (0x800 + unat i) = 1" if "32 \<le> unat i" "unat i < gic_lines typer"
    unfolding gic_byte_def init_bus fold_append o_apply
    by (subst last3, simp, use i in simp, subst en, simp, simp, subst en, simp, simp, subst t8) (use that in simp)
qed

lemma gic_config_refines_parts:
  assumes "unat i < 96"
  shows "line_enabled e (fold gic_do ops (gic_init typer w)) i = fold (want_enabled i) ops False"
    and "gic_byte b (fold gic_do ops (gic_init typer w)) (0x400 + unat i) = fold (want_priority i) ops 0xA0"
    and "32 \<le> unat i \<Longrightarrow> unat i < gic_lines typer \<Longrightarrow>
      gic_byte b (fold gic_do ops (gic_init typer w)) (0x800 + unat i) = fold (want_target i) ops 1"
  by (simp_all add: gic_ops_view [OF assms] init_bytes [OF assms] init_line [OF assms])

text \<open>
  C34. The controller is told what was asked.  After the set-up every line is disabled, has the default
  priority and, if it is a shared line the controller has, goes to CPU 0; from then on, whatever sequence of
  calls follows, a line is enabled exactly if the last call that names it for enabling or disabling enables
  it, and has the priority and the target of the last calls that set them.  No call disturbs another line, and a
  call for a number outside the table changes nothing.
\<close>

theorem gic_config_refines:
  assumes "unat i < 96"
  shows "line_enabled e (fold gic_do ops (gic_init typer w)) i = fold (want_enabled i) ops False \<and>
    gic_byte b (fold gic_do ops (gic_init typer w)) (0x400 + unat i) = fold (want_priority i) ops 0xA0 \<and>
    (32 \<le> unat i \<and> unat i < gic_lines typer \<longrightarrow>
      gic_byte b (fold gic_do ops (gic_init typer w)) (0x800 + unat i) = fold (want_target i) ops 1)"
  using gic_config_refines_parts [OF assms] by blast

section \<open>Supervisor calls\<close>

lemma frame_regs_check_find:
  "frame_regs_check f is = map_option (\<lambda>i. int i + 1) (find (\<lambda>i. f_r f i \<noteq> (0x5A5A0000 XOR of_nat i)) is)"
  by (induction "is") simp_all

lemma find_upt_least: "find P [0..<n] = (if \<exists>i<n. P i then Some (LEAST i. P i) else None)"
proof (cases "\<exists>i<n. P i")
  case True
  then obtain i where i: "i < n" "P i" by blast
  define m where "m = (LEAST i. P i)"
  have m: "P m" "m < n" "\<And>j. j < m \<Longrightarrow> \<not> P j"
    using i LeastI [of P i] Least_le [of P i] not_less_Least [of _ P] unfolding m_def by (blast, linarith, blast)
  then have "find P [0..<n] = Some m"
    unfolding find_Some_iff by (intro exI [of _ m]) simp
  then show ?thesis using True by (simp add: m_def)
next
  case False
  then have "find P [0..<n] = None" by (auto simp: find_None_iff)
  then show ?thesis using False by simp
qed

text \<open>
  The frame self-test reports 0 exactly for a frame that was saved from the kernel's mode by the test's own
  instruction with the pattern in all thirteen registers; otherwise it names the first register that differs, the saved mode,
  or that this is not the test.
\<close>

theorem svc_frame_check_exact:
  "svc_frame_check insn fp f =
     (if fp = 0 \<or> insn (f_ret f - 4) AND 0xFFFFFF \<noteq> 0xA5A5 then - 1
      else if \<exists>i<13. f_r f i \<noteq> (0x5A5A0000 XOR of_nat i)
        then int (LEAST i. f_r f i \<noteq> (0x5A5A0000 XOR of_nat i)) + 1
      else if f_spsr f AND 0x1F \<noteq> 0x13 then 14 else 0)"
  by (simp add: svc_frame_check_def frame_regs_check_find find_upt_least arm_svc_immediate_def arm_exc_pc_def
      del: upt_rec_numeral upt_conv_Cons) auto

lemma svc_yield:
  "fp \<noteq> 0 \<Longrightarrow> insn (f_ret (kn_frames (iw_kern w) fp) - 4) AND 0xFFFFFF = 0xA5A6 \<Longrightarrow>
   c_svc_handler insn sp self now fp w =
     (case sched_tick self now fp (iw_kern w) of
        None \<Rightarrow> None
      | Some (fp', k) \<Rightarrow>
          Some (fp', False, (c_handler_sp_check sp w)\<lparr>iw_pc_fix := 4, iw_svc_frame := fp, iw_kern := k\<rparr>))"
  by (cases "sched_tick self now fp (iw_kern w)")
    (auto simp: c_svc_handler_def irq_tick_def arm_svc_immediate_def arm_exc_pc_def c_handler_sp_check_def Let_def)

section \<open>Instances\<close>

definition irq0 :: "unit irq_world" where
  "irq0 = \<lparr>iw_bus = [], iw_masked = True, iw_table = \<lambda>_. \<lparr>ie_handler = 0, ie_arg = 0\<rparr>,
     iw_stats = \<lparr>is_irq_count = 0, is_spurious_count = 0, is_unhandled_count = 0, is_last_intid = 0\<rparr>,
     iw_frame_violations = 0, iw_frame_unaligned8 = 0, iw_sp_bad = 0, iw_pc_fix = 0, iw_svc_frame = 0,
     iw_svc_check = - 1, iw_kern = two_tasks\<lparr>kn_frames := (\<lambda>_. \<lparr>f_r = \<lambda>_. 0, f_svc_lr = 0, f_ret = 0x8004, f_spsr = 0x13\<rparr>)\<rparr>\<rparr>"

lemma irq_dispatch_exact_witness:
  "(\<exists>w'. c_irq_handler (\<lambda>_ _ _ w. w) (0, 0) 0 (Some 0) 1023 0 0x4000 irq0 = Some (0x4000, w') \<and> iw_bus w' = [] \<and>
      iw_stats w' = \<lparr>is_irq_count = 1, is_spurious_count = 1, is_unhandled_count = 0, is_last_intid = 0\<rparr>) \<and>
   (\<exists>w'. c_irq_handler (\<lambda>_ _ _ w. w) (0, 0) 0 (Some 0) 54 0 0x4000 irq0 = Some (0x4000, w') \<and>
      iw_bus w' = [Write32 0xF8F00110 54] \<and>
      iw_stats w' = \<lparr>is_irq_count = 1, is_spurious_count = 0, is_unhandled_count = 1, is_last_intid = 54\<rparr>)"
proof
  have b: "iw_bus irq0 = []" "iw_stats irq0 = \<lparr>is_irq_count = 0, is_spurious_count = 0, is_unhandled_count = 0, is_last_intid = 0\<rparr>"
    "p_cpu_id (kn_percpu (iw_kern irq0) 0) = 0" "ie_handler (iw_table irq0 n) = 0" for n
    by (simp_all add: irq0_def two_tasks_def)
  show "\<exists>w'. c_irq_handler (\<lambda>_ _ _ w. w) (0, 0) 0 (Some 0) 1023 0 0x4000 irq0 = Some (0x4000, w') \<and> iw_bus w' = [] \<and>
      iw_stats w' = \<lparr>is_irq_count = 1, is_spurious_count = 1, is_unhandled_count = 0, is_last_intid = 0\<rparr>"
    using irq_dispatch_exact [of 1023 "\<lambda>_ _ _ w. w" "(0, 0)" 0 "Some 0" 0 "0x4000" irq0] b by auto
  show "\<exists>w'. c_irq_handler (\<lambda>_ _ _ w. w) (0, 0) 0 (Some 0) 54 0 0x4000 irq0 = Some (0x4000, w') \<and>
      iw_bus w' = [Write32 0xF8F00110 54] \<and>
      iw_stats w' = \<lparr>is_irq_count = 1, is_spurious_count = 0, is_unhandled_count = 1, is_last_intid = 54\<rparr>"
    using irq_dispatch_exact [of 54 "\<lambda>_ _ _ w. w" "(0, 0)" 0 "Some 0" 0 "0x4000" irq0] b
    by (auto simp: Let_def)
qed

lemma irq_frame_check_exact_witness:
  "irq_frame_check (0x8000, 0x9000) 0x4000 irq0 = irq0 \<and>
   \<not> irq_frame_bad (0x8000, 0x9000) 0x4000 ((kn_frames (iw_kern irq0) 0x4000)\<lparr>f_ret := 0x8008\<rparr>)"
proof -
  have f: "kn_frames (iw_kern irq0) 0x4000 = \<lparr>f_r = \<lambda>_. 0, f_svc_lr = 0, f_ret = 0x8004, f_spsr = 0x13\<rparr>"
    by (simp add: irq0_def)
  show ?thesis
    using irq_frame_check_exact [of "kn_frames (iw_kern irq0) 0x4000" irq0 "0x4000" False "0x8000" "0x9000"]
    by (simp add: f)
qed

lemma gic_config_refines_witness:
  "line_enabled False (fold gic_do [Enable 29, Enable 34, Priority 34 0x10, Disable 34] (gic_init 2 irq0)) 29 \<and>
   \<not> line_enabled True (fold gic_do [Enable 29, Enable 34, Priority 34 0x10, Disable 34] (gic_init 2 irq0)) 34 \<and>
   gic_byte 0 (fold gic_do [Enable 29, Enable 34, Priority 34 0x10, Disable 34] (gic_init 2 irq0)) (0x400 + 34) = 0x10"
  using gic_config_refines [of 29 False "[Enable 29, Enable 34, Priority 34 0x10, Disable 34]" 2 irq0 0]
    gic_config_refines [of 34 True "[Enable 29, Enable 34, Priority 34 0x10, Disable 34]" 2 irq0 0]
  by simp

end
