(* ===== verification/Bitmap.thy ===== *)
theory Bitmap
  imports Prelude
begin

text \<open>
  Bitmaps, \<open>kernel/memory/bitmap.cpp\<close>: single bits, ranges, and the search for a run of equal bits.  The buffer
  is a function from byte offsets, so that a write past its end is visible.  Indices are natural numbers: a
  bitmap has fewer than \<open>2 ^ 64\<close> bits and no sum in the code exceeds that.  The result \<open>(size_t)-1\<close> is \<open>None\<close>.
\<close>

section \<open>State and operations\<close>

record Bitmap =
  bm_buffer :: "nat \<Rightarrow> u8"
  bm_length :: nat

definition bitmap_init :: "nat \<Rightarrow> Bitmap \<Rightarrow> Bitmap" where
  "bitmap_init sz bm =
     bm\<lparr>bm_length := sz * 8, bm_buffer := fold (\<lambda>i b. b(i := 0)) [0..<sz] (bm_buffer bm)\<rparr>"

definition bitmap_get_at :: "Bitmap \<Rightarrow> nat \<Rightarrow> bool" where
  "bitmap_get_at bm index =
     (if bm_length bm \<le> index then False
      else drop_bit (index mod 8) (bm_buffer bm (index div 8)) AND 1 \<noteq> 0)"

definition bitmap_set_at :: "nat \<Rightarrow> bool \<Rightarrow> Bitmap \<Rightarrow> Bitmap" where
  "bitmap_set_at index v bm =
     (if bm_length bm \<le> index then bm
      else
        let word_index = index div 8; bit_index = index mod 8; b = bm_buffer bm word_index
        in if v then bm\<lparr>bm_buffer := (bm_buffer bm)(word_index := b OR push_bit bit_index 1)\<rparr>
           else bm\<lparr>bm_buffer := (bm_buffer bm)(word_index := b AND NOT (push_bit bit_index 1))\<rparr>)"

definition bitmap_fill :: "nat \<Rightarrow> u8 \<Rightarrow> Bitmap \<Rightarrow> Bitmap" where
  "bitmap_fill i b bm = bm\<lparr>bm_buffer := (bm_buffer bm)(i := b)\<rparr>"

definition bitmap_set_range :: "nat \<Rightarrow> nat \<Rightarrow> bool \<Rightarrow> Bitmap \<Rightarrow> Bitmap" where
  "bitmap_set_range start finish v bm =
     (if finish \<le> start \<or> bm_length bm \<le> start then bm
      else
        let start_word = (start + 7) div 8; end_word = finish div 8;
            bm = fold (\<lambda>i. bitmap_set_at i v) [start..<min (start_word * 8) finish] bm
        in if end_word < start_word then bm
           else
             let bm = fold (\<lambda>i. bitmap_fill i (if v then 0xFF else 0)) [start_word..<end_word] bm
             in fold (\<lambda>i. bitmap_set_at i v) [end_word * 8..<finish] bm)"

text \<open>
  The search.  The loops carry the length of the run that ends here and where it began; \<open>Inl\<close> is a return out
  of them.
\<close>

primrec find_bits :: "nat \<Rightarrow> bool \<Rightarrow> nat \<Rightarrow> u8 \<Rightarrow> nat list \<Rightarrow> nat \<Rightarrow> nat \<Rightarrow> nat + nat \<times> nat" where
  "find_bits len v byte_idx byte [] count start_index = Inr (count, start_index)"
| "find_bits len v byte_idx byte (b # bs) count start_index =
     (let bit_value = (drop_bit b byte AND 1 \<noteq> 0) in
      if bit_value = v then
        let start_index = (if count = 0 then byte_idx * 8 + b else start_index); count = count + 1 in
        if count = len then Inl start_index
        else find_bits len v byte_idx byte bs count start_index
      else find_bits len v byte_idx byte bs 0 start_index)"

primrec find_bytes :: "nat \<Rightarrow> bool \<Rightarrow> (nat \<Rightarrow> u8) \<Rightarrow> nat list \<Rightarrow> nat \<Rightarrow> nat \<Rightarrow> nat option" where
  "find_bytes len v buf [] count start_index = None"
| "find_bytes len v buf (byte_idx # is) count start_index =
     (let byte_match = (if v then 0xFF else 0 :: u8);
          not_match = (if byte_match = 0 then 1 else 0 :: u8);
          byte = buf byte_idx in
      if byte = not_match then find_bytes len v buf is 0 start_index
      else if byte = byte_match then
        if len < 8 then Some (byte_idx * 8)
        else
          let start_index = (if count = 0 then byte_idx * 8 else start_index); count = count + 8 in
          if len \<le> count then Some start_index
          else find_bytes len v buf is count start_index
      else
        (case find_bits len v byte_idx byte [0..<8] count start_index of
           Inl r \<Rightarrow> Some r
         | Inr (count, start_index) \<Rightarrow> find_bytes len v buf is count start_index))"

definition bitmap_find_range :: "Bitmap \<Rightarrow> nat \<Rightarrow> bool \<Rightarrow> nat option" where
  "bitmap_find_range bm len v = find_bytes len v (bm_buffer bm) [0..<bm_length bm div 8] 0 0"

definition bitmap_find_range_from :: "Bitmap \<Rightarrow> nat \<Rightarrow> bool \<Rightarrow> nat \<Rightarrow> nat option" where
  "bitmap_find_range_from bm len v start_from =
     find_bytes len v (bm_buffer bm) [start_from div 8..<bm_length bm div 8] 0 0"

section \<open>Bits and ranges\<close>

definition bm_bit :: "(nat \<Rightarrow> u8) \<Rightarrow> nat \<Rightarrow> bool" where
  "bm_bit buf i \<longleftrightarrow> bit (buf (i div 8)) (i mod 8)"

lemma bit_test: "drop_bit n (b :: u8) AND 1 \<noteq> 0 \<longleftrightarrow> bit b n"
  by (simp add: and_one_eq bit_iff_odd_drop_bit odd_iff_mod_2_eq_one)

lemma bitmap_get_bit: "bitmap_get_at bm i \<longleftrightarrow> i < bm_length bm \<and> bm_bit (bm_buffer bm) i"
  by (auto simp: bitmap_get_at_def bm_bit_def bit_test)

lemma same_bit: "i div 8 = j div 8 \<and> i mod 8 = j mod 8 \<longleftrightarrow> i = (j :: nat)"
  by (metis div_mult_mod_eq)

lemma bm_bit_set:
  "bm_bit (bm_buffer (bitmap_set_at i v bm)) j = (if j = i \<and> i < bm_length bm then v else bm_bit (bm_buffer bm) j)"
proof -
  have "bit (1 :: u8) 0" by simp
  then show ?thesis using same_bit [of i j]
    by (auto simp: bitmap_set_at_def bm_bit_def bit_simps Let_def)
qed

lemma bm_length_set [simp]: "bm_length (bitmap_set_at i v bm) = bm_length bm"
  by (simp add: bitmap_set_at_def Let_def)

lemma bm_bit_fill: "bm_bit (bm_buffer (bitmap_fill k (if v then 0xFF else 0) bm)) j = (if j div 8 = k then v else bm_bit (bm_buffer bm) j)"
proof -
  have m: "(0xFF :: u8) = - 1" by simp
  show ?thesis unfolding m by (simp add: bitmap_fill_def bm_bit_def bit_simps)
qed

lemma bm_length_fill [simp]: "bm_length (bitmap_fill k b bm) = bm_length bm"
  by (simp add: bitmap_fill_def)

lemma fold_set_range:
  "bm_length (fold (\<lambda>i. bitmap_set_at i v) is bm) = bm_length bm \<and>
   bm_bit (bm_buffer (fold (\<lambda>i. bitmap_set_at i v) is bm)) j =
     (if j \<in> set is \<and> j < bm_length bm then v else bm_bit (bm_buffer bm) j)"
  by (induction "is" arbitrary: bm) (auto simp: bm_bit_set)

lemma fold_fill_range:
  "bm_length (fold (\<lambda>i. bitmap_fill i (if v then 0xFF else 0)) is bm) = bm_length bm \<and>
   bm_bit (bm_buffer (fold (\<lambda>i. bitmap_fill i (if v then 0xFF else 0)) is bm)) j =
     (if j div 8 \<in> set is then v else bm_bit (bm_buffer bm) j)"
  by (induction "is" arbitrary: bm) (auto simp: bm_bit_fill)

text \<open>
  Setting a range writes exactly its bits, whatever whole bytes it covers.  The end is not checked: of a range
  that leaves the bitmap the bytes up to the one of its end are filled, past the end of the buffer.
\<close>

lemma bitmap_set_range_bits:
  assumes "start < finish" "start < bm_length bm"
  shows "bm_bit (bm_buffer (bitmap_set_range start finish v bm)) j =
    (if start \<le> j \<and> j < finish \<and> (j < bm_length bm \<or> (start + 7) div 8 \<le> j div 8 \<and> j div 8 < finish div 8)
     then v else bm_bit (bm_buffer bm) j)"
proof (cases "finish div 8 < (start + 7) div 8")
  case True
  then have "finish \<le> (start + 7) div 8 * 8" "\<not> ((start + 7) div 8 \<le> j div 8 \<and> j div 8 < finish div 8)" by linarith+
  then show ?thesis
    using assms True by (auto simp: bitmap_set_range_def Let_def fold_set_range min_def)
next
  case False
  let ?a = "(start + 7) div 8" and ?z = "finish div 8"
  have a: "start \<le> ?a * 8" "?a * 8 \<le> ?z * 8" "?z * 8 \<le> finish" using False by auto
  have f: "?a \<le> j div 8 \<and> j div 8 < ?z \<longleftrightarrow> ?a * 8 \<le> j \<and> j < ?z * 8" by linarith
  show ?thesis
    unfolding f
    using assms False a by (auto simp: bitmap_set_range_def Let_def fold_set_range fold_fill_range f min_def)
qed

section \<open>The search\<close>

definition run_at :: "bool \<Rightarrow> (nat \<Rightarrow> u8) \<Rightarrow> nat \<Rightarrow> nat \<Rightarrow> bool" where
  "run_at v buf a len \<longleftrightarrow> (\<forall>i. a \<le> i \<and> i < a + len \<longrightarrow> bm_bit buf i = v)"

text \<open>
  Before position \<open>pos\<close> the last \<open>count\<close> bits are a run, and it is not longer than that; with \<open>full\<close>, no run of the wanted
  length lies between \<open>p0\<close> and \<open>pos\<close>.
\<close>

definition run_scan_inv :: "bool \<Rightarrow> nat \<Rightarrow> bool \<Rightarrow> (nat \<Rightarrow> u8) \<Rightarrow> nat \<Rightarrow> nat \<Rightarrow> nat \<Rightarrow> nat \<Rightarrow> bool" where
  "run_scan_inv full len v buf p0 pos count start \<longleftrightarrow>
     count < len \<and> p0 + count \<le> pos \<and> run_at v buf (pos - count) count \<and> (0 < count \<longrightarrow> start = pos - count) \<and>
     (full \<longrightarrow> (p0 + count < pos \<longrightarrow> bm_bit buf (pos - count - 1) \<noteq> v) \<and>
               (\<forall>a. p0 \<le> a \<and> a + len \<le> pos \<longrightarrow> \<not> run_at v buf a len))"

lemma scan_match:
  assumes J: "run_scan_inv full len v buf p0 pos c s" and d: "run_at v buf pos d" "c + d < len"
  shows "run_scan_inv full len v buf p0 (pos + d) (c + d) (if c = 0 then pos else s)"
proof -
  have r: "run_at v buf (pos + d - (c + d)) (c + d)"
    unfolding run_at_def
  proof (intro allI impI)
    fix i assume "pos + d - (c + d) \<le> i \<and> i < pos + d - (c + d) + (c + d)"
    then show "bm_bit buf i = v" using J d by (cases "i < pos") (auto simp: run_scan_inv_def run_at_def)
  qed
  have "\<not> run_at v buf a len" if "full" "p0 \<le> a" "a + len \<le> pos + d" for a
  proof (cases "a + len \<le> pos")
    case False
    have "a < pos - c" using that(3) d(2) J by (simp add: run_scan_inv_def)
    then have "bm_bit buf (pos - c - 1) \<noteq> v" "a \<le> pos - c - 1" "pos - c - 1 < a + len"
      using that J False by (auto simp: run_scan_inv_def)
    then show ?thesis unfolding run_at_def by blast
  qed (use that J in \<open>simp add: run_scan_inv_def\<close>)
  then show ?thesis using J d r by (auto simp: run_scan_inv_def)
qed

lemma scan_found:
  assumes J: "run_scan_inv full len v buf p0 pos c s" and d: "run_at v buf pos d" "len \<le> c + d"
  shows "run_at v buf (if c = 0 then pos else s) len \<and> p0 \<le> (if c = 0 then pos else s) \<and>
    (if c = 0 then pos else s) + len \<le> pos + d"
proof -
  have s: "(if c = 0 then pos else s) = pos - c" "c \<le> pos" "p0 \<le> pos - c" using J by (auto simp: run_scan_inv_def)
  have "run_at v buf (pos - c) (c + d)"
    unfolding run_at_def
  proof (intro allI impI)
    fix i assume "pos - c \<le> i \<and> i < pos - c + (c + d)"
    then show "bm_bit buf i = v" using J d s(2) by (cases "i < pos") (auto simp: run_scan_inv_def run_at_def)
  qed
  then show ?thesis using d(2) s by (auto simp: run_at_def)
qed

lemma scan_miss:
  assumes J: "run_scan_inv full len v buf p0 pos c s" and d: "0 < d" "full \<longrightarrow> (\<forall>i. pos \<le> i \<and> i < pos + d \<longrightarrow> bm_bit buf i \<noteq> v)"
  shows "run_scan_inv full len v buf p0 (pos + d) 0 s"
proof -
  have "\<not> run_at v buf a len" if f: "full" "p0 \<le> a" "a + len \<le> pos + d" for a
  proof (cases "a + len \<le> pos")
    case False
    then have "bm_bit buf (max a pos) \<noteq> v" "max a pos < a + len" using f d J by (auto simp: run_scan_inv_def)
    then show ?thesis unfolding run_at_def using max.cobounded1 by blast
  qed (use f J in \<open>simp add: run_scan_inv_def\<close>)
  then show ?thesis using J d by (auto simp: run_scan_inv_def run_at_def)
qed

lemma bm_bit_byte: "b < 8 \<Longrightarrow> bm_bit buf (k * 8 + b) = bit (buf k) b"
  by (simp add: bm_bit_def)

lemma find_bits_spec:
  assumes "run_scan_inv full len v buf p0 (k * 8 + b) c s" and "b \<le> 8"
  shows "case find_bits len v k (buf k) [b..<8] c s of
           Inl r \<Rightarrow> run_at v buf r len \<and> p0 \<le> r \<and> r + len \<le> k * 8 + 8
         | Inr (c', s') \<Rightarrow> run_scan_inv full len v buf p0 (k * 8 + 8) c' s'"
  using assms
proof (induction "8 - b" arbitrary: b c s)
  case 0
  then show ?case by simp
next
  case (Suc n)
  then have b: "b < 8" "n = 8 - Suc b" and bs: "[b..<8] = b # [Suc b..<8]" by (auto simp: upt_conv_Cons)
  have bit: "drop_bit b (buf k) AND 1 \<noteq> 0 \<longleftrightarrow> bm_bit buf (k * 8 + b)" using b by (simp add: bit_test bm_bit_byte)
  have one: "run_at v buf (k * 8 + b) 1 \<longleftrightarrow> bm_bit buf (k * 8 + b) = v" by (auto simp: run_at_def le_less_Suc_eq)
  show ?case
  proof (cases "bm_bit buf (k * 8 + b) = v")
    case True
    show ?thesis
    proof (cases "c + 1 = len")
      case True
      then show ?thesis
        using scan_found [OF Suc.prems(1), of 1] \<open>bm_bit buf (k * 8 + b) = v\<close> one b unfolding bs find_bits.simps bit Let_def by simp
    next
      case False
      have "run_scan_inv full len v buf p0 (k * 8 + Suc b) (c + 1) (if c = 0 then k * 8 + b else s)"
        using scan_match [OF Suc.prems(1), of 1] False True one Suc.prems(1) by (simp add: run_scan_inv_def)
      from Suc.hyps(1) [OF b(2) this] show ?thesis
        using False True b unfolding bs find_bits.simps bit Let_def by simp
    qed
  next
    case False
    then have "\<forall>i. k * 8 + b \<le> i \<and> i < k * 8 + b + 1 \<longrightarrow> bm_bit buf i \<noteq> v" by (metis add.right_neutral add_Suc_right One_nat_def le_antisym less_Suc_eq_le)
    then have "run_scan_inv full len v buf p0 (k * 8 + Suc b) 0 s"
      using scan_miss [OF Suc.prems(1), of 1] by simp
    from Suc.hyps(1) [OF b(2) this] show ?thesis
      using False b unfolding bs find_bits.simps bit Let_def by simp
  qed
qed

definition searchable :: "bool \<Rightarrow> (nat \<Rightarrow> u8) \<Rightarrow> nat \<Rightarrow> nat \<Rightarrow> bool" where
  "searchable v buf k m \<longleftrightarrow> v \<or> (\<forall>j. k \<le> j \<and> j < m \<longrightarrow> buf j \<noteq> 1)"

lemma byte_run: "buf k = (if v then 0xFF else 0) \<Longrightarrow> run_at v buf (k * 8) 8"
proof -
  assume b: "buf k = (if v then 0xFF else 0)"
  have m: "(0xFF :: u8) = - 1" by simp
  show ?thesis unfolding run_at_def
  proof (intro allI impI)
    fix i assume "k * 8 \<le> i \<and> i < k * 8 + 8"
    then have "i div 8 = k" by auto
    then show "bm_bit buf i = v" using b unfolding m by (simp add: bm_bit_def bit_simps)
  qed
qed

lemma find_bytes_spec:
  assumes "run_scan_inv full len v buf p0 (k * 8) c s" and "k \<le> m" and "full \<longrightarrow> searchable v buf k m"
  shows "case find_bytes len v buf [k..<m] c s of
           Some r \<Rightarrow> run_at v buf r len \<and> p0 \<le> r \<and> r + len \<le> m * 8
         | None \<Rightarrow> full \<longrightarrow> (\<forall>a. p0 \<le> a \<and> a + len \<le> m * 8 \<longrightarrow> \<not> run_at v buf a len)"
  using assms
proof (induction "m - k" arbitrary: k c s)
  case 0
  then show ?case by (simp add: run_scan_inv_def)
next
  case (Suc n)
  then have k: "k < m" "n = m - Suc k" and ks: "[k..<m] = k # [Suc k..<m]" by (auto simp: upt_conv_Cons)
  have srch: "full \<longrightarrow> searchable v buf (Suc k) m" using Suc.prems(3) by (auto simp: searchable_def)
  have le: "k * 8 + 8 \<le> m * 8" using k by simp
  note IH = Suc.hyps(1) [OF k(2) _ _ srch]
  consider (skip) "buf k = (if v then 0 else 1)" | (whole) "buf k = (if v then 0xFF else 0)"
    | (mixed) "buf k \<noteq> (if v then 0 else 1)" "buf k \<noteq> (if v then 0xFF else 0)" by blast
  then show ?case
  proof cases
    case skip
    then have "full \<longrightarrow> v" using Suc.prems(3) k by (auto simp: searchable_def split: if_splits)
    then have "full \<longrightarrow> (\<forall>i. k * 8 \<le> i \<and> i < k * 8 + 8 \<longrightarrow> bm_bit buf i \<noteq> v)"
      using byte_run [of buf k "\<not> v"] skip by (auto simp: run_at_def)
    then have "run_scan_inv full len v buf p0 (Suc k * 8) 0 s" using scan_miss [OF Suc.prems(1), of 8] by (simp add: add.commute)
    from IH [OF this] show ?thesis using skip k by (simp add: ks Let_def split: if_splits)
  next
    case whole
    then have r: "run_at v buf (k * 8) 8" by (rule byte_run)
    have ne: "buf k \<noteq> (if v then 0 else 1)" using whole by simp
    show ?thesis
    proof (cases "len \<le> c + 8")
      case True
      have "p0 \<le> k * 8" using Suc.prems(1) by (simp add: run_scan_inv_def)
      then show ?thesis
        using scan_found [OF Suc.prems(1) r True] r ne whole True le by (auto simp: ks Let_def run_at_def split: if_splits)
    next
      case False
      then have "run_scan_inv full len v buf p0 (Suc k * 8) (c + 8) (if c = 0 then k * 8 else s)"
        using scan_match [OF Suc.prems(1) r] by (simp add: add.commute)
      from IH [OF this] show ?thesis using ne whole False k by (auto simp: ks Let_def split: if_splits)
    qed
  next
    case mixed
    have b: "run_scan_inv full len v buf p0 (k * 8 + 0) c s" using Suc.prems(1) by simp
    show ?thesis
    proof (cases "find_bits len v k (buf k) [0..<8] c s")
      case (Inl r)
      then show ?thesis using find_bits_spec [OF b] mixed le by (auto simp: ks Let_def split: if_splits)
    next
      case (Inr cs)
      obtain c' s' where cs: "cs = (c', s')" by (metis prod.exhaust)
      have "run_scan_inv full len v buf p0 (Suc k * 8) c' s'" using find_bits_spec [OF b] Inr cs by (simp add: add.commute)
      from IH [OF this] show ?thesis using mixed k Inr cs by (auto simp: ks Let_def split: if_splits)
    qed
  qed
qed

lemma scan_start: "0 < len \<Longrightarrow> run_scan_inv full len v buf (k * 8) (k * 8) 0 0"
  by (auto simp: run_scan_inv_def run_at_def)

lemma bitmap_set_range_exact_parts:
  assumes "finish \<le> bm_length bm"
  shows "bitmap_get_at (bitmap_set_range start finish v bm) j =
      (if start \<le> j \<and> j < finish then v else bitmap_get_at bm j)"
    and "bitmap_get_at (bitmap_set_range start finish v bm) j =
      bitmap_get_at (fold (\<lambda>i. bitmap_set_at i v) [start..<finish] bm) j"
proof -
  have l: "bm_length (bitmap_set_range start finish v bm) = bm_length bm"
    by (simp add: bitmap_set_range_def Let_def fold_set_range fold_fill_range)
  show g: "bitmap_get_at (bitmap_set_range start finish v bm) j =
      (if start \<le> j \<and> j < finish then v else bitmap_get_at bm j)"
  proof (cases "start < finish")
    case True
    then have "start < bm_length bm" using assms by simp
    then show ?thesis using True assms by (auto simp: bitmap_get_bit l bitmap_set_range_bits)
  next
    case False
    then show ?thesis by (auto simp: bitmap_set_range_def)
  qed
  show "bitmap_get_at (bitmap_set_range start finish v bm) j =
      bitmap_get_at (fold (\<lambda>i. bitmap_set_at i v) [start..<finish] bm) j"
    unfolding g using assms by (auto simp: bitmap_get_bit fold_set_range)
qed

text \<open>
  C35. Setting a range.  A range inside the bitmap changes exactly its bits, however it lies across the bytes: the
  byte-wise fill is the loop over the single bits.
\<close>

theorem bitmap_set_range_exact:
  assumes "finish \<le> bm_length bm"
  shows "bitmap_get_at (bitmap_set_range start finish v bm) j =
      (if start \<le> j \<and> j < finish then v else bitmap_get_at bm j) \<and>
    bitmap_get_at (bitmap_set_range start finish v bm) j =
      bitmap_get_at (fold (\<lambda>i. bitmap_set_at i v) [start..<finish] bm) j"
  using bitmap_set_range_exact_parts [OF assms] by blast

lemma bitmap_find_range_correct_parts:
  assumes "0 < len" and "bm_length bm mod 8 = 0"
  shows "bitmap_find_range_from bm len v from_bit = Some r \<Longrightarrow>
      from_bit div 8 * 8 \<le> r \<and> r + len \<le> bm_length bm \<and> (\<forall>i<len. bitmap_get_at bm (r + i) = v)"
    and "bitmap_find_range_from bm len v from_bit = None \<Longrightarrow> v \<or> (\<forall>j < bm_length bm div 8. bm_buffer bm j \<noteq> 1) \<Longrightarrow>
      from_bit div 8 * 8 \<le> a \<Longrightarrow> a + len \<le> bm_length bm \<Longrightarrow> \<exists>i<len. bitmap_get_at bm (a + i) \<noteq> v"
    and "bitmap_find_range bm len v = bitmap_find_range_from bm len v 0"
proof -
  let ?k = "from_bit div 8" and ?m = "bm_length bm div 8"
  have m: "?m * 8 = bm_length bm" using assms(2) by auto
  show "bitmap_find_range bm len v = bitmap_find_range_from bm len v 0"
    by (simp add: bitmap_find_range_def bitmap_find_range_from_def)
  have S: "?k \<le> ?m \<Longrightarrow> (full \<longrightarrow> searchable v (bm_buffer bm) ?k ?m) \<Longrightarrow>
      (case bitmap_find_range_from bm len v from_bit of
         Some r \<Rightarrow> run_at v (bm_buffer bm) r len \<and> ?k * 8 \<le> r \<and> r + len \<le> ?m * 8
       | None \<Rightarrow> full \<longrightarrow> (\<forall>a. ?k * 8 \<le> a \<and> a + len \<le> ?m * 8 \<longrightarrow> \<not> run_at v (bm_buffer bm) a len))" for full
    unfolding bitmap_find_range_from_def by (rule find_bytes_spec [OF scan_start [OF assms(1)]])
  have far: "bitmap_find_range_from bm len v from_bit = None" if "\<not> ?k \<le> ?m"
    using that by (simp add: bitmap_find_range_from_def)
  show "?k * 8 \<le> r \<and> r + len \<le> bm_length bm \<and> (\<forall>i<len. bitmap_get_at bm (r + i) = v)"
    if "bitmap_find_range_from bm len v from_bit = Some r"
    using S [of False] that far m by (cases "?k \<le> ?m") (auto simp: bitmap_get_bit run_at_def)
  show "\<exists>i<len. bitmap_get_at bm (a + i) \<noteq> v"
    if h: "bitmap_find_range_from bm len v from_bit = None" "v \<or> (\<forall>j < ?m. bm_buffer bm j \<noteq> 1)"
      "?k * 8 \<le> a" "a + len \<le> bm_length bm"
  proof -
    have "?k \<le> ?m" "searchable v (bm_buffer bm) ?k ?m" using h m assms(1) by (auto simp: searchable_def)
    then have "\<not> run_at v (bm_buffer bm) a len" using S [of True] h m by simp
    then obtain i where "a \<le> i" "i < a + len" "bm_bit (bm_buffer bm) i \<noteq> v" by (auto simp: run_at_def)
    then show ?thesis using h(4) by (intro exI [of _ "i - a"]) (auto simp: bitmap_get_bit)
  qed
qed

text \<open>
  C36. The search for a run.  A result is the beginning of a run of the wanted bits that lies after the
  starting byte and inside the bitmap.  Without a result there is no such run, provided set bits are searched or
  no byte holds the number 1.
\<close>

theorem bitmap_find_range_correct:
  assumes "0 < len" and "bm_length bm mod 8 = 0"
  shows "(case bitmap_find_range_from bm len v from_bit of
       Some r \<Rightarrow> from_bit div 8 * 8 \<le> r \<and> r + len \<le> bm_length bm \<and> (\<forall>i<len. bitmap_get_at bm (r + i) = v)
     | None \<Rightarrow> v \<or> (\<forall>j < bm_length bm div 8. bm_buffer bm j \<noteq> 1) \<longrightarrow>
         (\<forall>a. from_bit div 8 * 8 \<le> a \<and> a + len \<le> bm_length bm \<longrightarrow> (\<exists>i<len. bitmap_get_at bm (a + i) \<noteq> v))) \<and>
    bitmap_find_range bm len v = bitmap_find_range_from bm len v 0"
proof (intro conjI)
  show "case bitmap_find_range_from bm len v from_bit of
       Some r \<Rightarrow> from_bit div 8 * 8 \<le> r \<and> r + len \<le> bm_length bm \<and> (\<forall>i<len. bitmap_get_at bm (r + i) = v)
     | None \<Rightarrow> v \<or> (\<forall>j < bm_length bm div 8. bm_buffer bm j \<noteq> 1) \<longrightarrow>
         (\<forall>a. from_bit div 8 * 8 \<le> a \<and> a + len \<le> bm_length bm \<longrightarrow> (\<exists>i<len. bitmap_get_at bm (a + i) \<noteq> v))"
    using bitmap_find_range_correct_parts(1,2) [OF assms, of v from_bit] by (simp split: option.split)
qed (rule bitmap_find_range_correct_parts(3) [OF assms])

text \<open>
  A byte that holds the number 1 hides its seven clear bits from the search for clear bits: in a bitmap of
  such bytes no clear run is ever found, not even a single clear bit.
\<close>

theorem bitmap_find_clear_missed:
  assumes "\<forall>j < bm_length bm div 8. bm_buffer bm j = 1"
  shows "bitmap_find_range bm len False = None"
    and "k < bm_length bm \<Longrightarrow> k mod 8 \<noteq> 0 \<Longrightarrow> bm_length bm mod 8 = 0 \<Longrightarrow> \<not> bitmap_get_at bm k"
proof -
  have "\<forall>j\<in>set is. buf j = 1 \<Longrightarrow> find_bytes len False buf is c s = None" for "is" buf c s
    by (induction "is" arbitrary: c s) (simp_all add: Let_def)
  then show "bitmap_find_range bm len False = None" using assms by (simp add: bitmap_find_range_def)
  show "\<not> bitmap_get_at bm k" if "k < bm_length bm" "k mod 8 \<noteq> 0" "bm_length bm mod 8 = 0"
  proof -
    have "bm_length bm div 8 * 8 = bm_length bm" using that(3) by auto
    then have "k div 8 < bm_length bm div 8" using that(1) by (simp add: div_less_iff_less_mult)
    then show ?thesis using assms that by (simp add: bitmap_get_bit bm_bit_def bit_1_iff)
  qed
qed

text \<open>The end of a range is not checked against the length: the whole bytes up to it are written.\<close>

lemma bitmap_set_range_overruns:
  assumes "start < bm_length bm" "bm_length bm mod 8 = 0" "bm_length bm div 8 \<le> k" "k < finish div 8"
  shows "bm_buffer (bitmap_set_range start finish True bm) k = 0xFF"
proof (rule bit_word_eqI)
  fix n assume n: "n < LENGTH(8)"
  have f: "start < finish" "(start + 7) div 8 \<le> k" "start \<le> k * 8 + n" "k * 8 + n < finish"
    using assms n by auto
  have "bm_bit (bm_buffer (bitmap_set_range start finish True bm)) (k * 8 + n)"
    using assms f n by (simp add: bitmap_set_range_bits)
  moreover have m: "(0xFF :: u8) = - 1" by simp
  ultimately show "bit (bm_buffer (bitmap_set_range start finish True bm) k) n = bit (0xFF :: u8) n"
    unfolding m using n by (simp add: bm_bit_byte bit_simps)
qed

section \<open>Instances\<close>

definition bm2 :: Bitmap where
  "bm2 = \<lparr>bm_buffer = (\<lambda>i. if i = 0 then 0xF0 else if i = 1 then 0x0F else 0), bm_length = 16\<rparr>"

lemma bitmap_set_range_exact_witness:
  "bitmap_get_at (bitmap_set_range 2 13 True bm2) 12 \<and> \<not> bitmap_get_at (bitmap_set_range 2 13 True bm2) 13"
  using bitmap_set_range_exact [of 13 bm2 2 True 12, THEN conjunct1] bitmap_set_range_exact [of 13 bm2 2 True 13, THEN conjunct1]
  by (simp add: bm2_def bitmap_get_at_def)

lemma bitmap_find_range_correct_witness:
  "bitmap_find_range bm2 8 True = Some 4 \<and> bitmap_get_at bm2 (4 + 7) \<and> (\<exists>i<9. \<not> bitmap_get_at bm2 (2 + i))"
proof -
  have 8: "bitmap_find_range_from bm2 8 True 0 = Some 4"
    by (simp add: bitmap_find_range_from_def bm2_def upt_conv_Cons Let_def)
  have 9: "bitmap_find_range_from bm2 9 True 0 = None"
    by (simp add: bitmap_find_range_from_def bm2_def upt_conv_Cons Let_def)
  have l: "bm_length bm2 mod 8 = 0" "bm_length bm2 = 16" by (simp_all add: bm2_def)
  have r8: "(\<forall>i<8. bitmap_get_at bm2 (4 + i)) \<and> bitmap_find_range bm2 8 True = Some 4"
    using bitmap_find_range_correct [of 8 bm2 True 0] 8 l by simp
  have f: "\<forall>a. a + 9 \<le> 16 \<longrightarrow> (\<exists>i<9. \<not> bitmap_get_at bm2 (a + i))"
    using bitmap_find_range_correct [of 9 bm2 True 0] 9 l by simp
  show ?thesis
    using r8 spec [OF f, of 2] spec [of "\<lambda>i. i < 8 \<longrightarrow> bitmap_get_at bm2 (4 + i)" 7] by simp
qed

lemma bitmap_find_clear_missed_witness:
  "bitmap_find_range \<lparr>bm_buffer = \<lambda>_. 1, bm_length = 8\<rparr> 1 False = None \<and> \<not> bitmap_get_at \<lparr>bm_buffer = \<lambda>_. 1, bm_length = 8\<rparr> 3"
  using bitmap_find_clear_missed [of "\<lparr>bm_buffer = \<lambda>_. 1, bm_length = 8\<rparr>"] by simp

end
