(* ===== verification/AtomQueue.thy ===== *)
theory AtomQueue
  imports Prelude
begin

text \<open>
  The byte rings \<open>kernel/atom_queue.cpp\<close>.  \<open>atom_queue\<close> has one producer and one consumer that run
  concurrently: its operations are also split into steps of one memory access each, which are interleaved.
  \<open>atom_queue_mpmc\<close> is meant for several of both.  A ring whose buffer is null has no buffer; the null ring is left
  to the callers.
\<close>

section \<open>State and operations\<close>

record atom_queue =
  aq_buf :: "(u64 \<Rightarrow> u8) option"
  aq_mask :: u64
  aq_head :: u64
  aq_tail :: u64
  aq_size :: u64

definition put_byte :: "u64 \<Rightarrow> u8 \<Rightarrow> atom_queue \<Rightarrow> atom_queue" where
  "put_byte i d q = q\<lparr>aq_buf := map_option (\<lambda>b. b(i := d)) (aq_buf q)\<rparr>"

definition get_byte :: "atom_queue \<Rightarrow> u64 \<Rightarrow> u8" where
  "get_byte q i = (case aq_buf q of None \<Rightarrow> 0 | Some b \<Rightarrow> b i)"

definition init_atom_queue :: "(u64 \<Rightarrow> u8) option \<Rightarrow> u64 \<Rightarrow> atom_queue \<Rightarrow> bool \<times> atom_queue" where
  "init_atom_queue buffer sz q =
     (if buffer = None \<or> sz = 0 \<or> sz AND (sz - 1) \<noteq> 0 then (False, q)
      else (True, \<lparr>aq_buf = buffer, aq_mask = sz - 1, aq_head = 0, aq_tail = 0, aq_size = 0\<rparr>))"

text \<open>The two \<open>malloc\<close> results are arguments; \<open>None\<close> is the null result.\<close>

definition create_atom_queue :: "bool \<Rightarrow> (u64 \<Rightarrow> u8) option \<Rightarrow> u64 \<Rightarrow> atom_queue \<Rightarrow> atom_queue option" where
  "create_atom_queue mem buffer sz fresh =
     (if sz = 0 \<or> sz AND (sz - 1) \<noteq> 0 then None
      else if \<not> mem then None
      else if buffer = None then None
      else Some (snd (init_atom_queue buffer sz fresh)))"

definition atom_push :: "u8 \<Rightarrow> atom_queue \<Rightarrow> bool \<times> atom_queue" where
  "atom_push d q =
     (if aq_buf q = None then (False, q)
      else
        let head = aq_head q; nxt = (head + 1) AND aq_mask q in
        if nxt = aq_tail q then (False, q)
        else
          let q = put_byte head d q; q = q\<lparr>aq_head := nxt\<rparr>
          in (True, q\<lparr>aq_size := aq_size q + 1\<rparr>))"

definition atom_pop :: "atom_queue \<Rightarrow> int \<times> atom_queue" where
  "atom_pop q =
     (if aq_buf q = None then (- 1, q)
      else
        let tail = aq_tail q in
        if tail = aq_head q then (- 1, q)
        else
          let d = get_byte q tail; q = q\<lparr>aq_tail := (tail + 1) AND aq_mask q\<rparr>; q = q\<lparr>aq_size := aq_size q - 1\<rparr>
          in (uint d, q))"

text \<open>
  One memory access at a time.  The program counters of the two sides carry the local variables; the first component of
  a step is the result when the operation returns with it.
\<close>

datatype producer = PIdle | PHead u8 u64 | PRoom u8 u64 u64 | PWritten u8 u64 | PStored | PCount u64

datatype consumer = CIdle | CTail u64 | CSome u64 | CRead u64 u8 | CStored u8 | CCount u8 u64

fun push_step :: "u8 \<Rightarrow> atom_queue \<Rightarrow> producer \<Rightarrow> bool option \<times> producer \<times> atom_queue" where
  "push_step d q PIdle = (if aq_buf q = None then (Some False, PIdle, q) else (None, PHead d (aq_head q), q))"
| "push_step _ q (PHead d head) =
     (let nxt = (head + 1) AND aq_mask q in
      if nxt = aq_tail q then (Some False, PIdle, q) else (None, PRoom d head nxt, q))"
| "push_step _ q (PRoom d head nxt) = (None, PWritten d nxt, put_byte head d q)"
| "push_step _ q (PWritten d nxt) = (None, PStored, q\<lparr>aq_head := nxt\<rparr>)"
| "push_step _ q PStored = (None, PCount (aq_size q), q)"
| "push_step _ q (PCount n) = (Some True, PIdle, q\<lparr>aq_size := n + 1\<rparr>)"

fun pop_step :: "atom_queue \<Rightarrow> consumer \<Rightarrow> int option \<times> consumer \<times> atom_queue" where
  "pop_step q CIdle = (if aq_buf q = None then (Some (- 1), CIdle, q) else (None, CTail (aq_tail q), q))"
| "pop_step q (CTail tail) = (if tail = aq_head q then (Some (- 1), CIdle, q) else (None, CSome tail, q))"
| "pop_step q (CSome tail) = (None, CRead tail (get_byte q tail), q)"
| "pop_step q (CRead tail d) = (None, CStored d, q\<lparr>aq_tail := (tail + 1) AND aq_mask q\<rparr>)"
| "pop_step q (CStored d) = (None, CCount d (aq_size q), q)"
| "pop_step q (CCount d n) = (Some (uint d), CIdle, q\<lparr>aq_size := n - 1\<rparr>)"

text \<open>
  The ring for several producers and consumers.  \<open>cas\<close> exchanges as it should, but the variable it returns is 0
  from its initialisation on: the instruction reports its outcome in the flags, which nothing reads.
\<close>

definition cas :: "u64 \<Rightarrow> u64 \<Rightarrow> u64 \<Rightarrow> bool \<times> u64" where
  "cas m expected upd = (False, if m = expected then upd else m)"

definition create_atom_queue_mpmc :: "bool \<Rightarrow> (u64 \<Rightarrow> u8) option \<Rightarrow> u64 \<Rightarrow> atom_queue option" where
  "create_atom_queue_mpmc mem buffer sz =
     (if sz = 0 \<or> sz AND (sz - 1) \<noteq> 0 then None
      else if \<not> mem then None
      else if buffer = None then None
      else Some \<lparr>aq_buf = buffer, aq_mask = sz - 1, aq_head = 0, aq_tail = 0, aq_size = sz\<rparr>)"

partial_function (option) atom_push_mpmc :: "u8 \<Rightarrow> atom_queue \<Rightarrow> (bool \<times> atom_queue) option" where
  "atom_push_mpmc d q =
     (let head = aq_head q; tail = aq_tail q; nxt = (head + 1) AND aq_mask q in
      if nxt = tail then Some (False, q)
      else
        let (ok, h) = cas (aq_head q) head nxt; q = q\<lparr>aq_head := h\<rparr> in
        if ok then Some (True, (put_byte head d q)\<lparr>aq_size := aq_size q + 1\<rparr>)
        else atom_push_mpmc d q)"

partial_function (option) atom_pop_mpmc :: "atom_queue \<Rightarrow> (int \<times> atom_queue) option" where
  "atom_pop_mpmc q =
     (let tail = aq_tail q; head = aq_head q in
      if tail = head then Some (- 1, q)
      else
        let nxt = (tail + 1) AND aq_mask q; (ok, t) = cas (aq_tail q) tail nxt; q = q\<lparr>aq_tail := t\<rparr> in
        if ok then Some (uint (get_byte q tail), q\<lparr>aq_size := aq_size q - 1\<rparr>)
        else atom_pop_mpmc q)"

section \<open>Interleaved runs\<close>

text \<open>
  \<open>ring_run W R q p c\<close>: a ring of \<open>2 ^ k\<close> bytes has come to the state \<open>q\<close> with its two sides at \<open>p\<close> and \<open>c\<close>, after the
  producer moved the head past the bytes \<open>W\<close> and the consumer moved the tail past the bytes it read, \<open>R\<close>.  These are
  moments inside the operations, for the invariant; the history of calls and results is \<open>ring_hist\<close> below.
\<close>

inductive ring_run :: "nat \<Rightarrow> u8 list \<Rightarrow> u8 list \<Rightarrow> atom_queue \<Rightarrow> producer \<Rightarrow> consumer \<Rightarrow> bool" for k where
  init: "init_atom_queue buffer (2 ^ k) q0 = (True, q) \<Longrightarrow> k < 64 \<Longrightarrow> ring_run k [] [] q PIdle CIdle"
| push: "ring_run k W R q p c \<Longrightarrow> push_step d q p = (r, p', q') \<Longrightarrow>
    ring_run k (W @ (case p of PWritten x _ \<Rightarrow> [x] | _ \<Rightarrow> [])) R q' p' c"
| pop: "ring_run k W R q p c \<Longrightarrow> pop_step q c = (r, c', q') \<Longrightarrow>
    ring_run k W (R @ (case c of CRead _ x \<Rightarrow> [x] | _ \<Rightarrow> [])) q' p c'"

definition slot :: "nat \<Rightarrow> nat \<Rightarrow> u64" where
  "slot k n = of_nat (n mod 2 ^ k)"

lemma slot_next: "k < 64 \<Longrightarrow> (slot k n + 1) AND (2 ^ k - 1) = slot k (Suc n)"
proof -
  have "(slot k n + 1) AND (2 ^ k - 1) = take_bit k (of_nat (Suc (n mod 2 ^ k)) :: u64)"
    by (simp add: slot_def take_bit_eq_mask mask_eq_exp_minus_1 add.commute)
  also have "\<dots> = of_nat (Suc (n mod 2 ^ k) mod 2 ^ k)" by (subst take_bit_of_nat) (simp only: take_bit_eq_mod)
  also have "\<dots> = slot k (Suc n)" by (simp only: slot_def mod_Suc_eq)
  finally show ?thesis .
qed

lemma slot_eq: "k < 64 \<Longrightarrow> slot k m = slot k n \<longleftrightarrow> m mod 2 ^ k = n mod 2 ^ k"
proof -
  assume "k < 64"
  then have "(2 :: nat) ^ k < 2 ^ 64" by (intro power_strict_increasing) simp_all
  then have u: "unat (slot k i) = i mod 2 ^ k" for i
  proof -
    have "i mod 2 ^ k < 2 ^ 64" using \<open>2 ^ k < 2 ^ 64\<close> mod_less_divisor [of "2 ^ k" i] by (meson less_trans zero_less_numeral zero_less_power)
    then show ?thesis unfolding slot_def unat_of_nat by (intro mod_less) simp
  qed
  show ?thesis unfolding word_eq_unat u ..
qed

definition producer_ok :: "nat \<Rightarrow> nat \<Rightarrow> nat \<Rightarrow> atom_queue \<Rightarrow> producer \<Rightarrow> bool" where
  "producer_ok k w r q p \<longleftrightarrow>
     (case p of
        PHead d h \<Rightarrow> h = slot k w
      | PRoom d h n \<Rightarrow> h = slot k w \<and> n = slot k (Suc w) \<and> Suc w < r + 2 ^ k
      | PWritten d n \<Rightarrow> n = slot k (Suc w) \<and> Suc w < r + 2 ^ k \<and> get_byte q (slot k w) = d
      | _ \<Rightarrow> True)"

definition consumer_ok :: "nat \<Rightarrow> u8 list \<Rightarrow> nat \<Rightarrow> consumer \<Rightarrow> bool" where
  "consumer_ok k W r c \<longleftrightarrow>
     (case c of
        CTail t \<Rightarrow> t = slot k r
      | CSome t \<Rightarrow> t = slot k r \<and> r < length W
      | CRead t d \<Rightarrow> t = slot k r \<and> r < length W \<and> d = W ! r
      | _ \<Rightarrow> True)"

definition ring_inv :: "nat \<Rightarrow> u8 list \<Rightarrow> u8 list \<Rightarrow> atom_queue \<Rightarrow> producer \<Rightarrow> consumer \<Rightarrow> bool" where
  "ring_inv k W R q p c \<longleftrightarrow>
     k < 64 \<and> aq_buf q \<noteq> None \<and> aq_mask q = 2 ^ k - 1 \<and>
     aq_head q = slot k (length W) \<and> aq_tail q = slot k (length R) \<and>
     length R \<le> length W \<and> length W < length R + 2 ^ k \<and> R = take (length R) W \<and>
     (\<forall>i. length R \<le> i \<and> i < length W \<longrightarrow> get_byte q (slot k i) = W ! i) \<and>
     producer_ok k (length W) (length R) q p \<and> consumer_ok k W (length R) c"

lemma consumer_ok_append: "consumer_ok k W r c \<Longrightarrow> consumer_ok k (W @ xs) r c"
  by (cases c) (auto simp: consumer_ok_def nth_append)

lemma producer_ok_later: "producer_ok k w r q p \<Longrightarrow> r \<le> r' \<Longrightarrow> (\<And>i. get_byte q' i = get_byte q i) \<Longrightarrow> producer_ok k w r' q' p"
  by (cases p) (auto simp: producer_ok_def)

lemma get_byte_fields [simp]:
  "get_byte (q\<lparr>aq_head := h\<rparr>) i = get_byte q i" "get_byte (q\<lparr>aq_tail := h\<rparr>) i = get_byte q i"
  "get_byte (q\<lparr>aq_size := h\<rparr>) i = get_byte q i"
  by (simp_all add: get_byte_def)

lemma byte_put: "aq_buf q \<noteq> None \<Longrightarrow> get_byte (put_byte i d q) j = (if j = i then d else get_byte q j)"
  by (auto simp: get_byte_def put_byte_def)

lemma put_fields [simp]:
  "aq_head (put_byte i d q) = aq_head q" "aq_tail (put_byte i d q) = aq_tail q" "aq_mask (put_byte i d q) = aq_mask q"
  "aq_size (put_byte i d q) = aq_size q" "aq_buf (put_byte i d q) = None \<longleftrightarrow> aq_buf q = None"
  by (simp_all add: put_byte_def)

lemma mod_window: "(a :: nat) \<le> b \<Longrightarrow> b < a + n \<Longrightarrow> a mod n = b mod n \<longleftrightarrow> a = b"
  by (metis add_diff_inverse_nat add_less_cancel_left dvd_imp_le less_imp_diff_less linorder_not_le mod_eq_dvd_iff_nat
      nat_neq_iff zero_less_diff)

lemma slot_window: "k < 64 \<Longrightarrow> a \<le> b \<Longrightarrow> b < a + 2 ^ k \<Longrightarrow> slot k a = slot k b \<longleftrightarrow> a = b"
  by (simp add: slot_eq mod_window)

lemma ring_push_inv:
  assumes I: "ring_inv k W R q p c" and s: "push_step d q p = (r, p', q')"
  shows "ring_inv k (W @ (case p of PWritten x _ \<Rightarrow> [x] | _ \<Rightarrow> [])) R q' p' c"
    and "r = Some False \<Longrightarrow> length W + 1 = length R + 2 ^ k"
proof -
  have b: "k < 64" "aq_buf q \<noteq> None" "aq_mask q = 2 ^ k - 1" "aq_head q = slot k (length W)"
      "aq_tail q = slot k (length R)" "length R \<le> length W" "length W < length R + 2 ^ k"
      "\<forall>i. length R \<le> i \<and> i < length W \<longrightarrow> get_byte q (slot k i) = W ! i"
    using I by (auto simp: ring_inv_def)
  have full: "slot k (Suc (length W)) = slot k (length R) \<longleftrightarrow> Suc (length W) = length R + 2 ^ k"
  proof (cases "Suc (length W) = length R + 2 ^ k")
    case True
    then show ?thesis using b(1) by (simp add: slot_eq)
  next
    case False
    then show ?thesis using slot_window [OF b(1), of "length R" "Suc (length W)"] b(6,7) by auto
  qed
  have P: "producer_ok k (length W) (length R) q p" and C: "consumer_ok k W (length R) c"
    using I by (simp_all add: ring_inv_def)
  have "ring_inv k (W @ (case p of PWritten x _ \<Rightarrow> [x] | _ \<Rightarrow> [])) R q' p' c \<and>
      (r = Some False \<longrightarrow> length W + 1 = length R + 2 ^ k)"
  proof (cases p)
    case PIdle
    then show ?thesis using I s b(2,4) by (simp add: ring_inv_def producer_ok_def del: not_None_eq) auto
  next
    case (PHead x h)
    have h: "(h + 1) AND aq_mask q = slot k (Suc (length W))"
      using P PHead slot_next [OF b(1)] b(3) by (simp add: producer_ok_def)
    show ?thesis
    proof (cases "slot k (Suc (length W)) = aq_tail q")
      case True
      then show ?thesis using I s PHead full b(5) h by (simp add: ring_inv_def producer_ok_def Let_def)
    next
      case False
      then have "Suc (length W) < length R + 2 ^ k" using full b(5,7) by auto
      then show ?thesis using False I s PHead P h by (simp add: ring_inv_def producer_ok_def Let_def) auto
    qed
  next
    case (PRoom x h n)
    have o: "slot k i \<noteq> slot k (length W)" if "length R \<le> i" "i < length W" for i
      using that slot_window [OF b(1), of i "length W"] b(7) by auto
    have q': "q' = put_byte (slot k (length W)) x q" "p' = PWritten x n" "r = None"
      using s P PRoom by (simp_all add: producer_ok_def)
    show ?thesis
      using I PRoom P o b(2) by (auto simp: q' ring_inv_def producer_ok_def byte_put simp del: not_None_eq)
  next
    case (PWritten x n)
    then have q': "q' = q\<lparr>aq_head := slot k (Suc (length W))\<rparr>" "p' = PStored" "r = None"
        "get_byte q (slot k (length W)) = x" "Suc (length W) < length R + 2 ^ k"
      using s P by (simp_all add: producer_ok_def)
    show ?thesis
      using b C q'(4,5) PWritten I consumer_ok_append [OF C, of "[x]"]
      by (auto simp: q'(1-3) ring_inv_def producer_ok_def nth_append less_Suc_eq simp del: not_None_eq)
  next
    case PStored
    then show ?thesis using I s by (simp add: ring_inv_def producer_ok_def) auto
  next
    case (PCount n)
    then show ?thesis using I s by (simp add: ring_inv_def producer_ok_def) auto
  qed
  then show "ring_inv k (W @ (case p of PWritten x _ \<Rightarrow> [x] | _ \<Rightarrow> [])) R q' p' c"
      "r = Some False \<Longrightarrow> length W + 1 = length R + 2 ^ k"
    by simp_all
qed

lemma ring_pop_inv:
  assumes I: "ring_inv k W R q p c" and s: "pop_step q c = (r, c', q')"
  shows "ring_inv k W (R @ (case c of CRead _ x \<Rightarrow> [x] | _ \<Rightarrow> [])) q' p c'"
    and "r = Some (- 1) \<Longrightarrow> R = W"
proof -
  have b: "k < 64" "aq_mask q = 2 ^ k - 1" "aq_head q = slot k (length W)"
      "aq_tail q = slot k (length R)" "length R \<le> length W" "length W < length R + 2 ^ k" "R = take (length R) W"
      "aq_buf q \<noteq> None"
    using I by (auto simp: ring_inv_def)
  have empty: "slot k (length R) = slot k (length W) \<longleftrightarrow> length R = length W"
    by (rule slot_window [OF b(1,5,6)])
  have nn: "uint (x :: u8) \<noteq> - 1" for x using uint_ge_0 [of x] by linarith
  have P: "producer_ok k (length W) (length R) q p" and C: "consumer_ok k W (length R) c"
    and B: "\<forall>i. length R \<le> i \<and> i < length W \<longrightarrow> get_byte q (slot k i) = W ! i"
    using I by (simp_all add: ring_inv_def)
  have "ring_inv k W (R @ (case c of CRead _ x \<Rightarrow> [x] | _ \<Rightarrow> [])) q' p c' \<and> (r = Some (- 1) \<longrightarrow> R = W)"
  proof (cases c)
    case CIdle
    then show ?thesis using I s b(8,4) by (simp add: ring_inv_def consumer_ok_def del: not_None_eq) auto
  next
    case (CTail t)
    then have t: "t = slot k (length R)" using C by (simp add: consumer_ok_def)
    show ?thesis
    proof (cases "length R = length W")
      case True
      then have "R = W" using b(7) by simp
      then show ?thesis using I s CTail t b(3) by (simp add: ring_inv_def consumer_ok_def)
    next
      case False
      then show ?thesis using I s CTail t b(3,5) empty by (simp add: ring_inv_def consumer_ok_def) auto
    qed
  next
    case (CSome t)
    then show ?thesis using I s C B by (simp add: ring_inv_def consumer_ok_def) auto
  next
    case (CRead t x)
    then have x: "t = slot k (length R)" "length R < length W" "x = W ! length R" using C by (simp_all add: consumer_ok_def)
    have "take (Suc (length R)) W = R @ [x]" using b(7) x(2,3) by (simp add: take_Suc_conv_app_nth)
    moreover have q': "q' = q\<lparr>aq_tail := slot k (Suc (length R))\<rparr>" "c' = CStored x" "r = None"
      using s CRead x(1) slot_next [OF b(1)] b(2) by simp_all
    moreover have "producer_ok k (length W) (Suc (length R)) q' p" using P by (rule producer_ok_later) (simp_all add: q')
    ultimately show ?thesis using b B CRead x(2) by (auto simp: ring_inv_def consumer_ok_def simp del: not_None_eq)
  next
    case (CStored x)
    then show ?thesis using I s by (simp add: ring_inv_def consumer_ok_def) auto
  next
    case (CCount x n)
    moreover have "producer_ok k (length W) (length R) q' p"
      using P s CCount by (auto intro: producer_ok_later)
    ultimately show ?thesis using I s nn by (simp add: ring_inv_def consumer_ok_def) auto
  qed
  then show "ring_inv k W (R @ (case c of CRead _ x \<Rightarrow> [x] | _ \<Rightarrow> [])) q' p c'" "r = Some (- 1) \<Longrightarrow> R = W"
    by simp_all
qed

lemma ring_run_inv: "ring_run k W R q p c \<Longrightarrow> ring_inv k W R q p c"
proof (induction rule: ring_run.induct)
  case (init buffer q0 q)
  then show ?case by (auto simp: init_atom_queue_def ring_inv_def producer_ok_def consumer_ok_def slot_def split: if_splits)
next
  case (push W R q p c d r p' q')
  then show ?case using ring_push_inv(1) by blast
next
  case (pop W R q p c r c' q')
  then show ?case using ring_pop_inv(1) by blast
qed

lemma atom_queue_fifo_parts:
  assumes "ring_run k W R q p c"
  shows "R = take (length R) W" and "length W < length R + 2 ^ k"
    and "push_step d q p = (Some False, p', q') \<Longrightarrow> length W + 1 = length R + 2 ^ k"
    and "pop_step q c = (Some (- 1), c', q') \<Longrightarrow> R = W"
proof -
  have I: "ring_inv k W R q p c" using assms by (rule ring_run_inv)
  then show "R = take (length R) W" "length W < length R + 2 ^ k" by (simp_all add: ring_inv_def)
  show "push_step d q p = (Some False, p', q') \<Longrightarrow> length W + 1 = length R + 2 ^ k"
    using ring_push_inv(2) [OF I] by blast
  show "pop_step q c = (Some (- 1), c', q') \<Longrightarrow> R = W" using ring_pop_inv(2) [OF I] by blast
qed

text \<open>
  The same runs seen from outside.  \<open>ring_hist k a P Out q p c\<close>: the push in progress, if there is one, was called with
  the byte \<open>a\<close> (and has it as its argument in each of its steps); \<open>P\<close> are the arguments of the pushes that have returned true, \<open>Out\<close> what the pops have
  returned, other than the -1 of a pop that found nothing.
\<close>

inductive ring_hist :: "nat \<Rightarrow> u8 option \<Rightarrow> u8 list \<Rightarrow> int list \<Rightarrow> atom_queue \<Rightarrow> producer \<Rightarrow> consumer \<Rightarrow> bool" for k where
  init: "init_atom_queue buffer (2 ^ k) q0 = (True, q) \<Longrightarrow> k < 64 \<Longrightarrow> ring_hist k None [] [] q PIdle CIdle"
| push: "ring_hist k a P Out q p c \<Longrightarrow> a = None \<or> a = Some d \<Longrightarrow> push_step d q p = (r, p', q') \<Longrightarrow>
    ring_hist k (if r = None then Some d else None) (if r = Some True then P @ [d] else P) Out q' p' c"
| pop: "ring_hist k a P Out q p c \<Longrightarrow> pop_step q c = (r, c', q') \<Longrightarrow>
    ring_hist k a P (case r of Some x \<Rightarrow> if x = - 1 then Out else Out @ [x] | None \<Rightarrow> Out) q' p c'"

text \<open>What an operation that has moved its index but not returned yet adds to the history.\<close>

definition push_part :: "u8 option \<Rightarrow> producer \<Rightarrow> u8 list" where
  "push_part a p = (case p of PStored \<Rightarrow> [the a] | PCount n \<Rightarrow> [the a] | _ \<Rightarrow> [])"

definition pop_part :: "consumer \<Rightarrow> int list" where
  "pop_part c = (case c of CStored x \<Rightarrow> [uint x] | CCount x n \<Rightarrow> [uint x] | _ \<Rightarrow> [])"

definition arg_ok :: "u8 option \<Rightarrow> producer \<Rightarrow> bool" where
  "arg_ok a p = (case p of PIdle \<Rightarrow> a = None | PHead d h \<Rightarrow> a = Some d | PRoom d h n \<Rightarrow> a = Some d
     | PWritten d n \<Rightarrow> a = Some d | _ \<Rightarrow> a \<noteq> None)"

lemma ring_hist_run:
  "ring_hist k a P Out q p c \<Longrightarrow>
   \<exists>W R. ring_run k W R q p c \<and> W = P @ push_part a p \<and> map uint R = Out @ pop_part c \<and> arg_ok a p"
proof (induction rule: ring_hist.induct)
  case (init buffer q0 q)
  have "ring_run k [] [] q PIdle CIdle" using init by (rule ring_run.init)
  then show ?case by (simp add: push_part_def pop_part_def arg_ok_def)
next
  case (push a P Out q p c d r p' q')
  then obtain W R where I: "ring_run k W R q p c" "W = P @ push_part a p" "map uint R = Out @ pop_part c" "arg_ok a p"
    by blast
  have b: "aq_buf q \<noteq> None" using ring_run_inv [OF I(1)] by (simp add: ring_inv_def)
  have s: "ring_run k (W @ (case p of PWritten x _ \<Rightarrow> [x] | _ \<Rightarrow> [])) R q' p' c" using I(1) push.hyps(3) by (rule ring_run.push)
  have "W @ (case p of PWritten x _ \<Rightarrow> [x] | _ \<Rightarrow> []) =
      (if r = Some True then P @ [d] else P) @ push_part (if r = None then Some d else None) p' \<and>
      arg_ok (if r = None then Some d else None) p'"
    using I(2,4) push.hyps(2,3) b
    by (cases p) (auto simp: push_part_def arg_ok_def Let_def split: if_splits)
  then show ?case using s I(3) by (elim conjE) (intro exI conjI)
next
  case (pop a P Out q p c r c' q')
  then obtain W R where I: "ring_run k W R q p c" "W = P @ push_part a p" "map uint R = Out @ pop_part c" "arg_ok a p"
    by blast
  have b: "aq_buf q \<noteq> None" using ring_run_inv [OF I(1)] by (simp add: ring_inv_def)
  have s: "ring_run k W (R @ (case c of CRead _ x \<Rightarrow> [x] | _ \<Rightarrow> [])) q' p c'" using I(1) pop.hyps(2) by (rule ring_run.pop)
  have nn: "uint x \<noteq> - 1" for x :: u8 using uint_ge_0 [of x] by linarith
  have "map uint (R @ (case c of CRead _ x \<Rightarrow> [x] | _ \<Rightarrow> [])) =
      (case r of Some x \<Rightarrow> if x = - 1 then Out else Out @ [x] | None \<Rightarrow> Out) @ pop_part c'"
    using I(3) pop.hyps(2) b nn by (cases c) (auto simp: pop_part_def split: if_splits)
  then show ?case using s I(2,4) by (intro exI conjI)
qed

text \<open>
  C37. The ring of one producer and one consumer is a queue, however their memory accesses interleave.  What the pops
  have returned are, in their order, the first of the bytes that the pushes were called with: those whose push has
  returned true, and then the one of the push in progress.  At most \<open>2 ^ k\<close> bytes are pushed and not returned yet, and at most
  \<open>2 ^ k - 1\<close> while no pop is in progress.  A push is refused only when \<open>2 ^ k - 1\<close> pushed bytes have not been
  returned; a pop answers -1 only when every byte whose push has returned has been returned.
\<close>

theorem atom_queue_fifo:
  assumes "ring_hist k a P Out q p c"
  shows "(let L = P @ (case a of None \<Rightarrow> [] | Some d \<Rightarrow> [d]) in
      length Out \<le> length L \<and> Out = map uint (take (length Out) L)) \<and>
    length P \<le> length Out + 2 ^ k \<and> (c = CIdle \<longrightarrow> length P < length Out + 2 ^ k) \<and>
    (push_step d q p = (Some False, p', q') \<longrightarrow> length Out + 2 ^ k \<le> length P + 1) \<and>
    (pop_step q c = (Some (- 1), c', q'') \<longrightarrow> length P \<le> length Out)"
proof -
  obtain W R where I: "ring_run k W R q p c" "W = P @ push_part a p" "map uint R = Out @ pop_part c" "arg_ok a p"
    using ring_hist_run [OF assms] by blast
  note Q = atom_queue_fifo_parts [OF I(1)]
  have lR: "length R = length Out + length (pop_part c)" using arg_cong [where f = length, OF I(3)] by simp
  have pp: "length (pop_part c) \<le> 1" "c = CIdle \<Longrightarrow> pop_part c = []" by (auto simp: pop_part_def split: consumer.split)
  have pre: "push_part a p = [] \<or> (\<exists>d. a = Some d \<and> push_part a p = [d])"
    using I(4) by (auto simp: push_part_def arg_ok_def split: producer.splits)
  have le: "length R \<le> length W" using Q(1) by (metis length_take min.cobounded1 min.commute)
  let ?L = "P @ (case a of None \<Rightarrow> [] | Some d \<Rightarrow> [d])"
  have W: "\<exists>zs. ?L = W @ zs" using pre I(2) by auto
  then obtain zs where "?L = W @ zs" by blast
  then have lWL: "length W \<le> length ?L" "\<And>n. n \<le> length W \<Longrightarrow> take n ?L = take n W" by (simp_all only: length_append take_append) simp_all
  have "Out = take (length Out) (map uint R)" using I(3) by simp
  also have "\<dots> = map uint (take (length Out) (take (length R) W))" using Q(1) by (simp add: take_map)
  also have "\<dots> = map uint (take (length Out) W)" using lR by (simp add: min_def)
  also have "\<dots> = map uint (take (length Out) ?L)" using lWL(2) [of "length Out"] lR le by simp
  finally have out: "Out = map uint (take (length Out) ?L)" .
  have "length P \<le> length W" using I(2) by simp
  moreover have "length P + 1 = length Out + length (pop_part c) + 2 ^ k" if "push_step d q p = (Some False, p', q')"
  proof -
    have "push_part a p = []" using that by (cases p) (auto simp: push_part_def)
    then show ?thesis using Q(3) [OF that] I(2) lR by simp
  qed
  moreover have "length P \<le> length Out" if "pop_step q c = (Some (- 1), c', q'')"
  proof -
    have "uint x \<noteq> - 1" for x :: u8 using uint_ge_0 [of x] by linarith
    then have "pop_part c = []" using that by (cases c) (auto simp: pop_part_def)
    then show ?thesis using Q(4) [OF that] I(2) lR by simp
  qed
  ultimately show ?thesis using out lWL(1) lR le Q(2) pp by (auto simp: Let_def)
qed

text \<open>Without interference the steps of a push are the push, and those of a pop the pop.\<close>

lemma push_steps_alone:
  assumes "aq_buf q \<noteq> None"
  shows "atom_push d q =
     (let (r1, p1, q1) = push_step d q PIdle; (r2, p2, q2) = push_step d q1 p1 in
      if r2 \<noteq> None then (the r2, q2)
      else let (r3, p3, q3) = push_step d q2 p2; (r4, p4, q4) = push_step d q3 p3;
               (r5, p5, q5) = push_step d q4 p4; (r6, p6, q6) = push_step d q5 p5 in (the r6, q6))"
  using assms by (auto simp: atom_push_def Let_def)

lemma pop_steps_alone:
  assumes "aq_buf q \<noteq> None"
  shows "atom_pop q =
     (let (r1, c1, q1) = pop_step q CIdle; (r2, c2, q2) = pop_step q1 c1 in
      if r2 \<noteq> None then (the r2, q2)
      else let (r3, c3, q3) = pop_step q2 c2; (r4, c4, q4) = pop_step q3 c3;
               (r5, c5, q5) = pop_step q4 c4; (r6, c6, q6) = pop_step q5 c5 in (the r6, q6))"
  using assms by (auto simp: atom_pop_def Let_def)

section \<open>The count\<close>

definition ring8 :: atom_queue where
  "ring8 = \<lparr>aq_buf = Some (\<lambda>_. 0), aq_mask = 7, aq_head = 0, aq_tail = 0, aq_size = 0\<rparr>"

lemma ring8_run: "ring_run 3 [] [] ring8 PIdle CIdle"
  by (rule ring_run.init [of "Some (\<lambda>_. 0)" 3 ring8]) (simp_all add: init_atom_queue_def ring8_def)

lemma run_push: "ring_run k W R q p c \<Longrightarrow> push_step d q p = (r, p', q') \<Longrightarrow> (case p of PWritten x _ \<Rightarrow> False | _ \<Rightarrow> True) \<Longrightarrow>
    ring_run k W R q' p' c"
  using ring_run.push [of k W R q p c d r p' q'] by (cases p) auto

lemma run_store: "ring_run k W R q (PWritten x n) c \<Longrightarrow> ring_run k (W @ [x]) R (q\<lparr>aq_head := n\<rparr>) PStored c"
  using ring_run.push [of k W R q "PWritten x n" c 0] by simp

lemma run_pop: "ring_run k W R q p c \<Longrightarrow> pop_step q c = (r, c', q') \<Longrightarrow> (case c of CRead _ x \<Rightarrow> False | _ \<Rightarrow> True) \<Longrightarrow>
    ring_run k W R q' p c'"
  using ring_run.pop [of k W R q p c r c' q'] by (cases c) auto

lemma run_take: "ring_run k W R q p (CRead t x) \<Longrightarrow>
    ring_run k W (R @ [x]) (q\<lparr>aq_tail := (t + 1) AND aq_mask q\<rparr>) p (CStored x)"
  using ring_run.pop [of k W R q p "CRead t x"] by simp

lemma ring8_pushed: "ring_run 3 [65] [] (ring8\<lparr>aq_buf := Some ((\<lambda>_. 0)(0 := 65)), aq_head := 1\<rparr>) PStored CIdle"
proof -
  have "ring_run 3 [] [] ring8 (PHead 65 0) CIdle" by (rule run_push [OF ring8_run]) (simp_all add: ring8_def)
  then have "ring_run 3 [] [] ring8 (PRoom 65 0 1) CIdle" by (rule run_push) (simp_all add: ring8_def Let_def)
  then have "ring_run 3 [] [] (ring8\<lparr>aq_buf := Some ((\<lambda>_. 0)(0 := 65))\<rparr>) (PWritten 65 1) CIdle"
    by (rule run_push) (simp_all add: ring8_def put_byte_def)
  then show ?thesis using run_store by fastforce
qed

text \<open>
  The size field is not the number of bytes.  It is counted up and down by plain reads and writes from both sides:
  one push and one pop that overlap can leave a size of \<open>2 ^ 64 - 1\<close> in an empty ring that nobody is using.
\<close>

theorem atom_queue_size_torn:
  "\<exists>q. ring_run 3 [65] [65] q PIdle CIdle \<and> aq_head q = aq_tail q \<and> aq_size q = - 1"
proof -
  let ?q1 = "ring8\<lparr>aq_buf := Some ((\<lambda>_. 0)(0 := 65))\<rparr>"
  let ?q2 = "?q1\<lparr>aq_head := 1\<rparr>" and ?q3 = "?q1\<lparr>aq_head := 1\<rparr>\<lparr>aq_tail := 1\<rparr>"
  have "ring_run 3 [65] [] ?q2 PStored CIdle" by (rule ring8_pushed)
  then have "ring_run 3 [65] [] ?q2 (PCount 0) CIdle" by (rule run_push) (simp_all add: ring8_def)
  then have "ring_run 3 [65] [] ?q2 (PCount 0) (CTail 0)" by (rule run_pop) (simp_all add: ring8_def)
  then have "ring_run 3 [65] [] ?q2 (PCount 0) (CSome 0)" by (rule run_pop) (simp_all add: ring8_def)
  then have "ring_run 3 [65] [] ?q2 (PCount 0) (CRead 0 65)" by (rule run_pop) (simp_all add: ring8_def get_byte_def)
  then have "ring_run 3 [65] [65] ?q3 (PCount 0) (CStored 65)" using run_take by (fastforce simp: ring8_def)
  then have "ring_run 3 [65] [65] ?q3 (PCount 0) (CCount 65 0)" by (rule run_pop) (simp_all add: ring8_def)
  then have "ring_run 3 [65] [65] (?q3\<lparr>aq_size := 1\<rparr>) PIdle (CCount 65 0)" by (rule run_push) (simp_all add: ring8_def)
  then have "ring_run 3 [65] [65] (?q3\<lparr>aq_size := - 1\<rparr>) PIdle CIdle" by (rule run_pop) (simp_all add: ring8_def)
  then show ?thesis by (intro exI [of _ "?q3\<lparr>aq_size := - 1\<rparr>"]) (simp add: ring8_def)
qed

section \<open>The ring for several producers and consumers\<close>

lemma slot_of: "k < 64 \<Longrightarrow> (x :: u64) \<le> 2 ^ k - 1 \<Longrightarrow> \<exists>n < 2 ^ k. x = slot k n"
proof -
  assume k: "k < 64" "x \<le> 2 ^ k - 1"
  have "(2 :: nat) ^ k < 2 ^ 64" using k(1) by (intro power_strict_increasing) simp_all
  then have "unat ((2 :: u64) ^ k) = 2 ^ k" using unat_of_nat [of "2 ^ k", where 'a = 64] by simp
  then have "unat ((2 :: u64) ^ k - 1) = 2 ^ k - 1" by (simp add: unat_sub_le)
  then have "unat x \<le> 2 ^ k - 1" using k(2) by (simp add: word_le_nat_alt)
  moreover have "0 < (2 :: nat) ^ k" by simp
  ultimately have "unat x < 2 ^ k" by linarith
  then show ?thesis by (intro exI [of _ "unat x"]) (simp add: slot_def)
qed

lemma push_mpmc_runs:
  assumes "k < 64" "aq_mask q = 2 ^ k - 1" "aq_head q = slot k h" "aq_tail q = slot k t" "h < t" "t \<le> h + 2 ^ k"
  shows "atom_push_mpmc d q = Some (False, q\<lparr>aq_head := slot k (t - 1)\<rparr>)"
  using assms(3-6,2)
proof (induction "t - h" arbitrary: h q)
  case 0
  then show ?case by simp
next
  case (Suc n)
  have nxt: "(aq_head q + 1) AND aq_mask q = slot k (Suc h)" using Suc.prems slot_next [OF assms(1)] by simp
  show ?case
  proof (cases "Suc h = t")
    case True
    then show ?thesis using nxt Suc.prems by (subst atom_push_mpmc.simps) (auto simp: Let_def)
  next
    case False
    then have ne: "slot k (Suc h) \<noteq> aq_tail q"
      using slot_window [OF assms(1), of "Suc h" t] Suc.prems by auto
    have "atom_push_mpmc d (q\<lparr>aq_head := slot k (Suc h)\<rparr>) = Some (False, q\<lparr>aq_head := slot k (t - 1)\<rparr>)"
      using Suc.hyps(1) [of "Suc h" "q\<lparr>aq_head := slot k (Suc h)\<rparr>"] Suc.hyps(2) Suc.prems False by simp
    then show ?thesis using nxt ne by (subst atom_push_mpmc.simps) (simp add: Let_def cas_def)
  qed
qed

lemma pop_mpmc_runs:
  assumes "k < 64" "aq_mask q = 2 ^ k - 1" "aq_head q = slot k h" "aq_tail q = slot k t" "t \<le> h" "h < t + 2 ^ k"
  shows "atom_pop_mpmc q = Some (- 1, q\<lparr>aq_tail := aq_head q\<rparr>)"
  using assms(3-6,2)
proof (induction "h - t" arbitrary: t q)
  case 0
  then show ?case by (subst atom_pop_mpmc.simps) simp
next
  case (Suc n)
  have nxt: "(aq_tail q + 1) AND aq_mask q = slot k (Suc t)" using Suc.prems slot_next [OF assms(1)] by simp
  have ne: "aq_tail q \<noteq> aq_head q" using slot_window [OF assms(1), of t h] Suc.hyps(2) Suc.prems by auto
  have "atom_pop_mpmc (q\<lparr>aq_tail := slot k (Suc t)\<rparr>) = Some (- 1, q\<lparr>aq_tail := aq_head q\<rparr>)"
    using Suc.hyps(1) [of "Suc t" "q\<lparr>aq_tail := slot k (Suc t)\<rparr>"] Suc.hyps(2) Suc.prems by simp
  then show ?case using nxt ne by (subst atom_pop_mpmc.simps) (simp add: Let_def cas_def)
qed

text \<open>
  The ring for several producers and consumers carries nothing.  In any state with indices in range a push moves
  the head once around to the slot before the tail, stores no byte and reports that the ring is full; a pop throws away
  what the ring holds and reports that it is empty.
\<close>

theorem atom_queue_mpmc_carries_nothing:
  assumes "k < 64" "aq_mask q = 2 ^ k - 1" "aq_head q \<le> aq_mask q" "aq_tail q \<le> aq_mask q"
  shows "\<exists>h. atom_push_mpmc d q = Some (False, q\<lparr>aq_head := h\<rparr>) \<and> (h + 1) AND aq_mask q = aq_tail q"
    and "atom_pop_mpmc q = Some (- 1, q\<lparr>aq_tail := aq_head q\<rparr>)"
proof -
  obtain h t where h: "h < 2 ^ k" "aq_head q = slot k h" and t: "t < 2 ^ k" "aq_tail q = slot k t"
    using slot_of [OF assms(1)] assms(2-4) by metis
  have more: "slot k (n + 2 ^ k) = slot k n" for n by (simp add: slot_def)
  define t' where "t' = (if h < t then t else t + 2 ^ k)"
  have t': "aq_tail q = slot k t'" "h < t'" "t' \<le> h + 2 ^ k" using t h by (auto simp: t'_def more)
  have "atom_push_mpmc d q = Some (False, q\<lparr>aq_head := slot k (t' - 1)\<rparr>)"
    by (rule push_mpmc_runs [OF assms(1,2) h(2) t'])
  moreover have "(slot k (t' - 1) + 1) AND aq_mask q = aq_tail q"
    using slot_next [OF assms(1), of "t' - 1"] t' assms(2) by simp
  ultimately show "\<exists>h. atom_push_mpmc d q = Some (False, q\<lparr>aq_head := h\<rparr>) \<and> (h + 1) AND aq_mask q = aq_tail q" by blast
  define h' where "h' = (if t \<le> h then h else h + 2 ^ k)"
  have "aq_head q = slot k h'" "t \<le> h'" "h' < t + 2 ^ k" using t h by (auto simp: h'_def more)
  then show "atom_pop_mpmc q = Some (- 1, q\<lparr>aq_tail := aq_head q\<rparr>)"
    by (rule pop_mpmc_runs [OF assms(1,2) _ t(2)])
qed

section \<open>Instances\<close>

text \<open>A push of 65 and a pop, one after the other, in a ring of eight bytes.\<close>

lemma hist_push: "ring_hist k None P Out q PIdle c \<Longrightarrow> aq_buf q \<noteq> None \<Longrightarrow> fst (atom_push d q) \<Longrightarrow>
    ring_hist k None (P @ [d]) Out (snd (atom_push d q)) PIdle c"
proof -
  assume run: "ring_hist k None P Out q PIdle c" and b: "aq_buf q \<noteq> None" and ok: "fst (atom_push d q)"
  let ?n = "(aq_head q + 1) AND aq_mask q"
  have n: "?n \<noteq> aq_tail q" using ok b by (auto simp: atom_push_def Let_def)
  have "ring_hist k (Some d) P Out q (PHead d (aq_head q)) c"
    using ring_hist.push [OF run, of d None] b by simp
  from ring_hist.push [OF this, of d None] have "ring_hist k (Some d) P Out q (PRoom d (aq_head q) ?n) c"
    using n by (simp add: Let_def)
  from ring_hist.push [OF this, of d None] have "ring_hist k (Some d) P Out (put_byte (aq_head q) d q) (PWritten d ?n) c"
    by simp
  from ring_hist.push [OF this, of d None]
  have "ring_hist k (Some d) P Out ((put_byte (aq_head q) d q)\<lparr>aq_head := ?n\<rparr>) PStored c" by simp
  from ring_hist.push [OF this, of d None]
  have "ring_hist k (Some d) P Out ((put_byte (aq_head q) d q)\<lparr>aq_head := ?n\<rparr>) (PCount (aq_size q)) c" by simp
  from ring_hist.push [OF this, of d "Some True"] show ?thesis using n b by (auto simp: atom_push_def Let_def)
qed

lemma hist_pop: "ring_hist k a P Out q p CIdle \<Longrightarrow> aq_buf q \<noteq> None \<Longrightarrow> fst (atom_pop q) \<noteq> - 1 \<Longrightarrow>
    ring_hist k a P (Out @ [fst (atom_pop q)]) (snd (atom_pop q)) p CIdle"
proof -
  assume run: "ring_hist k a P Out q p CIdle" and b: "aq_buf q \<noteq> None" and ok: "fst (atom_pop q) \<noteq> - 1"
  let ?t = "aq_tail q" and ?d = "get_byte q (aq_tail q)"
  have n: "?t \<noteq> aq_head q" and nn: "uint ?d \<noteq> - 1" using ok b by (auto simp: atom_pop_def Let_def split: if_splits)
  have "ring_hist k a P Out q p (CTail ?t)" using ring_hist.pop [OF run, of None] b by simp
  from ring_hist.pop [OF this, of None] have "ring_hist k a P Out q p (CSome ?t)" using n by simp
  from ring_hist.pop [OF this, of None] have "ring_hist k a P Out q p (CRead ?t ?d)" by simp
  from ring_hist.pop [OF this, of None] have "ring_hist k a P Out (q\<lparr>aq_tail := (?t + 1) AND aq_mask q\<rparr>) p (CStored ?d)" by simp
  from ring_hist.pop [OF this, of None]
  have "ring_hist k a P Out (q\<lparr>aq_tail := (?t + 1) AND aq_mask q\<rparr>) p (CCount ?d (aq_size q))" by simp
  from ring_hist.pop [OF this, of "Some (uint ?d)"] show ?thesis using n b nn by (auto simp: atom_pop_def Let_def)
qed

lemma atom_queue_fifo_witness:
  "\<exists>q. ring_hist 3 None [65, 66] [65] q PIdle CIdle \<and> [65] = map uint (take 1 [65, 66 :: u8])
     \<and> length [65, 66 :: u8] < length [65 :: int] + 2 ^ 3"
proof -
  have "ring_hist 3 None [] [] ring8 PIdle CIdle"
    by (rule ring_hist.init [of "Some (\<lambda>_. 0)" 3 ring8]) (simp_all add: init_atom_queue_def ring8_def)
  from hist_push [OF this, of 65] have 1: "ring_hist 3 None [65] [] (snd (atom_push 65 ring8)) PIdle CIdle"
    by (simp add: atom_push_def Let_def ring8_def)
  define q1 where "q1 = snd (atom_push 65 ring8)"
  have q1: "q1 = \<lparr>aq_buf = Some ((\<lambda>_. 0)(0 := 65)), aq_mask = 7, aq_head = 1, aq_tail = 0, aq_size = 1\<rparr>"
    by (simp add: q1_def atom_push_def Let_def ring8_def put_byte_def)
  from hist_push [OF 1 [folded q1_def], of 66] have 2: "ring_hist 3 None [65, 66] [] (snd (atom_push 66 q1)) PIdle CIdle"
    by (simp add: atom_push_def Let_def q1)
  define q2 where "q2 = snd (atom_push 66 q1)"
  have q2: "q2 = \<lparr>aq_buf = Some ((\<lambda>_. 0)(0 := 65, 1 := 66)), aq_mask = 7, aq_head = 2, aq_tail = 0, aq_size = 2\<rparr>"
    by (simp add: q2_def atom_push_def Let_def q1 put_byte_def)
  from hist_pop [OF 2 [folded q2_def]] have 3: "ring_hist 3 None [65, 66] [65] (snd (atom_pop q2)) PIdle CIdle"
    by (simp add: atom_pop_def Let_def q2 get_byte_def)
  then show ?thesis using atom_queue_fifo [OF 3] by auto
qed

lemma atom_queue_mpmc_carries_nothing_witness:
  "atom_pop_mpmc (ring8\<lparr>aq_head := 5\<rparr>) = Some (- 1, ring8\<lparr>aq_head := 5, aq_tail := 5\<rparr>)"
  using atom_queue_mpmc_carries_nothing(2) [of 3 "ring8\<lparr>aq_head := 5\<rparr>"] by (simp add: ring8_def)

end
