(* ===== verification/Vma.thy ===== *)
theory Vma
  imports Chain
begin

text \<open>
  The list of a process's mappings, \<open>kernel/memory/vma.cpp\<close>: a doubly linked list of address ranges in ascending
  order, each with its attributes, and the number of bytes they cover.  Nodes are records in a store indexed by
  their address; the addresses that \<open>malloc\<close> returns (0 when out of memory) are arguments, and so is whether a
  name could be copied; a freed node stays in the store and belongs to no list.
\<close>

section \<open>State\<close>

type_synonym vma_t = u64

datatype vma_type_t = VMA_TYPE_ANON | VMA_TYPE_FILE | VMA_TYPE_SHM

record vma =
  vm_start :: u64
  vm_end :: u64
  vm_flags :: u64
  vm_type :: vma_type_t
  vm_fd :: "32 word"
  vm_offset :: u64
  shm_id :: "32 word"
  vm_name :: "string option"
  vm_next :: vma_t
  vm_prev :: vma_t

type_synonym vma_store = "vma_t \<Rightarrow> vma"

record vma_manager_t =
  vma_list :: vma_t
  vm_total :: u64
  vm_used :: u64

definition on_vma :: "vma_t \<Rightarrow> (vma \<Rightarrow> vma) \<Rightarrow> vma_store \<Rightarrow> vma_store" where
  "on_vma p f s = s(p := f (s p))"

section \<open>Operations\<close>

definition vma_alloc :: "vma_t \<Rightarrow> vma_store \<Rightarrow> vma_t \<times> vma_store" where
  "vma_alloc fresh s =
     (if fresh = 0 then (0, s)
      else (fresh, s(fresh := \<lparr>vm_start = 0, vm_end = 0, vm_flags = 0, vm_type = VMA_TYPE_ANON, vm_fd = - 1,
                               vm_offset = 0, shm_id = - 1, vm_name = None, vm_next = 0, vm_prev = 0\<rparr>)))"

definition vma_find :: "u64 \<Rightarrow> vma_manager_t \<times> vma_store \<Rightarrow> vma_t option" where
  "vma_find addr ms =
     (let (m, s) = ms in
      find_node (\<lambda>v. vm_start (s v) \<le> addr \<and> addr < vm_end (s v)) (\<lambda>v. vm_next (s v)) (vma_list m))"

definition vma_find_intersection :: "u64 \<Rightarrow> u64 \<Rightarrow> vma_manager_t \<times> vma_store \<Rightarrow> vma_t option" where
  "vma_find_intersection lo hi ms =
     (let (m, s) = ms in
      find_node (\<lambda>v. \<not> (hi \<le> vm_start (s v) \<or> vm_end (s v) \<le> lo)) (\<lambda>v. vm_next (s v)) (vma_list m))"

definition vma_insert :: "vma_t \<Rightarrow> vma_manager_t \<times> vma_store \<Rightarrow> (int \<times> vma_manager_t \<times> vma_store) option" where
  "vma_insert new_vma ms =
     (let (m, s) = ms in
      if new_vma = 0 then Some (- 1, m, s)
      else do {
        i \<leftarrow> vma_find_intersection (vm_start (s new_vma)) (vm_end (s new_vma)) (m, s);
        if i \<noteq> 0 then Some (- 1, m, s)
        else do {
          (prev, v) \<leftarrow> find_link (\<lambda>v. \<not> vm_start (s v) < vm_start (s new_vma)) (\<lambda>v. vm_next (s v)) 0 (vma_list m);
          let s = on_vma new_vma (\<lambda>x. x\<lparr>vm_next := v, vm_prev := prev\<rparr>) s;
              (m, s) = (if prev \<noteq> 0 then (m, on_vma prev (\<lambda>x. x\<lparr>vm_next := new_vma\<rparr>) s)
                        else (m\<lparr>vma_list := new_vma\<rparr>, s));
              s = (if v \<noteq> 0 then on_vma v (\<lambda>x. x\<lparr>vm_prev := new_vma\<rparr>) s else s)
          in Some (0, m\<lparr>vm_used := vm_used m + (vm_end (s new_vma) - vm_start (s new_vma))\<rparr>, s) } })"

definition vma_remove :: "vma_t \<Rightarrow> vma_manager_t \<times> vma_store \<Rightarrow> int \<times> vma_manager_t \<times> vma_store" where
  "vma_remove v ms =
     (let (m, s) = ms in
      if v = 0 then (- 1, m, s)
      else
        let (m, s) = (if vm_prev (s v) \<noteq> 0
                      then (m, on_vma (vm_prev (s v)) (\<lambda>x. x\<lparr>vm_next := vm_next (s v)\<rparr>) s)
                      else (m\<lparr>vma_list := vm_next (s v)\<rparr>, s));
            s = (if vm_next (s v) \<noteq> 0
                 then on_vma (vm_next (s v)) (\<lambda>x. x\<lparr>vm_prev := vm_prev (s v)\<rparr>) s else s)
        in (0, m\<lparr>vm_used := vm_used m - (vm_end (s v) - vm_start (s v))\<rparr>, s))"

definition vma_split :: "vma_t \<Rightarrow> bool \<Rightarrow> vma_t \<Rightarrow> u64 \<Rightarrow> vma_store \<Rightarrow> int \<times> vma_store" where
  "vma_split fresh name_ok v addr s =
     (if v = 0 \<or> addr \<le> vm_start (s v) \<or> vm_end (s v) \<le> addr then (- 1, s)
      else
        let (new_vma, s) = vma_alloc fresh s in
        if new_vma = 0 then (- 1, s)
        else
          let s = s(new_vma := s v);
              s = on_vma new_vma (\<lambda>x. x\<lparr>vm_start := addr, vm_next := vm_next (s v), vm_prev := v,
                                       vm_name := (if name_ok then vm_name (s v) else None)\<rparr>) s;
              s = (if vm_type (s v) = VMA_TYPE_FILE
                   then on_vma new_vma (\<lambda>x. x\<lparr>vm_offset := vm_offset x + (addr - vm_start (s v))\<rparr>) s else s);
              s = on_vma v (\<lambda>x. x\<lparr>vm_end := addr, vm_next := new_vma\<rparr>) s;
              s = (if vm_next (s new_vma) \<noteq> 0
                   then on_vma (vm_next (s new_vma)) (\<lambda>x. x\<lparr>vm_prev := new_vma\<rparr>) s else s)
          in (0, s))"

definition vma_merge :: "vma_t \<Rightarrow> vma_t \<Rightarrow> vma_store \<Rightarrow> int \<times> vma_store" where
  "vma_merge vma1 vma2 s =
     (if vma1 = 0 \<or> vma2 = 0 \<or> vm_end (s vma1) \<noteq> vm_start (s vma2) then (- 1, s)
      else if vm_flags (s vma1) \<noteq> vm_flags (s vma2) \<or> vm_type (s vma1) \<noteq> vm_type (s vma2) \<or>
              vm_fd (s vma1) \<noteq> vm_fd (s vma2) then (- 1, s)
      else
        let s = on_vma vma1 (\<lambda>x. x\<lparr>vm_end := vm_end (s vma2), vm_next := vm_next (s vma2)\<rparr>) s;
            s = (if vm_next (s vma2) \<noteq> 0
                 then on_vma (vm_next (s vma2)) (\<lambda>x. x\<lparr>vm_prev := vma1\<rparr>) s else s)
        in (0, s))"

definition use_less :: "u64 \<Rightarrow> vma_manager_t \<Rightarrow> vma_manager_t" where
  "use_less n m = m\<lparr>vm_used := vm_used m - n\<rparr>"

text \<open>One turn of the loop of \<open>vma_unmap_range\<close>: \<open>Inl\<close> leaves the loop with a result, \<open>Inr\<close> goes on with a node.\<close>

definition unmap_turn ::
  "vma_t \<Rightarrow> bool \<Rightarrow> u64 \<Rightarrow> u64 \<Rightarrow> vma_t \<Rightarrow> vma_manager_t \<times> vma_store \<Rightarrow>
     (int + vma_t) \<times> vma_manager_t \<times> vma_store" where
  "unmap_turn fresh name_ok lo hi v ms =
     (let (m, s) = ms in
      if vm_end (s v) \<le> lo then (Inr (vm_next (s v)), m, s)
      else if hi \<le> vm_start (s v) then (Inl 0, m, s)
      else if lo \<le> vm_start (s v) \<and> vm_end (s v) \<le> hi then
        let nxt = vm_next (s v); (_, m, s) = vma_remove v (m, s) in (Inr nxt, m, s)
      else if vm_start (s v) < lo \<and> hi < vm_end (s v) then
        let (r, s) = vma_split fresh name_ok v hi s in
        if r \<noteq> 0 then (Inl (- 1), m, s)
        else let s = on_vma v (\<lambda>x. x\<lparr>vm_end := lo\<rparr>) s in (Inr (vm_next (s v)), use_less (hi - lo) m, s)
      else if vm_start (s v) < lo then
        let old_end = vm_end (s v); s = on_vma v (\<lambda>x. x\<lparr>vm_end := lo\<rparr>) s
        in (Inr (vm_next (s v)), use_less (old_end - lo) m, s)
      else if hi < vm_end (s v) then
        let old_start = vm_start (s v);
            s = on_vma v (\<lambda>x. x\<lparr>vm_start := hi\<rparr>) s;
            s = (if vm_type (s v) = VMA_TYPE_FILE
                 then on_vma v (\<lambda>x. x\<lparr>vm_offset := vm_offset x + (hi - old_start)\<rparr>) s else s)
        in (Inl 0, use_less (hi - old_start) m, s)
      else (Inr (vm_next (s v)), m, s))"

partial_function (option) unmap_loop ::
  "vma_t \<Rightarrow> bool \<Rightarrow> u64 \<Rightarrow> u64 \<Rightarrow> vma_t \<Rightarrow> vma_manager_t \<times> vma_store \<Rightarrow> (int \<times> vma_manager_t \<times> vma_store) option" where
  "unmap_loop fresh name_ok lo hi v ms =
     (if v = 0 then Some (0, ms)
      else case unmap_turn fresh name_ok lo hi v ms of
             (Inl r, ms) \<Rightarrow> Some (r, ms)
           | (Inr v, ms) \<Rightarrow> unmap_loop fresh name_ok lo hi v ms)"

definition vma_unmap_range ::
  "vma_t \<Rightarrow> bool \<Rightarrow> u64 \<Rightarrow> u64 \<Rightarrow> vma_manager_t \<times> vma_store \<Rightarrow> (int \<times> vma_manager_t \<times> vma_store) option" where
  "vma_unmap_range fresh name_ok lo hi ms =
     (if hi \<le> lo then Some (- 1, ms) else unmap_loop fresh name_ok lo hi (vma_list (fst ms)) ms)"

text \<open>The cleanup also gives the nodes it frees, in order.\<close>

partial_function (option) cleanup_loop ::
  "vma_t \<Rightarrow> vma_manager_t \<times> vma_store \<Rightarrow> (vma_t list \<times> vma_manager_t \<times> vma_store) option" where
  "cleanup_loop v ms =
     (if v = 0 then Some ([], ms)
      else
        let nxt = vm_next (snd ms v); (_, m, s) = vma_remove v ms
        in do { (freed, ms) \<leftarrow> cleanup_loop nxt (m, s); Some (v # freed, ms) })"

definition vma_manager_exit_cleanup ::
  "vma_manager_t \<times> vma_store \<Rightarrow> (vma_t list \<times> vma_manager_t \<times> vma_store) option" where
  "vma_manager_exit_cleanup ms =
     do { (freed, m, s) \<leftarrow> cleanup_loop (vma_list (fst ms)) ms;
          Some (freed, m\<lparr>vma_list := 0, vm_total := 0, vm_used := 0\<rparr>, s) }"

text \<open>Copying a list for a new process.  \<open>mem i\<close> is what the allocator does in the \<open>i\<close>-th turn: the node's address,
  and whether there is room for its name.  Both lists live in one store.\<close>

definition vma_clone_name :: "bool \<Rightarrow> vma \<Rightarrow> bool \<times> string option" where
  "vma_clone_name name_ok src =
     (if vm_name src = None then (True, None) else if \<not> name_ok then (False, None) else (True, vm_name src))"

definition clone_fail :: "vma_manager_t \<times> vma_store \<Rightarrow> ((bool + vma_t) \<times> vma_manager_t \<times> vma_store) option" where
  "clone_fail ms = do { (freed, ms) \<leftarrow> vma_manager_exit_cleanup ms; Some (Inl False, ms) }"

definition clone_turn ::
  "vma_t \<times> bool \<Rightarrow> vma_t \<Rightarrow> vma_t \<Rightarrow> vma_manager_t \<times> vma_store \<Rightarrow>
     ((bool + vma_t) \<times> vma_manager_t \<times> vma_store) option" where
  "clone_turn mem src_list v ms =
     (let (m, s) = ms in
      if vm_end (s v) \<le> vm_start (s v) then clone_fail (m, s)
      else do {
        src_overlap \<leftarrow> find_node (\<lambda>p. p \<noteq> v \<and> \<not> (vm_end (s v) \<le> vm_start (s p) \<or> vm_end (s p) \<le> vm_start (s v)))
                        (\<lambda>p. vm_next (s p)) src_list;
        if src_overlap \<noteq> 0 then clone_fail (m, s)
        else
          let (new_vma, s) = vma_alloc (fst mem) s in
          if new_vma = 0 then clone_fail (m, s)
          else
            let s = on_vma new_vma (\<lambda>x. x\<lparr>vm_start := vm_start (s v), vm_end := vm_end (s v), vm_flags := vm_flags (s v),
                                       vm_type := vm_type (s v), vm_fd := vm_fd (s v), vm_offset := vm_offset (s v),
                                       shm_id := shm_id (s v)\<rparr>) s;
                (named, name) = vma_clone_name (snd mem) (s v);
                s = on_vma new_vma (\<lambda>x. x\<lparr>vm_name := name\<rparr>) s
            in if \<not> named then clone_fail (m, s)
               else do {
                 (r, m, s) \<leftarrow> vma_insert new_vma (m, s);
                 if r \<noteq> 0 then clone_fail (m, s) else Some (Inr (vm_next (s v)), m, s) } })"

partial_function (option) clone_loop ::
  "(nat \<Rightarrow> vma_t \<times> bool) \<Rightarrow> vma_t \<Rightarrow> nat \<Rightarrow> vma_t \<Rightarrow> vma_manager_t \<times> vma_store \<Rightarrow>
     (bool \<times> vma_manager_t \<times> vma_store) option" where
  "clone_loop mem src_list i v ms =
     (if v = 0 then Some (True, ms)
      else Option.bind (clone_turn (mem i) src_list v ms) (\<lambda>t.
        case t of (Inl b, ms) \<Rightarrow> Some (b, ms) | (Inr v, ms) \<Rightarrow> clone_loop mem src_list (Suc i) v ms))"

definition vma_manager_clone ::
  "(nat \<Rightarrow> vma_t \<times> bool) \<Rightarrow> vma_manager_t \<Rightarrow> vma_manager_t \<times> vma_store \<Rightarrow>
     (bool \<times> vma_manager_t \<times> vma_store) option" where
  "vma_manager_clone mem src_mgr ms =
     (let (dst_mgr, s) = ms
      in clone_loop mem (vma_list src_mgr) 0 (vma_list src_mgr)
           (dst_mgr\<lparr>vma_list := 0, vm_total := vm_total src_mgr, vm_used := 0\<rparr>, s))"

section \<open>The abstract mapping\<close>

text \<open>What an address is mapped to: the attributes and, for a file, the offset of that address in it.\<close>

definition vma_at :: "vma \<Rightarrow> u64 \<Rightarrow> u64 \<times> vma_type_t \<times> 32 word \<times> u64 \<times> 32 word" where
  "vma_at x a =
     (vm_flags x, vm_type x, vm_fd x, (if vm_type x = VMA_TYPE_FILE then vm_offset x + (a - vm_start x) else vm_offset x),
      shm_id x)"

definition mapped :: "vma_store \<Rightarrow> vma_t list \<Rightarrow> u64 \<Rightarrow> (u64 \<times> vma_type_t \<times> 32 word \<times> u64 \<times> 32 word) set" where
  "mapped s ns a = {vma_at (s v) a |v. v \<in> set ns \<and> vm_start (s v) \<le> a \<and> a < vm_end (s v)}"

definition vma_bytes :: "vma_store \<Rightarrow> vma_t list \<Rightarrow> u64" where
  "vma_bytes s ns = (\<Sum>v\<leftarrow>ns. vm_end (s v) - vm_start (s v))"

definition vma_ok :: "vma_manager_t \<Rightarrow> vma_store \<Rightarrow> vma_t list \<Rightarrow> bool" where
  "vma_ok m s ns \<longleftrightarrow>
     dlinked (\<lambda>v. vm_next (s v)) (\<lambda>v. vm_prev (s v)) (vma_list m) (last (0 # ns)) ns \<and>
     (\<forall>v\<in>set ns. vm_start (s v) < vm_end (s v)) \<and>
     sorted_wrt (\<lambda>v w. vm_end (s v) \<le> vm_start (s w)) ns \<and>
     vm_used m = vma_bytes s ns"

section \<open>The list\<close>

lemma next_on [simp]: "(\<lambda>p. vm_next (on_vma x f s p)) = (\<lambda>p. vm_next (s p))(x := vm_next (f (s x)))"
  and prev_on [simp]: "(\<lambda>p. vm_prev (on_vma x f s p)) = (\<lambda>p. vm_prev (s p))(x := vm_prev (f (s x)))"
  and next_upd [simp]: "(\<lambda>p. vm_next ((s(x := y)) p)) = (\<lambda>p. vm_next (s p))(x := vm_next y)"
  and prev_upd [simp]: "(\<lambda>p. vm_prev ((s(x := y)) p)) = (\<lambda>p. vm_prev (s p))(x := vm_prev y)"
  by (auto simp: on_vma_def)

lemma on_vma_at: "on_vma x f s p = (if p = x then f (s x) else s p)"
  by (simp add: on_vma_def)

lemma on_vma_other: "p \<noteq> x \<Longrightarrow> on_vma x f s p = s p"
  by (simp add: on_vma_def)

lemma not_ends: "p \<notin> set (us @ xs @ vs) \<Longrightarrow> (us \<noteq> [] \<longrightarrow> p \<noteq> last us) \<and> (vs \<noteq> [] \<longrightarrow> p \<noteq> hd vs)"
  by auto

text \<open>A node without its links.\<close>

definition vma_data :: "vma \<Rightarrow> vma" where
  "vma_data x = x\<lparr>vm_next := 0, vm_prev := 0\<rparr>"

lemma vma_data_simps [simp]:
  "vma_data (x\<lparr>vm_next := p\<rparr>) = vma_data x" "vma_data (x\<lparr>vm_prev := p\<rparr>) = vma_data x"
  "vm_start (vma_data x) = vm_start x" "vm_end (vma_data x) = vm_end x" "vma_at (vma_data x) a = vma_at x a"
  by (simp_all add: vma_data_def vma_at_def)

lemma vma_dataD:
  "vma_data x = vma_data y \<Longrightarrow> vm_start x = vm_start y \<and> vm_end x = vm_end y \<and> vma_at x a = vma_at y a"
  by (metis vma_data_simps(3,4,5))

definition same_data :: "vma_t set \<Rightarrow> vma_store \<Rightarrow> vma_store \<Rightarrow> bool" where
  "same_data A s s' \<longleftrightarrow> (\<forall>p\<in>A. vma_data (s' p) = vma_data (s p))"

lemma same_dataD:
  assumes "same_data A s s'" and "v \<in> A"
  shows "vm_start (s' v) = vm_start (s v)" and "vm_end (s' v) = vm_end (s v)" and "vma_at (s' v) a = vma_at (s v) a"
  using assms vma_dataD [of "s' v" "s v"] by (auto simp: same_data_def)

lemma same_data_mapped: "same_data (set ns) s s' \<Longrightarrow> mapped s' ns a = mapped s ns a"
  unfolding mapped_def by (intro Collect_cong ex_cong1) (auto simp: same_dataD)

lemma same_data_bytes: "same_data (set ns) s s' \<Longrightarrow> vma_bytes s' ns = vma_bytes s ns"
  unfolding vma_bytes_def by (intro arg_cong [where f = sum_list] map_cong refl) (simp add: same_dataD)

lemma sorted_wrt_data:
  assumes "same_data (set ns) s s'" "sorted_wrt (\<lambda>v w. vm_end (s v) \<le> vm_start (s w)) ns"
  shows "sorted_wrt (\<lambda>v w. vm_end (s' v) \<le> vm_start (s' w)) ns"
  by (rule sorted_wrt_mono_rel [OF _ assms(2)]) (simp add: same_dataD [OF assms(1)])

lemma mapped_append [simp]: "mapped s (us @ vs) a = mapped s us a \<union> mapped s vs a"
  and mapped_Nil [simp]: "mapped s [] a = {}"
  by (auto simp: mapped_def)

lemma mapped_Cons: "mapped s (v # vs) a =
    (if vm_start (s v) \<le> a \<and> a < vm_end (s v) then {vma_at (s v) a} else {}) \<union> mapped s vs a"
  by (auto simp: mapped_def)

lemma bytes_simps [simp]:
  "vma_bytes s [] = 0" "vma_bytes s (v # vs) = vm_end (s v) - vm_start (s v) + vma_bytes s vs"
  "vma_bytes s (us @ vs) = vma_bytes s us + vma_bytes s vs"
  by (simp_all add: vma_bytes_def)

lemma vma_okD:
  assumes "vma_ok m s ns"
  shows "dlinked (\<lambda>v. vm_next (s v)) (\<lambda>v. vm_prev (s v)) (vma_list m) (last (0 # ns)) ns"
    and "v \<in> set ns \<Longrightarrow> vm_start (s v) < vm_end (s v)"
    and "sorted_wrt (\<lambda>v w. vm_end (s v) \<le> vm_start (s w)) ns"
    and "vm_used m = vma_bytes s ns" and "distinct ns" and "0 \<notin> set ns"
    and "linked (\<lambda>v. vm_next (s v)) (vma_list m) ns 0" and "vma_list m = hd (ns @ [0])"
proof -
  show d: "dlinked (\<lambda>v. vm_next (s v)) (\<lambda>v. vm_prev (s v)) (vma_list m) (last (0 # ns)) ns"
    using assms by (simp add: vma_ok_def)
  show "v \<in> set ns \<Longrightarrow> vm_start (s v) < vm_end (s v)"
    "sorted_wrt (\<lambda>v w. vm_end (s v) \<le> vm_start (s w)) ns" "vm_used m = vma_bytes s ns"
    using assms by (simp_all add: vma_ok_def)
  show "distinct ns" "0 \<notin> set ns" by (rule dlinked_distinct [OF d], rule dlinked_nonnull [OF d])
  show l: "linked (\<lambda>v. vm_next (s v)) (vma_list m) ns 0" using d by (simp add: dlinked_def)
  show "vma_list m = hd (ns @ [0])" using l by (cases ns) auto
qed

text \<open>The ranges before, at and after a node.\<close>

lemma vma_ok_around:
  assumes "vma_ok m s (us @ v # vs)"
  shows "u \<in> set us \<Longrightarrow> vm_end (s u) \<le> vm_start (s v)" and "w \<in> set vs \<Longrightarrow> vm_end (s v) \<le> vm_start (s w)"
    and "vm_start (s v) < vm_end (s v)" and "v \<noteq> 0" and "vm_next (s v) = hd (vs @ [0])" and "vm_prev (s v) = last (0 # us)"
    and "v \<notin> set us" and "v \<notin> set vs"
proof -
  show "u \<in> set us \<Longrightarrow> vm_end (s u) \<le> vm_start (s v)" "w \<in> set vs \<Longrightarrow> vm_end (s v) \<le> vm_start (s w)"
    using vma_okD(3) [OF assms] by (simp_all add: sorted_wrt_append)
  show "vm_start (s v) < vm_end (s v)" using vma_okD(2) [OF assms] by simp
  show "v \<noteq> 0" using vma_okD(6) [OF assms] by auto
  show "vm_next (s v) = hd (vs @ [0])" "vm_prev (s v) = last (0 # us)"
    using dlinked_node [OF vma_okD(1) [OF assms]] by auto
  show "v \<notin> set us" "v \<notin> set vs" using vma_okD(5) [OF assms] by auto
qed

lemma vma_remove_spec:
  assumes ok: "vma_ok m s (us @ v # vs)"
  shows "\<exists>m' s'. vma_remove v (m, s) = (0, m', s') \<and> vma_ok m' s' (us @ vs) \<and> same_data UNIV s s' \<and>
    (\<forall>p. p \<notin> set (us @ v # vs) \<longrightarrow> s' p = s p)"
proof -
  note A = vma_ok_around [OF ok] and D = vma_okD [OF ok]
  have nz: "us \<noteq> [] \<Longrightarrow> last us \<noteq> 0 \<and> last us \<noteq> v" "vs \<noteq> [] \<Longrightarrow> hd vs \<noteq> 0 \<and> hd vs \<noteq> v \<and> (us \<noteq> [] \<longrightarrow> hd vs \<noteq> last us)"
    using D(5,6) by (cases us rule: rev_cases; cases vs; auto)+
  define s1 where "s1 = (if us = [] then s else on_vma (last us) (\<lambda>x. x\<lparr>vm_next := vm_next (s v)\<rparr>) s)"
  define s' where "s' = (if vs = [] then s1 else on_vma (hd vs) (\<lambda>x. x\<lparr>vm_prev := vm_prev (s v)\<rparr>) s1)"
  define m' where "m' = m\<lparr>vma_list := (if us = [] then vm_next (s v) else vma_list m),
      vm_used := vm_used m - (vm_end (s v) - vm_start (s v))\<rparr>"
  have pn: "vm_prev (s v) = (if us = [] then 0 else last us)" "vm_next (s v) = (if vs = [] then 0 else hd vs)"
    using A(5,6) by auto
  have v1: "s1 v = s v" "s' v = s v" using nz by (auto simp: s1_def s'_def on_vma_at)
  have run: "vma_remove v (m, s) = (0, m', s')"
    using nz A(4) pn v1 by (cases "us = []"; cases "vs = []") (simp_all add: vma_remove_def Let_def m'_def s'_def s1_def)
  have l: "(\<lambda>p. vm_next (s' p)) = (if us = [] then \<lambda>p. vm_next (s p) else (\<lambda>p. vm_next (s p))(last us := vm_next (s v)))"
      "(\<lambda>p. vm_prev (s' p)) = (if vs = [] then \<lambda>p. vm_prev (s p) else (\<lambda>p. vm_prev (s p))(hd vs := vm_prev (s v)))"
    by (simp_all add: s'_def s1_def fun_eq_iff on_vma_at)
  have m': "vma_list m' = (if us = [] then vm_next (s v) else vma_list m)"
      "vm_used m' = vm_used m - (vm_end (s v) - vm_start (s v))"
    by (simp_all add: m'_def)
  have data: "same_data UNIV s s'" by (simp add: same_data_def s'_def s1_def on_vma_at)
  have "dlinked (\<lambda>p. vm_next (s' p)) (\<lambda>p. vm_prev (s' p)) (vma_list m') (last (0 # us @ vs)) (us @ vs)"
    using dlinked_remove [OF D(1)] A(6) unfolding l m' by (auto split: if_splits)
  moreover have d: "same_data (set (us @ vs)) s s'" using data by (simp add: same_data_def)
  moreover have "sorted_wrt (\<lambda>v w. vm_end (s v) \<le> vm_start (s w)) (us @ vs)" using D(3) by (auto simp: sorted_wrt_append)
  moreover have "\<forall>u\<in>set (us @ vs). vm_start (s' u) < vm_end (s' u)" using D(2) by (auto simp: same_dataD [OF data])
  moreover have "vm_used m' = vma_bytes s' (us @ vs)" unfolding same_data_bytes [OF d] m' D(4) by simp
  ultimately have "vma_ok m' s' (us @ vs)" using sorted_wrt_data [OF d] by (simp add: vma_ok_def)
  moreover have "s' p = s p" if "p \<notin> set (us @ v # vs)" for p
    using not_ends [of p us "[v]" vs] that by (simp add: s'_def s1_def on_vma_other)
  ultimately show ?thesis using run data by blast
qed

text \<open>A list whose nodes kept their links, with new ranges.\<close>

lemma vma_ok_relink:
  assumes "dlinked (\<lambda>v. vm_next (s v)) (\<lambda>v. vm_prev (s v)) (vma_list m) t ns" "t = last (0 # ns)"
    and "\<And>v. v \<in> set ns \<Longrightarrow> vm_start (s v) < vm_end (s v)"
    and "sorted_wrt (\<lambda>v w. vm_end (s v) \<le> vm_start (s w)) ns" and "vm_used m = vma_bytes s ns"
  shows "vma_ok m s ns"
  using assms by (simp add: vma_ok_def)

lemma mapped_cong: "(\<And>v. v \<in> set ns \<Longrightarrow> s' v = s v) \<Longrightarrow> mapped s' ns a = mapped s ns a"
  unfolding mapped_def by (intro Collect_cong ex_cong1) auto

lemma bytes_cong: "(\<And>v. v \<in> set ns \<Longrightarrow> vm_start (s' v) = vm_start (s v) \<and> vm_end (s' v) = vm_end (s v)) \<Longrightarrow>
    vma_bytes s' ns = vma_bytes s ns"
  unfolding vma_bytes_def by (intro arg_cong [where f = sum_list] map_cong refl) simp

lemma vma_split_spec:
  assumes ok: "vma_ok m s (us @ v # vs)" and addr: "vm_start (s v) < addr" "addr < vm_end (s v)"
    and f: "fresh \<noteq> 0" "fresh \<notin> set (us @ v # vs)"
  shows "\<exists>s'. vma_split fresh name_ok v addr s = (0, s') \<and> vma_ok m s' (us @ v # fresh # vs) \<and>
    same_data (set us \<union> set vs) s s' \<and> vm_start (s' v) = vm_start (s v) \<and> vm_end (s' v) = addr \<and>
    vm_start (s' fresh) = addr \<and> vm_end (s' fresh) = vm_end (s v) \<and>
    (\<forall>a. vma_at (s' v) a = vma_at (s v) a \<and> vma_at (s' fresh) a = vma_at (s v) a) \<and> vm_next (s' v) = fresh"
proof -
  note A = vma_ok_around [OF ok] and D = vma_okD [OF ok]
  have nz: "vs \<noteq> [] \<Longrightarrow> hd vs \<noteq> 0 \<and> hd vs \<noteq> v \<and> hd vs \<noteq> fresh \<and> hd vs \<notin> set us" "fresh \<noteq> v"
    using D(5,6) f by (cases vs; auto)+
  define n where "n = (s v)\<lparr>vm_start := addr, vm_next := vm_next (s v), vm_prev := v,
      vm_name := (if name_ok then vm_name (s v) else None),
      vm_offset := (if vm_type (s v) = VMA_TYPE_FILE then vm_offset (s v) + (addr - vm_start (s v)) else vm_offset (s v))\<rparr>"
  define s1 where "s1 = on_vma v (\<lambda>x. x\<lparr>vm_end := addr, vm_next := fresh\<rparr>) (s(fresh := n))"
  define s' where "s' = (if vs = [] then s1 else on_vma (hd vs) (\<lambda>x. x\<lparr>vm_prev := fresh\<rparr>) s1)"
  have at: "s1 fresh = n" "s1 v = (s v)\<lparr>vm_end := addr, vm_next := fresh\<rparr>" "s' fresh = n"
      "s' v = (s v)\<lparr>vm_end := addr, vm_next := fresh\<rparr>"
    using nz by (auto simp: s1_def s'_def on_vma_at)
  have nn: "vm_next n = (if vs = [] then 0 else hd vs)" using A(5) by (auto simp: n_def)
  have run: "vma_split fresh name_ok v addr s = (0, s')"
  proof -
    let ?a = "on_vma fresh (\<lambda>x. x\<lparr>vm_start := addr, vm_next := vm_next (s v), vm_prev := v,
        vm_name := (if name_ok then vm_name (s v) else None)\<rparr>) (s(fresh := s v))"
    have a: "?a v = s v" using nz by (simp add: on_vma_at)
    have n: "(if vm_type (s v) = VMA_TYPE_FILE
        then on_vma fresh (\<lambda>x. x\<lparr>vm_offset := vm_offset x + (addr - vm_start (s v))\<rparr>) ?a else ?a) = s(fresh := n)"
      by (auto simp: on_vma_def n_def)
    have c: "\<not> (v = 0 \<or> addr \<le> vm_start (s v) \<or> vm_end (s v) \<le> addr)" using A(4) addr by auto
    have "vma_split fresh name_ok v addr s =
        (0, if vm_next (s1 fresh) \<noteq> 0 then on_vma (vm_next (s1 fresh)) (\<lambda>x. x\<lparr>vm_prev := fresh\<rparr>) s1 else s1)"
      unfolding vma_split_def vma_alloc_def s1_def n [symmetric] Let_def if_not_P [OF c] if_not_P [OF f(1)] prod.case
        if_not_P [OF f(1)] fun_upd_upd fun_upd_other [OF nz(2) [symmetric]] a by (rule refl)
    then show ?thesis using nz(1) by (simp add: at(1) nn s'_def)
  qed
  have ins: "dlinked (\<lambda>p. vm_next (s' p)) (\<lambda>p. vm_prev (s' p)) (vma_list m) (last (0 # us @ v # fresh # vs)) (us @ v # fresh # vs)"
  proof -
    have l: "(\<lambda>p. vm_next (s' p)) = ((\<lambda>p. vm_next (s p))(fresh := hd (vs @ [0])))(v := fresh)"
        "(\<lambda>p. vm_prev (s' p)) = (if vs = [] then (\<lambda>p. vm_prev (s p))(fresh := v)
           else ((\<lambda>p. vm_prev (s p))(fresh := v))(hd vs := fresh))"
      using nz A(5) by (auto simp: s'_def s1_def n_def fun_eq_iff on_vma_at)
    have "dlinked (\<lambda>p. vm_next (s p)) (\<lambda>p. vm_prev (s p)) (vma_list m) (last (0 # us @ v # vs)) ((us @ [v]) @ vs)"
      using D(1) by simp
    from dlinked_insert [OF this f(1)] f(2) show ?thesis unfolding l by (auto split: if_splits)
  qed
  have data: "same_data (set us \<union> set vs) s s'"
    unfolding same_data_def
  proof
    fix p
    assume "p \<in> set us \<union> set vs"
    then have "p \<noteq> v" "p \<noteq> fresh" using D(5) f(2) by auto
    then show "vma_data (s' p) = vma_data (s p)" by (simp add: s'_def s1_def on_vma_at)
  qed
  have "sorted_wrt (\<lambda>v w. vm_end (s' v) \<le> vm_start (s' w)) (us @ v # fresh # vs)"
  proof -
    have "same_data (set (us @ vs)) s s'" using data by simp
    moreover have "sorted_wrt (\<lambda>v w. vm_end (s v) \<le> vm_start (s w)) (us @ vs)" using D(3) by (simp add: sorted_wrt_append)
    ultimately have "sorted_wrt (\<lambda>v w. vm_end (s' v) \<le> vm_start (s' w)) (us @ vs)" by (rule sorted_wrt_data)
    moreover have "\<forall>u\<in>set us. vm_end (s' u) \<le> vm_start (s v)" "\<forall>w\<in>set vs. vm_end (s v) \<le> vm_start (s' w)"
      using A(1,2) same_dataD [OF data] by auto
    moreover have "\<forall>u\<in>set us. vm_end (s' u) \<le> addr" "\<forall>w\<in>set vs. addr \<le> vm_start (s' w)"
      using calculation(2,3) addr by (meson le_less_trans less_imp_le, meson less_le_trans less_imp_le)
    ultimately show ?thesis by (simp add: sorted_wrt_append at n_def)
  qed
  moreover have "\<And>u. u \<in> set (us @ v # fresh # vs) \<Longrightarrow> vm_start (s' u) < vm_end (s' u)"
    using D(2) same_dataD [OF data] addr at by (auto simp: n_def)
  moreover have "vm_used m = vma_bytes s' (us @ v # fresh # vs)"
  proof -
    have "vma_bytes s' us = vma_bytes s us" "vma_bytes s' vs = vma_bytes s vs"
      by (rule same_data_bytes, use data in \<open>simp add: same_data_def\<close>)+
    then show ?thesis using D(4) at by (simp add: n_def)
  qed
  ultimately have "vma_ok m s' (us @ v # fresh # vs)" using ins by (intro vma_ok_relink) auto
  moreover have "vma_at (s' v) a = vma_at (s v) a" "vma_at (s' fresh) a = vma_at (s v) a" for a
    by (simp_all add: at n_def vma_at_def)
  ultimately show ?thesis using run data at by (intro exI [of _ s']) (simp add: n_def)
qed

text \<open>A node with a new, smaller range and the same links.\<close>

lemma vma_ok_shrink:
  assumes ok: "vma_ok m s (us @ v # vs)"
    and links: "vm_next (f (s v)) = vm_next (s v)" "vm_prev (f (s v)) = vm_prev (s v)"
    and rng: "vm_start (s v) \<le> vm_start (f (s v))" "vm_start (f (s v)) < vm_end (f (s v))" "vm_end (f (s v)) \<le> vm_end (s v)"
    and m': "vma_list m' = vma_list m"
      "vm_used m' = vm_used m - (vm_end (s v) - vm_start (s v)) + (vm_end (f (s v)) - vm_start (f (s v)))"
  shows "vma_ok m' (on_vma v f s) (us @ v # vs)"
proof (rule vma_ok_relink)
  note A = vma_ok_around [OF ok] and D = vma_okD [OF ok]
  let ?s = "on_vma v f s"
  have "(\<lambda>p. vm_next (?s p)) = (\<lambda>p. vm_next (s p))" "(\<lambda>p. vm_prev (?s p)) = (\<lambda>p. vm_prev (s p))"
    using links by (auto simp: fun_eq_iff on_vma_at)
  then show "dlinked (\<lambda>p. vm_next (?s p)) (\<lambda>p. vm_prev (?s p)) (vma_list m') (last (0 # us @ v # vs)) (us @ v # vs)"
    using D(1) m'(1) by simp
  show "last (0 # us @ v # vs) = last (0 # us @ v # vs)" ..
  show "vm_start (?s u) < vm_end (?s u)" if "u \<in> set (us @ v # vs)" for u
    using D(2) [OF that] rng by (simp add: on_vma_at)
  show "sorted_wrt (\<lambda>v w. vm_end (?s v) \<le> vm_start (?s w)) (us @ v # vs)"
  proof (rule sorted_wrt_mono_rel [OF _ D(3)])
    fix x y
    assume "vm_end (s x) \<le> vm_start (s y)"
    then show "vm_end (?s x) \<le> vm_start (?s y)" using rng(1,3) by (auto simp: on_vma_at elim: order_trans)
  qed
  have "vma_bytes ?s us = vma_bytes s us" "vma_bytes ?s vs = vma_bytes s vs"
    by (rule bytes_cong, use A(7,8) in \<open>auto simp: on_vma_at\<close>)+
  then show "vm_used m' = vma_bytes ?s (us @ v # vs)" using D(4) m'(2) by (simp add: on_vma_at)
qed

text \<open>No range of a part of the list that lies before or after an address contains it.\<close>

lemma mapped_before: "(\<And>u. u \<in> set us \<Longrightarrow> vm_end (s u) \<le> lo) \<Longrightarrow> lo \<le> a \<Longrightarrow> mapped s us a = {}"
  by (fastforce simp: mapped_def)

lemma mapped_after: "(\<And>w. w \<in> set vs \<Longrightarrow> hi \<le> vm_start (s w)) \<Longrightarrow> a < hi \<Longrightarrow> mapped s vs a = {}"
  by (fastforce simp: mapped_def)

section \<open>Insertion\<close>

definition meets :: "vma_store \<Rightarrow> u64 \<Rightarrow> u64 \<Rightarrow> vma_t \<Rightarrow> bool" where
  "meets s lo hi v \<longleftrightarrow> \<not> (hi \<le> vm_start (s v) \<or> vm_end (s v) \<le> lo)"

lemma vma_find_intersection_list:
  "vma_ok m s ns \<Longrightarrow> vma_find_intersection lo hi (m, s) = Some (or_null (find (meets s lo hi) ns))"
  unfolding vma_find_intersection_def meets_def by (simp add: find_node_linked [OF vma_okD(7)])

lemma dropWhile_starts:
  assumes ok: "vma_ok m s ns" and w: "w \<in> set (dropWhile (\<lambda>v. vm_start (s v) < lo) ns)"
  shows "lo \<le> vm_start (s w)"
proof -
  let ?us = "takeWhile (\<lambda>v. vm_start (s v) < lo) ns"
  obtain x xs where x: "dropWhile (\<lambda>v. vm_start (s v) < lo) ns = x # xs"
    using w by (cases "dropWhile (\<lambda>v. vm_start (s v) < lo) ns") auto
  then have lo: "lo \<le> vm_start (s x)" using hd_dropWhile [of "\<lambda>v. vm_start (s v) < lo" ns] by auto
  have "vma_ok m s (?us @ x # xs)" using ok x takeWhile_dropWhile_id by metis
  note A = vma_ok_around [OF this]
  show ?thesis
  proof (cases "w = x")
    case False
    then have "vm_end (s x) \<le> vm_start (s w)" using A(2) w x by simp
    then show ?thesis using lo A(3) by (meson le_less_trans less_le_trans less_imp_le)
  qed (simp add: lo)
qed

lemma same_data_refl: "same_data A s s"
  by (simp add: same_data_def)

lemma same_data_on: "(\<And>y. vma_data (f y) = vma_data y) \<Longrightarrow> same_data A s s0 \<Longrightarrow> same_data A s (on_vma x f s0)"
  by (simp add: same_data_def on_vma_at)

lemma or_null_hd: "or_null (find P xs) = hd (dropWhile (\<lambda>x. \<not> P x) xs @ [0])"
  by (induction xs) auto

lemma vma_insert_spec:
  assumes ok: "vma_ok m s ns" and new: "new \<noteq> 0" "new \<notin> set ns" "vm_start (s new) < vm_end (s new)"
    and clear: "\<And>v. v \<in> set ns \<Longrightarrow> \<not> meets s (vm_start (s new)) (vm_end (s new)) v"
  shows "\<exists>m' s' us vs. vma_insert new (m, s) = Some (0, m', s') \<and> ns = us @ vs \<and> vma_ok m' s' (us @ new # vs) \<and>
    same_data UNIV s s' \<and> (\<forall>p. p \<notin> insert new (set ns) \<longrightarrow> s' p = s p)"
proof -
  let ?P = "\<lambda>v. vm_start (s v) < vm_start (s new)"
  define us where "us = takeWhile ?P ns"
  define vs where "vs = dropWhile ?P ns"
  have ns: "ns = us @ vs" by (simp add: us_def vs_def)
  note D = vma_okD [OF ok]
  have below: "vm_end (s u) \<le> vm_start (s new)" if u: "u \<in> set us" for u
  proof -
    have "?P u" using u set_takeWhileD unfolding us_def by fast
    moreover have "\<not> meets s (vm_start (s new)) (vm_end (s new)) u" using clear u ns by simp
    ultimately show ?thesis using new(3) by (auto simp: meets_def)
  qed
  have above: "vm_end (s new) \<le> vm_start (s w)" if w: "w \<in> set vs" for w
  proof -
    have "vm_start (s new) \<le> vm_start (s w)" using dropWhile_starts [OF ok] w by (simp add: vs_def)
    moreover have "vm_start (s w) < vm_end (s w)" "\<not> meets s (vm_start (s new)) (vm_end (s new)) w"
      using D(2) clear w ns by simp_all
    ultimately show ?thesis by (auto simp: meets_def)
  qed
  have link: "find_link (\<lambda>v. \<not> ?P v) (\<lambda>v. vm_next (s v)) 0 (vma_list m) = Some (last (0 # us), hd (vs @ [0]))"
    using find_link_linked [OF D(7), of "\<lambda>v. \<not> ?P v" 0] by (simp add: us_def vs_def or_null_hd)
  define s0 where "s0 = on_vma new (\<lambda>x. x\<lparr>vm_next := hd (vs @ [0]), vm_prev := last (0 # us)\<rparr>) s"
  define s1 where "s1 = (if us = [] then s0 else on_vma (last us) (\<lambda>x. x\<lparr>vm_next := new\<rparr>) s0)"
  define s' where "s' = (if vs = [] then s1 else on_vma (hd vs) (\<lambda>x. x\<lparr>vm_prev := new\<rparr>) s1)"
  define m' where "m' = m\<lparr>vma_list := (if us = [] then new else vma_list m),
      vm_used := vm_used m + (vm_end (s new) - vm_start (s new))\<rparr>"
  have nz: "us \<noteq> [] \<Longrightarrow> last us \<noteq> 0 \<and> last us \<noteq> new" "vs \<noteq> [] \<Longrightarrow> hd vs \<noteq> 0 \<and> hd vs \<noteq> new"
    using D(6) new(2) last_in_set [of us] hd_in_set [of vs] unfolding ns by fastforce+
  have data: "same_data UNIV s s'"
    unfolding s'_def s1_def s0_def by (simp add: same_data_on same_data_refl)
  have run: "vma_insert new (m, s) = Some (0, m', s')"
  proof -
    have "find (meets s (vm_start (s new)) (vm_end (s new))) ns = None" using clear by (auto simp: find_None_iff)
    then have "vma_find_intersection (vm_start (s new)) (vm_end (s new)) (m, s) = Some 0"
      by (simp add: vma_find_intersection_list [OF ok])
    moreover have "vm_end (s' new) = vm_end (s new)" "vm_start (s' new) = vm_start (s new)"
      using same_dataD [OF data] by simp_all
    ultimately show ?thesis
      unfolding vma_insert_def prod.case if_not_P [OF new(1)] using link nz
      by (cases "us = []"; cases "vs = []") (simp_all add: Let_def s0_def s'_def s1_def m'_def)
  qed
  have l: "(\<lambda>p. vm_next (s' p)) = (if us = [] then (\<lambda>p. vm_next (s p))(new := hd (vs @ [0]))
         else ((\<lambda>p. vm_next (s p))(new := hd (vs @ [0])))(last us := new))"
      "(\<lambda>p. vm_prev (s' p)) = (if vs = [] then (\<lambda>p. vm_prev (s p))(new := last (0 # us))
         else ((\<lambda>p. vm_prev (s p))(new := last (0 # us)))(hd vs := new))"
    by (simp_all add: s'_def s1_def s0_def fun_eq_iff on_vma_at)
  have "vma_ok m' s' (us @ new # vs)"
  proof (rule vma_ok_relink)
    have "dlinked (\<lambda>p. vm_next (s p)) (\<lambda>p. vm_prev (s p)) (vma_list m) (last (0 # us @ vs)) (us @ vs)"
      using D(1) ns by simp
    from dlinked_insert [OF this new(1)] new(2)
    show "dlinked (\<lambda>p. vm_next (s' p)) (\<lambda>p. vm_prev (s' p)) (vma_list m') (last (0 # us @ new # vs)) (us @ new # vs)"
      unfolding l m'_def ns by (auto split: if_splits)
    show "vm_start (s' u) < vm_end (s' u)" if "u \<in> set (us @ new # vs)" for u
      using that D(2) new(3) ns by (auto simp: same_dataD [OF data])
    show "sorted_wrt (\<lambda>v w. vm_end (s' v) \<le> vm_start (s' w)) (us @ new # vs)"
      using D(3) below above new(3) unfolding ns
      by (fastforce simp: sorted_wrt_append same_dataD [OF data] intro: order_trans less_imp_le)
    have "same_data (set (us @ new # vs)) s s'" using data by (simp add: same_data_def)
    from same_data_bytes [OF this] show "vm_used m' = vma_bytes s' (us @ new # vs)" using D(4) ns by (simp add: m'_def)
  qed simp
  moreover have "s' p = s p" if "p \<notin> insert new (set ns)" for p
    using not_ends [of p us "[]" vs] that by (simp add: ns s'_def s1_def s0_def on_vma_other)
  ultimately show ?thesis using run ns data by blast
qed

end
