(* ===== verification/VmaRange.thy ===== *)
theory VmaRange
  imports Vma
begin

section \<open>Removing a range\<close>

text \<open>The cases of a turn, on the node after \<open>us\<close>.\<close>

lemma shrink_left_spec:
  assumes ok: "vma_ok m s (us @ v # vs)" and r: "vm_start (s v) < lo" "lo \<le> vm_end (s v)"
  shows "vma_ok (use_less (vm_end (s v) - lo) m) (on_vma v (\<lambda>x. x\<lparr>vm_end := lo\<rparr>) s) (us @ v # vs)"
  by (rule vma_ok_shrink [OF ok]) (use r in \<open>auto simp: use_less_def\<close>)

lemma shrink_right_spec:
  assumes ok: "vma_ok m s (us @ v # vs)" and r: "vm_start (s v) \<le> hi" "hi < vm_end (s v)"
  shows "vma_ok (use_less (hi - vm_start (s v)) m) (on_vma v (\<lambda>x. x\<lparr>vm_start := hi, vm_offset := g x\<rparr>) s) (us @ v # vs)"
  by (rule vma_ok_shrink [OF ok]) (use r in \<open>auto simp: use_less_def\<close>)

lemma mapped_on: "v \<notin> set ns \<Longrightarrow> mapped (on_vma v f s) ns a = mapped s ns a"
  by (rule mapped_cong) (auto simp: on_vma_at)

lemma vma_at_end [simp]: "vma_at (x\<lparr>vm_end := e\<rparr>) a = vma_at x a"
  by (simp add: vma_at_def)

lemma vma_at_start:
  "vma_at (x\<lparr>vm_start := hi, vm_offset := (if vm_type x = VMA_TYPE_FILE then vm_offset x + (hi - vm_start x) else vm_offset x)\<rparr>) a =
   vma_at x a"
  by (simp add: vma_at_def)

text \<open>What the rest of the walk does to the whole list: on success the range is gone and all else is as before; it
  fails only for lack of a node, at a range that covers the removed one on both sides, having changed nothing.\<close>

definition unmapped :: "vma_t \<Rightarrow> u64 \<Rightarrow> u64 \<Rightarrow> vma_t list \<Rightarrow> vma_t list \<Rightarrow> vma_manager_t \<times> vma_store \<Rightarrow>
    int \<times> vma_manager_t \<times> vma_store \<Rightarrow> bool" where
  "unmapped fresh lo hi us vs ms res \<longleftrightarrow>
     (case (ms, res) of ((m, s), (r, m', s')) \<Rightarrow>
        (\<exists>ns'. vma_ok m' s' ns' \<and> set ns' \<subseteq> insert fresh (set us \<union> set vs) \<and>
           (if r = 0 then \<forall>a. mapped s' ns' a = (if lo \<le> a \<and> a < hi then {} else mapped s (us @ vs) a)
            else r = - 1 \<and> fresh = 0 \<and> (m', s') = (m, s) \<and> (\<exists>v\<in>set vs. vm_start (s v) < lo \<and> hi < vm_end (s v)))))"

lemma unmappedI:
  assumes "vma_ok m' s' ns'" and "set ns' \<subseteq> insert fresh (set us \<union> set vs)"
    and "\<And>a. mapped s' ns' a = (if lo \<le> a \<and> a < hi then {} else mapped s (us @ vs) a)"
  shows "unmapped fresh lo hi us vs (m, s) (0, m', s')"
  using assms by (auto simp: unmapped_def)

text \<open>A turn that changes only the range, followed by a good rest of the walk.\<close>

lemma unmapped_step:
  assumes "unmapped fresh lo hi us' vs' (m1, s1) res"
    and "\<And>a. \<not> (lo \<le> a \<and> a < hi) \<Longrightarrow> mapped s1 (us' @ vs') a = mapped s (us @ vs) a"
    and "set us' \<union> set vs' \<subseteq> set us \<union> set vs"
    and "(m1, s1) = (m, s) \<and> vs' = tl vs \<or> (\<forall>w\<in>set vs'. lo \<le> vm_start (s1 w))"
  shows "unmapped fresh lo hi us vs (m, s) res"
proof -
  obtain r m' s' where res: "res = (r, m', s')" by (cases res)
  obtain ns' where ns: "vma_ok m' s' ns'" "set ns' \<subseteq> insert fresh (set us' \<union> set vs')"
    and r: "if r = 0 then \<forall>a. mapped s' ns' a = (if lo \<le> a \<and> a < hi then {} else mapped s1 (us' @ vs') a)
            else r = - 1 \<and> fresh = 0 \<and> (m', s') = (m1, s1) \<and> (\<exists>v\<in>set vs'. vm_start (s1 v) < lo \<and> hi < vm_end (s1 v))"
    using assms(1) by (auto simp: unmapped_def res)
  show ?thesis
  proof (cases "r = 0")
    case True
    then show ?thesis using ns r assms(2,3) by (auto simp: res intro!: unmappedI)
  next
    case False
    then obtain w where w: "w \<in> set vs'" "vm_start (s1 w) < lo" "hi < vm_end (s1 w)" using r by auto
    then have "(m1, s1) = (m, s)" "vs' = tl vs" using assms(4) by (auto simp: not_le)
    moreover have "set (tl vs) \<subseteq> set vs" by (cases vs) auto
    ultimately show ?thesis using False r ns w assms(3) by (auto simp: unmapped_def res)
  qed
qed

text \<open>The turns, one lemma per case of the code.\<close>

lemma turn_skip: "vm_end (s v) \<le> lo \<Longrightarrow> unmap_turn fresh name_ok lo hi v (m, s) = (Inr (vm_next (s v)), m, s)"
  by (simp add: unmap_turn_def)

lemma turn_stop: "lo < vm_end (s v) \<Longrightarrow> hi \<le> vm_start (s v) \<Longrightarrow> unmap_turn fresh name_ok lo hi v (m, s) = (Inl 0, m, s)"
  by (simp add: unmap_turn_def not_le)

lemma turn_remove:
  assumes "lo < vm_end (s v)" "vm_start (s v) < hi" "lo \<le> vm_start (s v)" "vm_end (s v) \<le> hi"
    and "vma_remove v (m, s) = (0, m', s')"
  shows "unmap_turn fresh name_ok lo hi v (m, s) = (Inr (vm_next (s v)), m', s')"
proof -
  have c: "\<not> vm_end (s v) \<le> lo" "\<not> hi \<le> vm_start (s v)" using assms by auto
  show ?thesis using assms(3-5) by (simp add: unmap_turn_def c Let_def)
qed

lemma turn_cross:
  assumes "vm_start (s v) < lo" "lo < hi" "hi < vm_end (s v)"
  shows "unmap_turn fresh name_ok lo hi v (m, s) =
    (let (r, s) = vma_split fresh name_ok v hi s in
     if r \<noteq> 0 then (Inl (- 1), m, s)
     else let s = on_vma v (\<lambda>x. x\<lparr>vm_end := lo\<rparr>) s in (Inr (vm_next (s v)), use_less (hi - lo) m, s))"
proof -
  have c: "\<not> vm_end (s v) \<le> lo" "\<not> hi \<le> vm_start (s v)" "\<not> (lo \<le> vm_start (s v) \<and> vm_end (s v) \<le> hi)"
    using assms by auto
  show ?thesis using assms(1,3) by (simp add: unmap_turn_def if_not_P [OF c(1)] if_not_P [OF c(2)] if_not_P [OF c(3)])
qed

lemma turn_left:
  assumes "vm_start (s v) < lo" "lo < vm_end (s v)" "vm_end (s v) \<le> hi"
  shows "unmap_turn fresh name_ok lo hi v (m, s) =
    (Inr (vm_next (s v)), use_less (vm_end (s v) - lo) m, on_vma v (\<lambda>x. x\<lparr>vm_end := lo\<rparr>) s)"
proof -
  have c: "\<not> vm_end (s v) \<le> lo" "\<not> hi \<le> vm_start (s v)" "\<not> (lo \<le> vm_start (s v) \<and> vm_end (s v) \<le> hi)"
      "\<not> hi < vm_end (s v)"
    using assms by auto
  show ?thesis using assms(1)
    by (simp add: unmap_turn_def if_not_P [OF c(1)] if_not_P [OF c(2)] if_not_P [OF c(3)] c(4) Let_def on_vma_at)
qed

lemma turn_right:
  assumes "lo \<le> vm_start (s v)" "vm_start (s v) < hi" "hi < vm_end (s v)"
  shows "unmap_turn fresh name_ok lo hi v (m, s) =
    (Inl 0, use_less (hi - vm_start (s v)) m,
     on_vma v (\<lambda>x. x\<lparr>vm_start := hi, vm_offset :=
        (if vm_type x = VMA_TYPE_FILE then vm_offset x + (hi - vm_start x) else vm_offset x)\<rparr>) s)"
proof -
  have c: "\<not> vm_end (s v) \<le> lo" "\<not> hi \<le> vm_start (s v)" "\<not> (lo \<le> vm_start (s v) \<and> vm_end (s v) \<le> hi)"
      "\<not> vm_start (s v) < lo"
    using assms by auto
  show ?thesis using assms(3) by (auto simp: unmap_turn_def c Let_def on_vma_def)
qed

lemma unmap_loop_0 [simp]: "unmap_loop fresh name_ok lo hi 0 ms = Some (0, ms)"
  by (simp add: unmap_loop.simps)

lemma unmap_loop_Inl:
  "unmap_turn fresh name_ok lo hi v ms = (Inl r, ms') \<Longrightarrow> v \<noteq> 0 \<Longrightarrow> unmap_loop fresh name_ok lo hi v ms = Some (r, ms')"
  by (simp add: unmap_loop.simps)

lemma unmap_loop_Inr:
  "unmap_turn fresh name_ok lo hi v ms = (Inr w, ms') \<Longrightarrow> v \<noteq> 0 \<Longrightarrow>
   unmap_loop fresh name_ok lo hi v ms = unmap_loop fresh name_ok lo hi w ms'"
  by (simp add: unmap_loop.simps [of _ _ _ _ v])

text \<open>A range in the middle of a node: the node is split and the walk stops behind the new one.\<close>

lemma unmap_cross:
  assumes ok: "vma_ok m s (us @ v # vs)" and r: "vm_start (s v) < lo" "lo < hi" "hi < vm_end (s v)"
    and f: "fresh \<noteq> 0 \<longrightarrow> fresh \<notin> set (us @ v # vs)"
  shows "\<exists>res. unmap_loop fresh name_ok lo hi v (m, s) = Some res \<and> unmapped fresh lo hi us (v # vs) (m, s) res"
proof -
  note A = vma_ok_around [OF ok]
  have hi: "vm_start (s v) < hi" using r by simp
  show ?thesis
  proof (cases "fresh = 0")
    case True
    then have "vma_split fresh name_ok v hi s = (- 1, s)" by (simp add: vma_split_def vma_alloc_def)
    then have "unmap_loop fresh name_ok lo hi v (m, s) = Some (- 1, m, s)"
      by (intro unmap_loop_Inl A(4)) (simp add: turn_cross [where lo = lo and hi = hi and s = s and v = v, OF r])
    moreover have "unmapped fresh lo hi us (v # vs) (m, s) (- 1, m, s)"
      using ok r True by (auto simp: unmapped_def)
    ultimately show ?thesis by blast
  next
    case False
    then obtain s1 where s1: "vma_split fresh name_ok v hi s = (0, s1)" "vma_ok m s1 (us @ v # fresh # vs)"
        "same_data (set us \<union> set vs) s s1" "vm_start (s1 v) = vm_start (s v)" "vm_end (s1 v) = hi"
        "vm_start (s1 fresh) = hi" "vm_end (s1 fresh) = vm_end (s v)"
        "\<forall>a. vma_at (s1 v) a = vma_at (s v) a \<and> vma_at (s1 fresh) a = vma_at (s v) a" "vm_next (s1 v) = fresh"
      using vma_split_spec [OF ok hi r(3) False, of name_ok] f by auto
    define s2 where "s2 = on_vma v (\<lambda>x. x\<lparr>vm_end := lo\<rparr>) s1"
    define m2 where "m2 = use_less (hi - lo) m"
    have ok2: "vma_ok m2 s2 (us @ v # fresh # vs)"
      using shrink_left_spec [OF s1(2), of lo] r s1(4,5) by (simp add: s2_def m2_def)
    have ne: "fresh \<noteq> v" using f False by auto
    have at: "s2 fresh = s1 fresh" "vm_next (s2 v) = fresh" using s1(9) ne by (simp_all add: s2_def on_vma_at)
    have "unmap_loop fresh name_ok lo hi v (m, s) = unmap_loop fresh name_ok lo hi fresh (m2, s2)"
      using at(2) by (intro unmap_loop_Inr A(4)) (simp add: turn_cross [where lo = lo and hi = hi and s = s and v = v, OF r] s1(1) s2_def m2_def Let_def)
    also have "\<dots> = Some (0, m2, s2)"
      using r at s1(6,7) by (intro unmap_loop_Inl turn_stop False) auto
    finally have run: "unmap_loop fresh name_ok lo hi v (m, s) = Some (0, m2, s2)" .
    have "mapped s2 (us @ v # fresh # vs) a = (if lo \<le> a \<and> a < hi then {} else mapped s (us @ v # vs) a)" for a
    proof -
      have o: "mapped s2 us a = mapped s us a" "mapped s2 vs a = mapped s vs a"
        using A(7,8) s1(3) by (simp_all add: s2_def mapped_on same_data_mapped same_data_def)
      have before: "lo \<le> a \<Longrightarrow> mapped s us a = {}"
        by (rule mapped_before [of us s lo]) (use A(1) r in \<open>auto intro: order_trans less_imp_le\<close>)
      have after: "a < hi \<Longrightarrow> mapped s vs a = {}"
        by (rule mapped_after [of vs hi s]) (use A(2) r in \<open>auto intro: order_trans less_imp_le\<close>)
      have v: "vm_start (s2 v) = vm_start (s v)" "vm_end (s2 v) = lo" "vma_at (s2 v) a = vma_at (s v) a"
        using s1(4,8) by (simp_all add: s2_def on_vma_at)
      show ?thesis using r s1(6,7,8) before after by (auto simp: mapped_Cons o v at(1))
    qed
    with ok2 have "unmapped fresh lo hi us (v # vs) (m, s) (0, m2, s2)" by (intro unmappedI) auto
    then show ?thesis using run by blast
  qed
qed

lemma unmap_right:
  assumes ok: "vma_ok m s (us @ v # vs)" and r: "lo \<le> vm_start (s v)" "vm_start (s v) < hi" "hi < vm_end (s v)"
    and us: "\<forall>u\<in>set us. vm_end (s u) \<le> lo"
  shows "\<exists>res. unmap_loop fresh name_ok lo hi v (m, s) = Some res \<and> unmapped fresh lo hi us (v # vs) (m, s) res"
proof -
  note A = vma_ok_around [OF ok]
  let ?g = "\<lambda>x. if vm_type x = VMA_TYPE_FILE then vm_offset x + (hi - vm_start x) else vm_offset x"
  define s1 where "s1 = on_vma v (\<lambda>x. x\<lparr>vm_start := hi, vm_offset := ?g x\<rparr>) s"
  define m1 where "m1 = use_less (hi - vm_start (s v)) m"
  have run: "unmap_loop fresh name_ok lo hi v (m, s) = Some (0, m1, s1)"
    unfolding s1_def m1_def by (rule unmap_loop_Inl [OF turn_right [where s = s] A(4)]) (fact r)+
  have ok1: "vma_ok m1 s1 (us @ v # vs)" unfolding s1_def m1_def by (rule shrink_right_spec [OF ok]) (use r in auto)
  have "mapped s1 (us @ v # vs) a = (if lo \<le> a \<and> a < hi then {} else mapped s (us @ v # vs) a)" for a
  proof -
    have o: "mapped s1 us a = mapped s us a" "mapped s1 vs a = mapped s vs a"
      using A(7,8) by (simp_all add: s1_def mapped_on)
    have before: "lo \<le> a \<Longrightarrow> mapped s us a = {}" by (rule mapped_before [of us s lo]) (use us in auto)
    have after: "a < hi \<Longrightarrow> mapped s vs a = {}"
      by (rule mapped_after [of vs hi s]) (use A(2) r in \<open>auto intro: order_trans less_imp_le\<close>)
    have v: "vm_start (s1 v) = hi" "vm_end (s1 v) = vm_end (s v)" "vma_at (s1 v) a = vma_at (s v) a"
      by (simp_all add: s1_def on_vma_at vma_at_start)
    show ?thesis using r before after by (auto simp: mapped_Cons o v)
  qed
  with ok1 have "unmapped fresh lo hi us (v # vs) (m, s) (0, m1, s1)" by (intro unmappedI) auto
  then show ?thesis using run by blast
qed

text \<open>A removed node and a node cut at its end, given the rest of the walk.\<close>

lemma unmap_removed:
  assumes ok: "vma_ok m s (us @ v # vs)" and c: "lo < vm_end (s v)" "vm_start (s v) < hi" "lo \<le> vm_start (s v)" "vm_end (s v) \<le> hi"
    and r: "vma_remove v (m, s) = (0, m', s')" "same_data UNIV s s'"
    and rest: "\<exists>res. unmap_loop fresh name_ok lo hi (hd (vs @ [0])) (m', s') = Some res \<and> unmapped fresh lo hi us vs (m', s') res"
  shows "\<exists>res. unmap_loop fresh name_ok lo hi v (m, s) = Some res \<and> unmapped fresh lo hi us (v # vs) (m, s) res"
proof -
  note A = vma_ok_around [OF ok]
  have after: "\<forall>w\<in>set vs. lo \<le> vm_start (s w)" using A(2) c(1) by (meson less_imp_le order_trans)
  have d: "mapped s' ns a = mapped s ns a" for ns a
    using r(2) by (intro same_data_mapped) (simp add: same_data_def)
  obtain res where res: "unmap_loop fresh name_ok lo hi (vm_next (s v)) (m', s') = Some res"
      "unmapped fresh lo hi us vs (m', s') res"
    using rest A(5) by auto
  from res(2) have "unmapped fresh lo hi us (v # vs) (m, s) res"
    by (rule unmapped_step) (use c after in \<open>auto simp: d mapped_Cons same_dataD [OF r(2)]\<close>)
  then show ?thesis using res(1) A(4) by (simp add: unmap_loop_Inr [OF turn_remove [where s = s, OF c r(1)]])
qed

lemma unmap_left:
  assumes ok: "vma_ok m s (us @ v # vs)" and c: "vm_start (s v) < lo" "lo < vm_end (s v)" "vm_end (s v) \<le> hi"
    and rest: "\<exists>res. unmap_loop fresh name_ok lo hi (hd (vs @ [0]))
        (use_less (vm_end (s v) - lo) m, on_vma v (\<lambda>x. x\<lparr>vm_end := lo\<rparr>) s) = Some res \<and>
      unmapped fresh lo hi (us @ [v]) vs (use_less (vm_end (s v) - lo) m, on_vma v (\<lambda>x. x\<lparr>vm_end := lo\<rparr>) s) res"
  shows "\<exists>res. unmap_loop fresh name_ok lo hi v (m, s) = Some res \<and> unmapped fresh lo hi us (v # vs) (m, s) res"
proof -
  note A = vma_ok_around [OF ok]
  define s' where "s' = on_vma v (\<lambda>x. x\<lparr>vm_end := lo\<rparr>) s"
  define m' where "m' = use_less (vm_end (s v) - lo) m"
  have s': "u \<noteq> v \<Longrightarrow> s' u = s u" "s' v = (s v)\<lparr>vm_end := lo\<rparr>" for u by (simp_all add: s'_def on_vma_at)
  have o: "mapped s' us a = mapped s us a" "mapped s' vs a = mapped s vs a" for a
    using A(7,8) by (simp_all add: s'_def mapped_on)
  have "\<forall>w\<in>set vs. lo \<le> vm_start (s w)" using A(2) c(2) by (meson less_imp_le order_trans)
  then have after: "\<forall>w\<in>set vs. lo \<le> vm_start (s' w)" using A(8) s'(1) by metis
  obtain res where res: "unmap_loop fresh name_ok lo hi (vm_next (s v)) (m', s') = Some res"
      "unmapped fresh lo hi (us @ [v]) vs (m', s') res"
    using rest A(5) by (auto simp: s'_def m'_def)
  have v: "mapped s' [v] a = mapped s [v] a" if "\<not> (lo \<le> a \<and> a < hi)" for a
  proof -
    have "(vm_start (s v) \<le> a \<and> a < lo) = (vm_start (s v) \<le> a \<and> a < vm_end (s v))" using that c by auto
    then show ?thesis by (simp add: mapped_Cons s'(2))
  qed
  from res(2) have "unmapped fresh lo hi us (v # vs) (m, s) res"
  proof (rule unmapped_step)
    show "mapped s' ((us @ [v]) @ vs) a = mapped s (us @ v # vs) a" if "\<not> (lo \<le> a \<and> a < hi)" for a
      using v [OF that] mapped_append [of s "[v]" vs a] mapped_append [of s' "[v]" vs a] by (simp add: o)
  qed (use after in auto)
  then show ?thesis using res(1) A(4) by (simp add: unmap_loop_Inr [OF turn_left [where s = s, OF c]] s'_def m'_def)
qed

text \<open>The whole walk, by induction on the nodes it has not seen.\<close>

lemma unmap_loop_spec:
  assumes "vma_ok m s (us @ vs)" and lo: "lo < hi" and "\<forall>u\<in>set us. vm_end (s u) \<le> lo"
    and "fresh \<noteq> 0 \<longrightarrow> fresh \<notin> set (us @ vs)"
  shows "\<exists>res. unmap_loop fresh name_ok lo hi (hd (vs @ [0])) (m, s) = Some res \<and> unmapped fresh lo hi us vs (m, s) res"
  using assms(1,3,4)
proof (induction vs arbitrary: us m s)
  case Nil
  then have "unmapped fresh lo hi us [] (m, s) (0, m, s)"
    using mapped_before [of us s lo] by (intro unmappedI) auto
  then show ?case by simp
next
  case (Cons v vs)
  note ok = Cons.prems(1)
  note A = vma_ok_around [OF ok] and D = vma_okD [OF ok]
  consider "vm_end (s v) \<le> lo" | "lo < vm_end (s v)" "hi \<le> vm_start (s v)"
    | "lo < vm_end (s v)" "vm_start (s v) < hi" "lo \<le> vm_start (s v)" "vm_end (s v) \<le> hi"
    | "vm_start (s v) < lo" "hi < vm_end (s v)" | "vm_start (s v) < lo" "lo < vm_end (s v)" "vm_end (s v) \<le> hi"
    | "lo \<le> vm_start (s v)" "vm_start (s v) < hi" "hi < vm_end (s v)"
    by fastforce
  then show ?case
  proof cases
    case 1
    have "vma_ok m s ((us @ [v]) @ vs)" using ok by simp
    from Cons.IH [OF this] obtain res where
      res: "unmap_loop fresh name_ok lo hi (vm_next (s v)) (m, s) = Some res" "unmapped fresh lo hi (us @ [v]) vs (m, s) res"
      using Cons.prems 1 A(5) by auto
    from res(2) have "unmapped fresh lo hi us (v # vs) (m, s) res" by (rule unmapped_step) auto
    then show ?thesis using res(1) A(4) by (simp add: unmap_loop_Inr [OF turn_skip [where s = s, OF 1]])
  next
    case 2
    have "hi \<le> vm_end (s v)" using 2 A(3) by simp
    then have "hi \<le> vm_start (s w)" if "w \<in> set (v # vs)" for w using that A(2) 2 by (auto intro: order_trans)
    then have "mapped s (v # vs) a = {}" if "a < hi" for a by (rule mapped_after) (use that in auto)
    then have "mapped s (us @ v # vs) a = {}" if "lo \<le> a" "a < hi" for a
      using mapped_before [of us s lo a] Cons.prems(2) that by simp
    then have "unmapped fresh lo hi us (v # vs) (m, s) (0, m, s)" using ok by (intro unmappedI) auto
    then show ?thesis using A(4) by (simp add: unmap_loop_Inl [OF turn_stop [where s = s, OF 2]])
  next
    case 3
    obtain m' s' where r: "vma_remove v (m, s) = (0, m', s')" "vma_ok m' s' (us @ vs)" "same_data UNIV s s'"
      using vma_remove_spec [OF ok] by blast
    have "\<exists>res. unmap_loop fresh name_ok lo hi (hd (vs @ [0])) (m', s') = Some res \<and> unmapped fresh lo hi us vs (m', s') res"
      by (rule Cons.IH [OF r(2)]) (use Cons.prems(2,3) in \<open>auto simp: same_dataD [OF r(3)]\<close>)
    then show ?thesis using unmap_removed [OF ok 3 r(1,3)] by simp
  next
    case 4
    then show ?thesis using unmap_cross [OF ok 4(1) lo 4(2) Cons.prems(3)] A(4) by simp
  next
    case 5
    define s' where "s' = on_vma v (\<lambda>x. x\<lparr>vm_end := lo\<rparr>) s"
    have ok': "vma_ok (use_less (vm_end (s v) - lo) m) s' ((us @ [v]) @ vs)"
      using shrink_left_spec [OF ok 5(1)] 5(2) by (simp add: s'_def)
    have "\<forall>u\<in>set (us @ [v]). vm_end (s' u) \<le> lo" using Cons.prems(2) A(7) by (auto simp: s'_def on_vma_at)
    from Cons.IH [OF ok' this] Cons.prems(3) show ?thesis using unmap_left [OF ok 5] by (simp add: s'_def)
  next
    case 6
    then show ?thesis using unmap_right [OF ok 6 Cons.prems(2)] by simp
  qed
qed

section \<open>What the operations promise\<close>

lemma vma_unmap_range_bad: "hi \<le> lo \<Longrightarrow> vma_unmap_range fresh name_ok lo hi ms = Some (- 1, ms)"
  by (simp add: vma_unmap_range_def)

text \<open>C38. Unmapping a range always returns; afterwards the list is again well formed, sorted and disjoint, with the
  byte count right; if it succeeds no address of the range is mapped and every other address is mapped as before,
  file offsets included; it fails only for an empty range or for lack of a node when one mapping covers the range on
  both sides, and then nothing has changed.\<close>

theorem vma_unmap_range_exact:
  assumes ok: "vma_ok m s ns" and f: "fresh \<noteq> 0 \<longrightarrow> fresh \<notin> set ns"
  shows "\<exists>r m' s' ns'. vma_unmap_range fresh name_ok lo hi (m, s) = Some (r, m', s') \<and> vma_ok m' s' ns' \<and>
    set ns' \<subseteq> insert fresh (set ns) \<and>
    (if r = 0 then lo < hi \<and> (\<forall>a. mapped s' ns' a = (if lo \<le> a \<and> a < hi then {} else mapped s ns a))
     else r = - 1 \<and> (m', s', ns') = (m, s, ns) \<and>
       (hi \<le> lo \<or> fresh = 0 \<and> (\<exists>v\<in>set ns. vm_start (s v) < lo \<and> hi < vm_end (s v))))"
proof (cases "hi \<le> lo")
  case True
  then show ?thesis using ok
    by (intro exI [of _ "- 1"] exI [of _ m] exI [of _ s] exI [of _ ns]) (auto simp: vma_unmap_range_bad)
next
  case False
  then have lo: "lo < hi" by simp
  from unmap_loop_spec [of m s "[]" ns lo hi fresh name_ok] obtain r m' s' where
    res: "unmap_loop fresh name_ok lo hi (hd (ns @ [0])) (m, s) = Some (r, m', s')" "unmapped fresh lo hi [] ns (m, s) (r, m', s')"
    using ok lo f by auto
  have run: "vma_unmap_range fresh name_ok lo hi (m, s) = Some (r, m', s')"
    using False res(1) vma_okD(8) [OF ok] by (simp add: vma_unmap_range_def)
  from res(2) obtain ns' where ns: "vma_ok m' s' ns'" "set ns' \<subseteq> insert fresh (set ns)"
      "if r = 0 then \<forall>a. mapped s' ns' a = (if lo \<le> a \<and> a < hi then {} else mapped s ns a)
       else r = - 1 \<and> fresh = 0 \<and> (m', s') = (m, s) \<and> (\<exists>v\<in>set ns. vm_start (s v) < lo \<and> hi < vm_end (s v))"
    by (auto simp: unmapped_def)
  show ?thesis
  proof (cases "r = 0")
    case True
    then show ?thesis using run ns lo by (intro exI [of _ r] exI [of _ m'] exI [of _ s'] exI [of _ ns']) simp
  next
    case False
    then show ?thesis using run ns ok by (intro exI [of _ r] exI [of _ m'] exI [of _ s'] exI [of _ ns]) auto
  qed
qed

text \<open>Concrete nodes.\<close>

definition ex_node :: "u64 \<Rightarrow> u64 \<Rightarrow> vma_t \<Rightarrow> vma_t \<Rightarrow> vma" where
  "ex_node lo hi nxt prv = \<lparr>vm_start = lo, vm_end = hi, vm_flags = 3, vm_type = VMA_TYPE_FILE, vm_fd = 4,
     vm_offset = 0x100, shm_id = - 1, vm_name = None, vm_next = nxt, vm_prev = prv\<rparr>"

definition ex_vmas :: vma_store where
  "ex_vmas = (\<lambda>p. if p = 1 then ex_node 0x1000 0x4000 2 0 else if p = 2 then ex_node 0x6000 0x7000 0 1
                 else ex_node 0x4800 0x5000 0 0)"

definition ex_mgr :: vma_manager_t where
  "ex_mgr = \<lparr>vma_list = 1, vm_total = 0, vm_used = 0x4000\<rparr>"

lemma ex_vmas_ok: "vma_ok ex_mgr ex_vmas [1, 2]"
  by (simp add: vma_ok_def ex_mgr_def ex_vmas_def ex_node_def dlinked_def)

lemma vma_unmap_range_exact_witness:
  "\<exists>m' s' ns'. vma_unmap_range 3 True 0x2000 0x3000 (ex_mgr, ex_vmas) = Some (0, m', s') \<and> vma_ok m' s' ns' \<and>
    (\<forall>a. mapped s' ns' a = (if 0x2000 \<le> a \<and> a < 0x3000 then {} else mapped ex_vmas [1, 2] a))"
proof -
  have "(3 :: vma_t) \<noteq> 0 \<longrightarrow> 3 \<notin> set [1 :: vma_t, 2]" by simp
  from vma_unmap_range_exact [OF ex_vmas_ok this, of True "0x2000" "0x3000"] obtain r m' s' ns' where
    r: "vma_unmap_range 3 True 0x2000 0x3000 (ex_mgr, ex_vmas) = Some (r, m', s')" "vma_ok m' s' ns'"
      "if r = 0 then (0x2000 :: u64) < 0x3000 \<and>
         (\<forall>a. mapped s' ns' a = (if 0x2000 \<le> a \<and> a < 0x3000 then {} else mapped ex_vmas [1, 2] a))
       else r = - 1 \<and> (m', s', ns') = (ex_mgr, ex_vmas, [1, 2]) \<and>
         ((0x3000 :: u64) \<le> 0x2000 \<or> (3 :: vma_t) = 0 \<and>
          (\<exists>v\<in>set [1, 2]. vm_start (ex_vmas v) < 0x2000 \<and> 0x3000 < vm_end (ex_vmas v)))"
    by blast
  from r(3) have z: "r = 0" by (cases "r = 0") simp_all
  show ?thesis using r(1,2) r(3) [unfolded if_P [OF z]] z by blast
qed

text \<open>C39. Inserting a node with a non-empty range: if some mapping meets the range the call fails and changes nothing;
  otherwise the list stays well formed, sorted and disjoint with its byte count, the addresses of the range are mapped
  to the new node and every other address is mapped as before.\<close>

theorem vma_insert_exact:
  assumes ok: "vma_ok m s ns" and new: "new \<noteq> 0" "new \<notin> set ns" "vm_start (s new) < vm_end (s new)"
  shows "\<exists>r m' s' ns'. vma_insert new (m, s) = Some (r, m', s') \<and> vma_ok m' s' ns' \<and>
    (if \<exists>v\<in>set ns. vm_start (s v) < vm_end (s new) \<and> vm_start (s new) < vm_end (s v)
     then r = - 1 \<and> (m', s', ns') = (m, s, ns)
     else r = 0 \<and> set ns' = insert new (set ns) \<and>
       (\<forall>a. mapped s' ns' a =
          (if vm_start (s new) \<le> a \<and> a < vm_end (s new) then {vma_at (s new) a} else mapped s ns a)))"
proof (cases "\<exists>v\<in>set ns. vm_start (s v) < vm_end (s new) \<and> vm_start (s new) < vm_end (s v)")
  case True
  then obtain v where v: "v \<in> set ns" "vm_start (s v) < vm_end (s new)" "vm_start (s new) < vm_end (s v)" by blast
  then have "meets s (vm_start (s new)) (vm_end (s new)) v" by (simp add: meets_def not_le)
  then have "or_null (find (meets s (vm_start (s new)) (vm_end (s new))) ns) \<noteq> 0"
    using or_null_find [OF vma_okD(6) [OF ok], of "meets s (vm_start (s new)) (vm_end (s new))"] v(1) by metis
  then have "vma_insert new (m, s) = Some (- 1, m, s)"
    using new(1) by (simp add: vma_insert_def vma_find_intersection_list [OF ok])
  then show ?thesis using True ok by auto
next
  case False
  then have "\<not> meets s (vm_start (s new)) (vm_end (s new)) v" if "v \<in> set ns" for v using that by (auto simp: meets_def)
  from vma_insert_spec [OF ok new this] obtain m' s' us vs where
    r: "vma_insert new (m, s) = Some (0, m', s')" "ns = us @ vs" "vma_ok m' s' (us @ new # vs)" "same_data UNIV s s'"
    by blast
  have d: "mapped s' xs a = mapped s xs a" for xs a
    using r(4) by (intro same_data_mapped) (simp add: same_data_def)
  have "mapped s ns a = {}" if "vm_start (s new) \<le> a" "a < vm_end (s new)" for a
    using False that by (fastforce simp: mapped_def)
  then have "mapped s' (us @ new # vs) a =
      (if vm_start (s new) \<le> a \<and> a < vm_end (s new) then {vma_at (s new) a} else mapped s ns a)" for a
    by (auto simp: d mapped_Cons same_dataD [OF r(4)] r(2))
  then show ?thesis using False r
    by (intro exI [of _ 0] exI [of _ m'] exI [of _ s'] exI [of _ "us @ new # vs"]) auto
qed

lemma vma_insert_exact_witness:
  "\<exists>m' s' ns'. vma_insert 4 (ex_mgr, ex_vmas) = Some (0, m', s') \<and> vma_ok m' s' ns' \<and> set ns' = {4, 1, 2} \<and>
    (\<forall>a. mapped s' ns' a = (if 0x4800 \<le> a \<and> a < 0x5000 then {vma_at (ex_vmas 4) a} else mapped ex_vmas [1, 2] a))"
proof -
  have 4: "vm_start (ex_vmas 4) = 0x4800" "vm_end (ex_vmas 4) = 0x5000" by (simp_all add: ex_vmas_def ex_node_def)
  have none: "\<not> (\<exists>v\<in>set [1, 2]. vm_start (ex_vmas v) < 0x5000 \<and> 0x4800 < vm_end (ex_vmas v))"
    by (simp add: ex_vmas_def ex_node_def)
  have "\<exists>r m' s' ns'. vma_insert 4 (ex_mgr, ex_vmas) = Some (r, m', s') \<and> vma_ok m' s' ns' \<and>
      (r = 0 \<and> set ns' = insert 4 (set [1, 2]) \<and>
       (\<forall>a. mapped s' ns' a = (if 0x4800 \<le> a \<and> a < 0x5000 then {vma_at (ex_vmas 4) a} else mapped ex_vmas [1, 2] a)))"
    using vma_insert_exact [OF ex_vmas_ok, of 4] unfolding 4 if_not_P [OF none] by simp
  then show ?thesis by (simp split del: if_split) blast
qed

text \<open>\<open>vma_find\<close> always returns, and returns the one mapping that contains the address, or null when none does.\<close>

theorem vma_find_exact:
  assumes "vma_ok m s ns"
  shows "\<exists>v. vma_find a (m, s) = Some v \<and>
    (if v = 0 then mapped s ns a = {}
     else v \<in> set ns \<and> vm_start (s v) \<le> a \<and> a < vm_end (s v) \<and> mapped s ns a = {vma_at (s v) a})"
proof -
  let ?P = "\<lambda>v. vm_start (s v) \<le> a \<and> a < vm_end (s v)"
  note D = vma_okD [OF assms]
  have run: "vma_find a (m, s) = Some (or_null (find ?P ns))" by (simp add: vma_find_def find_node_linked [OF D(7)])
  show ?thesis
  proof (cases "or_null (find ?P ns) = 0")
    case True
    then have "\<forall>v\<in>set ns. \<not> ?P v" using or_null_find [OF D(6), of ?P] by blast
    then show ?thesis using run True by (auto simp: mapped_def)
  next
    case False
    define v where "v = or_null (find ?P ns)"
    have P: "v \<in> set ns" "?P v" using or_null_found [OF False] unfolding v_def by blast+
    obtain us vs where ns: "ns = us @ v # vs" using split_list [OF P(1)] by blast
    have v: "or_null (find ?P ns) = v" "ns = us @ v # vs" "?P v" "v \<noteq> 0" using False P(2) ns unfolding v_def by blast+
    note A = vma_ok_around [OF assms [unfolded ns]]
    have "mapped s us a = {}" by (rule mapped_before [of us s "vm_start (s v)"]) (use A(1) v(3) in auto)
    moreover have "mapped s vs a = {}" by (rule mapped_after [of vs "vm_end (s v)" s]) (use A(2) v(3) in auto)
    ultimately show ?thesis using run v by (simp add: mapped_Cons)
  qed
qed

lemma vma_find_exact_witness:
  "\<exists>v. vma_find 0x6800 (ex_mgr, ex_vmas) = Some v \<and>
    (if v = 0 then mapped ex_vmas [1, 2] 0x6800 = {}
     else v \<in> set [1, 2] \<and> vm_start (ex_vmas v) \<le> 0x6800 \<and> 0x6800 < vm_end (ex_vmas v) \<and>
       mapped ex_vmas [1, 2] 0x6800 = {vma_at (ex_vmas v) 0x6800})"
  by (rule vma_find_exact [OF ex_vmas_ok])

text \<open>Splitting a node inside its range gives two nodes that together map every address to what the one node
  mapped it to, and the bytes in use stay the same.\<close>

theorem vma_split_transparent:
  assumes "vma_ok m s (us @ v # vs)" and "vm_start (s v) < a" "a < vm_end (s v)"
    and "fresh \<noteq> 0" "fresh \<notin> set (us @ v # vs)"
  shows "\<exists>s'. vma_split fresh name_ok v a s = (0, s') \<and> vma_ok m s' (us @ v # fresh # vs) \<and>
    vm_end (s' v) = a \<and> vm_start (s' fresh) = a \<and>
    (\<forall>b. mapped s' (us @ v # fresh # vs) b = mapped s (us @ v # vs) b)"
proof -
  obtain s' where s': "vma_split fresh name_ok v a s = (0, s')" "vma_ok m s' (us @ v # fresh # vs)"
      "same_data (set us \<union> set vs) s s'" "vm_start (s' v) = vm_start (s v)" "vm_end (s' v) = a"
      "vm_start (s' fresh) = a" "vm_end (s' fresh) = vm_end (s v)"
      "\<forall>b. vma_at (s' v) b = vma_at (s v) b \<and> vma_at (s' fresh) b = vma_at (s v) b"
    using vma_split_spec [OF assms] by blast
  have "mapped s' us b = mapped s us b" "mapped s' vs b = mapped s vs b" for b
    using s'(3) by (simp_all add: same_data_mapped same_data_def)
  then have "mapped s' (us @ v # fresh # vs) b = mapped s (us @ v # vs) b" for b
    using assms(2,3) s'(4-8) by (auto simp: mapped_Cons)
  then show ?thesis using s'(1,2,5,6) by (intro exI [of _ s']) simp
qed

lemma vma_split_transparent_witness:
  "\<exists>s'. vma_split 3 True 1 0x2000 ex_vmas = (0, s') \<and> vma_ok ex_mgr s' ([] @ 1 # 3 # [2]) \<and>
    vm_end (s' 1) = 0x2000 \<and> vm_start (s' 3) = 0x2000 \<and>
    (\<forall>b. mapped s' ([] @ 1 # 3 # [2]) b = mapped ex_vmas ([] @ 1 # [2]) b)"
  by (rule vma_split_transparent) (use ex_vmas_ok in \<open>simp_all add: ex_vmas_def ex_node_def\<close>)

text \<open>Merging does not look at the file offset: two adjacent mappings of one file whose offsets do not follow on
  are merged, and an address of the second one is then mapped to another place in the file.\<close>

theorem vma_merge_moves_file_offset:
  assumes "v \<noteq> 0" "w \<noteq> 0" "v \<noteq> w" and "vm_end (s v) = vm_start (s w)"
    and "vm_flags (s v) = vm_flags (s w)" "vm_type (s v) = VMA_TYPE_FILE" "vm_type (s w) = VMA_TYPE_FILE"
    and "vm_fd (s v) = vm_fd (s w)" and "vm_offset (s w) \<noteq> vm_offset (s v) + (vm_end (s v) - vm_start (s v))"
  shows "fst (vma_merge v w s) = 0 \<and> vm_end (snd (vma_merge v w s) v) = vm_end (s w) \<and>
    vma_at (snd (vma_merge v w s) v) a \<noteq> vma_at (s w) a"
proof -
  define s1 where "s1 = on_vma v (\<lambda>x. x\<lparr>vm_end := vm_end (s w), vm_next := vm_next (s w)\<rparr>) s"
  define s' where "s' = (if vm_next (s w) \<noteq> 0 then on_vma (vm_next (s w)) (\<lambda>x. x\<lparr>vm_prev := v\<rparr>) s1 else s1)"
  have w: "s1 w = s w" using assms(3) by (simp add: s1_def on_vma_at)
  have run: "vma_merge v w s = (0, s')"
    using assms(1-8) w by (simp add: vma_merge_def Let_def s1_def [symmetric] s'_def)
  have "vm_end (s' v) = vm_end (s w)" "vm_start (s' v) = vm_start (s v)" "vm_offset (s' v) = vm_offset (s v)"
      "vm_type (s' v) = VMA_TYPE_FILE"
    using assms(6) by (auto simp add: s'_def s1_def on_vma_at)
  moreover have "vm_offset (s v) + (a - vm_start (s v)) \<noteq> vm_offset (s w) + (a - vm_start (s w))"
    using assms(9) by (auto simp: assms(4) [symmetric] algebra_simps)
  ultimately show ?thesis using run assms(7) by (simp add: vma_at_def)
qed

lemma vma_merge_moves_file_offset_witness:
  "fst (vma_merge 1 2 (ex_vmas(2 := ex_node 0x4000 0x5000 0 1))) = 0 \<and>
   vm_end (snd (vma_merge 1 2 (ex_vmas(2 := ex_node 0x4000 0x5000 0 1))) 1) =
     vm_end ((ex_vmas(2 := ex_node 0x4000 0x5000 0 1)) 2) \<and>
   vma_at (snd (vma_merge 1 2 (ex_vmas(2 := ex_node 0x4000 0x5000 0 1))) 1) 0x4800 \<noteq>
     vma_at ((ex_vmas(2 := ex_node 0x4000 0x5000 0 1)) 2) 0x4800"
  by (rule vma_merge_moves_file_offset) (simp_all add: ex_vmas_def ex_node_def)

text \<open>Leaving: every node is freed once, in order.\<close>

lemma cleanup_loop_list:
  "vma_ok m s ns \<Longrightarrow> \<exists>m' s'. cleanup_loop (vma_list m) (m, s) = Some (ns, m', s') \<and> (\<forall>p. p \<notin> set ns \<longrightarrow> s' p = s p)"
proof (induction ns arbitrary: m s)
  case Nil
  then show ?case using vma_okD(8) [OF Nil] by (simp add: cleanup_loop.simps)
next
  case (Cons v vs)
  obtain m1 s1 where r: "vma_remove v (m, s) = (0, m1, s1)" "vma_ok m1 s1 vs" "\<forall>p. p \<notin> set (v # vs) \<longrightarrow> s1 p = s p"
    using vma_remove_spec [of m s "[]" v vs] Cons.prems by auto
  have "vma_list m = v" "v \<noteq> 0" using vma_okD(8) [OF Cons.prems] vma_okD(6) [OF Cons.prems] by auto
  moreover have "vma_list m1 = vm_next (s v)"
    using vma_okD(8) [OF r(2)] vma_ok_around(5) [of m s "[]" v vs] Cons.prems by simp
  ultimately show ?case using Cons.IH [OF r(2)] r(1,3) by (auto simp: cleanup_loop.simps [of v])
qed

lemma exit_cleanup_list:
  assumes "vma_ok m s ns"
  shows "\<exists>m' s'. vma_manager_exit_cleanup (m, s) = Some (ns, m', s') \<and> m' = \<lparr>vma_list = 0, vm_total = 0, vm_used = 0\<rparr> \<and>
    vma_ok m' s' [] \<and> (\<forall>p. p \<notin> set ns \<longrightarrow> s' p = s p)"
proof -
  obtain m1 s1 where "cleanup_loop (vma_list m) (m, s) = Some (ns, m1, s1)" "\<forall>p. p \<notin> set ns \<longrightarrow> s1 p = s p"
    using cleanup_loop_list [OF assms] by blast
  then show ?thesis by (simp add: vma_manager_exit_cleanup_def vma_ok_def dlinked_def)
qed

text \<open>The cleanup of a leaving process always returns, frees every node of the list exactly once, and leaves an
  empty list with no bytes in use.\<close>

theorem vma_exit_cleanup_exact:
  assumes "vma_ok m s ns"
  shows "\<exists>m' s'. vma_manager_exit_cleanup (m, s) = Some (ns, m', s') \<and> distinct ns \<and>
    m' = \<lparr>vma_list = 0, vm_total = 0, vm_used = 0\<rparr> \<and> vma_ok m' s' []"
  using exit_cleanup_list [OF assms] vma_okD(5) [OF assms] by blast

lemma vma_exit_cleanup_exact_witness:
  "\<exists>m' s'. vma_manager_exit_cleanup (ex_mgr, ex_vmas) = Some ([1, 2], m', s') \<and> distinct [1 :: vma_t, 2] \<and>
    m' = \<lparr>vma_list = 0, vm_total = 0, vm_used = 0\<rparr> \<and> vma_ok m' s' []"
  by (rule vma_exit_cleanup_exact [OF ex_vmas_ok])

end
