(* ===== verification/VmaClone.thy ===== *)
theory VmaClone
  imports VmaRange
begin

text \<open>
  The copy of a process's mappings for a new process, \<open>vma_manager_clone\<close> in \<open>kernel/memory/vma.cpp\<close> (the
  operation itself is in \<open>Vma\<close>): one turn per node of the source list, and the whole copy.
\<close>

lemma vma_ok_cong:
  assumes "\<And>v. v \<in> set ns \<Longrightarrow> s' v = s v" and ok: "vma_ok m s ns"
  shows "vma_ok m s' ns"
proof (rule vma_ok_relink)
  note D = vma_okD [OF ok]
  show "dlinked (\<lambda>v. vm_next (s' v)) (\<lambda>v. vm_prev (s' v)) (vma_list m) (last (0 # ns)) ns"
    using D(1) linked_cong [of ns "\<lambda>v. vm_next (s' v)" "\<lambda>v. vm_next (s v)"]
      backlinked_cong [of ns "\<lambda>v. vm_prev (s' v)" "\<lambda>v. vm_prev (s v)"] assms(1) by (simp add: dlinked_def)
  show "sorted_wrt (\<lambda>v w. vm_end (s' v) \<le> vm_start (s' w)) ns"
    by (rule sorted_wrt_mono_rel [OF _ D(3)]) (simp add: assms(1))
  show "vm_used m = vma_bytes s' ns" using D(4) bytes_cong [of ns s' s] assms(1) by simp
qed (use vma_okD(2) [OF ok] assms(1) in simp_all)

text \<open>No node of a well-formed list meets another.\<close>

lemma no_overlap:
  assumes ok: "vma_ok m s (us @ v # vs)"
  shows "find_node (\<lambda>p. p \<noteq> v \<and> \<not> vm_end (s v) \<le> vm_start (s p) \<and> \<not> vm_end (s p) \<le> vm_start (s v))
    (\<lambda>p. vm_next (s p)) (vma_list m) = Some 0"
proof -
  note A = vma_ok_around [OF ok]
  have "find (\<lambda>p. p \<noteq> v \<and> \<not> vm_end (s v) \<le> vm_start (s p) \<and> \<not> vm_end (s p) \<le> vm_start (s v)) (us @ v # vs) = None"
    using A(1,2) by (auto simp: find_None_iff)
  then show ?thesis by (simp add: find_node_linked [OF vma_okD(7) [OF ok]])
qed

text \<open>The new node as the turn fills it.\<close>

definition clone_node :: "vma_t \<Rightarrow> vma_t \<Rightarrow> string option \<Rightarrow> vma_store \<Rightarrow> vma_store" where
  "clone_node new v name s = s(new := (s v)\<lparr>vm_name := name, vm_next := 0, vm_prev := 0\<rparr>)"

lemma clone_turn_filled:
  assumes ok: "vma_ok sm s (us @ v # vs)" and new: "new \<noteq> 0" "new \<noteq> v"
    and cn: "vma_clone_name name_ok (s v) = (named, name)"
  shows "clone_turn (new, name_ok) (vma_list sm) v (m, s) =
    (if \<not> named then clone_fail (m, clone_node new v name s)
     else do {
       (r, m, s') \<leftarrow> vma_insert new (m, clone_node new v name s);
       if r \<noteq> 0 then clone_fail (m, s') else Some (Inr (vm_next (s' v)), m, s') })"
proof -
  define s1 where "s1 = snd (vma_alloc new s)"
  define s2 where "s2 = on_vma new (\<lambda>x. x\<lparr>vm_start := vm_start (s v), vm_end := vm_end (s v), vm_flags := vm_flags (s v),
      vm_type := vm_type (s v), vm_fd := vm_fd (s v), vm_offset := vm_offset (s v), shm_id := shm_id (s v)\<rparr>) s1"
  have al: "vma_alloc new s = (new, s1)" using new(1) by (simp add: s1_def vma_alloc_def)
  have v: "s1 v = s v" "s2 v = s v" using new by (simp_all add: s1_def s2_def vma_alloc_def on_vma_other)
  have "on_vma new (\<lambda>x. x\<lparr>vm_name := name\<rparr>) s2 = clone_node new v name s"
    using new v(1) by (cases "s v") (simp add: s2_def on_vma_def clone_node_def s1_def vma_alloc_def)
  moreover have "\<not> vm_end (s v) \<le> vm_start (s v)" using vma_ok_around(3) [OF ok] by simp
  ultimately show ?thesis
    using new(1) cn v by (simp add: clone_turn_def no_overlap [OF ok] al Let_def s2_def [symmetric])
qed

text \<open>What has been copied so far: the nodes \<open>ds\<close> of the new list map what the first nodes \<open>us\<close> of the source map.\<close>

definition copied :: "vma_manager_t \<Rightarrow> vma_store \<Rightarrow> vma_t list \<Rightarrow> vma_t list \<Rightarrow> bool" where
  "copied m s ds us \<longleftrightarrow> vma_ok m s ds \<and> vma_bytes s ds = vma_bytes s us \<and> (\<forall>a. mapped s ds a = mapped s us a)"

lemma copied_clear:
  assumes ok: "vma_ok sm s (us @ v # vs)" and cp: "copied m s ds us" and d: "d \<in> set ds"
  shows "\<not> meets s (vm_start (s v)) (vm_end (s v)) d"
proof
  assume m: "meets s (vm_start (s v)) (vm_end (s v)) d"
  note A = vma_ok_around [OF ok]
  define a where "a = max (vm_start (s v)) (vm_start (s d))"
  have "vm_start (s d) < vm_end (s d)" using cp d vma_okD(2) by (auto simp: copied_def)
  then have "vm_start (s d) \<le> a" "a < vm_end (s d)" "vm_start (s v) \<le> a"
    using m A(3) by (auto simp: a_def meets_def not_le max_def)
  then have "vma_at (s d) a \<in> mapped s ds a" using d unfolding mapped_def by blast
  moreover have "mapped s us a = {}"
    by (rule mapped_before [of us s "vm_start (s v)"]) (use A(1) \<open>vm_start (s v) \<le> a\<close> in auto)
  ultimately show False using cp by (simp add: copied_def)
qed

lemma clone_turn_copies:
  assumes ok: "vma_ok sm s (us @ v # vs)" and cp: "copied m s ds us" and disj: "set ds \<inter> set (us @ v # vs) = {}"
    and new: "new \<noteq> 0" "new \<notin> set ds" "new \<notin> set (us @ v # vs)" and nm: "vm_name (s v) = None \<or> name_ok"
  shows "\<exists>m' s' ds'. clone_turn (new, name_ok) (vma_list sm) v (m, s) = Some (Inr (vm_next (s v)), m', s') \<and>
    copied m' s' ds' (us @ [v]) \<and> set ds' = insert new (set ds) \<and> (\<forall>p. p \<notin> insert new (set ds) \<longrightarrow> s' p = s p)"
proof -
  define s0 where "s0 = clone_node new v (vm_name (s v)) s"
  have s0: "s0 new = (s v)\<lparr>vm_next := 0, vm_prev := 0\<rparr>" "p \<noteq> new \<Longrightarrow> s0 p = s p" for p
    by (cases "s v", simp_all add: s0_def clone_node_def)
  have ds: "vma_ok m s0 ds" using cp new(2) s0(2) unfolding copied_def by (metis vma_ok_cong)
  have lt: "vm_start (s0 new) < vm_end (s0 new)" using vma_ok_around(3) [OF ok] by (simp add: s0(1))
  have "\<not> meets s0 (vm_start (s0 new)) (vm_end (s0 new)) d" if "d \<in> set ds" for d
  proof -
    have "s0 d = s d" by (rule s0(2)) (use that new(2) in auto)
    then show ?thesis using copied_clear [OF ok cp that] by (simp add: meets_def s0(1))
  qed
  from vma_insert_spec [OF ds new(1,2) lt this] obtain m' s' xs ys where
    r: "vma_insert new (m, s0) = Some (0, m', s')" "ds = xs @ ys" "vma_ok m' s' (xs @ new # ys)"
      "same_data UNIV s0 s'" "\<forall>p. p \<notin> insert new (set ds) \<longrightarrow> s' p = s0 p"
    by blast
  have src: "s' p = s p" if "p \<in> set (us @ v # vs)" for p
    using that r(5) s0(2) disj new(3) by (metis Int_iff empty_iff insert_iff)
  have "s0 p = s p" if "p \<in> set ds" for p by (rule s0(2)) (use that new(2) in auto)
  then have dat: "same_data (set ds) s s'" using r(4) by (simp add: same_data_def)
  have n: "vm_start (s' new) = vm_start (s v)" "vm_end (s' new) = vm_end (s v)" "vma_at (s' new) a = vma_at (s v) a" for a
  proof -
    have "vma_at (s0 new) a = vma_at (s v) a" by (simp add: s0(1) vma_at_def)
    then show "vm_start (s' new) = vm_start (s v)" "vm_end (s' new) = vm_end (s v)" "vma_at (s' new) a = vma_at (s v) a"
      by (simp_all add: same_dataD [OF r(4)] s0(1))
  qed
  have parts: "mapped s' xs a \<union> mapped s' ys a = mapped s us a" "vma_bytes s' xs + vma_bytes s' ys = vma_bytes s us" for a
    using cp same_data_mapped [OF dat] same_data_bytes [OF dat] unfolding r(2) copied_def by simp_all
  have us: "mapped s' us a = mapped s us a" "vma_bytes s' us = vma_bytes s us" for a
    by (rule mapped_cong, use src in simp) (rule bytes_cong, use src in simp)
  have v: "s' v = s v" using src by simp
  have "mapped s' (xs @ new # ys) a = mapped s' (us @ [v]) a" for a
    unfolding mapped_append mapped_Cons mapped_Nil us n v parts(1) [symmetric] by (simp only: Un_ac Un_empty_left Un_empty_right)
  moreover have "vma_bytes s' (xs @ new # ys) = vma_bytes s' (us @ [v])"
    unfolding bytes_simps us n v parts(2) [symmetric] by simp
  ultimately have "copied m' s' (xs @ new # ys) (us @ [v])" using r(3) by (simp only: copied_def) simp
  moreover have "clone_turn (new, name_ok) (vma_list sm) v (m, s) = Some (Inr (vm_next (s v)), m', s')"
  proof -
    have "vma_clone_name name_ok (s v) = (True, vm_name (s v))" using nm by (auto simp: vma_clone_name_def)
    moreover have "new \<noteq> v" using new(3) by auto
    ultimately show ?thesis using clone_turn_filled [OF ok new(1)] r(1) v by (simp add: s0_def)
  qed
  ultimately show ?thesis using r(2,5) s0(2) by (intro exI [of _ m'] exI [of _ s'] exI [of _ "xs @ new # ys"]) auto
qed

lemma clone_turn_fails:
  assumes ok: "vma_ok sm s (us @ v # vs)" and cp: "copied m s ds us"
    and new: "new = 0 \<or> new \<notin> set ds \<and> new \<notin> set (us @ v # vs) \<and> vm_name (s v) \<noteq> None \<and> \<not> name_ok"
  shows "\<exists>s'. clone_turn (new, name_ok) (vma_list sm) v (m, s) =
      Some (Inl False, \<lparr>vma_list = 0, vm_total = 0, vm_used = 0\<rparr>, s') \<and>
    (\<forall>p. p \<notin> insert new (set ds) \<longrightarrow> s' p = s p)"
proof (cases "new = 0")
  case True
  have "clone_turn (new, name_ok) (vma_list sm) v (m, s) = clone_fail (m, s)"
    using True by (simp add: clone_turn_def no_overlap [OF ok] vma_alloc_def Let_def)
  then show ?thesis using cp exit_cleanup_list [of m s ds] by (auto simp: copied_def clone_fail_def)
next
  case False
  then have n: "new \<notin> set ds" "new \<noteq> v" "vm_name (s v) \<noteq> None" "\<not> name_ok" using new by auto
  define s0 where "s0 = clone_node new v None s"
  have s0: "p \<noteq> new \<Longrightarrow> s0 p = s p" for p by (simp add: s0_def clone_node_def)
  have "vma_ok m s0 ds" using cp n(1) s0 unfolding copied_def by (metis vma_ok_cong)
  moreover have "vma_clone_name name_ok (s v) = (False, None)" using n(3,4) by (auto simp: vma_clone_name_def)
  ultimately show ?thesis using clone_turn_filled [OF ok False n(2), of name_ok False None m] exit_cleanup_list [of m s0 ds] s0
    by (auto simp: clone_fail_def s0_def [symmetric])
qed

text \<open>The whole copy, by induction on the source nodes still to copy.\<close>

definition clone_good :: "(nat \<Rightarrow> vma_t \<times> bool) \<Rightarrow> nat \<Rightarrow> vma_store \<Rightarrow> vma_t list \<Rightarrow> bool" where
  "clone_good mem i s vs \<longleftrightarrow>
     (\<forall>j<List.length vs. fst (mem (i + j)) \<noteq> 0 \<and> (vm_name (s (vs ! j)) = None \<or> snd (mem (i + j))))"

lemma clone_good_Cons:
  "clone_good mem i s (v # vs) \<longleftrightarrow>
   fst (mem i) \<noteq> 0 \<and> (vm_name (s v) = None \<or> snd (mem i)) \<and> clone_good mem (Suc i) s vs"
  by (auto simp: clone_good_def less_Suc_eq_0_disj)

lemma clone_good_cong: "(\<And>v. v \<in> set vs \<Longrightarrow> s' v = s v) \<Longrightarrow> clone_good mem i s' vs = clone_good mem i s vs"
  by (auto simp: clone_good_def)

text \<open>The addresses the allocator gives from turn \<open>i\<close> on are new and different.\<close>

definition fresh_from :: "(nat \<Rightarrow> vma_t \<times> bool) \<Rightarrow> nat \<Rightarrow> nat \<Rightarrow> vma_t set \<Rightarrow> bool" where
  "fresh_from mem i n A \<longleftrightarrow>
     (\<forall>j<n. fst (mem (i + j)) = 0 \<or> fst (mem (i + j)) \<notin> A \<and> (\<forall>k<j. fst (mem (i + k)) \<noteq> fst (mem (i + j))))"

lemma fresh_from_Suc:
  assumes "fresh_from mem i (Suc n) A"
  shows "fst (mem i) = 0 \<or> fst (mem i) \<notin> A" and "fst (mem i) \<noteq> 0 \<Longrightarrow> fresh_from mem (Suc i) n (insert (fst (mem i)) A)"
proof -
  show "fst (mem i) = 0 \<or> fst (mem i) \<notin> A" using assms by (auto simp: fresh_from_def dest: spec [of _ 0])
  assume "fst (mem i) \<noteq> 0"
  show "fresh_from mem (Suc i) n (insert (fst (mem i)) A)"
    unfolding fresh_from_def
  proof (intro allI impI)
    fix j
    assume "j < n"
    then have "fst (mem (i + Suc j)) = 0 \<or> fst (mem (i + Suc j)) \<notin> A \<and> (\<forall>k<Suc j. fst (mem (i + k)) \<noteq> fst (mem (i + Suc j)))"
      using assms unfolding fresh_from_def by blast
    then show "fst (mem (Suc i + j)) = 0 \<or> fst (mem (Suc i + j)) \<notin> insert (fst (mem i)) A \<and>
        (\<forall>k<j. fst (mem (Suc i + k)) \<noteq> fst (mem (Suc i + j)))"
      by (auto simp: All_less_Suc2)
  qed
qed

lemma clone_loop_spec:
  assumes "vma_ok sm s (us @ vs)" and "copied m s ds us" and "set ds \<inter> set (us @ vs) = {}"
    and "fresh_from mem i (List.length vs) (set ds \<union> set (us @ vs))"
  shows "\<exists>m' s' ds'. clone_loop mem (vma_list sm) i (hd (vs @ [0])) (m, s) = Some (clone_good mem i s vs, m', s') \<and>
    (\<forall>p\<in>set (us @ vs). s' p = s p) \<and>
    (if clone_good mem i s vs then copied m' s' ds' (us @ vs) \<and> set ds' \<inter> set (us @ vs) = {}
     else m' = \<lparr>vma_list = 0, vm_total = 0, vm_used = 0\<rparr>)"
  using assms
proof (induction vs arbitrary: us m s ds i)
  case Nil
  then show ?case by (auto simp: clone_loop.simps [of _ _ _ 0] clone_good_def)
next
  case (Cons v vs)
  note ok = Cons.prems(1)
  note A = vma_ok_around [OF ok]
  define new where "new = fst (mem i)"
  define named where "named = snd (mem i)"
  have mem: "mem i = (new, named)" by (simp add: new_def named_def)
  note F = fresh_from_Suc [OF Cons.prems(4) [unfolded list.size add_Suc_right add_0_right], folded new_def]
  show ?case
  proof (cases "new \<noteq> 0 \<and> (vm_name (s v) = None \<or> named)")
    case False
    then have bad: "\<not> clone_good mem i s (v # vs)" by (auto simp: clone_good_Cons mem simp del: not_None_eq)
    have "new = 0 \<or> new \<notin> set ds \<and> new \<notin> set (us @ v # vs) \<and> vm_name (s v) \<noteq> None \<and> \<not> named" using False F(1) by auto
    from clone_turn_fails [OF ok Cons.prems(2) this] obtain s' where
      s': "clone_turn (mem i) (vma_list sm) v (m, s) = Some (Inl False, \<lparr>vma_list = 0, vm_total = 0, vm_used = 0\<rparr>, s')"
        "\<forall>p. p \<notin> insert new (set ds) \<longrightarrow> s' p = s p"
      unfolding mem by blast
    have "\<forall>p\<in>set (us @ v # vs). s' p = s p"
      using s'(2) Cons.prems(3) F(1) vma_okD(6) [OF ok] by (metis Int_iff UnCI empty_iff insert_iff)
    then show ?thesis using bad s'(1) A(4) by (simp add: clone_loop.simps [of _ _ _ v])
  next
    case True
    then have new: "new \<noteq> 0" "new \<notin> set ds" "new \<notin> set (us @ v # vs)" "vm_name (s v) = None \<or> named" using F(1) by auto
    from clone_turn_copies [OF ok Cons.prems(2,3) new] obtain m1 s1 ds1 where
      r: "clone_turn (mem i) (vma_list sm) v (m, s) = Some (Inr (vm_next (s v)), m1, s1)" "copied m1 s1 ds1 (us @ [v])"
        "set ds1 = insert new (set ds)" "\<forall>p. p \<notin> insert new (set ds) \<longrightarrow> s1 p = s p"
      unfolding mem by blast
    have same: "s1 p = s p" if "p \<in> set (us @ v # vs)" for p using r(4) that new(3) Cons.prems(3) by (metis Int_iff empty_iff insert_iff)
    have ok1: "vma_ok sm s1 ((us @ [v]) @ vs)" using vma_ok_cong [OF same ok] by simp
    have d1: "set ds1 \<inter> set ((us @ [v]) @ vs) = {}" using r(3) new(3) Cons.prems(3) by auto
    have f1: "fresh_from mem (Suc i) (List.length vs) (set ds1 \<union> set ((us @ [v]) @ vs))" using F(2) [OF new(1)] r(3) by (simp add: insert_commute)
    have "clone_good mem (Suc i) s1 vs = clone_good mem i s (v # vs)"
      using new(1,4) clone_good_cong [of vs s1 s mem "Suc i"] same by (simp add: clone_good_Cons mem)
    then show ?thesis
      using Cons.IH [OF ok1 r(2) d1 f1] r(1) A(4,5) same by (auto simp: clone_loop.simps [of _ _ _ v])
  qed
qed

text \<open>C40. Copying a process's mappings always returns and leaves the source list as it was.  It succeeds exactly when
  every node, and every name that is needed, could be allocated; then the new list is well formed, shares no node with
  the source, maps every address to what the source maps it to, and has the same bytes in use.  Otherwise the new
  list is empty.\<close>

theorem vma_clone_exact:
  assumes ok: "vma_ok sm s ns" and fr: "fresh_from mem 0 (List.length ns) (set ns)"
  shows "\<exists>m' s' ds. vma_manager_clone mem sm (dst, s) = Some (clone_good mem 0 s ns, m', s') \<and>
    vma_ok sm s' ns \<and> (\<forall>p\<in>set ns. s' p = s p) \<and>
    (if clone_good mem 0 s ns
     then vma_ok m' s' ds \<and> set ds \<inter> set ns = {} \<and> vm_used m' = vm_used sm \<and> (\<forall>a. mapped s' ds a = mapped s ns a)
     else m' = \<lparr>vma_list = 0, vm_total = 0, vm_used = 0\<rparr>)"
proof -
  define m0 where "m0 = dst\<lparr>vma_list := 0, vm_total := vm_total sm, vm_used := 0\<rparr>"
  have "copied m0 s [] []" by (simp add: copied_def vma_ok_def dlinked_def m0_def)
  note spec = clone_loop_spec [where us = "[]" and ds = "[]" and vs = ns and i = 0 and mem = mem,
      unfolded append_Nil list.set(1) Un_empty_left, OF ok this Int_empty_left fr]
  obtain m' s' ds where
    r: "clone_loop mem (vma_list sm) 0 (hd (ns @ [0])) (m0, s) = Some (clone_good mem 0 s ns, m', s')" "\<forall>p\<in>set ns. s' p = s p"
      "if clone_good mem 0 s ns then copied m' s' ds ns \<and> set ds \<inter> set ns = {}
       else m' = \<lparr>vma_list = 0, vm_total = 0, vm_used = 0\<rparr>"
    using spec by blast
  have run: "vma_manager_clone mem sm (dst, s) = Some (clone_good mem 0 s ns, m', s')"
    using r(1) vma_okD(8) [OF ok] by (simp add: vma_manager_clone_def m0_def)
  have src: "vma_ok sm s' ns" by (rule vma_ok_cong [OF _ ok]) (use r(2) in simp)
  have eq: "mapped s' ns a = mapped s ns a" for a by (rule mapped_cong) (use r(2) in simp)
  have "vm_used m' = vm_used sm \<and> vma_ok m' s' ds \<and> (\<forall>a. mapped s' ds a = mapped s ns a)" if "copied m' s' ds ns"
    using that vma_okD(4) [OF src] vma_okD(4) [of m' s' ds] by (simp add: copied_def eq)
  then show ?thesis using run src r(2,3) by (intro exI [of _ m'] exI [of _ s'] exI [of _ ds]) auto
qed

lemma vma_clone_exact_witness:
  "\<exists>m' s' ds. vma_manager_clone (\<lambda>i. (if i = 0 then 5 else 6, True)) ex_mgr (ex_mgr, ex_vmas) = Some (True, m', s') \<and>
    vma_ok ex_mgr s' [1, 2] \<and> vma_ok m' s' ds \<and> set ds \<inter> set [1, 2] = {} \<and> vm_used m' = 0x4000 \<and>
    (\<forall>a. mapped s' ds a = mapped ex_vmas [1, 2] a)"
proof -
  let ?mem = "\<lambda>i :: nat. (if i = 0 then 5 else 6 :: vma_t, True)"
  have g: "clone_good ?mem 0 ex_vmas [1, 2]" by (auto simp: clone_good_def)
  have f: "fresh_from ?mem 0 (length [1 :: vma_t, 2]) (set [1, 2])" by (auto simp: fresh_from_def less_Suc_eq)
  have "vm_used ex_mgr = 0x4000" by (simp add: ex_mgr_def)
  then show ?thesis using vma_clone_exact [OF ex_vmas_ok f, of ex_mgr] g by auto
qed

end
