(* ===== verification/Spec2Isabelle.thy ===== *)
theory Spec2Isabelle
  imports Palloc VmapWalk SchedCreate Mutex Kmalloc Timer UartBaud PlatDevice Device Console Tmpfs LockQueue Pipe Irq Bitmap AtomQueue VmaClone
begin

text \<open>
  Verification library for the ARM32 (Zynq-7020) port of OpenXJ380.

  \<^bold>\<open>The program.\<close>  The repository is the OpenXJ380 kernel with a port of its base to a dual-core
  ARMv7-A board under \<open>src/arch/arm32\<close>.  The port boots one binary whose C parts are layered: the page
  allocator hands out physical pages; the level-1 MMU table is built from a checked region list; single
  pages are remapped inside it; kernel stacks with guard pages are taken from a pool of such pages; a heap
  serves \<open>malloc\<close>; tasks live in the heap, own a kernel stack, wait in per-CPU run queues and are switched
  by the timer interrupt; mutexes block by yielding to that scheduler; a device table with a byte-addressed
  block layer sits on top, and everything reports through one formatter; interrupts reach the scheduler's
  tick through the GIC driver.  Beside it stand parts of the C++ kernel that are independent of the
  processor: the in-memory file system, pipes, the indexed queue, byte rings, bit maps and the list of a
  process's mappings.

  \<^bold>\<open>Conventions.\<close>  Machine integers are words of their width (\<open>u8\<close>, \<open>u32\<close>, \<open>u64\<close>), so every sum that can
  wrap does.  A C object is a record with the fields of the struct, a table indexed by the program is a
  function on indices, memory is a function from addresses to bytes.  Error codes are datatypes with the
  source's constructors or the integers the source returns.  \<open>None\<close> stands for an endless loop or for an
  access that C leaves undefined.  Hardware readings, clock values, driver callbacks and the lock operations
  around a critical section are arguments; what a theorem needs of them is a named predicate in its
  statement (a clock that keeps running, a driver that reads back what was written), and its witness instantiates
  it with a concrete function.

  \<^bold>\<open>Theories and sources.\<close>
    \<^item> \<open>Prelude\<close>: integer types, packed cell arrays with their locale, word and counting lemmas.
    \<^item> \<open>Palloc\<close>: \<open>palloc.c\<close>, the bitmap page allocator: reservation, first-fit runs, checked free.
    \<^item> \<open>ArmWalk\<close>: the specification the MMU theories are measured by: the ARMv7-A short-descriptor walk with the
      memory types and access permissions of the architecture manual, written without any definition of the code.
    \<^item> \<open>Mmu\<close>: \<open>mmu.c\<close>, the region check and the level-1 table built from it.
    \<^item> \<open>PageMapper\<close>, \<open>Vmap\<close>: \<open>vmap.c\<close>, splitting sections and mapping single pages.  The locale
      states what a client may assume of a mapper; \<open>Vmap\<close> interprets it.  \<open>VmapWalk\<close> carries its results to the
      walk of \<open>ArmWalk\<close>: what the processor translates after a split and after a mapping.
    \<^item> \<open>Kstack\<close>: \<open>kstack.c\<close>, the pool of guarded stacks, a client of the page mapper.
    \<^item> \<open>Tcb\<close>, \<open>RunQueue\<close>, \<open>Sched\<close>: \<open>tcb.h\<close>, \<open>taskctx.h\<close>, \<open>sched.c\<close>: control blocks, linked run queues refining
      lists, virtual run time, selection of the next task, saved contexts.
    \<^item> \<open>Percpu\<close>, \<open>SchedKern\<close>, \<open>SchedTick\<close>, \<open>SchedCreate\<close>: \<open>percpu.c\<close>, \<open>sched_kern.c\<close>: the kernel scheduler over the
      policy: tick, switch, sleep, exit, nesting of the scheduler switch, creation of kernel threads.
    \<^item> \<open>Mutex\<close>: \<open>mutex.c\<close>, the recursive sleeping mutex run by several tasks.
    \<^item> \<open>Memory\<close>, \<open>Krlibc\<close>, \<open>KrStrings\<close>: byte memory and \<open>krlibc.c\<close>, the memory and string functions.
    \<^item> \<open>Heap\<close>, \<open>HeapLayout\<close>, \<open>HeapSafe\<close>, \<open>HeapRuns\<close>, \<open>Kmalloc\<close>: \<open>heap.c\<close> and \<open>kmalloc.c\<close>: the block list in
      memory, its layout, each operation, whole runs of a client, and the libc interface.
    \<^item> \<open>Timer\<close>, \<open>UartBaud\<close>, \<open>PlatDevice\<close>: \<open>timer.c\<close>, \<open>uart_baud.c\<close>, \<open>plat_device.c\<close>.
    \<^item> \<open>IdAlloc\<close>, \<open>BlockDev\<close>, \<open>Device\<close>: \<open>kernel/id_alloc.cpp\<close> and \<open>device.c\<close>: slot numbers, unaligned reads and
      writes over sector drivers, the device table.
    \<^item> \<open>Console\<close>: \<open>console.c\<close>, the format loop and its printers.
    \<^item> \<open>Irq\<close>: \<open>gic.c\<close>, the interrupt controller's registers as a log of writes, the handler table, the C side
      of interrupt and exception entry, and the checks of the saved frame.
    \<^item> \<open>Chain\<close>: singly and doubly linked lists through next functions, shared by the theories below.
    \<^item> \<open>Tmpfs\<close>: \<open>driver/fs/vfs/tmpfs.cpp\<close>, the tree of entries and the content of files.
    \<^item> \<open>Pipe\<close>: \<open>driver/fs/vfs/pipefs.cpp\<close>, the pipe's buffer, its two ends and the tasks that wait for it.
    \<^item> \<open>LockQueue\<close>: \<open>kernel/lock_queue.cpp\<close>, the doubly linked queue with indices and a round-robin cursor.
    \<^item> \<open>AtomQueue\<close>: \<open>kernel/atom_queue.cpp\<close>, the byte rings, one memory access per step.
    \<^item> \<open>Bitmap\<close>: \<open>kernel/memory/bitmap.cpp\<close>: setting ranges by bytes and looking for runs.
    \<^item> \<open>Vma\<close>, \<open>VmaRange\<close>, \<open>VmaClone\<close>: \<open>kernel/memory/vma.cpp\<close>: the sorted list of mappings, insertion, lookup,
      splitting and removal of a range, and the copy for a new process.

  \<^bold>\<open>What the lemmas show.\<close>  Each component has an invariant that its initialiser establishes and every
  operation keeps (page counters, disjoint mappings, stack slots, the heap's block list, run queues without
  duplicates, identifier counts), usually carried over whole runs by rule induction on a reachability
  predicate.  The operations are characterised on every branch, errors included.  Linked and packed
  representations are related to lists and sets by refinement lemmas (run queues, heap blocks, identifiers,
  bitmaps, file system entries, the mappings of a process as a function on addresses), page tables to the
  translation an ARMv7 processor makes of them, printed numbers to a reader of their digits.  Counters and registries are compared with
  histories recorded outside the code (the stacks handed out and taken back, the devices registered and
  deleted, the bytes pushed and popped, the tasks a pipe has put to sleep).  The pipe and the byte ring are shown to carry
  bytes in order under every interleaving of their sides.  Loops that may not end are proved to end where the
  claim needs it (heap search, timer reading, mutex acquisition under a fair scheduler).  Some theorems state what the code does where that is not
  what its comments promise: a lost mapping on a failed \<open>vmap_map\<close>, the wrap of the nanosecond clock, the
  bounded printer with a size above 2^31, old data behind a gap in a file, a search for clear bits that
  misses them, a ring for several sides that carries nothing, a size field that loses updates, a merge that
  moves a file mapping, a pipe whose sleepers nobody wakes in the ARM32 build.

  \<^bold>\<open>Bounds and fuel.\<close>  No definition takes fuel: loops are structural, have a measure, or are
  \<open>partial_function (option)\<close> with a separate proof that they return.  Buffer sizes, table sizes and address
  ranges are those of the source.

  \<^bold>\<open>Not modelled.\<close>  Assembly entry code, cache, TLB and device register access, the second core's start,
  the self tests of \<open>kmain.c\<close>, the x86-specific kernel, its system calls, drivers and process management,
  the user programs, the UEFI loader and third-party code (FAT, lwIP, media decoders).
  Interrupts between two instructions of one C function are not modelled: the scheduler, the mutex and the
  pipe are interleaved at the granularity of their critical sections; only the byte ring, which has no
  lock, is interleaved by single memory accesses.

  \<^bold>\<open>Two kernels.\<close>  \<open>pipefs.cpp\<close> is compiled into the upstream kernel and into the ARM32 one, which link different
  functions \<open>scheduler_wake_task\<close>.  The pipe's operations take that function as an argument: the order of bytes and the
  life of the ends are proved for both kernels, waking for the upstream function, and for the ARM32 stub that it wakes
  nobody.  The other theories model code that has one version, or the version of the ARM32 port.
\<close>

end
